(* ===== verification/Prelude.thy ===== *)
theory Prelude
  imports "HOL-Library.Word" "HOL-Library.Multiset"
begin

text \<open>
  Shared vocabulary of the libqb development: the C integer types as words, the
  \<^verbatim>\<open>errno\<close> values the library returns, byte-addressed memory with a circular mapping,
  and the generic lemmas on lists, words and modular arithmetic that the component theories
  use. The named collections gather the rewrite rules of each component.
\<close>

unbundle bit_operations_syntax

section \<open>Machine integers and error numbers\<close>

type_synonym u8 = "8 word"
type_synonym u16 = "16 word"
type_synonym u32 = "32 word"
type_synonym u64 = "64 word"

text \<open>Byte-addressed memory: a C object seen as its bytes.\<close>

type_synonym mem = "nat \<Rightarrow> u8"

text \<open>The \<^verbatim>\<open>errno\<close> values (Linux numbering) that the library's functions return negated.\<close>

abbreviation EPERM :: int where "EPERM \<equiv> 1"
abbreviation ENOENT :: int where "ENOENT \<equiv> 2"
abbreviation EINTR :: int where "EINTR \<equiv> 4"
abbreviation EBADF :: int where "EBADF \<equiv> 9"
abbreviation ENXIO :: int where "ENXIO \<equiv> 6"
abbreviation EAGAIN :: int where "EAGAIN \<equiv> 11"
abbreviation ENOMEM :: int where "ENOMEM \<equiv> 12"
abbreviation EEXIST :: int where "EEXIST \<equiv> 17"
abbreviation EINVAL :: int where "EINVAL \<equiv> 22"
abbreviation ERANGE :: int where "ERANGE \<equiv> 34"
abbreviation ENOSYS :: int where "ENOSYS \<equiv> 38"
abbreviation EIDRM :: int where "EIDRM \<equiv> 43"
abbreviation EBADMSG :: int where "EBADMSG \<equiv> 74"
abbreviation ENOTSUP :: int where "ENOTSUP \<equiv> 95"
abbreviation ENOBUFS :: int where "ENOBUFS \<equiv> 105"
abbreviation ETIMEDOUT :: int where "ETIMEDOUT \<equiv> 110"

lemma unat_u32_less: "unat (x :: u32) < 4294967296"
proof -
  have "unat x < 2 ^ LENGTH(32)" by (rule unsigned_less)
  then show ?thesis by simp
qed

lemma unat_u64_less: "unat (x :: u64) < 18446744073709551616"
proof -
  have "unat x < 2 ^ LENGTH(64)" by (rule unsigned_less)
  then show ?thesis by simp
qed

lemma sint_u32_ucast: "sint (ucast (x :: u64) :: u32) = (uint x + 2 ^ 31) mod 2 ^ 32 - 2 ^ 31"
proof -
  have "sint (ucast x :: u32) = signed_take_bit 31 (uint x)" by (simp add: sint_uint unsigned_ucast_eq signed_take_bit_take_bit)
  also have "\<dots> = take_bit 32 (uint x + 2 ^ 31) - 2 ^ 31" by (subst signed_take_bit_eq_take_bit_shift) simp
  finally show ?thesis by (simp add: take_bit_eq_mod)
qed

lemma sint_u32_small: "x < 2 ^ 31 \<Longrightarrow> sint (ucast (x :: u64) :: u32) = uint x"
proof -
  assume "x < 2 ^ 31"
  then have u: "uint x < 2 ^ 31" by (simp add: word_less_def)
  then have "(uint x + 2 ^ 31) mod 2 ^ 32 = uint x + 2 ^ 31" by (intro mod_pos_pos_trivial) auto
  then show ?thesis by (simp add: sint_u32_ucast)
qed

lemma sint_u32_negative: "2 ^ 31 \<le> x \<Longrightarrow> x < 2 ^ 32 \<Longrightarrow> sint (ucast (x :: u64) :: u32) < 0"
proof -
  assume "2 ^ 31 \<le> x" "x < 2 ^ 32"
  then have u: "2 ^ 31 \<le> uint x" "uint x < 2 ^ 32" by (simp_all add: word_less_def word_le_def)
  have "(uint x + 2 ^ 31) mod 2 ^ 32 = (uint x + 2 ^ 31 - 2 ^ 32) mod 2 ^ 32" by (rule minus_mod_self2[symmetric])
  also have "\<dots> = uint x + 2 ^ 31 - 2 ^ 32" using u by (intro mod_pos_pos_trivial) auto
  finally show ?thesis using u by (simp add: sint_u32_ucast)
qed

named_theorems mem_simps "rewrite rules of byte-addressed memory"
named_theorems rb_simps "field and accessor equations of the ring buffer"

section \<open>Modular windows\<close>

text \<open>
  Positions of a circular buffer are written as unreduced (virtual) positions and reduced
  only where memory is accessed; two virtual positions less than one lap apart never alias.
\<close>

lemma mod_window_neq:
  fixes a b n :: nat
  assumes "a < b" "b < a + n"
  shows "a mod n \<noteq> b mod n"
proof
  assume "a mod n = b mod n"
  then have "n dvd b - a" using assms(1) by (metis less_imp_le mod_eq_dvd_iff_nat)
  moreover have "0 < b - a" "b - a < n" using assms by auto
  ultimately show False using dvd_imp_le by fastforce
qed

lemma mod_window_eq_iff:
  fixes a b n :: nat
  assumes "a < b + n" "b < a + n"
  shows "a mod n = b mod n \<longleftrightarrow> a = b"
  using assms mod_window_neq[of a b n] mod_window_neq[of b a n] by (metis linorder_neqE_nat)

lemma mult_mod_offset:
  fixes p j k W :: nat
  assumes "j < k"
  shows "(k * p + j) mod (k * W) = k * (p mod W) + j"
  using assms by (simp add: mod_mult2_eq)

section \<open>Byte-addressed memory\<close>

text \<open>
  A 32-bit word is stored in four bytes, least significant first, at a word index.
\<close>

definition mem32_get :: "mem \<Rightarrow> nat \<Rightarrow> u32" where
  "mem32_get m i =
     ucast (m (4 * i)) OR push_bit 8 (ucast (m (4 * i + 1)))
     OR push_bit 16 (ucast (m (4 * i + 2))) OR push_bit 24 (ucast (m (4 * i + 3)))"

definition mem32_put :: "mem \<Rightarrow> nat \<Rightarrow> u32 \<Rightarrow> mem" where
  "mem32_put m i w =
     m(4 * i := ucast w, 4 * i + 1 := ucast (drop_bit 8 w),
       4 * i + 2 := ucast (drop_bit 16 w), 4 * i + 3 := ucast (drop_bit 24 w))"

lemma mem32_get_put_same [mem_simps]: "mem32_get (mem32_put m i w) i = w"
proof (rule bit_word_eqI)
  fix n
  assume "n < LENGTH(32)"
  then have "n < 8 \<or> (8 \<le> n \<and> n < 16) \<or> (16 \<le> n \<and> n < 24) \<or> (24 \<le> n \<and> n < 32)" by auto
  then show "bit (mem32_get (mem32_put m i w) i) n \<longleftrightarrow> bit w n"
    by (auto simp: mem32_get_def mem32_put_def bit_simps)
qed

lemma mem32_put_other [mem_simps]: "a div 4 \<noteq> i \<Longrightarrow> mem32_put m i w a = m a"
  by (auto simp: mem32_put_def)

lemma mem32_get_cong:
  assumes "\<And>j. j < 4 \<Longrightarrow> m (4 * i + j) = m' (4 * i + j)"
  shows "mem32_get m i = mem32_get m' i"
  using assms[of 0] assms[of 1] assms[of 2] assms[of 3] by (simp add: mem32_get_def)

lemma mem32_get_put_other [mem_simps]: "i \<noteq> k \<Longrightarrow> mem32_get (mem32_put m k w) i = mem32_get m i"
  by (rule mem32_get_cong) (auto intro!: mem32_put_other)

text \<open>
  Copies to and from a circularly mapped region of \<open>n\<close> bytes: byte \<open>off + k\<close> of the copy
  lives at address \<open>(off + k) mod n\<close>.
\<close>

fun mem_write :: "nat \<Rightarrow> mem \<Rightarrow> nat \<Rightarrow> u8 list \<Rightarrow> mem" where
  "mem_write n m off [] = m"
| "mem_write n m off (b # bs) = mem_write n (m(off mod n := b)) (Suc off) bs"

definition mem_read :: "nat \<Rightarrow> mem \<Rightarrow> nat \<Rightarrow> nat \<Rightarrow> u8 list" where
  "mem_read n m off len = map (\<lambda>i. m ((off + i) mod n)) [0..<len]"

lemma length_mem_read [simp]: "length (mem_read n m off len) = len"
  by (simp add: mem_read_def)

lemma mem_write_outside:
  "off + length bs \<le> x \<Longrightarrow> x < off + n \<Longrightarrow> mem_write n m off bs (x mod n) = m (x mod n)"
proof (induction bs arbitrary: m off)
  case (Cons b bs)
  then have "off mod n \<noteq> x mod n" by (intro mod_window_neq) auto
  with Cons show ?case by simp
qed simp

lemma mem_write_inside:
  "i < length bs \<Longrightarrow> length bs \<le> n \<Longrightarrow> mem_write n m off bs ((off + i) mod n) = bs ! i"
proof (induction bs arbitrary: m off i)
  case (Cons b bs)
  show ?case
  proof (cases i)
    case 0
    have "mem_write n (m(off mod n := b)) (Suc off) bs ((off + n) mod n) = (m(off mod n := b)) ((off + n) mod n)"
      by (rule mem_write_outside) (use Cons.prems in auto)
    with 0 show ?thesis by simp
  next
    case (Suc j)
    with Cons.IH[of j "m(off mod n := b)" "Suc off"] Cons.prems show ?thesis
      by (simp del: fun_upd_apply)
  qed
qed simp

lemma mem_read_write_same [mem_simps]:
  "length bs \<le> n \<Longrightarrow> mem_read n (mem_write n m off bs) off (length bs) = bs"
  by (rule nth_equalityI) (simp_all add: mem_read_def mem_write_inside)

lemma mem_read_cong:
  "(\<And>i. i < len \<Longrightarrow> m ((off + i) mod n) = m' ((off + i) mod n)) \<Longrightarrow>
   mem_read n m off len = mem_read n m' off len"
  by (simp add: mem_read_def)


end
