(* ===== verification/Ringbuffer.thy ===== *)
theory Ringbuffer
  imports Prelude
begin

text \<open>
  The ring buffer of \<^verbatim>\<open>lib/ringbuffer.c\<close>: a circular array of 32-bit words shared by a writer
  and a reader. A chunk is a two-word header (the byte length and a magic number) followed by
  its data, rounded up to whole words. \<^verbatim>\<open>qb_sys_circular_mmap\<close> maps the data twice in a row, so
  that an access that runs over the end continues at the beginning: the model reduces every
  byte address modulo the size of the data.

  The record below joins \<^verbatim>\<open>struct qb_ringbuffer_s\<close> and the \<^verbatim>\<open>struct qb_ringbuffer_shared_s\<close> it
  points to. The notifier is the struct of optional callbacks of the source over an instance
  of any type; a wait that never returns is \<open>None\<close>, and so is the peek or read that called it.
  Functions whose name has no \<^verbatim>\<open>qb_\<close> prefix are the bodies after the \<^verbatim>\<open>rb == NULL\<close> test of the
  function of the same name.
\<close>

section \<open>State\<close>

record 's qb_rb_notifier =
  post_fn :: "('s \<Rightarrow> u64 \<Rightarrow> int \<times> 's) option"
  q_len_fn :: "('s \<Rightarrow> int) option"
  space_used_fn :: "('s \<Rightarrow> int) option"
  timedwait_fn :: "('s \<Rightarrow> int \<Rightarrow> (int \<times> 's) option) option"
  reclaim_fn :: "('s \<Rightarrow> u64 \<Rightarrow> int \<times> 's) option"
  destroy_fn :: "('s \<Rightarrow> int \<times> 's) option"

record 's qb_ringbuffer =
  flags :: u32
  write_pt :: u32
  read_pt :: u32
  word_size :: u32
  hdr_path :: string
  data_path :: string
  ref_count :: int
  shared_data :: mem
  notifier :: "'s qb_rb_notifier"
  inst :: 's
  errno :: int

definition QB_RB_FLAG_CREATE :: u32 where "QB_RB_FLAG_CREATE = 0x01"
definition QB_RB_FLAG_OVERWRITE :: u32 where "QB_RB_FLAG_OVERWRITE = 0x02"
definition QB_RB_FLAG_SHARED_THREAD :: u32 where "QB_RB_FLAG_SHARED_THREAD = 0x04"
definition QB_RB_FLAG_SHARED_PROCESS :: u32 where "QB_RB_FLAG_SHARED_PROCESS = 0x08"
definition QB_RB_FLAG_NO_SEMAPHORE :: u32 where "QB_RB_FLAG_NO_SEMAPHORE = 0x10"

lemmas rb_flag_defs = QB_RB_FLAG_CREATE_def QB_RB_FLAG_OVERWRITE_def QB_RB_FLAG_SHARED_THREAD_def
  QB_RB_FLAG_SHARED_PROCESS_def QB_RB_FLAG_NO_SEMAPHORE_def

definition flag_set :: "u32 \<Rightarrow> u32 \<Rightarrow> bool" where
  "flag_set fl f = (fl AND f \<noteq> 0)"

definition QB_RB_CHUNK_MARGIN :: u64 where "QB_RB_CHUNK_MARGIN = 4 * (2 + 1 + 0)"
definition QB_RB_CHUNK_MAGIC :: u32 where "QB_RB_CHUNK_MAGIC = 0xA1A1A1A1"
definition QB_RB_CHUNK_MAGIC_DEAD :: u32 where "QB_RB_CHUNK_MAGIC_DEAD = 0xD0D0D0D0"
definition QB_RB_CHUNK_MAGIC_ALLOC :: u32 where "QB_RB_CHUNK_MAGIC_ALLOC = 0xA110CED0"

lemmas rb_magic_defs = QB_RB_CHUNK_MAGIC_def QB_RB_CHUNK_MAGIC_DEAD_def QB_RB_CHUNK_MAGIC_ALLOC_def

section \<open>Accesses to the shared data\<close>

text \<open>The word \<^verbatim>\<open>rb->shared_data[i]\<close>, through the double mapping.\<close>

definition shd_get :: "'s qb_ringbuffer \<Rightarrow> u32 \<Rightarrow> u32" where
  "shd_get rb i = mem32_get (shared_data rb) (unat i mod unat (word_size rb))"

definition shd_put :: "'s qb_ringbuffer \<Rightarrow> u32 \<Rightarrow> u32 \<Rightarrow> 's qb_ringbuffer" where
  "shd_put rb i v =
     rb\<lparr>shared_data := mem32_put (shared_data rb) (unat i mod unat (word_size rb)) v\<rparr>"

definition QB_RB_CHUNK_SIZE_GET :: "'s qb_ringbuffer \<Rightarrow> u32 \<Rightarrow> u32" where
  "QB_RB_CHUNK_SIZE_GET rb pointer = shd_get rb pointer"

definition QB_RB_CHUNK_MAGIC_GET :: "'s qb_ringbuffer \<Rightarrow> u32 \<Rightarrow> u32" where
  "QB_RB_CHUNK_MAGIC_GET rb pointer = shd_get rb ((pointer + 1) mod word_size rb)"

definition QB_RB_CHUNK_MAGIC_SET :: "'s qb_ringbuffer \<Rightarrow> u32 \<Rightarrow> u32 \<Rightarrow> 's qb_ringbuffer" where
  "QB_RB_CHUNK_MAGIC_SET rb pointer new_val = shd_put rb ((pointer + 1) mod word_size rb) new_val"

text \<open>The byte offset in the data that \<^verbatim>\<open>QB_RB_CHUNK_DATA_GET\<close> points at.\<close>

definition QB_RB_CHUNK_DATA_GET :: "'s qb_ringbuffer \<Rightarrow> u32 \<Rightarrow> nat" where
  "QB_RB_CHUNK_DATA_GET rb pointer = 4 * unat ((pointer + 2) mod word_size rb)"

definition rb_memcpy_in :: "'s qb_ringbuffer \<Rightarrow> nat \<Rightarrow> u8 list \<Rightarrow> 's qb_ringbuffer" where
  "rb_memcpy_in rb dest bs =
     rb\<lparr>shared_data := mem_write (4 * unat (word_size rb)) (shared_data rb) dest bs\<rparr>"

definition rb_memcpy_out :: "'s qb_ringbuffer \<Rightarrow> nat \<Rightarrow> nat \<Rightarrow> u8 list" where
  "rb_memcpy_out rb src len = mem_read (4 * unat (word_size rb)) (shared_data rb) src len"

definition idx_cache_line_step :: "'s qb_ringbuffer \<Rightarrow> u32 \<Rightarrow> u32" where
  "idx_cache_line_step rb idx = (if idx > word_size rb - 1 then idx mod word_size rb else idx)"

definition qb_rb_chunk_step :: "'s qb_ringbuffer \<Rightarrow> u32 \<Rightarrow> u32" where
  "qb_rb_chunk_step rb pointer =
     (let chunk_size = QB_RB_CHUNK_SIZE_GET rb pointer;
          pointer = pointer + 2;
          pointer = pointer + chunk_size div 4;
          pointer = (if chunk_size mod (4 * 1) \<noteq> 0 then pointer + 1 else pointer)
      in idx_cache_line_step rb pointer)"

section \<open>Space\<close>

definition rb_q_len_pos :: "'s qb_ringbuffer \<Rightarrow> bool" where
  "rb_q_len_pos rb = (case q_len_fn (notifier rb) of None \<Rightarrow> False | Some f \<Rightarrow> f (inst rb) > 0)"

text \<open>
  The \<^verbatim>\<open>ssize_t\<close> results are mathematical integers; the subtraction in the branch of
  \<^verbatim>\<open>space_used_fn\<close> is the unsigned 64-bit one of the source, read back as signed.
\<close>

definition rb_space_free :: "'s qb_ringbuffer \<Rightarrow> int" where
  "rb_space_free rb =
     (case space_used_fn (notifier rb) of
        Some f \<Rightarrow> sint (ucast (word_size rb) * 4 - word_of_int (f (inst rb)) :: u64)
      | None \<Rightarrow>
          (let write_size = write_pt rb; read_size = read_pt rb;
               space_free = (if write_size > read_size then (read_size - write_size + word_size rb) - 1
                             else if write_size < read_size then (read_size - write_size) - 1
                             else if rb_q_len_pos rb then 0 else word_size rb)
           in uint space_free * 4))"

definition rb_space_used :: "'s qb_ringbuffer \<Rightarrow> int" where
  "rb_space_used rb =
     (case space_used_fn (notifier rb) of
        Some f \<Rightarrow> f (inst rb)
      | None \<Rightarrow>
          (let write_size = write_pt rb; read_size = read_pt rb;
               space_used = (if write_size > read_size then write_size - read_size
                             else if write_size < read_size
                             then (write_size - read_size + word_size rb) - 1
                             else 0)
           in uint space_used * 4))"

definition rb_chunks_used :: "'s qb_ringbuffer \<Rightarrow> int" where
  "rb_chunks_used rb = (case q_len_fn (notifier rb) of None \<Rightarrow> - ENOTSUP | Some f \<Rightarrow> f (inst rb))"

section \<open>Reclaiming\<close>

definition rb_chunk_reclaim :: "'s qb_ringbuffer \<Rightarrow> int \<times> 's qb_ringbuffer" where
  "rb_chunk_reclaim rb =
     (let old_read_pt = read_pt rb;
          chunk_magic = QB_RB_CHUNK_MAGIC_GET rb old_read_pt
      in if chunk_magic \<noteq> QB_RB_CHUNK_MAGIC then (- EINVAL, rb\<lparr>errno := EINVAL\<rparr>)
         else
           let old_chunk_size = QB_RB_CHUNK_SIZE_GET rb old_read_pt;
               new_read_pt = qb_rb_chunk_step rb old_read_pt;
               rb = shd_put rb old_read_pt 0;
               rb = QB_RB_CHUNK_MAGIC_SET rb old_read_pt QB_RB_CHUNK_MAGIC_DEAD;
               rb = rb\<lparr>read_pt := new_read_pt\<rparr>
           in case reclaim_fn (notifier rb) of
                None \<Rightarrow> (0, rb)
              | Some f \<Rightarrow>
                  let (rc, s) = f (inst rb) (ucast old_chunk_size);
                      rb = rb\<lparr>inst := s\<rparr>
                  in (rc, if rc < 0 then rb\<lparr>errno := - rc\<rparr> else rb))"

text \<open>
  The loop of \<^verbatim>\<open>qb_rb_chunk_alloc\<close> in overwrite mode. It always ends: every round turns one
  word that held the magic number into another value.
\<close>

definition magic_words :: "mem \<Rightarrow> nat set" where
  "magic_words m = {i. i < 2 ^ 32 \<and> mem32_get m i = QB_RB_CHUNK_MAGIC}"

lemma finite_magic_words [simp]: "finite (magic_words m)"
  by (simp add: magic_words_def)

lemma unat_mod_bound: "unat (x :: u32) mod n < 4294967296"
  by (rule le_less_trans[OF mod_less_eq_dividend unat_u32_less])

lemma rb_chunk_reclaim_memory:
  "QB_RB_CHUNK_MAGIC_GET rb (read_pt rb) = QB_RB_CHUNK_MAGIC \<Longrightarrow>
   shared_data (snd (rb_chunk_reclaim rb)) =
     mem32_put (mem32_put (shared_data rb) (unat (read_pt rb) mod unat (word_size rb)) 0)
       (unat ((read_pt rb + 1) mod word_size rb) mod unat (word_size rb)) QB_RB_CHUNK_MAGIC_DEAD"
  by (auto simp: rb_chunk_reclaim_def Let_def shd_put_def QB_RB_CHUNK_MAGIC_SET_def
      split: option.splits prod.splits)

lemma rb_chunk_reclaim_magic_words':
  assumes magic: "QB_RB_CHUNK_MAGIC_GET rb (read_pt rb) = QB_RB_CHUNK_MAGIC"
  shows "card (magic_words (shared_data (snd (rb_chunk_reclaim rb)))) < card (magic_words (shared_data rb))"
proof (rule psubset_card_mono)
  let ?k = "unat ((read_pt rb + 1) mod word_size rb) mod unat (word_size rb)"
  let ?m = "shared_data (snd (rb_chunk_reclaim rb))"
  have "?k \<in> magic_words (shared_data rb)"
    using magic by (simp add: magic_words_def QB_RB_CHUNK_MAGIC_GET_def shd_get_def unat_mod_bound)
  moreover have "?k \<notin> magic_words ?m"
    by (simp add: magic_words_def rb_chunk_reclaim_memory[OF magic] mem_simps rb_magic_defs)
  moreover have "magic_words ?m \<subseteq> magic_words (shared_data rb)"
  proof
    fix i assume i: "i \<in> magic_words ?m"
    with \<open>?k \<notin> magic_words ?m\<close> have "i \<noteq> ?k" by auto
    with i show "i \<in> magic_words (shared_data rb)"
      by (cases "i = unat (read_pt rb) mod unat (word_size rb)")
        (simp_all add: magic_words_def rb_chunk_reclaim_memory[OF magic] mem_simps rb_magic_defs)
  qed
  ultimately show "magic_words ?m \<subset> magic_words (shared_data rb)" by blast
qed simp

lemma rb_chunk_reclaim_magic_words:
  assumes "fst (rb_chunk_reclaim rb) = 0"
  shows "card (magic_words (shared_data (snd (rb_chunk_reclaim rb)))) < card (magic_words (shared_data rb))"
  using assms by (intro rb_chunk_reclaim_magic_words') (auto simp: rb_chunk_reclaim_def Let_def split: if_splits)

function rb_reclaim_for :: "'s qb_ringbuffer \<Rightarrow> u64 \<Rightarrow> bool \<times> 's qb_ringbuffer" where
  "rb_reclaim_for rb len =
     (if word_of_int (rb_space_free rb) < len + QB_RB_CHUNK_MARGIN then
        let r = rb_chunk_reclaim rb
        in if fst r \<noteq> 0 then (False, snd r) else rb_reclaim_for (snd r) len
      else (True, rb))"
  by pat_completeness auto
termination
  by (relation "measure (\<lambda>(rb, len). card (magic_words (shared_data rb)))")
    (auto simp: rb_chunk_reclaim_magic_words)

declare rb_reclaim_for.simps [simp del]

section \<open>Writing\<close>

text \<open>The result is the byte offset of the chunk's data, or \<open>None\<close> (NULL) with \<^verbatim>\<open>errno\<close> set.\<close>

definition rb_chunk_alloc :: "'s qb_ringbuffer \<Rightarrow> u64 \<Rightarrow> nat option \<times> 's qb_ringbuffer" where
  "rb_chunk_alloc rb len =
     (let (ok, rb) =
        (if flag_set (flags rb) QB_RB_FLAG_OVERWRITE then rb_reclaim_for rb len
         else if word_of_int (rb_space_free rb) < len + QB_RB_CHUNK_MARGIN
         then (False, rb\<lparr>errno := EAGAIN\<rparr>)
         else (True, rb))
      in if \<not> ok then (None, rb)
         else
           let wpt = write_pt rb;
               rb = shd_put rb wpt 0;
               rb = QB_RB_CHUNK_MAGIC_SET rb wpt QB_RB_CHUNK_MAGIC_ALLOC
           in (Some (QB_RB_CHUNK_DATA_GET rb wpt), rb))"

definition rb_chunk_commit :: "'s qb_ringbuffer \<Rightarrow> u64 \<Rightarrow> int \<times> 's qb_ringbuffer" where
  "rb_chunk_commit rb len =
     (let old_write_pt = write_pt rb;
          rb = shd_put rb old_write_pt (ucast len);
          rb = rb\<lparr>write_pt := qb_rb_chunk_step rb old_write_pt\<rparr>;
          rb = QB_RB_CHUNK_MAGIC_SET rb old_write_pt QB_RB_CHUNK_MAGIC
      in case post_fn (notifier rb) of
           None \<Rightarrow> (0, rb)
         | Some f \<Rightarrow> let (res, s) = f (inst rb) len in (res, rb\<lparr>inst := s\<rparr>))"

definition rb_chunk_write :: "'s qb_ringbuffer \<Rightarrow> u8 list \<Rightarrow> int \<times> 's qb_ringbuffer" where
  "rb_chunk_write rb data =
     (let len = of_nat (length data);
          (dest, rb) = rb_chunk_alloc rb len
      in case dest of
           None \<Rightarrow> (- errno rb, rb)
         | Some d \<Rightarrow>
             let rb = rb_memcpy_in rb d data;
                 (res, rb) = rb_chunk_commit rb len
             in if res < 0 then (res, rb) else (int (length data), rb))"

section \<open>Reading\<close>

definition rb_wait :: "'s qb_ringbuffer \<Rightarrow> int \<Rightarrow> (int \<times> 's qb_ringbuffer) option" where
  "rb_wait rb timeout =
     (case timedwait_fn (notifier rb) of
        None \<Rightarrow> Some (0, rb)
      | Some f \<Rightarrow> map_option (\<lambda>(res, s). (res, rb\<lparr>inst := s\<rparr>)) (f (inst rb) timeout))"

definition rb_repost :: "'s qb_ringbuffer \<Rightarrow> u64 \<Rightarrow> 's qb_ringbuffer" where
  "rb_repost rb n =
     (case post_fn (notifier rb) of None \<Rightarrow> rb | Some f \<Rightarrow> rb\<lparr>inst := snd (f (inst rb) n)\<rparr>)"

text \<open>The second component is the offset stored in \<^verbatim>\<open>*data_out\<close>, if any.\<close>

definition rb_chunk_peek ::
  "'s qb_ringbuffer \<Rightarrow> int \<Rightarrow> (int \<times> nat option \<times> 's qb_ringbuffer) option" where
  "rb_chunk_peek rb timeout =
     (case rb_wait rb timeout of
        None \<Rightarrow> None
      | Some (res, rb) \<Rightarrow> Some
          (if res < 0 \<and> res \<noteq> - EIDRM then
             (if res = - ETIMEDOUT then (0, None, rb) else (res, None, rb\<lparr>errno := - res\<rparr>))
           else
             let rpt = read_pt rb
             in if QB_RB_CHUNK_MAGIC_GET rb rpt \<noteq> QB_RB_CHUNK_MAGIC
                then (- EBADMSG, None, rb_repost rb (word_of_int res))
                else (uint (QB_RB_CHUNK_SIZE_GET rb rpt), Some (QB_RB_CHUNK_DATA_GET rb rpt), rb)))"

text \<open>The second component is what is copied to \<^verbatim>\<open>data_out\<close>, if anything is.\<close>

definition rb_chunk_read ::
  "'s qb_ringbuffer \<Rightarrow> u64 \<Rightarrow> int \<Rightarrow> (int \<times> u8 list option \<times> 's qb_ringbuffer) option" where
  "rb_chunk_read rb len timeout =
     (case rb_wait rb timeout of
        None \<Rightarrow> None
      | Some (res, rb) \<Rightarrow> Some
          (if res < 0 \<and> res \<noteq> - EIDRM then
             (res, None, if res \<noteq> - ETIMEDOUT then rb\<lparr>errno := - res\<rparr> else rb)
           else
             let rpt = read_pt rb
             in if QB_RB_CHUNK_MAGIC_GET rb rpt \<noteq> QB_RB_CHUNK_MAGIC then
                  (if Option.is_none (timedwait_fn (notifier rb)) then (- ETIMEDOUT, None, rb)
                   else (- EBADMSG, None, rb_repost rb (word_of_int res)))
                else
                  let chunk_size = QB_RB_CHUNK_SIZE_GET rb rpt
                  in if len < ucast chunk_size then (- ENOBUFS, None, rb_repost rb (ucast chunk_size))
                     else
                       let data = rb_memcpy_out rb (QB_RB_CHUNK_DATA_GET rb rpt) (unat chunk_size)
                       in (uint chunk_size, Some data, snd (rb_chunk_reclaim rb))))"

section \<open>The public functions, with their NULL tests\<close>

definition qb_rb_space_free :: "'s qb_ringbuffer option \<Rightarrow> int" where
  "qb_rb_space_free rb = (case rb of None \<Rightarrow> - EINVAL | Some rb \<Rightarrow> rb_space_free rb)"

definition qb_rb_space_used :: "'s qb_ringbuffer option \<Rightarrow> int" where
  "qb_rb_space_used rb = (case rb of None \<Rightarrow> - EINVAL | Some rb \<Rightarrow> rb_space_used rb)"

definition qb_rb_chunks_used :: "'s qb_ringbuffer option \<Rightarrow> int" where
  "qb_rb_chunks_used rb = (case rb of None \<Rightarrow> - EINVAL | Some rb \<Rightarrow> rb_chunks_used rb)"

definition qb_rb_chunk_write :: "'s qb_ringbuffer option \<Rightarrow> u8 list \<Rightarrow> int \<times> 's qb_ringbuffer option" where
  "qb_rb_chunk_write rb data =
     (case rb of None \<Rightarrow> (- EINVAL, None) | Some rb \<Rightarrow> map_prod id Some (rb_chunk_write rb data))"

definition qb_rb_chunk_reclaim :: "'s qb_ringbuffer option \<Rightarrow> 's qb_ringbuffer option" where
  "qb_rb_chunk_reclaim rb = map_option (\<lambda>rb. snd (rb_chunk_reclaim rb)) rb"

definition qb_rb_chunk_peek ::
  "'s qb_ringbuffer option \<Rightarrow> int \<Rightarrow> (int \<times> nat option \<times> 's qb_ringbuffer option) option" where
  "qb_rb_chunk_peek rb timeout =
     (case rb of None \<Rightarrow> Some (- EINVAL, None, None)
      | Some rb \<Rightarrow> map_option (map_prod id (map_prod id Some)) (rb_chunk_peek rb timeout))"

definition qb_rb_chunk_read ::
  "'s qb_ringbuffer option \<Rightarrow> u64 \<Rightarrow> int \<Rightarrow> (int \<times> u8 list option \<times> 's qb_ringbuffer option) option" where
  "qb_rb_chunk_read rb len timeout =
     (case rb of None \<Rightarrow> Some (- EINVAL, None, None)
      | Some rb \<Rightarrow> map_option (map_prod id (map_prod id Some)) (rb_chunk_read rb len timeout))"

end
