(* ===== verification/Ringbuffer_Queue.thy ===== *)
theory Ringbuffer_Queue
  imports Ringbuffer
begin

text \<open>
  The ring buffer refines a first-in first-out queue of byte strings. \<open>rb_rep rb cs\<close> says that
  the memory between the read and the write pointer holds exactly the committed chunks \<open>cs\<close>;
  the lemmas show that a commit appends, that a reclaim removes the oldest chunk, that a read
  returns it, and what the space accounting reports.
\<close>

section \<open>Representation\<close>

definition chunk_words :: "nat \<Rightarrow> nat" where
  "chunk_words n = 2 + n div 4 + (if n mod 4 \<noteq> 0 then 1 else 0)"

fun used_words :: "u8 list list \<Rightarrow> nat" where
  "used_words [] = 0"
| "used_words (c # cs) = chunk_words (length c) + used_words cs"

text \<open>A committed chunk \<open>c\<close> at the (unreduced) word position \<open>p\<close> of a buffer of \<open>W\<close> words.\<close>

definition chunk_at :: "mem \<Rightarrow> nat \<Rightarrow> nat \<Rightarrow> u8 list \<Rightarrow> bool" where
  "chunk_at m W p c \<longleftrightarrow>
     mem32_get m (p mod W) = of_nat (length c) \<and>
     mem32_get m ((p + 1) mod W) = QB_RB_CHUNK_MAGIC \<and>
     mem_read (4 * W) m (4 * (p + 2)) (length c) = c"

fun rb_layout :: "mem \<Rightarrow> nat \<Rightarrow> nat \<Rightarrow> u8 list list \<Rightarrow> bool" where
  "rb_layout m W p [] = True"
| "rb_layout m W p (c # cs) = (chunk_at m W p c \<and> rb_layout m W (p + chunk_words (length c)) cs)"

definition rb_geometry :: "'s qb_ringbuffer \<Rightarrow> bool" where
  "rb_geometry rb \<longleftrightarrow>
     0 < unat (word_size rb) \<and> unat (word_size rb) \<le> 2 ^ 30 \<and>
     unat (read_pt rb) < unat (word_size rb) \<and> unat (write_pt rb) < unat (word_size rb)"

definition rb_rep :: "'s qb_ringbuffer \<Rightarrow> u8 list list \<Rightarrow> bool" where
  "rb_rep rb cs \<longleftrightarrow>
     rb_geometry rb \<and> used_words cs < unat (word_size rb) \<and>
     unat (write_pt rb) = (unat (read_pt rb) + used_words cs) mod unat (word_size rb) \<and>
     rb_layout (shared_data rb) (unat (word_size rb)) (unat (read_pt rb)) cs"

lemma chunk_words_ge: "2 \<le> chunk_words n" "n \<le> 4 * (chunk_words n - 2)"
  by (auto simp: chunk_words_def)

lemma chunk_words_le: "4 * chunk_words n \<le> n + 11"
proof (cases "n mod 4 = 0")
  case False
  then have "4 * (n div 4) + 1 \<le> n"
    by (metis Suc_eq_plus1 Suc_leI div_mod_decomp less_add_same_cancel1 mult.commute neq0_conv)
  with False show ?thesis by (simp add: chunk_words_def)
qed (auto simp: chunk_words_def)

lemma used_words_append [simp]: "used_words (cs @ ds) = used_words cs + used_words ds"
  by (induction cs) auto

lemma rb_layout_append:
  "rb_layout m W p (cs @ ds) \<longleftrightarrow> rb_layout m W p cs \<and> rb_layout m W (p + used_words cs) ds"
  by (induction cs arbitrary: p) (auto simp: add.assoc)

section \<open>Frame lemmas\<close>

text \<open>A chunk depends only on the bytes of its own words.\<close>

lemma mem32_get_window:
  assumes "\<And>j. j < 4 \<Longrightarrow> m ((4 * p + j) mod (4 * W)) = m' ((4 * p + j) mod (4 * W))"
  shows "mem32_get m (p mod W) = mem32_get m' (p mod W)"
  by (rule mem32_get_cong) (use assms in \<open>simp add: mult_mod_offset\<close>)

lemma chunk_at_cong:
  assumes "\<And>a. 4 * p \<le> a \<Longrightarrow> a < 4 * (p + chunk_words (length c)) \<Longrightarrow>
             m (a mod (4 * W)) = m' (a mod (4 * W))"
  shows "chunk_at m W p c = chunk_at m' W p c"
proof -
  have "mem32_get m (p mod W) = mem32_get m' (p mod W)"
    using assms chunk_words_ge(1)[of "length c"] by (intro mem32_get_window) auto
  moreover have "mem32_get m ((p + 1) mod W) = mem32_get m' ((p + 1) mod W)"
    using assms chunk_words_ge(1)[of "length c"] by (intro mem32_get_window) auto
  moreover have "mem_read (4 * W) m (4 * (p + 2)) (length c) = mem_read (4 * W) m' (4 * (p + 2)) (length c)"
    using assms chunk_words_ge[of "length c"] by (intro mem_read_cong) auto
  ultimately show ?thesis by (simp add: chunk_at_def)
qed

lemma rb_layout_cong:
  "(\<And>a. 4 * p \<le> a \<Longrightarrow> a < 4 * (p + used_words cs) \<Longrightarrow> m (a mod (4 * W)) = m' (a mod (4 * W))) \<Longrightarrow>
   rb_layout m W p cs = rb_layout m' W p cs"
proof (induction cs arbitrary: p)
  case (Cons c cs)
  have "chunk_at m W p c = chunk_at m' W p c"
    by (rule chunk_at_cong) (use Cons.prems in auto)
  moreover have "rb_layout m W (p + chunk_words (length c)) cs = rb_layout m' W (p + chunk_words (length c)) cs"
    by (rule Cons.IH) (use Cons.prems in auto)
  ultimately show ?case by simp
qed simp

text \<open>Storing a word at virtual position \<open>q\<close> leaves the bytes of other positions of the lap alone.\<close>

lemma mem32_put_window:
  assumes "4 * q + 4 \<le> a + 4 * W" "a < 4 * q \<or> 4 * q + 4 \<le> a" "a < 4 * q + 4 * W" "0 < W"
  shows "mem32_put m (q mod W) v (a mod (4 * W)) = m (a mod (4 * W))"
proof (rule mem32_put_other)
  have "a mod (4 * W) div 4 = (a div 4) mod W"
    using \<open>0 < W\<close> by (simp add: mod_mult2_eq)
  moreover have "(a div 4) mod W \<noteq> q mod W"
    using assms by (subst mod_window_eq_iff) auto
  ultimately show "a mod (4 * W) div 4 \<noteq> q mod W" by simp
qed

lemma mem_read_mod: "mem_read n m (off mod n) len = mem_read n m off len"
  by (simp add: mem_read_def mod_add_left_eq)

lemma mult4_mod_off: "4 * ((p + k) mod W) = (4 * (p + k)) mod (4 * W :: nat)"
  by (rule mult_mod_right)

lemma chunk_at_mod [simp]: "chunk_at m W (p mod W) c = chunk_at m W p c"
proof -
  have "(4 * (p mod W + 2)) mod (4 * W) = (4 * (p + 2)) mod (4 * W)"
    by (simp only: mult4_mod_off[symmetric] mod_add_left_eq)
  then have "mem_read (4 * W) m (4 * (p mod W + 2)) (length c) = mem_read (4 * W) m (4 * (p + 2)) (length c)"
    by (metis mem_read_mod)
  then show ?thesis by (simp only: chunk_at_def mod_add_left_eq mod_mod_trivial)
qed

section \<open>Word arithmetic of the pointers\<close>

lemma unat_add_u32: "unat a + unat b < 4294967296 \<Longrightarrow> unat (a + b) = unat a + unat (b :: u32)"
  by (simp add: unat_word_ariths)

lemma unat_next1: "unat p + 1 < 4294967296 \<Longrightarrow> unat ((p + 1) mod W) = (unat p + 1) mod unat (W :: u32)"
  using unat_add_u32[of p 1] by (simp add: unat_mod)

lemma unat_next2: "unat p + 2 < 4294967296 \<Longrightarrow> unat ((p + 2) mod W) = (unat p + 2) mod unat (W :: u32)"
  using unat_add_u32[of p 2] by (simp add: unat_mod)

lemma unat_of_nat_u32: "n < 4294967296 \<Longrightarrow> unat (of_nat n :: u32) = n"
  by (simp add: unat_of_nat)

lemma unat_gap_wrap:
  fixes r w W :: u32
  assumes "unat r < unat w" "unat W \<le> 1073741824" "unat w < unat W"
  shows "unat ((r - w + W) - 1) = unat r + unat W - unat w - 1"
proof -
  have "(r - w + W) - 1 = of_nat (unat r + unat W - unat w - 1)"
    using assms by (simp add: of_nat_diff)
  moreover have "unat (of_nat (unat r + unat W - unat w - 1) :: u32) = unat r + unat W - unat w - 1"
    using assms by (intro unat_of_nat_u32) linarith
  ultimately show ?thesis by (simp only:)
qed

lemma unat_gap:
  fixes r w :: u32
  assumes "unat w < unat r"
  shows "unat ((r - w) - 1) = unat r - unat w - 1"
proof -
  have "(r - w) - 1 = of_nat (unat r - unat w - 1)"
    using assms by (simp add: of_nat_diff)
  moreover have "unat (of_nat (unat r - unat w - 1) :: u32) = unat r - unat w - 1"
    using unat_u32_less[of r] by (intro unat_of_nat_u32) linarith
  ultimately show ?thesis by (simp only:)
qed

lemma unat_chunk_step:
  assumes "rb_geometry rb" "unat p < unat (word_size rb)"
    and "chunk_words (unat (shd_get rb p)) \<le> unat (word_size rb)"
  shows "unat (qb_rb_chunk_step rb p) = (unat p + chunk_words (unat (shd_get rb p))) mod unat (word_size rb)"
proof -
  let ?W = "unat (word_size rb)" and ?n = "unat (shd_get rb p)"
  let ?q = "if shd_get rb p mod 4 \<noteq> 0 then p + 2 + shd_get rb p div 4 + 1 else p + 2 + shd_get rb p div 4"
  have W: "0 < ?W" "?W \<le> 2 ^ 30" using assms(1) by (auto simp: rb_geometry_def)
  have m4: "(shd_get rb p mod 4 = 0) = (?n mod 4 = 0)"
    using unat_mod[of "shd_get rb p" 4] by (simp flip: unat_eq_zero)
  have n4: "unat (shd_get rb p div 4) = ?n div 4"
    using unat_div[of "shd_get rb p" 4] by simp
  have b: "?n div 4 + 3 \<le> ?W + 1" using assms(3) by (simp add: chunk_words_def split: if_splits)
  have q1: "unat (p + 2 + shd_get rb p div 4) = unat p + 2 + ?n div 4"
    using W assms(2) b n4 unat_add_u32[of p 2] by (subst unat_add_u32) auto
  then have q2: "unat (p + 2 + shd_get rb p div 4 + 1) = unat p + 3 + ?n div 4"
    using W assms(2) b by (subst unat_add_u32) auto
  have q: "unat ?q = unat p + chunk_words ?n"
    using q1 q2 m4 by (simp add: chunk_words_def)
  have step: "unat (idx_cache_line_step rb x) = unat x mod ?W" for x
    using W by (auto simp: idx_cache_line_step_def word_less_nat_alt unat_sub word_le_nat_alt unat_mod)
  show ?thesis
    using q step[of ?q] by (simp add: qb_rb_chunk_step_def Let_def QB_RB_CHUNK_SIZE_GET_def)
qed

section \<open>Space accounting\<close>

lemma rb_rep_geometry:
  assumes "rb_rep rb cs"
  shows "0 < unat (word_size rb)" "unat (word_size rb) \<le> 1073741824"
    "unat (read_pt rb) < unat (word_size rb)" "unat (write_pt rb) < unat (word_size rb)"
    "used_words cs < unat (word_size rb)"
    "unat (write_pt rb) = (unat (read_pt rb) + used_words cs) mod unat (word_size rb)"
    "rb_layout (shared_data rb) (unat (word_size rb)) (unat (read_pt rb)) cs" "rb_geometry rb"
  using assms by (auto simp: rb_rep_def rb_geometry_def)

lemma used_words_pos: "cs \<noteq> [] \<Longrightarrow> 2 \<le> used_words cs"
  by (cases cs) (auto simp: chunk_words_def)

lemma length_used_words: "2 * length cs \<le> used_words cs"
  by (induction cs) (auto simp: chunk_words_def)

lemma nat_wrap_cases:
  fixes r u W w :: nat
  assumes "w = (r + u) mod W" "r < W" "u < W"
  shows "r < w \<Longrightarrow> u = w - r" "w < r \<Longrightarrow> u = w + W - r" "w = r \<Longrightarrow> u = 0"
proof -
  consider (low) "r + u < W" "w = r + u" | (high) "W \<le> r + u" "w = r + u - W"
    using assms by (metis le_mod_geq mod_less not_less add_less_le_mono le_add_diff_inverse2
        less_diff_conv2 less_imp_le nat_add_left_cancel_less)
  note cases = this
  show "r < w \<Longrightarrow> u = w - r" using cases assms by cases auto
  show "w < r \<Longrightarrow> u = w + W - r" using cases assms by cases auto
  show "w = r \<Longrightarrow> u = 0" using cases assms by cases auto
qed

text \<open>
  The free words while the buffer holds the chunks \<open>cs\<close>: everything when it is empty,
  otherwise one word less than what is unused, so that the pointers never meet again.
\<close>

definition free_words :: "'s qb_ringbuffer \<Rightarrow> u8 list list \<Rightarrow> nat" where
  "free_words rb cs =
     (if cs = [] then unat (word_size rb) else unat (word_size rb) - used_words cs - 1)"

definition rb_counts_well :: "'s qb_ringbuffer \<Rightarrow> u8 list list \<Rightarrow> bool" where
  "rb_counts_well rb cs \<longleftrightarrow>
     space_used_fn (notifier rb) = None \<and> (cs = [] \<longrightarrow> \<not> rb_q_len_pos rb)"

lemma rb_space_free_words:
  assumes "space_used_fn (notifier rb) = None"
  shows "rb_space_free rb =
    4 * int (if unat (read_pt rb) < unat (write_pt rb)
             then unat ((read_pt rb - write_pt rb + word_size rb) - 1)
             else if unat (write_pt rb) < unat (read_pt rb)
             then unat ((read_pt rb - write_pt rb) - 1)
             else if rb_q_len_pos rb then 0 else unat (word_size rb))"
  using assms by (simp add: rb_space_free_def Let_def word_less_nat_alt)

lemma rb_space_free_rep:
  assumes rep: "rb_rep rb cs" and cnt: "rb_counts_well rb cs"
  shows "rb_space_free rb = 4 * int (free_words rb cs)"
proof -
  let ?W = "unat (word_size rb)" and ?r = "unat (read_pt rb)" and ?w = "unat (write_pt rb)"
  note g = rb_rep_geometry[OF rep]
  note u = nat_wrap_cases[OF g(6) g(3) g(5)]
  have none: "space_used_fn (notifier rb) = None" using cnt by (simp add: rb_counts_well_def)
  note sp = rb_space_free_words[OF none]
  consider (gt) "?r < ?w" | (lt) "?w < ?r" | (eq) "?w = ?r" by linarith
  then show ?thesis
  proof cases
    case gt
    have "cs \<noteq> []" using gt u(1) by auto
    moreover have "?r + ?W - ?w - 1 = ?W - used_words cs - 1" using gt u(1) by linarith
    ultimately show ?thesis
      using gt by (simp only: sp if_True unat_gap_wrap[OF gt g(2,4)] free_words_def if_False)
  next
    case lt
    then have nlt: "\<not> ?r < ?w" by simp
    have "cs \<noteq> []" using lt u(2) g(3,4) by auto
    moreover have "?r - ?w - 1 = ?W - used_words cs - 1" using lt u(2) g(3) by linarith
    ultimately show ?thesis
      using lt nlt by (simp only: sp if_True unat_gap[OF lt] free_words_def if_False)
  next
    case eq
    then have "cs = []" using u(3) used_words_pos[of cs] by fastforce
    with eq cnt show ?thesis by (simp add: sp rb_counts_well_def free_words_def)
  qed
qed

lemma free_words_fit:
  assumes "rb_rep rb cs" "n + 12 \<le> 4 * free_words rb cs"
  shows "used_words cs + chunk_words n < unat (word_size rb)"
  using assms rb_rep_geometry[OF assms(1)] chunk_words_le[of n]
  by (auto simp: free_words_def split: if_splits)

section \<open>Stores outside the committed chunks\<close>

lemma rb_rep_inst [simp]: "rb_rep (rb\<lparr>inst := s\<rparr>) cs = rb_rep rb cs"
  by (simp add: rb_rep_def rb_geometry_def)

lemma rb_rep_errno [simp]: "rb_rep (rb\<lparr>errno := e\<rparr>) cs = rb_rep rb cs"
  by (simp add: rb_rep_def rb_geometry_def)

lemma rb_rep_memI:
  assumes "rb_rep rb cs"
    and "\<And>a. 4 * unat (read_pt rb) \<le> a \<Longrightarrow> a < 4 * (unat (read_pt rb) + used_words cs) \<Longrightarrow>
           m' (a mod (4 * unat (word_size rb))) = shared_data rb (a mod (4 * unat (word_size rb)))"
  shows "rb_rep (rb\<lparr>shared_data := m'\<rparr>) cs"
proof -
  have "rb_layout m' (unat (word_size rb)) (unat (read_pt rb)) cs"
    using rb_rep_geometry(7)[OF assms(1)] assms(2) by (subst rb_layout_cong) auto
  with assms(1) show ?thesis by (simp add: rb_rep_def rb_geometry_def)
qed

lemma write_pos_mod:
  assumes "rb_rep rb cs"
  shows "(unat (write_pt rb) + k) mod unat (word_size rb) =
         (unat (read_pt rb) + used_words cs + k) mod unat (word_size rb)"
  unfolding rb_rep_geometry(6)[OF assms] by (rule mod_add_left_eq)

lemma rb_rep_put_free:
  assumes rep: "rb_rep rb cs" and "used_words cs + k < unat (word_size rb)"
  shows "rb_rep (rb\<lparr>shared_data := mem32_put (shared_data rb)
           ((unat (write_pt rb) + k) mod unat (word_size rb)) v\<rparr>) cs"
  unfolding write_pos_mod[OF rep]
  by (rule rb_rep_memI[OF rep], rule mem32_put_window) (use assms rb_rep_geometry[OF rep] in auto)

lemma mem_write_mod: "off mod n = off' mod n \<Longrightarrow> mem_write n m off bs = mem_write n m off' bs"
proof (induction bs arbitrary: m off off')
  case (Cons b bs)
  have "Suc off mod n = Suc off' mod n" using Cons.prems by (metis mod_Suc_eq)
  then have "mem_write n (m(off mod n := b)) (Suc off) bs = mem_write n (m(off mod n := b)) (Suc off') bs"
    by (rule Cons.IH)
  then show ?case by (simp only: mem_write.simps Cons.prems)
qed simp

lemma rb_rep_write_free:
  assumes rep: "rb_rep rb cs" and len: "4 * (used_words cs + 2) + length bs \<le> 4 * unat (word_size rb)"
    and off: "off mod (4 * unat (word_size rb)) = 4 * (unat (write_pt rb) + 2) mod (4 * unat (word_size rb))"
  shows "rb_rep (rb\<lparr>shared_data := mem_write (4 * unat (word_size rb)) (shared_data rb) off bs\<rparr>) cs"
proof (rule rb_rep_memI[OF rep])
  let ?W = "unat (word_size rb)" and ?q = "4 * (unat (read_pt rb) + used_words cs + 2)"
  fix a assume a: "4 * unat (read_pt rb) \<le> a" "a < 4 * (unat (read_pt rb) + used_words cs)"
  have "off mod (4 * ?W) = ?q mod (4 * ?W)"
    using off write_pos_mod[OF rep, of 2] by (simp only: mult4_mod_off[symmetric])
  then have "mem_write (4 * ?W) (shared_data rb) off bs = mem_write (4 * ?W) (shared_data rb) ?q bs"
    by (rule mem_write_mod)
  moreover have "mem_write (4 * ?W) (shared_data rb) ?q bs ((a + 4 * ?W) mod (4 * ?W)) = shared_data rb ((a + 4 * ?W) mod (4 * ?W))"
    by (rule mem_write_outside) (use a len in auto)
  ultimately show "mem_write (4 * ?W) (shared_data rb) off bs (a mod (4 * ?W)) = shared_data rb (a mod (4 * ?W))"
    by simp
qed

section \<open>Commit\<close>

lemma rb_chunk_commit_fields:
  "word_size (snd (rb_chunk_commit rb len)) = word_size rb"
  "read_pt (snd (rb_chunk_commit rb len)) = read_pt rb"
  "flags (snd (rb_chunk_commit rb len)) = flags rb"
  "notifier (snd (rb_chunk_commit rb len)) = notifier rb"
  "write_pt (snd (rb_chunk_commit rb len)) = qb_rb_chunk_step (shd_put rb (write_pt rb) (ucast len)) (write_pt rb)"
  "shared_data (snd (rb_chunk_commit rb len)) =
     mem32_put (mem32_put (shared_data rb) (unat (write_pt rb) mod unat (word_size rb)) (ucast len))
       (unat ((write_pt rb + 1) mod word_size rb) mod unat (word_size rb)) QB_RB_CHUNK_MAGIC"
  by (simp_all add: rb_chunk_commit_def Let_def shd_put_def QB_RB_CHUNK_MAGIC_SET_def
      split: option.splits prod.splits)

lemma chunk_at_header_put:
  assumes W: "2 \<le> W" "chunk_words (length c) \<le> W" and len: "length c < 4294967296"
    and data: "mem_read (4 * W) m (4 * (p + 2)) (length c) = c"
  shows "chunk_at (mem32_put (mem32_put m (p mod W) (of_nat (length c))) ((p + 1) mod W) QB_RB_CHUNK_MAGIC) W p c"
proof -
  let ?m1 = "mem32_put m (p mod W) (of_nat (length c))"
  let ?m2 = "mem32_put ?m1 ((p + 1) mod W) QB_RB_CHUNK_MAGIC"
  have neq: "p mod W \<noteq> (p + 1) mod W" by (rule mod_window_neq) (use W in auto)
  have "mem_read (4 * W) ?m2 (4 * (p + 2)) (length c) = mem_read (4 * W) m (4 * (p + 2)) (length c)"
  proof (rule mem_read_cong)
    fix i assume "i < length c"
    then have i: "i < 4 * W - 8" using W chunk_words_ge(2)[of "length c"] by linarith
    have "?m2 ((4 * (p + 2) + i) mod (4 * W)) = ?m1 ((4 * (p + 2) + i) mod (4 * W))"
      by (rule mem32_put_window) (use i W in auto)
    also have "\<dots> = m ((4 * (p + 2) + i) mod (4 * W))"
      by (rule mem32_put_window) (use i W in auto)
    finally show "?m2 ((4 * (p + 2) + i) mod (4 * W)) = m ((4 * (p + 2) + i) mod (4 * W))" .
  qed
  with data neq show ?thesis by (simp add: chunk_at_def mem_simps)
qed

lemma rb_chunk_commit_rep:
  assumes rep: "rb_rep rb cs" and fit: "used_words cs + chunk_words (unat len) < unat (word_size rb)"
    and data: "mem_read (4 * unat (word_size rb)) (shared_data rb) (4 * (unat (write_pt rb) + 2)) (unat len) = c"
  shows "rb_rep (snd (rb_chunk_commit rb len)) (cs @ [c])"
proof -
  let ?W = "unat (word_size rb)" and ?w = "unat (write_pt rb)" and ?rb = "snd (rb_chunk_commit rb len)"
  note g = rb_rep_geometry[OF rep]
  have lc: "length c = unat len" using data length_mem_read by metis
  have small: "unat len < 4294967296"
    using chunk_words_ge(2)[of "unat len"] fit g(2) by linarith
  have ul: "ucast len = (of_nat (length c) :: u32)"
    by (simp add: lc)
  have un: "unat (ucast len :: u32) = unat len"
    using unat_of_nat_u32[OF small] by simp
  have w1: "unat ((write_pt rb + 1) mod word_size rb) = (?w + 1) mod ?W"
    using g by (intro unat_next1) linarith
  let ?m1 = "mem32_put (shared_data rb) (?w mod ?W) (of_nat (length c))"
  let ?m2 = "mem32_put ?m1 ((?w + 1) mod ?W) QB_RB_CHUNK_MAGIC"
  have mem: "shared_data ?rb = ?m2"
    by (simp add: rb_chunk_commit_fields w1 ul)
  let ?rb1 = "shd_put rb (write_pt rb) (ucast len)"
  have "shd_get ?rb1 (write_pt rb) = ucast len"
    by (simp add: shd_get_def shd_put_def mem_simps)
  moreover have "rb_geometry ?rb1" using g(8) by (simp add: rb_geometry_def shd_put_def)
  ultimately have wp: "unat (write_pt ?rb) = (?w + chunk_words (unat len)) mod ?W"
    using unat_chunk_step[of ?rb1 "write_pt rb"] fit g(4) un
    by (simp add: rb_chunk_commit_fields shd_put_def)
  have "rb_rep (rb\<lparr>shared_data := ?m1\<rparr>) cs"
    using rb_rep_put_free[OF rep, of 0] g(5) by simp
  then have "rb_rep (rb\<lparr>shared_data := ?m2\<rparr>) cs"
    using rb_rep_put_free[of "rb\<lparr>shared_data := ?m1\<rparr>" cs 1] fit chunk_words_ge(1)[of "unat len"] by simp
  from rb_rep_geometry(7)[OF this] have lay: "rb_layout ?m2 ?W (unat (read_pt rb)) cs" by simp
  have "chunk_at ?m2 ?W ?w c"
    using fit chunk_words_ge(1)[of "unat len"] small data lc by (intro chunk_at_header_put) auto
  then have "chunk_at ?m2 ?W (unat (read_pt rb) + used_words cs) c"
    by (metis chunk_at_mod g(6))
  with lay have "rb_layout ?m2 ?W (unat (read_pt rb)) (cs @ [c])" by (simp add: rb_layout_append)
  moreover have "unat (write_pt ?rb) = (unat (read_pt rb) + used_words (cs @ [c])) mod ?W"
    using wp write_pos_mod[OF rep] by (simp add: lc add.assoc)
  ultimately show ?thesis
    using g(1-3) fit lc by (simp add: rb_rep_def rb_geometry_def rb_chunk_commit_fields(1,2) mem)
qed

section \<open>Allocation and writing, normal mode\<close>

definition rb_fits :: "'s qb_ringbuffer \<Rightarrow> u8 list list \<Rightarrow> nat \<Rightarrow> bool" where
  "rb_fits rb cs n \<longleftrightarrow> n + 12 \<le> 4 * free_words rb cs"

lemma rb_space_test:
  assumes "rb_rep rb cs" "rb_counts_well rb cs" "unat len + 12 < 18446744073709551616"
  shows "word_of_int (rb_space_free rb) < len + QB_RB_CHUNK_MARGIN \<longleftrightarrow> \<not> rb_fits rb cs (unat len)"
proof -
  have "free_words rb cs \<le> unat (word_size rb)" by (simp add: free_words_def)
  then have f: "4 * free_words rb cs < 18446744073709551616"
    using rb_rep_geometry(2)[OF assms(1)] by linarith
  have "word_of_int (rb_space_free rb) = (of_nat (4 * free_words rb cs) :: u64)"
    by (simp add: rb_space_free_rep[OF assms(1,2)])
  then have a: "unat (word_of_int (rb_space_free rb) :: u64) = 4 * free_words rb cs"
    using f by (simp only: unat_of_nat) simp
  have "unat (len + QB_RB_CHUNK_MARGIN) = unat len + 12"
    using assms(3) by (simp add: QB_RB_CHUNK_MARGIN_def unat_word_ariths)
  with a show ?thesis by (auto simp: word_less_nat_alt rb_fits_def)
qed

definition rb_alloc_header :: "'s qb_ringbuffer \<Rightarrow> 's qb_ringbuffer" where
  "rb_alloc_header rb =
     QB_RB_CHUNK_MAGIC_SET (shd_put rb (write_pt rb) 0) (write_pt rb) QB_RB_CHUNK_MAGIC_ALLOC"

lemma rb_alloc_header_fields [simp]:
  "word_size (rb_alloc_header rb) = word_size rb" "read_pt (rb_alloc_header rb) = read_pt rb"
  "write_pt (rb_alloc_header rb) = write_pt rb" "flags (rb_alloc_header rb) = flags rb"
  "notifier (rb_alloc_header rb) = notifier rb" "inst (rb_alloc_header rb) = inst rb"
  by (simp_all add: rb_alloc_header_def QB_RB_CHUNK_MAGIC_SET_def shd_put_def)

lemma rb_alloc_header_rep:
  assumes rep: "rb_rep rb cs" and "used_words cs + 2 \<le> unat (word_size rb)"
  shows "rb_rep (rb_alloc_header rb) cs"
proof -
  let ?W = "unat (word_size rb)" and ?w = "unat (write_pt rb)"
  let ?m1 = "mem32_put (shared_data rb) (?w mod ?W) 0"
  note g = rb_rep_geometry[OF rep]
  have w1: "unat ((write_pt rb + 1) mod word_size rb) = (?w + 1) mod ?W"
    using g(1-4) by (intro unat_next1) linarith
  have "rb_rep (rb\<lparr>shared_data := ?m1\<rparr>) cs"
    using rb_rep_put_free[OF rep, of 0] g(5) by simp
  then have "rb_rep (rb\<lparr>shared_data := mem32_put ?m1 ((?w + 1) mod ?W) QB_RB_CHUNK_MAGIC_ALLOC\<rparr>) cs"
    using rb_rep_put_free[of "rb\<lparr>shared_data := ?m1\<rparr>" cs 1] assms(2) by simp
  then show ?thesis
    by (simp add: rb_alloc_header_def QB_RB_CHUNK_MAGIC_SET_def shd_put_def w1)
qed

lemma rb_chunk_alloc_normal:
  assumes "rb_rep rb cs" "rb_counts_well rb cs" "unat len + 12 < 18446744073709551616"
    and "\<not> flag_set (flags rb) QB_RB_FLAG_OVERWRITE"
  shows "rb_chunk_alloc rb len =
    (if rb_fits rb cs (unat len)
     then (Some (QB_RB_CHUNK_DATA_GET rb (write_pt rb)), rb_alloc_header rb)
     else (None, rb\<lparr>errno := EAGAIN\<rparr>))"
  using assms(4) rb_space_test[OF assms(1-3)]
  by (simp add: rb_chunk_alloc_def Let_def rb_alloc_header_def QB_RB_CHUNK_DATA_GET_def
      QB_RB_CHUNK_MAGIC_SET_def shd_put_def)

text \<open>What a successful allocation followed by the copy and the commit leaves behind.\<close>

definition rb_store :: "'s qb_ringbuffer \<Rightarrow> u8 list \<Rightarrow> int \<times> 's qb_ringbuffer" where
  "rb_store rb data =
     rb_chunk_commit
       (rb_memcpy_in (rb_alloc_header rb) (QB_RB_CHUNK_DATA_GET rb (write_pt rb)) data)
       (of_nat (length data))"

lemma rb_data_off:
  assumes "rb_geometry rb" "unat p < unat (word_size rb)"
  shows "QB_RB_CHUNK_DATA_GET rb p = 4 * (unat p + 2) mod (4 * unat (word_size rb))"
proof -
  have "unat ((p + 2) mod word_size rb) = (unat p + 2) mod unat (word_size rb)"
    using assms by (intro unat_next2) (simp add: rb_geometry_def)
  then show ?thesis by (simp only: QB_RB_CHUNK_DATA_GET_def mult4_mod_off)
qed

lemma take_mem_read: "m \<le> len \<Longrightarrow> take m (mem_read n mem off len) = mem_read n mem off m"
  by (simp add: mem_read_def take_map take_upt)

text \<open>Filling an allocated chunk and committing the first \<open>m\<close> bytes of it.\<close>

lemma rb_fill_rep:
  assumes rep: "rb_rep rb cs" and fit: "rb_fits rb cs (length data)" and m: "m \<le> length data"
  shows "rb_rep (snd (rb_chunk_commit (rb_memcpy_in (rb_alloc_header rb) (QB_RB_CHUNK_DATA_GET rb (write_pt rb)) data) (of_nat m))) (cs @ [take m data])"
proof -
  let ?W = "unat (word_size rb)" and ?w = "unat (write_pt rb)"
  let ?a = "rb_alloc_header rb"
  let ?off = "QB_RB_CHUNK_DATA_GET rb (write_pt rb)"
  let ?c = "rb_memcpy_in ?a ?off data"
  note g = rb_rep_geometry[OF rep]
  have words: "used_words cs + chunk_words (length data) < ?W"
    using free_words_fit[OF rep] fit by (simp add: rb_fits_def)
  have "used_words cs + chunk_words m < ?W" using free_words_fit[OF rep, of m] fit m by (simp add: rb_fits_def)
  have len: "4 * (used_words cs + 2) + length data \<le> 4 * ?W"
    using words chunk_words_ge[of "length data"] by arith
  have off: "?off = 4 * (?w + 2) mod (4 * ?W)" using g(8,4) by (rule rb_data_off)
  have a: "rb_rep ?a cs" using rep by (rule rb_alloc_header_rep) (use words chunk_words_ge(1)[of "length data"] in linarith)
  have c: "rb_rep ?c cs"
    using rb_rep_write_free[OF a, of data ?off] len off by (simp add: rb_memcpy_in_def)
  have "mem_write (4 * ?W) (shared_data ?a) ?off data = mem_write (4 * ?W) (shared_data ?a) (4 * (?w + 2)) data"
    using off by (intro mem_write_mod) simp
  then have "mem_read (4 * ?W) (shared_data ?c) (4 * (?w + 2)) (length data) = data"
    using len by (simp add: rb_memcpy_in_def mem_simps)
  then have "mem_read (4 * ?W) (shared_data ?c) (4 * (?w + 2)) m = take m data"
    using take_mem_read[OF m, of "4 * ?W" "shared_data ?c" "4 * (?w + 2)"] by simp
  moreover have "unat (of_nat m :: u64) = m"
    using len g(2) m by (simp add: unat_of_nat)
  ultimately show ?thesis
    using c \<open>used_words cs + chunk_words m < ?W\<close> by (intro rb_chunk_commit_rep) (simp_all add: rb_memcpy_in_def)
qed

lemma rb_store_rep:
  assumes "rb_rep rb cs" "rb_fits rb cs (length data)"
  shows "rb_rep (snd (rb_store rb data)) (cs @ [data])"
  using rb_fill_rep[OF assms order_refl] by (simp add: rb_store_def)

lemma rb_chunk_write_normal:
  assumes "rb_rep rb cs" "rb_counts_well rb cs" "length data + 12 < 18446744073709551616"
    and "\<not> flag_set (flags rb) QB_RB_FLAG_OVERWRITE"
  shows "rb_chunk_write rb data =
    (if rb_fits rb cs (length data)
     then let (res, rb') = rb_store rb data in (if res < 0 then res else int (length data), rb')
     else (- EAGAIN, rb\<lparr>errno := EAGAIN\<rparr>))"
proof -
  have "unat (of_nat (length data) :: u64) = length data" using assms(3) by (simp add: unat_of_nat)
  then show ?thesis
    using rb_chunk_alloc_normal[OF assms(1,2) _ assms(4), of "of_nat (length data)"] assms(3)
    by (auto simp: rb_chunk_write_def rb_store_def Let_def split: prod.splits)
qed

section \<open>Reclaiming and reading\<close>

lemma chunk_at_mod_eq: "p mod W = q mod W \<Longrightarrow> chunk_at m W p c = chunk_at m W q c"
  by (metis chunk_at_mod)

lemma rb_layout_mod_eq: "p mod W = q mod W \<Longrightarrow> rb_layout m W p cs = rb_layout m W q cs"
proof (induction cs arbitrary: p q)
  case (Cons c cs)
  have "(p + chunk_words (length c)) mod W = (q + chunk_words (length c)) mod W"
    using Cons.prems by (rule mod_add_cong) simp
  then have "rb_layout m W (p + chunk_words (length c)) cs = rb_layout m W (q + chunk_words (length c)) cs"
    by (rule Cons.IH)
  then show ?case by (simp only: rb_layout.simps chunk_at_mod_eq[OF Cons.prems])
qed simp

lemma rb_head_chunk:
  assumes rep: "rb_rep rb (c # cs)"
  shows "QB_RB_CHUNK_MAGIC_GET rb (read_pt rb) = QB_RB_CHUNK_MAGIC"
    and "QB_RB_CHUNK_SIZE_GET rb (read_pt rb) = of_nat (length c)"
    and "unat (QB_RB_CHUNK_SIZE_GET rb (read_pt rb)) = length c"
    and "rb_memcpy_out rb (QB_RB_CHUNK_DATA_GET rb (read_pt rb)) (length c) = c"
    and "length c < 4294967296"
proof -
  let ?W = "unat (word_size rb)" and ?r = "unat (read_pt rb)"
  note g = rb_rep_geometry[OF rep]
  have at: "chunk_at (shared_data rb) ?W ?r c" using g(7) by simp
  have "unat ((read_pt rb + 1) mod word_size rb) = (?r + 1) mod ?W"
    using g(1-4) by (intro unat_next1) linarith
  with at show "QB_RB_CHUNK_MAGIC_GET rb (read_pt rb) = QB_RB_CHUNK_MAGIC"
    by (simp add: QB_RB_CHUNK_MAGIC_GET_def shd_get_def chunk_at_def)
  from at show sz: "QB_RB_CHUNK_SIZE_GET rb (read_pt rb) = of_nat (length c)"
    by (simp add: QB_RB_CHUNK_SIZE_GET_def shd_get_def chunk_at_def)
  show len: "length c < 4294967296"
    using g(2,5) chunk_words_ge[of "length c"] by (simp del: One_nat_def)
  with sz show "unat (QB_RB_CHUNK_SIZE_GET rb (read_pt rb)) = length c"
    by (simp add: unat_of_nat)
  show "rb_memcpy_out rb (QB_RB_CHUNK_DATA_GET rb (read_pt rb)) (length c) = c"
    using at by (simp add: rb_memcpy_out_def rb_data_off[OF g(8,3)] mem_read_mod chunk_at_def)
qed

lemma rb_chunk_reclaim_fields:
  assumes "QB_RB_CHUNK_MAGIC_GET rb (read_pt rb) = QB_RB_CHUNK_MAGIC"
  shows "word_size (snd (rb_chunk_reclaim rb)) = word_size rb"
    "write_pt (snd (rb_chunk_reclaim rb)) = write_pt rb"
    "flags (snd (rb_chunk_reclaim rb)) = flags rb"
    "notifier (snd (rb_chunk_reclaim rb)) = notifier rb"
    "read_pt (snd (rb_chunk_reclaim rb)) = qb_rb_chunk_step rb (read_pt rb)"
  using assms by (auto simp: rb_chunk_reclaim_def Let_def shd_put_def QB_RB_CHUNK_MAGIC_SET_def
      split: option.splits prod.splits)

lemma rb_chunk_reclaim_rep:
  assumes rep: "rb_rep rb (c # cs)"
  shows "rb_rep (snd (rb_chunk_reclaim rb)) cs"
proof -
  let ?W = "unat (word_size rb)" and ?r = "unat (read_pt rb)" and ?k = "chunk_words (length c)"
  note g = rb_rep_geometry[OF rep]
  note h = rb_head_chunk[OF rep]
  note f = rb_chunk_reclaim_fields[OF h(1)]
  have k: "?k + used_words cs < ?W" using g(5) by simp
  have "unat (qb_rb_chunk_step rb (read_pt rb)) = (?r + chunk_words (unat (shd_get rb (read_pt rb)))) mod ?W"
    using k h(3) by (intro unat_chunk_step[OF g(8,3)]) (simp add: QB_RB_CHUNK_SIZE_GET_def)
  then have r': "unat (read_pt (snd (rb_chunk_reclaim rb))) = (?r + ?k) mod ?W"
    using h(3) by (simp add: f(5) QB_RB_CHUNK_SIZE_GET_def)
  have r1: "unat ((read_pt rb + 1) mod word_size rb) = (?r + 1) mod ?W"
    using g(1-4) by (intro unat_next1) linarith
  let ?m1 = "mem32_put (shared_data rb) (?r mod ?W) 0"
  let ?m2 = "mem32_put ?m1 ((?r + 1) mod ?W) QB_RB_CHUNK_MAGIC_DEAD"
  have mem: "shared_data (snd (rb_chunk_reclaim rb)) = ?m2"
    by (simp add: rb_chunk_reclaim_memory[OF h(1)] r1)
  have "rb_layout (shared_data rb) ?W (?r + ?k) cs" using g(7) by simp
  moreover have "rb_layout ?m2 ?W (?r + ?k) cs = rb_layout (shared_data rb) ?W (?r + ?k) cs"
  proof (rule rb_layout_cong)
    fix a assume a: "4 * (?r + ?k) \<le> a" "a < 4 * (?r + ?k + used_words cs)"
    have "?m2 (a mod (4 * ?W)) = ?m1 (a mod (4 * ?W))"
      by (rule mem32_put_window) (use a k chunk_words_ge(1)[of "length c"] g(1) in auto)
    also have "\<dots> = shared_data rb (a mod (4 * ?W))"
      by (rule mem32_put_window) (use a k chunk_words_ge(1)[of "length c"] g(1) in auto)
    finally show "?m2 (a mod (4 * ?W)) = shared_data rb (a mod (4 * ?W))" .
  qed
  ultimately have "rb_layout ?m2 ?W ((?r + ?k) mod ?W) cs"
    using rb_layout_mod_eq[of "(?r + ?k) mod ?W" ?W "?r + ?k"] by simp
  moreover have "unat (write_pt rb) = ((?r + ?k) mod ?W + used_words cs) mod ?W"
    using g(6) by (simp add: mod_add_left_eq add.assoc)
  ultimately show ?thesis
    unfolding rb_rep_def rb_geometry_def f(1,2) mem r' using g(1,2,4) k by simp
qed

lemma rb_chunk_read_head:
  assumes rep: "rb_rep rb (c # cs)" and wait: "rb_wait rb timeout = Some (0, rb')"
    and rb': "rb' = rb\<lparr>inst := s\<rparr>"
  shows "rb_chunk_read rb len timeout = Some
    (if unat len < length c then (- ENOBUFS, None, rb_repost rb' (of_nat (length c)))
     else (int (length c), Some c, snd (rb_chunk_reclaim rb')))"
proof -
  have rep': "rb_rep rb' (c # cs)" using rep by (simp add: rb')
  note h = rb_head_chunk[OF rep']
  have up: "(ucast (of_nat (length c) :: u32) :: u64) = of_nat (length c)"
    using h(5) by (metis of_nat_unat unat_of_nat_u32)
  have "unat (of_nat (length c) :: u64) = length c"
    using h(5) by (simp add: unat_of_nat)
  then have "(len < ucast (QB_RB_CHUNK_SIZE_GET rb' (read_pt rb'))) = (unat len < length c)"
    by (simp only: h(2) up word_less_nat_alt)
  moreover note up
  moreover have "uint (QB_RB_CHUNK_SIZE_GET rb' (read_pt rb')) = int (length c)"
    using h(3) by (metis of_nat_unat)
  ultimately show ?thesis
    using h by (simp add: rb_chunk_read_def wait Let_def)
qed

section \<open>Overwrite mode\<close>

text \<open>
  A notifier without counting callbacks, as \<^verbatim>\<open>qb_rb_sem_create\<close> sets it up for
  \<^verbatim>\<open>QB_RB_FLAG_NO_SEMAPHORE\<close>.
\<close>

definition rb_plain :: "'s qb_ringbuffer \<Rightarrow> bool" where
  "rb_plain rb \<longleftrightarrow>
     space_used_fn (notifier rb) = None \<and> reclaim_fn (notifier rb) = None \<and>
     q_len_fn (notifier rb) = None"

lemma rb_plain_counts_well: "rb_plain rb \<Longrightarrow> rb_counts_well rb cs"
  by (simp add: rb_plain_def rb_counts_well_def rb_q_len_pos_def)

lemma rb_chunk_reclaim_plain:
  assumes "rb_rep rb (c # cs)" "reclaim_fn (notifier rb) = None"
  shows "fst (rb_chunk_reclaim rb) = 0" "inst (snd (rb_chunk_reclaim rb)) = inst rb"
  using assms rb_head_chunk(1)[OF assms(1)]
  by (auto simp: rb_chunk_reclaim_def Let_def shd_put_def QB_RB_CHUNK_MAGIC_SET_def)

text \<open>The fields a reclaim leaves alone.\<close>

definition rb_same_shape :: "'s qb_ringbuffer \<Rightarrow> 's qb_ringbuffer \<Rightarrow> bool" where
  "rb_same_shape rb rb' \<longleftrightarrow>
     word_size rb' = word_size rb \<and> write_pt rb' = write_pt rb \<and> flags rb' = flags rb \<and>
     notifier rb' = notifier rb \<and> inst rb' = inst rb"

lemma rb_fits_shape: "rb_same_shape rb rb' \<Longrightarrow> rb_fits rb' cs n = rb_fits rb cs n"
  by (simp add: rb_same_shape_def rb_fits_def free_words_def)

lemma rb_same_shape_trans: "rb_same_shape a b \<Longrightarrow> rb_same_shape b c \<Longrightarrow> rb_same_shape a c"
  by (simp add: rb_same_shape_def)

lemma rb_chunk_reclaim_shape:
  assumes "rb_rep rb (c # cs)" "reclaim_fn (notifier rb) = None"
  shows "rb_same_shape rb (snd (rb_chunk_reclaim rb))"
  using rb_chunk_reclaim_fields[OF rb_head_chunk(1)[OF assms(1)]] rb_chunk_reclaim_plain[OF assms]
  by (simp add: rb_same_shape_def)

text \<open>
  The loop of an allocation in overwrite mode. With a count of the chunks it must not come to an empty buffer, which
  the count does not notice: the chunk has to fit beside the newest one.
\<close>

definition rb_count_ok :: "'s qb_ringbuffer \<Rightarrow> u8 list list \<Rightarrow> nat \<Rightarrow> bool" where
  "rb_count_ok rb cs n \<longleftrightarrow>
     space_used_fn (notifier rb) = None \<and> reclaim_fn (notifier rb) = None \<and>
     (rb_q_len_pos rb \<longrightarrow> cs \<noteq> [] \<and> rb_fits rb [last cs] n)"

lemma rb_count_ok_well: "rb_count_ok rb cs n \<Longrightarrow> rb_counts_well rb cs"
  by (auto simp: rb_count_ok_def rb_counts_well_def)

lemma rb_plain_count_ok: "rb_plain rb \<Longrightarrow> rb_count_ok rb cs n"
  by (simp add: rb_plain_def rb_count_ok_def rb_q_len_pos_def)

lemma rb_reclaim_for_counted:
  assumes "rb_rep rb cs" "rb_count_ok rb cs (unat len)" "unat len + 12 \<le> 4 * unat (word_size rb)"
  shows "\<exists>k rb'. rb_reclaim_for rb len = (True, rb') \<and> rb_rep rb' (drop k cs) \<and> rb_same_shape rb rb' \<and>
           rb_fits rb (drop k cs) (unat len) \<and> (\<forall>j<k. \<not> rb_fits rb (drop j cs) (unat len)) \<and> k \<le> length cs"
  using assms
proof (induction cs arbitrary: rb)
  case Nil
  then have "rb_fits rb [] (unat len)" by (simp add: rb_fits_def free_words_def)
  with Nil show ?case
    using rb_space_test[OF Nil(1) rb_count_ok_well, of "unat len" len] rb_rep_geometry(2)[OF Nil(1)]
    by (intro exI[of _ 0]) (simp add: rb_reclaim_for.simps[of rb] rb_same_shape_def)
next
  case (Cons c cs)
  have test: "word_of_int (rb_space_free rb) < len + QB_RB_CHUNK_MARGIN \<longleftrightarrow> \<not> rb_fits rb (c # cs) (unat len)"
    using Cons.prems rb_rep_geometry(2)[OF Cons.prems(1)]
    by (intro rb_space_test rb_count_ok_well[where n="unat len"]) auto
  show ?case
  proof (cases "rb_fits rb (c # cs) (unat len)")
    case True
    with Cons.prems test show ?thesis
      by (intro exI[of _ 0]) (simp add: rb_reclaim_for.simps[of rb] rb_same_shape_def)
  next
    case False
    let ?rb = "snd (rb_chunk_reclaim rb)"
    have none: "reclaim_fn (notifier rb) = None" using Cons.prems(2) by (simp add: rb_count_ok_def)
    note shape = rb_chunk_reclaim_shape[OF Cons.prems(1) none]
    have "rb_q_len_pos ?rb = rb_q_len_pos rb" using shape by (auto simp: rb_q_len_pos_def rb_same_shape_def split: option.split)
    then have "rb_count_ok ?rb cs (unat len)"
      using Cons.prems(2) shape False by (auto simp: rb_count_ok_def rb_fits_shape[OF shape] rb_same_shape_def split: if_splits)
    moreover have "rb_rep ?rb cs" "unat len + 12 \<le> 4 * unat (word_size ?rb)"
      using rb_chunk_reclaim_rep[OF Cons.prems(1)] Cons.prems(3) shape by (simp_all add: rb_same_shape_def)
    ultimately obtain k rb' where k:
      "rb_reclaim_for ?rb len = (True, rb')" "rb_rep rb' (drop k cs)" "rb_same_shape ?rb rb'"
      "rb_fits rb (drop k cs) (unat len)" "\<forall>j<k. \<not> rb_fits rb (drop j cs) (unat len)" "k \<le> length cs"
      using Cons.IH[of ?rb] by (auto simp: rb_fits_shape[OF shape])
    have "\<not> rb_fits rb (drop j (c # cs)) (unat len)" if "j < Suc k" for j
      using that k(5) False by (cases j) auto
    moreover have "rb_reclaim_for rb len = (True, rb')"
      using test False k(1) rb_chunk_reclaim_plain[OF Cons.prems(1) none]
      by (simp add: rb_reclaim_for.simps[of rb] Let_def)
    ultimately show ?thesis
      using k shape by (intro exI[of _ "Suc k"] exI[of _ rb']) (auto intro: rb_same_shape_trans)
  qed
qed

lemmas rb_reclaim_for_rep = rb_reclaim_for_counted[OF _ rb_plain_count_ok]

section \<open>Used space\<close>

lemma unat_used_wrap:
  fixes r w W :: u32
  assumes "unat w < unat r" "unat r < unat W"
  shows "unat ((w - r + W) - 1) = unat w + unat W - unat r - 1"
proof -
  have d: "unat (W - r) = unat W - unat r" using assms(2) by (simp add: unat_sub word_le_nat_alt)
  have "unat (w + (W - r)) = unat w + (unat W - unat r)"
    using assms unat_u32_less[of W] d by (subst unat_add_u32) auto
  moreover have "0 < unat W - unat r" using assms(2) by simp
  then have "w + (W - r) \<noteq> 0" using calculation by (intro notI) simp
  ultimately have "unat (w + (W - r) - 1) = unat w + (unat W - unat r) - 1" by (simp add: unat_minus_one)
  moreover have "w - r + W - 1 = w + (W - r) - 1" by (simp only: diff_add_eq add_diff_eq)
  ultimately show ?thesis using assms by (simp only:)
qed

lemma rb_space_used_rep:
  assumes rep: "rb_rep rb cs" and none: "space_used_fn (notifier rb) = None"
  shows "rb_space_used rb = 4 * (int (used_words cs) - (if write_pt rb < read_pt rb then 1 else 0))"
proof -
  let ?W = "unat (word_size rb)" and ?r = "unat (read_pt rb)" and ?w = "unat (write_pt rb)"
  note g = rb_rep_geometry[OF rep]
  note u = nat_wrap_cases[OF g(6) g(3) g(5)]
  have sp: "rb_space_used rb = 4 * int (if ?r < ?w then unat (write_pt rb - read_pt rb)
      else if ?w < ?r then unat ((write_pt rb - read_pt rb + word_size rb) - 1) else 0)"
    using none by (simp add: rb_space_used_def Let_def word_less_nat_alt)
  consider (gt) "?r < ?w" | (lt) "?w < ?r" | (eq) "?w = ?r" by linarith
  then show ?thesis
  proof cases
    case gt
    have "unat (write_pt rb - read_pt rb) = used_words cs"
      using gt u(1)[OF gt] by (simp add: unat_sub word_le_nat_alt)
    with gt show ?thesis by (simp only: sp word_less_nat_alt if_True) simp
  next
    case lt
    have "unat ((write_pt rb - read_pt rb + word_size rb) - 1) = used_words cs - 1" "1 \<le> used_words cs"
      using unat_used_wrap[OF lt g(3)] u(2)[OF lt] g(3) by auto
    with lt show ?thesis by (simp only: sp word_less_nat_alt) (simp add: of_nat_diff)
  next
    case eq
    with u(3) show ?thesis by (simp only: sp word_less_nat_alt) simp
  qed
qed

end
