(* ===== verification/Rpl_sem.thy ===== *)
theory Rpl_sem
  imports Prelude
begin

text \<open>
  The replacement semaphore of \<^verbatim>\<open>lib/rpl_sem.c\<close>, a counter guarded by a mutex and a condition
  variable, used where the platform has no \<^verbatim>\<open>sem_timedwait\<close>. The pthread calls are the
  environment: \<open>lock_rc\<close> and \<open>bcast_rc\<close> are the results of \<^verbatim>\<open>pthread_mutex_lock\<close> and
  \<^verbatim>\<open>pthread_cond_broadcast\<close>, and \<open>waits\<close> lists, for each call of \<^verbatim>\<open>pthread_cond_timedwait\<close>, its
  result and the semaphore as the thread finds it when it owns the mutex again (other threads
  may have posted or destroyed it). The deadline is only handed to that call. An exhausted
  list is a wait that never returns. The results of the functions are the C result, the new
  \<^verbatim>\<open>errno\<close> where it is set, and the semaphore.
\<close>

record rpl_sem =
  sem_count :: u32
  destroy_request :: bool

record sem_env =
  lock_rc :: int
  bcast_rc :: int

record sem_init_env =
  have_pshared :: bool
  mattr_rc :: int
  cattr_rc :: int
  mutex_rc :: int
  cond_rc :: int

definition rpl_sem_init :: "sem_init_env \<Rightarrow> rpl_sem \<Rightarrow> bool \<Rightarrow> u32 \<Rightarrow> int \<times> int option \<times> rpl_sem" where
  "rpl_sem_init env sem pshared cnt =
     (if \<not> have_pshared env \<and> pshared then (-1, Some ENOSYS, sem)
      else
        let sem = sem\<lparr>sem_count := cnt, destroy_request := False\<rparr>
        in if have_pshared env \<and> pshared \<and> mattr_rc env \<noteq> 0 then (mattr_rc env, None, sem)
           else if have_pshared env \<and> pshared \<and> cattr_rc env \<noteq> 0 then (cattr_rc env, None, sem)
           else if mutex_rc env \<noteq> 0 then (mutex_rc env, None, sem)
           else if cond_rc env \<noteq> 0 then (cond_rc env, None, sem)
           else (0, None, sem))"

text \<open>The inner loop: wait until the count is not zero or the wait fails.\<close>

fun cond_wait_loop :: "(int \<times> rpl_sem) list \<Rightarrow> int \<Rightarrow> rpl_sem \<Rightarrow> (int \<times> rpl_sem \<times> (int \<times> rpl_sem) list) option" where
  "cond_wait_loop ws retval sem =
     (if retval = 0 \<and> sem_count sem = 0 then
        (case ws of [] \<Rightarrow> None | (rc, sem') # ws' \<Rightarrow> cond_wait_loop ws' (- rc) sem')
      else Some (retval, sem, ws))"

declare cond_wait_loop.simps [simp del]

definition rpl_sem_timedwait_locked ::
  "sem_env \<Rightarrow> (int \<times> rpl_sem) list \<Rightarrow> rpl_sem \<Rightarrow> (int \<times> rpl_sem \<times> (int \<times> rpl_sem) list) option" where
  "rpl_sem_timedwait_locked env ws sem =
     (if lock_rc env \<noteq> 0 then Some (- lock_rc env, sem, ws)
      else if destroy_request sem then Some (- EINVAL, sem, ws)
      else
        case cond_wait_loop ws 0 sem of
          None \<Rightarrow> None
        | Some (retval, sem, ws) \<Rightarrow>
            if destroy_request sem then Some (- EINVAL, sem, ws)
            else if retval = 0 then Some (0, sem\<lparr>sem_count := sem_count sem - 1\<rparr>, ws)
            else if retval = ETIMEDOUT then Some (- EAGAIN, sem, ws)
            else Some (retval, sem, ws))"

partial_function (option) rpl_sem_wait ::
  "sem_env \<Rightarrow> (int \<times> rpl_sem) list \<Rightarrow> rpl_sem \<Rightarrow> (int \<times> int option \<times> rpl_sem \<times> (int \<times> rpl_sem) list) option" where
  "rpl_sem_wait env ws sem =
     (case rpl_sem_timedwait_locked env ws sem of
        None \<Rightarrow> None
      | Some (rc, sem, ws) \<Rightarrow>
          if rc = - EAGAIN then rpl_sem_wait env ws sem
          else if rc < 0 then Some (-1, Some (- rc), sem, ws)
          else Some (0, None, sem, ws))"

definition rpl_sem_timedwait ::
  "sem_env \<Rightarrow> (int \<times> rpl_sem) list \<Rightarrow> rpl_sem \<Rightarrow> (int \<times> int option \<times> rpl_sem \<times> (int \<times> rpl_sem) list) option" where
  "rpl_sem_timedwait env ws sem =
     (case rpl_sem_timedwait_locked env ws sem of
        None \<Rightarrow> None
      | Some (rc, sem, ws) \<Rightarrow>
          if rc < 0 then Some (-1, Some (- rc), sem, ws) else Some (0, None, sem, ws))"

definition rpl_sem_trywait :: "sem_env \<Rightarrow> rpl_sem \<Rightarrow> int \<times> int option \<times> rpl_sem" where
  "rpl_sem_trywait env sem =
     (if lock_rc env \<noteq> 0 then (-1, Some (lock_rc env), sem)
      else if sem_count sem \<noteq> 0 then (0, None, sem\<lparr>sem_count := sem_count sem - 1\<rparr>)
      else (-1, Some EAGAIN, sem))"

definition rpl_sem_post :: "sem_env \<Rightarrow> rpl_sem \<Rightarrow> int \<times> int option \<times> rpl_sem" where
  "rpl_sem_post env sem =
     (if lock_rc env \<noteq> 0 then (-1, Some (lock_rc env), sem)
      else
        let sem = sem\<lparr>sem_count := sem_count sem + 1\<rparr>
        in if bcast_rc env \<noteq> 0 then (-1, Some (bcast_rc env), sem) else (0, None, sem))"

text \<open>The value is stored in an \<^verbatim>\<open>int\<close>: the unsigned count read as signed.\<close>

definition rpl_sem_getvalue :: "sem_env \<Rightarrow> rpl_sem \<Rightarrow> int \<times> int option \<times> int option" where
  "rpl_sem_getvalue env sem =
     (if lock_rc env \<noteq> 0 then (-1, Some (lock_rc env), None)
      else (0, None, Some (sint (sem_count sem))))"

definition rpl_sem_destroy :: "sem_env \<Rightarrow> rpl_sem \<Rightarrow> int \<times> int option \<times> rpl_sem" where
  "rpl_sem_destroy env sem =
     (if lock_rc env \<noteq> 0 then (-1, Some (lock_rc env), sem)
      else (0, None, sem\<lparr>destroy_request := True\<rparr>))"

section \<open>The counting behaviour\<close>

lemma cond_wait_loop_pos: "sem_count sem \<noteq> 0 \<Longrightarrow> cond_wait_loop ws 0 sem = Some (0, sem, ws)"
  by (simp add: cond_wait_loop.simps)

lemma rpl_sem_timedwait_pos:
  assumes "lock_rc env = 0" "\<not> destroy_request sem" "sem_count sem \<noteq> 0"
  shows "rpl_sem_timedwait_locked env ws sem = Some (0, sem\<lparr>sem_count := sem_count sem - 1\<rparr>, ws)"
  using assms by (simp add: rpl_sem_timedwait_locked_def cond_wait_loop_pos)

text \<open>
  A loop that ends with a failed wait reports the negated pthread result, so the positive
  \<^verbatim>\<open>ETIMEDOUT\<close> tested after the loop never occurs.
\<close>

lemma cond_wait_loop_result:
  "cond_wait_loop ws retval sem = Some (retval', sem', ws') \<Longrightarrow> retval \<le> 0 \<Longrightarrow> \<forall>w\<in>set ws. 0 \<le> fst w \<Longrightarrow>
   retval' \<le> 0 \<and> set ws' \<subseteq> set ws \<and> (retval' = 0 \<longrightarrow> sem_count sem' \<noteq> 0)"
proof (induction ws arbitrary: retval sem)
  case Nil
  then show ?case by (auto simp: cond_wait_loop.simps[of "[]"] split: if_splits)
next
  case (Cons w ws)
  show ?case
  proof (cases "retval = 0 \<and> sem_count sem = 0")
    case True
    with Cons.prems(1) have "cond_wait_loop ws (- fst w) (snd w) = Some (retval', sem', ws')"
      by (simp add: cond_wait_loop.simps[of "w # ws"] split: prod.splits)
    from Cons.IH[OF this] Cons.prems(3) show ?thesis by auto
  next
    case False
    with Cons.prems(1,2) show ?thesis by (auto simp: cond_wait_loop.simps[of "w # ws"])
  qed
qed

lemma rpl_sem_wait_pos:
  assumes "lock_rc env = 0" "\<not> destroy_request sem" "sem_count sem \<noteq> 0"
  shows "rpl_sem_wait env ws sem = Some (0, None, sem\<lparr>sem_count := sem_count sem - 1\<rparr>, ws)"
  by (simp add: rpl_sem_wait.simps[of env ws sem] rpl_sem_timedwait_pos[OF assms])

text \<open>
  \<^verbatim>\<open>rpl_sem_wait\<close> does not wait for a token: when the one-second wait it is built on times
  out, it returns -1 with \<^verbatim>\<open>errno\<close> set to \<^verbatim>\<open>ETIMEDOUT\<close>, because the timed wait tests the negated
  result against the positive constant and so never reports \<^verbatim>\<open>-EAGAIN\<close>, the value the retry
  loop looks for.
\<close>
lemma rpl_sem_wait_timeout:
  assumes "lock_rc env = 0" "\<not> destroy_request sem" "sem_count sem = 0"
    and "\<not> destroy_request sem'"
  shows "rpl_sem_wait env ((ETIMEDOUT, sem') # ws) sem = Some (-1, Some ETIMEDOUT, sem', ws)"
  using assms
  by (simp add: rpl_sem_wait.simps[of env _ sem] rpl_sem_timedwait_locked_def cond_wait_loop.simps)

theorem rpl_sem_wait_timeout_witness:
  "rpl_sem_wait \<lparr>lock_rc = 0, bcast_rc = 0\<rparr>
     [(ETIMEDOUT, \<lparr>sem_count = 0, destroy_request = False\<rparr>)] \<lparr>sem_count = 0, destroy_request = False\<rparr> =
   Some (-1, Some ETIMEDOUT, \<lparr>sem_count = 0, destroy_request = False\<rparr>, [])"
  by (rule rpl_sem_wait_timeout) simp_all

end
