(* ===== verification/Ringbuffer_helper.thy ===== *)
theory Ringbuffer_helper
  imports Ringbuffer_Queue Rpl_sem
begin

text \<open>
  The notifiers of \<^verbatim>\<open>lib/ringbuffer_helper.c\<close> and the contract that the ring buffer relies on.
  The locale \<open>rb_semaphore\<close> states what a counting notifier promises; its clients are the
  queue laws of a buffer whose notifier counts the committed chunks. The POSIX notifier over
  the semaphore of \<^verbatim>\<open>rpl_sem.c\<close> is proved to keep the promise.
\<close>

section \<open>POSIX semaphores as notifier\<close>

text \<open>
  The instance of the notifier is the ring buffer itself in the source; the callbacks use its
  semaphore only. The instance here is that semaphore with the waits the environment will
  still answer.
\<close>

type_synonym rb_sem = "rpl_sem \<times> (int \<times> rpl_sem) list"

definition sem_wait_once :: "sem_env \<Rightarrow> int \<Rightarrow> rb_sem \<Rightarrow> (int \<times> int option \<times> rb_sem) option" where
  "sem_wait_once env ms_timeout s =
     (let (sem, ws) = s in
      if ms_timeout > 0 then rpl_sem_timedwait env ws sem
      else if ms_timeout = 0
      then Some (let (res, e, sem') = rpl_sem_trywait env sem in (res, e, sem', ws))
      else rpl_sem_wait env ws sem)"

partial_function (option) my_posix_sem_timedwait :: "sem_env \<Rightarrow> rb_sem \<Rightarrow> int \<Rightarrow> (int \<times> rb_sem) option" where
  "my_posix_sem_timedwait env s ms_timeout =
     (case sem_wait_once env ms_timeout s of
        None \<Rightarrow> None
      | Some (res, e, s') \<Rightarrow>
          if res = -1 then
            (case e of
               None \<Rightarrow> Some (-1, s')
             | Some err \<Rightarrow>
                 if err = EINTR then my_posix_sem_timedwait env s' ms_timeout
                 else if err = EAGAIN then Some (- ETIMEDOUT, s')
                 else Some (- err, s'))
          else Some (res, s'))"

definition my_posix_sem_post :: "sem_env \<Rightarrow> rb_sem \<Rightarrow> u64 \<Rightarrow> int \<times> rb_sem" where
  "my_posix_sem_post env s msg_size =
     (let (sem, ws) = s; (res, e, sem) = rpl_sem_post env sem
      in (if res < 0 then - the e else 0, sem, ws))"

definition my_posix_getvalue_fn :: "sem_env \<Rightarrow> rb_sem \<Rightarrow> int" where
  "my_posix_getvalue_fn env s =
     (let (res, e, v) = rpl_sem_getvalue env (fst s) in if res < 0 then - the e else the v)"

definition my_posix_sem_destroy :: "sem_env \<Rightarrow> rb_sem \<Rightarrow> int \<times> rb_sem" where
  "my_posix_sem_destroy env s =
     (let (sem, ws) = s; (res, e, sem) = rpl_sem_destroy env sem
      in (if res = -1 then - the e else 0, sem, ws))"

definition my_posix_sem_create :: "sem_init_env \<Rightarrow> rb_sem \<Rightarrow> u32 \<Rightarrow> int \<times> rb_sem" where
  "my_posix_sem_create ienv s fl =
     (if flag_set fl QB_RB_FLAG_SHARED_PROCESS \<and> \<not> flag_set fl QB_RB_FLAG_CREATE then (0, s)
      else
        let (sem, ws) = s;
            (res, e, sem) = rpl_sem_init ienv sem (flag_set fl QB_RB_FLAG_SHARED_PROCESS) 0
        in (if res = -1 then - the e else 0, sem, ws))"

definition posix_notifier :: "sem_env \<Rightarrow> rb_sem qb_rb_notifier" where
  "posix_notifier env =
     \<lparr>post_fn = Some (my_posix_sem_post env), q_len_fn = Some (my_posix_getvalue_fn env),
      space_used_fn = None, timedwait_fn = Some (my_posix_sem_timedwait env),
      reclaim_fn = None, destroy_fn = Some (my_posix_sem_destroy env)\<rparr>"

definition no_notifier :: "'s qb_rb_notifier" where
  "no_notifier = \<lparr>post_fn = None, q_len_fn = None, space_used_fn = None, timedwait_fn = None,
     reclaim_fn = None, destroy_fn = None\<rparr>"

text \<open>
  \<^verbatim>\<open>qb_rb_sem_create\<close> where POSIX semaphores are usable between processes. The assignments
  leave \<^verbatim>\<open>reclaim_fn\<close> alone; in the \<^verbatim>\<open>calloc\<close>ed structure it is NULL.
\<close>

definition qb_rb_sem_create ::
  "sem_env \<Rightarrow> sem_init_env \<Rightarrow> rb_sem qb_ringbuffer \<Rightarrow> u32 \<Rightarrow> int \<times> rb_sem qb_ringbuffer" where
  "qb_rb_sem_create env ienv rb fl =
     (if flag_set fl QB_RB_FLAG_NO_SEMAPHORE
      then (0, rb\<lparr>notifier := no_notifier\<lparr>reclaim_fn := reclaim_fn (notifier rb)\<rparr>\<rparr>)
      else
        let (rc, s) = my_posix_sem_create ienv (inst rb) fl
        in (rc, rb\<lparr>inst := s, notifier := (posix_notifier env)\<lparr>reclaim_fn := reclaim_fn (notifier rb)\<rparr>\<rparr>))"

section \<open>The contract of a counting notifier\<close>

text \<open>
  A buffer in normal mode holds the chunks \<open>cs\<close>, and its notifier \<open>n\<close> counts them.
\<close>

definition rb_holds ::
  "'s qb_rb_notifier \<Rightarrow> ('s \<Rightarrow> nat) \<Rightarrow> ('s \<Rightarrow> bool) \<Rightarrow> 's qb_ringbuffer \<Rightarrow> u8 list list \<Rightarrow> bool" where
  "rb_holds n tokens ok rb cs \<longleftrightarrow>
     rb_rep rb cs \<and> notifier rb = n \<and> ok (inst rb) \<and> tokens (inst rb) = length cs \<and>
     \<not> flag_set (flags rb) QB_RB_FLAG_OVERWRITE"

text \<open>
  The specification: a bounded first-in first-out queue of byte strings. A chunk of \<open>n\<close> bytes
  is accepted while the margin of twelve bytes fits beside it.
\<close>

datatype rb_op = RbWrite "u8 list" | RbRead u64

definition spec_fits :: "nat \<Rightarrow> u8 list list \<Rightarrow> nat \<Rightarrow> bool" where
  "spec_fits W cs n \<longleftrightarrow> n + 12 \<le> 4 * (if cs = [] then W else W - used_words cs - 1)"

fun spec_step :: "nat \<Rightarrow> u8 list list \<Rightarrow> rb_op \<Rightarrow> (int \<times> u8 list option) \<times> u8 list list" where
  "spec_step W cs (RbWrite d) =
     (if spec_fits W cs (length d) then ((int (length d), None), cs @ [d]) else ((- EAGAIN, None), cs))"
| "spec_step W [] (RbRead len) = ((- ETIMEDOUT, None), [])"
| "spec_step W (c # cs) (RbRead len) =
     (if unat len < length c then ((- ENOBUFS, None), c # cs) else ((int (length c), Some c), cs))"

text \<open>The same operations of the code: a write, and a read that does not wait.\<close>

fun rb_step :: "'s qb_ringbuffer \<Rightarrow> rb_op \<Rightarrow> ((int \<times> u8 list option) \<times> 's qb_ringbuffer) option" where
  "rb_step rb (RbWrite d) = (let (res, rb') = rb_chunk_write rb d in Some ((res, None), rb'))"
| "rb_step rb (RbRead len) = map_option (\<lambda>(res, out, rb'). ((res, out), rb')) (rb_chunk_read rb len 0)"

fun spec_run :: "nat \<Rightarrow> u8 list list \<Rightarrow> rb_op list \<Rightarrow> (int \<times> u8 list option) list" where
  "spec_run W cs [] = []"
| "spec_run W cs (x # xs) = (let (out, cs') = spec_step W cs x in out # spec_run W cs' xs)"

fun rb_run :: "'s qb_ringbuffer \<Rightarrow> rb_op list \<Rightarrow> (int \<times> u8 list option) list option" where
  "rb_run rb [] = Some []"
| "rb_run rb (x # xs) =
     (case rb_step rb x of None \<Rightarrow> None | Some (out, rb') \<Rightarrow> map_option (Cons out) (rb_run rb' xs))"

fun rb_op_ok :: "rb_op \<Rightarrow> bool" where
  "rb_op_ok (RbWrite d) = (length d + 12 < 18446744073709551616)"
| "rb_op_ok (RbRead len) = True"

lemma rb_chunk_read_word_size:
  fixes rb :: "'s qb_ringbuffer"
  assumes "rb_chunk_read rb len t = Some (res, out, rb')"
  shows "word_size rb' = word_size rb"
proof -
  have reclaim: "word_size (snd (rb_chunk_reclaim x)) = word_size x" for x :: "'s qb_ringbuffer"
    by (simp add: rb_chunk_reclaim_def Let_def shd_put_def QB_RB_CHUNK_MAGIC_SET_def
        split: option.splits prod.splits)
  have repost: "word_size (rb_repost x m) = word_size x" for x :: "'s qb_ringbuffer" and m
    by (simp add: rb_repost_def split: option.splits)
  obtain res0 rb0 where w: "rb_wait rb t = Some (res0, rb0)" "word_size rb0 = word_size rb"
    using assms by (auto simp: rb_chunk_read_def rb_wait_def split: option.splits)
  show ?thesis
    using assms w reclaim[of rb0] repost[of rb0]
    by (auto simp: rb_chunk_read_def Let_def split: if_splits)
qed

text \<open>
  \<open>tokens\<close> counts the posts that were not yet waited for; \<open>ok\<close> is the provider's invariant.
  The bound is far above the number of chunks a buffer of at most \<open>2 ^ 30\<close> words can hold.
\<close>

locale rb_semaphore =
  fixes n :: "'s qb_rb_notifier"
    and post :: "'s \<Rightarrow> u64 \<Rightarrow> int \<times> 's"
    and wait :: "'s \<Rightarrow> int \<Rightarrow> (int \<times> 's) option"
    and q_len :: "'s \<Rightarrow> int"
    and tokens :: "'s \<Rightarrow> nat"
    and ok :: "'s \<Rightarrow> bool"
  assumes n_post: "post_fn n = Some post"
    and n_wait: "timedwait_fn n = Some wait"
    and n_q_len: "q_len_fn n = Some q_len"
    and n_space: "space_used_fn n = None"
    and n_reclaim: "reclaim_fn n = None"
    and post_token: "ok s \<Longrightarrow> tokens s < 2 ^ 29 \<Longrightarrow>
          fst (post s m) = 0 \<and> ok (snd (post s m)) \<and> tokens (snd (post s m)) = Suc (tokens s)"
    and wait_token: "ok s \<Longrightarrow> 0 < tokens s \<Longrightarrow>
          \<exists>s'. wait s t = Some (0, s') \<and> ok s' \<and> Suc (tokens s') = tokens s"
    and wait_empty: "ok s \<Longrightarrow> tokens s = 0 \<Longrightarrow> wait s 0 = Some (- ETIMEDOUT, s)"
    and q_len_token: "ok s \<Longrightarrow> tokens s \<le> 2 ^ 29 \<Longrightarrow> q_len s = int (tokens s)"
begin

abbreviation holds :: "'s qb_ringbuffer \<Rightarrow> u8 list list \<Rightarrow> bool" where
  "holds \<equiv> rb_holds n tokens ok"

lemmas holds_def = rb_holds_def[of n tokens ok]

lemma holds_length:
  assumes "holds rb cs"
  shows "length cs < 2 ^ 29"
proof -
  have "rb_rep rb cs" using assms by (simp add: holds_def)
  from rb_rep_geometry(2,5)[OF this] length_used_words[of cs] show ?thesis by simp
qed

lemma holds_counts_well:
  assumes "holds rb cs"
  shows "rb_counts_well rb cs"
  using assms holds_length[OF assms] q_len_token[of "inst rb"]
  by (auto simp: holds_def rb_counts_well_def rb_q_len_pos_def n_space n_q_len)

lemma write_full:
  assumes "holds rb cs" "length data + 12 < 18446744073709551616" "\<not> rb_fits rb cs (length data)"
  shows "rb_chunk_write rb data = (- EAGAIN, rb\<lparr>errno := EAGAIN\<rparr>)"
    and "holds (rb\<lparr>errno := EAGAIN\<rparr>) cs"
  using rb_chunk_write_normal[of rb cs data] holds_counts_well[OF assms(1)] assms
  by (auto simp: holds_def)

lemma write_word_size:
  assumes "rb_chunk_write rb data = (res, rb')" "holds rb cs" "length data + 12 < 18446744073709551616"
  shows "word_size rb' = word_size rb"
proof -
  have "word_size (snd (rb_store rb data)) = word_size rb"
    by (simp add: rb_store_def rb_chunk_commit_fields rb_memcpy_in_def)
  with assms show ?thesis
    using rb_chunk_write_normal[of rb cs data] holds_counts_well[OF assms(2)]
    by (auto simp: holds_def Let_def split: if_splits prod.splits)
qed

lemma write_append:
  assumes h: "holds rb cs" and fit: "rb_fits rb cs (length data)"
    and len: "length data + 12 < 18446744073709551616"
  shows "\<exists>rb'. rb_chunk_write rb data = (int (length data), rb') \<and> holds rb' (cs @ [data])"
proof -
  let ?r = "rb_store rb data"
  have rep: "rb_rep rb cs" and nt: "notifier rb = n" using h by (auto simp: holds_def)
  have commit: "?r = (fst (post (inst rb) (of_nat (length data))), snd ?r)"
    and inst: "inst (snd ?r) = snd (post (inst rb) (of_nat (length data)))"
    and shape: "notifier (snd ?r) = n" "flags (snd ?r) = flags rb"
    by (simp_all add: rb_store_def rb_chunk_commit_def Let_def shd_put_def QB_RB_CHUNK_MAGIC_SET_def
        rb_memcpy_in_def nt n_post split: prod.splits)
  have "tokens (inst rb) < 2 ^ 29" using h holds_length[OF h] by (simp add: holds_def)
  then have p: "fst (post (inst rb) (of_nat (length data))) = 0"
    "ok (inst (snd ?r))" "tokens (inst (snd ?r)) = Suc (length cs)"
    using post_token[of "inst rb" "of_nat (length data)"] h by (auto simp: holds_def inst)
  then have "holds (snd ?r) (cs @ [data])"
    using rb_store_rep[OF rep fit] h shape by (simp add: holds_def)
  moreover have "rb_chunk_write rb data = (int (length data), snd ?r)"
    using rb_chunk_write_normal[OF rep holds_counts_well[OF h] len] h fit commit p(1)
    by (auto simp: holds_def Let_def split: prod.splits)
  ultimately show ?thesis by blast
qed

lemma read_oldest:
  assumes h: "holds rb (c # cs)" and len: "length c \<le> unat len"
  shows "\<exists>rb'. rb_chunk_read rb len timeout = Some (int (length c), Some c, rb') \<and> holds rb' cs"
proof -
  have rep: "rb_rep rb (c # cs)" and nt: "notifier rb = n" using h by (auto simp: holds_def)
  obtain s' where s': "wait (inst rb) timeout = Some (0, s')" "ok s'" "Suc (tokens s') = tokens (inst rb)"
    using wait_token[of "inst rb" timeout] h by (auto simp: holds_def)
  have w: "rb_wait rb timeout = Some (0, rb\<lparr>inst := s'\<rparr>)" by (simp add: rb_wait_def nt n_wait s')
  have rep': "rb_rep (rb\<lparr>inst := s'\<rparr>) (c # cs)" using rep by simp
  have none: "reclaim_fn (notifier (rb\<lparr>inst := s'\<rparr>)) = None" by (simp add: nt n_reclaim)
  have "holds (snd (rb_chunk_reclaim (rb\<lparr>inst := s'\<rparr>))) cs"
    using rb_chunk_reclaim_rep[OF rep'] rb_chunk_reclaim_shape[OF rep' none] s' h
    by (simp add: holds_def rb_same_shape_def)
  then show ?thesis
    using rb_chunk_read_head[OF rep w refl, of len] len by auto
qed

lemma read_small_buffer:
  assumes h: "holds rb (c # cs)" and len: "unat len < length c"
  shows "\<exists>rb'. rb_chunk_read rb len timeout = Some (- ENOBUFS, None, rb') \<and> holds rb' (c # cs)"
proof -
  have rep: "rb_rep rb (c # cs)" and nt: "notifier rb = n" using h by (auto simp: holds_def)
  obtain s' where s': "wait (inst rb) timeout = Some (0, s')" "ok s'" "Suc (tokens s') = tokens (inst rb)"
    using wait_token[of "inst rb" timeout] h by (auto simp: holds_def)
  have w: "rb_wait rb timeout = Some (0, rb\<lparr>inst := s'\<rparr>)" by (simp add: rb_wait_def nt n_wait s')
  have "tokens s' < 2 ^ 29" using s'(3) h holds_length[OF h] by (simp add: holds_def)
  then have "holds (rb_repost (rb\<lparr>inst := s'\<rparr>) (of_nat (length c))) (c # cs)"
    using post_token[of s' "of_nat (length c)"] s' h rep
    by (simp add: holds_def rb_repost_def nt n_post)
  then show ?thesis using rb_chunk_read_head[OF rep w refl, of len] len by auto
qed

lemma read_empty:
  assumes h: "holds rb []"
  shows "rb_chunk_read rb len 0 = Some (- ETIMEDOUT, None, rb)"
  using h wait_empty[of "inst rb"] by (simp add: holds_def rb_chunk_read_def rb_wait_def n_wait)

lemma step_simulates:
  assumes h: "holds rb cs" and ok: "rb_op_ok x"
  shows "\<exists>rb'. rb_step rb x = Some (fst (spec_step (unat (word_size rb)) cs x), rb') \<and>
           holds rb' (snd (spec_step (unat (word_size rb)) cs x)) \<and> word_size rb' = word_size rb"
proof (cases x)
  case (RbWrite d)
  have fits: "rb_fits rb cs (length d) = spec_fits (unat (word_size rb)) cs (length d)"
    by (simp add: rb_fits_def spec_fits_def free_words_def)
  obtain res rb' where w: "rb_chunk_write rb d = (res, rb')" by fastforce
  from ok RbWrite have len: "length d + 12 < 18446744073709551616" by simp
  note ws = write_word_size[OF w h len]
  show ?thesis
    using write_append[OF h _ len] write_full[OF h len] w ws fits RbWrite
    by (cases "rb_fits rb cs (length d)") auto
next
  case (RbRead len)
  show ?thesis
  proof (cases cs)
    case Nil
    with h RbRead show ?thesis by (simp add: read_empty)
  next
    case (Cons c cs')
    have "\<exists>rb'. rb_chunk_read rb len 0 =
        Some (fst (fst (spec_step (unat (word_size rb)) cs x)), snd (fst (spec_step (unat (word_size rb)) cs x)), rb') \<and>
        holds rb' (snd (spec_step (unat (word_size rb)) cs x))"
      using read_oldest[of rb c cs' len 0] read_small_buffer[of rb c cs' len 0] h Cons RbRead
      by (cases "unat len < length c") auto
    then show ?thesis using rb_chunk_read_word_size[of rb len 0] RbRead by fastforce
  qed
qed

lemma run_simulates:
  assumes "holds rb cs" "\<forall>x\<in>set xs. rb_op_ok x"
  shows "rb_run rb xs = Some (spec_run (unat (word_size rb)) cs xs)"
  using assms
proof (induction xs arbitrary: rb cs)
  case (Cons x xs)
  obtain rb' where s: "rb_step rb x = Some (fst (spec_step (unat (word_size rb)) cs x), rb')"
    "holds rb' (snd (spec_step (unat (word_size rb)) cs x))" "word_size rb' = word_size rb"
    using step_simulates[of rb cs x] Cons.prems by auto
  with Cons.IH[OF s(2)] Cons.prems(2) show ?case by (simp add: split_def Let_def)
qed simp

end

section \<open>The POSIX notifier keeps the contract\<close>

text \<open>The environment in which locking and broadcasting succeed.\<close>

definition working_env :: sem_env where
  "working_env = \<lparr>lock_rc = 0, bcast_rc = 0\<rparr>"

definition sem_tokens :: "rb_sem \<Rightarrow> nat" where
  "sem_tokens s = unat (sem_count (fst s))"

definition sem_ok :: "rb_sem \<Rightarrow> bool" where
  "sem_ok s \<longleftrightarrow> \<not> destroy_request (fst s)"

lemma unat_minus_one_u32: "x \<noteq> 0 \<Longrightarrow> Suc (unat (x - 1)) = unat (x :: u32)"
  by (metis Suc_pred' unat_gt_0 unat_minus_one)

lemma sem_wait_once_token:
  assumes "\<not> destroy_request sem" "sem_count sem \<noteq> 0"
  shows "sem_wait_once working_env t (sem, ws) = Some (0, None, sem\<lparr>sem_count := sem_count sem - 1\<rparr>, ws)"
  using assms rpl_sem_wait_pos[of working_env sem ws] rpl_sem_timedwait_pos[of working_env sem ws]
  by (simp add: sem_wait_once_def rpl_sem_timedwait_def rpl_sem_trywait_def working_env_def)

lemma sint_small_u32:
  fixes x :: u32
  assumes "unat x \<le> 536870912"
  shows "sint x = int (unat x)"
proof -
  have u: "uint x = int (unat x)" by simp
  then have "uint x \<le> 536870912" using assms by linarith
  moreover have "- (2 ^ 31) \<le> uint x" by (rule order_trans[of _ 0]) simp_all
  ultimately have "signed_take_bit 31 (uint x) = uint x" by (intro signed_take_bit_int_eq_self) auto
  then show ?thesis by (simp add: sint_uint)
qed

lemma unat_plus_one_u32: "unat x < 536870912 \<Longrightarrow> unat (x + 1) = Suc (unat (x :: u32))"
  using unat_add_u32[of x 1] by simp

interpretation psem: rb_semaphore "posix_notifier working_env" "my_posix_sem_post working_env"
  "my_posix_sem_timedwait working_env" "my_posix_getvalue_fn working_env" sem_tokens sem_ok
proof
  fix s :: rb_sem and m :: u64
  assume "sem_ok s" "sem_tokens s < 2 ^ 29"
  then show "fst (my_posix_sem_post working_env s m) = 0 \<and> sem_ok (snd (my_posix_sem_post working_env s m)) \<and>
      sem_tokens (snd (my_posix_sem_post working_env s m)) = Suc (sem_tokens s)"
    by (cases s) (simp add: my_posix_sem_post_def rpl_sem_post_def working_env_def sem_ok_def sem_tokens_def
        unat_plus_one_u32)
next
  fix s :: rb_sem and t :: int
  assume s: "sem_ok s" "0 < sem_tokens s"
  obtain sem ws where [simp]: "s = (sem, ws)" by (cases s)
  have c: "\<not> destroy_request sem" "sem_count sem \<noteq> 0" using s by (auto simp: sem_ok_def sem_tokens_def)
  then have "my_posix_sem_timedwait working_env s t = Some (0, sem\<lparr>sem_count := sem_count sem - 1\<rparr>, ws)"
    by (simp add: my_posix_sem_timedwait.simps[of working_env "(sem, ws)"] sem_wait_once_token)
  then show "\<exists>s'. my_posix_sem_timedwait working_env s t = Some (0, s') \<and> sem_ok s' \<and> Suc (sem_tokens s') = sem_tokens s"
    using c by (simp add: sem_ok_def sem_tokens_def unat_minus_one_u32)
next
  fix s :: rb_sem
  assume "sem_ok s" "sem_tokens s = 0"
  then show "my_posix_sem_timedwait working_env s 0 = Some (- ETIMEDOUT, s)"
    by (cases s) (simp add: my_posix_sem_timedwait.simps sem_wait_once_def rpl_sem_trywait_def
        working_env_def sem_tokens_def unat_eq_0)
next
  fix s :: rb_sem
  assume "sem_ok s" "sem_tokens s \<le> 2 ^ 29"
  then show "my_posix_getvalue_fn working_env s = int (sem_tokens s)"
    by (simp add: my_posix_getvalue_fn_def rpl_sem_getvalue_def working_env_def sem_tokens_def sint_small_u32)
qed (simp_all add: posix_notifier_def)


section \<open>Properties of the ring buffer\<close>

text \<open>Small buffers for the examples: empty, and one that holds a chunk of twelve bytes.\<close>

definition ex_rb :: "u32 \<Rightarrow> u32 \<Rightarrow> 's qb_rb_notifier \<Rightarrow> 's \<Rightarrow> 's qb_ringbuffer" where
  "ex_rb W fl n s =
     \<lparr>flags = fl, write_pt = 0, read_pt = 0, word_size = W, hdr_path = [], data_path = [], ref_count = 1,
      shared_data = (\<lambda>_. 0), notifier = n, inst = s, errno = 0\<rparr>"

definition ex_sem :: rb_sem where
  "ex_sem = (\<lparr>sem_count = 0, destroy_request = False\<rparr>, [])"

definition ex_chunk_mem :: mem where
  "ex_chunk_mem a =
     (if a = 0 then 12 else if a < 4 then 0 else if a < 8 then 0xA1 else if a < 20 then of_nat a else 0)"

definition ex_rb_chunk :: "u32 \<Rightarrow> unit qb_ringbuffer" where
  "ex_rb_chunk fl = (ex_rb 8 fl no_notifier ())\<lparr>write_pt := 5, shared_data := ex_chunk_mem\<rparr>"

lemma ex_rb_chunk_rep: "rb_rep (ex_rb_chunk fl) [[8, 9, 10, 11, 12, 13, 14, 15, 16, 17, 18, 19]]"
  by (simp add: rb_rep_def rb_geometry_def ex_rb_chunk_def ex_rb_def chunk_words_def chunk_at_def
      mem32_get_def mem_read_def ex_chunk_mem_def QB_RB_CHUNK_MAGIC_def upt_rec)

lemma ex_rb_empty_holds:
  "rb_holds (posix_notifier working_env) sem_tokens sem_ok (ex_rb 16 QB_RB_FLAG_CREATE (posix_notifier working_env) ex_sem) []"
  by (simp add: rb_holds_def rb_rep_def rb_geometry_def ex_rb_def ex_sem_def sem_ok_def sem_tokens_def
      flag_set_def rb_flag_defs)

text \<open>
  C1: A ring buffer in normal mode with the POSIX semaphore is a bounded first-in first-out queue
  of byte strings: every sequence of writes and non-waiting reads of the code returns, and
  returns exactly the results (lengths, bytes read, and the errors \<^verbatim>\<open>-EAGAIN\<close>, \<^verbatim>\<open>-ENOBUFS\<close> and
  \<^verbatim>\<open>-ETIMEDOUT\<close>) of the queue specification started with the chunks the buffer holds.
\<close>

theorem rb_run_refines_queue:
  assumes "rb_holds (posix_notifier working_env) sem_tokens sem_ok rb cs" "\<forall>x\<in>set xs. rb_op_ok x"
  shows "rb_run rb xs = Some (spec_run (unat (word_size rb)) cs xs)"
  using assms by (rule psem.run_simulates)

theorem rb_run_refines_queue_witness:
  "rb_run (ex_rb 16 QB_RB_FLAG_CREATE (posix_notifier working_env) ex_sem)
     [RbWrite [1, 2, 3], RbWrite [4, 5], RbRead 2, RbRead 8, RbRead 8, RbRead 8] =
   Some [(3, None), (2, None), (- ENOBUFS, None), (3, Some [1, 2, 3]), (2, Some [4, 5]), (- ETIMEDOUT, None)]"
  by (subst rb_run_refines_queue[OF ex_rb_empty_holds])
    (simp_all add: spec_fits_def ex_rb_def chunk_words_def)



text \<open>
  The space accounting of a buffer without a \<^verbatim>\<open>space_used_fn\<close>. \<^verbatim>\<open>qb_rb_space_free\<close> reports the
  whole buffer when it is empty and otherwise one word less than what the chunks leave;
  \<^verbatim>\<open>qb_rb_space_used\<close> reports the words of the chunks, except that it is one word short while the
  write pointer is below the read pointer.
\<close>

theorem rb_space_accounting:
  assumes "rb_rep rb cs" "rb_counts_well rb cs"
  shows "qb_rb_space_free (Some rb) =
           4 * (if cs = [] then int (unat (word_size rb)) else int (unat (word_size rb)) - int (used_words cs) - 1) \<and>
         qb_rb_space_used (Some rb) = 4 * (int (used_words cs) - (if write_pt rb < read_pt rb then 1 else 0))"
proof -
  have "used_words cs < unat (word_size rb)" using assms(1) by (simp add: rb_rep_def)
  then have "rb_space_free rb =
      4 * (if cs = [] then int (unat (word_size rb)) else int (unat (word_size rb)) - int (used_words cs) - 1)"
    by (simp add: rb_space_free_rep[OF assms] free_words_def of_nat_diff)
  moreover have "space_used_fn (notifier rb) = None" using assms(2) by (simp add: rb_counts_well_def)
  ultimately show ?thesis
    using rb_space_used_rep[OF assms(1)] by (simp only: qb_rb_space_free_def qb_rb_space_used_def option.case simp_thms)
qed

theorem rb_space_accounting_witness:
  "qb_rb_space_free (Some (ex_rb_chunk 0)) = 8 \<and> qb_rb_space_used (Some (ex_rb_chunk 0)) = 20"
  using rb_space_accounting[OF ex_rb_chunk_rep[of 0]]
  by (simp add: rb_counts_well_def ex_rb_chunk_def ex_rb_def no_notifier_def chunk_words_def)

text \<open>
  A read that fails, for whatever reason, consumes nothing: with any notifier, a negative
  result leaves both pointers and the data as they were.
\<close>

theorem rb_chunk_read_error_keeps:
  assumes "rb_chunk_read rb len timeout = Some (res, out, rb')" "res < 0"
  shows "out = None \<and> read_pt rb' = read_pt rb \<and> write_pt rb' = write_pt rb \<and> shared_data rb' = shared_data rb"
proof -
  have repost: "read_pt (rb_repost x m) = read_pt x" "write_pt (rb_repost x m) = write_pt x"
    "shared_data (rb_repost x m) = shared_data x" for x :: "'a qb_ringbuffer" and m
    by (simp_all add: rb_repost_def split: option.splits)
  obtain res0 s where w: "rb_wait rb timeout = Some (res0, rb\<lparr>inst := s\<rparr>)"
  proof (cases "timedwait_fn (notifier rb)")
    case None
    then have "rb_wait rb timeout = Some (0, rb\<lparr>inst := inst rb\<rparr>)" by (simp add: rb_wait_def)
    then show ?thesis by (rule that)
  next
    case (Some f)
    then show ?thesis using assms(1) that by (auto simp: rb_chunk_read_def rb_wait_def split: option.splits)
  qed
  have "uint (x :: u32) < 0 \<longleftrightarrow> False" for x by (simp add: not_less)
  then show ?thesis
    using assms by (auto simp: rb_chunk_read_def w Let_def repost split: if_splits)
qed

theorem rb_chunk_read_error_keeps_witness:
  "\<exists>rb'. rb_chunk_read (ex_rb_chunk 0) 4 0 = Some (- ENOBUFS, None, rb') \<and> read_pt rb' = 0 \<and> write_pt rb' = 5"
proof -
  have w: "rb_wait (ex_rb_chunk 0) 0 = Some (0, ex_rb_chunk 0)"
    by (simp add: rb_wait_def ex_rb_chunk_def ex_rb_def no_notifier_def)
  have r: "rb_chunk_read (ex_rb_chunk 0) 4 0 = Some (- ENOBUFS, None, rb_repost (ex_rb_chunk 0) 12)"
    using rb_chunk_read_head[OF ex_rb_chunk_rep w, of "()" 4] by simp
  with rb_chunk_read_error_keeps[OF r] show ?thesis by (simp add: ex_rb_chunk_def ex_rb_def)
qed

end
