(* ===== verification/Ringbuffer_file.thy ===== *)
theory Ringbuffer_file
  imports Ringbuffer_helper
begin

text \<open>
  Opening a ring buffer (\<^verbatim>\<open>qb_rb_open_2\<close>) and saving it to and loading it from a file
  (\<^verbatim>\<open>qb_rb_write_to_file\<close>, \<^verbatim>\<open>qb_rb_create_from_file\<close>, the format of the blackbox files). The
  system calls are the environment: their results are inputs, and a file is the list of its
  bytes.
\<close>

section \<open>Opening\<close>

record rb_os_env =
  page_size :: u64
  calloc_ok :: bool
  fd_hdr :: int
  hdr_file :: string
  hdr_mmap_errno :: int
  fd_data :: int
  data_file :: string
  circular_rc :: int

definition QB_ROUNDUP :: "u64 \<Rightarrow> u64 \<Rightarrow> u64" where
  "QB_ROUNDUP x y = ((x + (y - 1)) div y) * y"

text \<open>
  \<open>mapped\<close> is what the header and data files hold when they are mapped (fresh files read as
  zeros), \<open>sem_create\<close> is \<^verbatim>\<open>qb_rb_sem_create\<close>. The result is the \<^verbatim>\<open>errno\<close> of a failed call or the
  buffer. The clean-up of a failed open (closing, unlinking and unmapping) changes nothing
  the caller can see of the result.
\<close>

definition qb_rb_open_2 ::
  "rb_os_env \<Rightarrow> ('s qb_ringbuffer \<Rightarrow> u32 \<Rightarrow> int \<times> 's qb_ringbuffer) \<Rightarrow> 's qb_ringbuffer \<Rightarrow>
   u64 \<Rightarrow> u32 \<Rightarrow> 's qb_rb_notifier option \<Rightarrow> int + 's qb_ringbuffer" where
  "qb_rb_open_2 env sem_create mapped sz fl notifiers =
     (let size = sz + (QB_RB_CHUNK_MARGIN + 1);
          real_size = QB_ROUNDUP size (page_size env);
          create = flag_set fl QB_RB_FLAG_CREATE
      in if \<not> calloc_ok env then Inl ENOMEM
         else if fd_hdr env < 0 then Inl (- fd_hdr env)
         else if hdr_mmap_errno env \<noteq> 0 then Inl (hdr_mmap_errno env)
         else
           let rb = mapped\<lparr>flags := fl, notifier := no_notifier\<rparr>;
               rb = (if create then rb\<lparr>word_size := ucast (real_size div 4), write_pt := 0, read_pt := 0,
                                       hdr_path := hdr_file env\<rparr> else rb);
               (error, rb) =
                 (case notifiers of
                    Some n \<Rightarrow> (if \<not> Option.is_none (post_fn n) then (0, rb\<lparr>notifier := n\<rparr>) else sem_create rb fl)
                  | None \<Rightarrow> sem_create rb fl)
           in if error < 0 then Inl (- error)
              else
                let rb = (if create then rb\<lparr>data_path := data_file env\<rparr> else rb)
                in if fd_data env < 0 then Inl (- fd_data env)
                   else if circular_rc env \<noteq> 0 then Inl (- circular_rc env)
                   else if create then
                     let rb = rb\<lparr>shared_data := (\<lambda>a. if a < unat real_size then 0 else shared_data rb a)\<rparr>;
                         rb = shd_put rb (word_size rb) 5
                     in Inr (rb\<lparr>ref_count := 1\<rparr>)
                   else Inr (rb\<lparr>ref_count := ref_count rb + 1\<rparr>))"

definition qb_rb_open ::
  "rb_os_env \<Rightarrow> ('s qb_ringbuffer \<Rightarrow> u32 \<Rightarrow> int \<times> 's qb_ringbuffer) \<Rightarrow> 's qb_ringbuffer \<Rightarrow>
   u64 \<Rightarrow> u32 \<Rightarrow> int + 's qb_ringbuffer" where
  "qb_rb_open env sem_create mapped sz fl = qb_rb_open_2 env sem_create mapped sz fl None"

section \<open>The file format\<close>

definition QB_RB_FILE_HEADER_VERSION :: u32 where "QB_RB_FILE_HEADER_VERSION = 1"

definition le32_bytes :: "u32 \<Rightarrow> u8 list" where
  "le32_bytes w = map (mem32_put (\<lambda>_. 0) 0 w) [0..<4]"

definition le32_of :: "u8 list \<Rightarrow> u32" where
  "le32_of bs = mem32_get (\<lambda>i. if i < length bs then bs ! i else 0) 0"

definition rb_header_hash :: "u32 \<Rightarrow> u32 \<Rightarrow> u32 \<Rightarrow> u32 \<Rightarrow> u32" where
  "rb_header_hash ws wp rp version = ws + wp + rp + version"

definition rb_file_parts :: "'s qb_ringbuffer \<Rightarrow> u8 list list" where
  "rb_file_parts rb =
     [le32_bytes (word_size rb), le32_bytes (write_pt rb), le32_bytes (read_pt rb),
      le32_bytes QB_RB_FILE_HEADER_VERSION,
      le32_bytes (rb_header_hash (word_size rb) (write_pt rb) (read_pt rb) QB_RB_FILE_HEADER_VERSION),
      map (shared_data rb) [0..<4 * unat (word_size rb)]]"

text \<open>
  The successive \<^verbatim>\<open>write\<close> calls: \<open>fd_write k\<close> is what the \<open>k\<close>-th call returns and the \<^verbatim>\<open>errno\<close> it
  leaves; the first short or failed one ends the function with \<^verbatim>\<open>-errno\<close>.
\<close>

fun write_parts :: "(nat \<Rightarrow> int \<times> int) \<Rightarrow> nat \<Rightarrow> int \<Rightarrow> u8 list list \<Rightarrow> int" where
  "write_parts fd_write k written [] = written"
| "write_parts fd_write k written (p # ps) =
     (if fst (fd_write k) \<noteq> int (length p) then - snd (fd_write k)
      else write_parts fd_write (Suc k) (written + fst (fd_write k)) ps)"

definition qb_rb_write_to_file :: "'s qb_ringbuffer option \<Rightarrow> (nat \<Rightarrow> int \<times> int) \<Rightarrow> int" where
  "qb_rb_write_to_file rb fd_write =
     (case rb of None \<Rightarrow> - EINVAL | Some rb \<Rightarrow> write_parts fd_write 0 0 (rb_file_parts rb))"

section \<open>Loading\<close>

text \<open>
  The outcome of a load: NULL, an assertion failure (a file that ends within the pointers), or
  the buffer.
\<close>

datatype 's rb_load = LoadNull | LoadAbort | LoadOk "'s qb_ringbuffer"

text \<open>\<^verbatim>\<open>read(fd, _, n)\<close> on a regular file: the bytes that are there, and the rest of the file.\<close>

definition file_read :: "u8 list \<Rightarrow> nat \<Rightarrow> u8 list \<times> u8 list" where
  "file_read f n = (take n f, drop n f)"

text \<open>The file from the current position on; \<open>st_size\<close> is the size of the whole file.\<close>

definition rb_load ::
  "rb_os_env \<Rightarrow> ('s qb_ringbuffer \<Rightarrow> u32 \<Rightarrow> int \<times> 's qb_ringbuffer) \<Rightarrow> 's qb_ringbuffer \<Rightarrow>
   nat \<Rightarrow> u8 list \<Rightarrow> 's rb_load" where
  "rb_load env sem_create blank st_size f =
     (let (b1, f1) = file_read f 4;
         ws = le32_of b1
     in if length b1 \<noteq> 4 then LoadNull
        else if unat ws > st_size div 4 then LoadNull
        else
          let (b2, f2) = file_read f1 4; (b3, f3) = file_read f2 4;
              wp = le32_of b2; rp = le32_of b3
          in if length b2 \<noteq> 4 \<or> length b3 \<noteq> 4 then LoadAbort
             else if unat wp > st_size \<or> unat rp > st_size then LoadNull
             else
               let (b4, f4) = file_read f3 4; (b5, f5) = file_read f4 4;
                   version = le32_of b4; hash = le32_of b5
               in if length b4 \<noteq> 4 \<or> length b5 \<noteq> 4 then LoadNull
                  else if hash \<noteq> rb_header_hash ws wp rp version then LoadNull
                  else if version \<noteq> QB_RB_FILE_HEADER_VERSION then LoadNull
                  else
                    let n_required = (ucast ws * 4 :: u64)
                    in case qb_rb_open env sem_create blank (n_required - (QB_RB_CHUNK_MARGIN + 1))
                              (QB_RB_FLAG_CREATE OR QB_RB_FLAG_NO_SEMAPHORE) of
                         Inl e \<Rightarrow> LoadNull
                       | Inr rb \<Rightarrow>
                           let rb = rb\<lparr>read_pt := rp, write_pt := wp\<rparr>;
                               (d, f6) = file_read f5 (unat n_required);
                               rb = rb\<lparr>shared_data := (\<lambda>a. if a < length d then d ! a else shared_data rb a)\<rparr>
                           in if length d \<noteq> unat n_required then LoadNull else LoadOk rb)"

definition qb_rb_create_from_file ::
  "rb_os_env \<Rightarrow> ('s qb_ringbuffer \<Rightarrow> u32 \<Rightarrow> int \<times> 's qb_ringbuffer) \<Rightarrow> 's qb_ringbuffer \<Rightarrow>
   u8 list option \<Rightarrow> u32 \<Rightarrow> 's rb_load" where
  "qb_rb_create_from_file env sem_create blank file fl =
     (case file of None \<Rightarrow> LoadNull | Some f \<Rightarrow> rb_load env sem_create blank (length f) f)"

section \<open>A created buffer is empty and as large as asked for\<close>

definition rb_env_ok :: "rb_os_env \<Rightarrow> bool" where
  "rb_env_ok env \<longleftrightarrow>
     calloc_ok env \<and> 0 \<le> fd_hdr env \<and> hdr_mmap_errno env = 0 \<and> 0 \<le> fd_data env \<and> circular_rc env = 0 \<and>
     0 < unat (page_size env) \<and> 4 dvd unat (page_size env)"

lemma unat_add_u64:
  "unat a + unat b < 18446744073709551616 \<Longrightarrow> unat (a + b) = unat a + unat (b :: u64)"
  by (simp add: unat_word_ariths)

lemma unat_numeral_u64_4: "unat (4 :: u64) = 4"
  by simp

lemma unat_roundup:
  assumes "0 < unat y" "unat x + unat y < 18446744073709551616"
  shows "unat (QB_ROUNDUP x y) = ((unat x + (unat y - 1)) div unat y) * unat y"
proof -
  have y1: "unat (y - 1) = unat y - 1"
    using assms(1) by (metis unat_eq_zero less_irrefl unat_minus_one)
  have s: "unat (x + (y - 1)) = unat x + (unat y - 1)"
    using assms y1 by (subst unat_add_u64) auto
  have "(unat x + (unat y - 1)) div unat y * unat y \<le> unat x + (unat y - 1)" by simp
  then have "(unat x + (unat y - 1)) div unat y * unat y < 18446744073709551616" using assms by linarith
  then show ?thesis
    by (simp add: QB_ROUNDUP_def unat_word_ariths(2) unat_div s)
qed

lemma roundup_bounds:
  fixes x y :: nat
  assumes "0 < y"
  shows "x \<le> ((x + (y - 1)) div y) * y" "((x + (y - 1)) div y) * y \<le> x + (y - 1)"
proof -
  have "x + (y - 1) < ((x + (y - 1)) div y) * y + y"
    using assms by (metis add.commute dividend_less_div_times mult.commute)
  then show "x \<le> ((x + (y - 1)) div y) * y" by linarith
  show "((x + (y - 1)) div y) * y \<le> x + (y - 1)" by simp
qed

text \<open>\<open>rb_real_size\<close> is the number of bytes that an open for \<open>sz\<close> bytes maps.\<close>

definition rb_real_size :: "rb_os_env \<Rightarrow> u64 \<Rightarrow> u64" where
  "rb_real_size env sz = QB_ROUNDUP (sz + (QB_RB_CHUNK_MARGIN + 1)) (page_size env)"

lemma rb_real_size_bounds:
  assumes env: "rb_env_ok env" and sz: "unat sz + 13 + unat (page_size env) \<le> 4294967296"
  defines "R \<equiv> unat (rb_real_size env sz)"
  shows "unat sz + 13 \<le> R" "R \<le> 4294967296" "4 dvd R" "0 < R"
proof -
  let ?p = "unat (page_size env)"
  have p: "0 < ?p" "4 dvd ?p" using env by (auto simp: rb_env_ok_def)
  have s: "unat (sz + (QB_RB_CHUNK_MARGIN + 1)) = unat sz + 13"
    using sz by (subst unat_add_u64) (auto simp: QB_RB_CHUNK_MARGIN_def)
  have R: "R = ((unat sz + 13 + (?p - 1)) div ?p) * ?p"
    unfolding R_def rb_real_size_def using p sz s by (subst unat_roundup) auto
  show le: "unat sz + 13 \<le> R" unfolding R by (rule roundup_bounds[OF p(1)])
  show "R \<le> 4294967296" unfolding R using roundup_bounds(2)[OF p(1), of "unat sz + 13"] sz by linarith
  show "4 dvd R" unfolding R using p(2) by simp
  show "0 < R" using le by simp
qed

lemma rb_real_size_words:
  assumes "unat (rb_real_size env sz) \<le> 4294967296" "4 dvd unat (rb_real_size env sz)"
  shows "4 * unat (ucast (rb_real_size env sz div 4) :: u32) = unat (rb_real_size env sz)"
proof -
  let ?R = "unat (rb_real_size env sz)"
  have "?R div 4 \<le> 4294967296 div 4" using assms(1) by (rule div_le_mono)
  then have "unat (of_nat (?R div 4) :: u32) = ?R div 4" by (intro unat_of_nat_u32) simp
  then show ?thesis
    using assms(2) by (metis dvd_mult_div_cancel of_nat_unat unat_div unat_numeral_u64_4)
qed

lemma qb_rb_open_create:
  assumes env: "rb_env_ok env"
    and R: "0 < unat (rb_real_size env sz)" "unat (rb_real_size env sz) \<le> 4294967296"
      "4 dvd unat (rb_real_size env sz)"
    and create: "flag_set fl QB_RB_FLAG_CREATE"
    and sem: "\<And>rb. notifier rb = no_notifier \<Longrightarrow>
        \<exists>s. sem_create rb fl = (0, rb\<lparr>inst := s, notifier := n\<rparr>) \<and> ok s"
  shows "\<exists>rb. qb_rb_open env sem_create blank sz fl = Inr rb \<and> rb_rep rb [] \<and> ref_count rb = 1 \<and>
           flags rb = fl \<and> notifier rb = n \<and> ok (inst rb) \<and>
           4 * unat (word_size rb) = unat (rb_real_size env sz)"
proof -
  let ?x = "rb_real_size env sz"
  define rb0 where "rb0 = blank\<lparr>flags := fl, notifier := no_notifier, word_size := ucast (?x div 4),
    write_pt := 0, read_pt := 0, hdr_path := hdr_file env\<rparr>"
  obtain s where s: "sem_create rb0 fl = (0, rb0\<lparr>inst := s, notifier := n\<rparr>)" "ok s"
    using sem[of rb0] by (auto simp: rb0_def)
  define rb where "rb = shd_put (rb0\<lparr>inst := s, notifier := n, data_path := data_file env,
    shared_data := (\<lambda>a. if a < unat ?x then 0 else shared_data rb0 a)\<rparr>) (word_size rb0) 5"
  have "qb_rb_open env sem_create blank sz fl = Inr (rb\<lparr>ref_count := 1\<rparr>)"
    using env create s(1)
    by (simp add: qb_rb_open_def qb_rb_open_2_def Let_def rb_env_ok_def rb0_def rb_def rb_real_size_def cong: if_cong)
  moreover have "word_size rb = ucast (?x div 4)" "read_pt rb = 0" "write_pt rb = 0" "flags rb = fl"
    "notifier rb = n" "inst rb = s"
    by (simp_all add: rb_def rb0_def shd_put_def)
  ultimately show ?thesis
    using R rb_real_size_words[OF R(2,3)] s(2) by (auto simp: rb_rep_def rb_geometry_def)
qed

text \<open>The environment in which the semaphore can be created.\<close>

definition sem_init_ok :: "sem_init_env \<Rightarrow> bool" where
  "sem_init_ok ienv \<longleftrightarrow> have_pshared ienv \<and> mattr_rc ienv = 0 \<and> cattr_rc ienv = 0 \<and> mutex_rc ienv = 0 \<and> cond_rc ienv = 0"

lemma qb_rb_sem_create_posix:
  assumes ok: "sem_init_ok ienv" and fl: "\<not> flag_set fl QB_RB_FLAG_NO_SEMAPHORE" "flag_set fl QB_RB_FLAG_CREATE"
    and rb: "notifier rb = no_notifier"
  shows "\<exists>s. qb_rb_sem_create env ienv rb fl = (0, rb\<lparr>inst := s, notifier := posix_notifier env\<rparr>) \<and>
           sem_ok s \<and> sem_tokens s = 0"
proof -
  obtain c ws where i: "inst rb = (c, ws)" by (cases "inst rb")
  let ?c = "c\<lparr>sem_count := 0, destroy_request := False\<rparr>"
  have "rpl_sem_init ienv c (flag_set fl QB_RB_FLAG_SHARED_PROCESS) 0 = (0, None, ?c)"
    using ok by (simp add: rpl_sem_init_def sem_init_ok_def)
  then have "my_posix_sem_create ienv (inst rb) fl = (0, ?c, ws)"
    using fl by (simp add: my_posix_sem_create_def i)
  then have "qb_rb_sem_create env ienv rb fl = (0, rb\<lparr>inst := (?c, ws), notifier := posix_notifier env\<rparr>)"
    using fl rb by (simp add: qb_rb_sem_create_def posix_notifier_def no_notifier_def)
  moreover have "sem_ok (?c, ws) \<and> sem_tokens (?c, ws) = 0" by (simp add: sem_ok_def sem_tokens_def)
  ultimately show ?thesis by blast
qed

lemma qb_rb_sem_create_none:
  assumes "flag_set fl QB_RB_FLAG_NO_SEMAPHORE" "notifier rb = no_notifier"
  shows "\<exists>s. qb_rb_sem_create env ienv rb fl = (0, rb\<lparr>inst := s, notifier := no_notifier\<rparr>) \<and> True"
proof -
  have "rb\<lparr>notifier := no_notifier\<rparr> = rb\<lparr>inst := inst rb, notifier := no_notifier\<rparr>" by simp
  moreover have "no_notifier\<lparr>reclaim_fn := reclaim_fn no_notifier\<rparr> = no_notifier" by simp
  ultimately show ?thesis using assms by (metis qb_rb_sem_create_def)
qed

section \<open>A saved buffer is loaded back\<close>

definition rb_file :: "'s qb_ringbuffer \<Rightarrow> u8 list" where
  "rb_file rb = concat (rb_file_parts rb)"

lemma le32_of_bytes [simp]: "le32_of (le32_bytes w) = w"
proof -
  have "mem32_get (\<lambda>i. if i < length (le32_bytes w) then le32_bytes w ! i else 0) 0 =
      mem32_get (mem32_put (\<lambda>_. 0) 0 w) 0"
    by (rule mem32_get_cong) (simp add: le32_bytes_def)
  then show ?thesis by (simp add: le32_of_def mem_simps)
qed

lemma length_le32_bytes [simp]: "length (le32_bytes w) = 4"
  by (simp add: le32_bytes_def)

lemma write_parts_complete:
  assumes "\<And>i. i < length ps \<Longrightarrow> fst (fd_write (k + i)) = int (length (ps ! i))"
  shows "write_parts fd_write k written ps = written + int (length (concat ps))"
  using assms
proof (induction ps arbitrary: k written)
  case (Cons p ps)
  have "fst (fd_write k) = int (length p)" using Cons.prems[of 0] by simp
  moreover have "fst (fd_write (Suc k + i)) = int (length (ps ! i))" if "i < length ps" for i
    using Cons.prems[of "Suc i"] that by simp
  ultimately show ?case using Cons.IH[of "Suc k"] by simp
qed simp

lemma file_read_append: "length bs = n \<Longrightarrow> file_read (bs @ rest) n = (bs, rest)"
  by (auto simp: file_read_def)

lemma length_rb_file: "length (rb_file rb) = 20 + 4 * unat (word_size rb)"
  by (simp add: rb_file_def rb_file_parts_def)

lemma unat_n_required: "unat (ucast (ws :: u32) * 4 :: u64) = 4 * unat ws"
  using unat_u32_less[of ws] by (simp add: unat_word_ariths unsigned_ucast_eq take_bit_nat_eq_self)

lemma rb_real_size_exact:
  assumes env: "rb_env_ok env" and W: "0 < unat ws" "unat (page_size env) dvd 4 * unat (ws :: u32)"
  shows "unat (rb_real_size env (ucast ws * 4 - (QB_RB_CHUNK_MARGIN + 1))) = 4 * unat ws"
proof -
  have p: "0 < unat (page_size env)" using env by (simp add: rb_env_ok_def)
  have le: "unat (page_size env) \<le> 4 * unat ws" using W by (simp add: dvd_imp_le)
  obtain q where q: "4 * unat ws = unat (page_size env) * q" using W(2) by (auto simp: dvd_def)
  have "unat (QB_ROUNDUP (ucast ws * 4) (page_size env)) =
      ((4 * unat ws + (unat (page_size env) - 1)) div unat (page_size env)) * unat (page_size env)"
    using p le unat_u32_less[of ws] by (subst unat_roundup) (auto simp: unat_n_required)
  also have "(4 * unat ws + (unat (page_size env) - 1)) div unat (page_size env) = q"
    unfolding q using p by (simp only: div_mult_self4) simp
  also have "q * unat (page_size env) = 4 * unat ws" by (simp add: q)
  finally show ?thesis by (simp add: rb_real_size_def)
qed

lemma rb_rep_mem_eq:
  assumes "rb_rep rb cs" "word_size rb' = word_size rb" "read_pt rb' = read_pt rb" "write_pt rb' = write_pt rb"
    and "\<And>a. a < 4 * unat (word_size rb) \<Longrightarrow> shared_data rb' a = shared_data rb a"
  shows "rb_rep rb' cs"
proof -
  have W: "0 < unat (word_size rb)" using assms(1) by (simp add: rb_rep_def rb_geometry_def)
  have "rb_layout (shared_data rb') (unat (word_size rb)) (unat (read_pt rb)) cs =
        rb_layout (shared_data rb) (unat (word_size rb)) (unat (read_pt rb)) cs"
    by (rule rb_layout_cong) (use W in \<open>auto intro!: assms(5)\<close>)
  then show ?thesis using assms(1-4) by (simp add: rb_rep_def rb_geometry_def)
qed

lemma rb_load_saved:
  assumes rep: "rb_rep rb cs" and env: "rb_env_ok env" and page: "unat (page_size env) dvd 4 * unat (word_size rb)"
    and size: "length (rb_file rb) \<le> st_size"
  shows "\<exists>rb'. rb_load env (qb_rb_sem_create senv ienv) blank st_size (rb_file rb) = LoadOk rb' \<and>
           rb_rep rb' cs \<and> notifier rb' = no_notifier \<and>
           flags rb' = (QB_RB_FLAG_CREATE OR QB_RB_FLAG_NO_SEMAPHORE) \<and>
           QB_RB_CHUNK_MAGIC_GET rb' (write_pt rb') = QB_RB_CHUNK_MAGIC_GET rb (write_pt rb)"
proof -
  let ?W = "unat (word_size rb)" and ?fl = "QB_RB_FLAG_CREATE OR QB_RB_FLAG_NO_SEMAPHORE"
  let ?sz = "ucast (word_size rb) * 4 - (QB_RB_CHUNK_MARGIN + 1) :: u64"
  let ?d = "map (shared_data rb) [0..<4 * ?W]"
  have g: "0 < ?W" "?W \<le> 1073741824" "unat (read_pt rb) < ?W" "unat (write_pt rb) < ?W"
    using rep by (auto simp: rb_rep_def rb_geometry_def)
  have R: "unat (rb_real_size env ?sz) = 4 * ?W" by (rule rb_real_size_exact[OF env g(1) page])
  have fl: "flag_set ?fl QB_RB_FLAG_CREATE" "flag_set ?fl QB_RB_FLAG_NO_SEMAPHORE"
    by (simp_all add: flag_set_def QB_RB_FLAG_CREATE_def QB_RB_FLAG_NO_SEMAPHORE_def)
  have Rb: "0 < unat (rb_real_size env ?sz)" "unat (rb_real_size env ?sz) \<le> 4294967296"
    "4 dvd unat (rb_real_size env ?sz)" using R g by auto
  obtain rb1 where rb1: "qb_rb_open env (qb_rb_sem_create senv ienv) blank ?sz ?fl = Inr rb1"
    "flags rb1 = ?fl" "notifier rb1 = no_notifier" "4 * unat (word_size rb1) = unat (rb_real_size env ?sz)"
    using qb_rb_open_create[where ok="\<lambda>_. True" and sem_create="qb_rb_sem_create senv ienv" and n=no_notifier
      and fl="?fl" and env=env and sz="?sz" and blank=blank, OF env Rb fl(1) qb_rb_sem_create_none[OF fl(2)]] by blast
  have ws: "word_size rb1 = word_size rb" using rb1(4) R by (simp add: word_unat_eq_iff)
  define rb' where "rb' = rb1\<lparr>read_pt := read_pt rb, write_pt := write_pt rb,
    shared_data := (\<lambda>a. if a < length ?d then ?d ! a else shared_data rb1 a)\<rparr>"
  have bytes: "rb_file rb = le32_bytes (word_size rb) @ le32_bytes (write_pt rb) @ le32_bytes (read_pt rb) @
    le32_bytes QB_RB_FILE_HEADER_VERSION @
    le32_bytes (rb_header_hash (word_size rb) (write_pt rb) (read_pt rb) QB_RB_FILE_HEADER_VERSION) @ ?d @ []"
    by (simp add: rb_file_def rb_file_parts_def)
  have len: "length (le32_bytes w) = 4" "length ?d = unat (ucast (word_size rb) * 4 :: u64)" for w
    by (simp_all add: unat_n_required)
  have st: "?W \<le> st_size div 4" "unat (write_pt rb) \<le> st_size" "unat (read_pt rb) \<le> st_size"
    using size g by (simp_all add: length_rb_file)
  have "rb_load env (qb_rb_sem_create senv ienv) blank st_size (rb_file rb) = LoadOk rb'"
    unfolding rb_load_def Let_def bytes
    by (simp only: file_read_append[OF len(1)] file_read_append[OF len(2)] prod.case le32_of_bytes len rb1(1) sum.case)
      (use st in \<open>simp add: rb'_def unat_n_required not_less cong: if_cong\<close>)
  moreover have "rb_rep rb' cs"
    by (rule rb_rep_mem_eq[OF rep]) (simp_all add: rb'_def ws)
  moreover have "QB_RB_CHUNK_MAGIC_GET rb' (write_pt rb') = QB_RB_CHUNK_MAGIC_GET rb (write_pt rb)"
  proof -
    let ?i = "unat ((write_pt rb + 1) mod word_size rb) mod ?W"
    have "4 * ?i + j < 4 * ?W" if "j < 4" for j using that mod_less_divisor[OF g(1), of "unat ((write_pt rb + 1) mod word_size rb)"] by linarith
    then have "mem32_get (shared_data rb') ?i = mem32_get (shared_data rb) ?i"
      by (intro mem32_get_cong) (simp add: rb'_def)
    then show ?thesis by (simp add: QB_RB_CHUNK_MAGIC_GET_def shd_get_def rb'_def ws)
  qed
  ultimately show ?thesis using rb1(2,3) by (auto simp: rb'_def)
qed


section \<open>Properties of opening and loading\<close>

text \<open>
  C21: Creating a ring buffer for \<open>sz\<close> bytes with a semaphore gives an empty queue whose size is
  the rounded-up one, with a chunk of \<open>sz\<close> bytes accepted: the extra margin that
  \<^verbatim>\<open>qb_rb_open_2\<close> adds is enough for the request.
\<close>

theorem qb_rb_open_gives_queue:
  assumes "rb_env_ok env" "sem_init_ok ienv" "unat sz + 13 + unat (page_size env) \<le> 4294967296"
    and "flag_set fl QB_RB_FLAG_CREATE" "\<not> flag_set fl QB_RB_FLAG_NO_SEMAPHORE" "\<not> flag_set fl QB_RB_FLAG_OVERWRITE"
  shows "\<exists>rb. qb_rb_open env (qb_rb_sem_create working_env ienv) blank sz fl = Inr rb \<and>
           rb_holds (posix_notifier working_env) sem_tokens sem_ok rb [] \<and>
           spec_fits (unat (word_size rb)) [] (unat sz) \<and>
           4 * unat (word_size rb) = unat (QB_ROUNDUP (sz + 13) (page_size env))"
proof -
  note R = rb_real_size_bounds[OF assms(1,3)]
  obtain rb where "qb_rb_open env (qb_rb_sem_create working_env ienv) blank sz fl = Inr rb" "rb_rep rb []"
    "flags rb = fl" "notifier rb = posix_notifier working_env" "sem_ok (inst rb) \<and> sem_tokens (inst rb) = 0"
    "4 * unat (word_size rb) = unat (rb_real_size env sz)"
    using qb_rb_open_create[where ok="\<lambda>s. sem_ok s \<and> sem_tokens s = 0" and n="posix_notifier working_env"
      and sem_create="qb_rb_sem_create working_env ienv", OF assms(1) R(4,2,3) assms(4)
      qb_rb_sem_create_posix[OF assms(2,5,4), of _ working_env]] by blast
  then show ?thesis
    using R(1) assms(6) by (simp add: rb_holds_def spec_fits_def rb_real_size_def QB_RB_CHUNK_MARGIN_def)
qed

definition ex_env :: rb_os_env where
  "ex_env = \<lparr>page_size = 4096, calloc_ok = True, fd_hdr = 3, hdr_file = [], hdr_mmap_errno = 0,
     fd_data = 4, data_file = [], circular_rc = 0\<rparr>"

definition ex_ienv :: sem_init_env where
  "ex_ienv = \<lparr>have_pshared = True, mattr_rc = 0, cattr_rc = 0, mutex_rc = 0, cond_rc = 0\<rparr>"

theorem qb_rb_open_gives_queue_witness:
  "\<exists>rb. qb_rb_open ex_env (qb_rb_sem_create working_env ex_ienv) (ex_rb 0 0 no_notifier ex_sem) 100 1 = Inr rb \<and>
     rb_holds (posix_notifier working_env) sem_tokens sem_ok rb [] \<and> unat (word_size rb) = 1024"
proof -
  have r: "unat (QB_ROUNDUP (100 + 13) (page_size ex_env)) = 4096"
    by (subst unat_roundup) (simp_all add: ex_env_def)
  have "rb_env_ok ex_env" "sem_init_ok ex_ienv" by (simp_all add: rb_env_ok_def ex_env_def sem_init_ok_def ex_ienv_def)
  from qb_rb_open_gives_queue[OF this, of 100 1 "ex_rb 0 0 no_notifier ex_sem"] r
  show ?thesis by (auto simp: flag_set_def rb_flag_defs ex_env_def)
qed

text \<open>
  C20: Saving and loading is a round trip. When every \<^verbatim>\<open>write\<close> is complete, \<^verbatim>\<open>qb_rb_write_to_file\<close>
  reports the size of the file, and \<^verbatim>\<open>qb_rb_create_from_file\<close> on that file gives a buffer
  without semaphore that holds the same chunks in the same order, whatever flags are passed.
  The size of the buffer is a multiple of the page size, as \<^verbatim>\<open>qb_rb_open\<close> makes it.
\<close>

theorem rb_save_load_roundtrip:
  assumes "rb_rep rb cs" "rb_env_ok env" "unat (page_size env) dvd 4 * unat (word_size rb)"
    and "\<And>i. i < length (rb_file_parts rb) \<Longrightarrow> fst (fd_write i) = int (length (rb_file_parts rb ! i))"
  shows "qb_rb_write_to_file (Some rb) fd_write = int (length (rb_file rb)) \<and>
         (\<exists>rb'. qb_rb_create_from_file env (qb_rb_sem_create senv ienv) blank (Some (rb_file rb)) fl = LoadOk rb' \<and>
            rb_rep rb' cs \<and> notifier rb' = no_notifier)"
  using rb_load_saved[OF assms(1-3) order_refl] write_parts_complete[of "rb_file_parts rb" fd_write 0 0] assms(4)
  by (fastforce simp: qb_rb_write_to_file_def qb_rb_create_from_file_def rb_file_def)

theorem rb_save_load_roundtrip_witness:
  "qb_rb_write_to_file (Some (ex_rb_chunk 0)) (\<lambda>i. (int (length (rb_file_parts (ex_rb_chunk 0) ! i)), 0)) =
     int (length (rb_file (ex_rb_chunk 0))) \<and>
   (\<exists>rb'. qb_rb_create_from_file (ex_env\<lparr>page_size := 16\<rparr>) (qb_rb_sem_create working_env ex_ienv)
       (ex_rb 0 0 no_notifier ex_sem) (Some (rb_file (ex_rb_chunk 0))) 0 = LoadOk rb' \<and>
     rb_rep rb' [[8, 9, 10, 11, 12, 13, 14, 15, 16, 17, 18, 19]])"
proof -
  have "rb_env_ok (ex_env\<lparr>page_size := 16\<rparr>)" "unat (page_size (ex_env\<lparr>page_size := 16\<rparr>)) dvd 4 * unat (word_size (ex_rb_chunk 0))"
    by (simp_all add: rb_env_ok_def ex_env_def ex_rb_chunk_def ex_rb_def)
  note rt = rb_save_load_roundtrip[OF ex_rb_chunk_rep this, where senv=working_env and ienv=ex_ienv and fl=0
    and blank="ex_rb 0 0 no_notifier ex_sem" and fd_write="\<lambda>i. (int (length (rb_file_parts (ex_rb_chunk 0) ! i)), 0)"]
  show ?thesis using rt by (simp only: fst_conv) blast
qed

end
