(* ===== verification/Ringbuffer_close.thy ===== *)
theory Ringbuffer_close
  imports Ringbuffer_helper
begin

text \<open>
  Closing a ring buffer and the accessors of its shared header: \<^verbatim>\<open>qb_rb_close\<close>,
  \<^verbatim>\<open>qb_rb_force_close\<close>, \<^verbatim>\<open>qb_rb_close_helper\<close>, \<^verbatim>\<open>qb_rb_lastref_and_ret\<close>, the reference count and the
  ownership calls. The results of the system calls are inputs; what is removed from the file
  system is part of the result, as the list of directory and name pairs handed to
  \<^verbatim>\<open>qb_sys_unlink_or_truncate_at\<close>.
\<close>

section \<open>Reference counting and names\<close>

definition qb_rb_chunk_alloc :: "'s qb_ringbuffer option \<Rightarrow> u64 \<Rightarrow> nat option \<times> 's qb_ringbuffer option" where
  "qb_rb_chunk_alloc rb len =
     (case rb of None \<Rightarrow> (None, None) | Some rb \<Rightarrow> map_prod id Some (rb_chunk_alloc rb len))"

definition qb_rb_chunk_commit :: "'s qb_ringbuffer option \<Rightarrow> u64 \<Rightarrow> int \<times> 's qb_ringbuffer option" where
  "qb_rb_chunk_commit rb len =
     (case rb of None \<Rightarrow> (- EINVAL, None) | Some rb \<Rightarrow> map_prod id Some (rb_chunk_commit rb len))"

definition qb_rb_name_get :: "'s qb_ringbuffer option \<Rightarrow> string option" where
  "qb_rb_name_get rb = map_option hdr_path rb"

definition qb_rb_refcount_get :: "'s qb_ringbuffer option \<Rightarrow> int" where
  "qb_rb_refcount_get rb = (case rb of None \<Rightarrow> - EINVAL | Some rb \<Rightarrow> ref_count rb)"

text \<open>The result and the new value of the caller's pointer.\<close>

definition qb_rb_lastref_and_ret ::
  "'s qb_ringbuffer option \<Rightarrow> 's qb_ringbuffer option \<times> 's qb_ringbuffer option" where
  "qb_rb_lastref_and_ret rb = (case rb of None \<Rightarrow> (None, None) | Some rb \<Rightarrow> (Some (rb\<lparr>ref_count := 1\<rparr>), None))"

definition qb_rb_chown :: "'s qb_ringbuffer option \<Rightarrow> (string \<Rightarrow> int \<times> int) \<Rightarrow> int" where
  "qb_rb_chown rb chown =
     (case rb of
        None \<Rightarrow> - EINVAL
      | Some rb \<Rightarrow>
          let (res, e) = chown (data_path rb)
          in if res < 0 \<and> e \<noteq> EPERM then - e
             else let (res, e) = chown (hdr_path rb) in if res < 0 \<and> e \<noteq> EPERM then - e else 0)"

definition qb_rb_chmod :: "'s qb_ringbuffer option \<Rightarrow> (string \<Rightarrow> int \<times> int) \<Rightarrow> int" where
  "qb_rb_chmod rb chmod =
     (case rb of
        None \<Rightarrow> - EINVAL
      | Some rb \<Rightarrow>
          let (res, e) = chmod (data_path rb)
          in if res < 0 then - e else let (res, e) = chmod (hdr_path rb) in if res < 0 then - e else 0)"

section \<open>Closing\<close>

record rb_close_env =
  dir_open_errno :: "string \<Rightarrow> int"
  unlink_at :: "string \<Rightarrow> string \<Rightarrow> bool \<Rightarrow> int"
  munmap_data_errno :: int
  munmap_hdr_errno :: int

text \<open>The position of the last slash.\<close>

fun strrchr_slash :: "string \<Rightarrow> nat option" where
  "strrchr_slash [] = None"
| "strrchr_slash (c # cs) =
     (case strrchr_slash cs of Some i \<Rightarrow> Some (Suc i) | None \<Rightarrow> if c = CHR ''/'' then Some 0 else None)"

definition rb_unlink_files ::
  "rb_close_env \<Rightarrow> 's qb_ringbuffer \<Rightarrow> bool \<Rightarrow> int \<times> (string \<times> string) list" where
  "rb_unlink_files env rb truncate_fallback =
     (case strrchr_slash (data_path rb) of
        None \<Rightarrow> (- EINVAL, [])
      | Some sep \<Rightarrow>
          let dir_path = take sep (data_path rb)
          in if dir_open_errno env dir_path \<noteq> 0 then (- dir_open_errno env dir_path, [])
             else
               let data_name = drop (Suc sep) (data_path rb);
                   hdr_name = drop (Suc sep) (hdr_path rb);
                   res = unlink_at env dir_path data_name truncate_fallback;
                   res = (if dir_path \<noteq> take sep (hdr_path rb) then - ENXIO else res);
                   res2 = unlink_at env dir_path hdr_name truncate_fallback
               in (if res \<noteq> 0 then res else res2, [(dir_path, data_name), (dir_path, hdr_name)]))"

text \<open>The result, the files that were removed, and the buffer with its notifier destroyed.\<close>

definition qb_rb_close_helper ::
  "rb_close_env \<Rightarrow> 's qb_ringbuffer \<Rightarrow> bool \<Rightarrow> bool \<Rightarrow> int \<times> (string \<times> string) list \<times> 's qb_ringbuffer" where
  "qb_rb_close_helper env rb unlink_it truncate_fallback =
     (let rb = (if unlink_it
                then (case destroy_fn (notifier rb) of None \<Rightarrow> rb | Some f \<Rightarrow> rb\<lparr>inst := snd (f (inst rb))\<rparr>)
                else rb);
          (res, files) = (if unlink_it then rb_unlink_files env rb truncate_fallback else (0, []));
          res = (if munmap_data_errno env \<noteq> 0 \<and> res = 0 then - munmap_data_errno env else res);
          res = (if munmap_hdr_errno env \<noteq> 0 \<and> res = 0 then - munmap_hdr_errno env else res)
      in (res, files, rb))"

definition qb_rb_close :: "rb_close_env \<Rightarrow> 's qb_ringbuffer option \<Rightarrow> ((string \<times> string) list \<times> 's qb_ringbuffer) option" where
  "qb_rb_close env rb =
     map_option (\<lambda>rb. let rb = rb\<lparr>ref_count := ref_count rb - 1\<rparr>
                      in snd (qb_rb_close_helper env rb (flag_set (flags rb) QB_RB_FLAG_CREATE) False)) rb"

definition qb_rb_force_close ::
  "rb_close_env \<Rightarrow> 's qb_ringbuffer option \<Rightarrow> ((string \<times> string) list \<times> 's qb_ringbuffer) option" where
  "qb_rb_force_close env rb =
     map_option (\<lambda>rb. snd (qb_rb_close_helper env (rb\<lparr>ref_count := -1\<rparr>) True True)) rb"

section \<open>What closing removes\<close>

lemma strrchr_slash_app: "CHR ''/'' \<notin> set name \<Longrightarrow> strrchr_slash (dir @ CHR ''/'' # name) = Some (length dir)"
proof (induction dir)
  case Nil
  then have "strrchr_slash name = None" by (induction name) auto
  then show ?case by simp
qed simp

lemma rb_unlink_files_both:
  assumes "data_path rb = dir @ CHR ''/'' # dname" "hdr_path rb = dir @ CHR ''/'' # hname"
    and "CHR ''/'' \<notin> set dname" "dir_open_errno env dir = 0"
  shows "snd (rb_unlink_files env rb tr) = [(dir, dname), (dir, hname)]"
  using assms by (simp add: rb_unlink_files_def strrchr_slash_app Let_def)

text \<open>
  Who removes the files of a ring buffer on close. A user that attached to an existing buffer
  removes nothing and leaves its notifier alone; the process that created it removes the data
  and the header file, whatever the reference count still is; both only lower the count by one.
\<close>

theorem qb_rb_close_removes:
  assumes "data_path rb = dir @ CHR ''/'' # dname" "hdr_path rb = dir @ CHR ''/'' # hname"
    and "CHR ''/'' \<notin> set dname" "dir_open_errno env dir = 0"
  shows "\<exists>files rb'. qb_rb_close env (Some rb) = Some (files, rb') \<and> ref_count rb' = ref_count rb - 1 \<and>
           (if flag_set (flags rb) QB_RB_FLAG_CREATE then files = [(dir, dname), (dir, hname)]
            else files = [] \<and> inst rb' = inst rb)"
proof (cases "flag_set (flags rb) QB_RB_FLAG_CREATE")
  case True
  let ?rb1 = "rb\<lparr>ref_count := ref_count rb - 1\<rparr>"
  obtain s where d: "(case destroy_fn (notifier ?rb1) of None \<Rightarrow> ?rb1 | Some f \<Rightarrow> ?rb1\<lparr>inst := snd (f (inst ?rb1))\<rparr>)
      = ?rb1\<lparr>inst := s\<rparr>"
  proof (cases "destroy_fn (notifier rb)")
    case None
    then show ?thesis using that[of "inst rb"] by simp
  qed (use that in auto)
  have "snd (rb_unlink_files env (?rb1\<lparr>inst := s\<rparr>) False) = [(dir, dname), (dir, hname)]"
    by (rule rb_unlink_files_both) (use assms in simp_all)
  then show ?thesis
    using True d by (auto simp: qb_rb_close_def qb_rb_close_helper_def Let_def split: prod.splits)
next
  case False
  then show ?thesis by (simp add: qb_rb_close_def qb_rb_close_helper_def Let_def)
qed

theorem qb_rb_close_removes_witness:
  "\<exists>rb'. qb_rb_close \<lparr>dir_open_errno = (\<lambda>_. 0), unlink_at = (\<lambda>_ _ _. 0), munmap_data_errno = 0, munmap_hdr_errno = 0\<rparr>
       (Some ((ex_rb 8 QB_RB_FLAG_CREATE (posix_notifier working_env) ex_sem)
          \<lparr>ref_count := 2, data_path := ''/dev/shm/a-data'', hdr_path := ''/dev/shm/a-header''\<rparr>)) =
     Some ([(''/dev/shm'', ''a-data''), (''/dev/shm'', ''a-header'')], rb') \<and> ref_count rb' = 1"
  using qb_rb_close_removes[where rb="(ex_rb 8 QB_RB_FLAG_CREATE (posix_notifier working_env) ex_sem)
          \<lparr>ref_count := 2, data_path := ''/dev/shm/a-data'', hdr_path := ''/dev/shm/a-header''\<rparr>"
      and dir="''/dev/shm''" and dname="''a-data''" and hname="''a-header''"
      and env="\<lparr>dir_open_errno = (\<lambda>_. 0), unlink_at = (\<lambda>_ _ _. 0), munmap_data_errno = 0, munmap_hdr_errno = 0\<rparr>"]
  by (simp add: ex_rb_def flag_set_def rb_flag_defs)

end
