(* ===== verification/Loop.thy ===== *)
theory Loop
  imports Prelude "HOL-Library.Sublist" "HOL-Library.Monad_Syntax"
begin

text \<open>
  The main loop of \<^verbatim>\<open>lib/loop.c\<close> and its jobs (\<^verbatim>\<open>lib/loop_job.c\<close>). A level has a list of items that
  are ready to be dispatched and a list of jobs that wait for the next round. The items are
  those of the sources: jobs with their callback and data, timers by their place in the timer
  array, file descriptors by their place in the poll array, signals by the copy of their handler. The user's callbacks and the poll
  functions of the sources are parameters: they may change the loop as they like. The record
  is extensible, so that the sources can add their state to it.
\<close>

section \<open>State\<close>

datatype ('f, 'd) loop_item = LoopJob 'f 'd | LoopTimer nat | LoopFd nat | LoopSig nat

definition QB_LOOP_LOW :: nat where "QB_LOOP_LOW = 0"
definition QB_LOOP_MED :: nat where "QB_LOOP_MED = 1"
definition QB_LOOP_HIGH :: nat where "QB_LOOP_HIGH = 2"

lemmas loop_prio_defs = QB_LOOP_LOW_def QB_LOOP_MED_def QB_LOOP_HIGH_def

record 'i qb_loop_level =
  to_process :: int
  todo :: int
  wait_head :: "'i list"
  job_head :: "'i list"

record 'i qb_loop =
  level :: "nat \<Rightarrow> 'i qb_loop_level"
  stop_requested :: bool

abbreviation upd_level :: "nat \<Rightarrow> ('i qb_loop_level \<Rightarrow> 'i qb_loop_level) \<Rightarrow> ('i, 'm) qb_loop_scheme \<Rightarrow> ('i, 'm) qb_loop_scheme" where
  "upd_level p f l \<equiv> l\<lparr>level := (level l)(p := f (level l p))\<rparr>"

section \<open>Items of a level\<close>

definition qb_loop_level_item_add :: "nat \<Rightarrow> 'i \<Rightarrow> ('i, 'm) qb_loop_scheme \<Rightarrow> ('i, 'm) qb_loop_scheme" where
  "qb_loop_level_item_add p job l = upd_level p (\<lambda>v. v\<lparr>job_head := job_head v @ [job], todo := todo v + 1\<rparr>) l"

text \<open>An item whose list node is empty is in no list, for instance because it is being dispatched.\<close>

definition qb_loop_level_item_del :: "nat \<Rightarrow> 'i \<Rightarrow> ('i, 'm) qb_loop_scheme \<Rightarrow> ('i, 'm) qb_loop_scheme" where
  "qb_loop_level_item_del p job l =
     (if job \<in> set (job_head (level l p))
      then upd_level p (\<lambda>v. v\<lparr>job_head := remove1 job (job_head v), todo := todo v - 1\<rparr>) l
      else l)"

section \<open>Jobs\<close>

text \<open>\<open>l\<close> is the loop that the call means, the default one when the argument is NULL.\<close>

definition qb_loop_job_add ::
  "bool \<Rightarrow> (('f, 'd) loop_item, 'm) qb_loop_scheme option \<Rightarrow> int \<Rightarrow> 'd \<Rightarrow> 'f option \<Rightarrow>
   int \<times> (('f, 'd) loop_item, 'm) qb_loop_scheme option" where
  "qb_loop_job_add malloc_ok l p data dispatch_fn =
     (case (l, dispatch_fn) of
        (Some l, Some f) \<Rightarrow>
          if p < int QB_LOOP_LOW \<or> p > int QB_LOOP_HIGH then (- EINVAL, Some l)
          else if \<not> malloc_ok then (- ENOMEM, Some l)
          else (0, Some (upd_level (nat p) (\<lambda>v. v\<lparr>wait_head := wait_head v @ [LoopJob f data]\<rparr>) l))
      | _ \<Rightarrow> (- EINVAL, l))"

definition qb_loop_job_del ::
  "(('f, 'd) loop_item, 'm) qb_loop_scheme option \<Rightarrow> nat \<Rightarrow> 'd \<Rightarrow> 'f option \<Rightarrow>
   int \<times> (('f, 'd) loop_item, 'm) qb_loop_scheme option" where
  "qb_loop_job_del l p data dispatch_fn =
     (case (l, dispatch_fn) of
        (Some l, Some f) \<Rightarrow>
          if p > QB_LOOP_HIGH then (- EINVAL, Some l)
          else if LoopJob f data \<in> set (wait_head (level l p))
          then (0, Some (upd_level p (\<lambda>v. v\<lparr>wait_head := remove1 (LoopJob f data) (wait_head v)\<rparr>) l))
          else if LoopJob f data \<in> set (job_head (level l p))
          then (0, Some (qb_loop_level_item_del p (LoopJob f data) l))
          else (- ENOENT, Some l)
      | _ \<Rightarrow> (- EINVAL, l))"

text \<open>Moving the waiting jobs of a level behind its ready items.\<close>

definition level_more_jobs :: "nat \<Rightarrow> int \<times> ('i, 'm) qb_loop_scheme \<Rightarrow> int \<times> ('i, 'm) qb_loop_scheme" where
  "level_more_jobs p s =
     (let (new_jobs, l) = s
      in if wait_head (level l p) = [] then (new_jobs, l)
         else
           let level_jobs = int (length (wait_head (level l p)))
           in (new_jobs + level_jobs,
               upd_level p (\<lambda>v. v\<lparr>job_head := job_head v @ wait_head v, wait_head := [], todo := todo v + level_jobs\<rparr>) l))"

definition get_more_jobs :: "('i, 'm) qb_loop_scheme \<Rightarrow> int \<times> ('i, 'm) qb_loop_scheme" where
  "get_more_jobs l = fold level_more_jobs [QB_LOOP_LOW, QB_LOOP_MED, QB_LOOP_HIGH] (0, l)"

section \<open>Running\<close>

text \<open>
  The rounds of \<^verbatim>\<open>qb_loop_run_level\<close>, at most \<open>n\<close> more of them; nothing changes \<^verbatim>\<open>to_process\<close>
  while a level runs. \<open>dispatch\<close> is the source's \<^verbatim>\<open>dispatch_and_take_back\<close>; the items that were
  dispatched are recorded in order.
\<close>

fun run_level_rounds ::
  "('i \<Rightarrow> nat \<Rightarrow> ('i, 'm) qb_loop_scheme \<Rightarrow> ('i, 'm) qb_loop_scheme) \<Rightarrow> nat \<Rightarrow> nat \<Rightarrow> ('i, 'm) qb_loop_scheme \<Rightarrow>
   'i list \<times> ('i, 'm) qb_loop_scheme" where
  "run_level_rounds dispatch p 0 l = ([], l)"
| "run_level_rounds dispatch p (Suc n) l =
     (case job_head (level l p) of
        [] \<Rightarrow> ([], l)
      | job # jobs \<Rightarrow>
          let l = upd_level p (\<lambda>v. v\<lparr>job_head := jobs\<rparr>) l;
              l = dispatch job p l;
              l = upd_level p (\<lambda>v. v\<lparr>todo := todo v - 1\<rparr>) l
          in if stop_requested l then ([job], l)
             else let (ds, l') = run_level_rounds dispatch p n l in (job # ds, l'))"

text \<open>The first item is dispatched before \<^verbatim>\<open>to_process\<close> is looked at.\<close>

definition qb_loop_run_level ::
  "('i \<Rightarrow> nat \<Rightarrow> ('i, 'm) qb_loop_scheme \<Rightarrow> ('i, 'm) qb_loop_scheme) \<Rightarrow> nat \<Rightarrow> ('i, 'm) qb_loop_scheme \<Rightarrow>
   'i list \<times> ('i, 'm) qb_loop_scheme" where
  "qb_loop_run_level dispatch p l = run_level_rounds dispatch p (max 1 (nat (to_process (level l p)))) l"

definition new_level :: "'i qb_loop_level" where
  "new_level = \<lparr>to_process = 4, todo = 0, wait_head = [], job_head = []\<rparr>"

definition qb_loop_create :: "bool \<Rightarrow> 'i qb_loop option" where
  "qb_loop_create malloc_ok = (if malloc_ok then Some \<lparr>level = (\<lambda>_. new_level), stop_requested = False\<rparr> else None)"

definition qb_loop_stop :: "('i, 'm) qb_loop_scheme option \<Rightarrow> ('i, 'm) qb_loop_scheme option" where
  "qb_loop_stop l = map_option (\<lambda>l. l\<lparr>stop_requested := True\<rparr>) l"

text \<open>
  What the loop calls: the polls of the timer source and of the file descriptors, the time to
  the next timer, and the dispatch functions.
\<close>

record ('i, 'm) loop_ops =
  timer_poll :: "('i, 'm) qb_loop_scheme \<Rightarrow> int \<times> ('i, 'm) qb_loop_scheme"
  timer_msec :: "('i, 'm) qb_loop_scheme \<Rightarrow> int"
  fd_poll :: "int \<Rightarrow> ('i, 'm) qb_loop_scheme \<Rightarrow> int \<times> ('i, 'm) qb_loop_scheme"
  dispatch_item :: "'i \<Rightarrow> nat \<Rightarrow> ('i, 'm) qb_loop_scheme \<Rightarrow> ('i, 'm) qb_loop_scheme"

definition loop_timeout :: "('i, 'm) loop_ops \<Rightarrow> int \<Rightarrow> int \<Rightarrow> int \<Rightarrow> ('i, 'm) qb_loop_scheme \<Rightarrow> int" where
  "loop_timeout ops remaining_todo timer_todo job_todo l =
     (if remaining_todo > 0 \<or> timer_todo > 0 then 0
      else if job_todo > 0 then 50
      else timer_msec ops l)"

text \<open>The levels from \<open>p\<close> down, with the sum of what is left to do; it ends early on a stop.\<close>

fun run_levels ::
  "('i, 'm) loop_ops \<Rightarrow> nat \<Rightarrow> nat list \<Rightarrow> int \<Rightarrow> ('i, 'm) qb_loop_scheme \<Rightarrow> (nat \<times> 'i) list \<times> int \<times> ('i, 'm) qb_loop_scheme" where
  "run_levels ops p_stop [] remaining l = ([], remaining, l)"
| "run_levels ops p_stop (p # ps) remaining l =
     (if p \<ge> p_stop then
        let (ds, l) = qb_loop_run_level (dispatch_item ops) p l
        in if stop_requested l then (map (Pair p) ds, remaining, l)
           else
             let (ds', remaining', l') = run_levels ops p_stop ps (remaining + todo (level l p)) l
             in (map (Pair p) ds @ ds', remaining', l')
      else run_levels ops p_stop ps (remaining + todo (level l p)) l)"

definition next_p_stop :: "nat \<Rightarrow> nat" where
  "next_p_stop p_stop = (if p_stop = QB_LOOP_LOW then QB_LOOP_HIGH else p_stop - 1)"

text \<open>
  One round of \<^verbatim>\<open>qb_loop_run\<close>: the state is \<^verbatim>\<open>p_stop\<close>, \<^verbatim>\<open>remaining_todo\<close> and the loop; what was
  dispatched at which level is recorded.
\<close>

definition loop_round ::
  "('i, 'm) loop_ops \<Rightarrow> nat \<Rightarrow> int \<Rightarrow> ('i, 'm) qb_loop_scheme \<Rightarrow> (nat \<times> 'i) list \<times> nat \<times> int \<times> ('i, 'm) qb_loop_scheme" where
  "loop_round ops p_stop remaining_todo l =
     (let p_stop = next_p_stop p_stop;
          (rc, l) = get_more_jobs l;
          job_todo = (if rc > 0 then rc else 0);
          (rc, l) = timer_poll ops l;
          timer_todo = (if rc > 0 then rc else 0);
          ms_timeout = loop_timeout ops remaining_todo timer_todo job_todo l;
          (rc, l) = fd_poll ops ms_timeout l;
          (ds, remaining, l) = run_levels ops p_stop [QB_LOOP_HIGH, QB_LOOP_MED, QB_LOOP_LOW] 0 l
      in (ds, p_stop, remaining, l))"

text \<open>
  \<^verbatim>\<open>qb_loop_run\<close> goes on until a stop is requested, and \<open>None\<close> is a loop that is never stopped.
\<close>

partial_function (option) run_rounds ::
  "('i, 'm) loop_ops \<Rightarrow> nat \<Rightarrow> int \<Rightarrow> ('i, 'm) qb_loop_scheme \<Rightarrow> ((nat \<times> 'i) list \<times> ('i, 'm) qb_loop_scheme) option" where
  "run_rounds ops p_stop remaining l =
     (case loop_round ops p_stop remaining l of
        (ds, p_stop', remaining', l') \<Rightarrow>
          if stop_requested l' then Some (ds, l')
          else do { (ds', l'') \<leftarrow> run_rounds ops p_stop' remaining' l'; Some (ds @ ds', l'') })"

definition qb_loop_run ::
  "('i, 'm) loop_ops \<Rightarrow> ('i, 'm) qb_loop_scheme \<Rightarrow> ((nat \<times> 'i) list \<times> ('i, 'm) qb_loop_scheme) option" where
  "qb_loop_run ops l = run_rounds ops QB_LOOP_LOW 0 (l\<lparr>stop_requested := False\<rparr>)"

section \<open>Accounting\<close>

text \<open>By how much \<^verbatim>\<open>todo\<close> differs from the number of ready items of a level.\<close>

definition debt :: "('i, 'm) qb_loop_scheme \<Rightarrow> nat \<Rightarrow> int" where
  "debt l p = todo (level l p) - int (length (job_head (level l p)))"

named_theorems loop_simps "how the loop's operations change the accounting"

lemma debt_item_add [loop_simps]: "debt (qb_loop_level_item_add p i l) q = debt l q"
  by (simp add: debt_def qb_loop_level_item_add_def)

lemma debt_item_del [loop_simps]: "debt (qb_loop_level_item_del p i l) q = debt l q"
proof (cases "i \<in> set (job_head (level l p))")
  case True
  then have "0 < length (job_head (level l p))" by auto
  with True show ?thesis by (simp add: debt_def qb_loop_level_item_del_def length_remove1 of_nat_diff Suc_leI)
qed (simp add: qb_loop_level_item_del_def)

lemma debt_more_jobs [loop_simps]: "debt (snd (level_more_jobs p s)) q = debt (snd s) q"
  by (simp add: debt_def level_more_jobs_def Let_def split: prod.splits)

lemma debt_get_more_jobs [loop_simps]: "debt (snd (get_more_jobs l)) q = debt l q"
  by (simp add: get_more_jobs_def debt_more_jobs)

lemma debt_run_level_rounds:
  assumes "\<And>i p l q. debt (dispatch i p l) q = debt l q"
  shows "debt (snd (run_level_rounds dispatch p n l)) q = debt l q"
proof (induction n arbitrary: l)
  case (Suc n)
  show ?case
  proof (cases "job_head (level l p)")
    case (Cons job jobs)
    define l1 where "l1 = dispatch job p (upd_level p (\<lambda>v. v\<lparr>job_head := jobs\<rparr>) l)"
    define l2 where "l2 = upd_level p (\<lambda>v. v\<lparr>todo := todo v - 1\<rparr>) l1"
    have "debt l2 q = debt l1 q - (if q = p then 1 else 0)" by (simp add: debt_def l2_def)
    moreover have "debt l1 q = debt l q + (if q = p then 1 else 0)"
      unfolding l1_def assms by (simp add: debt_def Cons)
    ultimately have "debt l2 q = debt l q" by simp
    with Suc[of l2] Cons show ?thesis by (auto simp: Let_def split: prod.splits simp flip: l1_def l2_def)
  qed simp
qed simp

lemma debt_run_levels:
  assumes "\<And>i p l q. debt (dispatch_item ops i p l) q = debt l q"
  shows "debt (snd (snd (run_levels ops p_stop ps rem l))) q = debt l q"
proof (induction ps arbitrary: rem l)
  case (Cons p ps)
  obtain d l' where r: "qb_loop_run_level (dispatch_item ops) p l = (d, l')" by fastforce
  have "debt l' q = debt l q"
    using debt_run_level_rounds[of "dispatch_item ops", OF assms] r
    by (metis qb_loop_run_level_def snd_conv)
  with Cons[of "rem + todo (level l' p)" l'] Cons[of "rem + todo (level l p)" l] r
  show ?case by (auto simp: Let_def split: prod.splits)
qed simp

text \<open>The loop operations that keep the accounting right.\<close>

definition ops_account :: "('i, 'm) loop_ops \<Rightarrow> bool" where
  "ops_account ops \<longleftrightarrow>
     (\<forall>l q. debt (snd (timer_poll ops l)) q = debt l q) \<and> (\<forall>t l q. debt (snd (fd_poll ops t l)) q = debt l q) \<and>
     (\<forall>i p l q. debt (dispatch_item ops i p l) q = debt l q)"

text \<open>The stages of a round.\<close>

lemma loop_round_stages:
  assumes "loop_round ops p_stop rem l = (ds, p_stop', rem', l')"
  obtains t l1 l2 l3 where "l1 = snd (get_more_jobs l)" "l2 = snd (timer_poll ops l1)" "l3 = snd (fd_poll ops t l2)"
    "p_stop' = next_p_stop p_stop"
    "run_levels ops p_stop' [QB_LOOP_HIGH, QB_LOOP_MED, QB_LOOP_LOW] 0 l3 = (ds, rem', l')"
proof -
  obtain rc1 l1 where 1: "get_more_jobs l = (rc1, l1)" by fastforce
  obtain rc2 l2 where 2: "timer_poll ops l1 = (rc2, l2)" by fastforce
  define t where "t = loop_timeout ops rem (if rc2 > 0 then rc2 else 0) (if rc1 > 0 then rc1 else 0) l2"
  obtain rc3 l3 where 3: "fd_poll ops t l2 = (rc3, l3)" by fastforce
  obtain d r l4 where 4: "run_levels ops (next_p_stop p_stop) [QB_LOOP_HIGH, QB_LOOP_MED, QB_LOOP_LOW] 0 l3 = (d, r, l4)"
    by (metis prod_cases3)
  have "loop_round ops p_stop rem l = (d, next_p_stop p_stop, r, l4)"
    unfolding loop_round_def Let_def by (simp only: 1 2 3 4 prod.case flip: t_def)
  with assms 1 2 3 4 show ?thesis by (intro that[of l1 l2 l3 t]) simp_all
qed

lemma debt_loop_round:
  assumes "ops_account ops" "loop_round ops p_stop rem l = (ds, p_stop', rem', l')"
  shows "debt l' q = debt l q"
  using assms(2)
proof (rule loop_round_stages)
  fix t l1 l2 l3
  assume s: "l1 = snd (get_more_jobs l)" "l2 = snd (timer_poll ops l1)" "l3 = snd (fd_poll ops t l2)"
    "run_levels ops p_stop' [QB_LOOP_HIGH, QB_LOOP_MED, QB_LOOP_LOW] 0 l3 = (ds, rem', l')"
  have "debt l' q = debt l3 q"
    using debt_run_levels[of ops p_stop' "[QB_LOOP_HIGH, QB_LOOP_MED, QB_LOOP_LOW]" 0 l3 q] assms(1) s(4)
    by (simp add: ops_account_def)
  then show ?thesis using assms(1) s(1-3) by (simp add: ops_account_def debt_get_more_jobs)
qed

section \<open>Order and fairness\<close>

text \<open>
  Callbacks and polls that leave the items of a level that are ready in place: they may append
  to the level and change everything else.
\<close>

definition keeps_ready ::
  "nat \<Rightarrow> (('i, 'm) qb_loop_scheme \<Rightarrow> ('i, 'm) qb_loop_scheme) \<Rightarrow> bool" where
  "keeps_ready p f \<longleftrightarrow>
     (\<forall>l. prefix (job_head (level l p)) (job_head (level (f l) p)) \<and>
          to_process (level (f l) p) = to_process (level l p) \<and> stop_requested (f l) = stop_requested l)"

definition ops_keep_ready :: "('i, 'm) loop_ops \<Rightarrow> nat \<Rightarrow> bool" where
  "ops_keep_ready ops p \<longleftrightarrow>
     keeps_ready p (\<lambda>l. snd (timer_poll ops l)) \<and> (\<forall>t. keeps_ready p (\<lambda>l. snd (fd_poll ops t l))) \<and>
     (\<forall>i q. keeps_ready p (dispatch_item ops i q))"

text \<open>\<open>flow p l ds l'\<close>: from \<open>l\<close> to \<open>l'\<close> the items \<open>ds\<close> left level \<open>p\<close> in order, and others were appended.\<close>

definition flow :: "nat \<Rightarrow> ('i, 'm) qb_loop_scheme \<Rightarrow> 'i list \<Rightarrow> ('i, 'm) qb_loop_scheme \<Rightarrow> bool" where
  "flow p l ds l' \<longleftrightarrow>
     (\<exists>new. ds @ job_head (level l' p) = job_head (level l p) @ new) \<and>
     to_process (level l' p) = to_process (level l p) \<and> stop_requested l' = stop_requested l"

lemma flow_refl: "flow p l [] l"
  by (simp add: flow_def)

lemma flow_trans:
  assumes "flow p l d l'" "flow p l' d' l''"
  shows "flow p l (d @ d') l''"
proof -
  obtain n n' where n: "d @ job_head (level l' p) = job_head (level l p) @ n"
    "d' @ job_head (level l'' p) = job_head (level l' p) @ n'" using assms by (auto simp: flow_def)
  then have "(d @ d') @ job_head (level l'' p) = job_head (level l p) @ (n @ n')" by (metis append.assoc)
  with assms show ?thesis by (auto simp: flow_def)
qed

lemma keeps_ready_flow: "keeps_ready p f \<Longrightarrow> flow p l [] (f l)"
  by (auto simp: keeps_ready_def flow_def prefix_def)

lemma flow_more_jobs: "flow p l [] (snd (get_more_jobs l))"
proof -
  have one: "flow p (snd s) [] (snd (level_more_jobs q s))" for q and s :: "int \<times> ('a, 'b) qb_loop_scheme"
    by (auto simp: flow_def level_more_jobs_def Let_def split: prod.splits)
  have "flow p l [] (snd (fold level_more_jobs qs (n, l)))" for qs n
  proof (induction qs arbitrary: n l)
    case (Cons q qs)
    obtain m l1 where m: "level_more_jobs q (n, l) = (m, l1)" by fastforce
    have "flow p l [] l1" using one[of "(n, l)" q] m by simp
    with Cons[of l1 m] m show ?case using flow_trans[of p l "[]" l1 "[]"] by simp
  qed (simp add: flow_refl)
  then show ?thesis by (simp only: get_more_jobs_def)
qed

lemma flow_run_level_rounds:
  assumes keep: "\<And>i q. keeps_ready p (dispatch i q)" and run: "run_level_rounds dispatch q n l = (ds, l')"
  shows "flow p l (if q = p then ds else []) l' \<and>
         (q = p \<longrightarrow> \<not> stop_requested l \<longrightarrow> min n (length (job_head (level l p))) \<le> length ds)"
  using run
proof (induction n arbitrary: l ds)
  case 0
  then show ?case by (auto simp: flow_refl)
next
  case (Suc n)
  show ?case
  proof (cases "job_head (level l q)")
    case Nil
    with Suc.prems show ?thesis by (auto simp: flow_refl)
  next
    case (Cons job jobs)
    let ?l0 = "upd_level q (\<lambda>v. v\<lparr>job_head := jobs\<rparr>) l"
    let ?l1 = "dispatch job q ?l0"
    let ?l2 = "upd_level q (\<lambda>v. v\<lparr>todo := todo v - 1\<rparr>) ?l1"
    have f0: "flow p l (if q = p then [job] else []) ?l0" using Cons by (auto simp: flow_def)
    have f1: "flow p ?l0 [] ?l1" by (rule keeps_ready_flow[OF keep])
    have f2: "flow p ?l1 [] ?l2" by (auto simp: flow_def)
    have f: "flow p l (if q = p then [job] else []) ?l2"
      using flow_trans[OF flow_trans[OF f0 f1] f2] by simp
    show ?thesis
    proof (cases "stop_requested ?l2")
      case True
      then have "stop_requested l" using f by (simp add: flow_def)
      with Suc.prems Cons True f show ?thesis by (auto simp: Let_def)
    next
      case False
      then obtain d where d: "run_level_rounds dispatch q n ?l2 = (d, l')" "ds = job # d"
        using Suc.prems Cons by (auto simp: Let_def split: prod.splits)
      note IH = Suc.IH[OF d(1)]
      have "length jobs \<le> length (job_head (level ?l2 q))" if "q = p"
        using f Cons that by (auto simp: flow_def dest: arg_cong[of _ _ length])
      then show ?thesis using IH flow_trans[OF f, of "if q = p then d else []" l'] d(2) False Cons
        by (auto simp: Let_def)
    qed
  qed
qed

text \<open>What was dispatched at level \<open>p\<close>.\<close>

definition dispatched_at :: "nat \<Rightarrow> (nat \<times> 'i) list \<Rightarrow> 'i list" where
  "dispatched_at p ds = map snd (filter (\<lambda>x. fst x = p) ds)"

lemma dispatched_at_simps [simp]:
  "dispatched_at p [] = []" "dispatched_at p (ds @ ds') = dispatched_at p ds @ dispatched_at p ds'"
  "dispatched_at p (map (Pair q) xs) = (if q = p then xs else [])"
  by (induction xs) (auto simp: dispatched_at_def)

lemma flow_length: "flow p l d l' \<Longrightarrow> length (job_head (level l p)) \<le> length d + length (job_head (level l' p))"
  by (auto simp: flow_def dest!: arg_cong[of _ _ length])

lemma flow_run_levels:
  assumes keep: "\<And>i q. keeps_ready p (dispatch_item ops i q)" and "run_levels ops p_stop ps rem l = (ds, rem', l')"
    and "\<not> stop_requested l"
  shows "flow p l (dispatched_at p ds) l' \<and>
         (p \<in> set ps \<longrightarrow> p_stop \<le> p \<longrightarrow> to_process (level l p) = 4 \<longrightarrow>
            min 4 (length (job_head (level l p))) \<le> length (dispatched_at p ds))"
  using assms(2,3)
proof (induction ps arbitrary: rem l ds)
  case Nil
  then show ?case by (auto simp: flow_refl)
next
  case (Cons q ps)
  show ?case
  proof (cases "p_stop \<le> q")
    case False
    with Cons.prems Cons.IH[of "rem + todo (level l q)" l ds] show ?thesis by auto
  next
    case True
    obtain d l1 where r: "qb_loop_run_level (dispatch_item ops) q l = (d, l1)" by fastforce
    have f: "flow p l (if q = p then d else []) l1"
      "q = p \<Longrightarrow> min (max 1 (nat (to_process (level l p)))) (length (job_head (level l p))) \<le> length d"
      using flow_run_level_rounds[of p "dispatch_item ops" q _ l d l1, OF keep] r Cons.prems(2)
      by (auto simp: qb_loop_run_level_def)
    have ns: "\<not> stop_requested l1" using f(1) Cons.prems(2) by (simp add: flow_def)
    obtain d2 where d2: "run_levels ops p_stop ps (rem + todo (level l1 q)) l1 = (d2, rem', l')" "ds = map (Pair q) d @ d2"
      using Cons.prems(1) True r ns by (auto simp: Let_def split: prod.splits)
    note IH = Cons.IH[OF d2(1) ns]
    have "flow p l (dispatched_at p ds) l'" using flow_trans[OF f(1)] IH d2(2) by simp
    moreover have "min 4 (length (job_head (level l p))) \<le> length (dispatched_at p ds)"
      if "p \<in> set (q # ps)" "p_stop \<le> p" "to_process (level l p) = 4"
    proof (cases "q = p")
      case True
      with f(2) that(3) d2(2) show ?thesis by simp
    next
      case False
      with f(1) have "length (job_head (level l p)) \<le> length (job_head (level l1 p))" "to_process (level l1 p) = 4"
        using that(3) flow_length[of p l "[]" l1] by (auto simp: flow_def)
      with IH that False d2(2) show ?thesis by auto
    qed
    ultimately show ?thesis by blast
  qed
qed

lemma flow_loop_round:
  assumes keep: "ops_keep_ready ops p" and r: "loop_round ops p_stop rem l = (ds, p_stop', rem', l')"
    and l: "\<not> stop_requested l" "to_process (level l p) = 4" "p \<le> QB_LOOP_HIGH"
  shows "flow p l (dispatched_at p ds) l'" "p_stop' = next_p_stop p_stop"
    "next_p_stop p_stop \<le> p \<Longrightarrow> min 4 (length (job_head (level l p))) \<le> length (dispatched_at p ds)"
proof -
  from r obtain t l1 l2 l3 where s: "l1 = snd (get_more_jobs l)" "l2 = snd (timer_poll ops l1)" "l3 = snd (fd_poll ops t l2)"
    "p_stop' = next_p_stop p_stop"
    "run_levels ops p_stop' [QB_LOOP_HIGH, QB_LOOP_MED, QB_LOOP_LOW] 0 l3 = (ds, rem', l')"
    by (rule loop_round_stages)
  have f1: "flow p l [] l1" unfolding s(1) by (rule flow_more_jobs)
  have f2: "flow p l1 [] l2" unfolding s(2) by (rule keeps_ready_flow) (use keep in \<open>simp add: ops_keep_ready_def\<close>)
  have f3: "flow p l2 [] l3" unfolding s(3) by (rule keeps_ready_flow) (use keep in \<open>simp add: ops_keep_ready_def\<close>)
  have f: "flow p l [] l3" using flow_trans[OF flow_trans[OF f1 f2] f3] by simp
  have l3: "\<not> stop_requested l3" "to_process (level l3 p) = 4" using f l by (auto simp: flow_def)
  have mem: "p \<in> set [QB_LOOP_HIGH, QB_LOOP_MED, QB_LOOP_LOW]" using l(3) by (auto simp: loop_prio_defs)
  have run: "flow p l3 (dispatched_at p ds) l' \<and>
      (p_stop' \<le> p \<longrightarrow> min 4 (length (job_head (level l3 p))) \<le> length (dispatched_at p ds))"
  proof -
    have "keeps_ready p (dispatch_item ops i q)" for i q using keep by (simp add: ops_keep_ready_def)
    from flow_run_levels[OF this s(5) l3(1)] l3(2) mem show ?thesis by blast
  qed
  show "flow p l (dispatched_at p ds) l'" using flow_trans[OF f] run by fastforce
  show "p_stop' = next_p_stop p_stop" by (rule s(4))
  have "length (job_head (level l p)) \<le> length (job_head (level l3 p))" using flow_length[OF f] by simp
  then show "next_p_stop p_stop \<le> p \<Longrightarrow> min 4 (length (job_head (level l p))) \<le> length (dispatched_at p ds)"
    using run s(4) by auto
qed

section \<open>Properties of the loop\<close>


definition ex_ops :: "((nat, nat) loop_item, 'm) loop_ops" where
  "ex_ops = \<lparr>timer_poll = (\<lambda>l. (0, l)), timer_msec = (\<lambda>_. -1), fd_poll = (\<lambda>_ l. (0, l)), dispatch_item = (\<lambda>_ _ l. l)\<rparr>"

definition ex_loop :: "(nat, nat) loop_item qb_loop" where
  "ex_loop = \<lparr>level = (\<lambda>p. new_level)(0 := new_level\<lparr>job_head := [LoopJob 1 1, LoopJob 1 2], todo := 2, wait_head := [LoopJob 2 2]\<rparr>),
     stop_requested = False\<rparr>"


text \<open>
  C23: No level starves and no item is lost or overtaken. For callbacks and polls that leave the
  ready items of level \<open>p\<close> in place (they may append), in any three successive rounds what is
  dispatched at the level are its first items, in order, at least four of them or all that
  were ready, and what is left is the rest followed by what was appended.
\<close>

theorem loop_three_rounds_fair:
  assumes keep: "ops_keep_ready ops p" and p: "p \<le> QB_LOOP_HIGH" "p_stop \<le> QB_LOOP_HIGH"
    and l: "\<not> stop_requested l" "to_process (level l p) = 4"
    and r1: "loop_round ops p_stop rem l = (d1, p1, rem1, l1)"
    and r2: "loop_round ops p1 rem1 l1 = (d2, p2, rem2, l2)"
    and r3: "loop_round ops p2 rem2 l2 = (d3, p3, rem3, l3)"
  shows "(\<exists>new. dispatched_at p (d1 @ d2 @ d3) @ job_head (level l3 p) = job_head (level l p) @ new) \<and>
         min 4 (length (job_head (level l p))) \<le> length (dispatched_at p (d1 @ d2 @ d3))"
proof -
  note f1 = flow_loop_round[OF keep r1 l p(1)]
  have l1: "\<not> stop_requested l1" "to_process (level l1 p) = 4" using f1(1) l by (auto simp: flow_def)
  note f2 = flow_loop_round[OF keep r2 l1 p(1)]
  have l2: "\<not> stop_requested l2" "to_process (level l2 p) = 4" using f2(1) l1 by (auto simp: flow_def)
  note f3 = flow_loop_round[OF keep r3 l2 p(1)]
  have fl: "flow p l (dispatched_at p (d1 @ d2 @ d3)) l3"
    using flow_trans[OF f1(1) flow_trans[OF f2(1) f3(1)]] by simp
  have "next_p_stop p_stop = 0 \<or> next_p_stop p1 = 0 \<or> next_p_stop p2 = 0"
    using p(2) f1(2) f2(2) by (auto simp: next_p_stop_def loop_prio_defs)
  then have "min 4 (length (job_head (level l p))) \<le> length (dispatched_at p (d1 @ d2 @ d3))"
    using f1(3) f2(3) f3(3) flow_length[OF f1(1)] flow_length[OF f2(1)] by auto
  with fl show ?thesis by (auto simp: flow_def)
qed

theorem loop_three_rounds_fair_witness:
  "\<exists>d1 p1 rem1 l1 d2 p2 rem2 l2 d3 p3 rem3 l3.
     loop_round ex_ops 0 0 ex_loop = (d1, p1, rem1, l1) \<and> loop_round ex_ops p1 rem1 l1 = (d2, p2, rem2, l2) \<and>
     loop_round ex_ops p2 rem2 l2 = (d3, p3, rem3, l3) \<and> 2 \<le> length (dispatched_at 0 (d1 @ d2 @ d3))"
proof -
  obtain d1 p1 rem1 l1 where 1: "loop_round ex_ops 0 0 ex_loop = (d1, p1, rem1, l1)" by (metis prod_cases4)
  obtain d2 p2 rem2 l2 where 2: "loop_round ex_ops p1 rem1 l1 = (d2, p2, rem2, l2)" by (metis prod_cases4)
  obtain d3 p3 rem3 l3 where 3: "loop_round ex_ops p2 rem2 l2 = (d3, p3, rem3, l3)" by (metis prod_cases4)
  have "ops_keep_ready (ex_ops :: ((nat, nat) loop_item, unit) loop_ops) 0"
    by (simp add: ops_keep_ready_def keeps_ready_def ex_ops_def)
  moreover have "\<not> stop_requested ex_loop" "to_process (level ex_loop 0) = 4" "length (job_head (level ex_loop 0)) = 2"
    by (simp_all add: ex_loop_def new_level_def)
  ultimately have "2 \<le> length (dispatched_at 0 (d1 @ d2 @ d3))"
    using loop_three_rounds_fair[OF _ _ _ _ _ 1 2 3, of 0] by (simp add: loop_prio_defs)
  with 1 2 3 show ?thesis by blast
qed

text \<open>
  Jobs are taken over in the order in which they were added: a valid add puts the job behind
  the waiting ones without making it ready, and the next poll of the job source moves all
  waiting jobs, in order, behind the ready items and counts them.
\<close>

theorem job_add_then_poll:
  assumes "p \<le> QB_LOOP_HIGH"
  shows "\<exists>l'. qb_loop_job_add True (Some l) (int p) data (Some f) = (0, Some l') \<and> job_head (level l' p) = job_head (level l p) \<and>
           job_head (level (snd (get_more_jobs l')) p) = job_head (level l p) @ wait_head (level l p) @ [LoopJob f data] \<and>
           wait_head (level (snd (get_more_jobs l')) p) = [] \<and>
           todo (level (snd (get_more_jobs l')) p) = todo (level l p) + int (length (wait_head (level l p))) + 1"
proof -
  have c: "p = 0 \<or> p = 1 \<or> p = 2" using assms by (auto simp: loop_prio_defs)
  then show ?thesis
    by (elim disjE) (auto simp: qb_loop_job_add_def loop_prio_defs get_more_jobs_def level_more_jobs_def Let_def)
qed

theorem job_add_then_poll_witness:
  "\<exists>l'. qb_loop_job_add True (Some ex_loop) (int 0) 9 (Some 3) = (0, Some l') \<and>
     job_head (level (snd (get_more_jobs l')) 0) = [LoopJob 1 1, LoopJob 1 2, LoopJob 2 2, LoopJob 3 9]"
  using job_add_then_poll[of 0 ex_loop 9 3] by (auto simp: loop_prio_defs ex_loop_def new_level_def)

end
