(* ===== verification/Heap_List.thy ===== *)
theory Heap_List
  imports Prelude
begin

text \<open>
  Binary heaps stored in a list, the mathematics behind \<^verbatim>\<open>include/tlist.h\<close>: the order
  invariant, its two one-sided weakenings that hold while an element is sifted, and the proofs
  that sifting restores the invariant and keeps the elements.
\<close>

definition parent :: "nat \<Rightarrow> nat" where
  "parent i = (i - 1) div 2"

lemma parent_less: "0 < i \<Longrightarrow> parent i < i"
  by (simp add: parent_def div_less_iff_less_mult)

lemma parent_eq_iff: "0 < j \<Longrightarrow> parent j = i \<longleftrightarrow> j = 2 * i + 1 \<or> j = 2 * i + 2"
  by (auto simp: parent_def)

definition swap :: "'a list \<Rightarrow> nat \<Rightarrow> nat \<Rightarrow> 'a list" where
  "swap xs i j = xs[i := xs ! j, j := xs ! i]"

lemma length_swap [simp]: "length (swap xs i j) = length xs"
  by (simp add: swap_def)

lemma nth_swap:
  "i < length xs \<Longrightarrow> j < length xs \<Longrightarrow> swap xs i j ! k = (if k = j then xs ! i else if k = i then xs ! j else xs ! k)"
  by (auto simp: swap_def nth_list_update)

lemma mset_swap_eq [simp]: "i < length xs \<Longrightarrow> j < length xs \<Longrightarrow> mset (swap xs i j) = mset xs"
  unfolding swap_def by (metis List.length_list_update Multiset.mset_swap)

definition heap_ok :: "('a \<Rightarrow> 'k::linorder) \<Rightarrow> 'a list \<Rightarrow> bool" where
  "heap_ok key xs \<longleftrightarrow> (\<forall>i<length xs. 0 < i \<longrightarrow> key (xs ! parent i) \<le> key (xs ! i))"

text \<open>Everything but the edge above \<open>p\<close>, and everything but the edges below \<open>p\<close>.\<close>

definition heap_up :: "('a \<Rightarrow> 'k::linorder) \<Rightarrow> 'a list \<Rightarrow> nat \<Rightarrow> bool" where
  "heap_up key xs p \<longleftrightarrow>
     (\<forall>i<length xs. 0 < i \<longrightarrow> i \<noteq> p \<longrightarrow> key (xs ! parent i) \<le> key (xs ! i)) \<and>
     (\<forall>i<length xs. 0 < i \<longrightarrow> parent i = p \<longrightarrow> 0 < p \<longrightarrow> key (xs ! parent p) \<le> key (xs ! i))"

definition heap_down :: "('a \<Rightarrow> 'k::linorder) \<Rightarrow> 'a list \<Rightarrow> nat \<Rightarrow> bool" where
  "heap_down key xs p \<longleftrightarrow>
     (\<forall>i<length xs. 0 < i \<longrightarrow> parent i \<noteq> p \<longrightarrow> key (xs ! parent i) \<le> key (xs ! i)) \<and>
     (\<forall>i<length xs. 0 < i \<longrightarrow> parent i = p \<longrightarrow> 0 < p \<longrightarrow> key (xs ! parent p) \<le> key (xs ! i))"

lemma heap_root_min:
  assumes "heap_ok key xs" "i < length xs"
  shows "key (xs ! 0) \<le> key (xs ! i)"
  using assms(2)
proof (induction i rule: less_induct)
  case (less i)
  show ?case
  proof (cases "i = 0")
    case False
    then have "key (xs ! 0) \<le> key (xs ! parent i)" using less parent_less[of i] by auto
    also have "\<dots> \<le> key (xs ! i)" using assms(1) False less.prems by (simp add: heap_ok_def)
    finally show ?thesis .
  qed simp
qed

section \<open>Sifting up\<close>

function sift_up :: "('a \<Rightarrow> 'k::linorder) \<Rightarrow> 'a list \<Rightarrow> nat \<Rightarrow> 'a list" where
  "sift_up key xs p =
     (if 0 < p \<and> key (xs ! p) < key (xs ! parent p) then sift_up key (swap xs (parent p) p) (parent p) else xs)"
  by pat_completeness auto
termination
  by (relation "measure (\<lambda>(key, xs, p). p)") (auto simp: parent_less)

declare sift_up.simps [simp del]

lemma heap_up_swap:
  assumes h: "heap_up key xs p" and p: "p < length xs" "0 < p" and lt: "key (xs ! p) < key (xs ! parent p)"
  shows "heap_up key (swap xs (parent p) p) (parent p)"
proof -
  let ?q = "parent p" and ?ys = "swap xs (parent p) p"
  have q: "?q < p" "?q < length xs" using p parent_less[of p] by auto
  note nth = nth_swap[OF q(2) p(1)]
  have up: "key (xs ! parent i) \<le> key (xs ! i)" if "i < length xs" "0 < i" "i \<noteq> p" for i
    using h that by (simp add: heap_up_def)
  have gp: "key (xs ! ?q) \<le> key (xs ! i)" if "i < length xs" "0 < i" "parent i = p" for i
    using h that p by (simp add: heap_up_def)
  have e1: "key (?ys ! parent i) \<le> key (?ys ! i)" if i: "i < length xs" "0 < i" "i \<noteq> ?q" for i
  proof (cases "i = p")
    case True
    with q(1) lt show ?thesis by (simp add: nth)
  next
    case False
    note le = up[OF i(1,2) False]
    consider "parent i = p" | "parent i = ?q" | "parent i \<noteq> p" "parent i \<noteq> ?q" by blast
    then show ?thesis
    proof cases
      case 1 with gp[OF i(1,2)] i(3) False q(1) show ?thesis by (simp add: nth)
    next
      case 2 with le lt i(3) False q(1) show ?thesis by (simp add: nth)
    next
      case 3 with le i(3) False show ?thesis by (simp add: nth)
    qed
  qed
  have e2: "key (?ys ! parent ?q) \<le> key (?ys ! i)" if i: "i < length xs" "0 < i" "parent i = ?q" "0 < ?q" for i
  proof -
    have "parent ?q \<noteq> p" "parent ?q \<noteq> ?q" using parent_less[OF i(4)] q(1) by auto
    then have l: "?ys ! parent ?q = xs ! parent ?q" by (simp add: nth)
    have a: "key (xs ! parent ?q) \<le> key (xs ! ?q)" using up[OF q(2) i(4)] q(1) by simp
    have "i \<noteq> ?q" using parent_less[OF i(2)] i(3) by auto
    then show ?thesis using a l up[OF i(1,2)] i(3) by (cases "i = p") (auto simp: nth)
  qed
  show ?thesis using e1 e2 by (simp add: heap_up_def)
qed

lemma sift_up_heap:
  "heap_up key xs p \<Longrightarrow> p < length xs \<Longrightarrow> heap_ok key (sift_up key xs p)"
proof (induction key xs p rule: sift_up.induct)
  case (1 key xs p)
  show ?case
  proof (cases "0 < p \<and> key (xs ! p) < key (xs ! parent p)")
    case True
    with 1 heap_up_swap[of key xs p] parent_less[of p] show ?thesis
      by (subst sift_up.simps) auto
  next
    case False
    then have "heap_ok key xs" using 1(2) by (auto simp: heap_up_def heap_ok_def)
    with False show ?thesis by (subst sift_up.simps) auto
  qed
qed

lemma mset_sift_up [simp]: "p < length xs \<Longrightarrow> mset (sift_up key xs p) = mset xs"
proof (induction key xs p rule: sift_up.induct)
  case (1 key xs p)
  then show ?case using parent_less[of p] by (subst sift_up.simps) auto
qed

section \<open>Sifting down\<close>

text \<open>The position of the smallest of \<open>p\<close> and its children, the left child before the right.\<close>

definition smallest :: "('a \<Rightarrow> 'k::linorder) \<Rightarrow> 'a list \<Rightarrow> nat \<Rightarrow> nat" where
  "smallest key xs p =
     (let s = (if 2 * p + 1 < length xs \<and> key (xs ! (2 * p + 1)) < key (xs ! p) then 2 * p + 1 else p)
      in if 2 * p + 2 < length xs \<and> key (xs ! (2 * p + 2)) < key (xs ! s) then 2 * p + 2 else s)"

lemma smallest_cases:
  assumes "p < length xs"
  shows "smallest key xs p < length xs" "smallest key xs p = p \<or> parent (smallest key xs p) = p \<and> p < smallest key xs p"
    "smallest key xs p \<noteq> p \<Longrightarrow> key (xs ! smallest key xs p) < key (xs ! p)"
    "\<And>i. i < length xs \<Longrightarrow> 0 < i \<Longrightarrow> parent i = p \<Longrightarrow> key (xs ! smallest key xs p) \<le> key (xs ! i)"
proof -
  show "smallest key xs p < length xs" "smallest key xs p = p \<or> parent (smallest key xs p) = p \<and> p < smallest key xs p"
    using assms by (auto simp: smallest_def Let_def parent_def)
  show "smallest key xs p \<noteq> p \<Longrightarrow> key (xs ! smallest key xs p) < key (xs ! p)"
    by (auto simp: smallest_def Let_def split: if_splits)
  show "key (xs ! smallest key xs p) \<le> key (xs ! i)" if "i < length xs" "0 < i" "parent i = p" for i
    using that by (auto simp: smallest_def Let_def parent_eq_iff)
qed

function sift_down :: "('a \<Rightarrow> 'k::linorder) \<Rightarrow> 'a list \<Rightarrow> nat \<Rightarrow> 'a list" where
  "sift_down key xs p =
     (let s = smallest key xs p in if p < length xs \<and> s \<noteq> p then sift_down key (swap xs p s) s else xs)"
  by pat_completeness auto
termination
  by (relation "measure (\<lambda>(key, xs, p). length xs - p)") (auto dest: smallest_cases(2) intro: diff_less_mono2)

declare sift_down.simps [simp del]

lemma heap_down_swap:
  assumes h: "heap_down key xs p" and p: "p < length xs" and s: "smallest key xs p \<noteq> p"
  shows "heap_down key (swap xs p (smallest key xs p)) (smallest key xs p)"
proof -
  let ?s = "smallest key xs p" and ?ys = "swap xs p (smallest key xs p)"
  note sm = smallest_cases[OF p, where key=key]
  have ps: "parent ?s = p" "p < ?s" "key (xs ! ?s) < key (xs ! p)" using sm(2,3) s by auto
  note nth = nth_swap[OF p sm(1)]
  have dn: "key (xs ! parent i) \<le> key (xs ! i)" if "i < length xs" "0 < i" "parent i \<noteq> p" for i
    using h that by (simp add: heap_down_def)
  have e1: "key (?ys ! parent i) \<le> key (?ys ! i)" if i: "i < length xs" "0 < i" "parent i \<noteq> ?s" for i
  proof (cases "parent i = p")
    case True
    then show ?thesis using sm(4)[OF i(1,2) True] ps i parent_less[OF i(2)] by (auto simp: nth)
  next
    case False
    have "i \<noteq> ?s" using False ps(1) by auto
    then show ?thesis
    proof (cases "i = p")
      case True
      have "key (xs ! parent p) \<le> key (xs ! ?s)"
        using h sm(1) ps True i(2) by (auto simp: heap_down_def)
      with True False i(3) ps(2) show ?thesis by (simp add: nth)
    next
      case no: False
      with dn[OF i(1,2) False] False i(3) \<open>i \<noteq> ?s\<close> show ?thesis by (simp add: nth)
    qed
  qed
  have e2: "key (?ys ! parent ?s) \<le> key (?ys ! i)" if i: "i < length xs" "0 < i" "parent i = ?s" for i
  proof -
    have "i \<noteq> ?s" "i \<noteq> p" "parent i \<noteq> p" using parent_less[OF i(2)] i(3) ps(2) by auto
    with dn[OF i(1,2)] i(3) ps(1,2) show ?thesis by (simp add: nth)
  qed
  show ?thesis using e1 e2 by (simp add: heap_down_def)
qed

lemma sift_down_heap:
  "heap_down key xs p \<Longrightarrow> p < length xs \<Longrightarrow> heap_ok key (sift_down key xs p)"
proof (induction key xs p rule: sift_down.induct)
  case (1 key xs p)
  show ?case
  proof (cases "smallest key xs p = p")
    case True
    have "heap_ok key xs"
      using 1(2) smallest_cases(4)[OF 1(3), where key=key] True by (auto simp: heap_down_def heap_ok_def)
    with True show ?thesis by (subst sift_down.simps) (simp add: Let_def)
  next
    case False
    with 1 heap_down_swap[of key xs p] smallest_cases(1)[of p xs, where key=key] show ?thesis
      by (subst sift_down.simps) (auto simp: Let_def)
  qed
qed

lemma mset_sift_down [simp]: "p < length xs \<Longrightarrow> mset (sift_down key xs p) = mset xs"
proof (induction key xs p rule: sift_down.induct)
  case (1 key xs p)
  then show ?case using smallest_cases(1)[of p xs, where key=key] by (subst sift_down.simps) (auto simp: Let_def)
qed

section \<open>Inserting and deleting\<close>

lemma heap_up_append: "heap_ok key xs \<Longrightarrow> heap_up key (xs @ [x]) (length xs)"
  unfolding heap_up_def heap_ok_def
  by (auto simp: nth_append parent_eq_iff less_Suc_eq) (metis less_trans parent_less)+

text \<open>Moving the last element to \<open>p\<close> and dropping it from the end.\<close>

lemma heap_replace:
  assumes h: "heap_ok key xs" and p: "p < length xs - 1"
  defines "ys \<equiv> butlast (xs[p := last xs])"
  shows "key (last xs) < key (xs ! p) \<Longrightarrow> heap_up key ys p"
    and "key (xs ! p) < key (last xs) \<Longrightarrow> heap_down key ys p"
    and "key (last xs) = key (xs ! p) \<Longrightarrow> heap_ok key ys"
proof -
  have len: "length ys = length xs - 1" by (simp add: ys_def)
  have nth: "ys ! i = (if i = p then last xs else xs ! i)" if "i < length xs - 1" for i
    using that p by (auto simp: ys_def nth_butlast nth_list_update)
  have par: "parent i < length xs - 1" if "i < length xs - 1" "0 < i" for i
    using parent_less[OF that(2)] that(1) by simp
  have le: "key (xs ! parent i) \<le> key (xs ! i)" if "i < length xs - 1" "0 < i" for i
    using h that by (simp add: heap_ok_def)
  have gp: "key (xs ! parent p) \<le> key (xs ! i)" if "i < length xs - 1" "0 < i" "parent i = p" "0 < p" for i
    using le[OF p that(4)] le[OF that(1,2)] that(3) by simp
  have np: "i \<noteq> p" if "parent i = p" "0 < i" for i using that parent_less[OF that(2)] by auto
  have pp: "parent p \<noteq> p" if "0 < p" using parent_less[OF that] by simp
  show "heap_up key ys p" if k: "key (last xs) < key (xs ! p)"
    unfolding heap_up_def len
  proof (intro conjI allI impI)
    fix i assume i: "i < length xs - 1" "0 < i" "i \<noteq> p"
    show "key (ys ! parent i) \<le> key (ys ! i)"
      using le[OF i(1,2)] k i par[OF i(1,2)] by (auto simp: nth)
  next
    fix i assume i: "i < length xs - 1" "0 < i" "parent i = p" "0 < p"
    show "key (ys ! parent p) \<le> key (ys ! i)"
      using gp[OF i] np[OF i(3,2)] pp[OF i(4)] i par[OF p i(4)] by (simp add: nth)
  qed
  show "heap_down key ys p" if k: "key (xs ! p) < key (last xs)"
    unfolding heap_down_def len
  proof (intro conjI allI impI)
    fix i assume i: "i < length xs - 1" "0 < i" "parent i \<noteq> p"
    show "key (ys ! parent i) \<le> key (ys ! i)"
      using le[OF i(1,2)] k i par[OF i(1,2)] by (auto simp: nth)
  next
    fix i assume i: "i < length xs - 1" "0 < i" "parent i = p" "0 < p"
    show "key (ys ! parent p) \<le> key (ys ! i)"
      using gp[OF i] np[OF i(3,2)] pp[OF i(4)] i par[OF p i(4)] by (simp add: nth)
  qed
  show "heap_ok key ys" if k: "key (last xs) = key (xs ! p)"
    unfolding heap_ok_def len using le par k by (auto simp: nth)
qed

lemma heap_butlast:
  assumes "heap_ok key xs"
  shows "heap_ok key (butlast xs)"
  unfolding heap_ok_def
proof (intro allI impI)
  fix i assume i: "i < length (butlast xs)" "0 < i"
  have "parent i < length (butlast xs)" using parent_less[OF i(2)] i(1) by simp
  with assms i show "key (butlast xs ! parent i) \<le> key (butlast xs ! i)"
    by (simp add: nth_butlast heap_ok_def)
qed

lemma mset_replace_last:
  assumes "p < length xs"
  shows "mset (butlast (xs[p := last xs])) = mset xs - {#xs ! p#}"
proof -
  have ne: "xs \<noteq> []" using assms by auto
  have "last (xs[p := last xs]) = last xs"
    using assms ne by (auto simp: last_list_update)
  then have "mset (xs[p := last xs]) = add_mset (last xs) (mset (butlast (xs[p := last xs])))"
    using ne by (metis add_mset_add_single append_butlast_last_id list_update_nonempty mset.simps mset_append union_commute)
  moreover have "mset (xs[p := last xs]) = add_mset (last xs) (mset xs - {#xs ! p#})"
    using assms by (simp add: mset_update)
  ultimately show ?thesis by simp
qed

end
