(* ===== verification/Timerlist.thy ===== *)
theory Timerlist
  imports Heap_List "HOL-Library.Monad_Syntax"
begin

text \<open>
  The timer list of \<^verbatim>\<open>include/tlist.h\<close>: a binary heap of pointers to timers, each of which knows
  its place in the heap. A pointer is a number, the timers that are allocated are a map from
  pointers, and \<open>None\<close> is a failed assertion or the use of a timer that is not allocated. The
  first \<open>size\<close> places of \<^verbatim>\<open>heap_entries\<close> are a list. The clocks and the results of the mutex and
  of the allocator are inputs. The locale \<open>priority_queue\<close> states what draining a priority
  queue needs; the heap is an instance of it.
\<close>

section \<open>State\<close>

record 'd timerlist_timer =
  expire_time :: u64
  is_absolute_timer :: bool
  tm_data :: 'd
  handle_addr :: nat
  heap_pos :: nat

record 'd timerlist =
  heap_entries :: "nat list"
  allocated :: nat
  timers :: "nat \<rightharpoonup> 'd timerlist_timer"

abbreviation tl_size :: "'d timerlist \<Rightarrow> nat" where
  "tl_size ls \<equiv> length (heap_entries ls)"

definition timerlist_heap_index_left :: "nat \<Rightarrow> nat" where "timerlist_heap_index_left i = 2 * i + 1"
definition timerlist_heap_index_right :: "nat \<Rightarrow> nat" where "timerlist_heap_index_right i = 2 * i + 2"
definition timerlist_heap_index_parent :: "nat \<Rightarrow> nat" where "timerlist_heap_index_parent i = (i - 1) div 2"

definition timerlist_heap_entry_set :: "'d timerlist \<Rightarrow> nat \<Rightarrow> nat \<Rightarrow> 'd timerlist option" where
  "timerlist_heap_entry_set ls item_pos timer =
     (if item_pos < tl_size ls then
        do { t \<leftarrow> timers ls timer;
             Some (ls\<lparr>heap_entries := (heap_entries ls)[item_pos := timer],
                      timers := (timers ls)(timer \<mapsto> t\<lparr>heap_pos := item_pos\<rparr>)\<rparr>) }
      else None)"

definition timerlist_heap_entry_get :: "'d timerlist \<Rightarrow> nat \<Rightarrow> nat option" where
  "timerlist_heap_entry_get ls item_pos =
     (if item_pos < tl_size ls then Some (heap_entries ls ! item_pos) else None)"

definition timerlist_entry_cmp :: "'d timerlist_timer \<Rightarrow> 'd timerlist_timer \<Rightarrow> int" where
  "timerlist_entry_cmp t1 t2 =
     (if expire_time t1 = expire_time t2 then 0 else if expire_time t1 < expire_time t2 then -1 else 1)"

text \<open>The comparison of two pointers' timers.\<close>

definition entry_cmp :: "'d timerlist \<Rightarrow> nat \<Rightarrow> nat \<Rightarrow> int option" where
  "entry_cmp ls a b = do { t1 \<leftarrow> timers ls a; t2 \<leftarrow> timers ls b; Some (timerlist_entry_cmp t1 t2) }"

section \<open>Sifting\<close>

lemma parent_pos_less: "0 < i \<Longrightarrow> timerlist_heap_index_parent i < i"
  using parent_less[of i] by (simp add: timerlist_heap_index_parent_def parent_def)

function sift_up_loop :: "'d timerlist \<Rightarrow> nat \<Rightarrow> nat \<Rightarrow> 'd timerlist option" where
  "sift_up_loop ls timer item_pos =
     (if 0 < item_pos then
        do { let parent_pos = timerlist_heap_index_parent item_pos;
             parent_timer \<leftarrow> timerlist_heap_entry_get ls parent_pos;
             c \<leftarrow> entry_cmp ls parent_timer timer;
             if c > 0 then do {
               ls1 \<leftarrow> timerlist_heap_entry_set ls parent_pos timer;
               ls2 \<leftarrow> timerlist_heap_entry_set ls1 item_pos parent_timer;
               sift_up_loop ls2 timer (timerlist_heap_index_parent item_pos) }
             else Some ls }
      else Some ls)"
  by pat_completeness auto
termination
  by (relation "measure (\<lambda>(ls, timer, pos). pos)") (auto simp: parent_pos_less)

declare sift_up_loop.simps [simp del]

definition timerlist_heap_sift_up :: "'d timerlist \<Rightarrow> nat \<Rightarrow> 'd timerlist option" where
  "timerlist_heap_sift_up ls item_pos =
     do { timer \<leftarrow> timerlist_heap_entry_get ls item_pos; sift_up_loop ls timer item_pos }"

text \<open>The choice of the smallest of an item and its children, as in the loop body.\<close>

definition smallest_pos :: "'d timerlist \<Rightarrow> nat \<Rightarrow> nat option" where
  "smallest_pos ls item_pos =
     do { let left_pos = timerlist_heap_index_left item_pos;
          let right_pos = timerlist_heap_index_right item_pos;
          item \<leftarrow> timerlist_heap_entry_get ls item_pos;
          (s, s_entry) \<leftarrow>
            (if left_pos < tl_size ls then
               do { left_entry \<leftarrow> timerlist_heap_entry_get ls left_pos;
                    c \<leftarrow> entry_cmp ls left_entry item;
                    Some (if c < 0 then (left_pos, left_entry) else (item_pos, item)) }
             else Some (item_pos, item));
          (if right_pos < tl_size ls then
             do { right_entry \<leftarrow> timerlist_heap_entry_get ls right_pos;
                  c \<leftarrow> entry_cmp ls right_entry s_entry;
                  Some (if c < 0 then right_pos else s) }
           else Some s) }"

lemma entry_set_size: "timerlist_heap_entry_set ls p a = Some ls' \<Longrightarrow> tl_size ls' = tl_size ls"
  by (auto simp: timerlist_heap_entry_set_def bind_eq_Some_conv split: if_splits)

lemma smallest_pos_bound:
  "smallest_pos ls p = Some s \<Longrightarrow> s \<noteq> p \<Longrightarrow> p < s \<and> s < tl_size ls"
  by (auto simp: smallest_pos_def bind_eq_Some_conv timerlist_heap_index_left_def timerlist_heap_index_right_def
      split: if_splits)

function timerlist_heap_sift_down :: "'d timerlist \<Rightarrow> nat \<Rightarrow> 'd timerlist option" where
  "timerlist_heap_sift_down ls item_pos =
     (case smallest_pos ls item_pos of
        None \<Rightarrow> None
      | Some s \<Rightarrow>
          if s = item_pos then Some ls
          else
            case timerlist_heap_entry_get ls item_pos of
              None \<Rightarrow> None
            | Some tmp \<Rightarrow>
                case timerlist_heap_entry_set ls item_pos (heap_entries ls ! s) of
                  None \<Rightarrow> None
                | Some ls1 \<Rightarrow>
                    case timerlist_heap_entry_set ls1 s tmp of
                      None \<Rightarrow> None
                    | Some ls2 \<Rightarrow> timerlist_heap_sift_down ls2 s)"
  by pat_completeness auto
termination
  by (relation "measure (\<lambda>(ls, p). tl_size ls - p)")
    (auto dest!: entry_set_size smallest_pos_bound)

declare timerlist_heap_sift_down.simps [simp del]

section \<open>Operations\<close>

definition HEAP_POS_NONE :: nat where "HEAP_POS_NONE = 2 ^ 64 - 1"

definition timerlist_heap_delete :: "'d timerlist \<Rightarrow> nat \<Rightarrow> 'd timerlist option" where
  "timerlist_heap_delete ls entry =
     do { t \<leftarrow> timers ls entry;
          let entry_pos = heap_pos t;
          let ls = ls\<lparr>timers := (timers ls)(entry \<mapsto> t\<lparr>heap_pos := HEAP_POS_NONE\<rparr>)\<rparr>;
          replacement \<leftarrow> (if tl_size ls = 0 then None else timerlist_heap_entry_get ls (tl_size ls - 1));
          ls \<leftarrow> timerlist_heap_entry_set ls entry_pos replacement;
          let ls = ls\<lparr>heap_entries := butlast (heap_entries ls)\<rparr>;
          c \<leftarrow> entry_cmp ls replacement entry;
          if c < 0 then timerlist_heap_sift_up ls entry_pos
          else if c > 0 then timerlist_heap_sift_down ls entry_pos
          else Some ls }"

definition timerlist_debug_is_valid_heap :: "'d timerlist \<Rightarrow> bool" where
  "timerlist_debug_is_valid_heap ls =
     list_all (\<lambda>i.
       (\<forall>c\<in>{timerlist_heap_index_left i, timerlist_heap_index_right i}.
          c < tl_size ls \<longrightarrow>
          \<not> timerlist_entry_cmp (the (timers ls (heap_entries ls ! c))) (the (timers ls (heap_entries ls ! i))) < 0))
       [0..<tl_size ls]"

definition timerlist_init :: "'d timerlist" where
  "timerlist_init = \<lparr>heap_entries = [], allocated = 0, timers = Map.empty\<rparr>"

record tl_env =
  tl_lock_rc :: int
  tl_realloc_errno :: int

definition timerlist_add :: "tl_env \<Rightarrow> 'd timerlist \<Rightarrow> nat \<Rightarrow> (int \<times> 'd timerlist) option" where
  "timerlist_add env ls timer =
     (if tl_lock_rc env \<noteq> 0 then Some (- tl_lock_rc env, ls)
      else
        let grow = tl_size ls + 1 > allocated ls
        in if grow \<and> tl_realloc_errno env \<noteq> 0 then Some (- tl_realloc_errno env, ls)
           else
             do { let ls = (if grow then ls\<lparr>allocated := (allocated ls + 1) * 2\<rparr> else ls);
                  let ls = ls\<lparr>heap_entries := heap_entries ls @ [timer]\<rparr>;
                  ls \<leftarrow> timerlist_heap_entry_set ls (tl_size ls - 1) timer;
                  ls \<leftarrow> timerlist_heap_sift_up ls (tl_size ls - 1);
                  Some (0, ls) })"

text \<open>\<open>malloc\<close> is the pointer of the new timer; the result has what is stored in \<^verbatim>\<open>*handle\<close>.\<close>

definition timerlist_add_duration ::
  "tl_env \<Rightarrow> nat option \<Rightarrow> u64 \<Rightarrow> 'd timerlist \<Rightarrow> 'd \<Rightarrow> u64 \<Rightarrow> nat \<Rightarrow> (int \<times> nat option \<times> 'd timerlist) option" where
  "timerlist_add_duration env malloc now ls data nano_duration handle =
     (case malloc of
        None \<Rightarrow> Some (- ENOMEM, None, ls)
      | Some timer \<Rightarrow>
          do { let t = \<lparr>expire_time = now + nano_duration, is_absolute_timer = False, tm_data = data,
                        handle_addr = handle, heap_pos = 0\<rparr>;
               (res, ls) \<leftarrow> timerlist_add env (ls\<lparr>timers := (timers ls)(timer \<mapsto> t)\<rparr>) timer;
               Some (if res \<noteq> 0 then (res, None, ls\<lparr>timers := (timers ls)(timer := None)\<rparr>) else (0, Some timer, ls)) })"

text \<open>The second component is the client's handle that is cleared.\<close>

definition timerlist_del :: "tl_env \<Rightarrow> 'd timerlist \<Rightarrow> nat \<Rightarrow> (int \<times> nat option \<times> 'd timerlist) option" where
  "timerlist_del env ls timer =
     (if tl_lock_rc env \<noteq> 0 then Some (- tl_lock_rc env, None, ls)
      else
        do { t \<leftarrow> timers ls timer;
             ls \<leftarrow> timerlist_heap_delete ls timer;
             Some (0, Some (handle_addr t), ls\<lparr>timers := (timers ls)(timer := None)\<rparr>) })"

definition timerlist_expire_time :: "'d timerlist \<Rightarrow> nat \<Rightarrow> u64 option" where
  "timerlist_expire_time ls timer = map_option expire_time (timers ls timer)"

definition timerlist_msec_duration_to_expire :: "tl_env \<Rightarrow> u64 \<Rightarrow> u64 \<Rightarrow> u64 \<Rightarrow> 'd timerlist \<Rightarrow> u64 option" where
  "timerlist_msec_duration_to_expire env hertz now_mono now_epoch ls =
     (if tl_lock_rc env \<noteq> 0 then Some (-1)
      else if tl_size ls = 0 then Some (-1)
      else
        do { a \<leftarrow> timerlist_heap_entry_get ls 0;
             t \<leftarrow> timers ls a;
             let current_time = (if is_absolute_timer t then now_epoch else now_mono);
             Some (if expire_time t < current_time then 0
                   else (expire_time t - current_time) div 1000000 + 1000 div hertz) })"

definition timerlist_pre_dispatch :: "'d timerlist \<Rightarrow> nat \<Rightarrow> (nat \<times> 'd timerlist) option" where
  "timerlist_pre_dispatch ls timer =
     do { t \<leftarrow> timers ls timer; ls \<leftarrow> timerlist_heap_delete ls timer; Some (handle_addr t, ls) }"

definition timerlist_post_dispatch :: "'d timerlist \<Rightarrow> nat \<Rightarrow> 'd timerlist" where
  "timerlist_post_dispatch ls timer = ls\<lparr>timers := (timers ls)(timer := None)\<rparr>"

lemma sift_up_loop_size: "sift_up_loop ls timer p = Some ls' \<Longrightarrow> tl_size ls' = tl_size ls"
proof (induction p arbitrary: ls rule: less_induct)
  case (less p)
  show ?case
  proof (cases "ls' = ls")
    case False
    with less.prems[unfolded sift_up_loop.simps[of ls timer p]] obtain ls1 ls2 a where "0 < p"
      "sift_up_loop ls2 timer (timerlist_heap_index_parent p) = Some ls'"
      "timerlist_heap_entry_set ls (timerlist_heap_index_parent p) timer = Some ls1"
      "timerlist_heap_entry_set ls1 p a = Some ls2"
      by (auto simp: bind_eq_Some_conv Let_def split: if_splits)
    with less.IH parent_pos_less show ?thesis by (metis entry_set_size)
  qed simp
qed

lemma sift_down_size: "timerlist_heap_sift_down ls p = Some ls' \<Longrightarrow> tl_size ls' = tl_size ls"
proof (induction "tl_size ls - p" arbitrary: ls p rule: less_induct)
  case less
  show ?case
  proof (cases "ls' = ls")
    case False
    with less.prems[unfolded timerlist_heap_sift_down.simps[of ls p]] obtain s ls1 ls2 a b where s: "smallest_pos ls p = Some s" "s \<noteq> p" "timerlist_heap_sift_down ls2 s = Some ls'"
      "timerlist_heap_entry_set ls p a = Some ls1" "timerlist_heap_entry_set ls1 s b = Some ls2"
      by (auto split: if_splits option.splits)
    have sz: "tl_size ls2 = tl_size ls" using s(4,5) by (simp add: entry_set_size)
    then have "tl_size ls2 - s < tl_size ls - p" using smallest_pos_bound[OF s(1,2)] by linarith
    from less.hyps[OF this s(3)] sz show ?thesis by simp
  qed simp
qed

lemma heap_delete_size: "timerlist_heap_delete ls a = Some ls' \<Longrightarrow> tl_size ls' < tl_size ls"
  by (auto simp: timerlist_heap_delete_def timerlist_heap_sift_up_def bind_eq_Some_conv Let_def split: if_splits
      dest!: sift_up_loop_size sift_down_size entry_set_size)

text \<open>
  The loop of \<^verbatim>\<open>timerlist_expire\<close>. The callback and the cleared handle of every dispatched timer
  are the result; the callback runs with the list locked and does not touch it.
\<close>

function expire_loop :: "u64 \<Rightarrow> u64 \<Rightarrow> 'd timerlist \<Rightarrow> (('d \<times> nat) list \<times> 'd timerlist) option" where
  "expire_loop now_mono now_epoch ls =
     (if tl_size ls = 0 then Some ([], ls)
      else
        case timerlist_heap_entry_get ls 0 of
          None \<Rightarrow> None
        | Some timer \<Rightarrow>
            case timers ls timer of
              None \<Rightarrow> None
            | Some t \<Rightarrow>
                if expire_time t < (if is_absolute_timer t then now_epoch else now_mono) then
                  case timerlist_pre_dispatch ls timer of
                    None \<Rightarrow> None
                  | Some (h, ls1) \<Rightarrow>
                      map_option (\<lambda>(ds, ls2). ((tm_data t, h) # ds, ls2))
                        (expire_loop now_mono now_epoch (timerlist_post_dispatch ls1 timer))
                else Some ([], ls))"
  by pat_completeness auto
termination
  by (relation "measure (\<lambda>(m, e, ls). tl_size ls)")
    (auto simp: timerlist_pre_dispatch_def timerlist_post_dispatch_def bind_eq_Some_conv dest!: heap_delete_size)

declare expire_loop.simps [simp del]

definition timerlist_expire :: "tl_env \<Rightarrow> u64 \<Rightarrow> u64 \<Rightarrow> 'd timerlist \<Rightarrow> (int \<times> ('d \<times> nat) list \<times> 'd timerlist) option" where
  "timerlist_expire env now_mono now_epoch ls =
     (if tl_lock_rc env \<noteq> 0 then Some (- tl_lock_rc env, [], ls)
      else map_option (\<lambda>(ds, ls). (0, ds, ls)) (expire_loop now_mono now_epoch ls))"

section \<open>The heap as a list\<close>

text \<open>Every pointer in the heap is an allocated timer that knows its place.\<close>

definition tl_wf :: "'d timerlist \<Rightarrow> bool" where
  "tl_wf ls \<longleftrightarrow> (\<forall>i<tl_size ls. \<exists>t. timers ls (heap_entries ls ! i) = Some t \<and> heap_pos t = i)"

definition tl_key :: "'d timerlist \<Rightarrow> nat \<Rightarrow> u64" where
  "tl_key ls a = expire_time (the (timers ls a))"

text \<open>The timers differ in the place at most.\<close>

definition tl_same :: "'d timerlist \<Rightarrow> 'd timerlist \<Rightarrow> bool" where
  "tl_same ls ls' \<longleftrightarrow>
     allocated ls' = allocated ls \<and>
     (\<forall>a. map_option (\<lambda>t. t\<lparr>heap_pos := 0\<rparr>) (timers ls' a) = map_option (\<lambda>t. t\<lparr>heap_pos := 0\<rparr>) (timers ls a))"

lemma tl_same_refl [simp]: "tl_same ls ls"
  by (simp add: tl_same_def)

lemma tl_same_trans: "tl_same a b \<Longrightarrow> tl_same b c \<Longrightarrow> tl_same a c"
  by (simp add: tl_same_def)

lemma tl_same_fields:
  assumes "tl_same ls ls'"
  shows "timers ls' a = None \<longleftrightarrow> timers ls a = None"
    "map_option expire_time (timers ls' a) = map_option expire_time (timers ls a)"
    "map_option is_absolute_timer (timers ls' a) = map_option is_absolute_timer (timers ls a)"
    "map_option tm_data (timers ls' a) = map_option tm_data (timers ls a)"
    "map_option handle_addr (timers ls' a) = map_option handle_addr (timers ls a)"
proof -
  have e: "map_option (\<lambda>t. t\<lparr>heap_pos := 0\<rparr>) (timers ls' a) = map_option (\<lambda>t. t\<lparr>heap_pos := 0\<rparr>) (timers ls a)"
    using assms by (simp add: tl_same_def)
  then show "timers ls' a = None \<longleftrightarrow> timers ls a = None" by (metis option.map_disc_iff)
  have f: "map_option f (timers ls' a) = map_option f (timers ls a)" if "\<And>t. f (t\<lparr>heap_pos := 0\<rparr>) = f t" for f :: "'a timerlist_timer \<Rightarrow> 'b"
  proof -
    have "map_option f (map_option (\<lambda>t. t\<lparr>heap_pos := 0\<rparr>) (timers ls' a)) = map_option f (map_option (\<lambda>t. t\<lparr>heap_pos := 0\<rparr>) (timers ls a))"
      using e by simp
    then show ?thesis by (simp add: option.map_comp comp_def that)
  qed
  show "map_option expire_time (timers ls' a) = map_option expire_time (timers ls a)"
    "map_option is_absolute_timer (timers ls' a) = map_option is_absolute_timer (timers ls a)"
    "map_option tm_data (timers ls' a) = map_option tm_data (timers ls a)"
    "map_option handle_addr (timers ls' a) = map_option handle_addr (timers ls a)"
    by (rule f, simp)+
qed

lemma tl_same_key: "tl_same ls ls' \<Longrightarrow> timers ls a \<noteq> None \<Longrightarrow> tl_key ls' a = tl_key ls a"
  using tl_same_fields(1,2)[of ls ls' a] by (auto simp: tl_key_def)

lemma tl_wf_timer: "tl_wf ls \<Longrightarrow> i < tl_size ls \<Longrightarrow> \<exists>t. timers ls (heap_entries ls ! i) = Some t \<and> heap_pos t = i"
  by (simp add: tl_wf_def)

lemma tl_wf_inj:
  assumes "tl_wf ls" "i < tl_size ls" "j < tl_size ls"
  shows "heap_entries ls ! i = heap_entries ls ! j \<longleftrightarrow> i = j"
  using tl_wf_timer[OF assms(1,2)] tl_wf_timer[OF assms(1,3)] by (metis option.inject)

lemma tl_wf_distinct: "tl_wf ls \<Longrightarrow> distinct (heap_entries ls)"
  by (simp add: distinct_conv_nth tl_wf_inj)

lemma entry_cmp_key:
  assumes "timers ls a \<noteq> None" "timers ls b \<noteq> None"
  shows "\<exists>c. entry_cmp ls a b = Some c \<and> (c < 0 \<longleftrightarrow> tl_key ls a < tl_key ls b) \<and> (0 < c \<longleftrightarrow> tl_key ls b < tl_key ls a)"
  using assms by (auto simp: entry_cmp_def timerlist_entry_cmp_def tl_key_def)

lemma swap_entries:
  assumes wf: "tl_wf ls" and ij: "i < tl_size ls" "j < tl_size ls" "i \<noteq> j"
  shows "\<exists>ls1 ls2. timerlist_heap_entry_set ls i (heap_entries ls ! j) = Some ls1 \<and>
           timerlist_heap_entry_set ls1 j (heap_entries ls ! i) = Some ls2 \<and>
           heap_entries ls2 = swap (heap_entries ls) i j \<and> tl_wf ls2 \<and> tl_same ls ls2"
proof -
  let ?xs = "heap_entries ls"
  obtain ti tj where t: "timers ls (?xs ! i) = Some ti" "heap_pos ti = i" "timers ls (?xs ! j) = Some tj" "heap_pos tj = j"
    using tl_wf_timer[OF wf ij(1)] tl_wf_timer[OF wf ij(2)] by blast
  have ne: "?xs ! i \<noteq> ?xs ! j" using tl_wf_inj[OF wf ij(1,2)] ij(3) by simp
  define ls1 where "ls1 = ls\<lparr>heap_entries := ?xs[i := ?xs ! j], timers := (timers ls)(?xs ! j \<mapsto> tj\<lparr>heap_pos := i\<rparr>)\<rparr>"
  define ls2 where "ls2 = ls1\<lparr>heap_entries := ?xs[i := ?xs ! j, j := ?xs ! i], timers := (timers ls1)(?xs ! i \<mapsto> ti\<lparr>heap_pos := j\<rparr>)\<rparr>"
  have s1: "timerlist_heap_entry_set ls i (?xs ! j) = Some ls1"
    using ij t by (simp add: timerlist_heap_entry_set_def ls1_def)
  have s2: "timerlist_heap_entry_set ls1 j (?xs ! i) = Some ls2"
    using ij t ne by (simp add: timerlist_heap_entry_set_def ls1_def ls2_def)
  have h: "heap_entries ls2 = swap ?xs i j" by (simp add: ls2_def swap_def)
  have "tl_wf ls2" unfolding tl_wf_def
  proof (intro allI impI)
    fix k assume "k < tl_size ls2"
    then have k: "k < tl_size ls" by (simp add: h)
    note inj = tl_wf_inj[OF wf k ij(1)] tl_wf_inj[OF wf k ij(2)]
    consider "k = i" | "k = j" "k \<noteq> i" | "k \<noteq> i" "k \<noteq> j" by blast
    then show "\<exists>t. timers ls2 (heap_entries ls2 ! k) = Some t \<and> heap_pos t = k"
    proof cases
      case 3
      then show ?thesis
        using tl_wf_timer[OF wf k] inj by (simp add: h nth_swap[OF ij(1,2)] ls2_def ls1_def)
    qed (use ij ne in \<open>simp_all add: h nth_swap[OF ij(1,2)] ls2_def ls1_def\<close>)
  qed
  moreover have "tl_same ls ls2" using t by (auto simp: tl_same_def ls2_def ls1_def)
  ultimately show ?thesis using s1 s2 h by blast
qed

lemma tl_key_cong: "tl_same ls ls' \<Longrightarrow> tl_wf ls \<Longrightarrow> i < tl_size ls \<Longrightarrow> tl_key ls' (heap_entries ls ! i) = tl_key ls (heap_entries ls ! i)"
  using tl_wf_timer[of ls i] by (auto intro: tl_same_key)

text \<open>The list functions depend on the keys of the elements of the list only.\<close>

lemma sift_up_cong: "(\<And>x. x \<in> set xs \<Longrightarrow> k x = k' x) \<Longrightarrow> p < length xs \<Longrightarrow> sift_up k xs p = sift_up k' xs p"
proof (induction k' xs p rule: sift_up.induct)
  case (1 k' xs p)
  have e: "k (xs ! p) = k' (xs ! p)" using "1.prems" by simp
  show ?case
  proof (cases "0 < p")
    case True
    then have pp: "parent p < length xs" using parent_less[of p] "1.prems"(2) by simp
    have "k (xs ! parent p) = k' (xs ! parent p)" using "1.prems"(1) pp by simp
    moreover have "set (swap xs (parent p) p) = set xs" using mset_eq_setD[OF mset_swap_eq[OF pp "1.prems"(2)]] .
    ultimately show ?thesis using 1 e True pp by (simp add: sift_up.simps[of k xs p] sift_up.simps[of k' xs p])
  qed (simp add: sift_up.simps[of _ xs 0])
qed

lemma smallest_cong: "(\<And>x. x \<in> set xs \<Longrightarrow> k x = k' x) \<Longrightarrow> p < length xs \<Longrightarrow> smallest k xs p = smallest k' xs p"
  by (auto simp: smallest_def Let_def)

lemma sift_down_cong: "(\<And>x. x \<in> set xs \<Longrightarrow> k x = k' x) \<Longrightarrow> p < length xs \<Longrightarrow> sift_down k xs p = sift_down k' xs p"
proof (induction k' xs p rule: sift_down.induct)
  case (1 k' xs p)
  have s: "smallest k xs p = smallest k' xs p" using "1.prems" by (rule smallest_cong)
  have b: "smallest k' xs p < length xs" using smallest_cases(1)[OF "1.prems"(2)] .
  have "set (swap xs p (smallest k' xs p)) = set xs" using mset_eq_setD[OF mset_swap_eq[OF "1.prems"(2) b]] .
  then show ?case using 1 s b by (simp add: sift_down.simps[of k xs p] sift_down.simps[of k' xs p] Let_def)
qed

lemma tl_key_set: "tl_same ls ls' \<Longrightarrow> tl_wf ls \<Longrightarrow> x \<in> set (heap_entries ls) \<Longrightarrow> tl_key ls' x = tl_key ls x"
  by (metis in_set_conv_nth tl_key_cong)

section \<open>The operations compute on the list\<close>

lemma sift_up_loop_list:
  assumes "tl_wf ls" "p < tl_size ls" "timer = heap_entries ls ! p"
  shows "\<exists>ls'. sift_up_loop ls timer p = Some ls' \<and> heap_entries ls' = sift_up (tl_key ls) (heap_entries ls) p \<and>
           tl_wf ls' \<and> tl_same ls ls'"
  using assms
proof (induction p arbitrary: ls rule: less_induct)
  case (less p)
  let ?xs = "heap_entries ls" and ?q = "parent p"
  show ?case
  proof (cases "0 < p")
    case False
    then have "sift_up_loop ls timer p = Some ls" by (subst sift_up_loop.simps) simp
    moreover have "sift_up (tl_key ls) ?xs p = ?xs" using False by (subst sift_up.simps) simp
    ultimately show ?thesis using less.prems by simp
  next
    case True
    have q: "?q < p" "?q < tl_size ls" "timerlist_heap_index_parent p = ?q"
      using parent_less[OF True] less.prems(2) by (simp_all add: timerlist_heap_index_parent_def parent_def)
    have al: "timers ls (?xs ! p) \<noteq> None" "timers ls (?xs ! ?q) \<noteq> None"
      using tl_wf_timer[OF less.prems(1,2)] tl_wf_timer[OF less.prems(1) q(2)] by auto
    obtain c where c: "entry_cmp ls (?xs ! ?q) timer = Some c" "0 < c \<longleftrightarrow> tl_key ls timer < tl_key ls (?xs ! ?q)"
      using entry_cmp_key[OF al(2,1)] less.prems(3) by auto
    show ?thesis
    proof (cases "0 < c")
      case False
      have "sift_up_loop ls timer p = Some ls"
        using True False c(1) q by (subst sift_up_loop.simps) (simp add: timerlist_heap_entry_get_def)
      moreover have "sift_up (tl_key ls) ?xs p = ?xs" using False c(2) less.prems(3) by (subst sift_up.simps) simp
      ultimately show ?thesis using less.prems by simp
    next
      case pos: True
      obtain ls1 ls2 where s: "timerlist_heap_entry_set ls ?q (?xs ! p) = Some ls1"
        "timerlist_heap_entry_set ls1 p (?xs ! ?q) = Some ls2" "heap_entries ls2 = swap ?xs ?q p" "tl_wf ls2" "tl_same ls ls2"
        using swap_entries[OF less.prems(1) q(2) less.prems(2)] q(1) by auto
      have st: "sift_up_loop ls timer p = sift_up_loop ls2 timer ?q"
        using True pos c(1) q s(1,2) less.prems(3)
        by (subst sift_up_loop.simps) (simp add: timerlist_heap_entry_get_def)
      have "timer = heap_entries ls2 ! ?q" using s(3) nth_swap[OF q(2) less.prems(2)] q(1) less.prems(3) by simp
      from less.IH[OF q(1) s(4) _ this] q(2) s(3) obtain ls' where ls': "sift_up_loop ls2 timer ?q = Some ls'"
        "heap_entries ls' = sift_up (tl_key ls2) (swap ?xs ?q p) ?q" "tl_wf ls'" "tl_same ls2 ls'" by auto
      have "sift_up (tl_key ls2) (swap ?xs ?q p) ?q = sift_up (tl_key ls) (swap ?xs ?q p) ?q"
      proof (rule sift_up_cong)
        fix x assume "x \<in> set (swap ?xs ?q p)"
        then have "x \<in> set ?xs" using mset_eq_setD[OF mset_swap_eq[OF q(2) less.prems(2)]] by simp
        then show "tl_key ls2 x = tl_key ls x" by (rule tl_key_set[OF s(5) less.prems(1)])
      qed (use q in simp)
      also have "\<dots> = sift_up (tl_key ls) ?xs p"
        using True pos c(2) less.prems(3) by (simp add: sift_up.simps[of _ ?xs p])
      finally show ?thesis using ls' st tl_same_trans[OF s(5) ls'(4)] by simp
    qed
  qed
qed

lemma heap_sift_up_list:
  assumes "tl_wf ls" "p < tl_size ls"
  shows "\<exists>ls'. timerlist_heap_sift_up ls p = Some ls' \<and> heap_entries ls' = sift_up (tl_key ls) (heap_entries ls) p \<and>
           tl_wf ls' \<and> tl_same ls ls'"
  using sift_up_loop_list[OF assms refl] assms by (simp add: timerlist_heap_sift_up_def timerlist_heap_entry_get_def)

lemma smallest_pos_list:
  assumes wf: "tl_wf ls" and p: "p < tl_size ls"
  shows "smallest_pos ls p = Some (smallest (tl_key ls) (heap_entries ls) p)"
proof -
  let ?xs = "heap_entries ls"
  have al: "timers ls (?xs ! i) \<noteq> None" if "i < tl_size ls" for i using tl_wf_timer[OF wf that] by auto
  have cmp: "\<exists>c. entry_cmp ls (?xs ! i) (?xs ! j) = Some c \<and> (c < 0 \<longleftrightarrow> tl_key ls (?xs ! i) < tl_key ls (?xs ! j))"
    if "i < tl_size ls" "j < tl_size ls" for i j using entry_cmp_key[OF al[OF that(1)] al[OF that(2)]] by blast
  let ?l = "2 * p + 1" and ?r = "2 * p + 2"
  define s where "s = (if ?l < tl_size ls \<and> tl_key ls (?xs ! ?l) < tl_key ls (?xs ! p) then ?l else p)"
  have sb: "s < tl_size ls" using p by (simp add: s_def)
  have left: "(if ?l < tl_size ls then
        do { left_entry \<leftarrow> timerlist_heap_entry_get ls ?l; c \<leftarrow> entry_cmp ls left_entry (?xs ! p);
             Some (if c < 0 then (?l, left_entry) else (p, ?xs ! p)) }
      else Some (p, ?xs ! p)) = Some (s, ?xs ! s)"
    using cmp[of ?l p] p by (auto simp: s_def timerlist_heap_entry_get_def)
  have right: "(if ?r < tl_size ls then
        do { right_entry \<leftarrow> timerlist_heap_entry_get ls ?r; c \<leftarrow> entry_cmp ls right_entry (?xs ! s);
             Some (if c < 0 then ?r else s) }
      else Some s) = Some (if ?r < tl_size ls \<and> tl_key ls (?xs ! ?r) < tl_key ls (?xs ! s) then ?r else s)"
    using cmp[OF _ sb, of ?r] by (auto simp: timerlist_heap_entry_get_def)
  have g: "timerlist_heap_entry_get ls p = Some (?xs ! p)" using p by (simp add: timerlist_heap_entry_get_def)
  show ?thesis
    unfolding smallest_pos_def timerlist_heap_index_left_def timerlist_heap_index_right_def Let_def g bind.bind_lunit
      left prod.case right smallest_def s_def[symmetric] ..
qed

lemma sift_down_list:
  assumes "tl_wf ls" "p < tl_size ls"
  shows "\<exists>ls'. timerlist_heap_sift_down ls p = Some ls' \<and>
           heap_entries ls' = sift_down (tl_key ls) (heap_entries ls) p \<and> tl_wf ls' \<and> tl_same ls ls'"
  using assms
proof (induction "tl_size ls - p" arbitrary: ls p rule: less_induct)
  case less
  let ?xs = "heap_entries ls" and ?s = "smallest (tl_key ls) (heap_entries ls) p"
  note sp = smallest_pos_list[OF less.prems]
  note sm = smallest_cases[OF less.prems(2), where key="tl_key ls"]
  show ?case
  proof (cases "?s = p")
    case True
    then have "timerlist_heap_sift_down ls p = Some ls" using sp by (subst timerlist_heap_sift_down.simps) simp
    moreover have "sift_down (tl_key ls) ?xs p = ?xs" using True by (subst sift_down.simps) simp
    ultimately show ?thesis using less.prems by simp
  next
    case False
    obtain ls1 ls2 where s: "timerlist_heap_entry_set ls p (?xs ! ?s) = Some ls1"
      "timerlist_heap_entry_set ls1 ?s (?xs ! p) = Some ls2" "heap_entries ls2 = swap ?xs p ?s" "tl_wf ls2" "tl_same ls ls2"
      using swap_entries[OF less.prems sm(1)] False by auto
    have st: "timerlist_heap_sift_down ls p = timerlist_heap_sift_down ls2 ?s"
      using False sp s(1,2) less.prems(2)
      by (simp add: timerlist_heap_sift_down.simps[of ls p] timerlist_heap_entry_get_def)
    have "tl_size ls2 - ?s < tl_size ls - p" "?s < tl_size ls2" using sm(1,2) False s(3) by auto
    from less.hyps[OF this(1) s(4) this(2)] s(3) obtain ls' where ls': "timerlist_heap_sift_down ls2 ?s = Some ls'"
      "heap_entries ls' = sift_down (tl_key ls2) (swap ?xs p ?s) ?s" "tl_wf ls'" "tl_same ls2 ls'" by auto
    have "sift_down (tl_key ls2) (swap ?xs p ?s) ?s = sift_down (tl_key ls) (swap ?xs p ?s) ?s"
    proof (rule sift_down_cong)
      fix x assume "x \<in> set (swap ?xs p ?s)"
      then have "x \<in> set ?xs" using mset_eq_setD[OF mset_swap_eq[OF less.prems(2) sm(1)]] by simp
      then show "tl_key ls2 x = tl_key ls x" by (rule tl_key_set[OF s(5) less.prems(1)])
    qed (use sm(1) in simp)
    also have "\<dots> = sift_down (tl_key ls) ?xs p"
      using False less.prems(2) by (simp add: sift_down.simps[of _ ?xs p] Let_def)
    finally show ?thesis using ls' st tl_same_trans[OF s(5) ls'(4)] by simp
  qed
qed

section \<open>Invariant\<close>

text \<open>
  The invariant of the timer list: the heap is well formed and ordered, fits its allocation,
  the allocated timers are exactly the ones in the heap, and none of them is absolute (no
  function of the library makes an absolute timer).
\<close>

definition tl_inv :: "'d timerlist \<Rightarrow> bool" where
  "tl_inv ls \<longleftrightarrow>
     tl_wf ls \<and> heap_ok (tl_key ls) (heap_entries ls) \<and> tl_size ls \<le> allocated ls \<and>
     dom (timers ls) = set (heap_entries ls) \<and>
     (\<forall>a t. timers ls a = Some t \<longrightarrow> \<not> is_absolute_timer t)"

lemma heap_ok_cong: "(\<And>x. x \<in> set xs \<Longrightarrow> k x = k' x) \<Longrightarrow> heap_ok k xs = heap_ok k' xs"
  unfolding heap_ok_def by (metis nth_mem parent_less less_trans)

lemma heap_up_cong: "(\<And>x. x \<in> set xs \<Longrightarrow> k x = k' x) \<Longrightarrow> p < length xs \<Longrightarrow> heap_up k xs p = heap_up k' xs p"
  unfolding heap_up_def by (intro conj_cong all_cong imp_cong refl) (metis nth_mem parent_less less_trans)+

lemma tl_same_dom: "tl_same ls ls' \<Longrightarrow> dom (timers ls') = dom (timers ls)"
  using tl_same_fields(1)[of ls ls'] by (auto simp: dom_def)

lemma tl_same_absolute:
  "tl_same ls ls' \<Longrightarrow> (\<forall>a t. timers ls' a = Some t \<longrightarrow> \<not> is_absolute_timer t) = (\<forall>a t. timers ls a = Some t \<longrightarrow> \<not> is_absolute_timer t)"
proof -
  assume "tl_same ls ls'"
  moreover have "(\<forall>t. x = Some t \<longrightarrow> \<not> is_absolute_timer t) \<longleftrightarrow> map_option is_absolute_timer x \<noteq> Some True"
    for x :: "'a timerlist_timer option" by (cases x) auto
  ultimately show ?thesis by (simp only: tl_same_fields(3))
qed

lemma tl_inv_add:
  assumes inv: "tl_inv ls" and new: "timers ls a = None" and t: "\<not> is_absolute_timer t"
    and env: "tl_lock_rc env = 0" "tl_realloc_errno env = 0"
  shows "\<exists>ls'. timerlist_add env (ls\<lparr>timers := (timers ls)(a \<mapsto> t)\<rparr>) a = Some (0, ls') \<and> tl_inv ls' \<and>
           mset (heap_entries ls') = add_mset a (mset (heap_entries ls)) \<and>
           (\<forall>b. map_option (\<lambda>t. t\<lparr>heap_pos := 0\<rparr>) (timers ls' b) =
                map_option (\<lambda>t. t\<lparr>heap_pos := 0\<rparr>) (((timers ls)(a \<mapsto> t)) b))"
proof -
  let ?xs = "heap_entries ls" and ?n = "tl_size ls"
  define al where "al = (if ?n + 1 > allocated ls then (allocated ls + 1) * 2 else allocated ls)"
  define ls1 where "ls1 = ls\<lparr>timers := (timers ls)(a \<mapsto> t\<lparr>heap_pos := ?n\<rparr>), allocated := al, heap_entries := ?xs @ [a]\<rparr>"
  have wf: "tl_wf ls" and dom: "dom (timers ls) = set ?xs" and hp: "heap_ok (tl_key ls) ?xs" and sz: "?n \<le> allocated ls"
    using inv by (auto simp: tl_inv_def)
  have na: "a \<notin> set ?xs" using new dom by (metis domIff)
  have wf1: "tl_wf ls1" unfolding tl_wf_def
  proof (intro allI impI)
    fix i assume "i < tl_size ls1"
    then consider "i = ?n" | "i < ?n" by (auto simp: ls1_def less_Suc_eq)
    then show "\<exists>t. timers ls1 (heap_entries ls1 ! i) = Some t \<and> heap_pos t = i"
    proof cases
      case 2
      then have "?xs ! i \<noteq> a" using na by (metis nth_mem)
      with tl_wf_timer[OF wf 2] 2 show ?thesis by (simp add: ls1_def nth_append)
    qed (simp add: ls1_def)
  qed
  have key: "tl_key ls1 x = tl_key ls x" if "x \<in> set ?xs" for x
    using that na by (auto simp: tl_key_def ls1_def)
  have "heap_ok (tl_key ls1) ?xs" using hp heap_ok_cong[of ?xs "tl_key ls1" "tl_key ls"] key by blast
  then have up: "heap_up (tl_key ls1) (heap_entries ls1) ?n" using heap_up_append by (simp add: ls1_def)
  have n: "?n < tl_size ls1" by (simp add: ls1_def)
  obtain ls' where ls': "timerlist_heap_sift_up ls1 ?n = Some ls'"
    "heap_entries ls' = sift_up (tl_key ls1) (heap_entries ls1) ?n" "tl_wf ls'" "tl_same ls1 ls'"
    using heap_sift_up_list[OF wf1 n] by blast
  have ms: "mset (heap_entries ls') = mset (heap_entries ls1)" using ls'(2) n by simp
  then have st: "set (heap_entries ls') = set (heap_entries ls1)" "tl_size ls' = tl_size ls1"
    by (metis mset_eq_setD, metis mset_eq_length)
  have "heap_ok (tl_key ls1) (heap_entries ls')" unfolding ls'(2) by (rule sift_up_heap[OF up n])
  then have "heap_ok (tl_key ls') (heap_entries ls')"
    using heap_ok_cong[of "heap_entries ls'" "tl_key ls'" "tl_key ls1"] tl_key_set[OF ls'(4) wf1] st by blast
  moreover have "dom (timers ls') = set (heap_entries ls')"
    using tl_same_dom[OF ls'(4)] dom st by (auto simp: ls1_def)
  moreover have "\<forall>b u. timers ls' b = Some u \<longrightarrow> \<not> is_absolute_timer u"
    unfolding tl_same_absolute[OF ls'(4)] using inv t by (auto simp: tl_inv_def ls1_def)
  moreover have "tl_size ls' \<le> allocated ls'" using st ls'(4) sz by (auto simp: ls1_def tl_same_def al_def)
  ultimately have "tl_inv ls'" using ls'(3) by (simp add: tl_inv_def)
  moreover have "allocated ls < Suc ?n \<Longrightarrow> ls\<lparr>allocated := Suc (Suc (allocated ls * 2)), heap_entries := ?xs @ [a],
      timers := (timers ls)(a \<mapsto> t\<lparr>heap_pos := ?n\<rparr>)\<rparr> = ls1"
    "\<not> allocated ls < Suc ?n \<Longrightarrow> ls\<lparr>heap_entries := ?xs @ [a], timers := (timers ls)(a \<mapsto> t\<lparr>heap_pos := ?n\<rparr>)\<rparr> = ls1"
    by (cases ls, simp add: ls1_def al_def)+
  then have "timerlist_add env (ls\<lparr>timers := (timers ls)(a \<mapsto> t)\<rparr>) a = Some (0, ls')"
    using env ls'(1) by (simp add: timerlist_add_def Let_def timerlist_heap_entry_set_def)
  ultimately show ?thesis using ms ls'(4) by (auto simp: tl_same_def ls1_def)
qed

lemma tl_wf_drop_last:
  assumes "tl_wf ls"
  shows "tl_wf (ls\<lparr>heap_entries := butlast (heap_entries ls)\<rparr>)"
  using assms by (auto simp: tl_wf_def nth_butlast)

text \<open>Deleting a timer of the heap: the heap loses exactly that timer and stays ordered.\<close>

lemma heap_delete_list:
  assumes wf: "tl_wf ls" and hp: "heap_ok (tl_key ls) (heap_entries ls)" and a: "a \<in> set (heap_entries ls)"
  shows "\<exists>ls'. timerlist_heap_delete ls a = Some ls' \<and> tl_wf ls' \<and> tl_same ls ls' \<and>
           heap_ok (tl_key ls) (heap_entries ls') \<and> mset (heap_entries ls') = mset (heap_entries ls) - {#a#}"
proof -
  let ?xs = "heap_entries ls"
  obtain p where p: "p < tl_size ls" "a = ?xs ! p" using a by (metis in_set_conv_nth)
  obtain t where t: "timers ls a = Some t" "heap_pos t = p" using tl_wf_timer[OF wf p(1)] p(2) by auto
  have ne: "?xs \<noteq> []" using a by auto
  let ?l = "last ?xs"
  have last: "?l = ?xs ! (tl_size ls - 1)" "tl_size ls - 1 < tl_size ls" using ne by (simp_all add: last_conv_nth)
  obtain tl where tl: "timers ls ?l = Some tl" "heap_pos tl = tl_size ls - 1"
    using tl_wf_timer[OF wf last(2)] last(1) by auto
  let ?ys = "butlast (?xs[p := ?l])"
  define ls1 where "ls1 = ls\<lparr>timers := (timers ls)(a \<mapsto> t\<lparr>heap_pos := HEAP_POS_NONE\<rparr>, ?l \<mapsto> tl\<lparr>heap_pos := p\<rparr>),
    heap_entries := ?ys\<rparr>"
  have same: "tl_same ls ls1" using t tl by (auto simp: tl_same_def ls1_def)
  have ms: "mset ?ys = mset ?xs - {#a#}" using mset_replace_last[OF p(1)] p(2) by simp
  have wf1: "tl_wf ls1" unfolding tl_wf_def
  proof (intro allI impI)
    fix i assume "i < tl_size ls1"
    then have i: "i < tl_size ls - 1" "i < tl_size ls" by (simp_all add: ls1_def)
    show "\<exists>t. timers ls1 (heap_entries ls1 ! i) = Some t \<and> heap_pos t = i"
    proof (cases "i = p")
      case True
      with i p show ?thesis by (simp add: ls1_def nth_butlast)
    next
      case False
      have "?xs ! i \<noteq> a" using tl_wf_inj[OF wf i(2) p(1)] False p(2) by simp
      moreover have "?xs ! i \<noteq> ?l" using tl_wf_inj[OF wf i(2) last(2)] i(1) last(1) by simp
      ultimately show ?thesis using tl_wf_timer[OF wf i(2)] i False by (simp add: ls1_def nth_butlast)
    qed
  qed
  have del: "timerlist_heap_delete ls a =
      (case entry_cmp ls1 ?l a of None \<Rightarrow> None
       | Some c \<Rightarrow> if c < 0 then timerlist_heap_sift_up ls1 p else if c > 0 then timerlist_heap_sift_down ls1 p else Some ls1)"
  proof -
    have "timers (ls\<lparr>timers := (timers ls)(a \<mapsto> t\<lparr>heap_pos := HEAP_POS_NONE\<rparr>)\<rparr>) ?l \<noteq> None" using tl by simp
    moreover have "(the (((timers ls)(a \<mapsto> t\<lparr>heap_pos := HEAP_POS_NONE\<rparr>)) ?l))\<lparr>heap_pos := p\<rparr> = tl\<lparr>heap_pos := p\<rparr>"
      using t tl by (cases "?l = a") auto
    ultimately show ?thesis using t p(1) ne
      by (auto simp: timerlist_heap_delete_def Let_def timerlist_heap_entry_get_def timerlist_heap_entry_set_def
          ls1_def last_conv_nth split: option.splits)
  qed
  have al: "timers ls1 ?l \<noteq> None" "timers ls1 a \<noteq> None" using same t tl tl_same_fields(1)[OF same] by auto
  have key: "tl_key ls1 ?l = tl_key ls ?l" "tl_key ls1 a = tl_key ls a"
    using tl_same_key[OF same] t tl by auto
  have kset: "tl_key ls1 x = tl_key ls x" if "x \<in> set ?xs" for x using tl_key_set[OF same wf that] .
  obtain c where c: "entry_cmp ls1 ?l a = Some c" "c < 0 \<longleftrightarrow> tl_key ls ?l < tl_key ls a" "0 < c \<longleftrightarrow> tl_key ls a < tl_key ls ?l"
    using entry_cmp_key[OF al] key by auto
  have ysset: "set ?ys \<subseteq> set ?xs" using mset_subset_eqD[of "mset ?ys" "mset ?xs"] ms by (metis diff_subset_eq_self mset_subset_eqD set_mset_mset subsetI)
  have kys: "tl_key ls1 x = tl_key ls x" if "x \<in> set ?ys" for x using kset ysset that by blast
  show ?thesis
  proof (cases "p = tl_size ls - 1")
    case True
    then have la: "?l = a" using last(1) p(2) by simp
    have "\<not> c < 0" "\<not> 0 < c" using c(2,3) la by auto
    then have "timerlist_heap_delete ls a = Some ls1" using del c(1) by simp
    moreover have "?ys = butlast ?xs" using True by (simp add: butlast_list_update)
    then have "heap_ok (tl_key ls) ?ys" using heap_butlast[OF hp] by simp
    ultimately show ?thesis using wf1 same ms by (simp add: ls1_def)
  next
    case False
    then have pl: "p < tl_size ls - 1" using p(1) by simp
    have py: "p < length ?ys" using pl by simp
    have py1: "p < tl_size ls1" using py by (simp add: ls1_def)
    note rep = heap_replace[OF hp pl, folded p(2)]
    consider (lt) "c < 0" | (gt) "0 < c" "\<not> c < 0" | (eq) "c = 0" by linarith
    then show ?thesis
    proof cases
      case lt
      obtain ls' where ls': "timerlist_heap_sift_up ls1 p = Some ls'" "heap_entries ls' = sift_up (tl_key ls1) ?ys p"
        "tl_wf ls'" "tl_same ls1 ls'" using heap_sift_up_list[OF wf1 py1] by (auto simp: ls1_def)
      have "sift_up (tl_key ls1) ?ys p = sift_up (tl_key ls) ?ys p" by (rule sift_up_cong[OF kys py])
      then show ?thesis
        using ls' del c lt sift_up_heap[OF rep(1) py] mset_sift_up[OF py] ms tl_same_trans[OF same ls'(4)] by auto
    next
      case gt
      obtain ls' where ls': "timerlist_heap_sift_down ls1 p = Some ls'" "heap_entries ls' = sift_down (tl_key ls1) ?ys p"
        "tl_wf ls'" "tl_same ls1 ls'" using sift_down_list[OF wf1 py1] by (auto simp: ls1_def)
      have "sift_down (tl_key ls1) ?ys p = sift_down (tl_key ls) ?ys p" by (rule sift_down_cong[OF kys py])
      then show ?thesis
        using ls' del c gt sift_down_heap[OF rep(2) py] mset_sift_down[OF py] ms tl_same_trans[OF same ls'(4)] by auto
    next
      case eq
      then have "heap_ok (tl_key ls) ?ys" using rep(3) c(2,3) by force
      with eq del c(1) wf1 same ms show ?thesis by (simp add: ls1_def)
    qed
  qed
qed

section \<open>The contract of a priority queue\<close>

text \<open>
  What a client that drains a queue up to a limit needs: the minimum is an element that no
  other is below, and deleting it removes exactly it.
\<close>

locale priority_queue =
  fixes inv :: "'s \<Rightarrow> bool"
    and contents :: "'s \<Rightarrow> 'e multiset"
    and key :: "'e \<Rightarrow> 'k::linorder"
    and get_min :: "'s \<Rightarrow> 'e option"
    and del_min :: "'s \<Rightarrow> 's option"
  assumes min_none: "inv s \<Longrightarrow> get_min s = None \<longleftrightarrow> contents s = {#}"
    and min_least: "inv s \<Longrightarrow> get_min s = Some x \<Longrightarrow> x \<in># contents s \<and> (\<forall>y\<in>#contents s. key x \<le> key y)"
    and del_min_ok: "inv s \<Longrightarrow> get_min s = Some x \<Longrightarrow>
        \<exists>s'. del_min s = Some s' \<and> inv s' \<and> contents s' = contents s - {#x#}"
begin

primrec drain :: "nat \<Rightarrow> 'k \<Rightarrow> 's \<Rightarrow> ('e list \<times> 's) option" where
  "drain 0 now s = Some ([], s)"
| "drain (Suc n) now s =
     (case get_min s of
        None \<Rightarrow> Some ([], s)
      | Some x \<Rightarrow>
          if key x < now
          then (case del_min s of None \<Rightarrow> None | Some s' \<Rightarrow> map_option (\<lambda>(xs, s''). (x # xs, s'')) (drain n now s'))
          else Some ([], s))"

lemma drain_ok:
  assumes "inv s" "size (contents s) \<le> n"
  shows "\<exists>xs s'. drain n now s = Some (xs, s') \<and> inv s' \<and> sorted (map key xs) \<and>
           mset xs = filter_mset (\<lambda>x. key x < now) (contents s) \<and>
           contents s' = filter_mset (\<lambda>x. \<not> key x < now) (contents s)"
  using assms
proof (induction n arbitrary: s)
  case 0
  then show ?case by simp
next
  case (Suc n)
  show ?case
  proof (cases "get_min s")
    case None
    then have "contents s = {#}" using min_none[OF Suc.prems(1)] by simp
    with None Suc.prems(1) show ?thesis by simp
  next
    case (Some x)
    note least = min_least[OF Suc.prems(1) Some]
    show ?thesis
    proof (cases "key x < now")
      case False
      have "\<not> key y < now" if "y \<in># contents s" for y using least that False by force
      then have "filter_mset (\<lambda>x. key x < now) (contents s) = {#}" "filter_mset (\<lambda>x. \<not> key x < now) (contents s) = contents s"
        by (auto simp: filter_mset_eq_conv)
      with Some False Suc.prems show ?thesis by simp
    next
      case True
      obtain s1 where s1: "del_min s = Some s1" "inv s1" "contents s1 = contents s - {#x#}"
        using del_min_ok[OF Suc.prems(1) Some] by blast
      have "size (contents s1) \<le> n" using Suc.prems(2) least s1(3) by (simp add: size_Diff_singleton)
      from Suc.IH[OF s1(2) this] obtain xs s' where IH: "drain n now s1 = Some (xs, s')" "inv s'" "sorted (map key xs)"
        "mset xs = filter_mset (\<lambda>x. key x < now) (contents s1)" "contents s' = filter_mset (\<lambda>x. \<not> key x < now) (contents s1)"
        by blast
      have ins: "contents s = add_mset x (contents s1)" using least s1(3) by simp
      have "\<forall>y\<in>set xs. key x \<le> key y"
        using least IH(4) ins by (metis insert_iff mem_Collect_eq set_mset_add_mset_insert set_mset_filter set_mset_mset)
      then show ?thesis using IH Some True s1(1) ins by auto
    qed
  qed
qed

end

text \<open>A timer as an element of the queue: its time, its callback data and its client's handle.\<close>

type_synonym 'd tl_elem = "u64 \<times> 'd \<times> nat"

definition elem_of :: "'d timerlist \<Rightarrow> nat \<Rightarrow> 'd tl_elem" where
  "elem_of ls a = (let t = the (timers ls a) in (expire_time t, tm_data t, handle_addr t))"

definition tl_contents :: "'d timerlist \<Rightarrow> 'd tl_elem multiset" where
  "tl_contents ls = image_mset (elem_of ls) (mset (heap_entries ls))"

definition tl_get_min :: "'d timerlist \<Rightarrow> 'd tl_elem option" where
  "tl_get_min ls = (if tl_size ls = 0 then None else Some (elem_of ls (heap_entries ls ! 0)))"

definition tl_del :: "'d timerlist \<Rightarrow> nat \<Rightarrow> 'd timerlist option" where
  "tl_del ls a = map_option (\<lambda>ls1. timerlist_post_dispatch ls1 a) (timerlist_heap_delete ls a)"

definition tl_del_min :: "'d timerlist \<Rightarrow> 'd timerlist option" where
  "tl_del_min ls = tl_del ls (heap_entries ls ! 0)"

lemma elem_of_same: "tl_same ls ls' \<Longrightarrow> timers ls a \<noteq> None \<Longrightarrow> elem_of ls' a = elem_of ls a"
  using tl_same_fields[of ls ls' a] by (auto simp: elem_of_def Let_def)

lemma tl_inv_timer: "tl_inv ls \<Longrightarrow> a \<in> set (heap_entries ls) \<Longrightarrow> \<exists>t. timers ls a = Some t \<and> \<not> is_absolute_timer t"
  unfolding tl_inv_def by (metis domD)

lemma tl_del_ok:
  assumes inv: "tl_inv ls" and a: "a \<in> set (heap_entries ls)"
  shows "\<exists>ls'. tl_del ls a = Some ls' \<and> tl_inv ls' \<and> tl_contents ls' = tl_contents ls - {#elem_of ls a#} \<and>
           set (heap_entries ls') = set (heap_entries ls) - {a} \<and> (\<forall>b\<in>set (heap_entries ls'). elem_of ls' b = elem_of ls b)"
proof -
  have wf: "tl_wf ls" and hp: "heap_ok (tl_key ls) (heap_entries ls)" and dom: "dom (timers ls) = set (heap_entries ls)"
    and sz: "tl_size ls \<le> allocated ls" using inv by (auto simp: tl_inv_def)
  obtain ls1 where ls1: "timerlist_heap_delete ls a = Some ls1" "tl_wf ls1" "tl_same ls ls1"
    "heap_ok (tl_key ls) (heap_entries ls1)" "mset (heap_entries ls1) = mset (heap_entries ls) - {#a#}"
    using heap_delete_list[OF wf hp a] by blast
  let ?ls = "timerlist_post_dispatch ls1 a"
  have set1: "set (heap_entries ls1) = set (heap_entries ls) - {a}"
    using ls1(5) tl_wf_distinct[OF wf] by (metis mset_eq_setD mset_remove1 set_remove1_eq)
  have "tl_wf ?ls" using ls1(2) set1 by (auto simp: tl_wf_def timerlist_post_dispatch_def)
  moreover have "heap_ok (tl_key ?ls) (heap_entries ?ls)"
  proof -
    have "tl_key ?ls x = tl_key ls x" if "x \<in> set (heap_entries ls1)" for x
      using that set1 tl_key_set[OF ls1(3) wf, of x] by (auto simp: tl_key_def timerlist_post_dispatch_def)
    then show ?thesis using ls1(4) heap_ok_cong[of "heap_entries ls1" "tl_key ?ls" "tl_key ls"]
      by (simp add: timerlist_post_dispatch_def)
  qed
  moreover have "tl_size ?ls \<le> allocated ?ls"
    using heap_delete_size[OF ls1(1)] sz ls1(3) by (simp add: timerlist_post_dispatch_def tl_same_def)
  moreover have "dom (timers ?ls) = set (heap_entries ?ls)"
    using tl_same_dom[OF ls1(3)] dom set1 by (auto simp: timerlist_post_dispatch_def)
  moreover have "\<forall>b t. timers ls1 b = Some t \<longrightarrow> \<not> is_absolute_timer t"
    using inv by (simp only: tl_same_absolute[OF ls1(3)] tl_inv_def) blast
  then have "\<forall>b t. timers ?ls b = Some t \<longrightarrow> \<not> is_absolute_timer t"
    by (auto simp: timerlist_post_dispatch_def split: if_splits)
  ultimately have inv': "tl_inv ?ls" by (simp add: tl_inv_def)
  have el: "elem_of ?ls b = elem_of ls b" if "b \<in> set (heap_entries ls1)" for b
  proof -
    have "timers ls b \<noteq> None" using that set1 dom by (metis DiffD1 domIff)
    with elem_of_same[OF ls1(3)] that set1 show ?thesis by (auto simp: elem_of_def timerlist_post_dispatch_def)
  qed
  have "tl_contents ?ls = image_mset (elem_of ls) (mset (heap_entries ls1))"
    using el by (auto simp: tl_contents_def timerlist_post_dispatch_def intro!: image_mset_cong)
  also have "\<dots> = tl_contents ls - {#elem_of ls a#}"
    using ls1(5) a by (simp add: tl_contents_def image_mset_Diff)
  finally show ?thesis using inv' ls1(1) set1 el by (auto simp: tl_del_def timerlist_post_dispatch_def)
qed

interpretation tpq: priority_queue tl_inv tl_contents fst tl_get_min tl_del_min
proof
  fix ls :: "'a timerlist" assume "tl_inv ls"
  then show "tl_get_min ls = None \<longleftrightarrow> tl_contents ls = {#}" by (simp add: tl_get_min_def tl_contents_def)
next
  fix ls :: "'a timerlist" and x assume inv: "tl_inv ls" and x: "tl_get_min ls = Some x"
  then have ne: "0 < tl_size ls" and xe: "x = elem_of ls (heap_entries ls ! 0)" by (auto simp: tl_get_min_def split: if_splits)
  have k: "fst (elem_of ls a) = tl_key ls a" for a by (simp add: elem_of_def tl_key_def Let_def)
  have hp: "heap_ok (tl_key ls) (heap_entries ls)" using inv by (simp add: tl_inv_def)
  show "x \<in># tl_contents ls \<and> (\<forall>y\<in>#tl_contents ls. fst x \<le> fst y)"
    using ne xe heap_root_min[OF hp] nth_mem[OF ne] by (auto simp: tl_contents_def k) (metis in_set_conv_nth)
  show "\<exists>ls'. tl_del_min ls = Some ls' \<and> tl_inv ls' \<and> tl_contents ls' = tl_contents ls - {#x#}"
    using tl_del_ok[OF inv, of "heap_entries ls ! 0"] ne xe by (auto simp: tl_del_min_def)
qed

lemma expire_loop_drain:
  assumes "tl_inv ls" "tl_size ls \<le> n"
  shows "expire_loop now epoch ls = map_option (\<lambda>(xs, ls'). (map snd xs, ls')) (tpq.drain n now ls)"
  using assms
proof (induction n arbitrary: ls)
  case 0
  then show ?case by (subst expire_loop.simps) simp
next
  case (Suc n)
  show ?case
  proof (cases "tl_size ls = 0")
    case True
    then show ?thesis by (subst expire_loop.simps) (simp add: tl_get_min_def)
  next
    case False
    let ?a = "heap_entries ls ! 0"
    have a: "?a \<in> set (heap_entries ls)" using False by simp
    obtain t where t: "timers ls ?a = Some t" "\<not> is_absolute_timer t" using tl_inv_timer[OF Suc.prems(1) a] by blast
    obtain ls' where ls': "tl_del ls ?a = Some ls'" "tl_inv ls'" using tl_del_ok[OF Suc.prems(1) a] by blast
    then obtain ls1 where ls1: "timerlist_heap_delete ls ?a = Some ls1" "ls' = timerlist_post_dispatch ls1 ?a"
      by (auto simp: tl_del_def)
    have "tl_size ls' \<le> n" using heap_delete_size[OF ls1(1)] Suc.prems(2) by (simp add: ls1(2) timerlist_post_dispatch_def)
    note IH = Suc.IH[OF ls'(2) this]
    have e: "elem_of ls ?a = (expire_time t, tm_data t, handle_addr t)" using t by (simp add: elem_of_def)
    have g: "tl_get_min ls = Some (elem_of ls ?a)" using False by (simp add: tl_get_min_def)
    have d: "tl_del_min ls = Some ls'" using ls'(1) by (simp add: tl_del_min_def)
    show ?thesis
    proof (cases "expire_time t < now")
      case True
      have "expire_loop now epoch ls = map_option (\<lambda>(ds, ls2). ((tm_data t, handle_addr t) # ds, ls2)) (expire_loop now epoch ls')"
        using False True t ls1
        by (subst expire_loop.simps) (simp add: timerlist_heap_entry_get_def timerlist_pre_dispatch_def)
      then show ?thesis using True e g d IH
        by (simp add: option.map_comp comp_def split_def)
    next
      case no: False
      with False t e g show ?thesis
        by (subst expire_loop.simps) (simp add: timerlist_heap_entry_get_def)
    qed
  qed
qed

lemma timerlist_add_duration_ok:
  assumes inv: "tl_inv ls" and fresh: "timers ls a = None" and env: "tl_lock_rc env = 0" "tl_realloc_errno env = 0"
  shows "\<exists>ls'. timerlist_add_duration env (Some a) now ls data dur h = Some (0, Some a, ls') \<and> tl_inv ls' \<and>
           tl_contents ls' = add_mset (now + dur, data, h) (tl_contents ls) \<and> timerlist_expire_time ls' a = Some (now + dur) \<and>
           set (heap_entries ls') = insert a (set (heap_entries ls)) \<and>
           (\<forall>b\<in>set (heap_entries ls'). elem_of ls' b = (if b = a then (now + dur, data, h) else elem_of ls b))"
proof -
  define t :: "'a timerlist_timer" where
    "t = \<lparr>expire_time = now + dur, is_absolute_timer = False, tm_data = data, handle_addr = h, heap_pos = 0\<rparr>"
  obtain ls' where ls': "timerlist_add env (ls\<lparr>timers := (timers ls)(a \<mapsto> t)\<rparr>) a = Some (0, ls')" "tl_inv ls'"
    "mset (heap_entries ls') = add_mset a (mset (heap_entries ls))"
    "\<forall>b. map_option (\<lambda>t. t\<lparr>heap_pos := 0\<rparr>) (timers ls' b) = map_option (\<lambda>t. t\<lparr>heap_pos := 0\<rparr>) (((timers ls)(a \<mapsto> t)) b)"
    using tl_inv_add[OF inv fresh _ env, of t] by (auto simp: t_def)
  define ls0 where "ls0 = ls\<lparr>timers := (timers ls)(a \<mapsto> t), allocated := allocated ls'\<rparr>"
  have same: "tl_same ls0 ls'" using ls'(4) by (simp add: tl_same_def ls0_def)
  have na: "a \<notin> set (heap_entries ls)" using fresh inv unfolding tl_inv_def by (metis domIff)
  have el: "elem_of ls' b = (if b = a then (now + dur, data, h) else elem_of ls b)" if "b = a \<or> b \<in> set (heap_entries ls)" for b
  proof -
    have "timers ls0 b \<noteq> None" using that tl_inv_timer[OF inv, of b] by (auto simp: ls0_def)
    from elem_of_same[OF same this] show ?thesis by (simp add: elem_of_def ls0_def t_def)
  qed
  have "tl_contents ls' = add_mset (now + dur, data, h) (image_mset (elem_of ls') (mset (heap_entries ls)))"
    by (simp add: tl_contents_def ls'(3) el)
  moreover have "image_mset (elem_of ls') (mset (heap_entries ls)) = tl_contents ls"
    unfolding tl_contents_def by (rule image_mset_cong) (use el na in auto)
  moreover have "timerlist_expire_time ls' a = Some (now + dur)"
    using tl_same_fields(2)[OF same, of a] by (simp add: timerlist_expire_time_def ls0_def t_def)
  moreover have "timerlist_add_duration env (Some a) now ls data dur h = Some (0, Some a, ls')"
    using ls'(1) by (simp add: timerlist_add_duration_def t_def)
  moreover have s: "set (heap_entries ls') = insert a (set (heap_entries ls))"
    using ls'(3) by (metis set_mset_add_mset_insert set_mset_mset)
  ultimately show ?thesis using ls'(2) el by auto
qed

text \<open>The pointers of the timers that expire, in order; the others stay as they are.\<close>

lemma expire_loop_pointers:
  assumes "tl_inv ls"
  shows "\<exists>as ls'. expire_loop now epoch ls = Some (map (\<lambda>a. snd (elem_of ls a)) as, ls') \<and> tl_inv ls' \<and> distinct as \<and>
           set as = {a \<in> set (heap_entries ls). fst (elem_of ls a) < now} \<and> sorted (map (\<lambda>a. fst (elem_of ls a)) as) \<and>
           set (heap_entries ls') = set (heap_entries ls) - set as \<and>
           (\<forall>b\<in>set (heap_entries ls'). elem_of ls' b = elem_of ls b)"
  using assms
proof (induction "tl_size ls" arbitrary: ls rule: less_induct)
  case less
  show ?case
  proof (cases "tl_size ls = 0")
    case True
    then show ?thesis using less.prems by (subst expire_loop.simps) simp
  next
    case False
    let ?a = "heap_entries ls ! 0"
    have a: "?a \<in> set (heap_entries ls)" using False by simp
    obtain t where t: "timers ls ?a = Some t" "\<not> is_absolute_timer t" using tl_inv_timer[OF less.prems a] by blast
    have e: "elem_of ls ?a = (expire_time t, tm_data t, handle_addr t)" using t by (simp add: elem_of_def)
    have "tl_get_min ls = Some (elem_of ls ?a)" using False by (simp add: tl_get_min_def)
    from tpq.min_least[OF less.prems this]
    have least: "expire_time t \<le> fst (elem_of ls b)" if "b \<in> set (heap_entries ls)" for b
      using that e by (auto simp: tl_contents_def)
    show ?thesis
    proof (cases "expire_time t < now")
      case True
      obtain ls1 where ls1: "tl_del ls ?a = Some ls1" "tl_inv ls1" "set (heap_entries ls1) = set (heap_entries ls) - {?a}"
        "\<forall>b\<in>set (heap_entries ls1). elem_of ls1 b = elem_of ls b"
        using tl_del_ok[OF less.prems a] by blast
      then obtain ls0 where ls0: "timerlist_heap_delete ls ?a = Some ls0" "ls1 = timerlist_post_dispatch ls0 ?a"
        by (auto simp: tl_del_def)
      have "tl_size ls1 < tl_size ls" using heap_delete_size[OF ls0(1)] by (simp add: ls0(2) timerlist_post_dispatch_def)
      from less.hyps[OF this ls1(2)] obtain as ls' where
        r: "expire_loop now epoch ls1 = Some (map (\<lambda>a. snd (elem_of ls1 a)) as, ls')" "tl_inv ls'" "distinct as"
          "set as = {a \<in> set (heap_entries ls1). fst (elem_of ls1 a) < now}" "sorted (map (\<lambda>a. fst (elem_of ls1 a)) as)"
          "set (heap_entries ls') = set (heap_entries ls1) - set as" "\<forall>b\<in>set (heap_entries ls'). elem_of ls' b = elem_of ls1 b"
        by blast
      have same: "map (\<lambda>a. g (elem_of ls1 a)) as = map (\<lambda>a. g (elem_of ls a)) as" for g :: "'a tl_elem \<Rightarrow> 'x"
        using r(4) ls1(4) by auto
      have "expire_loop now epoch ls = Some (map (\<lambda>a. snd (elem_of ls a)) (?a # as), ls')"
        using False True t ls0 r(1) e same[of snd]
        by (subst expire_loop.simps) (simp add: timerlist_heap_entry_get_def timerlist_pre_dispatch_def)
      moreover have "set (?a # as) = {a \<in> set (heap_entries ls). fst (elem_of ls a) < now}"
        using r(4) ls1(3,4) a e True by auto
      moreover have "sorted (map (\<lambda>a. fst (elem_of ls a)) (?a # as))"
        using r(4,5) same[of fst] least ls1(3,4) e by auto
      moreover have "distinct (?a # as)" using r(3,4) ls1(3) by simp
      moreover have "set (heap_entries ls') = set (heap_entries ls) - set (?a # as)" using r(6) ls1(3) by auto
      moreover have "\<forall>b\<in>set (heap_entries ls'). elem_of ls' b = elem_of ls b" using r(6,7) ls1(4) by auto
      ultimately show ?thesis using r(2) by blast
    next
      case late: False
      have "expire_loop now epoch ls = Some ([], ls)"
        using False late t by (subst expire_loop.simps) (simp add: timerlist_heap_entry_get_def)
      moreover have "{a \<in> set (heap_entries ls). fst (elem_of ls a) < now} = {}"
        using late least by (metis (mono_tags, lifting) Collect_empty_eq leD le_less_trans not_le_imp_less)
      ultimately show ?thesis using less.prems by (intro exI[of _ "[]"] exI[of _ ls]) simp
    qed
  qed
qed

section \<open>Properties of the timer list\<close>

text \<open>
  C22: Expiring dispatches exactly the timers whose time is past, earliest first, and leaves the
  others: the loop ends without a failed assertion, the dispatched timers are those with an
  expiry time below the current one in the order of their times, each with its own callback
  data, and the list that remains is again a valid heap of the other timers.
\<close>

theorem timerlist_expire_in_order:
  assumes "tl_inv ls" "tl_lock_rc env = 0"
  shows "\<exists>xs ls'. timerlist_expire env now epoch ls = Some (0, map snd xs, ls') \<and> tl_inv ls' \<and>
           sorted (map fst xs) \<and> mset xs = filter_mset (\<lambda>x. fst x < now) (tl_contents ls) \<and>
           tl_contents ls' = filter_mset (\<lambda>x. \<not> fst x < now) (tl_contents ls)"
proof -
  have "size (tl_contents ls) = tl_size ls" by (simp add: tl_contents_def)
  then show ?thesis
    using tpq.drain_ok[OF assms(1), of "tl_size ls" now] assms(2)
    by (auto simp: timerlist_expire_def expire_loop_drain[OF assms(1) order_refl])
qed

definition ex_tl :: "nat timerlist" where
  "ex_tl = \<lparr>heap_entries = [7, 5], allocated = 2,
     timers = [5 \<mapsto> \<lparr>expire_time = 200, is_absolute_timer = False, tm_data = 1, handle_addr = 1, heap_pos = 1\<rparr>,
               7 \<mapsto> \<lparr>expire_time = 100, is_absolute_timer = False, tm_data = 2, handle_addr = 2, heap_pos = 0\<rparr>]\<rparr>"

definition ex_tl_env :: tl_env where
  "ex_tl_env = \<lparr>tl_lock_rc = 0, tl_realloc_errno = 0\<rparr>"

lemma ex_tl_inv: "tl_inv ex_tl"
proof -
  have "(\<forall>i<length [7, 5 :: nat]. P i) \<longleftrightarrow> P 0 \<and> P 1" for P by (auto simp: less_Suc_eq)
  then have "tl_wf ex_tl" "heap_ok (tl_key ex_tl) (heap_entries ex_tl)"
    by (simp_all add: tl_wf_def heap_ok_def ex_tl_def parent_def tl_key_def)
  moreover have "dom (timers ex_tl) = set (heap_entries ex_tl)" by (auto simp: ex_tl_def)
  ultimately show ?thesis by (simp add: tl_inv_def) (simp add: ex_tl_def)
qed

theorem timerlist_expire_in_order_witness:
  "\<exists>xs ls'. timerlist_expire ex_tl_env 150 0 ex_tl = Some (0, map snd xs, ls') \<and> mset xs = {#(100, 2, 2)#} \<and>
     tl_contents ls' = {#(200, 1, 1)#}"
proof -
  have c: "tl_contents ex_tl = {#(100, 2, 2), (200, 1, 1)#}" by (simp add: tl_contents_def ex_tl_def elem_of_def)
  show ?thesis
    using timerlist_expire_in_order[OF ex_tl_inv, of ex_tl_env 150 0, unfolded c] by (auto simp: ex_tl_env_def)
qed

text \<open>
  Adding a timer never fails an assertion and keeps the heap: with working allocations the new
  timer joins the others with the time \<open>now\<close> plus the duration (in 64-bit arithmetic), its
  handle is returned, and the invariant holds again.
\<close>

theorem timerlist_add_duration_adds:
  assumes inv: "tl_inv ls" and fresh: "timers ls a = None" and env: "tl_lock_rc env = 0" "tl_realloc_errno env = 0"
  shows "\<exists>ls'. timerlist_add_duration env (Some a) now ls data dur h = Some (0, Some a, ls') \<and> tl_inv ls' \<and>
           tl_contents ls' = add_mset (now + dur, data, h) (tl_contents ls) \<and> timerlist_expire_time ls' a = Some (now + dur)"
  using timerlist_add_duration_ok[OF assms, of now data dur h] by blast

theorem timerlist_add_duration_adds_witness:
  "\<exists>ls'. timerlist_add_duration ex_tl_env (Some 9) 50 ex_tl 3 25 4 = Some (0, Some 9, ls') \<and> tl_inv ls' \<and>
     timerlist_expire_time ls' 9 = Some 75"
  using timerlist_add_duration_adds[OF ex_tl_inv, of 9 ex_tl_env 50 3 25 4] by (simp add: ex_tl_def ex_tl_env_def) blast

text \<open>
  Deleting any timer of the list, at the root or inside the heap, removes exactly it, clears
  its client's handle, frees it and keeps the heap: the place of the deleted timer is filled by
  the last one, which is sifted up or down as needed.
\<close>

theorem timerlist_del_removes:
  assumes "tl_inv ls" "a \<in> set (heap_entries ls)" "tl_lock_rc env = 0"
  shows "\<exists>ls'. timerlist_del env ls a = Some (0, Some (handle_addr (the (timers ls a))), ls') \<and> tl_inv ls' \<and>
           timers ls' a = None \<and> tl_contents ls' = tl_contents ls - {#elem_of ls a#}"
proof -
  obtain t where t: "timers ls a = Some t" using tl_inv_timer[OF assms(1,2)] by blast
  obtain ls' where ls': "tl_del ls a = Some ls'" "tl_inv ls'" "tl_contents ls' = tl_contents ls - {#elem_of ls a#}"
    using tl_del_ok[OF assms(1,2)] by blast
  then obtain ls1 where "timerlist_heap_delete ls a = Some ls1" "ls' = timerlist_post_dispatch ls1 a"
    by (auto simp: tl_del_def)
  with t ls' assms(3) show ?thesis by (simp add: timerlist_del_def timerlist_post_dispatch_def)
qed

theorem timerlist_del_removes_witness:
  "\<exists>ls'. timerlist_del ex_tl_env ex_tl 7 = Some (0, Some 2, ls') \<and> tl_inv ls' \<and> tl_contents ls' = {#(200, 1, 1)#}"
proof -
  have c: "tl_contents ex_tl = {#(100, 2, 2), (200, 1, 1)#}" "elem_of ex_tl 7 = (100, 2, 2)" "7 \<in> set (heap_entries ex_tl)"
    "handle_addr (the (timers ex_tl 7)) = 2" by (simp_all add: tl_contents_def ex_tl_def elem_of_def)
  show ?thesis using timerlist_del_removes[OF ex_tl_inv c(3), of ex_tl_env, unfolded c] by (auto simp: ex_tl_env_def)
qed

text \<open>
  A duration that does not fit before the end of the 64-bit clock makes a timer that is due at
  once: the sum wraps around, the stored time lies in the past, and the timer is dispatched by
  the next expiry instead of never.
\<close>

theorem timerlist_add_duration_wraps:
  assumes inv: "tl_inv ls" and fresh: "timers ls a = None" and env: "tl_lock_rc env = 0" "tl_realloc_errno env = 0"
    and wrap: "2 ^ 64 \<le> unat now + unat dur"
  shows "\<exists>ls' xs ls''. timerlist_add_duration env (Some a) now ls data dur h = Some (0, Some a, ls') \<and>
           timerlist_expire env now epoch ls' = Some (0, map snd xs, ls'') \<and> (now + dur, data, h) \<in> set xs"
proof -
  obtain ls' where ls': "timerlist_add_duration env (Some a) now ls data dur h = Some (0, Some a, ls')" "tl_inv ls'"
    "tl_contents ls' = add_mset (now + dur, data, h) (tl_contents ls)"
    using timerlist_add_duration_ok[OF inv fresh env, of now data dur h] by blast
  have "unat (now + dur) = unat now + unat dur - 2 ^ 64"
    using wrap unat_u64_less[of now] unat_u64_less[of dur] by (simp add: unat_word_ariths mod_if)
  then have lt: "now + dur < now" using wrap unat_u64_less[of dur] by (simp add: word_less_nat_alt)
  have "size (tl_contents ls') = tl_size ls'" by (simp add: tl_contents_def)
  then obtain xs ls'' where "timerlist_expire env now epoch ls' = Some (0, map snd xs, ls'')"
    "mset xs = filter_mset (\<lambda>x. fst x < now) (tl_contents ls')"
    using tpq.drain_ok[OF ls'(2), of "tl_size ls'" now] env(1)
    by (auto simp: timerlist_expire_def expire_loop_drain[OF ls'(2) order_refl])
  moreover have "(now + dur, data, h) \<in># filter_mset (\<lambda>x. fst x < now) (tl_contents ls')" using lt ls'(3) by simp
  ultimately show ?thesis using ls'(1) by (metis set_mset_mset)
qed

theorem timerlist_add_duration_wraps_witness:
  "\<exists>ls' xs ls''. timerlist_add_duration ex_tl_env (Some 9) 50 ex_tl 3 0xFFFFFFFFFFFFFFFF 4 = Some (0, Some 9, ls') \<and>
     timerlist_expire ex_tl_env 50 0 ls' = Some (0, map snd xs, ls'') \<and> (49 :: u64, 3, 4) \<in> set xs"
proof -
  have e: "(18446744073709551665 :: u64) = 49" by simp
  show ?thesis
    using timerlist_add_duration_wraps[OF ex_tl_inv, where a=9 and env=ex_tl_env and now=50
        and dur="0xFFFFFFFFFFFFFFFF" and data=3 and h=4 and epoch=0] by (simp add: ex_tl_def ex_tl_env_def e)
qed

end
