(* ===== verification/Array.thy ===== *)
theory Array
  imports Prelude
begin

text \<open>
  The growing array of \<^verbatim>\<open>lib/array.c\<close>: an array of bins of sixteen elements, allocated when an
  index in them is first used, so that elements never move. An element pointer is the pair of
  the bin and the place in it; the element's bytes start at \<open>element_size\<close> times the place.
  Element contents are values of any type, with \<open>zero_elem\<close> for the cleared memory of
  \<^verbatim>\<open>calloc\<close>. The results of the allocator are inputs. \<open>bin = None\<close> is the NULL that a failed
  \<^verbatim>\<open>realloc\<close> leaves behind; using it is the outcome \<open>ArrayAbort\<close>, like a failed assertion.
  The locale \<open>indexed_store\<close> is the contract the handle database and the timers rely on.
\<close>

section \<open>State\<close>

record 'e qb_array =
  bin :: "'e list option list option"
  max_elements :: nat
  element_size :: nat
  num_bins :: nat
  autogrow_elements :: nat
  new_bin_cb :: bool
  zero_elem :: 'e

record 'e array_env =
  realloc_ok :: bool
  bin_calloc_ok :: bool
  indeterminate :: "nat \<Rightarrow> 'e list option"

definition MAX_ELEMENTS_PER_BIN :: nat where "MAX_ELEMENTS_PER_BIN = 2 ^ 4"
definition MAX_BINS :: nat where "MAX_BINS = 2 ^ 12"
definition QB_ARRAY_MAX_ELEMENTS :: nat where "QB_ARRAY_MAX_ELEMENTS = 2 ^ 16"

lemmas array_size_defs = MAX_ELEMENTS_PER_BIN_def MAX_BINS_def QB_ARRAY_MAX_ELEMENTS_def

definition BIN_NUM_GET :: "nat \<Rightarrow> nat" where "BIN_NUM_GET idx = drop_bit 4 idx"
definition ELEM_NUM_GET :: "nat \<Rightarrow> nat" where "ELEM_NUM_GET idx = idx AND (MAX_ELEMENTS_PER_BIN - 1)"

section \<open>Growing\<close>

definition grow_bin_array :: "'e array_env \<Rightarrow> 'e qb_array \<Rightarrow> nat \<Rightarrow> int \<times> 'e qb_array" where
  "grow_bin_array env a new_bin_size =
     (if \<not> realloc_ok env then (- ENOMEM, a\<lparr>bin := None\<rparr>)
      else
        let old = (case bin a of Some bs \<Rightarrow> take new_bin_size bs
                   | None \<Rightarrow> map (indeterminate env) [0..<min new_bin_size (num_bins a)])
        in (0, a\<lparr>bin := Some (old @ replicate (new_bin_size - num_bins a) None), num_bins := new_bin_size\<rparr>))"

definition qb_array_create_2 ::
  "'e array_env \<Rightarrow> bool \<Rightarrow> nat \<Rightarrow> nat \<Rightarrow> nat \<Rightarrow> 'e \<Rightarrow> 'e qb_array option" where
  "qb_array_create_2 env calloc_ok max_elems elem_size autogrow zero =
     (if max_elems > QB_ARRAY_MAX_ELEMENTS then None
      else if elem_size < 1 then None
      else if autogrow > MAX_ELEMENTS_PER_BIN then None
      else if \<not> calloc_ok then None
      else
        let a = \<lparr>bin = None, max_elements = max_elems, element_size = elem_size, num_bins = 0,
                 autogrow_elements = autogrow, new_bin_cb = False, zero_elem = zero\<rparr>;
            b = min (max_elems div MAX_ELEMENTS_PER_BIN + 1) MAX_BINS;
            (rc, a) = grow_bin_array env a b
        in if rc < 0 then None else Some a)"

definition qb_array_create :: "'e array_env \<Rightarrow> bool \<Rightarrow> nat \<Rightarrow> nat \<Rightarrow> 'e \<Rightarrow> 'e qb_array option" where
  "qb_array_create env calloc_ok max_elems elem_size zero = qb_array_create_2 env calloc_ok max_elems elem_size 0 zero"

definition array_grow :: "'e array_env \<Rightarrow> 'e qb_array \<Rightarrow> nat \<Rightarrow> int \<times> 'e qb_array" where
  "array_grow env a max_elems =
     (if max_elems > QB_ARRAY_MAX_ELEMENTS then (- EINVAL, a)
      else if max_elems \<le> max_elements a then (0, a)
      else
        let a = a\<lparr>max_elements := max_elems\<rparr>;
            b = min (max_elems div MAX_ELEMENTS_PER_BIN + 1) MAX_BINS
        in if b > num_bins a then grow_bin_array env a (b + 1) else (0, a))"

definition qb_array_grow :: "'e array_env \<Rightarrow> 'e qb_array option \<Rightarrow> nat \<Rightarrow> int \<times> 'e qb_array option" where
  "qb_array_grow env a max_elems =
     (case a of None \<Rightarrow> (- EINVAL, None) | Some a \<Rightarrow> map_prod id Some (array_grow env a max_elems))"

section \<open>Indexing\<close>

text \<open>
  The outcome of an index operation: the return code, the element pointer stored in
  \<^verbatim>\<open>*element_out\<close>, and the bin for which the new-bin callback is called.
\<close>

datatype array_out = ArrayAbort | ArrayRet int "(nat \<times> nat) option" "nat option"

definition array_bin :: "'e qb_array \<Rightarrow> nat \<Rightarrow> 'e list option" where
  "array_bin a b = (case bin a of None \<Rightarrow> None | Some bs \<Rightarrow> if b < length bs then bs ! b else None)"

text \<open>The part of \<^verbatim>\<open>qb_array_index\<close> after the range tests.\<close>

definition array_index_in :: "'e array_env \<Rightarrow> 'e qb_array \<Rightarrow> nat \<Rightarrow> array_out \<times> 'e qb_array" where
  "array_index_in env a idx =
     (let b = BIN_NUM_GET idx; elem = ELEM_NUM_GET idx
      in if \<not> b < MAX_BINS then (ArrayAbort, a)
         else if b < num_bins a \<and> bin a = None then (ArrayAbort, a)
         else if b \<ge> num_bins a \<or> array_bin a b = None then
           let (rc, a) = (if b \<ge> num_bins a then grow_bin_array env a (b + 1) else (0, a))
           in if rc < 0 then (ArrayRet rc None None, a)
              else if array_bin a b = None then
                if \<not> bin_calloc_ok env then (ArrayRet (- ENOMEM) None None, a)
                else (ArrayRet 0 (Some (b, elem)) (if new_bin_cb a then Some b else None),
                      a\<lparr>bin := map_option (\<lambda>bs. bs[b := Some (replicate MAX_ELEMENTS_PER_BIN (zero_elem a))]) (bin a)\<rparr>)
              else (ArrayRet 0 (Some (b, elem)) None, a)
         else (ArrayRet 0 (Some (b, elem)) None, a))"

definition array_index :: "'e array_env \<Rightarrow> 'e qb_array \<Rightarrow> int \<Rightarrow> array_out \<times> 'e qb_array" where
  "array_index env a idx =
     (if idx < 0 then (ArrayRet (- ERANGE) None None, a)
      else if nat idx \<ge> max_elements a then
        if autogrow_elements a = 0 then (ArrayRet (- ERANGE) None None, a)
        else
          let (rc, a) = array_grow env a (nat (idx + 1))
          in if rc \<noteq> 0 then (ArrayRet rc None None, a) else array_index_in env a (nat idx)
      else array_index_in env a (nat idx))"

definition qb_array_index ::
  "'e array_env \<Rightarrow> 'e qb_array option \<Rightarrow> int \<Rightarrow> bool \<Rightarrow> array_out \<times> 'e qb_array option" where
  "qb_array_index env a idx element_out_null =
     (case a of
        None \<Rightarrow> (ArrayRet (- EINVAL) None None, None)
      | Some a \<Rightarrow> if element_out_null then (ArrayRet (- EINVAL) None None, Some a)
                 else map_prod id Some (array_index env a idx))"

definition qb_array_new_bin_cb_set :: "'e qb_array option \<Rightarrow> bool \<Rightarrow> int \<times> 'e qb_array option" where
  "qb_array_new_bin_cb_set a fn =
     (case a of None \<Rightarrow> (- EINVAL, None) | Some a \<Rightarrow> (0, Some (a\<lparr>new_bin_cb := fn\<rparr>)))"

text \<open>The error is returned as a \<^verbatim>\<open>size_t\<close>, and so becomes a huge number.\<close>

definition qb_array_num_bins_get :: "'e qb_array option \<Rightarrow> u64" where
  "qb_array_num_bins_get a = (case a of None \<Rightarrow> word_of_int (- EINVAL) | Some a \<Rightarrow> of_nat (num_bins a))"

definition qb_array_elems_per_bin_get :: "'e qb_array option \<Rightarrow> u64" where
  "qb_array_elems_per_bin_get a = (case a of None \<Rightarrow> word_of_int (- EINVAL) | Some a \<Rightarrow> of_nat MAX_ELEMENTS_PER_BIN)"

text \<open>
  Freeing: the bins that are handed to \<^verbatim>\<open>free\<close>, in order. A NULL bin array with a positive count
  is dereferenced.
\<close>

definition qb_array_free :: "'e qb_array \<Rightarrow> nat list option" where
  "qb_array_free a =
     (if num_bins a \<noteq> 0 \<and> bin a = None then None
      else Some (filter (\<lambda>b. array_bin a b \<noteq> None) [0..<num_bins a]))"

section \<open>Elements\<close>

text \<open>Access through an element pointer, as the clients do it after an index operation.\<close>

definition array_get :: "'e qb_array \<Rightarrow> nat \<times> nat \<Rightarrow> 'e" where
  "array_get a p = (case array_bin a (fst p) of None \<Rightarrow> zero_elem a | Some es \<Rightarrow> es ! snd p)"

definition array_set :: "'e qb_array \<Rightarrow> nat \<times> nat \<Rightarrow> 'e \<Rightarrow> 'e qb_array" where
  "array_set a p v = a\<lparr>bin := map_option (\<lambda>bs. bs[fst p := map_option (\<lambda>es. es[snd p := v]) (bs ! fst p)]) (bin a)\<rparr>"

definition array_ptr :: "nat \<Rightarrow> nat \<times> nat" where
  "array_ptr idx = (idx div 16, idx mod 16)"

definition array_elem :: "'e qb_array \<Rightarrow> nat \<Rightarrow> 'e" where
  "array_elem a idx = array_get a (array_ptr idx)"

text \<open>Whether the bin of an index is allocated.\<close>

definition array_has :: "'e qb_array \<Rightarrow> nat \<Rightarrow> bool" where
  "array_has a idx \<longleftrightarrow> array_bin a (idx div 16) \<noteq> None"

fun bin_ok :: "'e list option \<Rightarrow> bool" where
  "bin_ok None = True"
| "bin_ok (Some es) = (length es = 16)"

definition array_inv :: "'e qb_array \<Rightarrow> bool" where
  "array_inv a \<longleftrightarrow>
     (case bin a of None \<Rightarrow> False | Some bs \<Rightarrow> length bs = num_bins a \<and> list_all bin_ok bs) \<and>
     max_elements a \<le> QB_ARRAY_MAX_ELEMENTS \<and> 1 \<le> element_size a \<and> autogrow_elements a \<le> 16"

definition array_env_ok :: "'e array_env \<Rightarrow> bool" where
  "array_env_ok env \<longleftrightarrow> realloc_ok env \<and> bin_calloc_ok env"

lemma array_inv_iff:
  "array_inv a \<longleftrightarrow> (\<exists>bs. bin a = Some bs \<and> length bs = num_bins a \<and> list_all bin_ok bs) \<and>
     max_elements a \<le> QB_ARRAY_MAX_ELEMENTS \<and> 1 \<le> element_size a \<and> autogrow_elements a \<le> 16"
  by (auto simp: array_inv_def split: option.splits)

lemma elem_num_mod: "ELEM_NUM_GET idx = idx mod 16"
proof -
  have "ELEM_NUM_GET idx = idx AND mask 4" by (simp add: ELEM_NUM_GET_def MAX_ELEMENTS_PER_BIN_def mask_eq_exp_minus_1)
  then show ?thesis by (simp add: take_bit_eq_mod flip: take_bit_eq_mask)
qed

lemma bin_num_div: "BIN_NUM_GET idx = idx div 16"
  by (simp add: BIN_NUM_GET_def drop_bit_eq_div)

lemma array_ptr_inj: "array_ptr i = array_ptr j \<longleftrightarrow> i = j"
  by (auto simp: array_ptr_def) (metis div_mult_mod_eq)

section \<open>Growing and indexing keep the elements\<close>

lemma grow_bin_array_ok:
  assumes "array_inv a" "realloc_ok env" "num_bins a \<le> n"
  shows "\<exists>a'. grow_bin_array env a n = (0, a') \<and> array_inv a' \<and> array_bin a' = array_bin a \<and> num_bins a' = n \<and>
           max_elements a' = max_elements a \<and> zero_elem a' = zero_elem a \<and> new_bin_cb a' = new_bin_cb a \<and>
           element_size a' = element_size a \<and> autogrow_elements a' = autogrow_elements a"
proof -
  obtain bs where bs: "bin a = Some bs" "length bs = num_bins a" "list_all bin_ok bs"
    using assms(1) by (auto simp: array_inv_iff)
  have tk: "take n bs = bs" using bs assms(3) by simp
  have "array_bin (snd (grow_bin_array env a n)) b = array_bin a b" for b
    using assms(2) bs tk by (auto simp: grow_bin_array_def array_bin_def Let_def nth_append)
  moreover have "array_inv (snd (grow_bin_array env a n))"
    using assms bs tk by (auto simp: grow_bin_array_def array_inv_iff Let_def list_all_iff)
  ultimately show ?thesis
    using assms(2) by (auto simp: grow_bin_array_def Let_def)
qed

text \<open>What an operation that allocates may change: nothing the elements show.\<close>

definition array_same :: "'e qb_array \<Rightarrow> 'e qb_array \<Rightarrow> bool" where
  "array_same a a' \<longleftrightarrow>
     element_size a' = element_size a \<and> autogrow_elements a' = autogrow_elements a \<and>
     new_bin_cb a' = new_bin_cb a \<and> zero_elem a' = zero_elem a \<and> max_elements a \<le> max_elements a' \<and>
     (\<forall>i. array_elem a' i = array_elem a i) \<and> (\<forall>i. array_has a i \<longrightarrow> array_has a' i)"

lemma array_same_refl [simp]: "array_same a a"
  by (simp add: array_same_def)

lemma array_same_trans: "array_same a b \<Longrightarrow> array_same b c \<Longrightarrow> array_same a c"
  by (auto simp: array_same_def)

lemma array_grow_ok:
  assumes "array_inv a" "realloc_ok env" "n \<le> QB_ARRAY_MAX_ELEMENTS"
  shows "\<exists>a'. array_grow env a n = (0, a') \<and> array_inv a' \<and> array_same a a' \<and>
           max_elements a' = max n (max_elements a)"
proof (cases "n \<le> max_elements a")
  case True
  with assms show ?thesis by (auto simp: array_grow_def max_def)
next
  case False
  let ?a = "a\<lparr>max_elements := n\<rparr>" and ?b = "min (n div MAX_ELEMENTS_PER_BIN + 1) MAX_BINS"
  have inv: "array_inv ?a" using assms by (auto simp: array_inv_iff)
  have same: "array_same a ?a" using False
    by (auto simp: array_same_def array_elem_def array_get_def array_bin_def array_has_def split: option.splits)
  show ?thesis
  proof (cases "num_bins a < ?b")
    case True
    have "num_bins ?a \<le> ?b + 1" using True by (simp add: less_imp_le less_SucI)
    then obtain a' where a': "grow_bin_array env ?a (?b + 1) = (0, a')" "array_inv a'" "array_bin a' = array_bin ?a"
      "max_elements a' = n" "zero_elem a' = zero_elem a" "new_bin_cb a' = new_bin_cb a"
      "element_size a' = element_size a" "autogrow_elements a' = autogrow_elements a"
      using grow_bin_array_ok[OF inv assms(2), of "?b + 1"] by auto
    have "array_same ?a a'" using a'
      by (auto simp: array_same_def array_elem_def array_get_def array_has_def split: option.splits)
    then show ?thesis using True False a' assms(3) array_same_trans[OF same]
      by (auto simp: array_grow_def Let_def max_def)
  next
    case no: False
    with False assms(3) inv same show ?thesis by (auto simp: array_grow_def Let_def max_def)
  qed
qed

lemma array_index_in_ok:
  assumes inv: "array_inv a" and env: "array_env_ok env" and idx: "idx < QB_ARRAY_MAX_ELEMENTS"
  shows "\<exists>a' cb. array_index_in env a idx = (ArrayRet 0 (Some (array_ptr idx)) cb, a') \<and> array_inv a' \<and>
           array_same a a' \<and> array_has a' idx \<and> max_elements a' = max_elements a \<and>
           (cb \<noteq> None \<longrightarrow> \<not> array_has a idx)"
proof -
  let ?b = "idx div 16"
  have b: "?b < MAX_BINS" using idx by (simp add: array_size_defs div_less_iff_less_mult)
  have ptr: "(BIN_NUM_GET idx, ELEM_NUM_GET idx) = array_ptr idx" by (simp add: array_ptr_def bin_num_div elem_num_mod)
  have ok: "realloc_ok env" "bin_calloc_ok env" using env by (auto simp: array_env_ok_def)
  obtain a1 where a1: "(if ?b \<ge> num_bins a then grow_bin_array env a (?b + 1) else (0, a)) = (0, a1)"
    "array_inv a1" "array_bin a1 = array_bin a" "?b < num_bins a1" "max_elements a1 = max_elements a"
    "zero_elem a1 = zero_elem a" "new_bin_cb a1 = new_bin_cb a" "element_size a1 = element_size a"
    "autogrow_elements a1 = autogrow_elements a"
    using grow_bin_array_ok[OF inv ok(1), of "?b + 1"] inv by (cases "?b \<ge> num_bins a") auto
  obtain bs where bs: "bin a1 = Some bs" "length bs = num_bins a1" "list_all bin_ok bs"
    using a1(2) by (auto simp: array_inv_iff)
  have some: "bin a \<noteq> None" using inv by (auto simp: array_inv_iff)
  show ?thesis
  proof (cases "array_bin a ?b")
    case (Some es)
    then have "?b < num_bins a" using inv by (auto simp: array_bin_def array_inv_iff split: if_splits)
    with Some b some inv have "array_index_in env a idx = (ArrayRet 0 (Some (array_ptr idx)) None, a)"
      by (simp add: array_index_in_def Let_def bin_num_div flip: ptr)
    with Some inv show ?thesis by (auto simp: array_has_def)
  next
    case None
    let ?a = "a1\<lparr>bin := Some (bs[?b := Some (replicate 16 (zero_elem a))])\<rparr>"
    have "array_index_in env a idx = (ArrayRet 0 (Some (array_ptr idx)) (if new_bin_cb a then Some ?b else None), ?a)"
      using None b some a1(1,3,6,7) ok bs(1)
      by (simp add: array_index_in_def Let_def bin_num_div MAX_ELEMENTS_PER_BIN_def flip: ptr)
    moreover have "array_inv ?a"
      using a1(2) bs by (auto simp: array_inv_iff list_all_iff dest!: set_update_subset_insert[THEN subsetD])
    moreover have eb: "array_bin ?a c = (if c = ?b then Some (replicate 16 (zero_elem a)) else array_bin a c)" for c
      using bs a1(3,4) by (auto simp: array_bin_def fun_eq_iff split: if_splits)
    moreover have "array_elem ?a i = array_elem a i" for i
      using None a1(6) by (simp add: array_elem_def array_get_def eb array_ptr_def split: option.splits)
    ultimately show ?thesis
      using a1(5-9) None by (auto simp: array_same_def array_has_def)
  qed
qed

section \<open>Reading and writing elements\<close>

lemma array_set_ok:
  assumes inv: "array_inv a" and has: "array_has a i"
  shows "array_inv (array_set a (array_ptr i) v)"
    and "array_elem (array_set a (array_ptr i) v) j = (if j = i then v else array_elem a j)"
    and "array_has (array_set a (array_ptr i) v) j = array_has a j"
    and "max_elements (array_set a (array_ptr i) v) = max_elements a"
    and "autogrow_elements (array_set a (array_ptr i) v) = autogrow_elements a"
proof -
  let ?b = "i div 16"
  obtain bs where bs: "bin a = Some bs" "length bs = num_bins a" "list_all bin_ok bs"
    using inv by (auto simp: array_inv_iff)
  obtain es where es: "?b < length bs" "bs ! ?b = Some es"
    using has bs by (auto simp: array_has_def array_bin_def split: if_splits)
  have len: "length es = 16" using bs(3) es by (auto simp: list_all_iff dest!: nth_mem)
  have set: "array_set a (array_ptr i) v = a\<lparr>bin := Some (bs[?b := Some (es[i mod 16 := v])])\<rparr>"
    using bs es by (simp add: array_set_def array_ptr_def)
  show "array_inv (array_set a (array_ptr i) v)"
    using inv bs len unfolding set
    by (auto simp: array_inv_iff list_all_iff dest!: set_update_subset_insert[THEN subsetD])
  have eb: "array_bin (array_set a (array_ptr i) v) c = (if c = ?b then Some (es[i mod 16 := v]) else array_bin a c)" for c
    using bs es by (simp add: set array_bin_def)
  have ab: "array_bin a ?b = Some es" using bs es by (simp add: array_bin_def)
  have z: "zero_elem (array_set a (array_ptr i) v) = zero_elem a" by (simp add: array_set_def)
  have "j div 16 = i div 16 \<Longrightarrow> j mod 16 = i mod 16 \<Longrightarrow> j = i" by (metis div_mult_mod_eq)
  then show "array_elem (array_set a (array_ptr i) v) j = (if j = i then v else array_elem a j)"
    using len ab unfolding array_elem_def array_get_def eb z
    by (auto simp: array_ptr_def nth_list_update split: option.splits)
  show "array_has (array_set a (array_ptr i) v) j = array_has a j"
    using ab by (simp add: array_has_def eb)
qed (simp_all add: array_set_def)

section \<open>The contract of an indexed store\<close>

text \<open>
  What the clients of the array rely on: indexing below the limit succeeds and changes no
  element, a write changes exactly the element it addresses, growing raises the limit only.
  \<open>touch\<close> is an index operation on index \<open>i\<close>; it gives the pointer to use and the new store.
\<close>

locale indexed_store =
  fixes inv :: "'s \<Rightarrow> bool"
    and limit :: "'s \<Rightarrow> nat"
    and elem :: "'s \<Rightarrow> nat \<Rightarrow> 'e"
    and has :: "'s \<Rightarrow> nat \<Rightarrow> bool"
    and touch :: "'s \<Rightarrow> nat \<Rightarrow> ('p \<times> 's) option"
    and load :: "'s \<Rightarrow> 'p \<Rightarrow> 'e"
    and store :: "'s \<Rightarrow> 'p \<Rightarrow> 'e \<Rightarrow> 's"
    and ptr :: "nat \<Rightarrow> 'p"
  assumes touch_ok: "inv s \<Longrightarrow> i < limit s \<Longrightarrow>
      \<exists>s'. touch s i = Some (ptr i, s') \<and> inv s' \<and> has s' i \<and> limit s' = limit s \<and>
        (\<forall>j. elem s' j = elem s j) \<and> (\<forall>j. has s j \<longrightarrow> has s' j)"
    and load_elem: "inv s \<Longrightarrow> load s (ptr i) = elem s i"
    and store_inv: "inv s \<Longrightarrow> has s i \<Longrightarrow> inv (store s (ptr i) v)"
    and store_elem: "inv s \<Longrightarrow> has s i \<Longrightarrow> elem (store s (ptr i) v) j = (if j = i then v else elem s j)"
    and store_has: "inv s \<Longrightarrow> has s i \<Longrightarrow> has (store s (ptr i) v) j = has s j"
    and store_limit: "limit (store s (ptr i) v) = limit s"
begin

definition scan :: "('e \<Rightarrow> bool) \<Rightarrow> nat \<Rightarrow> nat \<Rightarrow> 's \<Rightarrow> (nat option \<times> 's) option" where
  "scan P i k s = rec_nat (\<lambda>i s. Some (None, s))
     (\<lambda>k rest i s. case touch s i of
        None \<Rightarrow> rest (Suc i) s
      | Some (p, s') \<Rightarrow> if P (load s' p) then Some (Some i, s') else rest (Suc i) s') k i s"

lemma scan_finds_first:
  assumes "inv s" "i + k \<le> limit s"
  shows "\<exists>s'. scan P i k s = Some (find (\<lambda>j. P (elem s j)) [i..<i + k], s') \<and> inv s' \<and> limit s' = limit s \<and>
           (\<forall>j. elem s' j = elem s j) \<and> (\<forall>j. has s j \<longrightarrow> has s' j) \<and>
           (\<forall>j. find (\<lambda>j. P (elem s j)) [i..<i + k] = Some j \<longrightarrow> has s' j)"
  using assms
proof (induction k arbitrary: i s)
  case 0
  then show ?case by (simp add: scan_def)
next
  case (Suc k)
  obtain s1 where s1: "touch s i = Some (ptr i, s1)" "inv s1" "has s1 i" "limit s1 = limit s"
    "\<forall>j. elem s1 j = elem s j" "\<forall>j. has s j \<longrightarrow> has s1 j"
    using touch_ok[of s i] Suc.prems by auto
  have ld: "load s1 (ptr i) = elem s i" using load_elem[OF s1(2)] s1(5) by simp
  have "[i..<i + Suc k] = i # [Suc i..<Suc i + k]" by (simp add: upt_rec)
  then have upt: "find Q [i..<i + Suc k] = (if Q i then Some i else find Q [Suc i..<Suc i + k])" for Q
    by (simp only: find.simps)
  show ?case
  proof (cases "P (elem s i)")
    case True
    with s1 ld show ?thesis unfolding upt by (auto simp: scan_def)
  next
    case False
    have "scan P i (Suc k) s = scan P (Suc i) k s1" using s1(1) ld False by (simp add: scan_def)
    moreover from Suc.IH[of s1 "Suc i"] Suc.prems s1
    obtain s' where "scan P (Suc i) k s1 = Some (find (\<lambda>j. P (elem s j)) [Suc i..<Suc i + k], s')" "inv s'"
      "limit s' = limit s" "\<forall>j. elem s' j = elem s j" "\<forall>j. has s1 j \<longrightarrow> has s' j"
      "\<forall>j. find (\<lambda>j. P (elem s j)) [Suc i..<Suc i + k] = Some j \<longrightarrow> has s' j" by auto
    ultimately show ?thesis using False s1(6) unfolding upt by auto
  qed
qed

lemma touch_store:
  assumes "inv s" "i < limit s" "touch s i = Some (p, s')"
  shows "inv (store s' p v) \<and> limit (store s' p v) = limit s \<and> has (store s' p v) i \<and>
         (\<forall>j. elem (store s' p v) j = (if j = i then v else elem s j))"
  using touch_ok[OF assms(1,2)] assms(3) store_inv store_elem store_has store_limit by auto

end

text \<open>The clients' view of a successful index operation of the array.\<close>

definition array_touch :: "'e array_env \<Rightarrow> 'e qb_array \<Rightarrow> nat \<Rightarrow> ((nat \<times> nat) \<times> 'e qb_array) option" where
  "array_touch env a i =
     (case array_index env a (int i) of
        (ArrayRet rc (Some p) cb, a') \<Rightarrow> if rc = 0 then Some (p, a') else None
      | _ \<Rightarrow> None)"

definition working_array :: "'e array_env" where
  "working_array = \<lparr>realloc_ok = True, bin_calloc_ok = True, indeterminate = (\<lambda>_. None)\<rparr>"

lemma working_array_ok [simp]: "array_env_ok working_array"
  by (simp add: working_array_def array_env_ok_def)

lemma array_index_below:
  assumes "array_inv a" "array_env_ok env" "i < max_elements a"
  shows "\<exists>a' cb. array_index env a (int i) = (ArrayRet 0 (Some (array_ptr i)) cb, a') \<and> array_inv a' \<and>
           array_same a a' \<and> array_has a' i \<and> max_elements a' = max_elements a \<and> (cb \<noteq> None \<longrightarrow> \<not> array_has a i)"
proof -
  have "i < QB_ARRAY_MAX_ELEMENTS" using assms(1,3) by (auto simp: array_inv_iff)
  with array_index_in_ok[OF assms(1,2)] assms(3) show ?thesis by (simp add: array_index_def)
qed

lemma array_index_in_range:
  assumes inv: "array_inv a" and env: "array_env_ok env"
    and idx: "0 \<le> idx" "idx < int (max_elements a) \<or> autogrow_elements a \<noteq> 0 \<and> idx < 65536"
  shows "\<exists>cb a'. array_index env a idx = (ArrayRet 0 (Some (array_ptr (nat idx))) cb, a') \<and> array_inv a' \<and>
           array_same a a' \<and> array_has a' (nat idx) \<and> idx < int (max_elements a')"
proof (cases "idx < int (max_elements a)")
  case True
  then have "nat idx < max_elements a" using idx by linarith
  with array_index_below[OF inv env, of "nat idx"] idx True show ?thesis by auto
next
  case False
  with idx have n: "nat (idx + 1) \<le> QB_ARRAY_MAX_ELEMENTS" "nat idx < QB_ARRAY_MAX_ELEMENTS" "autogrow_elements a \<noteq> 0"
    by (auto simp: QB_ARRAY_MAX_ELEMENTS_def)
  obtain a1 where a1: "array_grow env a (nat (idx + 1)) = (0, a1)" "array_inv a1" "array_same a a1"
    "max_elements a1 = max (nat (idx + 1)) (max_elements a)"
    using array_grow_ok[OF inv _ n(1), of env] env by (auto simp: array_env_ok_def)
  obtain a' cb where "array_index_in env a1 (nat idx) = (ArrayRet 0 (Some (array_ptr (nat idx))) cb, a')"
    "array_inv a'" "array_same a1 a'" "array_has a' (nat idx)" "max_elements a' = max_elements a1"
    using array_index_in_ok[OF a1(2) env n(2)] by blast
  with False idx n(3) a1 show ?thesis
    by (auto simp: array_index_def intro: array_same_trans)
qed

lemma array_index_any:
  assumes "array_inv a" "array_env_ok env"
  shows "\<exists>rc p cb a'. array_index env a idx = (ArrayRet rc p cb, a') \<and> array_inv a' \<and> array_same a a' \<and>
           (rc = 0 \<longrightarrow> 0 \<le> idx \<and> p = Some (array_ptr (nat idx)) \<and> array_has a' (nat idx))"
proof (cases "0 \<le> idx \<and> (idx < int (max_elements a) \<or> autogrow_elements a \<noteq> 0 \<and> idx < 65536)")
  case True
  then show ?thesis using array_index_in_range[OF assms, of idx] by blast
next
  case False
  then show ?thesis using assms(1)
    by (auto simp: array_index_def array_grow_def QB_ARRAY_MAX_ELEMENTS_def)
qed

interpretation arr: indexed_store array_inv max_elements array_elem array_has "array_touch working_array"
  array_get array_set array_ptr
proof
  fix a :: "'a qb_array" and i
  assume "array_inv a" "i < max_elements a"
  from array_index_below[OF this(1) working_array_ok this(2)]
  show "\<exists>a'. array_touch working_array a i = Some (array_ptr i, a') \<and> array_inv a' \<and> array_has a' i \<and>
      max_elements a' = max_elements a \<and> (\<forall>j. array_elem a' j = array_elem a j) \<and>
      (\<forall>j. array_has a j \<longrightarrow> array_has a' j)"
    by (auto simp: array_touch_def array_same_def)
next
  show "max_elements (array_set a (array_ptr i) v) = max_elements a" for a :: "'a qb_array" and i v
    by (simp add: array_set_def)
qed (simp_all add: array_set_ok(1-3), simp add: array_elem_def)

section \<open>The search loop\<close>

text \<open>
  The loop with which the handle database and the timers look for an entry they can use:
  index every place from \<open>i\<close> on and stop at the first whose element satisfies \<open>P\<close>; a place
  that cannot be indexed is skipped. \<open>None\<close> is an abort in the array.
\<close>

fun array_find ::
  "'e array_env \<Rightarrow> ('e \<Rightarrow> bool) \<Rightarrow> nat \<Rightarrow> nat \<Rightarrow> 'e qb_array \<Rightarrow> (nat option \<times> 'e qb_array) option" where
  "array_find env P i 0 a = Some (None, a)"
| "array_find env P i (Suc k) a =
     (case array_index env a (int i) of
        (ArrayAbort, a') \<Rightarrow> None
      | (ArrayRet rc p cb, a') \<Rightarrow>
          if rc = 0 \<and> P (array_get a' (the p)) then Some (Some i, a') else array_find env P (Suc i) k a')"

lemma array_find_scan:
  "array_inv a \<Longrightarrow> i + k \<le> max_elements a \<Longrightarrow> array_find working_array P i k a = arr.scan P i k a"
proof (induction k arbitrary: i a)
  case 0
  then show ?case by (simp add: arr.scan_def)
next
  case (Suc k)
  obtain a' cb where a': "array_index working_array a (int i) = (ArrayRet 0 (Some (array_ptr i)) cb, a')"
    "array_inv a'" "max_elements a' = max_elements a"
    using array_index_below[OF Suc.prems(1) working_array_ok, of i] Suc.prems(2) by auto
  then have t: "array_touch working_array a i = Some (array_ptr i, a')" by (simp add: array_touch_def)
  have "arr.scan P i (Suc k) a =
      (if P (array_get a' (array_ptr i)) then Some (Some i, a') else arr.scan P (Suc i) k a')"
    using t by (simp add: arr.scan_def)
  with Suc.IH[OF a'(2), of "Suc i"] Suc.prems(2) a' show ?case by simp
qed

lemma array_find_first:
  assumes "array_inv a" "i + k \<le> max_elements a"
  shows "\<exists>a'. array_find working_array P i k a = Some (find (\<lambda>j. P (array_elem a j)) [i..<i + k], a') \<and>
           array_inv a' \<and> max_elements a' = max_elements a \<and> (\<forall>j. array_elem a' j = array_elem a j) \<and>
           (\<forall>j. array_has a j \<longrightarrow> array_has a' j) \<and>
           (\<forall>j. find (\<lambda>j. P (array_elem a j)) [i..<i + k] = Some j \<longrightarrow> array_has a' j)"
  using arr.scan_finds_first[OF assms] by (simp only: array_find_scan[OF assms])

section \<open>Properties of the array\<close>


definition ex_array :: "nat \<Rightarrow> nat qb_array" where
  "ex_array grow = \<lparr>bin = Some [None], max_elements = 5, element_size = 8, num_bins = 1,
     autogrow_elements = grow, new_bin_cb = False, zero_elem = 0\<rparr>"

lemma ex_array_inv: "grow \<le> 16 \<Longrightarrow> array_inv (ex_array grow)"
  by (simp add: array_inv_def ex_array_def QB_ARRAY_MAX_ELEMENTS_def)


text \<open>
  Elements are separate objects: the pointers of different indices differ, the bytes of
  different elements of a bin do not overlap, and every element lies within the sixteen
  elements that \<^verbatim>\<open>calloc\<close> allocated for its bin. Writing one element changes no other.
\<close>

theorem array_elements_separate:
  assumes "array_inv a" "array_has a i"
  shows "array_elem (array_set a (array_ptr i) v) j = (if j = i then v else array_elem a j) \<and>
         (array_ptr i = array_ptr j \<longleftrightarrow> i = j) \<and>
         element_size a * snd (array_ptr i) + element_size a \<le> element_size a * MAX_ELEMENTS_PER_BIN \<and>
         (fst (array_ptr i) = fst (array_ptr j) \<and> i < j \<longrightarrow>
            element_size a * snd (array_ptr i) + element_size a \<le> element_size a * snd (array_ptr j))"
proof -
  have "element_size a * (i mod 16) + element_size a = element_size a * Suc (i mod 16)" by simp
  also have "\<dots> \<le> element_size a * 16" by (intro mult_le_mono2) (simp add: Suc_leI)
  finally have "element_size a * snd (array_ptr i) + element_size a \<le> element_size a * MAX_ELEMENTS_PER_BIN"
    by (simp add: array_ptr_def MAX_ELEMENTS_PER_BIN_def)
  moreover have "element_size a * snd (array_ptr i) + element_size a \<le> element_size a * snd (array_ptr j)"
    if "fst (array_ptr i) = fst (array_ptr j)" "i < j"
  proof -
    have "i mod 16 < j mod 16"
      using that by (simp add: array_ptr_def) (metis add_less_cancel_left div_mult_mod_eq)
    then have "element_size a * Suc (i mod 16) \<le> element_size a * (j mod 16)" by (intro mult_le_mono2) simp
    then show ?thesis by (simp add: array_ptr_def)
  qed
  ultimately show ?thesis using array_set_ok(2)[OF assms] array_ptr_inj by blast
qed

theorem array_elements_separate_witness:
  "array_elem (array_set ((ex_array 0)\<lparr>bin := Some [Some (replicate 16 0)]\<rparr>) (array_ptr 2) 7) 3 = 0"
  using array_elements_separate[of "(ex_array 0)\<lparr>bin := Some [Some (replicate 16 0)]\<rparr>" 2 7 3]
  by (simp add: array_inv_def ex_array_def QB_ARRAY_MAX_ELEMENTS_def array_has_def array_bin_def
      array_elem_def array_get_def array_ptr_def)

text \<open>
  A failed \<^verbatim>\<open>realloc\<close> destroys the array: the bin array is lost, the number of bins is not
  reset, and the next index operation on an existing element dereferences NULL.
\<close>

theorem array_grow_failure_aborts:
  assumes "array_inv a" "\<not> realloc_ok env" "max_elements a < n" "n \<le> QB_ARRAY_MAX_ELEMENTS"
    and "num_bins a \<le> n div 16" "num_bins a < MAX_BINS" "i div 16 < num_bins a" "i < max_elements a"
  shows "\<exists>a'. qb_array_grow env (Some a) n = (- ENOMEM, Some a') \<and>
           fst (qb_array_index env' (Some a') (int i) False) = ArrayAbort"
proof -
  let ?a = "a\<lparr>max_elements := n, bin := None\<rparr>"
  have "qb_array_grow env (Some a) n = (- ENOMEM, Some ?a)"
    using assms(2-6) by (simp add: qb_array_grow_def array_grow_def grow_bin_array_def Let_def MAX_ELEMENTS_PER_BIN_def)
  moreover have "fst (qb_array_index env' (Some ?a) (int i) False) = ArrayAbort"
    using assms(3,6,7,8) by (simp add: qb_array_index_def array_index_def array_index_in_def bin_num_div Let_def)
  ultimately show ?thesis by blast
qed

theorem array_grow_failure_aborts_witness:
  "\<exists>a'. qb_array_grow (working_array\<lparr>realloc_ok := False\<rparr>) (Some (ex_array 0)) 100 = (- ENOMEM, Some a') \<and>
     fst (qb_array_index working_array (Some a') (int 3) False) = ArrayAbort"
  by (rule array_grow_failure_aborts) (simp_all add: ex_array_inv ex_array_def array_size_defs working_array_def
      ex_array_inv[of 0, unfolded ex_array_def, simplified])

end
