(* ===== verification/Hdb.thy ===== *)
theory Hdb
  imports Array
begin

text \<open>
  The handle database of \<^verbatim>\<open>lib/hdb.c\<close>: reference-counted objects behind 64-bit handles. The low
  half of a handle is the place of its entry in an array, the high half a random check value
  that tells a stale handle from the one that uses the place now. \<open>None\<close> as the outcome of an
  operation is an abort in the array; the instance that an operation destroys (the argument
  of the destructor, freed afterwards) is part of its result.
\<close>

section \<open>State\<close>

datatype hdb_handle_state = STATE_EMPTY | STATE_PENDINGREMOVAL | STATE_ACTIVE

record 'i qb_hdb_handle =
  state :: hdb_handle_state
  instance_of :: "'i option"
  check :: int
  hdl_ref_count :: int

record 'i qb_hdb =
  handle_count :: nat
  handles :: "'i qb_hdb_handle qb_array option"
  iterator :: nat
  first_run :: bool

text \<open>The allocator and the random numbers: \<open>draw k\<close> is the \<open>k\<close>-th value of \<^verbatim>\<open>random\<close>.\<close>

record 'i hdb_env =
  arr_env :: "'i qb_hdb_handle array_env"
  arr_calloc_ok :: bool
  malloc_instance :: "'i option"
  draw :: "nat \<Rightarrow> int"

definition zero_handle :: "'i qb_hdb_handle" where
  "zero_handle = \<lparr>state = STATE_EMPTY, instance_of = None, check = 0, hdl_ref_count = 0\<rparr>"

definition qb_hdb_create_first_run :: "'i hdb_env \<Rightarrow> 'i qb_hdb \<Rightarrow> 'i qb_hdb" where
  "qb_hdb_create_first_run env h =
     (if first_run h
      then h\<lparr>first_run := False, handles := qb_array_create (arr_env env) (arr_calloc_ok env) 32 24 zero_handle\<rparr>
      else h)"

definition qb_hdb_create :: "'i hdb_env \<Rightarrow> 'i qb_hdb" where
  "qb_hdb_create env =
     qb_hdb_create_first_run env \<lparr>handle_count = 0, handles = None, iterator = 0, first_run = True\<rparr>"

section \<open>Handles\<close>

definition handle_check :: "u64 \<Rightarrow> int" where
  "handle_check handle_in = sint (ucast (drop_bit 32 handle_in) :: u32)"

definition handle_index :: "u64 \<Rightarrow> int" where
  "handle_index handle_in = sint (ucast (handle_in AND 0xFFFFFFFF) :: u32)"

definition make_handle :: "int \<Rightarrow> int \<Rightarrow> u64" where
  "make_handle chk handle = push_bit 32 (word_of_int chk) OR word_of_int handle"

definition qb_hdb_base_convert :: "u64 \<Rightarrow> u32" where
  "qb_hdb_base_convert handle = ucast (handle AND 0xFFFFFFFF)"

definition qb_hdb_nocheck_convert :: "u32 \<Rightarrow> u64" where
  "qb_hdb_nocheck_convert handle = push_bit 32 0xFFFFFFFF OR ucast handle"

text \<open>The check value: the first positive one of 200 draws, or the last draw.\<close>

definition pick_check :: "(nat \<Rightarrow> int) \<Rightarrow> int" where
  "pick_check rnd = (case find (\<lambda>c. c > 0) (map rnd [0..<200]) of Some c \<Rightarrow> c | None \<Rightarrow> rnd 199)"

section \<open>Operations\<close>

definition hdb_index :: "'i hdb_env \<Rightarrow> 'i qb_hdb \<Rightarrow> int \<Rightarrow> (int \<times> (nat \<times> nat) option \<times> 'i qb_hdb) option" where
  "hdb_index env h i =
     (case qb_array_index (arr_env env) (handles h) i False of
        (ArrayAbort, a) \<Rightarrow> None
      | (ArrayRet rc p cb, a) \<Rightarrow> Some (rc, p, h\<lparr>handles := a\<rparr>))"

definition hdb_entry :: "'i qb_hdb \<Rightarrow> nat \<times> nat \<Rightarrow> 'i qb_hdb_handle" where
  "hdb_entry h p = array_get (the (handles h)) p"

definition hdb_set :: "'i qb_hdb \<Rightarrow> nat \<times> nat \<Rightarrow> 'i qb_hdb_handle \<Rightarrow> 'i qb_hdb" where
  "hdb_set h p e = h\<lparr>handles := map_option (\<lambda>a. array_set a p e) (handles h)\<rparr>"

text \<open>The search for an entry that was used before and is empty now.\<close>

definition hdb_find_empty :: "'i hdb_env \<Rightarrow> 'i qb_hdb \<Rightarrow> (nat option \<times> 'i qb_hdb) option" where
  "hdb_find_empty env h =
     (case handles h of
        None \<Rightarrow> Some (None, h)
      | Some a \<Rightarrow> map_option (\<lambda>(r, a'). (r, h\<lparr>handles := Some a'\<rparr>))
          (array_find (arr_env env) (\<lambda>e. state e = STATE_EMPTY) 0 (handle_count h) a))"

text \<open>The last part of \<^verbatim>\<open>qb_hdb_handle_create\<close>, when the entry at index \<open>i\<close> is to be used.\<close>

definition hdb_fill :: "'i hdb_env \<Rightarrow> 'i qb_hdb \<Rightarrow> nat \<Rightarrow> nat \<times> nat \<Rightarrow> int \<times> u64 option \<times> 'i qb_hdb" where
  "hdb_fill env h i p =
     (case malloc_instance env of
        None \<Rightarrow> (- ENOMEM, None, h)
      | Some x \<Rightarrow>
          let chk = pick_check (draw env)
          in (0, Some (make_handle chk (int i)),
              hdb_set h p \<lparr>state = STATE_ACTIVE, instance_of = Some x, check = chk, hdl_ref_count = 1\<rparr>))"

definition qb_hdb_handle_create :: "'i hdb_env \<Rightarrow> 'i qb_hdb \<Rightarrow> (int \<times> u64 option \<times> 'i qb_hdb) option" where
  "qb_hdb_handle_create env h =
     (let h = qb_hdb_create_first_run env h
      in case hdb_find_empty env h of
           None \<Rightarrow> None
         | Some (Some i, h) \<Rightarrow>
             let e = hdb_entry h (array_ptr i);
                 h = hdb_set h (array_ptr i) (e\<lparr>hdl_ref_count := hdl_ref_count e + 1\<rparr>)
             in Some (hdb_fill env h i (array_ptr i))
         | Some (None, h) \<Rightarrow>
             let n = handle_count h;
                 (rc, a) = qb_array_grow (arr_env env) (handles h) (n + 1);
                 h = h\<lparr>handles := a\<rparr>
             in if rc \<noteq> 0 then Some (rc, None, h)
                else case hdb_index env h (int n) of
                       None \<Rightarrow> None
                     | Some (rc, p, h) \<Rightarrow>
                         if rc \<noteq> 0 then Some (rc, None, h)
                         else Some (hdb_fill env (h\<lparr>handle_count := n + 1\<rparr>) n (the p)))"

definition check_ok :: "u64 \<Rightarrow> 'i qb_hdb_handle \<Rightarrow> bool" where
  "check_ok handle_in e \<longleftrightarrow> \<not> (handle_check handle_in \<noteq> -1 \<and> handle_check handle_in \<noteq> check e)"

definition qb_hdb_handle_get :: "'i hdb_env \<Rightarrow> 'i qb_hdb \<Rightarrow> u64 \<Rightarrow> (int \<times> 'i option \<times> 'i qb_hdb) option" where
  "qb_hdb_handle_get env h handle_in =
     (let h = qb_hdb_create_first_run env h
      in if handle_index handle_in \<ge> int (handle_count h) then Some (- EBADF, None, h)
         else case hdb_index env h (handle_index handle_in) of
                None \<Rightarrow> None
              | Some (rc, p, h) \<Rightarrow>
                  if rc \<noteq> 0 \<or> state (hdb_entry h (the p)) \<noteq> STATE_ACTIVE then Some (- EBADF, None, h)
                  else if \<not> check_ok handle_in (hdb_entry h (the p)) then Some (- EBADF, None, h)
                  else
                    let e = hdb_entry h (the p)
                    in Some (0, instance_of e, hdb_set h (the p) (e\<lparr>hdl_ref_count := hdl_ref_count e + 1\<rparr>)))"

definition qb_hdb_handle_get_always :: "'i hdb_env \<Rightarrow> 'i qb_hdb \<Rightarrow> u64 \<Rightarrow> (int \<times> 'i option \<times> 'i qb_hdb) option" where
  "qb_hdb_handle_get_always env h handle_in = qb_hdb_handle_get env h handle_in"

text \<open>The second component is the instance that is destroyed, if one is.\<close>

definition qb_hdb_handle_put :: "'i hdb_env \<Rightarrow> 'i qb_hdb \<Rightarrow> u64 \<Rightarrow> (int \<times> 'i option \<times> 'i qb_hdb) option" where
  "qb_hdb_handle_put env h handle_in =
     (let h = qb_hdb_create_first_run env h
      in if handle_index handle_in \<ge> int (handle_count h) then Some (- EBADF, None, h)
         else case hdb_index env h (handle_index handle_in) of
                None \<Rightarrow> None
              | Some (rc, p, h) \<Rightarrow>
                  if rc \<noteq> 0 \<or> \<not> check_ok handle_in (hdb_entry h (the p)) then Some (- EBADF, None, h)
                  else
                    let e = hdb_entry h (the p)
                    in if hdl_ref_count e - 1 = 0 then Some (0, instance_of e, hdb_set h (the p) zero_handle)
                       else Some (0, None, hdb_set h (the p) (e\<lparr>hdl_ref_count := hdl_ref_count e - 1\<rparr>)))"

definition qb_hdb_handle_destroy :: "'i hdb_env \<Rightarrow> 'i qb_hdb \<Rightarrow> u64 \<Rightarrow> (int \<times> 'i option \<times> 'i qb_hdb) option" where
  "qb_hdb_handle_destroy env h handle_in =
     (let h = qb_hdb_create_first_run env h
      in if handle_index handle_in \<ge> int (handle_count h) then Some (- EBADF, None, h)
         else case hdb_index env h (handle_index handle_in) of
                None \<Rightarrow> None
              | Some (rc, p, h) \<Rightarrow>
                  if rc \<noteq> 0 \<or> \<not> check_ok handle_in (hdb_entry h (the p)) then Some (- EBADF, None, h)
                  else qb_hdb_handle_put env
                         (hdb_set h (the p) ((hdb_entry h (the p))\<lparr>state := STATE_PENDINGREMOVAL\<rparr>)) handle_in)"

definition qb_hdb_handle_refcount_get :: "'i hdb_env \<Rightarrow> 'i qb_hdb \<Rightarrow> u64 \<Rightarrow> (int \<times> 'i qb_hdb) option" where
  "qb_hdb_handle_refcount_get env h handle_in =
     (let h = qb_hdb_create_first_run env h
      in if handle_index handle_in \<ge> int (handle_count h) then Some (- EBADF, h)
         else case hdb_index env h (handle_index handle_in) of
                None \<Rightarrow> None
              | Some (rc, p, h) \<Rightarrow>
                  if rc \<noteq> 0 \<or> \<not> check_ok handle_in (hdb_entry h (the p)) then Some (- EBADF, h)
                  else Some (hdl_ref_count (hdb_entry h (the p)), h))"

definition qb_hdb_iterator_reset :: "'i qb_hdb \<Rightarrow> 'i qb_hdb" where
  "qb_hdb_iterator_reset h = h\<lparr>iterator := 0\<rparr>"

text \<open>The loop of \<^verbatim>\<open>qb_hdb_iterator_next\<close>: \<open>k\<close> is how many entries are left.\<close>

fun hdb_next_loop :: "'i hdb_env \<Rightarrow> nat \<Rightarrow> int \<Rightarrow> u64 option \<Rightarrow> 'i qb_hdb \<Rightarrow> (int \<times> 'i option \<times> u64 option \<times> 'i qb_hdb) option" where
  "hdb_next_loop env 0 res hdl h = Some (res, None, hdl, h)"
| "hdb_next_loop env (Suc k) res hdl h =
     (case hdb_index env h (int (iterator h)) of
        None \<Rightarrow> None
      | Some (rc, p, h) \<Rightarrow>
          if rc \<noteq> 0 then Some (rc, None, hdl, h)
          else
            let hdl = make_handle (check (hdb_entry h (the p))) (int (iterator h))
            in case qb_hdb_handle_get env h hdl of
                 None \<Rightarrow> None
               | Some (rc, x, h) \<Rightarrow>
                   let h = h\<lparr>iterator := iterator h + 1\<rparr>
                   in if rc = 0 then Some (0, x, Some hdl, h) else hdb_next_loop env k rc (Some hdl) h)"

definition qb_hdb_iterator_next :: "'i hdb_env \<Rightarrow> 'i qb_hdb \<Rightarrow> (int \<times> 'i option \<times> u64 option \<times> 'i qb_hdb) option" where
  "qb_hdb_iterator_next env h = hdb_next_loop env (handle_count h - iterator h) (-1) None h"

text \<open>The array is freed and the struct cleared; the instances of live handles are not freed.\<close>

definition qb_hdb_destroy :: "'i qb_hdb \<Rightarrow> 'i qb_hdb" where
  "qb_hdb_destroy h = \<lparr>handle_count = 0, handles = None, iterator = 0, first_run = False\<rparr>"

section \<open>Handles encode index and check\<close>

lemma bit_small_int:
  assumes "0 \<le> i" "i < 2 ^ 31"
  shows "32 \<le> n \<Longrightarrow> \<not> bit (i :: int) n"
proof -
  assume n: "32 \<le> n"
  have "i < 2 ^ n" using assms(2) power_increasing[of 31 n "2 :: int"] n by linarith
  then show "\<not> bit i n" using assms(1) by (simp add: bit_iff_odd)
qed

lemma sint_small:
  assumes "0 \<le> c" "c < 2 ^ 31"
  shows "sint (word_of_int c :: u32) = c"
  using assms by (simp add: sint_uint uint_word_of_int take_bit_int_eq_self signed_take_bit_int_eq_self)

lemma handle_check_make:
  assumes "0 \<le> c" "c < 2 ^ 31" "0 \<le> i" "i < 2 ^ 31"
  shows "handle_check (make_handle c i) = c"
proof -
  have "ucast (drop_bit 32 (make_handle c i)) = (word_of_int c :: u32)"
    by (rule bit_word_eqI) (auto simp: make_handle_def bit_simps bit_small_int[OF assms(3,4)])
  with sint_small[OF assms(1,2)] show ?thesis by (simp add: handle_check_def)
qed

lemma handle_index_make:
  assumes "0 \<le> i" "i < 2 ^ 31"
  shows "handle_index (make_handle c i) = i"
proof -
  have "0xFFFFFFFF = (mask 32 :: u64)" by (simp add: mask_eq_exp_minus_1)
  then have "make_handle c i AND 0xFFFFFFFF = take_bit 32 (make_handle c i)" by (simp only: take_bit_eq_mask)
  moreover have "ucast (take_bit 32 (make_handle c i)) = (word_of_int i :: u32)"
    by (intro bit_word_eqI) (auto simp: make_handle_def bit_simps)
  ultimately have "ucast (make_handle c i AND 0xFFFFFFFF) = (word_of_int i :: u32)" by simp
  with sint_small[OF assms] show ?thesis by (simp add: handle_index_def)
qed

section \<open>Invariant and entries\<close>

definition hdb_elem :: "'i qb_hdb \<Rightarrow> nat \<Rightarrow> 'i qb_hdb_handle" where
  "hdb_elem h i = array_elem (the (handles h)) i"

definition hdb_inv :: "'i qb_hdb \<Rightarrow> bool" where
  "hdb_inv h \<longleftrightarrow>
     \<not> first_run h \<and>
     (case handles h of None \<Rightarrow> False
      | Some a \<Rightarrow> array_inv a \<and> handle_count h \<le> max_elements a \<and> autogrow_elements a = 0)"

definition hdb_env_ok :: "'i hdb_env \<Rightarrow> bool" where
  "hdb_env_ok env \<longleftrightarrow> arr_env env = working_array"

text \<open>\<open>h'\<close> is \<open>h\<close> with the entry \<open>i\<close> replaced by \<open>e\<close>.\<close>

definition hdb_upd :: "'i qb_hdb \<Rightarrow> nat \<Rightarrow> 'i qb_hdb_handle \<Rightarrow> 'i qb_hdb \<Rightarrow> bool" where
  "hdb_upd h i e h' \<longleftrightarrow>
     hdb_inv h' \<and> handle_count h' = handle_count h \<and> iterator h' = iterator h \<and>
     (\<forall>j. hdb_elem h' j = (if j = i then e else hdb_elem h j))"

definition hdb_eqv :: "'i qb_hdb \<Rightarrow> 'i qb_hdb \<Rightarrow> bool" where
  "hdb_eqv h h' \<longleftrightarrow>
     hdb_inv h' \<and> handle_count h' = handle_count h \<and> iterator h' = iterator h \<and>
     (\<forall>j. hdb_elem h' j = hdb_elem h j)"

lemma hdb_inv_array:
  assumes "hdb_inv h"
  obtains a where "handles h = Some a" "array_inv a" "handle_count h \<le> max_elements a" "autogrow_elements a = 0"
  using assms by (auto simp: hdb_inv_def split: option.splits)

lemma hdb_first_run [simp]: "hdb_inv h \<Longrightarrow> qb_hdb_create_first_run env h = h"
  by (simp add: hdb_inv_def qb_hdb_create_first_run_def)

lemma hdb_inv_iterator [simp]: "hdb_inv (h\<lparr>iterator := x\<rparr>) = hdb_inv h"
  by (simp add: hdb_inv_def split: option.splits)

lemma hdb_elem_iterator [simp]: "hdb_elem (h\<lparr>iterator := x\<rparr>) j = hdb_elem h j"
  by (simp add: hdb_elem_def)

lemma hdb_index_ok:
  assumes "hdb_inv h" "hdb_env_ok env" "i < handle_count h"
  shows "\<exists>h'. hdb_index env h (int i) = Some (0, Some (array_ptr i), h') \<and> hdb_eqv h h' \<and>
           hdb_entry h' (array_ptr i) = hdb_elem h i \<and> array_has (the (handles h')) i"
proof -
  obtain a where a: "handles h = Some a" "array_inv a" "handle_count h \<le> max_elements a" "autogrow_elements a = 0"
    using assms(1) by (rule hdb_inv_array)
  obtain a' cb where a': "array_index working_array a (int i) = (ArrayRet 0 (Some (array_ptr i)) cb, a')" "array_inv a'"
    "array_same a a'" "array_has a' i" "max_elements a' = max_elements a"
    using array_index_below[OF a(2) working_array_ok, of i] assms(3) a(3) by auto
  have "hdb_index env h (int i) = Some (0, Some (array_ptr i), h\<lparr>handles := Some a'\<rparr>)"
    using a(1) a'(1) assms(2) by (simp add: hdb_index_def qb_array_index_def hdb_env_ok_def)
  moreover have "hdb_eqv h (h\<lparr>handles := Some a'\<rparr>)"
    using assms(1) a a' by (auto simp: hdb_eqv_def hdb_inv_def hdb_elem_def array_same_def)
  moreover have "array_get a' (array_ptr i) = array_elem a i"
    using a'(3) by (simp add: array_same_def array_elem_def)
  ultimately show ?thesis using a(1) a'(4) by (auto simp: hdb_entry_def hdb_elem_def)
qed

lemma hdb_set_upd:
  assumes "hdb_eqv h h1" "array_has (the (handles h1)) i"
  shows "hdb_upd h i e (hdb_set h1 (array_ptr i) e)" "array_has (the (handles (hdb_set h1 (array_ptr i) e))) i"
proof -
  have inv: "hdb_inv h1" using assms(1) by (simp add: hdb_eqv_def)
  obtain a where a: "handles h1 = Some a" "array_inv a" "handle_count h1 \<le> max_elements a" "autogrow_elements a = 0"
    using inv by (rule hdb_inv_array)
  have has: "array_has a i" using assms(2) a(1) by simp
  show "hdb_upd h i e (hdb_set h1 (array_ptr i) e)"
    using assms(1) inv a array_set_ok[OF a(2) has]
    by (auto simp: hdb_upd_def hdb_eqv_def hdb_inv_def hdb_set_def hdb_elem_def)
  show "array_has (the (handles (hdb_set h1 (array_ptr i) e))) i"
    using a(1) has array_set_ok(3)[OF a(2) has] by (simp add: hdb_set_def)
qed

section \<open>Get, put and destroy on an entry\<close>

lemma hdb_get_elem:
  assumes h: "hdb_inv h" "hdb_env_ok env" and i: "handle_index hl = int i" "i < handle_count h"
  shows "if state (hdb_elem h i) = STATE_ACTIVE \<and> check_ok hl (hdb_elem h i)
         then \<exists>h'. qb_hdb_handle_get env h hl = Some (0, instance_of (hdb_elem h i), h') \<and>
                hdb_upd h i ((hdb_elem h i)\<lparr>hdl_ref_count := hdl_ref_count (hdb_elem h i) + 1\<rparr>) h'
         else \<exists>h'. qb_hdb_handle_get env h hl = Some (- EBADF, None, h') \<and> hdb_eqv h h'"
proof -
  obtain h1 where h1: "hdb_index env h (int i) = Some (0, Some (array_ptr i), h1)" "hdb_eqv h h1"
    "hdb_entry h1 (array_ptr i) = hdb_elem h i" "array_has (the (handles h1)) i"
    using hdb_index_ok[OF h i(2)] by blast
  with h i hdb_set_upd(1)[OF h1(2,4)] show ?thesis
    by (auto simp: qb_hdb_handle_get_def Let_def)
qed

lemma hdb_put_elem:
  assumes h: "hdb_inv h" "hdb_env_ok env" and i: "handle_index hl = int i" "i < handle_count h"
  shows "if check_ok hl (hdb_elem h i)
         then if hdl_ref_count (hdb_elem h i) = 1
              then \<exists>h'. qb_hdb_handle_put env h hl = Some (0, instance_of (hdb_elem h i), h') \<and> hdb_upd h i zero_handle h'
              else \<exists>h'. qb_hdb_handle_put env h hl = Some (0, None, h') \<and>
                     hdb_upd h i ((hdb_elem h i)\<lparr>hdl_ref_count := hdl_ref_count (hdb_elem h i) - 1\<rparr>) h'
         else \<exists>h'. qb_hdb_handle_put env h hl = Some (- EBADF, None, h') \<and> hdb_eqv h h'"
proof -
  obtain h1 where h1: "hdb_index env h (int i) = Some (0, Some (array_ptr i), h1)" "hdb_eqv h h1"
    "hdb_entry h1 (array_ptr i) = hdb_elem h i" "array_has (the (handles h1)) i"
    using hdb_index_ok[OF h i(2)] by blast
  with h i hdb_set_upd(1)[OF h1(2,4)] show ?thesis
    by (auto simp: qb_hdb_handle_put_def Let_def)
qed

lemma hdb_destroy_put:
  assumes h: "hdb_inv h" "hdb_env_ok env" and i: "handle_index hl = int i" "i < handle_count h"
  shows "if check_ok hl (hdb_elem h i)
         then \<exists>h'. qb_hdb_handle_destroy env h hl = qb_hdb_handle_put env h' hl \<and>
                hdb_upd h i ((hdb_elem h i)\<lparr>state := STATE_PENDINGREMOVAL\<rparr>) h'
         else \<exists>h'. qb_hdb_handle_destroy env h hl = Some (- EBADF, None, h') \<and> hdb_eqv h h'"
proof -
  obtain h1 where h1: "hdb_index env h (int i) = Some (0, Some (array_ptr i), h1)" "hdb_eqv h h1"
    "hdb_entry h1 (array_ptr i) = hdb_elem h i" "array_has (the (handles h1)) i"
    using hdb_index_ok[OF h i(2)] by blast
  with h i hdb_set_upd(1)[OF h1(2,4)] show ?thesis
    by (auto simp: qb_hdb_handle_destroy_def Let_def)
qed

section \<open>Creating\<close>

text \<open>The place that a new handle takes: the first empty entry, or a new one.\<close>

definition hdb_free_index :: "'i qb_hdb \<Rightarrow> nat" where
  "hdb_free_index h =
     (case find (\<lambda>j. state (hdb_elem h j) = STATE_EMPTY) [0..<handle_count h] of Some j \<Rightarrow> j | None \<Rightarrow> handle_count h)"

lemma hdb_find_empty_ok:
  assumes "hdb_inv h" "hdb_env_ok env"
  shows "\<exists>h'. hdb_find_empty env h =
           Some (find (\<lambda>j. state (hdb_elem h j) = STATE_EMPTY) [0..<handle_count h], h') \<and> hdb_eqv h h' \<and>
           (\<forall>j. find (\<lambda>j. state (hdb_elem h j) = STATE_EMPTY) [0..<handle_count h] = Some j \<longrightarrow>
              array_has (the (handles h')) j)"
proof -
  obtain a where a: "handles h = Some a" "array_inv a" "handle_count h \<le> max_elements a" "autogrow_elements a = 0"
    using assms(1) by (rule hdb_inv_array)
  have "autogrow_elements a' = 0" if "array_find env' P i k x = Some (r, a')" "autogrow_elements x = 0" "array_inv x"
    "env' = working_array" "i + k \<le> max_elements x" for env' P i k x r a'
    using that
  proof (induction k arbitrary: i x)
    case (Suc k)
    obtain b cb where b: "array_index working_array x (int i) = (ArrayRet 0 (Some (array_ptr i)) cb, b)" "array_inv b"
      "array_same x b" "max_elements b = max_elements x"
      using array_index_below[OF Suc.prems(3) working_array_ok, of i] Suc.prems(5) by auto
    with Suc show ?case by (fastforce simp: array_same_def split: if_splits)
  qed auto
  note ag = this
  obtain a' where a': "array_find working_array (\<lambda>e. state e = STATE_EMPTY) 0 (handle_count h) a =
      Some (find (\<lambda>j. state (array_elem a j) = STATE_EMPTY) [0..<handle_count h], a')" "array_inv a'"
    "max_elements a' = max_elements a" "\<forall>j. array_elem a' j = array_elem a j"
    "\<forall>j. find (\<lambda>j. state (array_elem a j) = STATE_EMPTY) [0..<handle_count h] = Some j \<longrightarrow> array_has a' j"
    using array_find_first[OF a(2), of 0 "handle_count h" "\<lambda>e. state e = STATE_EMPTY"] a(3) by auto
  have "autogrow_elements a' = 0" using ag[OF a'(1) a(4,2) refl] a(3) by simp
  with a a' assms show ?thesis
    by (auto simp: hdb_find_empty_def hdb_env_ok_def hdb_eqv_def hdb_inv_def hdb_elem_def)
qed

lemma hdb_create_ok:
  assumes h: "hdb_inv h" "hdb_env_ok env" and m: "malloc_instance env = Some x"
    and room: "hdb_free_index h < 65536"
  shows "\<exists>h'. qb_hdb_handle_create env h =
           Some (0, Some (make_handle (pick_check (draw env)) (int (hdb_free_index h))), h') \<and> hdb_inv h' \<and>
           handle_count h' = max (handle_count h) (Suc (hdb_free_index h)) \<and>
           (\<forall>j. hdb_elem h' j = (if j = hdb_free_index h
              then \<lparr>state = STATE_ACTIVE, instance_of = Some x, check = pick_check (draw env), hdl_ref_count = 1\<rparr>
              else hdb_elem h j))"
proof -
  let ?e = "\<lparr>state = STATE_ACTIVE, instance_of = Some x, check = pick_check (draw env), hdl_ref_count = 1\<rparr>"
  let ?f = "find (\<lambda>j. state (hdb_elem h j) = STATE_EMPTY) [0..<handle_count h]"
  obtain h1 where h1: "hdb_find_empty env h = Some (?f, h1)" "hdb_eqv h h1"
    "\<And>j. ?f = Some j \<Longrightarrow> array_has (the (handles h1)) j"
    using hdb_find_empty_ok[OF h] by blast
  show ?thesis
  proof (cases ?f)
    case (Some i)
    then have i: "i < handle_count h" by (auto simp: find_Some_iff)
    have fi: "hdb_free_index h = i" using Some by (simp add: hdb_free_index_def)
    let ?e1 = "(hdb_entry h1 (array_ptr i))\<lparr>hdl_ref_count := hdl_ref_count (hdb_entry h1 (array_ptr i)) + 1\<rparr>"
    let ?h2 = "hdb_set h1 (array_ptr i) ?e1"
    note u = hdb_set_upd[OF h1(2) h1(3)[OF Some], of ?e1]
    have "hdb_eqv ?h2 ?h2" using u(1) by (simp add: hdb_upd_def hdb_eqv_def)
    note v = hdb_set_upd(1)[OF this u(2), of ?e]
    have "qb_hdb_handle_create env h = Some (0, Some (make_handle (pick_check (draw env)) (int i)), hdb_set ?h2 (array_ptr i) ?e)"
      using h h1(1) Some m by (simp add: qb_hdb_handle_create_def Let_def hdb_fill_def)
    with u v i fi show ?thesis by (auto simp: hdb_upd_def)
  next
    case None
    let ?n = "handle_count h"
    have fi: "hdb_free_index h = ?n" using None by (simp add: hdb_free_index_def)
    have n1: "handle_count h1 = ?n" "hdb_inv h1" using h1(2) by (auto simp: hdb_eqv_def)
    obtain a where a: "handles h1 = Some a" "array_inv a" "?n \<le> max_elements a" "autogrow_elements a = 0"
      using n1 by (metis hdb_inv_array)
    have "?n + 1 \<le> QB_ARRAY_MAX_ELEMENTS" using room fi by (simp add: QB_ARRAY_MAX_ELEMENTS_def)
    then obtain a1 where a1: "array_grow working_array a (?n + 1) = (0, a1)" "array_inv a1" "array_same a a1"
      "max_elements a1 = max (?n + 1) (max_elements a)"
      using array_grow_ok[OF a(2), of working_array "?n + 1"] by (auto simp: working_array_def)
    have "?n < max_elements a1" using a1(4) by simp
    then obtain a2 cb where a2: "array_index working_array a1 (int ?n) = (ArrayRet 0 (Some (array_ptr ?n)) cb, a2)"
      "array_inv a2" "array_same a1 a2" "array_has a2 ?n" "max_elements a2 = max_elements a1"
      using array_index_below[OF a1(2) working_array_ok, of ?n] by auto
    let ?h2 = "h1\<lparr>handles := Some a2, handle_count := ?n + 1\<rparr>"
    have "qb_hdb_handle_create env h = Some (0, Some (make_handle (pick_check (draw env)) (int ?n)), hdb_set ?h2 (array_ptr ?n) ?e)"
      using h h1(1) None m n1(1) a(1) a1(1) a2(1)
      by (simp add: qb_hdb_handle_create_def Let_def hdb_fill_def qb_array_grow_def hdb_index_def qb_array_index_def hdb_env_ok_def)
    moreover have "hdb_eqv ?h2 ?h2"
      using n1 a a1(3,4) a2 by (auto simp: hdb_eqv_def hdb_inv_def array_same_def)
    then have "hdb_upd ?h2 ?n ?e (hdb_set ?h2 (array_ptr ?n) ?e)" by (rule hdb_set_upd) (simp add: a2(4))
    moreover have "hdb_elem ?h2 j = hdb_elem h j" for j
      using h1(2) a(1) a1(3) a2(3) by (simp add: hdb_elem_def hdb_eqv_def array_same_def)
    ultimately show ?thesis using fi by (auto simp: hdb_upd_def)
  qed
qed

section \<open>Iterating\<close>

lemma hdb_next_loop_first:
  assumes "hdb_inv h" "hdb_env_ok env" "iterator h + k \<le> handle_count h"
    and "\<And>j. state (hdb_elem h j) = STATE_ACTIVE \<Longrightarrow> 0 \<le> check (hdb_elem h j) \<and> check (hdb_elem h j) < 2 ^ 31"
  shows "case find (\<lambda>j. state (hdb_elem h j) = STATE_ACTIVE) [iterator h..<iterator h + k] of
           Some j \<Rightarrow> \<exists>h'. hdb_next_loop env k res hl h =
               Some (0, instance_of (hdb_elem h j), Some (make_handle (check (hdb_elem h j)) (int j)), h') \<and>
               hdb_upd (h\<lparr>iterator := Suc j\<rparr>) j ((hdb_elem h j)\<lparr>hdl_ref_count := hdl_ref_count (hdb_elem h j) + 1\<rparr>) h'
         | None \<Rightarrow> \<exists>h' hl'. hdb_next_loop env k res hl h = Some (if k = 0 then res else - EBADF, None, hl', h') \<and>
               hdb_eqv (h\<lparr>iterator := iterator h + k\<rparr>) h'"
  using assms
proof (induction k arbitrary: h res hl)
  case 0
  then show ?case by (auto simp: hdb_eqv_def)
next
  case (Suc k)
  let ?i = "iterator h"
  have "[?i..<?i + Suc k] = ?i # [Suc ?i..<Suc ?i + k]" by (simp add: upt_rec)
  then have upt: "find Q [?i..<?i + Suc k] = (if Q ?i then Some ?i else find Q [Suc ?i..<Suc ?i + k])" for Q
    by (simp only: find.simps)
  have i: "?i < handle_count h" using Suc.prems(3) by simp
  obtain h1 where h1: "hdb_index env h (int ?i) = Some (0, Some (array_ptr ?i), h1)" "hdb_eqv h h1"
    "hdb_entry h1 (array_ptr ?i) = hdb_elem h ?i"
    using hdb_index_ok[OF Suc.prems(1,2) i] by blast
  have e1: "hdb_inv h1" "handle_count h1 = handle_count h" "iterator h1 = ?i" "\<And>j. hdb_elem h1 j = hdb_elem h j"
    using h1(2) by (auto simp: hdb_eqv_def)
  have "handle_count h \<le> 65536"
    using Suc.prems(1) by (auto simp: hdb_inv_def array_inv_iff QB_ARRAY_MAX_ELEMENTS_def split: option.splits)
  then have small: "int ?i < 2 ^ 31" using i by simp
  let ?hl = "make_handle (check (hdb_elem h ?i)) (int ?i)"
  have ix: "handle_index ?hl = int ?i" by (rule handle_index_make) (use small in simp_all)
  note get = hdb_get_elem[OF e1(1) Suc.prems(2) ix, unfolded e1(2,4), OF i]
  show ?case
  proof (cases "state (hdb_elem h ?i) = STATE_ACTIVE")
    case True
    have "handle_check ?hl = check (hdb_elem h ?i)"
      using Suc.prems(4)[OF True] small by (intro handle_check_make) auto
    then have ok: "check_ok ?hl (hdb_elem h ?i)" by (simp add: check_ok_def)
    from get True ok obtain h2 where h2: "qb_hdb_handle_get env h1 ?hl = Some (0, instance_of (hdb_elem h ?i), h2)"
      "hdb_upd h1 ?i ((hdb_elem h ?i)\<lparr>hdl_ref_count := hdl_ref_count (hdb_elem h ?i) + 1\<rparr>) h2" by auto
    have "hdb_next_loop env (Suc k) res hl h = Some (0, instance_of (hdb_elem h ?i), Some ?hl, h2\<lparr>iterator := Suc ?i\<rparr>)"
      using h1 e1 h2 by (simp add: Let_def hdb_upd_def)
    moreover have "hdb_upd (h\<lparr>iterator := Suc ?i\<rparr>) ?i ((hdb_elem h ?i)\<lparr>hdl_ref_count := hdl_ref_count (hdb_elem h ?i) + 1\<rparr>)
        (h2\<lparr>iterator := Suc ?i\<rparr>)"
      using h2(2) e1 by (auto simp: hdb_upd_def)
    ultimately show ?thesis using True unfolding upt by auto
  next
    case False
    from get False obtain h2 where h2: "qb_hdb_handle_get env h1 ?hl = Some (- EBADF, None, h2)" "hdb_eqv h1 h2" by auto
    define g where "g = h2\<lparr>iterator := Suc ?i\<rparr>"
    have e2: "hdb_inv g" "handle_count g = handle_count h" "iterator g = Suc ?i" "\<And>j. hdb_elem g j = hdb_elem h j"
      using h2(2) e1 by (auto simp: hdb_eqv_def g_def)
    have step: "hdb_next_loop env (Suc k) res hl h = hdb_next_loop env k (- EBADF) (Some ?hl) g"
      using h1 e1 h2 by (simp add: Let_def hdb_eqv_def g_def)
    have "iterator g + k \<le> handle_count g" using Suc.prems(3) e2(2,3) by simp
    from Suc.IH[OF e2(1) Suc.prems(2) this, unfolded e2(3,4), OF Suc.prems(4), of "- EBADF" "Some ?hl"]
    show ?thesis unfolding upt step using False e2(2,4)
      by (auto simp: hdb_upd_def hdb_eqv_def simp del: upt_Suc add_Suc split: option.splits)
  qed
qed

section \<open>Properties of the handle database\<close>

text \<open>\<open>n\<close> puts of the same handle: their results and the destroyed instances.\<close>

fun hdb_put_n :: "'i hdb_env \<Rightarrow> nat \<Rightarrow> 'i qb_hdb \<Rightarrow> u64 \<Rightarrow> ((int \<times> 'i option) list \<times> 'i qb_hdb) option" where
  "hdb_put_n env 0 h hl = Some ([], h)"
| "hdb_put_n env (Suc n) h hl =
     (case qb_hdb_handle_put env h hl of
        None \<Rightarrow> None
      | Some (rc, d, h') \<Rightarrow> map_option (\<lambda>(rs, h''). ((rc, d) # rs, h'')) (hdb_put_n env n h' hl))"

lemma hdb_put_n_stale:
  assumes "hdb_inv h" "hdb_env_ok env" "handle_index hl = int i" "i < handle_count h" "\<not> check_ok hl (hdb_elem h i)"
  shows "\<exists>h'. hdb_put_n env n h hl = Some (replicate n (- EBADF, None), h') \<and> hdb_eqv h h'"
  using assms
proof (induction n arbitrary: h)
  case 0
  then show ?case by (auto simp: hdb_eqv_def)
next
  case (Suc n)
  obtain h1 where h1: "qb_hdb_handle_put env h hl = Some (- EBADF, None, h1)" "hdb_eqv h h1"
    using hdb_put_elem[OF Suc.prems(1-4)] Suc.prems(5) by auto
  then have "hdb_inv h1" "i < handle_count h1" "\<not> check_ok hl (hdb_elem h1 i)"
    using Suc.prems by (auto simp: hdb_eqv_def)
  from Suc.IH[OF this(1) Suc.prems(2,3) this(2,3)] h1 show ?case by (auto simp: hdb_eqv_def)
qed

text \<open>
  C38: An object is destroyed exactly once, by the put that drops its last reference. For a handle
  whose check value matches an entry with \<open>r\<close> references, of any number of puts the first
  \<open>r - 1\<close> destroy nothing, the \<open>r\<close>-th destroys the instance and frees the entry, and all
  later ones are refused with \<^verbatim>\<open>-EBADF\<close>; no other entry changes.
\<close>

theorem hdb_last_put_destroys_once:
  assumes "hdb_inv h" "hdb_env_ok env" "handle_index hl = int i" "i < handle_count h"
    and "hdl_ref_count (hdb_elem h i) = int r" "0 < r" "check (hdb_elem h i) = handle_check hl" "0 < handle_check hl"
  shows "\<exists>h'. hdb_put_n env (r + k) h hl =
           Some (replicate (r - 1) (0, None) @ (0, instance_of (hdb_elem h i)) # replicate k (- EBADF, None), h') \<and>
           hdb_upd h i zero_handle h'"
  using assms
proof (induction r arbitrary: h)
  case 0
  then show ?case by simp
next
  case (Suc r)
  have ok: "check_ok hl (hdb_elem h i)" using Suc.prems(7) by (simp add: check_ok_def)
  note put = hdb_put_elem[OF Suc.prems(1-4)]
  show ?case
  proof (cases "r = 0")
    case True
    with put ok Suc.prems(5) obtain h1 where h1: "qb_hdb_handle_put env h hl = Some (0, instance_of (hdb_elem h i), h1)"
      "hdb_upd h i zero_handle h1" by auto
    then have "hdb_inv h1" "i < handle_count h1" "\<not> check_ok hl (hdb_elem h1 i)"
      using Suc.prems(4,8) by (auto simp: hdb_upd_def check_ok_def zero_handle_def)
    from hdb_put_n_stale[OF this(1) Suc.prems(2,3) this(2,3), of k] h1 True show ?thesis
      by (auto simp: hdb_upd_def hdb_eqv_def)
  next
    case False
    with put ok Suc.prems(5) obtain h1 where h1: "qb_hdb_handle_put env h hl = Some (0, None, h1)"
      "hdb_upd h i ((hdb_elem h i)\<lparr>hdl_ref_count := hdl_ref_count (hdb_elem h i) - 1\<rparr>) h1" by auto
    then have "hdb_inv h1" "i < handle_count h1" "hdl_ref_count (hdb_elem h1 i) = int r"
      "check (hdb_elem h1 i) = handle_check hl" "instance_of (hdb_elem h1 i) = instance_of (hdb_elem h i)"
      using Suc.prems(4,5,7) by (auto simp: hdb_upd_def)
    from Suc.IH[OF this(1) Suc.prems(2,3) this(2,3) _ this(4) Suc.prems(8)] False this(5) h1 show ?thesis
      by (cases r) (auto simp: hdb_upd_def)
  qed
qed

definition ex_hdb_env :: "nat hdb_env" where
  "ex_hdb_env = \<lparr>arr_env = working_array, arr_calloc_ok = True, malloc_instance = Some 42, draw = (\<lambda>_. 77)\<rparr>"

definition ex_hdb :: "nat qb_hdb" where
  "ex_hdb = \<lparr>handle_count = 1,
     handles = Some \<lparr>bin = Some [Some (\<lparr>state = STATE_ACTIVE, instance_of = Some 9, check = 5, hdl_ref_count = 2\<rparr> # replicate 15 zero_handle)],
       max_elements = 5, element_size = 24, num_bins = 1, autogrow_elements = 0, new_bin_cb = False, zero_elem = zero_handle\<rparr>,
     iterator = 0, first_run = False\<rparr>"

lemma ex_hdb_inv: "hdb_inv ex_hdb" "hdb_env_ok ex_hdb_env"
  by (simp_all add: hdb_inv_def ex_hdb_def array_inv_def QB_ARRAY_MAX_ELEMENTS_def hdb_env_ok_def ex_hdb_env_def)

lemma ex_hdb_elem: "hdb_elem ex_hdb 0 = \<lparr>state = STATE_ACTIVE, instance_of = Some 9, check = 5, hdl_ref_count = 2\<rparr>"
  by (simp add: hdb_elem_def ex_hdb_def array_elem_def array_get_def array_bin_def array_ptr_def)

lemma ex_hdb_handle: "handle_index (make_handle 5 0) = int 0" "handle_check (make_handle 5 0) = 5"
  by (simp_all add: handle_index_make handle_check_make)

theorem hdb_last_put_destroys_once_witness:
  "\<exists>h'. hdb_put_n ex_hdb_env (2 + 1) ex_hdb (make_handle 5 0) = Some ([(0, None), (0, Some 9), (- EBADF, None)], h')"
  using hdb_last_put_destroys_once[OF ex_hdb_inv ex_hdb_handle(1), of 2 1]
  by (auto simp: ex_hdb_elem ex_hdb_handle(2) ex_hdb_def[THEN arg_cong[of _ _ handle_count], simplified])

text \<open>
  A new handle. When the allocations work and fewer than 65536 entries are in use, creating
  a handle takes an entry that no live handle uses (the first empty one, or a new one), leaves
  every other entry alone, and the handle it returns gives the new instance, with the
  reference count raised to two.
\<close>

theorem hdb_create_then_get:
  assumes "hdb_inv h" "hdb_env_ok env" "malloc_instance env = Some x" "hdb_free_index h < 65536"
    and "0 < pick_check (draw env)" "pick_check (draw env) < 2 ^ 31"
  shows "\<exists>hl h1 h2. qb_hdb_handle_create env h = Some (0, Some hl, h1) \<and>
           (\<forall>j. j \<noteq> hdb_free_index h \<longrightarrow> hdb_elem h1 j = hdb_elem h j) \<and>
           (hdb_free_index h < handle_count h \<longrightarrow> state (hdb_elem h (hdb_free_index h)) = STATE_EMPTY) \<and>
           qb_hdb_handle_get env h1 hl = Some (0, Some x, h2) \<and>
           hdl_ref_count (hdb_elem h2 (hdb_free_index h)) = 2"
proof -
  let ?i = "hdb_free_index h" and ?c = "pick_check (draw env)"
  let ?hl = "make_handle ?c (int ?i)"
  obtain h1 where h1: "qb_hdb_handle_create env h = Some (0, Some ?hl, h1)" "hdb_inv h1"
    "handle_count h1 = max (handle_count h) (Suc ?i)"
    "\<forall>j. hdb_elem h1 j = (if j = ?i
        then \<lparr>state = STATE_ACTIVE, instance_of = Some x, check = ?c, hdl_ref_count = 1\<rparr> else hdb_elem h j)"
    using hdb_create_ok[OF assms(1-4)] by blast
  have ix: "handle_index ?hl = int ?i" "handle_check ?hl = ?c"
    using assms(4-6) by (simp_all add: handle_index_make handle_check_make)
  have "?i < handle_count h1" using h1(3) by simp
  from hdb_get_elem[OF h1(2) assms(2) ix(1) this] h1(4) ix(2)
  have "\<exists>h2. qb_hdb_handle_get env h1 ?hl = Some (0, Some x, h2) \<and> hdl_ref_count (hdb_elem h2 ?i) = 2"
    by (auto simp: check_ok_def hdb_upd_def)
  moreover have "?i < handle_count h \<longrightarrow> state (hdb_elem h ?i) = STATE_EMPTY"
    by (auto simp: hdb_free_index_def find_Some_iff split: option.splits)
  ultimately show ?thesis using h1(1,4) by auto
qed

theorem hdb_create_then_get_witness:
  "\<exists>hl h1 h2. qb_hdb_handle_create ex_hdb_env ex_hdb = Some (0, Some hl, h1) \<and>
     qb_hdb_handle_get ex_hdb_env h1 hl = Some (0, Some 42, h2)"
proof -
  have d: "pick_check (draw ex_hdb_env) = 77" by (simp add: pick_check_def ex_hdb_env_def upt_rec)
  have c: "handle_count ex_hdb = 1" by (simp add: ex_hdb_def)
  have f: "hdb_free_index ex_hdb = 1" by (simp add: hdb_free_index_def c ex_hdb_elem)
  have m: "malloc_instance ex_hdb_env = Some 42" by (simp add: ex_hdb_env_def)
  show ?thesis using hdb_create_then_get[OF ex_hdb_inv m] unfolding d f by (simp, blast)
qed

text \<open>
  C39: A stale handle is harmless: with a check value that is neither that of the entry nor the
  no-check value, get, put, destroy and the count query all return \<^verbatim>\<open>-EBADF\<close> and change no entry.
\<close>

theorem hdb_stale_handle_refused:
  assumes h: "hdb_inv h" "hdb_env_ok env" "handle_index hl = int i" "i < handle_count h"
    and stale: "handle_check hl \<noteq> check (hdb_elem h i)" "handle_check hl \<noteq> -1"
  shows "(\<exists>h'. qb_hdb_handle_get env h hl = Some (- EBADF, None, h') \<and> hdb_eqv h h') \<and>
         (\<exists>h'. qb_hdb_handle_put env h hl = Some (- EBADF, None, h') \<and> hdb_eqv h h') \<and>
         (\<exists>h'. qb_hdb_handle_destroy env h hl = Some (- EBADF, None, h') \<and> hdb_eqv h h') \<and>
         (\<exists>h'. qb_hdb_handle_refcount_get env h hl = Some (- EBADF, h') \<and> hdb_eqv h h')"
proof -
  have no: "\<not> check_ok hl (hdb_elem h i)" using stale by (simp add: check_ok_def)
  obtain h1 where "hdb_index env h (int i) = Some (0, Some (array_ptr i), h1)" "hdb_eqv h h1"
    "hdb_entry h1 (array_ptr i) = hdb_elem h i" using hdb_index_ok[OF h(1,2,4)] by blast
  then have "\<exists>h'. qb_hdb_handle_refcount_get env h hl = Some (- EBADF, h') \<and> hdb_eqv h h'"
    using h no by (simp add: qb_hdb_handle_refcount_get_def)
  with hdb_get_elem[OF h] hdb_put_elem[OF h] hdb_destroy_put[OF h] no show ?thesis by simp
qed

theorem hdb_stale_handle_refused_witness:
  "\<exists>h'. qb_hdb_handle_destroy ex_hdb_env ex_hdb (make_handle 6 0) = Some (- EBADF, None, h') \<and> hdb_eqv ex_hdb h'"
proof -
  have "handle_index (make_handle 6 0) = int 0" "handle_check (make_handle 6 0) = 6" "0 < handle_count ex_hdb"
    by (simp_all add: handle_index_make handle_check_make ex_hdb_def)
  then show ?thesis using hdb_stale_handle_refused[OF ex_hdb_inv, of "make_handle 6 0" 0] by (simp add: ex_hdb_elem)
qed

text \<open>
  The iterator gives the live objects in order: \<^verbatim>\<open>qb_hdb_iterator_next\<close> returns the first
  active entry at or after the iterator, with a handle that resolves to it and a reference
  added, and moves the iterator behind it; when no active entry is left it returns an error
  and leaves the iterator at the end.
\<close>

theorem hdb_iterator_next_first:
  assumes "hdb_inv h" "hdb_env_ok env" "iterator h \<le> handle_count h"
    and "\<And>j. state (hdb_elem h j) = STATE_ACTIVE \<Longrightarrow> 0 \<le> check (hdb_elem h j) \<and> check (hdb_elem h j) < 2 ^ 31"
  shows "case find (\<lambda>j. state (hdb_elem h j) = STATE_ACTIVE) [iterator h..<handle_count h] of
           Some j \<Rightarrow> \<exists>h'. qb_hdb_iterator_next env h =
               Some (0, instance_of (hdb_elem h j), Some (make_handle (check (hdb_elem h j)) (int j)), h') \<and>
               hdb_upd (h\<lparr>iterator := Suc j\<rparr>) j ((hdb_elem h j)\<lparr>hdl_ref_count := hdl_ref_count (hdb_elem h j) + 1\<rparr>) h'
         | None \<Rightarrow> \<exists>rc h' hl'. qb_hdb_iterator_next env h = Some (rc, None, hl', h') \<and> rc < 0 \<and>
               hdb_eqv (h\<lparr>iterator := handle_count h\<rparr>) h'"
proof -
  have e: "iterator h + (handle_count h - iterator h) = handle_count h" using assms(3) by simp
  show ?thesis
    using hdb_next_loop_first[OF assms(1,2) _ assms(4), of "handle_count h - iterator h" "-1" None] assms(3)
    unfolding qb_hdb_iterator_next_def e by (auto split: option.splits if_splits)
qed

theorem hdb_iterator_next_first_witness:
  "\<exists>h'. qb_hdb_iterator_next ex_hdb_env ex_hdb = Some (0, Some 9, Some (make_handle 5 0), h') \<and> iterator h' = 1"
proof -
  have e: "hdb_elem ex_hdb j = (if j = 0 then \<lparr>state = STATE_ACTIVE, instance_of = Some 9, check = 5, hdl_ref_count = 2\<rparr> else zero_handle)" for j
    by (auto simp: ex_hdb_elem) (auto simp: hdb_elem_def ex_hdb_def array_elem_def array_get_def array_bin_def array_ptr_def nth_Cons split: option.splits nat.splits)
  have c: "handle_count ex_hdb = 1" "iterator ex_hdb = 0" by (simp_all add: ex_hdb_def)
  have a: "0 \<le> check (hdb_elem ex_hdb j) \<and> check (hdb_elem ex_hdb j) < 2 ^ 31" for j by (simp add: e zero_handle_def)
  show ?thesis using hdb_iterator_next_first[OF ex_hdb_inv _ a] unfolding c by (auto simp: e hdb_upd_def)
qed

end
