(* ===== verification/Loop_timerlist.thy ===== *)
theory Loop_timerlist
  imports Loop Timerlist Hdb
begin

text \<open>
  The timers of the main loop (\<^verbatim>\<open>lib/loop_timerlist.c\<close>): an array of timer entries, addressed by
  handles with a check value, over the timer list. The record adds the timer source to the
  loop. The callback data of a list timer is the place of its entry, and the client handle that
  the list clears is the entry's \<^verbatim>\<open>timerlist_handle\<close>. \<open>None\<close> is a failed assertion or the use of
  a list timer that was freed.
\<close>

section \<open>State\<close>

datatype qb_poll_entry_state = ENTRY_EMPTY | ENTRY_JOBLIST | ENTRY_DELETED | ENTRY_ACTIVE

record ('f, 'd) qb_loop_timer =
  tmr_state :: qb_poll_entry_state
  tmr_fn :: "'f option"
  tmr_data :: "'d option"
  tmr_p :: nat
  timerlist_handle :: "nat option"
  tmr_check :: int
  install_pos :: nat

record ('f, 'd) timer_loop = "('f, 'd) loop_item qb_loop" +
  tlist :: "nat timerlist"
  tmrs :: "('f, 'd) qb_loop_timer qb_array"
  timer_entry_count :: nat

definition zero_timer :: "('f, 'd) qb_loop_timer" where
  "zero_timer = \<lparr>tmr_state = ENTRY_EMPTY, tmr_fn = None, tmr_data = None, tmr_p = 0, timerlist_handle = None,
     tmr_check = 0, install_pos = 0\<rparr>"

text \<open>The environment: allocators, the mutex, the clocks and the random numbers.\<close>

record ('f, 'd) timer_env =
  te_arr :: "('f, 'd) qb_loop_timer array_env"
  te_tl :: tl_env
  te_malloc :: "nat option"
  te_lock_rc :: int
  te_now :: u64
  te_epoch :: u64
  te_hertz :: u64
  te_draw :: "nat \<Rightarrow> int"

text \<open>The entry at place \<open>i\<close>, through a pointer to it.\<close>

definition tmr_get :: "('f, 'd) timer_loop \<Rightarrow> nat \<Rightarrow> ('f, 'd) qb_loop_timer" where
  "tmr_get l i = array_get (tmrs l) (array_ptr i)"

definition tmr_set :: "('f, 'd) timer_loop \<Rightarrow> nat \<Rightarrow> ('f, 'd) qb_loop_timer \<Rightarrow> ('f, 'd) timer_loop" where
  "tmr_set l i t = l\<lparr>tmrs := array_set (tmrs l) (array_ptr i) t\<rparr>"

section \<open>Expiry and dispatch\<close>

text \<open>The list clears the entry's handle \<open>h\<close> before it calls back for the entry \<open>i\<close>.\<close>

definition clear_handle :: "nat \<Rightarrow> ('f, 'd) timer_loop \<Rightarrow> ('f, 'd) timer_loop" where
  "clear_handle h l = tmr_set l h ((tmr_get l h)\<lparr>timerlist_handle := None\<rparr>)"

definition make_job_from_tmo :: "nat \<Rightarrow> ('f, 'd) timer_loop \<Rightarrow> ('f, 'd) timer_loop option" where
  "make_job_from_tmo i l =
     (let t = tmr_get l i
      in if tmr_state t \<noteq> ENTRY_ACTIVE then None
         else
           let l = qb_loop_level_item_add (tmr_p t) (LoopTimer i) l
           in Some (tmr_set l i (t\<lparr>tmr_state := ENTRY_JOBLIST\<rparr>)))"

fun fire_timers :: "(nat \<times> nat) list \<Rightarrow> ('f, 'd) timer_loop \<Rightarrow> ('f, 'd) timer_loop option" where
  "fire_timers [] l = Some l"
| "fire_timers ((i, h) # ds) l =
     (case make_job_from_tmo i (clear_handle h l) of None \<Rightarrow> None | Some l' \<Rightarrow> fire_timers ds l')"

definition expire_the_timers :: "('f, 'd) timer_env \<Rightarrow> ('f, 'd) timer_loop \<Rightarrow> (int \<times> ('f, 'd) timer_loop) option" where
  "expire_the_timers env l =
     do { (rc, ds, ls) \<leftarrow> timerlist_expire (te_tl env) (te_now env) (te_epoch env) (tlist l);
          l \<leftarrow> fire_timers ds (l\<lparr>tlist := ls\<rparr>);
          Some (int (length ds), l) }"

text \<open>\<open>cb\<close> is the user's callback; it may change the loop.\<close>

definition timer_dispatch ::
  "('f \<Rightarrow> 'd option \<Rightarrow> ('f, 'd) timer_loop \<Rightarrow> ('f, 'd) timer_loop) \<Rightarrow> nat \<Rightarrow> ('f, 'd) timer_loop \<Rightarrow> ('f, 'd) timer_loop option" where
  "timer_dispatch cb i l =
     (let t = tmr_get l i
      in if tmr_state t \<noteq> ENTRY_JOBLIST then None
         else
           let l = tmr_set l i (t\<lparr>tmr_check := 0\<rparr>);
               l = cb (the (tmr_fn t)) (tmr_data t) l
           in Some (tmr_set l i ((tmr_get l i)\<lparr>tmr_state := ENTRY_EMPTY\<rparr>)))"

text \<open>The result is an \<^verbatim>\<open>int32_t\<close>.\<close>

definition clamp_msec :: "u64 \<Rightarrow> int" where
  "clamp_msec left =
     (let left = (if left \<noteq> -1 \<and> left > 0xFFFFFFFF then 0xFFFFFFFE else left)
      in sint (ucast left :: u32))"

definition qb_loop_timer_msec_duration_to_expire :: "('f, 'd) timer_env \<Rightarrow> ('f, 'd) timer_loop \<Rightarrow> int option" where
  "qb_loop_timer_msec_duration_to_expire env l =
     map_option clamp_msec
       (timerlist_msec_duration_to_expire (te_tl env) (te_hertz env) (te_now env) (te_epoch env) (tlist l))"

section \<open>Handles and entries\<close>

definition tmr_index ::
  "('f, 'd) timer_env \<Rightarrow> ('f, 'd) timer_loop \<Rightarrow> int \<Rightarrow> (int \<times> (nat \<times> nat) option \<times> ('f, 'd) timer_loop) option" where
  "tmr_index env l i =
     (case array_index (te_arr env) (tmrs l) i of
        (ArrayAbort, a) \<Rightarrow> None
      | (ArrayRet rc p cb, a) \<Rightarrow> Some (rc, p, l\<lparr>tmrs := a\<rparr>))"

text \<open>The second component is the place of the entry that the handle means.\<close>

definition timer_from_handle ::
  "('f, 'd) timer_env \<Rightarrow> ('f, 'd) timer_loop \<Rightarrow> u64 \<Rightarrow> (int \<times> nat \<times> ('f, 'd) timer_loop) option" where
  "timer_from_handle env l handle_in =
     (if handle_in = 0 then Some (- EINVAL, 0, l)
      else
        do { (rc, p, l) \<leftarrow> tmr_index env l (handle_index handle_in);
             let i = nat (handle_index handle_in);
             Some (if rc \<noteq> 0 then (rc, 0, l)
                   else if tmr_check (tmr_get l i) \<noteq> handle_check handle_in then (- EINVAL, 0, l)
                   else (0, i, l)) })"

text \<open>The loop asserts that every entry can be indexed.\<close>

fun find_empty_timer ::
  "('f, 'd) timer_env \<Rightarrow> nat \<Rightarrow> nat \<Rightarrow> ('f, 'd) qb_loop_timer qb_array \<Rightarrow> (nat option \<times> ('f, 'd) qb_loop_timer qb_array) option" where
  "find_empty_timer env i 0 a = Some (None, a)"
| "find_empty_timer env i (Suc k) a =
     (case array_index (te_arr env) a (int i) of
        (ArrayAbort, a') \<Rightarrow> None
      | (ArrayRet rc p cb, a') \<Rightarrow>
          if rc \<noteq> 0 then None
          else if tmr_state (array_get a' (the p)) = ENTRY_EMPTY then Some (Some i, a')
          else find_empty_timer env (Suc i) k a')"

definition get_empty_array_position :: "('f, 'd) timer_env \<Rightarrow> ('f, 'd) timer_loop \<Rightarrow> (int \<times> ('f, 'd) timer_loop) option" where
  "get_empty_array_position env l =
     (case find_empty_timer env 0 (timer_entry_count l) (tmrs l) of
        None \<Rightarrow> None
      | Some (Some i, a) \<Rightarrow> Some (int i, l\<lparr>tmrs := a\<rparr>)
      | Some (None, a) \<Rightarrow>
          let (res, a) = array_grow (te_arr env) a (timer_entry_count l + 1)
          in if res \<noteq> 0 then Some (res, l\<lparr>tmrs := a\<rparr>)
             else Some (int (timer_entry_count l), l\<lparr>tmrs := a, timer_entry_count := timer_entry_count l + 1\<rparr>))"

text \<open>The result, the handle that is stored, and the loop.\<close>

definition qb_loop_timer_add ::
  "('f, 'd) timer_env \<Rightarrow> ('f, 'd) timer_loop option \<Rightarrow> nat \<Rightarrow> u64 \<Rightarrow> 'd option \<Rightarrow> 'f option \<Rightarrow>
   (int \<times> u64 option \<times> ('f, 'd) timer_loop option) option" where
  "qb_loop_timer_add env lp p nsec_duration data timer_fn =
     (case (lp, timer_fn) of
        (Some l, Some f) \<Rightarrow>
          if te_lock_rc env \<noteq> 0 then Some (- te_lock_rc env, None, Some l)
          else
            do { (pos, l) \<leftarrow> get_empty_array_position env l;
                 (rc, pt, l) \<leftarrow> tmr_index env l pos;
                 if rc < 0 then None
                 else do {
                   let i = nat pos;
                   let t = (tmr_get l i)\<lparr>tmr_state := ENTRY_ACTIVE, install_pos := i, tmr_data := data, tmr_fn := Some f,
                      tmr_p := p, tmr_check := pick_check (te_draw env)\<rparr>;
                   let l = tmr_set l i t;
                   (res, h, ls) \<leftarrow> timerlist_add_duration (te_tl env) (te_malloc env) (te_now env) (tlist l) i nsec_duration i;
                   let l = l\<lparr>tlist := ls\<rparr>;
                   let l = (if res = 0 then tmr_set l i ((tmr_get l i)\<lparr>timerlist_handle := h\<rparr>) else l);
                   Some (res, Some (make_handle (pick_check (te_draw env)) (int i)), Some l) } }
      | _ \<Rightarrow> Some (- EINVAL, None, lp))"

text \<open>Taking the entry \<open>i\<close> off the ready list and its timer off the timer list.\<close>

definition timer_unready :: "('f, 'd) timer_loop \<Rightarrow> nat \<Rightarrow> ('f, 'd) timer_loop" where
  "timer_unready l i =
     (let t = tmr_get l i
      in if tmr_state t = ENTRY_JOBLIST then qb_loop_level_item_del (tmr_p t) (LoopTimer i) l else l)"

definition timer_unlist :: "('f, 'd) timer_env \<Rightarrow> ('f, 'd) timer_loop \<Rightarrow> nat \<Rightarrow> ('f, 'd) timer_loop option" where
  "timer_unlist env l i =
     (case timerlist_handle (tmr_get l i) of
        None \<Rightarrow> Some l
      | Some a \<Rightarrow>
          do { (rc, h, ls) \<leftarrow> timerlist_del (te_tl env) (tlist l) a;
               let l = l\<lparr>tlist := ls\<rparr>;
               Some (case h of None \<Rightarrow> l | Some h \<Rightarrow> clear_handle h l) })"

definition qb_loop_timer_del :: "('f, 'd) timer_env \<Rightarrow> ('f, 'd) timer_loop \<Rightarrow> u64 \<Rightarrow> (int \<times> ('f, 'd) timer_loop) option" where
  "qb_loop_timer_del env l th =
     do { (res, i, l) \<leftarrow> timer_from_handle env l th;
          if res \<noteq> 0 then Some (res, l)
          else if tmr_state (tmr_get l i) = ENTRY_DELETED then Some (0, l)
          else if tmr_state (tmr_get l i) \<noteq> ENTRY_ACTIVE \<and> tmr_state (tmr_get l i) \<noteq> ENTRY_JOBLIST then Some (- EINVAL, l)
          else do {
            l \<leftarrow> timer_unlist env (timer_unready l i) i;
            Some (0, tmr_set l i ((tmr_get l i)\<lparr>tmr_state := ENTRY_EMPTY\<rparr>)) } }"

definition qb_loop_timer_expire_time_get :: "('f, 'd) timer_env \<Rightarrow> ('f, 'd) timer_loop \<Rightarrow> u64 \<Rightarrow> (u64 \<times> ('f, 'd) timer_loop) option" where
  "qb_loop_timer_expire_time_get env l th =
     do { (res, i, l) \<leftarrow> timer_from_handle env l th;
          if res \<noteq> 0 then Some (0, l)
          else if tmr_state (tmr_get l i) \<noteq> ENTRY_ACTIVE then Some (0, l)
          else do {
            a \<leftarrow> timerlist_handle (tmr_get l i);
            e \<leftarrow> timerlist_expire_time (tlist l) a;
            Some (e, l) } }"

definition qb_loop_timer_expire_time_remaining ::
  "('f, 'd) timer_env \<Rightarrow> ('f, 'd) timer_loop \<Rightarrow> u64 \<Rightarrow> (u64 \<times> ('f, 'd) timer_loop) option" where
  "qb_loop_timer_expire_time_remaining env l th =
     do { (res, i, l) \<leftarrow> timer_from_handle env l th;
          if res \<noteq> 0 then Some (0, l)
          else if tmr_state (tmr_get l i) \<noteq> ENTRY_ACTIVE then Some (0, l)
          else do {
            a \<leftarrow> timerlist_handle (tmr_get l i);
            t \<leftarrow> timers (tlist l) a;
            let current_ns = (if is_absolute_timer t then te_epoch env else te_now env);
            timer_ns \<leftarrow> timerlist_expire_time (tlist l) a;
            Some (if timer_ns < current_ns then 0 else timer_ns - current_ns, l) } }"

definition qb_loop_timer_is_running :: "('f, 'd) timer_env \<Rightarrow> ('f, 'd) timer_loop \<Rightarrow> u64 \<Rightarrow> (bool \<times> ('f, 'd) timer_loop) option" where
  "qb_loop_timer_is_running env l th =
     map_option (map_prod (\<lambda>e. e > 0) id) (qb_loop_timer_expire_time_get env l th)"

definition qb_loop_timer_create :: "('f, 'd) loop_item qb_loop \<Rightarrow> ('f, 'd) qb_loop_timer qb_array \<Rightarrow> ('f, 'd) timer_loop" where
  "qb_loop_timer_create l a =
     \<lparr>level = level l, stop_requested = stop_requested l, tlist = timerlist_init, tmrs = a, timer_entry_count = 0\<rparr>"

section \<open>The invariant\<close>

text \<open>
  The entries: those in use are counted and lie in allocated bins, and an entry is on the ready list of its
  priority at most once, and only in the state for it.
\<close>

definition ready_max :: "('f, 'd) qb_loop_timer \<Rightarrow> nat \<Rightarrow> nat" where
  "ready_max t p = (if tmr_state t = ENTRY_JOBLIST \<and> tmr_p t = p then 1 else 0)"

definition entries_ok :: "('f, 'd) timer_loop \<Rightarrow> bool" where
  "entries_ok l \<longleftrightarrow>
     array_inv (tmrs l) \<and> timer_entry_count l \<le> max_elements (tmrs l) \<and>
     (\<forall>i. tmr_state (tmr_get l i) \<noteq> ENTRY_EMPTY \<longrightarrow> i < timer_entry_count l \<and> array_has (tmrs l) i) \<and>
     (\<forall>p i. count_list (job_head (level l p)) (LoopTimer i) \<le> ready_max (tmr_get l i) p)"

text \<open>The active entries and the timers of the list refer to each other, one to one.\<close>

definition entries_linked :: "('f, 'd) timer_loop \<Rightarrow> bool" where
  "entries_linked l \<longleftrightarrow>
     (\<forall>i. tmr_state (tmr_get l i) = ENTRY_ACTIVE \<longleftrightarrow> timerlist_handle (tmr_get l i) \<noteq> None) \<and>
     (\<forall>i a. timerlist_handle (tmr_get l i) = Some a \<longleftrightarrow>
        a \<in> set (heap_entries (tlist l)) \<and> snd (elem_of (tlist l) a) = (i, i)) \<and>
     (\<forall>a\<in>set (heap_entries (tlist l)). fst (snd (elem_of (tlist l) a)) = snd (snd (elem_of (tlist l) a)))"

definition timer_inv :: "('f, 'd) timer_loop \<Rightarrow> bool" where
  "timer_inv l \<longleftrightarrow> tl_inv (tlist l) \<and> entries_ok l \<and> entries_linked l"

definition timer_env_ok :: "('f, 'd) timer_env \<Rightarrow> bool" where
  "timer_env_ok env \<longleftrightarrow>
     array_env_ok (te_arr env) \<and> tl_lock_rc (te_tl env) = 0 \<and> tl_realloc_errno (te_tl env) = 0 \<and> te_lock_rc env = 0"

lemma tmr_get_elem: "tmr_get l i = array_elem (tmrs l) i"
  by (simp add: tmr_get_def array_elem_def)

lemma tmr_set_simps [simp]:
  "level (tmr_set l i t) = level l" "tlist (tmr_set l i t) = tlist l"
  "timer_entry_count (tmr_set l i t) = timer_entry_count l" "stop_requested (tmr_set l i t) = stop_requested l"
  by (simp_all add: tmr_set_def)

lemma tmr_get_set:
  assumes "array_inv (tmrs l)" "array_has (tmrs l) i"
  shows "tmr_get (tmr_set l i t) j = (if j = i then t else tmr_get l j)"
  using array_set_ok(2)[OF assms] by (simp add: tmr_get_elem tmr_set_def)

lemma tmr_set_array:
  assumes "array_inv (tmrs l)" "array_has (tmrs l) i"
  shows "array_inv (tmrs (tmr_set l i t))" "array_has (tmrs (tmr_set l i t)) j = array_has (tmrs l) j"
    "max_elements (tmrs (tmr_set l i t)) = max_elements (tmrs l)"
  using array_set_ok[OF assms] by (simp_all add: tmr_set_def)

lemma tmr_get_fields [simp]:
  "tmr_get (l\<lparr>tlist := ls\<rparr>) i = tmr_get l i" "tmr_get (l\<lparr>level := v\<rparr>) i = tmr_get l i"
  "tmr_get (l\<lparr>timer_entry_count := n\<rparr>) i = tmr_get l i"
  by (simp_all add: tmr_get_def)

text \<open>Indexing an entry allocates a bin at most.\<close>

lemma timer_inv_same:
  assumes "timer_inv l" "array_inv a" "array_same (tmrs l) a" "timer_entry_count l \<le> n" "n \<le> max_elements a"
  shows "timer_inv (l\<lparr>tmrs := a, timer_entry_count := n\<rparr>)"
proof -
  have "tmr_get (l\<lparr>tmrs := a, timer_entry_count := n\<rparr>) i = tmr_get l i" for i
    using assms(3) by (simp add: tmr_get_elem array_same_def)
  then show ?thesis using assms by (fastforce simp: timer_inv_def entries_ok_def entries_linked_def array_same_def)
qed

lemma tmr_index_ok:
  assumes "timer_inv l" "timer_env_ok env"
  shows "\<exists>rc p a. tmr_index env l i = Some (rc, p, l\<lparr>tmrs := a\<rparr>) \<and> timer_inv (l\<lparr>tmrs := a\<rparr>) \<and> array_same (tmrs l) a \<and>
           (rc = 0 \<longrightarrow> 0 \<le> i \<and> array_has a (nat i))"
proof -
  have "array_inv (tmrs l)" "array_env_ok (te_arr env)" "timer_entry_count l \<le> max_elements (tmrs l)"
    using assms by (auto simp: timer_inv_def entries_ok_def timer_env_ok_def)
  moreover from array_index_any[OF this(1,2), of i] obtain rc p cb a where
    "array_index (te_arr env) (tmrs l) i = (ArrayRet rc p cb, a)" "array_inv a" "array_same (tmrs l) a"
    "rc = 0 \<longrightarrow> 0 \<le> i \<and> array_has a (nat i)" by blast
  moreover have "timer_inv (l\<lparr>tmrs := a\<rparr>)"
    using timer_inv_same[OF assms(1) calculation(5,6), of "timer_entry_count l"] calculation(3,6)
    by (auto simp: array_same_def)
  ultimately show ?thesis by (auto simp: tmr_index_def)
qed

lemma timer_from_handle_ok:
  assumes "timer_inv l" "timer_env_ok env"
  shows "\<exists>rc i a. timer_from_handle env l h = Some (rc, i, l\<lparr>tmrs := a\<rparr>) \<and> timer_inv (l\<lparr>tmrs := a\<rparr>) \<and>
           (\<forall>j. tmr_get (l\<lparr>tmrs := a\<rparr>) j = tmr_get l j) \<and>
           (rc = 0 \<longrightarrow> array_has a i \<and> int i = handle_index h \<and> tmr_check (tmr_get l i) = handle_check h)"
proof (cases "h = 0")
  case True
  then show ?thesis using assms(1) by (intro exI[of _ "- EINVAL"] exI[of _ 0] exI[of _ "tmrs l"]) (simp add: timer_from_handle_def)
next
  case False
  obtain rc p a where a: "tmr_index env l (handle_index h) = Some (rc, p, l\<lparr>tmrs := a\<rparr>)" "timer_inv (l\<lparr>tmrs := a\<rparr>)"
    "array_same (tmrs l) a" "rc = 0 \<longrightarrow> 0 \<le> handle_index h \<and> array_has a (nat (handle_index h))"
    using tmr_index_ok[OF assms] by blast
  have "\<forall>j. tmr_get (l\<lparr>tmrs := a\<rparr>) j = tmr_get l j" using a(3) by (simp add: tmr_get_elem array_same_def)
  with a False show ?thesis
    by (cases "rc = 0"; cases "tmr_check (tmr_get l (nat (handle_index h))) = handle_check h") (auto simp: timer_from_handle_def)
qed

text \<open>Changing one entry that has a bin.\<close>

lemma entry_counted: "entries_ok l \<Longrightarrow> tmr_state (tmr_get l i) \<noteq> ENTRY_EMPTY \<Longrightarrow> i < timer_entry_count l"
  by (simp add: entries_ok_def)

lemma entries_ok_set:
  assumes "entries_ok l" "array_has (tmrs l) i" "tmr_state t \<noteq> ENTRY_EMPTY \<Longrightarrow> i < timer_entry_count l"
    and "\<And>p. count_list (job_head (level l p)) (LoopTimer i) \<le> ready_max t p"
  shows "entries_ok (tmr_set l i t)"
proof -
  have inv: "array_inv (tmrs l)" using assms(1) by (simp add: entries_ok_def)
  note tmr_get_set[OF inv assms(2), simp] tmr_set_array[OF inv assms(2), simp]
  show ?thesis using assms by (auto simp: entries_ok_def)
qed

lemma count_list_remove1: "count_list (remove1 x xs) y = count_list xs y - (if x = y then 1 else 0)"
  by (induction xs) auto

text \<open>An entry that is deleted leaves the ready list.\<close>

lemma item_del_level:
  "tlist (qb_loop_level_item_del p x l) = tlist l" "tmrs (qb_loop_level_item_del p x l) = tmrs l"
  "timer_entry_count (qb_loop_level_item_del p x l) = timer_entry_count l"
  "tmr_get (qb_loop_level_item_del p x l) i = tmr_get l i"
  "count_list (job_head (level (qb_loop_level_item_del p x l) q)) y =
     count_list (job_head (level l q)) y - (if q = p \<and> y = x then 1 else 0)"
  for l :: "('f, 'd) timer_loop"
  by (auto simp: qb_loop_level_item_del_def count_list_remove1 tmr_get_def count_list_0_iff)

lemma entry_handle_elem:
  assumes "entries_linked l" "timerlist_handle (tmr_get l i) = Some a"
  shows "a \<in> set (heap_entries (tlist l))" "snd (elem_of (tlist l) a) = (i, i)" "tmr_state (tmr_get l i) = ENTRY_ACTIVE"
  using assms unfolding entries_linked_def by (blast, blast, metis option.distinct(1))

lemma timerlist_del_ok:
  assumes "tl_inv ls" "a \<in> set (heap_entries ls)" "tl_lock_rc env = 0"
  shows "\<exists>ls'. timerlist_del env ls a = Some (0, Some (snd (snd (elem_of ls a))), ls') \<and> tl_inv ls' \<and>
           set (heap_entries ls') = set (heap_entries ls) - {a} \<and> (\<forall>b\<in>set (heap_entries ls'). elem_of ls' b = elem_of ls b)"
proof -
  obtain t where t: "timers ls a = Some t" using tl_inv_timer[OF assms(1,2)] by blast
  obtain ls' where "tl_del ls a = Some ls'" "tl_inv ls'" "set (heap_entries ls') = set (heap_entries ls) - {a}"
    "\<forall>b\<in>set (heap_entries ls'). elem_of ls' b = elem_of ls b"
    using tl_del_ok[OF assms(1,2)] by blast
  then show ?thesis using t assms(3)
    by (auto simp: timerlist_del_def tl_del_def timerlist_post_dispatch_def elem_of_def)
qed

text \<open>The links after the timers of the entries \<open>I\<close> are gone.\<close>

lemma entries_linked_remove:
  assumes linked: "entries_linked l"
    and ls: "set (heap_entries (tlist l')) = set (heap_entries (tlist l)) - A"
      "\<And>b. b \<in> set (heap_entries (tlist l')) \<Longrightarrow> elem_of (tlist l') b = elem_of (tlist l) b"
    and A: "\<And>i a. timerlist_handle (tmr_get l i) = Some a \<Longrightarrow> a \<in> A \<longleftrightarrow> i \<in> I"
    and I: "\<And>i. i \<in> I \<Longrightarrow> timerlist_handle (tmr_get l' i) = None \<and> tmr_state (tmr_get l' i) \<noteq> ENTRY_ACTIVE"
    and rest: "\<And>i. i \<notin> I \<Longrightarrow> tmr_get l' i = tmr_get l i"
  shows "entries_linked l'"
  unfolding entries_linked_def
proof (intro conjI allI ballI)
  fix i
  show "tmr_state (tmr_get l' i) = ENTRY_ACTIVE \<longleftrightarrow> timerlist_handle (tmr_get l' i) \<noteq> None"
    using linked I[of i] rest[of i] by (cases "i \<in> I") (simp_all add: entries_linked_def)
  fix a
  have old: "timerlist_handle (tmr_get l i) = Some a \<longleftrightarrow> a \<in> set (heap_entries (tlist l)) \<and> snd (elem_of (tlist l) a) = (i, i)"
    using linked by (simp add: entries_linked_def)
  show "timerlist_handle (tmr_get l' i) = Some a \<longleftrightarrow> a \<in> set (heap_entries (tlist l')) \<and> snd (elem_of (tlist l') a) = (i, i)"
  proof (cases "i \<in> I")
    case True
    have "\<not> (a \<in> set (heap_entries (tlist l')) \<and> snd (elem_of (tlist l') a) = (i, i))"
      using old A[of i a] True ls(1) ls(2)[of a] by auto
    then show ?thesis using I[OF True] by simp
  next
    case False
    then show ?thesis using old A[of i a] ls(1) ls(2)[of a] rest[of i] by auto
  qed
next
  fix a assume "a \<in> set (heap_entries (tlist l'))"
  then show "fst (snd (elem_of (tlist l') a)) = snd (snd (elem_of (tlist l') a))"
    using linked ls by (simp add: entries_linked_def)
qed

lemma handle_unique:
  assumes "entries_linked l" "timerlist_handle (tmr_get l i) = Some a" "timerlist_handle (tmr_get l j) = Some b"
  shows "a = b \<longleftrightarrow> i = j"
  using entry_handle_elem(2)[OF assms(1,2)] entry_handle_elem(2)[OF assms(1,3)] assms(2,3) by auto

lemma timer_unready_simps [simp]:
  "tlist (timer_unready l i) = tlist l" "tmrs (timer_unready l i) = tmrs l"
  "timer_entry_count (timer_unready l i) = timer_entry_count l" "tmr_get (timer_unready l i) j = tmr_get l j"
  by (simp_all add: timer_unready_def Let_def item_del_level)

lemma timer_unready_ok:
  assumes "entries_ok l"
  shows "entries_ok (timer_unready l i)" "count_list (job_head (level (timer_unready l i) p)) (LoopTimer i) = 0"
proof -
  have c: "count_list (job_head (level l p)) (LoopTimer j) \<le> ready_max (tmr_get l j) p" for p j
    using assms by (metis entries_ok_def)
  show "count_list (job_head (level (timer_unready l i) p)) (LoopTimer i) = 0"
    using c[of p i] by (auto simp: timer_unready_def Let_def item_del_level ready_max_def split: if_splits)
  have "count_list (job_head (level (timer_unready l i) p)) (LoopTimer j) \<le> ready_max (tmr_get l j) p" for p j
    using c[of p j] by (auto simp: timer_unready_def Let_def item_del_level)
  then show "entries_ok (timer_unready l i)" using assms by (simp add: entries_ok_def)
qed

lemma timer_unlist_ok:
  assumes inv: "tl_inv (tlist l)" "entries_ok l" "entries_linked l" and i: "array_has (tmrs l) i"
    and idle: "\<And>p. count_list (job_head (level l p)) (LoopTimer i) = 0" and env: "timer_env_ok env"
  shows "\<exists>l'. timer_unlist env l i = Some l' \<and> tl_inv (tlist l') \<and> entries_ok l' \<and> level l' = level l \<and> array_has (tmrs l') i \<and>
           (\<forall>j. tmr_get l' j = (if j = i then (tmr_get l i)\<lparr>timerlist_handle := None\<rparr> else tmr_get l j)) \<and>
           (\<forall>t. tmr_state t = ENTRY_EMPTY \<longrightarrow> timerlist_handle t = None \<longrightarrow> entries_linked (tmr_set l' i t))"
proof (cases "timerlist_handle (tmr_get l i)")
  case None
  have a: "array_inv (tmrs l)" using inv(2) by (simp add: entries_ok_def)
  have "entries_linked (tmr_set l i t)" if "tmr_state t = ENTRY_EMPTY" "timerlist_handle t = None" for t
    by (rule entries_linked_remove[of l _ "{}" "{i}"]) (use that None inv(3) tmr_get_set[OF a i] in auto)
  moreover have "(tmr_get l i)\<lparr>timerlist_handle := None\<rparr> = tmr_get l i" using None by simp
  ultimately show ?thesis using None inv i by (simp add: timer_unlist_def)
next
  case (Some b)
  have a: "array_inv (tmrs l)" using inv(2) by (simp add: entries_ok_def)
  have b: "b \<in> set (heap_entries (tlist l))" "snd (elem_of (tlist l) b) = (i, i)"
    using entry_handle_elem[OF inv(3) Some] by simp_all
  have "tl_lock_rc (te_tl env) = 0" using env by (simp add: timer_env_ok_def)
  from timerlist_del_ok[OF inv(1) b(1) this] obtain ls where
    ls: "timerlist_del (te_tl env) (tlist l) b = Some (0, Some i, ls)" "tl_inv ls"
      "set (heap_entries ls) = set (heap_entries (tlist l)) - {b}" "\<forall>c\<in>set (heap_entries ls). elem_of ls c = elem_of (tlist l) c"
    using b(2) by auto
  define l1 where "l1 = l\<lparr>tlist := ls\<rparr>"
  have l1: "array_inv (tmrs l1)" "array_has (tmrs l1) i" "tmr_get l1 j = tmr_get l j" "level l1 = level l" for j
    using a i by (simp_all add: l1_def)
  define l' where "l' = tmr_set l1 i ((tmr_get l i)\<lparr>timerlist_handle := None\<rparr>)"
  have get: "tmr_get l' j = (if j = i then (tmr_get l i)\<lparr>timerlist_handle := None\<rparr> else tmr_get l j)" for j
    using tmr_get_set[OF l1(1,2)] by (simp add: l'_def l1(3))
  have l': "array_inv (tmrs l')" "array_has (tmrs l') i" using tmr_set_array[OF l1(1,2)] l1 by (simp_all add: l'_def)
  have "entries_ok l1" using inv(2) by (simp add: entries_ok_def l1_def)
  then have "entries_ok l'" unfolding l'_def using l1 idle entry_counted[of l1 i] by (intro entries_ok_set) simp_all
  moreover have "entries_linked (tmr_set l' i t)" if "tmr_state t = ENTRY_EMPTY" "timerlist_handle t = None" for t
    by (rule entries_linked_remove[of l _ "{b}" "{i}"])
      (use that inv(3) Some get tmr_get_set[OF l'] ls(3,4) in \<open>auto simp: l'_def l1_def dest: handle_unique[OF inv(3) Some]\<close>)
  moreover have "timer_unlist env l i = Some l'"
    using Some ls(1) l1(3) by (simp add: timer_unlist_def clear_handle_def l1_def[symmetric] l'_def)
  ultimately show ?thesis using get l' ls(2) l1(4) by (intro exI[of _ l']) (simp add: l'_def l1_def)
qed

text \<open>Deleting a timer through any handle.\<close>

lemma timer_del_ok:
  assumes inv: "timer_inv l" and env: "timer_env_ok env"
  shows "\<exists>rc l'. qb_loop_timer_del env l h = Some (rc, l') \<and> timer_inv l' \<and>
           (rc = 0 \<longrightarrow> tmr_state (tmr_get l' (nat (handle_index h))) \<in> {ENTRY_EMPTY, ENTRY_DELETED} \<and>
              (\<forall>p. LoopTimer (nat (handle_index h)) \<notin> set (job_head (level l' p)))) \<and>
           (\<forall>j. j \<noteq> nat (handle_index h) \<or> rc \<noteq> 0 \<longrightarrow> tmr_get l' j = tmr_get l j)"
proof -
  obtain rc i a where f: "timer_from_handle env l h = Some (rc, i, l\<lparr>tmrs := a\<rparr>)" "timer_inv (l\<lparr>tmrs := a\<rparr>)"
      "\<forall>j. tmr_get (l\<lparr>tmrs := a\<rparr>) j = tmr_get l j"
      "rc = 0 \<longrightarrow> array_has a i \<and> int i = handle_index h \<and> tmr_check (tmr_get l i) = handle_check h"
    using timer_from_handle_ok[OF inv env] by blast
  define l1 where "l1 = l\<lparr>tmrs := a\<rparr>"
  have get1: "tmr_get l1 j = tmr_get l j" for j using f(3) by (simp add: l1_def)
  have ok1: "entries_ok l1" "entries_linked l1" "tl_inv (tlist l1)" using f(2) by (simp_all add: l1_def timer_inv_def)
  consider "rc \<noteq> 0" | "rc = 0" "tmr_state (tmr_get l i) = ENTRY_DELETED" | "rc = 0" "tmr_state (tmr_get l i) = ENTRY_EMPTY"
    | "rc = 0" "tmr_state (tmr_get l i) \<in> {ENTRY_ACTIVE, ENTRY_JOBLIST}"
    using qb_poll_entry_state.exhaust by blast
  then show ?thesis
  proof cases
    case 1
    then show ?thesis using f by (auto simp: qb_loop_timer_del_def)
  next
    case 2
    have i: "nat (handle_index h) = i" using f(4) 2 by auto
    have "LoopTimer i \<notin> set (job_head (level l1 p))" for p
      using timer_unready_ok(2)[OF ok1(1), of i p] 2 get1[of i] by (simp add: timer_unready_def count_list_0_iff)
    with 2 f show ?thesis by (simp add: qb_loop_timer_del_def i l1_def)
  next
    case 3
    then show ?thesis using f by (auto simp: qb_loop_timer_del_def)
  next
    case 4
    have has: "array_has (tmrs (timer_unready l1 i)) i" using f(4) 4 by (simp add: l1_def)
    have i: "nat (handle_index h) = i" using f(4) 4 by auto
    have link: "entries_linked (timer_unready l1 i)" using ok1(2) by (simp add: entries_linked_def)
    obtain l2 where l2: "timer_unlist env (timer_unready l1 i) i = Some l2" "tl_inv (tlist l2)" "entries_ok l2"
        "level l2 = level (timer_unready l1 i)" "array_has (tmrs l2) i"
        "\<forall>j. tmr_get l2 j = (if j = i then (tmr_get l i)\<lparr>timerlist_handle := None\<rparr> else tmr_get l j)"
        "\<forall>t. tmr_state t = ENTRY_EMPTY \<longrightarrow> timerlist_handle t = None \<longrightarrow> entries_linked (tmr_set l2 i t)"
      using timer_unlist_ok[OF _ timer_unready_ok(1)[OF ok1(1)] link has timer_unready_ok(2)[OF ok1(1)] env] ok1(3) get1 by auto
    define l' where "l' = tmr_set l2 i ((tmr_get l i)\<lparr>timerlist_handle := None, tmr_state := ENTRY_EMPTY\<rparr>)"
    have a2: "array_inv (tmrs l2)" using l2(3) by (simp add: entries_ok_def)
    have "qb_loop_timer_del env l h = Some (0, l')"
      using 4 f(1) l2(1,6) get1[of i] by (auto simp: qb_loop_timer_del_def l1_def[symmetric] l'_def)
    moreover have "entries_ok l'" unfolding l'_def
      using l2(3,5) timer_unready_ok(2)[OF ok1(1)] by (intro entries_ok_set) (simp_all add: l2(4))
    moreover have "LoopTimer i \<notin> set (job_head (level l' p))" for p
      using timer_unready_ok(2)[OF ok1(1), of i p] by (simp add: l'_def l2(4) count_list_0_iff)
    ultimately show ?thesis using l2(2,6,7) i tmr_get_set[OF a2 l2(5)] by (auto simp: timer_inv_def l'_def)
  qed
qed

text \<open>Firing the timers of the entries \<open>is\<close>, all active, makes them ready in this order.\<close>

definition ready_entries :: "('f, 'd) timer_loop \<Rightarrow> nat \<Rightarrow> nat list \<Rightarrow> ('f, 'd) loop_item list" where
  "ready_entries l p is = map LoopTimer (filter (\<lambda>i. tmr_p (tmr_get l i) = p) is)"

definition fired :: "('f, 'd) qb_loop_timer \<Rightarrow> ('f, 'd) qb_loop_timer" where
  "fired t = t\<lparr>timerlist_handle := None, tmr_state := ENTRY_JOBLIST\<rparr>"

lemma fire_one:
  assumes "entries_ok l" "tmr_state (tmr_get l i) = ENTRY_ACTIVE"
  shows "\<exists>l'. make_job_from_tmo i (clear_handle i l) = Some l' \<and> entries_ok l' \<and> tlist l' = tlist l \<and>
           (\<forall>j. tmr_get l' j = (if j = i then fired (tmr_get l i) else tmr_get l j)) \<and>
           (\<forall>p. job_head (level l' p) = job_head (level l p) @ ready_entries l p [i])"
proof -
  let ?t = "(tmr_get l i)\<lparr>timerlist_handle := None\<rparr>"
  have i: "array_inv (tmrs l)" "array_has (tmrs l) i" using assms by (auto simp: entries_ok_def)
  have idle: "count_list (job_head (level l p)) (LoopTimer i) = 0" for p
    using assms unfolding entries_ok_def by (metis le_zero_eq ready_max_def qb_poll_entry_state.distinct(9))
  define l1 where "l1 = tmr_set l i ?t"
  have l1: "array_inv (tmrs l1)" "array_has (tmrs l1) i" "tmr_get l1 j = (if j = i then ?t else tmr_get l j)"
    "tlist l1 = tlist l" "level l1 = level l" "timer_entry_count l1 = timer_entry_count l" for j
    using tmr_set_array[OF i] i tmr_get_set[OF i] by (simp_all add: l1_def)
  have ok1: "entries_ok l1" unfolding l1_def using assms(1) i idle entry_counted[of l i] by (intro entries_ok_set) simp_all
  define l2 where "l2 = qb_loop_level_item_add (tmr_p ?t) (LoopTimer i) l1"
  have l2: "tmrs l2 = tmrs l1" "tlist l2 = tlist l" "timer_entry_count l2 = timer_entry_count l1" "tmr_get l2 j = tmr_get l1 j"
    "job_head (level l2 p) = job_head (level l p) @ ready_entries l p [i]" for j p
    using l1 by (simp_all add: l2_def qb_loop_level_item_add_def tmr_get_def ready_entries_def)
  have h2: "array_inv (tmrs l2)" "array_has (tmrs l2) i" using l1 l2 by simp_all
  define l' where "l' = tmr_set l2 i (fired (tmr_get l i))"
  have get: "tmr_get l' j = (if j = i then fired (tmr_get l i) else tmr_get l j)" for j
    using tmr_get_set[OF h2] l1(3) l2(4) by (simp add: l'_def)
  have old: "count_list (job_head (level l p)) (LoopTimer j) \<le> ready_max (tmr_get l j) p" for p j
    using assms(1) by (metis entries_ok_def)
  have "count_list (job_head (level l' p)) (LoopTimer j) \<le> ready_max (tmr_get l' j) p" for p j
  proof -
    have "job_head (level l' p) = job_head (level l p) @ ready_entries l p [i]" using l2(5) by (simp add: l'_def)
    then show ?thesis using old[of p j] idle[of p]
      by (simp add: get ready_entries_def) (simp add: ready_max_def fired_def)
  qed
  then have "entries_ok l'" using ok1 tmr_set_array[OF h2] get l1 l2 entry_counted[OF assms(1), of i] assms(2)
    by (auto simp: entries_ok_def l'_def)
  moreover have "make_job_from_tmo i (clear_handle i l) = Some l'"
    using assms(2) l1(3)[of i]
    by (simp add: make_job_from_tmo_def clear_handle_def l1_def[symmetric] l2_def l'_def fired_def)
  ultimately show ?thesis using get l2 by (intro exI[of _ l']) (simp add: l'_def)
qed

lemma fire_timers_ok:
  assumes "entries_ok l" "distinct is" "\<forall>i\<in>set is. tmr_state (tmr_get l i) = ENTRY_ACTIVE"
  shows "\<exists>l'. fire_timers (map (\<lambda>i. (i, i)) is) l = Some l' \<and> entries_ok l' \<and> tlist l' = tlist l \<and>
           (\<forall>j. tmr_get l' j = (if j \<in> set is then fired (tmr_get l j) else tmr_get l j)) \<and>
           (\<forall>p. job_head (level l' p) = job_head (level l p) @ ready_entries l p is)"
  using assms
proof (induction "is" arbitrary: l)
  case Nil
  then show ?case by (simp add: ready_entries_def)
next
  case (Cons i "is")
  obtain l1 where l1: "make_job_from_tmo i (clear_handle i l) = Some l1" "entries_ok l1" "tlist l1 = tlist l"
    "\<forall>j. tmr_get l1 j = (if j = i then fired (tmr_get l i) else tmr_get l j)"
    "\<forall>p. job_head (level l1 p) = job_head (level l p) @ ready_entries l p [i]"
    using fire_one[OF Cons.prems(1), of i] Cons.prems(3) by auto
  have "\<forall>i\<in>set is. tmr_state (tmr_get l1 i) = ENTRY_ACTIVE" using l1(4) Cons.prems(2,3) by auto
  with Cons.IH[OF l1(2)] Cons.prems(2) obtain l' where
    l': "fire_timers (map (\<lambda>i. (i, i)) is) l1 = Some l'" "entries_ok l'" "tlist l' = tlist l1"
      "\<forall>j. tmr_get l' j = (if j \<in> set is then fired (tmr_get l1 j) else tmr_get l1 j)"
      "\<forall>p. job_head (level l' p) = job_head (level l1 p) @ ready_entries l1 p is" by auto
  have "ready_entries l1 p is = ready_entries l p is" for p
    unfolding ready_entries_def using l1(4) Cons.prems(2) by (intro arg_cong[of _ _ "map LoopTimer"] filter_cong) auto
  then have "ready_entries l p [i] @ ready_entries l1 p is = ready_entries l p (i # is)" for p
    by (simp add: ready_entries_def)
  with l1 l' Cons.prems(2) show ?case by auto
qed

text \<open>The entries of the timers that are due, and the whole of a poll of the timers.\<close>

definition due_entries :: "u64 \<Rightarrow> ('f, 'd) timer_loop \<Rightarrow> nat set" where
  "due_entries now l = {i. \<exists>a. timerlist_handle (tmr_get l i) = Some a \<and> fst (elem_of (tlist l) a) < now}"

definition entry_time :: "('f, 'd) timer_loop \<Rightarrow> nat \<Rightarrow> u64" where
  "entry_time l i = fst (elem_of (tlist l) (the (timerlist_handle (tmr_get l i))))"

lemma expire_ok:
  assumes inv: "timer_inv l" and env: "timer_env_ok env"
  shows "\<exists>is l'. expire_the_timers env l = Some (int (length is), l') \<and> timer_inv l' \<and>
           set is = due_entries (te_now env) l \<and> distinct is \<and> sorted (map (entry_time l) is) \<and>
           (\<forall>p. job_head (level l' p) = job_head (level l p) @ ready_entries l p is) \<and>
           (\<forall>j. tmr_get l' j = (if j \<in> set is then fired (tmr_get l j) else tmr_get l j))"
proof -
  have ok: "tl_inv (tlist l)" "entries_ok l" "entries_linked l" using inv by (simp_all add: timer_inv_def)
  obtain as ls where x: "expire_loop (te_now env) (te_epoch env) (tlist l) = Some (map (\<lambda>a. snd (elem_of (tlist l) a)) as, ls)"
      "tl_inv ls" "distinct as" "set as = {a \<in> set (heap_entries (tlist l)). fst (elem_of (tlist l) a) < te_now env}"
      "sorted (map (\<lambda>a. fst (elem_of (tlist l) a)) as)" "set (heap_entries ls) = set (heap_entries (tlist l)) - set as"
      "\<forall>b\<in>set (heap_entries ls). elem_of ls b = elem_of (tlist l) b"
    using expire_loop_pointers[OF ok(1)] by blast
  define ent where "ent a = fst (snd (elem_of (tlist l) a))" for a
  have ent: "timerlist_handle (tmr_get l i) = Some a \<longleftrightarrow> a \<in> set (heap_entries (tlist l)) \<and> ent a = i"
    "a \<in> set (heap_entries (tlist l)) \<Longrightarrow> snd (elem_of (tlist l) a) = (ent a, ent a)" for a i
    using ok(3) unfolding entries_linked_def ent_def by (auto simp: prod_eq_iff)
  define "is" where "is = map ent as"
  have pairs: "map (\<lambda>a. snd (elem_of (tlist l) a)) as = map (\<lambda>i. (i, i)) is"
    unfolding is_def using ent(2) x(4) by simp
  have handle: "timerlist_handle (tmr_get l (ent a)) = Some a" if "a \<in> set as" for a
    using that ent(1) x(4) by simp
  have dist: "distinct is"
    using x(3) handle unfolding is_def by (simp add: distinct_map inj_on_def) (metis option.sel)
  have active: "\<forall>i\<in>set is. tmr_state (tmr_get l i) = ENTRY_ACTIVE"
    using handle ok(3) entry_handle_elem(3) unfolding is_def by auto
  have due: "set is = due_entries (te_now env) l"
    unfolding due_entries_def is_def using x(4) ent(1) by auto
  define l1 where "l1 = l\<lparr>tlist := ls\<rparr>"
  have l1: "tmr_get l1 j = tmr_get l j" "level l1 = level l" "tlist l1 = ls" "entries_ok l1" "ready_entries l1 p is = ready_entries l p is" for j p
    using ok(2) by (simp_all add: l1_def entries_ok_def ready_entries_def)
  obtain l' where l': "fire_timers (map (\<lambda>i. (i, i)) is) l1 = Some l'" "entries_ok l'" "tlist l' = ls"
      "\<forall>j. tmr_get l' j = (if j \<in> set is then fired (tmr_get l j) else tmr_get l j)"
      "\<forall>p. job_head (level l' p) = job_head (level l p) @ ready_entries l p is"
    using fire_timers_ok[OF l1(4) dist] active l1 by auto
  have "a \<in> set as \<longleftrightarrow> i \<in> set is" if "timerlist_handle (tmr_get l i) = Some a" for i a
    using that handle ent(1) unfolding is_def by auto (metis option.sel)
  then have "entries_linked l'"
    by (rule entries_linked_remove[rotated 3]) (use ok(3) l'(3,4) x(6,7) in \<open>auto simp: fired_def\<close>)
  moreover have "sorted (map (entry_time l) is)"
    using x(5) handle unfolding is_def by (simp add: entry_time_def comp_def cong: map_cong)
  moreover have "expire_the_timers env l = Some (int (length is), l')"
    using x(1) env l'(1) pairs by (simp add: expire_the_timers_def timerlist_expire_def timer_env_ok_def l1_def)
  ultimately show ?thesis using l' x(2) dist due by (auto simp: timer_inv_def)
qed

text \<open>The place of a new timer: the first empty entry.\<close>

lemma find_empty_ok:
  assumes "array_inv a" "array_env_ok (te_arr env)" "i + k \<le> max_elements a"
  shows "\<exists>a'. find_empty_timer env i k a = Some (find (\<lambda>j. tmr_state (array_elem a j) = ENTRY_EMPTY) [i..<i + k], a') \<and>
           array_inv a' \<and> array_same a a' \<and> max_elements a' = max_elements a"
  using assms
proof (induction k arbitrary: i a)
  case 0
  then show ?case by simp
next
  case (Suc k)
  obtain a1 cb where a1: "array_index (te_arr env) a (int i) = (ArrayRet 0 (Some (array_ptr i)) cb, a1)" "array_inv a1"
    "array_same a a1" "max_elements a1 = max_elements a"
    using array_index_below[OF Suc.prems(1,2), of i] Suc.prems(3) by auto
  have el: "array_elem a1 j = array_elem a j" for j using a1(3) by (simp add: array_same_def)
  have up: "find Q [i..<Suc (i + k)] = (if Q i then Some i else find Q [Suc i..<Suc (i + k)])" for Q
    by (simp add: upt_conv_Cons del: upt_Suc)
  obtain a2 where a2: "find_empty_timer env (Suc i) k a1 = Some (find (\<lambda>j. tmr_state (array_elem a j) = ENTRY_EMPTY) [Suc i..<Suc (i + k)], a2)"
    "array_inv a2" "array_same a1 a2" "max_elements a2 = max_elements a1"
    using Suc.IH[OF a1(2) Suc.prems(2), of "Suc i"] Suc.prems(3) a1(4) el by auto
  show ?case
  proof (cases "tmr_state (array_elem a i) = ENTRY_EMPTY")
    case True
    then show ?thesis using a1 el[of i] by (simp add: up array_elem_def del: upt_Suc)
  next
    case False
    then show ?thesis using a1 a2 el[of i] array_same_trans[OF a1(3) a2(3)] by (simp add: up array_elem_def del: upt_Suc)
  qed
qed

lemma get_empty_ok:
  assumes inv: "timer_inv l" and env: "timer_env_ok env" and room: "timer_entry_count l < QB_ARRAY_MAX_ELEMENTS"
  shows "\<exists>i a n. get_empty_array_position env l = Some (int i, l\<lparr>tmrs := a, timer_entry_count := n\<rparr>) \<and>
           timer_inv (l\<lparr>tmrs := a, timer_entry_count := n\<rparr>) \<and> array_same (tmrs l) a \<and>
           tmr_state (tmr_get l i) = ENTRY_EMPTY \<and> i < n \<and> n \<le> timer_entry_count l + 1"
proof -
  let ?n = "timer_entry_count l"
  let ?f = "find (\<lambda>j. tmr_state (array_elem (tmrs l) j) = ENTRY_EMPTY) [0..<0 + ?n]"
  have a: "array_inv (tmrs l)" "array_env_ok (te_arr env)" "0 + ?n \<le> max_elements (tmrs l)" "realloc_ok (te_arr env)"
    using inv env by (simp_all add: timer_inv_def entries_ok_def timer_env_ok_def array_env_ok_def)
  obtain a1 where a1: "find_empty_timer env 0 ?n (tmrs l) = Some (?f, a1)" "array_inv a1" "array_same (tmrs l) a1"
    "max_elements a1 = max_elements (tmrs l)"
    using find_empty_ok[OF a(1-3)] by blast
  show ?thesis
  proof (cases ?f)
    case (Some i)
    then have "i < ?n" "tmr_state (tmr_get l i) = ENTRY_EMPTY" by (auto simp: find_Some_iff tmr_get_elem)
    moreover have "l\<lparr>tmrs := a1, timer_entry_count := ?n\<rparr> = l\<lparr>tmrs := a1\<rparr>" by simp
    ultimately show ?thesis
      using timer_inv_same[OF inv a1(2,3), of ?n] a1 a(3) Some
      by (intro exI[of _ i] exI[of _ a1] exI[of _ ?n]) (simp add: get_empty_array_position_def)
  next
    case None
    obtain a2 where a2: "array_grow (te_arr env) a1 (?n + 1) = (0, a2)" "array_inv a2" "array_same a1 a2"
      "max_elements a2 = max (?n + 1) (max_elements a1)"
      using array_grow_ok[OF a1(2) a(4), of "?n + 1"] room by auto
    have "tmr_state (tmr_get l ?n) = ENTRY_EMPTY"
      using inv entry_counted[of l ?n] by (auto simp: timer_inv_def)
    then show ?thesis
      using timer_inv_same[OF inv a2(2) array_same_trans[OF a1(3) a2(3)], of "?n + 1"] a1 a2 None array_same_trans[OF a1(3) a2(3)]
      by (intro exI[of _ ?n] exI[of _ a2] exI[of _ "?n + 1"]) (simp add: get_empty_array_position_def)
  qed
qed

text \<open>A new timer in the list for the entry \<open>i\<close>, which was empty.\<close>

lemma entries_linked_add:
  assumes linked: "entries_linked l" and empty: "tmr_state (tmr_get l i) = ENTRY_EMPTY"
    and ls: "set (heap_entries (tlist l')) = insert a (set (heap_entries (tlist l)))" "a \<notin> set (heap_entries (tlist l))"
      "\<And>b. b \<in> set (heap_entries (tlist l')) \<Longrightarrow> elem_of (tlist l') b = (if b = a then (e, i, i) else elem_of (tlist l) b)"
    and get: "\<And>j. tmr_get l' j = (if j = i then t else tmr_get l j)"
    and t: "timerlist_handle t = Some a" "tmr_state t = ENTRY_ACTIVE"
  shows "entries_linked l'"
  unfolding entries_linked_def
proof (intro conjI allI ballI)
  fix j
  show "tmr_state (tmr_get l' j) = ENTRY_ACTIVE \<longleftrightarrow> timerlist_handle (tmr_get l' j) \<noteq> None"
    using linked get t by (simp add: entries_linked_def)
  fix b
  have old: "timerlist_handle (tmr_get l j) = Some b \<longleftrightarrow> b \<in> set (heap_entries (tlist l)) \<and> snd (elem_of (tlist l) b) = (j, j)"
    using linked by (simp add: entries_linked_def)
  have "timerlist_handle (tmr_get l i) = None" using linked empty by (metis entries_linked_def qb_poll_entry_state.distinct(5))
  then show "timerlist_handle (tmr_get l' j) = Some b \<longleftrightarrow> b \<in> set (heap_entries (tlist l')) \<and> snd (elem_of (tlist l') b) = (j, j)"
    using old ls(1,2) ls(3)[of b] get t by (cases "b = a") auto
next
  fix b assume "b \<in> set (heap_entries (tlist l'))"
  then show "fst (snd (elem_of (tlist l') b)) = snd (snd (elem_of (tlist l') b))"
    using linked ls by (auto simp: entries_linked_def)
qed

lemma timer_place_ok:
  assumes inv: "timer_inv l" and env: "timer_env_ok env" and room: "timer_entry_count l < QB_ARRAY_MAX_ELEMENTS"
  shows "\<exists>i l1 l2. get_empty_array_position env l = Some (int i, l1) \<and> tmr_index env l1 (int i) = Some (0, Some (array_ptr i), l2) \<and>
           timer_inv l2 \<and> tlist l2 = tlist l \<and> level l2 = level l \<and> (\<forall>j. tmr_get l2 j = tmr_get l j) \<and>
           array_has (tmrs l2) i \<and> i < timer_entry_count l2 \<and> i < QB_ARRAY_MAX_ELEMENTS \<and> tmr_state (tmr_get l i) = ENTRY_EMPTY"
proof -
  obtain i a n where g: "get_empty_array_position env l = Some (int i, l\<lparr>tmrs := a, timer_entry_count := n\<rparr>)"
    "timer_inv (l\<lparr>tmrs := a, timer_entry_count := n\<rparr>)" "array_same (tmrs l) a" "tmr_state (tmr_get l i) = ENTRY_EMPTY"
    "i < n" "n \<le> timer_entry_count l + 1"
    using get_empty_ok[OF inv env room] by blast
  have a: "array_inv a" "i < max_elements a" "n \<le> max_elements a" "array_env_ok (te_arr env)"
    using g(2,5) env by (auto simp: timer_inv_def entries_ok_def timer_env_ok_def)
  obtain b cb where b: "array_index (te_arr env) a (int i) = (ArrayRet 0 (Some (array_ptr i)) cb, b)" "array_inv b"
    "array_same a b" "array_has b i" "max_elements b = max_elements a"
    using array_index_below[OF a(1,4,2)] by blast
  let ?l1 = "l\<lparr>tmrs := a, timer_entry_count := n\<rparr>" and ?l2 = "l\<lparr>tmrs := b, timer_entry_count := n\<rparr>"
  have e: "?l1\<lparr>tmrs := b, timer_entry_count := n\<rparr> = ?l2" "?l1\<lparr>tmrs := b\<rparr> = ?l2" by (cases l; simp)+
  have "timer_inv ?l2" using timer_inv_same[OF g(2), of b n] b(2,3,5) a(3) by (simp add: e)
  moreover have "tmr_index env ?l1 (int i) = Some (0, Some (array_ptr i), ?l2)" using b(1) by (simp add: tmr_index_def e)
  moreover have "tmr_get ?l2 j = tmr_get l j" for j using array_same_trans[OF g(3) b(3)] by (simp add: tmr_get_elem array_same_def)
  ultimately show ?thesis using g b(4) room by (intro exI[of _ i] exI[of _ ?l1] exI[of _ ?l2]) simp
qed

lemma timer_add_ok:
  assumes inv: "timer_inv l" and env: "timer_env_ok env" and room: "timer_entry_count l < QB_ARRAY_MAX_ELEMENTS"
    and new: "te_malloc env = Some x" "timers (tlist l) x = None"
  shows "\<exists>i l'. qb_loop_timer_add env (Some l) p dur data (Some f) =
             Some (0, Some (make_handle (pick_check (te_draw env)) (int i)), Some l') \<and> timer_inv l' \<and>
           i < QB_ARRAY_MAX_ELEMENTS \<and> tmr_state (tmr_get l i) = ENTRY_EMPTY \<and> level l' = level l \<and>
           (\<forall>j. j \<noteq> i \<longrightarrow> tmr_get l' j = tmr_get l j) \<and> tmr_state (tmr_get l' i) = ENTRY_ACTIVE \<and> tmr_fn (tmr_get l' i) = Some f \<and>
           tmr_data (tmr_get l' i) = data \<and> tmr_p (tmr_get l' i) = p \<and> tmr_check (tmr_get l' i) = pick_check (te_draw env) \<and>
           entry_time l' i = te_now env + dur \<and> (\<forall>j. j \<noteq> i \<longrightarrow> tmr_state (tmr_get l j) = ENTRY_ACTIVE \<longrightarrow> entry_time l' j = entry_time l j)"
proof -
  obtain i l1 l2 where g: "get_empty_array_position env l = Some (int i, l1)" "tmr_state (tmr_get l i) = ENTRY_EMPTY"
    and ix: "tmr_index env l1 (int i) = Some (0, Some (array_ptr i), l2)"
    and l2: "timer_inv l2" "tlist l2 = tlist l" "level l2 = level l" "\<And>j. tmr_get l2 j = tmr_get l j" "i < timer_entry_count l2"
      "array_has (tmrs l2) i" and i: "i < QB_ARRAY_MAX_ELEMENTS"
    using timer_place_ok[OF inv env room] by blast
  have env': "tl_lock_rc (te_tl env) = 0" "tl_realloc_errno (te_tl env) = 0" "te_lock_rc env = 0"
    using env by (simp_all add: timer_env_ok_def)
  define c where "c = pick_check (te_draw env)"
  define t where "t = (tmr_get l i)\<lparr>tmr_state := ENTRY_ACTIVE, install_pos := i, tmr_data := data, tmr_fn := Some f, tmr_p := p, tmr_check := c\<rparr>"
  define l3 where "l3 = tmr_set l2 i t"
  have h2: "array_inv (tmrs l2)" "array_has (tmrs l2) i" using l2(1,6) by (simp_all add: timer_inv_def entries_ok_def)
  have h3: "array_inv (tmrs l3)" "array_has (tmrs l3) i" using tmr_set_array[OF h2] h2 by (simp_all add: l3_def)
  have "tl_inv (tlist l)" using inv by (simp add: timer_inv_def)
  from timerlist_add_duration_ok[OF this new(2) env'(1,2), of "te_now env" i dur i] obtain ls where
    ls: "timerlist_add_duration (te_tl env) (Some x) (te_now env) (tlist l) i dur i = Some (0, Some x, ls)" "tl_inv ls"
      "set (heap_entries ls) = insert x (set (heap_entries (tlist l)))"
      "\<forall>b\<in>set (heap_entries ls). elem_of ls b = (if b = x then (te_now env + dur, i, i) else elem_of (tlist l) b)" by blast
  define l4 where "l4 = l3\<lparr>tlist := ls\<rparr>"
  have h4: "array_inv (tmrs l4)" "array_has (tmrs l4) i" using h3 by (simp_all add: l4_def)
  have get4: "tmr_get (tmr_set l2 i t) i = t" using tmr_get_set[OF h2, of t i] by simp
  define l' where "l' = tmr_set l4 i (t\<lparr>timerlist_handle := Some x\<rparr>)"
  have get: "tmr_get l' j = (if j = i then t\<lparr>timerlist_handle := Some x\<rparr> else tmr_get l j)" for j
    using tmr_get_set[OF h4] tmr_get_set[OF h2] l2(4) by (simp add: l'_def l4_def l3_def)
  have ok2: "entries_ok l2" "entries_linked l" using l2(1) inv by (simp_all add: timer_inv_def)
  have idle: "count_list (job_head (level l2 q)) (LoopTimer i) = 0" for q
    using ok2(1) l2(4)[of i] g(2) unfolding entries_ok_def
    by (metis le_zero_eq ready_max_def qb_poll_entry_state.distinct(1))
  have "entries_ok l3" unfolding l3_def using ok2 h2 idle l2(5) by (intro entries_ok_set) simp_all
  then have "entries_ok l4" by (simp add: entries_ok_def l4_def)
  then have "entries_ok l'" unfolding l'_def using h4 idle l2(5)
    by (intro entries_ok_set) (simp_all add: l4_def l3_def)
  moreover have x: "x \<notin> set (heap_entries (tlist l))" using inv new(2) unfolding timer_inv_def tl_inv_def by (metis domIff)
  then have "entries_linked l'"
    by (intro entries_linked_add[OF ok2(2) g(2), of l' x "te_now env + dur"]) (use ls(3,4) get in \<open>auto simp: l'_def l4_def t_def\<close>)
  moreover have "tlist l' = ls" by (simp add: l'_def l4_def)
  moreover have "qb_loop_timer_add env (Some l) p dur data (Some f) = Some (0, Some (make_handle c (int i)), Some l')"
    using env'(3) g(1) new(1) ix ls(1) l2(2,4) get4
    by (simp add: qb_loop_timer_add_def c_def[symmetric] t_def[symmetric] l3_def[symmetric] l4_def[symmetric] l'_def)
  moreover have "entry_time l' i = te_now env + dur" using ls(3,4) get \<open>tlist l' = ls\<close> by (simp add: entry_time_def)
  moreover have "entry_time l' j = entry_time l j" if ji: "j \<noteq> i" "tmr_state (tmr_get l j) = ENTRY_ACTIVE" for j
  proof -
    obtain y where y: "timerlist_handle (tmr_get l j) = Some y" using ok2(2) ji(2) unfolding entries_linked_def by blast
    then have "y \<in> set (heap_entries (tlist l))" using entry_handle_elem(1)[OF ok2(2)] by blast
    then show ?thesis using y x ls(3,4) get ji \<open>tlist l' = ls\<close> by (auto simp: entry_time_def)
  qed
  ultimately show ?thesis using ls(2) get g(2) l2(3) i
    by (intro exI[of _ i] exI[of _ l']) (simp add: timer_inv_def t_def c_def l'_def l4_def l3_def)
qed

text \<open>
  Dispatching an entry that was taken off the ready list. The user's callback may use the loop;
  it must leave this entry alone.
\<close>

definition entry_held :: "nat \<Rightarrow> ('f, 'd) timer_loop \<Rightarrow> bool" where
  "entry_held i l \<longleftrightarrow>
     timer_inv l \<and> tmr_state (tmr_get l i) = ENTRY_JOBLIST \<and> (\<forall>p. LoopTimer i \<notin> set (job_head (level l p)))"

lemma entries_linked_set_idle:
  assumes "timer_inv l" "tmr_state (tmr_get l i) = ENTRY_JOBLIST" "tmr_state t \<noteq> ENTRY_ACTIVE" "timerlist_handle t = timerlist_handle (tmr_get l i)"
  shows "entries_linked (tmr_set l i t)"
proof -
  have l: "entries_linked l" "array_inv (tmrs l)" "array_has (tmrs l) i" using assms(1,2) by (auto simp: timer_inv_def entries_ok_def)
  have "timerlist_handle (tmr_get l i) = None" using l(1) assms(2) by (metis entries_linked_def qb_poll_entry_state.distinct(9))
  with assms(4) have n: "timerlist_handle (tmr_get l i) = None" "timerlist_handle t = None" by simp_all
  have get: "tmr_get (tmr_set l i t) j = (if j = i then t else tmr_get l j)" for j by (rule tmr_get_set[OF l(2,3)])
  show ?thesis
    by (rule entries_linked_remove[of l _ "{}" "{i}"]) (use l(1) n assms(3) in \<open>auto simp: get\<close>)
qed

lemma entry_held_set:
  assumes "entry_held i l" "tmr_state t \<in> {ENTRY_JOBLIST, ENTRY_EMPTY}" "timerlist_handle t = timerlist_handle (tmr_get l i)"
  shows "timer_inv (tmr_set l i t)" "tmr_state t = ENTRY_JOBLIST \<Longrightarrow> entry_held i (tmr_set l i t)" "array_has (tmrs l) i" "array_inv (tmrs l)"
proof -
  have l: "timer_inv l" "entries_ok l" "tmr_state (tmr_get l i) = ENTRY_JOBLIST" "\<And>p. LoopTimer i \<notin> set (job_head (level l p))"
    using assms(1) by (auto simp: entry_held_def timer_inv_def)
  show a: "array_has (tmrs l) i" "array_inv (tmrs l)" using l(2,3) by (auto simp: entries_ok_def)
  have "entries_ok (tmr_set l i t)" using l a entry_counted[OF l(2), of i]
    by (intro entries_ok_set) (simp_all add: count_notin)
  moreover have "entries_linked (tmr_set l i t)" using l assms by (intro entries_linked_set_idle) auto
  ultimately show inv: "timer_inv (tmr_set l i t)" using l(1) by (simp add: timer_inv_def)
  show "entry_held i (tmr_set l i t)" if "tmr_state t = ENTRY_JOBLIST"
    using inv l that tmr_get_set[OF a(2,1)] by (simp add: entry_held_def)
qed

lemma timer_dispatch_ok:
  assumes held: "entry_held i l" and cb: "\<And>l. entry_held i l \<Longrightarrow> entry_held i (cb (the (tmr_fn (tmr_get l i))) (tmr_data (tmr_get l i)) l)"
  shows "\<exists>l'. timer_dispatch cb i l = Some l' \<and> timer_inv l' \<and> tmr_state (tmr_get l' i) = ENTRY_EMPTY"
proof -
  let ?t = "tmr_get l i"
  have st: "tmr_state ?t = ENTRY_JOBLIST" using held by (simp add: entry_held_def)
  define l1 where "l1 = tmr_set l i (?t\<lparr>tmr_check := 0\<rparr>)"
  note s1 = entry_held_set[OF held, of "?t\<lparr>tmr_check := 0\<rparr>"]
  have l1: "entry_held i l1" "tmr_get l1 i = ?t\<lparr>tmr_check := 0\<rparr>"
    using s1(2) st tmr_get_set[OF s1(4,3)] by (simp_all add: l1_def)
  define l2 where "l2 = cb (the (tmr_fn ?t)) (tmr_data ?t) l1"
  have l2: "entry_held i l2" using cb[OF l1(1)] by (simp add: l2_def l1(2))
  let ?u = "(tmr_get l2 i)\<lparr>tmr_state := ENTRY_EMPTY\<rparr>"
  note s2 = entry_held_set[OF l2, of ?u]
  have "timer_inv (tmr_set l2 i ?u)" "tmr_get (tmr_set l2 i ?u) i = ?u" using s2 tmr_get_set[OF s2(4,3)] by simp_all
  then show ?thesis using st by (simp add: timer_dispatch_def l1_def[symmetric] l2_def[symmetric])
qed

section \<open>Reachable states\<close>

text \<open>The states of a loop between the operations; the loop takes a ready entry and dispatches it.\<close>

inductive timer_reach :: "('f, 'd) timer_loop \<Rightarrow> bool" where
  created: "qb_array_create_2 aenv True 16 esz 16 zero_timer = Some a \<Longrightarrow> array_env_ok aenv \<Longrightarrow> 1 \<le> esz \<Longrightarrow>
     timer_reach (qb_loop_timer_create \<lparr>level = (\<lambda>_. new_level), stop_requested = False\<rparr> a)"
| added: "timer_reach l \<Longrightarrow> timer_env_ok env \<Longrightarrow> timer_entry_count l < QB_ARRAY_MAX_ELEMENTS \<Longrightarrow>
     te_malloc env = Some x \<Longrightarrow> timers (tlist l) x = None \<Longrightarrow>
     qb_loop_timer_add env (Some l) p dur data (Some f) = Some (rc, h, Some l') \<Longrightarrow> timer_reach l'"
| deleted: "timer_reach l \<Longrightarrow> timer_env_ok env \<Longrightarrow> qb_loop_timer_del env l h = Some (rc, l') \<Longrightarrow> timer_reach l'"
| polled: "timer_reach l \<Longrightarrow> timer_env_ok env \<Longrightarrow> expire_the_timers env l = Some (n, l') \<Longrightarrow> timer_reach l'"
| dispatched: "timer_reach l \<Longrightarrow> job_head (level l p) = LoopTimer i # jobs \<Longrightarrow>
     (\<And>f d l. entry_held i l \<Longrightarrow> entry_held i (cb f d l)) \<Longrightarrow>
     timer_dispatch cb i (upd_level p (\<lambda>v. v\<lparr>job_head := jobs\<rparr>) l) = Some l' \<Longrightarrow> timer_reach l'"

text \<open>An entry at the head of a ready list is held once it is taken off.\<close>

lemma take_ready_held:
  assumes inv: "timer_inv l" and hd: "job_head (level l p) = LoopTimer i # jobs"
  shows "entry_held i (upd_level p (\<lambda>v. v\<lparr>job_head := jobs\<rparr>) l)"
proof -
  let ?l = "upd_level p (\<lambda>v. v\<lparr>job_head := jobs\<rparr>) l"
  have ok: "entries_ok l" using inv by (simp add: timer_inv_def)
  have c: "count_list (job_head (level l q)) (LoopTimer j) \<le> ready_max (tmr_get l j) q" for q j using ok by (metis entries_ok_def)
  have "ready_max (tmr_get l i) p = 1" using c[of p i] hd by (auto simp: ready_max_def split: if_splits)
  then have st: "tmr_state (tmr_get l i) = ENTRY_JOBLIST" "tmr_p (tmr_get l i) = p" by (auto simp: ready_max_def split: if_splits)
  have one: "count_list jobs (LoopTimer i) = 0" using c[of p i] hd by (simp add: ready_max_def split: if_splits)
  have "LoopTimer i \<notin> set (job_head (level ?l q))" for q
    using one c[of q i] st by (cases "q = p") (auto simp: count_list_0_iff ready_max_def split: if_splits)
  moreover have "count_list (job_head (level ?l q)) (LoopTimer j) \<le> ready_max (tmr_get l j) q" for q j
    using c[of q j] hd by (auto split: if_splits)
  then have "timer_inv ?l" using inv unfolding timer_inv_def entries_ok_def entries_linked_def by simp
  ultimately show ?thesis using st by (simp add: entry_held_def)
qed

lemma created_inv:
  assumes "qb_array_create_2 aenv True 16 esz 16 zero_timer = Some a" "array_env_ok aenv" "1 \<le> esz"
  shows "timer_inv (qb_loop_timer_create \<lparr>level = (\<lambda>_. new_level), stop_requested = False\<rparr> a)"
proof -
  have a: "array_inv a" "zero_elem a = zero_timer" "array_bin a b = None" for b
    using assms by (auto simp: qb_array_create_2_def grow_bin_array_def array_env_ok_def array_inv_def array_bin_def
        QB_ARRAY_MAX_ELEMENTS_def MAX_ELEMENTS_PER_BIN_def MAX_BINS_def Let_def nth_Cons' split: if_splits)
  then have g: "array_get a p = zero_timer" for p by (simp add: array_get_def)
  show ?thesis
    by (simp add: timer_inv_def qb_loop_timer_create_def entries_ok_def entries_linked_def tl_inv_def timerlist_init_def tmr_get_def
        g zero_timer_def tl_wf_def heap_ok_def a new_level_def)
qed

lemma timer_reach_inv: "timer_reach l \<Longrightarrow> timer_inv l"
proof (induction rule: timer_reach.induct)
  case (created aenv esz a)
  then show ?case by (rule created_inv)
next
  case (added l env x p dur data f rc h l')
  then show ?case using timer_add_ok[OF added.IH added.hyps(2-5), of p dur data f] by auto
next
  case (deleted l env h rc l')
  then show ?case using timer_del_ok[OF deleted.IH deleted.hyps(2), of h] by auto
next
  case (polled l env n l')
  then show ?case using expire_ok[OF polled.IH polled.hyps(2)] by auto
next
  case (dispatched l p i jobs cb l')
  then show ?case using timer_dispatch_ok[OF take_ready_held[OF dispatched.IH dispatched.hyps(2)], of cb] by auto
qed

section \<open>Reading a timer\<close>

lemma entry_timer:
  assumes "timer_inv l" "tmr_state (tmr_get l i) = ENTRY_ACTIVE"
  shows "\<exists>a t. timerlist_handle (tmr_get l i) = Some a \<and> timers (tlist l) a = Some t \<and> \<not> is_absolute_timer t \<and>
           expire_time t = entry_time l i"
proof -
  have l: "entries_linked l" "tl_inv (tlist l)" using assms(1) by (simp_all add: timer_inv_def)
  then obtain a where a: "timerlist_handle (tmr_get l i) = Some a" using assms(2) by (auto simp: entries_linked_def)
  with tl_inv_timer[OF l(2) entry_handle_elem(1)[OF l(1) a]] show ?thesis by (auto simp: entry_time_def elem_of_def)
qed

lemma expire_time_reads:
  assumes inv: "timer_inv l" and env: "timer_env_ok env"
  shows "\<exists>rc i a. timer_from_handle env l h = Some (rc, i, l\<lparr>tmrs := a\<rparr>) \<and>
           qb_loop_timer_expire_time_get env l h =
             Some (if rc = 0 \<and> tmr_state (tmr_get l i) = ENTRY_ACTIVE then entry_time l i else 0, l\<lparr>tmrs := a\<rparr>) \<and>
           qb_loop_timer_expire_time_remaining env l h =
             Some (if rc = 0 \<and> tmr_state (tmr_get l i) = ENTRY_ACTIVE \<and> te_now env \<le> entry_time l i
                   then entry_time l i - te_now env else 0, l\<lparr>tmrs := a\<rparr>)"
proof -
  obtain rc i a where f: "timer_from_handle env l h = Some (rc, i, l\<lparr>tmrs := a\<rparr>)" "timer_inv (l\<lparr>tmrs := a\<rparr>)"
      "\<forall>j. tmr_get (l\<lparr>tmrs := a\<rparr>) j = tmr_get l j"
    using timer_from_handle_ok[OF inv env] by blast
  show ?thesis
  proof (cases "tmr_state (tmr_get l i) = ENTRY_ACTIVE")
    case True
    then show ?thesis using f entry_timer[OF inv True]
      by (intro exI[of _ rc] exI[of _ i] exI[of _ a])
        (auto simp: qb_loop_timer_expire_time_get_def qb_loop_timer_expire_time_remaining_def timerlist_expire_time_def Let_def)
  next
    case False
    then show ?thesis using f
      by (intro exI[of _ rc] exI[of _ i] exI[of _ a])
        (auto simp: qb_loop_timer_expire_time_get_def qb_loop_timer_expire_time_remaining_def)
  qed
qed

lemma timer_from_handle_make:
  assumes inv: "timer_inv l" and env: "timer_env_ok env" and i: "i < timer_entry_count l"
    and c: "0 < tmr_check (tmr_get l i)" "tmr_check (tmr_get l i) < 2 ^ 31"
  shows "\<exists>a. timer_from_handle env l (make_handle (tmr_check (tmr_get l i)) (int i)) = Some (0, i, l\<lparr>tmrs := a\<rparr>)"
proof -
  let ?h = "make_handle (tmr_check (tmr_get l i)) (int i)"
  have a: "array_inv (tmrs l)" "array_env_ok (te_arr env)" "i < max_elements (tmrs l)"
    using inv env i by (simp_all add: timer_inv_def entries_ok_def timer_env_ok_def)
  then have i31: "int i < 2 ^ 31" by (simp add: array_inv_iff QB_ARRAY_MAX_ELEMENTS_def)
  have h: "handle_index ?h = int i" "handle_check ?h = tmr_check (tmr_get l i)"
    using handle_index_make[of "int i"] handle_check_make[of _ "int i"] c i31 by simp_all
  have "handle_check 0 = 0" by (simp add: handle_check_def)
  then have nz: "?h \<noteq> 0" using h(2) c(1) by force
  obtain b cb where b: "array_index (te_arr env) (tmrs l) (int i) = (ArrayRet 0 (Some (array_ptr i)) cb, b)" "array_same (tmrs l) b"
    using array_index_below[OF a] by blast
  have "tmr_get (l\<lparr>tmrs := b\<rparr>) i = tmr_get l i" using b(2) by (simp add: tmr_get_elem array_same_def)
  then have "timer_from_handle env l ?h = Some (0, i, l\<lparr>tmrs := b\<rparr>)"
    using b(1) h nz by (simp add: timer_from_handle_def tmr_index_def)
  then show ?thesis by blast
qed

lemma clamp_msec_range:
  "x < 2 ^ 31 \<Longrightarrow> clamp_msec x = uint x" "2 ^ 31 \<le> x \<Longrightarrow> clamp_msec x < 0"
proof -
  define y :: u64 where "y = (if x \<noteq> -1 \<and> x > 0xFFFFFFFF then 0xFFFFFFFE else x)"
  have c: "clamp_msec x = (uint y + 2 ^ 31) mod 2 ^ 32 - 2 ^ 31" by (simp add: clamp_msec_def y_def sint_u32_ucast)
  show "clamp_msec x = uint x" if "x < 2 ^ 31"
  proof -
    have u: "uint x < 2 ^ 31" using that by (simp add: word_less_def)
    then have "y = x" by (auto simp: y_def word_less_def)
    moreover have "(uint x + 2 ^ 31) mod 2 ^ 32 = uint x + 2 ^ 31" using u by (intro mod_pos_pos_trivial) auto
    ultimately show ?thesis using c by simp
  qed
  show "clamp_msec x < 0" if "2 ^ 31 \<le> x"
  proof (cases "x = -1")
    case True
    then show ?thesis using c by (simp add: y_def unsigned_minus_1_eq_mask mask_eq_exp_minus_1)
  next
    case False
    have u: "2 ^ 31 \<le> uint y" "uint y < 2 ^ 32" using that False by (auto simp: y_def word_less_def word_le_def not_less)
    have "(uint y + 2 ^ 31) mod 2 ^ 32 = (uint y + 2 ^ 31 - 2 ^ 32) mod 2 ^ 32"
      by (rule minus_mod_self2[symmetric])
    also have "\<dots> = uint y + 2 ^ 31 - 2 ^ 32" using u by (intro mod_pos_pos_trivial) auto
    finally show ?thesis using c u by simp
  qed
qed

section \<open>Properties of the timers\<close>


definition ex_tenv :: "(nat, nat) timer_env" where
  "ex_tenv = \<lparr>te_arr = working_array, te_tl = ex_tl_env, te_malloc = Some 7, te_lock_rc = 0, te_now = 100, te_epoch = 0,
     te_hertz = 100, te_draw = (\<lambda>_. 77)\<rparr>"

definition ex_tloop :: "(nat, nat) timer_loop" where
  "ex_tloop = qb_loop_timer_create \<lparr>level = (\<lambda>_. new_level), stop_requested = False\<rparr>
     \<lparr>bin = Some [None, None], max_elements = 16, element_size = 56, num_bins = 2, autogrow_elements = 16, new_bin_cb = False,
      zero_elem = zero_timer\<rparr>"

lemma ex_tloop_reach: "timer_reach ex_tloop"
  unfolding ex_tloop_def
  by (rule timer_reach.created[of working_array 56])
    (simp_all add: qb_array_create_2_def grow_bin_array_def working_array_def QB_ARRAY_MAX_ELEMENTS_def MAX_ELEMENTS_PER_BIN_def
      MAX_BINS_def array_env_ok_def)

lemma ex_tenv_ok: "timer_env_ok ex_tenv"
  by (simp add: timer_env_ok_def ex_tenv_def ex_tl_env_def)

lemma ex_tloop_fields: "timer_entry_count ex_tloop = 0" "tlist ex_tloop = timerlist_init"
  by (simp_all add: ex_tloop_def qb_loop_timer_create_def)


text \<open>
  A new timer takes an empty entry, leaves all others as they are, and its handle then means
  it: the time of expiry is the duration after now, and the time that remains is the duration
  (0 if the clock wraps).
\<close>

theorem timer_add_then_query:
  assumes inv: "timer_inv l" and env: "timer_env_ok env" and room: "timer_entry_count l < QB_ARRAY_MAX_ELEMENTS"
    and new: "te_malloc env = Some x" "timers (tlist l) x = None"
    and draw: "0 < pick_check (te_draw env)" "pick_check (te_draw env) < 2 ^ 31"
  shows "\<exists>i h l' a. qb_loop_timer_add env (Some l) p dur data (Some f) = Some (0, Some h, Some l') \<and> timer_inv l' \<and>
           tmr_state (tmr_get l i) = ENTRY_EMPTY \<and> (\<forall>j. j \<noteq> i \<longrightarrow> tmr_get l' j = tmr_get l j) \<and>
           qb_loop_timer_expire_time_get env l' h = Some (te_now env + dur, l'\<lparr>tmrs := a\<rparr>) \<and>
           qb_loop_timer_expire_time_remaining env l' h =
             Some (if te_now env \<le> te_now env + dur then dur else 0, l'\<lparr>tmrs := a\<rparr>)"
proof -
  let ?c = "pick_check (te_draw env)"
  obtain i l' where i: "qb_loop_timer_add env (Some l) p dur data (Some f) = Some (0, Some (make_handle ?c (int i)), Some l')"
      "timer_inv l'" "tmr_state (tmr_get l i) = ENTRY_EMPTY" "\<forall>j. j \<noteq> i \<longrightarrow> tmr_get l' j = tmr_get l j"
      "tmr_state (tmr_get l' i) = ENTRY_ACTIVE" "tmr_check (tmr_get l' i) = ?c" "entry_time l' i = te_now env + dur"
    using timer_add_ok[OF inv env room new] by blast
  have "i < timer_entry_count l'" using entry_counted[of l' i] i(2,5) by (simp add: timer_inv_def)
  from timer_from_handle_make[OF i(2) env this] draw i(6) obtain a where
    "timer_from_handle env l' (make_handle ?c (int i)) = Some (0, i, l'\<lparr>tmrs := a\<rparr>)" by auto
  with expire_time_reads[OF i(2) env, of "make_handle ?c (int i)"] i show ?thesis
    by (intro exI[of _ i] exI[of _ "make_handle ?c (int i)"] exI[of _ l'] exI[of _ a]) auto
qed

theorem timer_add_then_query_witness:
  "\<exists>h l' a. qb_loop_timer_add ex_tenv (Some ex_tloop) 1 50 None (Some 3) = Some (0, Some h, Some l') \<and>
     qb_loop_timer_expire_time_get ex_tenv l' h = Some (150, l'\<lparr>tmrs := a\<rparr>)"
proof -
  have "pick_check (te_draw ex_tenv) = 77" by (simp add: pick_check_def ex_tenv_def upt_rec)
  moreover have "te_malloc ex_tenv = Some 7" "te_now ex_tenv = 100" by (simp_all add: ex_tenv_def)
  ultimately show ?thesis
    using timer_add_then_query[OF timer_reach_inv[OF ex_tloop_reach] ex_tenv_ok, of 7 1 50 None 3]
    by (auto simp: ex_tloop_fields timerlist_init_def QB_ARRAY_MAX_ELEMENTS_def)
qed

text \<open>
  C26: A poll of the timers makes exactly the entries ready whose time is past, each once, at the
  end of the ready list of its own priority, earliest first; all other entries stay as they are,
  and the number of expired timers is returned.
\<close>

theorem timer_expiry_ready_in_order:
  assumes inv: "timer_inv l" and env: "timer_env_ok env"
  shows "\<exists>is l'. expire_the_timers env l = Some (int (length is), l') \<and> timer_inv l' \<and>
           set is = due_entries (te_now env) l \<and> distinct is \<and> sorted (map (entry_time l) is) \<and>
           (\<forall>p. job_head (level l' p) = job_head (level l p) @ ready_entries l p is) \<and>
           (\<forall>j. tmr_get l' j = (if j \<in> set is then fired (tmr_get l j) else tmr_get l j))"
  by (rule expire_ok[OF assms])

theorem timer_expiry_ready_in_order_witness:
  "\<exists>is l'. expire_the_timers ex_tenv ex_tloop = Some (int (length is), l') \<and> timer_inv l' \<and> set is = due_entries 100 ex_tloop"
  using timer_expiry_ready_in_order[OF timer_reach_inv[OF ex_tloop_reach] ex_tenv_ok] by (simp add: ex_tenv_def) blast



text \<open>
  The time to wait for the next timer is exact below \<open>2 ^ 31\<close> milliseconds; for a timer that is
  further away (about 25 days) it is negative, which is what the loop passes to the poll.
\<close>

theorem timer_wait_negative_when_far:
  assumes "tl_inv (tlist l)" "tl_lock_rc (te_tl env) = 0" "heap_entries (tlist l) = a # as"
    and "te_now env \<le> fst (elem_of (tlist l) a)"
    and "ms = (fst (elem_of (tlist l) a) - te_now env) div 1000000 + 1000 div te_hertz env"
  shows "\<exists>w. qb_loop_timer_msec_duration_to_expire env l = Some w \<and> (ms < 2 ^ 31 \<longrightarrow> w = uint ms) \<and> (2 ^ 31 \<le> ms \<longrightarrow> w < 0)"
proof -
  have "a \<in> set (heap_entries (tlist l))" using assms(3) by simp
  with assms(1) tl_inv_timer[of "tlist l" a] obtain t where t: "timers (tlist l) a = Some t" "\<not> is_absolute_timer t"
    by auto
  then have "timerlist_msec_duration_to_expire (te_tl env) (te_hertz env) (te_now env) (te_epoch env) (tlist l) = Some ms"
    using assms(2-5) by (simp add: timerlist_msec_duration_to_expire_def timerlist_heap_entry_get_def elem_of_def leD)
  then show ?thesis using clamp_msec_range[of ms] by (auto simp: qb_loop_timer_msec_duration_to_expire_def)
qed

definition ex_far :: "(nat, nat) timer_loop" where
  "ex_far = ex_tloop\<lparr>tlist := \<lparr>heap_entries = [7], allocated = 2,
     timers = [7 \<mapsto> \<lparr>expire_time = 3000000000000100, is_absolute_timer = False, tm_data = 0, handle_addr = 0, heap_pos = 0\<rparr>]\<rparr>\<rparr>"

theorem timer_wait_negative_when_far_witness:
  "\<exists>w. qb_loop_timer_msec_duration_to_expire ex_tenv ex_far = Some w \<and> w < 0"
proof -
  have inv: "tl_inv (tlist ex_far)" by (simp add: ex_far_def tl_inv_def tl_wf_def heap_ok_def)
  have "(3000000000000000 :: u64) div 1000000 = 3000000000" "(1000 :: u64) div 100 = 10" by simp_all
  then show ?thesis
    using timer_wait_negative_when_far[OF inv, of ex_tenv 7 "[]"]
    by (simp add: ex_far_def ex_tenv_def ex_tl_env_def elem_of_def)
qed

end
