(* ===== verification/Ipc_us.thy ===== *)
theory Ipc_us
  imports Prelude "HOL-Library.Monad_Syntax"
begin

text \<open>
  Sending and receiving whole messages over the stream sockets of a connection, and the credentials
  that come with them (the first part of \<^verbatim>\<open>lib/ipc_setup.c\<close>). The results of the system calls are
  parameters: a list of the values that the successive calls return, with the \<^verbatim>\<open>errno\<close> they leave. A
  loop that still waits when the list is used up has not returned: \<open>None\<close>.
\<close>

section \<open>Error numbers and events\<close>

abbreviation EIO :: int where "EIO \<equiv> 5"
abbreviation EACCES :: int where "EACCES \<equiv> 13"
abbreviation EPIPE :: int where "EPIPE \<equiv> 32"
abbreviation ENAMETOOLONG :: int where "ENAMETOOLONG \<equiv> 36"
abbreviation ENOMSG :: int where "ENOMSG \<equiv> 42"
abbreviation EMSGSIZE :: int where "EMSGSIZE \<equiv> 90"
abbreviation ECONNRESET :: int where "ECONNRESET \<equiv> 104"
abbreviation ENOTCONN :: int where "ENOTCONN \<equiv> 107"
abbreviation ESHUTDOWN :: int where "ESHUTDOWN \<equiv> 108"
abbreviation EWOULDBLOCK :: int where "EWOULDBLOCK \<equiv> EAGAIN"

abbreviation POLLIN :: u32 where "POLLIN \<equiv> 1"
abbreviation POLLPRI :: u32 where "POLLPRI \<equiv> 2"
abbreviation POLLOUT :: u32 where "POLLOUT \<equiv> 4"
abbreviation POLLERR :: u32 where "POLLERR \<equiv> 8"
abbreviation POLLHUP :: u32 where "POLLHUP \<equiv> 16"
abbreviation POLLNVAL :: u32 where "POLLNVAL \<equiv> 32"

text \<open>A set of events holds an event.\<close>

definition has_event :: "u32 \<Rightarrow> u32 \<Rightarrow> bool" where
  "has_event evs e \<longleftrightarrow> evs AND e \<noteq> 0"

section \<open>Sending\<close>

text \<open>What a call of \<^verbatim>\<open>send\<close>, \<^verbatim>\<open>recv\<close> or \<^verbatim>\<open>recvmsg\<close> returns: a number of bytes, or -1 and the error number.\<close>

type_synonym sys_result = "int \<times> int"

fun us_send_loop :: "sys_result list \<Rightarrow> int \<Rightarrow> int \<Rightarrow> int option" where
  "us_send_loop [] processed len = None"
| "us_send_loop ((result, errno) # rs) processed len =
     (if result = -1 then
        (if errno = EAGAIN \<and> processed > 0 then us_send_loop rs processed len else Some (- errno))
      else if processed + result \<noteq> len then us_send_loop rs (processed + result) len
      else Some (processed + result))"

definition qb_ipc_us_send :: "sys_result list \<Rightarrow> nat \<Rightarrow> int option" where
  "qb_ipc_us_send rs len = us_send_loop rs 0 (int len)"

section \<open>Waiting\<close>

text \<open>The loop over the descriptors, as many as \<^verbatim>\<open>poll\<close> said are ready.\<close>

fun ready_scan :: "nat \<Rightarrow> u32 list \<Rightarrow> int" where
  "ready_scan n [] = 0"
| "ready_scan 0 (r # rs) = 0"
| "ready_scan (Suc n) (r # rs) =
     (if has_event r POLLERR \<or> has_event r POLLHUP \<or> has_event r POLLNVAL \<or> r = 0 then - ENOTCONN else ready_scan n rs)"

definition qb_ipc_us_ready :: "sys_result \<Rightarrow> u32 list \<Rightarrow> int" where
  "qb_ipc_us_ready poll revents =
     (let (poll_events, errno) = poll
      in if poll_events = -1 \<and> errno = EINTR \<or> poll_events = 0 then - EAGAIN
         else if poll_events = -1 then - errno
         else ready_scan (nat poll_events) revents)"

definition qb_ipc_us_sock_error_is_disconnected :: "int \<Rightarrow> bool" where
  "qb_ipc_us_sock_error_is_disconnected err =
     (if err \<ge> 0 then False
      else if err = - EAGAIN \<or> err = - ETIMEDOUT \<or> err = - EINTR \<or> err = - EWOULDBLOCK \<or> err = - EMSGSIZE \<or>
              err = - ENOMSG \<or> err = - EINVAL then False
      else True)"

section \<open>Receiving\<close>

text \<open>Each step is a call of \<^verbatim>\<open>recv\<close> and what \<^verbatim>\<open>poll\<close> says afterwards, if it is asked.\<close>

record recv_step =
  rs_recv :: sys_result
  rs_poll :: sys_result
  rs_revents :: "u32 list"

fun us_recv_loop :: "recv_step list \<Rightarrow> int \<Rightarrow> int \<Rightarrow> int \<Rightarrow> int option" where
  "us_recv_loop [] processed len timeout = None"
| "us_recv_loop (st # sts) processed len timeout =
     (let (result, errno) = rs_recv st
      in if result = -1 then
           (if errno = EAGAIN \<and> (processed > 0 \<or> timeout = -1) then
              (let ready = qb_ipc_us_ready (rs_poll st) (rs_revents st)
               in if ready = 0 \<or> ready = - EAGAIN then us_recv_loop sts processed len timeout else Some ready)
            else if errno = ECONNRESET \<or> errno = EPIPE then Some (- ENOTCONN)
            else Some (- errno))
         else if result = 0 then Some (- ENOTCONN)
         else if processed + result \<noteq> len then us_recv_loop sts (processed + result) len timeout
         else Some (processed + result))"

definition qb_ipc_us_recv :: "recv_step list \<Rightarrow> nat \<Rightarrow> int \<Rightarrow> int option" where
  "qb_ipc_us_recv sts len timeout = us_recv_loop sts 0 (int len) timeout"

text \<open>
  The message with the credentials may come in parts: the result, and how much is there. \<open>None\<close> is also
  the failed assertion of the source.
\<close>

fun qb_ipc_us_recv_msghdr :: "sys_result list \<Rightarrow> int \<Rightarrow> int \<Rightarrow> (int \<times> int) option" where
  "qb_ipc_us_recv_msghdr [] processed len = None"
| "qb_ipc_us_recv_msghdr ((result, errno) # rs) processed len =
     (if result = -1 \<and> errno = EAGAIN then Some (- EAGAIN, processed)
      else if result = -1 then Some (- errno, processed)
      else if result = 0 then Some (- ENOTCONN, processed)
      else if processed + result \<noteq> len then qb_ipc_us_recv_msghdr rs (processed + result) len
      else Some (processed + result, processed + result))"

section \<open>Credentials\<close>

record ipc_auth_ugp =
  ugp_uid :: int
  ugp_gid :: int
  ugp_pid :: int

record cmsghdr =
  cmsg_type :: int
  cmsg_len :: nat
  cmsg_cred :: ipc_auth_ugp

definition SCM_CREDENTIALS :: int where "SCM_CREDENTIALS = 2"

text \<open>\<^verbatim>\<open>CMSG_LEN(sizeof(struct ucred))\<close>: a header of 16 bytes and three words.\<close>

definition ucred_len :: nat where "ucred_len = 28"

fun qb_ipc_auth_creds :: "cmsghdr list \<Rightarrow> ipc_auth_ugp \<Rightarrow> int \<times> ipc_auth_ugp" where
  "qb_ipc_auth_creds [] ugp = (- EINVAL, ugp)"
| "qb_ipc_auth_creds (cmsg # cmsgs) ugp =
     (if cmsg_type cmsg \<noteq> SCM_CREDENTIALS then qb_ipc_auth_creds cmsgs ugp
      else if cmsg_len cmsg < ucred_len then qb_ipc_auth_creds cmsgs ugp
      else (0, cmsg_cred cmsg))"

section \<open>What the calls return\<close>

text \<open>The value of a call that sends \<open>len\<close> bytes: an error, or all of them.\<close>

definition us_send_value :: "nat \<Rightarrow> int \<Rightarrow> int" where
  "us_send_value len r = (if r < 0 then r else int len)"

definition sys_ok :: "sys_result \<Rightarrow> bool" where
  "sys_ok r \<longleftrightarrow> (fst r = -1 \<and> 0 < snd r) \<or> 0 \<le> fst r"

lemma us_send_loop_value:
  "us_send_loop rs processed len = Some v \<Longrightarrow> (\<forall>r\<in>set rs. sys_ok r) \<Longrightarrow> 0 \<le> processed \<Longrightarrow>
     v = len \<or> (v < 0 \<and> (processed = 0 \<or> v \<noteq> - EAGAIN))"
proof (induction rs processed len rule: us_send_loop.induct)
  case (2 result errno rs processed len)
  show ?case
  proof (cases "result = -1")
    case True
    then have "0 < errno" using 2(4) by (auto simp: sys_ok_def)
    then show ?thesis using 2 True by (auto split: if_splits)
  next
    case False
    then show ?thesis using 2 by (auto simp: sys_ok_def split: if_splits)
  qed
qed simp

lemma us_send_is_value:
  assumes "qb_ipc_us_send rs len = Some v" "\<forall>r\<in>set rs. sys_ok r"
  shows "\<exists>r. v = us_send_value len r"
  using us_send_loop_value[of rs 0 "int len" v] assms by (auto simp: qb_ipc_us_send_def us_send_value_def intro: exI[of _ v])

lemma auth_creds_ok:
  "fst (qb_ipc_auth_creds cmsgs ugp) = 0 \<longleftrightarrow>
     (\<exists>c\<in>set cmsgs. cmsg_type c = SCM_CREDENTIALS \<and> ucred_len \<le> cmsg_len c)"
  by (induction cmsgs) auto

end
