(* ===== verification/Loop_poll.thy ===== *)
theory Loop_poll
  imports Loop_timerlist Ipc_us
begin

text \<open>
  The poll source of the main loop (\<^verbatim>\<open>lib/loop_poll.c\<close>) with its epoll driver (\<^verbatim>\<open>lib/loop_poll_epoll.c\<close>), and the signal source. The
  entries for file descriptors are elements of a growing array. Handlers of signals and their copies on the ready lists are in one memory.
  What the kernel answers is a parameter: the results of \<^verbatim>\<open>epoll_ctl\<close>, the events of \<^verbatim>\<open>epoll_wait\<close>, the signal that is read from the pipe, the limit of files
  and the random numbers. A failed assertion, an access outside of an array and the use of freed memory give \<open>None\<close>. The calls of \<^verbatim>\<open>epoll_ctl\<close> are recorded.
\<close>

section \<open>State\<close>

datatype qb_loop_type = QB_LOOP_FD | QB_LOOP_JOB | QB_LOOP_TIMER | QB_LOOP_SIG

datatype qb_poll_add_to_jobs_fn = AddFd | AddSig

record ('f, 'd) qb_poll_entry =
  pe_type :: qb_loop_type
  pe_user_data :: "'d option"
  pe_fn :: "'f option"
  pe_p :: nat
  pe_install_pos :: nat
  pe_fd :: int
  pe_events :: u16
  pe_revents :: u16
  pe_add_to_jobs :: "qb_poll_add_to_jobs_fn option"
  pe_runs :: u32
  pe_state :: qb_poll_entry_state
  pe_check :: u32

definition zero_entry :: "('f, 'd) qb_poll_entry" where
  "zero_entry = \<lparr>pe_type = QB_LOOP_FD, pe_user_data = None, pe_fn = None, pe_p = 0, pe_install_pos = 0, pe_fd = 0, pe_events = 0, pe_revents = 0,
     pe_add_to_jobs = None, pe_runs = 0, pe_state = ENTRY_EMPTY, pe_check = 0\<rparr>"

record ('f, 'd) qb_loop_sig =
  sg_user_data :: "'d option"
  sg_signal :: int
  sg_p :: nat
  sg_fn :: 'f
  sg_cloned_from :: "nat option"

datatype epoll_call = CtlAdd int u32 u64 | CtlMod int u32 u64 | CtlDel int

text \<open>
  The loop with both sources. \<open>sig_installed\<close> are the signals whose action is the handler of the library; \<open>socks_limit\<close> is a static variable, and so are the ends of the pipe.
\<close>

record ('f, 'd) poll_loop = "('f, 'd) loop_item qb_loop" +
  poll_entries :: "('f, 'd) qb_poll_entry qb_array"
  poll_entry_count :: nat
  low_fds_event_fn :: bool
  not_enough_fds :: bool
  socks_limit :: int
  ctl_calls :: "epoll_call list"
  sig_head :: "nat list"
  sigs :: "nat \<rightharpoonup> ('f, 'd) qb_loop_sig"
  signal_superset :: "int \<Rightarrow> bool"
  sig_installed :: "int \<Rightarrow> bool"
  pipe_fds :: "int \<times> int"

record ('f, 'd) poll_env =
  pv_arr :: "('f, 'd) qb_poll_entry array_env"
  pv_random :: "nat \<Rightarrow> u32"
  pv_ctl :: int
  pv_rlimit :: "u64 option"
  pv_sig :: "nat \<Rightarrow> int option"
  pv_sig_alloc :: "nat \<Rightarrow> nat \<Rightarrow> nat option"

definition pe_get :: "('f, 'd) poll_loop \<Rightarrow> nat \<Rightarrow> ('f, 'd) qb_poll_entry" where
  "pe_get l i = array_get (poll_entries l) (array_ptr i)"

definition pe_set :: "('f, 'd) poll_loop \<Rightarrow> nat \<Rightarrow> ('f, 'd) qb_poll_entry \<Rightarrow> ('f, 'd) poll_loop" where
  "pe_set l i e = l\<lparr>poll_entries := array_set (poll_entries l) (array_ptr i) e\<rparr>"

text \<open>Indexing an entry inside an assertion.\<close>

definition pe_index :: "('f, 'd) poll_env \<Rightarrow> int \<Rightarrow> ('f, 'd) poll_loop \<Rightarrow> ('f, 'd) poll_loop option" where
  "pe_index env i l =
     (case array_index (pv_arr env) (poll_entries l) i of
        (ArrayRet rc p cb, a) \<Rightarrow> if rc = 0 then Some (l\<lparr>poll_entries := a\<rparr>) else None
      | _ \<Rightarrow> None)"

section \<open>Entries\<close>

text \<open>The check value: the first of at most 200 random numbers that is not all zeros or all ones.\<close>

fun check_loop :: "(nat \<Rightarrow> u32) \<Rightarrow> nat \<Rightarrow> nat \<Rightarrow> u32" where
  "check_loop rnd i 0 = rnd (i - 1)"
| "check_loop rnd i (Suc k) = (if rnd i \<noteq> 0 \<and> rnd i \<noteq> - 1 then rnd i else check_loop rnd (Suc i) k)"

definition poll_entry_check_generate :: "(nat \<Rightarrow> u32) \<Rightarrow> u32" where
  "poll_entry_check_generate rnd = check_loop rnd 0 200"

definition poll_entry_mark_deleted :: "('f, 'd) qb_poll_entry \<Rightarrow> ('f, 'd) qb_poll_entry" where
  "poll_entry_mark_deleted e = e\<lparr>pe_fd := - 1, pe_state := ENTRY_DELETED, pe_check := 0\<rparr>"

definition poll_entry_empty :: "('f, 'd) qb_poll_entry" where
  "poll_entry_empty = zero_entry\<lparr>pe_fd := - 1\<rparr>"

section \<open>The limit of file descriptors\<close>

definition POLL_FDS_USED_MISC :: int where "POLL_FDS_USED_MISC = 50"

text \<open>The loop counts the entries in use and empties the deleted ones.\<close>

fun usage_loop :: "('f, 'd) poll_env \<Rightarrow> nat \<Rightarrow> nat \<Rightarrow> int \<Rightarrow> ('f, 'd) poll_loop \<Rightarrow> (int \<times> ('f, 'd) poll_loop) option" where
  "usage_loop env i 0 used l = Some (used, l)"
| "usage_loop env i (Suc k) used l =
     do { l \<leftarrow> pe_index env (int i) l;
          let e = pe_get l i;
          let used = (if (pe_state e = ENTRY_ACTIVE \<or> pe_state e = ENTRY_JOBLIST) \<and> pe_fd e \<noteq> - 1 then used + 1 else used);
          usage_loop env (Suc i) k used (if pe_state e = ENTRY_DELETED then pe_set l i poll_entry_empty else l) }"

text \<open>The result has the call of the application's function, if there is one.\<close>

definition low_fds_event :: "int \<Rightarrow> ('f, 'd) poll_loop \<Rightarrow> (bool \<times> int) option \<times> ('f, 'd) poll_loop" where
  "low_fds_event used l =
     (let avail = max 0 (socks_limit l - used);
          send = (if not_enough_fds l then avail > 2 else avail \<le> 1);
          l = (if send then l\<lparr>not_enough_fds := \<not> not_enough_fds l\<rparr> else l)
      in (if send \<and> low_fds_event_fn l then Some (not_enough_fds l, avail) else None, l))"

definition socks_limit_of :: "u64 \<Rightarrow> int" where
  "socks_limit_of rlim_cur = max 0 (sint (ucast rlim_cur :: u32) - POLL_FDS_USED_MISC)"

definition qb_poll_fds_usage_check :: "('f, 'd) poll_env \<Rightarrow> ('f, 'd) poll_loop \<Rightarrow> ((bool \<times> int) option \<times> ('f, 'd) poll_loop) option" where
  "qb_poll_fds_usage_check env l =
     (case (socks_limit l, pv_rlimit env) of
        (limit, rlim) \<Rightarrow>
          if limit = 0 \<and> rlim = None then Some (None, l)
          else
            let l = (if limit = 0 then l\<lparr>socks_limit := socks_limit_of (the rlim)\<rparr> else l)
            in do { (used, l) \<leftarrow> usage_loop env 0 (poll_entry_count l) 0 l; Some (low_fds_event used l) })"

definition qb_loop_poll_low_fds_event_set :: "bool \<Rightarrow> ('f, 'd) poll_loop \<Rightarrow> int \<times> ('f, 'd) poll_loop" where
  "qb_loop_poll_low_fds_event_set fn l = (0, l\<lparr>low_fds_event_fn := fn\<rparr>)"

section \<open>The epoll driver\<close>

definition poll_to_epoll_event :: "u32 \<Rightarrow> u32" where
  "poll_to_epoll_event event =
     (if event AND POLLIN \<noteq> 0 then 1 else 0) OR (if event AND POLLOUT \<noteq> 0 then 4 else 0) OR (if event AND POLLPRI \<noteq> 0 then 2 else 0) OR
     (if event AND POLLERR \<noteq> 0 then 8 else 0) OR (if event AND POLLHUP \<noteq> 0 then 16 else 0) OR (if event AND POLLNVAL \<noteq> 0 then 8 else 0)"

definition epoll_to_poll_event :: "u32 \<Rightarrow> u32" where
  "epoll_to_poll_event event =
     (if event AND 1 \<noteq> 0 then POLLIN else 0) OR (if event AND 4 \<noteq> 0 then POLLOUT else 0) OR (if event AND 2 \<noteq> 0 then POLLPRI else 0) OR
     (if event AND 8 \<noteq> 0 then POLLERR else 0) OR (if event AND 16 \<noteq> 0 then POLLHUP else 0)"

definition entry_handle :: "('f, 'd) qb_poll_entry \<Rightarrow> u64" where
  "entry_handle e = push_bit 32 (ucast (pe_check e)) OR of_nat (pe_install_pos e)"

definition epoll_add :: "('f, 'd) poll_env \<Rightarrow> nat \<Rightarrow> int \<Rightarrow> u32 \<Rightarrow> ('f, 'd) poll_loop \<Rightarrow> int \<times> ('f, 'd) poll_loop" where
  "epoll_add env i fd events l = (pv_ctl env, l\<lparr>ctl_calls := ctl_calls l @ [CtlAdd fd (poll_to_epoll_event events) (entry_handle (pe_get l i))]\<rparr>)"

definition epoll_mod :: "('f, 'd) poll_env \<Rightarrow> nat \<Rightarrow> int \<Rightarrow> u32 \<Rightarrow> ('f, 'd) poll_loop \<Rightarrow> int \<times> ('f, 'd) poll_loop" where
  "epoll_mod env i fd events l = (pv_ctl env, l\<lparr>ctl_calls := ctl_calls l @ [CtlMod fd (poll_to_epoll_event events) (entry_handle (pe_get l i))]\<rparr>)"

definition epoll_del :: "('f, 'd) poll_env \<Rightarrow> int \<Rightarrow> ('f, 'd) poll_loop \<Rightarrow> int \<times> ('f, 'd) poll_loop" where
  "epoll_del env fd l = (pv_ctl env, l\<lparr>ctl_calls := ctl_calls l @ [CtlDel fd]\<rparr>)"

section \<open>Adding, modifying and deleting file descriptors\<close>

text \<open>The search loops: the first entry that satisfies \<open>P\<close>.\<close>

fun poll_find :: "('f, 'd) poll_env \<Rightarrow> (('f, 'd) qb_poll_entry \<Rightarrow> bool) \<Rightarrow> nat \<Rightarrow> nat \<Rightarrow> ('f, 'd) poll_loop \<Rightarrow> (nat option \<times> ('f, 'd) poll_loop) option" where
  "poll_find env P i 0 l = Some (None, l)"
| "poll_find env P i (Suc k) l =
     do { l \<leftarrow> pe_index env (int i) l; if P (pe_get l i) then Some (Some i, l) else poll_find env P (Suc i) k l }"

definition poll_empty_position :: "('f, 'd) poll_env \<Rightarrow> ('f, 'd) poll_loop \<Rightarrow> (int \<times> ('f, 'd) poll_loop) option" where
  "poll_empty_position env l =
     do { (r, l) \<leftarrow> poll_find env (\<lambda>e. pe_state e = ENTRY_EMPTY) 0 (poll_entry_count l) l;
          case r of
            Some i \<Rightarrow> Some (int i, l)
          | None \<Rightarrow>
              let (res, a) = array_grow (pv_arr env) (poll_entries l) (poll_entry_count l + 1);
                  l = l\<lparr>poll_entries := a\<rparr>
              in if res \<noteq> 0 then Some (res, l)
                 else Some (int (poll_entry_count l), l\<lparr>poll_entry_count := poll_entry_count l + 1\<rparr>) }"

text \<open>The result has the place of the new entry; a negative place fails the assertion on the index.\<close>

definition poll_add :: "('f, 'd) poll_env \<Rightarrow> nat \<Rightarrow> int \<Rightarrow> u32 \<Rightarrow> 'd option \<Rightarrow> ('f, 'd) poll_loop \<Rightarrow> (int \<times> nat \<times> ('f, 'd) poll_loop) option" where
  "poll_add env p fd events data l =
     do { (pos, l) \<leftarrow> poll_empty_position env l;
          l \<leftarrow> pe_index env pos l;
          let i = nat pos;
          let l = pe_set l i ((pe_get l i)\<lparr>pe_state := ENTRY_ACTIVE, pe_install_pos := i, pe_check := poll_entry_check_generate (pv_random env), pe_fd := fd,
                    pe_events := ucast events, pe_revents := 0, pe_user_data := data, pe_p := p, pe_runs := 0\<rparr>);
          let (res, l) = epoll_add env i fd events l;
          if res = 0 then Some (0, i, l) else Some (res, i, pe_set l i ((pe_get l i)\<lparr>pe_state := ENTRY_EMPTY\<rparr>)) }"

definition qb_loop_poll_add ::
    "('f, 'd) poll_env \<Rightarrow> nat \<Rightarrow> int \<Rightarrow> u32 \<Rightarrow> 'd option \<Rightarrow> 'f option \<Rightarrow> ('f, 'd) poll_loop \<Rightarrow> (int \<times> ('f, 'd) poll_loop) option" where
  "qb_loop_poll_add env p fd events data fn l =
     do { (res, i, l) \<leftarrow> poll_add env p fd events data l;
          if res \<noteq> 0 then Some (res, l)
          else Some (res, pe_set l i ((pe_get l i)\<lparr>pe_fn := fn, pe_type := QB_LOOP_FD, pe_add_to_jobs := Some AddFd\<rparr>)) }"

definition qb_loop_poll_mod ::
    "('f, 'd) poll_env \<Rightarrow> nat \<Rightarrow> int \<Rightarrow> u32 \<Rightarrow> 'd option \<Rightarrow> 'f option \<Rightarrow> ('f, 'd) poll_loop \<Rightarrow> (int \<times> ('f, 'd) poll_loop) option" where
  "qb_loop_poll_mod env p fd events data fn l =
     do { (r, l) \<leftarrow> poll_find env (\<lambda>e. pe_fd e = fd) 0 (poll_entry_count l) l;
          case r of
            None \<Rightarrow> Some (- EBADF, l)
          | Some i \<Rightarrow>
              if pe_state (pe_get l i) = ENTRY_DELETED \<or> pe_check (pe_get l i) = 0 then Some (- EBADF, l)
              else
                let l = pe_set l i ((pe_get l i)\<lparr>pe_fn := fn, pe_user_data := data, pe_p := p\<rparr>)
                in if scast (pe_events (pe_get l i)) \<noteq> events then
                     let (res, l) = epoll_mod env i fd events l
                     in Some (res, pe_set l i ((pe_get l i)\<lparr>pe_events := ucast events\<rparr>))
                   else Some (0, l) }"

text \<open>
  Taking an item off whatever ready list it is on; the counter that goes down is that of the level \<open>p\<close>.
\<close>

definition item_unlink :: "nat \<Rightarrow> ('f, 'd) loop_item \<Rightarrow> ('f, 'd) poll_loop \<Rightarrow> ('f, 'd) poll_loop" where
  "item_unlink p it l =
     (if list_ex (\<lambda>q. it \<in> set (job_head (level l q))) [QB_LOOP_LOW, QB_LOOP_MED, QB_LOOP_HIGH]
      then upd_level p (\<lambda>v. v\<lparr>todo := todo v - 1\<rparr>) (l\<lparr>level := (\<lambda>q. (level l q)\<lparr>job_head := remove1 it (job_head (level l q))\<rparr>)\<rparr>)
      else l)"

definition qb_loop_poll_del :: "('f, 'd) poll_env \<Rightarrow> int \<Rightarrow> ('f, 'd) poll_loop \<Rightarrow> (int \<times> ('f, 'd) poll_loop) option" where
  "qb_loop_poll_del env fd l =
     do { (r, l) \<leftarrow> poll_find env (\<lambda>e. pe_fd e = fd \<and> pe_type e = QB_LOOP_FD) 0 (poll_entry_count l) l;
          case r of
            None \<Rightarrow> Some (- EBADF, l)
          | Some i \<Rightarrow>
              if pe_state (pe_get l i) = ENTRY_DELETED \<or> pe_state (pe_get l i) = ENTRY_EMPTY then Some (0, l)
              else
                let l = (if pe_state (pe_get l i) = ENTRY_JOBLIST then item_unlink (pe_p (pe_get l i)) (LoopFd i) l else l);
                    (res, l) = epoll_del env fd l
                in Some (res, pe_set l i (poll_entry_mark_deleted (pe_get l i))) }"

section \<open>Signals\<close>

definition QB_MAX_NUM_SIGNALS :: int where "QB_MAX_NUM_SIGNALS = 64"

text \<open>The signals that exist, and those whose action can be set (not \<^verbatim>\<open>SIGKILL\<close> and \<^verbatim>\<open>SIGSTOP\<close>).\<close>

definition signal_exists :: "int \<Rightarrow> bool" where "signal_exists i \<longleftrightarrow> 1 \<le> i \<and> i \<le> 64"
definition signal_settable :: "int \<Rightarrow> bool" where "signal_settable i \<longleftrightarrow> signal_exists i \<and> i \<noteq> 9 \<and> i \<noteq> 19"

definition signal_needed :: "('f, 'd) poll_loop \<Rightarrow> int \<Rightarrow> bool" where
  "signal_needed l i \<longleftrightarrow> list_ex (\<lambda>a. case sigs l a of Some sig \<Rightarrow> i = sg_signal sig | None \<Rightarrow> False) (sig_head l)"

definition adjust_sigactions :: "('f, 'd) poll_loop \<Rightarrow> ('f, 'd) poll_loop" where
  "adjust_sigactions l =
     l\<lparr>signal_superset := (\<lambda>i. 0 \<le> i \<and> i < QB_MAX_NUM_SIGNALS \<and> signal_needed l i \<and> signal_exists i),
       sig_installed := (\<lambda>i. if 0 \<le> i \<and> i < QB_MAX_NUM_SIGNALS \<and> signal_needed l i \<and> signal_settable i then True else sig_installed l i)\<rparr>"

text \<open>\<open>signal(sig, SIG_DFL)\<close>.\<close>

definition signal_default :: "int \<Rightarrow> ('f, 'd) poll_loop \<Rightarrow> ('f, 'd) poll_loop" where
  "signal_default i l = (if signal_settable i then l\<lparr>sig_installed := (sig_installed l)(i := False)\<rparr> else l)"

definition qb_loop_signal_add ::
    "nat option \<Rightarrow> int \<Rightarrow> int \<Rightarrow> int \<Rightarrow> 'd option \<Rightarrow> 'f option \<Rightarrow> ('f, 'd) poll_loop \<Rightarrow> int \<times> nat option \<times> ('f, 'd) poll_loop" where
  "qb_loop_signal_add calloc calloc_errno p the_sig data dispatch_fn l =
     (case dispatch_fn of
        None \<Rightarrow> (- EINVAL, None, l)
      | Some f \<Rightarrow>
          if p < int QB_LOOP_LOW \<or> p > int QB_LOOP_HIGH then (- EINVAL, None, l)
          else case calloc of
                 None \<Rightarrow> (- calloc_errno, None, l)
               | Some a \<Rightarrow>
                   let sig = \<lparr>sg_user_data = data, sg_signal = the_sig, sg_p = nat p, sg_fn = f, sg_cloned_from = None\<rparr>;
                       l = l\<lparr>sigs := (sigs l)(a \<mapsto> sig), sig_head := sig_head l @ [a]\<rparr>
                   in (0, Some a, if signal_superset l the_sig then l else adjust_sigactions l))"

definition qb_loop_signal_mod ::
    "int \<Rightarrow> int \<Rightarrow> 'd option \<Rightarrow> 'f option \<Rightarrow> nat option \<Rightarrow> ('f, 'd) poll_loop \<Rightarrow> (int \<times> ('f, 'd) poll_loop) option" where
  "qb_loop_signal_mod p the_sig data dispatch_fn handle l =
     (case (dispatch_fn, handle) of
        (Some f, Some a) \<Rightarrow>
          if p < int QB_LOOP_LOW \<or> p > int QB_LOOP_HIGH then Some (- EINVAL, l)
          else do {
            sig \<leftarrow> sigs l a;
            let old = sg_signal sig;
            let sig = sig\<lparr>sg_user_data := data, sg_fn := f, sg_p := nat p\<rparr>;
            if old \<noteq> the_sig
            then Some (0, adjust_sigactions ((signal_default old l)\<lparr>sigs := (sigs l)(a \<mapsto> sig\<lparr>sg_signal := the_sig\<rparr>)\<rparr>))
            else Some (0, l\<lparr>sigs := (sigs l)(a \<mapsto> sig)\<rparr>) }
      | _ \<Rightarrow> Some (- EINVAL, l))"

text \<open>The first item of a list that is a copy of the handler \<open>a\<close>.\<close>

fun find_clone :: "(nat \<rightharpoonup> ('f, 'd) qb_loop_sig) \<Rightarrow> nat \<Rightarrow> ('f, 'd) loop_item list \<Rightarrow> nat option option" where
  "find_clone m a [] = Some None"
| "find_clone m a (LoopSig c # items) =
     do { sig \<leftarrow> m c; if sg_cloned_from sig = Some a then Some (Some c) else find_clone m a items }"
| "find_clone m a (_ # items) = find_clone m a items"

text \<open>A copy that is found on the waiting list is freed, one on the ready list is only taken off it.\<close>

definition qb_loop_signal_del :: "nat option \<Rightarrow> ('f, 'd) poll_loop \<Rightarrow> (int \<times> ('f, 'd) poll_loop) option" where
  "qb_loop_signal_del handle l =
     (case handle of
        None \<Rightarrow> Some (- EINVAL, l)
      | Some a \<Rightarrow> do {
          sig \<leftarrow> sigs l a;
          let p = sg_p sig;
          w \<leftarrow> find_clone (sigs l) a (wait_head (level l p));
          let l = (case w of
                     None \<Rightarrow> l
                   | Some c \<Rightarrow> (upd_level p (\<lambda>v. v\<lparr>wait_head := remove1 (LoopSig c) (wait_head v)\<rparr>) l)\<lparr>sigs := (sigs l)(c := None)\<rparr>);
          j \<leftarrow> find_clone (sigs l) a (job_head (level l p));
          let l = (case j of None \<Rightarrow> l | Some c \<Rightarrow> qb_loop_level_item_del p (LoopSig c) l);
          let l = signal_default (sg_signal sig) (l\<lparr>sig_head := remove1 a (sig_head l)\<rparr>);
          Some (0, adjust_sigactions (l\<lparr>sigs := (sigs l)(a := None)\<rparr>)) })"

text \<open>
  The loop over the handlers that copies those for the signal; \<open>n\<close> counts the copies, \<open>alloc\<close> gives the results of the allocations. It ends when memory is out.
\<close>

fun clone_loop :: "(nat \<Rightarrow> nat option) \<Rightarrow> int \<Rightarrow> nat list \<Rightarrow> nat \<Rightarrow> ('f, 'd) poll_loop \<Rightarrow> (nat \<times> ('f, 'd) poll_loop) option" where
  "clone_loop alloc the_signal [] n l = Some (n, l)"
| "clone_loop alloc the_signal (a # as) n l =
     do { sig \<leftarrow> sigs l a;
          if sg_signal sig = the_signal then
            (case alloc n of
               None \<Rightarrow> Some (n, l)
             | Some c \<Rightarrow>
                 clone_loop alloc the_signal as (Suc n)
                   (qb_loop_level_item_add (sg_p sig) (LoopSig c) (l\<lparr>sigs := (sigs l)(c \<mapsto> sig\<lparr>sg_cloned_from := Some a\<rparr>)\<rparr>)))
          else clone_loop alloc the_signal as n l }"

text \<open>\<open>k\<close> is the place of the event in the answer of \<^verbatim>\<open>epoll_wait\<close>: every event has its own read from the pipe and its own allocations.\<close>

definition signal_add_to_jobs :: "('f, 'd) poll_env \<Rightarrow> nat \<Rightarrow> nat \<Rightarrow> ('f, 'd) poll_loop \<Rightarrow> (nat \<times> ('f, 'd) poll_loop) option" where
  "signal_add_to_jobs env k i l =
     (case pv_sig env k of
        None \<Rightarrow> Some (0, l)
      | Some the_signal \<Rightarrow>
          clone_loop (pv_sig_alloc env k) the_signal (sig_head l) 0 (pe_set l i ((pe_get l i)\<lparr>pe_revents := 0\<rparr>)))"

section \<open>Polling\<close>

text \<open>The priority is not checked when an entry is added.\<close>

definition poll_add_to_jobs :: "nat \<Rightarrow> ('f, 'd) poll_loop \<Rightarrow> (nat \<times> ('f, 'd) poll_loop) option" where
  "poll_add_to_jobs i l =
     (let e = pe_get l i
      in if pe_type e \<noteq> QB_LOOP_FD \<or> pe_p e > QB_LOOP_HIGH then None
         else Some (1, pe_set (qb_loop_level_item_add (pe_p e) (LoopFd i) l) i (e\<lparr>pe_state := ENTRY_JOBLIST\<rparr>)))"

definition add_to_jobs :: "('f, 'd) poll_env \<Rightarrow> nat \<Rightarrow> nat \<Rightarrow> ('f, 'd) poll_loop \<Rightarrow> (nat \<times> ('f, 'd) poll_loop) option" where
  "add_to_jobs env k i l =
     (case pe_add_to_jobs (pe_get l i) of
        None \<Rightarrow> None
      | Some AddFd \<Rightarrow> poll_add_to_jobs i l
      | Some AddSig \<Rightarrow> signal_add_to_jobs env k i l)"

text \<open>The place of the entry for a handle, or the error.\<close>

definition poll_entry_from_handle :: "('f, 'd) poll_env \<Rightarrow> u64 \<Rightarrow> ('f, 'd) poll_loop \<Rightarrow> (nat option \<times> ('f, 'd) poll_loop) option" where
  "poll_entry_from_handle env handle_in l =
     (let check = ucast (drop_bit 32 handle_in) :: u32;
          handle = sint (ucast handle_in :: u32)
      in case array_index (pv_arr env) (poll_entries l) handle of
           (ArrayAbort, a) \<Rightarrow> None
         | (ArrayRet rc p cb, a) \<Rightarrow>
             let l = l\<lparr>poll_entries := a\<rparr>
             in Some (if rc \<noteq> 0 \<or> pe_check (pe_get l (nat handle)) \<noteq> check then None else Some (nat handle), l))"

definition poll_event :: "('f, 'd) poll_env \<Rightarrow> nat \<Rightarrow> u64 \<Rightarrow> u32 \<Rightarrow> ('f, 'd) poll_loop \<Rightarrow> (nat \<times> ('f, 'd) poll_loop) option" where
  "poll_event env k handle events l =
     do { (r, l) \<leftarrow> poll_entry_from_handle env handle l;
          case r of
            None \<Rightarrow> Some (0, l)
          | Some i \<Rightarrow>
              let e = pe_get l i
              in if pe_fd e = - 1 \<or> pe_state e = ENTRY_DELETED then Some (0, l)
                 else
                   let l = pe_set l i (e\<lparr>pe_revents := pe_revents e OR ucast (epoll_to_poll_event events)\<rparr>)
                   in if pe_state e \<noteq> ENTRY_JOBLIST then add_to_jobs env k i l else Some (0, l) }"

fun poll_events_loop :: "('f, 'd) poll_env \<Rightarrow> nat \<Rightarrow> (u64 \<times> u32) list \<Rightarrow> nat \<Rightarrow> ('f, 'd) poll_loop \<Rightarrow> (nat \<times> ('f, 'd) poll_loop) option" where
  "poll_events_loop env k [] new_jobs l = Some (new_jobs, l)"
| "poll_events_loop env k ((h, ev) # evs) new_jobs l =
     do { (n, l) \<leftarrow> poll_event env k h ev l; poll_events_loop env (Suc k) evs (new_jobs + n) l }"

text \<open>\<open>wait\<close> is the result of \<^verbatim>\<open>epoll_wait\<close>, repeated while it is interrupted: an error number or at most twelve events.\<close>

definition poll_and_add_to_jobs ::
    "('f, 'd) poll_env \<Rightarrow> int + (u64 \<times> u32) list \<Rightarrow> ('f, 'd) poll_loop \<Rightarrow> (int \<times> (bool \<times> int) option \<times> ('f, 'd) poll_loop) option" where
  "poll_and_add_to_jobs env wait l =
     do { (low, l) \<leftarrow> qb_poll_fds_usage_check env l;
          case wait of
            Inl e \<Rightarrow> Some (- e, low, l)
          | Inr evs \<Rightarrow> do { (n, l) \<leftarrow> poll_events_loop env 0 evs 0 l; Some (int n, low, l) } }"

section \<open>Callbacks\<close>

text \<open>What a callback of the application may do with the loop.\<close>

datatype ('f, 'd) app_call =
    AppAdd "('f, 'd) poll_env" nat int u32 "'d option" 'f
  | AppMod "('f, 'd) poll_env" nat int u32 "'d option" 'f
  | AppDel "('f, 'd) poll_env" int
  | AppSigAdd "nat option" int int int "'d option" 'f
  | AppSigMod int int "'d option" 'f nat
  | AppSigDel nat

fun app_run :: "('f, 'd) app_call \<Rightarrow> ('f, 'd) poll_loop \<Rightarrow> ('f, 'd) poll_loop option" where
  "app_run (AppAdd env p fd events data f) l = map_option snd (qb_loop_poll_add env p fd events data (Some f) l)"
| "app_run (AppMod env p fd events data f) l = map_option snd (qb_loop_poll_mod env p fd events data (Some f) l)"
| "app_run (AppDel env fd) l = map_option snd (qb_loop_poll_del env fd l)"
| "app_run (AppSigAdd calloc e p s data f) l = Some (snd (snd (qb_loop_signal_add calloc e p s data (Some f) l)))"
| "app_run (AppSigMod p s data f a) l = map_option snd (qb_loop_signal_mod p s data (Some f) (Some a) l)"
| "app_run (AppSigDel a) l = map_option snd (qb_loop_signal_del (Some a) l)"

fun app_runs :: "('f, 'd) app_call list \<Rightarrow> ('f, 'd) poll_loop \<Rightarrow> ('f, 'd) poll_loop option" where
  "app_runs [] l = Some l"
| "app_runs (c # cs) l = do { l \<leftarrow> app_run c l; app_runs cs l }"

text \<open>\<open>cb\<close> has what a callback does and returns, for its arguments.\<close>

definition poll_dispatch_and_take_back ::
    "('f \<Rightarrow> int \<Rightarrow> u16 \<Rightarrow> 'd option \<Rightarrow> ('f, 'd) app_call list \<times> int) \<Rightarrow> nat \<Rightarrow> ('f, 'd) poll_loop \<Rightarrow> ('f, 'd) poll_loop option" where
  "poll_dispatch_and_take_back cb i l =
     (let e = pe_get l i
      in if pe_state e \<noteq> ENTRY_JOBLIST \<or> pe_type e \<noteq> QB_LOOP_FD then None
         else do {
           f \<leftarrow> pe_fn e;
           let (calls, res) = cb f (pe_fd e) (pe_revents e) (pe_user_data e);
           l \<leftarrow> app_runs calls l;
           let e = pe_get l i;
           Some (if res < 0 then pe_set l i (poll_entry_mark_deleted e)
                 else if pe_state e \<noteq> ENTRY_DELETED then pe_set l i (e\<lparr>pe_state := ENTRY_ACTIVE, pe_revents := 0\<rparr>)
                 else l) })"

definition signal_dispatch_and_take_back ::
    "('f \<Rightarrow> int \<Rightarrow> 'd option \<Rightarrow> ('f, 'd) app_call list \<times> int) \<Rightarrow> nat \<Rightarrow> ('f, 'd) poll_loop \<Rightarrow> ('f, 'd) poll_loop option" where
  "signal_dispatch_and_take_back cb c l =
     do { sig \<leftarrow> sigs l c;
          let (calls, res) = cb (sg_fn sig) (sg_signal sig) (sg_user_data sig);
          l \<leftarrow> app_runs calls l;
          sig \<leftarrow> sigs l c;
          l \<leftarrow> (if res \<noteq> 0 then do { a \<leftarrow> sg_cloned_from sig; _ \<leftarrow> sigs l a; map_option snd (qb_loop_signal_del (Some a) l) } else Some l);
          Some (l\<lparr>sigs := (sigs l)(c := None)\<rparr>) }"

section \<open>Creation\<close>

definition qb_loop_poll_create :: "('f, 'd) qb_poll_entry qb_array \<Rightarrow> ('f, 'd) loop_item qb_loop \<Rightarrow> int \<Rightarrow> ('f, 'd) poll_loop" where
  "qb_loop_poll_create a l limit =
     \<lparr>level = level l, stop_requested = stop_requested l, poll_entries = a, poll_entry_count = 0, low_fds_event_fn = False, not_enough_fds = False, socks_limit = limit,
      ctl_calls = [], sig_head = [], sigs = Map.empty, signal_superset = (\<lambda>_. False), sig_installed = (\<lambda>_. False), pipe_fds = (- 1, - 1)\<rparr>"

text \<open>
  The signal source: \<open>pipe\<close> has the result of \<^verbatim>\<open>pipe\<close>, an error number or the two ends. The pipe is kept when it exists. The result is whether there is a source.
\<close>

definition qb_loop_signals_create :: "('f, 'd) poll_env \<Rightarrow> bool \<Rightarrow> int + int \<times> int \<Rightarrow> ('f, 'd) poll_loop \<Rightarrow> (bool \<times> ('f, 'd) poll_loop) option" where
  "qb_loop_signals_create env calloc_ok pipe l =
     (if \<not> calloc_ok then Some (False, l)
      else
        let l = l\<lparr>sig_head := [], signal_superset := (\<lambda>_. False)\<rparr>
        in if fst (pipe_fds l) \<ge> 0 then Some (True, l)
           else case pipe of
                  Inl e \<Rightarrow> Some (False, l)
                | Inr fds \<Rightarrow> do {
                    (res, i, l) \<leftarrow> poll_add env QB_LOOP_HIGH (fst fds) POLLIN None (l\<lparr>pipe_fds := fds\<rparr>);
                    if res = 0
                    then Some (True, pe_set l i ((pe_get l i)\<lparr>pe_fn := None, pe_type := QB_LOOP_SIG, pe_add_to_jobs := Some AddSig\<rparr>))
                    else Some (False, l) })"

definition qb_loop_signals_destroy :: "('f, 'd) poll_loop \<Rightarrow> ('f, 'd) poll_loop" where
  "qb_loop_signals_destroy l = l\<lparr>pipe_fds := (- 1, - 1), sigs := (\<lambda>a. if a \<in> set (sig_head l) then None else sigs l a), sig_head := []\<rparr>"

end
