(* ===== verification/Loop_poll_Inv.thy ===== *)
theory Loop_poll_Inv
  imports Loop_poll
begin

text \<open>
  The invariant of the poll source and of the signal source, that every operation keeps it, and what it gives: no assertion of the source fails,
  whatever file descriptors are added, modified and deleted, also by the callbacks, and whatever events arrive.
\<close>

section \<open>The invariant\<close>

text \<open>How often the entry \<open>i\<close> is on the ready lists.\<close>

definition queued :: "('f, 'd) loop_item \<Rightarrow> ('f, 'd) poll_loop \<Rightarrow> nat" where
  "queued it l = count_list (job_head (level l 0)) it + count_list (job_head (level l 1)) it + count_list (job_head (level l 2)) it"

definition entry_wf :: "('f, 'd) qb_poll_entry \<Rightarrow> bool" where
  "entry_wf e \<longleftrightarrow> pe_p e \<le> 2 \<and>
     (pe_type e = QB_LOOP_FD \<and> pe_fn e \<noteq> None \<and> pe_add_to_jobs e = Some AddFd \<or>
      pe_type e = QB_LOOP_SIG \<and> pe_add_to_jobs e = Some AddSig \<and> pe_state e \<noteq> ENTRY_JOBLIST)"

text \<open>
  \<open>H\<close> is the entry that is being dispatched, which is on no list. The entries in use are counted and lie in allocated bins, and an entry is on the ready lists exactly once
  when its state says so.
\<close>

definition fds_ok :: "nat option \<Rightarrow> ('f, 'd) poll_loop \<Rightarrow> bool" where
  "fds_ok H l \<longleftrightarrow>
     array_inv (poll_entries l) \<and> poll_entry_count l \<le> max_elements (poll_entries l) \<and>
     (\<forall>i. pe_state (pe_get l i) \<noteq> ENTRY_EMPTY \<longrightarrow> i < poll_entry_count l \<and> array_has (poll_entries l) i) \<and>
     (\<forall>i. pe_state (pe_get l i) \<in> {ENTRY_ACTIVE, ENTRY_JOBLIST} \<longrightarrow> entry_wf (pe_get l i)) \<and>
     (\<forall>i. queued (LoopFd i) l = (if pe_state (pe_get l i) = ENTRY_JOBLIST \<and> H \<noteq> Some i then 1 else 0)) \<and>
     (\<forall>i. H = Some i \<longrightarrow> pe_state (pe_get l i) \<in> {ENTRY_JOBLIST, ENTRY_DELETED})"

text \<open>
  The handlers are live memory and each is registered once; a copy that is on a ready list is live memory, is on it once and is no handler. Copies never wait.
\<close>

definition sigs_ok :: "('f, 'd) poll_loop \<Rightarrow> bool" where
  "sigs_ok l \<longleftrightarrow>
     distinct (sig_head l) \<and>
     (\<forall>a\<in>set (sig_head l). \<exists>sig. sigs l a = Some sig \<and> sg_p sig \<le> 2) \<and>
     (\<forall>c. queued (LoopSig c) l \<le> 1 \<and> (queued (LoopSig c) l = 1 \<longrightarrow> sigs l c \<noteq> None \<and> c \<notin> set (sig_head l))) \<and>
     (\<forall>q\<le>2. \<forall>c. LoopSig c \<notin> set (wait_head (level l q)))"

definition poll_env_ok :: "('f, 'd) poll_env \<Rightarrow> bool" where
  "poll_env_ok env \<longleftrightarrow> array_env_ok (pv_arr env)"

section \<open>Reading and writing entries\<close>

lemma pe_get_elem: "pe_get l i = array_elem (poll_entries l) i"
  by (simp add: pe_get_def array_elem_def)

lemma pe_set_simps [simp]:
  "level (pe_set l i e) = level l" "stop_requested (pe_set l i e) = stop_requested l" "poll_entry_count (pe_set l i e) = poll_entry_count l"
  "low_fds_event_fn (pe_set l i e) = low_fds_event_fn l" "not_enough_fds (pe_set l i e) = not_enough_fds l" "socks_limit (pe_set l i e) = socks_limit l"
  "ctl_calls (pe_set l i e) = ctl_calls l" "sig_head (pe_set l i e) = sig_head l" "sigs (pe_set l i e) = sigs l"
  "signal_superset (pe_set l i e) = signal_superset l" "sig_installed (pe_set l i e) = sig_installed l" "pipe_fds (pe_set l i e) = pipe_fds l"
  by (simp_all add: pe_set_def)

lemma pe_get_other [simp]:
  "pe_get (l\<lparr>level := v\<rparr>) i = pe_get l i" "pe_get (l\<lparr>poll_entry_count := n\<rparr>) i = pe_get l i" "pe_get (l\<lparr>ctl_calls := cs\<rparr>) i = pe_get l i"
  "pe_get (l\<lparr>socks_limit := k\<rparr>) i = pe_get l i" "pe_get (l\<lparr>not_enough_fds := b\<rparr>) i = pe_get l i" "pe_get (l\<lparr>sigs := m\<rparr>) i = pe_get l i"
  "pe_get (l\<lparr>sig_head := as\<rparr>) i = pe_get l i" "pe_get (l\<lparr>signal_superset := s\<rparr>) i = pe_get l i" "pe_get (l\<lparr>sig_installed := s\<rparr>) i = pe_get l i"
  "pe_get (l\<lparr>pipe_fds := ps\<rparr>) i = pe_get l i" "pe_get (l\<lparr>low_fds_event_fn := b\<rparr>) i = pe_get l i"
  by (simp_all add: pe_get_def)

lemma pe_get_set:
  assumes "array_inv (poll_entries l)" "array_has (poll_entries l) i"
  shows "pe_get (pe_set l i e) j = (if j = i then e else pe_get l j)"
  using array_set_ok(2)[OF assms] by (simp add: pe_get_elem pe_set_def)

lemma pe_set_array:
  assumes "array_inv (poll_entries l)" "array_has (poll_entries l) i"
  shows "array_inv (poll_entries (pe_set l i e))" "array_has (poll_entries (pe_set l i e)) j = array_has (poll_entries l) j"
    "max_elements (poll_entries (pe_set l i e)) = max_elements (poll_entries l)"
  using array_set_ok[OF assms] by (simp_all add: pe_set_def)

lemma queued_same: "level l' = level l \<Longrightarrow> queued it l' = queued it l"
  by (simp add: queued_def)

lemma queued_other [simp]:
  "queued it (pe_set l i e) = queued it l" "queued it (l\<lparr>poll_entries := a\<rparr>) = queued it l" "queued it (l\<lparr>poll_entry_count := n\<rparr>) = queued it l"
  "queued it (l\<lparr>ctl_calls := cs\<rparr>) = queued it l" "queued it (l\<lparr>socks_limit := k\<rparr>) = queued it l" "queued it (l\<lparr>not_enough_fds := b\<rparr>) = queued it l"
  "queued it (l\<lparr>sigs := m\<rparr>) = queued it l" "queued it (l\<lparr>sig_head := as\<rparr>) = queued it l" "queued it (l\<lparr>signal_superset := s\<rparr>) = queued it l"
  "queued it (l\<lparr>sig_installed := s\<rparr>) = queued it l" "queued it (l\<lparr>pipe_fds := ps\<rparr>) = queued it l" "queued it (l\<lparr>low_fds_event_fn := b\<rparr>) = queued it l"
  by (simp_all add: queued_def)

lemma fds_okD:
  assumes "fds_ok H l"
  shows "array_inv (poll_entries l)" "poll_entry_count l \<le> max_elements (poll_entries l)"
    "pe_state (pe_get l i) \<noteq> ENTRY_EMPTY \<Longrightarrow> i < poll_entry_count l" "pe_state (pe_get l i) \<noteq> ENTRY_EMPTY \<Longrightarrow> array_has (poll_entries l) i"
    "pe_state (pe_get l i) = ENTRY_ACTIVE \<or> pe_state (pe_get l i) = ENTRY_JOBLIST \<Longrightarrow> entry_wf (pe_get l i)"
    "queued (LoopFd i) l = (if pe_state (pe_get l i) = ENTRY_JOBLIST \<and> H \<noteq> Some i then 1 else 0)"
    "H = Some i \<Longrightarrow> pe_state (pe_get l i) = ENTRY_JOBLIST \<or> pe_state (pe_get l i) = ENTRY_DELETED"
  using assms unfolding fds_ok_def by blast+

text \<open>Changing the ready lists, the signals and one entry.\<close>

lemma fds_ok_upd:
  assumes ok: "fds_ok H l" and i: "array_has (poll_entries l) i" "i < poll_entry_count l"
    and e: "pe_state e = ENTRY_ACTIVE \<or> pe_state e = ENTRY_JOBLIST \<Longrightarrow> entry_wf e" "H = Some i \<Longrightarrow> pe_state e = ENTRY_JOBLIST \<or> pe_state e = ENTRY_DELETED"
    and l': "array_inv (poll_entries l')" "\<And>j. array_has (poll_entries l') j = array_has (poll_entries l) j"
      "max_elements (poll_entries l') = max_elements (poll_entries l)" "poll_entry_count l' = poll_entry_count l"
    and get: "\<And>j. pe_get l' j = (if j = i then e else pe_get l j)"
    and q: "queued (LoopFd i) l' = (if pe_state e = ENTRY_JOBLIST \<and> H \<noteq> Some i then 1 else 0)" "\<And>j. j \<noteq> i \<Longrightarrow> queued (LoopFd j) l' = queued (LoopFd j) l"
  shows "fds_ok H l'"
proof -
  have st: "pe_state (pe_get l' j) \<noteq> ENTRY_EMPTY \<Longrightarrow> j < poll_entry_count l \<and> array_has (poll_entries l) j" for j
    using get i fds_okD(3,4)[OF ok, of j] by (simp split: if_splits)
  have "queued (LoopFd j) l' = (if pe_state (pe_get l' j) = ENTRY_JOBLIST \<and> H \<noteq> Some j then 1 else 0)" for j
    using get q fds_okD(6)[OF ok, of j] by simp
  moreover have "entry_wf (pe_get l' j)" if "pe_state (pe_get l' j) \<in> {ENTRY_ACTIVE, ENTRY_JOBLIST}" for j
    using that get e(1) fds_okD(5)[OF ok, of j] by (auto split: if_splits)
  moreover have "pe_state (pe_get l' j) \<in> {ENTRY_JOBLIST, ENTRY_DELETED}" if "H = Some j" for j
    using that get e(2) fds_okD(7)[OF ok, of j] by auto
  ultimately show ?thesis unfolding fds_ok_def using fds_okD(2)[OF ok] st l' by simp
qed

lemma fds_ok_set:
  assumes ok: "fds_ok H l" and i: "array_has (poll_entries l) i" "i < poll_entry_count l"
    and e: "pe_state e = ENTRY_ACTIVE \<or> pe_state e = ENTRY_JOBLIST \<Longrightarrow> entry_wf e" "H = Some i \<Longrightarrow> pe_state e = ENTRY_JOBLIST \<or> pe_state e = ENTRY_DELETED"
    and l': "poll_entries l' = poll_entries l" "poll_entry_count l' = poll_entry_count l"
    and q: "queued (LoopFd i) l' = (if pe_state e = ENTRY_JOBLIST \<and> H \<noteq> Some i then 1 else 0)" "\<And>j. j \<noteq> i \<Longrightarrow> queued (LoopFd j) l' = queued (LoopFd j) l"
  shows "fds_ok H (pe_set l' i e)"
proof -
  have inv: "array_inv (poll_entries l')" "array_has (poll_entries l') i" using fds_okD(1)[OF ok] i(1) l'(1) by simp_all
  have get: "pe_get (pe_set l' i e) j = (if j = i then e else pe_get l j)" for j using pe_get_set[OF inv] l'(1) by (simp add: pe_get_def)
  show ?thesis
    by (rule fds_ok_upd[OF ok i e]) (use pe_set_array[OF inv] l' q get in \<open>auto\<close>)
qed

lemma fds_ok_same:
  assumes "fds_ok H l" "array_inv (poll_entries l')" "array_same (poll_entries l) (poll_entries l')" "poll_entry_count l \<le> poll_entry_count l'"
    "poll_entry_count l' \<le> max_elements (poll_entries l')" "\<And>i. queued (LoopFd i) l' = queued (LoopFd i) l"
  shows "fds_ok H l'"
proof -
  have "pe_get l' i = pe_get l i" for i using assms(3) by (simp add: pe_get_elem array_same_def)
  then show ?thesis using assms unfolding fds_ok_def array_same_def by (simp, meson less_le_trans)
qed

section \<open>Searching\<close>

lemma pe_index_ok:
  assumes "array_inv (poll_entries l)" "poll_env_ok env" "i < max_elements (poll_entries l)"
  shows "\<exists>a. pe_index env (int i) l = Some (l\<lparr>poll_entries := a\<rparr>) \<and> array_inv a \<and> array_same (poll_entries l) a \<and> array_has a i \<and>
    max_elements a = max_elements (poll_entries l)"
  using array_index_below[OF assms(1) _ assms(3), of "pv_arr env"] assms(2) by (auto simp: pe_index_def poll_env_ok_def)

lemma poll_find_ok:
  assumes "array_inv (poll_entries l)" "poll_env_ok env" "i + k \<le> max_elements (poll_entries l)"
  shows "\<exists>a. poll_find env P i k l = Some (find (\<lambda>j. P (pe_get l j)) [i..<i + k], l\<lparr>poll_entries := a\<rparr>) \<and> array_inv a \<and> array_same (poll_entries l) a \<and>
    max_elements a = max_elements (poll_entries l) \<and> (\<forall>j. find (\<lambda>j. P (pe_get l j)) [i..<i + k] = Some j \<longrightarrow> array_has a j)"
  using assms
proof (induction k arbitrary: i l)
  case 0
  then show ?case by (intro exI[of _ "poll_entries l"]) simp
next
  case (Suc k)
  obtain a where a: "pe_index env (int i) l = Some (l\<lparr>poll_entries := a\<rparr>)" "array_inv a" "array_same (poll_entries l) a" "array_has a i"
    "max_elements a = max_elements (poll_entries l)" using pe_index_ok[OF Suc.prems(1,2), of i] Suc.prems(3) by auto
  have get: "pe_get (l\<lparr>poll_entries := a\<rparr>) j = pe_get l j" for j using a(3) by (simp add: pe_get_elem array_same_def)
  have upt: "[i..<Suc (i + k)] = i # [Suc i..<Suc (i + k)]" by (simp add: upt_conv_Cons)
  show ?case
  proof (cases "P (pe_get l i)")
    case True
    then show ?thesis using a get by (intro exI[of _ a]) (simp add: upt del: upt_Suc)
  next
    case False
    obtain b where "poll_find env P (Suc i) k (l\<lparr>poll_entries := a\<rparr>) = Some (find (\<lambda>j. P (pe_get l j)) [Suc i..<Suc i + k], l\<lparr>poll_entries := b\<rparr>)"
      "array_inv b" "array_same a b" "max_elements b = max_elements a" "\<forall>j. find (\<lambda>j. P (pe_get l j)) [Suc i..<Suc i + k] = Some j \<longrightarrow> array_has b j"
      using Suc.IH[of "l\<lparr>poll_entries := a\<rparr>" "Suc i"] Suc.prems a(2,5) by (auto simp: get simp del: upt_Suc)
    then show ?thesis using False a get array_same_trans[OF a(3)] by (intro exI[of _ b]) (simp add: upt del: upt_Suc)
  qed
qed

section \<open>Operations on file descriptors\<close>

text \<open>What they leave alone.\<close>

definition sigs_frame :: "('f, 'd) poll_loop \<Rightarrow> ('f, 'd) poll_loop \<Rightarrow> bool" where
  "sigs_frame l l' \<longleftrightarrow> sigs l' = sigs l \<and> sig_head l' = sig_head l \<and> signal_superset l' = signal_superset l \<and> sig_installed l' = sig_installed l \<and>
     (\<forall>c. queued (LoopSig c) l' = queued (LoopSig c) l) \<and> (\<forall>q. wait_head (level l' q) = wait_head (level l q))"

lemma sigs_frame_refl [simp]: "sigs_frame l l"
  by (simp add: sigs_frame_def)

lemma sigs_frame_trans: "sigs_frame l l' \<Longrightarrow> sigs_frame l' l'' \<Longrightarrow> sigs_frame l l''"
  by (simp add: sigs_frame_def)

lemma sigs_frame_ok: "sigs_frame l l' \<Longrightarrow> sigs_ok l \<Longrightarrow> sigs_ok l'"
  by (simp add: sigs_frame_def sigs_ok_def)

lemma poll_find_entries:
  assumes ok: "fds_ok H l" and env: "poll_env_ok env"
  shows "\<exists>a. poll_find env P 0 (poll_entry_count l) l = Some (find (\<lambda>j. P (pe_get l j)) [0..<poll_entry_count l], l\<lparr>poll_entries := a\<rparr>) \<and>
    fds_ok H (l\<lparr>poll_entries := a\<rparr>) \<and> (\<forall>j. pe_get (l\<lparr>poll_entries := a\<rparr>) j = pe_get l j) \<and>
    (\<forall>i. find (\<lambda>j. P (pe_get l j)) [0..<poll_entry_count l] = Some i \<longrightarrow> i < poll_entry_count l \<and> P (pe_get l i) \<and> array_has a i)"
proof -
  obtain a where a: "poll_find env P 0 (poll_entry_count l) l = Some (find (\<lambda>j. P (pe_get l j)) [0..<poll_entry_count l], l\<lparr>poll_entries := a\<rparr>)" "array_inv a"
    "array_same (poll_entries l) a" "max_elements a = max_elements (poll_entries l)" "\<forall>j. find (\<lambda>j. P (pe_get l j)) [0..<poll_entry_count l] = Some j \<longrightarrow> array_has a j"
    using poll_find_ok[OF fds_okD(1)[OF ok] env, of 0 "poll_entry_count l" P] fds_okD(2)[OF ok] by auto
  have "fds_ok H (l\<lparr>poll_entries := a\<rparr>)" by (rule fds_ok_same[OF ok]) (use a fds_okD(2)[OF ok] in auto)
  moreover have "pe_get (l\<lparr>poll_entries := a\<rparr>) j = pe_get l j" for j using a(3) by (simp add: pe_get_elem array_same_def)
  ultimately show ?thesis using a(1,5) by (intro exI[of _ a]) (auto simp: find_Some_iff)
qed

lemma poll_empty_position_ok:
  assumes ok: "fds_ok H l" and env: "poll_env_ok env" and n: "poll_entry_count l < QB_ARRAY_MAX_ELEMENTS"
  shows "\<exists>i l1. poll_empty_position env l = Some (int i, l1) \<and> fds_ok H l1 \<and> sigs_frame l l1 \<and> (\<forall>j. pe_get l1 j = pe_get l j) \<and>
    i < poll_entry_count l1 \<and> pe_state (pe_get l i) = ENTRY_EMPTY \<and> level l1 = level l \<and> ctl_calls l1 = ctl_calls l"
proof -
  let ?r = "find (\<lambda>j. pe_state (pe_get l j) = ENTRY_EMPTY) [0..<poll_entry_count l]"
  obtain a where a: "poll_find env (\<lambda>e. pe_state e = ENTRY_EMPTY) 0 (poll_entry_count l) l = Some (?r, l\<lparr>poll_entries := a\<rparr>)" "fds_ok H (l\<lparr>poll_entries := a\<rparr>)"
    "\<And>j. pe_get (l\<lparr>poll_entries := a\<rparr>) j = pe_get l j" "\<And>i. ?r = Some i \<Longrightarrow> i < poll_entry_count l \<and> pe_state (pe_get l i) = ENTRY_EMPTY"
    using poll_find_entries[OF ok env, of "\<lambda>e. pe_state e = ENTRY_EMPTY"] by auto
  let ?l = "l\<lparr>poll_entries := a\<rparr>"
  show ?thesis
  proof (cases ?r)
    case (Some i)
    then show ?thesis using a by (intro exI[of _ i] exI[of _ ?l]) (simp add: poll_empty_position_def sigs_frame_def)
  next
    case None
    have inv: "array_inv a" "realloc_ok (pv_arr env)" "poll_entry_count l \<le> max_elements a"
      using fds_okD(1,2)[OF a(2)] env by (simp_all add: poll_env_ok_def array_env_ok_def)
    obtain b where b: "array_grow (pv_arr env) a (poll_entry_count l + 1) = (0, b)" "array_inv b" "array_same a b" "max_elements b = max (poll_entry_count l + 1) (max_elements a)"
      using array_grow_ok[OF inv(1,2), of "poll_entry_count l + 1"] n by auto
    let ?l1 = "l\<lparr>poll_entries := b, poll_entry_count := poll_entry_count l + 1\<rparr>"
    have "fds_ok H ?l1" by (rule fds_ok_same[OF a(2)]) (use b inv in auto)
    moreover have "pe_get ?l1 j = pe_get l j" for j using b(3) a(3)[of j] by (simp add: pe_get_elem array_same_def)
    moreover have "pe_state (pe_get l (poll_entry_count l)) = ENTRY_EMPTY" using fds_okD(3)[OF ok, of "poll_entry_count l"] by blast
    ultimately show ?thesis using None a(1) b(1)
      by (intro exI[of _ "poll_entry_count l"] exI[of _ ?l1]) (simp add: poll_empty_position_def sigs_frame_def Let_def)
  qed
qed

definition new_entry :: "('f, 'd) poll_env \<Rightarrow> nat \<Rightarrow> nat \<Rightarrow> int \<Rightarrow> u32 \<Rightarrow> 'd option \<Rightarrow> ('f, 'd) qb_poll_entry \<Rightarrow> ('f, 'd) qb_poll_entry" where
  "new_entry env i p fd events data e = e\<lparr>pe_state := (if pv_ctl env = 0 then ENTRY_ACTIVE else ENTRY_EMPTY), pe_install_pos := i,
     pe_check := poll_entry_check_generate (pv_random env), pe_fd := fd, pe_events := ucast events, pe_revents := 0, pe_user_data := data, pe_p := p, pe_runs := 0\<rparr>"

text \<open>One entry is replaced and nothing else changes in the array.\<close>

definition entry_changed :: "nat \<Rightarrow> ('f, 'd) qb_poll_entry \<Rightarrow> ('f, 'd) poll_loop \<Rightarrow> ('f, 'd) poll_loop \<Rightarrow> bool" where
  "entry_changed i e l l' \<longleftrightarrow> array_inv (poll_entries l') \<and> (\<forall>j. array_has (poll_entries l') j = array_has (poll_entries l) j) \<and>
     max_elements (poll_entries l') = max_elements (poll_entries l) \<and> poll_entry_count l' = poll_entry_count l \<and>
     (\<forall>j. pe_get l' j = (if j = i then e else pe_get l j))"

lemma entry_changed_ok:
  assumes "fds_ok H l" "entry_changed i e l l'" "array_has (poll_entries l) i" "i < poll_entry_count l"
    and "pe_state e = ENTRY_ACTIVE \<or> pe_state e = ENTRY_JOBLIST \<Longrightarrow> entry_wf e" "H = Some i \<Longrightarrow> pe_state e = ENTRY_JOBLIST \<or> pe_state e = ENTRY_DELETED"
    and "queued (LoopFd i) l' = (if pe_state e = ENTRY_JOBLIST \<and> H \<noteq> Some i then 1 else 0)" "\<And>j. j \<noteq> i \<Longrightarrow> queued (LoopFd j) l' = queued (LoopFd j) l"
  shows "fds_ok H l'"
  by (rule fds_ok_upd[OF assms(1,3,4,5,6)]) (use assms(2,7,8) in \<open>auto simp: entry_changed_def\<close>)

lemma entry_changed_set:
  assumes "array_inv (poll_entries l)" "array_has (poll_entries l) i" "poll_entries l' = poll_entries l" "poll_entry_count l' = poll_entry_count l"
  shows "entry_changed i e l (pe_set l' i e)"
proof -
  have "array_inv (poll_entries l')" "array_has (poll_entries l') i" using assms by simp_all
  note * = pe_get_set[OF this] pe_set_array[OF this]
  have "pe_get l' j = pe_get l j" for j using assms(3) by (simp add: pe_get_def)
  then show ?thesis using * assms by (simp add: entry_changed_def)
qed

lemma entry_changed_again:
  assumes "entry_changed i e l l'" "array_has (poll_entries l) i" "poll_entries l'' = poll_entries l'" "poll_entry_count l'' = poll_entry_count l'"
  shows "entry_changed i e' l (pe_set l'' i e')"
proof -
  have l': "array_inv (poll_entries l')" "array_has (poll_entries l') i" using assms(1,2) by (simp_all add: entry_changed_def)
  show ?thesis using assms(1) entry_changed_set[OF l' assms(3,4), of e'] by (simp add: entry_changed_def)
qed

lemma poll_add_ok:
  assumes ok: "fds_ok H l" and env: "poll_env_ok env" and n: "poll_entry_count l < QB_ARRAY_MAX_ELEMENTS"
  shows "\<exists>i l1 l'. poll_add env p fd events data l = Some (pv_ctl env, i, l') \<and> fds_ok H l1 \<and> (\<forall>j. pe_get l1 j = pe_get l j) \<and>
    array_has (poll_entries l1) i \<and> i < poll_entry_count l1 \<and> pe_state (pe_get l i) = ENTRY_EMPTY \<and> level l1 = level l \<and>
    entry_changed i (new_entry env i p fd events data (pe_get l i)) l1 l' \<and> level l' = level l \<and> sigs_frame l l' \<and>
    ctl_calls l' = ctl_calls l @ [CtlAdd fd (poll_to_epoll_event events) (entry_handle (new_entry env i p fd events data (pe_get l i)))]"
proof -
  obtain i l0 where l0: "poll_empty_position env l = Some (int i, l0)" "fds_ok H l0" "sigs_frame l l0" "\<And>j. pe_get l0 j = pe_get l j" "i < poll_entry_count l0"
    "pe_state (pe_get l i) = ENTRY_EMPTY" "level l0 = level l" "ctl_calls l0 = ctl_calls l" using poll_empty_position_ok[OF ok env n] by blast
  have "i < max_elements (poll_entries l0)" using fds_okD(2)[OF l0(2)] l0(5) by simp
  then obtain a where a: "pe_index env (int i) l0 = Some (l0\<lparr>poll_entries := a\<rparr>)" "array_inv a" "array_same (poll_entries l0) a" "array_has a i"
    "max_elements a = max_elements (poll_entries l0)" using pe_index_ok[OF fds_okD(1)[OF l0(2)] env] by blast
  define l1 where "l1 = l0\<lparr>poll_entries := a\<rparr>"
  have l1: "fds_ok H l1" unfolding l1_def by (rule fds_ok_same[OF l0(2)]) (use a fds_okD(2)[OF l0(2)] in auto)
  have get: "pe_get l1 j = pe_get l j" for j using a(3) l0(4)[of j] by (simp add: l1_def pe_get_elem array_same_def)
  have has: "array_has (poll_entries l1) i" "i < poll_entry_count l1" using a(4) l0(5) by (simp_all add: l1_def)
  let ?e = "(new_entry env i p fd events data (pe_get l i))\<lparr>pe_state := ENTRY_ACTIVE\<rparr>"
  let ?n = "new_entry env i p fd events data (pe_get l i)"
  have h: "entry_handle ?e = entry_handle ?n" by (simp add: entry_handle_def new_entry_def)
  define l2 where "l2 = (pe_set l1 i ?e)\<lparr>ctl_calls := ctl_calls l @ [CtlAdd fd (poll_to_epoll_event events) (entry_handle ?n)]\<rparr>"
  have c1: "entry_changed i ?e l1 (pe_set l1 i ?e)" using entry_changed_set[OF fds_okD(1)[OF l1] has(1)] by simp
  then have c2: "entry_changed i ?e l1 l2" by (simp add: entry_changed_def l2_def)
  have fr: "sigs_frame l l2" using l0(3) by (simp add: sigs_frame_def l2_def l1_def queued_def)
  have E: "(pe_get l i)\<lparr>pe_state := ENTRY_ACTIVE, pe_install_pos := i, pe_check := poll_entry_check_generate (pv_random env), pe_fd := fd,
      pe_events := ucast events, pe_revents := 0, pe_user_data := data, pe_p := p, pe_runs := 0\<rparr> = ?e"
    by (cases "pe_get l i") (simp add: new_entry_def)
  have ge: "pe_get (pe_set l1 i ?e) i = ?e" "ctl_calls l1 = ctl_calls l" using c1 l0(8) by (simp_all add: entry_changed_def l1_def)
  have ix: "pe_index env (int i) l0 = Some l1" using a(1) by (simp add: l1_def)
  have add: "poll_add env p fd events data l = (if pv_ctl env = 0 then Some (0, i, l2) else Some (pv_ctl env, i, pe_set l2 i (?e\<lparr>pe_state := ENTRY_EMPTY\<rparr>)))"
    unfolding poll_add_def l0(1) bind.bind_lunit prod.case ix Let_def nat_int get E epoll_add_def ge(1) h l2_def pe_set_simps ge(2) pe_get_other by simp
  define l' where "l' = (if pv_ctl env = 0 then l2 else pe_set l2 i (?e\<lparr>pe_state := ENTRY_EMPTY\<rparr>))"
  have "entry_changed i ?n l1 l'"
  proof (cases "pv_ctl env = 0")
    case True
    then have "?n = ?e" by (simp add: new_entry_def)
    then show ?thesis using c2 True by (simp add: l'_def)
  next
    case False
    then have "?n = ?e\<lparr>pe_state := ENTRY_EMPTY\<rparr>" by (simp add: new_entry_def)
    then show ?thesis using entry_changed_again[OF c2 has(1), of l2] False by (simp add: l'_def)
  qed
  moreover have "poll_add env p fd events data l = Some (pv_ctl env, i, l')" using add by (simp add: l'_def)
  moreover have "level l' = level l" "sigs_frame l l'" "ctl_calls l' = ctl_calls l @ [CtlAdd fd (poll_to_epoll_event events) (entry_handle ?n)]" "level l1 = level l"
    using fr l0(7) by (auto simp: l'_def l2_def l1_def sigs_frame_def queued_def)
  ultimately show ?thesis using l1 get has l0(6) by blast
qed

lemma qb_loop_poll_add_ok:
  assumes ok: "fds_ok H l" and env: "poll_env_ok env" and n: "poll_entry_count l < QB_ARRAY_MAX_ELEMENTS" and p: "p \<le> 2"
  shows "\<exists>i l' e. qb_loop_poll_add env p fd events data (Some f) l = Some (pv_ctl env, l') \<and> fds_ok H l' \<and> sigs_frame l l' \<and> level l' = level l \<and>
    pe_state (pe_get l i) = ENTRY_EMPTY \<and> (\<forall>j. pe_get l' j = (if j = i then e else pe_get l j)) \<and>
    pe_fd e = fd \<and> (pv_ctl env \<noteq> 0 \<longrightarrow> pe_state e = ENTRY_EMPTY) \<and>
    (pv_ctl env = 0 \<longrightarrow> pe_state e = ENTRY_ACTIVE \<and> pe_type e = QB_LOOP_FD \<and> pe_fn e = Some f \<and> pe_user_data e = data \<and> pe_p e = p \<and>
       pe_install_pos e = i \<and> pe_check e = poll_entry_check_generate (pv_random env) \<and> pe_revents e = 0 \<and> i < poll_entry_count l') \<and>
    ctl_calls l' = ctl_calls l @ [CtlAdd fd (poll_to_epoll_event events) (entry_handle e)]"
proof -
  obtain i l1 l2 where a: "poll_add env p fd events data l = Some (pv_ctl env, i, l2)" "fds_ok H l1" "\<And>j. pe_get l1 j = pe_get l j" "array_has (poll_entries l1) i"
    "i < poll_entry_count l1" "pe_state (pe_get l i) = ENTRY_EMPTY" "level l1 = level l" "entry_changed i (new_entry env i p fd events data (pe_get l i)) l1 l2"
    "level l2 = level l" "sigs_frame l l2"
    "ctl_calls l2 = ctl_calls l @ [CtlAdd fd (poll_to_epoll_event events) (entry_handle (new_entry env i p fd events data (pe_get l i)))]"
    using poll_add_ok[OF ok env n, of p fd events data] by blast
  let ?n = "new_entry env i p fd events data (pe_get l i)"
  define e where "e = (if pv_ctl env = 0 then ?n\<lparr>pe_fn := Some f, pe_type := QB_LOOP_FD, pe_add_to_jobs := Some AddFd\<rparr> else ?n)"
  define l' where "l' = (if pv_ctl env = 0 then pe_set l2 i e else l2)"
  have g2: "pe_get l2 i = ?n" using a(8) by (simp add: entry_changed_def)
  have add: "qb_loop_poll_add env p fd events data (Some f) l = Some (pv_ctl env, l')" using a(1) g2 by (simp add: qb_loop_poll_add_def l'_def e_def)
  have ch: "entry_changed i e l1 l'" using a(8) entry_changed_again[OF a(8,4), of l2] by (simp add: l'_def e_def)
  have "fds_ok H l'"
  proof (rule entry_changed_ok[OF a(2) ch a(4,5)])
    show "entry_wf e" if "pe_state e = ENTRY_ACTIVE \<or> pe_state e = ENTRY_JOBLIST" using that p by (auto simp: e_def new_entry_def entry_wf_def split: if_splits)
    show "pe_state e = ENTRY_JOBLIST \<or> pe_state e = ENTRY_DELETED" if "H = Some i" using fds_okD(7)[OF ok that] a(6) by simp
    have lv: "level l' = level l" using a(9) by (simp add: l'_def)
    have "queued (LoopFd i) l = 0" using fds_okD(6)[OF ok, of i] a(6) by simp
    then show "queued (LoopFd i) l' = (if pe_state e = ENTRY_JOBLIST \<and> H \<noteq> Some i then 1 else 0)"
      using queued_same[OF lv] by (simp add: e_def new_entry_def)
    show "queued (LoopFd j) l' = queued (LoopFd j) l1" if "j \<noteq> i" for j using queued_same[OF lv] queued_same[OF a(7)] by metis
  qed
  moreover have "sigs_frame l l'" "level l' = level l" "ctl_calls l' = ctl_calls l @ [CtlAdd fd (poll_to_epoll_event events) (entry_handle e)]"
    using a(9-11) by (auto simp: l'_def e_def sigs_frame_def entry_handle_def)
  moreover have "\<forall>j. pe_get l' j = (if j = i then e else pe_get l j)" using ch a(3) by (simp add: entry_changed_def)
  moreover have "i < poll_entry_count l'" using ch a(5) by (simp add: entry_changed_def)
  moreover have "pe_fd e = fd" "pv_ctl env \<noteq> 0 \<longrightarrow> pe_state e = ENTRY_EMPTY"
    "pv_ctl env = 0 \<longrightarrow> pe_state e = ENTRY_ACTIVE \<and> pe_type e = QB_LOOP_FD \<and> pe_fn e = Some f \<and> pe_user_data e = data \<and> pe_p e = p \<and>
       pe_install_pos e = i \<and> pe_check e = poll_entry_check_generate (pv_random env) \<and> pe_revents e = 0" by (auto simp: e_def new_entry_def)
  ultimately show ?thesis using add a(6) by (intro exI[of _ i] exI[of _ l'] exI[of _ e]) blast
qed

lemma qb_loop_poll_mod_ok:
  assumes ok: "fds_ok H l" and env: "poll_env_ok env" and p: "p \<le> 2"
  shows "\<exists>rc l'. qb_loop_poll_mod env p fd events data (Some f) l = Some (rc, l') \<and> fds_ok H l' \<and> sigs_frame l l' \<and> level l' = level l \<and>
    (\<forall>j. pe_state (pe_get l' j) = pe_state (pe_get l j) \<and> pe_check (pe_get l' j) = pe_check (pe_get l j) \<and> pe_fd (pe_get l' j) = pe_fd (pe_get l j))"
proof -
  let ?r = "find (\<lambda>j. pe_fd (pe_get l j) = fd) [0..<poll_entry_count l]"
  obtain a where a: "poll_find env (\<lambda>e. pe_fd e = fd) 0 (poll_entry_count l) l = Some (?r, l\<lparr>poll_entries := a\<rparr>)" "fds_ok H (l\<lparr>poll_entries := a\<rparr>)"
    "\<And>j. pe_get (l\<lparr>poll_entries := a\<rparr>) j = pe_get l j" "\<And>i. ?r = Some i \<Longrightarrow> i < poll_entry_count l \<and> array_has a i"
    using poll_find_entries[OF ok env, of "\<lambda>e. pe_fd e = fd"] by auto
  define l1 where "l1 = l\<lparr>poll_entries := a\<rparr>"
  have fr: "sigs_frame l l1" "level l1 = level l" by (simp_all add: l1_def sigs_frame_def)
  have get1: "pe_get l1 j = pe_get l j" for j using a(3) by (simp add: l1_def)
  show ?thesis
  proof (cases "\<exists>i. ?r = Some i \<and> \<not> (pe_state (pe_get l i) = ENTRY_DELETED \<or> pe_check (pe_get l i) = 0)")
    case False
    then have "qb_loop_poll_mod env p fd events data (Some f) l = Some (- EBADF, l1)"
      using a(1) get1 by (cases ?r) (auto simp: qb_loop_poll_mod_def l1_def)
    then show ?thesis using a(2) fr get1 by (auto simp: l1_def)
  next
    case True
    then obtain i where i: "?r = Some i" "pe_state (pe_get l i) \<noteq> ENTRY_DELETED" "pe_check (pe_get l i) \<noteq> 0" by blast
    have has: "array_has (poll_entries l1) i" "i < poll_entry_count l1" using a(4)[OF i(1)] by (simp_all add: l1_def)
    have ok1: "fds_ok H l1" using a(2) by (simp add: l1_def)
    let ?e = "(pe_get l i)\<lparr>pe_fn := Some f, pe_user_data := data, pe_p := p\<rparr>"
    define l2 where "l2 = pe_set l1 i ?e"
    have c2: "entry_changed i ?e l1 l2" unfolding l2_def by (rule entry_changed_set[OF fds_okD(1)[OF ok1] has(1)]) simp_all
    define b where "b \<longleftrightarrow> (scast (pe_events (pe_get l i)) :: u32) \<noteq> events"
    define l3 where "l3 = l2\<lparr>ctl_calls := ctl_calls l2 @ [CtlMod fd (poll_to_epoll_event events) (entry_handle (pe_get l2 i))]\<rparr>"
    define e where "e = (if b then ?e\<lparr>pe_events := ucast events\<rparr> else ?e)"
    define l' where "l' = (if b then pe_set l3 i e else l2)"
    have g2: "pe_get l2 i = ?e" using c2 by (simp add: entry_changed_def)
    have mod: "qb_loop_poll_mod env p fd events data (Some f) l = Some (if b then pv_ctl env else 0, l')"
      using a(1) i get1 g2
      by (simp add: qb_loop_poll_mod_def l1_def[symmetric] epoll_mod_def Let_def b_def l'_def l3_def e_def l2_def[symmetric])
    have ch: "entry_changed i e l1 l'" using c2 entry_changed_again[OF c2 has(1), of l3 e] by (cases b) (simp_all add: l'_def l3_def e_def)
    have e: "pe_state e = pe_state (pe_get l i)" "pe_check e = pe_check (pe_get l i)" "pe_fd e = pe_fd (pe_get l i)" by (simp_all add: e_def)
    have lv: "level l' = level l1" by (simp add: l'_def l3_def l2_def)
    have "fds_ok H l'"
    proof (rule entry_changed_ok[OF ok1 ch has])
      show "entry_wf e" if "pe_state e = ENTRY_ACTIVE \<or> pe_state e = ENTRY_JOBLIST"
        using that p fds_okD(5)[OF ok, of i] e(1) by (auto simp: e_def entry_wf_def)
      show "pe_state e = ENTRY_JOBLIST \<or> pe_state e = ENTRY_DELETED" if "H = Some i" using fds_okD(7)[OF ok that] e(1) by simp
      show "queued (LoopFd i) l' = (if pe_state e = ENTRY_JOBLIST \<and> H \<noteq> Some i then 1 else 0)"
        using fds_okD(6)[OF ok1, of i] queued_same[OF lv] get1 e(1) by simp
      show "queued (LoopFd j) l' = queued (LoopFd j) l1" for j using queued_same[OF lv] by metis
    qed
    moreover have "sigs_frame l l'" using fr by (simp add: l'_def l3_def l2_def sigs_frame_def)
    moreover have "level l' = level l" using lv fr(2) by simp
    moreover have "pe_get l' j = (if j = i then e else pe_get l j)" for j using ch get1 by (simp add: entry_changed_def)
    ultimately show ?thesis using mod e by (intro exI[of _ "if b then pv_ctl env else 0"] exI[of _ l']) simp
  qed
qed

lemma job_head_unlink:
  "job_head (level (item_unlink p it l) q) =
     (if list_ex (\<lambda>q. it \<in> set (job_head (level l q))) [QB_LOOP_LOW, QB_LOOP_MED, QB_LOOP_HIGH] then remove1 it (job_head (level l q)) else job_head (level l q))"
  by (simp add: item_unlink_def)

lemma queued_unlink_once:
  assumes "queued it l \<le> 1"
  shows "queued it' (item_unlink p it l) = (if it' = it then 0 else queued it' l)"
proof (cases "it' = it")
  case True
  define a b c where "a = count_list (job_head (level l 0)) it" and "b = count_list (job_head (level l (Suc 0))) it" and "c = count_list (job_head (level l 2)) it"
  have mem: "it \<in> set (job_head (level l 0)) \<longleftrightarrow> a \<noteq> 0" "it \<in> set (job_head (level l (Suc 0))) \<longleftrightarrow> b \<noteq> 0" "it \<in> set (job_head (level l 2)) \<longleftrightarrow> c \<noteq> 0"
    using count_list_0_iff unfolding a_def b_def c_def by metis+
  have "queued it (item_unlink p it l) = (if a \<noteq> 0 \<or> b \<noteq> 0 \<or> c \<noteq> 0 then (a - 1) + (b - 1) + (c - 1) else a + b + c)"
    by (simp add: job_head_unlink queued_def loop_prio_defs mem count_list_remove1 flip: a_def b_def c_def)
  moreover have "a + b + c \<le> 1" using assms by (simp add: queued_def a_def b_def c_def)
  ultimately show ?thesis using True by auto
qed (simp add: job_head_unlink queued_def count_list_remove1)

lemma item_unlink_simps [simp]:
  "poll_entries (item_unlink p it l) = poll_entries l" "poll_entry_count (item_unlink p it l) = poll_entry_count l" "sigs (item_unlink p it l) = sigs l"
  "sig_head (item_unlink p it l) = sig_head l" "signal_superset (item_unlink p it l) = signal_superset l" "sig_installed (item_unlink p it l) = sig_installed l"
  "wait_head (level (item_unlink p it l) q) = wait_head (level l q)" "ctl_calls (item_unlink p it l) = ctl_calls l" "pe_get (item_unlink p it l) i = pe_get l i"
  by (simp_all add: item_unlink_def pe_get_def)

text \<open>A deleted entry is on no ready list and has the check value zero.\<close>

lemma qb_loop_poll_del_ok:
  assumes ok: "fds_ok H l" and env: "poll_env_ok env"
  shows "\<exists>rc l'. qb_loop_poll_del env fd l = Some (rc, l') \<and> fds_ok H l' \<and> sigs_frame l l' \<and>
    (case find (\<lambda>j. pe_fd (pe_get l j) = fd \<and> pe_type (pe_get l j) = QB_LOOP_FD) [0..<poll_entry_count l] of
       None \<Rightarrow> rc = - EBADF \<and> (\<forall>j. pe_get l' j = pe_get l j)
     | Some i \<Rightarrow>
         if pe_state (pe_get l i) = ENTRY_DELETED \<or> pe_state (pe_get l i) = ENTRY_EMPTY then rc = 0 \<and> (\<forall>j. pe_get l' j = pe_get l j)
         else rc = pv_ctl env \<and> queued (LoopFd i) l' = 0 \<and>
           (\<forall>j. pe_get l' j = (if j = i then poll_entry_mark_deleted (pe_get l i) else pe_get l j)))"
proof -
  let ?P = "\<lambda>e. pe_fd e = fd \<and> pe_type e = QB_LOOP_FD"
  let ?r = "find (\<lambda>j. ?P (pe_get l j)) [0..<poll_entry_count l]"
  obtain a where a: "poll_find env ?P 0 (poll_entry_count l) l = Some (?r, l\<lparr>poll_entries := a\<rparr>)" "fds_ok H (l\<lparr>poll_entries := a\<rparr>)"
    "\<And>j. pe_get (l\<lparr>poll_entries := a\<rparr>) j = pe_get l j" "\<And>i. ?r = Some i \<Longrightarrow> i < poll_entry_count l \<and> array_has a i"
    using poll_find_entries[OF ok env, of ?P] by auto
  define l1 where "l1 = l\<lparr>poll_entries := a\<rparr>"
  have fr: "sigs_frame l l1" by (simp add: l1_def sigs_frame_def)
  have get1: "pe_get l1 j = pe_get l j" for j using a(3) by (simp add: l1_def)
  have ok1: "fds_ok H l1" using a(2) by (simp add: l1_def)
  show ?thesis
  proof (cases "\<exists>i. ?r = Some i \<and> pe_state (pe_get l i) \<noteq> ENTRY_DELETED \<and> pe_state (pe_get l i) \<noteq> ENTRY_EMPTY")
    case False
    define rc where "rc = (if ?r = None then - EBADF else 0)"
    have "qb_loop_poll_del env fd l = Some (rc, l1)" using False a(1) get1 by (cases ?r) (auto simp: qb_loop_poll_del_def l1_def rc_def)
    then show ?thesis using ok1 fr get1 False by (intro exI[of _ rc] exI[of _ l1]) (auto simp: rc_def split: option.splits)
  next
    case True
    then obtain i where i: "?r = Some i" "pe_state (pe_get l i) \<noteq> ENTRY_DELETED" "pe_state (pe_get l i) \<noteq> ENTRY_EMPTY" by blast
    have has: "array_has (poll_entries l1) i" "i < poll_entry_count l1" using a(4)[OF i(1)] by (simp_all add: l1_def)
    define l2 where "l2 = (if pe_state (pe_get l i) = ENTRY_JOBLIST then item_unlink (pe_p (pe_get l i)) (LoopFd i) l1 else l1)"
    let ?e = "poll_entry_mark_deleted (pe_get l i)"
    define l' where "l' = pe_set (l2\<lparr>ctl_calls := ctl_calls l2 @ [CtlDel fd]\<rparr>) i ?e"
    have get2: "pe_get l2 j = pe_get l j" for j using get1 by (simp add: l2_def)
    have del: "qb_loop_poll_del env fd l = Some (pv_ctl env, l')"
      using a(1) i get1 get2 by (simp add: qb_loop_poll_del_def l1_def[symmetric] epoll_del_def Let_def l2_def l'_def)
    have ch: "entry_changed i ?e l1 l'" unfolding l'_def by (rule entry_changed_set[OF fds_okD(1)[OF ok1] has(1)]) (simp_all add: l2_def)
    have le: "queued (LoopFd i) l1 \<le> 1" using fds_okD(6)[OF ok1, of i] by simp
    have q0: "queued (LoopFd i) l' = 0"
      using fds_okD(6)[OF ok1, of i] queued_unlink_once[OF le] get1 by (simp add: l'_def l2_def)
    have qs: "queued it l' = queued it l1" if "it \<noteq> LoopFd i" for it using queued_unlink_once[OF le] that by (simp add: l'_def l2_def)
    have "fds_ok H l'"
      by (rule entry_changed_ok[OF ok1 ch has]) (use q0 qs in \<open>auto simp: poll_entry_mark_deleted_def\<close>)
    moreover have "sigs_frame l l'" using fr qs by (simp add: sigs_frame_def) (simp add: l'_def l2_def)
    ultimately show ?thesis using del i q0 ch get1 by (intro exI[of _ "pv_ctl env"] exI[of _ l']) (simp add: entry_changed_def)
  qed
qed

section \<open>Polling\<close>

definition in_use :: "('f, 'd) qb_poll_entry \<Rightarrow> bool" where
  "in_use e \<longleftrightarrow> (pe_state e = ENTRY_ACTIVE \<or> pe_state e = ENTRY_JOBLIST) \<and> pe_fd e \<noteq> - 1"

lemma usage_loop_ok:
  assumes "fds_ok None l" "poll_env_ok env" "i + k \<le> poll_entry_count l"
  shows "\<exists>l'. usage_loop env i k used l = Some (used + int (length (filter (\<lambda>j. in_use (pe_get l j)) [i..<i + k])), l') \<and> fds_ok None l' \<and> sigs_frame l l' \<and>
    level l' = level l \<and> poll_entry_count l' = poll_entry_count l \<and>
    (\<forall>j. pe_get l' j = (if i \<le> j \<and> j < i + k \<and> pe_state (pe_get l j) = ENTRY_DELETED then poll_entry_empty else pe_get l j))"
  using assms
proof (induction k arbitrary: i used l)
  case 0
  then show ?case by auto
next
  case (Suc k)
  have "i < max_elements (poll_entries l)" using fds_okD(2)[OF Suc.prems(1)] Suc.prems(3) by simp
  then obtain a where a: "pe_index env (int i) l = Some (l\<lparr>poll_entries := a\<rparr>)" "array_inv a" "array_same (poll_entries l) a" "array_has a i"
    "max_elements a = max_elements (poll_entries l)" using pe_index_ok[OF fds_okD(1)[OF Suc.prems(1)] Suc.prems(2)] by blast
  define l1 where "l1 = l\<lparr>poll_entries := a\<rparr>"
  have get: "pe_get l1 j = pe_get l j" for j using a(3) by (simp add: l1_def pe_get_elem array_same_def)
  have ok1: "fds_ok None l1" unfolding l1_def by (rule fds_ok_same[OF Suc.prems(1)]) (use a fds_okD(2)[OF Suc.prems(1)] in auto)
  define l2 where "l2 = (if pe_state (pe_get l i) = ENTRY_DELETED then pe_set l1 i poll_entry_empty else l1)"
  have ch: "entry_changed i (if pe_state (pe_get l i) = ENTRY_DELETED then poll_entry_empty else pe_get l i) l1 l2"
    using entry_changed_set[OF fds_okD(1)[OF ok1], of i l1 poll_entry_empty] a(4) get fds_okD(1)[OF ok1] by (simp add: l2_def l1_def entry_changed_def)
  have ok2: "fds_ok None l2"
  proof (cases "pe_state (pe_get l i) = ENTRY_DELETED")
    case True
    then show ?thesis unfolding l2_def using fds_okD(6)[OF ok1, of i] a(4) Suc.prems(3) get
      by simp (rule fds_ok_set[OF ok1], auto simp: l1_def poll_entry_empty_def zero_entry_def)
  qed (use ok1 in \<open>simp add: l2_def\<close>)
  have l2: "sigs_frame l l2" "level l2 = level l" "poll_entry_count l2 = poll_entry_count l"
    "\<And>j. pe_get l2 j = (if j = i \<and> pe_state (pe_get l j) = ENTRY_DELETED then poll_entry_empty else pe_get l j)"
    using ch get by (auto simp: l2_def l1_def sigs_frame_def entry_changed_def)
  let ?u = "if in_use (pe_get l i) then used + 1 else used"
  obtain l' where l': "usage_loop env (Suc i) k ?u l2 = Some (?u + int (length (filter (\<lambda>j. in_use (pe_get l2 j)) [Suc i..<Suc i + k])), l')" "fds_ok None l'" "sigs_frame l2 l'"
    "level l' = level l2" "poll_entry_count l' = poll_entry_count l2"
    "\<And>j. pe_get l' j = (if Suc i \<le> j \<and> j < Suc i + k \<and> pe_state (pe_get l2 j) = ENTRY_DELETED then poll_entry_empty else pe_get l2 j)"
    using Suc.IH[OF ok2 Suc.prems(2), of "Suc i" ?u] Suc.prems(3) l2(3) by auto
  have upt: "[i..<i + Suc k] = i # [Suc i..<Suc i + k]" by (simp add: upt_conv_Cons)
  have fl: "filter (\<lambda>j. in_use (pe_get l2 j)) [Suc i..<Suc i + k] = filter (\<lambda>j. in_use (pe_get l j)) [Suc i..<Suc i + k]"
    using l2(4) by (intro filter_cong) auto
  have "usage_loop env i (Suc k) used l = usage_loop env (Suc i) k ?u l2"
    using a(1) get by (simp add: l1_def[symmetric] Let_def l2_def in_use_def)
  then have "usage_loop env i (Suc k) used l = Some (used + int (length (filter (\<lambda>j. in_use (pe_get l j)) [i..<i + Suc k])), l')"
    unfolding upt using l'(1) fl by simp
  moreover have "pe_get l' j = (if i \<le> j \<and> j < i + Suc k \<and> pe_state (pe_get l j) = ENTRY_DELETED then poll_entry_empty else pe_get l j)" for j
    using l'(6)[of j] l2(4)[of j] by (auto simp: poll_entry_empty_def zero_entry_def)
  ultimately show ?case using l' l2 sigs_frame_trans by (intro exI[of _ l']) auto
qed

lemma fds_usage_check_ok:
  assumes ok: "fds_ok None l" and env: "poll_env_ok env"
  shows "\<exists>low l'. qb_poll_fds_usage_check env l = Some (low, l') \<and> fds_ok None l' \<and> sigs_frame l l' \<and> level l' = level l \<and> poll_entry_count l' = poll_entry_count l \<and>
    (\<forall>j. pe_get l' j = pe_get l j \<or> pe_state (pe_get l j) = ENTRY_DELETED \<and> pe_get l' j = poll_entry_empty)"
proof (cases "socks_limit l = 0 \<and> pv_rlimit env = None")
  case True
  then show ?thesis using ok by (auto simp: qb_poll_fds_usage_check_def)
next
  case False
  define l1 where "l1 = (if socks_limit l = 0 then l\<lparr>socks_limit := socks_limit_of (the (pv_rlimit env))\<rparr> else l)"
  have l1: "poll_entries l1 = poll_entries l" "poll_entry_count l1 = poll_entry_count l" "level l1 = level l" "sigs_frame l l1" by (simp_all add: l1_def sigs_frame_def)
  have ok1: "fds_ok None l1" using fds_ok_same[OF ok, of l1] fds_okD(1,2)[OF ok] l1 queued_same[OF l1(3)] by simp
  obtain used l2 where l2: "usage_loop env 0 (poll_entry_count l1) 0 l1 = Some (used, l2)" "fds_ok None l2" "sigs_frame l1 l2" "level l2 = level l1"
    "poll_entry_count l2 = poll_entry_count l1"
    "\<And>j. pe_get l2 j = (if j < poll_entry_count l1 \<and> pe_state (pe_get l1 j) = ENTRY_DELETED then poll_entry_empty else pe_get l1 j)"
    using usage_loop_ok[OF ok1 env, of 0 "poll_entry_count l1" 0] by auto
  define l' where "l' = snd (low_fds_event used l2)"
  have l': "poll_entries l' = poll_entries l2" "poll_entry_count l' = poll_entry_count l2" "level l' = level l2" "sigs_frame l2 l'"
    by (simp_all add: l'_def low_fds_event_def Let_def sigs_frame_def)
  have "fds_ok None l'" using fds_ok_same[OF l2(2), of l'] fds_okD(1,2)[OF l2(2)] l' queued_same[OF l'(3)] by simp
  moreover have "pe_get l' j = pe_get l2 j" "pe_get l1 j = pe_get l j" for j using l'(1) l1(1) by (simp_all add: pe_get_def)
  moreover have "qb_poll_fds_usage_check env l = Some (fst (low_fds_event used l2), l')"
    using False l2(1) by (auto simp: qb_poll_fds_usage_check_def Let_def l1_def[symmetric] l'_def)
  ultimately show ?thesis using l' l2 l1 by (intro exI[of _ "fst (low_fds_event used l2)"] exI[of _ l']) (auto intro: sigs_frame_trans)
qed

definition fds_frame :: "('f, 'd) poll_loop \<Rightarrow> ('f, 'd) poll_loop \<Rightarrow> bool" where
  "fds_frame l l' \<longleftrightarrow> poll_entries l' = poll_entries l \<and> poll_entry_count l' = poll_entry_count l \<and> (\<forall>i. queued (LoopFd i) l' = queued (LoopFd i) l)"

lemma fds_frame_refl [simp]: "fds_frame l l"
  by (simp add: fds_frame_def)

lemma fds_frame_trans: "fds_frame l l' \<Longrightarrow> fds_frame l' l'' \<Longrightarrow> fds_frame l l''"
  by (simp add: fds_frame_def)

lemma fds_frame_get: "fds_frame l l' \<Longrightarrow> pe_get l' i = pe_get l i"
  by (simp add: fds_frame_def pe_get_def)

lemma fds_frame_ok: "fds_frame l l' \<Longrightarrow> fds_ok H l \<Longrightarrow> fds_ok H l'"
  using fds_ok_same[of H l l'] fds_okD(1,2)[of H l] by (simp add: fds_frame_def)

lemma item_add_simps [simp]:
  "poll_entries (qb_loop_level_item_add p x l) = poll_entries l" "poll_entry_count (qb_loop_level_item_add p x l) = poll_entry_count l"
  "sigs (qb_loop_level_item_add p x l) = sigs l" "sig_head (qb_loop_level_item_add p x l) = sig_head l" "ctl_calls (qb_loop_level_item_add p x l) = ctl_calls l"
  "signal_superset (qb_loop_level_item_add p x l) = signal_superset l" "sig_installed (qb_loop_level_item_add p x l) = sig_installed l"
  "wait_head (level (qb_loop_level_item_add p x l) q) = wait_head (level l q)" "pe_get (qb_loop_level_item_add p x l) i = pe_get l i"
  for l :: "('f, 'd) poll_loop"
  by (simp_all add: qb_loop_level_item_add_def pe_get_def)

lemma queued_item_add: "p \<le> 2 \<Longrightarrow> queued it (qb_loop_level_item_add p x l) = queued it l + (if it = x then 1 else 0)"
proof -
  assume "p \<le> 2"
  then consider "p = 0" | "p = 1" | "p = 2" by linarith
  then show ?thesis by cases (simp_all add: queued_def qb_loop_level_item_add_def)
qed

text \<open>Copying the handlers for a signal: the allocations give unused memory.\<close>

lemma sigs_okD:
  assumes "sigs_ok l"
  shows "distinct (sig_head l)" "a \<in> set (sig_head l) \<Longrightarrow> \<exists>sig. sigs l a = Some sig \<and> sg_p sig \<le> 2" "queued (LoopSig c) l \<le> 1"
    "queued (LoopSig c) l = 1 \<Longrightarrow> sigs l c \<noteq> None" "queued (LoopSig c) l = 1 \<Longrightarrow> c \<notin> set (sig_head l)" "q \<le> 2 \<Longrightarrow> LoopSig c \<notin> set (wait_head (level l q))"
  using assms unfolding sigs_ok_def by blast+

text \<open>The registered handlers and the actions of the signals are kept.\<close>

definition sigs_kept :: "('f, 'd) poll_loop \<Rightarrow> ('f, 'd) poll_loop \<Rightarrow> bool" where
  "sigs_kept l l' \<longleftrightarrow> sig_head l' = sig_head l \<and> signal_superset l' = signal_superset l \<and> sig_installed l' = sig_installed l \<and>
     (\<forall>a\<in>set (sig_head l). sigs l' a = sigs l a)"

lemma sigs_kept_refl [simp]: "sigs_kept l l"
  by (simp add: sigs_kept_def)

lemma sigs_kept_trans: "sigs_kept l l' \<Longrightarrow> sigs_kept l' l'' \<Longrightarrow> sigs_kept l l''"
  by (simp add: sigs_kept_def)

lemma sigs_frame_kept: "sigs_frame l l' \<Longrightarrow> sigs_kept l l'"
  by (simp add: sigs_frame_def sigs_kept_def)

lemma clone_loop_ok:
  assumes "sigs_ok l" "set as \<subseteq> set (sig_head l)" "\<And>m c. n \<le> m \<Longrightarrow> alloc m = Some c \<Longrightarrow> sigs l c = None" "\<And>m m' c. alloc m = Some c \<Longrightarrow> alloc m' = Some c \<Longrightarrow> m = m'"
  shows "\<exists>n' l'. clone_loop alloc s as n l = Some (n', l') \<and> sigs_ok l' \<and> fds_frame l l' \<and> sigs_kept l l' \<and>
    (\<forall>c. sigs l' c \<noteq> None \<longrightarrow> sigs l c \<noteq> None \<or> (\<exists>m. alloc m = Some c))"
  using assms(1-3)
proof (induction "as" arbitrary: n l)
  case Nil
  then show ?case by auto
next
  case (Cons a "as")
  obtain sig where sig: "sigs l a = Some sig" "sg_p sig \<le> 2" using sigs_okD(2)[OF Cons.prems(1), of a] Cons.prems(2) by auto
  show ?case
  proof (cases "sg_signal sig = s \<and> alloc n \<noteq> None")
    case False
    then show ?thesis using Cons.IH[of l n] Cons.prems sig(1) by (auto split: option.splits)
  next
    case True
    then obtain c where c: "alloc n = Some c" by blast
    have new: "sigs l c = None" using Cons.prems(3)[of n c] c by simp
    then have fresh: "queued (LoopSig c) l = 0" "c \<notin> set (sig_head l)"
      using sigs_okD(3,4)[OF Cons.prems(1), of c] sigs_okD(2)[OF Cons.prems(1), of c] by (fastforce simp: le_Suc_eq)+
    define l1 where "l1 = qb_loop_level_item_add (sg_p sig) (LoopSig c) (l\<lparr>sigs := (sigs l)(c \<mapsto> sig\<lparr>sg_cloned_from := Some a\<rparr>)\<rparr>)"
    have q1: "queued it l1 = queued it l + (if it = LoopSig c then 1 else 0)" for it by (simp add: l1_def queued_item_add[OF sig(2)])
    have l1: "sig_head l1 = sig_head l" "sigs l1 = (sigs l)(c \<mapsto> sig\<lparr>sg_cloned_from := Some a\<rparr>)" "wait_head (level l1 q) = wait_head (level l q)" for q
      by (simp_all add: l1_def)
    have ok1: "sigs_ok l1"
      unfolding sigs_ok_def l1 q1 using Cons.prems(1) fresh by (auto simp: sigs_ok_def)
    have kp: "sigs_kept l l1" using fresh(2) by (auto simp: sigs_kept_def l1(1,2)) (simp_all add: l1_def)
    have fr: "fds_frame l l1" using q1 by (simp add: fds_frame_def) (simp add: l1_def)
    have nx: "sigs l1 c' = None" if "Suc n \<le> m" "alloc m = Some c'" for m c'
      using Cons.prems(3)[of m c'] that assms(4)[of m c n] c by (auto simp: l1(2))
    have "set as \<subseteq> set (sig_head l1)" using Cons.prems(2) l1(1) by simp
    then have "\<exists>n' l'. clone_loop alloc s as (Suc n) l1 = Some (n', l') \<and> sigs_ok l' \<and> fds_frame l1 l' \<and> sigs_kept l1 l' \<and>
        (\<forall>c. sigs l' c \<noteq> None \<longrightarrow> sigs l1 c \<noteq> None \<or> (\<exists>m. alloc m = Some c))"
      by (rule Cons.IH[OF ok1]) (rule nx)
    then obtain n' l' where l': "clone_loop alloc s as (Suc n) l1 = Some (n', l')" "sigs_ok l'" "fds_frame l1 l'" "sigs_kept l1 l'"
      "\<And>d. sigs l' d \<noteq> None \<Longrightarrow> sigs l1 d \<noteq> None \<or> (\<exists>m. alloc m = Some d)" by auto
    have "clone_loop alloc s (a # as) n l = Some (n', l')" using True sig c l'(1) by (simp add: l1_def)
    moreover have "sigs l d \<noteq> None \<or> (\<exists>m. alloc m = Some d)" if "sigs l' d \<noteq> None" for d using l'(5)[OF that] c l1(2) by (auto split: if_splits)
    ultimately show ?thesis using l' sigs_kept_trans[OF kp l'(4)] fds_frame_trans[OF fr l'(3)] by (intro exI[of _ n'] exI[of _ l']) auto
  qed
qed

section \<open>Events\<close>

definition handle_place :: "u64 \<Rightarrow> int" where "handle_place h = sint (ucast h :: u32)"
definition handle_chk :: "u64 \<Rightarrow> u32" where "handle_chk h = ucast (drop_bit 32 h)"

text \<open>The entry that an event is for, if it still has the check value of the handle.\<close>

definition designates :: "('f, 'd) poll_loop \<Rightarrow> u64 \<Rightarrow> nat \<Rightarrow> bool" where
  "designates l h i \<longleftrightarrow> handle_place h = int i \<and> pe_check (pe_get l i) = handle_chk h \<and> pe_fd (pe_get l i) \<noteq> - 1 \<and> pe_state (pe_get l i) \<noteq> ENTRY_DELETED"

text \<open>
  What is asked of the kernel: a handle that it hands out is not one whose registration failed, so the place that it names is not empty when the check value is right.
\<close>

definition live_handle :: "('f, 'd) poll_loop \<Rightarrow> u64 \<Rightarrow> bool" where
  "live_handle l h \<longleftrightarrow> (\<forall>i. designates l h i \<longrightarrow> pe_state (pe_get l i) \<noteq> ENTRY_EMPTY)"

definition posted :: "u32 \<Rightarrow> ('f, 'd) qb_poll_entry \<Rightarrow> ('f, 'd) qb_poll_entry" where
  "posted ev e = e\<lparr>pe_revents := pe_revents e OR ucast (epoll_to_poll_event ev), pe_state := ENTRY_JOBLIST\<rparr>"

text \<open>What an event never changes of an entry.\<close>

definition entry_stable :: "('f, 'd) qb_poll_entry \<Rightarrow> ('f, 'd) qb_poll_entry \<Rightarrow> bool" where
  "entry_stable e e' \<longleftrightarrow> pe_check e' = pe_check e \<and> pe_fd e' = pe_fd e \<and> pe_type e' = pe_type e \<and>
     (pe_state e' = ENTRY_EMPTY \<longleftrightarrow> pe_state e = ENTRY_EMPTY) \<and> (pe_state e' = ENTRY_DELETED \<longleftrightarrow> pe_state e = ENTRY_DELETED)"

definition event_effect :: "u64 \<Rightarrow> u32 \<Rightarrow> ('f, 'd) poll_loop \<Rightarrow> ('f, 'd) poll_loop \<Rightarrow> bool" where
  "event_effect h ev l l' \<longleftrightarrow>
     (\<forall>j. entry_stable (pe_get l j) (pe_get l' j) \<and>
        (pe_type (pe_get l j) = QB_LOOP_FD \<longrightarrow> pe_get l' j = (if designates l h j then posted ev (pe_get l j) else pe_get l j)))"

lemma poll_event_skip:
  assumes "\<And>j. pe_get l' j = pe_get l j" "\<And>i. \<not> designates l h i"
  shows "event_effect h ev l l'"
  using assms by (simp add: event_effect_def entry_stable_def)

lemma poll_event_post:
  assumes ok: "fds_ok None l" and i: "array_has (poll_entries l) i" "designates l h i" "pe_type (pe_get l i) = QB_LOOP_FD" "pe_state (pe_get l i) \<noteq> ENTRY_EMPTY"
  shows "\<exists>n l'. (let l1 = pe_set l i ((pe_get l i)\<lparr>pe_revents := pe_revents (pe_get l i) OR ucast (epoll_to_poll_event ev)\<rparr>)
           in if pe_state (pe_get l i) \<noteq> ENTRY_JOBLIST then add_to_jobs env k i l1 else Some (0, l1)) = Some (n, l') \<and>
         fds_ok None l' \<and> sigs_frame l l' \<and> event_effect h ev l l'"
proof -
  let ?e = "pe_get l i"
  have st: "pe_state ?e = ENTRY_ACTIVE \<or> pe_state ?e = ENTRY_JOBLIST" using i(2,4) by (cases "pe_state ?e") (auto simp: designates_def)
  have wf: "entry_wf ?e" using fds_okD(5)[OF ok st] .
  have n: "i < poll_entry_count l" using fds_okD(3)[OF ok i(4)] .
  let ?r = "?e\<lparr>pe_revents := pe_revents ?e OR ucast (epoll_to_poll_event ev)\<rparr>"
  define l1 where "l1 = pe_set l i ?r"
  have c1: "entry_changed i ?r l l1" unfolding l1_def by (rule entry_changed_set[OF fds_okD(1)[OF ok] i(1)]) simp_all
  have g1: "pe_get l1 i = ?r" using c1 by (simp add: entry_changed_def)
  define l2 where "l2 = (if pe_state ?e = ENTRY_JOBLIST then l1 else pe_set (qb_loop_level_item_add (pe_p ?e) (LoopFd i) l1) i (posted ev ?e))"
  have c2: "entry_changed i (posted ev ?e) l l2"
  proof (cases "pe_state ?e = ENTRY_JOBLIST")
    case True
    then have "?r = posted ev ?e" by (cases ?e) (simp add: posted_def)
    then show ?thesis using c1 True by (simp add: l2_def)
  next
    case False
    then show ?thesis unfolding l2_def by simp (rule entry_changed_again[OF c1 i(1)], simp_all)
  qed
  have "(let l1 = pe_set l i ?r in if pe_state ?e \<noteq> ENTRY_JOBLIST then add_to_jobs env k i l1 else Some (0, l1)) =
      Some (if pe_state ?e = ENTRY_JOBLIST then 0 else 1, l2)"
    using wf i(3) g1 by (simp add: Let_def l1_def[symmetric] l2_def add_to_jobs_def poll_add_to_jobs_def entry_wf_def loop_prio_defs posted_def)
  moreover have q: "queued it l2 = queued it l + (if it = LoopFd i \<and> pe_state ?e \<noteq> ENTRY_JOBLIST then 1 else 0)" for it
    using wf by (simp add: l2_def l1_def queued_item_add entry_wf_def)
  moreover have "fds_ok None l2"
  proof (rule entry_changed_ok[OF ok c2 i(1) n])
    show "entry_wf (posted ev ?e)" using wf i(3) by (simp add: entry_wf_def posted_def)
    show "queued (LoopFd i) l2 = (if pe_state (posted ev ?e) = ENTRY_JOBLIST \<and> None \<noteq> Some i then 1 else 0)"
      using q[of "LoopFd i"] fds_okD(6)[OF ok, of i] by (simp add: posted_def)
  qed (simp_all add: q)
  moreover have "sigs_frame l l2" using q by (simp add: sigs_frame_def) (simp add: l2_def l1_def)
  moreover have "event_effect h ev l l2"
  proof -
    have d: "designates l h j \<longleftrightarrow> j = i" for j using i(2) by (auto simp: designates_def)
    have g: "pe_get l2 j = (if j = i then posted ev ?e else pe_get l j)" for j using c2 by (simp add: entry_changed_def)
    have "entry_stable ?e (posted ev ?e)" using st by (auto simp: entry_stable_def posted_def)
    then show ?thesis unfolding event_effect_def d g by (simp add: entry_stable_def)
  qed
  ultimately show ?thesis by blast
qed

lemma poll_event_signal:
  assumes ok: "fds_ok None l" and sg: "sigs_ok l" and i: "array_has (poll_entries l) i" "designates l h i" "pe_type (pe_get l i) \<noteq> QB_LOOP_FD" "pe_state (pe_get l i) \<noteq> ENTRY_EMPTY"
    and al: "\<And>m c. pv_sig_alloc env k m = Some c \<Longrightarrow> sigs l c = None" "\<And>m m' c. pv_sig_alloc env k m = Some c \<Longrightarrow> pv_sig_alloc env k m' = Some c \<Longrightarrow> m = m'"
  shows "\<exists>n l'. (let l1 = pe_set l i ((pe_get l i)\<lparr>pe_revents := pe_revents (pe_get l i) OR ucast (epoll_to_poll_event ev)\<rparr>)
           in if pe_state (pe_get l i) \<noteq> ENTRY_JOBLIST then add_to_jobs env k i l1 else Some (0, l1)) = Some (n, l') \<and>
         fds_ok None l' \<and> sigs_ok l' \<and> sigs_kept l l' \<and> (\<forall>c. sigs l' c \<noteq> None \<longrightarrow> sigs l c \<noteq> None \<or> (\<exists>m. pv_sig_alloc env k m = Some c)) \<and>
         event_effect h ev l l'"
proof -
  let ?e = "pe_get l i"
  have st: "pe_state ?e = ENTRY_ACTIVE \<or> pe_state ?e = ENTRY_JOBLIST" using i(2,4) by (cases "pe_state ?e") (auto simp: designates_def)
  have wf: "entry_wf ?e" using fds_okD(5)[OF ok st] .
  then have e: "pe_type ?e = QB_LOOP_SIG" "pe_add_to_jobs ?e = Some AddSig" "pe_state ?e = ENTRY_ACTIVE" using i(3) st by (auto simp: entry_wf_def)
  have n: "i < poll_entry_count l" using fds_okD(3)[OF ok i(4)] .
  let ?r = "?e\<lparr>pe_revents := pe_revents ?e OR ucast (epoll_to_poll_event ev)\<rparr>"
  define l1 where "l1 = pe_set l i ?r"
  have c1: "entry_changed i ?r l l1" unfolding l1_def by (rule entry_changed_set[OF fds_okD(1)[OF ok] i(1)]) simp_all
  define r where "r = (if pv_sig env k = None then ?r else ?r\<lparr>pe_revents := 0\<rparr>)"
  define l2 where "l2 = (if pv_sig env k = None then l1 else pe_set l1 i (?r\<lparr>pe_revents := 0\<rparr>))"
  have c2: "entry_changed i r l l2"
    using c1 entry_changed_again[OF c1 i(1), of l1 "?r\<lparr>pe_revents := 0\<rparr>"] by (cases "pv_sig env k") (simp_all add: l2_def r_def)
  have rs: "pe_state r = ENTRY_ACTIVE" "entry_wf r" "entry_stable ?e r" using e wf by (auto simp: r_def entry_wf_def entry_stable_def)
  have fr: "sigs_frame l l2" by (simp add: l2_def l1_def sigs_frame_def)
  have ok2: "fds_ok None l2"
    by (rule entry_changed_ok[OF ok c2 i(1) n]) (use rs fds_okD(6)[OF ok, of i] e(3) in \<open>auto simp: l2_def l1_def\<close>)
  have sg2: "sigs_ok l2" using sigs_frame_ok[OF fr sg] .
  have "\<exists>n' l'. (case pv_sig env k of None \<Rightarrow> Some (0, l2) | Some s \<Rightarrow> clone_loop (pv_sig_alloc env k) s (sig_head l2) 0 l2) = Some (n', l') \<and> sigs_ok l' \<and> fds_frame l2 l' \<and>
      sigs_kept l2 l' \<and> (\<forall>c. sigs l' c \<noteq> None \<longrightarrow> sigs l2 c \<noteq> None \<or> (\<exists>m. pv_sig_alloc env k m = Some c))"
  proof (cases "pv_sig env k")
    case (Some s)
    have "\<exists>n' l'. clone_loop (pv_sig_alloc env k) s (sig_head l2) 0 l2 = Some (n', l') \<and> sigs_ok l' \<and> fds_frame l2 l' \<and> sigs_kept l2 l' \<and>
        (\<forall>c. sigs l' c \<noteq> None \<longrightarrow> sigs l2 c \<noteq> None \<or> (\<exists>m. pv_sig_alloc env k m = Some c))"
      by (rule clone_loop_ok[OF sg2]) (use al fr in \<open>auto simp: sigs_frame_def\<close>)
    then show ?thesis using Some by simp
  qed (use sg2 in auto)
  then obtain n' l' where l': "(case pv_sig env k of None \<Rightarrow> Some (0, l2) | Some s \<Rightarrow> clone_loop (pv_sig_alloc env k) s (sig_head l2) 0 l2) = Some (n', l')" "sigs_ok l'"
    "fds_frame l2 l'" "sigs_kept l2 l'" "\<forall>c. sigs l' c \<noteq> None \<longrightarrow> sigs l2 c \<noteq> None \<or> (\<exists>m. pv_sig_alloc env k m = Some c)" by blast
  have g1: "pe_get l1 i = ?r" using c1 by (simp add: entry_changed_def)
  have "(let l1 = pe_set l i ?r in if pe_state ?e \<noteq> ENTRY_JOBLIST then add_to_jobs env k i l1 else Some (0, l1)) = Some (n', l')"
    using l'(1) e g1 by (cases "pv_sig env k") (simp_all add: Let_def l1_def[symmetric] add_to_jobs_def signal_add_to_jobs_def l2_def)
  moreover have "pe_get l' j = (if j = i then r else pe_get l j)" for j using fds_frame_get[OF l'(3)] c2 by (simp add: entry_changed_def)
  then have "event_effect h ev l l'"
    using i(2,3) rs(3) unfolding event_effect_def by (auto simp: entry_stable_def designates_def)
  ultimately show ?thesis using l' fds_frame_ok[OF l'(3) ok2] sigs_kept_trans[OF sigs_frame_kept[OF fr] l'(4)] fr by (intro exI[of _ n'] exI[of _ l']) (auto simp: sigs_frame_def)
qed

definition sig_allocs_from :: "nat \<Rightarrow> ('f, 'd) poll_env \<Rightarrow> ('f, 'd) poll_loop \<Rightarrow> bool" where
  "sig_allocs_from k env l \<longleftrightarrow> (\<forall>j m c. k \<le> j \<longrightarrow> pv_sig_alloc env j m = Some c \<longrightarrow> sigs l c = None) \<and>
     (\<forall>j m j' m' c. pv_sig_alloc env j m = Some c \<longrightarrow> pv_sig_alloc env j' m' = Some c \<longrightarrow> j = j' \<and> m = m')"

lemma sig_allocs_fromD:
  assumes "sig_allocs_from k env l"
  shows "k \<le> j \<Longrightarrow> pv_sig_alloc env j m = Some c \<Longrightarrow> sigs l c = None"
    "pv_sig_alloc env j m = Some c \<Longrightarrow> pv_sig_alloc env j' m' = Some c \<Longrightarrow> j = j' \<and> m = m'"
  using assms unfolding sig_allocs_from_def by blast+

lemma poll_event_ok:
  assumes ok: "fds_ok None l" and sg: "sigs_ok l" and env: "poll_env_ok env" and h: "live_handle l h" and al: "sig_allocs_from k env l"
  shows "\<exists>n l'. poll_event env k h ev l = Some (n, l') \<and> fds_ok None l' \<and> sigs_ok l' \<and> sigs_kept l l' \<and> sig_allocs_from (Suc k) env l' \<and>
    event_effect h ev l l'"
proof -
  have "array_inv (poll_entries l)" "array_env_ok (pv_arr env)" using fds_okD(1)[OF ok] env by (simp_all add: poll_env_ok_def)
  from array_index_any[OF this, of "handle_place h"] obtain rc p cb a where a: "array_index (pv_arr env) (poll_entries l) (handle_place h) = (ArrayRet rc p cb, a)" "array_inv a"
    "array_same (poll_entries l) a" "rc = 0 \<Longrightarrow> 0 \<le> handle_place h" "rc = 0 \<Longrightarrow> array_has a (nat (handle_place h))" by blast
  define l1 where "l1 = l\<lparr>poll_entries := a\<rparr>"
  define i where "i = nat (handle_place h)"
  have get: "pe_get l1 j = pe_get l j" for j using a(3) by (simp add: l1_def pe_get_elem array_same_def)
  have ok1: "fds_ok None l1" unfolding l1_def by (rule fds_ok_same[OF ok]) (use a fds_okD(2)[OF ok] in \<open>auto simp: array_same_def\<close>)
  have fr1: "sigs_frame l l1" by (simp add: l1_def sigs_frame_def)
  have sg1: "sigs_ok l1" using sigs_frame_ok[OF fr1 sg] .
  have d1: "designates l1 h j = designates l h j" for j by (simp add: designates_def get)
  have ev1: "poll_event env k h ev l = (if rc \<noteq> 0 \<or> pe_check (pe_get l i) \<noteq> handle_chk h \<or> pe_fd (pe_get l i) = - 1 \<or> pe_state (pe_get l i) = ENTRY_DELETED then Some (0, l1)
      else (let l2 = pe_set l1 i ((pe_get l1 i)\<lparr>pe_revents := pe_revents (pe_get l1 i) OR ucast (epoll_to_poll_event ev)\<rparr>)
            in if pe_state (pe_get l1 i) \<noteq> ENTRY_JOBLIST then add_to_jobs env k i l2 else Some (0, l2)))"
    using a(1) by (auto simp: poll_event_def poll_entry_from_handle_def handle_place_def[symmetric] handle_chk_def[symmetric] l1_def[symmetric] get i_def Let_def)
  have alk: "sig_allocs_from (Suc k) env l1" using al unfolding sig_allocs_from_def l1_def by (simp, meson Suc_leD)
  show ?thesis
  proof (cases "\<exists>j. designates l h j")
    case False
    then have no: "rc \<noteq> 0 \<or> pe_check (pe_get l i) \<noteq> handle_chk h \<or> pe_fd (pe_get l i) = - 1 \<or> pe_state (pe_get l i) = ENTRY_DELETED"
      using a(4) by (auto simp: designates_def i_def)
    have "event_effect h ev l l1" using False get by (intro poll_event_skip) auto
    then show ?thesis using ev1 no ok1 sg1 alk sigs_frame_kept[OF fr1] by auto
  next
    case True
    then have di: "designates l h i" by (auto simp: designates_def i_def)
    then have ne: "pe_state (pe_get l i) \<noteq> ENTRY_EMPTY" using h by (auto simp: live_handle_def)
    have has: "array_has (poll_entries l1) i" using fds_okD(4)[OF ok1, of i] ne get by simp
    have "i < max_elements (poll_entries l)" using fds_okD(3)[OF ok ne] fds_okD(2)[OF ok] by simp
    then have rc: "rc = 0" using array_index_below[OF fds_okD(1)[OF ok], of "pv_arr env" i] env a(1) di by (auto simp: poll_env_ok_def designates_def)
    have ev2: "poll_event env k h ev l = (let l2 = pe_set l1 i ((pe_get l1 i)\<lparr>pe_revents := pe_revents (pe_get l1 i) OR ucast (epoll_to_poll_event ev)\<rparr>)
            in if pe_state (pe_get l1 i) \<noteq> ENTRY_JOBLIST then add_to_jobs env k i l2 else Some (0, l2))"
      using ev1 rc di by (simp add: designates_def)
    have eff: "event_effect h ev l1 l' \<Longrightarrow> event_effect h ev l l'" for l' by (simp add: event_effect_def get d1)
    have d: "designates l1 h i" "pe_state (pe_get l1 i) \<noteq> ENTRY_EMPTY" using di ne d1 get by simp_all
    show ?thesis
    proof (cases "pe_type (pe_get l1 i) = QB_LOOP_FD")
      case True
      obtain n l' where "poll_event env k h ev l = Some (n, l')" "fds_ok None l'" "sigs_frame l1 l'" "event_effect h ev l1 l'"
        using poll_event_post[OF ok1 has d(1) True d(2), of ev env k] unfolding ev2 by blast
      then show ?thesis using eff sigs_frame_ok[OF _ sg1] alk sigs_frame_kept[OF sigs_frame_trans[OF fr1]] by (intro exI[of _ n] exI[of _ l']) (auto simp: sigs_frame_def sig_allocs_from_def)
    next
      case False
      have new: "pv_sig_alloc env k m = Some c \<Longrightarrow> sigs l1 c = None" for m c using al unfolding sig_allocs_from_def l1_def by auto
      have inj: "pv_sig_alloc env k m = Some c \<Longrightarrow> pv_sig_alloc env k m' = Some c \<Longrightarrow> m = m'" for m m' c using al unfolding sig_allocs_from_def by blast
      have "\<exists>n l'. poll_event env k h ev l = Some (n, l') \<and> fds_ok None l' \<and> sigs_ok l' \<and> sigs_kept l1 l' \<and>
          (\<forall>c. sigs l' c \<noteq> None \<longrightarrow> sigs l1 c \<noteq> None \<or> (\<exists>m. pv_sig_alloc env k m = Some c)) \<and> event_effect h ev l1 l'"
        unfolding ev2 by (rule poll_event_signal[OF ok1 sg1 has d(1) False d(2)]) (erule new, rule inj)
      then obtain n l' where l': "poll_event env k h ev l = Some (n, l')" "fds_ok None l'" "sigs_ok l'" "sigs_kept l1 l'"
        "\<forall>c. sigs l' c \<noteq> None \<longrightarrow> sigs l1 c \<noteq> None \<or> (\<exists>m. pv_sig_alloc env k m = Some c)" "event_effect h ev l1 l'" by blast
      have "sigs l' c = None" if "Suc k \<le> j" "pv_sig_alloc env j m = Some c" for j m c
      proof (rule ccontr)
        assume "sigs l' c \<noteq> None"
        then consider "sigs l1 c \<noteq> None" | m' where "pv_sig_alloc env k m' = Some c" using l'(5) by blast
        then show False
        proof cases
          case 1
          then show False using sig_allocs_fromD(1)[OF al, of j m c] that by (simp add: l1_def)
        next
          case 2
          then show False using sig_allocs_fromD(2)[OF al that(2)] that(1) by auto
        qed
      qed
      then have "sig_allocs_from (Suc k) env l'" using sig_allocs_fromD(2)[OF al] unfolding sig_allocs_from_def by blast
      then show ?thesis using l' eff sigs_kept_trans[OF sigs_frame_kept[OF fr1] l'(4)] by (intro exI[of _ n] exI[of _ l']) simp
    qed
  qed
qed

lemma designates_stable:
  assumes "event_effect h ev l l'"
  shows "designates l' h' j = designates l h' j" "pe_type (pe_get l' j) = pe_type (pe_get l j)" "live_handle l h' \<Longrightarrow> live_handle l' h'"
proof -
  have st: "entry_stable (pe_get l j) (pe_get l' j)" for j using assms by (simp add: event_effect_def)
  show d: "designates l' h' j = designates l h' j" for j using st[of j] by (simp add: designates_def entry_stable_def)
  show "pe_type (pe_get l' j) = pe_type (pe_get l j)" using st[of j] by (simp add: entry_stable_def)
  show "live_handle l' h'" if "live_handle l h'" using that st unfolding live_handle_def d by (simp add: entry_stable_def)
qed

lemma poll_events_ok:
  assumes "fds_ok None l" "sigs_ok l" "poll_env_ok env" "\<And>h ev. (h, ev) \<in> set evs \<Longrightarrow> live_handle l h" "sig_allocs_from k env l"
  shows "\<exists>n l'. poll_events_loop env k evs new l = Some (n, l') \<and> fds_ok None l' \<and> sigs_ok l' \<and> sigs_kept l l' \<and>
    (\<forall>j. pe_type (pe_get l j) = QB_LOOP_FD \<longrightarrow> pe_get l' j = fold (\<lambda>(h, ev). posted ev) (filter (\<lambda>(h, ev). designates l h j) evs) (pe_get l j))"
  using assms
proof (induction evs arbitrary: k new l)
  case Nil
  then show ?case by auto
next
  case (Cons e evs)
  obtain h ev where e: "e = (h, ev)" by (cases e)
  obtain n1 l1 where l1: "poll_event env k h ev l = Some (n1, l1)" "fds_ok None l1" "sigs_ok l1" "sigs_kept l l1" "sig_allocs_from (Suc k) env l1" "event_effect h ev l l1"
    using poll_event_ok[OF Cons.prems(1-3) Cons.prems(4)[of h ev] Cons.prems(5), of ev] by (auto simp: e)
  note st = designates_stable[OF l1(6)]
  have "\<exists>n l'. poll_events_loop env (Suc k) evs (new + n1) l1 = Some (n, l') \<and> fds_ok None l' \<and> sigs_ok l' \<and> sigs_kept l1 l' \<and>
      (\<forall>j. pe_type (pe_get l1 j) = QB_LOOP_FD \<longrightarrow> pe_get l' j = fold (\<lambda>(h, ev). posted ev) (filter (\<lambda>(h, ev). designates l1 h j) evs) (pe_get l1 j))"
    by (rule Cons.IH[OF l1(2,3) Cons.prems(3) _ l1(5)]) (use Cons.prems(4) st(3) in auto)
  then obtain n l' where l': "poll_events_loop env (Suc k) evs (new + n1) l1 = Some (n, l')" "fds_ok None l'" "sigs_ok l'" "sigs_kept l1 l'"
    "\<And>j. pe_type (pe_get l1 j) = QB_LOOP_FD \<Longrightarrow> pe_get l' j = fold (\<lambda>(h, ev). posted ev) (filter (\<lambda>(h, ev). designates l1 h j) evs) (pe_get l1 j)" by blast
  have "pe_get l' j = fold (\<lambda>(h, ev). posted ev) (filter (\<lambda>(h, ev). designates l h j) (e # evs)) (pe_get l j)" if t: "pe_type (pe_get l j) = QB_LOOP_FD" for j
    using l'(5)[of j] st(1,2) t l1(6) by (simp add: e event_effect_def)
  then show ?case using l' l1 sigs_kept_trans[OF l1(4) l'(4)] by (intro exI[of _ n] exI[of _ l']) (simp add: e)
qed

end
