(* ===== verification/Loop_poll_Safe.thy ===== *)
theory Loop_poll_Safe
  imports Loop_poll_Inv
begin

text \<open>
  The poll and signal sources as a whole: the signal operations and the callbacks of the application keep the invariant, the states that the loop can reach, and the theorems on them: no
  assertion fails, an event reaches its entry, a deleted entry gets no event, and the actions of the signals are those of the registered handlers.
\<close>

section \<open>Signal operations\<close>

lemma adjust_simps [simp]:
  "level (adjust_sigactions l) = level l" "poll_entries (adjust_sigactions l) = poll_entries l" "poll_entry_count (adjust_sigactions l) = poll_entry_count l"
  "sigs (adjust_sigactions l) = sigs l" "sig_head (adjust_sigactions l) = sig_head l" "level (signal_default s l) = level l" "poll_entries (signal_default s l) = poll_entries l"
  "poll_entry_count (signal_default s l) = poll_entry_count l" "sigs (signal_default s l) = sigs l" "sig_head (signal_default s l) = sig_head l"
  "signal_superset (signal_default s l) = signal_superset l"
  by (simp_all add: adjust_sigactions_def signal_default_def)

lemma fds_frame_level: "level l' = level l \<Longrightarrow> poll_entries l' = poll_entries l \<Longrightarrow> poll_entry_count l' = poll_entry_count l \<Longrightarrow> fds_frame l l'"
  by (simp add: fds_frame_def queued_def)

text \<open>A copy that is being dispatched: live memory, on no list and no handler.\<close>

definition sig_held :: "nat \<Rightarrow> ('f, 'd) poll_loop \<Rightarrow> bool" where
  "sig_held c l \<longleftrightarrow> sigs l c \<noteq> None \<and> queued (LoopSig c) l = 0 \<and> c \<notin> set (sig_head l)"

lemma sigs_okI:
  assumes "distinct (sig_head l)" "\<And>a. a \<in> set (sig_head l) \<Longrightarrow> \<exists>sig. sigs l a = Some sig \<and> sg_p sig \<le> 2" "\<And>c. queued (LoopSig c) l \<le> 1"
    "\<And>c. queued (LoopSig c) l = 1 \<Longrightarrow> sigs l c \<noteq> None \<and> c \<notin> set (sig_head l)" "\<And>q c. q \<le> 2 \<Longrightarrow> LoopSig c \<notin> set (wait_head (level l q))"
  shows "sigs_ok l"
  using assms unfolding sigs_ok_def by blast

lemma sigs_unqueued: "sigs_ok l \<Longrightarrow> sigs l c = None \<Longrightarrow> queued (LoopSig c) l = 0"
  using sigs_okD(3,4)[of l c] by (cases "queued (LoopSig c) l") auto

lemma handler_unqueued: "sigs_ok l \<Longrightarrow> a \<in> set (sig_head l) \<Longrightarrow> queued (LoopSig a) l = 0"
  using sigs_okD(3,5)[of l a] by (cases "queued (LoopSig a) l") auto

lemma signal_add_ok:
  assumes ok: "sigs_ok l" and new: "\<And>a. calloc = Some a \<Longrightarrow> sigs l a = None"
  shows "\<exists>rc h l'. qb_loop_signal_add calloc e p s data (Some f) l = (rc, h, l') \<and> sigs_ok l' \<and> fds_frame l l' \<and> (\<forall>c. sig_held c l \<longrightarrow> sig_held c l')"
proof (cases "p < int QB_LOOP_LOW \<or> p > int QB_LOOP_HIGH \<or> calloc = None")
  case True
  then show ?thesis using ok by (auto simp: qb_loop_signal_add_def split: option.splits)
next
  case False
  then obtain a where a: "calloc = Some a" "\<not> p < int QB_LOOP_LOW" "\<not> p > int QB_LOOP_HIGH" by auto
  define sig where "sig = \<lparr>sg_user_data = data, sg_signal = s, sg_p = nat p, sg_fn = f, sg_cloned_from = None\<rparr>"
  define l1 where "l1 = l\<lparr>sigs := (sigs l)(a \<mapsto> sig), sig_head := sig_head l @ [a]\<rparr>"
  define l' where "l' = (if signal_superset l1 s then l1 else adjust_sigactions l1)"
  have l': "sigs l' = (sigs l)(a \<mapsto> sig)" "sig_head l' = sig_head l @ [a]" "level l' = level l" "poll_entries l' = poll_entries l" "poll_entry_count l' = poll_entry_count l"
    by (simp_all add: l'_def l1_def)
  have q: "queued it l' = queued it l" for it using queued_same[OF l'(3)] .
  have fresh: "a \<notin> set (sig_head l)" "queued (LoopSig a) l = 0" using sigs_okD(2)[OF ok, of a] sigs_unqueued[OF ok] new[OF a(1)] by auto
  have "sigs_ok l'"
  proof (rule sigs_okI)
    show "distinct (sig_head l')" using sigs_okD(1)[OF ok] fresh(1) by (simp add: l'(2))
    show "\<exists>sig. sigs l' b = Some sig \<and> sg_p sig \<le> 2" if "b \<in> set (sig_head l')" for b
      using that sigs_okD(2)[OF ok, of b] a(3) fresh(1) by (auto simp: l'(1,2) sig_def loop_prio_defs)
    show "queued (LoopSig c) l' \<le> 1" for c using sigs_okD(3)[OF ok] q by simp
    show "sigs l' c \<noteq> None \<and> c \<notin> set (sig_head l')" if "queued (LoopSig c) l' = 1" for c
      using that sigs_okD(4,5)[OF ok, of c] fresh(2) q by (auto simp: l'(1,2))
    show "LoopSig c \<notin> set (wait_head (level l' k))" if "k \<le> 2" for k c using sigs_okD(6)[OF ok that] by (simp add: l'(3))
  qed
  moreover have "qb_loop_signal_add calloc e p s data (Some f) l = (0, Some a, l')"
    using a by (simp add: qb_loop_signal_add_def Let_def l'_def l1_def sig_def)
  moreover have "sig_held c l'" if "sig_held c l" for c using that new[OF a(1)] q by (auto simp: sig_held_def l'(1,2))
  ultimately show ?thesis using fds_frame_level[OF l'(3-5)] by blast
qed

lemma signal_mod_ok:
  assumes ok: "sigs_ok l" and a: "a \<in> set (sig_head l)"
  shows "\<exists>rc l'. qb_loop_signal_mod p s data (Some f) (Some a) l = Some (rc, l') \<and> sigs_ok l' \<and> fds_frame l l' \<and> (\<forall>c. sig_held c l \<longrightarrow> sig_held c l')"
proof (cases "p < int QB_LOOP_LOW \<or> p > int QB_LOOP_HIGH")
  case True
  then show ?thesis using ok by (auto simp: qb_loop_signal_mod_def)
next
  case False
  obtain sig where sig: "sigs l a = Some sig" using sigs_okD(2)[OF ok a] by blast
  define new where "new = sig\<lparr>sg_user_data := data, sg_fn := f, sg_p := nat p, sg_signal := s\<rparr>"
  define l' where "l' = (if sg_signal sig \<noteq> s then adjust_sigactions ((signal_default (sg_signal sig) l)\<lparr>sigs := (sigs l)(a \<mapsto> new)\<rparr>) else l\<lparr>sigs := (sigs l)(a \<mapsto> new)\<rparr>)"
  have l': "sigs l' = (sigs l)(a \<mapsto> new)" "sig_head l' = sig_head l" "level l' = level l" "poll_entries l' = poll_entries l" "poll_entry_count l' = poll_entry_count l"
    by (simp_all add: l'_def)
  have q: "queued it l' = queued it l" for it using queued_same[OF l'(3)] .
  have "sigs_ok l'"
  proof (rule sigs_okI)
    show "\<exists>sig. sigs l' b = Some sig \<and> sg_p sig \<le> 2" if "b \<in> set (sig_head l')" for b
      using that sigs_okD(2)[OF ok, of b] False by (auto simp: l'(1,2) new_def loop_prio_defs)
    show "sigs l' c \<noteq> None \<and> c \<notin> set (sig_head l')" if "queued (LoopSig c) l' = 1" for c using that sigs_okD(4,5)[OF ok, of c] q by (auto simp: l'(1,2))
    show "LoopSig c \<notin> set (wait_head (level l' k))" if "k \<le> 2" for k c using sigs_okD(6)[OF ok that] by (simp add: l'(3))
  qed (use sigs_okD(1,3)[OF ok] q l'(2) in auto)
  moreover have "sg_signal sig = s \<Longrightarrow> new = sig\<lparr>sg_user_data := data, sg_fn := f, sg_p := nat p\<rparr>" by (cases sig) (simp add: new_def)
  then have "qb_loop_signal_mod p s data (Some f) (Some a) l = Some (0, l')"
    using False sig by (cases "sg_signal sig = s") (simp_all add: qb_loop_signal_mod_def l'_def Let_def, simp add: new_def)
  moreover have "sig_held c l'" if "sig_held c l" for c using that q by (auto simp: sig_held_def l'(1,2))
  ultimately show ?thesis using fds_frame_level[OF l'(3-5)] by blast
qed

lemma find_clone_ok:
  "(\<And>c. LoopSig c \<in> set items \<Longrightarrow> m c \<noteq> None) \<Longrightarrow> \<exists>r. find_clone m a items = Some r \<and> (\<forall>c. r = Some c \<longrightarrow> LoopSig c \<in> set items)"
proof (induction items)
  case (Cons it items)
  then obtain r where r: "find_clone m a items = Some r" "\<forall>c. r = Some c \<longrightarrow> LoopSig c \<in> set items" by auto
  show ?case using Cons.prems r by (cases it) fastforce+
qed simp

lemma count_one_level:
  assumes "q \<le> 2" "it \<in> set (job_head (level l q))"
  shows "queued it l \<ge> 1"
proof -
  have ne: "count_list (job_head (level l q)) it \<noteq> 0" using assms(2) by (simp add: count_list_0_iff)
  consider "q = 0" | "q = 1" | "q = 2" using assms(1) by linarith
  then show ?thesis using ne by cases (simp_all add: queued_def)
qed

lemma queued_item_del:
  assumes "p \<le> 2" "it \<in> set (job_head (level l p))"
  shows "queued it' (qb_loop_level_item_del p it l) = queued it' l - (if it' = it then 1 else 0)"
proof -
  have ne: "count_list (job_head (level l p)) it \<noteq> 0" using assms(2) by (simp add: count_list_0_iff)
  consider "p = 0" | "p = 1" | "p = 2" using assms(1) by linarith
  then show ?thesis using assms(2) ne by cases (simp_all add: queued_def qb_loop_level_item_del_def count_list_remove1)
qed

lemma signal_del_ok:
  assumes ok: "sigs_ok l" and a: "a \<in> set (sig_head l)"
  shows "\<exists>l'. qb_loop_signal_del (Some a) l = Some (0, l') \<and> sigs_ok l' \<and> fds_frame l l' \<and> (\<forall>c. sig_held c l \<longrightarrow> sig_held c l') \<and>
    sig_head l' = remove1 a (sig_head l) \<and> sigs l' = (sigs l)(a := None)"
proof -
  obtain sig where sig: "sigs l a = Some sig" "sg_p sig \<le> 2" using sigs_okD(2)[OF ok a] by blast
  let ?p = "sg_p sig"
  have live: "sigs l c \<noteq> None" if "LoopSig c \<in> set (job_head (level l ?p))" for c
    using count_one_level[OF sig(2) that] sigs_okD(3,4)[OF ok, of c] by auto
  obtain r where r: "find_clone (sigs l) a (job_head (level l ?p)) = Some r" "\<And>c. r = Some c \<Longrightarrow> LoopSig c \<in> set (job_head (level l ?p))"
    using find_clone_ok[of "job_head (level l ?p)" "sigs l" a] live by blast
  obtain w where w: "find_clone (sigs l) a (wait_head (level l ?p)) = Some w" "\<And>c. w = Some c \<Longrightarrow> LoopSig c \<in> set (wait_head (level l ?p))"
    using find_clone_ok[of "wait_head (level l ?p)" "sigs l" a] sigs_okD(6)[OF ok sig(2)] by blast
  then have w0: "w = None" using sigs_okD(6)[OF ok sig(2)] by (cases w) auto
  define l1 where "l1 = (case r of None \<Rightarrow> l | Some c \<Rightarrow> qb_loop_level_item_del ?p (LoopSig c) l)"
  define l2 where "l2 = signal_default (sg_signal sig) (l1\<lparr>sig_head := remove1 a (sig_head l1)\<rparr>)"
  define l' where "l' = adjust_sigactions (l2\<lparr>sigs := (sigs l2)(a := None)\<rparr>)"
  have l1: "sigs l1 = sigs l" "sig_head l1 = sig_head l" "poll_entries l1 = poll_entries l" "poll_entry_count l1 = poll_entry_count l" "wait_head (level l1 q) = wait_head (level l q)" for q
    by (simp_all add: l1_def qb_loop_level_item_del_def split: option.splits)
  have del: "qb_loop_signal_del (Some a) l = Some (0, l')"
    using sig(1) r(1) w(1) w0 by (simp add: qb_loop_signal_del_def Let_def l'_def l2_def l1_def split: option.splits)
  have q1: "queued it l1 \<le> queued it l" "(\<And>c. it \<noteq> LoopSig c) \<Longrightarrow> queued it l1 = queued it l" for it
    using queued_item_del[OF sig(2) r(2), of _ it] by (auto simp: l1_def split: option.splits)
  have l': "sigs l' = (sigs l)(a := None)" "sig_head l' = remove1 a (sig_head l)" "level l' = level l1" "poll_entries l' = poll_entries l" "poll_entry_count l' = poll_entry_count l"
    using l1 by (simp_all add: l'_def l2_def)
  have q: "queued it l' = queued it l1" for it using queued_same[OF l'(3)] .
  have hd: "set (sig_head l') = set (sig_head l) - {a}" using sigs_okD(1)[OF ok] by (simp add: l'(2))
  have "sigs_ok l'"
  proof (rule sigs_okI)
    show "distinct (sig_head l')" using sigs_okD(1)[OF ok] by (simp add: l'(2))
    show "\<exists>sig. sigs l' b = Some sig \<and> sg_p sig \<le> 2" if "b \<in> set (sig_head l')" for b using that sigs_okD(2)[OF ok, of b] by (simp add: l'(1) hd)
    show "queued (LoopSig c) l' \<le> 1" for c using sigs_okD(3)[OF ok, of c] q1(1)[of "LoopSig c"] q by (metis order_trans)
    show "sigs l' c \<noteq> None \<and> c \<notin> set (sig_head l')" if "queued (LoopSig c) l' = 1" for c
    proof -
      have "queued (LoopSig c) l = 1" using that sigs_okD(3)[OF ok, of c] q1(1)[of "LoopSig c"] q by (metis le_antisym)
      then show ?thesis using sigs_okD(4,5)[OF ok, of c] a by (auto simp: l'(1) hd)
    qed
    show "LoopSig c \<notin> set (wait_head (level l' k))" if "k \<le> 2" for k c using sigs_okD(6)[OF ok that] l1(5) by (simp add: l'(3))
  qed
  moreover have "sig_held c l'" if "sig_held c l" for c
    using that a q1(1)[of "LoopSig c"] q[of "LoopSig c"] by (auto simp: sig_held_def l'(1) hd)
  moreover have "fds_frame l l'" using q q1(2) l'(4,5) by (simp add: fds_frame_def)
  ultimately show ?thesis using del l'(1,2) by blast
qed

section \<open>Callbacks\<close>

text \<open>
  What is asked of the application: the priority is one of the three, there is room for another entry, memory that an allocation returns is unused, and a handle of a signal is
  one that is registered.
\<close>

fun app_ok :: "('f, 'd) app_call \<Rightarrow> ('f, 'd) poll_loop \<Rightarrow> bool" where
  "app_ok (AppAdd env p fd events data f) l \<longleftrightarrow> poll_env_ok env \<and> p \<le> 2 \<and> poll_entry_count l < QB_ARRAY_MAX_ELEMENTS"
| "app_ok (AppMod env p fd events data f) l \<longleftrightarrow> poll_env_ok env \<and> p \<le> 2"
| "app_ok (AppDel env fd) l \<longleftrightarrow> poll_env_ok env"
| "app_ok (AppSigAdd calloc e p s data f) l \<longleftrightarrow> (case calloc of Some a \<Rightarrow> sigs l a = None | None \<Rightarrow> True)"
| "app_ok (AppSigMod p s data f a) l \<longleftrightarrow> a \<in> set (sig_head l)"
| "app_ok (AppSigDel a) l \<longleftrightarrow> a \<in> set (sig_head l)"

fun app_all_ok :: "('f, 'd) app_call list \<Rightarrow> ('f, 'd) poll_loop \<Rightarrow> bool" where
  "app_all_ok [] l \<longleftrightarrow> True"
| "app_all_ok (c # cs) l \<longleftrightarrow> app_ok c l \<and> (case app_run c l of None \<Rightarrow> True | Some l' \<Rightarrow> app_all_ok cs l')"

lemma sigs_frame_held: "sigs_frame l l' \<Longrightarrow> sig_held c l \<Longrightarrow> sig_held c l'"
  by (simp add: sigs_frame_def sig_held_def)

lemma app_run_ok:
  assumes ok: "fds_ok H l" "sigs_ok l" and c: "app_ok c l"
  shows "\<exists>l'. app_run c l = Some l' \<and> fds_ok H l' \<and> sigs_ok l' \<and> (\<forall>s. sig_held s l \<longrightarrow> sig_held s l')"
proof (cases c)
  case (AppAdd env p fd events data f)
  then show ?thesis using qb_loop_poll_add_ok[OF ok(1), of env p fd events data f] c sigs_frame_ok[OF _ ok(2)] sigs_frame_held by fastforce
next
  case (AppMod env p fd events data f)
  then show ?thesis using qb_loop_poll_mod_ok[OF ok(1), of env p fd events data f] c sigs_frame_ok[OF _ ok(2)] sigs_frame_held by fastforce
next
  case (AppDel env fd)
  then show ?thesis using qb_loop_poll_del_ok[OF ok(1), of env fd] c sigs_frame_ok[OF _ ok(2)] sigs_frame_held by fastforce
next
  case (AppSigAdd calloc e p s data f)
  have "\<And>a. calloc = Some a \<Longrightarrow> sigs l a = None" using c AppSigAdd by simp
  then show ?thesis using signal_add_ok[OF ok(2), of calloc e p s data f] fds_frame_ok[OF _ ok(1)] AppSigAdd by fastforce
next
  case (AppSigMod p s data f a)
  then show ?thesis using signal_mod_ok[OF ok(2), of a p s data f] c fds_frame_ok[OF _ ok(1)] by fastforce
next
  case (AppSigDel a)
  then show ?thesis using signal_del_ok[OF ok(2), of a] c fds_frame_ok[OF _ ok(1)] by fastforce
qed

lemma app_runs_ok:
  assumes "fds_ok H l" "sigs_ok l" "app_all_ok cs l"
  shows "\<exists>l'. app_runs cs l = Some l' \<and> fds_ok H l' \<and> sigs_ok l' \<and> (\<forall>s. sig_held s l \<longrightarrow> sig_held s l')"
  using assms
proof (induction cs arbitrary: l)
  case (Cons c cs)
  obtain l1 where l1: "app_run c l = Some l1" "fds_ok H l1" "sigs_ok l1" "\<And>s. sig_held s l \<Longrightarrow> sig_held s l1" using app_run_ok[OF Cons.prems(1,2), of c] Cons.prems(3) by auto
  then show ?case using Cons.IH[OF l1(2,3)] Cons.prems(3) by auto
qed simp

section \<open>Dispatch\<close>

text \<open>The loop takes the first item of a level off before it dispatches it.\<close>

abbreviation take_head :: "nat \<Rightarrow> ('f, 'd) loop_item list \<Rightarrow> ('f, 'd) poll_loop \<Rightarrow> ('f, 'd) poll_loop" where
  "take_head p jobs l \<equiv> upd_level p (\<lambda>v. v\<lparr>job_head := jobs\<rparr>) l"

lemma queued_take_head:
  assumes "p \<le> 2" "job_head (level l p) = it # jobs"
  shows "queued it' (take_head p jobs l) = queued it' l - (if it' = it then 1 else 0)"
proof -
  consider "p = 0" | "p = 1" | "p = 2" using assms(1) by linarith
  then show ?thesis using assms(2) by cases (simp_all add: queued_def)
qed

lemma fds_okI:
  assumes "array_inv (poll_entries l)" "poll_entry_count l \<le> max_elements (poll_entries l)"
    "\<And>i. pe_state (pe_get l i) \<noteq> ENTRY_EMPTY \<Longrightarrow> i < poll_entry_count l \<and> array_has (poll_entries l) i"
    "\<And>i. pe_state (pe_get l i) = ENTRY_ACTIVE \<or> pe_state (pe_get l i) = ENTRY_JOBLIST \<Longrightarrow> entry_wf (pe_get l i)"
    "\<And>i. queued (LoopFd i) l = (if pe_state (pe_get l i) = ENTRY_JOBLIST \<and> H \<noteq> Some i then 1 else 0)"
    "\<And>i. H = Some i \<Longrightarrow> pe_state (pe_get l i) = ENTRY_JOBLIST \<or> pe_state (pe_get l i) = ENTRY_DELETED"
  shows "fds_ok H l"
  using assms unfolding fds_ok_def by blast

lemma take_fd_ok:
  assumes ok: "fds_ok None l" "sigs_ok l" and p: "p \<le> 2" "job_head (level l p) = LoopFd i # jobs"
  shows "fds_ok (Some i) (take_head p jobs l)" "sigs_ok (take_head p jobs l)" "pe_state (pe_get l i) = ENTRY_JOBLIST"
proof -
  have q: "queued (LoopFd j) (take_head p jobs l) = queued (LoopFd j) l - (if j = i then 1 else 0)" "queued (LoopSig c) (take_head p jobs l) = queued (LoopSig c) l" for j c
    using queued_take_head[OF p] by simp_all
  have one: "queued (LoopFd i) l \<ge> 1" using count_one_level[OF p(1), of "LoopFd i" l] p(2) by simp
  show st: "pe_state (pe_get l i) = ENTRY_JOBLIST" using one fds_okD(6)[OF ok(1), of i] by (simp split: if_splits)
  show "fds_ok (Some i) (take_head p jobs l)"
  proof (rule fds_okI)
    show "queued (LoopFd j) (take_head p jobs l) = (if pe_state (pe_get (take_head p jobs l) j) = ENTRY_JOBLIST \<and> Some i \<noteq> Some j then 1 else 0)" for j
      using q(1)[of j] fds_okD(6)[OF ok(1), of j] by simp
  qed (use fds_okD(1-5)[OF ok(1)] st in auto)
  show "sigs_ok (take_head p jobs l)" using ok(2) unfolding sigs_ok_def q by simp
qed

lemma poll_dispatch_ok:
  assumes ok: "fds_ok (Some i) l" "sigs_ok l" and st: "pe_state (pe_get l i) = ENTRY_JOBLIST"
    and cb: "\<And>f. pe_fn (pe_get l i) = Some f \<Longrightarrow> app_all_ok (fst (cb f (pe_fd (pe_get l i)) (pe_revents (pe_get l i)) (pe_user_data (pe_get l i)))) l"
  shows "\<exists>l'. poll_dispatch_and_take_back cb i l = Some l' \<and> fds_ok None l' \<and> sigs_ok l'"
proof -
  let ?e = "pe_get l i"
  have wf: "entry_wf ?e" using fds_okD(5)[OF ok(1), of i] st by simp
  then obtain f where f: "pe_fn ?e = Some f" "pe_type ?e = QB_LOOP_FD" using st by (auto simp: entry_wf_def)
  obtain calls res where c: "cb f (pe_fd ?e) (pe_revents ?e) (pe_user_data ?e) = (calls, res)" by fastforce
  obtain l1 where l1: "app_runs calls l = Some l1" "fds_ok (Some i) l1" "sigs_ok l1" using app_runs_ok[OF ok, of calls] cb[OF f(1)] c by auto
  let ?e1 = "pe_get l1 i"
  have s1: "pe_state ?e1 = ENTRY_JOBLIST \<or> pe_state ?e1 = ENTRY_DELETED" using fds_okD(7)[OF l1(2)] by simp
  have has: "array_has (poll_entries l1) i" "i < poll_entry_count l1" using fds_okD(3,4)[OF l1(2), of i] s1 by auto
  define e where "e = (if res < 0 then poll_entry_mark_deleted ?e1 else if pe_state ?e1 \<noteq> ENTRY_DELETED then ?e1\<lparr>pe_state := ENTRY_ACTIVE, pe_revents := 0\<rparr> else ?e1)"
  define l' where "l' = (if res < 0 \<or> pe_state ?e1 \<noteq> ENTRY_DELETED then pe_set l1 i e else l1)"
  have disp: "poll_dispatch_and_take_back cb i l = Some l'" using st f c l1(1) by (simp add: poll_dispatch_and_take_back_def Let_def l'_def e_def)
  have ch: "entry_changed i e l1 l'"
    using entry_changed_set[OF fds_okD(1)[OF l1(2)] has(1), of l1 e] fds_okD(1)[OF l1(2)] by (auto simp: l'_def e_def entry_changed_def)
  have q0: "queued (LoopFd i) l1 = 0" using fds_okD(6)[OF l1(2), of i] by simp
  have wf1: "entry_wf ?e1" if "pe_state ?e1 = ENTRY_JOBLIST" using fds_okD(5)[OF l1(2), of i] that by simp
  have fr: "fds_ok None l'"
  proof -
    have get: "pe_get l' j = (if j = i then e else pe_get l1 j)" for j using ch by (simp add: entry_changed_def)
    have ne: "pe_state e = ENTRY_ACTIVE \<or> pe_state e = ENTRY_DELETED" using s1 by (auto simp: e_def poll_entry_mark_deleted_def)
    have we: "entry_wf e" if "pe_state e = ENTRY_ACTIVE" using that wf1 s1 by (auto simp: e_def entry_wf_def poll_entry_mark_deleted_def split: if_splits)
    have "queued (LoopFd j) l' = queued (LoopFd j) l1" for j by (simp add: l'_def)
    then have "queued (LoopFd j) l' = (if pe_state (pe_get l' j) = ENTRY_JOBLIST then 1 else 0)" for j
      using fds_okD(6)[OF l1(2), of j] q0 ne get by auto
    moreover have "entry_wf (pe_get l' j)" if "pe_state (pe_get l' j) = ENTRY_ACTIVE \<or> pe_state (pe_get l' j) = ENTRY_JOBLIST" for j
      using that get we ne fds_okD(5)[OF l1(2), of j] by (auto split: if_splits)
    moreover have "j < poll_entry_count l' \<and> array_has (poll_entries l') j" if "pe_state (pe_get l' j) \<noteq> ENTRY_EMPTY" for j
      using that get has fds_okD(3,4)[OF l1(2), of j] ch by (auto simp: entry_changed_def split: if_splits)
    ultimately show ?thesis unfolding fds_ok_def using ch fds_okD(2)[OF l1(2)] by (simp add: entry_changed_def)
  qed
  have "sigs_frame l1 l'" by (simp add: l'_def sigs_frame_def)
  then show ?thesis using disp fr sigs_frame_ok l1(3) by blast
qed

text \<open>A copy of a signal handler; when its function returns a value other than zero, the handler is deleted, and has to be there still.\<close>

lemma take_sig_ok:
  assumes ok: "fds_ok None l" "sigs_ok l" and p: "p \<le> 2" "job_head (level l p) = LoopSig c # jobs"
  shows "fds_ok None (take_head p jobs l)" "sigs_ok (take_head p jobs l)" "sig_held c (take_head p jobs l)"
proof -
  have q: "queued (LoopFd j) (take_head p jobs l) = queued (LoopFd j) l" "queued (LoopSig d) (take_head p jobs l) = queued (LoopSig d) l - (if d = c then 1 else 0)" for j d
    using queued_take_head[OF p] by simp_all
  have one: "queued (LoopSig c) l = 1" using count_one_level[OF p(1), of "LoopSig c" l] p(2) sigs_okD(3)[OF ok(2), of c] by simp
  show "fds_ok None (take_head p jobs l)" by (rule fds_frame_ok[OF _ ok(1)]) (simp only: fds_frame_def q(1), simp)
  show "sigs_ok (take_head p jobs l)"
  proof (rule sigs_okI)
    show "queued (LoopSig d) (take_head p jobs l) \<le> 1" for d using q(2)[of d] sigs_okD(3)[OF ok(2), of d] by simp
    show "sigs (take_head p jobs l) d \<noteq> None \<and> d \<notin> set (sig_head (take_head p jobs l))" if d: "queued (LoopSig d) (take_head p jobs l) = 1" for d
    proof -
      have "queued (LoopSig d) l = 1" using d q(2)[of d] one by (cases "d = c") auto
      then show ?thesis using sigs_okD(4,5)[OF ok(2), of d] by simp
    qed
    show "LoopSig d \<notin> set (wait_head (level (take_head p jobs l) k))" if "k \<le> 2" for k d using sigs_okD(6)[OF ok(2) that, of d] by auto
    show "distinct (sig_head (take_head p jobs l))" using sigs_okD(1)[OF ok(2)] by simp
    show "\<exists>sig. sigs (take_head p jobs l) a = Some sig \<and> sg_p sig \<le> 2" if "a \<in> set (sig_head (take_head p jobs l))" for a using sigs_okD(2)[OF ok(2), of a] that by simp
  qed
  show "sig_held c (take_head p jobs l)" using one sigs_okD(4,5)[OF ok(2), of c] by (simp add: sig_held_def q)
qed

lemma signal_dispatch_ok:
  assumes ok: "fds_ok None l" "sigs_ok l" "sig_held c l"
    and sig: "sigs l c = Some sig" "cb (sg_fn sig) (sg_signal sig) (sg_user_data sig) = (calls, res)" "app_all_ok calls l"
    and reg: "\<And>l1. res \<noteq> 0 \<Longrightarrow> app_runs calls l = Some l1 \<Longrightarrow> \<exists>sig1 a. sigs l1 c = Some sig1 \<and> sg_cloned_from sig1 = Some a \<and> a \<in> set (sig_head l1)"
  shows "\<exists>l'. signal_dispatch_and_take_back cb c l = Some l' \<and> fds_ok None l' \<and> sigs_ok l'"
proof -
  obtain l1 where l1: "app_runs calls l = Some l1" "fds_ok None l1" "sigs_ok l1" "sig_held c l1" using app_runs_ok[OF ok(1,2) sig(3)] ok(3) by blast
  obtain sig1 where sig1: "sigs l1 c = Some sig1" using l1(4) by (auto simp: sig_held_def)
  have free: "fds_ok None (l2\<lparr>sigs := (sigs l2)(c := None)\<rparr>) \<and> sigs_ok (l2\<lparr>sigs := (sigs l2)(c := None)\<rparr>)" if l2: "fds_ok None l2" "sigs_ok l2" "sig_held c l2" for l2
  proof
    show "fds_ok None (l2\<lparr>sigs := (sigs l2)(c := None)\<rparr>)" by (rule fds_frame_ok[OF _ l2(1)]) (simp add: fds_frame_def)
    show "sigs_ok (l2\<lparr>sigs := (sigs l2)(c := None)\<rparr>)" using l2(2,3) unfolding sigs_ok_def sig_held_def by auto
  qed
  show ?thesis
  proof (cases "res = 0")
    case True
    then show ?thesis using sig(1,2) l1(1) sig1 free[OF l1(2-4)] by (simp add: signal_dispatch_and_take_back_def)
  next
    case False
    then obtain a where a: "sg_cloned_from sig1 = Some a" "a \<in> set (sig_head l1)" using reg[OF False l1(1)] sig1 by auto
    then obtain l2 where l2: "qb_loop_signal_del (Some a) l1 = Some (0, l2)" "sigs_ok l2" "fds_frame l1 l2" "sig_held c l2" using signal_del_ok[OF l1(3)] l1(4) by blast
    have "sigs l1 a \<noteq> None" using sigs_okD(2)[OF l1(3) a(2)] by auto
    then have "signal_dispatch_and_take_back cb c l = Some (l2\<lparr>sigs := (sigs l2)(c := None)\<rparr>)"
      using False sig(1,2) l1(1) sig1 a(1) l2(1) by (auto simp: signal_dispatch_and_take_back_def)
    then show ?thesis using free[OF fds_frame_ok[OF l2(3) l1(2)] l2(2,4)] by simp
  qed
qed

section \<open>The actions of the signals\<close>

text \<open>The library's handler is the action of exactly the signals that a registered handler is for. \<^verbatim>\<open>SIGKILL\<close> and \<^verbatim>\<open>SIGSTOP\<close> have no action, and the last signal gets none.\<close>

definition acts_ok :: "('f, 'd) poll_loop \<Rightarrow> bool" where
  "acts_ok l \<longleftrightarrow> (\<forall>i. signal_settable i \<and> i < QB_MAX_NUM_SIGNALS \<longrightarrow> sig_installed l i = signal_needed l i) \<and>
     (\<forall>i. signal_superset l i \<longleftrightarrow> i < QB_MAX_NUM_SIGNALS \<and> signal_needed l i \<and> signal_exists i)"

lemma needed_iff: "signal_needed l i \<longleftrightarrow> (\<exists>a\<in>set (sig_head l). \<exists>sig. sigs l a = Some sig \<and> sg_signal sig = i)"
  by (fastforce simp: signal_needed_def list_ex_iff split: option.splits)

lemma needed_signals: "signal_needed l i \<longleftrightarrow> (\<exists>a\<in>set (sig_head l). map_option sg_signal (sigs l a) = Some i)"
  by (simp add: needed_iff)

lemma acts_kept:
  assumes "sigs_kept l l'" "acts_ok l"
  shows "acts_ok l'"
proof -
  have "signal_needed l' i = signal_needed l i" for i using assms(1) by (auto simp: needed_iff sigs_kept_def)
  then show ?thesis using assms by (simp add: acts_ok_def sigs_kept_def)
qed

lemma acts_adjust:
  assumes "\<And>i. signal_settable i \<Longrightarrow> i < QB_MAX_NUM_SIGNALS \<Longrightarrow> sig_installed l i \<Longrightarrow> signal_needed l i"
  shows "acts_ok (adjust_sigactions l)"
proof -
  have "signal_needed (adjust_sigactions l) i = signal_needed l i" for i by (simp add: signal_needed_def)
  then show ?thesis using assms by (auto simp: acts_ok_def adjust_sigactions_def signal_exists_def signal_settable_def)
qed

lemma acts_add:
  assumes ok: "acts_ok l" "sigs_ok l" and new: "\<And>a. calloc = Some a \<Longrightarrow> sigs l a = None" and r: "qb_loop_signal_add calloc e p s data (Some f) l = (rc, h, l')"
  shows "acts_ok l'"
proof (cases "p < int QB_LOOP_LOW \<or> p > int QB_LOOP_HIGH \<or> calloc = None")
  case True
  then show ?thesis using r ok by (auto simp: qb_loop_signal_add_def split: option.splits if_splits)
next
  case False
  then obtain a where a: "calloc = Some a" by auto
  define sig where "sig = \<lparr>sg_user_data = data, sg_signal = s, sg_p = nat p, sg_fn = f, sg_cloned_from = None\<rparr>"
  define l1 where "l1 = l\<lparr>sigs := (sigs l)(a \<mapsto> sig), sig_head := sig_head l @ [a]\<rparr>"
  have l': "l' = (if signal_superset l1 s then l1 else adjust_sigactions l1)" using r a False by (auto simp: qb_loop_signal_add_def Let_def l1_def sig_def)
  have na: "a \<notin> set (sig_head l)" using sigs_okD(2)[OF ok(2), of a] new[OF a] by auto
  have n: "signal_needed l1 i \<longleftrightarrow> i = s \<or> signal_needed l i" for i using na by (auto simp: needed_iff l1_def sig_def)
  have s: "signal_superset l1 = signal_superset l" "sig_installed l1 = sig_installed l" by (simp_all add: l1_def)
  show ?thesis
  proof (cases "signal_superset l s")
    case True
    then have "signal_needed l s" using ok(1) by (simp add: acts_ok_def)
    then have n': "signal_needed l1 i = signal_needed l i" for i using n by auto
    have "l' = l1" using True l' s(1) by simp
    then show ?thesis using ok(1) by (simp add: acts_ok_def s n')
  next
    case False
    then show ?thesis unfolding l' s if_not_P[OF False] by (intro acts_adjust) (use ok(1) n s in \<open>auto simp: acts_ok_def\<close>)
  qed
qed

lemma acts_mod:
  assumes ok: "acts_ok l" "sigs_ok l" and a: "a \<in> set (sig_head l)" and r: "qb_loop_signal_mod p s data (Some f) (Some a) l = Some (rc, l')"
  shows "acts_ok l'"
proof (cases "p < int QB_LOOP_LOW \<or> p > int QB_LOOP_HIGH")
  case True
  then show ?thesis using r ok by (auto simp: qb_loop_signal_mod_def)
next
  case False
  obtain sig where sig: "sigs l a = Some sig" using sigs_okD(2)[OF ok(2) a] by blast
  define new where "new = sig\<lparr>sg_user_data := data, sg_fn := f, sg_p := nat p\<rparr>"
  show ?thesis
  proof (cases "sg_signal sig = s")
    case True
    then have l': "l' = l\<lparr>sigs := (sigs l)(a \<mapsto> new)\<rparr>" using r False sig by (auto simp: qb_loop_signal_mod_def new_def)
    have "map_option sg_signal (sigs l' b) = map_option sg_signal (sigs l b)" for b using sig by (simp add: l' new_def)
    then have "signal_needed l' i = signal_needed l i" for i by (simp add: needed_signals l')
    then show ?thesis using ok(1) by (simp add: acts_ok_def l')
  next
    case ne: False
    define l1 where "l1 = (signal_default (sg_signal sig) l)\<lparr>sigs := (sigs l)(a \<mapsto> new\<lparr>sg_signal := s\<rparr>)\<rparr>"
    have l': "l' = adjust_sigactions l1" using r False sig ne by (auto simp: qb_loop_signal_mod_def new_def l1_def)
    show ?thesis unfolding l'
    proof (rule acts_adjust)
      fix i
      assume i: "signal_settable i" "i < QB_MAX_NUM_SIGNALS" "sig_installed l1 i"
      then have "i \<noteq> sg_signal sig" "sig_installed l i" by (auto simp: l1_def signal_default_def split: if_splits)
      moreover from this i have "signal_needed l i" using ok(1) by (simp add: acts_ok_def)
      then obtain b sb where b: "b \<in> set (sig_head l)" "sigs l b = Some sb" "sg_signal sb = i" by (auto simp: needed_iff)
      ultimately have "b \<noteq> a" using sig by auto
      then show "signal_needed l1 i" unfolding needed_iff using b by (intro bexI[of _ b]) (simp_all add: l1_def)
    qed
  qed
qed

lemma acts_del:
  assumes ok: "acts_ok l" "sigs_ok l" and a: "a \<in> set (sig_head l)" and r: "qb_loop_signal_del (Some a) l = Some (rc, l')"
  shows "acts_ok l'"
proof -
  obtain sig where sig: "sigs l a = Some sig" using sigs_okD(2)[OF ok(2) a] by blast
  have res: "sigs l' = (sigs l)(a := None)" "sig_head l' = remove1 a (sig_head l)" using signal_del_ok[OF ok(2) a] r by auto
  obtain l1 where l1: "l' = adjust_sigactions l1" "sig_installed l1 = sig_installed (signal_default (sg_signal sig) l)"
    using r sig by (auto simp: qb_loop_signal_del_def qb_loop_level_item_del_def signal_default_def Let_def split: bind_splits option.splits if_splits)
  have need: "signal_needed l1 i = signal_needed l' i" for i by (simp add: l1(1) signal_needed_def)
  show ?thesis unfolding l1(1)
  proof (rule acts_adjust)
    fix i
    assume i: "signal_settable i" "i < QB_MAX_NUM_SIGNALS" "sig_installed l1 i"
    then have "i \<noteq> sg_signal sig" "sig_installed l i" by (auto simp: l1(2) signal_default_def split: if_splits)
    moreover from this i have "signal_needed l i" using ok(1) by (simp add: acts_ok_def)
    then obtain b sb where b: "b \<in> set (sig_head l)" "sigs l b = Some sb" "sg_signal sb = i" by (auto simp: needed_iff)
    ultimately have "b \<noteq> a" using sig by auto
    then have "signal_needed l' i" unfolding needed_iff res using b by (intro bexI[of _ b]) (simp_all add: in_set_remove1)
    then show "signal_needed l1 i" using need by simp
  qed
qed


section \<open>Reachable states\<close>

lemma signal_add_part: "app_run (AppSigAdd calloc e p s data f) l = Some l' \<Longrightarrow> \<exists>rc h. qb_loop_signal_add calloc e p s data (Some f) l = (rc, h, l')"
  by (cases "qb_loop_signal_add calloc e p s data (Some f) l") auto

lemma app_run_acts:
  assumes ok: "fds_ok H l" "sigs_ok l" "acts_ok l" and c: "app_ok c l" and r: "app_run c l = Some l'"
  shows "acts_ok l'"
proof (cases c)
  case (AppAdd env p fd events data f)
  then have "sigs_frame l l'" using qb_loop_poll_add_ok[OF ok(1), of env p fd events data f] c r by auto
  then show ?thesis using acts_kept[OF sigs_frame_kept ok(3)] by blast
next
  case (AppMod env p fd events data f)
  then have "sigs_frame l l'" using qb_loop_poll_mod_ok[OF ok(1), of env p fd events data f] c r by auto
  then show ?thesis using acts_kept[OF sigs_frame_kept ok(3)] by blast
next
  case (AppDel env fd)
  then have "sigs_frame l l'" using qb_loop_poll_del_ok[OF ok(1), of env fd] c r by auto
  then show ?thesis using acts_kept[OF sigs_frame_kept ok(3)] by blast
next
  case (AppSigAdd calloc e p s data f)
  then have new: "sigs l a = None" if "calloc = Some a" for a using c that by simp
  obtain rc h where "qb_loop_signal_add calloc e p s data (Some f) l = (rc, h, l')" using signal_add_part[OF r[unfolded AppSigAdd]] by blast
  from acts_add[OF ok(3,2) _ this] new show ?thesis by blast
next
  case (AppSigMod p s data f a)
  then show ?thesis using acts_mod[OF ok(3,2)] c r by fastforce
next
  case (AppSigDel a)
  then show ?thesis using acts_del[OF ok(3,2)] c r by fastforce
qed

lemma app_runs_acts:
  assumes "fds_ok H l" "sigs_ok l" "acts_ok l" "app_all_ok cs l" "app_runs cs l = Some l'"
  shows "acts_ok l'"
  using assms
proof (induction cs arbitrary: l)
  case (Cons c cs)
  have c: "app_ok c l" using Cons.prems(4) by simp
  obtain l1 where l1: "app_run c l = Some l1" "fds_ok H l1" "sigs_ok l1" using app_run_ok[OF Cons.prems(1,2) c] by blast
  then show ?case using Cons.IH[OF l1(2,3) app_run_acts[OF Cons.prems(1-3) c l1(1)]] Cons.prems(4,5) by simp
qed simp

text \<open>What a callback does is allowed, and when it asks for the deletion of the handler of a signal, the handler is registered.\<close>

definition fd_cb_ok :: "('f \<Rightarrow> int \<Rightarrow> u16 \<Rightarrow> 'd option \<Rightarrow> ('f, 'd) app_call list \<times> int) \<Rightarrow> nat \<Rightarrow> ('f, 'd) poll_loop \<Rightarrow> bool" where
  "fd_cb_ok cb i l \<longleftrightarrow> (\<forall>f. pe_fn (pe_get l i) = Some f \<longrightarrow> app_all_ok (fst (cb f (pe_fd (pe_get l i)) (pe_revents (pe_get l i)) (pe_user_data (pe_get l i)))) l)"

definition sig_cb_ok :: "('f \<Rightarrow> int \<Rightarrow> 'd option \<Rightarrow> ('f, 'd) app_call list \<times> int) \<Rightarrow> nat \<Rightarrow> ('f, 'd) poll_loop \<Rightarrow> bool" where
  "sig_cb_ok cb c l \<longleftrightarrow>
     (\<forall>sig calls res. sigs l c = Some sig \<longrightarrow> cb (sg_fn sig) (sg_signal sig) (sg_user_data sig) = (calls, res) \<longrightarrow>
        app_all_ok calls l \<and>
        (\<forall>l1. res \<noteq> 0 \<longrightarrow> app_runs calls l = Some l1 \<longrightarrow> (\<exists>sig1 a. sigs l1 c = Some sig1 \<and> sg_cloned_from sig1 = Some a \<and> a \<in> set (sig_head l1))))"

definition poll_inv :: "('f, 'd) poll_loop \<Rightarrow> bool" where
  "poll_inv l \<longleftrightarrow> fds_ok None l \<and> sigs_ok l \<and> acts_ok l"

lemma poll_dispatch_inv:
  assumes inv: "poll_inv l" and p: "p \<le> 2" "job_head (level l p) = LoopFd i # jobs" and cb: "fd_cb_ok cb i (take_head p jobs l)"
  shows "\<exists>l'. poll_dispatch_and_take_back cb i (take_head p jobs l) = Some l' \<and> poll_inv l'"
proof -
  let ?l = "take_head p jobs l"
  have ok: "fds_ok None l" "sigs_ok l" "acts_ok l" using inv by (simp_all add: poll_inv_def)
  note t = take_fd_ok[OF ok(1,2) p]
  have st: "pe_state (pe_get ?l i) = ENTRY_JOBLIST" using t(3) by simp
  obtain l' where l': "poll_dispatch_and_take_back cb i ?l = Some l'" "fds_ok None l'" "sigs_ok l'"
    using poll_dispatch_ok[OF t(1,2) st, of cb] cb by (auto simp: fd_cb_ok_def)
  have a: "acts_ok ?l" using acts_kept[of l ?l] ok(3) by (simp add: sigs_kept_def)
  obtain f l1 where l1: "pe_fn (pe_get ?l i) = Some f" "app_runs (fst (cb f (pe_fd (pe_get ?l i)) (pe_revents (pe_get ?l i)) (pe_user_data (pe_get ?l i)))) ?l = Some l1"
    "sigs_kept l1 l'"
    using l'(1) by (auto simp: poll_dispatch_and_take_back_def Let_def sigs_kept_def split: if_splits bind_splits prod.splits)
  have "acts_ok l1" using app_runs_acts[OF t(1,2) a _ l1(2)] cb l1(1) by (simp add: fd_cb_ok_def)
  then have "acts_ok l'" using acts_kept[OF l1(3)] by simp
  then show ?thesis using l' by (simp add: poll_inv_def)
qed

lemma signal_dispatch_inv:
  assumes inv: "poll_inv l" and p: "p \<le> 2" "job_head (level l p) = LoopSig c # jobs" and cb: "sig_cb_ok cb c (take_head p jobs l)"
  shows "\<exists>l'. signal_dispatch_and_take_back cb c (take_head p jobs l) = Some l' \<and> poll_inv l'"
proof -
  let ?l = "take_head p jobs l"
  have ok: "fds_ok None l" "sigs_ok l" "acts_ok l" using inv by (simp_all add: poll_inv_def)
  note t = take_sig_ok[OF ok(1,2) p]
  obtain sig where sig: "sigs ?l c = Some sig" using t(3) by (auto simp: sig_held_def)
  obtain calls res where r: "cb (sg_fn sig) (sg_signal sig) (sg_user_data sig) = (calls, res)" by fastforce
  have c: "app_all_ok calls ?l" "\<And>l1. res \<noteq> 0 \<Longrightarrow> app_runs calls ?l = Some l1 \<Longrightarrow> \<exists>sig1 a. sigs l1 c = Some sig1 \<and> sg_cloned_from sig1 = Some a \<and> a \<in> set (sig_head l1)"
    using cb sig r unfolding sig_cb_ok_def by blast+
  obtain l' where l': "signal_dispatch_and_take_back cb c ?l = Some l'" "fds_ok None l'" "sigs_ok l'"
    using signal_dispatch_ok[where cb = cb and calls = calls and res = res, OF t sig r c] by blast
  have a: "acts_ok ?l" using acts_kept[of l ?l] ok(3) by (simp add: sigs_kept_def)
  obtain l1 where l1: "app_runs calls ?l = Some l1" "fds_ok None l1" "sigs_ok l1" "sig_held c l1" using app_runs_ok[OF t(1,2) c(1)] t(3) by blast
  have a1: "acts_ok l1" using app_runs_acts[OF t(1,2) a c(1) l1(1)] .
  have freed: "acts_ok (l2\<lparr>sigs := (sigs l2)(c := None)\<rparr>)" if "acts_ok l2" "sig_held c l2" for l2
    using that acts_kept[of l2 "l2\<lparr>sigs := (sigs l2)(c := None)\<rparr>"] by (auto simp: sigs_kept_def sig_held_def)
  have "acts_ok l'"
  proof (cases "res = 0")
    case True
    then have "l' = l1\<lparr>sigs := (sigs l1)(c := None)\<rparr>" using l'(1) sig r l1(1) by (auto simp: signal_dispatch_and_take_back_def split: bind_splits)
    then show ?thesis using freed[OF a1 l1(4)] by simp
  next
    case False
    then obtain sig1 b where b: "sigs l1 c = Some sig1" "sg_cloned_from sig1 = Some b" "b \<in> set (sig_head l1)" using c(2) l1(1) by blast
    obtain l2 where l2: "qb_loop_signal_del (Some b) l1 = Some (0, l2)" "sig_held c l2" using signal_del_ok[OF l1(3) b(3)] l1(4) by blast
    have "l' = l2\<lparr>sigs := (sigs l2)(c := None)\<rparr>" using l'(1) sig r l1(1) b(1,2) l2(1) False by (auto simp: signal_dispatch_and_take_back_def split: bind_splits)
    then show ?thesis using freed[OF acts_del[OF a1 l1(3) b(3) l2(1)] l2(2)] by simp
  qed
  then show ?thesis using l' by (simp add: poll_inv_def)
qed


lemma poll_ok:
  assumes inv: "poll_inv l" and env: "poll_env_ok env" and lh: "list_all (\<lambda>(h, ev). live_handle l h) evs" and al: "sig_allocs_from 0 env l"
  shows "\<exists>n low l'. poll_and_add_to_jobs env (Inr evs) l = Some (int n, low, l') \<and> poll_inv l' \<and> sigs_kept l l' \<and>
    (\<forall>j. pe_type (pe_get l j) = QB_LOOP_FD \<and> pe_state (pe_get l j) \<noteq> ENTRY_DELETED \<longrightarrow>
       pe_get l' j = fold (\<lambda>(h, ev). posted ev) (filter (\<lambda>(h, ev). designates l h j) evs) (pe_get l j))"
proof -
  have ok: "fds_ok None l" "sigs_ok l" "acts_ok l" using inv by (simp_all add: poll_inv_def)
  obtain low l1 where l1: "qb_poll_fds_usage_check env l = Some (low, l1)" "fds_ok None l1" "sigs_frame l l1"
    "\<And>j. pe_get l1 j = pe_get l j \<or> pe_state (pe_get l j) = ENTRY_DELETED \<and> pe_get l1 j = poll_entry_empty" using fds_usage_check_ok[OF ok(1) env] by blast
  have h: "live_handle l h" if "(h, ev) \<in> set evs" for h ev using lh that by (auto simp: list_all_iff)
  have d: "designates l1 h j = designates l h j" for h j using l1(4)[of j] by (auto simp: designates_def poll_entry_empty_def)
  have live: "live_handle l1 h" if "(h, ev) \<in> set evs" for h ev
    unfolding live_handle_def
  proof (intro allI impI)
    fix i
    assume "designates l1 h i"
    then have "designates l h i" by (simp add: d)
    then have "pe_state (pe_get l i) \<noteq> ENTRY_EMPTY" "pe_state (pe_get l i) \<noteq> ENTRY_DELETED" using h[OF that] by (auto simp: live_handle_def designates_def)
    then show "pe_state (pe_get l1 i) \<noteq> ENTRY_EMPTY" using l1(4)[of i] by simp
  qed
  have "sig_allocs_from 0 env l1" using al l1(3) by (simp add: sig_allocs_from_def sigs_frame_def)
  from poll_events_ok[OF l1(2) sigs_frame_ok[OF l1(3) ok(2)] env, of evs 0 0] live this
  obtain n l' where l': "poll_events_loop env 0 evs 0 l1 = Some (n, l')" "fds_ok None l'" "sigs_ok l'" "sigs_kept l1 l'"
    "\<And>j. pe_type (pe_get l1 j) = QB_LOOP_FD \<Longrightarrow> pe_get l' j = fold (\<lambda>(h, ev). posted ev) (filter (\<lambda>(h, ev). designates l1 h j) evs) (pe_get l1 j)" by blast
  have kept: "sigs_kept l l'" using sigs_kept_trans[OF sigs_frame_kept[OF l1(3)] l'(4)] .
  have "pe_get l' j = fold (\<lambda>(h, ev). posted ev) (filter (\<lambda>(h, ev). designates l h j) evs) (pe_get l j)"
    if "pe_type (pe_get l j) = QB_LOOP_FD" "pe_state (pe_get l j) \<noteq> ENTRY_DELETED" for j using l'(5)[of j] that l1(4)[of j] by (simp add: d)
  moreover have "poll_and_add_to_jobs env (Inr evs) l = Some (int n, low, l')" using l1(1) l'(1) by (simp add: poll_and_add_to_jobs_def)
  ultimately show ?thesis using l'(2,3) kept acts_kept[OF kept ok(3)] by (auto simp: poll_inv_def)
qed

lemma poll_failed_ok:
  assumes inv: "poll_inv l" and env: "poll_env_ok env"
  shows "\<exists>low l'. poll_and_add_to_jobs env (Inl e) l = Some (- e, low, l') \<and> poll_inv l'"
proof -
  obtain low l1 where l1: "qb_poll_fds_usage_check env l = Some (low, l1)" "fds_ok None l1" "sigs_frame l l1" using fds_usage_check_ok[OF _ env, of l] inv by (auto simp: poll_inv_def)
  then have "poll_inv l1" using inv sigs_frame_ok[OF l1(3)] acts_kept[OF sigs_frame_kept[OF l1(3)]] by (simp add: poll_inv_def)
  then show ?thesis using l1(1) by (simp add: poll_and_add_to_jobs_def)
qed

lemma signals_create_ok:
  assumes inv: "poll_inv l" and none: "sig_head l = []" and env: "poll_env_ok env" and n: "poll_entry_count l < QB_ARRAY_MAX_ELEMENTS"
  shows "\<exists>made l'. qb_loop_signals_create env calloc_ok pipe l = Some (made, l') \<and> poll_inv l'"
proof -
  have ok: "fds_ok None l" "sigs_ok l" "acts_ok l" using inv by (simp_all add: poll_inv_def)
  define l0 where "l0 = l\<lparr>sig_head := [], signal_superset := (\<lambda>_. False)\<rparr>"
  have need: "\<not> signal_needed l i" for i using none by (simp add: signal_needed_def)
  have same: "poll_inv l1" if "fds_ok None l1" "sigs_frame l0 l1" for l1
  proof -
    have fr: "sigs_frame l l1" using that(2) none need ok(3) by (auto simp: sigs_frame_def l0_def acts_ok_def)
    then show ?thesis using that(1) sigs_frame_ok[OF fr ok(2)] acts_kept[OF sigs_frame_kept[OF fr] ok(3)] by (simp add: poll_inv_def)
  qed
  have ok0: "fds_ok None l0" by (rule fds_frame_ok[OF _ ok(1)]) (simp add: fds_frame_def l0_def)
  consider "\<not> calloc_ok" | "calloc_ok" "fst (pipe_fds l0) \<ge> 0 \<or> (\<exists>e. pipe = Inl e)" | fds where "calloc_ok" "\<not> fst (pipe_fds l0) \<ge> 0" "pipe = Inr fds"
    by (cases pipe) auto
  then show ?thesis
  proof cases
    case 1
    then have "qb_loop_signals_create env calloc_ok pipe l = Some (False, l)" by (simp add: qb_loop_signals_create_def)
    then show ?thesis using inv by blast
  next
    case 2
    then show ?thesis using same[OF ok0] by (auto simp: qb_loop_signals_create_def Let_def l0_def)
  next
    case 3
    let ?l = "l0\<lparr>pipe_fds := fds\<rparr>"
    have okp: "fds_ok None ?l" by (rule fds_frame_ok[OF _ ok0]) (simp add: fds_frame_def)
    have np: "poll_entry_count ?l < QB_ARRAY_MAX_ELEMENTS" using n by (simp add: l0_def)
    let ?n = "\<lambda>i. new_entry env i QB_LOOP_HIGH (fst fds) POLLIN None (pe_get ?l i)"
    obtain i l1 l2 where a: "poll_add env QB_LOOP_HIGH (fst fds) POLLIN None ?l = Some (pv_ctl env, i, l2)" "fds_ok None l1" "array_has (poll_entries l1) i"
      "i < poll_entry_count l1" "pe_state (pe_get ?l i) = ENTRY_EMPTY" "level l1 = level ?l" "entry_changed i (?n i) l1 l2" "level l2 = level ?l" "sigs_frame ?l l2"
      using poll_add_ok[OF okp env np, of QB_LOOP_HIGH "fst fds" POLLIN None] by blast
    define e where "e = (if pv_ctl env = 0 then (?n i)\<lparr>pe_fn := None, pe_type := QB_LOOP_SIG, pe_add_to_jobs := Some AddSig\<rparr> else ?n i)"
    define l' where "l' = (if pv_ctl env = 0 then pe_set l2 i e else l2)"
    have g: "pe_get l2 i = ?n i" using a(7) by (simp add: entry_changed_def)
    have "qb_loop_signals_create env calloc_ok pipe l = Some (pv_ctl env = 0, l')"
      using 3 a(1) g by (simp add: qb_loop_signals_create_def Let_def l0_def[symmetric] l'_def e_def)
    moreover have ch: "entry_changed i e l1 l'" using a(7) entry_changed_again[OF a(7,3), of l2] by (simp add: l'_def e_def)
    have lv: "level l' = level l1" using a(6,8) by (simp add: l'_def)
    have q: "queued it l' = queued it l1" for it by (rule queued_same[OF lv])
    have z: "queued (LoopFd i) l1 = 0" using fds_okD(6)[OF okp, of i] a(5) queued_same[OF a(6)] by simp
    have "fds_ok None l'"
      by (rule entry_changed_ok[OF a(2) ch a(3,4)]) (use q z in \<open>auto simp: e_def new_entry_def entry_wf_def loop_prio_defs split: if_splits\<close>)
    moreover have "sigs_frame l0 l'" using a(9) by (auto simp: l'_def sigs_frame_def)
    ultimately show ?thesis using same by blast
  qed
qed


text \<open>
  The loop with its sources of file descriptors and signals, from its creation on. Between two calls the other sources and the loop itself change the lists, but neither the items of
  file descriptors nor those of signals. The signal source is created while no handler is registered.
\<close>

inductive poll_reach :: "('f, 'd) poll_loop \<Rightarrow> bool" where
  poll_created: "qb_array_create_2 aenv True 16 esz 16 zero_entry = Some a \<Longrightarrow> array_env_ok aenv \<Longrightarrow> 1 \<le> esz \<Longrightarrow>
     poll_reach (qb_loop_poll_create a \<lparr>level = (\<lambda>_. new_level), stop_requested = False\<rparr> limit)"
| signals_created: "poll_reach l \<Longrightarrow> sig_head l = [] \<Longrightarrow> poll_env_ok env \<Longrightarrow> poll_entry_count l < QB_ARRAY_MAX_ELEMENTS \<Longrightarrow>
     qb_loop_signals_create env calloc_ok pipe l = Some (made, l') \<Longrightarrow> poll_reach l'"
| called: "poll_reach l \<Longrightarrow> app_ok c l \<Longrightarrow> app_run c l = Some l' \<Longrightarrow> poll_reach l'"
| poll_failed: "poll_reach l \<Longrightarrow> poll_env_ok env \<Longrightarrow> poll_and_add_to_jobs env (Inl e) l = Some (rc, low, l') \<Longrightarrow> poll_reach l'"
| fds_polled: "poll_reach l \<Longrightarrow> poll_env_ok env \<Longrightarrow> list_all (\<lambda>(h, ev). live_handle l h) evs \<Longrightarrow> sig_allocs_from 0 env l \<Longrightarrow>
     poll_and_add_to_jobs env (Inr evs) l = Some (n, low, l') \<Longrightarrow> poll_reach l'"
| fd_dispatched: "poll_reach l \<Longrightarrow> p \<le> 2 \<Longrightarrow> job_head (level l p) = LoopFd i # jobs \<Longrightarrow> fd_cb_ok cb i (take_head p jobs l) \<Longrightarrow>
     poll_dispatch_and_take_back cb i (take_head p jobs l) = Some l' \<Longrightarrow> poll_reach l'"
| sig_dispatched: "poll_reach l \<Longrightarrow> p \<le> 2 \<Longrightarrow> job_head (level l p) = LoopSig c # jobs \<Longrightarrow> sig_cb_ok scb c (take_head p jobs l) \<Longrightarrow>
     signal_dispatch_and_take_back scb c (take_head p jobs l) = Some l' \<Longrightarrow> poll_reach l'"
| others: "poll_reach l \<Longrightarrow> (\<And>i. queued (LoopFd i) (l\<lparr>level := lv\<rparr>) = queued (LoopFd i) l) \<Longrightarrow> (\<And>c. queued (LoopSig c) (l\<lparr>level := lv\<rparr>) = queued (LoopSig c) l) \<Longrightarrow>
     (\<And>q c. q \<le> 2 \<Longrightarrow> LoopSig c \<notin> set (wait_head (lv q))) \<Longrightarrow> poll_reach (l\<lparr>level := lv\<rparr>)"

lemma poll_created_inv:
  assumes "qb_array_create_2 aenv True 16 esz 16 zero_entry = Some a" "array_env_ok aenv" "1 \<le> esz"
  shows "poll_inv (qb_loop_poll_create a \<lparr>level = (\<lambda>_. new_level), stop_requested = False\<rparr> limit)" (is "poll_inv ?l")
proof -
  have a: "array_inv a" "zero_elem a = zero_entry" "array_bin a b = None" for b
    using assms by (auto simp: qb_array_create_2_def grow_bin_array_def array_env_ok_def array_inv_def array_bin_def
        QB_ARRAY_MAX_ELEMENTS_def MAX_ELEMENTS_PER_BIN_def MAX_BINS_def Let_def nth_Cons' split: if_splits)
  then have g: "pe_get ?l i = zero_entry" for i by (simp add: pe_get_def array_get_def qb_loop_poll_create_def)
  have q: "queued it ?l = 0" for it by (simp add: queued_def qb_loop_poll_create_def new_level_def)
  have "fds_ok None ?l" by (rule fds_okI) (simp_all add: g q zero_entry_def, simp_all add: a(1) qb_loop_poll_create_def)
  moreover have "sigs_ok ?l" by (rule sigs_okI) (simp_all add: q, simp_all add: qb_loop_poll_create_def new_level_def)
  moreover have "acts_ok ?l" by (simp add: acts_ok_def signal_needed_def qb_loop_poll_create_def)
  ultimately show ?thesis by (simp add: poll_inv_def)
qed

lemma app_run_inv:
  assumes "poll_inv l" "app_ok c l"
  shows "\<exists>l'. app_run c l = Some l' \<and> poll_inv l'"
  using app_run_ok[of None l c] app_run_acts[of None l c] assms unfolding poll_inv_def by blast

lemma poll_reach_inv: "poll_reach l \<Longrightarrow> poll_inv l"
proof (induction rule: poll_reach.induct)
  case (poll_created aenv esz a limit)
  then show ?case by (rule poll_created_inv)
next
  case (signals_created l env calloc_ok pipe made l')
  then show ?case using signals_create_ok[OF signals_created.IH signals_created.hyps(2-4), of calloc_ok pipe] by simp
next
  case (called l c l')
  then show ?case using app_run_inv[OF called.IH called.hyps(2)] by auto
next
  case (poll_failed l env e rc low l')
  then show ?case using poll_failed_ok[OF poll_failed.IH poll_failed.hyps(2), of e] by auto
next
  case (fds_polled l env evs n low l')
  obtain n' low' l2 where "poll_and_add_to_jobs env (Inr evs) l = Some (int n', low', l2)" "poll_inv l2"
    using poll_ok[OF fds_polled.IH fds_polled.hyps(2-4)] by blast
  then show ?case using fds_polled.hyps(5) by simp
next
  case (fd_dispatched l p i jobs cb l')
  then show ?case using poll_dispatch_inv[OF fd_dispatched.IH fd_dispatched.hyps(2-4)] by auto
next
  case (sig_dispatched l p c jobs scb l')
  then show ?case using signal_dispatch_inv[OF sig_dispatched.IH sig_dispatched.hyps(2-4)] by auto
next
  case (others l lv)
  let ?l = "l\<lparr>level := lv\<rparr>"
  have ok: "fds_ok None l" "sigs_ok l" "acts_ok l" using others.IH by (simp_all add: poll_inv_def)
  have "fds_ok None ?l" by (rule fds_frame_ok[OF _ ok(1)]) (simp add: fds_frame_def others.hyps(2))
  moreover have "sigs_ok ?l" by (rule sigs_okI) (use sigs_okD(1-5)[OF ok(2)] others.hyps(3,4) in simp_all)
  moreover have "acts_ok ?l" using acts_kept[of l ?l] ok(3) by (simp add: sigs_kept_def)
  ultimately show ?case by (simp add: poll_inv_def)
qed


section \<open>Theorems\<close>

lemma entry_handle_parts:
  assumes i: "pe_install_pos e < 2 ^ 31"
  shows "handle_place (entry_handle e) = int (pe_install_pos e)" "handle_chk (entry_handle e) = pe_check e"
proof -
  let ?i = "pe_install_pos e"
  have high: "\<not> bit ?i n" if "n \<ge> 32" for n
  proof -
    have "(2 :: nat) ^ 31 \<le> 2 ^ n" using that by (intro power_increasing) simp_all
    then have "?i div 2 ^ n = 0" using i by (intro div_less) linarith
    then show ?thesis by (simp add: bit_iff_odd)
  qed
  have low: "(ucast (entry_handle e) :: u32) = of_nat ?i" by (rule bit_word_eqI) (auto simp: entry_handle_def bit_simps)
  have "sint (of_nat ?i :: u32) = int ?i" using sint_small[of "int ?i"] i by simp
  then show "handle_place (entry_handle e) = int ?i" by (simp add: handle_place_def low)
  show "handle_chk (entry_handle e) = pe_check e"
    unfolding handle_chk_def by (rule bit_word_eqI) (auto simp: entry_handle_def bit_simps high)
qed


lemma fold_posted:
  "fold (\<lambda>(h, ev). posted ev) es e = (if es = [] then e
     else e\<lparr>pe_state := ENTRY_JOBLIST, pe_revents := foldl (OR) (pe_revents e) (map (\<lambda>ev. ucast (epoll_to_poll_event ev)) (map snd es))\<rparr>)"
proof (induction es arbitrary: e)
  case (Cons x es)
  then show ?case by (cases e; cases x) (auto simp: posted_def)
qed simp



text \<open>
  C15: Adding a file descriptor takes an empty entry and leaves all others as they are. The handle that the kernel gets with the registration means the new entry and no other, so that its
  events reach the function, data and priority of the call.
\<close>

theorem poll_add_registers:
  assumes "poll_reach l" "app_ok (AppAdd env p fd events data f) l" "pv_ctl env = 0" "fd \<noteq> - 1"
  shows "\<exists>i l' h. qb_loop_poll_add env p fd events data (Some f) l = Some (0, l') \<and> poll_reach l' \<and>
    ctl_calls l' = ctl_calls l @ [CtlAdd fd (poll_to_epoll_event events) h] \<and> (\<forall>j. designates l' h j \<longleftrightarrow> j = i) \<and>
    pe_state (pe_get l i) = ENTRY_EMPTY \<and> (\<forall>j. j \<noteq> i \<longrightarrow> pe_get l' j = pe_get l j) \<and>
    pe_state (pe_get l' i) = ENTRY_ACTIVE \<and> pe_fd (pe_get l' i) = fd \<and> pe_fn (pe_get l' i) = Some f \<and> pe_user_data (pe_get l' i) = data \<and> pe_p (pe_get l' i) = p"
proof -
  have ok: "fds_ok None l" using poll_reach_inv[OF assms(1)] by (simp add: poll_inv_def)
  have c: "poll_env_ok env" "poll_entry_count l < QB_ARRAY_MAX_ELEMENTS" "p \<le> 2" using assms(2) by simp_all
  obtain i l' e where a: "qb_loop_poll_add env p fd events data (Some f) l = Some (0, l')" "fds_ok None l'" "pe_state (pe_get l i) = ENTRY_EMPTY"
    "\<And>j. pe_get l' j = (if j = i then e else pe_get l j)" "pe_fd e = fd" "pe_state e = ENTRY_ACTIVE" "pe_fn e = Some f" "pe_user_data e = data" "pe_p e = p" "pe_install_pos e = i"
    "i < poll_entry_count l'" "ctl_calls l' = ctl_calls l @ [CtlAdd fd (poll_to_epoll_event events) (entry_handle e)]"
    using qb_loop_poll_add_ok[OF ok c, of fd events data f] assms(3) by auto
  have "app_run (AppAdd env p fd events data f) l = Some l'" using a(1) by simp
  then have reach: "poll_reach l'" using poll_reach.called[OF assms(1,2)] by blast
  have "max_elements (poll_entries l') \<le> 2 ^ 16" using fds_okD(1)[OF a(2)] by (simp add: array_inv_def QB_ARRAY_MAX_ELEMENTS_def)
  then have "pe_install_pos e < 2 ^ 31" using a(10,11) fds_okD(2)[OF a(2)] by simp
  note parts = entry_handle_parts[OF this]
  have "designates l' (entry_handle e) j \<longleftrightarrow> j = i" for j using a(4-6,10) assms(4) by (auto simp: designates_def parts)
  then show ?thesis using a reach by (intro exI[of _ i] exI[of _ l'] exI[of _ "entry_handle e"]) simp
qed



text \<open>The handlers of a signal, and a state with a copy of each: at the end of the ready lists of their levels, in the order of registration.\<close>

definition handlers_of :: "('f, 'd) poll_loop \<Rightarrow> int \<Rightarrow> nat list \<Rightarrow> nat list" where
  "handlers_of l s as = filter (\<lambda>a. sg_signal (the (sigs l a)) = s) as"

definition copied :: "('f, 'd) poll_loop \<Rightarrow> (nat \<times> nat) list \<Rightarrow> ('f, 'd) poll_loop \<Rightarrow> bool" where
  "copied l made l' \<longleftrightarrow>
     (\<forall>p. job_head (level l' p) = job_head (level l p) @ map (\<lambda>(a, k). LoopSig k) (filter (\<lambda>(a, k). sg_p (the (sigs l a)) = p) made)) \<and>
     sigs l' = sigs l ++ map_of (map (\<lambda>(a, k). (k, (the (sigs l a))\<lparr>sg_cloned_from := Some a\<rparr>)) made)"

lemma copied_Cons:
  assumes "copied l1 made l'" "l1 = qb_loop_level_item_add (sg_p sig) (LoopSig c) (l\<lparr>sigs := (sigs l)(c \<mapsto> sig\<lparr>sg_cloned_from := Some a\<rparr>)\<rparr>)"
    "sigs l a = Some sig" "\<And>b k. (b, k) \<in> set made \<Longrightarrow> b \<noteq> c \<and> k \<noteq> c"
  shows "copied l ((a, c) # made) l'"
proof -
  have s1: "sigs l1 b = sigs l b" if "(b, k) \<in> set made" for b k using assms(4)[OF that] by (simp add: assms(2))
  have f1: "filter (\<lambda>(a, k). sg_p (the (sigs l1 a)) = p) made = filter (\<lambda>(a, k). sg_p (the (sigs l a)) = p) made" for p
    by (intro filter_cong) (auto simp: s1)
  have f2: "map (\<lambda>(a, k). (k, (the (sigs l1 a))\<lparr>sg_cloned_from := Some a\<rparr>)) made = map (\<lambda>(a, k). (k, (the (sigs l a))\<lparr>sg_cloned_from := Some a\<rparr>)) made"
    by (intro map_cong) (auto simp: s1)
  have c: "c \<notin> dom (map_of (map (\<lambda>(a, k). (k, (the (sigs l a))\<lparr>sg_cloned_from := Some a\<rparr>)) made))"
    by (auto simp: dom_map_of_conv_image_fst dest: assms(4))
  have "sigs l1 = (sigs l)(c \<mapsto> sig\<lparr>sg_cloned_from := Some a\<rparr>)" by (simp add: assms(2))
  then have "sigs l' = sigs l ++ map_of (map (\<lambda>(a, k). (k, (the (sigs l a))\<lparr>sg_cloned_from := Some a\<rparr>)) ((a, c) # made))"
    using assms(1,3) c unfolding copied_def f2 by (simp add: map_add_upd_left)
  moreover have "job_head (level l1 p) = job_head (level l p) @ (if sg_p sig = p then [LoopSig c] else [])" for p by (simp add: assms(2) qb_loop_level_item_add_def)
  ultimately show ?thesis using assms(1,3) unfolding copied_def f1 by simp
qed

lemma clone_loop_copies:
  assumes "\<And>a. a \<in> set as \<Longrightarrow> sigs l a \<noteq> None" "\<And>m. alloc (n + m) = Some (c m)" "\<And>m. c m \<notin> set as" "inj c"
  shows "\<exists>l'. clone_loop alloc s as n l = Some (n + length (handlers_of l s as), l') \<and>
    copied l (zip (handlers_of l s as) (map c [0..<length (handlers_of l s as)])) l'"
  using assms
proof (induction "as" arbitrary: n l c)
  case Nil
  then show ?case by (intro exI[of _ l]) (simp add: copied_def handlers_of_def)
next
  case (Cons a "as")
  obtain sig where sig: "sigs l a = Some sig" using Cons.prems(1)[of a] by auto
  show ?case
  proof (cases "sg_signal sig = s")
    case False
    then have "handlers_of l s (a # as) = handlers_of l s as" "clone_loop alloc s (a # as) n l = clone_loop alloc s as n l" using sig by (simp_all add: handlers_of_def)
    then show ?thesis using Cons.IH[of l n c, OF _ Cons.prems(2) _ Cons.prems(4)] Cons.prems(1,3) by simp
  next
    case True
    define l1 where "l1 = qb_loop_level_item_add (sg_p sig) (LoopSig (c 0)) (l\<lparr>sigs := (sigs l)(c 0 \<mapsto> sig\<lparr>sg_cloned_from := Some a\<rparr>)\<rparr>)"
    define c1 where "c1 m = c (Suc m)" for m
    let ?hs = "handlers_of l s as"
    have s1: "sigs l1 b = sigs l b" if "b \<in> set as" for b using Cons.prems(3)[of 0] that by (auto simp: l1_def)
    have hs: "handlers_of l1 s as = ?hs" unfolding handlers_of_def using s1 by (intro filter_cong) simp_all
    have "\<exists>l'. clone_loop alloc s as (Suc n) l1 = Some (Suc n + length (handlers_of l1 s as), l') \<and>
        copied l1 (zip (handlers_of l1 s as) (map c1 [0..<length (handlers_of l1 s as)])) l'"
    proof (rule Cons.IH)
      show "sigs l1 b \<noteq> None" if "b \<in> set as" for b using s1[OF that] Cons.prems(1)[of b] that by simp
      show "alloc (Suc n + m) = Some (c1 m)" for m using Cons.prems(2)[of "Suc m"] by (simp add: c1_def)
      show "c1 m \<notin> set as" for m using Cons.prems(3)[of "Suc m"] by (simp add: c1_def)
      show "inj c1" using Cons.prems(4) by (auto simp: inj_def c1_def)
    qed
    then obtain l' where l': "clone_loop alloc s as (Suc n) l1 = Some (Suc n + length ?hs, l')" "copied l1 (zip ?hs (map c1 [0..<length ?hs])) l'" unfolding hs by blast
    have nc: "b \<noteq> c 0 \<and> k \<noteq> c 0" if "(b, k) \<in> set (zip ?hs (map c1 [0..<length ?hs]))" for b k
      using set_zip_leftD[OF that] set_zip_rightD[OF that] Cons.prems(3)[of 0] Cons.prems(4) by (auto simp: handlers_of_def c1_def inj_def)
    have "copied l (zip (a # ?hs) (c 0 # map c1 [0..<length ?hs])) l'" using copied_Cons[OF l'(2) l1_def sig nc] by simp
    moreover have "c 0 # map c1 [0..<length ?hs] = map c [0..<Suc (length ?hs)]" by (simp add: c1_def map_upt_Suc del: upt_Suc)
    moreover have "handlers_of l s (a # as) = a # ?hs" using sig True by (simp add: handlers_of_def)
    moreover have "clone_loop alloc s (a # as) n l = Some (n + length (a # ?hs), l')" using sig True Cons.prems(2)[of 0] l'(1) by (simp add: l1_def)
    ultimately show ?thesis by (metis length_Cons)
  qed
qed

text \<open>
  C18: A signal that is read from the pipe makes one copy of every handler that is registered for it, in the order of their registration, each at the end of the ready list of the
  handler's priority, and of no other handler; the number of the copies is returned.
\<close>

theorem signal_copies_handlers:
  assumes "poll_reach l" "pv_sig env k = Some s" "\<And>m. pv_sig_alloc env k m = Some (c m)" "\<And>m. sigs l (c m) = None" "inj c"
  shows "\<exists>l'. signal_add_to_jobs env k i l = Some (length (handlers_of l s (sig_head l)), l') \<and>
    copied l (zip (handlers_of l s (sig_head l)) (map c [0..<length (handlers_of l s (sig_head l))])) l'"
proof -
  have ok: "sigs_ok l" using poll_reach_inv[OF assms(1)] by (simp add: poll_inv_def)
  let ?l = "pe_set l i ((pe_get l i)\<lparr>pe_revents := 0\<rparr>)"
  have same: "handlers_of ?l = handlers_of l" "copied ?l = copied l" by (simp_all add: handlers_of_def copied_def fun_eq_iff)
  have "\<exists>l'. clone_loop (pv_sig_alloc env k) s (sig_head l) 0 ?l = Some (0 + length (handlers_of ?l s (sig_head l)), l') \<and>
      copied ?l (zip (handlers_of ?l s (sig_head l)) (map c [0..<length (handlers_of ?l s (sig_head l))])) l'"
  proof (rule clone_loop_copies)
    show "sigs ?l a \<noteq> None" if "a \<in> set (sig_head l)" for a using sigs_okD(2)[OF ok that] by auto
    show "c m \<notin> set (sig_head l)" for m using sigs_okD(2)[OF ok, of "c m"] assms(4)[of m] by auto
  qed (simp_all add: assms(3,5))
  then show ?thesis using assms(2) unfolding same by (simp add: signal_add_to_jobs_def)
qed


section \<open>Examples\<close>

definition ex_poll_env :: "(nat, nat) poll_env" where
  "ex_poll_env = \<lparr>pv_arr = working_array, pv_random = (\<lambda>_. 77), pv_ctl = 0, pv_rlimit = None, pv_sig = (\<lambda>_. Some 15), pv_sig_alloc = (\<lambda>k m. if k = 0 then Some (m + 5) else None)\<rparr>"

definition ex_poll :: "(nat, nat) poll_loop" where
  "ex_poll = qb_loop_poll_create
     \<lparr>bin = Some [None, None], max_elements = 16, element_size = 80, num_bins = 2, autogrow_elements = 16, new_bin_cb = False, zero_elem = zero_entry\<rparr>
     \<lparr>level = (\<lambda>_. new_level), stop_requested = False\<rparr> 0"

lemma ex_poll_reach: "poll_reach ex_poll"
  unfolding ex_poll_def
  by (rule poll_created[of working_array 80])
    (simp_all add: qb_array_create_2_def grow_bin_array_def working_array_def QB_ARRAY_MAX_ELEMENTS_def MAX_ELEMENTS_PER_BIN_def MAX_BINS_def array_env_ok_def)

lemma ex_poll_fields: "poll_entry_count ex_poll = 0" "sigs ex_poll = Map.empty" "sig_head ex_poll = []" "level ex_poll = (\<lambda>_. new_level)" "pe_get ex_poll i = zero_entry"
  "signal_superset ex_poll = (\<lambda>_. False)" "sig_installed ex_poll = (\<lambda>_. False)"
  by (simp_all add: ex_poll_def qb_loop_poll_create_def pe_get_def array_get_def array_bin_def nth_Cons')

lemma ex_poll_env_ok: "poll_env_ok ex_poll_env" "pv_ctl ex_poll_env = 0" "sigs l = Map.empty \<Longrightarrow> sig_allocs_from 0 ex_poll_env l"
  by (auto simp: ex_poll_env_def poll_env_ok_def sig_allocs_from_def split: if_splits)

lemma ex_add_ok: "app_ok (AppAdd ex_poll_env 1 5 POLLIN None 3) ex_poll"
  by (simp add: ex_poll_env_ok ex_poll_fields QB_ARRAY_MAX_ELEMENTS_def)


theorem poll_add_registers_witness:
  "\<exists>i l' h. qb_loop_poll_add ex_poll_env 1 5 POLLIN None (Some 3) ex_poll = Some (0, l') \<and> ctl_calls l' = ctl_calls ex_poll @ [CtlAdd 5 1 h] \<and>
     (\<forall>j. designates l' h j \<longleftrightarrow> j = i) \<and> pe_fn (pe_get l' i) = Some 3"
proof -
  have "poll_to_epoll_event POLLIN = 1" by (simp add: poll_to_epoll_event_def)
  then show ?thesis using poll_add_registers[OF ex_poll_reach ex_add_ok ex_poll_env_ok(2)] by auto
qed

text \<open>The loop with one file descriptor.\<close>

lemma ex_added:
  "\<exists>i l e. qb_loop_poll_add ex_poll_env 1 5 POLLIN None (Some 3) ex_poll = Some (0, l) \<and> poll_reach l \<and> sigs l = Map.empty \<and> i < poll_entry_count l \<and>
     (\<forall>j. pe_get l j = (if j = i then e else zero_entry)) \<and> pe_fd e = 5 \<and> pe_type e = QB_LOOP_FD \<and> pe_state e = ENTRY_ACTIVE \<and> pe_revents e = 0 \<and>
     (\<forall>j. designates l (entry_handle e) j \<longleftrightarrow> j = i)"
proof -
  have ok: "fds_ok None ex_poll" using poll_reach_inv[OF ex_poll_reach] by (simp add: poll_inv_def)
  have c: "poll_env_ok ex_poll_env" "poll_entry_count ex_poll < QB_ARRAY_MAX_ELEMENTS" "(1 :: nat) \<le> 2" using ex_add_ok by simp_all
  obtain i l e where a: "qb_loop_poll_add ex_poll_env 1 5 POLLIN None (Some 3) ex_poll = Some (0, l)" "fds_ok None l" "sigs_frame ex_poll l"
    "\<And>j. pe_get l j = (if j = i then e else pe_get ex_poll j)" "pe_fd e = 5" "pe_type e = QB_LOOP_FD" "pe_state e = ENTRY_ACTIVE" "pe_revents e = 0" "pe_install_pos e = i" "i < poll_entry_count l"
    using qb_loop_poll_add_ok[OF ok c, of 5 POLLIN None 3] ex_poll_env_ok(2) by auto
  have "poll_reach l" using poll_reach.called[OF ex_poll_reach ex_add_ok] a(1) by simp
  moreover have "max_elements (poll_entries l) \<le> 2 ^ 16" using fds_okD(1)[OF a(2)] by (simp add: array_inv_def QB_ARRAY_MAX_ELEMENTS_def)
  then have "pe_install_pos e < 2 ^ 31" using a(9,10) fds_okD(2)[OF a(2)] by simp
  note parts = entry_handle_parts[OF this]
  have "\<forall>j. designates l (entry_handle e) j \<longleftrightarrow> j = i" using a(4-9) by (auto simp: designates_def parts)
  moreover have "sigs l = Map.empty" using a(3) by (simp add: sigs_frame_def ex_poll_fields)
  ultimately show ?thesis using a by (auto simp: ex_poll_fields)
qed



text \<open>The loop with a handler for \<^verbatim>\<open>SIGTERM\<close>.\<close>

definition ex_sig :: "(nat, nat) qb_loop_sig" where
  "ex_sig = \<lparr>sg_user_data = None, sg_signal = 15, sg_p = 2, sg_fn = 4, sg_cloned_from = None\<rparr>"

definition ex_sig_loop :: "(nat, nat) poll_loop" where
  "ex_sig_loop = the (app_run (AppSigAdd (Some 0) 0 2 15 None 4) ex_poll)"

lemma ex_sig_reach: "poll_reach ex_sig_loop"
  by (rule called[OF ex_poll_reach, of "AppSigAdd (Some 0) 0 2 15 None 4"]) (simp_all add: ex_sig_loop_def ex_poll_fields)

lemma ex_sig_fields: "sig_head ex_sig_loop = [0]" "sigs ex_sig_loop = [0 \<mapsto> ex_sig]" "job_head (level ex_sig_loop p) = []"
  by (simp_all add: ex_sig_loop_def qb_loop_signal_add_def Let_def loop_prio_defs ex_poll_fields ex_sig_def new_level_def)


theorem signal_copies_handlers_witness:
  "\<exists>l'. signal_add_to_jobs ex_poll_env 0 0 ex_sig_loop = Some (1, l') \<and> job_head (level l' 2) = [LoopSig 5] \<and> sigs l' 5 = Some (ex_sig\<lparr>sg_cloned_from := Some 0\<rparr>)"
proof -
  have h: "handlers_of ex_sig_loop 15 (sig_head ex_sig_loop) = [0]" by (simp add: handlers_of_def ex_sig_fields ex_sig_def)
  have "pv_sig ex_poll_env 0 = Some 15" "\<And>m. pv_sig_alloc ex_poll_env 0 m = Some (m + 5)" "\<And>m. sigs ex_sig_loop (m + 5) = None" "inj (\<lambda>m :: nat. m + 5)"
    by (simp_all add: ex_poll_env_def ex_sig_fields)
  from signal_copies_handlers[OF ex_sig_reach this, of 0] show ?thesis unfolding h by (auto simp: copied_def ex_sig_fields ex_sig_def)
qed


section \<open>What the code does not do\<close>

text \<open>
  A handler with two copies on a ready list: deleting it takes only the first copy off, without freeing it. The second copy still refers to the freed handler, and dispatching it
  reads the handler when the function returns a value other than zero.
\<close>

lemma signal_copy_outlives_handler:
  fixes l :: "(nat, nat) poll_loop"
  assumes "sigs l = [0 \<mapsto> ex_sig, 5 \<mapsto> ex_sig\<lparr>sg_cloned_from := Some 0\<rparr>, 6 \<mapsto> ex_sig\<lparr>sg_cloned_from := Some 0\<rparr>]"
    "job_head (level l 2) = [LoopSig 5, LoopSig 6]" "wait_head (level l 2) = []"
  shows "\<exists>l'. qb_loop_signal_del (Some 0) l = Some (0, l') \<and> job_head (level l' 2) = [LoopSig 6] \<and> sigs l' 5 \<noteq> None \<and> sigs l' 0 = None \<and>
    signal_dispatch_and_take_back (\<lambda>_ _ _. ([], 1)) 6 l' = None"
  using assms by (simp add: qb_loop_signal_del_def ex_sig_def qb_loop_level_item_del_def signal_dispatch_and_take_back_def)

text \<open>The last signal, \<^verbatim>\<open>SIGRTMAX\<close>, never gets the action: the loop over the signals ends before it.\<close>

lemma last_signal_not_installed:
  "\<exists>l'. qb_loop_signal_add (Some 0) 0 2 64 None (Some 4) ex_poll = (0, Some 0, l') \<and> \<not> sig_installed l' 64 \<and> signal_settable 64"
  by (simp add: qb_loop_signal_add_def Let_def loop_prio_defs ex_poll_fields adjust_sigactions_def QB_MAX_NUM_SIGNALS_def signal_settable_def signal_exists_def)

text \<open>
  Without a limit of open files the computed limit is zero, which says that there are too few file descriptors.
\<close>

lemma unlimited_files_low:
  assumes "socks_limit l = 0" "low_fds_event_fn l" "\<not> not_enough_fds l"
  shows "socks_limit_of 0xFFFFFFFFFFFFFFFF = 0" "fst (low_fds_event 0 l) = Some (True, 0)"
  using assms by (simp_all add: socks_limit_of_def POLL_FDS_USED_MISC_def low_fds_event_def)

text \<open>
  An addition that the kernel refuses leaves the file descriptor in the empty entry. When it is before the entry that is registered for the file descriptor, a deletion finds it first,
  reports success and deletes nothing.
\<close>

lemma refused_add_hides_entry:
  assumes "fds_ok None l" "poll_env_ok env" "i < j" "j < poll_entry_count l" "pe_fd (pe_get l i) = fd" "pe_type (pe_get l i) = QB_LOOP_FD" "pe_state (pe_get l i) = ENTRY_EMPTY"
    "list_all (\<lambda>k. pe_fd (pe_get l k) \<noteq> fd) [0..<i]" "pe_fd (pe_get l j) = fd" "pe_state (pe_get l j) = ENTRY_ACTIVE"
  shows "\<exists>l'. qb_loop_poll_del env fd l = Some (0, l') \<and> pe_get l' j = pe_get l j"
proof -
  have "find (\<lambda>j. pe_fd (pe_get l j) = fd \<and> pe_type (pe_get l j) = QB_LOOP_FD) [0..<poll_entry_count l] = Some i"
    unfolding find_Some_iff using assms(3-6,8) by (intro exI[of _ i]) (auto simp: list_all_iff)
  then show ?thesis using qb_loop_poll_del_ok[OF assms(1,2), of fd] assms(7) by auto
qed

text \<open>
  A priority that is changed while the entry is on the ready list of the old one: a deletion then takes the entry off that list and counts it down on the level of the new priority.
\<close>

lemma priority_change_miscounts:
  assumes "p \<le> 2" "p' \<noteq> p" "LoopFd i \<in> set (job_head (level l p))" "LoopFd i \<notin> set (job_head (level l p'))"
  shows "debt (item_unlink p' (LoopFd i) l) p = debt l p + 1" "debt (item_unlink p' (LoopFd i) l) p' = debt l p' - 1"
proof -
  have "0 < length (job_head (level l p))" using assms(3) by auto
  moreover have "list_ex (\<lambda>q. LoopFd i \<in> set (job_head (level l q))) [QB_LOOP_LOW, QB_LOOP_MED, QB_LOOP_HIGH]"
    using assms(1,3) by (auto simp: loop_prio_defs le_Suc_eq numeral_2_eq_2)
  ultimately show "debt (item_unlink p' (LoopFd i) l) p = debt l p + 1" "debt (item_unlink p' (LoopFd i) l) p' = debt l p' - 1"
    using assms(2-4) by (simp_all add: item_unlink_def debt_def length_remove1 of_nat_diff Suc_leI remove1_idem)
qed

text \<open>A callback that returns a negative value gets its entry deleted, but the kernel is not told: the file descriptor stays registered with a handle that means nothing.\<close>

lemma negative_result_stays_registered:
  assumes "pe_state (pe_get l i) = ENTRY_JOBLIST" "pe_type (pe_get l i) = QB_LOOP_FD" "pe_fn (pe_get l i) = Some f"
  shows "\<exists>l'. poll_dispatch_and_take_back (\<lambda>_ _ _ _. ([], - 1)) i l = Some l' \<and> l' = pe_set l i (poll_entry_mark_deleted (pe_get l i)) \<and> ctl_calls l' = ctl_calls l"
  using assms by (simp add: poll_dispatch_and_take_back_def)

text \<open>
  When the kernel refuses the pipe of the signal source, its ends are closed but their numbers stay: the next creation takes them for an open pipe and reports success.
\<close>

lemma poll_find_pipe: "poll_find env P i k l = Some (r, l') \<Longrightarrow> pipe_fds l' = pipe_fds l"
  by (induction k arbitrary: i l) (auto simp: pe_index_def split: bind_splits if_splits prod.splits array_out.splits)

lemma poll_add_pipe: "poll_add env p fd events data l = Some (rc, i, l') \<Longrightarrow> pipe_fds l' = pipe_fds l"
  by (auto simp: poll_add_def poll_empty_position_def pe_index_def epoll_add_def Let_def dest!: poll_find_pipe split: bind_splits if_splits prod.splits array_out.splits option.splits)

lemma signals_create_after_refusal:
  assumes "qb_loop_signals_create env True (Inr fds) l = Some (False, l')" "fst (pipe_fds l) < 0" "fst fds \<ge> 0"
  shows "\<exists>l''. qb_loop_signals_create env' True pipe' l' = Some (True, l'') \<and> poll_entries l'' = poll_entries l'"
proof -
  have "pipe_fds l' = fds" using assms(1,2) by (auto simp: qb_loop_signals_create_def Let_def dest!: poll_add_pipe split: bind_splits if_splits)
  then show ?thesis using assms(3) by (simp add: qb_loop_signals_create_def)
qed

end
