(* ===== verification/Qblist.thy ===== *)
theory Qblist
  imports Prelude "HOL-Library.Monad_Syntax"
begin

text \<open>
  The intrusive lists of \<^verbatim>\<open>include/qb/qblist.h\<close>: circular, doubly linked, with a head of the same
  type as the elements. A \<^verbatim>\<open>struct qb_list_head\<close> is an address and the memory is the two pointer
  fields of all addresses. Every assignment of the source is one update of the memory, in order.
  The abstract state is a set of disjoint lists, each under the address of its head; the
  operations refine the operations on these lists. A loop over a list is \<open>None\<close> when it does not
  end.
\<close>

section \<open>Operations\<close>

record list_mem =
  lnext :: "nat \<Rightarrow> nat"
  lprev :: "nat \<Rightarrow> nat"

definition set_next :: "nat \<Rightarrow> nat \<Rightarrow> list_mem \<Rightarrow> list_mem" where
  "set_next p q m = m\<lparr>lnext := (lnext m)(p := q)\<rparr>"

definition set_prev :: "nat \<Rightarrow> nat \<Rightarrow> list_mem \<Rightarrow> list_mem" where
  "set_prev p q m = m\<lparr>lprev := (lprev m)(p := q)\<rparr>"

definition qb_list_init :: "nat \<Rightarrow> list_mem \<Rightarrow> list_mem" where
  "qb_list_init head m = set_prev head head (set_next head head m)"

definition qb_list_add :: "nat \<Rightarrow> nat \<Rightarrow> list_mem \<Rightarrow> list_mem" where
  "qb_list_add element head m =
     (let m = set_prev (lnext m head) element m;
          m = set_next element (lnext m head) m;
          m = set_prev element head m
      in set_next head element m)"

definition qb_list_add_tail :: "nat \<Rightarrow> nat \<Rightarrow> list_mem \<Rightarrow> list_mem" where
  "qb_list_add_tail element head m =
     (let m = set_next (lprev m head) element m;
          m = set_next element head m;
          m = set_prev element (lprev m head) m
      in set_prev head element m)"

definition qb_list_del :: "nat \<Rightarrow> list_mem \<Rightarrow> list_mem" where
  "qb_list_del remove m =
     (let m = set_prev (lnext m remove) (lprev m remove) m
      in set_next (lprev m remove) (lnext m remove) m)"

definition qb_list_replace :: "nat \<Rightarrow> nat \<Rightarrow> list_mem \<Rightarrow> list_mem" where
  "qb_list_replace old_one new_one m =
     (let m = set_next new_one (lnext m old_one) m;
          m = set_prev (lnext m new_one) new_one m;
          m = set_prev new_one (lprev m old_one) m
      in set_next (lprev m new_one) new_one m)"

definition qb_list_is_last :: "nat \<Rightarrow> nat \<Rightarrow> list_mem \<Rightarrow> bool" where
  "qb_list_is_last l head m = (lnext m l = head)"

definition qb_list_empty :: "nat \<Rightarrow> list_mem \<Rightarrow> bool" where
  "qb_list_empty head m = (lnext m head = head)"

definition qb_list_splice :: "nat \<Rightarrow> nat \<Rightarrow> list_mem \<Rightarrow> list_mem" where
  "qb_list_splice l head m =
     (let first = lnext m l; last = lprev m l; at = lnext m head
      in if \<not> qb_list_empty l m then
           let m = set_prev first head m;
               m = set_next head first m;
               m = set_next last at m
           in set_prev at last m
         else m)"

definition qb_list_splice_tail :: "nat \<Rightarrow> nat \<Rightarrow> list_mem \<Rightarrow> list_mem" where
  "qb_list_splice_tail l head m =
     (let first = lnext m l; last = lprev m l; at = head
      in if \<not> qb_list_empty l m then
           let m = set_prev first (lprev m head) m;
               m = set_next (lprev m head) first m;
               m = set_next last at m
           in set_prev at last m
         else m)"

text \<open>The positions that \<^verbatim>\<open>qb_list_for_each\<close> and \<^verbatim>\<open>qb_list_for_each_reverse\<close> visit, from \<open>pos\<close>.\<close>

partial_function (option) qb_list_for_each :: "nat \<Rightarrow> nat \<Rightarrow> list_mem \<Rightarrow> nat list option" where
  "qb_list_for_each pos head m =
     (if pos = head then Some [] else do { ps \<leftarrow> qb_list_for_each (lnext m pos) head m; Some (pos # ps) })"

partial_function (option) qb_list_for_each_reverse :: "nat \<Rightarrow> nat \<Rightarrow> list_mem \<Rightarrow> nat list option" where
  "qb_list_for_each_reverse pos head m =
     (if pos = head then Some [] else do { ps \<leftarrow> qb_list_for_each_reverse (lprev m pos) head m; Some (pos # ps) })"

definition qb_list_length :: "nat \<Rightarrow> list_mem \<Rightarrow> int option" where
  "qb_list_length head m = do { ps \<leftarrow> qb_list_for_each (lnext m head) head m; Some (sint (of_nat (length ps) :: u32)) }"

section \<open>Segments\<close>

text \<open>The pointers between \<open>a\<close> and \<open>b\<close> run through \<open>xs\<close>, both ways.\<close>

fun lseg :: "list_mem \<Rightarrow> nat \<Rightarrow> nat list \<Rightarrow> nat \<Rightarrow> bool" where
  "lseg m a [] b \<longleftrightarrow> lnext m a = b \<and> lprev m b = a"
| "lseg m a (x # xs) b \<longleftrightarrow> lnext m a = x \<and> lprev m x = a \<and> lseg m x xs b"

definition list_at :: "list_mem \<Rightarrow> nat \<Rightarrow> nat list \<Rightarrow> bool" where
  "list_at m h xs \<longleftrightarrow> distinct (h # xs) \<and> lseg m h xs h"

lemma list_mem_simps [simp]:
  "lnext (set_next p q m) = (lnext m)(p := q)" "lprev (set_next p q m) = lprev m"
  "lprev (set_prev p q m) = (lprev m)(p := q)" "lnext (set_prev p q m) = lnext m"
  by (simp_all add: set_next_def set_prev_def)

lemma lseg_append: "lseg m a (xs @ y # ys) b \<longleftrightarrow> lseg m a xs y \<and> lseg m y ys b"
  by (induction xs arbitrary: a) auto

lemma lseg_frame:
  assumes "lseg m a xs b" "\<And>x. x = a \<or> x \<in> set xs \<Longrightarrow> lnext m' x = lnext m x" "\<And>x. x = b \<or> x \<in> set xs \<Longrightarrow> lprev m' x = lprev m x"
  shows "lseg m' a xs b"
  using assms by (induction xs arbitrary: a) auto

lemma lseg_ends:
  "lseg m a xs b \<Longrightarrow> lnext m a = (case xs of [] \<Rightarrow> b | x # _ \<Rightarrow> x)"
  "lseg m a xs b \<Longrightarrow> lprev m b = (if xs = [] then a else last xs)"
  by (cases xs; simp) (induction xs arbitrary: a; auto)

lemma list_at_frame:
  assumes "list_at m h xs" "\<And>x. x \<in> set (h # xs) \<Longrightarrow> lnext m' x = lnext m x \<and> lprev m' x = lprev m x"
  shows "list_at m' h xs"
  using assms lseg_frame[of m h xs h m'] by (auto simp: list_at_def)

lemma last_apart: "last xs \<in> set ys \<Longrightarrow> xs \<noteq> [] \<Longrightarrow> set xs \<inter> set ys = {} \<Longrightarrow> False"
  using last_in_set[of xs] by blast

section \<open>Single operations\<close>

lemma list_init_ok: "list_at (qb_list_init h m) h []"
  by (simp add: list_at_def qb_list_init_def)

lemma list_add_ok:
  assumes "list_at m h xs" "e \<notin> set (h # xs)"
  shows "list_at (qb_list_add e h m) h (e # xs)"
proof -
  define n where "n = lnext m h"
  have n: "n = (case xs of [] \<Rightarrow> h | x # _ \<Rightarrow> x)" "n \<noteq> e"
    using lseg_ends(1)[of m h xs h] assms by (auto simp: list_at_def n_def split: list.splits)
  let ?m = "qb_list_add e h m"
  have m: "lnext ?m = (lnext m)(e := n, h := e)" "lprev ?m = (lprev m)(n := e, e := h)"
    using n(2) by (simp_all add: qb_list_add_def Let_def n_def fun_upd_twist)
  have "lseg ?m e xs h"
  proof (cases xs)
    case Nil
    then show ?thesis using assms n by (simp add: m)
  next
    case (Cons x xs')
    have "lseg m x xs' h" using assms(1) Cons by (simp add: list_at_def)
    then have "lseg ?m x xs' h"
      by (rule lseg_frame) (use assms Cons n in \<open>auto simp: m list_at_def\<close>)
    then show ?thesis using Cons n assms by (auto simp: m list_at_def)
  qed
  then show ?thesis using assms n by (auto simp: list_at_def m)
qed

lemma list_add_tail_ok:
  assumes "list_at m h xs" "e \<notin> set (h # xs)"
  shows "list_at (qb_list_add_tail e h m) h (xs @ [e])"
proof -
  define p where "p = lprev m h"
  have p: "p = (if xs = [] then h else last xs)" "p \<noteq> e"
    using lseg_ends(2)[of m h xs h] assms by (auto simp: list_at_def p_def)
  let ?m = "qb_list_add_tail e h m"
  have m: "lnext ?m = (lnext m)(p := e, e := h)" "lprev ?m = (lprev m)(e := p, h := e)"
    using assms by (simp_all add: qb_list_add_tail_def Let_def p_def)
  have "lseg ?m h xs e"
  proof (cases xs rule: rev_cases)
    case Nil
    then show ?thesis using assms p by (auto simp: m)
  next
    case (snoc xs' x)
    have "lseg m h xs' x" using assms(1) snoc by (simp add: list_at_def lseg_append)
    then have "lseg ?m h xs' x"
      by (rule lseg_frame) (use assms snoc p in \<open>auto simp: m list_at_def\<close>)
    then show ?thesis using snoc p assms by (auto simp: m list_at_def lseg_append)
  qed
  then show ?thesis using assms by (auto simp: list_at_def lseg_append m)
qed

text \<open>Deleting leaves the two neighbours linked.\<close>

lemma list_del_ok:
  assumes "list_at m h (xs @ e # ys)"
  shows "list_at (qb_list_del e m) h (xs @ ys)"
proof -
  define p n where "p = lprev m e" and "n = lnext m e"
  have seg: "lseg m h xs e" "lseg m e ys h" "distinct (h # xs @ e # ys)" using assms by (auto simp: list_at_def lseg_append)
  have p: "p = (if xs = [] then h else last xs)" and n: "n = (case ys of [] \<Rightarrow> h | y # _ \<Rightarrow> y)"
    using lseg_ends(2)[OF seg(1)] lseg_ends(1)[OF seg(2)] by (simp_all add: p_def n_def)
  have ne: "n \<noteq> e" using seg(3) n by (auto split: list.splits)
  let ?m = "qb_list_del e m"
  have m: "lnext ?m = (lnext m)(p := n)" "lprev ?m = (lprev m)(n := p)"
    using ne by (auto simp: qb_list_del_def Let_def p_def n_def)
  have one: "lseg ?m h xs n"
  proof (cases xs rule: rev_cases)
    case Nil
    then show ?thesis using p by (simp add: m)
  next
    case (snoc xs' x)
    have "lseg m h xs' x" using seg(1) snoc by (simp add: lseg_append)
    then have "lseg ?m h xs' x" by (rule lseg_frame) (use seg(3) snoc p n in \<open>auto simp: m split: list.splits\<close>)
    then show ?thesis using snoc p by (simp add: lseg_append m)
  qed
  have "lseg ?m h (xs @ ys) h"
  proof (cases ys)
    case Nil
    then show ?thesis using one n by simp
  next
    case (Cons y ys')
    have "lseg m y ys' h" using seg(2) Cons by simp
    then have "lseg ?m y ys' h" by (rule lseg_frame) (use seg(3) Cons p n in \<open>auto simp: m dest: last_apart\<close>)
    then show ?thesis using one n Cons by (simp add: lseg_append)
  qed
  then show ?thesis using seg(3) by (simp add: list_at_def)
qed

text \<open>A segment that is hung between other ends.\<close>

lemma lseg_retarget:
  assumes "lseg m a xs b" "xs \<noteq> []"
    and "lnext m' a' = hd xs" "lprev m' (hd xs) = a'" "lnext m' (last xs) = b'" "lprev m' b' = last xs"
    and "\<And>x. x \<in> set (butlast xs) \<Longrightarrow> lnext m' x = lnext m x" "\<And>x. x \<in> set (tl xs) \<Longrightarrow> lprev m' x = lprev m x"
  shows "lseg m' a' xs b'"
  using assms
proof (induction xs arbitrary: a a')
  case (Cons x xs)
  show ?case
  proof (cases xs)
    case Nil
    then show ?thesis using Cons.prems by simp
  next
    case (Cons y ys)
    have "lseg m' x xs b'"
      by (rule Cons.IH[of x]) (use Cons Cons.prems in \<open>auto\<close>)
    then show ?thesis using Cons.prems by simp
  qed
qed simp

lemma list_empty_iff: "list_at m h xs \<Longrightarrow> qb_list_empty h m \<longleftrightarrow> xs = []"
  using lseg_ends(1)[of m h xs h] by (auto simp: list_at_def qb_list_empty_def split: list.splits)

lemma butlast_distinct: "distinct xs \<Longrightarrow> x \<in> set (butlast xs) \<Longrightarrow> x \<noteq> last xs \<and> x \<in> set xs"
  by (induction xs) (auto split: if_splits)

lemma tl_distinct: "distinct xs \<Longrightarrow> x \<in> set (tl xs) \<Longrightarrow> x \<noteq> hd xs \<and> x \<in> set xs"
  by (cases xs) auto

lemma list_splice_ok:
  assumes "list_at m h xs" "list_at m l ys" "set (h # xs) \<inter> set (l # ys) = {}"
  shows "list_at (qb_list_splice l h m) h (ys @ xs)"
proof (cases "ys = []")
  case True
  then show ?thesis using assms list_empty_iff[OF assms(2)] by (simp add: qb_list_splice_def)
next
  case False
  define at where "at = lnext m h"
  have at: "at = (case xs of [] \<Rightarrow> h | x # _ \<Rightarrow> x)" using lseg_ends(1)[of m h xs h] assms(1) by (simp add: list_at_def at_def)
  have ys: "lseg m l ys l" "distinct ys" "hd ys \<in> set ys" "last ys \<in> set ys" using assms(2) False by (simp_all add: list_at_def)
  have ends: "lnext m l = hd ys" "lprev m l = last ys"
    using lseg_ends[OF ys(1)] False by (auto split: list.splits)
  let ?m = "qb_list_splice l h m"
  have m: "lnext ?m = (lnext m)(h := hd ys, last ys := at)" "lprev ?m = (lprev m)(hd ys := h, at := last ys)"
    using False list_empty_iff[OF assms(2)] by (simp_all add: qb_list_splice_def Let_def ends at_def)
  have out: "at \<notin> set ys" "h \<notin> set ys" using at assms(3) by (auto split: list.splits)
  have seg: "lseg ?m h ys at"
    by (rule lseg_retarget[OF ys(1) False])
      (use out ys butlast_distinct[OF ys(2)] tl_distinct[OF ys(2)] in \<open>auto simp: m\<close>)
  have "lseg ?m h (ys @ xs) h"
  proof (cases xs)
    case Nil
    then show ?thesis using seg at by simp
  next
    case (Cons x xs')
    have "lseg m x xs' h" using assms(1) Cons by (simp add: list_at_def)
    then have "lseg ?m x xs' h" by (rule lseg_frame) (use assms Cons at ys in \<open>auto simp: m list_at_def\<close>)
    then show ?thesis using seg at Cons by (simp add: lseg_append)
  qed
  then show ?thesis using assms by (auto simp: list_at_def)
qed

lemma list_splice_tail_ok:
  assumes "list_at m h xs" "list_at m l ys" "set (h # xs) \<inter> set (l # ys) = {}"
  shows "list_at (qb_list_splice_tail l h m) h (xs @ ys)"
proof (cases "ys = []")
  case True
  then show ?thesis using assms list_empty_iff[OF assms(2)] by (simp add: qb_list_splice_tail_def)
next
  case False
  define p where "p = lprev m h"
  have p: "p = (if xs = [] then h else last xs)" using lseg_ends(2)[of m h xs h] assms(1) by (simp add: list_at_def p_def)
  have ys: "lseg m l ys l" "distinct ys" "hd ys \<in> set ys" "last ys \<in> set ys" using assms(2) False by (simp_all add: list_at_def)
  have ends: "lnext m l = hd ys" "lprev m l = last ys"
    using lseg_ends[OF ys(1)] False by (auto split: list.splits)
  have out: "p \<notin> set ys" "h \<notin> set ys" using p assms(3) by (auto dest: last_apart)
  let ?m = "qb_list_splice_tail l h m"
  have m: "lnext ?m = (lnext m)(p := hd ys, last ys := h)" "lprev ?m = (lprev m)(hd ys := p, h := last ys)"
    using False list_empty_iff[OF assms(2)] out ys by (auto simp: qb_list_splice_tail_def Let_def ends p_def)
  have seg: "lseg ?m p ys h"
    by (rule lseg_retarget[OF ys(1) False])
      (use out ys butlast_distinct[OF ys(2)] tl_distinct[OF ys(2)] in \<open>auto simp: m\<close>)
  have "lseg ?m h (xs @ ys) h"
  proof (cases xs rule: rev_cases)
    case Nil
    then show ?thesis using seg p by simp
  next
    case (snoc xs' x)
    have "lseg m h xs' x" using assms(1) snoc by (simp add: list_at_def lseg_append)
    then have "lseg ?m h xs' x" by (rule lseg_frame) (use assms snoc p ys in \<open>auto simp: m list_at_def\<close>)
    then show ?thesis using seg p snoc by (simp add: lseg_append)
  qed
  then show ?thesis using assms by (auto simp: list_at_def)
qed

lemma list_replace_ok:
  assumes "list_at m h (xs @ e # ys)" "f \<notin> set (h # xs @ e # ys)"
  shows "list_at (qb_list_replace e f m) h (xs @ f # ys)"
proof -
  define p n where "p = lprev m e" and "n = lnext m e"
  have seg: "lseg m h xs e" "lseg m e ys h" "distinct (h # xs @ e # ys)" using assms(1) by (auto simp: list_at_def lseg_append)
  have p: "p = (if xs = [] then h else last xs)" and n: "n = (case ys of [] \<Rightarrow> h | y # _ \<Rightarrow> y)"
    using lseg_ends(2)[OF seg(1)] lseg_ends(1)[OF seg(2)] by (simp_all add: p_def n_def)
  have pe: "p \<noteq> e" "n \<noteq> e" "p \<noteq> f" "n \<noteq> f" "e \<noteq> f" using seg(3) p n assms(2) last_in_set[of xs] by (auto split: list.splits)
  let ?m = "qb_list_replace e f m"
  have m: "lnext ?m = (lnext m)(f := n, p := f)" "lprev ?m = (lprev m)(n := f, f := p)"
    using pe by (auto simp: qb_list_replace_def Let_def p_def n_def)
  have left: "lseg ?m h xs f"
  proof (cases "xs = []")
    case True
    then show ?thesis using p by (simp add: m)
  next
    case False
    have "distinct xs" using seg(3) by simp
    note d = butlast_distinct[OF this] tl_distinct[OF this]
    have "lnext m h = hd xs" "lprev m (hd xs) = h" using seg(1) False by (cases xs; simp)+
    moreover have "n \<noteq> hd xs" "h \<noteq> last xs" "f \<notin> set xs" "n \<notin> set xs" "f \<noteq> hd xs"
      using n seg(3) assms(2) False by (auto split: list.splits)
    ultimately show ?thesis using p False seg(3) assms(2)
      by (intro lseg_retarget[OF seg(1) False]) (auto simp: m dest: d)
  qed
  have right: "lseg ?m f ys h"
  proof (cases "ys = []")
    case True
    then show ?thesis using n pe by (auto simp: m)
  next
    case False
    have "distinct ys" using seg(3) by simp
    note d = butlast_distinct[OF this] tl_distinct[OF this]
    have "lnext m (last ys) = h" "lprev m h = last ys" using seg(2) False lseg_ends(2)[OF seg(2)] 
      by (cases ys rule: rev_cases; simp add: lseg_append)+
    moreover have "n = hd ys" using n False by (cases ys) auto
    moreover have "p \<notin> set ys" "f \<notin> set ys" "h \<noteq> hd ys" using p seg(3) assms(2) False by (auto dest: last_apart)
    ultimately show ?thesis using False seg(3) assms(2) pe
      by (intro lseg_retarget[OF seg(2) False]) (auto simp: m dest: d)
  qed
  show ?thesis using left right assms by (auto simp: list_at_def lseg_append)
qed

section \<open>Loops\<close>

lemma for_each_seg: "lseg m a xs h \<Longrightarrow> h \<notin> set xs \<Longrightarrow> qb_list_for_each (lnext m a) h m = Some xs"
proof (induction xs arbitrary: a)
  case Nil
  then show ?case by (subst qb_list_for_each.simps) simp
next
  case (Cons x xs)
  then show ?case by (subst qb_list_for_each.simps) auto
qed

lemma for_each_reverse_seg: "lseg m h xs b \<Longrightarrow> h \<notin> set xs \<Longrightarrow> qb_list_for_each_reverse (lprev m b) h m = Some (rev xs)"
proof (induction xs arbitrary: b rule: rev_induct)
  case Nil
  then show ?case by (subst qb_list_for_each_reverse.simps) simp
next
  case (snoc x xs)
  then show ?case by (subst qb_list_for_each_reverse.simps) (auto simp: lseg_append)
qed

section \<open>Many lists in one memory\<close>

text \<open>The lists of the memory, by their heads. No address is in two lists.\<close>

type_synonym list_store = "nat \<rightharpoonup> nat list"

definition nodes_of :: "list_store \<Rightarrow> nat \<Rightarrow> nat set" where
  "nodes_of A h = (case A h of None \<Rightarrow> {} | Some xs \<Rightarrow> set (h # xs))"

definition store_at :: "list_mem \<Rightarrow> list_store \<Rightarrow> bool" where
  "store_at m A \<longleftrightarrow>
     (\<forall>h xs. A h = Some xs \<longrightarrow> list_at m h xs) \<and> (\<forall>h h'. h \<noteq> h' \<longrightarrow> nodes_of A h \<inter> nodes_of A h' = {})"

datatype list_op = LInit nat | LAdd nat nat | LAddTail nat nat | LDel nat nat | LReplace nat nat nat
  | LSplice nat nat | LSpliceTail nat nat

fun mem_step :: "list_op \<Rightarrow> list_mem \<Rightarrow> list_mem" where
  "mem_step (LInit h) m = qb_list_init h m"
| "mem_step (LAdd e h) m = qb_list_add e h m"
| "mem_step (LAddTail e h) m = qb_list_add_tail e h m"
| "mem_step (LDel h e) m = qb_list_del e m"
| "mem_step (LReplace h e f) m = qb_list_replace e f m"
| "mem_step (LSplice l h) m = qb_list_splice l h m"
| "mem_step (LSpliceTail l h) m = qb_list_splice_tail l h m"

text \<open>
  The same on lists. \<open>None\<close> means that the operation may not be used: an address that is in a list
  already is added, or a head or an element is not there. After a splice of a list that is not
  empty its head is no list.
\<close>

definition unused :: "list_store \<Rightarrow> nat \<Rightarrow> bool" where
  "unused A e \<longleftrightarrow> (\<forall>h. e \<notin> nodes_of A h)"

fun spec_step :: "list_op \<Rightarrow> list_store \<Rightarrow> list_store option" where
  "spec_step (LInit h) A = (if unused A h then Some (A(h \<mapsto> [])) else None)"
| "spec_step (LAdd e h) A = do { xs \<leftarrow> A h; if unused A e then Some (A(h \<mapsto> e # xs)) else None }"
| "spec_step (LAddTail e h) A = do { xs \<leftarrow> A h; if unused A e then Some (A(h \<mapsto> xs @ [e])) else None }"
| "spec_step (LDel h e) A = do { xs \<leftarrow> A h; if e \<in> set xs then Some (A(h \<mapsto> remove1 e xs)) else None }"
| "spec_step (LReplace h e f) A =
     do { xs \<leftarrow> A h; if e \<in> set xs \<and> unused A f then Some (A(h \<mapsto> map (\<lambda>x. if x = e then f else x) xs)) else None }"
| "spec_step (LSplice l h) A =
     do { xs \<leftarrow> A h; ys \<leftarrow> A l;
          if h = l then None else if ys = [] then Some A else Some (A(l := None, h \<mapsto> ys @ xs)) }"
| "spec_step (LSpliceTail l h) A =
     do { xs \<leftarrow> A h; ys \<leftarrow> A l;
          if h = l then None else if ys = [] then Some A else Some (A(l := None, h \<mapsto> xs @ ys)) }"

text \<open>The pointers of a list stay in it.\<close>

lemma lseg_closed:
  "lseg m a xs b \<Longrightarrow> x = a \<or> x \<in> set xs \<Longrightarrow> lnext m x = b \<or> lnext m x \<in> set xs"
  "lseg m a xs b \<Longrightarrow> x = b \<or> x \<in> set xs \<Longrightarrow> lprev m x = a \<or> lprev m x \<in> set xs"
  by (induction xs arbitrary: a) auto

lemma list_at_closed:
  assumes "list_at m h xs" "x \<in> set (h # xs)"
  shows "lnext m x \<in> set (h # xs)" "lprev m x \<in> set (h # xs)"
  using assms lseg_closed[of m h xs h x] by (auto simp: list_at_def)

text \<open>An operation writes to the list that it changes and to the element only.\<close>

definition keeps :: "nat set \<Rightarrow> list_mem \<Rightarrow> list_mem \<Rightarrow> bool" where
  "keeps W m m' \<longleftrightarrow> (\<forall>x. x \<notin> W \<longrightarrow> lnext m' x = lnext m x \<and> lprev m' x = lprev m x)"

lemma keeps_refl: "keeps W m m"
  by (simp add: keeps_def)

lemma keeps_set:
  assumes "keeps W m m'" "p \<in> W"
  shows "keeps W m (set_next p q m')" "keeps W m (set_prev p q m')"
  using assms by (auto simp: keeps_def)

lemmas keeps_intros = keeps_refl keeps_set

lemma add_keeps:
  assumes "list_at m h xs"
  shows "keeps (insert e (set (h # xs))) m (qb_list_add e h m)" "keeps (insert e (set (h # xs))) m (qb_list_add_tail e h m)"
  using list_at_closed[OF assms, of h]
  by (simp_all add: qb_list_add_def qb_list_add_tail_def Let_def keeps_intros)

lemma del_keeps:
  assumes "list_at m h xs" "e \<in> set xs"
  shows "keeps (set (h # xs)) m (qb_list_del e m)"
  using list_at_closed[OF assms(1), of e] assms(2)
  by (simp add: qb_list_del_def Let_def keeps_intros)

lemma replace_keeps:
  assumes "list_at m h xs" "e \<in> set xs" "f \<notin> set (h # xs)"
  shows "keeps (insert f (set (h # xs))) m (qb_list_replace e f m)"
  using list_at_closed[OF assms(1), of e] assms(2,3)
  by (simp add: qb_list_replace_def Let_def keeps_intros)

lemma splice_keeps:
  assumes "list_at m h xs" "list_at m l ys"
  shows "keeps (set (h # xs) \<union> set (l # ys)) m (qb_list_splice l h m)"
    "keeps (set (h # xs) \<union> set (l # ys)) m (qb_list_splice_tail l h m)"
proof -
  let ?W = "set (h # xs) \<union> set (l # ys)"
  have "h \<in> ?W" "lnext m h \<in> ?W" "lprev m h \<in> ?W" "lnext m l \<in> ?W" "lprev m l \<in> ?W"
    using list_at_closed[OF assms(1), of h] list_at_closed[OF assms(2), of l] by auto
  then show "keeps ?W m (qb_list_splice l h m)" "keeps ?W m (qb_list_splice_tail l h m)"
    by (simp_all add: qb_list_splice_def qb_list_splice_tail_def Let_def keeps_intros del: Un_iff list.set)
qed

lemma nodes_of_upd: "nodes_of (A(h \<mapsto> xs)) g = (if g = h then set (h # xs) else nodes_of A g)"
  by (simp add: nodes_of_def)

lemma store_disjoint: "store_at m A \<Longrightarrow> A h = Some xs \<Longrightarrow> g \<noteq> h \<Longrightarrow> set (h # xs) \<inter> nodes_of A g = {}"
  unfolding store_at_def by (metis nodes_of_def option.simps(5))

lemma store_at_update:
  assumes st: "store_at m A" and new: "list_at m' h xs'" and keep: "keeps W m m'"
    and apart: "\<And>g. g \<noteq> h \<Longrightarrow> W \<inter> nodes_of A g = {}" "\<And>g. g \<noteq> h \<Longrightarrow> set (h # xs') \<inter> nodes_of A g = {}"
  shows "store_at m' (A(h \<mapsto> xs'))"
  unfolding store_at_def
proof (intro conjI allI impI)
  fix g ys assume g: "(A(h \<mapsto> xs')) g = Some ys"
  show "list_at m' g ys"
  proof (cases "g = h")
    case False
    then have "A g = Some ys" using g by simp
    then have ys: "list_at m g ys" "nodes_of A g = set (g # ys)" using st by (simp_all add: store_at_def nodes_of_def)
    have "x \<notin> W" if "x \<in> set (g # ys)" for x using apart(1)[OF False] that unfolding ys(2) by blast
    then show ?thesis using keep by (intro list_at_frame[OF ys(1)]) (simp add: keeps_def)
  qed (use g new in simp)
next
  fix g g' :: nat assume ne: "g \<noteq> g'"
  then have "nodes_of A g \<inter> nodes_of A g' = {}" using st by (simp add: store_at_def)
  then show "nodes_of (A(h \<mapsto> xs')) g \<inter> nodes_of (A(h \<mapsto> xs')) g' = {}"
    using apart(2)[of g] apart(2)[of g'] ne unfolding nodes_of_upd by auto
qed

lemma store_at_drop: "store_at m A \<Longrightarrow> store_at m (A(l := None))"
  by (auto simp: store_at_def nodes_of_def split: if_splits option.splits)

lemma unused_apart: "unused A e \<Longrightarrow> e \<notin> nodes_of A g"
  by (simp add: unused_def)

lemma init_ok:
  assumes "store_at m A" "unused A h"
  shows "store_at (qb_list_init h m) (A(h \<mapsto> []))"
  by (rule store_at_update[OF assms(1) list_init_ok, of "{h}"])
    (use assms(2) in \<open>auto simp: keeps_def qb_list_init_def unused_apart\<close>)

lemma add_ok:
  assumes st: "store_at m A" and h: "A h = Some xs" and e: "unused A e"
  shows "store_at (qb_list_add e h m) (A(h \<mapsto> e # xs))" "store_at (qb_list_add_tail e h m) (A(h \<mapsto> xs @ [e]))"
proof -
  have l: "list_at m h xs" using st h by (simp add: store_at_def)
  have n: "e \<notin> set (h # xs)" using unused_apart[OF e, of h] h by (simp add: nodes_of_def)
  have a: "insert e (set (h # xs)) \<inter> nodes_of A g = {}" if "g \<noteq> h" for g
    using store_disjoint[OF st h that] unused_apart[OF e, of g] by blast
  show "store_at (qb_list_add e h m) (A(h \<mapsto> e # xs))"
    by (rule store_at_update[OF st list_add_ok[OF l n] add_keeps(1)[OF l]]) (use a in auto)
  show "store_at (qb_list_add_tail e h m) (A(h \<mapsto> xs @ [e]))"
    by (rule store_at_update[OF st list_add_tail_ok[OF l n] add_keeps(2)[OF l]]) (use a in auto)
qed

lemma del_ok:
  assumes st: "store_at m A" and h: "A h = Some xs" and e: "e \<in> set xs"
  shows "store_at (qb_list_del e m) (A(h \<mapsto> remove1 e xs))"
proof -
  have l: "list_at m h xs" using st h by (simp add: store_at_def)
  obtain ys zs where yz: "xs = ys @ e # zs" using split_list[OF e] by blast
  have "e \<notin> set ys" using l yz by (auto simp: list_at_def)
  then have r: "remove1 e xs = ys @ zs" using yz by (simp add: remove1_append)
  have "list_at (qb_list_del e m) h (remove1 e xs)" using list_del_ok[of m h ys e zs] l yz r by simp
  then show ?thesis
    by (rule store_at_update[OF st _ del_keeps[OF l e]]) (use store_disjoint[OF st h] yz r in auto)
qed

lemma replace_ok:
  assumes st: "store_at m A" and h: "A h = Some xs" and e: "e \<in> set xs" and f: "unused A f"
  shows "store_at (qb_list_replace e f m) (A(h \<mapsto> map (\<lambda>x. if x = e then f else x) xs))"
proof -
  have l: "list_at m h xs" using st h by (simp add: store_at_def)
  have n: "f \<notin> set (h # xs)" using unused_apart[OF f, of h] h by (simp add: nodes_of_def)
  obtain ys zs where yz: "xs = ys @ e # zs" using split_list[OF e] by blast
  have "e \<notin> set ys" "e \<notin> set zs" using l yz by (auto simp: list_at_def)
  then have r: "map (\<lambda>x. if x = e then f else x) xs = ys @ f # zs" using yz by (auto intro: map_idI)
  have new: "list_at (qb_list_replace e f m) h (map (\<lambda>x. if x = e then f else x) xs)"
    using list_replace_ok[of m h ys e zs f] l yz n r by simp
  have a: "insert f (set (h # xs)) \<inter> nodes_of A g = {}" if "g \<noteq> h" for g
    using store_disjoint[OF st h that] unused_apart[OF f, of g] by blast
  show ?thesis by (rule store_at_update[OF st new replace_keeps[OF l e n]]) (use a yz r in auto)
qed

lemma splice_ok:
  assumes st: "store_at m A" and h: "A h = Some xs" and l: "A l = Some ys" and ne: "h \<noteq> l" "ys \<noteq> []"
  shows "store_at (qb_list_splice l h m) (A(l := None, h \<mapsto> ys @ xs))"
    "store_at (qb_list_splice_tail l h m) (A(l := None, h \<mapsto> xs @ ys))"
proof -
  let ?A = "A(l := None)"
  have ls: "list_at m h xs" "list_at m l ys" using st h l by (simp_all add: store_at_def)
  have dis: "set (h # xs) \<inter> set (l # ys) = {}" using store_disjoint[OF st h, of l] ne l by (simp add: nodes_of_def)
  have "nodes_of ?A g = (if g = l then {} else nodes_of A g)" for g by (simp add: nodes_of_def)
  then have a: "(set (h # xs) \<union> set (l # ys)) \<inter> nodes_of ?A g = {}" if "g \<noteq> h" for g
    using store_disjoint[OF st h that] store_disjoint[OF st l, of g] by auto
  show "store_at (qb_list_splice l h m) (?A(h \<mapsto> ys @ xs))"
    by (rule store_at_update[OF store_at_drop[OF st] list_splice_ok[OF ls dis] splice_keeps(1)[OF ls]]) (use a in auto)
  show "store_at (qb_list_splice_tail l h m) (?A(h \<mapsto> xs @ ys))"
    by (rule store_at_update[OF store_at_drop[OF st] list_splice_tail_ok[OF ls dis] splice_keeps(2)[OF ls]]) (use a in auto)
qed

lemma splice_empty:
  assumes "store_at m A" "A l = Some []"
  shows "qb_list_splice l h m = m" "qb_list_splice_tail l h m = m"
  using assms list_empty_iff[of m l "[]"] by (simp_all add: store_at_def qb_list_splice_def qb_list_splice_tail_def)

lemma step_refines:
  assumes "store_at m A" "spec_step op A = Some A'"
  shows "store_at (mem_step op m) A'"
  by (cases op)
    (use assms init_ok add_ok del_ok replace_ok splice_ok splice_empty in \<open>auto simp: bind_eq_Some_conv split: if_splits\<close>)

fun spec_run :: "list_op list \<Rightarrow> list_store \<Rightarrow> list_store option" where
  "spec_run [] A = Some A"
| "spec_run (op # ops) A = do { A' \<leftarrow> spec_step op A; spec_run ops A' }"

lemma run_refines: "store_at m A \<Longrightarrow> spec_run ops A = Some A' \<Longrightarrow> store_at (fold mem_step ops m) A'"
  by (induction ops arbitrary: m A) (auto simp: bind_eq_Some_conv dest: step_refines)

lemma list_at_loops:
  assumes "list_at m h xs"
  shows "qb_list_for_each (lnext m h) h m = Some xs" "qb_list_for_each_reverse (lprev m h) h m = Some (rev xs)"
  using assms for_each_seg[of m h xs h] for_each_reverse_seg[of m h xs h] by (auto simp: list_at_def)

text \<open>A loop that ends has followed the pointers to the head.\<close>

lemma for_each_reaches:
  assumes "qb_list_for_each pos head m = Some ps"
  shows "(lnext m ^^ length ps) pos = head"
  by (rule qb_list_for_each.raw_induct[OF _ assms])
    (auto simp: bind_eq_Some_conv funpow_swap1 split: if_splits)

lemma for_each_never_ends:
  assumes "pos \<in> S" "\<And>x. x \<in> S \<Longrightarrow> lnext m x \<in> S" "head \<notin> S"
  shows "qb_list_for_each pos head m = None"
proof (cases "qb_list_for_each pos head m")
  case (Some ps)
  have "(lnext m ^^ n) pos \<in> S" for n using assms(1,2) by (induction n) auto
  then show ?thesis using for_each_reaches[OF Some] assms(3) by metis
qed simp

section \<open>Properties of the lists\<close>

text \<open>
  C28: Any sequence of list operations on any number of lists does to the pointers in memory what
  the operations on abstract lists say, as long as no address is put into two lists: afterwards
  every list is intact and a loop over it visits exactly its elements, in order.
\<close>

theorem list_ops_refine:
  assumes "store_at m A" "spec_run ops A = Some A'" "A' h = Some xs"
  shows "list_at (fold mem_step ops m) h xs \<and>
         qb_list_for_each (lnext (fold mem_step ops m) h) h (fold mem_step ops m) = Some xs"
  using run_refines[OF assms(1,2)] list_at_loops(1) assms(3) by (auto simp: store_at_def)

definition ex_mem :: list_mem where
  "ex_mem = \<lparr>lnext = (\<lambda>x. x), lprev = (\<lambda>x. x)\<rparr>"

lemma ex_mem_store: "store_at ex_mem Map.empty"
  by (simp add: store_at_def nodes_of_def)

theorem list_ops_refine_witness:
  "list_at (fold mem_step [LInit 0, LInit 1, LAdd 5 0, LAddTail 6 0, LAdd 7 1, LSplice 1 0, LDel 0 5] ex_mem) 0 [7, 6]"
proof -
  have run: "spec_run [LInit 0, LInit 1, LAdd 5 0, LAddTail 6 0, LAdd 7 1, LSplice 1 0, LDel 0 5] Map.empty =
      Some ((Map.empty(1 := None))(0 \<mapsto> [7, 6]))"
    by (auto simp: unused_def nodes_of_def fun_eq_iff split: if_splits)
  show ?thesis using list_ops_refine[OF ex_mem_store run, of 0 "[7, 6]"] by simp
qed

text \<open>
  The loops over a list end, forwards and backwards, and visit its elements; the length, the
  test for emptiness and the test for the last element agree with the list.
\<close>

theorem list_loops_end:
  assumes "list_at m h xs" "length xs < 2 ^ 31"
  shows "qb_list_for_each (lnext m h) h m = Some xs \<and> qb_list_for_each_reverse (lprev m h) h m = Some (rev xs) \<and>
         qb_list_length h m = Some (int (length xs)) \<and> (qb_list_empty h m \<longleftrightarrow> xs = []) \<and>
         (\<forall>x\<in>set xs. qb_list_is_last x h m \<longleftrightarrow> x = last xs)"
proof (intro conjI ballI)
  show "qb_list_length h m = Some (int (length xs))"
    using list_at_loops(1)[OF assms(1)] assms(2)
    by (simp add: qb_list_length_def sint_uint signed_take_bit_int_eq_self uint_nat unat_of_nat)
  fix x assume x: "x \<in> set xs"
  then obtain ys zs where yz: "xs = ys @ x # zs" using split_list by metis
  then have "lseg m x zs h" "distinct (h # xs)" using assms(1) by (auto simp: list_at_def lseg_append)
  then show "qb_list_is_last x h m \<longleftrightarrow> x = last xs"
    using lseg_ends(1)[of m x zs h] yz by (cases zs) (auto simp: qb_list_is_last_def dest: last_apart)
qed (use list_at_loops[OF assms(1)] list_empty_iff[OF assms(1)] in auto)

theorem list_loops_end_witness:
  "qb_list_length 0 (qb_list_add_tail 2 0 (qb_list_init 0 ex_mem)) = Some 1"
proof -
  have "list_at (qb_list_add_tail 2 0 (qb_list_init 0 ex_mem)) 0 ([] @ [2])" by (rule list_add_tail_ok[OF list_init_ok]) simp
  from list_loops_end[OF this] show ?thesis by simp
qed

text \<open>
  The splice does not reinitialise the head of the list that was joined: it keeps pointing into
  the other list, so that it does not look empty and a loop over it never ends.
\<close>

theorem list_splice_leaves_head:
  assumes "list_at m h xs" "list_at m l ys" "set (h # xs) \<inter> set (l # ys) = {}" "ys \<noteq> []"
  shows "\<not> qb_list_empty l (qb_list_splice l h m) \<and>
         qb_list_for_each (lnext (qb_list_splice l h m) l) l (qb_list_splice l h m) = None"
proof -
  let ?m = "qb_list_splice l h m"
  have new: "list_at ?m h (ys @ xs)" by (rule list_splice_ok[OF assms(1-3)])
  have l: "lnext m l = hd ys" "lprev m l = last ys"
    using lseg_ends[of m l ys l] assms(2,4) by (auto simp: list_at_def split: list.splits)
  have "lnext ?m l = hd ys" using l assms by (auto simp: qb_list_splice_def Let_def qb_list_empty_def list_at_def)
  moreover have "hd ys \<in> set (h # ys @ xs)" "l \<notin> set (h # ys @ xs)" using assms(2-4) by (auto simp: list_at_def)
  moreover from this have "qb_list_for_each (hd ys) l ?m = None"
    using list_at_closed(1)[OF new] by (intro for_each_never_ends[of _ "set (h # ys @ xs)"]) auto
  ultimately show ?thesis by (auto simp: qb_list_empty_def)
qed

theorem list_splice_leaves_head_witness:
  "\<not> qb_list_empty 1 (qb_list_splice 1 0 (qb_list_add 5 1 (qb_list_init 1 (qb_list_init 0 ex_mem))))"
proof -
  have "spec_run [LInit 0, LInit 1, LAdd 5 1] Map.empty = Some [0 \<mapsto> [], 1 \<mapsto> [5]]"
    by (auto simp: unused_def nodes_of_def fun_eq_iff split: if_splits)
  from run_refines[OF ex_mem_store this]
  have "store_at (qb_list_add 5 1 (qb_list_init 1 (qb_list_init 0 ex_mem))) [0 \<mapsto> [], 1 \<mapsto> [5]]" by simp
  then show ?thesis using list_splice_leaves_head[of _ 0 "[]" 1 "[5]"] by (simp add: store_at_def)
qed

end
