(* ===== verification/Qbmap.thy ===== *)
theory Qbmap
  imports Prelude "HOL-Library.Monad_Syntax"
begin

text \<open>
  What the three maps of the library share (\<^verbatim>\<open>lib/map.c\<close>, \<^verbatim>\<open>lib/map_int.h\<close>,
  \<^verbatim>\<open>include/qb/qbmap.h\<close>): the notifiers and the interface. A key is the string it points to. A
  value is a pointer that the library does not follow; \<open>None\<close> is \<^verbatim>\<open>NULL\<close>. The calls of the
  notification functions are collected in the order in which they are made, as results; they
  do not use the map. The locale \<open>map_store\<close> is the contract of the function table
  \<^verbatim>\<open>struct qb_map\<close>; inside it a sequence of operations is shown to behave as one on a finite map.
\<close>

section \<open>Notifiers\<close>

abbreviation QB_MAP_NOTIFY_DELETED :: u32 where "QB_MAP_NOTIFY_DELETED \<equiv> 1"
abbreviation QB_MAP_NOTIFY_REPLACED :: u32 where "QB_MAP_NOTIFY_REPLACED \<equiv> 2"
abbreviation QB_MAP_NOTIFY_INSERTED :: u32 where "QB_MAP_NOTIFY_INSERTED \<equiv> 4"
abbreviation QB_MAP_NOTIFY_RECURSIVE :: u32 where "QB_MAP_NOTIFY_RECURSIVE \<equiv> 8"
abbreviation QB_MAP_NOTIFY_FREE :: u32 where "QB_MAP_NOTIFY_FREE \<equiv> 16"

record ('c, 'u) qb_map_notifier =
  callback :: 'c
  events :: u32
  user_data :: 'u

text \<open>One call of a notification function.\<close>

record ('c, 'u, 'v) notification =
  n_callback :: 'c
  n_event :: u32
  n_key :: "string option"
  n_old :: "'v option"
  n_new :: "'v option"
  n_user :: 'u

definition notification_of ::
  "('c, 'u) qb_map_notifier \<Rightarrow> u32 \<Rightarrow> string option \<Rightarrow> 'v option \<Rightarrow> 'v option \<Rightarrow> ('c, 'u, 'v) notification" where
  "notification_of tn event key old new =
     \<lparr>n_callback = callback tn, n_event = event, n_key = key, n_old = old, n_new = new, n_user = user_data tn\<rparr>"

text \<open>The calls for the notifiers of a node, and for those of the whole map.\<close>

definition notify_node ::
  "('c, 'u) qb_map_notifier list \<Rightarrow> u32 \<Rightarrow> string option \<Rightarrow> 'v option \<Rightarrow> 'v option \<Rightarrow> ('c, 'u, 'v) notification list" where
  "notify_node ns event key old new =
     concat (map (\<lambda>tn. if events tn AND event \<noteq> 0 then [notification_of tn event key old new] else []) ns)"

definition frees :: "u32 \<Rightarrow> bool" where
  "frees event \<longleftrightarrow> event AND QB_MAP_NOTIFY_DELETED \<noteq> 0 \<or> event AND QB_MAP_NOTIFY_REPLACED \<noteq> 0"

definition notify_map ::
  "('c, 'u) qb_map_notifier list \<Rightarrow> u32 \<Rightarrow> string option \<Rightarrow> 'v option \<Rightarrow> 'v option \<Rightarrow> ('c, 'u, 'v) notification list" where
  "notify_map ns event key old new =
     concat (map (\<lambda>tn.
       (if events tn AND event \<noteq> 0 then [notification_of tn event key old new] else []) @
       (if frees event \<and> events tn AND QB_MAP_NOTIFY_FREE \<noteq> 0
        then [notification_of tn QB_MAP_NOTIFY_FREE key old new] else [])) ns)"

text \<open>Adding to and deleting from the notifiers under one head.\<close>

definition notifier_clash :: "('c, 'u) qb_map_notifier \<Rightarrow> 'c \<Rightarrow> u32 \<Rightarrow> 'u \<Rightarrow> bool" where
  "notifier_clash f fn evs user \<longleftrightarrow>
     evs AND QB_MAP_NOTIFY_FREE \<noteq> 0 \<and> events f = evs \<or> events f = evs \<and> user_data f = user \<and> callback f = fn"

definition notifier_add ::
  "bool \<Rightarrow> int \<Rightarrow> ('c, 'u) qb_map_notifier list \<Rightarrow> 'c \<Rightarrow> u32 \<Rightarrow> 'u \<Rightarrow> int \<times> ('c, 'u) qb_map_notifier list" where
  "notifier_add add_to_tail malloc_errno ns fn evs user =
     (if list_ex (\<lambda>f. notifier_clash f fn evs user) ns then (- EEXIST, ns)
      else if malloc_errno \<noteq> 0 then (- malloc_errno, ns)
      else
        let f = \<lparr>callback = fn, events = evs, user_data = user\<rparr>
        in (0, if add_to_tail then ns @ [f] else f # ns))"

definition notifier_match :: "('c, 'u) qb_map_notifier \<Rightarrow> 'c \<Rightarrow> u32 \<Rightarrow> bool \<Rightarrow> 'u \<Rightarrow> bool" where
  "notifier_match f fn evs cmp_userdata user \<longleftrightarrow>
     events f = evs \<and> callback f = fn \<and> (cmp_userdata \<and> user_data f = user \<or> \<not> cmp_userdata)"

definition notifier_del ::
  "('c, 'u) qb_map_notifier list \<Rightarrow> 'c \<Rightarrow> u32 \<Rightarrow> bool \<Rightarrow> 'u \<Rightarrow> int \<times> ('c, 'u) qb_map_notifier list" where
  "notifier_del ns fn evs cmp_userdata user =
     (if list_ex (\<lambda>f. notifier_match f fn evs cmp_userdata user) ns
      then (0, filter (\<lambda>f. \<not> notifier_match f fn evs cmp_userdata user) ns)
      else (- ENOENT, ns))"

section \<open>The function table\<close>

text \<open>\<open>None\<close> as the result of a function is the use of freed memory, or a loop that does not end.\<close>

record ('e, 's, 'i, 'c, 'u, 'v) qb_map =
  mput :: "'e \<Rightarrow> 's \<Rightarrow> string \<Rightarrow> 'v option \<Rightarrow> (('c, 'u, 'v) notification list \<times> 's) option"
  mget :: "'s \<Rightarrow> string \<Rightarrow> 'v option option"
  mrm :: "'s \<Rightarrow> string \<Rightarrow> (bool \<times> ('c, 'u, 'v) notification list \<times> 's) option"
  mcount_get :: "'s \<Rightarrow> u64"
  miter_create :: "'s \<Rightarrow> string option \<Rightarrow> 'i option \<times> 's"
  miter_next :: "'i \<Rightarrow> 's \<Rightarrow> ((string \<times> 'v option) option \<times> ('c, 'u, 'v) notification list \<times> 'i \<times> 's) option"
  miter_free :: "'i \<Rightarrow> 's \<Rightarrow> (('c, 'u, 'v) notification list \<times> 's) option"
  mnotify_add :: "('s \<Rightarrow> string option \<Rightarrow> 'c \<Rightarrow> u32 \<Rightarrow> 'u \<Rightarrow> (int \<times> 's) option) option"
  mnotify_del :: "('s \<Rightarrow> string option \<Rightarrow> 'c \<Rightarrow> u32 \<Rightarrow> bool \<Rightarrow> 'u \<Rightarrow> (int \<times> 's) option) option"

definition qb_map_put where "qb_map_put m env s key value = mput m env s key value"
definition qb_map_get where "qb_map_get m s key = mget m s key"
definition qb_map_rm where "qb_map_rm m s key = mrm m s key"
definition qb_map_count_get where "qb_map_count_get m s = mcount_get m s"
definition qb_map_iter_create where "qb_map_iter_create m s = miter_create m s None"
definition qb_map_pref_iter_create where "qb_map_pref_iter_create m s prefix = miter_create m s (Some prefix)"
definition qb_map_iter_next where "qb_map_iter_next m i s = miter_next m i s"
definition qb_map_iter_free where "qb_map_iter_free m i s = miter_free m i s"

text \<open>
  The loop of \<^verbatim>\<open>qb_map_foreach\<close>. The client's function has its own state; its result says whether
  to stop. \<open>None\<close> is a loop that does not end or a use of freed memory.
\<close>

partial_function (option) foreach_loop ::
  "('e, 's, 'i, 'c, 'u, 'v) qb_map \<Rightarrow> (string \<Rightarrow> 'v option \<Rightarrow> 'a \<Rightarrow> bool \<times> 'a) \<Rightarrow> 'i \<Rightarrow> 's \<Rightarrow> 'a \<Rightarrow> ('a \<times> 'i \<times> 's) option" where
  "foreach_loop m func i s x =
     do { (r, ns, i, s) \<leftarrow> miter_next m i s;
          case r of
            None \<Rightarrow> Some (x, i, s)
          | Some (key, value) \<Rightarrow>
              let (stop, x) = func key value x
              in if stop then Some (x, i, s) else foreach_loop m func i s x }"

definition qb_map_foreach ::
  "('e, 's, 'i, 'c, 'u, 'v) qb_map \<Rightarrow> 's \<Rightarrow> (string \<Rightarrow> 'v option \<Rightarrow> 'a \<Rightarrow> bool \<times> 'a) \<Rightarrow> 'a \<Rightarrow> ('a \<times> 's) option" where
  "qb_map_foreach m s func x =
     (case qb_map_iter_create m s of
        (None, s) \<Rightarrow> None
      | (Some i, s) \<Rightarrow>
          do { (x, i, s) \<leftarrow> foreach_loop m func i s x;
               (ns, s) \<leftarrow> qb_map_iter_free m i s;
               Some (x, s) })"

definition qb_map_notify_add ::
  "('e, 's, 'i, 'c, 'u, 'v) qb_map \<Rightarrow> 's \<Rightarrow> string option \<Rightarrow> 'c \<Rightarrow> u32 \<Rightarrow> 'u \<Rightarrow> (int \<times> 's) option" where
  "qb_map_notify_add m s key fn evs user =
     (if key \<noteq> None \<and> evs AND QB_MAP_NOTIFY_FREE \<noteq> 0 then Some (- EINVAL, s)
      else case mnotify_add m of Some f \<Rightarrow> f s key fn evs user | None \<Rightarrow> Some (- ENOSYS, s))"

definition qb_map_notify_del ::
  "('e, 's, 'i, 'c, 'u, 'v) qb_map \<Rightarrow> 's \<Rightarrow> string option \<Rightarrow> 'c \<Rightarrow> u32 \<Rightarrow> 'u \<Rightarrow> (int \<times> 's) option" where
  "qb_map_notify_del m s key fn evs null =
     (case mnotify_del m of Some f \<Rightarrow> f s key fn evs False null | None \<Rightarrow> Some (- ENOSYS, s))"

definition qb_map_notify_del_2 ::
  "('e, 's, 'i, 'c, 'u, 'v) qb_map \<Rightarrow> 's \<Rightarrow> string option \<Rightarrow> 'c \<Rightarrow> u32 \<Rightarrow> 'u \<Rightarrow> (int \<times> 's) option" where
  "qb_map_notify_del_2 m s key fn evs user =
     (case mnotify_del m of Some f \<Rightarrow> f s key fn evs True user | None \<Rightarrow> Some (- ENOSYS, s))"

section \<open>Sequences of operations\<close>

datatype ('e, 'v) map_op = MPut 'e string 'v | MGet string | MRm string | MCount
datatype 'v map_out = OUnit | OValue "'v option" | OBool bool | OCount u64

fun map_step :: "('e, 's, 'i, 'c, 'u, 'v) qb_map \<Rightarrow> ('e, 'v) map_op \<Rightarrow> 's \<Rightarrow> ('v map_out \<times> 's) option" where
  "map_step m (MPut env k v) s = map_option (\<lambda>(ns, s'). (OUnit, s')) (qb_map_put m env s k (Some v))"
| "map_step m (MGet k) s = map_option (\<lambda>v. (OValue v, s)) (qb_map_get m s k)"
| "map_step m (MRm k) s = map_option (\<lambda>(b, ns, s'). (OBool b, s')) (qb_map_rm m s k)"
| "map_step m MCount s = Some (OCount (qb_map_count_get m s), s)"

text \<open>The same on a finite map.\<close>

fun spec_map_step :: "('e, 'v) map_op \<Rightarrow> (string \<rightharpoonup> 'v) \<Rightarrow> 'v map_out \<times> (string \<rightharpoonup> 'v)" where
  "spec_map_step (MPut env k v) f = (OUnit, f(k \<mapsto> v))"
| "spec_map_step (MGet k) f = (OValue (f k), f)"
| "spec_map_step (MRm k) f = (OBool (f k \<noteq> None), f(k := None))"
| "spec_map_step MCount f = (OCount (of_nat (card (dom f))), f)"

fun map_run :: "('e, 's, 'i, 'c, 'u, 'v) qb_map \<Rightarrow> ('e, 'v) map_op list \<Rightarrow> 's \<Rightarrow> ('v map_out list \<times> 's) option" where
  "map_run m [] s = Some ([], s)"
| "map_run m (op # ops) s =
     do { (r, s) \<leftarrow> map_step m op s; (rs, s) \<leftarrow> map_run m ops s; Some (r # rs, s) }"

fun spec_map_run :: "('e, 'v) map_op list \<Rightarrow> (string \<rightharpoonup> 'v) \<Rightarrow> 'v map_out list \<times> (string \<rightharpoonup> 'v)" where
  "spec_map_run [] f = ([], f)"
| "spec_map_run (op # ops) f =
     (let (r, f) = spec_map_step op f; (rs, f) = spec_map_run ops f in (r # rs, f))"

text \<open>
  What a sequence may ask for: every allocation gives unused memory, keys are acceptable and,
  with \<open>present\<close>, only keys that are there are removed.
\<close>

fun op_ok :: "('e \<Rightarrow> 's \<Rightarrow> bool) \<Rightarrow> (string \<Rightarrow> bool) \<Rightarrow> bool \<Rightarrow> ('e, 's, 'i, 'c, 'u, 'v) qb_map \<Rightarrow> ('e, 'v) map_op \<Rightarrow> 's \<Rightarrow> bool" where
  "op_ok env_ok key_ok present m (MPut env k v) s \<longleftrightarrow> env_ok env s \<and> key_ok k"
| "op_ok env_ok key_ok present m (MGet k) s \<longleftrightarrow> key_ok k"
| "op_ok env_ok key_ok present m (MRm k) s \<longleftrightarrow> key_ok k \<and> (present \<longrightarrow> qb_map_get m s k \<noteq> Some None)"
| "op_ok env_ok key_ok present m MCount s \<longleftrightarrow> True"

fun run_ok :: "('e \<Rightarrow> 's \<Rightarrow> bool) \<Rightarrow> (string \<Rightarrow> bool) \<Rightarrow> bool \<Rightarrow> ('e, 's, 'i, 'c, 'u, 'v) qb_map \<Rightarrow> ('e, 'v) map_op list \<Rightarrow> 's \<Rightarrow> bool" where
  "run_ok env_ok key_ok present m [] s \<longleftrightarrow> True"
| "run_ok env_ok key_ok present m (op # ops) s \<longleftrightarrow>
     op_ok env_ok key_ok present m op s \<and>
     (case map_step m op s of None \<Rightarrow> True | Some (r, s') \<Rightarrow> run_ok env_ok key_ok present m ops s')"

text \<open>A run is right when every step is.\<close>

lemma map_run_steps:
  assumes step: "\<And>op s. good s \<Longrightarrow> op_ok env_ok key_ok present m op s \<Longrightarrow>
      \<exists>s'. map_step m op s = Some (fst (spec_map_step op (contents s)), s') \<and> good s' \<and>
        contents s' = snd (spec_map_step op (contents s))"
    and "good s" "run_ok env_ok key_ok present m ops s"
  shows "\<exists>s'. map_run m ops s = Some (fst (spec_map_run ops (contents s)), s') \<and> good s' \<and>
           contents s' = snd (spec_map_run ops (contents s))"
  using assms(2,3)
proof (induction ops arbitrary: s)
  case (Cons op ops)
  then obtain s1 where s1: "map_step m op s = Some (fst (spec_map_step op (contents s)), s1)" "good s1"
      "contents s1 = snd (spec_map_step op (contents s))"
    using step[of s op] by auto
  with Cons obtain s2 where "map_run m ops s1 = Some (fst (spec_map_run ops (contents s1)), s2)" "good s2"
      "contents s2 = snd (spec_map_run ops (contents s1))" by fastforce
  with s1 show ?case by (simp add: split_beta)
qed simp

text \<open>
  The contract of a map. \<open>present\<close> restricts the removals: with it, nothing is promised for a
  removal of a key that is not there.
\<close>

locale map_store =
  fixes m :: "('e, 's, 'i, 'c, 'u, 'v) qb_map"
    and inv :: "'s \<Rightarrow> bool"
    and env_ok :: "'e \<Rightarrow> 's \<Rightarrow> bool"
    and key_ok :: "string \<Rightarrow> bool"
    and contents :: "'s \<Rightarrow> (string \<rightharpoonup> 'v)"
  assumes get_ok: "inv s \<Longrightarrow> key_ok k \<Longrightarrow> mget m s k = Some (contents s k)"
    and count_ok: "inv s \<Longrightarrow> mcount_get m s = of_nat (card (dom (contents s)))"
    and put_ok: "inv s \<Longrightarrow> env_ok env s \<Longrightarrow> key_ok k \<Longrightarrow>
        \<exists>ns s'. mput m env s k (Some v) = Some (ns, s') \<and> inv s' \<and> contents s' = (contents s)(k \<mapsto> v)"
    and rm_ok: "inv s \<Longrightarrow> key_ok k \<Longrightarrow> contents s k \<noteq> None \<Longrightarrow>
        \<exists>ns s'. mrm m s k = Some (True, ns, s') \<and> inv s' \<and> contents s' = (contents s)(k := None)"
begin

lemma step_present:
  assumes "inv s" "op_ok env_ok key_ok True m op s"
  shows "\<exists>s'. map_step m op s = Some (fst (spec_map_step op (contents s)), s') \<and> inv s' \<and>
           contents s' = snd (spec_map_step op (contents s))"
proof (cases op)
  case (MPut env k v)
  then show ?thesis using assms put_ok[of s env k v] by (auto simp: qb_map_put_def)
next
  case (MGet k)
  then show ?thesis using assms get_ok[of s k] by (simp add: qb_map_get_def)
next
  case (MRm k)
  then show ?thesis using assms rm_ok[of s k] get_ok[of s k] by (auto simp: qb_map_rm_def qb_map_get_def)
next
  case MCount
  then show ?thesis using assms count_ok[of s] by (simp add: qb_map_count_get_def)
qed

lemma run_present:
  assumes "inv s" "run_ok env_ok key_ok True m ops s"
  shows "\<exists>s'. map_run m ops s = Some (fst (spec_map_run ops (contents s)), s') \<and> inv s' \<and>
           contents s' = snd (spec_map_run ops (contents s))"
  by (rule map_run_steps[OF step_present assms])

end

text \<open>A map that also answers for keys that are not there.\<close>

locale strict_map_store = map_store m inv env_ok key_ok contents
  for m :: "('e, 's, 'i, 'c, 'u, 'v) qb_map" and inv env_ok key_ok contents +
  assumes rm_absent: "inv s \<Longrightarrow> key_ok k \<Longrightarrow> contents s k = None \<Longrightarrow> mrm m s k = Some (False, [], s)"
begin

lemma step_total:
  assumes "inv s" "op_ok env_ok key_ok False m op s"
  shows "\<exists>s'. map_step m op s = Some (fst (spec_map_step op (contents s)), s') \<and> inv s' \<and>
           contents s' = snd (spec_map_step op (contents s))"
proof (cases "\<exists>k. op = MRm k \<and> contents s k = None")
  case True
  then obtain k where k: "op = MRm k" "contents s k = None" by blast
  then have "(contents s)(k := None) = contents s" by (simp add: fun_upd_idem)
  then show ?thesis using k assms rm_absent[of s k] by (simp add: qb_map_rm_def)
next
  case False
  then have "op_ok env_ok key_ok True m op s" using assms get_ok by (cases op) (auto simp: qb_map_get_def)
  then show ?thesis using assms(1) step_present by blast
qed

lemma run_total:
  assumes "inv s" "run_ok env_ok key_ok False m ops s"
  shows "\<exists>s'. map_run m ops s = Some (fst (spec_map_run ops (contents s)), s') \<and> inv s' \<and>
           contents s' = snd (spec_map_run ops (contents s))"
  by (rule map_run_steps[OF step_total assms])

end

end
