(* ===== verification/Cstring.thy ===== *)
theory Cstring
  imports Prelude "HOL-Library.List_Lexorder" "HOL-Library.Option_ord"
begin

text \<open>
  C strings: a string is the list of its characters, without the terminating zero. The
  comparison \<^verbatim>\<open>strcmp\<close> of the C library, of which only the sign is specified, and the linear
  order that it decides.
\<close>

abbreviation char_code :: "char \<Rightarrow> nat" where "char_code c \<equiv> of_char c"

fun strcmp :: "string \<Rightarrow> string \<Rightarrow> int" where
  "strcmp [] [] = 0"
| "strcmp [] (b # bs) = -1"
| "strcmp (a # as) [] = 1"
| "strcmp (a # as) (b # bs) =
     (if char_code a < char_code b then -1 else if char_code b < char_code a then 1 else strcmp as bs)"

text \<open>The place of a string in the order.\<close>

definition rank :: "string \<Rightarrow> nat list" where
  "rank s = map char_code s"

lemma char_code_eq [simp]: "char_code a = char_code b \<longleftrightarrow> a = b"
  using inj_of_char[THEN injD, of a b] by auto

lemma rank_eq_iff [simp]: "rank a = rank b \<longleftrightarrow> a = b"
  unfolding rank_def by (intro inj_map_eq_map injI) simp

lemma strcmp_less: "strcmp a b < 0 \<longleftrightarrow> rank a < rank b"
  by (induction a b rule: strcmp.induct) (auto simp: rank_def)

lemma strcmp_zero: "strcmp a b = 0 \<longleftrightarrow> a = b"
proof (induction a b rule: strcmp.induct)
  case (4 a as b bs)
  then show ?case using char_code_eq[of a b] by (auto simp del: char_code_eq)
qed auto

lemma strcmp_greater: "strcmp a b > 0 \<longleftrightarrow> rank b < rank a"
proof -
  have "strcmp a b > 0 \<longleftrightarrow> \<not> strcmp a b < 0 \<and> strcmp a b \<noteq> 0" by linarith
  also have "\<dots> \<longleftrightarrow> rank b < rank a" using rank_eq_iff[of a b] unfolding strcmp_less strcmp_zero by (metis less_linear less_asym)
  finally show ?thesis .
qed

end
