(* ===== verification/Skip_Shape.thy ===== *)
theory Skip_Shape
  imports Main
begin

text \<open>
  The shape of a skip list, apart from its representation in memory: \<open>nx q l\<close> is the forward
  pointer of node \<open>q\<close> at level \<open>l\<close>, \<open>pos\<close> the place of a node in the order, \<open>lev\<close> its level,
  \<open>h\<close> the header. A search only uses the pointer of a node at level \<open>l\<close> when it came to the node
  at that level or above. The invariant is stated for those pointers only: the list removes nodes
  in a way that can cut off the higher levels behind a node and leave pointers there that lead
  nowhere, and a search never follows them.
\<close>

inductive reach :: "('n \<Rightarrow> nat \<Rightarrow> 'n option) \<Rightarrow> 'n \<Rightarrow> nat \<Rightarrow> 'n \<Rightarrow> bool" for nx h where
  reach_header: "reach nx h l h"
| reach_forward: "reach nx h l q \<Longrightarrow> nx q l = Some r \<Longrightarrow> reach nx h l r"
| reach_down: "reach nx h (Suc l) q \<Longrightarrow> reach nx h l q"

lemma reach_down_le: "i \<le> j \<Longrightarrow> reach nx h j q \<Longrightarrow> reach nx h i q"
  by (induction rule: inc_induct) (auto intro: reach_down)

text \<open>A forward pointer in use goes to the next node that is in use at that level.\<close>

definition skips :: "'n set \<Rightarrow> ('n \<Rightarrow> nat \<Rightarrow> 'n option) \<Rightarrow> ('n \<Rightarrow> 'p::linorder) \<Rightarrow> ('n \<Rightarrow> nat) \<Rightarrow> 'n \<Rightarrow> nat \<Rightarrow> 'n \<Rightarrow> 'n \<Rightarrow> bool" where
  "skips N nx pos lev h l q r \<longleftrightarrow> r \<in> N \<and> l \<le> lev r \<and> pos q < pos r \<and>
     (\<forall>x. reach nx h l x \<longrightarrow> \<not> (pos q < pos x \<and> pos x < pos r))"

definition shape :: "'n set \<Rightarrow> ('n \<Rightarrow> nat \<Rightarrow> 'n option) \<Rightarrow> ('n \<Rightarrow> 'p::linorder) \<Rightarrow> ('n \<Rightarrow> nat) \<Rightarrow> 'n \<Rightarrow> bool" where
  "shape N nx pos lev h \<longleftrightarrow>
     finite N \<and> h \<in> N \<and> inj_on pos N \<and> (\<forall>x\<in>N. x \<noteq> h \<longrightarrow> pos h < pos x) \<and>
     (\<forall>l q r. reach nx h l q \<longrightarrow> nx q l = Some r \<longrightarrow> skips N nx pos lev h l q r) \<and>
     (\<forall>x\<in>N. x \<noteq> h \<longrightarrow> (\<exists>q\<in>N. nx q 0 = Some x \<and> pos q < pos x))"

lemma shape_skips: "shape N nx pos lev h \<Longrightarrow> reach nx h l q \<Longrightarrow> nx q l = Some r \<Longrightarrow> skips N nx pos lev h l q r"
  unfolding shape_def by blast

lemma shape_header: "shape N nx pos lev h \<Longrightarrow> x \<in> N \<Longrightarrow> pos h \<le> pos x"
  unfolding shape_def by (metis less_imp_le order_refl)

lemma shape_inj: "shape N nx pos lev h \<Longrightarrow> x \<in> N \<Longrightarrow> y \<in> N \<Longrightarrow> pos x = pos y \<Longrightarrow> x = y"
  unfolding shape_def by (blast dest: inj_onD)

lemma reach_in:
  assumes "shape N nx pos lev h" "reach nx h l x"
  shows "x \<in> N"
  using assms(2)
proof induction
  case (reach_forward l q r)
  then show ?case using shape_skips[OF assms(1)] by (simp add: skips_def)
qed (use assms(1) in \<open>auto simp: shape_def\<close>)

lemma shape_cong:
  assumes s: "shape N nx pos lev h" and eq: "\<And>x. x \<in> N \<Longrightarrow> pos' x = pos x \<and> lev' x = lev x"
  shows "shape N nx pos' lev' h"
proof -
  have "skips N nx pos' lev' h l q r" if q: "reach nx h l q" and r: "nx q l = Some r" for l q r
  proof -
    have sk: "skips N nx pos lev h l q r" by (rule shape_skips[OF s q r])
    then have "pos' q = pos q" "pos' r = pos r" "lev' r = lev r" using eq reach_in[OF s q] by (simp_all add: skips_def)
    moreover have "pos' x = pos x" if "reach nx h l x" for x using eq reach_in[OF s that] by simp
    ultimately show ?thesis using sk unfolding skips_def by auto
  qed
  moreover have "inj_on pos' N" using s eq inj_on_cong[of N pos' pos] by (simp add: shape_def)
  moreover have "h \<in> N" using s by (simp add: shape_def)
  ultimately show ?thesis using s eq unfolding shape_def by metis
qed

lemma reach_level:
  assumes "shape N nx pos lev h" "reach nx h l x"
  shows "x = h \<or> l \<le> lev x"
  using assms(2)
proof induction
  case (reach_forward l q r)
  then show ?case using shape_skips[OF assms(1)] by (simp add: skips_def)
qed auto

text \<open>At the lowest level every node is reached.\<close>

lemma nodes_reached:
  assumes s: "shape N nx pos lev h" and "x \<in> N"
  shows "reach nx h 0 x"
  using assms(2)
proof (induction "card {y \<in> N. pos y < pos x}" arbitrary: x rule: less_induct)
  case less
  show ?case
  proof (cases "x = h")
    case False
    then obtain q where q: "q \<in> N" "nx q 0 = Some x" "pos q < pos x" using s less.prems unfolding shape_def by blast
    have "finite N" using s by (simp add: shape_def)
    then have "card {y \<in> N. pos y < pos q} < card {y \<in> N. pos y < pos x}"
      using q by (intro psubset_card_mono) auto
    then show ?thesis using less.hyps[OF _ q(1)] q(2) by (blast intro: reach_forward)
  qed (simp add: reach_header)
qed

section \<open>Searching\<close>

text \<open>The last node in use at a level before a place.\<close>

definition last_below :: "('n \<Rightarrow> nat \<Rightarrow> 'n option) \<Rightarrow> ('n \<Rightarrow> 'p::linorder) \<Rightarrow> 'n \<Rightarrow> nat \<Rightarrow> 'p \<Rightarrow> 'n \<Rightarrow> bool" where
  "last_below nx pos h l k q \<longleftrightarrow> reach nx h l q \<and> pos q < k \<and> (\<forall>x. reach nx h l x \<longrightarrow> pos x < k \<longrightarrow> pos x \<le> pos q)"

text \<open>Where a search stands at level \<open>l\<close>: not behind the last node of the level above.\<close>

definition searching :: "('n \<Rightarrow> nat \<Rightarrow> 'n option) \<Rightarrow> ('n \<Rightarrow> 'p::linorder) \<Rightarrow> 'n \<Rightarrow> nat \<Rightarrow> 'p \<Rightarrow> 'n \<Rightarrow> bool" where
  "searching nx pos h l k q \<longleftrightarrow> reach nx h l q \<and> pos q < k \<and> (\<forall>x. reach nx h (Suc l) x \<longrightarrow> pos x < k \<longrightarrow> pos x \<le> pos q)"

lemma searching_forward:
  assumes "shape N nx pos lev h" "searching nx pos h l k q" "nx q l = Some r" "pos r < k"
  shows "searching nx pos h l k r" "pos q < pos r" "r \<in> N"
proof -
  have "reach nx h l r" "skips N nx pos lev h l q r"
    using assms shape_skips[OF assms(1)] by (auto simp: searching_def intro: reach_forward)
  then show "searching nx pos h l k r" "pos q < pos r" "r \<in> N"
    using assms(2,4) unfolding searching_def skips_def by (auto intro: order_trans less_imp_le)
qed

lemma searching_last:
  assumes s: "shape N nx pos lev h" and q: "searching nx pos h l k q"
    and stop: "\<And>r. nx q l = Some r \<Longrightarrow> k \<le> pos r"
  shows "last_below nx pos h l k q"
proof -
  have "pos x \<le> pos q" if "reach nx h i x" "i = l" "pos x < k" for i x
    using that
  proof (induction)
    case (reach_header i)
    then show ?case using q reach_in[OF s] shape_header[OF s] unfolding searching_def by blast
  next
    case (reach_forward i p r)
    have sk: "skips N nx pos lev h i p r" by (rule shape_skips[OF s reach_forward.hyps])
    then have p: "pos p < pos r" by (simp add: skips_def)
    then have "pos p \<le> pos q" using reach_forward by auto
    moreover have "pos p \<noteq> pos q"
    proof
      assume "pos p = pos q"
      then have "p = q" using shape_inj[OF s] reach_in[OF s] reach_forward.hyps(1) q unfolding searching_def by blast
      then show False using stop reach_forward by fastforce
    qed
    ultimately have "pos p < pos q" by simp
    then show ?case using sk q reach_forward.prems unfolding skips_def searching_def by (metis not_le_imp_less)
  next
    case (reach_down i x)
    then show ?case using q unfolding searching_def by blast
  qed
  then show ?thesis using q unfolding last_below_def searching_def by blast
qed

lemma searching_descend:
  "last_below nx pos h (Suc l) k q \<Longrightarrow> searching nx pos h l k q"
  unfolding last_below_def searching_def by (blast intro: reach_down)

text \<open>
  Where a search stands with \<open>m\<close> levels still to go, and what it shows: a property that holds at the
  end, and that a step keeps, holds at the start.
\<close>

fun search_at :: "('n \<Rightarrow> nat \<Rightarrow> 'n option) \<Rightarrow> ('n \<Rightarrow> 'p::linorder) \<Rightarrow> 'n \<Rightarrow> 'p \<Rightarrow> nat \<Rightarrow> 'n \<Rightarrow> bool" where
  "search_at nx pos h k 0 q \<longleftrightarrow> last_below nx pos h 0 k q"
| "search_at nx pos h k (Suc l) q \<longleftrightarrow> searching nx pos h l k q"

lemma last_below_search_at: "last_below nx pos h l k q \<Longrightarrow> search_at nx pos h k l q"
  by (cases l) (auto intro: searching_descend)

lemma search_induct [consumes 2, case_names bottom forward down]:
  assumes s: "shape N nx pos lev h" and at: "search_at nx pos h k m q"
    and bottom: "\<And>q. last_below nx pos h 0 k q \<Longrightarrow> P 0 q"
    and forward: "\<And>l q r. reach nx h l q \<Longrightarrow> nx q l = Some r \<Longrightarrow> r \<in> N \<Longrightarrow> pos r < k \<Longrightarrow> P (Suc l) r \<Longrightarrow> P (Suc l) q"
    and down: "\<And>l q. last_below nx pos h l k q \<Longrightarrow> (\<And>r. nx q l = Some r \<Longrightarrow> r \<in> N \<and> k \<le> pos r) \<Longrightarrow> P l q \<Longrightarrow> P (Suc l) q"
  shows "P m q"
  using at
proof (induction m arbitrary: q)
  case 0
  then show ?case using bottom by simp
next
  case (Suc l)
  have fin: "finite N" using s by (simp add: shape_def)
  show ?case using Suc.prems
  proof (induction "card {y \<in> N. pos q < pos y}" arbitrary: q rule: less_induct)
    case less
    then have q: "searching nx pos h l k q" "reach nx h l q" by (simp_all add: searching_def)
    show ?case
    proof (cases "\<exists>r. nx q l = Some r \<and> pos r < k")
      case True
      then obtain r where r: "nx q l = Some r" "pos r < k" by blast
      note f = searching_forward[OF s q(1) r]
      have "card {y \<in> N. pos r < pos y} < card {y \<in> N. pos q < pos y}"
        using fin f by (intro psubset_card_mono) auto
      then have "P (Suc l) r" using less.hyps f(1) by simp
      then show ?thesis using forward[OF q(2) r(1) f(3) r(2)] by blast
    next
      case False
      then have stop: "\<And>r. nx q l = Some r \<Longrightarrow> k \<le> pos r" by (meson not_le)
      have lb: "last_below nx pos h l k q" by (rule searching_last[OF s q(1) stop])
      have "r \<in> N" if "nx q l = Some r" for r using shape_skips[OF s q(2) that] by (simp add: skips_def)
      then show ?thesis using down[OF lb _ Suc.IH[OF last_below_search_at[OF lb]]] stop by blast
    qed
  qed
qed

lemma reach_above_top:
  assumes "reach nx h l x" "\<And>j. l \<le> j \<Longrightarrow> nx h j = None"
  shows "x = h"
  using assms by (induction) (force simp: le_Suc_eq)+

lemma last_below_above_top:
  assumes "pos h < k" "\<And>j. l \<le> j \<Longrightarrow> nx h j = None"
  shows "last_below nx pos h l k h"
  using assms reach_above_top[of nx h l] unfolding last_below_def by (blast intro: reach_header)

lemma search_at_start:
  assumes "pos h < k" "\<And>j. m \<le> j \<Longrightarrow> nx h j = None"
  shows "search_at nx pos h k m h"
  using last_below_above_top[where pos = pos and nx = nx and h = h and k = k and l = m] assms by (blast intro: last_below_search_at)

text \<open>The node before a node, at every level in use.\<close>

lemma last_below_unique:
  assumes "shape N nx pos lev h" "last_below nx pos h l k p" "last_below nx pos h l k q"
  shows "p = q"
proof -
  have "pos p = pos q" using assms(2,3) unfolding last_below_def by (metis order_antisym)
  then show ?thesis using assms shape_inj[OF assms(1)] reach_in[OF assms(1)] unfolding last_below_def by blast
qed

lemma before_last_below:
  assumes s: "shape N nx pos lev h" and "reach nx h l q" "nx q l = Some r"
  shows "last_below nx pos h l (pos r) q"
proof -
  have sk: "skips N nx pos lev h l q r" by (rule shape_skips[OF assms])
  then have "pos x \<le> pos q" if "reach nx h l x" "pos x < pos r" for x
    using that unfolding skips_def by (metis not_le_imp_less)
  then show ?thesis using sk assms(2) unfolding last_below_def skips_def by blast
qed

lemma forward_from_last:
  assumes s: "shape N nx pos lev h" and "last_below nx pos h l k q" "nx q l = Some r"
  shows "k \<le> pos r"
proof (rule ccontr)
  assume "\<not> k \<le> pos r"
  moreover have "reach nx h l r" using assms unfolding last_below_def by (blast intro: reach_forward)
  ultimately have "pos r \<le> pos q" using assms(2) unfolding last_below_def by (meson not_le)
  then show False using shape_skips[OF s _ assms(3)] assms(2) unfolding last_below_def skips_def by (meson leD)
qed

text \<open>At the lowest level the node after the last one before a place is the node of that place, if there is one.\<close>

lemma next_at_bottom:
  assumes s: "shape N nx pos lev h" and q: "last_below nx pos h 0 k q" and "x \<in> N" "pos x = k"
  shows "nx q 0 = Some x"
proof -
  have "x \<noteq> h" using q assms(3,4) shape_header[OF s] reach_in[OF s] unfolding last_below_def by (metis leD)
  then obtain p where p: "p \<in> N" "nx p 0 = Some x" using s assms(3) unfolding shape_def by blast
  from before_last_below[OF s nodes_reached[OF s p(1)] p(2)] have "p = q"
    using last_below_unique[OF s _ q] assms(4) by blast
  then show ?thesis using p(2) by simp
qed

lemma no_node_at:
  assumes s: "shape N nx pos lev h" and q: "last_below nx pos h 0 k q" and "\<And>x. nx q 0 = Some x \<Longrightarrow> pos x \<noteq> k" and "x \<in> N"
  shows "pos x \<noteq> k"
  using next_at_bottom[OF s q \<open>x \<in> N\<close>] assms(3) by blast

section \<open>Changing the list\<close>

text \<open>A new node, dropped in behind the last node before its place at each of its levels.\<close>

definition dropped_in :: "('n \<Rightarrow> nat \<Rightarrow> 'n option) \<Rightarrow> (nat \<Rightarrow> 'n) \<Rightarrow> 'n \<Rightarrow> nat \<Rightarrow> 'n \<Rightarrow> nat \<Rightarrow> 'n option" where
  "dropped_in nx upd n m q l =
     (if l \<le> m then (if q = n then nx (upd l) l else if q = upd l then Some n else nx q l)
      else if q = n then None else nx q l)"

lemma shape_insert:
  assumes s: "shape N nx pos lev h" and n: "n \<notin> N" and k: "k \<notin> pos ` N" "pos h < k"
    and upd: "\<And>l. l \<le> m \<Longrightarrow> last_below nx pos h l k (upd l)"
  shows "shape (insert n N) (dropped_in nx upd n m) (pos(n := k)) (lev(n := m)) h"
    and "\<And>l x. reach (dropped_in nx upd n m) h l x \<Longrightarrow> reach nx h l x \<or> x = n \<and> l \<le> m"
proof -
  let ?nx = "dropped_in nx upd n m" and ?pos = "pos(n := k)" and ?lev = "lev(n := m)"
  have old: "x \<noteq> n" if "reach nx h l x" for l x using reach_in[OF s that] n by blast
  have U: "reach nx h l (upd l)" "upd l \<noteq> n" "pos (upd l) < k" if "l \<le> m" for l
    using upd[OF that] old unfolding last_below_def by blast+
  have sub: "reach nx h l x \<or> x = n \<and> l \<le> m" if "reach ?nx h l x" for l x
    using that
  proof induction
    case (reach_forward l q r)
    then show ?case using U(1,2)
      by (auto simp: dropped_in_def split: if_splits intro: reach.reach_forward dest: old)
  qed (auto intro: reach.intros)
  then show "\<And>l x. reach ?nx h l x \<Longrightarrow> reach nx h l x \<or> x = n \<and> l \<le> m" .
  have fwdU: "k < pos r" if "l \<le> m" "nx (upd l) l = Some r" for l r
  proof -
    have "r \<in> N" using shape_skips[OF s U(1) that(2)] that(1) by (simp add: skips_def)
    then show ?thesis using forward_from_last[OF s upd[OF that(1)] that(2)] k(1) by (metis image_eqI order_le_imp_less_or_eq)
  qed
  have "skips (insert n N) ?nx ?pos ?lev h l q r" if q: "reach ?nx h l q" and r: "?nx q l = Some r" for l q r
  proof -
    consider (new) "q = n" "l \<le> m" "nx (upd l) l = Some r" | (upd) "q = upd l" "l \<le> m" "r = n"
      | (other) "q \<noteq> n" "nx q l = Some r" "l \<le> m \<longrightarrow> q \<noteq> upd l"
      using r by (cases "q = n"; cases "l \<le> m"; cases "q = upd l") (simp_all add: dropped_in_def)
    then show ?thesis
    proof cases
      case new
      have sk: "skips N nx pos lev h l (upd l) r" by (rule shape_skips[OF s U(1) new(3)]) (rule new(2))
      then have "\<not> (k < pos x \<and> pos x < pos r)" if "reach nx h l x" for x
        using that U(3)[OF new(2)] unfolding skips_def by (meson less_trans)
      moreover have "r \<in> N" "l \<le> lev r" "r \<noteq> n" using sk n by (auto simp: skips_def)
      ultimately show ?thesis using fwdU[OF new(2,3)] new unfolding skips_def by (auto dest: sub)
    next
      case upd
      have "\<not> (pos q < pos x \<and> pos x < k)" if "reach nx h l x" for x
        using that assms(5)[OF upd(2)] upd(1) unfolding last_below_def by (meson leD)
      then show ?thesis using upd(2,3) U[OF upd(2)] unfolding skips_def by (auto simp: upd(1) dest: sub)
    next
      case other
      have rq: "reach nx h l q" using sub[OF q] other(1) by blast
      have sk: "skips N nx pos lev h l q r" by (rule shape_skips[OF s rq other(2)])
      have "\<not> (pos q < k \<and> k < pos r)" if "l \<le> m"
      proof
        assume a: "pos q < k \<and> k < pos r"
        then have "pos q \<le> pos (upd l)" using assms(5)[OF that] rq unfolding last_below_def by blast
        moreover have "pos q \<noteq> pos (upd l)"
          using shape_inj[OF s reach_in[OF s rq] reach_in[OF s U(1)[OF that]]] other(3) that by blast
        ultimately have "pos q < pos (upd l)" by simp
        moreover have "pos (upd l) < pos r" using a U(3)[OF that] by (blast intro: less_trans)
        ultimately show False using sk U(1)[OF that] unfolding skips_def by blast
      qed
      moreover have "r \<noteq> n" using sk n by (auto simp: skips_def)
      moreover have "l \<le> m" if "reach ?nx h l n" using sub[OF that] old by blast
      ultimately show ?thesis using sk other(1) unfolding skips_def by (auto dest: sub)
    qed
  qed
  moreover have "inj_on ?pos (insert n N)" using s n k(1) unfolding shape_def by (auto simp: inj_on_def)
  moreover have "\<exists>q\<in>insert n N. ?nx q 0 = Some x \<and> ?pos q < ?pos x" if x: "x \<in> insert n N" "x \<noteq> h" for x
  proof (cases "x = n")
    case True
    then show ?thesis using U[of 0] reach_in[OF s U(1)[of 0]] by (intro bexI[of _ "upd 0"]) (auto simp: dropped_in_def)
  next
    case False
    then obtain q where q: "q \<in> N" "nx q 0 = Some x" "pos q < pos x" using x s unfolding shape_def by blast
    then show ?thesis
      using False n fwdU[of 0 x] by (cases "q = upd 0") (auto simp: dropped_in_def intro!: bexI[of _ q])
  qed
  ultimately show "shape (insert n N) ?nx ?pos ?lev h"
    using s n k(2) unfolding shape_def by (auto intro!: less_imp_le)
qed

text \<open>
  A node is taken out when every pointer in use that led to it now leads where its own pointer led,
  or nowhere; other pointers stay or now lead nowhere, and at the lowest level nothing is cut off.
\<close>

definition taken_out :: "('n \<Rightarrow> nat \<Rightarrow> 'n option) \<Rightarrow> 'n \<Rightarrow> 'n \<Rightarrow> ('n \<Rightarrow> nat \<Rightarrow> 'n option) \<Rightarrow> bool" where
  "taken_out nx h f nx' \<longleftrightarrow>
     (\<forall>l q. reach nx h l q \<longrightarrow> q \<noteq> f \<longrightarrow>
        nx' q l = (if nx q l = Some f then nx f l else nx q l) \<or> 0 < l \<and> nx' q l = None)"

lemma shape_remove:
  assumes s: "shape N nx pos lev h" and f: "f \<in> N" "f \<noteq> h" and out: "taken_out nx h f nx'"
  shows "shape (N - {f}) nx' pos lev h"
    and "\<And>l x. reach nx' h l x \<Longrightarrow> reach nx h l x \<and> x \<noteq> f"
proof -
  have fwd: "nx q l = Some r \<and> r \<noteq> f \<or> nx q l = Some f \<and> nx f l = Some r"
    if "reach nx h l q" "q \<noteq> f" "nx' q l = Some r" for l q r
  proof -
    have "nx' q l = (if nx q l = Some f then nx f l else nx q l) \<or> 0 < l \<and> nx' q l = None"
      using out that(1,2) unfolding taken_out_def by blast
    then show ?thesis using that(3) by (auto split: if_splits)
  qed
  have f_next: "r \<noteq> f" if "reach nx h l f" "nx f l = Some r" for l r
    using shape_skips[OF s that] by (auto simp: skips_def)
  have sub: "reach nx h l x \<and> x \<noteq> f" if "reach nx' h l x" for l x
    using that
  proof induction
    case (reach_forward l q r)
    from fwd[of l q r] reach_forward show ?case by (meson f_next reach.reach_forward)
  qed (use f(2) in \<open>auto intro: reach.intros\<close>)
  then show "\<And>l x. reach nx' h l x \<Longrightarrow> reach nx h l x \<and> x \<noteq> f" by blast
  have "skips (N - {f}) nx' pos lev h l q r" if q': "reach nx' h l q" and r: "nx' q l = Some r" for l q r
  proof -
    have q: "reach nx h l q" "q \<noteq> f" using sub[OF q'] by blast+
    from fwd[OF q r] show ?thesis
    proof
      assume "nx q l = Some r \<and> r \<noteq> f"
      then show ?thesis using shape_skips[OF s q(1)] sub unfolding skips_def by auto
    next
      assume a: "nx q l = Some f \<and> nx f l = Some r"
      then have rf: "reach nx h l f" using q by (blast intro: reach_forward)
      have sk: "skips N nx pos lev h l q f" "skips N nx pos lev h l f r" using shape_skips[OF s] a q rf by blast+
      have "\<not> (pos q < pos x \<and> pos x < pos r)" if "reach nx' h l x" for x
      proof -
        have "pos x \<noteq> pos f" using sub[OF that] shape_inj[OF s] f(1) reach_in[OF s] by blast
        then show ?thesis using sk sub[OF that] unfolding skips_def by (meson linorder_neqE)
      qed
      then show ?thesis using sk unfolding skips_def by auto
    qed
  qed
  moreover have "\<exists>q\<in>N - {f}. nx' q 0 = Some x \<and> pos q < pos x" if x: "x \<in> N - {f}" "x \<noteq> h" for x
  proof -
    have bot: "nx' q 0 = (if nx q 0 = Some f then nx f 0 else nx q 0)" if "q \<in> N" "q \<noteq> f" for q
      using out nodes_reached[OF s that(1)] that(2) unfolding taken_out_def by blast
    obtain q where q: "q \<in> N" "nx q 0 = Some x" "pos q < pos x" using x s unfolding shape_def by blast
    show ?thesis
    proof (cases "q = f")
      case True
      obtain p where p: "p \<in> N" "nx p 0 = Some f" "pos p < pos f" using f s unfolding shape_def by blast
      then show ?thesis using bot[of p] q True by (intro bexI[of _ p]) auto
    next
      case False
      then show ?thesis using bot[of q] q x by (intro bexI[of _ q]) auto
    qed
  qed
  ultimately show "shape (N - {f}) nx' pos lev h"
    using s f unfolding shape_def by (auto intro: inj_on_subset)
qed

section \<open>The nodes in order\<close>

fun chain :: "('n \<Rightarrow> 'n option) \<Rightarrow> 'n \<Rightarrow> 'n list \<Rightarrow> bool" where
  "chain f q [] \<longleftrightarrow> f q = None"
| "chain f q (n # ns) \<longleftrightarrow> f q = Some n \<and> chain f n ns"

lemma shape_chain:
  assumes s: "shape N nx pos lev h" and "q \<in> N"
  shows "\<exists>ns. chain (\<lambda>q. nx q 0) q ns \<and> set ns = {x \<in> N. pos q < pos x} \<and> sorted_wrt (\<lambda>a b. pos a < pos b) ns"
  using assms(2)
proof (induction "card {y \<in> N. pos q < pos y}" arbitrary: q rule: less_induct)
  case less
  let ?A = "{x \<in> N. pos q < pos x}"
  have q: "reach nx h 0 q" by (rule nodes_reached[OF s less.prems])
  have fin: "finite N" using s by (simp add: shape_def)
  show ?case
  proof (cases "?A = {}")
    case True
    then have "nx q 0 \<noteq> Some r" for r using shape_skips[OF s q, of r] by (auto simp: skips_def)
    then show ?thesis using True by (intro exI[of _ "[]"]) (auto simp: not_None_eq)
  next
    case False
    then obtain x where x: "x \<in> ?A" "\<And>y. y \<in> ?A \<Longrightarrow> pos x \<le> pos y"
      using ex_min_if_finite[of "pos ` ?A"] fin by fastforce
    have "last_below nx pos h 0 (pos x) q"
      using q x reach_in[OF s] unfolding last_below_def by (fastforce simp: not_le[symmetric])
    then have nx: "nx q 0 = Some x" using next_at_bottom[OF s] x(1) by simp
    have A: "?A = insert x {y \<in> N. pos x < pos y}"
    proof
      show "?A \<subseteq> insert x {y \<in> N. pos x < pos y}" using x shape_inj[OF s] by (force simp: order_le_less)
    qed (use x(1) in auto)
    have "card {y \<in> N. pos x < pos y} < card ?A" unfolding A using fin by (subst card_insert_disjoint) auto
    then obtain ns where "chain (\<lambda>q. nx q 0) x ns" "set ns = {y \<in> N. pos x < pos y}" "sorted_wrt (\<lambda>a b. pos a < pos b) ns"
      using less.hyps[of x] x(1) by blast
    then show ?thesis using nx by (intro exI[of _ "x # ns"]) (simp add: A)
  qed
qed

end
