(* ===== verification/Skiplist.thy ===== *)
theory Skiplist
  imports Qbmap Cstring Skip_Shape
begin

text \<open>
  The skip list (\<^verbatim>\<open>lib/skiplist.c\<close>). Nodes and the arrays of forward pointers are allocated
  separately and have addresses of their own: a removal hands the array of one node over to
  another. A read of freed memory, a second free, an access outside an array and a failed
  assertion give \<open>None\<close>. Without iterators the list is an instance of \<open>strict_map_store\<close>.
\<close>

section \<open>State\<close>

abbreviation SKIPLIST_LEVEL_MAX :: int where "SKIPLIST_LEVEL_MAX \<equiv> 8"
abbreviation SKIPLIST_LEVEL_MIN :: int where "SKIPLIST_LEVEL_MIN \<equiv> 0"
abbreviation SKIPLIST_LEVEL_COUNT :: nat where "SKIPLIST_LEVEL_COUNT \<equiv> 9"

text \<open>The key of the header is \<^verbatim>\<open>NULL\<close>.\<close>

record ('c, 'u, 'v) skiplist_node =
  sn_key :: "string option"
  sn_value :: "'v option"
  sn_level :: int
  sn_refcount :: u32
  sn_notifiers :: "('c, 'u) qb_map_notifier list"
  sn_forward :: nat

record ('c, 'u, 'v) skiplist =
  sl_length :: u64
  sl_level :: int
  sl_header :: nat
  sl_nodes :: "nat \<rightharpoonup> ('c, 'u, 'v) skiplist_node"
  sl_arrays :: "nat \<rightharpoonup> nat option list"

record skiplist_iter =
  si_n :: "nat option"

text \<open>What a put asks of its environment: random numbers, and the results of two allocations.\<close>

record skip_env =
  randoms :: "u16 list"
  malloc_node :: "nat option"
  calloc_forward :: "nat option"

section \<open>Memory\<close>

definition forward_get :: "('c, 'u, 'v) skiplist \<Rightarrow> nat \<Rightarrow> nat \<Rightarrow> nat option option" where
  "forward_get s q l =
     do { node \<leftarrow> sl_nodes s q; a \<leftarrow> sl_arrays s (sn_forward node); if l < length a then Some (a ! l) else None }"

definition forward_set :: "nat \<Rightarrow> nat \<Rightarrow> nat option \<Rightarrow> ('c, 'u, 'v) skiplist \<Rightarrow> ('c, 'u, 'v) skiplist option" where
  "forward_set q l v s =
     do { node \<leftarrow> sl_nodes s q; a \<leftarrow> sl_arrays s (sn_forward node);
          if l < length a then Some (s\<lparr>sl_arrays := (sl_arrays s)(sn_forward node \<mapsto> a[l := v])\<rparr>) else None }"

definition free_array :: "nat \<Rightarrow> ('c, 'u, 'v) skiplist \<Rightarrow> ('c, 'u, 'v) skiplist option" where
  "free_array a s = (if sl_arrays s a = None then None else Some (s\<lparr>sl_arrays := (sl_arrays s)(a := None)\<rparr>))"

section \<open>Nodes\<close>

text \<open>An \<^verbatim>\<open>int8_t\<close> after an increment.\<close>

definition int8 :: "int \<Rightarrow> int" where
  "int8 x = (x + 128) mod 256 - 128"

text \<open>The low 16 bits of the random numbers are consumed until one is not below the limit.\<close>

definition P_CEIL :: int where "P_CEIL = 65535 div 4"

fun level_loop :: "u16 list \<Rightarrow> int \<Rightarrow> int option" where
  "level_loop [] level = None"
| "level_loop (r # rs) level = (if uint r < P_CEIL then level_loop rs (int8 (level + 1)) else Some level)"

definition skiplist_level_generate :: "u16 list \<Rightarrow> int option" where
  "skiplist_level_generate rs =
     do { level \<leftarrow> level_loop rs SKIPLIST_LEVEL_MIN;
          Some (if level < SKIPLIST_LEVEL_MAX then level else SKIPLIST_LEVEL_MAX) }"

partial_function (option) skiplist_node_next :: "('c, 'u, 'v) skiplist \<Rightarrow> nat \<Rightarrow> nat option option" where
  "skiplist_node_next s q =
     do { n \<leftarrow> forward_get s q 0;
          case n of
            None \<Rightarrow> Some None
          | Some m \<Rightarrow> do { node \<leftarrow> sl_nodes s m; if sn_refcount node = 0 then skiplist_node_next s m else Some (Some m) } }"

definition skiplist_node_new ::
  "nat option \<Rightarrow> nat option \<Rightarrow> int \<Rightarrow> string option \<Rightarrow> 'v option \<Rightarrow> ('c, 'u, 'v) skiplist \<Rightarrow> nat option \<times> ('c, 'u, 'v) skiplist" where
  "skiplist_node_new malloc calloc level key value s =
     (case (malloc, calloc) of
        (Some n, Some a) \<Rightarrow>
          (Some n, s\<lparr>sl_nodes := (sl_nodes s)(n \<mapsto> \<lparr>sn_key = key, sn_value = value, sn_level = level, sn_refcount = 1,
                                                      sn_notifiers = [], sn_forward = a\<rparr>),
                     sl_arrays := (sl_arrays s)(a \<mapsto> replicate SKIPLIST_LEVEL_COUNT None)\<rparr>)
      | _ \<Rightarrow> (None, s))"

section \<open>Searching\<close>

datatype op_t = OP_GOTO_NEXT_LEVEL | OP_GOTO_NEXT_NODE | OP_FINISH

definition op_search :: "('c, 'u, 'v) skiplist \<Rightarrow> nat option \<Rightarrow> string \<Rightarrow> op_t option" where
  "op_search s fwd_node search =
     (case fwd_node of
        None \<Rightarrow> Some OP_GOTO_NEXT_LEVEL
      | Some n \<Rightarrow>
          do { node \<leftarrow> sl_nodes s n; key \<leftarrow> sn_key node;
               let cmp = strcmp key search;
               Some (if cmp < 0 then OP_GOTO_NEXT_NODE else if cmp = 0 then OP_FINISH else OP_GOTO_NEXT_LEVEL) })"

partial_function (option) lookup_loop :: "('c, 'u, 'v) skiplist \<Rightarrow> string \<Rightarrow> nat \<Rightarrow> int \<Rightarrow> nat option option" where
  "lookup_loop s key cur_node level =
     (if level < SKIPLIST_LEVEL_MIN then Some None
      else do { fwd_node \<leftarrow> forward_get s cur_node (nat level);
                op \<leftarrow> op_search s fwd_node key;
                case op of
                  OP_FINISH \<Rightarrow> Some fwd_node
                | OP_GOTO_NEXT_NODE \<Rightarrow> lookup_loop s key (the fwd_node) level
                | OP_GOTO_NEXT_LEVEL \<Rightarrow> lookup_loop s key cur_node (level - 1) })"

definition skiplist_lookup :: "('c, 'u, 'v) skiplist \<Rightarrow> string \<Rightarrow> nat option option" where
  "skiplist_lookup s key = lookup_loop s key (sl_header s) (sl_level s)"

section \<open>Notifiers\<close>

definition skiplist_notify ::
  "('c, 'u, 'v) skiplist \<Rightarrow> ('c, 'u, 'v) skiplist_node \<Rightarrow> u32 \<Rightarrow> string option \<Rightarrow> 'v option \<Rightarrow> 'v option \<Rightarrow> ('c, 'u, 'v) notification list option" where
  "skiplist_notify s n event key old_value value =
     do { h \<leftarrow> sl_nodes s (sl_header s);
          Some (notify_node (sn_notifiers n) event key old_value value @ notify_map (sn_notifiers h) event key old_value value) }"

definition skiplist_node_destroy ::
  "nat \<Rightarrow> ('c, 'u, 'v) skiplist \<Rightarrow> (('c, 'u, 'v) notification list \<times> ('c, 'u, 'v) skiplist) option" where
  "skiplist_node_destroy n s =
     do { node \<leftarrow> sl_nodes s n;
          ns \<leftarrow> skiplist_notify s node QB_MAP_NOTIFY_DELETED (sn_key node) (sn_value node) None;
          s \<leftarrow> (if sn_level node \<ge> SKIPLIST_LEVEL_MIN \<or> sl_level s < SKIPLIST_LEVEL_MIN
                then free_array (sn_forward node) s else Some s);
          Some (ns, s\<lparr>sl_nodes := (sl_nodes s)(n := None)\<rparr>) }"

definition skiplist_node_deref ::
  "nat \<Rightarrow> ('c, 'u, 'v) skiplist \<Rightarrow> (('c, 'u, 'v) notification list \<times> ('c, 'u, 'v) skiplist) option" where
  "skiplist_node_deref n s =
     do { node \<leftarrow> sl_nodes s n;
          let node = node\<lparr>sn_refcount := sn_refcount node - 1\<rparr>;
          let s = s\<lparr>sl_nodes := (sl_nodes s)(n \<mapsto> node)\<rparr>;
          if sn_refcount node = 0 then skiplist_node_destroy n s else Some ([], s) }"

text \<open>The node whose notifiers a key, or no key, selects.\<close>

definition notify_target :: "('c, 'u, 'v) skiplist \<Rightarrow> string option \<Rightarrow> nat option option" where
  "notify_target s key = (case key of Some k \<Rightarrow> skiplist_lookup s k | None \<Rightarrow> Some (Some (sl_header s)))"

definition skiplist_notify_add ::
  "int \<Rightarrow> ('c, 'u, 'v) skiplist \<Rightarrow> string option \<Rightarrow> 'c \<Rightarrow> u32 \<Rightarrow> 'u \<Rightarrow> (int \<times> ('c, 'u, 'v) skiplist) option" where
  "skiplist_notify_add malloc_errno s key fn evs user =
     do { target \<leftarrow> notify_target s key;
          case target of
            None \<Rightarrow> Some (- EINVAL, s)
          | Some n \<Rightarrow>
              do { node \<leftarrow> sl_nodes s n;
                   let (rc, ns) = notifier_add (evs AND QB_MAP_NOTIFY_FREE \<noteq> 0) malloc_errno (sn_notifiers node) fn evs user;
                   Some (rc, s\<lparr>sl_nodes := (sl_nodes s)(n \<mapsto> node\<lparr>sn_notifiers := ns\<rparr>)\<rparr>) } }"

definition skiplist_notify_del ::
  "('c, 'u, 'v) skiplist \<Rightarrow> string option \<Rightarrow> 'c \<Rightarrow> u32 \<Rightarrow> bool \<Rightarrow> 'u \<Rightarrow> (int \<times> ('c, 'u, 'v) skiplist) option" where
  "skiplist_notify_del s key fn evs cmp_userdata user =
     do { target \<leftarrow> notify_target s key;
          case target of
            None \<Rightarrow> Some (- ENOENT, s)
          | Some n \<Rightarrow>
              do { node \<leftarrow> sl_nodes s n;
                   let (rc, ns) = notifier_del (sn_notifiers node) fn evs cmp_userdata user;
                   Some (rc, s\<lparr>sl_nodes := (sl_nodes s)(n \<mapsto> node\<lparr>sn_notifiers := ns\<rparr>)\<rparr>) } }"

section \<open>Put\<close>

text \<open>The node that has the key, or the nodes to update: where the search went down from each level.\<close>

type_synonym skiplist_update_t = "nat \<Rightarrow> nat option"

partial_function (option) put_loop ::
  "('c, 'u, 'v) skiplist \<Rightarrow> string \<Rightarrow> nat \<Rightarrow> int \<Rightarrow> skiplist_update_t \<Rightarrow> (nat + skiplist_update_t) option" where
  "put_loop s key cur_node level update =
     (if level < SKIPLIST_LEVEL_MIN then Some (Inr update)
      else do { fwd_node \<leftarrow> forward_get s cur_node (nat level);
                op \<leftarrow> op_search s fwd_node key;
                case op of
                  OP_FINISH \<Rightarrow> Some (Inl (the fwd_node))
                | OP_GOTO_NEXT_NODE \<Rightarrow> put_loop s key (the fwd_node) level (update(nat level := fwd_node))
                | OP_GOTO_NEXT_LEVEL \<Rightarrow> put_loop s key cur_node (level - 1) (update(nat level := Some cur_node)) })"

fun drop_in :: "nat list \<Rightarrow> skiplist_update_t \<Rightarrow> nat \<Rightarrow> ('c, 'u, 'v) skiplist \<Rightarrow> ('c, 'u, 'v) skiplist option" where
  "drop_in [] update new_node s = Some s"
| "drop_in (l # ls) update new_node s =
     do { u \<leftarrow> update l;
          f \<leftarrow> forward_get s u l;
          s \<leftarrow> forward_set new_node l f s;
          s \<leftarrow> forward_set u l (Some new_node) s;
          drop_in ls update new_node s }"

definition put_replace ::
  "('c, 'u, 'v) skiplist \<Rightarrow> nat \<Rightarrow> string \<Rightarrow> 'v option \<Rightarrow> (('c, 'u, 'v) notification list \<times> ('c, 'u, 'v) skiplist) option" where
  "put_replace s n key value =
     do { node \<leftarrow> sl_nodes s n;
          let node' = node\<lparr>sn_value := value, sn_key := Some key\<rparr>;
          let s = s\<lparr>sl_nodes := (sl_nodes s)(n \<mapsto> node')\<rparr>;
          ns \<leftarrow> skiplist_notify s node' QB_MAP_NOTIFY_REPLACED (sn_key node) (sn_value node) (sn_value node');
          Some (ns, s) }"

definition put_insert ::
  "skip_env \<Rightarrow> ('c, 'u, 'v) skiplist \<Rightarrow> skiplist_update_t \<Rightarrow> string \<Rightarrow> 'v option \<Rightarrow> (('c, 'u, 'v) notification list \<times> ('c, 'u, 'v) skiplist) option" where
  "put_insert env s update key value =
     do { new_node_level \<leftarrow> skiplist_level_generate (randoms env);
          let update = (\<lambda>l. if sl_level s < int l \<and> int l \<le> new_node_level then Some (sl_header s) else update l);
          let s = (if new_node_level > sl_level s then s\<lparr>sl_level := new_node_level\<rparr> else s);
          case skiplist_node_new (malloc_node env) (calloc_forward env) new_node_level (Some key) value s of
            (None, s) \<Rightarrow> None
          | (Some n, s) \<Rightarrow>
              do { node \<leftarrow> sl_nodes s n;
                   ns \<leftarrow> skiplist_notify s node QB_MAP_NOTIFY_INSERTED (sn_key node) None (sn_value node);
                   s \<leftarrow> drop_in [0..<nat (new_node_level + 1)] update n s;
                   Some (ns, s\<lparr>sl_length := sl_length s + 1\<rparr>) } }"

definition skiplist_put ::
  "skip_env \<Rightarrow> ('c, 'u, 'v) skiplist \<Rightarrow> string \<Rightarrow> 'v option \<Rightarrow> (('c, 'u, 'v) notification list \<times> ('c, 'u, 'v) skiplist) option" where
  "skiplist_put env s key value =
     do { r \<leftarrow> put_loop s key (sl_header s) (sl_level s) (\<lambda>_. None);
          case r of Inl n \<Rightarrow> put_replace s n key value | Inr update \<Rightarrow> put_insert env s update key value }"

section \<open>Remove\<close>

partial_function (option) rm_loop ::
  "('c, 'u, 'v) skiplist \<Rightarrow> string \<Rightarrow> nat \<Rightarrow> int \<Rightarrow> skiplist_update_t \<Rightarrow> (nat \<times> skiplist_update_t) option" where
  "rm_loop s key cur_node level update =
     (if level < SKIPLIST_LEVEL_MIN then Some (cur_node, update)
      else do { fwd_node \<leftarrow> forward_get s cur_node (nat level);
                op \<leftarrow> op_search s fwd_node key;
                case op of
                  OP_GOTO_NEXT_NODE \<Rightarrow> rm_loop s key (the fwd_node) level (update(nat level := fwd_node))
                | _ \<Rightarrow> rm_loop s key cur_node (level - 1) (update(nat level := Some cur_node)) })"

text \<open>Splice the node out of the list.\<close>

fun splice_out :: "nat list \<Rightarrow> skiplist_update_t \<Rightarrow> nat \<Rightarrow> ('c, 'u, 'v) skiplist \<Rightarrow> ('c, 'u, 'v) skiplist option" where
  "splice_out [] update found_node s = Some s"
| "splice_out (l # ls) update found_node s =
     do { u \<leftarrow> update l;
          f \<leftarrow> forward_get s u l;
          s \<leftarrow> (if f = Some found_node then do { g \<leftarrow> forward_get s found_node l; forward_set u l g s } else Some s);
          splice_out ls update found_node s }"

text \<open>The array of the removed node takes over the pointers of the node before, which then uses that array.\<close>

fun copy_forward :: "nat list \<Rightarrow> nat \<Rightarrow> nat \<Rightarrow> ('c, 'u, 'v) skiplist \<Rightarrow> ('c, 'u, 'v) skiplist option" where
  "copy_forward [] cur_node found_node s = Some s"
| "copy_forward (l # ls) cur_node found_node s =
     do { f \<leftarrow> forward_get s cur_node l; s \<leftarrow> forward_set found_node l f s; copy_forward ls cur_node found_node s }"

definition take_over :: "nat \<Rightarrow> nat \<Rightarrow> ('c, 'u, 'v) skiplist \<Rightarrow> ('c, 'u, 'v) skiplist option" where
  "take_over cur_node found_node s =
     do { fnode \<leftarrow> sl_nodes s found_node;
          s \<leftarrow> copy_forward [0..<nat (sn_level fnode + 1)] cur_node found_node s;
          let s = s\<lparr>sl_nodes := (sl_nodes s)(found_node \<mapsto> fnode\<lparr>sn_level := SKIPLIST_LEVEL_MIN - 1\<rparr>)\<rparr>;
          cnode \<leftarrow> sl_nodes s cur_node;
          s \<leftarrow> free_array (sn_forward cnode) s;
          Some (s\<lparr>sl_nodes := (sl_nodes s)(cur_node \<mapsto> cnode\<lparr>sn_forward := sn_forward fnode\<rparr>)\<rparr>) }"

text \<open>Remove unused levels; \<open>l\<close> is one more than the level.\<close>

fun drop_levels :: "nat \<Rightarrow> ('c, 'u, 'v) skiplist \<Rightarrow> ('c, 'u, 'v) skiplist option" where
  "drop_levels 0 s = Some s"
| "drop_levels (Suc l) s =
     do { f \<leftarrow> forward_get s (sl_header s) l;
          if f \<noteq> None then Some s else drop_levels l (s\<lparr>sl_level := sl_level s - 1\<rparr>) }"

definition rm_found ::
  "nat \<Rightarrow> skiplist_update_t \<Rightarrow> nat \<Rightarrow> ('c, 'u, 'v) skiplist \<Rightarrow> (bool \<times> ('c, 'u, 'v) notification list \<times> ('c, 'u, 'v) skiplist) option" where
  "rm_found cur_node update found_node s =
     do { s \<leftarrow> splice_out [0..<nat (sl_level s + 1)] update found_node s;
          fnode \<leftarrow> sl_nodes s found_node;
          cnode \<leftarrow> sl_nodes s cur_node;
          s \<leftarrow> (if sn_refcount fnode > 1 \<or> sn_key cnode = None then take_over cur_node found_node s else Some s);
          (ns, s) \<leftarrow> skiplist_node_deref found_node s;
          s \<leftarrow> drop_levels (nat (sl_level s + 1)) s;
          Some (True, ns, s\<lparr>sl_length := sl_length s - 1\<rparr>) }"

definition skiplist_rm ::
  "('c, 'u, 'v) skiplist \<Rightarrow> string \<Rightarrow> (bool \<times> ('c, 'u, 'v) notification list \<times> ('c, 'u, 'v) skiplist) option" where
  "skiplist_rm s key =
     do { (cur_node, update) \<leftarrow> rm_loop s key (sl_header s) (sl_level s) (\<lambda>_. None);
          found \<leftarrow> skiplist_node_next s cur_node;
          case found of
            None \<Rightarrow> Some (False, [], s)
          | Some found_node \<Rightarrow>
              do { fnode \<leftarrow> sl_nodes s found_node; fkey \<leftarrow> sn_key fnode;
                   if strcmp fkey key \<noteq> 0 then Some (False, [], s) else rm_found cur_node update found_node s } }"

section \<open>Reading and iterating\<close>

definition skiplist_get :: "('c, 'u, 'v) skiplist \<Rightarrow> string \<Rightarrow> 'v option option" where
  "skiplist_get s key =
     do { n \<leftarrow> skiplist_lookup s key;
          case n of None \<Rightarrow> Some None | Some n \<Rightarrow> do { node \<leftarrow> sl_nodes s n; Some (sn_value node) } }"

definition skiplist_count_get :: "('c, 'u, 'v) skiplist \<Rightarrow> u64" where
  "skiplist_count_get s = sl_length s"

definition node_ref :: "nat \<Rightarrow> ('c, 'u, 'v) skiplist \<Rightarrow> ('c, 'u, 'v) skiplist" where
  "node_ref n s = s\<lparr>sl_nodes := (sl_nodes s)(n := map_option (\<lambda>node. node\<lparr>sn_refcount := sn_refcount node + 1\<rparr>) (sl_nodes s n))\<rparr>"

definition skiplist_iter_create :: "bool \<Rightarrow> ('c, 'u, 'v) skiplist \<Rightarrow> string option \<Rightarrow> skiplist_iter option \<times> ('c, 'u, 'v) skiplist" where
  "skiplist_iter_create malloc_ok s prefix =
     (if malloc_ok then (Some \<lparr>si_n = Some (sl_header s)\<rparr>, node_ref (sl_header s) s) else (None, s))"

definition skiplist_iter_next ::
  "skiplist_iter \<Rightarrow> ('c, 'u, 'v) skiplist \<Rightarrow>
   ((string \<times> 'v option) option \<times> ('c, 'u, 'v) notification list \<times> skiplist_iter \<times> ('c, 'u, 'v) skiplist) option" where
  "skiplist_iter_next si s =
     (case si_n si of
        None \<Rightarrow> Some (None, [], si, s)
      | Some p \<Rightarrow>
          do { next \<leftarrow> skiplist_node_next s p;
               case next of
                 None \<Rightarrow> do { (ns, s) \<leftarrow> skiplist_node_deref p s; Some (None, ns, \<lparr>si_n = None\<rparr>, s) }
               | Some n \<Rightarrow>
                   do { (ns, s) \<leftarrow> skiplist_node_deref p (node_ref n s);
                        node \<leftarrow> sl_nodes s n; key \<leftarrow> sn_key node;
                        Some (Some (key, sn_value node), ns, \<lparr>si_n = Some n\<rparr>, s) } })"

definition skiplist_iter_free :: "skiplist_iter \<Rightarrow> ('c, 'u, 'v) skiplist \<Rightarrow> (('c, 'u, 'v) notification list \<times> ('c, 'u, 'v) skiplist) option" where
  "skiplist_iter_free i s = Some ([], s)"

section \<open>Creating and destroying\<close>

partial_function (option) destroy_loop ::
  "('c, 'u, 'v) skiplist \<Rightarrow> nat option \<Rightarrow> ('c, 'u, 'v) notification list \<Rightarrow> (('c, 'u, 'v) notification list \<times> ('c, 'u, 'v) skiplist) option" where
  "destroy_loop s cur_node ns =
     (case cur_node of
        None \<Rightarrow> Some (ns, s)
      | Some n \<Rightarrow>
          do { fwd_node \<leftarrow> skiplist_node_next s n;
               (ns', s) \<leftarrow> skiplist_node_destroy n s;
               destroy_loop s fwd_node (ns @ ns') })"

text \<open>The result is what remains allocated.\<close>

definition skiplist_destroy :: "('c, 'u, 'v) skiplist \<Rightarrow> (('c, 'u, 'v) notification list \<times> ('c, 'u, 'v) skiplist) option" where
  "skiplist_destroy s =
     do { let s = s\<lparr>sl_level := SKIPLIST_LEVEL_MIN - 1\<rparr>;
          first \<leftarrow> skiplist_node_next s (sl_header s);
          (ns, s) \<leftarrow> destroy_loop s first [];
          (ns', s) \<leftarrow> skiplist_node_destroy (sl_header s) s;
          Some (ns @ ns', s) }"

text \<open>The header is not tested for \<^verbatim>\<open>NULL\<close>: address 0, at which there is no node.\<close>

definition qb_skiplist_create :: "bool \<Rightarrow> nat option \<Rightarrow> nat option \<Rightarrow> ('c, 'u, 'v) skiplist option" where
  "qb_skiplist_create malloc_ok malloc calloc =
     (if \<not> malloc_ok then None
      else
        let (h, s) = skiplist_node_new malloc calloc SKIPLIST_LEVEL_MAX None None
              \<lparr>sl_length = 0, sl_level = SKIPLIST_LEVEL_MIN, sl_header = 0, sl_nodes = Map.empty, sl_arrays = Map.empty\<rparr>
        in Some (s\<lparr>sl_header := (case h of None \<Rightarrow> 0 | Some h \<Rightarrow> h)\<rparr>))"

definition skiplist_map :: "bool \<Rightarrow> int \<Rightarrow> (skip_env, ('c, 'u, 'v) skiplist, skiplist_iter, 'c, 'u, 'v) qb_map" where
  "skiplist_map malloc_ok malloc_errno =
     \<lparr>mput = skiplist_put, mget = skiplist_get, mrm = skiplist_rm, mcount_get = skiplist_count_get,
      miter_create = skiplist_iter_create malloc_ok, miter_next = skiplist_iter_next, miter_free = skiplist_iter_free,
      mnotify_add = Some (skiplist_notify_add malloc_errno), mnotify_del = Some skiplist_notify_del\<rparr>"

end
