(* ===== verification/Hashtable.thy ===== *)
theory Hashtable
  imports Qbmap
begin

text \<open>
  The hash table (\<^verbatim>\<open>lib/hashtable.c\<close>). A node is an address in a store; a bucket is the list of its
  nodes, a notifier list is a list (both are lists of \<^verbatim>\<open>qblist.h\<close>, see the theory \<open>Qblist\<close>).
  \<open>None\<close> as the result of an operation is the use of a node that was freed. The contents of a
  table are a finite map; the table without iterators is an instance of \<open>strict_map_store\<close>.
\<close>

section \<open>State\<close>

record ('c, 'u, 'v) hash_node =
  node_value :: "'v option"
  node_key :: string
  node_refcount :: u32
  node_notifiers :: "('c, 'u) qb_map_notifier list"

record ('c, 'u, 'v) hash_table =
  ht_count :: u64
  ht_order :: nat
  hash_buckets :: "nat list list"
  ht_notifiers :: "('c, 'u) qb_map_notifier list"
  ht_nodes :: "nat \<rightharpoonup> ('c, 'u, 'v) hash_node"

abbreviation hash_buckets_len :: "('c, 'u, 'v) hash_table \<Rightarrow> nat" where
  "hash_buckets_len t \<equiv> length (hash_buckets t)"

record hashtable_iter =
  hi_node :: "nat option"
  hi_bucket :: nat

section \<open>Hashing\<close>

definition FNV_32_PRIME :: u32 where "FNV_32_PRIME = 0x01000193"

text \<open>\<open>order\<close> is below 32; the result of the shift is an \<^verbatim>\<open>int\<close>, which the mask takes as unsigned.\<close>

definition hash_fnv :: "u8 list \<Rightarrow> nat \<Rightarrow> u32" where
  "hash_fnv bytes order =
     (let hash_result = fold (\<lambda>b h. (h XOR ucast b) * FNV_32_PRIME) bytes 0x811c9dc5
      in (drop_bit order hash_result XOR hash_result) AND (push_bit order 1 - 1))"

definition string_bytes :: "string \<Rightarrow> u8 list" where
  "string_bytes s = map (\<lambda>c. of_nat (of_char c)) s"

definition qb_hash_string :: "string \<Rightarrow> nat \<Rightarrow> u32" where
  "qb_hash_string key order = hash_fnv (string_bytes key) order"

definition hash_entry :: "('c, 'u, 'v) hash_table \<Rightarrow> string \<Rightarrow> nat" where
  "hash_entry t key = unat (qb_hash_string key (ht_order t))"

section \<open>Operations\<close>

text \<open>The first node of a bucket with the key.\<close>

definition bucket_find :: "('c, 'u, 'v) hash_table \<Rightarrow> string \<Rightarrow> nat option" where
  "bucket_find t key =
     find (\<lambda>n. map_option node_key (ht_nodes t n) = Some key) (hash_buckets t ! hash_entry t key)"

definition hashtable_lookup :: "('c, 'u, 'v) hash_table \<Rightarrow> string \<Rightarrow> nat option" where
  "hashtable_lookup t key = bucket_find t key"

definition hashtable_get :: "('c, 'u, 'v) hash_table \<Rightarrow> string \<Rightarrow> 'v option" where
  "hashtable_get t key =
     (case hashtable_lookup t key of None \<Rightarrow> None | Some n \<Rightarrow> node_value (the (ht_nodes t n)))"

definition hashtable_notify ::
  "('c, 'u, 'v) hash_table \<Rightarrow> ('c, 'u, 'v) hash_node \<Rightarrow> u32 \<Rightarrow> string \<Rightarrow> 'v option \<Rightarrow> 'v option \<Rightarrow> ('c, 'u, 'v) notification list" where
  "hashtable_notify t n event key old_value value =
     notify_node (node_notifiers n) event (Some key) old_value value @ notify_map (ht_notifiers t) event (Some key) old_value value"

definition hashtable_node_destroy ::
  "('c, 'u, 'v) hash_table \<Rightarrow> nat \<Rightarrow> (('c, 'u, 'v) notification list \<times> ('c, 'u, 'v) hash_table) option" where
  "hashtable_node_destroy t n =
     do { node \<leftarrow> ht_nodes t n;
          let ns = hashtable_notify t node QB_MAP_NOTIFY_DELETED (node_key node) (node_value node) None;
          Some (ns, t\<lparr>hash_buckets := map (remove1 n) (hash_buckets t), ht_nodes := (ht_nodes t)(n := None)\<rparr>) }"

definition hashtable_node_deref ::
  "('c, 'u, 'v) hash_table \<Rightarrow> nat \<Rightarrow> (('c, 'u, 'v) notification list \<times> ('c, 'u, 'v) hash_table) option" where
  "hashtable_node_deref t n =
     do { node \<leftarrow> ht_nodes t n;
          let node = node\<lparr>node_refcount := node_refcount node - 1\<rparr>;
          let t = t\<lparr>ht_nodes := (ht_nodes t)(n \<mapsto> node)\<rparr>;
          if node_refcount node > 0 then Some ([], t) else hashtable_node_destroy t n }"

definition hashtable_rm_with_hash ::
  "('c, 'u, 'v) hash_table \<Rightarrow> string \<Rightarrow> nat \<Rightarrow> (bool \<times> ('c, 'u, 'v) notification list \<times> ('c, 'u, 'v) hash_table) option" where
  "hashtable_rm_with_hash t key entry =
     (case find (\<lambda>n. map_option node_key (ht_nodes t n) = Some key) (hash_buckets t ! entry) of
        None \<Rightarrow> Some (False, [], t)
      | Some n \<Rightarrow>
          do { (ns, t) \<leftarrow> hashtable_node_deref t n; Some (True, ns, t\<lparr>ht_count := ht_count t - 1\<rparr>) })"

definition hashtable_rm ::
  "('c, 'u, 'v) hash_table \<Rightarrow> string \<Rightarrow> (bool \<times> ('c, 'u, 'v) notification list \<times> ('c, 'u, 'v) hash_table) option" where
  "hashtable_rm t key = hashtable_rm_with_hash t key (hash_entry t key)"

text \<open>\<open>calloc\<close> is the address of the new node.\<close>

definition hashtable_put ::
  "nat option \<Rightarrow> ('c, 'u, 'v) hash_table \<Rightarrow> string \<Rightarrow> 'v option \<Rightarrow> (('c, 'u, 'v) notification list \<times> ('c, 'u, 'v) hash_table) option" where
  "hashtable_put calloc t key value =
     (case bucket_find t key of
        None \<Rightarrow>
          (case calloc of
             None \<Rightarrow> Some ([], t)
           | Some n \<Rightarrow>
               let node = \<lparr>node_value = value, node_key = key, node_refcount = 1, node_notifiers = []\<rparr>;
                   e = hash_entry t key;
                   t = t\<lparr>ht_count := ht_count t + 1, hash_buckets := (hash_buckets t)[e := hash_buckets t ! e @ [n]],
                         ht_nodes := (ht_nodes t)(n \<mapsto> node)\<rparr>
               in Some (hashtable_notify t node QB_MAP_NOTIFY_INSERTED key None value, t))
      | Some n \<Rightarrow>
          do { node \<leftarrow> ht_nodes t n;
               let node' = node\<lparr>node_key := key, node_value := value\<rparr>;
               let t = t\<lparr>ht_nodes := (ht_nodes t)(n \<mapsto> node')\<rparr>;
               Some (hashtable_notify t node' QB_MAP_NOTIFY_REPLACED (node_key node) (node_value node) value, t) })"

text \<open>The notifiers under the head that a key, or no key, selects.\<close>

definition hashtable_notify_add ::
  "int \<Rightarrow> ('c, 'u, 'v) hash_table \<Rightarrow> string option \<Rightarrow> 'c \<Rightarrow> u32 \<Rightarrow> 'u \<Rightarrow> int \<times> ('c, 'u, 'v) hash_table" where
  "hashtable_notify_add malloc_errno t key fn evs user =
     (let add_to_tail = (evs AND QB_MAP_NOTIFY_FREE \<noteq> 0)
      in case key of
           None \<Rightarrow>
             let (rc, ns) = notifier_add add_to_tail malloc_errno (ht_notifiers t) fn evs user
             in (rc, t\<lparr>ht_notifiers := ns\<rparr>)
         | Some k \<Rightarrow>
             (case hashtable_lookup t k of
                None \<Rightarrow> (- ENOENT, t)
              | Some n \<Rightarrow>
                  let node = the (ht_nodes t n);
                      (rc, ns) = notifier_add add_to_tail malloc_errno (node_notifiers node) fn evs user
                  in (rc, t\<lparr>ht_nodes := (ht_nodes t)(n \<mapsto> node\<lparr>node_notifiers := ns\<rparr>)\<rparr>)))"

definition hashtable_notify_del ::
  "('c, 'u, 'v) hash_table \<Rightarrow> string option \<Rightarrow> 'c \<Rightarrow> u32 \<Rightarrow> bool \<Rightarrow> 'u \<Rightarrow> int \<times> ('c, 'u, 'v) hash_table" where
  "hashtable_notify_del t key fn evs cmp_userdata user =
     (case key of
        None \<Rightarrow>
          let (rc, ns) = notifier_del (ht_notifiers t) fn evs cmp_userdata user
          in (rc, t\<lparr>ht_notifiers := ns\<rparr>)
      | Some k \<Rightarrow>
          (case hashtable_lookup t k of
             None \<Rightarrow> (- ENOENT, t)
           | Some n \<Rightarrow>
               let node = the (ht_nodes t n);
                   (rc, ns) = notifier_del (node_notifiers node) fn evs cmp_userdata user
               in (rc, t\<lparr>ht_nodes := (ht_nodes t)(n \<mapsto> node\<lparr>node_notifiers := ns\<rparr>)\<rparr>)))"

definition hashtable_count_get :: "('c, 'u, 'v) hash_table \<Rightarrow> u64" where
  "hashtable_count_get t = ht_count t"

section \<open>Iteration\<close>

definition hashtable_iter_create :: "bool \<Rightarrow> ('c, 'u, 'v) hash_table \<Rightarrow> string option \<Rightarrow> hashtable_iter option \<times> ('c, 'u, 'v) hash_table" where
  "hashtable_iter_create malloc_ok t prefix =
     (if malloc_ok then (Some \<lparr>hi_node = None, hi_bucket = 0\<rparr>, t) else (None, t))"

text \<open>The nodes from which the loop starts in the first bucket: those after the current node.\<close>

definition bucket_after :: "nat option \<Rightarrow> nat list \<Rightarrow> nat list" where
  "bucket_after node ns = (case node of None \<Rightarrow> ns | Some n \<Rightarrow> tl (dropWhile (\<lambda>x. x \<noteq> n) ns))"

definition first_live :: "('c, 'u, 'v) hash_table \<Rightarrow> nat list \<Rightarrow> nat option" where
  "first_live t ns = find (\<lambda>n. case ht_nodes t n of None \<Rightarrow> False | Some node \<Rightarrow> node_refcount node > 0) ns"

text \<open>The loop over the buckets from \<open>b\<close>; the result is the bucket and the node that are found.\<close>

fun iter_scan :: "('c, 'u, 'v) hash_table \<Rightarrow> nat option \<Rightarrow> nat \<Rightarrow> nat list list \<Rightarrow> (nat \<times> nat) option" where
  "iter_scan t node b [] = None"
| "iter_scan t node b (ns # nss) =
     (case first_live t (bucket_after node ns) of
        Some n \<Rightarrow> Some (b, n)
      | None \<Rightarrow> iter_scan t None (Suc b) nss)"

definition hashtable_iter_next ::
  "hashtable_iter \<Rightarrow> ('c, 'u, 'v) hash_table \<Rightarrow>
   ((string \<times> 'v option) option \<times> ('c, 'u, 'v) notification list \<times> hashtable_iter \<times> ('c, 'u, 'v) hash_table) option" where
  "hashtable_iter_next hi t =
     (if (case hi_node hi of None \<Rightarrow> False | Some p \<Rightarrow> ht_nodes t p = None) then None
      else
        let found = iter_scan t (hi_node hi) (hi_bucket hi) (drop (hi_bucket hi) (hash_buckets t));
            t = (case found of
                   None \<Rightarrow> t
                 | Some (b, n) \<Rightarrow>
                     let node = the (ht_nodes t n)
                     in t\<lparr>ht_nodes := (ht_nodes t)(n \<mapsto> node\<lparr>node_refcount := node_refcount node + 1\<rparr>)\<rparr>);
            value = (case found of None \<Rightarrow> None | Some (b, n) \<Rightarrow> node_value (the (ht_nodes t n)))
        in do { (ns, t) \<leftarrow> (case hi_node hi of None \<Rightarrow> Some ([], t) | Some p \<Rightarrow> hashtable_node_deref t p);
                case found of
                  None \<Rightarrow> Some (None, ns, hi, t)
                | Some (b, n) \<Rightarrow>
                    Some (Some (node_key (the (ht_nodes t n)), value), ns, \<lparr>hi_node = Some n, hi_bucket = b\<rparr>, t) })"

definition hashtable_iter_free :: "hashtable_iter \<Rightarrow> ('c, 'u, 'v) hash_table \<Rightarrow> (('c, 'u, 'v) notification list \<times> ('c, 'u, 'v) hash_table) option" where
  "hashtable_iter_free i t = Some ([], t)"

section \<open>Creating and destroying\<close>

text \<open>The loop that computes the order: an \<^verbatim>\<open>int32_t\<close> is halved until it is 0.\<close>

partial_function (option) halve_loop :: "int \<Rightarrow> nat \<Rightarrow> nat option" where
  "halve_loop n i = (if n = 0 then Some i else halve_loop (n div 2) (Suc i))"

text \<open>The outer \<open>None\<close> is a loop that does not end, the inner a failed allocation.\<close>

definition qb_hashtable_create :: "bool \<Rightarrow> u64 \<Rightarrow> ('c, 'u, 'v) hash_table option option" where
  "qb_hashtable_create calloc_ok max_size =
     do { i \<leftarrow> halve_loop (sint (ucast max_size :: u32)) 0;
          let order = max i 3;
          Some (if \<not> calloc_ok then None
                else Some \<lparr>ht_count = 0, ht_order = order, hash_buckets = replicate (2 ^ order) [], ht_notifiers = [],
                           ht_nodes = Map.empty\<rparr>) }"

fun deref_all ::
  "nat list \<Rightarrow> ('c, 'u, 'v) hash_table \<Rightarrow> (('c, 'u, 'v) notification list \<times> ('c, 'u, 'v) hash_table) option" where
  "deref_all [] t = Some ([], t)"
| "deref_all (n # ns) t =
     do { (c, t) \<leftarrow> hashtable_node_deref t n;
          (cs, t) \<leftarrow> deref_all ns (t\<lparr>ht_count := ht_count t - 1\<rparr>);
          Some (c @ cs, t) }"

definition hashtable_node_deref_under_bucket ::
  "('c, 'u, 'v) hash_table \<Rightarrow> nat \<Rightarrow> (('c, 'u, 'v) notification list \<times> ('c, 'u, 'v) hash_table) option" where
  "hashtable_node_deref_under_bucket t entry = deref_all (hash_buckets t ! entry) t"

fun destroy_buckets ::
  "nat list \<Rightarrow> ('c, 'u, 'v) hash_table \<Rightarrow> (('c, 'u, 'v) notification list \<times> ('c, 'u, 'v) hash_table) option" where
  "destroy_buckets [] t = Some ([], t)"
| "destroy_buckets (b # bs) t =
     do { (c, t) \<leftarrow> hashtable_node_deref_under_bucket t b; (cs, t) \<leftarrow> destroy_buckets bs t; Some (c @ cs, t) }"

text \<open>The calls that are made; the nodes that are still allocated then are leaked.\<close>

definition hashtable_destroy :: "('c, 'u, 'v) hash_table \<Rightarrow> (('c, 'u, 'v) notification list \<times> (nat \<rightharpoonup> ('c, 'u, 'v) hash_node)) option" where
  "hashtable_destroy t =
     map_option (\<lambda>(cs, t). (cs, ht_nodes t)) (destroy_buckets [0..<hash_buckets_len t] t)"

definition hashtable_map :: "bool \<Rightarrow> int \<Rightarrow> (nat option, ('c, 'u, 'v) hash_table, hashtable_iter, 'c, 'u, 'v) qb_map" where
  "hashtable_map malloc_ok malloc_errno =
     \<lparr>mput = hashtable_put, mget = (\<lambda>t key. Some (hashtable_get t key)), mrm = hashtable_rm, mcount_get = hashtable_count_get,
      miter_create = hashtable_iter_create malloc_ok, miter_next = hashtable_iter_next, miter_free = hashtable_iter_free,
      mnotify_add = Some (\<lambda>t key fn evs user. Some (hashtable_notify_add malloc_errno t key fn evs user)),
      mnotify_del = Some (\<lambda>t key fn evs cmp user. Some (hashtable_notify_del t key fn evs cmp user))\<rparr>"

section \<open>Invariant and contents\<close>

abbreviation all_nodes :: "('c, 'u, 'v) hash_table \<Rightarrow> nat list" where
  "all_nodes t \<equiv> concat (hash_buckets t)"

abbreviation key_of :: "('c, 'u, 'v) hash_table \<Rightarrow> nat \<Rightarrow> string" where
  "key_of t n \<equiv> node_key (the (ht_nodes t n))"

abbreviation value_of :: "('c, 'u, 'v) hash_table \<Rightarrow> nat \<Rightarrow> 'v option" where
  "value_of t n \<equiv> node_value (the (ht_nodes t n))"

text \<open>The table between operations; an iterator may hold one node.\<close>

definition ht_inv :: "nat option \<Rightarrow> ('c, 'u, 'v) hash_table \<Rightarrow> bool" where
  "ht_inv held t \<longleftrightarrow>
     ht_order t < 32 \<and> hash_buckets_len t = 2 ^ ht_order t \<and>
     distinct (all_nodes t) \<and> set (all_nodes t) = dom (ht_nodes t) \<and>
     (\<forall>b<hash_buckets_len t. \<forall>n\<in>set (hash_buckets t ! b). hash_entry t (key_of t n) = b) \<and>
     inj_on (key_of t) (dom (ht_nodes t)) \<and>
     (\<forall>n node. ht_nodes t n = Some node \<longrightarrow>
        node_value node \<noteq> None \<and> node_refcount node = (if held = Some n then 2 else 1)) \<and>
     ht_count t = of_nat (length (all_nodes t))"

definition ht_entries :: "('c, 'u, 'v) hash_table \<Rightarrow> (string \<times> 'v) list" where
  "ht_entries t = map (\<lambda>n. (key_of t n, the (value_of t n))) (all_nodes t)"

definition ht_contents :: "('c, 'u, 'v) hash_table \<Rightarrow> (string \<rightharpoonup> 'v)" where
  "ht_contents t = map_of (ht_entries t)"

text \<open>Some node has the key and the value.\<close>

definition holds :: "('c, 'u, 'v) hash_node option \<Rightarrow> string \<Rightarrow> 'v \<Rightarrow> bool" where
  "holds nd k v \<longleftrightarrow> (case nd of None \<Rightarrow> False | Some node \<Rightarrow> node_key node = k \<and> node_value node = Some v)"

definition node_has :: "(nat \<rightharpoonup> ('c, 'u, 'v) hash_node) \<Rightarrow> string \<Rightarrow> 'v \<Rightarrow> bool" where
  "node_has f k v \<longleftrightarrow> (\<exists>n. holds (f n) k v)"

lemma node_hasI: "f n = Some node \<Longrightarrow> node_key node = k \<Longrightarrow> node_value node = Some v \<Longrightarrow> node_has f k v"
  unfolding node_has_def holds_def by (intro exI[of _ n]) simp

lemma node_hasE:
  assumes "node_has f k v"
  obtains n node where "f n = Some node" "node_key node = k" "node_value node = Some v"
proof -
  obtain n where n: "holds (f n) k v" using assms unfolding node_has_def ..
  show thesis
  proof (cases "f n")
    case (Some node)
    then show thesis using n that[of n node] by (simp add: holds_def)
  qed (use n in \<open>simp add: holds_def\<close>)
qed

lemma node_has_fun_upd: "node_has (f(n := nd)) k v \<longleftrightarrow> holds nd k v \<or> (\<exists>i. i \<noteq> n \<and> holds (f i) k v)"
proof
  assume "node_has (f(n := nd)) k v"
  then obtain i where "holds ((f(n := nd)) i) k v" unfolding node_has_def ..
  then show "holds nd k v \<or> (\<exists>i. i \<noteq> n \<and> holds (f i) k v)" by (cases "i = n") auto
next
  assume "holds nd k v \<or> (\<exists>i. i \<noteq> n \<and> holds (f i) k v)"
  then show "node_has (f(n := nd)) k v"
  proof
    assume "holds nd k v"
    then show ?thesis unfolding node_has_def by (intro exI[of _ n]) simp
  next
    assume "\<exists>i. i \<noteq> n \<and> holds (f i) k v"
    then obtain i where "i \<noteq> n" "holds (f i) k v" by blast
    then show ?thesis unfolding node_has_def by (intro exI[of _ i]) simp
  qed
qed

lemma node_has_split: "node_has f k v \<longleftrightarrow> holds (f n) k v \<or> (\<exists>i. i \<noteq> n \<and> holds (f i) k v)"
  unfolding node_has_def by metis

lemma node_has_new: "f n = None \<Longrightarrow> node_has (f(n := nd)) k v \<longleftrightarrow> holds nd k v \<or> node_has f k v"
  unfolding node_has_fun_upd node_has_split[of f k v n] by (simp add: holds_def)

lemma other_key:
  assumes "f n = Some node" "\<And>i nd. f i = Some nd \<Longrightarrow> node_key nd = node_key node \<Longrightarrow> i = n"
  shows "(\<exists>i. i \<noteq> n \<and> holds (f i) k v) \<longleftrightarrow> k \<noteq> node_key node \<and> node_has f k v"
proof (cases "k = node_key node")
  case True
  have "\<not> holds (f i) k v" if "i \<noteq> n" for i using assms(2)[of i] that True by (auto simp: holds_def split: option.splits)
  then show ?thesis using True by blast
next
  case False
  then have "\<not> holds (f n) k v" using assms(1) by (simp add: holds_def)
  then show ?thesis using False node_has_split[of f k v n] by simp
qed

text \<open>The hash of a key is the number of a bucket.\<close>

lemma hash_fnv_range: "order < 32 \<Longrightarrow> unat (hash_fnv bytes order) < 2 ^ order"
proof -
  assume o: "order < 32"
  have "push_bit order (1 :: u32) - 1 = mask order" by (simp add: mask_eq_exp_minus_1)
  then have "hash_fnv bytes order = take_bit order (hash_fnv bytes order)"
    by (simp add: hash_fnv_def Let_def take_bit_eq_mask ac_simps)
  then have "unat (hash_fnv bytes order) = take_bit order (unat (hash_fnv bytes order))"
    by (metis unsigned_take_bit_eq)
  then show ?thesis by (metis take_bit_nat_less_exp)
qed

lemma hash_entry_range: "ht_inv held t \<Longrightarrow> hash_entry t k < hash_buckets_len t"
  by (simp add: ht_inv_def hash_entry_def qb_hash_string_def hash_fnv_range)

lemma hash_entry_cong: "ht_order t' = ht_order t \<Longrightarrow> hash_entry t' k = hash_entry t k"
  by (simp add: hash_entry_def)

lemma bucket_subset: "b < hash_buckets_len t \<Longrightarrow> n \<in> set (hash_buckets t ! b) \<Longrightarrow> n \<in> set (all_nodes t)"
  by auto

lemma ht_node:
  assumes "ht_inv held t" "ht_nodes t n = Some node"
  shows "\<exists>v. node_value node = Some v" "node_refcount node = (if held = Some n then 2 else 1)" "n \<in> set (all_nodes t)"
    "n \<in> set (hash_buckets t ! hash_entry t (node_key node))"
proof -
  show "\<exists>v. node_value node = Some v" "node_refcount node = (if held = Some n then 2 else 1)"
    using assms unfolding ht_inv_def by (metis not_None_eq)+
  show n: "n \<in> set (all_nodes t)" using assms unfolding ht_inv_def by blast
  then obtain ns where "ns \<in> set (hash_buckets t)" "n \<in> set ns" by auto
  then obtain b where "b < hash_buckets_len t" "n \<in> set (hash_buckets t ! b)" by (metis in_set_conv_nth)
  moreover from this have "hash_entry t (key_of t n) = b" using assms(1) unfolding ht_inv_def by blast
  ultimately show "n \<in> set (hash_buckets t ! hash_entry t (node_key node))" using assms(2) by simp
qed

lemma key_unique:
  assumes "ht_inv held t" "ht_nodes t n = Some node" "ht_nodes t i = Some nd" "node_key nd = node_key node"
  shows "i = n"
  using assms unfolding ht_inv_def inj_on_def by (metis domI option.sel)

lemma bucket_find_iff:
  assumes inv: "ht_inv held t"
  shows "bucket_find t k = Some n \<longleftrightarrow> (\<exists>node. ht_nodes t n = Some node \<and> node_key node = k)"
proof
  assume "bucket_find t k = Some n"
  then show "\<exists>node. ht_nodes t n = Some node \<and> node_key node = k"
    by (auto simp: bucket_find_def find_Some_iff)
next
  assume "\<exists>node. ht_nodes t n = Some node \<and> node_key node = k"
  then obtain node where node: "ht_nodes t n = Some node" "node_key node = k" by blast
  then have "find (\<lambda>n. map_option node_key (ht_nodes t n) = Some k) (hash_buckets t ! hash_entry t k) \<noteq> None"
    using ht_node(4)[OF inv node(1)] by (auto simp: find_None_iff)
  then obtain n' where n': "bucket_find t k = Some n'" by (auto simp: bucket_find_def)
  then have "map_option node_key (ht_nodes t n') = Some k" by (auto simp: bucket_find_def find_Some_iff)
  then have "n' = n" using inv node unfolding ht_inv_def inj_on_def by (metis domI map_option_eq_Some option.sel)
  then show "bucket_find t k = Some n" using n' by simp
qed

lemma bucket_find_none:
  assumes "ht_inv held t"
  shows "bucket_find t k = None \<longleftrightarrow> (\<forall>n node. ht_nodes t n = Some node \<longrightarrow> node_key node \<noteq> k)"
  using bucket_find_iff[OF assms] by (metis not_None_eq)

lemma ht_entries_keys:
  assumes "ht_inv held t"
  shows "distinct (map fst (ht_entries t))"
proof -
  have "inj_on (key_of t) (set (all_nodes t))" "distinct (all_nodes t)" using assms by (simp_all add: ht_inv_def)
  then show ?thesis by (simp add: ht_entries_def distinct_map comp_def)
qed

lemma ht_contents_iff:
  assumes "ht_inv held t"
  shows "ht_contents t k = Some v \<longleftrightarrow> node_has (ht_nodes t) k v"
proof -
  have "ht_contents t k = Some v \<longleftrightarrow> (k, v) \<in> set (ht_entries t)"
    unfolding ht_contents_def using ht_entries_keys[OF assms] by (simp add: map_of_eq_Some_iff)
  also have "\<dots> \<longleftrightarrow> (\<exists>n\<in>set (all_nodes t). key_of t n = k \<and> the (value_of t n) = v)"
    unfolding ht_entries_def set_map image_iff prod.inject by blast
  also have "\<dots> \<longleftrightarrow> (\<exists>n\<in>dom (ht_nodes t). key_of t n = k \<and> the (value_of t n) = v)"
    using assms by (simp add: ht_inv_def)
  also have "\<dots> \<longleftrightarrow> (\<exists>n node. ht_nodes t n = Some node \<and> node_key node = k \<and> the (node_value node) = v)" by force
  also have "\<dots> \<longleftrightarrow> node_has (ht_nodes t) k v"
  proof
    assume "\<exists>n node. ht_nodes t n = Some node \<and> node_key node = k \<and> the (node_value node) = v"
    then obtain n node where "ht_nodes t n = Some node" "node_key node = k" "the (node_value node) = v" by blast
    then show "node_has (ht_nodes t) k v" using ht_node(1)[OF assms] by (intro node_hasI[of _ n node]) auto
  next
    assume "node_has (ht_nodes t) k v"
    then obtain n node where "ht_nodes t n = Some node" "node_key node = k" "node_value node = Some v" by (rule node_hasE)
    then show "\<exists>n node. ht_nodes t n = Some node \<and> node_key node = k \<and> the (node_value node) = v"
      by (intro exI[of _ n] exI[of _ node]) simp
  qed
  finally show ?thesis .
qed

lemma ht_contents_eqI:
  assumes "\<And>k v. f k = Some v \<longleftrightarrow> g k = Some v"
  shows "f = g"
  using assms by (intro ext) (metis not_Some_eq)

lemma hashtable_get_contents:
  assumes "ht_inv held t"
  shows "hashtable_get t k = ht_contents t k"
proof (cases "bucket_find t k")
  case None
  then have "ht_contents t k = None"
    using bucket_find_none[OF assms, of k] ht_contents_iff[OF assms, of k] by (metis node_hasE not_None_eq)
  then show ?thesis using None by (simp add: hashtable_get_def hashtable_lookup_def)
next
  case (Some n)
  then obtain node where node: "ht_nodes t n = Some node" "node_key node = k" using bucket_find_iff[OF assms] by blast
  then obtain v where v: "node_value node = Some v" using ht_node(1)[OF assms] by blast
  then have "ht_contents t k = Some v" using node_hasI[of "ht_nodes t" n node, OF node v] by (simp add: ht_contents_iff[OF assms])
  then show ?thesis using Some node v by (simp add: hashtable_get_def hashtable_lookup_def)
qed

lemma ht_count_contents:
  assumes "ht_inv held t"
  shows "hashtable_count_get t = of_nat (card (dom (ht_contents t)))"
proof -
  have "card (dom (ht_contents t)) = length (ht_entries t)"
    using distinct_card[OF ht_entries_keys[OF assms]] by (simp add: ht_contents_def dom_map_of_conv_image_fst)
  then show ?thesis using assms by (simp add: hashtable_count_get_def ht_inv_def ht_entries_def)
qed

section \<open>Operations keep the invariant\<close>

lemma mset_concat_append:
  "e < length bs \<Longrightarrow> mset (concat (bs[e := bs ! e @ [n]])) = add_mset n (mset (concat bs))"
proof (induction bs arbitrary: e)
  case (Cons b bs)
  then show ?case by (cases e) auto
qed simp

lemma mset_concat_remove1: "n \<in> set (concat bs) \<Longrightarrow> distinct (concat bs) \<Longrightarrow> mset (concat (map (remove1 n) bs)) = mset (concat bs) - {#n#}"
proof (induction bs)
  case (Cons b bs)
  show ?case
  proof (cases "n \<in> set b")
    case True
    then have "n \<notin> set (concat bs)" using Cons.prems(2) by auto
    then have "map (remove1 n) bs = bs" by (intro map_idI) (auto simp: remove1_idem)
    then show ?thesis using True by simp
  next
    case False
    then show ?thesis using Cons by (simp add: remove1_idem)
  qed
qed simp

text \<open>Putting a new key.\<close>

lemma put_new_ok:
  assumes inv: "ht_inv held t" and new: "bucket_find t k = None" "ht_nodes t n = None" and held: "held \<noteq> Some n"
  shows "\<exists>ns t'. hashtable_put (Some n) t k (Some v) = Some (ns, t') \<and> ht_inv held t' \<and> ht_contents t' = (ht_contents t)(k \<mapsto> v) \<and>
           ht_order t' = ht_order t"
proof -
  let ?e = "hash_entry t k"
  define node where "node = \<lparr>node_value = Some v, node_key = k, node_refcount = 1, node_notifiers = ([] :: ('a, 'b) qb_map_notifier list)\<rparr>"
  define t' where "t' = t\<lparr>ht_count := ht_count t + 1, hash_buckets := (hash_buckets t)[?e := hash_buckets t ! ?e @ [n]],
      ht_nodes := (ht_nodes t)(n \<mapsto> node)\<rparr>"
  have e: "?e < hash_buckets_len t" by (rule hash_entry_range[OF inv])
  have ms: "mset (all_nodes t') = add_mset n (mset (all_nodes t))" using mset_concat_append[OF e] by (simp add: t'_def)
  have dom: "set (all_nodes t) = dom (ht_nodes t)" "distinct (all_nodes t)" using inv by (simp_all add: ht_inv_def)
  have nn: "n \<notin> set (all_nodes t)" using new(2) dom by auto
  have set': "set (all_nodes t') = insert n (set (all_nodes t))" using ms by (metis set_mset_add_mset_insert set_mset_mset)
  have dist': "distinct (all_nodes t')"
    using dom(2) nn ms by (metis distinct.simps(2) mset.simps(2) mset_eq_imp_distinct_iff)
  have len': "length (all_nodes t') = Suc (length (all_nodes t))" using ms by (metis size_add_mset size_mset)
  have entry: "hash_entry t' j = hash_entry t j" for j by (simp add: hash_entry_def t'_def)
  have key: "key_of t' i = (if i = n then k else key_of t i)" for i by (simp add: t'_def node_def)
  have "hash_entry t (key_of t' i) = b" if "b < hash_buckets_len t" "i \<in> set (hash_buckets t' ! b)" for b i
  proof (cases "i = n")
    case True
    have "n \<notin> set (hash_buckets t ! b)" using nn bucket_subset[OF that(1)] by blast
    then have "b = ?e" using that True by (cases "b = ?e") (auto simp: t'_def)
    then show ?thesis using True key by simp
  next
    case False
    then have "i \<in> set (hash_buckets t ! b)" using that e by (auto simp: t'_def nth_list_update split: if_splits)
    then show ?thesis using inv that(1) False key unfolding ht_inv_def by simp
  qed
  moreover have "inj_on (key_of t') (dom (ht_nodes t'))"
  proof (rule inj_onI)
    fix i j assume ij: "i \<in> dom (ht_nodes t')" "j \<in> dom (ht_nodes t')" "key_of t' i = key_of t' j"
    have "key_of t x \<noteq> k" if "x \<in> dom (ht_nodes t)" for x 
      using that new(1)[unfolded bucket_find_none[OF inv]] by (metis domD option.sel)
    moreover have "inj_on (key_of t) (dom (ht_nodes t))" using inv by (simp add: ht_inv_def)
    moreover have "dom (ht_nodes t') = insert n (dom (ht_nodes t))" by (simp add: t'_def)
    ultimately show "i = j" using ij unfolding key inj_on_def by (metis insertE)
  qed
  moreover have "\<forall>i nd. ht_nodes t' i = Some nd \<longrightarrow> node_value nd \<noteq> None \<and> node_refcount nd = (if held = Some i then 2 else 1)"
    using ht_node(1,2)[OF inv] held by (auto simp: t'_def node_def split: if_splits)
  ultimately have inv': "ht_inv held t'" using inv dist' set' len' dom entry unfolding ht_inv_def by (simp add: t'_def)
  moreover have "ht_contents t' = (ht_contents t)(k \<mapsto> v)"
  proof (rule ht_contents_eqI)
    fix j w
    have "ht_contents t k = None" using new(1) hashtable_get_contents[OF inv, of k] by (simp add: hashtable_get_def hashtable_lookup_def)
    moreover have "node_has (ht_nodes t') j w \<longleftrightarrow> j = k \<and> w = v \<or> node_has (ht_nodes t) j w"
      using node_has_new[of "ht_nodes t" n, OF new(2), of "Some node" j w] by (auto simp: t'_def node_def holds_def)
    ultimately show "ht_contents t' j = Some w \<longleftrightarrow> ((ht_contents t)(k \<mapsto> v)) j = Some w"
      using ht_contents_iff[OF inv', of j w] ht_contents_iff[OF inv, of j w] by auto
  qed
  moreover have "hashtable_put (Some n) t k (Some v) = Some (hashtable_notify t' node QB_MAP_NOTIFY_INSERTED k None (Some v), t')"
    using new(1) by (simp add: hashtable_put_def Let_def t'_def node_def)
  ultimately show ?thesis by (auto simp: t'_def)
qed

text \<open>Changes of one node that keep its key: a new value, or another reference count.\<close>

lemma node_update_ok:
  assumes inv: "ht_inv held t" and node: "ht_nodes t n = Some node"
    and node': "node_key node' = node_key node" "node_value node' = Some v" "node_refcount node' = (if held' = Some n then 2 else 1)"
    and held: "\<And>i. i \<noteq> n \<Longrightarrow> held' = Some i \<longleftrightarrow> held = Some i"
  shows "ht_inv held' (t\<lparr>ht_nodes := (ht_nodes t)(n \<mapsto> node')\<rparr>) \<and>
         ht_contents (t\<lparr>ht_nodes := (ht_nodes t)(n \<mapsto> node')\<rparr>) = (ht_contents t)(node_key node \<mapsto> v)"
proof -
  define t' where "t' = t\<lparr>ht_nodes := (ht_nodes t)(n \<mapsto> node')\<rparr>"
  have key: "key_of t' i = key_of t i" for i using node node'(1) by (simp add: t'_def)
  have dom: "dom (ht_nodes t') = dom (ht_nodes t)" using node by (auto simp: t'_def)
  have "\<forall>i nd. ht_nodes t' i = Some nd \<longrightarrow> node_value nd \<noteq> None \<and> node_refcount nd = (if held' = Some i then 2 else 1)"
    using ht_node(1,2)[OF inv] held node' by (auto simp: t'_def split: if_splits)
  moreover have "hash_buckets t' = hash_buckets t" "ht_order t' = ht_order t" "ht_count t' = ht_count t" "hash_entry t' = hash_entry t"
    by (auto simp: t'_def hash_entry_def)
  ultimately have inv': "ht_inv held' t'" using inv key dom unfolding ht_inv_def by simp
  moreover have "ht_contents t' = (ht_contents t)(node_key node \<mapsto> v)"
  proof (rule ht_contents_eqI)
    fix j w
    have "node_has (ht_nodes t') j w \<longleftrightarrow> (if j = node_key node then v = w else node_has (ht_nodes t) j w)"
      using other_key[of "ht_nodes t" n node j w, OF node key_unique[OF inv node]] node'
      by (auto simp: t'_def node_has_fun_upd holds_def)
    then show "ht_contents t' j = Some w \<longleftrightarrow> ((ht_contents t)(node_key node \<mapsto> v)) j = Some w"
      using ht_contents_iff[OF inv', of j w] ht_contents_iff[OF inv, of j w] by auto
  qed
  ultimately show ?thesis by (simp add: t'_def)
qed

text \<open>Taking a node out of the table.\<close>

definition drop_node :: "nat \<Rightarrow> ('c, 'u, 'v) hash_table \<Rightarrow> ('c, 'u, 'v) hash_table" where
  "drop_node n t = t\<lparr>hash_buckets := map (remove1 n) (hash_buckets t), ht_nodes := (ht_nodes t)(n := None)\<rparr>"

lemma drop_node_ok:
  assumes inv: "ht_inv held t" and node: "ht_nodes t n = Some node" and held: "\<And>i. i \<noteq> n \<Longrightarrow> held' = Some i \<longleftrightarrow> held = Some i"
  shows "ht_inv held' ((drop_node n t)\<lparr>ht_count := ht_count t - 1\<rparr>)"
    "ht_contents ((drop_node n t)\<lparr>ht_count := ht_count t - 1\<rparr>) = (ht_contents t)(node_key node := None)"
proof -
  define t' where "t' = (drop_node n t)\<lparr>ht_count := ht_count t - 1\<rparr>"
  have dom: "set (all_nodes t) = dom (ht_nodes t)" "distinct (all_nodes t)" using inv by (simp_all add: ht_inv_def)
  have n: "n \<in> set (all_nodes t)" by (rule ht_node(3)[OF inv node])
  have ms: "mset (all_nodes t') = mset (all_nodes t) - {#n#}"
    using mset_concat_remove1[OF n dom(2)] by (simp add: t'_def drop_node_def)
  also have "\<dots> = mset (remove1 n (all_nodes t))" by simp
  finally have perm: "mset (all_nodes t') = mset (remove1 n (all_nodes t))" .
  have set': "set (all_nodes t') = set (all_nodes t) - {n}" using mset_eq_setD[OF perm] dom(2) by simp
  have dist': "distinct (all_nodes t')" using mset_eq_imp_distinct_iff[OF perm] dom(2) by (simp add: distinct_remove1)
  have len': "length (all_nodes t') = length (all_nodes t) - 1" "0 < length (all_nodes t)"
    using mset_eq_length[OF perm] n length_pos_if_in_set[OF n] by (simp_all add: length_remove1 del: length_concat)
  have "hash_entry t (key_of t' i) = b" if "b < hash_buckets_len t" "i \<in> set (hash_buckets t' ! b)" for b i
  proof -
    have "distinct (hash_buckets t ! b)" using dom(2) that(1) by (metis distinct_concat_iff nth_mem)
    then have "i \<in> set (hash_buckets t ! b)" "i \<noteq> n" using that by (auto simp: t'_def drop_node_def)
    then show ?thesis using inv that(1) unfolding ht_inv_def by (simp add: t'_def drop_node_def)
  qed
  moreover have "inj_on (key_of t') (dom (ht_nodes t'))"
    using inv unfolding ht_inv_def inj_on_def by (auto simp: t'_def drop_node_def split: if_splits)
  moreover have "\<forall>i nd. ht_nodes t' i = Some nd \<longrightarrow> node_value nd \<noteq> None \<and> node_refcount nd = (if held' = Some i then 2 else 1)"
    using ht_node(1,2)[OF inv] held by (auto simp: t'_def drop_node_def split: if_splits)
  moreover have "ht_count t' = of_nat (length (all_nodes t'))"
  proof -
    have "ht_count t = of_nat (length (all_nodes t))" using inv by (simp add: ht_inv_def)
    then have "ht_count t = of_nat (Suc (length (all_nodes t) - 1))" using len'(2) by (simp only: Suc_diff_1)
    then show ?thesis unfolding len'(1) by (simp add: t'_def del: length_concat)
  qed
  moreover have "dom (ht_nodes t') = dom (ht_nodes t) - {n}" by (auto simp: t'_def drop_node_def)
  moreover have "ht_order t' = ht_order t" "hash_buckets_len t' = hash_buckets_len t" "hash_entry t' = hash_entry t"
    by (auto simp: t'_def drop_node_def hash_entry_def)
  ultimately have inv': "ht_inv held' t'" using inv dist' set' dom unfolding ht_inv_def by simp
  moreover have "ht_contents t' = (ht_contents t)(node_key node := None)"
  proof (rule ht_contents_eqI)
    fix j w
    have "node_has (ht_nodes t') j w \<longleftrightarrow> j \<noteq> node_key node \<and> node_has (ht_nodes t) j w"
      using other_key[of "ht_nodes t" n node j w, OF node key_unique[OF inv node]]
      by (simp add: t'_def drop_node_def node_has_fun_upd) (simp add: holds_def)
    then show "ht_contents t' j = Some w \<longleftrightarrow> ((ht_contents t)(node_key node := None)) j = Some w"
      using ht_contents_iff[OF inv', of j w] ht_contents_iff[OF inv, of j w] by auto
  qed
  ultimately show "ht_inv held' ((drop_node n t)\<lparr>ht_count := ht_count t - 1\<rparr>)"
    "ht_contents ((drop_node n t)\<lparr>ht_count := ht_count t - 1\<rparr>) = (ht_contents t)(node_key node := None)"
    by (simp_all add: t'_def)
qed

lemma put_ok:
  assumes inv: "ht_inv held t" and new: "ht_nodes t n = None" "held \<noteq> Some n"
  shows "\<exists>ns t'. hashtable_put (Some n) t k (Some v) = Some (ns, t') \<and> ht_inv held t' \<and> ht_contents t' = (ht_contents t)(k \<mapsto> v)"
proof (cases "bucket_find t k")
  case None
  then show ?thesis using put_new_ok[OF inv None new, of v] by blast
next
  case (Some i)
  then obtain node where node: "ht_nodes t i = Some node" "node_key node = k" using bucket_find_iff[OF inv] by blast
  define node' where "node' = node\<lparr>node_key := k, node_value := Some v\<rparr>"
  have "node_key node' = node_key node" "node_value node' = Some v" "node_refcount node' = (if held = Some i then 2 else 1)"
    using node ht_node(2)[OF inv node(1)] by (simp_all add: node'_def)
  from node_update_ok[OF inv node(1) this] node(2)
  show ?thesis using Some node(1) by (auto simp: hashtable_put_def node'_def Let_def)
qed

text \<open>Giving up the last reference to a node removes it; giving up one of two does not.\<close>

lemma deref_last:
  assumes "ht_nodes t n = Some node" "node_refcount node = 1"
  shows "hashtable_node_deref t n =
           Some (hashtable_notify t node QB_MAP_NOTIFY_DELETED (node_key node) (node_value node) None, drop_node n t)"
  using assms by (simp add: hashtable_node_deref_def hashtable_node_destroy_def drop_node_def hashtable_notify_def)

lemma deref_held:
  assumes "ht_nodes t n = Some node" "node_refcount node = 2"
  shows "hashtable_node_deref t n = Some ([], t\<lparr>ht_nodes := (ht_nodes t)(n \<mapsto> node\<lparr>node_refcount := 1\<rparr>)\<rparr>)"
  using assms by (simp add: hashtable_node_deref_def)

lemma rm_found:
  assumes inv: "ht_inv None t" and n: "bucket_find t k = Some n"
  shows "\<exists>ns t'. hashtable_rm t k = Some (True, ns, t') \<and> ht_inv None t' \<and> ht_contents t' = (ht_contents t)(k := None)"
proof -
  obtain node where node: "ht_nodes t n = Some node" "node_key node = k" using n bucket_find_iff[OF inv] by blast
  have "node_refcount node = 1" using ht_node(2)[OF inv node(1)] by simp
  note d = deref_last[OF node(1) this]
  have "ht_count (drop_node n t) = ht_count t" by (simp add: drop_node_def)
  with d n drop_node_ok[OF inv node(1), of None] node(2) show ?thesis
    by (simp add: hashtable_rm_def hashtable_rm_with_hash_def bucket_find_def)
qed

lemma rm_absent:
  assumes "bucket_find t k = None"
  shows "hashtable_rm t k = Some (False, [], t)"
  using assms by (simp add: hashtable_rm_def hashtable_rm_with_hash_def bucket_find_def)

lemma bucket_find_contents:
  assumes "ht_inv held t"
  shows "bucket_find t k = None \<longleftrightarrow> ht_contents t k = None"
proof (cases "bucket_find t k")
  case (Some n)
  then obtain node where "ht_nodes t n = Some node" using bucket_find_iff[OF assms] by blast
  moreover from this obtain v where "node_value node = Some v" using ht_node(1)[OF assms] by blast
  ultimately have "ht_contents t k = Some v" using Some hashtable_get_contents[OF assms, of k]
    by (simp add: hashtable_get_def hashtable_lookup_def)
  then show ?thesis using Some by simp
qed (use hashtable_get_contents[OF assms, of k] in \<open>simp add: hashtable_get_def hashtable_lookup_def\<close>)

text \<open>A table without iterators is a map; memory for a new node is unused.\<close>

definition ht_env_ok :: "nat option \<Rightarrow> ('c, 'u, 'v) hash_table \<Rightarrow> bool" where
  "ht_env_ok calloc t = (case calloc of None \<Rightarrow> False | Some n \<Rightarrow> ht_nodes t n = None)"

interpretation ht: strict_map_store
  "hashtable_map malloc_ok malloc_errno :: (nat option, ('c, 'u, 'v) hash_table, hashtable_iter, 'c, 'u, 'v) qb_map" "ht_inv None" ht_env_ok "\<lambda>_. True" ht_contents
  for malloc_ok malloc_errno
proof
  fix t :: "('c, 'u, 'v) hash_table" and k v calloc
  assume inv: "ht_inv None t"
  show "mget (hashtable_map malloc_ok malloc_errno) t k = Some (ht_contents t k)"
    using hashtable_get_contents[OF inv] by (simp add: hashtable_map_def)
  show "mcount_get (hashtable_map malloc_ok malloc_errno) t = of_nat (card (dom (ht_contents t)))"
    using ht_count_contents[OF inv] by (simp add: hashtable_map_def)
  show "\<exists>ns s'. mput (hashtable_map malloc_ok malloc_errno) calloc t k (Some v) = Some (ns, s') \<and> ht_inv None s' \<and>
      ht_contents s' = (ht_contents t)(k \<mapsto> v)" if "ht_env_ok calloc t"
    using that put_ok[OF inv, of _ k v] by (auto simp: hashtable_map_def ht_env_ok_def split: option.splits)
  show "\<exists>ns s'. mrm (hashtable_map malloc_ok malloc_errno) t k = Some (True, ns, s') \<and> ht_inv None s' \<and>
      ht_contents s' = (ht_contents t)(k := None)" if "ht_contents t k \<noteq> None"
    using that rm_found[OF inv] bucket_find_contents[OF inv, of k] by (auto simp: hashtable_map_def)
  show "mrm (hashtable_map malloc_ok malloc_errno) t k = Some (False, [], t)" if "ht_contents t k = None"
    using that rm_absent bucket_find_contents[OF inv, of k] by (simp add: hashtable_map_def)
qed

section \<open>Iterating\<close>

text \<open>The nodes that an iterator has still to visit.\<close>

definition rest_of :: "hashtable_iter \<Rightarrow> ('c, 'u, 'v) hash_table \<Rightarrow> nat list" where
  "rest_of hi t =
     (if hi_bucket hi < hash_buckets_len t
      then bucket_after (hi_node hi) (hash_buckets t ! hi_bucket hi) @ concat (drop (Suc (hi_bucket hi)) (hash_buckets t))
      else [])"

text \<open>The table while an iterator is at a node.\<close>

definition hold :: "nat option \<Rightarrow> ('c, 'u, 'v) hash_table \<Rightarrow> ('c, 'u, 'v) hash_table" where
  "hold held t =
     (case held of None \<Rightarrow> t
      | Some p \<Rightarrow> t\<lparr>ht_nodes := (ht_nodes t)(p \<mapsto> (the (ht_nodes t p))\<lparr>node_refcount := 2\<rparr>)\<rparr>)"

definition live :: "('c, 'u, 'v) hash_table \<Rightarrow> nat \<Rightarrow> bool" where
  "live t n \<longleftrightarrow> (case ht_nodes t n of None \<Rightarrow> False | Some node \<Rightarrow> node_refcount node > 0)"

lemma first_live_hd: "\<forall>n\<in>set ns. live t n \<Longrightarrow> first_live t ns = (case ns of [] \<Rightarrow> None | n # _ \<Rightarrow> Some n)"
  by (cases ns) (simp_all add: first_live_def live_def)

lemma bucket_after_subset: "set (bucket_after node ns) \<subseteq> set ns"
  unfolding bucket_after_def
  by (cases node) (simp_all, metis dual_order.trans list.sel(2) set_dropWhileD subsetI tl_Nil set_subset_Cons list.exhaust_sel)

lemma bucket_after_next:
  assumes "distinct ns" "bucket_after node ns = n # r"
  shows "bucket_after (Some n) ns = r"
proof -
  obtain pre where pre: "ns = pre @ n # r"
  proof (cases node)
    case None
    then show thesis using that[of "[]"] assms(2) by (simp add: bucket_after_def)
  next
    case (Some p)
    obtain d where d: "dropWhile (\<lambda>x. x \<noteq> p) ns = d # n # r"
      using assms(2) Some by (cases "dropWhile (\<lambda>x. x \<noteq> p) ns") (auto simp: bucket_after_def)
    then show thesis using that[of "takeWhile (\<lambda>x. x \<noteq> p) ns @ [d]"] takeWhile_dropWhile_id[of "\<lambda>x. x \<noteq> p" ns] by simp
  qed
  then have "dropWhile (\<lambda>x. x \<noteq> n) ns = n # r" using assms(1) by (auto simp: dropWhile_append)
  then show ?thesis by (simp add: bucket_after_def)
qed

lemma iter_scan_rest:
  assumes "\<forall>n\<in>set (bucket_after node ns @ concat nss). live t n" "\<forall>x\<in>set (ns # nss). distinct x"
  shows "bucket_after node ns @ concat nss = [] \<Longrightarrow> iter_scan t node b (ns # nss) = None"
    and "bucket_after node ns @ concat nss = n # r \<Longrightarrow>
           \<exists>k. k \<le> length nss \<and> iter_scan t node b (ns # nss) = Some (b + k, n) \<and>
             bucket_after (Some n) ((ns # nss) ! k) @ concat (drop k nss) = r \<and> n \<in> set ((ns # nss) ! k)"
  using assms
proof (induction nss arbitrary: node b ns)
  case Nil
  case 1
  then show ?case by (simp add: first_live_def)
next
  case Nil
  case 2
  then show ?case using first_live_hd[of "bucket_after node ns" t] bucket_after_next[of ns node n r] bucket_after_subset[of node ns]
    by auto
next
  case (Cons ms nss)
  case 1
  then show ?case using Cons.IH(1)[of None ms "Suc b"] by (simp add: first_live_def bucket_after_def)
next
  case (Cons ms nss)
  case 2
  show ?case
  proof (cases "bucket_after node ns")
    case Nil
    have "bucket_after None ms = ms" by (simp add: bucket_after_def)
    then obtain k where "k \<le> length nss" "iter_scan t None (Suc b) (ms # nss) = Some (Suc b + k, n)"
      "bucket_after (Some n) ((ms # nss) ! k) @ concat (drop k nss) = r" "n \<in> set ((ms # nss) ! k)"
      using Cons.IH(2)[of None ms "Suc b"] 2 Nil by auto
    then show ?thesis using Nil by (intro exI[of _ "Suc k"]) (simp add: first_live_def)
  next
    case (Cons n' r')
    then have "n' = n" using 2(1) by simp
    moreover have "first_live t (bucket_after node ns) = Some n'" using Cons 2(2) first_live_hd[of "bucket_after node ns" t] by simp
    ultimately show ?thesis using Cons bucket_after_next[of ns node n' r'] 2 bucket_after_subset[of node ns]
      by (intro exI[of _ 0]) auto
  qed
qed

text \<open>One step of an iteration: the next node is held, the last one is given up.\<close>

lemma hold_inv:
  assumes "ht_inv None t" "\<And>p. held = Some p \<Longrightarrow> ht_nodes t p \<noteq> None"
  shows "ht_inv held (hold held t)" "ht_contents (hold held t) = ht_contents t" "hash_buckets (hold held t) = hash_buckets t"
proof -
  have "ht_inv held (hold held t) \<and> ht_contents (hold held t) = ht_contents t"
  proof (cases held)
    case None
    then show ?thesis using assms by (simp add: hold_def)
  next
    case (Some p)
    then obtain node where node: "ht_nodes t p = Some node" using assms(2) by blast
    obtain v where v: "node_value node = Some v" using ht_node(1)[OF assms(1) node] by blast
    have "ht_contents t (node_key node) = Some v" using ht_contents_iff[OF assms(1)] node_hasI[of "ht_nodes t" p node, OF node _ v] by simp
    then have "(ht_contents t)(node_key node \<mapsto> v) = ht_contents t" by (simp add: fun_upd_idem)
    then show ?thesis using node_update_ok[OF assms(1) node, of "node\<lparr>node_refcount := 2\<rparr>" v "Some p"] node v Some
      by (simp add: hold_def)
  qed
  then show "ht_inv held (hold held t)" "ht_contents (hold held t) = ht_contents t" by simp_all
  show "hash_buckets (hold held t) = hash_buckets t" by (simp add: hold_def split: option.splits)
qed

definition iter_at :: "hashtable_iter \<Rightarrow> ('c, 'u, 'v) hash_table \<Rightarrow> bool" where
  "iter_at hi t \<longleftrightarrow> hi_bucket hi < hash_buckets_len t \<and>
     (\<forall>p. hi_node hi = Some p \<longrightarrow> p \<in> set (hash_buckets t ! hi_bucket hi))"

lemma bucket_split: "b < length bs \<Longrightarrow> concat bs = concat (take b bs) @ bs ! b @ concat (drop (Suc b) bs)"
  by (metis concat.simps(2) concat_append id_take_nth_drop)

lemma rest_apart:
  assumes "distinct (concat bs)" "b < length bs" "p \<in> set (bs ! b)"
  shows "p \<notin> set (bucket_after (Some p) (bs ! b) @ concat (drop (Suc b) bs))"
proof -
  have d: "distinct (bs ! b)" "set (bs ! b) \<inter> set (concat (drop (Suc b) bs)) = {}"
    using assms(1) unfolding bucket_split[OF assms(2)] by auto
  obtain xs ys where xy: "bs ! b = xs @ p # ys" using split_list[OF assms(3)] by blast
  then have "bucket_after (Some p) (bs ! b) = ys" using d(1) by (auto simp: bucket_after_def dropWhile_append)
  then show ?thesis using d xy by auto
qed

lemma rest_subset:
  assumes "hi_bucket hi < hash_buckets_len t"
  shows "set (rest_of hi t) \<subseteq> set (all_nodes t)"
  unfolding bucket_split[OF assms] using bucket_after_subset[of "hi_node hi" "hash_buckets t ! hi_bucket hi"] assms
  by (auto simp: rest_of_def)

lemma hold_nodes: "ht_nodes (hold held t) n = (if held = Some n then Some ((the (ht_nodes t n))\<lparr>node_refcount := 2\<rparr>) else ht_nodes t n)"
  by (auto simp: hold_def split: option.splits)

lemma iter_scan_hold:
  assumes inv: "ht_inv None t" and hi: "iter_at hi t"
  shows "rest_of hi t = [] \<Longrightarrow>
           iter_scan (hold (hi_node hi) t) (hi_node hi) (hi_bucket hi) (drop (hi_bucket hi) (hash_buckets t)) = None"
    and "rest_of hi t = n # r \<Longrightarrow>
           \<exists>b. iter_scan (hold (hi_node hi) t) (hi_node hi) (hi_bucket hi) (drop (hi_bucket hi) (hash_buckets t)) = Some (b, n) \<and>
             iter_at \<lparr>hi_node = Some n, hi_bucket = b\<rparr> t \<and> rest_of \<lparr>hi_node = Some n, hi_bucket = b\<rparr> t = r"
proof -
  let ?bs = "hash_buckets t" and ?b = "hi_bucket hi"
  have b: "?b < length ?bs" using hi by (simp add: iter_at_def)
  have dr: "drop ?b ?bs = ?bs ! ?b # drop (Suc ?b) ?bs" using b by (simp add: Cons_nth_drop_Suc)
  have rest: "rest_of hi t = bucket_after (hi_node hi) (?bs ! ?b) @ concat (drop (Suc ?b) ?bs)" using b by (simp add: rest_of_def)
  have "live (hold (hi_node hi) t) n" if "n \<in> set (all_nodes t)" for n
  proof -
    have "n \<in> dom (ht_nodes t)" using that inv unfolding ht_inv_def by blast
    then obtain node where "ht_nodes t n = Some node" by blast
    then show ?thesis using ht_node(2)[OF inv, of n node] by (simp add: live_def hold_nodes)
  qed
  then have l: "\<forall>n\<in>set (bucket_after (hi_node hi) (?bs ! ?b) @ concat (drop (Suc ?b) ?bs)). live (hold (hi_node hi) t) n"
    using rest_subset[OF b] unfolding rest by blast
  have "distinct x" if "x \<in> set ?bs" for x using that inv by (auto simp: ht_inv_def distinct_concat_iff)
  then have d: "\<forall>x\<in>set (?bs ! ?b # drop (Suc ?b) ?bs). distinct x" using b by (auto dest: in_set_dropD)
  show "iter_scan (hold (hi_node hi) t) (hi_node hi) ?b (drop ?b ?bs) = None" if "rest_of hi t = []"
    using iter_scan_rest(1)[OF l d] that rest dr by simp
  show "\<exists>b. iter_scan (hold (hi_node hi) t) (hi_node hi) ?b (drop ?b ?bs) = Some (b, n) \<and>
      iter_at \<lparr>hi_node = Some n, hi_bucket = b\<rparr> t \<and> rest_of \<lparr>hi_node = Some n, hi_bucket = b\<rparr> t = r" if nr: "rest_of hi t = n # r"
  proof -
    obtain k where k: "k \<le> length (drop (Suc ?b) ?bs)"
      "iter_scan (hold (hi_node hi) t) (hi_node hi) ?b (drop ?b ?bs) = Some (?b + k, n)"
      "bucket_after (Some n) (drop ?b ?bs ! k) @ concat (drop k (drop (Suc ?b) ?bs)) = r" "n \<in> set (drop ?b ?bs ! k)"
      using iter_scan_rest(2)[OF l d nr[unfolded rest], of ?b, folded dr] by blast
    then have "?b + k < length ?bs" "drop ?b ?bs ! k = ?bs ! (?b + k)" using b by simp_all
    then show ?thesis using k by (intro exI[of _ "?b + k"]) (simp add: iter_at_def rest_of_def add.commute)
  qed
qed

lemma unhold:
  assumes "ht_inv None t" "ht_nodes t p \<noteq> None"
  shows "hashtable_node_deref (hold (Some p) t) p = Some ([], t)"
proof -
  obtain node where node: "ht_nodes t p = Some node" using assms(2) by blast
  have "node\<lparr>node_refcount := 1\<rparr> = node" using ht_node(2)[OF assms(1) node] by simp
  then have "(hold (Some p) t)\<lparr>ht_nodes := (ht_nodes (hold (Some p) t))(p \<mapsto> node\<lparr>node_refcount := 1\<rparr>)\<rparr> = t"
    using node by (cases t) (simp add: hold_def fun_upd_idem)
  then show ?thesis using deref_held[of "hold (Some p) t" p "node\<lparr>node_refcount := 2\<rparr>"] node by (simp add: hold_nodes)
qed

lemma iter_next_ok:
  assumes inv: "ht_inv None t" and hi: "iter_at hi t"
  shows "rest_of hi t = [] \<Longrightarrow> hashtable_iter_next hi (hold (hi_node hi) t) = Some (None, [], hi, t)"
    and "rest_of hi t = n # r \<Longrightarrow>
      \<exists>hi'. hashtable_iter_next hi (hold (hi_node hi) t) =
              Some (Some (key_of t n, value_of t n), [], hi', hold (Some n) t) \<and>
            hi_node hi' = Some n \<and> iter_at hi' t \<and> rest_of hi' t = r"
proof -
  have in_nodes: "ht_nodes t x \<noteq> None" if "x \<in> set (all_nodes t)" for x using that inv unfolding ht_inv_def by blast
  have p: "ht_nodes t p \<noteq> None" "p \<notin> set (rest_of hi t)" if "hi_node hi = Some p" for p
  proof -
    have b: "hi_bucket hi < hash_buckets_len t" "p \<in> set (hash_buckets t ! hi_bucket hi)" using hi that by (simp_all add: iter_at_def)
    then show "ht_nodes t p \<noteq> None" using in_nodes bucket_subset by blast
    have "distinct (all_nodes t)" using inv by (simp add: ht_inv_def)
    from rest_apart[OF this b] show "p \<notin> set (rest_of hi t)" using b that by (simp add: rest_of_def)
  qed
  have bs: "hash_buckets (hold (hi_node hi) t) = hash_buckets t" by (simp add: hold_def split: option.splits)
  have alive: "\<not> (case hi_node hi of None \<Rightarrow> False | Some p \<Rightarrow> ht_nodes (hold (hi_node hi) t) p = None)"
    by (simp add: hold_nodes split: option.splits)
  show "hashtable_iter_next hi (hold (hi_node hi) t) = Some (None, [], hi, t)" if "rest_of hi t = []"
    using iter_scan_hold(1)[OF inv hi that] alive p(1) unhold[OF inv]
    by (cases "hi_node hi") (simp_all add: hashtable_iter_next_def bs hold_def)
  assume rest: "rest_of hi t = n # r"
  then obtain b where b: "iter_scan (hold (hi_node hi) t) (hi_node hi) (hi_bucket hi) (drop (hi_bucket hi) (hash_buckets t)) = Some (b, n)"
    "iter_at \<lparr>hi_node = Some n, hi_bucket = b\<rparr> t" "rest_of \<lparr>hi_node = Some n, hi_bucket = b\<rparr> t = r"
    using iter_scan_hold(2)[OF inv hi] by blast
  have "n \<in> set (all_nodes t)" using rest rest_subset[of hi t] hi by (auto simp: iter_at_def)
  then obtain nn where nn: "ht_nodes t n = Some nn" using in_nodes by blast
  have ref: "node_refcount nn = 1" using ht_node(2)[OF inv nn] by simp
  have ne: "hi_node hi \<noteq> Some n" using p(2)[of n] rest by auto
  let ?t1 = "(hold (hi_node hi) t)\<lparr>ht_nodes := (ht_nodes (hold (hi_node hi) t))(n \<mapsto> nn\<lparr>node_refcount := 2\<rparr>)\<rparr>"
  have "(case hi_node hi of None \<Rightarrow> Some ([], ?t1) | Some p \<Rightarrow> hashtable_node_deref ?t1 p) = Some ([], hold (Some n) t)"
  proof (cases "hi_node hi")
    case None
    then show ?thesis using nn by (simp add: hold_def)
  next
    case (Some p)
    obtain np where np: "ht_nodes t p = Some np" using p(1)[OF Some] by blast
    have "np\<lparr>node_refcount := 1\<rparr> = np" using ht_node(2)[OF inv np] by simp
    then have "?t1\<lparr>ht_nodes := (ht_nodes ?t1)(p \<mapsto> np\<lparr>node_refcount := 1\<rparr>)\<rparr> = hold (Some n) t"
      using np nn Some ne by (cases t) (auto simp: hold_def fun_upd_twist)
    then show ?thesis using deref_held[of ?t1 p "np\<lparr>node_refcount := 2\<rparr>"] np Some ne by (simp add: hold_nodes)
  qed
  moreover have "key_of (hold (Some n) t) n = key_of t n" "value_of ?t1 n = value_of t n" using nn by (simp_all add: hold_nodes)
  moreover have "the (ht_nodes (hold (hi_node hi) t) n) = nn" using nn ne by (simp add: hold_nodes)
  ultimately have "hashtable_iter_next hi (hold (hi_node hi) t) =
      Some (Some (key_of t n, value_of t n), [], \<lparr>hi_node = Some n, hi_bucket = b\<rparr>, hold (Some n) t)"
    using alive b(1) ref by (simp add: hashtable_iter_next_def bs)
  then show "\<exists>hi'. hashtable_iter_next hi (hold (hi_node hi) t) =
      Some (Some (key_of t n, value_of t n), [], hi', hold (Some n) t) \<and> hi_node hi' = Some n \<and> iter_at hi' t \<and> rest_of hi' t = r"
    using b(2,3) by (intro exI[of _ "\<lparr>hi_node = Some n, hi_bucket = b\<rparr>"]) simp
qed

text \<open>The whole loop, for a client function that never stops.\<close>

lemma foreach_loop_rest:
  assumes inv: "ht_inv None t" and cont: "\<And>k v x. \<not> fst (func k v x)"
  shows "iter_at hi t \<Longrightarrow>
    \<exists>hi'. foreach_loop (hashtable_map ok e) func hi (hold (hi_node hi) t) x =
      Some (fold (\<lambda>n x. snd (func (key_of t n) (value_of t n) x)) (rest_of hi t) x, hi', t)"
proof (induction "rest_of hi t" arbitrary: hi x)
  case Nil
  then show ?case using iter_next_ok(1)[OF inv Nil.prems] by (subst foreach_loop.simps) (simp add: hashtable_map_def)
next
  case (Cons n r)
  obtain hi1 where hi1: "hashtable_iter_next hi (hold (hi_node hi) t) = Some (Some (key_of t n, value_of t n), [], hi1, hold (Some n) t)"
    "hi_node hi1 = Some n" "iter_at hi1 t" "rest_of hi1 t = r"
    using iter_next_ok(2)[OF inv Cons.prems Cons.hyps(2)[symmetric]] by blast
  obtain y where y: "func (key_of t n) (value_of t n) x = (False, y)" using cont[of "key_of t n" "value_of t n" x] by (metis prod.collapse)
  obtain hi' where "foreach_loop (hashtable_map ok e) func hi1 (hold (hi_node hi1) t) y =
      Some (fold (\<lambda>n x. snd (func (key_of t n) (value_of t n) x)) r y, hi', t)"
    using Cons.hyps(1)[OF hi1(4)[symmetric] hi1(3), of y] hi1(4) by auto
  then show ?case using hi1 y Cons.hyps(2)[symmetric] by (subst foreach_loop.simps) (simp add: hashtable_map_def)
qed

lemma foreach_start:
  assumes "ht_inv None t"
  shows "iter_at \<lparr>hi_node = None, hi_bucket = 0\<rparr> t" "rest_of \<lparr>hi_node = None, hi_bucket = 0\<rparr> t = all_nodes t"
proof -
  have "0 < hash_buckets_len t" using assms by (simp add: ht_inv_def)
  then show "iter_at \<lparr>hi_node = None, hi_bucket = 0\<rparr> t" "rest_of \<lparr>hi_node = None, hi_bucket = 0\<rparr> t = all_nodes t"
    using bucket_split[of 0 "hash_buckets t"] by (simp_all add: iter_at_def rest_of_def bucket_after_def)
qed

section \<open>Properties of the hash table\<close>

text \<open>
  C29: Any sequence of puts, gets, removals and counts on a table that no iterator uses gives the
  results of the same sequence on a finite map, whatever the hash values are.
\<close>

theorem hashtable_refines_map:
  assumes "ht_inv None t" "run_ok ht_env_ok (\<lambda>_. True) False (hashtable_map ok e) ops t"
  shows "\<exists>t'. map_run (hashtable_map ok e) ops t = Some (fst (spec_map_run ops (ht_contents t)), t') \<and> ht_inv None t' \<and>
           ht_contents t' = snd (spec_map_run ops (ht_contents t))"
  by (rule ht.run_total[OF assms])

definition ex_ht :: "(nat, nat, nat) hash_table" where
  "ex_ht = \<lparr>ht_count = 0, ht_order = 3, hash_buckets = [[], [], [], [], [], [], [], []], ht_notifiers = [], ht_nodes = Map.empty\<rparr>"

lemma ex_ht_inv: "ht_inv None ex_ht"
  by (simp add: ht_inv_def ex_ht_def less_Suc_eq numeral_eq_Suc)

lemma ex_ht_contents: "ht_contents ex_ht = Map.empty"
  by (simp add: ht_contents_def ht_entries_def ex_ht_def)

theorem hashtable_refines_map_witness:
  "\<exists>t'. map_run (hashtable_map True 0) [MPut (Some 1) ''a'' 5, MGet ''a''] ex_ht = Some ([OUnit, OValue (Some 5)], t')"
proof -
  have "run_ok ht_env_ok (\<lambda>_. True) False (hashtable_map True 0) [MPut (Some 1) ''a'' 5, MGet ''a''] ex_ht"
    by (simp add: ht_env_ok_def split: option.splits) (simp add: ex_ht_def)
  from hashtable_refines_map[OF ex_ht_inv this] show ?thesis by (auto simp: ex_ht_contents)
qed

text \<open>
  C36: \<^verbatim>\<open>qb_map_foreach\<close> on a hash table visits every entry exactly once, bucket by bucket, ends, and
  leaves the table exactly as it was, the reference counts included.
\<close>

theorem hashtable_foreach_visits_all:
  assumes "ht_inv None t" "\<And>k v x. \<not> fst (func k v x)"
  shows "qb_map_foreach (hashtable_map True e) t func x =
           Some (fold (\<lambda>(k, v) x. snd (func k (Some v) x)) (ht_entries t) x, t) \<and>
         distinct (map fst (ht_entries t)) \<and> map_of (ht_entries t) = ht_contents t"
proof -
  obtain hi where "foreach_loop (hashtable_map True e) func \<lparr>hi_node = None, hi_bucket = 0\<rparr> t x =
      Some (fold (\<lambda>n x. snd (func (key_of t n) (value_of t n) x)) (all_nodes t) x, hi, t)"
    using foreach_loop_rest[where func = func and ok = True and e = e and x = x, OF assms foreach_start(1)[OF assms(1)]] foreach_start(2)[OF assms(1)]
    by (auto simp: hold_def)
  moreover have "value_of t n = Some (the (value_of t n))" if "n \<in> set (all_nodes t)" for n
  proof -
    have "n \<in> dom (ht_nodes t)" using that assms(1) unfolding ht_inv_def by blast
    then show ?thesis using ht_node(1)[OF assms(1)] by force
  qed
  then have "fold (\<lambda>n x. snd (func (key_of t n) (value_of t n) x)) (all_nodes t) x =
      fold (\<lambda>(k, v) x. snd (func k (Some v) x)) (ht_entries t) x"
    unfolding ht_entries_def fold_map comp_def by (intro fold_cong) (simp_all add: fun_eq_iff)
  ultimately show ?thesis using ht_entries_keys[OF assms(1)]
    by (simp add: qb_map_foreach_def qb_map_iter_create_def qb_map_iter_free_def hashtable_map_def hashtable_iter_create_def
        hashtable_iter_free_def ht_contents_def)
qed

definition ex_ht1 :: "(nat, nat, nat) hash_table" where
  "ex_ht1 = \<lparr>ht_count = 1, ht_order = 3, hash_buckets = [[], [1], [], [], [], [], [], []], ht_notifiers = [],
     ht_nodes = [1 \<mapsto> \<lparr>node_value = Some 5, node_key = ''a'', node_refcount = 1, node_notifiers = []\<rparr>]\<rparr>"

lemma ex_ht1_inv: "ht_inv None ex_ht1"
proof -
  have h: "hash_entry ex_ht1 ''a'' = 1"
    by (simp add: hash_entry_def qb_hash_string_def hash_fnv_def string_bytes_def FNV_32_PRIME_def ex_ht1_def)
  have "hash_entry ex_ht1 (key_of ex_ht1 n) = b" if "b < 8" "n \<in> set (hash_buckets ex_ht1 ! b)" for b n
  proof -
    have "b = 1 \<and> n = 1" using that by (auto simp: ex_ht1_def less_Suc_eq numeral_eq_Suc)
    then show ?thesis using h by (simp add: ex_ht1_def)
  qed
  then have "\<forall>b<hash_buckets_len ex_ht1. \<forall>n\<in>set (hash_buckets ex_ht1 ! b). hash_entry ex_ht1 (key_of ex_ht1 n) = b"
    by (simp add: ex_ht1_def)
  then show ?thesis by (simp add: ht_inv_def) (simp add: ex_ht1_def)
qed

lemma ex_ht1_entries: "ht_entries ex_ht1 = [(''a'', 5)]"
  by (simp add: ht_entries_def ex_ht1_def)

theorem hashtable_foreach_visits_all_witness:
  "qb_map_foreach (hashtable_map True 0) ex_ht1 (\<lambda>k v x. (False, (k, v) # x)) [] = Some ([(''a'', Some 5)], ex_ht1)"
  using hashtable_foreach_visits_all[OF ex_ht1_inv, of "\<lambda>k v x. (False, (k, v) # x)" 0 "[]"]
  by (simp add: ex_ht1_entries)

text \<open>
  When the client's function stops \<^verbatim>\<open>qb_map_foreach\<close> early, the iterator's reference to the
  entry is never given up: a later removal of that key reports success and decrements the count,
  but notifies nobody and leaves the value in the table.
\<close>

theorem hashtable_foreach_stopped_leaks:
  assumes inv: "ht_inv None t" and entries: "ht_entries t = (k, v) # es" and stop: "func k (Some v) x = (True, y)"
  shows "\<exists>t' t''. qb_map_foreach (hashtable_map True e) t func x = Some (y, t') \<and> hashtable_rm t' k = Some (True, [], t'') \<and>
           hashtable_get t'' k = Some v \<and> hashtable_count_get t'' = hashtable_count_get t - 1"
proof -
  obtain n r where n: "all_nodes t = n # r" "key_of t n = k" "the (value_of t n) = v"
    using entries by (cases "all_nodes t") (auto simp: ht_entries_def)
  have "n \<in> dom (ht_nodes t)" using n(1) inv unfolding ht_inv_def by (metis list.set_intros(1))
  then obtain node where node: "ht_nodes t n = Some node" by blast
  have v: "value_of t n = Some v" using ht_node(1)[OF inv node] node n(3) by force
  obtain hi where hi: "hashtable_iter_next \<lparr>hi_node = None, hi_bucket = 0\<rparr> t = Some (Some (k, Some v), [], hi, hold (Some n) t)"
    using iter_next_ok(2)[OF inv foreach_start(1)[OF inv], of n r] foreach_start(2)[OF inv] n v by (auto simp: hold_def)
  have loop: "qb_map_foreach (hashtable_map True e) t func x = Some (y, hold (Some n) t)"
    using hi stop foreach_loop.simps[of "hashtable_map True e" func "\<lparr>hi_node = None, hi_bucket = 0\<rparr>" t x]
    by (simp add: qb_map_foreach_def qb_map_iter_create_def qb_map_iter_free_def hashtable_map_def hashtable_iter_create_def
        hashtable_iter_free_def)
  have inv': "ht_inv (Some n) (hold (Some n) t)" using hold_inv(1)[OF inv, of "Some n"] node by simp
  have "bucket_find (hold (Some n) t) k = Some n"
    using bucket_find_iff[OF inv', of k n] node n(2) by (simp add: hold_nodes)
  moreover have "hashtable_node_deref (hold (Some n) t) n = Some ([], t)" using unhold[OF inv] node by simp
  ultimately have rm: "hashtable_rm (hold (Some n) t) k = Some (True, [], t\<lparr>ht_count := ht_count t - 1\<rparr>)"
    by (simp add: hashtable_rm_def hashtable_rm_with_hash_def bucket_find_def)
  have "ht_contents t k = Some v" using entries by (simp add: ht_contents_def)
  then have "hashtable_get (t\<lparr>ht_count := ht_count t - 1\<rparr>) k = Some v"
    using hashtable_get_contents[OF inv, of k]
    by (simp add: hashtable_get_def hashtable_lookup_def bucket_find_def hash_entry_def split: option.splits)
  then show ?thesis using loop rm by (simp add: hashtable_count_get_def)
qed

theorem hashtable_foreach_stopped_leaks_witness:
  "\<exists>t' t''. qb_map_foreach (hashtable_map True 0) ex_ht1 (\<lambda>k v x. (True, x)) () = Some ((), t') \<and>
     hashtable_rm t' ''a'' = Some (True, [], t'') \<and> hashtable_get t'' ''a'' = Some 5"
  using hashtable_foreach_stopped_leaks[OF ex_ht1_inv ex_ht1_entries, of "\<lambda>k v x. (True, x)" "()" "()" 0] by auto

text \<open>The loop of the constructor.\<close>

lemma halve_loop_nat:
  "\<exists>k. halve_loop (int n) i = Some (i + k) \<and> n < 2 ^ k \<and> (2 ^ k \<le> 2 * n \<or> k = 0 \<and> n = 0)"
proof (induction n arbitrary: i rule: less_induct)
  case (less n)
  show ?case
  proof (cases "n = 0")
    case True
    then show ?thesis by (subst halve_loop.simps) simp
  next
    case False
    then obtain k where k: "halve_loop (int (n div 2)) (Suc i) = Some (Suc i + k)" "n div 2 < 2 ^ k"
      "2 ^ k \<le> 2 * (n div 2) \<or> k = 0 \<and> n div 2 = 0" using less[of "n div 2" "Suc i"] by auto
    have "halve_loop (int n) i = Some (i + Suc k)"
      using False k(1) by (subst halve_loop.simps) (simp add: zdiv_int)
    moreover have "n < 2 ^ Suc k" using k(2) by simp
    moreover have "2 ^ Suc k \<le> 2 * n" using k(3) False by auto
    ultimately show ?thesis by blast
  qed
qed

lemma halve_loop_negative: "halve_loop n i = Some r \<Longrightarrow> 0 \<le> n"
  by (rule halve_loop.raw_induct[of "\<lambda>n i r. 0 \<le> n" n i r])
    (assumption | fastforce split: if_splits simp: pos_imp_zdiv_nonneg_iff)+



end
