(* ===== verification/Skiplist_Map.thy ===== *)
theory Skiplist_Map
  imports Skiplist Hashtable
begin

text \<open>
  The skip list is a map: the invariant of the list between operations, the loops of a search on
  it, and what each operation does. The shape of the list is that of the theory \<open>Skip_Shape\<close>; here
  the pointers are read from the arrays in memory.
\<close>

section \<open>Pointers in memory\<close>

definition nx :: "('c, 'u, 'v) skiplist \<Rightarrow> nat \<Rightarrow> nat \<Rightarrow> nat option" where
  "nx s q l = (case forward_get s q l of None \<Rightarrow> None | Some f \<Rightarrow> f)"

text \<open>Every node has an array of its own, and no other array is allocated.\<close>

definition heap_ok :: "('c, 'u, 'v) skiplist \<Rightarrow> bool" where
  "heap_ok s \<longleftrightarrow>
     (\<forall>q node. sl_nodes s q = Some node \<longrightarrow> (\<exists>a. sl_arrays s (sn_forward node) = Some a \<and> length a = SKIPLIST_LEVEL_COUNT)) \<and>
     (\<forall>p q np nq. sl_nodes s p = Some np \<longrightarrow> sl_nodes s q = Some nq \<longrightarrow> sn_forward np = sn_forward nq \<longrightarrow> p = q) \<and>
     dom (sl_arrays s) = sn_forward ` ran (sl_nodes s)"

lemma heap_array:
  assumes "heap_ok s" "sl_nodes s q = Some node"
  obtains a where "sl_arrays s (sn_forward node) = Some a" "length a = SKIPLIST_LEVEL_COUNT"
  using assms unfolding heap_ok_def by blast

lemma heap_own:
  "heap_ok s \<Longrightarrow> sl_nodes s p = Some np \<Longrightarrow> sl_nodes s q = Some nq \<Longrightarrow> sn_forward np = sn_forward nq \<longleftrightarrow> p = q"
  unfolding heap_ok_def by fastforce

lemma forward_get_nx:
  assumes "heap_ok s" "sl_nodes s q \<noteq> None" "l < SKIPLIST_LEVEL_COUNT"
  shows "forward_get s q l = Some (nx s q l)"
proof -
  obtain node where node: "sl_nodes s q = Some node" using assms(2) by blast
  obtain a where "sl_arrays s (sn_forward node) = Some a" "length a = SKIPLIST_LEVEL_COUNT" by (rule heap_array[OF assms(1) node])
  then show ?thesis using node assms(3) by (simp add: nx_def forward_get_def)
qed

lemma nx_outside: "heap_ok s \<Longrightarrow> SKIPLIST_LEVEL_COUNT \<le> l \<Longrightarrow> nx s q l = None"
  by (cases "sl_nodes s q") (auto simp: nx_def forward_get_def elim: heap_array split: bind_splits)

text \<open>Two lists that differ in their arrays only.\<close>

definition same_nodes :: "('c, 'u, 'v) skiplist \<Rightarrow> ('c, 'u, 'v) skiplist \<Rightarrow> bool" where
  "same_nodes s s' \<longleftrightarrow> s' = s\<lparr>sl_arrays := sl_arrays s'\<rparr>"

lemma same_nodes_fields:
  assumes "same_nodes s s'"
  shows "sl_nodes s' = sl_nodes s" "sl_header s' = sl_header s" "sl_level s' = sl_level s" "sl_length s' = sl_length s"
  using assms unfolding same_nodes_def by (metis skiplist.select_convs skiplist.surjective skiplist.update_convs(5))+

lemma same_nodes_refl [simp]: "same_nodes s s"
  by (simp add: same_nodes_def)

lemma same_nodes_trans: "same_nodes s s' \<Longrightarrow> same_nodes s' s'' \<Longrightarrow> same_nodes s s''"
  by (auto simp: same_nodes_def) (metis skiplist.surjective skiplist.update_convs(5))

lemma forward_set_nx:
  assumes heap: "heap_ok s" and q: "sl_nodes s q \<noteq> None" and l: "l < SKIPLIST_LEVEL_COUNT"
  obtains s' where "forward_set q l v s = Some s'" "same_nodes s s'" "heap_ok s'"
    "\<And>p i. nx s' p i = (if p = q \<and> i = l then v else nx s p i)"
proof -
  obtain node where node: "sl_nodes s q = Some node" using q by blast
  obtain a where a: "sl_arrays s (sn_forward node) = Some a" "length a = SKIPLIST_LEVEL_COUNT" by (rule heap_array[OF heap node])
  define s' where "s' = s\<lparr>sl_arrays := (sl_arrays s)(sn_forward node \<mapsto> a[l := v])\<rparr>"
  have "forward_set q l v s = Some s'" using node a l by (simp add: forward_set_def s'_def)
  moreover have "same_nodes s s'" by (simp add: same_nodes_def s'_def)
  moreover have "heap_ok s'"
  proof -
    have "sn_forward node \<in> dom (sl_arrays s)" using a by blast
    then have "dom (sl_arrays s') = dom (sl_arrays s)" by (auto simp: s'_def)
    moreover have "sl_nodes s' = sl_nodes s" by (simp add: s'_def)
    moreover have "\<exists>a. sl_arrays s' (sn_forward n) = Some a \<and> length a = SKIPLIST_LEVEL_COUNT" if "sl_nodes s p = Some n" for p n
      using heap that a unfolding heap_ok_def by (simp add: s'_def)
    ultimately show ?thesis using heap unfolding heap_ok_def by simp
  qed
  moreover have "nx s' p i = (if p = q \<and> i = l then v else nx s p i)" for p i
  proof (cases "sl_nodes s p")
    case None
    then show ?thesis using node by (auto simp: nx_def forward_get_def s'_def)
  next
    case (Some np)
    obtain b where b: "sl_arrays s (sn_forward np) = Some b" by (rule heap_array[OF heap Some])
    show ?thesis
    proof (cases "p = q")
      case True
      then show ?thesis using a l node by (simp add: nx_def forward_get_def s'_def)
    next
      case False
      then have "sn_forward np \<noteq> sn_forward node" using heap_own[OF heap Some node] by simp
      then show ?thesis using False Some b by (simp add: nx_def forward_get_def s'_def)
    qed
  qed
  ultimately show ?thesis using that by blast
qed

section \<open>Loops that set pointers\<close>

lemma drop_in_nx:
  assumes "heap_ok s" "distinct ls" "sl_nodes s n \<noteq> None"
    and "\<And>l. l \<in> set ls \<Longrightarrow> l < SKIPLIST_LEVEL_COUNT \<and> update l = Some (u l) \<and> sl_nodes s (u l) \<noteq> None \<and> u l \<noteq> n"
  shows "\<exists>s'. drop_in ls update n s = Some s' \<and> same_nodes s s' \<and> heap_ok s' \<and>
           (\<forall>q l. nx s' q l = (if l \<in> set ls then (if q = n then nx s (u l) l else if q = u l then Some n else nx s q l) else nx s q l))"
  using assms
proof (induction ls arbitrary: s)
  case (Cons l ls)
  have l: "l < SKIPLIST_LEVEL_COUNT" "update l = Some (u l)" "sl_nodes s (u l) \<noteq> None" "u l \<noteq> n" using Cons.prems(4)[of l] by simp_all
  obtain s1 where s1: "forward_set n l (nx s (u l) l) s = Some s1" "same_nodes s s1" "heap_ok s1"
    "\<And>p i. nx s1 p i = (if p = n \<and> i = l then nx s (u l) l else nx s p i)"
    using forward_set_nx[OF Cons.prems(1,3) l(1)] by blast
  note n1 = same_nodes_fields[OF s1(2)]
  obtain s2 where s2: "forward_set (u l) l (Some n) s1 = Some s2" "same_nodes s1 s2" "heap_ok s2"
    "\<And>p i. nx s2 p i = (if p = u l \<and> i = l then Some n else nx s1 p i)"
    using forward_set_nx[OF s1(3) _ l(1), of "u l" "Some n"] l(3) n1 by metis
  note n2 = same_nodes_fields[OF s2(2)]
  obtain s3 where s3: "drop_in ls update n s2 = Some s3" "same_nodes s2 s3" "heap_ok s3"
    "\<And>q i. nx s3 q i = (if i \<in> set ls then (if q = n then nx s2 (u i) i else if q = u i then Some n else nx s2 q i) else nx s2 q i)"
    using Cons.IH[OF s2(3)] Cons.prems n1 n2 by auto
  have "same_nodes s s3" using s1(2) s2(2) s3(2) by (blast intro: same_nodes_trans)
  moreover have "drop_in (l # ls) update n s = Some s3"
    using l s1(1) s2(1) s3(1) forward_get_nx[OF Cons.prems(1) l(3,1)] by simp
  moreover have "l \<notin> set ls" using Cons.prems(2) by simp
  ultimately show ?case using s3(3) l(4) by (intro exI[of _ s3]) (auto simp: s3(4) s2(4) s1(4))
qed simp

lemma splice_out_nx:
  assumes "heap_ok s" "distinct ls" "sl_nodes s f \<noteq> None"
    and "\<And>l. l \<in> set ls \<Longrightarrow> l < SKIPLIST_LEVEL_COUNT \<and> update l = Some (u l) \<and> sl_nodes s (u l) \<noteq> None"
  shows "\<exists>s'. splice_out ls update f s = Some s' \<and> same_nodes s s' \<and> heap_ok s' \<and>
           (\<forall>q l. nx s' q l = (if l \<in> set ls \<and> q = u l \<and> nx s q l = Some f then nx s f l else nx s q l))"
  using assms
proof (induction ls arbitrary: s)
  case (Cons l ls)
  have l: "l < SKIPLIST_LEVEL_COUNT" "update l = Some (u l)" "sl_nodes s (u l) \<noteq> None" using Cons.prems(4)[of l] by simp_all
  note get = forward_get_nx[OF Cons.prems(1) l(3,1)] forward_get_nx[OF Cons.prems(1,3) l(1)]
  obtain s1 where s1: "(if nx s (u l) l = Some f then do { g \<leftarrow> forward_get s f l; forward_set (u l) l g s } else Some s) = Some s1"
    "same_nodes s s1" "heap_ok s1" "\<And>p i. nx s1 p i = (if p = u l \<and> i = l \<and> nx s p i = Some f then nx s f l else nx s p i)"
  proof (cases "nx s (u l) l = Some f")
    case True
    obtain s1 where "forward_set (u l) l (nx s f l) s = Some s1" "same_nodes s s1" "heap_ok s1"
      "\<And>p i. nx s1 p i = (if p = u l \<and> i = l then nx s f l else nx s p i)"
      using forward_set_nx[OF Cons.prems(1) l(3,1)] by blast
    then show thesis using True get that[of s1] by auto
  next
    case False
    then have "nx s p i = (if p = u l \<and> i = l \<and> nx s p i = Some f then nx s f l else nx s p i)" for p i by (cases "p = u l \<and> i = l") auto
    then show thesis using False that[of s] Cons.prems(1) by simp
  qed
  note n1 = same_nodes_fields[OF s1(2)]
  obtain s3 where s3: "splice_out ls update f s1 = Some s3" "same_nodes s1 s3" "heap_ok s3"
    "\<And>q i. nx s3 q i = (if i \<in> set ls \<and> q = u i \<and> nx s1 q i = Some f then nx s1 f i else nx s1 q i)"
    using Cons.IH[OF s1(3)] Cons.prems n1 by auto
  have "same_nodes s s3" using s1(2) s3(2) by (blast intro: same_nodes_trans)
  moreover have "splice_out (l # ls) update f s = Some s3"
    using l s1(1) s3(1) get by (simp cong: if_cong)
  moreover have "l \<notin> set ls" using Cons.prems(2) by simp
  ultimately show ?case using s3(3) by (intro exI[of _ s3]) (auto simp: s3(4) s1(4))
qed simp

lemma copy_forward_nx:
  assumes "heap_ok s" "sl_nodes s c \<noteq> None" "sl_nodes s f \<noteq> None" "c \<noteq> f" "\<And>l. l \<in> set ls \<Longrightarrow> l < SKIPLIST_LEVEL_COUNT"
  shows "\<exists>s'. copy_forward ls c f s = Some s' \<and> same_nodes s s' \<and> heap_ok s' \<and>
           (\<forall>q l. nx s' q l = (if l \<in> set ls \<and> q = f then nx s c l else nx s q l))"
  using assms
proof (induction ls arbitrary: s)
  case (Cons l ls)
  have l: "l < SKIPLIST_LEVEL_COUNT" using Cons.prems(5) by simp
  obtain s1 where s1: "forward_set f l (nx s c l) s = Some s1" "same_nodes s s1" "heap_ok s1"
    "\<And>p i. nx s1 p i = (if p = f \<and> i = l then nx s c l else nx s p i)"
    using forward_set_nx[OF Cons.prems(1,3) l] by blast
  note n1 = same_nodes_fields[OF s1(2)]
  obtain s3 where s3: "copy_forward ls c f s1 = Some s3" "same_nodes s1 s3" "heap_ok s3"
    "\<And>q i. nx s3 q i = (if i \<in> set ls \<and> q = f then nx s1 c i else nx s1 q i)"
    using Cons.IH[OF s1(3)] Cons.prems n1 by auto
  have "same_nodes s s3" using s1(2) s3(2) by (blast intro: same_nodes_trans)
  moreover have "copy_forward (l # ls) c f s = Some s3"
    using s1(1) s3(1) forward_get_nx[OF Cons.prems(1,2) l] by simp
  ultimately show ?case using s3(3) Cons.prems(4) by (intro exI[of _ s3]) (auto simp: s3(4) s1(4))
qed simp

section \<open>Invariant\<close>

definition pos :: "('c, 'u, 'v) skiplist \<Rightarrow> nat \<Rightarrow> nat list option" where
  "pos s q = map_option rank (sn_key (the (sl_nodes s q)))"

definition lev :: "('c, 'u, 'v) skiplist \<Rightarrow> nat \<Rightarrow> nat" where
  "lev s q = nat (sn_level (the (sl_nodes s q)))"

definition node_ok :: "bool \<Rightarrow> ('c, 'u, 'v) skiplist_node \<Rightarrow> bool" where
  "node_ok header node \<longleftrightarrow> sn_refcount node = 1 \<and>
     (if header then sn_key node = None
      else sn_key node \<noteq> None \<and> sn_value node \<noteq> None \<and> SKIPLIST_LEVEL_MIN \<le> sn_level node \<and> sn_level node \<le> SKIPLIST_LEVEL_MAX)"

definition levels_ok :: "('c, 'u, 'v) skiplist \<Rightarrow> bool" where
  "levels_ok s \<longleftrightarrow>
     -1 \<le> sl_level s \<and> sl_level s \<le> SKIPLIST_LEVEL_MAX \<and> (\<forall>l. sl_level s < int l \<longrightarrow> nx s (sl_header s) l = None) \<and>
     (\<forall>q l. q \<noteq> sl_header s \<longrightarrow> lev s q < l \<longrightarrow> nx s q l = None)"

definition sl_inv :: "('c, 'u, 'v) skiplist \<Rightarrow> bool" where
  "sl_inv s \<longleftrightarrow>
     heap_ok s \<and> (\<forall>q node. sl_nodes s q = Some node \<longrightarrow> node_ok (q = sl_header s) node) \<and>
     shape (dom (sl_nodes s)) (nx s) (pos s) (lev s) (sl_header s) \<and> levels_ok s \<and>
     sl_length s = of_nat (card (dom (sl_nodes s) - {sl_header s}))"

lemma sl_invD:
  assumes "sl_inv s"
  shows "heap_ok s" "\<And>q node. sl_nodes s q = Some node \<Longrightarrow> node_ok (q = sl_header s) node"
    "shape (dom (sl_nodes s)) (nx s) (pos s) (lev s) (sl_header s)" "levels_ok s"
    "sl_length s = of_nat (card (dom (sl_nodes s) - {sl_header s}))"
  using assms by (auto simp: sl_inv_def)

text \<open>The place of a key.\<close>

abbreviation place :: "string \<Rightarrow> nat list option" where
  "place key \<equiv> Some (rank key)"

lemma header_node:
  assumes "sl_inv s"
  obtains hn where "sl_nodes s (sl_header s) = Some hn" "sn_key hn = None" "sn_refcount hn = 1"
proof -
  have "sl_header s \<in> dom (sl_nodes s)" using sl_invD(3)[OF assms] by (simp add: shape_def)
  then obtain hn where hn: "sl_nodes s (sl_header s) = Some hn" by blast
  then show thesis using that sl_invD(2)[OF assms hn] by (simp add: node_ok_def)
qed

lemma header_below: "sl_inv s \<Longrightarrow> pos s (sl_header s) < place key"
  by (erule header_node) (simp add: pos_def)

lemma node_key:
  assumes "sl_inv s" "q \<in> dom (sl_nodes s)" "q \<noteq> sl_header s"
  obtains node k where "sl_nodes s q = Some node" "sn_key node = Some k" "pos s q = place k"
proof -
  obtain node where node: "sl_nodes s q = Some node" using assms(2) by blast
  then obtain k where "sn_key node = Some k" using sl_invD(2)[OF assms(1) node] assms(3) by (auto simp: node_ok_def)
  then show thesis using that node by (simp add: pos_def)
qed

section \<open>Searching\<close>

lemma op_search_node:
  assumes inv: "sl_inv s" and "reach (nx s) (sl_header s) l q" "nx s q l = Some r"
  shows "op_search s (Some r) key =
           Some (if pos s r < place key then OP_GOTO_NEXT_NODE else if pos s r = place key then OP_FINISH else OP_GOTO_NEXT_LEVEL)"
proof -
  have sk: "skips (dom (sl_nodes s)) (nx s) (pos s) (lev s) (sl_header s) l q r" by (rule shape_skips[OF sl_invD(3)[OF inv] assms(2,3)])
  have "q \<in> dom (sl_nodes s)" by (rule reach_in[OF sl_invD(3)[OF inv] assms(2)])
  then have "pos s (sl_header s) \<le> pos s q" by (rule shape_header[OF sl_invD(3)[OF inv]])
  then have "r \<noteq> sl_header s" using sk by (auto simp: skips_def)
  then obtain node k where "sl_nodes s r = Some node" "sn_key node = Some k" "pos s r = place k"
    using node_key[OF inv] sk by (metis skips_def)
  then show ?thesis by (simp add: op_search_def strcmp_less strcmp_zero)
qed

lemma search_levels:
  assumes "sl_inv s"
  shows "search_at (nx s) (pos s) (sl_header s) (place key) (nat (sl_level s + 1)) (sl_header s)"
proof (rule search_at_start)
  fix j
  assume "nat (sl_level s + 1) \<le> j"
  then show "nx s (sl_header s) j = None" using sl_invD(4)[OF assms] by (auto simp: levels_ok_def)
qed (rule header_below[OF assms])

text \<open>A pointer that a search reads.\<close>

lemma search_get:
  assumes "sl_inv s" "reach (nx s) (sl_header s) l q" "l < SKIPLIST_LEVEL_COUNT"
  shows "forward_get s q l = Some (nx s q l)"
  using forward_get_nx[OF sl_invD(1)[OF assms(1)] _ assms(3)] reach_in[OF sl_invD(3)[OF assms(1)] assms(2)] by blast

text \<open>The node of a key.\<close>

definition node_of :: "('c, 'u, 'v) skiplist \<Rightarrow> string \<Rightarrow> nat option \<Rightarrow> bool" where
  "node_of s key x \<longleftrightarrow> (\<forall>q. x = Some q \<longleftrightarrow> q \<in> dom (sl_nodes s) \<and> pos s q = place key)"

lemma node_of_cases:
  assumes "sl_inv s"
  obtains x where "node_of s key x"
proof (cases "\<exists>q. q \<in> dom (sl_nodes s) \<and> pos s q = place key")
  case True
  then obtain q where "q \<in> dom (sl_nodes s)" "pos s q = place key" by blast
  then show thesis using that[of "Some q"] shape_inj[OF sl_invD(3)[OF assms]] unfolding node_of_def by (metis option.inject)
next
  case False
  then show thesis using that[of None] by (auto simp: node_of_def)
qed

lemma node_of_bottom:
  assumes inv: "sl_inv s" and x: "node_of s key x" and q: "last_below (nx s) (pos s) (sl_header s) 0 (place key) q"
  shows "(case nx s q 0 of None \<Rightarrow> None | Some r \<Rightarrow> if pos s r = place key then Some r else None) = x"
proof (cases x)
  case (Some y)
  then have "y \<in> dom (sl_nodes s)" "pos s y = place key" using x by (auto simp: node_of_def)
  then show ?thesis using next_at_bottom[OF sl_invD(3)[OF inv] q] Some by simp
next
  case None
  have "pos s r \<noteq> place key" if "nx s q 0 = Some r" for r
    using shape_skips[OF sl_invD(3)[OF inv] _ that] q x None by (auto simp: node_of_def last_below_def skips_def)
  then show ?thesis using None by (auto split: option.splits)
qed

lemma node_of_Some: "node_of s key x \<Longrightarrow> q \<in> dom (sl_nodes s) \<Longrightarrow> pos s q = place key \<Longrightarrow> x = Some q"
  by (simp add: node_of_def)

lemma lookup_loop_search:
  assumes inv: "sl_inv s" and x: "node_of s key x"
    and at: "search_at (nx s) (pos s) (sl_header s) (place key) m q" and m: "m \<le> SKIPLIST_LEVEL_COUNT"
  shows "lookup_loop s key q (int m - 1) = Some (if m = 0 then None else x)"
  using sl_invD(3)[OF inv] at m
proof (induction rule: search_induct)
  case (bottom q)
  then show ?case by (subst lookup_loop.simps) simp
next
  case (forward l q r)
  then show ?case using search_get[OF inv forward(1)] op_search_node[OF inv forward(1,2)]
    by (subst lookup_loop.simps) simp
next
  case (down l q)
  have reach: "reach (nx s) (sl_header s) l q" using down(1) by (simp add: last_below_def)
  have get: "forward_get s q l = Some (nx s q l)" using search_get[OF inv reach] down by simp
  show ?case
  proof (cases "nx s q l")
    case None
    then have "l = 0 \<longrightarrow> x = None" using node_of_bottom[OF inv x, of q] down(1) by auto
    then show ?thesis using down None get by (subst lookup_loop.simps) (auto simp: op_search_def)
  next
    case (Some r)
    have ge: "\<not> pos s r < place key" "r \<in> dom (sl_nodes s)" using down(2)[OF Some] by auto
    show ?thesis
    proof (cases "pos s r = place key")
      case True
      then show ?thesis using get Some op_search_node[OF inv reach Some] node_of_Some[OF x ge(2)]
        by (subst lookup_loop.simps) simp
    next
      case False
      then have "l = 0 \<longrightarrow> x = None" using node_of_bottom[OF inv x, of q] down(1) Some by auto
      then show ?thesis using down get Some op_search_node[OF inv reach Some] False ge(1)
        by (subst lookup_loop.simps) auto
    qed
  qed
qed

text \<open>The nodes to update: at every level searched, the last one before the key.\<close>

definition updates :: "('c, 'u, 'v) skiplist \<Rightarrow> string \<Rightarrow> nat \<Rightarrow> skiplist_update_t \<Rightarrow> skiplist_update_t \<Rightarrow> bool" where
  "updates s key m update update' \<longleftrightarrow>
     (\<forall>l<m. \<exists>u. update' l = Some u \<and> last_below (nx s) (pos s) (sl_header s) l (place key) u) \<and>
     (\<forall>l. m \<le> l \<longrightarrow> update' l = update l)"

lemma updates_0: "updates s key 0 update update"
  by (simp add: updates_def)

lemma updates_same: "updates s key (Suc l) up update' \<Longrightarrow> up = update(l := v) \<Longrightarrow> updates s key (Suc l) update update'"
  by (simp add: updates_def)

lemma updates_Suc:
  assumes "updates s key l up update'" "up = update(l := Some q)" "last_below (nx s) (pos s) (sl_header s) l (place key) q"
  shows "updates s key (Suc l) update update'"
  using assms by (simp add: updates_def less_Suc_eq all_conj_distrib)

lemma put_loop_search:
  assumes inv: "sl_inv s" and x: "node_of s key x"
    and at: "search_at (nx s) (pos s) (sl_header s) (place key) m q" and m: "m \<le> SKIPLIST_LEVEL_COUNT"
  shows "case (if m = 0 then None else x) of
           Some y \<Rightarrow> put_loop s key q (int m - 1) update = Some (Inl y)
         | None \<Rightarrow> \<exists>update'. put_loop s key q (int m - 1) update = Some (Inr update') \<and> updates s key m update update'"
  using sl_invD(3)[OF inv] at m
proof (induction arbitrary: update rule: search_induct)
  case (bottom q)
  then show ?case by (subst put_loop.simps) (simp add: updates_0)
next
  case (forward l q r)
  define up where "up = update(l := Some r)"
  have step: "put_loop s key q (int (Suc l) - 1) update = put_loop s key r (int (Suc l) - 1) up"
    using forward(4,6) search_get[OF inv forward(1)] op_search_node[OF inv forward(1,2)] forward(2)
    by (subst put_loop.simps) (simp add: up_def)
  show ?case using forward(5)[OF forward(6), of up] unfolding step
    by (auto split: option.splits intro: updates_same[OF _ up_def])
next
  case (down l q)
  have reach: "reach (nx s) (sl_header s) l q" using down(1) by (simp add: last_below_def)
  have get: "forward_get s q l = Some (nx s q l)" using search_get[OF inv reach] down by simp
  define up where "up = update(l := Some q)"
  show ?case
  proof (cases "\<exists>r. nx s q l = Some r \<and> pos s r = place key")
    case True
    then obtain r where r: "nx s q l = Some r" "pos s r = place key" by blast
    then have "x = Some r" using down(2) node_of_Some[OF x] by blast
    then show ?thesis using get r op_search_node[OF inv reach r(1)] by (subst put_loop.simps) simp
  next
    case False
    have "op_search s (nx s q l) key = Some OP_GOTO_NEXT_LEVEL"
      using False down(2) op_search_node[OF inv reach] by (cases "nx s q l") (auto simp: op_search_def)
    then have step: "put_loop s key q (int (Suc l) - 1) update = put_loop s key q (int l - 1) up"
      using get by (subst put_loop.simps) (simp add: up_def)
    have "l = 0 \<longrightarrow> x = None" using node_of_bottom[OF inv x, of q] down(1) False by (auto split: option.splits)
    then show ?thesis using down(3)[of up] down(4) unfolding step
      by (auto split: option.splits intro: updates_Suc[OF _ up_def down(1)])
  qed
qed

lemma rm_loop_search:
  assumes inv: "sl_inv s"
    and at: "search_at (nx s) (pos s) (sl_header s) (place key) m q" and m: "m \<le> SKIPLIST_LEVEL_COUNT"
  shows "\<exists>cur update'. rm_loop s key q (int m - 1) update = Some (cur, update') \<and>
           last_below (nx s) (pos s) (sl_header s) 0 (place key) cur \<and> updates s key m update update'"
  using sl_invD(3)[OF inv] at m
proof (induction arbitrary: update rule: search_induct)
  case (bottom q)
  then show ?case by (subst rm_loop.simps) (simp add: updates_0)
next
  case (forward l q r)
  define up where "up = update(l := Some r)"
  have step: "rm_loop s key q (int (Suc l) - 1) update = rm_loop s key r (int (Suc l) - 1) up"
    using forward(4,6) search_get[OF inv forward(1)] op_search_node[OF inv forward(1,2)] forward(2)
    by (subst rm_loop.simps) (simp add: up_def)
  show ?case using forward(5)[OF forward(6), of up] unfolding step by (blast intro: updates_same[OF _ up_def])
next
  case (down l q)
  have reach: "reach (nx s) (sl_header s) l q" using down(1) by (simp add: last_below_def)
  have get: "forward_get s q l = Some (nx s q l)" using search_get[OF inv reach] down by simp
  have "\<exists>op. op_search s (nx s q l) key = Some op \<and> op \<noteq> OP_GOTO_NEXT_NODE"
    using down(2) op_search_node[OF inv reach] by (cases "nx s q l") (auto simp: op_search_def not_less)
  moreover define up where "up = update(l := Some q)"
  ultimately have step: "rm_loop s key q (int (Suc l) - 1) update = rm_loop s key q (int l - 1) up"
    using get by (subst rm_loop.simps) (auto split: op_t.split)
  show ?case using down(3)[of up] down(4) unfolding step by (auto intro: updates_Suc[OF _ up_def down(1)])
qed

lemma levels_count: "sl_inv s \<Longrightarrow> nat (sl_level s + 1) \<le> SKIPLIST_LEVEL_COUNT" "sl_inv s \<Longrightarrow> int (nat (sl_level s + 1)) - 1 = sl_level s"
  by (auto dest!: sl_invD(4) simp: levels_ok_def)

text \<open>An empty list has no levels in use.\<close>

lemma no_levels: "sl_inv s \<Longrightarrow> node_of s key x \<Longrightarrow> nat (sl_level s + 1) = 0 \<Longrightarrow> x = None"
  using node_of_bottom[of s key x "sl_header s"] search_levels[of s key] sl_invD(4)[of s] by (auto simp: levels_ok_def)

lemma skiplist_lookup_node:
  assumes "sl_inv s" "node_of s key x"
  shows "skiplist_lookup s key = Some x"
  using lookup_loop_search[OF assms search_levels[OF assms(1)] levels_count(1)[OF assms(1)]] no_levels[OF assms]
  unfolding levels_count(2)[OF assms(1)] by (auto simp: skiplist_lookup_def split: if_splits)

lemma put_loop_node:
  assumes "sl_inv s" "node_of s key x"
  shows "case x of
           Some y \<Rightarrow> put_loop s key (sl_header s) (sl_level s) update = Some (Inl y)
         | None \<Rightarrow> \<exists>update'. put_loop s key (sl_header s) (sl_level s) update = Some (Inr update') \<and>
                     updates s key (nat (sl_level s + 1)) update update'"
  using put_loop_search[OF assms search_levels[OF assms(1)] levels_count(1)[OF assms(1)], of update] no_levels[OF assms]
  unfolding levels_count(2)[OF assms(1)] by (cases "nat (sl_level s + 1) = 0") (simp_all split: option.splits)

lemma rm_loop_node:
  assumes "sl_inv s"
  obtains cur update' where "rm_loop s key (sl_header s) (sl_level s) update = Some (cur, update')"
    "last_below (nx s) (pos s) (sl_header s) 0 (place key) cur" "updates s key (nat (sl_level s + 1)) update update'"
  using rm_loop_search[OF assms search_levels[OF assms] levels_count(1)[OF assms], of key update]
  unfolding levels_count(2)[OF assms] by blast

section \<open>Contents and reading\<close>

definition sl_contents :: "('c, 'u, 'v) skiplist \<Rightarrow> (string \<rightharpoonup> 'v)" where
  "sl_contents s key =
     (if \<exists>q\<in>dom (sl_nodes s). pos s q = place key
      then sn_value (the (sl_nodes s (THE q. q \<in> dom (sl_nodes s) \<and> pos s q = place key))) else None)"

lemma contents_node:
  assumes "node_of s key x"
  shows "sl_contents s key = (case x of None \<Rightarrow> None | Some q \<Rightarrow> sn_value (the (sl_nodes s q)))"
proof (cases x)
  case None
  then show ?thesis using assms by (auto simp: node_of_def sl_contents_def)
next
  case (Some q)
  then have q: "q' \<in> dom (sl_nodes s) \<and> pos s q' = place key \<longleftrightarrow> q' = q" for q' using assms by (auto simp: node_of_def)
  then have "\<exists>q\<in>dom (sl_nodes s). pos s q = place key" by blast
  then show ?thesis using Some unfolding sl_contents_def q by simp
qed

lemma found_node:
  assumes inv: "sl_inv s" and x: "node_of s key (Some q)"
  obtains node where "sl_nodes s q = Some node" "sn_key node = Some key" "q \<noteq> sl_header s" "sn_value node \<noteq> None"
proof -
  have q: "q \<in> dom (sl_nodes s)" "pos s q = place key" using x by (auto simp: node_of_def)
  then have h: "q \<noteq> sl_header s" using header_below[OF inv, of key] by auto
  obtain node k where node: "sl_nodes s q = Some node" "sn_key node = Some k" "pos s q = place k" by (rule node_key[OF inv q(1) h])
  then have "k = key" using q(2) by simp
  then show thesis using that node(1,2) h sl_invD(2)[OF inv node(1)] by (simp add: node_ok_def)
qed

lemma contents_None_iff: "sl_inv s \<Longrightarrow> node_of s key x \<Longrightarrow> sl_contents s key = None \<longleftrightarrow> x = None"
  using contents_node[of s key x] by (cases x) (auto elim: found_node)

lemma skiplist_get_contents: "sl_inv s \<Longrightarrow> skiplist_get s key = Some (sl_contents s key)"
proof -
  assume inv: "sl_inv s"
  obtain x where x: "node_of s key x" by (rule node_of_cases[OF inv])
  show ?thesis
  proof (cases x)
    case None
    then show ?thesis using skiplist_lookup_node[OF inv x] contents_node[OF x] by (simp add: skiplist_get_def)
  next
    case (Some q)
    then obtain node where "sl_nodes s q = Some node" using found_node[OF inv] x by blast
    then show ?thesis using Some skiplist_lookup_node[OF inv x] contents_node[OF x] by (simp add: skiplist_get_def)
  qed
qed

lemma sl_dom_contents: "sl_inv s \<Longrightarrow> card (dom (sl_contents s)) = card (dom (sl_nodes s) - {sl_header s})"
proof -
  assume inv: "sl_inv s"
  let ?key = "\<lambda>q. the (sn_key (the (sl_nodes s q)))" and ?N = "dom (sl_nodes s) - {sl_header s}"
  have key: "pos s q = place (?key q)" if "q \<in> ?N" for q using that node_key[OF inv] by (metis DiffE insertI1 option.sel)
  have "inj_on ?key ?N"
    using key shape_inj[OF sl_invD(3)[OF inv]] unfolding inj_on_def by (metis DiffE)
  moreover have "dom (sl_contents s) = ?key ` ?N"
  proof (intro set_eqI iffI)
    fix k
    assume "k \<in> dom (sl_contents s)"
    moreover obtain x where x: "node_of s k x" by (rule node_of_cases[OF inv])
    ultimately obtain q where q: "x = Some q" using contents_None_iff[OF inv x] by (cases x) auto
    obtain node where "sl_nodes s q = Some node" "sn_key node = Some k" "q \<noteq> sl_header s" using found_node[OF inv] x q by blast
    then show "k \<in> ?key ` ?N" by (intro image_eqI[of _ _ q]) auto
  next
    fix k
    assume "k \<in> ?key ` ?N"
    then obtain q where q: "q \<in> ?N" "pos s q = place k" using key by force
    obtain x where x: "node_of s k x" by (rule node_of_cases[OF inv])
    then have "x = Some q" using node_of_Some q by blast
    then show "k \<in> dom (sl_contents s)" using contents_None_iff[OF inv x] by blast
  qed
  ultimately show ?thesis by (simp add: card_image)
qed

lemma skiplist_count_contents: "sl_inv s \<Longrightarrow> skiplist_count_get s = of_nat (card (dom (sl_contents s)))"
  using sl_invD(5)[of s] sl_dom_contents[of s] by (simp add: skiplist_count_get_def)

text \<open>Two states whose nodes differ at one key only.\<close>

lemma contents_change:
  assumes inv: "sl_inv s" and inv': "sl_inv s'"
    and same: "\<And>q k. k \<noteq> key \<Longrightarrow> q \<in> dom (sl_nodes s) \<and> pos s q = place k \<longleftrightarrow> q \<in> dom (sl_nodes s') \<and> pos s' q = place k"
    and vals: "\<And>q k. k \<noteq> key \<Longrightarrow> q \<in> dom (sl_nodes s) \<Longrightarrow> pos s q = place k \<Longrightarrow> sn_value (the (sl_nodes s' q)) = sn_value (the (sl_nodes s q))"
    and x: "node_of s' key x" "(case x of None \<Rightarrow> None | Some q \<Rightarrow> sn_value (the (sl_nodes s' q))) = v"
  shows "sl_contents s' = (sl_contents s)(key := v)"
proof
  fix k
  show "sl_contents s' k = ((sl_contents s)(key := v)) k"
  proof (cases "k = key")
    case True
    then show ?thesis using contents_node[OF x(1)] x(2) by simp
  next
    case False
    obtain y where y: "node_of s k y" by (rule node_of_cases[OF inv])
    have y': "node_of s' k y" using y same[OF False] by (simp add: node_of_def)
    show ?thesis
    proof (cases y)
      case None
      then show ?thesis using contents_node[OF y] contents_node[OF y'] False by simp
    next
      case (Some q)
      then have "q \<in> dom (sl_nodes s)" "pos s q = place k" using y by (auto simp: node_of_def)
      then show ?thesis using contents_node[OF y] contents_node[OF y'] vals[OF False] Some False by simp
    qed
  qed
qed

section \<open>Put\<close>

lemma forward_ran: "sn_forward ` ran nodes = (\<lambda>q. sn_forward (the (nodes q))) ` dom nodes"
  by (force simp: ran_def)

lemma forward_ran_iff: "a \<in> sn_forward ` ran nodes \<longleftrightarrow> (\<exists>q nd. nodes q = Some nd \<and> a = sn_forward nd)"
  by (force simp: ran_def)

lemma put_replace_ok:
  assumes inv: "sl_inv s" and x: "node_of s key (Some n)"
  shows "\<exists>ns s'. put_replace s n key (Some v) = Some (ns, s') \<and> sl_inv s' \<and> sl_contents s' = (sl_contents s)(key \<mapsto> v)"
proof -
  obtain node where node: "sl_nodes s n = Some node" "sn_key node = Some key" "n \<noteq> sl_header s" by (rule found_node[OF inv x])
  obtain hn where hn: "sl_nodes s (sl_header s) = Some hn" by (rule header_node[OF inv])
  define node' where "node' = node\<lparr>sn_value := Some v, sn_key := Some key\<rparr>"
  define s' where "s' = s\<lparr>sl_nodes := (sl_nodes s)(n \<mapsto> node')\<rparr>"
  have body: "sn_forward node' = sn_forward node" "sn_level node' = sn_level node" "sn_key node' = sn_key node" "sn_refcount node' = sn_refcount node"
    using node(2) by (simp_all add: node'_def)
  have f: "sl_nodes s' = (sl_nodes s)(n \<mapsto> node')" "sl_header s' = sl_header s" "sl_level s' = sl_level s" "sl_length s' = sl_length s" "sl_arrays s' = sl_arrays s"
    by (simp_all add: s'_def)
  have dom: "dom (sl_nodes s') = dom (sl_nodes s)" using node(1) by (auto simp: f)
  have fun_eq: "nx s' = nx s" "pos s' = pos s" "lev s' = lev s"
    using node(1) body by (auto simp: fun_eq_iff nx_def forward_get_def pos_def lev_def f)
  have "sn_forward ` ran (sl_nodes s') = sn_forward ` ran (sl_nodes s)"
    unfolding forward_ran dom by (rule image_cong) (simp_all add: f node(1) body)
  then have "heap_ok s'" using sl_invD(1)[OF inv] node(1) body unfolding heap_ok_def f by (auto split: if_splits)
  moreover have "node_ok (q = sl_header s') nd" if "sl_nodes s' q = Some nd" for q nd
    using that sl_invD(2)[OF inv, of q] sl_invD(2)[OF inv node(1)] node(3) body
    by (cases "q = n") (auto simp: f node_ok_def node'_def)
  ultimately have inv': "sl_inv s'"
    using inv unfolding sl_inv_def dom fun_eq levels_ok_def f(2-4) by blast
  have x': "node_of s' key (Some n)" using x by (simp add: node_of_def dom fun_eq)
  have n: "pos s n = place key" using x by (auto simp: node_of_def)
  have "sl_contents s' = (sl_contents s)(key \<mapsto> v)"
    by (rule contents_change[OF inv inv' _ _ x']) (use n in \<open>auto simp: dom fun_eq f node'_def\<close>)
  moreover have "\<exists>ns. put_replace s n key (Some v) = Some (ns, s')"
    using node(1,3) hn by (simp add: put_replace_def skiplist_notify_def node'_def s'_def)
  ultimately show ?thesis using inv' by blast
qed

lemma level_loop_takeWhile:
  assumes "length (takeWhile (\<lambda>r. uint r < P_CEIL) rs) < length rs" "0 \<le> level"
    "level + int (length (takeWhile (\<lambda>r. uint r < P_CEIL) rs)) < 128"
  shows "level_loop rs level = Some (level + int (length (takeWhile (\<lambda>r. uint r < P_CEIL) rs)))"
  using assms
proof (induction rs arbitrary: level)
  case (Cons r rs)
  show ?case
  proof (cases "uint r < P_CEIL")
    case True
    then have "level + 1 < 128" using Cons.prems by simp
    then have "int8 (level + 1) = level + 1" using Cons.prems(2) by (simp add: int8_def)
    then show ?thesis using True Cons by simp
  qed simp
qed simp

text \<open>
  The allocations give unused memory, and the random numbers hold one that ends the loop before an
  \<^verbatim>\<open>int8_t\<close> overflows.
\<close>

definition skip_env_ok :: "skip_env \<Rightarrow> ('c, 'u, 'v) skiplist \<Rightarrow> bool" where
  "skip_env_ok env s \<longleftrightarrow>
     (case malloc_node env of None \<Rightarrow> False | Some n \<Rightarrow> sl_nodes s n = None) \<and>
     (case calloc_forward env of None \<Rightarrow> False | Some a \<Rightarrow> sl_arrays s a = None) \<and>
     length (takeWhile (\<lambda>r. uint r < P_CEIL) (randoms env)) < min 128 (length (randoms env))"

lemma skiplist_level_generate_ok:
  assumes "skip_env_ok env s"
  obtains m where "skiplist_level_generate (randoms env) = Some (int m)" "m < SKIPLIST_LEVEL_COUNT"
proof -
  let ?l = "length (takeWhile (\<lambda>r. uint r < P_CEIL) (randoms env))"
  have "level_loop (randoms env) 0 = Some (int ?l)"
    using assms level_loop_takeWhile[of "randoms env" 0] by (simp add: skip_env_ok_def)
  then show thesis using that[of "min ?l 8"] by (auto simp: skiplist_level_generate_def min_def)
qed

lemma new_node_heap:
  assumes heap: "heap_ok s" and n: "sl_nodes s n = None" "sl_arrays s a = None" and a: "sn_forward node = a"
    and s': "sl_nodes s' = (sl_nodes s)(n \<mapsto> node)" "sl_arrays s' = (sl_arrays s)(a \<mapsto> replicate SKIPLIST_LEVEL_COUNT None)"
  shows "heap_ok s'" "\<And>q l. nx s' q l = (if q = n then None else nx s q l)"
proof -
  have other: "sn_forward nd \<noteq> a" if "sl_nodes s q = Some nd" for q nd
    using heap_array[OF heap that] n(2) by (metis option.distinct(1))
  have "sn_forward ` ran (sl_nodes s') = insert a (sn_forward ` ran (sl_nodes s))"
    using n(1) a by (simp add: s')
  moreover have "dom (sl_arrays s') = insert a (dom (sl_arrays s))" by (simp add: s')
  moreover have "p = q" if "sl_nodes s' p = Some np" "sl_nodes s' q = Some nq" "sn_forward np = sn_forward nq" for p q np nq
  proof (cases "p = n \<or> q = n")
    case True
    then show ?thesis using that other[of p np] other[of q nq] a by (auto simp: s' split: if_splits)
  next
    case False
    then have "sl_nodes s p = Some np" "sl_nodes s q = Some nq" using that by (simp_all add: s')
    then show ?thesis using heap_own[OF heap] that(3) by blast
  qed
  moreover have "\<exists>b. sl_arrays s' (sn_forward nd) = Some b \<and> length b = SKIPLIST_LEVEL_COUNT" if "sl_nodes s' q = Some nd" for q nd
    using that heap a unfolding heap_ok_def by (cases "q = n") (auto simp: s')
  ultimately show "heap_ok s'" using heap unfolding heap_ok_def by auto
  show "nx s' q l = (if q = n then None else nx s q l)" for q l
  proof (cases "q = n")
    case True
    then show ?thesis using a by (simp add: nx_def forward_get_def s' nth_replicate)
  next
    case False
    show ?thesis
    proof (cases "sl_nodes s q")
      case None
      then show ?thesis using False by (simp add: nx_def forward_get_def s')
    next
      case (Some nd)
      then show ?thesis using False other[OF Some] by (simp add: nx_def forward_get_def s')
    qed
  qed
qed

lemma heap_fields:
  assumes "sl_nodes s' = sl_nodes s" "sl_arrays s' = sl_arrays s"
  shows "nx s' = nx s" "heap_ok s' = heap_ok s" "pos s' = pos s" "lev s' = lev s"
  unfolding nx_def forward_get_def heap_ok_def pos_def lev_def assms by (rule refl)+

text \<open>A state with one node more, dropped in at its levels.\<close>

lemma inserted_inv:
  assumes inv: "sl_inv s" and n: "sl_nodes s n = None" and x: "node_of s key None"
    and upd: "\<And>l. l \<le> m \<Longrightarrow> last_below (nx s) (pos s) (sl_header s) l (place key) (u l)"
    and m: "m < SKIPLIST_LEVEL_COUNT" and heap: "heap_ok s'"
    and nodes: "sl_nodes s' = (sl_nodes s)(n \<mapsto> node)" "sl_header s' = sl_header s" "sl_level s' = max (sl_level s) (int m)" "sl_length s' = sl_length s + 1"
    and node: "sn_key node = Some key" "sn_value node = Some v" "sn_level node = int m" "sn_refcount node = 1"
    and ptr: "\<And>q l. nx s' q l = dropped_in (nx s) u n m q l"
  shows "sl_inv s'" "sl_contents s' = (sl_contents s)(key \<mapsto> v)"
proof -
  let ?h = "sl_header s" and ?N = "dom (sl_nodes s)"
  have sh: "shape ?N (nx s) (pos s) (lev s) ?h" by (rule sl_invD(3)[OF inv])
  have k: "place key \<notin> pos s ` ?N" using x by (force simp: node_of_def)
  have nN: "n \<notin> ?N" using n by blast
  have h: "?h \<in> ?N" "?h \<noteq> n" using sh nN by (auto simp: shape_def)
  have dom: "dom (sl_nodes s') = insert n ?N" by (simp add: nodes)
  have p: "pos s' = (pos s)(n := place key)" "lev s' = (lev s)(n := m)"
    by (auto simp: fun_eq_iff pos_def lev_def nodes node)
  have eq: "nx s' = dropped_in (nx s) u n m" by (intro ext) (rule ptr)
  have sh': "shape (dom (sl_nodes s')) (nx s') (pos s') (lev s') (sl_header s')"
    unfolding dom p eq nodes(2) by (rule shape_insert(1)[OF sh nN k header_below[OF inv] upd])
  have "nx s' ?h l = None" if "max (sl_level s) (int m) < int l" for l
    using that h sl_invD(4)[OF inv] by (simp add: ptr dropped_in_def levels_ok_def)
  moreover have "nx s' q l = None" if q: "q \<noteq> ?h" "lev s' q < l" for q l
  proof (cases "q = n")
    case True
    then show ?thesis using q p by (simp add: ptr dropped_in_def)
  next
    case False
    then have "lev s q < l" using q(2) p by simp
    moreover have "nx s q l = None" using q(1) \<open>lev s q < l\<close> sl_invD(4)[OF inv] by (simp add: levels_ok_def)
    moreover have "q \<noteq> u l" if "l \<le> m"
      using reach_level[OF sh, of l "u l"] upd[OF that] q(1) \<open>lev s q < l\<close> by (auto simp: last_below_def)
    ultimately show ?thesis using False by (simp add: ptr dropped_in_def)
  qed
  ultimately have "levels_ok s'" using sl_invD(4)[OF inv] m unfolding levels_ok_def nodes(2,3) by auto
  moreover have "node_ok False node" using m node by (simp add: node_ok_def)
  then have "node_ok (q = ?h) nd" if "sl_nodes s' q = Some nd" for q nd
    using that sl_invD(2)[OF inv, of q nd] h(2) by (cases "q = n") (auto simp: nodes(1))
  moreover have "sl_length s' = of_nat (card (dom (sl_nodes s') - {?h}))"
  proof -
    have "insert n ?N - {?h} = insert n (?N - {?h})" using h by blast
    moreover have "finite (?N - {?h})" using sh by (simp add: shape_def)
    ultimately show ?thesis using nN sl_invD(5)[OF inv] by (simp add: dom nodes(4) card_insert_if)
  qed
  ultimately show inv': "sl_inv s'" using heap sh' nodes(2) unfolding sl_inv_def by simp
  have pn: "pos s' n = place key" by (simp add: p)
  have x': "node_of s' key (Some n)" using x by (auto simp: node_of_def dom p)
  show "sl_contents s' = (sl_contents s)(key \<mapsto> v)"
    by (rule contents_change[OF inv inv' _ _ x']) (use nN in \<open>auto simp: dom p nodes node split: if_splits\<close>)
qed

lemma put_insert_ok:
  assumes inv: "sl_inv s" and x: "node_of s key None" and env: "skip_env_ok env s"
    and upd: "updates s key (nat (sl_level s + 1)) (\<lambda>_. None) update"
  shows "\<exists>ns s'. put_insert env s update key (Some v) = Some (ns, s') \<and> sl_inv s' \<and> sl_contents s' = (sl_contents s)(key \<mapsto> v)"
proof -
  let ?h = "sl_header s"
  obtain n a where na: "malloc_node env = Some n" "calloc_forward env = Some a" "sl_nodes s n = None" "sl_arrays s a = None"
    using env by (auto simp: skip_env_ok_def split: option.splits)
  obtain m where m: "skiplist_level_generate (randoms env) = Some (int m)" "m < SKIPLIST_LEVEL_COUNT"
    by (rule skiplist_level_generate_ok[OF env])
  obtain hn where hn: "sl_nodes s ?h = Some hn" by (rule header_node[OF inv])
  define node :: "('a, 'b, 'c) skiplist_node" where
    "node = \<lparr>sn_key = Some key, sn_value = Some v, sn_level = int m, sn_refcount = 1, sn_notifiers = [], sn_forward = a\<rparr>"
  define up where "up = (\<lambda>l. if sl_level s < int l \<and> int l \<le> int m then Some ?h else update l)"
  define u where "u = (\<lambda>l. the (up l))"
  define s1 where "s1 = s\<lparr>sl_level := max (sl_level s) (int m), sl_nodes := (sl_nodes s)(n \<mapsto> node),
    sl_arrays := (sl_arrays s)(a \<mapsto> replicate SKIPLIST_LEVEL_COUNT None)\<rparr>"
  have up: "up l = Some (u l) \<and> last_below (nx s) (pos s) ?h l (place key) (u l)" if "l \<le> m" for l
  proof (cases "sl_level s < int l")
    case True
    have "last_below (nx s) (pos s) ?h l (place key) ?h"
      using True sl_invD(4)[OF inv] by (intro last_below_above_top header_below[OF inv]) (auto simp: levels_ok_def)
    then show ?thesis using True that by (simp add: u_def up_def)
  next
    case False
    then have "l < nat (sl_level s + 1)" by simp
    then show ?thesis using False upd by (auto simp: u_def up_def updates_def)
  qed
  note s1 = new_node_heap[OF sl_invD(1)[OF inv] na(3,4), of node s1]
  have heap1: "heap_ok s1" and ptr1: "\<And>q l. nx s1 q l = (if q = n then None else nx s q l)"
    using s1 by (simp_all add: s1_def node_def)
  have un: "sl_nodes s (u l) \<noteq> None" "u l \<noteq> n" if "l \<le> m" for l
    using up[OF that] reach_in[OF sl_invD(3)[OF inv]] na(3) unfolding last_below_def by fastforce+
  obtain s2 where s2: "drop_in [0..<Suc m] up n s1 = Some s2" "same_nodes s1 s2" "heap_ok s2"
    "\<And>q l. nx s2 q l = (if l \<in> set [0..<Suc m] then (if q = n then nx s1 (u l) l else if q = u l then Some n else nx s1 q l) else nx s1 q l)"
    using drop_in_nx[OF heap1, of "[0..<Suc m]" n up u] m(2) up un by (auto simp: s1_def simp del: upt_Suc)
  note f = same_nodes_fields[OF s2(2)]
  define s3 where "s3 = s2\<lparr>sl_length := sl_length s2 + 1\<rparr>"
  have hp: "nx s3 = nx s2" "heap_ok s3" using heap_fields[of s3 s2] s2(3) by (simp_all add: s3_def)
  have "nx s3 q l = dropped_in (nx s) u n m q l" for q l
    using un by (auto simp: hp s2(4) ptr1 dropped_in_def simp del: upt_Suc)
  then have "sl_inv s3" "sl_contents s3 = (sl_contents s)(key \<mapsto> v)"
    using inserted_inv[OF inv na(3) x, of m u s3 node v] up m(2) hp(2) by (simp_all add: s3_def f s1_def node_def)
  moreover have "\<exists>ns. put_insert env s update key (Some v) = Some (ns, s3)"
  proof -
    have new: "skiplist_node_new (Some n) (Some a) (int m) (Some key) (Some v) (if int m > sl_level s then s\<lparr>sl_level := int m\<rparr> else s) = (Some n, s1)"
      by (cases s) (simp add: skiplist_node_new_def s1_def node_def max_def)
    have "n \<noteq> ?h" using hn na(3) by auto
    then have "\<exists>ns. skiplist_notify s1 node QB_MAP_NOTIFY_INSERTED (Some key) None (Some v) = Some ns"
      using hn by (simp add: skiplist_notify_def s1_def)
    moreover have "nat (int m + 1) = Suc m" by simp
    moreover have "sl_nodes s1 n = Some node" by (simp add: s1_def)
    moreover have "drop_in [0..<Suc m] (\<lambda>l. if sl_level s < int l \<and> l \<le> m then Some ?h else update l) n s1 = Some s2"
      using s2(1) by (simp add: up_def del: upt_Suc)
    moreover have "sn_key node = Some key" "sn_value node = Some v" by (simp_all add: node_def)
    ultimately show ?thesis using m(1) new na(1,2) by (auto simp: put_insert_def s3_def simp del: upt_Suc)
  qed
  ultimately show ?thesis by blast
qed

lemma skiplist_put_ok:
  assumes inv: "sl_inv s" and env: "skip_env_ok env s"
  shows "\<exists>ns s'. skiplist_put env s key (Some v) = Some (ns, s') \<and> sl_inv s' \<and> sl_contents s' = (sl_contents s)(key \<mapsto> v)"
proof -
  obtain x where x: "node_of s key x" by (rule node_of_cases[OF inv])
  note loop = put_loop_node[OF inv x, of "\<lambda>_. None"]
  show ?thesis
  proof (cases x)
    case None
    then obtain update where "put_loop s key (sl_header s) (sl_level s) (\<lambda>_. None) = Some (Inr update)"
      "updates s key (nat (sl_level s + 1)) (\<lambda>_. None) update" using loop by auto
    then show ?thesis using put_insert_ok[OF inv _ env, of key update v] x None by (simp add: skiplist_put_def)
  next
    case (Some n)
    then show ?thesis using put_replace_ok[OF inv, of key n v] x loop by (simp add: skiplist_put_def)
  qed
qed

section \<open>Remove\<close>

text \<open>A node and its array are freed.\<close>

lemma freed_heap:
  assumes heap: "heap_ok s" and f: "sl_nodes s f = Some fn"
    and s': "sl_nodes s' = (sl_nodes s)(f := None)" "sl_arrays s' = (sl_arrays s)(sn_forward fn := None)"
  shows "heap_ok s'" "\<And>q l. nx s' q l = (if q = f then None else nx s q l)"
proof -
  have other: "sn_forward nd \<noteq> sn_forward fn" if "sl_nodes s' q = Some nd" for q nd
    using that heap_own[OF heap _ f] by (auto simp: s' split: if_splits)
  have "sn_forward ` ran (sl_nodes s') = sn_forward ` ran (sl_nodes s) - {sn_forward fn}"
  proof -
    have "a \<in> sn_forward ` ran (sl_nodes s')" if a: "a \<in> sn_forward ` ran (sl_nodes s)" "a \<noteq> sn_forward fn" for a
    proof -
      obtain q nd where "sl_nodes s q = Some nd" "a = sn_forward nd" using a(1) unfolding forward_ran_iff by blast
      then have "sl_nodes s' q = Some nd" using a(2) f by (auto simp: s')
      then show ?thesis using \<open>a = sn_forward nd\<close> unfolding forward_ran_iff by blast
    qed
    moreover have "ran (sl_nodes s') \<subseteq> ran (sl_nodes s)" by (auto simp: s' ran_def split: if_splits)
    moreover have "sn_forward fn \<notin> sn_forward ` ran (sl_nodes s')" using other by (force simp: ran_def)
    ultimately show ?thesis by blast
  qed
  moreover have "dom (sl_arrays s') = dom (sl_arrays s) - {sn_forward fn}" by (auto simp: s')
  moreover have "\<exists>a. sl_arrays s' (sn_forward nd) = Some a \<and> length a = SKIPLIST_LEVEL_COUNT" if "sl_nodes s' q = Some nd" for q nd
    using that other[OF that] heap unfolding heap_ok_def by (auto simp: s' split: if_splits)
  moreover have "p = q" if "sl_nodes s' p = Some np" "sl_nodes s' q = Some nq" "sn_forward np = sn_forward nq" for p q np nq
    using that heap_own[OF heap] by (auto simp: s' split: if_splits)
  ultimately show "heap_ok s'" using heap unfolding heap_ok_def by simp
  show "nx s' q l = (if q = f then None else nx s q l)" for q l
  proof (cases "sl_nodes s' q")
    case None
    then show ?thesis by (auto simp: nx_def forward_get_def s' split: if_splits)
  next
    case (Some nd)
    then show ?thesis using other[OF Some] by (auto simp: nx_def forward_get_def s' split: if_splits)
  qed
qed

text \<open>Nodes that exchange their arrays, or keep them.\<close>

lemma heap_permuted:
  assumes heap: "heap_ok s" and arrays: "sl_arrays t = sl_arrays s" and \<pi>: "\<And>q. \<pi> (\<pi> q) = q"
    and fa: "\<And>q. map_option sn_forward (sl_nodes t q) = map_option sn_forward (sl_nodes s (\<pi> q))"
  shows "heap_ok t" "\<And>q l. nx t q l = nx s (\<pi> q) l"
proof -
  have to_s: "\<exists>m. sl_nodes s (\<pi> q) = Some m \<and> sn_forward m = sn_forward nd" if "sl_nodes t q = Some nd" for q nd
    using fa[of q] that by (auto simp: map_option_case split: option.splits)
  have to_t: "\<exists>m. sl_nodes t (\<pi> q) = Some m \<and> sn_forward m = sn_forward nd" if "sl_nodes s q = Some nd" for q nd
    using fa[of "\<pi> q"] that by (auto simp: \<pi> map_option_case split: option.splits)
  have "sn_forward ` ran (sl_nodes t) = sn_forward ` ran (sl_nodes s)"
    using to_s to_t by (intro set_eqI) (unfold forward_ran_iff, metis)
  moreover have "p = q" if "sl_nodes t p = Some np" "sl_nodes t q = Some nq" "sn_forward np = sn_forward nq" for p q np nq
  proof -
    have "\<pi> p = \<pi> q" using to_s[OF that(1)] to_s[OF that(2)] that(3) heap_own[OF heap] by metis
    then show ?thesis using \<pi> by metis
  qed
  moreover have "\<exists>a. sl_arrays t (sn_forward nd) = Some a \<and> length a = SKIPLIST_LEVEL_COUNT" if "sl_nodes t q = Some nd" for q nd
    using to_s[OF that] heap unfolding heap_ok_def arrays by metis
  ultimately show "heap_ok t" using heap unfolding heap_ok_def arrays by simp
  show "nx t q l = nx s (\<pi> q) l" for q l
    using fa[of q] by (auto simp: nx_def forward_get_def arrays map_option_case split: option.splits)
qed

text \<open>Node \<open>c\<close> gives up its array for that of node \<open>f\<close>, which is freed.\<close>

lemma taken_over_heap:
  assumes heap: "heap_ok s" and f: "sl_nodes s f = Some fn" and c: "sl_nodes s c = Some cn" and "c \<noteq> f"
    and s': "sl_nodes s' = (sl_nodes s)(c \<mapsto> cn\<lparr>sn_forward := sn_forward fn\<rparr>, f := None)" "sl_arrays s' = (sl_arrays s)(sn_forward cn := None)"
  shows "heap_ok s'" "\<And>q l. nx s' q l = (if q = f then None else if q = c then nx s f l else nx s q l)"
proof -
  define t where "t = s\<lparr>sl_nodes := (sl_nodes s)(c \<mapsto> cn\<lparr>sn_forward := sn_forward fn\<rparr>, f \<mapsto> fn\<lparr>sn_forward := sn_forward cn\<rparr>)\<rparr>"
  have t: "sl_nodes t = (sl_nodes s)(c \<mapsto> cn\<lparr>sn_forward := sn_forward fn\<rparr>, f \<mapsto> fn\<lparr>sn_forward := sn_forward cn\<rparr>)" "sl_arrays t = sl_arrays s"
    by (simp_all add: t_def)
  define swap where "swap = (\<lambda>q. if q = c then f else if q = f then c else q)"
  have fa: "map_option sn_forward (sl_nodes t q) = map_option sn_forward (sl_nodes s (swap q))" for q
    using f c by (auto simp: t swap_def)
  have swap: "swap (swap q) = q" for q using \<open>c \<noteq> f\<close> by (simp add: swap_def)
  note perm = heap_permuted[OF heap t(2) swap fa]
  have tf: "sl_nodes t f = Some (fn\<lparr>sn_forward := sn_forward cn\<rparr>)" by (simp add: t)
  moreover have "sl_nodes s' = (sl_nodes t)(f := None)" "sl_arrays s' = (sl_arrays t)(sn_forward (fn\<lparr>sn_forward := sn_forward cn\<rparr>) := None)"
    by (simp_all add: s' t)
  ultimately have "heap_ok s'" "\<And>q l. nx s' q l = (if q = f then None else nx t q l)" using freed_heap[OF perm(1) tf] by blast+
  then show "heap_ok s'" "\<And>q l. nx s' q l = (if q = f then None else if q = c then nx s f l else nx s q l)"
    by (simp_all add: perm(2) swap_def)
qed

lemma drop_levels_ok:
  assumes "heap_ok s" "sl_nodes s (sl_header s) \<noteq> None" "k \<le> SKIPLIST_LEVEL_COUNT" "sl_level s = int k - 1"
    "\<And>l. k \<le> l \<Longrightarrow> nx s (sl_header s) l = None"
  shows "\<exists>j\<le>k. drop_levels k s = Some (s\<lparr>sl_level := int j - 1\<rparr>) \<and> (\<forall>l\<ge>j. nx s (sl_header s) l = None)"
  using assms
proof (induction k arbitrary: s)
  case 0
  then show ?case by simp
next
  case (Suc k)
  have get: "forward_get s (sl_header s) k = Some (nx s (sl_header s) k)" using Suc.prems by (intro forward_get_nx) auto
  show ?case
  proof (cases "nx s (sl_header s) k")
    case None
    let ?s = "s\<lparr>sl_level := sl_level s - 1\<rparr>"
    have same: "nx ?s = nx s" "heap_ok ?s = heap_ok s" using heap_fields[of ?s s] by simp_all
    have "nx s (sl_header s) l = None" if "k \<le> l" for l using that None Suc.prems(5) by (cases "l = k") auto
    then obtain j where "j \<le> k" "drop_levels k ?s = Some (?s\<lparr>sl_level := int j - 1\<rparr>)" "\<forall>l\<ge>j. nx s (sl_header s) l = None"
      using Suc.IH[of ?s] Suc.prems unfolding same by auto
    then show ?thesis using get None by (intro exI[of _ j]) simp
  next
    case (Some f)
    then show ?thesis using get Suc.prems by (intro exI[of _ "Suc k"]) auto
  qed
qed

text \<open>What of a node does not concern its array.\<close>

definition body :: "('c, 'u, 'v) skiplist_node \<Rightarrow> ('c, 'u, 'v) skiplist_node" where
  "body node = node\<lparr>sn_forward := 0\<rparr>"

lemma body_eqD:
  assumes "body a = body b"
  shows "sn_key a = sn_key b" "sn_value a = sn_value b" "sn_level a = sn_level b" "sn_refcount a = sn_refcount b"
  using assms by (cases a; cases b; simp add: body_def)+

text \<open>A state with one node less.\<close>

lemma removed_inv:
  assumes inv: "sl_inv s" and x: "node_of s key (Some f)" and heap: "heap_ok s'"
    and nodes: "\<And>q. map_option body (sl_nodes s' q) = (if q = f then None else map_option body (sl_nodes s q))"
    and hd: "sl_header s' = sl_header s" and len: "sl_length s' = sl_length s - 1"
    and out: "taken_out (nx s) (sl_header s) f (nx s')" and none: "\<And>q l. nx s q l = None \<Longrightarrow> nx s' q l = None"
    and lvl: "-1 \<le> sl_level s'" "sl_level s' \<le> SKIPLIST_LEVEL_MAX" "\<And>l. sl_level s' < int l \<Longrightarrow> nx s' (sl_header s) l = None"
  shows "sl_inv s'" "sl_contents s' = (sl_contents s)(key := None)"
proof -
  let ?h = "sl_header s" and ?N = "dom (sl_nodes s)"
  have sh: "shape ?N (nx s) (pos s) (lev s) ?h" by (rule sl_invD(3)[OF inv])
  have f: "f \<in> ?N" "f \<noteq> ?h" "pos s f = place key" using found_node[OF inv x] x by (auto simp: node_of_def)
  have nd: "\<exists>m. sl_nodes s q = Some m \<and> body m = body n \<and> q \<noteq> f" if "sl_nodes s' q = Some n" for q n
    using nodes[of q] that by (auto simp: map_option_case split: option.splits if_splits)
  have dn: "\<exists>n. sl_nodes s' q = Some n \<and> body m = body n" if "sl_nodes s q = Some m" "q \<noteq> f" for q m
    using nodes[of q] that by (auto simp: map_option_case split: option.splits if_splits)
  have dom: "dom (sl_nodes s') = ?N - {f}" using nd dn by fastforce
  have same: "pos s' q = pos s q \<and> lev s' q = lev s q" if q: "q \<in> ?N - {f}" for q
  proof -
    obtain m where m: "sl_nodes s q = Some m" "q \<noteq> f" using q by blast
    with dn[OF m] show ?thesis by (auto simp: pos_def lev_def dest: body_eqD)
  qed
  have "shape (?N - {f}) (nx s') (pos s') (lev s') ?h"
    by (rule shape_cong[OF shape_remove(1)[OF sh f(1,2) out]]) (rule same)
  moreover have "nx s' q l = None" if "q \<noteq> ?h" "lev s' q < l" for q l
  proof (cases "q \<in> ?N - {f}")
    case True
    then have "nx s q l = None" using that same[OF True] sl_invD(4)[OF inv] by (simp add: levels_ok_def)
    then show ?thesis by (rule none)
  next
    case False
    then have "sl_nodes s' q = None" using dom by blast
    then show ?thesis by (simp add: nx_def forward_get_def)
  qed
  then have "levels_ok s'" using lvl unfolding levels_ok_def hd by blast
  moreover have "node_ok (q = ?h) n" if q: "sl_nodes s' q = Some n" for q n
  proof -
    obtain m where "sl_nodes s q = Some m" "body m = body n" using nd[OF q] by blast
    then show ?thesis using sl_invD(2)[OF inv, of q m] body_eqD[of m n] unfolding node_ok_def by metis
  qed
  moreover have "sl_length s' = of_nat (card (?N - {f} - {?h}))"
  proof -
    have fin: "finite (?N - {?h})" "f \<in> ?N - {?h}" using sh f by (auto simp: shape_def)
    then have "card (?N - {?h}) = Suc (card (?N - {?h} - {f}))" by (metis card_Suc_Diff1)
    moreover have "?N - {?h} - {f} = ?N - {f} - {?h}" by blast
    ultimately show ?thesis using sl_invD(5)[OF inv] by (simp add: len)
  qed
  ultimately show inv': "sl_inv s'" using heap unfolding sl_inv_def dom hd by blast
  have "pos s' q \<noteq> place key" if "q \<in> ?N - {f}" for q using that same[OF that] node_of_Some[OF x, of q] by auto
  then have x': "node_of s' key None" by (auto simp: node_of_def dom)
  show "sl_contents s' = (sl_contents s)(key := None)"
  proof (rule contents_change[OF inv inv' _ _ x'])
    fix q k
    assume k: "k \<noteq> key"
    show "q \<in> ?N \<and> pos s q = place k \<longleftrightarrow> q \<in> dom (sl_nodes s') \<and> pos s' q = place k"
    proof (cases "q \<in> ?N - {f}")
      case True
      then show ?thesis using same[OF True] unfolding dom by simp
    qed (use k f(3) in \<open>auto simp: dom\<close>)
    assume q: "q \<in> ?N" "pos s q = place k"
    then obtain m where "sl_nodes s q = Some m" "q \<noteq> f" using f(3) k by fastforce
    then show "sn_value (the (sl_nodes s' q)) = sn_value (the (sl_nodes s q))" using dn[of q m] body_eqD(2) by fastforce
  qed simp
qed

text \<open>Splicing takes the node out of the list, for the pointers that a search uses.\<close>

lemma splice_taken_out:
  assumes inv: "sl_inv s" and x: "node_of s key (Some f)" and upd: "updates s key (nat (sl_level s + 1)) (\<lambda>_. None) update"
  obtains s' where "splice_out [0..<nat (sl_level s + 1)] update f s = Some s'" "same_nodes s s'" "heap_ok s'"
    "taken_out (nx s) (sl_header s) f (nx s')" "\<And>q l. nx s q l = None \<Longrightarrow> nx s' q l = None"
proof -
  let ?h = "sl_header s" and ?m = "nat (sl_level s + 1)"
  have sh: "shape (dom (sl_nodes s)) (nx s) (pos s) (lev s) ?h" by (rule sl_invD(3)[OF inv])
  have f: "sl_nodes s f \<noteq> None" "pos s f = place key" using x by (auto simp: node_of_def)
  define u where "u = (\<lambda>l. the (update l))"
  have u: "update l = Some (u l) \<and> last_below (nx s) (pos s) ?h l (place key) (u l)" if "l < ?m" for l
    using upd that by (auto simp: updates_def u_def)
  then have "l < SKIPLIST_LEVEL_COUNT \<and> update l = Some (u l) \<and> sl_nodes s (u l) \<noteq> None" if "l \<in> set [0..<?m]" for l
    using that levels_count(1)[OF inv] reach_in[OF sh, of l "u l"] by (force simp: last_below_def)
  then obtain s' where s': "splice_out [0..<?m] update f s = Some s'" "same_nodes s s'" "heap_ok s'"
    "\<And>q l. nx s' q l = (if l \<in> set [0..<?m] \<and> q = u l \<and> nx s q l = Some f then nx s f l else nx s q l)"
    using splice_out_nx[OF sl_invD(1)[OF inv] distinct_upt f(1), of 0 ?m update u] by blast
  have "nx s' q l = (if nx s q l = Some f then nx s f l else nx s q l)" if "reach (nx s) ?h l q" for l q
  proof (cases "nx s q l = Some f")
    case True
    have lb: "last_below (nx s) (pos s) ?h l (place key) q" using before_last_below[OF sh that True] f(2) by simp
    have "l < ?m"
    proof (rule ccontr)
      assume "\<not> l < ?m"
      then have "nx s ?h j = None" if "l \<le> j" for j using that sl_invD(4)[OF inv] by (simp add: levels_ok_def)
      then show False using reach_above_top[OF that] True by auto
    qed
    then have "q = u l" using last_below_unique[OF sh lb] u by blast
    then show ?thesis using True \<open>l < ?m\<close> by (simp add: s'(4))
  next
    case False
    then show ?thesis by (simp add: s'(4))
  qed
  then have "taken_out (nx s) ?h f (nx s')" unfolding taken_out_def by blast
  moreover have "nx s' q l = None" if "nx s q l = None" for q l using that by (simp add: s'(4))
  ultimately show thesis using that s'(1-3) by blast
qed

text \<open>Dropping the only reference of a node behind another node.\<close>

lemma deref_plain:
  assumes heap: "heap_ok s" and f: "sl_nodes s f = Some fn" "sn_refcount fn = 1" "0 \<le> sn_level fn"
    and h: "sl_nodes s (sl_header s) \<noteq> None" "sl_header s \<noteq> f"
  obtains ns s' where "skiplist_node_deref f s = Some (ns, s')" "heap_ok s'" "sl_nodes s' = (sl_nodes s)(f := None)"
    "sl_header s' = sl_header s" "sl_level s' = sl_level s" "sl_length s' = sl_length s"
    "\<And>q l. nx s' q l = (if q = f then None else nx s q l)"
proof -
  define s' where "s' = s\<lparr>sl_nodes := (sl_nodes s)(f := None), sl_arrays := (sl_arrays s)(sn_forward fn := None)\<rparr>"
  obtain a where "sl_arrays s (sn_forward fn) = Some a" by (rule heap_array[OF heap f(1)])
  then have "\<exists>ns. skiplist_node_deref f s = Some (ns, s')"
    using f h by (auto simp: skiplist_node_deref_def skiplist_node_destroy_def skiplist_notify_def free_array_def s'_def)
  then show thesis using that freed_heap[OF heap f(1), of s'] by (auto simp: s'_def)
qed

lemma deref_taken_over:
  assumes heap: "heap_ok s" and f: "sl_nodes s f = Some fn" "sn_refcount fn = 1" "0 \<le> sn_level fn" "sn_level fn \<le> SKIPLIST_LEVEL_MAX"
    and h: "sl_nodes s (sl_header s) = Some hn" "sl_header s \<noteq> f" and lvl: "0 \<le> sl_level s"
  obtains ns s1 s' where "take_over (sl_header s) f s = Some s1" "skiplist_node_deref f s1 = Some (ns, s')" "heap_ok s'"
    "sl_nodes s' = (sl_nodes s)(sl_header s \<mapsto> hn\<lparr>sn_forward := sn_forward fn\<rparr>, f := None)"
    "sl_header s' = sl_header s" "sl_level s' = sl_level s" "sl_length s' = sl_length s"
    "\<And>q l. nx s' q l = (if q = f then None else if q = sl_header s then (if int l \<le> sn_level fn then nx s q l else nx s f l) else nx s q l)"
proof -
  let ?h = "sl_header s" and ?ls = "[0..<nat (sn_level fn + 1)]"
  obtain s0 where s0: "copy_forward ?ls ?h f s = Some s0" "same_nodes s s0" "heap_ok s0"
    "\<And>q l. nx s0 q l = (if l \<in> set ?ls \<and> q = f then nx s ?h l else nx s q l)"
  proof -
    have "l < SKIPLIST_LEVEL_COUNT" if "l \<in> set ?ls" for l using that f(4) by auto
    then show thesis using copy_forward_nx[OF heap, of ?h f ?ls] f(1) h that by auto
  qed
  note n0 = same_nodes_fields[OF s0(2)]
  define s1 where "s1 = s0\<lparr>sl_nodes := (sl_nodes s)(f \<mapsto> fn\<lparr>sn_level := -1\<rparr>, ?h \<mapsto> hn\<lparr>sn_forward := sn_forward fn\<rparr>),
    sl_arrays := (sl_arrays s0)(sn_forward hn := None)\<rparr>"
  define s' where "s' = s0\<lparr>sl_nodes := (sl_nodes s)(?h \<mapsto> hn\<lparr>sn_forward := sn_forward fn\<rparr>, f := None),
    sl_arrays := (sl_arrays s0)(sn_forward hn := None)\<rparr>"
  obtain a where "sl_arrays s0 (sn_forward hn) = Some a" using heap_array[OF s0(3), of ?h hn] h n0 by metis
  then have "take_over ?h f s = Some s1"
    using f(1) h s0(1) n0 by (simp add: take_over_def free_array_def s1_def)
  moreover have "\<exists>ns. skiplist_node_deref f s1 = Some (ns, s')"
    using f(2) h lvl n0 by (simp add: skiplist_node_deref_def skiplist_node_destroy_def skiplist_notify_def s1_def s'_def fun_upd_twist)
  moreover have "heap_ok s'" "\<And>q l. nx s' q l = (if q = f then None else if q = ?h then nx s0 f l else nx s0 q l)"
    using taken_over_heap[OF s0(3), of f fn ?h hn s'] f(1) h n0 by (simp_all add: s'_def)
  moreover have "l \<in> set ?ls \<longleftrightarrow> int l \<le> sn_level fn" for l using f(3) by auto
  ultimately show thesis using that n0 h(2) by (auto simp: s'_def s0(4))
qed

lemma node_next_ok:
  assumes "sl_inv s" "q \<in> dom (sl_nodes s)"
  shows "skiplist_node_next s q = Some (nx s q 0)"
proof -
  have get: "forward_get s q 0 = Some (nx s q 0)" using forward_get_nx[OF sl_invD(1)[OF assms(1)]] assms(2) by auto
  show ?thesis
  proof (cases "nx s q 0")
    case None
    then show ?thesis using get by (subst skiplist_node_next.simps) simp
  next
    case (Some r)
    have "r \<in> dom (sl_nodes s)"
      using shape_skips[OF sl_invD(3)[OF assms(1)] nodes_reached[OF sl_invD(3)[OF assms(1)] assms(2)] Some] by (simp add: skips_def)
    then obtain node where node: "sl_nodes s r = Some node" by blast
    then show ?thesis using get Some sl_invD(2)[OF assms(1) node] by (subst skiplist_node_next.simps) (simp add: node_ok_def)
  qed
qed

text \<open>The state after the removed node is gone, before the levels are lowered.\<close>

lemma rm_unlinks:
  assumes inv: "sl_inv s" and x: "node_of s key (Some f)" and cur: "cur \<in> dom (sl_nodes s)" "cur \<noteq> f" and lvl: "0 \<le> sl_level s"
    and upd: "updates s key (nat (sl_level s + 1)) (\<lambda>_. None) update"
  shows "\<exists>ns s'. (do { s \<leftarrow> splice_out [0..<nat (sl_level s + 1)] update f s; fnode \<leftarrow> sl_nodes s f; cnode \<leftarrow> sl_nodes s cur;
                s \<leftarrow> (if sn_refcount fnode > 1 \<or> sn_key cnode = None then take_over cur f s else Some s);
                skiplist_node_deref f s }) = Some (ns, s') \<and>
           heap_ok s' \<and> (\<forall>q. map_option body (sl_nodes s' q) = (if q = f then None else map_option body (sl_nodes s q))) \<and>
           sl_header s' = sl_header s \<and> sl_length s' = sl_length s \<and> sl_level s' = sl_level s \<and>
           taken_out (nx s) (sl_header s) f (nx s') \<and> (\<forall>q l. nx s q l = None \<longrightarrow> nx s' q l = None)"
proof -
  let ?h = "sl_header s"
  obtain fn where fn: "sl_nodes s f = Some fn" "f \<noteq> ?h" using found_node[OF inv x] by blast
  have fk: "sn_refcount fn = 1" "0 \<le> sn_level fn" "sn_level fn \<le> SKIPLIST_LEVEL_MAX"
    using sl_invD(2)[OF inv fn(1)] fn(2) by (simp_all add: node_ok_def)
  obtain hn where hn: "sl_nodes s ?h = Some hn" "sn_key hn = None" by (rule header_node[OF inv])
  obtain cn where cn: "sl_nodes s cur = Some cn" using cur(1) by blast
  have key: "sn_key cn = None \<longleftrightarrow> cur = ?h" using cn hn sl_invD(2)[OF inv cn] by (auto simp: node_ok_def split: if_splits)
  obtain s1 where s1: "splice_out [0..<nat (sl_level s + 1)] update f s = Some s1" "same_nodes s s1" "heap_ok s1"
    "taken_out (nx s) ?h f (nx s1)" "\<And>q l. nx s q l = None \<Longrightarrow> nx s1 q l = None" using splice_taken_out[OF inv x upd] by blast
  note n1 = same_nodes_fields[OF s1(2)]
  have out: "taken_out (nx s) ?h f g" if "\<And>q l. q \<noteq> f \<Longrightarrow> g q l = nx s1 q l \<or> 0 < l \<and> g q l = None" for g
    using s1(4) that unfolding taken_out_def by metis
  show ?thesis
  proof (cases "cur = ?h")
    case True
    obtain ns s2 s' where s': "take_over ?h f s1 = Some s2" "skiplist_node_deref f s2 = Some (ns, s')" "heap_ok s'"
      "sl_nodes s' = (sl_nodes s)(?h \<mapsto> hn\<lparr>sn_forward := sn_forward fn\<rparr>, f := None)"
      "sl_header s' = ?h" "sl_level s' = sl_level s" "sl_length s' = sl_length s"
      "\<And>q l. nx s' q l = (if q = f then None else if q = ?h then (if int l \<le> sn_level fn then nx s1 q l else nx s1 f l) else nx s1 q l)"
      using deref_taken_over[OF s1(3), of f fn hn] fn fk hn(1) lvl n1 by metis
    have cut: "nx s1 f l = None" if "sn_level fn < int l" for l
    proof -
      have "lev s f < l" using that fn(1) fk(2) by (simp add: lev_def nat_less_iff)
      then show ?thesis using s1(5) sl_invD(4)[OF inv] fn(2) by (simp add: levels_ok_def)
    qed
    then have g: "nx s' q l = nx s1 q l \<or> 0 < l \<and> nx s' q l = None" if "q \<noteq> f" for q l
      using that fk(2) by (auto simp: s'(8))
    have "map_option body (sl_nodes s' q) = (if q = f then None else map_option body (sl_nodes s q))" for q
      using hn(1) fn(2) by (simp add: s'(4) body_def)
    moreover have "nx s' q l = None" if "nx s q l = None" for q l
      using s1(5)[OF that] g[of q l] s'(8)[of f l] by (cases "q = f") auto
    ultimately show ?thesis using s'(1-3,5-7) s1(1) n1 fn(1) cn key True out[OF g] by auto
  next
    case False
    obtain ns s' where s': "skiplist_node_deref f s1 = Some (ns, s')" "heap_ok s'" "sl_nodes s' = (sl_nodes s)(f := None)"
      "sl_header s' = ?h" "sl_level s' = sl_level s" "sl_length s' = sl_length s" "\<And>q l. nx s' q l = (if q = f then None else nx s1 q l)"
      using deref_plain[OF s1(3), of f fn] fn fk hn(1) n1 by (metis option.distinct(1))
    have "nx s' q l = None" if "nx s q l = None" for q l using that s1(5) by (simp add: s'(7))
    then show ?thesis using s'(1-6) s1(1) n1 fn(1) fk(1) cn key False out[of "nx s'"] by (auto simp: s'(7))
  qed
qed

lemma skiplist_rm_found:
  assumes inv: "sl_inv s" and x: "node_of s key (Some f)"
  shows "\<exists>ns s'. skiplist_rm s key = Some (True, ns, s') \<and> sl_inv s' \<and> sl_contents s' = (sl_contents s)(key := None)"
proof -
  let ?h = "sl_header s" and ?m = "nat (sl_level s + 1)"
  have f: "f \<in> dom (sl_nodes s)" "pos s f = place key" using x by (auto simp: node_of_def)
  obtain fn where fn: "sl_nodes s f = Some fn" "sn_key fn = Some key" "f \<noteq> ?h" by (rule found_node[OF inv x])
  obtain cur update where loop: "rm_loop s key ?h (sl_level s) (\<lambda>_. None) = Some (cur, update)"
    "last_below (nx s) (pos s) ?h 0 (place key) cur" "updates s key ?m (\<lambda>_. None) update" by (rule rm_loop_node[OF inv])
  have cur: "cur \<in> dom (sl_nodes s)" "cur \<noteq> f" using loop(2) f(2) reach_in[OF sl_invD(3)[OF inv]] by (auto simp: last_below_def)
  have "skiplist_node_next s cur = Some (Some f)"
    using node_next_ok[OF inv cur(1)] next_at_bottom[OF sl_invD(3)[OF inv] loop(2) f] by simp
  moreover have lvl: "0 \<le> sl_level s" using no_levels[OF inv x] by force
  obtain ns s1 where s1: "(do { s \<leftarrow> splice_out [0..<?m] update f s; fnode \<leftarrow> sl_nodes s f; cnode \<leftarrow> sl_nodes s cur;
                s \<leftarrow> (if sn_refcount fnode > 1 \<or> sn_key cnode = None then take_over cur f s else Some s);
                skiplist_node_deref f s }) = Some (ns, s1)"
      "heap_ok s1" "\<And>q. map_option body (sl_nodes s1 q) = (if q = f then None else map_option body (sl_nodes s q))"
      "sl_header s1 = ?h" "sl_length s1 = sl_length s" "sl_level s1 = sl_level s"
      "taken_out (nx s) ?h f (nx s1)" "\<And>q l. nx s q l = None \<Longrightarrow> nx s1 q l = None"
    using rm_unlinks[OF inv x cur lvl loop(3)] by blast
  obtain j where j: "j \<le> ?m" "drop_levels ?m s1 = Some (s1\<lparr>sl_level := int j - 1\<rparr>)" "\<forall>l\<ge>j. nx s1 ?h l = None"
  proof -
    have "sl_nodes s1 ?h \<noteq> None" using s1(3)[of ?h] fn(3) header_node[OF inv] by (metis map_option_is_None option.distinct(1))
    moreover have "nx s1 ?h l = None" if "?m \<le> l" for l using that s1(8) sl_invD(4)[OF inv] by (simp add: levels_ok_def)
    ultimately show thesis using drop_levels_ok[OF s1(2), of ?m] levels_count[OF inv] s1(4,6) that by auto
  qed
  define s' where "s' = s1\<lparr>sl_level := int j - 1, sl_length := sl_length s1 - 1\<rparr>"
  have same: "nx s' = nx s1" "heap_ok s' = heap_ok s1" using heap_fields[of s' s1] by (simp_all add: s'_def)
  have "sl_inv s'" "sl_contents s' = (sl_contents s)(key := None)"
    using removed_inv[OF inv x, of s'] s1(2-5,7,8) j(1,3) levels_count(1)[OF inv] unfolding same by (auto simp: s'_def)
  moreover have "rm_found cur update f s = Some (True, ns, s')"
  proof -
    have "rm_found cur update f s =
        do { (ns, s) \<leftarrow> do { s \<leftarrow> splice_out [0..<?m] update f s; fnode \<leftarrow> sl_nodes s f; cnode \<leftarrow> sl_nodes s cur;
               s \<leftarrow> (if sn_refcount fnode > 1 \<or> sn_key cnode = None then take_over cur f s else Some s);
               skiplist_node_deref f s };
             s \<leftarrow> drop_levels (nat (sl_level s + 1)) s;
             Some (True, ns, s\<lparr>sl_length := sl_length s - 1\<rparr>) }"
      by (simp add: rm_found_def)
    then show ?thesis unfolding s1(1) using j(2) s1(6) by (simp add: s'_def)
  qed
  ultimately show ?thesis using loop(1) fn by (simp add: skiplist_rm_def strcmp_zero)
qed

lemma skiplist_rm_absent:
  assumes inv: "sl_inv s" and x: "node_of s key None"
  shows "skiplist_rm s key = Some (False, [], s)"
proof -
  obtain cur update where loop: "rm_loop s key (sl_header s) (sl_level s) (\<lambda>_. None) = Some (cur, update)"
    "last_below (nx s) (pos s) (sl_header s) 0 (place key) cur" by (rule rm_loop_node[OF inv])
  have cur: "reach (nx s) (sl_header s) 0 cur" using loop(2) by (simp add: last_below_def)
  note next_cur = node_next_ok[OF inv reach_in[OF sl_invD(3)[OF inv] cur]]
  show ?thesis
  proof (cases "nx s cur 0")
    case None
    then show ?thesis using loop(1) next_cur by (simp add: skiplist_rm_def)
  next
    case (Some r)
    have sk: "skips (dom (sl_nodes s)) (nx s) (pos s) (lev s) (sl_header s) 0 cur r" by (rule shape_skips[OF sl_invD(3)[OF inv] cur Some])
    have "pos s (sl_header s) \<le> pos s cur" by (rule shape_header[OF sl_invD(3)[OF inv] reach_in[OF sl_invD(3)[OF inv] cur]])
    then have "r \<noteq> sl_header s" using sk by (auto simp: skips_def)
    then obtain node k where r: "sl_nodes s r = Some node" "sn_key node = Some k" "pos s r = place k"
      using node_key[OF inv] sk by (metis skips_def)
    moreover have "k \<noteq> key" using x r by (auto simp: node_of_def)
    ultimately show ?thesis using Some loop(1) next_cur by (simp add: skiplist_rm_def strcmp_zero)
  qed
qed

text \<open>The skip list promises what a map promises.\<close>

interpretation sl: strict_map_store
  "skiplist_map malloc_ok malloc_errno :: (skip_env, ('c, 'u, 'v) skiplist, skiplist_iter, 'c, 'u, 'v) qb_map" sl_inv skip_env_ok "\<lambda>_. True" sl_contents
  for malloc_ok malloc_errno
proof
  fix s :: "('c, 'u, 'v) skiplist" and k v env
  assume inv: "sl_inv s"
  obtain x where x: "node_of s k x" by (rule node_of_cases[OF inv])
  show "mget (skiplist_map malloc_ok malloc_errno) s k = Some (sl_contents s k)"
    using skiplist_get_contents[OF inv] by (simp add: skiplist_map_def)
  show "mcount_get (skiplist_map malloc_ok malloc_errno) s = of_nat (card (dom (sl_contents s)))"
    using skiplist_count_contents[OF inv] by (simp add: skiplist_map_def)
  show "\<exists>ns s'. mput (skiplist_map malloc_ok malloc_errno) env s k (Some v) = Some (ns, s') \<and> sl_inv s' \<and>
      sl_contents s' = (sl_contents s)(k \<mapsto> v)" if "skip_env_ok env s"
    using skiplist_put_ok[OF inv that] by (simp add: skiplist_map_def)
  show "\<exists>ns s'. mrm (skiplist_map malloc_ok malloc_errno) s k = Some (True, ns, s') \<and> sl_inv s' \<and>
      sl_contents s' = (sl_contents s)(k := None)" if "sl_contents s k \<noteq> None"
    using that skiplist_rm_found[OF inv] x contents_None_iff[OF inv x] by (auto simp: skiplist_map_def)
  show "mrm (skiplist_map malloc_ok malloc_errno) s k = Some (False, [], s)" if "sl_contents s k = None"
    using that skiplist_rm_absent[OF inv] x contents_None_iff[OF inv x] by (simp add: skiplist_map_def)
qed

end
