(* ===== verification/Skiplist_Iter.thy ===== *)
theory Skiplist_Iter
  imports Skiplist_Map
begin

text \<open>
  Iterating over a skip list, and the properties of the list. An iterator holds one reference to the
  node that it stands at, the header at first.
\<close>

section \<open>A list that an iterator holds a node of\<close>

lemma node_ref_fields:
  "sl_header (node_ref n s) = sl_header s" "sl_level (node_ref n s) = sl_level s" "sl_length (node_ref n s) = sl_length s"
  "sl_arrays (node_ref n s) = sl_arrays s"
  "sl_nodes (node_ref n s) = (sl_nodes s)(n := map_option (\<lambda>node. node\<lparr>sn_refcount := sn_refcount node + 1\<rparr>) (sl_nodes s n))"
  by (simp_all add: node_ref_def)

lemma node_ref_forward [simp]: "forward_get (node_ref n s) q l = forward_get s q l"
  by (cases "sl_nodes s q") (auto simp: forward_get_def node_ref_fields)

lemma node_ref_nx [simp]: "nx (node_ref n s) = nx s"
  by (simp add: fun_eq_iff nx_def)

lemma node_ref_dom [simp]: "dom (sl_nodes (node_ref n s)) = dom (sl_nodes s)"
  by (auto simp: node_ref_fields split: if_splits)

lemma node_ref_next:
  assumes inv: "sl_inv s" and "q \<in> dom (sl_nodes s)"
  shows "skiplist_node_next (node_ref n s) q = Some (nx s q 0)"
proof -
  have get: "forward_get s q 0 = Some (nx s q 0)" using forward_get_nx[OF sl_invD(1)[OF inv]] assms(2) by auto
  show ?thesis
  proof (cases "nx s q 0")
    case None
    then show ?thesis using get by (subst skiplist_node_next.simps) simp
  next
    case (Some r)
    have "r \<in> dom (sl_nodes s)"
      using shape_skips[OF sl_invD(3)[OF inv] nodes_reached[OF sl_invD(3)[OF inv] assms(2)] Some] by (simp add: skips_def)
    then obtain node where node: "sl_nodes s r = Some node" by blast
    then have "sn_refcount node = 1" using sl_invD(2)[OF inv node] by (simp add: node_ok_def)
    then show ?thesis using get Some node by (subst skiplist_node_next.simps) (auto simp: node_ref_fields)
  qed
qed

lemma node_ref_deref:
  assumes inv: "sl_inv s" and "p \<in> dom (sl_nodes s)"
  shows "skiplist_node_deref p (node_ref p s) = Some ([], s)"
    and "n \<noteq> p \<Longrightarrow> skiplist_node_deref p (node_ref n (node_ref p s)) = Some ([], node_ref n s)"
proof -
  obtain node where node: "sl_nodes s p = Some node" using assms(2) by blast
  then have one: "sn_refcount node = 1" using sl_invD(2)[OF inv node] by (simp add: node_ok_def)
  then have "node\<lparr>sn_refcount := 1\<rparr> = node" by simp
  then show "skiplist_node_deref p (node_ref p s) = Some ([], s)"
    using node one by (cases s) (simp add: skiplist_node_deref_def node_ref_def fun_upd_idem)
  show "skiplist_node_deref p (node_ref n (node_ref p s)) = Some ([], node_ref n s)" if "n \<noteq> p"
    using that node one \<open>node\<lparr>sn_refcount := 1\<rparr> = node\<close>
    by (cases s) (auto simp: skiplist_node_deref_def node_ref_def fun_upd_idem fun_upd_twist)
qed

section \<open>The whole iteration\<close>

definition entry_of :: "('c, 'u, 'v) skiplist \<Rightarrow> nat \<Rightarrow> string \<times> 'v" where
  "entry_of s n = (the (sn_key (the (sl_nodes s n))), the (sn_value (the (sl_nodes s n))))"

lemma entry_node:
  assumes "sl_inv s" "n \<in> dom (sl_nodes s)" "n \<noteq> sl_header s"
  obtains node where "sl_nodes s n = Some node" "sn_key node = Some (fst (entry_of s n))" "sn_value node = Some (snd (entry_of s n))"
    "pos s n = place (fst (entry_of s n))"
proof -
  obtain node k where node: "sl_nodes s n = Some node" "sn_key node = Some k" "pos s n = place k" by (rule node_key[OF assms])
  obtain v where v: "sn_value node = Some v" using sl_invD(2)[OF assms(1) node(1)] assms(3) by (auto simp: node_ok_def)
  have "entry_of s n = (k, v)" using node v by (simp add: entry_of_def)
  then show thesis using that[OF node(1)] node v by simp
qed

lemma iter_next_node:
  assumes inv: "sl_inv s" and p: "p \<in> dom (sl_nodes s)"
  shows "nx s p 0 = None \<Longrightarrow> skiplist_iter_next \<lparr>si_n = Some p\<rparr> (node_ref p s) = Some (None, [], \<lparr>si_n = None\<rparr>, s)"
    and "nx s p 0 = Some n \<Longrightarrow> skiplist_iter_next \<lparr>si_n = Some p\<rparr> (node_ref p s) =
           Some (Some (fst (entry_of s n), Some (snd (entry_of s n))), [], \<lparr>si_n = Some n\<rparr>, node_ref n s)"
proof -
  show "skiplist_iter_next \<lparr>si_n = Some p\<rparr> (node_ref p s) = Some (None, [], \<lparr>si_n = None\<rparr>, s)" if "nx s p 0 = None"
    using that node_ref_next[OF inv p, of p] node_ref_deref(1)[OF inv p] by (simp add: skiplist_iter_next_def)
  assume n: "nx s p 0 = Some n"
  have sk: "skips (dom (sl_nodes s)) (nx s) (pos s) (lev s) (sl_header s) 0 p n"
    by (rule shape_skips[OF sl_invD(3)[OF inv] nodes_reached[OF sl_invD(3)[OF inv] p] n])
  then have d: "n \<in> dom (sl_nodes s)" "n \<noteq> p" "n \<noteq> sl_header s"
    using shape_header[OF sl_invD(3)[OF inv] p] by (auto simp: skips_def)
  obtain node where "sl_nodes s n = Some node" "sn_key node = Some (fst (entry_of s n))" "sn_value node = Some (snd (entry_of s n))"
    by (rule entry_node[OF inv d(1,3)])
  then show "skiplist_iter_next \<lparr>si_n = Some p\<rparr> (node_ref p s) =
      Some (Some (fst (entry_of s n), Some (snd (entry_of s n))), [], \<lparr>si_n = Some n\<rparr>, node_ref n s)"
    using node_ref_next[OF inv p, of p] node_ref_deref(2)[OF inv p d(2)] n by (simp add: skiplist_iter_next_def node_ref_fields)
qed

lemma foreach_loop_chain:
  assumes inv: "sl_inv s" and cont: "\<And>k v x. \<not> fst (func k v x)"
    and "p \<in> dom (sl_nodes s)" "chain (\<lambda>q. nx s q 0) p ns" "set ns \<subseteq> dom (sl_nodes s)"
  shows "\<exists>i. foreach_loop (skiplist_map ok e) func \<lparr>si_n = Some p\<rparr> (node_ref p s) x =
           Some (fold (\<lambda>(k, v) x. snd (func k (Some v) x)) (map (entry_of s) ns) x, i, s)"
  using assms(3-5)
proof (induction ns arbitrary: p x)
  case Nil
  then show ?case using iter_next_node(1)[OF inv Nil(1)] by (subst foreach_loop.simps) (simp add: skiplist_map_def)
next
  case (Cons n ns)
  obtain k v where e: "entry_of s n = (k, v)" by force
  obtain y where y: "func k (Some v) x = (False, y)" using cont[of k "Some v" x] by (metis prod.collapse)
  have n: "n \<in> dom (sl_nodes s)" "chain (\<lambda>q. nx s q 0) n ns" "set ns \<subseteq> dom (sl_nodes s)" using Cons.prems by simp_all
  have "foreach_loop (skiplist_map ok e) func \<lparr>si_n = Some p\<rparr> (node_ref p s) x =
      foreach_loop (skiplist_map ok e) func \<lparr>si_n = Some n\<rparr> (node_ref n s) y"
    using iter_next_node(2)[OF inv Cons.prems(1), of n] Cons.prems(2) e y
    by (subst foreach_loop.simps) (simp add: skiplist_map_def)
  then show ?case using Cons.IH[OF n, of y] e y by simp
qed

text \<open>The entries in the order of their keys.\<close>

definition sorted_entries :: "(string \<times> 'v) list \<Rightarrow> bool" where
  "sorted_entries es \<longleftrightarrow> sorted_wrt (\<lambda>a b. strcmp (fst a) (fst b) < 0) es"

lemma entries_chain:
  assumes inv: "sl_inv s"
  obtains ns where "chain (\<lambda>q. nx s q 0) (sl_header s) ns" "set ns = dom (sl_nodes s) - {sl_header s}"
    "sorted_entries (map (entry_of s) ns)" "map_of (map (entry_of s) ns) = sl_contents s"
proof -
  let ?h = "sl_header s" and ?N = "dom (sl_nodes s)"
  have sh: "shape ?N (nx s) (pos s) (lev s) ?h" by (rule sl_invD(3)[OF inv])
  have "?h \<in> ?N" using sh by (simp add: shape_def)
  then obtain ns where ns: "chain (\<lambda>q. nx s q 0) ?h ns" "set ns = {x \<in> ?N. pos s ?h < pos s x}" "sorted_wrt (\<lambda>a b. pos s a < pos s b) ns"
    using shape_chain[OF sh] by blast
  have set_ns: "set ns = ?N - {?h}" unfolding ns(2) using sh by (auto simp: shape_def)
  have e: "pos s n = place (fst (entry_of s n))" if "n \<in> set ns" for n
    using entry_node[OF inv, of n] that set_ns by blast
  have "sorted_wrt (\<lambda>a b. strcmp (fst (entry_of s a)) (fst (entry_of s b)) < 0) ns"
    by (rule sorted_wrt_mono_rel[OF _ ns(3)]) (simp add: e strcmp_less)
  then have "sorted_entries (map (entry_of s) ns)" by (simp add: sorted_entries_def sorted_wrt_map)
  moreover have "map_of (map (entry_of s) ns) k = sl_contents s k" for k
  proof -
    obtain x where x: "node_of s k x" by (rule node_of_cases[OF inv])
    have inj: "inj_on (fst \<circ> entry_of s) (set ns)"
      unfolding inj_on_def set_ns using e shape_inj[OF sh] set_ns by (metis DiffE comp_apply)
    have "sorted_wrt (<) (map (pos s) ns)" using ns(3) by (simp add: sorted_wrt_map)
    then have dist: "distinct ns" by (auto simp: strict_sorted_iff distinct_map)
    show ?thesis
    proof (cases x)
      case None
      then have "fst (entry_of s n) \<noteq> k" if "n \<in> set ns" for n using x e[OF that] that set_ns by (auto simp: node_of_def)
      then have "k \<notin> fst ` entry_of s ` set ns" by blast
      then have "k \<notin> fst ` set (map (entry_of s) ns)" by simp
      then show ?thesis using contents_node[OF x] None by (simp add: map_of_eq_None_iff[THEN iffD2])
    next
      case (Some q)
      then have "q \<in> ?N" "pos s q = place k" "q \<noteq> ?h" using x header_below[OF inv, of k] by (auto simp: node_of_def)
      then have q: "q \<in> set ns" "fst (entry_of s q) = k" using e[of q] set_ns by auto
      obtain node where node: "sl_nodes s q = Some node" "sn_value node = Some (snd (entry_of s q))" using entry_node[OF inv, of q] q set_ns by blast
      have "distinct (map fst (map (entry_of s) ns))" using inj dist by (simp add: distinct_map)
      then have "map_of (map (entry_of s) ns) k = Some (snd (entry_of s q))"
        using q by (intro map_of_is_SomeI) (auto intro: image_eqI[of _ _ q] simp: prod_eq_iff)
      then show ?thesis using contents_node[OF x] Some node by simp
    qed
  qed
  ultimately show thesis using that[OF ns(1) set_ns] by (simp add: fun_eq_iff)
qed

section \<open>Removing the last entry while an iterator stands at it\<close>

text \<open>A search does not read reference counts.\<close>

lemma node_ref_op_search: "op_search (node_ref n s) f key = op_search s f key"
proof (cases f)
  case (Some m)
  then show ?thesis by (cases "sl_nodes s m") (auto simp: op_search_def node_ref_fields)
qed (simp add: op_search_def)

lemma node_ref_rm_loop: "rm_loop s key q l update = Some r \<Longrightarrow> rm_loop (node_ref n s) key q l update = Some r"
proof (rule rm_loop.raw_induct[of "\<lambda>s' key q l update r. rm_loop (node_ref n s') key q l update = Some r" s key q l update r], goal_cases)
  case (1 rec s key q l update r)
  then show ?case
    by (cases r, subst rm_loop.simps) (auto simp: node_ref_op_search split: if_splits op_t.splits bind_splits)
qed

lemma node_ref_heap: "heap_ok s \<Longrightarrow> heap_ok (node_ref n s)"
  by (rule heap_permuted(1)[where \<pi> = "\<lambda>q. q"]) (auto simp: node_ref_fields map_option_case split: option.split)

lemma drop_all_levels:
  assumes "\<And>l. l < k \<Longrightarrow> forward_get s (sl_header s) l = Some None"
  shows "drop_levels k s = Some (s\<lparr>sl_level := sl_level s - int k\<rparr>)"
  using assms
proof (induction k arbitrary: s)
  case (Suc k)
  have "forward_get (s\<lparr>sl_level := sl_level s - 1\<rparr>) (sl_header s) l = forward_get s (sl_header s) l" for l
    by (simp add: forward_get_def)
  then show ?case using Suc.IH[of "s\<lparr>sl_level := sl_level s - 1\<rparr>"] Suc.prems by simp
qed simp

text \<open>A list with a single entry.\<close>

lemma single_entry:
  assumes inv: "sl_inv s" and c: "sl_contents s = [k \<mapsto> v]"
  obtains f where "dom (sl_nodes s) = {sl_header s, f}" "f \<noteq> sl_header s" "entry_of s f = (k, v)" "nx s (sl_header s) 0 = Some f" "nx s f 0 = None"
proof -
  obtain ns where ns: "chain (\<lambda>q. nx s q 0) (sl_header s) ns" "set ns = dom (sl_nodes s) - {sl_header s}"
    "sorted_entries (map (entry_of s) ns)" "map_of (map (entry_of s) ns) = sl_contents s" by (rule entries_chain[OF inv])
  have dom_fst: "fst ` set (map (entry_of s) ns) = {k}" using ns(4) c dom_map_of_conv_image_fst by (metis dom_empty dom_fun_upd option.distinct(1))
  obtain f ns' where f: "ns = f # ns'" using dom_fst by (cases ns) auto
  moreover have "ns' = []"
  proof (cases ns')
    case (Cons g gs)
    then have "fst (entry_of s g) = k" "fst (entry_of s f) = k" using dom_fst f by auto
    then show ?thesis using ns(3) f Cons by (simp add: sorted_entries_def strcmp_less)
  qed
  ultimately have "ns = [f]" by simp
  moreover have "entry_of s f = (k, v)"
    using ns(4) dom_fst c calculation by (cases "entry_of s f") (auto simp: fun_eq_iff split: if_splits)
  moreover have "sl_header s \<in> dom (sl_nodes s)" using sl_invD(3)[OF inv] by (simp add: shape_def)
  ultimately show thesis using that[of f] ns(1,2) by auto
qed

text \<open>The pointers of the header and of the node, once the node is spliced out and the array is handed over.\<close>

lemma single_pointers:
  assumes inv: "sl_inv s" and N: "dom (sl_nodes s) = {sl_header s, f}" "f \<noteq> sl_header s"
  shows "nx s (sl_header s) l = None \<or> nx s (sl_header s) l = Some f \<and> nx s f l = None \<and> l < nat (sl_level s + 1)"
proof (cases "nx s (sl_header s) l")
  case (Some r)
  note sh = sl_invD(3)[OF inv]
  have r: "r = f" using shape_skips[OF sh reach_header Some] N(1) by (auto simp: skips_def)
  have reach: "reach (nx s) (sl_header s) l f" using Some r by (blast intro: reach.intros)
  have "nx s f l \<noteq> Some q" for q
  proof
    assume q: "nx s f l = Some q"
    from shape_skips[OF sh reach q] show False using N shape_header[OF sh, of f] by (auto simp: skips_def)
  qed
  moreover have "\<not> sl_level s < int l" using Some sl_invD(4)[OF inv] by (auto simp: levels_ok_def)
  ultimately show ?thesis using Some r by auto
qed simp

lemma single_spliced:
  assumes inv: "sl_inv s" and N: "dom (sl_nodes s) = {sl_header s, f}" "f \<noteq> sl_header s"
    and fn: "sl_nodes s f = Some fn" "pos s f = place k"
  obtains update s3 s4 where "rm_loop s k (sl_header s) (sl_level s) (\<lambda>_. None) = Some (sl_header s, update)"
    "splice_out [0..<nat (sl_level s + 1)] update f (node_ref f s) = Some s3" "same_nodes (node_ref f s) s3"
    "copy_forward [0..<nat (sn_level fn + 1)] (sl_header s) f s3 = Some s4" "same_nodes s3 s4" "heap_ok s4" "\<And>l. nx s4 f l = None"
proof -
  let ?h = "sl_header s" and ?t = "node_ref f s" and ?m = "nat (sl_level s + 1)" and ?ls = "[0..<nat (sn_level fn + 1)]"
  note sh = sl_invD(3)[OF inv] and ptr = single_pointers[OF inv N]
  have lv: "0 \<le> sn_level fn" "sn_level fn \<le> SKIPLIST_LEVEL_MAX" using sl_invD(2)[OF inv fn(1)] N(2) by (simp_all add: node_ok_def)
  have t: "sl_nodes ?t ?h \<noteq> None" "sl_nodes ?t f \<noteq> None" using node_ref_dom[of f s] N(1) by blast+
  have below: "q = ?h" if "reach (nx s) ?h l q" "pos s q < pos s f" for l q using reach_in[OF sh that(1)] that(2) N(1) by auto
  obtain cur update where loop: "rm_loop s k ?h (sl_level s) (\<lambda>_. None) = Some (cur, update)"
    "last_below (nx s) (pos s) ?h 0 (place k) cur" "updates s k ?m (\<lambda>_. None) update" by (rule rm_loop_node[OF inv])
  have cur: "cur = ?h" using loop(2) below fn(2) unfolding last_below_def by metis
  have up: "update l = Some ?h" if "l < ?m" for l using loop(3) that below fn(2) unfolding updates_def last_below_def by metis
  have lt: "l < SKIPLIST_LEVEL_COUNT" if "l < ?m" for l using that levels_count(1)[OF inv] by simp
  obtain s3 where s3: "splice_out [0..<?m] update f ?t = Some s3" "same_nodes ?t s3" "heap_ok s3"
    "\<And>q l. nx s3 q l = (if l \<in> set [0..<?m] \<and> q = ?h \<and> nx s q l = Some f then nx s f l else nx s q l)"
    using splice_out_nx[OF node_ref_heap[OF sl_invD(1)[OF inv]] distinct_upt, of f f 0 ?m update "\<lambda>_. ?h", unfolded node_ref_nx] t up lt by auto
  have none: "nx s3 ?h l = None" for l using ptr[of l] by (auto simp: s3(4))
  have high: "nx s3 f l = None" if "\<not> int l \<le> sn_level fn" for l
    using that sl_invD(4)[OF inv] N(2) fn(1) lv(1) by (simp add: s3(4) levels_ok_def lev_def nat_less_iff)
  have "l < SKIPLIST_LEVEL_COUNT" if "l \<in> set ?ls" for l using that lv(2) by auto
  then obtain s4 where s4: "copy_forward ?ls ?h f s3 = Some s4" "same_nodes s3 s4" "heap_ok s4"
    "\<And>q l. nx s4 q l = (if l \<in> set ?ls \<and> q = f then nx s3 ?h l else nx s3 q l)"
    using copy_forward_nx[OF s3(3), of ?h f ?ls] t same_nodes_fields[OF s3(2)] N(2) by metis
  have "nx s4 f l = None" for l using none high[of l] lv(1) by (auto simp: s4(4))
  then show thesis using that loop(1) s3(1,2) s4(1-3) unfolding cur by blast
qed

text \<open>
  Removing the entry while an iterator holds its node: the header and the node share the array of the
  node, and the level of the list is that of a list that is being destroyed.
\<close>

lemma rm_last_held:
  assumes inv: "sl_inv s" and N: "dom (sl_nodes s) = {sl_header s, f}" "f \<noteq> sl_header s" "nx s (sl_header s) 0 = Some f" and e: "entry_of s f = (k, v)"
  obtains ns s' hn fn a where "skiplist_rm (node_ref f s) k = Some (True, ns, s')" "sl_header s' = sl_header s" "sl_level s' = -1"
    "sl_nodes s' (sl_header s) = Some hn" "sn_forward hn = a" "sl_nodes s' f = Some fn" "sn_forward fn = a" "sn_refcount fn = 1"
    "sn_level fn = -1" "\<exists>b. sl_arrays s' a = Some (None # b)"
proof -
  let ?h = "sl_header s" and ?t = "node_ref f s" and ?m = "nat (sl_level s + 1)"
  obtain fn where fn: "sl_nodes s f = Some fn" "sn_key fn = Some k" "pos s f = place k" using entry_node[OF inv, of f] N e by auto
  have one: "sn_refcount fn = 1" using sl_invD(2)[OF inv fn(1)] by (simp add: node_ok_def)
  obtain hn where hn: "sl_nodes s ?h = Some hn" "sn_key hn = None" by (rule header_node[OF inv])
  have t: "sl_nodes ?t ?h = Some hn" "sl_nodes ?t f = Some (fn\<lparr>sn_refcount := 2\<rparr>)" "sl_header ?t = ?h" "sl_level ?t = sl_level s"
    using fn hn N(2) one by (simp_all add: node_ref_fields)
  obtain update s3 s4 where r: "rm_loop s k ?h (sl_level s) (\<lambda>_. None) = Some (?h, update)"
    "splice_out [0..<?m] update f ?t = Some s3" "same_nodes ?t s3"
    "copy_forward [0..<nat (sn_level fn + 1)] ?h f s3 = Some s4" "same_nodes s3 s4" "heap_ok s4" "\<And>l. nx s4 f l = None"
    by (rule single_spliced[OF inv N(1,2) fn(1,3)]) blast
  note n3 = same_nodes_fields[OF r(3)] and n4 = same_nodes_fields[OF r(5)]
  have nodes4: "sl_nodes s4 ?h = Some hn" "sl_nodes s4 f = Some (fn\<lparr>sn_refcount := 2\<rparr>)" using n4 n3 t by simp_all
  obtain b where b: "sl_arrays s4 (sn_forward fn) = Some b" "length b = SKIPLIST_LEVEL_COUNT" using heap_array[OF r(6) nodes4(2)] by auto
  have b0: "b ! l = None" if "l < SKIPLIST_LEVEL_COUNT" for l using r(7)[of l] b that nodes4(2) by (simp add: nx_def forward_get_def)
  obtain b' where b': "sl_arrays s4 (sn_forward hn) = Some b'" using heap_array[OF r(6) nodes4(1)] by auto
  have ne: "sn_forward hn \<noteq> sn_forward fn" using heap_own[OF r(6) nodes4] N(2) by auto
  define upd where "upd = (\<lambda>nd. s4\<lparr>sl_nodes := (sl_nodes s4)(f \<mapsto> nd, ?h \<mapsto> hn\<lparr>sn_forward := sn_forward fn\<rparr>),
    sl_arrays := (sl_arrays s4)(sn_forward hn := None)\<rparr>)"
  let ?fn = "fn\<lparr>sn_level := -1\<rparr>"
  have over: "take_over ?h f s3 = Some (upd (fn\<lparr>sn_refcount := 2, sn_level := -1\<rparr>))"
    using r(4) nodes4 n4 N(2) b' by (simp add: take_over_def free_array_def upd_def)
  have "?fn = fn\<lparr>sn_level := -1, sn_refcount := 1\<rparr>" using one by (cases fn) simp
  then have deref: "skiplist_node_deref f (upd (fn\<lparr>sn_refcount := 2, sn_level := -1\<rparr>)) = Some ([], upd ?fn)"
    using N(2) by (cases s4) (simp add: skiplist_node_deref_def upd_def fun_upd_twist)
  have hdr: "sl_header (upd nd) = ?h" "sl_level (upd nd) = sl_level s" for nd using n3 n4 t by (simp_all add: upd_def)
  have "forward_get (upd ?fn) ?h l = Some None" if "l < ?m" for l
    using that b b0[of l] ne levels_count(1)[OF inv] by (simp add: forward_get_def upd_def)
  then have "drop_levels ?m (upd ?fn) = Some ((upd ?fn)\<lparr>sl_level := sl_level s - int ?m\<rparr>)" using drop_all_levels[of ?m "upd ?fn"] hdr by simp
  moreover have "sl_level s - int ?m = -1" using levels_count(2)[OF inv] by linarith
  ultimately have drop: "drop_levels ?m (upd ?fn) = Some ((upd ?fn)\<lparr>sl_level := -1\<rparr>)" by metis
  define s' where "s' = (upd ?fn)\<lparr>sl_level := -1, sl_length := sl_length (upd ?fn) - 1\<rparr>"
  have "rm_found ?h update f ?t = Some (True, [], s')"
    using r(2) n3 t over deref drop hdr(2) hn(2) by (simp add: rm_found_def s'_def)
  moreover have "skiplist_node_next ?t ?h = Some (Some f)" using node_ref_next[OF inv, of ?h f] hn(1) N(3) by auto
  ultimately have "skiplist_rm ?t k = Some (True, [], s')"
    using node_ref_rm_loop[OF r(1), of f] t fn(2) by (simp add: skiplist_rm_def strcmp_zero)
  moreover have "\<exists>c. sl_arrays s' (sn_forward fn) = Some (None # c)" using b b0[of 0] ne by (cases b) (auto simp: s'_def upd_def)
  ultimately show thesis using that[of "[]" s' "hn\<lparr>sn_forward := sn_forward fn\<rparr>" "sn_forward fn" ?fn] hdr[of ?fn] N(2) one
    by (simp add: s'_def) (simp add: upd_def)
qed

section \<open>Properties of the skip list\<close>

text \<open>A new list is empty.\<close>

lemma skiplist_create_inv:
  "\<exists>s :: ('c, 'u, 'v) skiplist. qb_skiplist_create True (Some h) (Some a) = Some s \<and> sl_inv s \<and> sl_contents s = Map.empty \<and>
     dom (sl_nodes s) = {h} \<and> dom (sl_arrays s) = {a}"
proof -
  define s :: "('c, 'u, 'v) skiplist" where
    "s = \<lparr>sl_length = 0, sl_level = 0, sl_header = h,
       sl_nodes = [h \<mapsto> \<lparr>sn_key = None, sn_value = None, sn_level = 8, sn_refcount = 1, sn_notifiers = [], sn_forward = a\<rparr>],
       sl_arrays = [a \<mapsto> replicate SKIPLIST_LEVEL_COUNT None]\<rparr>"
  have ptr: "nx s q l = None" for q l by (auto simp: nx_def forward_get_def s_def nth_replicate split: if_splits)
  have reach_h: "x = h" if "reach (nx s) h l x" for l x using that by (induction) (auto simp: ptr)
  have "heap_ok s" by (auto simp: heap_ok_def s_def)
  moreover have "shape (dom (sl_nodes s)) (nx s) (pos s) (lev s) h"
    by (simp add: shape_def ptr) (simp add: s_def)
  moreover have "levels_ok s" by (simp add: levels_ok_def ptr) (simp add: s_def)
  moreover have "sl_length s = of_nat (card (dom (sl_nodes s) - {sl_header s}))" "sl_header s = h" by (simp_all add: s_def)
  moreover have "node_ok (q = h) node" if "sl_nodes s q = Some node" for q node
    using that by (auto simp: s_def node_ok_def split: if_splits)
  ultimately have "sl_inv s" by (simp add: sl_inv_def)
  moreover have "sl_contents s = Map.empty" by (auto simp: fun_eq_iff sl_contents_def s_def pos_def)
  moreover have "qb_skiplist_create True (Some h) (Some a) = Some s"
    by (simp add: qb_skiplist_create_def skiplist_node_new_def s_def)
  ultimately show ?thesis by (intro exI[of _ s]) (auto simp: s_def)
qed

definition ex_skip_env :: "nat \<Rightarrow> skip_env" where
  "ex_skip_env n = \<lparr>randoms = [1, 2, 65000], malloc_node = Some n, calloc_forward = Some n\<rparr>"

lemma ex_skip_env_ok: "sl_nodes s n = None \<Longrightarrow> sl_arrays s n = None \<Longrightarrow> skip_env_ok (ex_skip_env n) s"
  by (simp add: skip_env_ok_def ex_skip_env_def P_CEIL_def)

text \<open>
  C30: Any sequence of puts, gets, removals and counts on a skip list that no iterator uses gives the
  results of the same sequence on a finite map, whatever levels the random numbers give the nodes.
\<close>

theorem skiplist_refines_map:
  assumes "sl_inv s" "run_ok skip_env_ok (\<lambda>_. True) False (skiplist_map ok e) ops s"
  shows "\<exists>s'. map_run (skiplist_map ok e) ops s = Some (fst (spec_map_run ops (sl_contents s)), s') \<and> sl_inv s' \<and>
           sl_contents s' = snd (spec_map_run ops (sl_contents s))"
  by (rule sl.run_total[OF assms])

theorem skiplist_refines_map_witness:
  "\<exists>(s :: (nat, nat, nat) skiplist) s'. qb_skiplist_create True (Some 1) (Some 1) = Some s \<and>
     map_run (skiplist_map True 0) [MPut (ex_skip_env 2) ''a'' 5, MGet ''a'', MRm ''b''] s = Some ([OUnit, OValue (Some 5), OBool False], s')"
proof -
  obtain s :: "(nat, nat, nat) skiplist" where s: "qb_skiplist_create True (Some 1) (Some 1) = Some s" "sl_inv s" "sl_contents s = Map.empty"
    "dom (sl_nodes s) = {1}" "dom (sl_arrays s) = {1}" using skiplist_create_inv by blast
  have "2 \<notin> dom (sl_nodes s)" "2 \<notin> dom (sl_arrays s)" unfolding s(4,5) by simp_all
  then have env: "skip_env_ok (ex_skip_env 2) s" by (intro ex_skip_env_ok) blast+
  then have "run_ok skip_env_ok (\<lambda>_. True) False (skiplist_map True 0) [MPut (ex_skip_env 2) ''a'' 5, MGet ''a'', MRm ''b''] s"
    by (simp split: option.splits)
  from skiplist_refines_map[OF s(2) this] show ?thesis using s(1,3) by auto
qed

lemma skip_foreach_entries:
  assumes inv: "sl_inv s" and "\<And>k v x. \<not> fst (func k v x)"
  shows "\<exists>es. sorted_entries es \<and> map_of es = sl_contents s \<and>
           qb_map_foreach (skiplist_map True e) s func x = Some (fold (\<lambda>(k, v) x. snd (func k (Some v) x)) es x, s)"
proof -
  obtain ns where ns: "chain (\<lambda>q. nx s q 0) (sl_header s) ns" "set ns = dom (sl_nodes s) - {sl_header s}"
    "sorted_entries (map (entry_of s) ns)" "map_of (map (entry_of s) ns) = sl_contents s" by (rule entries_chain[OF inv])
  have h: "sl_header s \<in> dom (sl_nodes s)" "set ns \<subseteq> dom (sl_nodes s)" using sl_invD(3)[OF inv] ns(2) by (auto simp: shape_def)
  obtain i where "foreach_loop (skiplist_map True e) func \<lparr>si_n = Some (sl_header s)\<rparr> (node_ref (sl_header s) s) x =
      Some (fold (\<lambda>(k, v) x. snd (func k (Some v) x)) (map (entry_of s) ns) x, i, s)"
    using foreach_loop_chain[where func = func and ok = True and e = e and x = x, OF inv assms(2) h(1) ns(1) h(2)] ..
  then have "qb_map_foreach (skiplist_map True e) s func x = Some (fold (\<lambda>(k, v) x. snd (func k (Some v) x)) (map (entry_of s) ns) x, s)"
    by (simp add: qb_map_foreach_def qb_map_iter_create_def qb_map_iter_free_def skiplist_map_def skiplist_iter_create_def skiplist_iter_free_def)
  then show ?thesis using ns(3,4) by blast
qed

text \<open>
  \<^verbatim>\<open>qb_map_foreach\<close> on a skip list visits every entry exactly once, in the order of the keys, ends, and
  leaves the list exactly as it was, the reference counts included.
\<close>

theorem skiplist_foreach_sorted:
  assumes "sl_inv s" and "\<And>k v x. \<not> fst (func k v x)"
  shows "\<exists>es. sorted_entries es \<and> map_of es = sl_contents s \<and>
           qb_map_foreach (skiplist_map True e) s func x = Some (fold (\<lambda>(k, v) x. snd (func k (Some v) x)) es x, s)"
  by (rule skip_foreach_entries[OF assms])

lemma ex_single:
  obtains s :: "(nat, nat, nat) skiplist" where "sl_inv s" "sl_contents s = [''a'' \<mapsto> 5]"
proof -
  obtain s :: "(nat, nat, nat) skiplist" where s: "sl_inv s" "sl_contents s = Map.empty" "dom (sl_nodes s) = {1}" "dom (sl_arrays s) = {1}"
    using skiplist_create_inv by blast
  have "2 \<notin> dom (sl_nodes s)" "2 \<notin> dom (sl_arrays s)" unfolding s(3,4) by simp_all
  then have "skip_env_ok (ex_skip_env 2) s" by (intro ex_skip_env_ok) blast+
  then obtain ns and s' :: "(nat, nat, nat) skiplist" where "sl_inv s'" "sl_contents s' = (sl_contents s)(''a'' \<mapsto> 5)"
    using skiplist_put_ok[OF s(1)] by blast
  then show thesis using that[of s'] s(2) by simp
qed

theorem skiplist_foreach_sorted_witness:
  "\<exists>(s :: (nat, nat, nat) skiplist) es. sl_contents s = [''a'' \<mapsto> 5] \<and> map_of es = sl_contents s \<and>
     qb_map_foreach (skiplist_map True 0) s (\<lambda>k v x. (False, (k, v) # x)) [] = Some (rev (map (\<lambda>(k, v). (k, Some v)) es), s)"
proof -
  obtain s :: "(nat, nat, nat) skiplist" where s: "sl_inv s" "sl_contents s = [''a'' \<mapsto> 5]" by (rule ex_single)
  have col: "fold (\<lambda>(k, v) x. (k, Some v) # x) es x = rev (map (\<lambda>(k, v). (k, Some v)) es) @ x" for es :: "(string \<times> nat) list" and x
    by (induction es arbitrary: x) (auto simp: split_beta)
  obtain es where "map_of es = sl_contents s"
    "qb_map_foreach (skiplist_map True 0) s (\<lambda>k v x. (False, (k, v) # x)) [] = Some (fold (\<lambda>(k, v) x. snd (False, (k, Some v) # x)) es [], s)"
    using skiplist_foreach_sorted[OF s(1), of "\<lambda>k v x. (False, (k, v) # x)" 0 "[]"] by auto
  then show ?thesis using s(2) by (intro exI[of _ s] exI[of _ es]) (simp add: col)
qed

text \<open>
  When the only entry is removed while an iterator stands at it, the next step of the iterator
  frees the header's array of forward pointers: the level of the emptied list is below the minimum,
  which the code takes as the sign that the whole list is being destroyed. Every later put whose
  allocation does not happen to reuse that memory then uses freed memory.
\<close>

theorem skiplist_rm_in_iteration_frees_header:
  assumes inv: "sl_inv s" and c: "sl_contents s = [k \<mapsto> v]"
  shows "\<exists>i s1 i' s2 ns s3 ns' i'' s4 hn.
           skiplist_iter_create True s None = (Some i, s1) \<and>
           skiplist_iter_next i s1 = Some (Some (k, Some v), [], i', s2) \<and>
           skiplist_rm s2 k = Some (True, ns, s3) \<and>
           skiplist_iter_next i' s3 = Some (None, ns', i'', s4) \<and>
           sl_nodes s4 (sl_header s4) = Some hn \<and> sl_arrays s4 (sn_forward hn) = None \<and>
           (\<forall>env k' v'. skip_env_ok env s4 \<longrightarrow> calloc_forward env \<noteq> Some (sn_forward hn) \<longrightarrow> skiplist_put env s4 k' v' = None)"
proof -
  let ?h = "sl_header s"
  obtain f where f: "dom (sl_nodes s) = {?h, f}" "f \<noteq> ?h" "entry_of s f = (k, v)" "nx s ?h 0 = Some f" "nx s f 0 = None"
    by (rule single_entry[OF inv c])
  have h: "?h \<in> dom (sl_nodes s)" using f(1) by simp
  have i1: "skiplist_iter_next \<lparr>si_n = Some ?h\<rparr> (node_ref ?h s) = Some (Some (k, Some v), [], \<lparr>si_n = Some f\<rparr>, node_ref f s)"
    using iter_next_node(2)[OF inv h f(4)] f(3) by simp
  obtain ns s3 hn fn a where r: "skiplist_rm (node_ref f s) k = Some (True, ns, s3)" "sl_header s3 = ?h" "sl_level s3 = -1"
    "sl_nodes s3 ?h = Some hn" "sn_forward hn = a" "sl_nodes s3 f = Some fn" "sn_forward fn = a" "sn_refcount fn = 1"
    "sn_level fn = -1" "\<exists>b. sl_arrays s3 a = Some (None # b)" by (rule rm_last_held[OF inv f(1,2,4,3)])
  have next_f: "skiplist_node_next s3 f = Some None" using r by (subst skiplist_node_next.simps) (auto simp: forward_get_def)
  define s4 where "s4 = s3\<lparr>sl_nodes := (sl_nodes s3)(f := None), sl_arrays := (sl_arrays s3)(a := None)\<rparr>"
  have "\<exists>ns'. skiplist_node_deref f s3 = Some (ns', s4)"
    using r f(2) by (auto simp: skiplist_node_deref_def skiplist_node_destroy_def skiplist_notify_def free_array_def s4_def)
  then obtain ns' where i2: "skiplist_iter_next \<lparr>si_n = Some f\<rparr> s3 = Some (None, ns', \<lparr>si_n = None\<rparr>, s4)"
    using next_f by (auto simp: skiplist_iter_next_def)
  have s4: "sl_header s4 = ?h" "sl_nodes s4 ?h = Some hn" "sl_arrays s4 (sn_forward hn) = None" "sl_level s4 = -1"
    using r f(2) by (simp_all add: s4_def)
  have "skiplist_put env s4 k' v' = None" if env: "skip_env_ok env s4" "calloc_forward env \<noteq> Some (sn_forward hn)" for env k' v'
  proof -
    obtain m where m: "skiplist_level_generate (randoms env) = Some (int m)" by (rule skiplist_level_generate_ok[OF env(1)])
    obtain n b where nb: "malloc_node env = Some n" "calloc_forward env = Some b" "sl_nodes s4 n = None" "b \<noteq> sn_forward hn"
      using env by (auto simp: skip_env_ok_def split: option.splits)
    have "n \<noteq> ?h" using nb(3) s4(2) by auto
    moreover have "[0..<nat (int m + 1)] = 0 # [1..<nat (int m + 1)]" by (simp add: upt_conv_Cons)
    ultimately show ?thesis using m nb s4
      by (simp add: skiplist_put_def put_loop.simps[of s4 k' ?h "-1"] put_insert_def skiplist_node_new_def skiplist_notify_def forward_get_def Let_def)
  qed
  then show ?thesis using i1 r(1) i2 s4
    by (intro exI[of _ "\<lparr>si_n = Some ?h\<rparr>"] exI[of _ "node_ref ?h s"] exI[of _ "\<lparr>si_n = Some f\<rparr>"] exI[of _ "node_ref f s"]
        exI[of _ ns] exI[of _ s3] exI[of _ ns'] exI[of _ "\<lparr>si_n = None\<rparr>"] exI[of _ s4] exI[of _ hn]) (simp add: skiplist_iter_create_def)
qed

theorem skiplist_rm_in_iteration_frees_header_witness:
  "\<exists>(s :: (nat, nat, nat) skiplist) i s1 i' s2 ns s3 ns' i'' s4 hn. sl_contents s = [''a'' \<mapsto> 5] \<and>
     skiplist_iter_create True s None = (Some i, s1) \<and> skiplist_iter_next i s1 = Some (Some (''a'', Some 5), [], i', s2) \<and>
     skiplist_rm s2 ''a'' = Some (True, ns, s3) \<and> skiplist_iter_next i' s3 = Some (None, ns', i'', s4) \<and>
     sl_nodes s4 (sl_header s4) = Some hn \<and> sl_arrays s4 (sn_forward hn) = None"
proof -
  obtain s :: "(nat, nat, nat) skiplist" where s: "sl_inv s" "sl_contents s = [''a'' \<mapsto> 5]" by (rule ex_single)
  from skiplist_rm_in_iteration_frees_header[OF s] s(2) show ?thesis by blast
qed

end
