(* ===== verification/Ipcs.thy ===== *)
theory Ipcs
  imports Ipc_us Loop
begin

text \<open>
  The server side of the inter-process communication (\<^verbatim>\<open>lib/ipcs.c\<close>). The setup of connections is in the theory \<open>Ipcs_setup\<close>. The state is a service, its connections and the clients that
  are still being authenticated, each at an address; \<open>None\<close> as the result of an operation is a failed
  assertion or the use of freed memory. The functions of the transport, the poll functions and the
  callbacks of the application are parameters: their results are inputs, and the calls are recorded
  in the order in which they are made. Within a callback the application may call the operations
  \<open>app_op\<close>. Arguments that are \<^verbatim>\<open>NULL\<close> are refused by the code before anything else and are left out.
\<close>

section \<open>State\<close>

datatype qb_ipc_type = QB_IPC_SOCKET | QB_IPC_SHM | QB_IPC_POSIX_MQ | QB_IPC_SYSV_MQ | QB_IPC_NATIVE

datatype qb_ipcs_connection_state =
    QB_IPCS_CONNECTION_INACTIVE | QB_IPCS_CONNECTION_ACTIVE
  | QB_IPCS_CONNECTION_ESTABLISHED | QB_IPCS_CONNECTION_SHUTTING_DOWN

datatype qb_ipcs_rate_limit =
  QB_IPCS_RATE_FAST | QB_IPCS_RATE_NORMAL | QB_IPCS_RATE_SLOW | QB_IPCS_RATE_OFF | QB_IPCS_RATE_OFF_2

record qb_ipcs_connection_stats_2 =
  client_pid :: int
  requests :: u64
  responses :: u64
  events_sent :: u64
  send_retries :: u64
  recv_retries :: u64
  flow_control_state :: int
  flow_control_count :: u64
  event_q_length :: u32

record qb_ipcs_connection =
  c_state :: qb_ipcs_connection_state
  c_refcount :: int
  c_pid :: int
  c_euid :: int
  c_egid :: int
  c_auth :: "int \<times> int \<times> int"
  c_type :: qb_ipc_type
  setup_sock :: int
  request_max :: nat
  response_max :: nat
  event_max :: nat
  fc_enabled :: int
  poll_events :: u32
  outstanding_notifiers :: int
  c_stats :: qb_ipcs_connection_stats_2

record qb_ipcs_stats =
  active_connections :: u32
  closed_connections :: u32

text \<open>Which callbacks and poll functions are set; \<open>can_peek\<close> says that the transport can peek and reclaim.\<close>

record qb_ipcs_service =
  s_type :: qb_ipc_type
  max_buffer_size :: u32
  service_id :: int
  s_ref_count :: int
  needs_sock_for_poll :: bool
  server_sock :: int
  has_accept :: bool
  has_created :: bool
  has_closed :: bool
  has_destroyed :: bool
  has_poll_fns :: bool
  has_connect :: bool
  can_peek :: bool
  has_q_len :: bool
  poll_priority :: nat
  connections :: "nat list"
  s_stats :: qb_ipcs_stats

text \<open>A client that is being authenticated.\<close>

record ipc_auth_data =
  ad_sock :: int
  ad_processed :: int
  ad_len :: int
  ad_ugp :: ipc_auth_ugp

text \<open>The calls that the library makes.\<close>

datatype ipcs_call =
    CallAccept nat | CallCreated nat | CallMsgProcess nat int | CallClosed nat | CallDestroyed nat
  | CallDisconnect nat | CallDispatchMod nat u32 nat | CallFcSet nat int | CallReclaim nat

text \<open>
  \<open>jobs\<close> are the connections for which a rerun of the disconnection is scheduled. \<open>held\<close> is the
  application's own account of the references it has taken; the library does not read it.
\<close>

record ipcs =
  srv :: "qb_ipcs_service option"
  conns :: "nat \<rightharpoonup> qb_ipcs_connection"
  auths :: "nat \<rightharpoonup> ipc_auth_data"
  jobs :: "nat list"
  calls :: "ipcs_call list"
  held :: "nat \<Rightarrow> nat"

definition call :: "ipcs_call \<Rightarrow> ipcs \<Rightarrow> ipcs" where
  "call x w = w\<lparr>calls := calls w @ [x]\<rparr>"

definition conn_set :: "nat \<Rightarrow> qb_ipcs_connection \<Rightarrow> ipcs \<Rightarrow> ipcs" where
  "conn_set c conn w = w\<lparr>conns := (conns w)(c \<mapsto> conn)\<rparr>"

definition srv_set :: "qb_ipcs_service \<Rightarrow> ipcs \<Rightarrow> ipcs" where
  "srv_set s w = w\<lparr>srv := Some s\<rparr>"

text \<open>A change of a connection, or of its statistics.\<close>

definition on_conn :: "(qb_ipcs_connection \<Rightarrow> qb_ipcs_connection) \<Rightarrow> nat \<Rightarrow> ipcs \<Rightarrow> ipcs option" where
  "on_conn f c w = do { conn \<leftarrow> conns w c; Some (conn_set c (f conn) w) }"

definition on_stats :: "(qb_ipcs_connection_stats_2 \<Rightarrow> qb_ipcs_connection_stats_2) \<Rightarrow> nat \<Rightarrow> ipcs \<Rightarrow> ipcs option" where
  "on_stats f c w = on_conn (\<lambda>conn. conn\<lparr>c_stats := f (c_stats conn)\<rparr>) c w"

section \<open>References\<close>

definition qb_ipcs_ref :: "ipcs \<Rightarrow> ipcs option" where
  "qb_ipcs_ref w = do { s \<leftarrow> srv w; Some (srv_set (s\<lparr>s_ref_count := s_ref_count s + 1\<rparr>) w) }"

definition qb_ipcs_unref :: "ipcs \<Rightarrow> ipcs option" where
  "qb_ipcs_unref w =
     do { s \<leftarrow> srv w;
          if \<not> s_ref_count s > 0 then None
          else if s_ref_count s - 1 = 0 then Some (w\<lparr>srv := None\<rparr>)
          else Some (srv_set (s\<lparr>s_ref_count := s_ref_count s - 1\<rparr>) w) }"

definition qb_ipcs_connection_ref :: "nat \<Rightarrow> ipcs \<Rightarrow> ipcs option" where
  "qb_ipcs_connection_ref = on_conn (\<lambda>conn. conn\<lparr>c_refcount := c_refcount conn + 1\<rparr>)"

definition connection_free :: "nat \<Rightarrow> ipcs \<Rightarrow> ipcs option" where
  "connection_free c w =
     do { s \<leftarrow> srv w;
          let w = srv_set (s\<lparr>connections := remove1 c (connections s)\<rparr>) w;
          let w = (if has_destroyed s then call (CallDestroyed c) w else w);
          w \<leftarrow> qb_ipcs_unref (call (CallDisconnect c) w);
          Some (w\<lparr>conns := (conns w)(c := None)\<rparr>) }"

definition qb_ipcs_connection_unref :: "nat \<Rightarrow> ipcs \<Rightarrow> ipcs option" where
  "qb_ipcs_connection_unref c w =
     do { conn \<leftarrow> conns w c;
          if c_refcount conn < 1 then None
          else
            let w = conn_set c (conn\<lparr>c_refcount := c_refcount conn - 1\<rparr>) w
            in if c_refcount conn - 1 = 0 then connection_free c w else Some w }"

section \<open>Flow control\<close>

definition modify_dispatch_descriptor :: "nat \<Rightarrow> ipcs \<Rightarrow> ipcs option" where
  "modify_dispatch_descriptor c w =
     do { conn \<leftarrow> conns w c; s \<leftarrow> srv w; Some (call (CallDispatchMod c (poll_events conn) (poll_priority s)) w) }"

definition qb_ipcs_flowcontrol_set :: "nat \<Rightarrow> int \<Rightarrow> ipcs \<Rightarrow> ipcs option" where
  "qb_ipcs_flowcontrol_set c fc_enable w =
     do { conn \<leftarrow> conns w c;
          if fc_enabled conn \<noteq> fc_enable then
            (do { s \<leftarrow> srv w;
                  let st = c_stats conn;
                  Some (conn_set c (conn\<lparr>fc_enabled := fc_enable,
                    c_stats := st\<lparr>flow_control_state := fc_enable, flow_control_count := flow_control_count st + 1\<rparr>\<rparr>)
                    (call (CallFcSet c fc_enable) w)) })
          else Some w }"

definition rate_priority :: "qb_ipcs_rate_limit \<Rightarrow> nat" where
  "rate_priority rl =
     (case rl of
        QB_IPCS_RATE_FAST \<Rightarrow> QB_LOOP_HIGH
      | QB_IPCS_RATE_SLOW \<Rightarrow> QB_LOOP_LOW
      | QB_IPCS_RATE_OFF \<Rightarrow> QB_LOOP_LOW
      | QB_IPCS_RATE_OFF_2 \<Rightarrow> QB_LOOP_LOW
      | QB_IPCS_RATE_NORMAL \<Rightarrow> QB_LOOP_MED)"

definition rate_fc :: "qb_ipcs_rate_limit \<Rightarrow> int" where
  "rate_fc rl = (if rl = QB_IPCS_RATE_OFF then 1 else if rl = QB_IPCS_RATE_OFF_2 then 2 else 0)"

fun rate_limit_loop :: "nat list \<Rightarrow> qb_ipcs_rate_limit \<Rightarrow> bool \<Rightarrow> ipcs \<Rightarrow> ipcs option" where
  "rate_limit_loop [] rl changed w = Some w"
| "rate_limit_loop (c # cs) rl changed w =
     do { w \<leftarrow> qb_ipcs_connection_ref c w;
          w \<leftarrow> qb_ipcs_flowcontrol_set c (rate_fc rl) w;
          w \<leftarrow> (if changed then modify_dispatch_descriptor c w else Some w);
          w \<leftarrow> qb_ipcs_connection_unref c w;
          rate_limit_loop cs rl changed w }"

definition qb_ipcs_request_rate_limit :: "qb_ipcs_rate_limit \<Rightarrow> ipcs \<Rightarrow> ipcs option" where
  "qb_ipcs_request_rate_limit rl w =
     do { s \<leftarrow> srv w;
          rate_limit_loop (connections s) rl (poll_priority s \<noteq> rate_priority rl)
            (srv_set (s\<lparr>poll_priority := rate_priority rl\<rparr>) w) }"

section \<open>Sending\<close>

text \<open>
  What the transport answers: the result of its send function, of the sends of notifications on the setup socket
  (an error or success, see \<open>us_send_value\<close>), and of the readiness test.
\<close>

record send_env =
  se_send :: int
  se_notify :: int
  se_ready :: int

text \<open>Whether there is a socket to test for readiness.\<close>

definition sock_one_way_get :: "nat \<Rightarrow> ipcs \<Rightarrow> bool option" where
  "sock_one_way_get c w =
     do { conn \<leftarrow> conns w c; s \<leftarrow> srv w; Some (needs_sock_for_poll s \<or> c_type conn = QB_IPC_SOCKET) }"

definition ready_result :: "bool \<Rightarrow> send_env \<Rightarrow> int \<Rightarrow> int" where
  "ready_result ow env res = (if ow \<and> se_ready env < 0 then se_ready env else res)"

text \<open>A send that is right when \<open>good\<close> holds of its result.\<close>

definition response_send_any :: "(int \<Rightarrow> bool) \<Rightarrow> send_env \<Rightarrow> nat \<Rightarrow> ipcs \<Rightarrow> (int \<times> ipcs) option" where
  "response_send_any good env c w =
     do { w \<leftarrow> qb_ipcs_connection_ref c w;
          s \<leftarrow> srv w;
          let res = se_send env;
          (res, w) \<leftarrow>
            (if good res then do { w \<leftarrow> on_stats (\<lambda>st. st\<lparr>responses := responses st + 1\<rparr>) c w; Some (res, w) }
             else if res = - EAGAIN \<or> res = - ETIMEDOUT then
               do { ow \<leftarrow> sock_one_way_get c w;
                    w \<leftarrow> on_stats (\<lambda>st. st\<lparr>send_retries := send_retries st + 1\<rparr>) c w;
                    Some (ready_result ow env res, w) }
             else Some (res, w));
          w \<leftarrow> qb_ipcs_connection_unref c w;
          Some (res, w) }"

definition qb_ipcs_response_send :: "send_env \<Rightarrow> nat \<Rightarrow> nat \<Rightarrow> ipcs \<Rightarrow> (int \<times> ipcs) option" where
  "qb_ipcs_response_send env c sz = response_send_any (\<lambda>res. res = int sz) env c"

definition qb_ipcs_response_sendv :: "send_env \<Rightarrow> nat \<Rightarrow> ipcs \<Rightarrow> (int \<times> ipcs) option" where
  "qb_ipcs_response_sendv env c = response_send_any (\<lambda>res. res > 0) env c"

definition resend_event_notifications :: "int \<Rightarrow> nat \<Rightarrow> ipcs \<Rightarrow> (int \<times> ipcs) option" where
  "resend_event_notifications notify c w =
     do { conn \<leftarrow> conns w c;
          s \<leftarrow> srv w;
          if \<not> needs_sock_for_poll s then Some (0, w)
          else
            let res = (if outstanding_notifiers conn > 0 then us_send_value (nat (outstanding_notifiers conn)) notify else 0);
                left = (if res > 0 then outstanding_notifiers conn - res else outstanding_notifiers conn)
            in if \<not> left \<ge> 0 then None
               else if left = 0 then
                 do { w \<leftarrow> modify_dispatch_descriptor c
                        (conn_set c (conn\<lparr>outstanding_notifiers := left, poll_events := POLLIN OR POLLPRI OR POLLNVAL\<rparr>) w);
                      Some (res, w) }
               else Some (res, conn_set c (conn\<lparr>outstanding_notifiers := left\<rparr>) w) }"

definition new_event_notification :: "int \<Rightarrow> nat \<Rightarrow> ipcs \<Rightarrow> (int \<times> ipcs) option" where
  "new_event_notification notify c w =
     do { conn \<leftarrow> conns w c;
          s \<leftarrow> srv w;
          if \<not> needs_sock_for_poll s then Some (0, w)
          else if \<not> outstanding_notifiers conn \<ge> 0 then None
          else if outstanding_notifiers conn > 0 then
            resend_event_notifications notify c (conn_set c (conn\<lparr>outstanding_notifiers := outstanding_notifiers conn + 1\<rparr>) w)
          else
            let res = us_send_value 1 notify
            in if res = - EAGAIN then
                 do { w \<leftarrow> modify_dispatch_descriptor c
                        (conn_set c (conn\<lparr>outstanding_notifiers := outstanding_notifiers conn + 1,
                                          poll_events := POLLOUT OR POLLIN OR POLLPRI OR POLLNVAL\<rparr>) w);
                      Some (res, w) }
               else Some (res, w) }"

definition event_send_any :: "(int \<Rightarrow> bool) \<Rightarrow> (int \<Rightarrow> bool) \<Rightarrow> send_env \<Rightarrow> nat \<Rightarrow> ipcs \<Rightarrow> (int \<times> ipcs) option" where
  "event_send_any good tolerated env c w =
     do { w \<leftarrow> qb_ipcs_connection_ref c w;
          s \<leftarrow> srv w;
          let res = se_send env;
          (res, w) \<leftarrow>
            (if good res then
               do { w \<leftarrow> on_stats (\<lambda>st. st\<lparr>events_sent := events_sent st + 1\<rparr>) c w;
                    (resn, w) \<leftarrow> new_event_notification (se_notify env) c w;
                    Some (if resn < 0 \<and> \<not> tolerated resn then resn else res, w) }
             else if res = - EAGAIN \<or> res = - ETIMEDOUT then
               do { ow \<leftarrow> sock_one_way_get c w;
                    conn \<leftarrow> conns w c;
                    w \<leftarrow> (if outstanding_notifiers conn > 0
                          then map_option snd (resend_event_notifications (se_notify env) c w) else Some w);
                    w \<leftarrow> on_stats (\<lambda>st. st\<lparr>send_retries := send_retries st + 1\<rparr>) c w;
                    Some (ready_result ow env res, w) }
             else Some (res, w));
          w \<leftarrow> qb_ipcs_connection_unref c w;
          Some (res, w) }"

definition qb_ipcs_event_send :: "send_env \<Rightarrow> nat \<Rightarrow> nat \<Rightarrow> ipcs \<Rightarrow> (int \<times> ipcs) option" where
  "qb_ipcs_event_send env c sz w =
     do { conn \<leftarrow> conns w c;
          if sz > event_max conn then Some (- EMSGSIZE, w)
          else event_send_any (\<lambda>res. res = int sz) (\<lambda>r. r = - EAGAIN \<or> r = - ENOBUFS) env c w }"

definition qb_ipcs_event_sendv :: "send_env \<Rightarrow> nat \<Rightarrow> ipcs \<Rightarrow> (int \<times> ipcs) option" where
  "qb_ipcs_event_sendv env c = event_send_any (\<lambda>res. res > 0) (\<lambda>r. r = - EAGAIN) env c"

section \<open>The application\<close>

text \<open>\<^verbatim>\<open>qb_ipcs_connection_first_get\<close> and \<^verbatim>\<open>qb_ipcs_connection_next_get\<close> give a reference to the caller.\<close>

definition qb_ipcs_connection_first_get :: "ipcs \<Rightarrow> (nat option \<times> ipcs) option" where
  "qb_ipcs_connection_first_get w =
     do { s \<leftarrow> srv w;
          case connections s of
            [] \<Rightarrow> Some (None, w)
          | c # cs \<Rightarrow> do { w \<leftarrow> qb_ipcs_connection_ref c w; Some (Some c, w) } }"

text \<open>The element after \<open>current\<close>, which is in the list.\<close>

definition qb_ipcs_connection_next_get :: "nat \<Rightarrow> ipcs \<Rightarrow> (nat option \<times> ipcs) option" where
  "qb_ipcs_connection_next_get current w =
     do { s \<leftarrow> srv w;
          case dropWhile (\<lambda>c. c \<noteq> current) (connections s) of
            _ # c # cs \<Rightarrow> do { w \<leftarrow> qb_ipcs_connection_ref c w; Some (Some c, w) }
          | _ \<Rightarrow> Some (None, w) }"

definition qb_ipcs_connection_stats_get_2 :: "nat \<Rightarrow> u32 \<Rightarrow> bool \<Rightarrow> ipcs \<Rightarrow> (qb_ipcs_connection_stats_2 \<times> ipcs) option" where
  "qb_ipcs_connection_stats_get_2 c q_len clear w =
     do { conn \<leftarrow> conns w c; s \<leftarrow> srv w;
          let st = (c_stats conn)\<lparr>event_q_length := (if has_q_len s then q_len else 0)\<rparr>;
          let zero = \<lparr>client_pid = c_pid conn, requests = 0, responses = 0, events_sent = 0, send_retries = 0, recv_retries = 0,
                      flow_control_state = 0, flow_control_count = 0, event_q_length = 0\<rparr>;
          Some (st, if clear then conn_set c (conn\<lparr>c_stats := zero\<rparr>) w else w) }"

definition qb_ipcs_stats_get :: "bool \<Rightarrow> ipcs \<Rightarrow> (qb_ipcs_stats \<times> ipcs) option" where
  "qb_ipcs_stats_get clear w =
     do { s \<leftarrow> srv w;
          Some (s_stats s, if clear then srv_set (s\<lparr>s_stats := \<lparr>active_connections = 0, closed_connections = 0\<rparr>\<rparr>) w else w) }"

definition qb_ipcs_connection_auth_set :: "nat \<Rightarrow> int \<times> int \<times> int \<Rightarrow> ipcs \<Rightarrow> ipcs option" where
  "qb_ipcs_connection_auth_set c auth = on_conn (\<lambda>conn. conn\<lparr>c_auth := auth\<rparr>) c"

definition qb_ipcs_connection_get_buffer_size :: "nat \<Rightarrow> ipcs \<Rightarrow> nat option" where
  "qb_ipcs_connection_get_buffer_size c w = do { conn \<leftarrow> conns w c; Some (response_max conn) }"

definition qb_ipcs_enforce_buffer_size :: "u32 \<Rightarrow> ipcs \<Rightarrow> ipcs option" where
  "qb_ipcs_enforce_buffer_size sz w = do { s \<leftarrow> srv w; Some (srv_set (s\<lparr>max_buffer_size := sz\<rparr>) w) }"

text \<open>
  What the application may do at any time, within a callback too: send, take and give up
  references, limit the rate, read statistics. It uses connections that exist, and gives up only
  references that it has.
\<close>

datatype app_op =
    AppRef nat | AppUnref nat | AppFirst | AppNext nat | AppRate qb_ipcs_rate_limit
  | AppResponse send_env nat nat | AppResponsev send_env nat | AppEvent send_env nat nat | AppEventv send_env nat
  | AppStats nat u32 bool | AppServiceStats bool | AppAuth nat "int \<times> int \<times> int" | AppBuffer u32

fun app_ok :: "app_op \<Rightarrow> ipcs \<Rightarrow> bool" where
  "app_ok (AppRef c) w \<longleftrightarrow> conns w c \<noteq> None"
| "app_ok (AppUnref c) w \<longleftrightarrow> held w c > 0"
| "app_ok AppFirst w \<longleftrightarrow> srv w \<noteq> None"
| "app_ok (AppNext c) w \<longleftrightarrow> (case srv w of None \<Rightarrow> False | Some s \<Rightarrow> c \<in> set (connections s))"
| "app_ok (AppRate rl) w \<longleftrightarrow> srv w \<noteq> None"
| "app_ok (AppResponse env c sz) w \<longleftrightarrow> conns w c \<noteq> None"
| "app_ok (AppResponsev env c) w \<longleftrightarrow> conns w c \<noteq> None"
| "app_ok (AppEvent env c sz) w \<longleftrightarrow> conns w c \<noteq> None"
| "app_ok (AppEventv env c) w \<longleftrightarrow> conns w c \<noteq> None"
| "app_ok (AppStats c q clear) w \<longleftrightarrow> conns w c \<noteq> None"
| "app_ok (AppServiceStats clear) w \<longleftrightarrow> srv w \<noteq> None"
| "app_ok (AppAuth c auth) w \<longleftrightarrow> conns w c \<noteq> None"
| "app_ok (AppBuffer sz) w \<longleftrightarrow> srv w \<noteq> None"

text \<open>The account of references.\<close>

definition hold :: "nat option \<Rightarrow> ipcs \<Rightarrow> ipcs" where
  "hold c w = (case c of None \<Rightarrow> w | Some c \<Rightarrow> w\<lparr>held := (held w)(c := held w c + 1)\<rparr>)"

definition unhold :: "nat \<Rightarrow> ipcs \<Rightarrow> ipcs" where
  "unhold c w = w\<lparr>held := (held w)(c := held w c - 1)\<rparr>"

fun app_do :: "app_op \<Rightarrow> ipcs \<Rightarrow> ipcs option" where
  "app_do (AppRef c) w = map_option (hold (Some c)) (qb_ipcs_connection_ref c w)"
| "app_do (AppUnref c) w = qb_ipcs_connection_unref c (unhold c w)"
| "app_do AppFirst w = map_option (\<lambda>(c, w). hold c w) (qb_ipcs_connection_first_get w)"
| "app_do (AppNext c) w = map_option (\<lambda>(c, w). hold c w) (qb_ipcs_connection_next_get c w)"
| "app_do (AppRate rl) w = qb_ipcs_request_rate_limit rl w"
| "app_do (AppResponse env c sz) w = map_option snd (qb_ipcs_response_send env c sz w)"
| "app_do (AppResponsev env c) w = map_option snd (qb_ipcs_response_sendv env c w)"
| "app_do (AppEvent env c sz) w = map_option snd (qb_ipcs_event_send env c sz w)"
| "app_do (AppEventv env c) w = map_option snd (qb_ipcs_event_sendv env c w)"
| "app_do (AppStats c q clear) w = map_option snd (qb_ipcs_connection_stats_get_2 c q clear w)"
| "app_do (AppServiceStats clear) w = map_option snd (qb_ipcs_stats_get clear w)"
| "app_do (AppAuth c auth) w = qb_ipcs_connection_auth_set c auth w"
| "app_do (AppBuffer sz) w = qb_ipcs_enforce_buffer_size sz w"

text \<open>A callback makes a sequence of calls; those that it may not make it does not make.\<close>

fun app_run :: "app_op list \<Rightarrow> ipcs \<Rightarrow> ipcs option" where
  "app_run [] w = Some w"
| "app_run (a # as) w = do { w \<leftarrow> (if app_ok a w then app_do a w else Some w); app_run as w }"

section \<open>Disconnecting\<close>

record disc_env =
  closed_rc :: int
  closed_ops :: "app_op list"
  job_rc :: int

definition disconnect_shutting :: "disc_env \<Rightarrow> nat \<Rightarrow> ipcs \<Rightarrow> ipcs option" where
  "disconnect_shutting env c w =
     do { s \<leftarrow> srv w;
          (res, w) \<leftarrow> (if has_closed s then do { w \<leftarrow> app_run (closed_ops env) (call (CallClosed c) w); Some (closed_rc env, w) }
                       else Some (0, w));
          if res \<noteq> 0 \<and> job_rc env = 0 then Some (w\<lparr>jobs := jobs w @ [c]\<rparr>)
          else qb_ipcs_connection_unref c w }"

definition qb_ipcs_disconnect :: "disc_env \<Rightarrow> nat \<Rightarrow> ipcs \<Rightarrow> ipcs option" where
  "qb_ipcs_disconnect env c w =
     do { conn \<leftarrow> conns w c;
          s \<leftarrow> srv w;
          let st = s_stats s;
          if c_state conn = QB_IPCS_CONNECTION_ACTIVE then
            qb_ipcs_connection_unref c
              (srv_set (s\<lparr>s_stats := st\<lparr>closed_connections := closed_connections st + 1\<rparr>\<rparr>)
                (conn_set c (conn\<lparr>c_state := QB_IPCS_CONNECTION_INACTIVE\<rparr>) (call (CallDisconnect c) w)))
          else if c_state conn = QB_IPCS_CONNECTION_ESTABLISHED then
            disconnect_shutting env c
              (srv_set (s\<lparr>s_stats := st\<lparr>active_connections := active_connections st - 1, closed_connections := closed_connections st + 1\<rparr>\<rparr>)
                (conn_set c (conn\<lparr>c_state := QB_IPCS_CONNECTION_SHUTTING_DOWN\<rparr>) (call (CallDisconnect c) w)))
          else if c_state conn = QB_IPCS_CONNECTION_SHUTTING_DOWN then disconnect_shutting env c w
          else Some w }"

text \<open>The scheduled job runs.\<close>

definition run_job :: "disc_env \<Rightarrow> nat \<Rightarrow> ipcs \<Rightarrow> ipcs option" where
  "run_job env c w = qb_ipcs_disconnect env c (w\<lparr>jobs := remove1 c (jobs w)\<rparr>)"

section \<open>Requests\<close>

text \<open>A request as the transport gives it, and what the application does with it.\<close>

record request_env =
  rq_size :: int
  rq_id :: int
  rq_hdr_size :: int
  rq_ops :: "app_op list"
  rq_rc :: int

abbreviation QB_IPC_MSG_AUTHENTICATE :: int where "QB_IPC_MSG_AUTHENTICATE \<equiv> -1"
abbreviation QB_IPC_MSG_DISCONNECT :: int where "QB_IPC_MSG_DISCONNECT \<equiv> -3"

definition process_request :: "request_env \<Rightarrow> nat \<Rightarrow> ipcs \<Rightarrow> (int \<times> ipcs) option" where
  "process_request rq c w =
     do { conn \<leftarrow> conns w c;
          s \<leftarrow> srv w;
          if rq_size rq < 0 then
            (if rq_size rq \<noteq> - EAGAIN \<and> rq_size rq \<noteq> - ETIMEDOUT then Some (rq_size rq, w)
             else do { w \<leftarrow> on_stats (\<lambda>st. st\<lparr>recv_retries := recv_retries st + 1\<rparr>) c w; Some (rq_size rq, w) })
          else if rq_size rq = 0 \<or> rq_id rq = QB_IPC_MSG_DISCONNECT then Some (- ESHUTDOWN, w)
          else if rq_hdr_size rq \<le> 0 \<or> rq_hdr_size rq > int (request_max conn) then Some (- EINVAL, w)
          else
            do { w \<leftarrow> on_stats (\<lambda>st. st\<lparr>requests := requests st + 1\<rparr>) c w;
                 w \<leftarrow> app_run (rq_ops rq) (call (CallMsgProcess c (rq_hdr_size rq)) w);
                 s \<leftarrow> srv w;
                 Some (if rq_rc rq < 0 then - ENOBUFS else rq_size rq, if can_peek s then call (CallReclaim c) w else w) } }"

abbreviation MAX_RECV_MSGS :: int where "MAX_RECV_MSGS \<equiv> 50"

definition request_q_len_get :: "int \<Rightarrow> ipcs \<Rightarrow> int option" where
  "request_q_len_get q_len w =
     do { s \<leftarrow> srv w;
          Some (if has_q_len s then
                  (if q_len \<le> 0 then q_len
                   else if poll_priority s = QB_LOOP_MED then min q_len 5
                   else if poll_priority s = QB_LOOP_LOW then 1
                   else min q_len MAX_RECV_MSGS)
                else 1) }"

text \<open>The loop over the requests: the last result, how many were received, and the requests that are left.\<close>

function request_loop :: "(nat \<Rightarrow> request_env) \<Rightarrow> nat \<Rightarrow> int \<Rightarrow> int \<Rightarrow> nat \<Rightarrow> ipcs \<Rightarrow> (int \<times> int \<times> ipcs) option" where
  "request_loop rqs i avail recvd c w =
     do { (res, w) \<leftarrow> process_request (rqs i) c w;
          if res = - ESHUTDOWN then Some (res, recvd, w)
          else
            let recvd = (if res > 0 \<or> res = - ENOBUFS \<or> res = - EINVAL then recvd + 1 else recvd);
                avail = (if res > 0 then avail - 1 else avail)
            in do { conn \<leftarrow> conns w c;
                    if avail > 0 \<and> res > 0 \<and> fc_enabled conn = 0 then request_loop rqs (Suc i) avail recvd c w
                    else Some (res, recvd, w) } }"
  by pat_completeness auto
termination by (relation "measure (\<lambda>(rqs, i, avail, recvd, c, w). nat avail)") auto

declare request_loop.simps [simp del]

record dispatch_env =
  d_revents :: u32
  d_notify :: int
  d_q_len :: int
  d_recv_one :: int
  d_requests :: "nat \<Rightarrow> request_env"
  d_recv_all :: int
  d_disc :: disc_env

text \<open>The result of a dispatch, before a connection with an error is closed.\<close>

definition dispatch_requests :: "dispatch_env \<Rightarrow> nat \<Rightarrow> ipcs \<Rightarrow> (int \<times> ipcs) option" where
  "dispatch_requests env c w =
     do { avail \<leftarrow> request_q_len_get (d_q_len env) w;
          s \<leftarrow> srv w;
          if needs_sock_for_poll s \<and> avail = 0 then
            Some (if qb_ipc_us_sock_error_is_disconnected (d_recv_one env) then - ESHUTDOWN else 0, w)
          else
            do { (res, recvd, w) \<leftarrow> request_loop (d_requests env) 0 avail 0 c w;
                 s \<leftarrow> srv w;
                 if res = - ESHUTDOWN then Some (res, w)
                 else if needs_sock_for_poll s \<and> recvd > 0 \<and> qb_ipc_us_sock_error_is_disconnected (d_recv_all env)
                 then Some (- ESHUTDOWN, w)
                 else
                   let res = min 0 res
                   in Some (if res = - EAGAIN \<or> res = - ETIMEDOUT \<or> res = - ENOBUFS then 0 else res, w) } }"

definition dispatch_result :: "dispatch_env \<Rightarrow> nat \<Rightarrow> ipcs \<Rightarrow> (int \<times> ipcs) option" where
  "dispatch_result env c w =
     (if has_event (d_revents env) POLLNVAL then Some (- EINVAL, w)
      else if has_event (d_revents env) POLLHUP then Some (- ESHUTDOWN, w)
      else
        do { w \<leftarrow> (if has_event (d_revents env) POLLOUT then map_option snd (resend_event_notifications (d_notify env) c w) else Some w);
             conn \<leftarrow> conns w c;
             if has_event (d_revents env) POLLOUT \<and> \<not> has_event (d_revents env) POLLIN then Some (0, w)
             else if fc_enabled conn \<noteq> 0 then Some (0, w)
             else dispatch_requests env c w })"

definition qb_ipcs_dispatch_connection_request :: "dispatch_env \<Rightarrow> nat \<Rightarrow> ipcs \<Rightarrow> (int \<times> ipcs) option" where
  "qb_ipcs_dispatch_connection_request env c w =
     do { (res, w) \<leftarrow> dispatch_result env c w;
          w \<leftarrow> (if res \<noteq> 0 then qb_ipcs_disconnect (d_disc env) c w else Some w);
          Some (res, w) }"

end
