(* ===== verification/Ipcs_setup.thy ===== *)
theory Ipcs_setup
  imports Ipcs
begin

text \<open>
  The life of a service and the setup of its connections: \<^verbatim>\<open>qb_ipcs_create\<close>, \<^verbatim>\<open>qb_ipcs_run\<close> and
  \<^verbatim>\<open>qb_ipcs_destroy\<close> of \<^verbatim>\<open>lib/ipcs.c\<close>, and the server part of \<^verbatim>\<open>lib/ipc_setup.c\<close> (accepting a client, receiving its
  request with the credentials, and answering it), as on Linux.
\<close>

section \<open>The service\<close>

record ipcs_handlers =
  hd_accept :: bool
  hd_created :: bool
  hd_closed :: bool
  hd_destroyed :: bool

definition qb_ipcs_create :: "bool \<Rightarrow> int \<Rightarrow> qb_ipc_type \<Rightarrow> ipcs_handlers \<Rightarrow> ipcs option" where
  "qb_ipcs_create calloc_ok sid type handlers =
     (if \<not> calloc_ok then None
      else Some
        \<lparr>srv = Some \<lparr>s_type = (if type = QB_IPC_NATIVE then QB_IPC_SHM else type), max_buffer_size = 0, service_id = sid,
                     s_ref_count = 1, needs_sock_for_poll = False, server_sock = 0,
                     has_accept = hd_accept handlers, has_created = hd_created handlers, has_closed = hd_closed handlers,
                     has_destroyed = hd_destroyed handlers, has_poll_fns = False, has_connect = False, can_peek = False,
                     has_q_len = False, poll_priority = QB_LOOP_MED, connections = [],
                     s_stats = \<lparr>active_connections = 0, closed_connections = 0\<rparr>\<rparr>,
         conns = Map.empty, auths = Map.empty, jobs = [], calls = [], held = (\<lambda>_. 0)\<rparr>)"

definition qb_ipcs_poll_handlers_set :: "bool \<Rightarrow> ipcs \<Rightarrow> ipcs option" where
  "qb_ipcs_poll_handlers_set set_all w = do { s \<leftarrow> srv w; Some (srv_set (s\<lparr>has_poll_fns := set_all\<rparr>) w) }"

text \<open>What the two transports set (the function tables at the end of \<^verbatim>\<open>lib/ipc_socket.c\<close> and \<^verbatim>\<open>lib/ipc_shm.c\<close>).\<close>

definition qb_ipcs_us_init :: "qb_ipcs_service \<Rightarrow> qb_ipcs_service" where
  "qb_ipcs_us_init s = s\<lparr>has_connect := True, can_peek := False, has_q_len := True, needs_sock_for_poll := False\<rparr>"

definition qb_ipcs_shm_init :: "qb_ipcs_service \<Rightarrow> qb_ipcs_service" where
  "qb_ipcs_shm_init s = s\<lparr>has_connect := True, can_peek := True, has_q_len := True, needs_sock_for_poll := True\<rparr>"

text \<open>\<open>publish\<close> is the new server socket or an error.\<close>

definition qb_ipcs_run :: "int + int \<Rightarrow> ipcs \<Rightarrow> (int \<times> ipcs) option" where
  "qb_ipcs_run publish w =
     do { s \<leftarrow> srv w;
          let (res, s) = (if \<not> has_poll_fns s then (- EINVAL, s)
                          else case s_type s of
                                 QB_IPC_SOCKET \<Rightarrow> (0, qb_ipcs_us_init s)
                               | QB_IPC_SHM \<Rightarrow> (0, qb_ipcs_shm_init s)
                               | QB_IPC_POSIX_MQ \<Rightarrow> (- ENOTSUP, s)
                               | QB_IPC_SYSV_MQ \<Rightarrow> (- ENOTSUP, s)
                               | QB_IPC_NATIVE \<Rightarrow> (- EINVAL, s));
          let (res, s) = (if res = 0
                          then (case publish of Inl e \<Rightarrow> (- e, s\<lparr>server_sock := -1\<rparr>) | Inr sock \<Rightarrow> (0, s\<lparr>server_sock := sock\<rparr>))
                          else (res, s));
          w \<leftarrow> (if res < 0 then qb_ipcs_unref (srv_set s w) else Some (srv_set s w));
          Some (res, w) }"

definition qb_ipcs_us_withdraw :: "ipcs \<Rightarrow> ipcs option" where
  "qb_ipcs_us_withdraw w = do { s \<leftarrow> srv w; Some (srv_set (s\<lparr>server_sock := -1\<rparr>) w) }"

fun disconnect_all :: "(nat \<Rightarrow> disc_env) \<Rightarrow> nat list \<Rightarrow> ipcs \<Rightarrow> ipcs option" where
  "disconnect_all env [] w = Some w"
| "disconnect_all env (c # cs) w = do { w \<leftarrow> qb_ipcs_disconnect (env c) c w; disconnect_all env cs w }"

definition qb_ipcs_destroy :: "(nat \<Rightarrow> disc_env) \<Rightarrow> ipcs \<Rightarrow> ipcs option" where
  "qb_ipcs_destroy env w =
     do { s \<leftarrow> srv w;
          w \<leftarrow> disconnect_all env (connections s) w;
          w \<leftarrow> qb_ipcs_us_withdraw w;
          qb_ipcs_unref w }"

section \<open>New connections\<close>

definition new_stats :: "int \<Rightarrow> qb_ipcs_connection_stats_2" where
  "new_stats pid = \<lparr>client_pid = pid, requests = 0, responses = 0, events_sent = 0, send_retries = 0, recv_retries = 0,
     flow_control_state = 0, flow_control_count = 0, event_q_length = 0\<rparr>"

text \<open>\<open>c\<close> is the address that \<^verbatim>\<open>calloc\<close> returns.\<close>

definition qb_ipcs_connection_alloc :: "nat option \<Rightarrow> ipcs \<Rightarrow> (nat option \<times> ipcs) option" where
  "qb_ipcs_connection_alloc calloc w =
     (case calloc of
        None \<Rightarrow> Some (None, w)
      | Some c \<Rightarrow>
          do { s \<leftarrow> srv w;
               let conn = \<lparr>c_state = QB_IPCS_CONNECTION_INACTIVE, c_refcount = 1, c_pid = 0, c_euid = -1, c_egid = -1,
                           c_auth = (0, 0, 0), c_type = s_type s, setup_sock = 0, request_max = 0, response_max = 0, event_max = 0,
                           fc_enabled = 0, poll_events = POLLIN OR POLLPRI OR POLLNVAL, outstanding_notifiers = 0, c_stats = new_stats 0\<rparr>;
               w \<leftarrow> qb_ipcs_ref w;
               Some (Some c, conn_set c conn w) })"

record connect_env =
  ce_calloc :: "nat option"
  ce_receive_buf :: bool
  ce_description :: int
  ce_accept_ops :: "app_op list"
  ce_accept_rc :: int
  ce_connect_rc :: int
  ce_send :: int
  ce_created_ops :: "app_op list"
  ce_disc :: disc_env

text \<open>Fill in the connection for the client.\<close>

definition connection_init :: "int \<Rightarrow> nat \<Rightarrow> ipc_auth_ugp \<Rightarrow> qb_ipcs_connection \<Rightarrow> qb_ipcs_connection" where
  "connection_init sock sz ugp conn =
     conn\<lparr>setup_sock := sock, request_max := sz, response_max := sz, event_max := sz, c_pid := ugp_pid ugp,
          c_euid := ugp_uid ugp, c_egid := ugp_gid ugp, c_auth := (ugp_uid ugp, ugp_gid ugp, 384),
          c_stats := (c_stats conn)\<lparr>client_pid := ugp_pid ugp\<rparr>\<rparr>"

text \<open>
  Up to the answer: the description and its directory (whose first error is \<open>ce_description\<close>), the decision of the application, and
  the connection of the transport.
\<close>

definition connection_decide :: "connect_env \<Rightarrow> int \<Rightarrow> nat \<Rightarrow> ipcs \<Rightarrow> (int \<times> ipcs) option" where
  "connection_decide env auth_result c w =
     (if ce_description env \<noteq> 0 then Some (ce_description env, w)
      else
        do { s \<leftarrow> srv w;
             (res, w) \<leftarrow> (if auth_result = 0 \<and> has_accept s
                          then do { w \<leftarrow> app_run (ce_accept_ops env) (call (CallAccept c) w); Some (ce_accept_rc env, w) }
                          else Some (auth_result, w));
             if res \<noteq> 0 then Some (res, w)
             else
               do { s \<leftarrow> srv w;
                    let res = (if has_connect s then ce_connect_rc env else 0);
                    if res \<noteq> 0 then Some (res, w)
                    else
                      do { w \<leftarrow> on_conn (\<lambda>conn. conn\<lparr>c_state := QB_IPCS_CONNECTION_ACTIVE\<rparr>) c w;
                           s \<leftarrow> srv w;
                           Some (0, srv_set (s\<lparr>connections := c # connections s\<rparr>) w) } } })"

text \<open>The answer, \<^verbatim>\<open>sizeof(struct qb_ipc_connection_response)\<close> bytes long.\<close>

definition response_size :: nat where "response_size = 12328"

definition connection_answer :: "connect_env \<Rightarrow> int \<Rightarrow> ipcs \<Rightarrow> (int \<times> ipcs) option" where
  "connection_answer env res w =
     do { s \<leftarrow> srv w;
          let st = s_stats s;
          let w = (if res = 0 then srv_set (s\<lparr>s_stats := st\<lparr>active_connections := active_connections st + 1\<rparr>\<rparr>) w else w);
          let res2 = us_send_value response_size (ce_send env);
          Some (if res = 0 \<and> res2 \<noteq> int response_size then res2 else res, w) }"

definition connection_created :: "connect_env \<Rightarrow> nat \<Rightarrow> ipcs \<Rightarrow> ipcs option" where
  "connection_created env c w =
     do { w \<leftarrow> qb_ipcs_connection_ref c w;
          s \<leftarrow> srv w;
          w \<leftarrow> (if has_created s then app_run (ce_created_ops env) (call (CallCreated c) w) else Some w);
          w \<leftarrow> on_conn (\<lambda>conn. if c_state conn = QB_IPCS_CONNECTION_ACTIVE
                                then conn\<lparr>c_state := QB_IPCS_CONNECTION_ESTABLISHED\<rparr> else conn) c w;
          qb_ipcs_connection_unref c w }"

definition connection_failed :: "connect_env \<Rightarrow> nat \<Rightarrow> ipcs \<Rightarrow> ipcs option" where
  "connection_failed env c w =
     do { conn \<leftarrow> conns w c;
          if c_state conn = QB_IPCS_CONNECTION_INACTIVE then qb_ipcs_connection_unref c w
          else qb_ipcs_disconnect (ce_disc env) c w }"

definition handle_new_connection :: "connect_env \<Rightarrow> int \<Rightarrow> int \<Rightarrow> u32 \<Rightarrow> ipc_auth_ugp \<Rightarrow> ipcs \<Rightarrow> (int \<times> ipcs) option" where
  "handle_new_connection env auth_result sock req_max ugp w =
     do { s \<leftarrow> srv w;
          let sz = unat (max req_max (max_buffer_size s));
          (alloc, w) \<leftarrow> qb_ipcs_connection_alloc (ce_calloc env) w;
          case alloc of
            None \<Rightarrow> Some (- ENOMEM, w)
          | Some c \<Rightarrow>
              if \<not> ce_receive_buf env then Some (- ENOMEM, w\<lparr>conns := (conns w)(c := None)\<rparr>)
              else
                do { w \<leftarrow> on_conn (connection_init sock sz ugp) c w;
                     (res, w) \<leftarrow> connection_decide env auth_result c w;
                     (res, w) \<leftarrow> connection_answer env res w;
                     w \<leftarrow> (if res = 0 then connection_created env c w else connection_failed env c w);
                     Some (res, w) } }"

section \<open>Authentication\<close>

definition destroy_ipc_auth_data :: "nat \<Rightarrow> ipcs \<Rightarrow> ipcs option" where
  "destroy_ipc_auth_data d w =
     do { data \<leftarrow> auths w d; w \<leftarrow> qb_ipcs_unref w; Some (w\<lparr>auths := (auths w)(d := None)\<rparr>) }"

text \<open>\<open>init\<close> is the address of the data, if both allocations succeed.\<close>

record accept_env =
  ae_init :: "nat option"
  ae_setsockopt :: int
  ae_dispatch_add :: int

definition request_size :: nat where "request_size = 24"

definition qb_ipcs_uc_recv_and_auth :: "accept_env \<Rightarrow> int \<Rightarrow> ipcs \<Rightarrow> ipcs option" where
  "qb_ipcs_uc_recv_and_auth env sock w =
     (case ae_init env of
        None \<Rightarrow> Some w
      | Some d \<Rightarrow>
          do { w \<leftarrow> qb_ipcs_ref w;
               let w = w\<lparr>auths := (auths w)(d \<mapsto> \<lparr>ad_sock = sock, ad_processed = 0, ad_len = int request_size,
                                                    ad_ugp = \<lparr>ugp_uid = 0, ugp_gid = 0, ugp_pid = 0\<rparr>\<rparr>)\<rparr>;
               if ae_setsockopt env \<noteq> 0 then Some w
               else if ae_dispatch_add env < 0 then destroy_ipc_auth_data d w
               else Some w })"

text \<open>\<open>accept\<close> is what the successive calls of \<^verbatim>\<open>accept\<close> return.\<close>

fun accept_loop :: "sys_result list \<Rightarrow> sys_result option" where
  "accept_loop [] = None"
| "accept_loop ((fd, errno) # rs) = (if fd = -1 \<and> errno = EINTR then accept_loop rs else Some (fd, errno))"

definition qb_ipcs_us_connection_acceptor :: "accept_env \<Rightarrow> u32 \<Rightarrow> sys_result list \<Rightarrow> int \<Rightarrow> ipcs \<Rightarrow> (int \<times> ipcs) option" where
  "qb_ipcs_us_connection_acceptor env revent accept nonblock w =
     (if has_event revent (POLLNVAL OR POLLHUP OR POLLERR) then Some (-1, w)
      else
        do { (new_fd, errno) \<leftarrow> accept_loop accept;
             if new_fd = -1 \<and> errno = EBADF then Some (-1, w)
             else if new_fd = -1 then Some (0, w)
             else if nonblock < 0 then Some (0, w)
             else do { w \<leftarrow> qb_ipcs_uc_recv_and_auth env new_fd w; Some (0, w) } })"

record auth_env =
  au_revents :: u32
  au_recv :: "sys_result list"
  au_cmsgs :: "cmsghdr list"
  au_setsockopt :: int
  au_msg_id :: int
  au_max_msg_size :: u32
  au_connect :: connect_env

text \<open>The end of the authentication with result \<open>res\<close>.\<close>

definition auth_finish :: "auth_env \<Rightarrow> nat \<Rightarrow> int \<Rightarrow> ipcs \<Rightarrow> (int \<times> ipcs) option" where
  "auth_finish env d res w =
     do { data \<leftarrow> auths w d;
          if au_setsockopt env \<noteq> 0 then Some (res, w)
          else
            do { w \<leftarrow> (if res < 0 then Some w
                       else if au_msg_id env = QB_IPC_MSG_AUTHENTICATE
                       then map_option snd (handle_new_connection (au_connect env) res (ad_sock data) (au_max_msg_size env) (ad_ugp data) w)
                       else Some w);
                 w \<leftarrow> destroy_ipc_auth_data d w;
                 Some (1, w) } }"

definition process_auth :: "auth_env \<Rightarrow> nat \<Rightarrow> ipcs \<Rightarrow> (int \<times> ipcs) option" where
  "process_auth env d w =
     do { data \<leftarrow> auths w d;
          s \<leftarrow> srv w;
          if server_sock s = -1 then auth_finish env d (- ESHUTDOWN) w
          else if has_event (au_revents env) POLLNVAL then auth_finish env d (- EINVAL) w
          else if has_event (au_revents env) POLLHUP then auth_finish env d (- ESHUTDOWN) w
          else if \<not> has_event (au_revents env) POLLIN then Some (0, w)
          else
            do { (res, processed) \<leftarrow> qb_ipc_us_recv_msghdr (au_recv env) (ad_processed data) (ad_len data);
                 let w = w\<lparr>auths := (auths w)(d \<mapsto> data\<lparr>ad_processed := processed\<rparr>)\<rparr>;
                 if res = - EAGAIN then Some (0, w)
                 else if res \<noteq> ad_len data then auth_finish env d (- EIO) w
                 else
                   let (res, ugp) = qb_ipc_auth_creds (au_cmsgs env) (ad_ugp data);
                       w = w\<lparr>auths := (auths w)(d \<mapsto> data\<lparr>ad_processed := processed, ad_ugp := ugp\<rparr>)\<rparr>
                   in auth_finish env d res w } }"

end
