(* ===== verification/Ipcs_Inv.thy ===== *)
theory Ipcs_Inv
  imports Ipcs_setup
begin

text \<open>
  The references of the server: who holds a reference to a connection or to the service, that the
  counters agree with it, and that therefore no operation of the server fails an assertion or uses
  freed memory, whatever the clients, the transport and the callbacks do.
\<close>

section \<open>Operations that return\<close>

definition wp :: "'a option \<Rightarrow> ('a \<Rightarrow> bool) \<Rightarrow> bool" where
  "wp r Q \<longleftrightarrow> (case r of None \<Rightarrow> False | Some y \<Rightarrow> Q y)"

named_theorems wp_simps
named_theorems wp_ok

lemma wp_Some [wp_simps]: "wp (Some y) Q \<longleftrightarrow> Q y"
  by (simp add: wp_def)

lemma wp_None [wp_simps]: "\<not> wp None Q"
  by (simp add: wp_def)

lemma wp_bind [wp_simps]: "wp (Option.bind r f) Q \<longleftrightarrow> wp r (\<lambda>y. wp (f y) Q)"
  by (cases r) (simp_all add: wp_def)

lemma wp_map_option [wp_simps]: "wp (map_option g r) Q \<longleftrightarrow> wp r (\<lambda>y. Q (g y))"
  by (cases r) (simp_all add: wp_def)

lemma wp_if [wp_simps]: "wp (if b then r else r') Q \<longleftrightarrow> (if b then wp r Q else wp r' Q)"
  by simp

lemma wp_mono: "wp r P \<Longrightarrow> (\<And>y. P y \<Longrightarrow> Q y) \<Longrightarrow> wp r Q"
  by (cases r) (simp_all add: wp_def)

lemma wp_ex: "wp r Q \<longleftrightarrow> (\<exists>y. r = Some y \<and> Q y)"
  by (cases r) (simp_all add: wp_def)

section \<open>References\<close>

text \<open>
  \<open>x c\<close> is the number of references to the connection \<open>c\<close> that the library holds, \<open>k\<close> the number of
  references to the service that the application holds. A connection and an authentication in progress
  hold one each. Some error paths never give up their reference to the service, so that its counter
  may be too high.
\<close>

definition conn_good :: "nat \<Rightarrow> qb_ipcs_connection \<Rightarrow> bool" where
  "conn_good n conn \<longleftrightarrow> c_refcount conn = int n \<and> 0 < n \<and> 0 \<le> outstanding_notifiers conn"

fun counted :: "nat \<Rightarrow> qb_ipcs_connection option \<Rightarrow> bool" where
  "counted n None \<longleftrightarrow> n = 0"
| "counted n (Some conn) \<longleftrightarrow> conn_good n conn"

definition conns_good :: "(nat \<Rightarrow> nat) \<Rightarrow> ipcs \<Rightarrow> bool" where
  "conns_good x w \<longleftrightarrow> (\<forall>c. counted (held w c + x c) (conns w c))"

definition srv_good :: "nat \<Rightarrow> ipcs \<Rightarrow> bool" where
  "srv_good k w \<longleftrightarrow>
     (case srv w of
        None \<Rightarrow> k = 0 \<and> conns w = Map.empty \<and> auths w = Map.empty
      | Some s \<Rightarrow> int (k + card (dom (conns w)) + card (dom (auths w))) \<le> s_ref_count s \<and> 0 < s_ref_count s \<and>
                  distinct (connections s) \<and> set (connections s) \<subseteq> dom (conns w))"

definition refs_inv :: "(nat \<Rightarrow> nat) \<Rightarrow> nat \<Rightarrow> ipcs \<Rightarrow> bool" where
  "refs_inv x k w \<longleftrightarrow> finite (dom (conns w)) \<and> finite (dom (auths w)) \<and> conns_good x w \<and> srv_good k w"

text \<open>The messages that have been handed to the application.\<close>

definition msgs :: "ipcs \<Rightarrow> (nat \<times> int) list" where
  "msgs w = concat (map (\<lambda>x. case x of CallMsgProcess c n \<Rightarrow> [(c, n)] | _ \<Rightarrow> []) (calls w))"

text \<open>
  From \<open>w0\<close> to \<open>w\<close> connections may have gone and none is added to the list, the others keep their state and size, the pending
  authentications and jobs are the same, and \<open>ms\<close> have been handed to the application.
\<close>

definition listed :: "ipcs \<Rightarrow> nat set" where
  "listed w = (case srv w of None \<Rightarrow> {} | Some s \<Rightarrow> set (connections s))"

definition keeps :: "ipcs \<Rightarrow> ipcs \<Rightarrow> bool" where
  "keeps w0 w \<longleftrightarrow>
     auths w = auths w0 \<and> jobs w = jobs w0 \<and> listed w \<subseteq> listed w0 \<and>
     (\<forall>c conn. conns w c = Some conn \<longrightarrow>
        (\<exists>conn0. conns w0 c = Some conn0 \<and> c_state conn = c_state conn0 \<and> request_max conn = request_max conn0))"

definition ok :: "(nat \<Rightarrow> nat) \<Rightarrow> nat \<Rightarrow> (nat \<times> int) list \<Rightarrow> ipcs \<Rightarrow> ipcs \<Rightarrow> bool" where
  "ok x k ms w0 w \<longleftrightarrow> refs_inv x k w \<and> keeps w0 w \<and> msgs w = msgs w0 @ ms"

lemma ipcs_keeps_refl [simp]: "keeps w w"
  by (simp add: keeps_def)

lemma keepsD:
  "keeps w0 w \<Longrightarrow> conns w c = Some conn \<Longrightarrow>
   \<exists>conn0. conns w0 c = Some conn0 \<and> c_state conn = c_state conn0 \<and> request_max conn = request_max conn0"
  unfolding keeps_def by blast

lemma ok_refl: "refs_inv x k w \<Longrightarrow> ok x k [] w w"
  by (simp add: ok_def)

lemma keeps_trans: "keeps w0 w1 \<Longrightarrow> keeps w1 w2 \<Longrightarrow> keeps w0 w2"
  unfolding keeps_def by (metis subset_trans)

lemma ok_trans: "ok x k ms w0 w1 \<Longrightarrow> ok x' k' ms' w1 w2 \<Longrightarrow> ok x' k' (ms @ ms') w0 w2"
  by (auto simp: ok_def intro: keeps_trans)

text \<open>What is there.\<close>

lemma ok_refs: "ok x k ms w0 w \<Longrightarrow> refs_inv x k w"
  by (simp add: ok_def)

lemma refs_srv:
  assumes "refs_inv x k w" "conns w c = Some conn"
  shows "\<exists>s. srv w = Some s"
  using assms by (cases "srv w") (auto simp: refs_inv_def srv_good_def)

lemma refs_counted: "refs_inv x k w \<Longrightarrow> counted (held w c + x c) (conns w c)"
  by (simp add: refs_inv_def conns_good_def)

lemma refs_conn:
  assumes "refs_inv x k w" "0 < held w c + x c"
  shows "\<exists>conn. conns w c = Some conn"
  using refs_counted[OF assms(1), of c] assms(2) by (cases "conns w c") auto

lemma refs_conn_good:
  assumes "refs_inv x k w" "conns w c = Some conn"
  shows "conn_good (held w c + x c) conn"
  using refs_counted[OF assms(1), of c] assms(2) by simp

lemma refs_connections:
  assumes "refs_inv x k w" "srv w = Some s"
  shows "set (connections s) \<subseteq> dom (conns w)" "distinct (connections s)"
  using assms by (auto simp: refs_inv_def srv_good_def)

section \<open>Elementary changes\<close>

lemma conns_good_upd:
  assumes "conns_good x w" "conns w' = (conns w)(c \<mapsto> conn)" "conn_good (held w' c + x' c) conn"
    "\<And>d. d \<noteq> c \<Longrightarrow> x' d = x d \<and> held w' d = held w d"
  shows "conns_good x' w'"
  using assms unfolding conns_good_def by (metis counted.simps(2) fun_upd_other fun_upd_same)

lemma srv_good_same:
  assumes "srv_good k w" "srv w' = srv w" "dom (conns w') = dom (conns w)" "dom (auths w') = dom (auths w)"
  shows "srv_good k w'"
  using assms by (cases "srv w") (auto simp: srv_good_def)

lemma dom_upd_same: "m c = Some v \<Longrightarrow> dom (m(c \<mapsto> v')) = dom m"
  by auto

lemma refs_conn_set:
  assumes "refs_inv x k w" "conns w c = Some conn" "conn_good (held w c + x' c) conn'" "\<And>d. d \<noteq> c \<Longrightarrow> x' d = x d"
  shows "refs_inv x' k (conn_set c conn' w)"
proof -
  have "conns_good x' (conn_set c conn' w)"
    by (rule conns_good_upd[of x w _ c conn']) (use assms in \<open>auto simp: refs_inv_def conn_set_def\<close>)
  moreover have "srv_good k (conn_set c conn' w)"
    by (rule srv_good_same[of k w]) (use assms in \<open>auto simp: refs_inv_def conn_set_def\<close>)
  ultimately show ?thesis
    using assms by (auto simp: refs_inv_def conn_set_def)
qed

lemma refs_recount:
  assumes "refs_inv x k w" "conns w' = conns w" "srv w' = srv w" "auths w' = auths w" "\<And>d. held w' d + x' d = held w d + x d"
  shows "refs_inv x' k w'"
  using assms srv_good_same[of k w w'] by (simp add: refs_inv_def conns_good_def)

lemma msgs_conn_set [simp]: "msgs (conn_set c conn w) = msgs w"
  by (simp add: msgs_def conn_set_def)

lemma msgs_srv_set [simp]: "msgs (srv_set s w) = msgs w"
  by (simp add: msgs_def srv_set_def)

lemma msgs_call:
  "msgs (call y w) = msgs w @ (case y of CallMsgProcess c n \<Rightarrow> [(c, n)] | _ \<Rightarrow> [])"
  by (simp add: msgs_def call_def)

lemma conns_srv_call [simp]:
  "conns (call y w) = conns w" "srv (call y w) = srv w" "jobs (call y w) = jobs w" "auths (call y w) = auths w" "held (call y w) = held w"
  by (simp_all add: call_def)

lemma conns_srv_set [simp]:
  "conns (srv_set s w) = conns w" "srv (srv_set s w) = Some s" "jobs (srv_set s w) = jobs w" "auths (srv_set s w) = auths w"
  "held (srv_set s w) = held w"
  by (simp_all add: srv_set_def)

lemma conns_conn_set [simp]:
  "conns (conn_set c conn w) = (conns w)(c \<mapsto> conn)" "srv (conn_set c conn w) = srv w" "jobs (conn_set c conn w) = jobs w"
  "auths (conn_set c conn w) = auths w" "held (conn_set c conn w) = held w"
  by (simp_all add: conn_set_def)

lemma listed_same [simp]:
  "listed (call y w) = listed w" "listed (conn_set c conn w) = listed w" "listed (srv_set s w) = set (connections s)"
  "listed (w\<lparr>jobs := js\<rparr>) = listed w" "listed (w\<lparr>held := h\<rparr>) = listed w" "listed (w\<lparr>auths := a\<rparr>) = listed w"
  by (simp_all add: listed_def)

lemma keeps_conn_set:
  assumes "keeps w0 w" "conns w c = Some conn" "c_state conn' = c_state conn" "request_max conn' = request_max conn"
  shows "keeps w0 (conn_set c conn' w)"
  using assms unfolding keeps_def by auto

lemma keeps_same:
  "keeps w0 w \<Longrightarrow> conns w' = conns w \<Longrightarrow> auths w' = auths w \<Longrightarrow> jobs w' = jobs w \<Longrightarrow> listed w' \<subseteq> listed w \<Longrightarrow> keeps w0 w'"
  by (auto simp: keeps_def)

lemma ok_conn_set:
  assumes "ok x k ms w0 w" "conns w c = Some conn" "c_refcount conn' = c_refcount conn" "0 \<le> outstanding_notifiers conn'"
    "c_state conn' = c_state conn" "request_max conn' = request_max conn"
  shows "ok x k ms w0 (conn_set c conn' w)"
proof -
  have "conn_good (held w c + x c) conn'"
    using refs_conn_good[of x k w c conn] assms by (simp add: ok_def conn_good_def)
  then show ?thesis
    using assms refs_conn_set[of x k w c conn x conn'] keeps_conn_set[of w0 w c conn conn'] by (simp add: ok_def)
qed

lemma refs_srv_set:
  assumes "refs_inv x k w" "srv w = Some s" "s_ref_count s' = s_ref_count s" "connections s' = connections s"
  shows "refs_inv x k (srv_set s' w)"
  using assms by (simp add: refs_inv_def conns_good_def srv_good_def)

lemma ok_srv_set:
  assumes "ok x k ms w0 w" "srv w = Some s" "s_ref_count s' = s_ref_count s" "connections s' = connections s"
  shows "ok x k ms w0 (srv_set s' w)"
proof -
  have "keeps w0 (srv_set s' w)"
    by (rule keeps_same[of w0 w]) (use assms in \<open>auto simp: ok_def listed_def\<close>)
  then show ?thesis using assms refs_srv_set[of x k w s s'] by (simp add: ok_def)
qed

lemma refs_call [simp]: "refs_inv x k (call y w) \<longleftrightarrow> refs_inv x k w"
  by (simp add: refs_inv_def conns_good_def srv_good_def split: option.split)

lemma ok_call:
  "ok x k ms w0 w \<Longrightarrow> ok x k (ms @ (case y of CallMsgProcess c n \<Rightarrow> [(c, n)] | _ \<Rightarrow> [])) w0 (call y w)"
  by (auto simp: ok_def msgs_call intro: keeps_same)

section \<open>Taking and giving up references\<close>

lemma refs_free:
  assumes "refs_inv x k w" "conns w c = Some conn" "held w c + x c = 1" "srv w = Some s"
    "s_ref_count s' = s_ref_count s - 1" "connections s' = remove1 c (connections s)" "x' c + held w c = 0" "\<And>d. d \<noteq> c \<Longrightarrow> x' d = x d"
    "conns w' = (conns w)(c := None)" "held w' = held w" "auths w' = auths w"
    "srv w' = (if s_ref_count s = 1 then None else Some s')"
  shows "refs_inv x' k w'"
proof -
  have fin: "finite (dom (conns w))" "c \<in> dom (conns w)" using assms by (auto simp: refs_inv_def)
  have card: "card (dom (conns w)) = Suc (card (dom (conns w'))) "
    using fin assms(9) card.remove[of "dom (conns w)" c] by simp
  have "conns_good x' w'"
    unfolding conns_good_def
  proof
    fix d
    show "counted (held w' d + x' d) (conns w' d)"
      using assms refs_counted[OF assms(1), of d] by (cases "d = c") auto
  qed
  moreover have "srv_good k w'"
  proof (cases "s_ref_count s = 1")
    case True
    then have le: "int (k + Suc (card (dom (conns w'))) + card (dom (auths w))) \<le> 1"
      using assms(1,4) card by (simp add: refs_inv_def srv_good_def)
    have "finite (dom (conns w'))" "finite (dom (auths w'))" using assms fin by (auto simp: refs_inv_def)
    moreover have "card (dom (conns w')) = 0" "card (dom (auths w')) = 0" "k = 0"
      using le assms(11) by auto
    ultimately have "conns w' = Map.empty" "auths w' = Map.empty" "k = 0"
      by simp_all
    then show ?thesis using True assms by (simp add: srv_good_def)
  next
    case False
    then show ?thesis using assms card by (auto simp: refs_inv_def srv_good_def dest: notin_set_remove1)
  qed
  ultimately show ?thesis using assms by (auto simp: refs_inv_def)
qed

lemma ok_connection_ref:
  assumes "ok x k ms w0 w" "conns w c = Some conn"
  shows "wp (qb_ipcs_connection_ref c w) (ok (x(c := x c + 1)) k ms w0)"
proof -
  let ?conn' = "conn\<lparr>c_refcount := c_refcount conn + 1\<rparr>"
  have "conn_good (held w c + (x(c := x c + 1)) c) ?conn'"
    using refs_conn_good[OF ok_refs[OF assms(1)] assms(2)] by (simp add: conn_good_def)
  then have "refs_inv (x(c := x c + 1)) k (conn_set c ?conn' w)"
    by (intro refs_conn_set[OF ok_refs[OF assms(1)] assms(2)]) simp_all
  then show ?thesis
    using assms keeps_conn_set[of w0 w c conn ?conn']
    by (simp add: qb_ipcs_connection_ref_def on_conn_def wp_simps ok_def)
qed

lemma keeps_del: "keeps w0 w \<Longrightarrow> conns w' = (conns w)(c := None) \<Longrightarrow> auths w' = auths w \<Longrightarrow> jobs w' = jobs w \<Longrightarrow> listed w' \<subseteq> listed w \<Longrightarrow> keeps w0 w'"
  by (auto simp: keeps_def)

lemma connection_free_result:
  assumes "srv w = Some s" "0 < s_ref_count s"
  shows "\<exists>w'. connection_free c w = Some w' \<and> conns w' = (conns w)(c := None) \<and> held w' = held w \<and> auths w' = auths w \<and>
     jobs w' = jobs w \<and> msgs w' = msgs w \<and>
     srv w' = (if s_ref_count s = 1 then None else Some (s\<lparr>connections := remove1 c (connections s), s_ref_count := s_ref_count s - 1\<rparr>))"
  using assms
  by (cases "has_destroyed s"; cases "s_ref_count s = 1")
    (simp_all add: connection_free_def qb_ipcs_unref_def Let_def msgs_def call_def srv_set_def)

text \<open>
  Giving up a reference, in a state where somebody has it: \<open>h\<close> says how many references the account of the
  application and the library have afterwards.
\<close>

lemma connection_unref_counts:
  assumes "refs_inv x k w1" "conns w1 = conns w" "srv w1 = srv w" "auths w1 = auths w" "conns w c = Some conn"
    "held w c + x' c + 1 = held w1 c + x c" "\<And>d. d \<noteq> c \<Longrightarrow> x' d = x d \<and> held w d = held w1 d"
  shows "wp (qb_ipcs_connection_unref c w) (\<lambda>w'. refs_inv x' k w' \<and> (\<forall>w0. keeps w0 w \<longrightarrow> keeps w0 w') \<and> msgs w' = msgs w)"
proof -
  let ?conn' = "conn\<lparr>c_refcount := c_refcount conn - 1\<rparr>"
  have good: "conn_good (held w c + x' c + 1) conn"
    using refs_conn_good[OF assms(1), of c conn] assms by simp
  obtain s where s: "srv w = Some s" using refs_srv[OF assms(1), of c conn] assms by auto
  have pos: "0 < s_ref_count s" using assms s by (simp add: refs_inv_def srv_good_def)
  show ?thesis
  proof (cases "c_refcount conn = 1")
    case False
    have g': "conn_good (held w c + x' c) ?conn'" using good False by (simp add: conn_good_def) linarith
    have cg: "conns_good x' (conn_set c ?conn' w)"
      by (rule conns_good_upd[of x w1 _ c ?conn']) (use assms g' in \<open>auto simp: refs_inv_def\<close>)
    have "srv_good k (conn_set c ?conn' w)"
      by (rule srv_good_same[of k w1]) (use assms in \<open>auto simp: refs_inv_def\<close>)
    then have "refs_inv x' k (conn_set c ?conn' w)"
      using cg assms by (auto simp: refs_inv_def)
    then show ?thesis
      using assms good False keeps_conn_set[of _ w c conn ?conn']
      by (simp add: qb_ipcs_connection_unref_def wp_simps conn_good_def Let_def)
  next
    case True
    then have h: "held w c + x' c = 0" using good by (simp add: conn_good_def)
    define w2 where "w2 = conn_set c ?conn' w"
    have eq: "qb_ipcs_connection_unref c w = connection_free c w2"
      using assms good True by (simp add: qb_ipcs_connection_unref_def conn_good_def Let_def w2_def)
    obtain w' where w': "connection_free c w2 = Some w'" "conns w' = (conns w)(c := None)" "held w' = held w" "auths w' = auths w"
      "jobs w' = jobs w" "msgs w' = msgs w"
      "srv w' = (if s_ref_count s = 1 then None else Some (s\<lparr>connections := remove1 c (connections s), s_ref_count := s_ref_count s - 1\<rparr>))"
      using connection_free_result[of w2 s c] s pos by (auto simp: w2_def)
    have "refs_inv x' k w'"
    proof (rule refs_free[of "\<lambda>d. if d = c then 1 - held w c else x d" k "w1\<lparr>held := held w\<rparr>" c conn s])
      show "refs_inv (\<lambda>d. if d = c then 1 - held w c else x d) k (w1\<lparr>held := held w\<rparr>)"
        by (rule refs_recount[OF assms(1)]) (use assms h in auto)
    qed (use assms s w' h in auto)
    moreover have "listed w' \<subseteq> listed w"
      using w'(7) s set_remove1_subset[of c "connections s"] by (simp add: listed_def)
    ultimately show ?thesis using eq w' keeps_del[of _ w w' c] by (auto simp: wp_simps)
  qed
qed

lemma ok_connection_unref:
  assumes "ok x k ms w0 w" "0 < x c"
  shows "wp (qb_ipcs_connection_unref c w) (ok (x(c := x c - 1)) k ms w0)"
proof -
  obtain conn where "conns w c = Some conn" using refs_conn[OF ok_refs[OF assms(1)], of c] assms(2) by auto
  then have "wp (qb_ipcs_connection_unref c w)
      (\<lambda>w'. refs_inv (x(c := x c - 1)) k w' \<and> (\<forall>w0. keeps w0 w \<longrightarrow> keeps w0 w') \<and> msgs w' = msgs w)"
    by (intro connection_unref_counts[OF ok_refs[OF assms(1)]]) (use assms in auto)
  then show ?thesis by (rule wp_mono) (use assms in \<open>auto simp: ok_def\<close>)
qed

lemma refs_unhold_unref:
  assumes "ok x k ms w0 w" "0 < held w c"
  shows "wp (qb_ipcs_connection_unref c (unhold c w)) (ok x k ms w0)"
proof -
  obtain conn where "conns w c = Some conn" using refs_conn[OF ok_refs[OF assms(1)], of c] assms(2) by auto
  then have "wp (qb_ipcs_connection_unref c (unhold c w))
      (\<lambda>w'. refs_inv x k w' \<and> (\<forall>w0. keeps w0 (unhold c w) \<longrightarrow> keeps w0 w') \<and> msgs w' = msgs (unhold c w))"
    by (intro connection_unref_counts[OF ok_refs[OF assms(1)]]) (use assms in \<open>auto simp: unhold_def\<close>)
  moreover have "keeps w0 (unhold c w)" "msgs (unhold c w) = msgs w"
    using assms by (auto simp: ok_def unhold_def msgs_def intro: keeps_same)
  ultimately show ?thesis by (elim wp_mono) (use assms in \<open>auto simp: ok_def\<close>)
qed

text \<open>A body that keeps the references, between taking one and giving it up.\<close>

lemma ok_bracket:
  assumes "ok x k ms w0 w" "conns w c = Some conn"
    "\<And>w1 conn1. ok (x(c := x c + 1)) k ms w0 w1 \<Longrightarrow> conns w1 c = Some conn1 \<Longrightarrow> wp (body w1) (\<lambda>p. ok (x(c := x c + 1)) k ms w0 (snd p))"
  shows "wp (do { w \<leftarrow> qb_ipcs_connection_ref c w; p \<leftarrow> body w; w \<leftarrow> qb_ipcs_connection_unref c (snd p); Some (fst p, w) })
    (\<lambda>p. ok x k ms w0 (snd p))"
proof -
  have un: "wp (qb_ipcs_connection_unref c w2) (ok x k ms w0)" if "ok (x(c := x c + 1)) k ms w0 w2" for w2
    using ok_connection_unref[OF that, of c] by simp
  have "wp (body w1) (\<lambda>p. wp (qb_ipcs_connection_unref c (snd p)) (ok x k ms w0))" if w1: "ok (x(c := x c + 1)) k ms w0 w1" for w1
  proof -
    obtain conn1 where "conns w1 c = Some conn1" using refs_conn[OF ok_refs[OF w1], of c] by auto
    then show ?thesis by (rule wp_mono[OF assms(3)[OF w1]]) (use un in auto)
  qed
  then have "wp (qb_ipcs_connection_ref c w) (\<lambda>w1. wp (body w1) (\<lambda>p. wp (qb_ipcs_connection_unref c (snd p)) (ok x k ms w0)))"
    by (intro wp_mono[OF ok_connection_ref[OF assms(1,2)]]) auto
  then show ?thesis by (simp add: wp_simps)
qed

section \<open>The operations of the application\<close>

lemma ok_on_conn:
  assumes "ok x k ms w0 w" "conns w c = Some conn"
    "\<And>conn. c_refcount (f conn) = c_refcount conn \<and> outstanding_notifiers (f conn) = outstanding_notifiers conn \<and>
       c_state (f conn) = c_state conn \<and> request_max (f conn) = request_max conn"
  shows "wp (on_conn f c w) (ok x k ms w0)"
proof -
  have "0 \<le> outstanding_notifiers conn"
    using refs_conn_good[OF ok_refs[OF assms(1)] assms(2)] by (simp add: conn_good_def)
  then show ?thesis using assms ok_conn_set[of x k ms w0 w c conn "f conn"] by (simp add: on_conn_def wp_simps)
qed

lemma ok_on_stats:
  "ok x k ms w0 w \<Longrightarrow> conns w c = Some conn \<Longrightarrow> wp (on_stats f c w) (ok x k ms w0)"
  unfolding on_stats_def by (rule ok_on_conn) auto

lemma ok_modify_dispatch:
  assumes "ok x k ms w0 w" "conns w c = Some conn"
  shows "wp (modify_dispatch_descriptor c w) (ok x k ms w0)"
proof -
  obtain s where "srv w = Some s" using refs_srv[OF ok_refs[OF assms(1)] assms(2)] by auto
  then show ?thesis
    using assms ok_call[OF assms(1), of "CallDispatchMod c (poll_events conn) (poll_priority s)"]
    by (simp add: modify_dispatch_descriptor_def wp_simps)
qed

lemma ok_flowcontrol:
  assumes "ok x k ms w0 w" "conns w c = Some conn"
  shows "wp (qb_ipcs_flowcontrol_set c fc w) (ok x k ms w0)"
proof -
  obtain s where s: "srv w = Some s" using refs_srv[OF ok_refs[OF assms(1)] assms(2)] by auto
  have "0 \<le> outstanding_notifiers conn"
    using refs_conn_good[OF ok_refs[OF assms(1)] assms(2)] by (simp add: conn_good_def)
  then show ?thesis
    using assms s ok_call[OF assms(1), of "CallFcSet c fc"]
    by (auto simp: qb_ipcs_flowcontrol_set_def wp_simps Let_def intro!: ok_conn_set[of x k ms w0 _ c conn])
qed

text \<open>The connections that exist are those with a reference.\<close>

lemma refs_dom: "refs_inv x k w \<Longrightarrow> dom (conns w) = {c. 0 < held w c + x c}"
proof (rule set_eqI)
  fix c assume "refs_inv x k w"
  then show "c \<in> dom (conns w) \<longleftrightarrow> c \<in> {c. 0 < held w c + x c}"
    using refs_counted[of x k w c] by (cases "conns w c") (auto simp: conn_good_def)
qed

lemma held_on_conn: "on_conn f c w = Some w' \<Longrightarrow> held w' = held w"
  by (auto simp: on_conn_def split: option.splits bind_splits)

lemma held_flowcontrol: "qb_ipcs_flowcontrol_set c fc w = Some w' \<Longrightarrow> held w' = held w"
  by (auto simp: qb_ipcs_flowcontrol_set_def Let_def split: bind_splits if_splits)

lemma held_modify_dispatch: "modify_dispatch_descriptor c w = Some w' \<Longrightarrow> held w' = held w"
  by (auto simp: modify_dispatch_descriptor_def split: bind_splits)

lemma held_unref: "qb_ipcs_unref w = Some w' \<Longrightarrow> held w' = held w"
  by (auto simp: qb_ipcs_unref_def split: bind_splits if_splits)

lemma held_connection_unref: "qb_ipcs_connection_unref c w = Some w' \<Longrightarrow> held w' = held w"
  by (auto simp: qb_ipcs_connection_unref_def connection_free_def Let_def dest!: held_unref split: bind_splits if_splits)

lemma ok_rate_limit_loop:
  "ok x k ms w0 w \<Longrightarrow> set cs \<subseteq> dom (conns w) \<Longrightarrow> wp (rate_limit_loop cs rl changed w) (ok x k ms w0)"
proof (induction cs arbitrary: w)
  case (Cons c cs)
  let ?x = "x(c := x c + 1)"
  obtain conn where conn: "conns w c = Some conn" using Cons.prems by auto
  obtain w1 where w1: "qb_ipcs_connection_ref c w = Some w1" "ok ?x k ms w0 w1"
    using ok_connection_ref[OF Cons.prems(1) conn] by (auto simp: wp_ex)
  have keep: "\<exists>conn'. conns w' c = Some conn'" if "ok ?x k ms w0 w'" for w'
    using refs_conn[OF ok_refs[OF that], of c] by simp
  obtain conn1 where c1: "conns w1 c = Some conn1" using keep[OF w1(2)] by auto
  obtain w2 where w2: "qb_ipcs_flowcontrol_set c (rate_fc rl) w1 = Some w2" "ok ?x k ms w0 w2"
    using ok_flowcontrol[OF w1(2) c1, of "rate_fc rl"] unfolding wp_ex by auto
  obtain conn2 where c2: "conns w2 c = Some conn2" using keep[OF w2(2)] by auto
  obtain w3 where w3: "(if changed then modify_dispatch_descriptor c w2 else Some w2) = Some w3" "ok ?x k ms w0 w3"
    using ok_modify_dispatch[OF w2(2) c2] w2(2) unfolding wp_ex by (cases changed) auto
  obtain w4 where w4: "qb_ipcs_connection_unref c w3 = Some w4" "ok x k ms w0 w4"
    using ok_connection_unref[OF w3(2), of c] unfolding wp_ex by auto
  have "held w4 = held w"
    using held_connection_unref[OF w4(1)] held_flowcontrol[OF w2(1)] held_modify_dispatch[of c w2 w3] w3(1)
      held_on_conn[OF w1(1)[unfolded qb_ipcs_connection_ref_def]] by (simp split: if_splits)
  then have "set cs \<subseteq> dom (conns w4)"
    using Cons.prems refs_dom[OF ok_refs[OF w4(2)]] refs_dom[OF ok_refs[OF Cons.prems(1)]] by simp
  then show ?case using Cons.IH[OF w4(2)] w1 w2 w3 w4 by (simp add: wp_simps)
qed (simp add: wp_simps)

lemma ok_response_send_any:
  assumes "ok x k ms w0 w" "conns w c = Some conn"
  shows "wp (response_send_any good env c w) (\<lambda>p. ok x k ms w0 (snd p))"
proof -
  define body where "body = (\<lambda>w. do { s \<leftarrow> srv w;
          let res = se_send env;
            if good res then do { w \<leftarrow> on_stats (\<lambda>st. st\<lparr>responses := responses st + 1\<rparr>) c w; Some (res, w) }
             else if res = - EAGAIN \<or> res = - ETIMEDOUT then
               do { ow \<leftarrow> sock_one_way_get c w;
                    w \<leftarrow> on_stats (\<lambda>st. st\<lparr>send_retries := send_retries st + 1\<rparr>) c w;
                    Some (ready_result ow env res, w) }
             else Some (res, w) })"
  have eq: "response_send_any good env c w =
      do { w \<leftarrow> qb_ipcs_connection_ref c w; p \<leftarrow> body w; w \<leftarrow> qb_ipcs_connection_unref c (snd p); Some (fst p, w) }"
    by (simp add: response_send_any_def body_def Let_def split_def)
  show ?thesis unfolding eq
  proof (rule ok_bracket[OF assms])
    fix w1 conn1 assume w1: "ok (x(c := x c + 1)) k ms w0 w1" "conns w1 c = Some conn1"
    obtain s where s: "srv w1 = Some s" using refs_srv[OF ok_refs[OF w1(1)] w1(2)] by auto
    show "wp (body w1) (\<lambda>p. ok (x(c := x c + 1)) k ms w0 (snd p))"
      using w1 s ok_on_stats[OF w1] by (simp add: body_def Let_def wp_simps sock_one_way_get_def)
  qed
qed

lemma ok_request_rate_limit:
  assumes "ok x k ms w0 w" "srv w = Some s"
  shows "wp (qb_ipcs_request_rate_limit rl w) (ok x k ms w0)"
proof -
  have "ok x k ms w0 (srv_set (s\<lparr>poll_priority := rate_priority rl\<rparr>) w)"
    using assms by (intro ok_srv_set[OF assms]) simp_all
  then show ?thesis
    using assms refs_connections[OF ok_refs[OF assms(1)] assms(2)]
    by (simp add: qb_ipcs_request_rate_limit_def wp_simps ok_rate_limit_loop)
qed

lemma ok_resend:
  assumes "ok x k ms w0 w" "conns w c = Some conn"
  shows "wp (resend_event_notifications notify c w) (\<lambda>p. ok x k ms w0 (snd p))"
proof -
  obtain s where s: "srv w = Some s" using refs_srv[OF ok_refs[OF assms(1)] assms(2)] by auto
  have pos: "0 \<le> outstanding_notifiers conn"
    using refs_conn_good[OF ok_refs[OF assms(1)] assms(2)] by (simp add: conn_good_def)
  define res where "res = (if outstanding_notifiers conn > 0 then us_send_value (nat (outstanding_notifiers conn)) notify else 0)"
  define left where "left = (if res > 0 then outstanding_notifiers conn - res else outstanding_notifiers conn)"
  define conn1 where "conn1 = conn\<lparr>outstanding_notifiers := left\<rparr>"
  define conn2 where "conn2 = conn\<lparr>outstanding_notifiers := left, poll_events := POLLIN OR POLLPRI OR POLLNVAL\<rparr>"
  have left: "0 \<le> left" using pos by (simp add: left_def res_def us_send_value_def)
  have 1: "ok x k ms w0 (conn_set c conn1 w)" "ok x k ms w0 (conn_set c conn2 w)"
    unfolding conn1_def conn2_def using left by (intro ok_conn_set[OF assms]; simp)+
  have "wp (modify_dispatch_descriptor c (conn_set c conn2 w)) (ok x k ms w0)"
    by (rule ok_modify_dispatch[OF 1(2)]) simp
  moreover have "resend_event_notifications notify c w =
      (if \<not> needs_sock_for_poll s then Some (0, w)
       else if \<not> left \<ge> 0 then None
       else if left = 0 then do { w \<leftarrow> modify_dispatch_descriptor c (conn_set c conn2 w); Some (res, w) }
       else Some (res, conn_set c conn1 w))"
    unfolding resend_event_notifications_def Let_def left_def res_def conn1_def conn2_def assms(2) s Option.bind.bind_lunit ..
  ultimately show ?thesis
    using assms(1) left 1 by (simp add: wp_simps)
qed

lemma ok_new_event:
  assumes "ok x k ms w0 w" "conns w c = Some conn"
  shows "wp (new_event_notification notify c w) (\<lambda>p. ok x k ms w0 (snd p))"
proof -
  obtain s where s: "srv w = Some s" using refs_srv[OF ok_refs[OF assms(1)] assms(2)] by auto
  have pos: "0 \<le> outstanding_notifiers conn"
    using refs_conn_good[OF ok_refs[OF assms(1)] assms(2)] by (simp add: conn_good_def)
  define conn1 where "conn1 = conn\<lparr>outstanding_notifiers := outstanding_notifiers conn + 1\<rparr>"
  define conn2 where "conn2 = conn\<lparr>outstanding_notifiers := outstanding_notifiers conn + 1, poll_events := POLLOUT OR POLLIN OR POLLPRI OR POLLNVAL\<rparr>"
  have 1: "ok x k ms w0 (conn_set c conn1 w)" "ok x k ms w0 (conn_set c conn2 w)"
    unfolding conn1_def conn2_def using pos by (intro ok_conn_set[OF assms]; simp)+
  have "wp (resend_event_notifications notify c (conn_set c conn1 w)) (\<lambda>p. ok x k ms w0 (snd p))"
    by (rule ok_resend[OF 1(1)]) simp
  moreover have "wp (modify_dispatch_descriptor c (conn_set c conn2 w)) (ok x k ms w0)"
    by (rule ok_modify_dispatch[OF 1(2)]) simp
  moreover have "new_event_notification notify c w =
      (if \<not> needs_sock_for_poll s then Some (0, w)
       else if \<not> outstanding_notifiers conn \<ge> 0 then None
       else if outstanding_notifiers conn > 0 then resend_event_notifications notify c (conn_set c conn1 w)
       else if us_send_value 1 notify = - EAGAIN
       then do { w \<leftarrow> modify_dispatch_descriptor c (conn_set c conn2 w); Some (us_send_value 1 notify, w) }
       else Some (us_send_value 1 notify, w))"
    unfolding new_event_notification_def Let_def conn1_def conn2_def assms(2) s Option.bind.bind_lunit ..
  ultimately show ?thesis
    using assms(1) pos by (simp add: wp_simps)
qed

lemma ok_event_send_any:
  assumes "ok x k ms w0 w" "conns w c = Some conn"
  shows "wp (event_send_any good tolerated env c w) (\<lambda>p. ok x k ms w0 (snd p))"
proof -
  define body where "body = (\<lambda>w. do { s \<leftarrow> srv w;
          let res = se_send env;
            if good res then
               do { w \<leftarrow> on_stats (\<lambda>st. st\<lparr>events_sent := events_sent st + 1\<rparr>) c w;
                    (resn, w) \<leftarrow> new_event_notification (se_notify env) c w;
                    Some (if resn < 0 \<and> \<not> tolerated resn then resn else res, w) }
             else if res = - EAGAIN \<or> res = - ETIMEDOUT then
               do { ow \<leftarrow> sock_one_way_get c w;
                    conn \<leftarrow> conns w c;
                    w \<leftarrow> (if outstanding_notifiers conn > 0
                          then map_option snd (resend_event_notifications (se_notify env) c w) else Some w);
                    w \<leftarrow> on_stats (\<lambda>st. st\<lparr>send_retries := send_retries st + 1\<rparr>) c w;
                    Some (ready_result ow env res, w) }
             else Some (res, w) })"
  have eq: "event_send_any good tolerated env c w =
      do { w \<leftarrow> qb_ipcs_connection_ref c w; p \<leftarrow> body w; w \<leftarrow> qb_ipcs_connection_unref c (snd p); Some (fst p, w) }"
    by (simp add: event_send_any_def body_def Let_def split_def)
  let ?x = "x(c := x c + 1)"
  show ?thesis unfolding eq
  proof (rule ok_bracket[OF assms])
    fix w1 conn1 assume w1: "ok ?x k ms w0 w1" "conns w1 c = Some conn1"
    obtain s where s: "srv w1 = Some s" using refs_srv[OF ok_refs[OF w1(1)] w1(2)] by auto
    have keep: "\<exists>conn'. conns w' c = Some conn'" if "ok ?x k ms w0 w'" for w'
      using refs_conn[OF ok_refs[OF that], of c] by simp
    have st: "wp (on_stats f c w') (ok ?x k ms w0)" if "ok ?x k ms w0 w'" for w' f
      using keep[OF that] ok_on_stats[OF that] by auto
    have ev: "wp (new_event_notification n c w') (\<lambda>p. ok ?x k ms w0 (snd p))" if "ok ?x k ms w0 w'" for w' n
      using keep[OF that] ok_new_event[OF that] by auto
    have "wp (on_stats f c w1) (\<lambda>w'. wp (new_event_notification n c w') (\<lambda>p. ok ?x k ms w0 (snd p)))" for f n
      by (rule wp_mono[OF st[OF w1(1)]]) (rule ev)
    moreover have "wp (resend_event_notifications n c w1) (\<lambda>p. wp (on_stats f c (snd p)) (ok ?x k ms w0))" for f n
      by (rule wp_mono[OF ok_resend[OF w1]]) (rule st)
    ultimately show "wp (body w1) (\<lambda>p. ok ?x k ms w0 (snd p))"
      using w1 s st[OF w1(1)] by (simp add: body_def Let_def wp_simps sock_one_way_get_def split_def)
  qed
qed

lemma ok_hold:
  assumes "ok (x(c := x c + 1)) k ms w0 w"
  shows "ok x k ms w0 (hold (Some c) w)"
proof -
  have "refs_inv x k (hold (Some c) w)"
    by (rule refs_recount[OF ok_refs[OF assms]]) (auto simp: hold_def)
  then show ?thesis using assms by (auto simp: ok_def hold_def msgs_def intro: keeps_same)
qed

lemma ok_ref_hold:
  assumes "ok x k ms w0 w" "conns w c = Some conn"
  shows "wp (qb_ipcs_connection_ref c w) (\<lambda>w'. ok x k ms w0 (hold (Some c) w'))"
  by (rule wp_mono[OF ok_connection_ref[OF assms]]) (rule ok_hold)

text \<open>Every operation of the application that is allowed returns, and keeps the references.\<close>

lemma ok_app_do:
  assumes "ok x k ms w0 w" "app_ok a w"
  shows "wp (app_do a w) (ok x k ms w0)"
proof (cases a)
  case (AppFirst)
  then obtain s where s: "srv w = Some s" using assms by auto
  show ?thesis
  proof (cases "connections s")
    case (Cons c cs)
    then obtain conn where "conns w c = Some conn" using refs_connections[OF ok_refs[OF assms(1)] s] by auto
    then show ?thesis
      using Cons AppFirst s ok_ref_hold[OF assms(1)] by (simp add: qb_ipcs_connection_first_get_def wp_simps)
  qed (use AppFirst s assms in \<open>simp add: qb_ipcs_connection_first_get_def wp_simps hold_def\<close>)
next
  case (AppNext cur)
  then obtain s where s: "srv w = Some s" using assms by (auto split: option.splits)
  show ?thesis
  proof (cases "dropWhile (\<lambda>c. c \<noteq> cur) (connections s)")
    case (Cons d cs)
    show ?thesis
    proof (cases cs)
      case (Cons c cs')
      then have "c \<in> set (connections s)"
        using \<open>dropWhile _ _ = _\<close> set_dropWhileD[of c "\<lambda>c. c \<noteq> cur" "connections s"] by simp
      then obtain conn where "conns w c = Some conn" using refs_connections[OF ok_refs[OF assms(1)] s] by auto
      then show ?thesis
        using Cons \<open>dropWhile _ _ = _\<close> AppNext s ok_ref_hold[OF assms(1)] by (simp add: qb_ipcs_connection_next_get_def wp_simps)
    qed (use \<open>dropWhile _ _ = _\<close> AppNext s assms in \<open>simp add: qb_ipcs_connection_next_get_def wp_simps hold_def\<close>)
  qed (use AppNext s assms in \<open>auto simp: dropWhile_eq_Nil_conv\<close>)
next
  case (AppStats c q clear)
  then obtain conn where c: "conns w c = Some conn" using assms by auto
  obtain s where s: "srv w = Some s" using refs_srv[OF ok_refs[OF assms(1)] c] by auto
  have "0 \<le> outstanding_notifiers conn"
    using refs_conn_good[OF ok_refs[OF assms(1)] c] by (simp add: conn_good_def)
  then have "ok x k ms w0 (conn_set c (conn\<lparr>c_stats := st\<rparr>) w)" for st
    by (intro ok_conn_set[OF assms(1) c]) simp_all
  then show ?thesis
    using AppStats c s assms(1) by (simp add: qb_ipcs_connection_stats_get_2_def Let_def wp_simps)
next
  case (AppServiceStats clear)
  then obtain s where s: "srv w = Some s" using assms by auto
  have "ok x k ms w0 (srv_set (s\<lparr>s_stats := st\<rparr>) w)" for st
    by (intro ok_srv_set[OF assms(1) s]) simp_all
  then show ?thesis using AppServiceStats s assms(1) by (simp add: qb_ipcs_stats_get_def wp_simps)
next
  case (AppBuffer sz)
  then obtain s where s: "srv w = Some s" using assms by auto
  have "ok x k ms w0 (srv_set (s\<lparr>max_buffer_size := sz\<rparr>) w)"
    by (intro ok_srv_set[OF assms(1) s]) simp_all
  then show ?thesis using AppBuffer s by (simp add: qb_ipcs_enforce_buffer_size_def wp_simps)
next
  case (AppEvent env c sz)
  then show ?thesis
    using assms ok_event_send_any[OF assms(1)] by (auto simp: qb_ipcs_event_send_def wp_simps)
qed (use assms in \<open>auto simp: wp_simps qb_ipcs_response_send_def qb_ipcs_response_sendv_def qb_ipcs_event_sendv_def qb_ipcs_connection_auth_set_def
       intro: ok_ref_hold refs_unhold_unref ok_request_rate_limit ok_response_send_any ok_event_send_any ok_on_conn\<close>)

lemma ok_app_run: "ok x k ms w0 w \<Longrightarrow> wp (app_run as w) (ok x k ms w0)"
proof (induction as arbitrary: w)
  case (Cons a as)
  then show ?case
    using wp_mono[OF ok_app_do[OF Cons.prems], of a "\<lambda>w'. wp (app_run as w') (ok x k ms w0)"] by (simp add: wp_simps)
qed (simp add: wp_simps)

section \<open>Disconnecting\<close>

text \<open>The library's reference of a connection is given up, unless the disconnection is to run again.\<close>

lemma disconnect_shutting_ok:
  assumes "refs_inv x k w" "0 < x c"
  shows "wp (disconnect_shutting env c w)
    (\<lambda>w'. msgs w' = msgs w \<and> keeps w (w'\<lparr>jobs := jobs w\<rparr>) \<and>
      (jobs w' = jobs w @ [c] \<and> refs_inv x k w' \<or> jobs w' = jobs w \<and> refs_inv (x(c := x c - 1)) k w'))"
proof -
  obtain conn where conn: "conns w c = Some conn" using refs_conn[OF assms(1), of c] assms(2) by auto
  obtain s where s: "srv w = Some s" using refs_srv[OF assms(1) conn] by auto
  define run where "run = (if has_closed s then do { w \<leftarrow> app_run (closed_ops env) (call (CallClosed c) w); Some (closed_rc env, w) } else Some (0, w))"
  have "ok x k [] w (call (CallClosed c) w)" using ok_call[OF ok_refl[OF assms(1)], of "CallClosed c"] by simp
  then have run: "wp run (\<lambda>p. ok x k [] w (snd p))"
    using ok_app_run[of x k "[]" w "call (CallClosed c) w"] ok_refl[OF assms(1)] by (auto simp: run_def wp_simps)
  then obtain res w1 where w1: "run = Some (res, w1)" "ok x k [] w w1" by (auto simp: wp_ex)
  have eq: "disconnect_shutting env c w =
      (if res \<noteq> 0 \<and> job_rc env = 0 then Some (w1\<lparr>jobs := jobs w1 @ [c]\<rparr>) else qb_ipcs_connection_unref c w1)"
    using s w1(1) unfolding run_def by (simp add: disconnect_shutting_def)
  have un: "wp (qb_ipcs_connection_unref c w1) (ok (x(c := x c - 1)) k [] w)" by (rule ok_connection_unref[OF w1(2) assms(2)])
  show ?thesis
  proof (cases "res \<noteq> 0 \<and> job_rc env = 0")
    case True
    have "refs_inv x k (w1\<lparr>jobs := jobs w1 @ [c]\<rparr>)"
      by (rule refs_recount[OF ok_refs[OF w1(2)]]) auto
    then show ?thesis using True eq w1(2) by (auto simp: wp_simps ok_def msgs_def intro: keeps_same) (auto simp: keeps_def)
  next
    case False
    then show ?thesis unfolding eq using un by (auto elim!: wp_mono simp: ok_def intro: keeps_same) (auto simp: keeps_def)
  qed
qed

section \<open>The invariant between operations\<close>

definition estab :: "ipcs \<Rightarrow> nat \<Rightarrow> bool" where
  "estab w c \<longleftrightarrow> (case conns w c of None \<Rightarrow> False | Some conn \<Rightarrow> c_state conn = QB_IPCS_CONNECTION_ESTABLISHED)"

definition shutting :: "ipcs \<Rightarrow> nat \<Rightarrow> bool" where
  "shutting w c \<longleftrightarrow> (case conns w c of None \<Rightarrow> False | Some conn \<Rightarrow> c_state conn = QB_IPCS_CONNECTION_SHUTTING_DOWN)"

text \<open>Between operations the library holds the reference of the allocation, while a connection is established or waits for its job.\<close>

definition lib_refs :: "ipcs \<Rightarrow> nat \<Rightarrow> nat" where
  "lib_refs w c = (if estab w c \<or> c \<in> set (jobs w) then 1 else 0)"

definition jobs_good :: "ipcs \<Rightarrow> bool" where
  "jobs_good w \<longleftrightarrow> distinct (jobs w) \<and> (\<forall>c\<in>set (jobs w). shutting w c)"

definition ipcs_inv :: "nat \<Rightarrow> ipcs \<Rightarrow> bool" where
  "ipcs_inv k w \<longleftrightarrow> refs_inv (lib_refs w) k w \<and> jobs_good w"

lemma estab_not_shutting: "estab w c \<Longrightarrow> \<not> shutting w c"
  by (auto simp: estab_def shutting_def split: option.splits)

lemma keeps_estab: "keeps w w' \<Longrightarrow> estab w' c \<Longrightarrow> estab w c"
  by (fastforce simp: keeps_def estab_def split: option.splits)

lemma keeps_state:
  assumes "keeps w w'" "refs_inv x k w'" "0 < x c"
  shows "estab w' c = estab w c" "shutting w' c = shutting w c"
proof -
  obtain conn where "conns w' c = Some conn" using refs_conn[OF assms(2), of c] assms(3) by auto
  moreover from this obtain conn0 where "conns w c = Some conn0" "c_state conn = c_state conn0"
    using keepsD[OF assms(1)] by blast
  ultimately show "estab w' c = estab w c" "shutting w' c = shutting w c" by (simp_all add: estab_def shutting_def)
qed

lemma estab_jobs [simp]: "estab (w\<lparr>jobs := js\<rparr>) c = estab w c" "shutting (w\<lparr>jobs := js\<rparr>) c = shutting w c"
  by (simp_all add: estab_def shutting_def)

text \<open>The library's references follow from the states, when those are kept.\<close>

lemma lib_refs_kept:
  assumes "keeps w w'" "refs_inv x k w'" "\<And>d. d \<noteq> c \<Longrightarrow> x d = lib_refs w d" "d \<noteq> c"
  shows "estab w' d = estab w d"
proof (cases "0 < x d")
  case True
  then show ?thesis by (rule keeps_state(1)[OF assms(1,2)])
next
  case False
  then have "\<not> estab w d" using assms(3)[OF assms(4)] by (auto simp: lib_refs_def split: if_splits)
  then show ?thesis using keeps_estab[OF assms(1), of d] by auto
qed

lemma ipcs_inv_kept:
  assumes "ipcs_inv k w" "ok (lib_refs w) k ms w w'"
  shows "ipcs_inv k w'" "\<And>c. estab w' c = estab w c"
proof -
  have k: "keeps w w'" "refs_inv (lib_refs w) k w'" "jobs w' = jobs w" using assms(2) by (auto simp: ok_def keeps_def)
  show e: "estab w' c = estab w c" for c
    using lib_refs_kept[OF k(1,2), of "Suc c" c] by simp
  then have l: "lib_refs w' = lib_refs w" using k(3) by (auto simp: lib_refs_def)
  have "shutting w' c" if "c \<in> set (jobs w)" for c
    using keeps_state(2)[OF k(1,2), of c] that assms(1) by (auto simp: lib_refs_def ipcs_inv_def jobs_good_def)
  then show "ipcs_inv k w'" using k l assms(1) by (auto simp: ipcs_inv_def jobs_good_def)
qed

definition stable :: "nat \<Rightarrow> ipcs \<Rightarrow> ipcs \<Rightarrow> bool" where
  "stable c w w' \<longleftrightarrow> auths w' = auths w \<and> msgs w' = msgs w \<and> (\<forall>d. d \<noteq> c \<longrightarrow> estab w d \<longrightarrow> estab w' d)"

lemma disconnect_shutting_inv:
  assumes "refs_inv ((lib_refs w)(c := 1)) k w" "jobs_good w" "c \<notin> set (jobs w)" "shutting w c"
  shows "wp (disconnect_shutting env c w) (\<lambda>w'. ipcs_inv k w' \<and> stable c w w')"
proof (rule wp_mono[OF disconnect_shutting_ok[OF assms(1), of c]])
  show "0 < ((lib_refs w)(c := 1)) c" by simp
  fix w'
  let ?x = "(lib_refs w)(c := 1)"
  assume a: "msgs w' = msgs w \<and> keeps w (w'\<lparr>jobs := jobs w\<rparr>) \<and>
      (jobs w' = jobs w @ [c] \<and> refs_inv ?x k w' \<or> jobs w' = jobs w \<and> refs_inv (?x(c := ?x c - 1)) k w')"
  define y where "y = (if jobs w' = jobs w then ?x(c := 0) else ?x)"
  define v where "v = w'\<lparr>jobs := jobs w\<rparr>"
  have y: "refs_inv y k w'" "jobs w' = (if y c = 0 then jobs w else jobs w @ [c])" "\<And>d. d \<noteq> c \<Longrightarrow> y d = lib_refs w d"
    using a by (auto simp: y_def split: if_splits)
  have v: "refs_inv y k v" unfolding v_def by (rule refs_recount[OF y(1)]) auto
  have kv: "keeps w v" using a by (simp add: v_def)
  have e: "estab w' d = estab w d" if "d \<noteq> c" for d
    using lib_refs_kept[OF kv v y(3) that] by (simp add: v_def)
  have ec: "\<not> estab w' c" using keeps_estab[OF kv, of c] estab_not_shutting[of w c] assms(4) by (auto simp: v_def)
  have yc: "y c = 0 \<or> y c = 1" by (auto simp: y_def)
  have l: "lib_refs w' = y"
  proof
    fix d
    show "lib_refs w' d = y d"
    proof (cases "d = c")
      case True
      then show ?thesis using ec yc y(2) assms(3) by (auto simp: lib_refs_def)
    next
      case False
      then show ?thesis using e[OF False] y(2) y(3)[OF False] by (auto simp: lib_refs_def)
    qed
  qed
  have "shutting w' d" if "d \<in> set (jobs w')" for d
  proof -
    have "0 < y d" "shutting w d" using that l y(2) assms(2,4) by (auto simp: lib_refs_def jobs_good_def split: if_splits)
    then show ?thesis using keeps_state(2)[OF kv v, of d] by (simp add: v_def)
  qed
  moreover have "distinct (jobs w')" using y(2) assms(2,3) by (auto simp: jobs_good_def)
  ultimately show "ipcs_inv k w' \<and> stable c w w'"
    using y l e a by (auto simp: ipcs_inv_def jobs_good_def stable_def keeps_def)
qed

lemma disconnect_inv:
  assumes "ipcs_inv k w" "estab w c"
  shows "wp (qb_ipcs_disconnect env c w) (\<lambda>w'. ipcs_inv k w' \<and> stable c w w')"
proof -
  obtain conn where conn: "conns w c = Some conn" "c_state conn = QB_IPCS_CONNECTION_ESTABLISHED"
    using assms(2) by (auto simp: estab_def split: option.splits)
  have r: "refs_inv (lib_refs w) k w" using assms(1) by (simp add: ipcs_inv_def)
  obtain s where s: "srv w = Some s" using refs_srv[OF r conn(1)] by auto
  define conn' where "conn' = conn\<lparr>c_state := QB_IPCS_CONNECTION_SHUTTING_DOWN\<rparr>"
  define s' where "s' = s\<lparr>s_stats := (s_stats s)\<lparr>active_connections := active_connections (s_stats s) - 1,
    closed_connections := closed_connections (s_stats s) + 1\<rparr>\<rparr>"
  define w1 where "w1 = srv_set s' (conn_set c conn' (call (CallDisconnect c) w))"
  have "refs_inv (lib_refs w) k (conn_set c conn' (call (CallDisconnect c) w))"
    by (rule refs_conn_set[of "lib_refs w" k _ c conn])
      (use r conn refs_conn_good[OF r conn(1)] in \<open>auto simp: conn'_def conn_good_def\<close>)
  then have w1: "refs_inv (lib_refs w) k w1"
    unfolding w1_def by (rule refs_srv_set[where s = s]) (use s in \<open>auto simp: s'_def\<close>)
  have st: "estab w1 d = (d \<noteq> c \<and> estab w d)" "shutting w1 d = (d = c \<or> shutting w d)" "jobs w1 = jobs w" for d
    by (auto simp: w1_def estab_def shutting_def conn'_def)
  have cj: "c \<notin> set (jobs w)" using assms estab_not_shutting by (auto simp: ipcs_inv_def jobs_good_def)
  have "(lib_refs w1)(c := 1) = lib_refs w" using st assms(2) by (auto simp: lib_refs_def)
  then have "wp (disconnect_shutting env c w1) (\<lambda>w'. ipcs_inv k w' \<and> stable c w1 w')"
    by (intro disconnect_shutting_inv) (use w1 st cj assms(1) in \<open>auto simp: ipcs_inv_def jobs_good_def\<close>)
  moreover have "qb_ipcs_disconnect env c w = disconnect_shutting env c w1"
    using conn s by (simp add: qb_ipcs_disconnect_def w1_def s'_def conn'_def Let_def)
  moreover have "stable c w1 w' \<Longrightarrow> stable c w w'" for w'
    using st(1) by (auto simp: stable_def w1_def msgs_call)
  ultimately show ?thesis by (auto elim: wp_mono)
qed

lemma run_job_inv:
  assumes "ipcs_inv k w" "c \<in> set (jobs w)"
  shows "wp (run_job env c w) (\<lambda>w'. ipcs_inv k w')"
proof -
  define w1 where "w1 = w\<lparr>jobs := remove1 c (jobs w)\<rparr>"
  have d: "distinct (jobs w)" "shutting w c" using assms by (auto simp: ipcs_inv_def jobs_good_def)
  then obtain conn where conn: "conns w c = Some conn" "c_state conn = QB_IPCS_CONNECTION_SHUTTING_DOWN"
    by (auto simp: shutting_def split: option.splits)
  have "(lib_refs w1)(c := 1) = lib_refs w" using assms(2) d by (auto simp: lib_refs_def w1_def)
  moreover have "refs_inv (lib_refs w) k w1"
    by (rule refs_recount[of "lib_refs w" k w]) (use assms in \<open>auto simp: ipcs_inv_def w1_def\<close>)
  ultimately have "wp (disconnect_shutting env c w1) (\<lambda>w'. ipcs_inv k w' \<and> stable c w1 w')"
    by (intro disconnect_shutting_inv) (use d assms(1) in \<open>auto simp: w1_def ipcs_inv_def jobs_good_def\<close>)
  moreover obtain s where "srv w = Some s" using refs_srv[of "lib_refs w" k w c conn] assms(1) conn by (auto simp: ipcs_inv_def)
  ultimately show ?thesis
    using conn by (auto simp: run_job_def qb_ipcs_disconnect_def w1_def elim: wp_mono)
qed

lemma disconnect_all_inv:
  "ipcs_inv k w \<Longrightarrow> distinct cs \<Longrightarrow> (\<forall>c\<in>set cs. estab w c) \<Longrightarrow> wp (disconnect_all env cs w) (ipcs_inv k)"
proof (induction cs arbitrary: w)
  case (Cons c cs)
  have "wp (qb_ipcs_disconnect (env c) c w) (\<lambda>w'. ipcs_inv k w' \<and> stable c w w')"
    using Cons.prems by (intro disconnect_inv) auto
  then have "wp (qb_ipcs_disconnect (env c) c w) (\<lambda>w'. wp (disconnect_all env cs w') (ipcs_inv k))"
  proof (rule wp_mono)
    fix w' assume w': "ipcs_inv k w' \<and> stable c w w'"
    then have "\<forall>d\<in>set cs. estab w' d" using Cons.prems by (auto simp: stable_def)
    then show "wp (disconnect_all env cs w') (ipcs_inv k)" using Cons.IH[of w'] Cons.prems w' by auto
  qed
  then show ?case by (simp add: wp_simps)
qed (simp add: wp_simps)

section \<open>Requests\<close>

text \<open>The messages of one request: at most one, and only with a size that fits.\<close>

definition fit :: "ipcs \<Rightarrow> nat \<Rightarrow> (nat \<times> int) list \<Rightarrow> bool" where
  "fit w0 c ms \<longleftrightarrow>
     (\<forall>(d, n)\<in>set ms. d = c \<and> 0 < n \<and> (case conns w0 c of None \<Rightarrow> False | Some conn \<Rightarrow> n \<le> int (request_max conn)))"

definition got :: "(nat \<Rightarrow> nat) \<Rightarrow> nat \<Rightarrow> ipcs \<Rightarrow> nat \<Rightarrow> nat \<Rightarrow> ipcs \<Rightarrow> bool" where
  "got x k w0 c n w \<longleftrightarrow> (\<exists>ms. ok x k ms w0 w \<and> length ms \<le> n \<and> fit w0 c ms)"

lemma got_trans: "got x k w0 c n w1 \<Longrightarrow> got x k w1 c m w2 \<Longrightarrow> got x k w0 c (n + m) w2"
proof -
  assume "got x k w0 c n w1" "got x k w1 c m w2"
  then obtain ms1 ms2 where a: "ok x k ms1 w0 w1" "length ms1 \<le> n" "fit w0 c ms1" "ok x k ms2 w1 w2" "length ms2 \<le> m" "fit w1 c ms2"
    by (auto simp: got_def)
  have "fit w0 c ms2" using a(1,6) by (fastforce simp: fit_def ok_def keeps_def split: option.splits)
  then show ?thesis using a ok_trans[OF a(1,4)] by (intro exI[of _ "ms1 @ ms2"] got_def[THEN iffD2]) (auto simp: fit_def)
qed

lemma got_refl: "refs_inv x k w \<Longrightarrow> got x k w c n w"
  using ok_refl[of x k w] by (auto simp: got_def fit_def)

lemma got_mono: "got x k w0 c n w \<Longrightarrow> n \<le> m \<Longrightarrow> got x k w0 c m w"
  unfolding got_def by (meson le_trans)

lemma process_request_got:
  assumes "refs_inv x k w" "0 < x c"
  shows "wp (process_request rq c w) (\<lambda>p. got x k w c 1 (snd p))"
proof -
  obtain conn where conn: "conns w c = Some conn" using refs_conn[OF assms(1), of c] assms(2) by auto
  obtain s where s: "srv w = Some s" using refs_srv[OF assms(1) conn] by auto
  note st = ok_on_stats[OF ok_refl[OF assms(1)] conn]
  let ?ms = "[(c, rq_hdr_size rq)]"
  let ?run = "\<lambda>w'. app_run (rq_ops rq) (call (CallMsgProcess c (rq_hdr_size rq)) w')"
  let ?fin = "\<lambda>w' s. if can_peek s then call (CallReclaim c) w' else w'"
  show ?thesis
  proof (cases "rq_size rq < 0 \<or> rq_size rq = 0 \<or> rq_id rq = QB_IPC_MSG_DISCONNECT \<or> rq_hdr_size rq \<le> 0 \<or> rq_hdr_size rq > int (request_max conn)")
    case True
    have "wp (on_stats f c w) (got x k w c 1)" for f by (rule wp_mono[OF st]) (auto simp: got_def fit_def)
    then show ?thesis
      using True conn s got_refl[OF assms(1)] unfolding process_request_def by (auto simp: wp_simps)
  next
    case False
    have done1: "wp (srv w') (\<lambda>s. got x k w c 1 (?fin w' s))" if w': "ok x k ?ms w w'" for w'
    proof -
      obtain conn' where c': "conns w' c = Some conn'" using refs_conn[OF ok_refs[OF w'], of c] assms(2) by auto
      have "got x k w c 1 v" if "ok x k ?ms w v" for v
        using that False conn unfolding got_def by (intro exI[of _ ?ms]) (simp add: fit_def)
      then show ?thesis using w' ok_call[OF w', of "CallReclaim c"] refs_srv[OF ok_refs[OF w'] c'] by (auto simp: wp_ex)
    qed
    have "wp (?run w') (\<lambda>v. wp (srv v) (\<lambda>s. got x k w c 1 (?fin v s)))" if w': "ok x k [] w w'" for w'
    proof -
      have "wp (?run w') (ok x k ?ms w)"
        using ok_call[OF w', of "CallMsgProcess c (rq_hdr_size rq)"] by (intro ok_app_run) simp
      then show ?thesis by (rule wp_mono) (rule done1)
    qed
    then have "wp (on_stats f c w) (\<lambda>w'. wp (?run w') (\<lambda>v. wp (srv v) (\<lambda>s. got x k w c 1 (?fin v s))))" for f
      by (rule wp_mono[OF st])
    then show ?thesis using False conn s by (simp add: process_request_def wp_simps)
  qed
qed

lemma got_refs: "got x k w0 c n w \<Longrightarrow> refs_inv x k w"
  by (auto simp: got_def ok_def)

text \<open>Each round hands over at most one message, and there are at most \<open>avail\<close> rounds, but at least one.\<close>

lemma request_loop_got:
  "refs_inv x k w \<Longrightarrow> 0 < x c \<Longrightarrow>
   wp (request_loop rqs i avail recvd c w) (\<lambda>(res, recvd, w'). got x k w c (nat (max 1 avail)) w')"
proof (induction rqs i avail recvd c w rule: request_loop.induct)
  case (1 rqs i avail recvd c w)
  obtain res w1 where w1: "process_request (rqs i) c w = Some (res, w1)" "got x k w c 1 w1"
    using process_request_got[OF 1(2,3), of "rqs i"] by (auto simp: wp_ex)
  obtain conn1 where c1: "conns w1 c = Some conn1" using refs_conn[OF got_refs[OF w1(2)], of c] 1(3) by auto
  have stop: "got x k w c (nat (max 1 avail)) w1" by (rule got_mono[OF w1(2)]) simp
  show ?case
  proof (cases "res > 0 \<and> avail - 1 > 0 \<and> fc_enabled conn1 = 0")
    case True
    then have "wp (request_loop rqs (Suc i) (avail - 1) (recvd + 1) c w1) (\<lambda>(res, recvd, w'). got x k w1 c (nat (max 1 (avail - 1))) w')"
      using "1.IH"[OF w1(1)] w1 c1 got_refs[OF w1(2)] 1(3) by auto
    moreover have "got x k w c (nat (max 1 avail)) w'" if "got x k w1 c (nat (max 1 (avail - 1))) w'" for w'
      by (rule got_mono[OF got_trans[OF w1(2) that]]) (use True in auto)
    ultimately have "wp (request_loop rqs (Suc i) (avail - 1) (recvd + 1) c w1) (\<lambda>(res, recvd, w'). got x k w c (nat (max 1 avail)) w')"
      by (auto elim!: wp_mono)
    then show ?thesis using True w1 c1 by (subst request_loop.simps) (simp add: wp_simps Let_def)
  next
    case False
    then show ?thesis using w1 c1 stop by (subst request_loop.simps) (auto simp: wp_simps Let_def)
  qed
qed

section \<open>Dispatching\<close>

text \<open>How many messages a dispatch may hand over.\<close>

definition dispatch_limit :: "nat \<Rightarrow> nat" where
  "dispatch_limit prio = (if prio = QB_LOOP_MED then 5 else if prio = QB_LOOP_LOW then 1 else 50)"

lemma dispatch_limit_pos: "1 \<le> dispatch_limit prio"
  by (simp add: dispatch_limit_def)

lemma request_q_len_limit:
  assumes "srv w = Some s"
  shows "wp (request_q_len_get q w) (\<lambda>avail. nat (max 1 avail) \<le> dispatch_limit (poll_priority s))"
  using assms by (auto simp: request_q_len_get_def wp_simps dispatch_limit_def)

lemma dispatch_requests_got:
  assumes "refs_inv x k w" "0 < x c" "srv w = Some s"
  shows "wp (dispatch_requests env c w) (\<lambda>p. got x k w c (dispatch_limit (poll_priority s)) (snd p))"
proof -
  let ?n = "dispatch_limit (poll_priority s)"
  obtain avail where av: "request_q_len_get (d_q_len env) w = Some avail" "nat (max 1 avail) \<le> ?n"
    using request_q_len_limit[OF assms(3), of "d_q_len env"] by (auto simp: wp_ex)
  obtain res recvd w1 where w1: "request_loop (d_requests env) 0 avail 0 c w = Some (res, recvd, w1)" "got x k w c (nat (max 1 avail)) w1"
    using request_loop_got[OF assms(1,2), of "d_requests env" 0 avail 0] by (auto simp: wp_ex)
  have g: "got x k w c ?n w1" "got x k w c ?n w" using got_mono[OF w1(2) av(2)] got_refl[OF assms(1)] by auto
  obtain conn1 where c1: "conns w1 c = Some conn1" using refs_conn[OF got_refs[OF g(1)], of c] assms(2) by auto
  obtain s1 where "srv w1 = Some s1" using refs_srv[OF got_refs[OF g(1)] c1] by auto
  then show ?thesis using av w1 g assms(3) by (auto simp: dispatch_requests_def wp_simps Let_def)
qed

lemma resend_srv: "resend_event_notifications notify c w = Some (r, w') \<Longrightarrow> srv w' = srv w"
  by (auto simp: resend_event_notifications_def modify_dispatch_descriptor_def Let_def split: bind_splits if_splits)

lemma dispatch_result_got:
  assumes "refs_inv x k w" "0 < x c" "srv w = Some s"
  shows "wp (dispatch_result env c w) (\<lambda>p. got x k w c (dispatch_limit (poll_priority s)) (snd p))"
proof (cases "has_event (d_revents env) POLLNVAL \<or> has_event (d_revents env) POLLHUP")
  case True
  then show ?thesis using got_refl[OF assms(1)] by (auto simp: dispatch_result_def wp_simps)
next
  case False
  let ?n = "dispatch_limit (poll_priority s)"
  obtain conn where conn: "conns w c = Some conn" using refs_conn[OF assms(1), of c] assms(2) by auto
  have "\<exists>w1. (if has_event (d_revents env) POLLOUT then map_option snd (resend_event_notifications (d_notify env) c w) else Some w) = Some w1 \<and>
      ok x k [] w w1 \<and> srv w1 = srv w"
    using ok_resend[OF ok_refl[OF assms(1)] conn, of "d_notify env"] ok_refl[OF assms(1)] resend_srv by (fastforce simp: wp_ex)
  then obtain w1 where w1: "(if has_event (d_revents env) POLLOUT then map_option snd (resend_event_notifications (d_notify env) c w) else Some w) = Some w1"
    "ok x k [] w w1" "srv w1 = Some s" using assms(3) by auto
  obtain conn1 where c1: "conns w1 c = Some conn1" using refs_conn[OF ok_refs[OF w1(2)], of c] assms(2) by auto
  have g0: "got x k w c n w1" for n using w1(2) by (auto simp: got_def fit_def)
  have "wp (dispatch_requests env c w1) (\<lambda>p. got x k w c ?n (snd p))"
    by (rule wp_mono[OF dispatch_requests_got[OF ok_refs[OF w1(2)] assms(2) w1(3)]])
      (use got_trans[OF g0[of 0]] in simp)
  then show ?thesis using False w1(1) c1 g0 by (auto simp: dispatch_result_def wp_simps)
qed

text \<open>
  A dispatch of an established connection: it returns, the invariant holds again, and the messages
  that it handed to the application are those of the connection, of an allowed size, and no more
  than the limit.
\<close>

lemma dispatch_inv:
  assumes "ipcs_inv k w" "estab w c" "srv w = Some s"
  shows "wp (qb_ipcs_dispatch_connection_request env c w)
    (\<lambda>p. ipcs_inv k (snd p) \<and> (\<exists>ms. msgs (snd p) = msgs w @ ms \<and> length ms \<le> dispatch_limit (poll_priority s) \<and> fit w c ms))"
proof -
  have x: "0 < lib_refs w c" "refs_inv (lib_refs w) k w" using assms by (simp_all add: lib_refs_def ipcs_inv_def)
  obtain res w1 where w1: "dispatch_result env c w = Some (res, w1)" "got (lib_refs w) k w c (dispatch_limit (poll_priority s)) w1"
    using dispatch_result_got[OF x(2,1) assms(3), of env] by (auto simp: wp_ex)
  then obtain ms where ms: "ok (lib_refs w) k ms w w1" "length ms \<le> dispatch_limit (poll_priority s)" "fit w c ms"
    by (auto simp: got_def)
  have w1_inv: "ipcs_inv k w1" "estab w1 c" using ipcs_inv_kept[OF assms(1) ms(1)] assms(2) by auto
  have m: "msgs w1 = msgs w @ ms" using ms(1) by (simp add: ok_def)
  show ?thesis
  proof (cases "res = 0")
    case True
    then show ?thesis using w1(1) w1_inv(1) m ms by (auto simp: qb_ipcs_dispatch_connection_request_def wp_simps)
  next
    case False
    have "wp (qb_ipcs_disconnect (d_disc env) c w1)
        (\<lambda>w'. ipcs_inv k w' \<and> (\<exists>ms. msgs w' = msgs w @ ms \<and> length ms \<le> dispatch_limit (poll_priority s) \<and> fit w c ms))"
      by (rule wp_mono[OF disconnect_inv[OF w1_inv]]) (use m ms in \<open>auto simp: stable_def\<close>)
    then show ?thesis using w1(1) False by (simp add: qb_ipcs_dispatch_connection_request_def wp_simps)
  qed
qed

end
