(* ===== verification/Ipcs_Safe.thy ===== *)
theory Ipcs_Safe
  imports Ipcs_Inv
begin

text \<open>
  The server as a whole: the operations that the loop and the application start, the states that are
  reached with them, and that none of them fails an assertion or uses freed memory.
\<close>

section \<open>References to the service\<close>

definition same_conns :: "ipcs \<Rightarrow> ipcs \<Rightarrow> bool" where
  "same_conns w w' \<longleftrightarrow> conns w' = conns w \<and> auths w' = auths w \<and> jobs w' = jobs w \<and> held w' = held w \<and> msgs w' = msgs w \<and> listed w' \<subseteq> listed w"

lemma refs_unref:
  assumes "refs_inv x (Suc k) w"
  shows "wp (qb_ipcs_unref w) (\<lambda>w'. refs_inv x k w' \<and> same_conns w w')"
proof -
  obtain s where s: "srv w = Some s" using assms by (cases "srv w") (auto simp: refs_inv_def srv_good_def)
  have le: "int (Suc k + card (dom (conns w)) + card (dom (auths w))) \<le> s_ref_count s"
    using assms s by (simp add: refs_inv_def srv_good_def)
  show ?thesis
  proof (cases "s_ref_count s = 1")
    case True
    then have "k = 0" "card (dom (conns w)) = 0" "card (dom (auths w)) = 0" using le by auto
    then have "refs_inv x k (w\<lparr>srv := None\<rparr>)"
      using assms by (simp add: refs_inv_def srv_good_def conns_good_def)
    then show ?thesis using s True by (simp add: qb_ipcs_unref_def wp_simps same_conns_def msgs_def listed_def)
  next
    case False
    then have "refs_inv x k (srv_set (s\<lparr>s_ref_count := s_ref_count s - 1\<rparr>) w)"
      using assms s le by (auto simp: refs_inv_def srv_good_def conns_good_def)
    then show ?thesis using s False le by (auto simp: qb_ipcs_unref_def wp_simps same_conns_def listed_def)
  qed
qed

lemma refs_ref:
  assumes "refs_inv x k w" "srv w = Some s"
  shows "wp (qb_ipcs_ref w) (\<lambda>w'. refs_inv x (Suc k) w' \<and> same_conns w w' \<and> srv w' \<noteq> None)"
  using assms by (simp add: qb_ipcs_ref_def wp_simps refs_inv_def srv_good_def conns_good_def same_conns_def listed_def)

lemma refs_forget: "refs_inv x (Suc k) w \<Longrightarrow> refs_inv x k w"
  by (auto simp: refs_inv_def srv_good_def split: option.splits)

lemma refs_new_conn:
  assumes "refs_inv x (Suc k) w" "conns w c = None" "conn_good 1 conn"
  shows "refs_inv (x(c := 1)) k (conn_set c conn w)"
proof -
  have h: "held w c = 0" using refs_counted[OF assms(1), of c] assms(2) by simp
  have "conns_good (x(c := 1)) (conn_set c conn w)"
    by (rule conns_good_upd[of x w _ c conn]) (use assms h in \<open>auto simp: refs_inv_def\<close>)
  moreover have "srv_good k (conn_set c conn w)"
  proof -
    have "c \<notin> dom (conns w)" "finite (dom (conns w))" using assms by (auto simp: refs_inv_def)
    then show ?thesis using assms(1) by (auto simp: refs_inv_def srv_good_def split: option.splits)
  qed
  ultimately show ?thesis using assms(1) by (auto simp: refs_inv_def)
qed

lemma refs_new_auth:
  assumes "refs_inv x (Suc k) w" "auths w d = None"
  shows "refs_inv x k (w\<lparr>auths := (auths w)(d \<mapsto> data)\<rparr>)"
proof -
  have "d \<notin> dom (auths w)" "finite (dom (auths w))" using assms by (auto simp: refs_inv_def)
  then show ?thesis using assms(1) by (auto simp: refs_inv_def srv_good_def conns_good_def split: option.splits)
qed

lemma refs_del_auth:
  assumes "refs_inv x k w" "auths w d = Some data"
  shows "refs_inv x (Suc k) (w\<lparr>auths := (auths w)(d := None)\<rparr>)"
proof -
  have "d \<in> dom (auths w)" "finite (dom (auths w))" using assms by (auto simp: refs_inv_def)
  then have "card (dom (auths w)) = Suc (card (dom (auths w) - {d}))" using card.remove[of "dom (auths w)" d] by simp
  then show ?thesis using assms by (auto simp: refs_inv_def srv_good_def conns_good_def split: option.splits)
qed

lemma unref_auths: "qb_ipcs_unref (w\<lparr>auths := a\<rparr>) = map_option (\<lambda>w. w\<lparr>auths := a\<rparr>) (qb_ipcs_unref w)"
  by (cases "srv w") (simp_all add: qb_ipcs_unref_def srv_set_def)

lemma destroy_auth_ok:
  assumes "refs_inv x k w" "auths w d = Some data"
  shows "wp (destroy_ipc_auth_data d w) (\<lambda>w'. refs_inv x k w' \<and> same_conns (w\<lparr>auths := (auths w)(d := None)\<rparr>) w')"
proof -
  let ?w = "w\<lparr>auths := (auths w)(d := None)\<rparr>"
  have "wp (qb_ipcs_unref w) (\<lambda>w'. refs_inv x k (w'\<lparr>auths := (auths w)(d := None)\<rparr>) \<and> same_conns ?w (w'\<lparr>auths := (auths w)(d := None)\<rparr>))"
    using refs_unref[OF refs_del_auth[OF assms]] by (simp add: unref_auths wp_simps)
  moreover have "qb_ipcs_unref w = Some w' \<Longrightarrow> auths w' = auths w" for w'
    by (auto simp: qb_ipcs_unref_def split: bind_splits if_splits)
  ultimately show ?thesis using assms(2) by (auto simp: destroy_ipc_auth_data_def wp_ex)
qed

text \<open>The invariant, when connections, authentications and jobs are the same.\<close>

lemma same_estab: "same_conns w w' \<Longrightarrow> estab w' = estab w \<and> shutting w' = shutting w \<and> lib_refs w' = lib_refs w"
  by (auto simp: same_conns_def estab_def shutting_def lib_refs_def fun_eq_iff)

lemma ipcs_inv_same: "ipcs_inv k w \<Longrightarrow> same_conns w w' \<Longrightarrow> refs_inv (lib_refs w) k' w' \<Longrightarrow> ipcs_inv k' w'"
  using same_estab[of w w'] by (simp add: ipcs_inv_def jobs_good_def same_conns_def)

lemma same_conns_auths [simp]: "estab (w\<lparr>auths := a\<rparr>) = estab w" "shutting (w\<lparr>auths := a\<rparr>) = shutting w" "lib_refs (w\<lparr>auths := a\<rparr>) = lib_refs w"
  by (auto simp: estab_def shutting_def lib_refs_def fun_eq_iff)

lemma ipcs_inv_auths:
  "ipcs_inv k w \<Longrightarrow> refs_inv (lib_refs w) k' (w\<lparr>auths := a\<rparr>) \<Longrightarrow> ipcs_inv k' (w\<lparr>auths := a\<rparr>)"
  by (simp add: ipcs_inv_def jobs_good_def)

section \<open>New connections\<close>

text \<open>The state while the connection \<open>c\<close> is set up, in state \<open>st\<close>; it is in the list only once it is active.\<close>

definition in_setup :: "nat \<Rightarrow> qb_ipcs_connection_state \<Rightarrow> (nat \<Rightarrow> nat) \<Rightarrow> nat \<Rightarrow> ipcs \<Rightarrow> ipcs \<Rightarrow> bool" where
  "in_setup c st x k w0 w \<longleftrightarrow>
     refs_inv x k w \<and> 0 < x c \<and> auths w = auths w0 \<and> jobs w = jobs w0 \<and> (st = QB_IPCS_CONNECTION_INACTIVE \<longrightarrow> c \<notin> listed w) \<and>
     (\<forall>conn. conns w c = Some conn \<longrightarrow> c_state conn = st) \<and>
     (\<forall>d conn. d \<noteq> c \<longrightarrow> conns w d = Some conn \<longrightarrow> (\<exists>conn0. conns w0 d = Some conn0 \<and> c_state conn = c_state conn0))"

lemma setup_conn:
  assumes "in_setup c st x k w0 w"
  obtains conn s where "conns w c = Some conn" "c_state conn = st" "srv w = Some s"
proof -
  have r: "refs_inv x k w" "0 < x c" using assms by (simp_all add: in_setup_def)
  obtain conn where c: "conns w c = Some conn" using refs_conn[OF r(1), of c] r(2) by auto
  moreover have "c_state conn = st" using c assms by (simp add: in_setup_def)
  moreover obtain s where "srv w = Some s" using refs_srv[OF r(1) c] by auto
  ultimately show ?thesis by (rule that)
qed

lemma setup_ok:
  assumes "in_setup c st x k w0 w" "ok x' k ms w w'" "0 < x' c"
  shows "in_setup c st x' k w0 w'"
proof -
  have k: "keeps w w'" "refs_inv x' k w'" using assms(2) by (auto simp: ok_def)
  have "c_state conn = st" if "conns w' c = Some conn" for conn
    using keepsD[OF k(1) that] assms(1) by (auto simp: in_setup_def)
  moreover have "\<exists>conn0. conns w0 d = Some conn0 \<and> c_state conn = c_state conn0" if "d \<noteq> c" "conns w' d = Some conn" for d conn
    using keepsD[OF k(1) that(2)] that(1) assms(1) by (fastforce simp: in_setup_def)
  moreover have "auths w' = auths w0" "jobs w' = jobs w0" "listed w' \<subseteq> listed w"
    using k(1) assms(1) by (auto simp: keeps_def in_setup_def)
  ultimately show ?thesis using k(2) assms(1,3) by (auto simp: in_setup_def)
qed

lemma setup_app_run:
  assumes "in_setup c st x k w0 w"
  shows "wp (app_run as (call y w)) (in_setup c st x k w0)"
proof -
  have r: "refs_inv x k w" "0 < x c" using assms by (simp_all add: in_setup_def)
  have "wp (app_run as (call y w)) (ok x k (case y of CallMsgProcess c n \<Rightarrow> [(c, n)] | _ \<Rightarrow> []) w)"
    using ok_app_run[OF ok_call[OF ok_refl[OF r(1)], of y], of as] by simp
  then show ?thesis by (rule wp_mono) (rule setup_ok[of c st x k w0 w], rule assms, assumption, rule r(2))
qed

text \<open>A change of the connection that is being set up.\<close>

lemma setup_on_conn:
  assumes "in_setup c st x k w0 w" "\<And>conn. c_state conn = st \<Longrightarrow> c_refcount (f conn) = c_refcount conn \<and>
    outstanding_notifiers (f conn) = outstanding_notifiers conn \<and> c_state (f conn) = st'"
    "st' = QB_IPCS_CONNECTION_INACTIVE \<Longrightarrow> st = QB_IPCS_CONNECTION_INACTIVE"
  shows "wp (on_conn f c w) (in_setup c st' x k w0)"
proof -
  obtain conn s where c: "conns w c = Some conn" "c_state conn = st" "srv w = Some s" by (rule setup_conn[OF assms(1)])
  have r: "refs_inv x k w" using assms(1) by (simp add: in_setup_def)
  have "refs_inv x k (conn_set c (f conn) w)"
    by (rule refs_conn_set[OF r c(1)]) (use refs_conn_good[OF r c(1)] assms(2)[OF c(2)] in \<open>auto simp: conn_good_def\<close>)
  then have "in_setup c st' x k w0 (conn_set c (f conn) w)"
    using assms(1,3) assms(2)[OF c(2)] by (auto simp: in_setup_def)
  then show ?thesis using c(1) by (simp add: on_conn_def wp_simps)
qed

lemma setup_srv_set:
  assumes "in_setup c st x k w0 w" "srv w = Some s" "s_ref_count s' = s_ref_count s" "connections s' = connections s"
  shows "in_setup c st x k w0 (srv_set s' w)"
  using assms refs_srv_set[of x k w s s'] by (auto simp: in_setup_def listed_def)

text \<open>The end of the setup: established with the reference of the allocation, or given up.\<close>

lemma setup_states:
  assumes "ipcs_inv k w0" "\<And>d. d \<noteq> c \<Longrightarrow> x d = lib_refs w0 d" "refs_inv x k w" "d \<noteq> c"
    "\<And>d conn. d \<noteq> c \<Longrightarrow> conns w d = Some conn \<Longrightarrow> \<exists>conn0. conns w0 d = Some conn0 \<and> c_state conn = c_state conn0"
  shows "estab w d = estab w0 d" "d \<in> set (jobs w0) \<Longrightarrow> shutting w d"
proof -
  have dom: "\<exists>conn. conns w d = Some conn" if "0 < lib_refs w0 d"
    using refs_conn[OF assms(3), of d] assms(2)[OF assms(4)] that by simp
  show "estab w d = estab w0 d"
  proof (cases "conns w d")
    case None
    then have "\<not> estab w0 d" using dom by (auto simp: lib_refs_def)
    then show ?thesis using None by (simp add: estab_def)
  next
    case (Some conn)
    then show ?thesis using assms(5)[OF assms(4) Some] by (auto simp: estab_def)
  qed
  show "shutting w d" if j: "d \<in> set (jobs w0)"
  proof -
    obtain conn where conn: "conns w d = Some conn" using dom j by (fastforce simp: lib_refs_def)
    have "shutting w0 d" using assms(1) j by (simp add: ipcs_inv_def jobs_good_def)
    then show ?thesis using conn assms(5)[OF assms(4) conn] by (auto simp: shutting_def)
  qed
qed

lemma setup_finished:
  assumes "ipcs_inv k w0" "conns w0 c = None" "\<And>d. d \<noteq> c \<Longrightarrow> x d = lib_refs w0 d" "refs_inv x k w" "jobs w = jobs w0"
    "\<And>d conn. d \<noteq> c \<Longrightarrow> conns w d = Some conn \<Longrightarrow> \<exists>conn0. conns w0 d = Some conn0 \<and> c_state conn = c_state conn0"
    "x c = (if estab w c then 1 else 0)"
  shows "ipcs_inv k w"
proof -
  have cj: "c \<notin> set (jobs w0)" using assms(1,2) by (auto simp: ipcs_inv_def jobs_good_def shutting_def)
  have st: "estab w d = estab w0 d" "d \<in> set (jobs w0) \<Longrightarrow> shutting w d" if "d \<noteq> c" for d
    using setup_states[of k w0 c x w d] assms(1,3,4,6) that by blast+
  have "lib_refs w = x"
  proof
    fix d
    show "lib_refs w d = x d"
    proof (cases "d = c")
      case True
      then show ?thesis using cj assms(5,7) by (simp add: lib_refs_def)
    next
      case False
      then show ?thesis using st(1)[OF False] assms(3)[OF False] assms(5) by (simp add: lib_refs_def)
    qed
  qed
  moreover have "jobs_good w"
    using st(2) cj assms(1,5) by (fastforce simp: jobs_good_def ipcs_inv_def)
  ultimately show ?thesis using assms(4) by (simp add: ipcs_inv_def)
qed

lemma decide_ok:
  assumes "in_setup c QB_IPCS_CONNECTION_INACTIVE x k w0 w"
  shows "wp (connection_decide env auth_result c w)
    (\<lambda>p. in_setup c (if fst p = 0 then QB_IPCS_CONNECTION_ACTIVE else QB_IPCS_CONNECTION_INACTIVE) x k w0 (snd p))"
proof -
  let ?I = "in_setup c QB_IPCS_CONNECTION_INACTIVE x k w0"
  obtain conn s where c: "conns w c = Some conn" "c_state conn = QB_IPCS_CONNECTION_INACTIVE" "srv w = Some s" by (rule setup_conn[OF assms])
  define start where "start = (if auth_result = 0 \<and> has_accept s
    then do { w \<leftarrow> app_run (ce_accept_ops env) (call (CallAccept c) w); Some (ce_accept_rc env, w) } else Some (auth_result, w))"
  have "wp start (\<lambda>p. ?I (snd p))"
    using setup_app_run[OF assms] assms by (auto simp: start_def wp_simps)
  then obtain res w1 where w1: "start = Some (res, w1)" "?I w1" by (auto simp: wp_ex)
  obtain conn1 s1 where c1: "conns w1 c = Some conn1" "c_state conn1 = QB_IPCS_CONNECTION_INACTIVE" "srv w1 = Some s1" by (rule setup_conn[OF w1(2)])
  define conn2 where "conn2 = conn1\<lparr>c_state := QB_IPCS_CONNECTION_ACTIVE\<rparr>"
  define w2 where "w2 = srv_set (s1\<lparr>connections := c # connections s1\<rparr>) (conn_set c conn2 w1)"
  have r1: "refs_inv x k w1" and nl: "c \<notin> set (connections s1)" using w1(2) c1(3) by (auto simp: in_setup_def listed_def)
  have "refs_inv x k (conn_set c conn2 w1)"
    by (rule refs_conn_set[OF r1 c1(1)]) (use refs_conn_good[OF r1 c1(1)] in \<open>auto simp: conn2_def conn_good_def\<close>)
  then have "refs_inv x k w2"
    using nl c1(3) by (auto simp: w2_def refs_inv_def srv_good_def conns_good_def)
  then have w2: "in_setup c QB_IPCS_CONNECTION_ACTIVE x k w0 w2"
    using w1(2) by (auto simp: in_setup_def w2_def conn2_def)
  have "connection_decide env auth_result c w = (if ce_description env \<noteq> 0 then Some (ce_description env, w)
      else if res \<noteq> 0 then Some (res, w1)
      else if (if has_connect s1 then ce_connect_rc env else 0) \<noteq> 0 then Some (if has_connect s1 then ce_connect_rc env else 0, w1)
      else Some (0, w2))"
    using c(3) c1 w1(1) unfolding start_def w2_def conn2_def by (simp add: connection_decide_def on_conn_def Let_def)
  then show ?thesis using assms w1(2) w2 by (auto simp: wp_simps)
qed

lemma answer_ok:
  assumes "in_setup c st x k w0 w"
  shows "wp (connection_answer env res w) (\<lambda>p. (fst p = 0 \<longrightarrow> res = 0) \<and> in_setup c st x k w0 (snd p))"
proof -
  obtain conn s where c: "conns w c = Some conn" "c_state conn = st" "srv w = Some s" by (rule setup_conn[OF assms])
  have "in_setup c st x k w0 (srv_set (s\<lparr>s_stats := st'\<rparr>) w)" for st'
    by (rule setup_srv_set[OF assms c(3)]) simp_all
  then show ?thesis
    using assms c(3) by (auto simp: connection_answer_def wp_simps Let_def us_send_value_def response_size_def)
qed

lemma created_ok:
  assumes "in_setup c QB_IPCS_CONNECTION_ACTIVE x k w0 w"
  shows "wp (connection_created env c w) (in_setup c QB_IPCS_CONNECTION_ESTABLISHED x k w0)"
proof -
  let ?x = "x(c := x c + 1)"
  have r: "refs_inv x k w" "0 < x c" using assms by (simp_all add: in_setup_def)
  obtain conn s where c: "conns w c = Some conn" "c_state conn = QB_IPCS_CONNECTION_ACTIVE" "srv w = Some s" by (rule setup_conn[OF assms])
  obtain w1 where w1: "qb_ipcs_connection_ref c w = Some w1" "in_setup c QB_IPCS_CONNECTION_ACTIVE ?x k w0 w1"
    using ok_connection_ref[OF ok_refl[OF r(1)] c(1)] setup_ok[OF assms] by (fastforce simp: wp_ex)
  obtain conn1 s1 where c1: "conns w1 c = Some conn1" "srv w1 = Some s1" by (rule setup_conn[OF w1(2)])
  obtain w2 where w2: "(if has_created s1 then app_run (ce_created_ops env) (call (CallCreated c) w1) else Some w1) = Some w2"
    "in_setup c QB_IPCS_CONNECTION_ACTIVE ?x k w0 w2"
    using setup_app_run[OF w1(2), of "ce_created_ops env" "CallCreated c"] w1(2) by (cases "has_created s1") (auto simp: wp_ex)
  let ?f = "\<lambda>conn. if c_state conn = QB_IPCS_CONNECTION_ACTIVE then conn\<lparr>c_state := QB_IPCS_CONNECTION_ESTABLISHED\<rparr> else conn"
  obtain w3 where w3: "on_conn ?f c w2 = Some w3" "in_setup c QB_IPCS_CONNECTION_ESTABLISHED ?x k w0 w3"
    using setup_on_conn[OF w2(2), of ?f QB_IPCS_CONNECTION_ESTABLISHED] by (auto simp: wp_ex)
  have r3: "refs_inv ?x k w3" using w3(2) by (simp add: in_setup_def)
  have "wp (qb_ipcs_connection_unref c w3) (ok x k [] w3)"
    using ok_connection_unref[OF ok_refl[OF r3], of c] by simp
  then have "wp (qb_ipcs_connection_unref c w3) (in_setup c QB_IPCS_CONNECTION_ESTABLISHED x k w0)"
    by (rule wp_mono) (rule setup_ok[OF w3(2)], assumption, rule r(2))
  then show ?thesis using w1 c1 w2 w3 by (simp add: connection_created_def wp_simps)
qed

text \<open>A connection that is given up: only the references of the application are left.\<close>

lemma connection_unref_finished:
  assumes "refs_inv x k w" "x c = 1" "auths w = auths w0" "jobs w = jobs w0" "\<not> estab w c"
    "\<And>d conn. d \<noteq> c \<Longrightarrow> conns w d = Some conn \<Longrightarrow> \<exists>conn0. conns w0 d = Some conn0 \<and> c_state conn = c_state conn0"
    "ipcs_inv k w0" "conns w0 c = None" "\<And>d. d \<noteq> c \<Longrightarrow> x d = lib_refs w0 d"
  shows "wp (qb_ipcs_connection_unref c w) (\<lambda>w'. ipcs_inv k w' \<and> auths w' = auths w0)"
proof (rule wp_mono[OF ok_connection_unref[OF ok_refl[OF assms(1)], of c]])
  show "0 < x c" using assms(2) by simp
  fix w' assume a: "ok (x(c := x c - 1)) k [] w w'"
  then have k: "keeps w w'" "refs_inv (x(c := x c - 1)) k w'" by (auto simp: ok_def)
  have "ipcs_inv k w'"
  proof (rule setup_finished[OF assms(7,8) _ k(2)])
    show "jobs w' = jobs w0" using k(1) assms(4) by (simp add: keeps_def)
    show "\<exists>conn0. conns w0 d = Some conn0 \<and> c_state conn = c_state conn0" if "d \<noteq> c" "conns w' d = Some conn" for d conn
      using keepsD[OF k(1) that(2)] assms(6)[OF that(1)] by fastforce
    show "(x(c := x c - 1)) c = (if estab w' c then 1 else 0)" using assms(2,5) keeps_estab[OF k(1), of c] by auto
  qed (use assms(9) in auto)
  then show "ipcs_inv k w' \<and> auths w' = auths w0" using k(1) assms(3) by (simp add: keeps_def)
qed

lemma failed_ok:
  assumes "in_setup c st x k w0 w" "st \<in> {QB_IPCS_CONNECTION_INACTIVE, QB_IPCS_CONNECTION_ACTIVE}" "x c = 1"
    "ipcs_inv k w0" "conns w0 c = None" "\<And>d. d \<noteq> c \<Longrightarrow> x d = lib_refs w0 d"
  shows "wp (connection_failed env c w) (\<lambda>w'. ipcs_inv k w' \<and> auths w' = auths w0)"
proof -
  obtain conn s where c: "conns w c = Some conn" "c_state conn = st" "srv w = Some s" by (rule setup_conn[OF assms(1)])
  have r: "refs_inv x k w" using assms(1) by (simp add: in_setup_def)
  define conn1 where "conn1 = conn\<lparr>c_state := QB_IPCS_CONNECTION_INACTIVE\<rparr>"
  define s1 where "s1 = s\<lparr>s_stats := (s_stats s)\<lparr>closed_connections := closed_connections (s_stats s) + 1\<rparr>\<rparr>"
  define w1 where "w1 = (if st = QB_IPCS_CONNECTION_INACTIVE then w else srv_set s1 (conn_set c conn1 (call (CallDisconnect c) w)))"
  have "refs_inv x k (conn_set c conn1 (call (CallDisconnect c) w))"
    by (rule refs_conn_set[where conn = conn]) (use r c refs_conn_good[OF r c(1)] in \<open>auto simp: conn1_def conn_good_def\<close>)
  then have "refs_inv x k (srv_set s1 (conn_set c conn1 (call (CallDisconnect c) w)))"
    by (rule refs_srv_set[where s = s]) (use c in \<open>auto simp: s1_def\<close>)
  then have "refs_inv x k w1" using r by (simp add: w1_def)
  then have "wp (qb_ipcs_connection_unref c w1) (\<lambda>w'. ipcs_inv k w' \<and> auths w' = auths w0)"
    by (rule connection_unref_finished)
      (use assms c in \<open>auto simp: w1_def in_setup_def estab_def conn1_def split: if_splits\<close>)
  moreover have "connection_failed env c w = qb_ipcs_connection_unref c w1"
    using c assms(2) by (auto simp: connection_failed_def qb_ipcs_disconnect_def w1_def s1_def conn1_def Let_def)
  ultimately show ?thesis by simp
qed

lemma handle_new_connection_ok:
  assumes "ipcs_inv k w" "srv w = Some s" "case ce_calloc env of None \<Rightarrow> True | Some c \<Rightarrow> conns w c = None"
  shows "wp (handle_new_connection env auth_result sock req_max ugp w) (\<lambda>p. ipcs_inv k (snd p) \<and> auths (snd p) = auths w)"
proof (cases "ce_calloc env")
  case None
  then show ?thesis using assms by (simp add: handle_new_connection_def qb_ipcs_connection_alloc_def wp_simps Let_def)
next
  case (Some c)
  then have fresh: "conns w c = None" using assms(3) by simp
  let ?x = "(lib_refs w)(c := 1)"
  have r: "refs_inv (lib_refs w) k w" using assms(1) by (simp add: ipcs_inv_def)
  obtain w1 where w1: "qb_ipcs_ref w = Some w1" "refs_inv (lib_refs w) (Suc k) w1" "same_conns w w1"
    using refs_ref[OF r assms(2)] by (auto simp: wp_ex)
  define conn where "conn = \<lparr>c_state = QB_IPCS_CONNECTION_INACTIVE, c_refcount = 1, c_pid = 0, c_euid = -1, c_egid = -1,
                           c_auth = (0, 0, 0), c_type = s_type s, setup_sock = 0, request_max = 0, response_max = 0, event_max = 0,
                           fc_enabled = 0, poll_events = POLLIN OR POLLPRI OR POLLNVAL, outstanding_notifiers = 0, c_stats = new_stats 0\<rparr>"
  define w2 where "w2 = conn_set c conn w1"
  have alloc: "qb_ipcs_connection_alloc (ce_calloc env) w = Some (Some c, w2)"
    using Some assms(2) w1(1) by (simp add: qb_ipcs_connection_alloc_def w2_def conn_def)
  show ?thesis
  proof (cases "ce_receive_buf env")
    case False
    have "w2\<lparr>conns := (conns w2)(c := None)\<rparr> = w1"
      using w1(3) fresh by (simp add: w2_def conn_set_def same_conns_def fun_upd_idem)
    moreover have "ipcs_inv k w1" by (rule ipcs_inv_same[OF assms(1) w1(3) refs_forget[OF w1(2)]])
    ultimately show ?thesis
      using False alloc assms(2) w1(3) by (simp add: handle_new_connection_def wp_simps Let_def same_conns_def)
  next
    case True
    have "c \<notin> listed w" using refs_connections(1)[OF r assms(2)] fresh assms(2) by (auto simp: listed_def)
    moreover have "refs_inv ?x k w2"
      unfolding w2_def by (rule refs_new_conn[OF w1(2)]) (use w1(3) fresh in \<open>auto simp: same_conns_def conn_def conn_good_def\<close>)
    ultimately have s2: "in_setup c QB_IPCS_CONNECTION_INACTIVE ?x k w w2"
      using w1(3) fresh by (auto simp: in_setup_def w2_def same_conns_def conn_def)
    let ?f = "connection_init sock (unat (max req_max (max_buffer_size s))) ugp"
    obtain w3 where w3: "on_conn ?f c w2 = Some w3" "in_setup c QB_IPCS_CONNECTION_INACTIVE ?x k w w3"
      using setup_on_conn[OF s2, of ?f QB_IPCS_CONNECTION_INACTIVE] by (auto simp: wp_ex connection_init_def)
    obtain res w4 where w4: "connection_decide env auth_result c w3 = Some (res, w4)"
      "in_setup c (if res = 0 then QB_IPCS_CONNECTION_ACTIVE else QB_IPCS_CONNECTION_INACTIVE) ?x k w w4"
      using decide_ok[OF w3(2), of env auth_result] by (auto simp: wp_ex)
    obtain res5 w5 where w5: "connection_answer env res w4 = Some (res5, w5)" "res5 = 0 \<Longrightarrow> res = 0"
      "in_setup c (if res = 0 then QB_IPCS_CONNECTION_ACTIVE else QB_IPCS_CONNECTION_INACTIVE) ?x k w w5"
      using answer_ok[OF w4(2), of env res] by (auto simp: wp_ex)
    have eq: "handle_new_connection env auth_result sock req_max ugp w =
        do { w \<leftarrow> (if res5 = 0 then connection_created env c w5 else connection_failed env c w5); Some (res5, w) }"
      using alloc True assms(2) w3(1) w4(1) w5(1) by (simp add: handle_new_connection_def Let_def)
    show ?thesis
    proof (cases "res5 = 0")
      case True
      then have "wp (connection_created env c w5) (in_setup c QB_IPCS_CONNECTION_ESTABLISHED ?x k w)"
        using w5 by (intro created_ok) simp
      moreover have "ipcs_inv k w' \<and> auths w' = auths w" if w': "in_setup c QB_IPCS_CONNECTION_ESTABLISHED ?x k w w'" for w'
      proof -
        obtain conn' s' where "conns w' c = Some conn'" "c_state conn' = QB_IPCS_CONNECTION_ESTABLISHED" by (rule setup_conn[OF w'])
        then have "estab w' c" by (simp add: estab_def)
        then show ?thesis using w' by (auto simp: in_setup_def intro: setup_finished[OF assms(1) fresh, of ?x])
      qed
      ultimately show ?thesis using True eq by (auto simp: wp_simps elim: wp_mono)
    next
      case False
      have "wp (connection_failed env c w5) (\<lambda>w'. ipcs_inv k w' \<and> auths w' = auths w)"
        by (rule failed_ok[OF w5(3)]) (use assms(1) fresh in auto)
      then show ?thesis using False eq by (simp add: wp_simps)
    qed
  qed
qed

section \<open>Accepting and authenticating\<close>

lemma same_conns_inv_auths:
  assumes "ipcs_inv k w" "same_conns (w\<lparr>auths := a\<rparr>) w'" "refs_inv (lib_refs w) k' w'"
  shows "ipcs_inv k' w'"
  using assms same_estab[OF assms(2)] by (simp add: ipcs_inv_def jobs_good_def same_conns_def)

lemma destroy_auth_inv:
  assumes "ipcs_inv k w" "auths w d = Some data"
  shows "wp (destroy_ipc_auth_data d w) (ipcs_inv k)"
proof (rule wp_mono[OF destroy_auth_ok[OF _ assms(2), of "lib_refs w" k]])
  show "refs_inv (lib_refs w) k w" using assms(1) by (simp add: ipcs_inv_def)
  fix w' assume "refs_inv (lib_refs w) k w' \<and> same_conns (w\<lparr>auths := (auths w)(d := None)\<rparr>) w'"
  then show "ipcs_inv k w'" using same_conns_inv_auths[OF assms(1)] by blast
qed

lemma recv_and_auth_inv:
  assumes "ipcs_inv k w" "srv w = Some s" "case ae_init env of None \<Rightarrow> True | Some d \<Rightarrow> auths w d = None"
  shows "wp (qb_ipcs_uc_recv_and_auth env sock w) (ipcs_inv k)"
proof (cases "ae_init env")
  case None
  then show ?thesis using assms(1) by (simp add: qb_ipcs_uc_recv_and_auth_def wp_simps)
next
  case (Some d)
  have r: "refs_inv (lib_refs w) k w" using assms(1) by (simp add: ipcs_inv_def)
  obtain w1 where w1: "qb_ipcs_ref w = Some w1" "refs_inv (lib_refs w) (Suc k) w1" "same_conns w w1"
    using refs_ref[OF r assms(2)] by (auto simp: wp_ex)
  define w2 where "w2 = w1\<lparr>auths := (auths w1)(d \<mapsto> \<lparr>ad_sock = sock, ad_processed = 0, ad_len = int request_size,
    ad_ugp = \<lparr>ugp_uid = 0, ugp_gid = 0, ugp_pid = 0\<rparr>\<rparr>)\<rparr>"
  have "ipcs_inv (Suc k) w1" by (rule ipcs_inv_same[OF assms(1) w1(3,2)])
  moreover have "auths w1 d = None" using Some assms(3) w1(3) by (simp add: same_conns_def)
  ultimately have "ipcs_inv k w2"
    unfolding w2_def using same_estab[OF w1(3)] w1(2) by (intro ipcs_inv_auths refs_new_auth) simp_all
  moreover then have "wp (destroy_ipc_auth_data d w2) (ipcs_inv k)"
    by (rule destroy_auth_inv) (simp add: w2_def)
  ultimately show ?thesis using Some w1(1) by (simp add: qb_ipcs_uc_recv_and_auth_def wp_simps Let_def w2_def)
qed

lemma auth_upd_inv:
  assumes "ipcs_inv k w" "auths w d = Some data"
  shows "ipcs_inv k (w\<lparr>auths := (auths w)(d \<mapsto> data')\<rparr>)"
proof -
  have "refs_inv (lib_refs w) k (w\<lparr>auths := (auths w)(d \<mapsto> data')\<rparr>)"
    using assms srv_good_same[of k w "w\<lparr>auths := (auths w)(d \<mapsto> data')\<rparr>"]
    by (auto simp: ipcs_inv_def refs_inv_def conns_good_def)
  then show ?thesis by (rule ipcs_inv_auths[OF assms(1)])
qed

lemma inv_auth_srv: "ipcs_inv k w \<Longrightarrow> auths w d = Some data \<Longrightarrow> \<exists>s. srv w = Some s"
  by (cases "srv w") (auto simp: ipcs_inv_def refs_inv_def srv_good_def)

lemma auth_finish_inv:
  assumes "ipcs_inv k w" "auths w d = Some data" "case ce_calloc (au_connect env) of None \<Rightarrow> True | Some c \<Rightarrow> conns w c = None"
  shows "wp (auth_finish env d res w) (\<lambda>p. ipcs_inv k (snd p))"
proof -
  obtain s where s: "srv w = Some s" using inv_auth_srv[OF assms(1,2)] by auto
  have des: "wp (destroy_ipc_auth_data d w') (ipcs_inv k)" if "ipcs_inv k w' \<and> auths w' = auths w" for w'
    using that assms(2) by (intro destroy_auth_inv) auto
  have "wp (handle_new_connection (au_connect env) res (ad_sock data) (au_max_msg_size env) (ad_ugp data) w)
      (\<lambda>p. wp (destroy_ipc_auth_data d (snd p)) (ipcs_inv k))"
    by (rule wp_mono[OF handle_new_connection_ok[OF assms(1) s assms(3)]]) (rule des)
  then show ?thesis using assms(1,2) des[of w] by (simp add: auth_finish_def wp_simps)
qed

lemma process_auth_inv:
  assumes "ipcs_inv k w" "auths w d = Some data" "case ce_calloc (au_connect env) of None \<Rightarrow> True | Some c \<Rightarrow> conns w c = None"
    "qb_ipc_us_recv_msghdr (au_recv env) (ad_processed data) (ad_len data) \<noteq> None"
  shows "wp (process_auth env d w) (\<lambda>p. ipcs_inv k (snd p))"
proof -
  obtain s where s: "srv w = Some s" using inv_auth_srv[OF assms(1,2)] by auto
  obtain res n where recv: "qb_ipc_us_recv_msghdr (au_recv env) (ad_processed data) (ad_len data) = Some (res, n)" using assms(4) by auto
  note upd = auth_upd_inv[OF assms(1,2)]
  have fin: "wp (auth_finish env d r w) (\<lambda>p. ipcs_inv k (snd p))" for r by (rule auth_finish_inv[OF assms(1-3)])
  have fin': "wp (auth_finish env d r (w\<lparr>auths := (auths w)(d \<mapsto> data')\<rparr>)) (\<lambda>p. ipcs_inv k (snd p))" for r data'
    by (rule auth_finish_inv[OF upd, where data = data']) (use assms(3) in \<open>auto split: option.splits\<close>)
  show ?thesis
    using s assms(1,2) recv upd fin fin'
    by (simp add: process_auth_def wp_simps Let_def split_def)
qed

section \<open>The server\<close>

text \<open>
  What the application and the loop start. The state is paired with the number of references to the
  service that the application holds, one at first.
\<close>

datatype ipcs_op =
    OpPoll bool | OpRun "int + int" | OpRef | OpUnref | OpDestroy "nat \<Rightarrow> disc_env"
  | OpApp app_op | OpDisconnect disc_env nat | OpJob disc_env nat | OpDispatch dispatch_env nat
  | OpAccept accept_env u32 "sys_result list" int | OpAuth auth_env nat

fun ipcs_do :: "ipcs_op \<Rightarrow> nat \<times> ipcs \<Rightarrow> (nat \<times> ipcs) option" where
  "ipcs_do (OpPoll b) (k, w) = do { w \<leftarrow> qb_ipcs_poll_handlers_set b w; Some (k, w) }"
| "ipcs_do (OpRun publish) (k, w) = do { (res, w) \<leftarrow> qb_ipcs_run publish w; Some (if res < 0 then k - 1 else k, w) }"
| "ipcs_do OpRef (k, w) = do { w \<leftarrow> qb_ipcs_ref w; Some (k + 1, w) }"
| "ipcs_do OpUnref (k, w) = do { w \<leftarrow> qb_ipcs_unref w; Some (k - 1, w) }"
| "ipcs_do (OpDestroy env) (k, w) = do { w \<leftarrow> qb_ipcs_destroy env w; Some (k - 1, w) }"
| "ipcs_do (OpApp a) (k, w) = do { w \<leftarrow> app_do a w; Some (k, w) }"
| "ipcs_do (OpDisconnect env c) (k, w) = do { w \<leftarrow> qb_ipcs_disconnect env c w; Some (k, w) }"
| "ipcs_do (OpJob env c) (k, w) = do { w \<leftarrow> run_job env c w; Some (k, w) }"
| "ipcs_do (OpDispatch env c) (k, w) = do { (res, w) \<leftarrow> qb_ipcs_dispatch_connection_request env c w; Some (k, w) }"
| "ipcs_do (OpAccept env revent accept nonblock) (k, w) =
     do { (res, w) \<leftarrow> qb_ipcs_us_connection_acceptor env revent accept nonblock w; Some (k, w) }"
| "ipcs_do (OpAuth env d) (k, w) = do { (res, w) \<leftarrow> process_auth env d w; Some (k, w) }"

text \<open>
  When an operation may be started: the application gives up only references that it has, it disconnects only
  established connections, and destroys the service only while no connection is being closed; the loop dispatches
  connections that are established, jobs that were scheduled and clients that were accepted; \<^verbatim>\<open>calloc\<close>
  returns memory that is not in use; \<^verbatim>\<open>accept\<close> and \<^verbatim>\<open>recvmsg\<close> return at some point.
\<close>

fun ipcs_enabled :: "ipcs_op \<Rightarrow> nat \<times> ipcs \<Rightarrow> bool" where
  "ipcs_enabled (OpPoll b) (k, w) \<longleftrightarrow> srv w \<noteq> None"
| "ipcs_enabled (OpRun publish) (k, w) \<longleftrightarrow> 0 < k"
| "ipcs_enabled OpRef (k, w) \<longleftrightarrow> srv w \<noteq> None"
| "ipcs_enabled OpUnref (k, w) \<longleftrightarrow> 0 < k"
| "ipcs_enabled (OpDestroy env) (k, w) \<longleftrightarrow> 0 < k \<and> (\<forall>c\<in>listed w. estab w c)"
| "ipcs_enabled (OpApp a) (k, w) \<longleftrightarrow> app_ok a w"
| "ipcs_enabled (OpDisconnect env c) (k, w) \<longleftrightarrow> estab w c"
| "ipcs_enabled (OpJob env c) (k, w) \<longleftrightarrow> c \<in> set (jobs w)"
| "ipcs_enabled (OpDispatch env c) (k, w) \<longleftrightarrow> estab w c"
| "ipcs_enabled (OpAccept env revent accept nonblock) (k, w) \<longleftrightarrow>
     srv w \<noteq> None \<and> accept_loop accept \<noteq> None \<and> (case ae_init env of None \<Rightarrow> True | Some d \<Rightarrow> auths w d = None)"
| "ipcs_enabled (OpAuth env d) (k, w) \<longleftrightarrow>
     (case auths w d of None \<Rightarrow> False
      | Some data \<Rightarrow> qb_ipc_us_recv_msghdr (au_recv env) (ad_processed data) (ad_len data) \<noteq> None) \<and>
     (case ce_calloc (au_connect env) of None \<Rightarrow> True | Some c \<Rightarrow> conns w c = None)"

inductive ipcs_reach :: "nat \<times> ipcs \<Rightarrow> bool" where
  reach_create: "qb_ipcs_create True sid type handlers = Some w \<Longrightarrow> ipcs_reach (1, w)"
| reach_step: "ipcs_reach kw \<Longrightarrow> ipcs_enabled op kw \<Longrightarrow> ipcs_do op kw = Some kw' \<Longrightarrow> ipcs_reach kw'"

lemma unref_inv:
  assumes "ipcs_inv (Suc k) w"
  shows "wp (qb_ipcs_unref w) (ipcs_inv k)"
proof (rule wp_mono[OF refs_unref])
  show "refs_inv (lib_refs w) (Suc k) w" using assms by (simp add: ipcs_inv_def)
  fix w' assume "refs_inv (lib_refs w) k w' \<and> same_conns w w'"
  then show "ipcs_inv k w'" using ipcs_inv_same[OF assms] by blast
qed

lemma run_inv:
  assumes "ipcs_inv (Suc k) w"
  shows "wp (qb_ipcs_run publish w) (\<lambda>p. ipcs_inv (if fst p < 0 then k else Suc k) (snd p))"
proof -
  have r: "refs_inv (lib_refs w) (Suc k) w" using assms by (simp add: ipcs_inv_def)
  obtain s where s: "srv w = Some s" using r by (cases "srv w") (auto simp: refs_inv_def srv_good_def)
  define init where "init = (if \<not> has_poll_fns s then (- EINVAL, s)
                          else case s_type s of
                                 QB_IPC_SOCKET \<Rightarrow> (0, qb_ipcs_us_init s)
                               | QB_IPC_SHM \<Rightarrow> (0, qb_ipcs_shm_init s)
                               | QB_IPC_POSIX_MQ \<Rightarrow> (- ENOTSUP, s)
                               | QB_IPC_SYSV_MQ \<Rightarrow> (- ENOTSUP, s)
                               | QB_IPC_NATIVE \<Rightarrow> (- EINVAL, s))"
  define pub where "pub = (if fst init = 0
      then (case publish of Inl e \<Rightarrow> (- e, (snd init)\<lparr>server_sock := -1\<rparr>) | Inr sock \<Rightarrow> (0, (snd init)\<lparr>server_sock := sock\<rparr>)) else init)"
  have "s_ref_count (snd init) = s_ref_count s \<and> connections (snd init) = connections s"
    by (auto simp: init_def qb_ipcs_us_init_def qb_ipcs_shm_init_def split: qb_ipc_type.split)
  then have same: "s_ref_count (snd pub) = s_ref_count s" "connections (snd pub) = connections s"
    by (auto simp: pub_def split: sum.split)
  have "refs_inv (lib_refs w) (Suc k) (srv_set (snd pub) w)" by (rule refs_srv_set[OF r s same])
  moreover have sc: "same_conns w (srv_set (snd pub) w)" using same s by (simp add: same_conns_def listed_def)
  ultimately have w1: "ipcs_inv (Suc k) (srv_set (snd pub) w)" by (intro ipcs_inv_same[OF assms])
  have "wp (qb_ipcs_unref (srv_set (snd pub) w)) (ipcs_inv k)" by (rule unref_inv[OF w1])
  moreover have "qb_ipcs_run publish w =
      do { w \<leftarrow> (if fst pub < 0 then qb_ipcs_unref (srv_set (snd pub) w) else Some (srv_set (snd pub) w)); Some (fst pub, w) }"
    unfolding qb_ipcs_run_def s pub_def init_def by (simp add: Let_def split_def)
  ultimately show ?thesis using w1 by (simp add: wp_simps)
qed

lemma inv_srv: "ipcs_inv (Suc k) w \<Longrightarrow> \<exists>s. srv w = Some s"
  by (cases "srv w") (auto simp: ipcs_inv_def refs_inv_def srv_good_def)

lemma srv_set_inv:
  assumes "ipcs_inv k w" "srv w = Some s" "s_ref_count s' = s_ref_count s" "connections s' = connections s"
  shows "ipcs_inv k (srv_set s' w)"
proof (rule ipcs_inv_same[OF assms(1)])
  show "same_conns w (srv_set s' w)" using assms by (simp add: same_conns_def listed_def)
  show "refs_inv (lib_refs w) k (srv_set s' w)" using assms by (intro refs_srv_set[OF _ assms(2)]) (simp_all add: ipcs_inv_def)
qed

lemma destroy_inv:
  assumes "ipcs_inv (Suc k) w" "\<forall>c\<in>listed w. estab w c"
  shows "wp (qb_ipcs_destroy env w) (ipcs_inv k)"
proof -
  obtain s where s: "srv w = Some s" using inv_srv[OF assms(1)] by auto
  have "distinct (connections s)" using refs_connections(2)[of "lib_refs w" "Suc k" w s] assms(1) s by (simp add: ipcs_inv_def)
  moreover have "\<forall>c\<in>set (connections s). estab w c" using assms(2) s by (simp add: listed_def)
  ultimately have "wp (disconnect_all env (connections s) w) (ipcs_inv (Suc k))"
    by (rule disconnect_all_inv[OF assms(1)])
  moreover have "wp (qb_ipcs_us_withdraw w') (\<lambda>w''. wp (qb_ipcs_unref w'') (ipcs_inv k))" if w': "ipcs_inv (Suc k) w'" for w'
  proof -
    obtain s' where s': "srv w' = Some s'" using inv_srv[OF w'] by auto
    have "ipcs_inv (Suc k) (srv_set (s'\<lparr>server_sock := -1\<rparr>) w')" by (rule srv_set_inv[OF w' s']) simp_all
    then show ?thesis using s' unref_inv by (simp add: qb_ipcs_us_withdraw_def wp_simps)
  qed
  ultimately have "wp (disconnect_all env (connections s) w) (\<lambda>w'. wp (qb_ipcs_us_withdraw w') (\<lambda>w''. wp (qb_ipcs_unref w'') (ipcs_inv k)))"
    by (auto elim: wp_mono)
  then show ?thesis using s by (simp add: qb_ipcs_destroy_def wp_simps)
qed

lemma acceptor_inv:
  assumes "ipcs_inv k w" "srv w = Some s" "case ae_init env of None \<Rightarrow> True | Some d \<Rightarrow> auths w d = None" "accept_loop accept \<noteq> None"
  shows "wp (qb_ipcs_us_connection_acceptor env revent accept nonblock w) (\<lambda>p. ipcs_inv k (snd p))"
  using recv_and_auth_inv[OF assms(1-3)] assms(1,4)
  by (auto simp: qb_ipcs_us_connection_acceptor_def wp_simps)

lemma app_inv:
  assumes "ipcs_inv k w" "app_ok a w"
  shows "wp (app_do a w) (ipcs_inv k)"
proof (rule wp_mono[OF ok_app_do[OF ok_refl assms(2)]])
  show "refs_inv (lib_refs w) k w" using assms(1) by (simp add: ipcs_inv_def)
qed (rule ipcs_inv_kept[OF assms(1)])

text \<open>Every operation that may be started returns, and keeps the invariant.\<close>

lemma ipcs_do_inv:
  assumes "ipcs_inv k w" "ipcs_enabled op (k, w)"
  shows "wp (ipcs_do op (k, w)) (\<lambda>(k', w'). ipcs_inv k' w')"
proof (cases op)
  case (OpPoll b)
  then obtain s where s: "srv w = Some s" using assms by auto
  have "ipcs_inv k (srv_set (s\<lparr>has_poll_fns := b\<rparr>) w)" by (rule srv_set_inv[OF assms(1) s]) simp_all
  then show ?thesis using OpPoll s by (simp add: qb_ipcs_poll_handlers_set_def wp_simps)
next
  case (OpRun publish)
  then obtain k1 where "k = Suc k1" using assms(2) by (cases k) auto
  then show ?thesis using run_inv[of k1 w publish] assms(1) OpRun by (auto simp: wp_simps split_def elim: wp_mono)
next
  case OpRef
  then obtain s where s: "srv w = Some s" using assms by auto
  have r: "refs_inv (lib_refs w) k w" using assms(1) by (simp add: ipcs_inv_def)
  have "wp (qb_ipcs_ref w) (ipcs_inv (Suc k))"
    by (rule wp_mono[OF refs_ref[OF r s]]) (use ipcs_inv_same[OF assms(1)] in blast)
  then show ?thesis using OpRef by (simp add: wp_simps)
next
  case OpUnref
  then obtain k1 where "k = Suc k1" using assms(2) by (cases k) auto
  then show ?thesis using unref_inv[of k1 w] assms(1) OpUnref by (simp add: wp_simps)
next
  case (OpDestroy env)
  then obtain k1 where "k = Suc k1" using assms(2) by (cases k) auto
  then show ?thesis using destroy_inv[of k1 w env] assms OpDestroy by (simp add: wp_simps)
next
  case (OpDispatch env c)
  then obtain conn where conn: "conns w c = Some conn" using assms(2) by (auto simp: estab_def split: option.splits)
  obtain s where s: "srv w = Some s" using refs_srv[of "lib_refs w" k w c conn] assms(1) conn by (auto simp: ipcs_inv_def)
  show ?thesis using dispatch_inv[OF assms(1) _ s, of c env] assms(2) OpDispatch by (auto simp: wp_simps split_def elim: wp_mono)
next
  case (OpAccept env revent accept nonblock)
  then obtain s where s: "srv w = Some s" using assms by auto
  show ?thesis using acceptor_inv[OF assms(1) s, of env accept revent nonblock] assms(2) OpAccept by (auto simp: wp_simps split_def elim: wp_mono)
next
  case (OpAuth env d)
  then obtain data where "auths w d = Some data" "qb_ipc_us_recv_msghdr (au_recv env) (ad_processed data) (ad_len data) \<noteq> None"
    using assms(2) by (cases "auths w d") auto
  then show ?thesis using process_auth_inv[OF assms(1), of d data env] assms(2) OpAuth by (auto simp: wp_simps split_def elim: wp_mono)
next
  case (OpDisconnect env c)
  then show ?thesis using disconnect_inv[OF assms(1), of c env] assms(2) by (auto simp: wp_simps elim: wp_mono)
qed (use assms app_inv run_job_inv in \<open>auto simp: wp_simps\<close>)

lemma create_inv: "qb_ipcs_create True sid type handlers = Some w \<Longrightarrow> ipcs_inv 1 w"
  by (auto simp: qb_ipcs_create_def ipcs_inv_def refs_inv_def conns_good_def srv_good_def jobs_good_def lib_refs_def estab_def)

lemma reach_inv: "ipcs_reach kw \<Longrightarrow> ipcs_inv (fst kw) (snd kw)"
proof (induction rule: ipcs_reach.induct)
  case (reach_step kw op kw')
  then show ?case using ipcs_do_inv[of "fst kw" "snd kw" op] by (auto simp: wp_ex)
qed (auto intro: create_inv[unfolded One_nat_def])

text \<open>Running a sequence of operations that may each be started.\<close>

fun ipcs_runs :: "ipcs_op list \<Rightarrow> nat \<times> ipcs \<Rightarrow> (nat \<times> ipcs) option" where
  "ipcs_runs [] kw = Some kw"
| "ipcs_runs (op # ops) kw = (if ipcs_enabled op kw then do { kw \<leftarrow> ipcs_do op kw; ipcs_runs ops kw } else None)"

lemma runs_reach: "ipcs_reach kw \<Longrightarrow> ipcs_runs ops kw = Some kw' \<Longrightarrow> ipcs_reach kw'"
  by (induction ops arbitrary: kw) (auto split: if_splits bind_splits intro: reach_step)

text \<open>A client connects: its connection is at the address 7, and the application takes a reference to it when it is created.\<close>

definition quiet :: disc_env where
  "quiet = \<lparr>closed_rc = 0, closed_ops = [], job_rc = 0\<rparr>"

definition client_ops :: "ipcs_op list" where
  "client_ops =
     [OpPoll True, OpRun (Inr 5),
      OpAccept \<lparr>ae_init = Some 1, ae_setsockopt = 0, ae_dispatch_add = 0\<rparr> POLLIN [(-1, EINTR), (9, 0)] 0,
      OpAuth \<lparr>au_revents = POLLIN, au_recv = [(8, 0), (16, 0)],
              au_cmsgs = [\<lparr>cmsg_type = 2, cmsg_len = 28, cmsg_cred = \<lparr>ugp_uid = 10, ugp_gid = 11, ugp_pid = 12\<rparr>\<rparr>],
              au_setsockopt = 0, au_msg_id = QB_IPC_MSG_AUTHENTICATE, au_max_msg_size = 100,
              au_connect = \<lparr>ce_calloc = Some 7, ce_receive_buf = True, ce_description = 0, ce_accept_ops = [], ce_accept_rc = 0,
                            ce_connect_rc = 0, ce_send = 0, ce_created_ops = [AppRef 7], ce_disc = quiet\<rparr>\<rparr> 1]"

definition client_state :: "(nat \<times> ipcs) option" where
  "client_state = do { w \<leftarrow> qb_ipcs_create True 1 QB_IPC_SHM \<lparr>hd_accept = True, hd_created = True, hd_closed = True, hd_destroyed = True\<rparr>;
                       ipcs_runs client_ops (1, w) }"

text \<open>A dispatch with requests of sizes 100, 200 and so on.\<close>

definition requests_env :: dispatch_env where
  "requests_env = \<lparr>d_revents = POLLIN, d_notify = 0, d_q_len = 3, d_recv_one = 0,
     d_requests = (\<lambda>i. \<lparr>rq_size = 100, rq_id = 1, rq_hdr_size = 50 * (int i + 1), rq_ops = [], rq_rc = 0\<rparr>), d_recv_all = 0, d_disc = quiet\<rparr>"

lemma client_state_wp:
  "wp client_state (\<lambda>(k, w). k = 1 \<and> estab w 7 \<and> held w 7 = 1 \<and> listed w = {7})"
  by code_simp

lemma client_state_reach:
  obtains w where "client_state = Some (1, w)" "ipcs_reach (1, w)" "estab w 7" "held w 7 = 1" "listed w = {7}"
proof -
  obtain w where w: "client_state = Some (1, w)" "estab w 7" "held w 7 = 1" "listed w = {7}"
    using client_state_wp by (auto simp: wp_ex)
  moreover have "ipcs_reach (1, w)"
    using w(1) by (auto simp: client_state_def split: bind_splits intro: runs_reach reach_create)
  ultimately show ?thesis by (intro that)
qed

text \<open>
  Why the service may be destroyed only while no connection waits for its job: the destruction closes such a
  connection once more and frees it, and then the job that is still scheduled runs on freed memory.
\<close>

lemma destroy_before_job:
  "wp (do { kw \<leftarrow> client_state; ipcs_runs [OpApp (AppUnref 7), OpDisconnect (quiet\<lparr>closed_rc := 1\<rparr>) 7] kw })
     (\<lambda>(k, w). wp (qb_ipcs_destroy (\<lambda>_. quiet) w) (\<lambda>w'. 7 \<in> set (jobs w') \<and> Option.is_none (run_job quiet 7 w')))"
  by code_simp

section \<open>Properties\<close>





end
