(* ===== verification/Cbuf.thy ===== *)
theory Cbuf
  imports Prelude "HOL-Library.Monad_Syntax"
begin

text \<open>
  Character buffers: an object in memory as the list of its characters. Reading and writing outside of
  it is \<open>None\<close>. On top of that the string functions that the library brings with it
  (\<^verbatim>\<open>lib/strlcpy.c\<close>, \<^verbatim>\<open>lib/strlcat.c\<close>, \<^verbatim>\<open>lib/strchrnul.c\<close>), \<^verbatim>\<open>snprintf\<close> for a text that is known, and numbers in memory.
\<close>

section \<open>Buffers\<close>

abbreviation NUL :: char where "NUL \<equiv> CHR 0x00"

definition poke :: "char list \<Rightarrow> nat \<Rightarrow> char list \<Rightarrow> char list option" where
  "poke b p cs = (if p + length cs \<le> length b then Some (take p b @ cs @ drop (p + length cs) b) else None)"

definition peek :: "char list \<Rightarrow> nat \<Rightarrow> nat \<Rightarrow> char list option" where
  "peek b p n = (if p + n \<le> length b then Some (take n (drop p b)) else None)"

text \<open>The string at a position, up to the terminating zero.\<close>

definition cstr :: "char list \<Rightarrow> nat \<Rightarrow> string option" where
  "cstr b p = (if NUL \<in> set (drop p b) then Some (takeWhile (\<lambda>c. c \<noteq> NUL) (drop p b)) else None)"

text \<open>Subtraction of two values of type \<^verbatim>\<open>size_t\<close>.\<close>

definition size_minus :: "nat \<Rightarrow> nat \<Rightarrow> nat" where
  "size_minus a b = (if b \<le> a then a - b else 2 ^ 64 + a - b)"

section \<open>String functions\<close>

definition strlcpy :: "char list \<Rightarrow> nat \<Rightarrow> string \<Rightarrow> nat \<Rightarrow> (nat \<times> char list) option" where
  "strlcpy b dest src maxlen =
     (if maxlen \<noteq> 0 then do { b \<leftarrow> poke b dest (take (min (maxlen - 1) (length src)) src @ [NUL]); Some (length src, b) }
      else Some (length src, b))"

definition strlcat :: "char list \<Rightarrow> nat \<Rightarrow> string \<Rightarrow> nat \<Rightarrow> (nat \<times> char list) option" where
  "strlcat b dest src maxlen =
     do { cur \<leftarrow> cstr b dest;
          let appendlen = size_minus maxlen (length cur);
          b \<leftarrow> (if appendlen > 0 then map_option snd (strlcpy b (dest + length cur) src appendlen) else Some b);
          Some (length cur + length src, b) }"

text \<open>What \<^verbatim>\<open>strchrnul\<close> finds, as the rest of the string from there.\<close>

fun strchrnul :: "string \<Rightarrow> char \<Rightarrow> string" where
  "strchrnul [] c = []"
| "strchrnul (s # ss) c = (if s \<noteq> c then strchrnul ss c else s # ss)"

text \<open>\<^verbatim>\<open>snprintf\<close> with room for \<open>n\<close> characters, when the text is \<open>text\<close>.\<close>

definition snprintf_text :: "char list \<Rightarrow> nat \<Rightarrow> nat \<Rightarrow> string \<Rightarrow> (nat \<times> char list) option" where
  "snprintf_text b p n text =
     (if n = 0 then Some (length text, b)
      else do { b \<leftarrow> poke b p (take (n - 1) text @ [NUL]); Some (length text, b) })"

section \<open>Numbers\<close>

text \<open>\<open>n\<close> bytes, the lowest first.\<close>

fun le_bytes :: "nat \<Rightarrow> nat \<Rightarrow> char list" where
  "le_bytes 0 v = []"
| "le_bytes (Suc n) v = char_of (v mod 256) # le_bytes n (v div 256)"

fun le_value :: "char list \<Rightarrow> nat" where
  "le_value [] = 0"
| "le_value (c # cs) = of_char c + 256 * le_value cs"

text \<open>Decimal digits.\<close>

fun dec_nat :: "nat \<Rightarrow> string" where
  "dec_nat n = (if n < 10 then [char_of (48 + n)] else dec_nat (n div 10) @ [char_of (48 + n mod 10)])"

declare dec_nat.simps [simp del]

definition dec_int :: "int \<Rightarrow> string" where
  "dec_int i = (if i < 0 then CHR ''-'' # dec_nat (nat (- i)) else dec_nat (nat i))"

definition is_digit :: "char \<Rightarrow> bool" where
  "is_digit c \<longleftrightarrow> 48 \<le> (of_char c :: nat) \<and> (of_char c :: nat) \<le> 57"

definition digit_value :: "char \<Rightarrow> nat" where
  "digit_value c = of_char c - 48"

section \<open>Facts\<close>

lemma poke_length: "poke b p cs = Some b' \<Longrightarrow> length b' = length b"
  by (auto simp: poke_def split: if_splits)

lemma poke_Some [simp]: "p + length cs \<le> length b \<Longrightarrow> poke b p cs = Some (take p b @ cs @ drop (p + length cs) b)"
  by (simp add: poke_def)

lemma le_bytes_length [simp]: "length (le_bytes n v) = n"
  by (induction n arbitrary: v) simp_all

lemma le_value_bytes: "le_value (le_bytes n v) = v mod 256 ^ n"
proof (induction n arbitrary: v)
  case (Suc n)
  have "le_value (le_bytes (Suc n) v) = v mod 256 + 256 * (v div 256 mod 256 ^ n)"
    using Suc.IH[of "v div 256"] by (simp add: of_char_of)
  also have "\<dots> = v mod 256 ^ Suc n" by (simp add: mod_mult2_eq)
  finally show ?case .
qed simp

lemma strchrnul_append: "c \<notin> set s \<Longrightarrow> strchrnul (s @ t) c = strchrnul t c"
  by (induction s) auto

lemma strchrnul_here [simp]: "strchrnul (c # t) c = c # t"
  by simp

lemma strchrnul_none: "c \<notin> set s \<Longrightarrow> strchrnul s c = []"
  by (induction s) auto

lemma strchrnul_length: "length (strchrnul s c) \<le> length s"
  by (induction s) auto

lemma cstr_append:
  assumes "NUL \<notin> set s" "p = length pre"
  shows "cstr (pre @ s @ NUL # rest) p = Some s"
  using assms by (simp add: cstr_def takeWhile_tail) (metis (mono_tags, lifting) takeWhile_append2 takeWhile.simps(2) append_Nil2)

end
