(* ===== verification/Log_format.thy ===== *)
theory Log_format
  imports Cbuf
begin

text \<open>
  The formats of log messages (\<^verbatim>\<open>lib/log_format.c\<close>): names of priorities and facilities, the layout of a line for
  a target, and the form in which the black box keeps a message (the format with the arguments behind it). Type sizes are
  those of 64-bit Linux: \<^verbatim>\<open>int\<close> has four bytes, \<^verbatim>\<open>long\<close>, \<^verbatim>\<open>long long\<close>, \<^verbatim>\<open>size_t\<close>, pointers and \<^verbatim>\<open>double\<close> have eight.
  A result \<open>None\<close> is an access outside of a buffer, or an argument that is not there or of the wrong type.
\<close>

section \<open>Names\<close>

definition LOG_TRACE :: nat where "LOG_TRACE = 8"

definition prioritynames :: "(string \<times> int) list" where
  "prioritynames = [(''emerg'', 0), (''alert'', 1), (''crit'', 2), (''error'', 3), (''warning'', 4), (''notice'', 5),
     (''info'', 6), (''debug'', 7), (''trace'', 8)]"

definition facilitynames :: "(string \<times> int) list" where
  "facilitynames = [(''auth'', 32), (''authpriv'', 80), (''cron'', 72), (''daemon'', 24), (''ftp'', 88), (''kern'', 0), (''lpr'', 48),
     (''mail'', 16), (''news'', 56), (''syslog'', 40), (''user'', 8), (''uucp'', 64), (''local0'', 128), (''local1'', 136),
     (''local2'', 144), (''local3'', 152), (''local4'', 160), (''local5'', 168), (''local6'', 176), (''local7'', 184)]"

fun facility_by_name :: "(string \<times> int) list \<Rightarrow> string \<Rightarrow> int" where
  "facility_by_name [] fname = - EINVAL"
| "facility_by_name ((n, v) # fs) fname = (if fname = n then v else facility_by_name fs fname)"

definition qb_log_facility2int :: "string option \<Rightarrow> int" where
  "qb_log_facility2int fname = (case fname of None \<Rightarrow> - EINVAL | Some f \<Rightarrow> facility_by_name facilitynames f)"

fun facility_by_number :: "(string \<times> int) list \<Rightarrow> int \<Rightarrow> string option" where
  "facility_by_number [] fnum = None"
| "facility_by_number ((n, v) # fs) fnum = (if v = fnum then Some n else facility_by_number fs fnum)"

definition qb_log_facility2str :: "int \<Rightarrow> string option" where
  "qb_log_facility2str fnum = facility_by_number facilitynames fnum"

definition qb_log_priority2str :: "u8 \<Rightarrow> string" where
  "qb_log_priority2str priority =
     (if unat priority > LOG_TRACE then fst (prioritynames ! LOG_TRACE) else fst (prioritynames ! unat priority))"

section \<open>Layout of a line\<close>

text \<open>Copy a field with a given width, at most \<open>buf_len - 1\<close> characters; the number of characters.\<close>

definition strcpy_cutoff :: "char list \<Rightarrow> nat \<Rightarrow> string \<Rightarrow> nat \<Rightarrow> bool \<Rightarrow> nat \<Rightarrow> (nat \<times> char list) option" where
  "strcpy_cutoff b dest src cutoff ralign buf_len =
     (if buf_len \<le> 1 then
        (if buf_len = 0 then do { b \<leftarrow> poke b dest [NUL]; Some (0, b) } else Some (0, b))
      else
        let cutoff = min (if cutoff = 0 then length src else cutoff) (buf_len - 1);
            len = min (length src) cutoff;
            spaces = replicate (cutoff - len) CHR '' ''
        in do { b \<leftarrow> poke b dest ((if ralign then spaces @ take len src else take len src @ spaces) @ [NUL]); Some (cutoff, b) })"

text \<open>A conversion of the layout: alignment, width and letter, and what follows. The letter may be missing.\<close>

definition layout_conv :: "string \<Rightarrow> bool \<times> nat \<times> string" where
  "layout_conv fs =
     (let ralign = (fs \<noteq> [] \<and> hd fs = CHR ''-'');
          fs = (if ralign then tl fs else fs)
      in (ralign, foldl (\<lambda>n c. 10 * n + digit_value c) 0 (takeWhile is_digit fs), dropWhile is_digit fs))"

text \<open>
  One step of both layouts: an ordinary character is copied, a conversion is replaced by the field that \<open>field\<close> gives for the
  format from the percent sign on, the part of it from the letter on, the width and the alignment (it may change those two). After a
  conversion without a letter the position in the format is behind the terminating zero: no rest.
\<close>

type_synonym layout_field = "string \<Rightarrow> string \<Rightarrow> nat \<times> bool \<Rightarrow> string \<times> nat \<times> bool"

definition layout_step :: "layout_field \<Rightarrow> nat \<Rightarrow> char \<Rightarrow> string \<Rightarrow> nat \<Rightarrow> char list \<Rightarrow> (string option \<times> nat \<times> char list) option" where
  "layout_step field max_len c fs out b =
     (if c \<noteq> CHR ''%'' then do { b \<leftarrow> poke b out [c]; Some (Some fs, out + 1, b) }
      else
        let (ralign, cutoff, rest) = layout_conv fs;
            (p, cutoff, ralign) = field (c # fs) rest (cutoff, ralign)
        in do { (len, b) \<leftarrow> strcpy_cutoff b out p cutoff ralign (size_minus max_len out);
                Some (case rest of [] \<Rightarrow> None | _ # rest \<Rightarrow> Some rest, out + len, b) })"

lemma layout_conv_length: "layout_conv fs = (r, n, rest) \<Longrightarrow> length rest \<le> length fs"
proof -
  assume a: "layout_conv fs = (r, n, rest)"
  have "length (dropWhile is_digit (tl fs)) \<le> length fs"
    using length_dropWhile_le[of is_digit "tl fs"] by (simp add: le_diff_conv)
  then show ?thesis using a length_dropWhile_le[of is_digit fs] by (auto simp: layout_conv_def Let_def split: if_splits)
qed

lemma layout_step_length: "layout_step field max_len c fs out b = Some (Some fs', out', b') \<Longrightarrow> length fs' \<le> length fs"
  by (auto simp: layout_step_def Let_def split: if_splits prod.splits bind_splits list.splits dest!: layout_conv_length)

text \<open>The loop ends at \<open>max_line_length - 1\<close>. Reading behind the terminating zero of the format is \<open>None\<close>.\<close>

function layout_loop :: "layout_field \<Rightarrow> nat \<Rightarrow> string option \<Rightarrow> nat \<Rightarrow> char list \<Rightarrow> (nat \<times> char list) option" where
  "layout_loop field max_len None out b = None"
| "layout_loop field max_len (Some []) out b = Some (out, b)"
| "layout_loop field max_len (Some (c # fs)) out b =
     do { (fs', out', b') \<leftarrow> layout_step field max_len c fs out b;
          if out' \<ge> size_minus max_len 1 then Some (out', b')
          else layout_loop field max_len fs' out' b' }"
  by pat_completeness auto
termination
  by (relation "measure (\<lambda>(field, max_len, fs, out, b). case fs of None \<Rightarrow> 0 | Some fs \<Rightarrow> Suc (length fs))")
    (auto simp: less_Suc_eq_le split: option.splits dest: layout_step_length)

text \<open>What the two layouts take from the target and from the system.\<close>

record qb_log_target =
  t_name :: string
  t_format :: "string option"
  t_max_line_length :: nat
  t_ellipsis :: bool

definition static_field :: "int \<Rightarrow> string option \<Rightarrow> qb_log_target \<Rightarrow> layout_field" where
  "static_field pid hostname t from rest ca =
     (let c = (case rest of [] \<Rightarrow> NUL | c # _ \<Rightarrow> c)
      in if c = CHR ''P'' then (dec_int pid, ca)
         else if c = CHR ''N'' then (t_name t, ca)
         else if c = CHR ''H'' then (case hostname of None \<Rightarrow> ''localhost'' | Some h \<Rightarrow> h, ca)
         else (from, length from - length rest + 1, False))"

definition qb_log_target_format_static :: "int \<Rightarrow> string option \<Rightarrow> qb_log_target \<Rightarrow> string option \<Rightarrow> char list \<Rightarrow> char list option" where
  "qb_log_target_format_static pid hostname t format b =
     (case format of
        None \<Rightarrow> Some b
      | Some fs \<Rightarrow> do { (out, b) \<leftarrow> layout_loop (static_field pid hostname t) (t_max_line_length t) (Some fs) 0 b; poke b out [NUL] })"

text \<open>\<open>garbage\<close> is the content of the local array \<^verbatim>\<open>modified_format\<close>; \<open>strdup\<close> says that there is memory for the copy.\<close>

definition qb_log_format_set :: "int \<Rightarrow> string option \<Rightarrow> char list \<Rightarrow> bool \<Rightarrow> string option \<Rightarrow> qb_log_target \<Rightarrow> qb_log_target option" where
  "qb_log_format_set pid hostname garbage strdup format t =
     (case format of
        Some fs \<Rightarrow>
          do { b \<leftarrow> qb_log_target_format_static pid hostname t (Some fs) garbage;
               f \<leftarrow> cstr b 0;
               if strdup then Some (t\<lparr>t_format := Some f\<rparr>) else None }
      | None \<Rightarrow> if strdup then Some (t\<lparr>t_format := Some ''[%p] %b''\<rparr>) else None)"

section \<open>The line of a message\<close>

record qb_log_callsite =
  cs_function :: string
  cs_filename :: string
  cs_format :: string
  cs_priority :: u8
  cs_lineno :: u32
  cs_targets :: u32
  cs_tags :: u32

record tm =
  tm_mon :: nat
  tm_mday :: nat
  tm_hour :: nat
  tm_min :: nat
  tm_sec :: nat

definition log_month_name :: "string list" where
  "log_month_name = [''Jan'', ''Feb'', ''Mar'', ''Apr'', ''May'', ''Jun'', ''Jul'', ''Aug'', ''Sep'', ''Oct'', ''Nov'', ''Dec'']"

text \<open>\<^verbatim>\<open>%02d\<close> and \<^verbatim>\<open>%03llu\<close>.\<close>

definition pad0 :: "nat \<Rightarrow> nat \<Rightarrow> string" where
  "pad0 w n = replicate (w - length (dec_nat n)) CHR ''0'' @ dec_nat n"

definition time_text :: "tm \<Rightarrow> string" where
  "time_text tm = log_month_name ! tm_mon tm @ '' '' @ pad0 2 (tm_mday tm) @ '' '' @ pad0 2 (tm_hour tm) @ '':'' @ pad0 2 (tm_min tm) @ '':'' @ pad0 2 (tm_sec tm)"

text \<open>The part of a path behind the last slash.\<close>

definition base_name :: "string \<Rightarrow> string" where
  "base_name f = rev (takeWhile (\<lambda>c. c \<noteq> CHR ''/'') (rev f))"

definition line_field :: "(u32 \<Rightarrow> string) option \<Rightarrow> qb_log_callsite \<Rightarrow> tm \<Rightarrow> nat \<Rightarrow> string \<Rightarrow> layout_field" where
  "line_field tags_fn cs tm nsec msg from rest ca =
     (let c = (case rest of [] \<Rightarrow> NUL | c # _ \<Rightarrow> c)
      in (if c = CHR ''g'' then (case tags_fn of None \<Rightarrow> [] | Some f \<Rightarrow> f (cs_tags cs))
          else if c = CHR ''n'' then cs_function cs
          else if c = CHR ''f'' then base_name (cs_filename cs)
          else if c = CHR ''l'' then dec_nat (unat (cs_lineno cs))
          else if c = CHR ''t'' then take 63 (time_text tm)
          else if c = CHR ''T'' then take 63 (time_text tm @ ''.'' @ pad0 3 (nsec div 1000000))
          else if c = CHR ''b'' then msg
          else if c = CHR ''p'' then qb_log_priority2str (cs_priority cs)
          else [], ca))"

text \<open>
  The end of the line: a newline at the end is dropped, and a line that was cut is marked. The index of the last
  character is an unsigned 32-bit number, so that the character before an empty line is looked up 4 GB behind it.
\<close>

definition uint_minus :: "nat \<Rightarrow> nat \<Rightarrow> nat" where
  "uint_minus a b = (if b \<le> a then a - b else 2 ^ 32 + a - b)"

definition line_end :: "qb_log_target \<Rightarrow> nat \<Rightarrow> char list \<Rightarrow> char list option" where
  "line_end t out b =
     do { last \<leftarrow> peek b (uint_minus out 1) 1;
          b \<leftarrow> (if last = [CHR 0x0A] then poke b (uint_minus out 1) [NUL] else poke b out [NUL]);
          if t_ellipsis t \<and> out \<ge> size_minus (t_max_line_length t) 1
          then do { b \<leftarrow> poke b (uint_minus out 3) ''.''; b \<leftarrow> poke b (uint_minus out 2) ''.''; poke b (uint_minus out 1) ''.'' }
          else Some b }"

definition qb_log_target_format ::
    "(u32 \<Rightarrow> string) option \<Rightarrow> qb_log_callsite \<Rightarrow> tm \<Rightarrow> nat \<Rightarrow> string \<Rightarrow> qb_log_target \<Rightarrow> char list \<Rightarrow> char list option" where
  "qb_log_target_format tags_fn cs tm nsec msg t b =
     (case t_format t of
        None \<Rightarrow> Some b
      | Some fs \<Rightarrow>
          do { (out, b) \<leftarrow> layout_loop (line_field tags_fn cs tm nsec msg) (t_max_line_length t) (Some fs) 0 b;
               line_end t out b })"

section \<open>Messages in the black box\<close>

definition my_strlcpy :: "char list \<Rightarrow> nat \<Rightarrow> string \<Rightarrow> nat \<Rightarrow> (nat \<times> char list) option" where
  "my_strlcpy b dest src maxlen = do { (rc, b) \<leftarrow> strlcpy b dest src maxlen; Some (min rc (size_minus maxlen 1), b) }"

definition my_strlcat :: "char list \<Rightarrow> nat \<Rightarrow> string \<Rightarrow> nat \<Rightarrow> (nat \<times> char list) option" where
  "my_strlcat b dest src maxlen = do { (rc, b) \<leftarrow> strlcat b dest src maxlen; Some (min rc (size_minus maxlen 1), b) }"

text \<open>The arguments of a message: numbers of four and of eight bytes, the bits of a \<^verbatim>\<open>double\<close>, strings, pointers.\<close>

datatype va = VInt u32 | VLong u64 | VDouble u64 | VStr "string option" | VPtr u64

abbreviation QB_XC :: char where "QB_XC \<equiv> CHR 0x07"

text \<open>The characters of a conversion.\<close>

definition flag_chars :: string where "flag_chars = ''#- +'' @ [CHR 0x27] @ ''I''"

definition int_chars :: string where "int_chars = ''diouxX''"

definition float_chars :: string where "float_chars = ''eEfFgGaA''"

record ser =
  ser_buf :: "char list"
  ser_loc :: nat
  ser_args :: "va list"
  sformat_length :: u64
  sformat_precision :: bool

text \<open>After a conversion the loop goes on with the rest of the format, or the function returns.\<close>

datatype 'a flow = Next string 'a | Return nat 'a

text \<open>Save \<open>n\<close> bytes: \<^verbatim>\<open>memcpy\<close> to the current location.\<close>

definition ser_put :: "nat \<Rightarrow> nat \<Rightarrow> ser \<Rightarrow> ser option" where
  "ser_put n v st = do { b \<leftarrow> poke (ser_buf st) (ser_loc st) (le_bytes n v); Some (st\<lparr>ser_buf := b, ser_loc := ser_loc st + n\<rparr>) }"

definition next_arg :: "ser \<Rightarrow> (va \<times> ser) option" where
  "next_arg st = (case ser_args st of [] \<Rightarrow> None | a # as \<Rightarrow> Some (a, st\<lparr>ser_args := as\<rparr>))"

fun va_bytes :: "nat \<Rightarrow> va \<Rightarrow> nat option" where
  "va_bytes n (VInt v) = (if n = 4 then Some (unat v) else None)"
| "va_bytes n (VLong v) = (if n = 8 then Some (unat v) else None)"
| "va_bytes n _ = None"

text \<open>A number of four or eight bytes; the test for room comes before the argument is taken.\<close>

definition ser_int :: "nat \<Rightarrow> nat \<Rightarrow> string \<Rightarrow> ser \<Rightarrow> ser flow option" where
  "ser_int max_len n fs st =
     (if ser_loc st + n > max_len then Some (Return max_len st)
      else do { (a, st) \<leftarrow> next_arg st; v \<leftarrow> va_bytes n a; st \<leftarrow> ser_put n v st; Some (Next fs st) })"

definition ser_double :: "nat \<Rightarrow> string \<Rightarrow> ser \<Rightarrow> ser flow option" where
  "ser_double max_len fs st =
     (if ser_loc st + 8 > max_len then Some (Return max_len st)
      else do { (a, st) \<leftarrow> next_arg st;
                case a of VDouble v \<Rightarrow> do { st \<leftarrow> ser_put 8 (unat v) st; Some (Next fs st) } | _ \<Rightarrow> None })"

definition ser_char :: "nat \<Rightarrow> string \<Rightarrow> ser \<Rightarrow> ser flow option" where
  "ser_char max_len fs st =
     (if ser_loc st + 1 > max_len then Some (Return max_len st)
      else do { (a, st) \<leftarrow> next_arg st;
                case a of VInt v \<Rightarrow> do { st \<leftarrow> ser_put 1 (unat v mod 256) st; Some (Next fs st) } | _ \<Rightarrow> None })"

definition ser_string :: "nat \<Rightarrow> string \<Rightarrow> ser \<Rightarrow> ser flow option" where
  "ser_string max_len fs st =
     do { (a, st) \<leftarrow> next_arg st;
          case a of
            VStr s \<Rightarrow>
              let room = size_minus max_len (ser_loc st);
                  (src, n) = (case s of
                                None \<Rightarrow> (''(null)'', length ''(null)'' + 1)
                              | Some s \<Rightarrow> (s, if sformat_length st \<noteq> 0 then unat (sformat_length st + 1) else length s + 1))
              in do { (len, b) \<leftarrow> my_strlcpy (ser_buf st) (ser_loc st) src (min n room);
                      Some (Next fs (st\<lparr>ser_buf := b, ser_loc := ser_loc st + len + 1\<rparr>)) }
          | _ \<Rightarrow> None }"

definition ser_pointer :: "nat \<Rightarrow> string \<Rightarrow> ser \<Rightarrow> ser flow option" where
  "ser_pointer max_len fs st =
     do { (a, st) \<leftarrow> next_arg st;
          case a of
            VPtr v \<Rightarrow>
              if ser_loc st + 8 > max_len then Some (Return max_len st)
              else do { st \<leftarrow> ser_put 8 (unat v) st; Some (Next fs st) }
          | _ \<Rightarrow> None }"

definition ser_percent :: "nat \<Rightarrow> string \<Rightarrow> ser \<Rightarrow> ser flow option" where
  "ser_percent max_len fs st =
     (if ser_loc st + 1 > max_len then Some (Return max_len st)
      else do { b \<leftarrow> poke (ser_buf st) (ser_loc st) ''%'';
                Some (Next fs (st\<lparr>ser_buf := b, ser_loc := ser_loc st + 1, sformat_length := 0, sformat_precision := False\<rparr>)) })"

definition ser_width :: "nat \<Rightarrow> ser \<Rightarrow> (ser + ser) option" where
  "ser_width max_len st =
     do { (a, st) \<leftarrow> next_arg st;
          case a of
            VInt v \<Rightarrow> if ser_loc st + 4 > max_len then Some (Inl st) else map_option Inr (ser_put 4 (unat v) st)
          | _ \<Rightarrow> None }"

text \<open>
  The conversion behind a percent sign; \<open>l\<close> and \<open>ll\<close> say which lengths were given. After a number the format goes on
  behind its letter; after the other conversions it still stands at the letter.
\<close>

fun ser_spec :: "nat \<Rightarrow> bool \<Rightarrow> bool \<Rightarrow> string \<Rightarrow> ser \<Rightarrow> ser flow option" where
  "ser_spec max_len l ll [] st = Some (Next [] st)"
| "ser_spec max_len l ll (c # fs) st =
     (if c \<in> set flag_chars then ser_spec max_len l ll fs st
      else if c = CHR ''.'' then ser_spec max_len l ll fs (st\<lparr>sformat_precision := True\<rparr>)
      else if is_digit c then
        ser_spec max_len l ll fs
          (if sformat_precision st then st\<lparr>sformat_length := sformat_length st * 10 + of_nat (digit_value c)\<rparr> else st)
      else if c = CHR ''*'' then
        (case ser_width max_len st of
           None \<Rightarrow> None
         | Some (Inl st) \<Rightarrow> Some (Return max_len st)
         | Some (Inr st) \<Rightarrow> ser_spec max_len l ll fs st)
      else if c = CHR ''l'' then
        (case fs of d # fs' \<Rightarrow> if d = CHR ''l'' then ser_spec max_len False True fs' st else ser_spec max_len True ll fs st
         | [] \<Rightarrow> Some (Next [] st))
      else if c \<in> set ''ztj'' then ser_spec max_len l True fs st
      else if c \<in> set int_chars then ser_int max_len (if l \<or> ll then 8 else 4) fs st
      else if c \<in> set float_chars then ser_double max_len fs st
      else if c = CHR ''c'' then ser_char max_len (c # fs) st
      else if c = CHR ''s'' then ser_string max_len (c # fs) st
      else if c = CHR ''p'' then ser_pointer max_len (c # fs) st
      else if c = CHR ''%'' then ser_percent max_len (c # fs) st
      else Some (Next (c # fs) st))"

declare ser_spec.simps(2) [simp del]

lemmas ser_conv_defs = ser_int_def ser_double_def ser_char_def ser_string_def ser_pointer_def ser_percent_def

lemma ser_conv_rest:
  "ser_int max_len n fs st = Some (Next fs' st') \<Longrightarrow> fs' = fs"
  "ser_double max_len fs st = Some (Next fs' st') \<Longrightarrow> fs' = fs"
  "ser_char max_len fs st = Some (Next fs' st') \<Longrightarrow> fs' = fs"
  "ser_string max_len fs st = Some (Next fs' st') \<Longrightarrow> fs' = fs"
  "ser_pointer max_len fs st = Some (Next fs' st') \<Longrightarrow> fs' = fs"
  "ser_percent max_len fs st = Some (Next fs' st') \<Longrightarrow> fs' = fs"
  by (auto simp: ser_conv_defs Let_def split: if_splits bind_splits va.splits prod.splits)

lemma ser_spec_length: "ser_spec max_len l ll fs st = Some (Next fs' st') \<Longrightarrow> length fs' \<le> length fs"
proof (induction fs arbitrary: l ll st rule: induct_list012)
  case (2 c)
  then show ?case
    by (subst (asm) ser_spec.simps(2)) (auto split: if_splits option.splits sum.splits dest: ser_conv_rest)
next
  case (3 c d fs)
  note IH = 3(1)[THEN le_SucI, THEN le_SucI] 3(2)[THEN le_SucI, simplified]
  from 3(3) show ?case
    by (subst (asm) ser_spec.simps(2)) (auto split: if_splits option.splits sum.splits dest: IH ser_conv_rest)
qed simp

text \<open>The loop over the format.\<close>

function ser_loop :: "nat \<Rightarrow> string \<Rightarrow> ser \<Rightarrow> (nat \<times> ser) option" where
  "ser_loop max_len fs st =
     (case strchrnul fs CHR ''%'' of
        [] \<Rightarrow> Some (ser_loc st, st)
      | _ # fs \<Rightarrow>
          (case ser_spec max_len False False fs st of
             None \<Rightarrow> None
           | Some (Return n st) \<Rightarrow> Some (n, st)
           | Some (Next fs st) \<Rightarrow> ser_loop max_len fs st))"
  by pat_completeness auto
termination
proof (relation "measure (\<lambda>(max_len, fs, st). length fs)")
  fix max_len fs st c fs1 x fs2 st2
  assume "strchrnul fs CHR ''%'' = c # fs1" "ser_spec max_len False False fs1 st = Some x" "x = Next fs2 st2"
  then show "((max_len, fs2, st2), max_len, fs, st) \<in> measure (\<lambda>(max_len, fs, st). length fs)"
    using ser_spec_length[of max_len False False fs1 st fs2 st2] strchrnul_length[of fs "CHR ''%''"] by simp
qed simp

declare ser_loop.simps [simp del]

text \<open>The mark of the extended part of a message becomes a bar, or the end of the format.\<close>

definition mark_extended :: "char list \<Rightarrow> char list option" where
  "mark_extended b =
     do { s \<leftarrow> cstr b 0;
          let pre = takeWhile (\<lambda>c. c \<noteq> QB_XC) s;
          if QB_XC \<notin> set s then Some b
          else poke b (length pre) [if length pre + 1 < length s then CHR ''|'' else NUL] }"

definition qb_vsnprintf_serialize :: "char list \<Rightarrow> nat \<Rightarrow> string \<Rightarrow> va list \<Rightarrow> (nat \<times> char list) option" where
  "qb_vsnprintf_serialize serialize max_len fmt ap =
     do { (n, b) \<leftarrow> my_strlcpy serialize 0 fmt max_len;
          b \<leftarrow> mark_extended b;
          (n, st) \<leftarrow> ser_loop max_len fmt \<lparr>ser_buf = b, ser_loc = n + 1, ser_args = ap, sformat_length = 0, sformat_precision = False\<rparr>;
          Some (n, ser_buf st) }"

text \<open>Reading it back: the text so far, how much of the data was read, and the format of the current conversion.\<close>

record des =
  des_string :: "char list"
  des_loc :: nat
  des_pos :: nat

definition MINI_FORMAT_STR_LEN :: nat where "MINI_FORMAT_STR_LEN = 20"

text \<open>
  \<open>render\<close> is what the C library prints for one conversion and one value.
\<close>

type_synonym render = "string \<Rightarrow> va \<Rightarrow> string"

definition mini_put :: "string \<Rightarrow> char list \<Rightarrow> string option" where
  "mini_put fmt cs = (if length fmt + length cs \<le> MINI_FORMAT_STR_LEN then Some (fmt @ cs) else None)"

text \<open>Print a value that took \<open>n\<close> bytes.\<close>

definition des_print :: "render \<Rightarrow> nat \<Rightarrow> string \<Rightarrow> char \<Rightarrow> va \<Rightarrow> nat \<Rightarrow> des \<Rightarrow> des option" where
  "des_print render str_len fmt c v n st =
     do { fmt' \<leftarrow> mini_put fmt [c, NUL];
          (len, s) \<leftarrow> snprintf_text (des_string st) (des_loc st) (size_minus str_len (des_loc st)) (render (fmt @ [c]) v);
          Some (st\<lparr>des_string := s, des_loc := des_loc st + len, des_pos := des_pos st + n\<rparr>) }"

definition des_value :: "nat \<Rightarrow> char list \<Rightarrow> des \<Rightarrow> nat option" where
  "des_value n buf st = map_option le_value (peek buf (des_pos st) n)"

definition int_va :: "nat \<Rightarrow> nat \<Rightarrow> va" where
  "int_va n v = (if n = 8 then VLong (of_nat v) else VInt (of_nat v))"

fun des_spec :: "render \<Rightarrow> nat \<Rightarrow> char list \<Rightarrow> bool \<Rightarrow> bool \<Rightarrow> string \<Rightarrow> string \<Rightarrow> des \<Rightarrow> (string \<times> des) option" where
  "des_spec render str_len buf l ll fmt [] st = Some ([], st)"
| "des_spec render str_len buf l ll fmt (c # fs) st =
     (if c \<in> set flag_chars \<or> c = CHR ''.'' \<or> is_digit c then
        (case mini_put fmt [c] of None \<Rightarrow> None | Some fmt \<Rightarrow> des_spec render str_len buf l ll fmt fs st)
      else if c = CHR ''*'' then
        (case des_value 4 buf st of
           None \<Rightarrow> None
         | Some v \<Rightarrow> des_spec render str_len buf l ll (fmt @ dec_int (sint (of_nat v :: u32))) fs (st\<lparr>des_pos := des_pos st + 4\<rparr>))
      else if c = CHR ''l'' then
        (case mini_put fmt [c] of
           None \<Rightarrow> None
         | Some fmt \<Rightarrow> if fs \<noteq> [] \<and> hd fs = CHR ''l'' then des_spec render str_len buf False True fmt fs st
                       else des_spec render str_len buf True ll fmt fs st)
      else if c = CHR ''z'' then
        (case mini_put fmt [c] of None \<Rightarrow> None | Some fmt \<Rightarrow> des_spec render str_len buf False True fmt fs st)
      else if c \<in> set ''tj'' then
        (case mini_put fmt [c] of None \<Rightarrow> None | Some fmt \<Rightarrow> des_spec render str_len buf l True fmt fs st)
      else if c \<in> set int_chars then
        (let n = (if l \<or> ll then 8 else 4)
         in do { v \<leftarrow> des_value n buf st; st \<leftarrow> des_print render str_len fmt c (int_va n v) n st; Some (fs, st) })
      else if c \<in> set float_chars then
        do { v \<leftarrow> des_value 8 buf st; st \<leftarrow> des_print render str_len fmt c (VDouble (of_nat v)) 8 st; Some (fs, st) }
      else if c = CHR ''c'' then
        do { v \<leftarrow> des_value 1 buf st; st \<leftarrow> des_print render str_len fmt c (VInt (of_nat v)) 1 st; Some (fs, st) }
      else if c = CHR ''s'' then
        do { s \<leftarrow> cstr buf (des_pos st); st \<leftarrow> des_print render str_len fmt c (VStr (Some s)) (length s + 1) st; Some (fs, st) }
      else if c = CHR ''p'' then
        do { v \<leftarrow> des_value 8 buf st; st \<leftarrow> des_print render str_len fmt c (VPtr (of_nat v)) 8 st; Some (fs, st) }
      else if c = CHR ''%'' then
        do { s \<leftarrow> poke (des_string st) (des_loc st) ''%''; Some (fs, st\<lparr>des_string := s, des_loc := des_loc st + 1\<rparr>) }
      else Some (c # fs, st))"

declare des_spec.simps(2) [simp del]

lemma des_spec_length: "des_spec render str_len buf l ll fmt fs st = Some (fs', st') \<Longrightarrow> length fs' \<le> length fs"
proof (induction fs arbitrary: l ll fmt st)
  case (Cons c fs)
  note IH = Cons(1)[THEN le_SucI]
  from Cons(2) show ?case
    by (subst (asm) des_spec.simps(2)) (auto simp: Let_def split: if_splits option.splits bind_splits dest: IH)
qed simp

function des_loop :: "render \<Rightarrow> nat \<Rightarrow> char list \<Rightarrow> string \<Rightarrow> des \<Rightarrow> (nat \<times> char list) option" where
  "des_loop render str_len buf fs st =
     (case strchrnul fs CHR ''%'' of
        [] \<Rightarrow> do { (n, s) \<leftarrow> my_strlcat (des_string st) 0 fs str_len; Some (n + 1, s) }
      | p # fs1 \<Rightarrow>
          (let lit = take (length fs - length (p # fs1)) fs
           in case poke (des_string st) (des_loc st) lit of
                None \<Rightarrow> None
              | Some s \<Rightarrow>
                  (case des_spec render str_len buf False False [p] fs1 (st\<lparr>des_string := s, des_loc := des_loc st + length lit\<rparr>) of
                     None \<Rightarrow> None
                   | Some (fs2, st) \<Rightarrow> des_loop render str_len buf fs2 st)))"
  by pat_completeness auto
termination
proof (relation "measure (\<lambda>(render, str_len, buf, fs, st). length fs)")
  fix render str_len buf fs st p fs1 lit s x fs2 st2
  assume "strchrnul fs CHR ''%'' = p # fs1"
    "des_spec render str_len buf False False [p] fs1 (st\<lparr>des_string := s, des_loc := des_loc st + length (lit :: string)\<rparr>) = Some x" "(fs2, st2) = x"
  then show "((render, str_len, buf, fs2, st2), render, str_len, buf, fs, st) \<in> measure (\<lambda>(render, str_len, buf, fs, st). length fs)"
    using des_spec_length[of render str_len buf False False "[p]" fs1 "st\<lparr>des_string := s, des_loc := des_loc st + length lit\<rparr>" fs2 st2]
      strchrnul_length[of fs "CHR ''%''"] by auto
qed simp

declare des_loop.simps [simp del]

definition qb_vsnprintf_deserialize :: "render \<Rightarrow> char list \<Rightarrow> nat \<Rightarrow> char list \<Rightarrow> (nat \<times> char list) option" where
  "qb_vsnprintf_deserialize render string str_len buf =
     do { fs \<leftarrow> cstr buf 0;
          s \<leftarrow> poke string 0 [NUL];
          des_loop render str_len buf fs \<lparr>des_string = s, des_loc = 0, des_pos = length fs + 1\<rparr> }"

end
