(* ===== verification/Log_line.thy ===== *)
theory Log_line
  imports Log_format
begin

text \<open>
  The line that a target writes: it never leaves its buffer, and it is the text of the layout when
  that fits.
\<close>

section \<open>The text of a layout\<close>

text \<open>A field with its width.\<close>

definition pad :: "nat \<Rightarrow> bool \<Rightarrow> string \<Rightarrow> string" where
  "pad w ralign p =
     (let w = (if w = 0 then length p else w);
          spaces = replicate (w - length p) CHR '' ''
      in if ralign then spaces @ take w p else take w p @ spaces)"

text \<open>The whole text, if every conversion of the layout has a letter.\<close>

function layout_text :: "layout_field \<Rightarrow> string \<Rightarrow> string option" where
  "layout_text field [] = Some []"
| "layout_text field (c # fs) =
     (if c \<noteq> CHR ''%'' then map_option (Cons c) (layout_text field fs)
      else
        (case layout_conv fs of
           (ralign, w, rest) \<Rightarrow>
             (case field (c # fs) rest (w, ralign) of
                (p, w', ralign') \<Rightarrow>
                  (case rest of
                     [] \<Rightarrow> None
                   | _ # rest' \<Rightarrow> map_option (\<lambda>t. pad w' ralign' p @ t) (layout_text field rest')))))"
  by pat_completeness auto
termination
  by (relation "measure (\<lambda>(field, fs). length fs)") (auto dest!: layout_conv_length[OF sym])

declare layout_text.simps(2) [simp del]

lemma pad_length: "length (pad w r p) = (if w = 0 then length p else w)"
  by (auto simp: pad_def Let_def)

section \<open>A field in the buffer\<close>

lemma cutoff_at:
  assumes "2 \<le> room" "room \<le> length R"
  shows "\<exists>f. strcpy_cutoff (T @ R) (length T) p w r room = Some (length f, T @ f @ NUL # drop (length f + 1) R) \<and>
    length f = min (length (pad w r p)) (room - 1) \<and> (length (pad w r p) \<le> room - 1 \<longrightarrow> f = pad w r p) \<and> set f \<subseteq> set (pad w r p)"
proof -
  define cut where "cut = min (if w = 0 then length p else w) (room - 1)"
  define len where "len = min (length p) cut"
  define f where "f = (if r then replicate (cut - len) CHR '' '' @ take len p else take len p @ replicate (cut - len) CHR '' '')"
  have lf: "length f = cut" by (simp add: f_def len_def)
  have "poke (T @ R) (length T) (f @ [NUL]) = Some (T @ f @ NUL # drop (length f + 1) R)"
    using assms lf by (simp add: poke_def cut_def)
  then have "strcpy_cutoff (T @ R) (length T) p w r room = Some (length f, T @ f @ NUL # drop (length f + 1) R)"
    using assms(1) lf unfolding strcpy_cutoff_def cut_def[symmetric] Let_def len_def[symmetric] f_def[symmetric] by simp
  moreover have "length (pad w r p) \<le> room - 1 \<longrightarrow> f = pad w r p"
  proof
    assume "length (pad w r p) \<le> room - 1"
    then have "cut = (if w = 0 then length p else w)" by (simp add: pad_length cut_def min_def split: if_splits)
    then show "f = pad w r p" by (auto simp: f_def pad_def Let_def len_def min_def)
  qed
  moreover have "set f \<subseteq> set (pad w r p)"
  proof -
    define w' where "w' = (if w = 0 then length p else w)"
    have "len \<le> w'" "cut \<le> w'" by (auto simp: len_def cut_def w'_def)
    then have "set (take len p) \<subseteq> set (take w' p)" "cut - len = 0 \<or> w' - length p \<noteq> 0"
      by (auto simp: len_def set_take_subset_set_take)
    then show ?thesis by (auto simp: f_def pad_def Let_def w'_def[symmetric])
  qed
  ultimately show ?thesis using lf by (intro exI[of _ f]) (simp add: cut_def pad_length)
qed

text \<open>Writing before a position does not change what is behind it.\<close>

lemma drop_past: "length T + length cs \<le> m \<Longrightarrow> drop m (T @ cs @ drop (length cs) R) = drop m (T @ R)"
  by simp

text \<open>One step, with room for at least one character.\<close>

lemma layout_step_at:
  assumes "layout_text field (c # fs) = Some tx" "length T < max_len - 1" "max_len \<le> length (T @ R)"
  shows "\<exists>rest f tx1 R'. layout_step field max_len c fs (length T) (T @ R) = Some (Some rest, length (T @ f), (T @ f) @ R') \<and>
    length rest \<le> length fs \<and> layout_text field rest = Some tx1 \<and> length ((T @ f) @ R') = length (T @ R) \<and>
    drop max_len ((T @ f) @ R') = drop max_len (T @ R) \<and> length (T @ f) \<le> max_len - 1 \<and>
    (tx \<noteq> [] \<and> f = [] \<longrightarrow> tx1 \<noteq> []) \<and>
    (length T + length tx < max_len - 1 \<longrightarrow> tx = f @ tx1) \<and> set f \<union> set tx1 \<subseteq> set tx"
proof (cases "c = CHR ''%''")
  case False
  obtain tx1 where tx1: "layout_text field fs = Some tx1" "tx = c # tx1" using assms(1) False by (auto simp: layout_text.simps(2))
  have "poke (T @ R) (length T) [c] = Some ((T @ [c]) @ drop 1 R)" using assms(2,3) by (simp add: poke_def)
  moreover have "drop max_len ((T @ [c]) @ drop 1 R) = drop max_len (T @ R)" using drop_past[of T "[c]" max_len R] assms(2) by simp
  ultimately show ?thesis
    using False tx1 assms(2,3) by (intro exI[of _ fs] exI[of _ "[c]"] exI[of _ tx1] exI[of _ "drop 1 R"]) (simp add: layout_step_def)
next
  case True
  obtain r w rest0 where cv: "layout_conv fs = (r, w, rest0)" by (metis surj_pair)
  obtain p w' r' where fd: "field (c # fs) rest0 (w, r) = (p, w', r')" by (metis surj_pair)
  obtain d rest tx1 where rest: "rest0 = d # rest" "layout_text field rest = Some tx1" "tx = pad w' r' p @ tx1"
    using assms(1) True cv fd by (auto simp: layout_text.simps(2) split: list.splits)
  have room: "size_minus max_len (length T) = max_len - length T" "2 \<le> max_len - length T" "max_len - length T \<le> length R"
    using assms(2,3) by (auto simp: size_minus_def)
  obtain f where f: "strcpy_cutoff (T @ R) (length T) p w' r' (max_len - length T) = Some (length f, T @ f @ NUL # drop (length f + 1) R)"
    "length f = min (length (pad w' r' p)) (max_len - length T - 1)" "length (pad w' r' p) \<le> max_len - length T - 1 \<longrightarrow> f = pad w' r' p" "set f \<subseteq> set (pad w' r' p)"
    using cutoff_at[OF room(2,3), of T p w' r'] by blast
  have lf: "length f + 1 \<le> max_len - length T" using f(2) room(2) by auto
  have "drop max_len ((T @ f) @ NUL # drop (length f + 1) R) = drop max_len (T @ R)"
    using drop_past[of T "f @ [NUL]" max_len R] lf room(2) by simp
  moreover have "layout_step field max_len c fs (length T) (T @ R) = Some (Some rest, length (T @ f), (T @ f) @ NUL # drop (length f + 1) R)"
    using True cv fd f(1) room(1) rest(1) by (simp add: layout_step_def)
  moreover have "length rest \<le> length fs" using layout_conv_length[OF cv] rest(1) by simp
  moreover have "tx \<noteq> [] \<and> f = [] \<longrightarrow> tx1 \<noteq> []" using f(2) room(2) rest(3) by (auto simp: min_def split: if_splits)
  moreover have "length T + length tx < max_len - 1 \<longrightarrow> tx = f @ tx1" using f(3) rest(3) by auto
  moreover have "set f \<union> set tx1 \<subseteq> set tx" using f(4) rest(3) by auto
  moreover have "length ((T @ f) @ NUL # drop (length f + 1) R) = length (T @ R)" using lf room(3) by simp
  ultimately show ?thesis
    using rest(2) lf by (intro exI[of _ rest] exI[of _ f] exI[of _ tx1] exI[of _ "NUL # drop (length f + 1) R"] conjI) simp_all
qed

lemma layout_loop_at:
  assumes "layout_text field fs = Some tx" "length T < max_len - 1" "max_len \<le> length (T @ R)"
  shows "\<exists>f R'. layout_loop field max_len (Some fs) (length T) (T @ R) = Some (length (T @ f), (T @ f) @ R') \<and>
    length ((T @ f) @ R') = length (T @ R) \<and> drop max_len ((T @ f) @ R') = drop max_len (T @ R) \<and> length (T @ f) \<le> max_len - 1 \<and>
    (tx \<noteq> [] \<longrightarrow> f \<noteq> []) \<and> (length T + length tx < max_len - 1 \<longrightarrow> f = tx) \<and> set f \<subseteq> set tx"
  using assms
proof (induction fs arbitrary: T R tx rule: length_induct)
  case (1 fs)
  show ?case
  proof (cases fs)
    case Nil
    then show ?thesis using 1(2-4) by (intro exI[of _ "[]"] exI[of _ R]) simp
  next
    case (Cons c fs')
    obtain rest f tx1 R' where st: "layout_step field max_len c fs' (length T) (T @ R) = Some (Some rest, length (T @ f), (T @ f) @ R')"
      "length rest \<le> length fs'" "layout_text field rest = Some tx1" "length ((T @ f) @ R') = length (T @ R)"
      "drop max_len ((T @ f) @ R') = drop max_len (T @ R)" "length (T @ f) \<le> max_len - 1"
      "tx \<noteq> [] \<and> f = [] \<longrightarrow> tx1 \<noteq> []" "length T + length tx < max_len - 1 \<longrightarrow> tx = f @ tx1" "set f \<union> set tx1 \<subseteq> set tx"
      using layout_step_at[OF 1(2)[unfolded Cons] 1(3,4)] by blast
    have m: "size_minus max_len 1 = max_len - 1" using 1(3) by (simp add: size_minus_def)
    show ?thesis
    proof (cases "length (T @ f) < max_len - 1")
      case False
      then have "layout_loop field max_len (Some fs) (length T) (T @ R) = Some (length (T @ f), (T @ f) @ R')"
        using Cons st(1) m by simp
      moreover have "f \<noteq> []" using False 1(3) by auto
      moreover have "\<not> length T + length tx < max_len - 1" using False st(8) by auto
      ultimately show ?thesis using st(4-6,9) by (intro exI[of _ f] exI[of _ R'] conjI) auto
    next
      case True
      have lt: "length rest < length fs" using st(2) Cons by simp
      have max': "max_len \<le> length ((T @ f) @ R')" using st(4) 1(4) by simp
      obtain f2 R2 where IH: "layout_loop field max_len (Some rest) (length (T @ f)) ((T @ f) @ R') = Some (length ((T @ f) @ f2), ((T @ f) @ f2) @ R2)"
        "length (((T @ f) @ f2) @ R2) = length ((T @ f) @ R')" "drop max_len (((T @ f) @ f2) @ R2) = drop max_len ((T @ f) @ R')"
        "length ((T @ f) @ f2) \<le> max_len - 1" "tx1 \<noteq> [] \<longrightarrow> f2 \<noteq> []" "length (T @ f) + length tx1 < max_len - 1 \<longrightarrow> f2 = tx1" "set f2 \<subseteq> set tx1"
        using 1(1)[rule_format, OF lt st(3) True max'] by blast
      have "layout_loop field max_len (Some fs) (length T) (T @ R) = Some (length ((T @ f) @ f2), ((T @ f) @ f2) @ R2)"
        using Cons st(1) m True IH(1) by simp
      moreover have "tx \<noteq> [] \<longrightarrow> f @ f2 \<noteq> []" using IH(5) st(7) by auto
      moreover have "length T + length tx < max_len - 1 \<longrightarrow> f @ f2 = tx" using IH(6) st(8) by auto
      moreover have "set (f @ f2) \<subseteq> set tx" using IH(7) st(9) by auto
      ultimately show ?thesis using IH(2-4) st(4,5) by (intro exI[of _ "f @ f2"] exI[of _ R2] conjI) simp_all
    qed
  qed
qed

section \<open>The end of the line\<close>

abbreviation newline :: char where "newline \<equiv> CHR 0x0A"

lemma peek_last: "f \<noteq> [] \<Longrightarrow> peek (f @ R) (length f - 1) 1 = Some [last f]"
  by (cases f rule: rev_cases) (simp_all add: peek_def)

lemma poke_last: "f \<noteq> [] \<Longrightarrow> poke (f @ R) (length f - 1) [c] = Some (butlast f @ c # R)"
  by (cases f rule: rev_cases) (simp_all add: poke_def)

text \<open>A line that was not cut, or is not marked.\<close>

lemma line_end_plain:
  assumes "f \<noteq> []" "length f < max_len" "max_len \<le> length (f @ R)" "\<not> (t_ellipsis t \<and> length f \<ge> max_len - 1)" "max_len = t_max_line_length t"
  shows "\<exists>R'. line_end t (length f) (f @ R) = Some ((if last f = newline then butlast f else f) @ NUL # R') \<and>
    length ((if last f = newline then butlast f else f) @ NUL # R') = length (f @ R) \<and>
    drop max_len ((if last f = newline then butlast f else f) @ NUL # R') = drop max_len (f @ R)"
proof -
  have u: "uint_minus (length f) 1 = length f - 1" "size_minus max_len 1 = max_len - 1"
    using assms(1,2) by (cases f; simp add: uint_minus_def size_minus_def)+
  obtain r R' where R: "R = r # R'" using assms(2,3) by (cases R) auto
  have p: "poke (f @ R) (length f) [NUL] = Some (f @ NUL # R')" using R by (simp add: poke_def)
  show ?thesis
  proof (cases "last f = newline")
    case True
    obtain g x where g: "f = g @ [x]" using assms(1) by (cases f rule: rev_cases) auto
    have "drop max_len (butlast f @ NUL # R) = drop max_len (f @ R)"
      using drop_past[of g "[NUL]" max_len "x # R"] assms(2) g by simp
    then show ?thesis
      using True assms(1,4,5) u peek_last[OF assms(1), of R] poke_last[OF assms(1), of R NUL]
      by (intro exI[of _ R]) (auto simp: line_end_def)
  next
    case False
    have "drop max_len (f @ NUL # R') = drop max_len (f @ R)" using drop_past[of f "[NUL]" max_len R] assms(2) R by simp
    then show ?thesis
      using False assms(4,5) u peek_last[OF assms(1), of R] p R by (intro exI[of _ R']) (auto simp: line_end_def)
  qed
qed

text \<open>A line that was cut and is marked.\<close>

lemma three_elements: "length xs = 3 \<Longrightarrow> \<exists>x y z. xs = [x, y, z]"
  by (auto simp: numeral_3_eq_3 length_Suc_conv)

lemma line_end_cut:
  assumes "length f = max_len - 1" "4 \<le> max_len" "max_len \<le> length (f @ R)" "t_ellipsis t" "max_len = t_max_line_length t" "last f \<noteq> newline"
  shows "\<exists>R'. line_end t (length f) (f @ R) = Some (take (max_len - 4) f @ ''...'' @ NUL # R') \<and>
    length (take (max_len - 4) f @ ''...'' @ NUL # R') = length (f @ R) \<and>
    drop max_len (take (max_len - 4) f @ ''...'' @ NUL # R') = drop max_len (f @ R)"
proof -
  obtain g x y z where f: "f = g @ [x, y, z]"
  proof -
    have "length (drop (max_len - 4) f) = 3" using assms(1,2) by simp
    then obtain x y z where "drop (max_len - 4) f = [x, y, z]" using three_elements by blast
    then show ?thesis using that[of "take (max_len - 4) f" x y z] by (metis append_take_drop_id)
  qed
  obtain r R' where R: "R = r # R'" using assms(1-3) by (cases R) auto
  have g: "length g = max_len - 4" using f assms(1) by simp
  have u: "uint_minus (length f) 1 = length g + 2" "uint_minus (length f) 2 = length g + 1" "uint_minus (length f) 3 = length g"
    "size_minus max_len 1 = max_len - 1" "max_len = length g + 4"
    using f assms(1,2) by (auto simp: uint_minus_def size_minus_def)
  have "line_end t (length f) (f @ R) = Some (g @ ''...'' @ NUL # R')"
    using assms(4,6) u f R unfolding line_end_def assms(5)[symmetric] u by (simp add: peek_def poke_def)
  moreover have "take (max_len - 4) f = g" using f g by simp
  moreover have "drop max_len (g @ ''...'' @ NUL # R') = drop max_len (f @ R)" using u(5) f R by simp
  ultimately show ?thesis using f R by (intro exI[of _ R']) simp
qed

section \<open>Properties\<close>

text \<open>
  What goes wrong at the edges: an empty line makes the code look at the character before it, 4 GB behind the
  buffer; a line that is cut exactly at a newline of the layout loses its terminating zero to the mark; and a layout
  that ends in a percent sign is read behind its end.
\<close>

definition ex_target :: "string \<Rightarrow> qb_log_target" where
  "ex_target f = \<lparr>t_name = ''prog'', t_format = Some f, t_max_line_length = 16, t_ellipsis = True\<rparr>"

definition ex_callsite :: qb_log_callsite where
  "ex_callsite = \<lparr>cs_function = ''main'', cs_filename = ''/src/a.c'', cs_format = '''', cs_priority = 6, cs_lineno = 77, cs_targets = 0, cs_tags = 0\<rparr>"

definition ex_tm :: tm where
  "ex_tm = \<lparr>tm_mon = 1, tm_mday = 3, tm_hour = 4, tm_min = 5, tm_sec = 6\<rparr>"

lemma empty_line_out_of_bounds:
  assumes "t_format t = Some ''%b''" "2 \<le> t_max_line_length t" "t_max_line_length t \<le> length b" "length b < 2 ^ 32"
  shows "qb_log_target_format tags_fn cs tm nsec '''' t b = None"
proof -
  obtain f R' where l: "layout_loop (line_field tags_fn cs tm nsec '''') (t_max_line_length t) (Some ''%b'') (length []) ([] @ b) = Some (length ([] @ f), ([] @ f) @ R')"
    "length (([] @ f) @ R') = length ([] @ b)" "length [] + length ('''' :: string) < t_max_line_length t - 1 \<longrightarrow> f = ''''"
    using layout_loop_at[of "line_field tags_fn cs tm nsec ''''" "''%b''" "''''" "[]" "t_max_line_length t" b] assms(2,3)
    by (auto simp: layout_text.simps(2) layout_conv_def is_digit_def line_field_def pad_def)
  then have "f = []" using assms(2) by simp
  then show ?thesis using l(1,2) assms(1,4) by (simp add: qb_log_target_format_def line_end_def peek_def uint_minus_def)
qed

lemma cut_newline_unterminated:
  "map_option (\<lambda>b. cstr b 0) (qb_log_target_format None ex_callsite ex_tm 0 ''0123456789abcd'' (ex_target (''%b'' @ [newline])) (replicate 16 CHR ''z'')) = Some None"
  by code_simp

lemma layout_read_behind_end:
  "qb_log_target_format None ex_callsite ex_tm 0 ''message'' (ex_target ''%b %'') (replicate 16 CHR ''z'') = None"
  by code_simp

text \<open>Plain text that is longer than the buffer but not than the bound is written behind the end of the buffer.\<close>

lemma layout_loop_overflow:
  assumes "CHR ''%'' \<notin> set fs" "out \<le> length b" "length b < out + length fs" "length b < max_len - 1"
  shows "layout_loop field max_len (Some fs) out b = None"
  using assms
proof (induction fs arbitrary: out b)
  case (Cons c fs)
  then have c: "c \<noteq> CHR ''%''" by auto
  show ?case
  proof (cases "out < length b")
    case True
    then show ?thesis using Cons c by (simp add: layout_step_def size_minus_def)
  next
    case False
    then show ?thesis using Cons.prems(2) c by (simp add: layout_step_def poke_def)
  qed
qed simp

text \<open>A format of 300 characters does not fit into the local array of the setter, which has 256.\<close>

lemma format_set_overflow:
  assumes "length garbage = 256"
  shows "qb_log_format_set pid hostname garbage strdup (Some (replicate 300 CHR ''x'')) ((ex_target [])\<lparr>t_max_line_length := 512\<rparr>) = None"
  using assms layout_loop_overflow[of "replicate 300 CHR ''x''" 0 garbage 512]
  by (simp add: qb_log_format_set_def qb_log_target_format_static_def)



end
