(* ===== verification/Log_roundtrip.thy ===== *)
theory Log_roundtrip
  imports Log_format
begin

text \<open>
  Messages in the black box: what \<^verbatim>\<open>qb_vsnprintf_serialize\<close> writes, \<^verbatim>\<open>qb_vsnprintf_deserialize\<close> prints as the
  original call of \<^verbatim>\<open>printf\<close> would have, for formats of conversions that both know; and the formats for which it does not.
\<close>

section \<open>Formats\<close>

text \<open>A conversion has flags, width and precision, a length, and a letter. A format has conversions, each with the text before it, and a last text.\<close>

datatype conv = Conv string string char

fun conv_text :: "conv \<Rightarrow> string" where
  "conv_text (Conv fl ms c) = CHR ''%'' # fl @ ms @ [c]"

fun fmt_text :: "(string \<times> conv) list \<Rightarrow> string \<Rightarrow> string" where
  "fmt_text [] tail = tail"
| "fmt_text ((lit, cv) # segs) tail = lit @ conv_text cv @ fmt_text segs tail"

definition lit_ok :: "string \<Rightarrow> bool" where
  "lit_ok s \<longleftrightarrow> CHR ''%'' \<notin> set s \<and> NUL \<notin> set s \<and> QB_XC \<notin> set s"

definition flag_ok :: "char \<Rightarrow> bool" where
  "flag_ok c \<longleftrightarrow> c \<in> set flag_chars \<or> c = CHR ''.'' \<or> is_digit c \<or> c = CHR ''*''"

fun conv_ok :: "conv \<Rightarrow> bool" where
  "conv_ok (Conv fl ms c) \<longleftrightarrow>
     list_all flag_ok fl \<and>
     (c \<in> set int_chars \<and> ms \<in> {'''', ''l'', ''ll'', ''z'', ''t'', ''j''} \<or> c \<in> set (float_chars @ ''csp'') \<and> ms = '''')"

text \<open>No string is printed from here on.\<close>

fun no_string :: "(string \<times> conv) list \<Rightarrow> bool" where
  "no_string [] \<longleftrightarrow> True"
| "no_string ((lit, Conv fl ms c) # segs) \<longleftrightarrow> c \<noteq> CHR ''s'' \<and> no_string segs"

text \<open>A precision is saved for the strings that follow, so that it must not be followed by one.\<close>

fun segs_ok :: "(string \<times> conv) list \<Rightarrow> bool" where
  "segs_ok [] \<longleftrightarrow> True"
| "segs_ok ((lit, Conv fl ms c) # segs) \<longleftrightarrow>
     lit_ok lit \<and> conv_ok (Conv fl ms c) \<and> (CHR ''.'' \<in> set fl \<longrightarrow> no_string ((lit, Conv fl ms c) # segs)) \<and> segs_ok segs"

section \<open>What is printed, and what is saved\<close>

text \<open>Flags with the widths that are arguments: the text of the flags, the saved bytes, and the other arguments.\<close>

fun expand :: "string \<Rightarrow> va list \<Rightarrow> (string \<times> char list \<times> va list) option" where
  "expand [] as = Some ([], [], as)"
| "expand (c # fl) as =
     (if c = CHR ''*'' then
        (case as of
           VInt v # as \<Rightarrow> map_option (\<lambda>(mini, d, as). (dec_int (sint v) @ mini, le_bytes 4 (unat v) @ d, as)) (expand fl as)
         | _ \<Rightarrow> None)
      else map_option (\<lambda>(mini, d, as). (c # mini, d, as)) (expand fl as))"

text \<open>The value that a conversion prints, and how it is saved.\<close>

fun conv_arg :: "char \<Rightarrow> string \<Rightarrow> va \<Rightarrow> (va \<times> char list) option" where
  "conv_arg c ms (VInt v) =
     (if c \<in> set int_chars \<and> ms = [] then Some (VInt v, le_bytes 4 (unat v))
      else if c = CHR ''c'' then Some (VInt (of_nat (unat v mod 256)), le_bytes 1 (unat v mod 256)) else None)"
| "conv_arg c ms (VLong v) = (if c \<in> set int_chars \<and> ms \<noteq> [] then Some (VLong v, le_bytes 8 (unat v)) else None)"
| "conv_arg c ms (VDouble v) = (if c \<in> set float_chars then Some (VDouble v, le_bytes 8 (unat v)) else None)"
| "conv_arg c ms (VStr s) =
     (if c = CHR ''s'' then
        (let s = (case s of None \<Rightarrow> ''(null)'' | Some s \<Rightarrow> s)
         in if NUL \<in> set s then None else Some (VStr (Some s), s @ [NUL]))
      else None)"
| "conv_arg c ms (VPtr v) = (if c = CHR ''p'' then Some (VPtr v, le_bytes 8 (unat v)) else None)"

text \<open>One conversion: the format for the C library, the value, the saved bytes, and the other arguments.\<close>

fun conv_print :: "conv \<Rightarrow> va list \<Rightarrow> (string \<times> va \<times> char list \<times> va list) option" where
  "conv_print (Conv fl ms c) as =
     (case expand fl as of
        Some (mini, d, a # as) \<Rightarrow> map_option (\<lambda>(v, d'). (CHR ''%'' # mini @ ms @ [c], v, d @ d', as)) (conv_arg c ms a)
      | _ \<Rightarrow> None)"

text \<open>The whole message: the text as \<^verbatim>\<open>printf\<close> would print it, and the saved bytes. The arguments are those of the format.\<close>

fun printf_text :: "render \<Rightarrow> (string \<times> conv) list \<Rightarrow> string \<Rightarrow> va list \<Rightarrow> (string \<times> char list) option" where
  "printf_text render [] tail as = Some (tail, [])"
| "printf_text render ((lit, cv) # segs) tail as =
     (case conv_print cv as of
        None \<Rightarrow> None
      | Some (mini, v, d, as) \<Rightarrow>
          if length mini < MINI_FORMAT_STR_LEN
          then map_option (\<lambda>(text, d'). (lit @ render mini v @ text, d @ d')) (printf_text render segs tail as)
          else None)"

section \<open>Saving\<close>

abbreviation ser_at :: "char list \<Rightarrow> char list \<Rightarrow> va list \<Rightarrow> u64 \<Rightarrow> bool \<Rightarrow> ser" where
  "ser_at P R as n prec \<equiv> \<lparr>ser_buf = P @ R, ser_loc = length P, ser_args = as, sformat_length = n, sformat_precision = prec\<rparr>"

lemma poke_at: "length cs \<le> length R \<Longrightarrow> poke (P @ R) (length P) cs = Some (P @ cs @ drop (length cs) R)"
  by (simp add: poke_def)

lemma ser_put_at:
  "n \<le> length R \<Longrightarrow> ser_put n v (ser_at P R as k prec) = Some (ser_at (P @ le_bytes n v) (drop n R) as k prec)"
  using poke_at[of "le_bytes n v" R P] by (simp add: ser_put_def)

lemma char_classes:
  "c \<in> set int_chars \<Longrightarrow> c \<notin> set flag_chars \<and> c \<noteq> CHR ''.'' \<and> \<not> is_digit c \<and> c \<noteq> CHR ''*'' \<and> c \<noteq> CHR ''l'' \<and> c \<notin> set ''ztj'' \<and> c \<notin> set ''csp'' \<and> c \<notin> set float_chars"
  "c \<in> set float_chars \<Longrightarrow> c \<notin> set flag_chars \<and> c \<noteq> CHR ''.'' \<and> \<not> is_digit c \<and> c \<noteq> CHR ''*'' \<and> c \<noteq> CHR ''l'' \<and> c \<notin> set ''ztj'' \<and> c \<notin> set int_chars \<and> c \<notin> set ''csp''"
  "c \<in> set ''csp'' \<Longrightarrow> c \<notin> set flag_chars \<and> c \<noteq> CHR ''.'' \<and> \<not> is_digit c \<and> c \<noteq> CHR ''*'' \<and> c \<noteq> CHR ''l'' \<and> c \<notin> set ''ztj'' \<and> c \<notin> set int_chars \<and> c \<notin> set float_chars"
  by (auto simp: int_chars_def float_chars_def flag_chars_def is_digit_def)

lemma ser_flags:
  assumes "list_all flag_ok fl" "expand fl as = Some (mini, d, as')" "length P + length d \<le> max_len" "max_len \<le> length (P @ R)"
  shows "\<exists>n' prec'. (CHR ''.'' \<notin> set fl \<and> \<not> prec \<longrightarrow> n' = n \<and> \<not> prec') \<and>
    ser_spec max_len l ll (fl @ rest) (ser_at P R as n prec) = ser_spec max_len l ll rest (ser_at (P @ d) (drop (length d) R) as' n' prec')"
  using assms
proof (induction fl arbitrary: as mini d P R n prec)
  case (Cons c fl)
  show ?case
  proof (cases "c = CHR ''*''")
    case True
    then obtain v as1 mini1 d1 where a: "as = VInt v # as1" "expand fl as1 = Some (mini1, d1, as')" "d = le_bytes 4 (unat v) @ d1"
      using Cons.prems(2) by (auto split: list.splits va.splits)
    have "ser_width max_len (ser_at P R as n prec) = Some (Inr (ser_at (P @ le_bytes 4 (unat v)) (drop 4 R) as1 n prec))"
      using a Cons.prems(3,4) by (simp add: ser_width_def next_arg_def ser_put_at)
    then have "ser_spec max_len l ll ((c # fl) @ rest) (ser_at P R as n prec) =
        ser_spec max_len l ll (fl @ rest) (ser_at (P @ le_bytes 4 (unat v)) (drop 4 R) as1 n prec)"
      using True by (simp add: ser_spec.simps(2) flag_chars_def is_digit_def)
    then show ?thesis
      using Cons.IH[OF _ a(2), of "P @ le_bytes 4 (unat v)" "drop 4 R" prec n] Cons.prems a True by (auto simp: add.commute)
  next
    case False
    then obtain mini1 where a: "expand fl as = Some (mini1, d, as')" using Cons.prems(2) by auto
    have ok: "list_all flag_ok fl" using Cons.prems(1) by simp
    show ?thesis
    proof (cases "c = CHR ''.''")
      case True
      then show ?thesis
        using Cons.IH[OF ok a Cons.prems(3,4), of True n] by (auto simp: ser_spec.simps(2) flag_chars_def)
    next
      case nodot: False
      show ?thesis
      proof (cases "c \<in> set flag_chars")
        case True
        then show ?thesis using Cons.IH[OF ok a Cons.prems(3,4), of prec n] nodot by (simp add: ser_spec.simps(2))
      next
        case noflag: False
        then have dig: "is_digit c" using Cons.prems(1) False nodot by (simp add: flag_ok_def)
        define n1 where "n1 = (if prec then n * 10 + of_nat (digit_value c) else n)"
        have "ser_spec max_len l ll ((c # fl) @ rest) (ser_at P R as n prec) = ser_spec max_len l ll (fl @ rest) (ser_at P R as n1 prec)"
          using noflag nodot dig by (simp add: ser_spec.simps(2) n1_def)
        then show ?thesis using Cons.IH[OF ok a Cons.prems(3,4), of prec n1] nodot by (auto simp: n1_def)
      qed
    qed
  qed
qed auto

definition after_conv :: "char \<Rightarrow> string \<Rightarrow> string" where
  "after_conv c rest = (if c \<in> set int_chars \<or> c \<in> set float_chars then rest else c # rest)"

lemma ser_int_at:
  assumes "va_bytes n a = Some v" "length P + n \<le> max_len" "max_len \<le> length (P @ R)"
  shows "ser_int max_len n fs (ser_at P R (a # as) k prec) = Some (Next fs (ser_at (P @ le_bytes n v) (drop n R) as k prec))"
  using assms by (simp add: ser_int_def next_arg_def ser_put_at)

lemma ser_string_at:
  assumes "k = 0" "length P + length src + 1 \<le> max_len" "max_len \<le> length (P @ R)" "src = (case s of None \<Rightarrow> ''(null)'' | Some s \<Rightarrow> s)"
  shows "ser_string max_len fs (ser_at P R (VStr s # as) k prec) =
    Some (Next fs (ser_at (P @ src @ [NUL]) (drop (length src + 1) R) as k prec))"
proof -
  have "my_strlcpy (P @ R) (length P) src (min (length src + 1) (size_minus max_len (length P))) =
      Some (length src, P @ (src @ [NUL]) @ drop (length src + 1) R)"
    using poke_at[of "src @ [NUL]" R P] assms by (simp add: my_strlcpy_def strlcpy_def size_minus_def)
  then show ?thesis using assms by (cases s) (simp_all add: ser_string_def next_arg_def)
qed

lemma ser_conv:
  assumes "conv_ok (Conv fl ms c)" "conv_arg c ms a = Some (v, d)" "length P + length d \<le> max_len" "max_len \<le> length (P @ R)"
    "c = CHR ''s'' \<Longrightarrow> k = 0"
  shows "ser_spec max_len False False (ms @ c # rest) (ser_at P R (a # as) k prec) =
    Some (Next (after_conv c rest) (ser_at (P @ d) (drop (length d) R) as k prec))"
proof -
  consider (int) "c \<in> set int_chars" "ms \<in> {'''', ''l'', ''ll'', ''z'', ''t'', ''j''}"
    | (float) "c \<in> set float_chars" "ms = []" | (other) "c \<in> set ''csp''" "ms = []"
    using assms(1) by auto
  then show ?thesis
  proof cases
    case int
    note cl = char_classes(1)[OF int(1)]
    have "\<exists>w. va_bytes (if ms = [] then 4 else 8) a = Some w \<and> d = le_bytes (if ms = [] then 4 else 8) w"
      using assms(2) int(1) cl by (cases a) (auto split: if_splits)
    then obtain w where dv: "va_bytes (if ms = [] then 4 else 8) a = Some w" "d = le_bytes (if ms = [] then 4 else 8) w" by blast
    have "ser_spec max_len l ll (c # rest) st = ser_int max_len (if l \<or> ll then 8 else 4) rest st" for l ll st
      using int cl by (simp add: ser_spec.simps(2))
    then have "ser_spec max_len False False (ms @ c # rest) st = ser_int max_len (if ms = [] then 4 else 8) rest st" for st
      using int(2) cl by (auto simp: ser_spec.simps(2) flag_chars_def is_digit_def)
    then show ?thesis
      using ser_int_at[OF dv(1), of P max_len R rest as k prec] dv(2) assms(3,4) int(1) by (simp add: after_conv_def)
  next
    case float
    note cl = char_classes(2)[OF float(1)]
    obtain w where w: "a = VDouble w" "d = le_bytes 8 (unat w)"
      using assms(2) float cl by (cases a) (auto split: if_splits)
    then show ?thesis
      using float cl assms(3,4) by (simp add: ser_spec.simps(2) ser_double_def next_arg_def ser_put_at after_conv_def)
  next
    case other
    note cl = char_classes(3)[OF other(1)]
    from other(1) consider "c = CHR ''c''" | "c = CHR ''s''" | "c = CHR ''p''" by auto
    then show ?thesis
    proof cases
      case 1
      obtain w where w: "a = VInt w" "d = le_bytes 1 (unat w mod 256)" using assms(2) 1 cl by (cases a) (auto split: if_splits)
      then show ?thesis using 1 other cl assms(3,4) by (simp add: ser_spec.simps(2) ser_char_def next_arg_def ser_put_at after_conv_def)
    next
      case 2
      obtain s where s: "a = VStr s" "d = (case s of None \<Rightarrow> ''(null)'' | Some s \<Rightarrow> s) @ [NUL]"
        using assms(2) 2 cl by (cases a) (auto simp: Let_def split: if_splits)
      then show ?thesis
        using 2 other cl assms(3-5) ser_string_at[OF _ _ assms(4) refl, of k s "c # rest" as prec]
        by (simp add: ser_spec.simps(2) after_conv_def)
    next
      case 3
      obtain w where w: "a = VPtr w" "d = le_bytes 8 (unat w)" using assms(2) 3 cl by (cases a) (auto split: if_splits)
      then show ?thesis using 3 other cl assms(3,4) by (simp add: ser_spec.simps(2) ser_pointer_def next_arg_def ser_put_at after_conv_def)
    qed
  qed
qed

text \<open>A whole conversion.\<close>

lemma ser_conv_print:
  assumes "conv_ok (Conv fl ms c)" "conv_print (Conv fl ms c) as = Some (mini, v, d, as')" "length P + length d \<le> max_len" "max_len \<le> length (P @ R)"
    "c = CHR ''s'' \<Longrightarrow> CHR ''.'' \<notin> set fl \<and> n = 0 \<and> \<not> prec"
  shows "\<exists>n' prec'. (CHR ''.'' \<notin> set fl \<and> n = 0 \<and> \<not> prec \<longrightarrow> n' = 0 \<and> \<not> prec') \<and>
    ser_spec max_len False False (fl @ ms @ c # rest) (ser_at P R as n prec) =
      Some (Next (after_conv c rest) (ser_at (P @ d) (drop (length d) R) as' n' prec'))"
proof -
  obtain mini1 d1 a d2 where e: "expand fl as = Some (mini1, d1, a # as')" "conv_arg c ms a = Some (v, d2)" "d = d1 @ d2"
    using assms(2) by (auto split: option.splits list.splits)
  obtain n' prec' where f: "CHR ''.'' \<notin> set fl \<and> \<not> prec \<longrightarrow> n' = n \<and> \<not> prec'"
    "ser_spec max_len False False (fl @ ms @ c # rest) (ser_at P R as n prec) =
      ser_spec max_len False False (ms @ c # rest) (ser_at (P @ d1) (drop (length d1) R) (a # as') n' prec')"
    using ser_flags[OF _ e(1), of P max_len R prec n False False "ms @ c # rest"] assms(1,3,4) e(3) by auto
  have "ser_spec max_len False False (ms @ c # rest) (ser_at (P @ d1) (drop (length d1) R) (a # as') n' prec') =
      Some (Next (after_conv c rest) (ser_at ((P @ d1) @ d2) (drop (length d2) (drop (length d1) R)) as' n' prec'))"
    by (rule ser_conv[OF assms(1) e(2)]) (use assms(3-5) e(3) f(1) in auto)
  then show ?thesis using f e(3) by (intro exI[of _ n'] exI[of _ prec']) (simp add: add.commute)
qed

lemma after_conv_pre: "conv_ok (Conv fl ms c) \<Longrightarrow> \<exists>pre. after_conv c rest = pre @ rest \<and> CHR ''%'' \<notin> set pre"
proof (cases "c \<in> set int_chars \<or> c \<in> set float_chars")
  case False
  assume "conv_ok (Conv fl ms c)"
  then have "c \<in> set ''csp''" using False by auto
  then show ?thesis using False by (intro exI[of _ "[c]"]) (auto simp: after_conv_def)
qed (auto simp: after_conv_def)

lemma ser_segs:
  assumes "segs_ok segs" "lit_ok tail" "printf_text render segs tail as = Some (tx, d)" "length P + length d \<le> max_len"
    "max_len \<le> length (P @ R)" "CHR ''%'' \<notin> set pre" "no_string segs \<or> n = 0 \<and> \<not> prec"
  shows "\<exists>st. ser_loop max_len (pre @ fmt_text segs tail) (ser_at P R as n prec) = Some (length P + length d, st) \<and>
    ser_buf st = P @ d @ drop (length d) R"
  using assms
proof (induction segs arbitrary: as tx d P R pre n prec)
  case Nil
  then have "strchrnul (pre @ tail) CHR ''%'' = []" by (simp add: strchrnul_none lit_ok_def)
  then show ?case using Nil by (simp add: ser_loop.simps)
next
  case (Cons seg segs)
  obtain lit fl ms c where seg: "seg = (lit, Conv fl ms c)" by (metis conv.exhaust surj_pair)
  obtain mini v d1 as1 text1 d2 where p: "conv_print (Conv fl ms c) as = Some (mini, v, d1, as1)"
    "printf_text render segs tail as1 = Some (text1, d2)" "d = d1 @ d2"
    using Cons.prems(3) seg by (auto split: option.splits if_splits simp del: conv_print.simps)
  have ok: "lit_ok lit" "conv_ok (Conv fl ms c)" "CHR ''.'' \<in> set fl \<longrightarrow> no_string (seg # segs)" "segs_ok segs"
    using Cons.prems(1) seg by (auto simp del: conv_ok.simps)
  let ?rest = "fmt_text segs tail"
  have sp: "strchrnul (pre @ fmt_text (seg # segs) tail) CHR ''%'' = CHR ''%'' # fl @ ms @ c # ?rest"
    using Cons.prems(6) ok(1) seg by (simp add: strchrnul_append lit_ok_def)
  obtain n' prec' where q: "CHR ''.'' \<notin> set fl \<and> n = 0 \<and> \<not> prec \<longrightarrow> n' = 0 \<and> \<not> prec'"
    "ser_spec max_len False False (fl @ ms @ c # ?rest) (ser_at P R as n prec) =
      Some (Next (after_conv c ?rest) (ser_at (P @ d1) (drop (length d1) R) as1 n' prec'))"
    using ser_conv_print[OF ok(2) p(1), of P max_len R n prec ?rest] Cons.prems(4,5,7) p(3) ok(3) seg by auto
  obtain pre' where pre': "after_conv c ?rest = pre' @ ?rest" "CHR ''%'' \<notin> set pre'" using after_conv_pre[OF ok(2)] by blast
  have "no_string segs \<or> n' = 0 \<and> \<not> prec'" using q(1) Cons.prems(7) ok(3) seg by auto
  then obtain st where st: "ser_loop max_len (pre' @ ?rest) (ser_at (P @ d1) (drop (length d1) R) as1 n' prec') = Some (length (P @ d1) + length d2, st)"
    "ser_buf st = (P @ d1) @ d2 @ drop (length d2) (drop (length d1) R)"
    using Cons.IH[OF ok(4) Cons.prems(2) p(2), of "P @ d1" "drop (length d1) R" pre' n' prec'] Cons.prems(4,5) p(3) pre'(2) by auto
  then show ?case
    using sp q(2) pre'(1) p(3) by (subst ser_loop.simps) (simp add: add.assoc add.commute)
qed

section \<open>Reading\<close>

abbreviation des_at :: "char list \<Rightarrow> char list \<Rightarrow> nat \<Rightarrow> des" where
  "des_at T S pos \<equiv> \<lparr>des_string = T @ S, des_loc = length T, des_pos = pos\<rparr>"

lemma peek_at: "peek (B @ d @ rest) (length B) (length d) = Some d"
  by (simp add: peek_def)

lemma des_value_at:
  "des_value n (B @ le_bytes n v @ rest) (des_at T S (length B)) = Some (v mod 256 ^ n)"
  using peek_at[of B "le_bytes n v" rest] by (simp add: des_value_def le_value_bytes)

lemma u32_mod: "unat (v :: u32) mod 256 ^ 4 = unat v"
  using unat_u32_less[of v] by simp

lemma u64_mod: "unat (v :: u64) mod 256 ^ 8 = unat v"
  using unat_u64_less[of v] by simp

lemma des_value_u32: "des_value 4 (B @ le_bytes 4 (unat (v :: u32)) @ rest) (des_at T S (length B)) = Some (unat v)"
  using des_value_at[of 4 B "unat v" rest T S] by (simp only: u32_mod)

lemma des_value_u64: "des_value 8 (B @ le_bytes 8 (unat (v :: u64)) @ rest) (des_at T S (length B)) = Some (unat v)"
  using des_value_at[of 8 B "unat v" rest T S] by (simp only: u64_mod)

text \<open>Printing a value: the text, with a zero behind it.\<close>

lemma des_print_at:
  assumes "length fmt + 2 \<le> MINI_FORMAT_STR_LEN" "tx = render (fmt @ [c]) v" "length T + length tx < str_len" "str_len \<le> length (T @ S)"
  shows "des_print render str_len fmt c v n (des_at T S pos) = Some (des_at (T @ tx) (NUL # drop (length tx + 1) S) (pos + n))"
proof -
  have "snprintf_text (T @ S) (length T) (size_minus str_len (length T)) tx = Some (length tx, T @ (tx @ [NUL]) @ drop (length tx + 1) S)"
    using assms(3,4) poke_at[of "tx @ [NUL]" S T] by (simp add: snprintf_text_def size_minus_def)
  then show ?thesis using assms(1,2) by (simp add: des_print_def mini_put_def)
qed

lemma des_flags:
  assumes "list_all flag_ok fl" "expand fl as = Some (mini, d, as')" "length fmt + length mini < MINI_FORMAT_STR_LEN"
  shows "des_spec render str_len (B @ d @ rest) l ll fmt (fl @ fs) (des_at T S (length B)) =
    des_spec render str_len (B @ d @ rest) l ll (fmt @ mini) fs (des_at T S (length (B @ d)))"
  using assms
proof (induction fl arbitrary: as mini d fmt B)
  case (Cons c fl)
  show ?case
  proof (cases "c = CHR ''*''")
    case True
    then obtain v as1 mini1 d1 where a: "as = VInt v # as1" "expand fl as1 = Some (mini1, d1, as')" "d = le_bytes 4 (unat v) @ d1"
      "mini = dec_int (sint v) @ mini1"
      using Cons.prems(2) by (auto split: list.splits va.splits)
    have "des_spec render str_len (B @ d @ rest) l ll fmt ((c # fl) @ fs) (des_at T S (length B)) =
        des_spec render str_len (B @ d @ rest) l ll (fmt @ dec_int (sint v)) (fl @ fs) (des_at T S (length B + 4))"
      using True a(3) des_value_u32[of B v "d1 @ rest" T S] by (simp add: des_spec.simps(2) flag_chars_def is_digit_def)
    then show ?thesis
      using Cons.IH[OF _ a(2), of "fmt @ dec_int (sint v)" "B @ le_bytes 4 (unat v)"] Cons.prems a by simp
  next
    case False
    then obtain mini1 where a: "expand fl as = Some (mini1, d, as')" "mini = c # mini1" using Cons.prems(2) by auto
    have "c \<in> set flag_chars \<or> c = CHR ''.'' \<or> is_digit c" using Cons.prems(1) False by (auto simp: flag_ok_def)
    then have "des_spec render str_len (B @ d @ rest) l ll fmt ((c # fl) @ fs) (des_at T S (length B)) =
        des_spec render str_len (B @ d @ rest) l ll (fmt @ [c]) (fl @ fs) (des_at T S (length B))"
      using Cons.prems(3) a(2) by (simp add: des_spec.simps(2) mini_put_def)
    then show ?thesis using Cons.IH[OF _ a(1), of "fmt @ [c]" B] Cons.prems a(2) by simp
  qed
qed simp

lemma des_mods:
  assumes "c \<in> set int_chars" "ms \<in> {'''', ''l'', ''ll'', ''z'', ''t'', ''j''}" "length fmt + length ms + 1 < MINI_FORMAT_STR_LEN"
  shows "\<exists>l ll. (l \<or> ll) = (ms \<noteq> []) \<and>
    des_spec render str_len buf False False fmt (ms @ c # fs) st = des_spec render str_len buf l ll (fmt @ ms) (c # fs) st"
proof -
  note cl = char_classes(1)[OF assms(1)]
  have l: "des_spec render str_len buf l ll fmt (CHR ''l'' # c # fs) st = des_spec render str_len buf True ll (fmt @ ''l'') (c # fs) st"
    if "length fmt < MINI_FORMAT_STR_LEN" for fmt l ll
    using that cl by (subst des_spec.simps(2)) (simp add: flag_chars_def is_digit_def mini_put_def)
  have z: "des_spec render str_len buf False False fmt (m # c # fs) st = des_spec render str_len buf False True (fmt @ [m]) (c # fs) st"
    if "m \<in> set ''ztj''" "length fmt < MINI_FORMAT_STR_LEN" for m
    using that by (auto simp: des_spec.simps(2)[of _ _ _ _ _ _ m] flag_chars_def is_digit_def mini_put_def)
  have "ms = '''' \<or> ms = ''l'' \<or> ms = ''ll'' \<or> ms = ''z'' \<or> ms = ''t'' \<or> ms = ''j''" using assms(2) by simp
  then show ?thesis
  proof (elim disjE)
    assume "ms = ''l''"
    then show ?thesis using l[of fmt False False] assms(3) by (intro exI[of _ True] exI[of _ False]) simp
  next
    assume ms: "ms = ''ll''"
    have "des_spec render str_len buf False False fmt (ms @ c # fs) st = des_spec render str_len buf False True (fmt @ ''l'') (CHR ''l'' # c # fs) st"
      using ms assms(3) by (simp add: des_spec.simps(2)[of _ _ _ _ _ _ _ "CHR ''l'' # c # fs"] flag_chars_def is_digit_def mini_put_def)
    then show ?thesis using ms l[of "fmt @ ''l''" False True] assms(3) by (intro exI[of _ True] exI[of _ True]) simp
  qed (use z assms(3) in \<open>auto intro: exI[of _ False]\<close>)
qed

lemma des_conv:
  assumes "conv_ok (Conv fl ms c)" "conv_arg c ms a = Some (v, d)" "length fmt + length ms + 2 \<le> MINI_FORMAT_STR_LEN"
    "tx = render (fmt @ ms @ [c]) v" "length T + length tx < str_len" "str_len \<le> length (T @ S)"
  shows "des_spec render str_len (B @ d @ rest) False False fmt (ms @ c # fs) (des_at T S (length B)) =
    Some (fs, des_at (T @ tx) (NUL # drop (length tx + 1) S) (length (B @ d)))"
proof -
  have pr: "des_print render str_len (fmt @ ms) c v n (des_at T S pos) = Some (des_at (T @ tx) (NUL # drop (length tx + 1) S) (pos + n))" for n pos
    using assms(3-6) by (intro des_print_at) auto
  consider (int) "c \<in> set int_chars" "ms \<in> {'''', ''l'', ''ll'', ''z'', ''t'', ''j''}"
    | (float) "c \<in> set float_chars" "ms = []" | (other) "c \<in> set ''csp''" "ms = []"
    using assms(1) by auto
  then show ?thesis
  proof cases
    case int
    note cl = char_classes(1)[OF int(1)]
    obtain l ll where l: "(l \<or> ll) = (ms \<noteq> [])"
      "des_spec render str_len (B @ d @ rest) False False fmt (ms @ c # fs) (des_at T S (length B)) =
       des_spec render str_len (B @ d @ rest) l ll (fmt @ ms) (c # fs) (des_at T S (length B))"
      using des_mods[OF int, of fmt render str_len "B @ d @ rest" fs "des_at T S (length B)"] assms(3) by auto
    let ?n = "if ms = [] then 4 else 8 :: nat"
    have d: "length d = ?n" using assms(2) int(1) cl by (cases a) (auto split: if_splits)
    have "\<exists>w. des_value ?n (B @ d @ rest) (des_at T S (length B)) = Some w \<and> int_va ?n w = v"
      using assms(2) int(1) cl des_value_u32[of B] des_value_u64[of B] by (cases a) (auto simp: int_va_def split: if_splits)
    then obtain w where w: "des_value ?n (B @ d @ rest) (des_at T S (length B)) = Some w" "int_va ?n w = v" by blast
    have "des_spec render str_len (B @ d @ rest) l ll (fmt @ ms) (c # fs) (des_at T S (length B)) =
        do { w \<leftarrow> des_value ?n (B @ d @ rest) (des_at T S (length B));
             st \<leftarrow> des_print render str_len (fmt @ ms) c (int_va ?n w) ?n (des_at T S (length B)); Some (fs, st) }"
      using int(1) cl l(1) by (subst des_spec.simps(2)) (simp add: Let_def)
    then show ?thesis using w pr[of ?n "length B"] l(2) d by simp
  next
    case float
    note cl = char_classes(2)[OF float(1)]
    obtain w where "v = VDouble w" "d = le_bytes 8 (unat w)" using assms(2) float cl by (cases a) (auto split: if_splits)
    then show ?thesis using float cl pr[of 8 "length B"] des_value_u64[of B w rest T S] by (simp add: des_spec.simps(2))
  next
    case other
    note cl = char_classes(3)[OF other(1)]
    from other(1) consider "c = CHR ''c''" | "c = CHR ''s''" | "c = CHR ''p''" by auto
    then show ?thesis
    proof cases
      case 1
      obtain w where "v = VInt (of_nat (unat w mod 256))" "d = le_bytes 1 (unat (w :: u32) mod 256)"
        using assms(2) 1 cl by (cases a) (auto split: if_splits)
      then show ?thesis using 1 other cl pr[of 1 "length B"] des_value_at[of 1 B "unat w mod 256" rest T S] by (simp add: des_spec.simps(2))
    next
      case 2
      obtain s where s: "v = VStr (Some s)" "d = s @ [NUL]" "NUL \<notin> set s"
        using assms(2) 2 cl by (cases a) (auto simp: Let_def split: if_splits)
      then show ?thesis
        using 2 other cl pr[of "length s + 1" "length B"] cstr_append[of s "length B" B rest] by (simp add: des_spec.simps(2))
    next
      case 3
      obtain w where "v = VPtr w" "d = le_bytes 8 (unat w)" using assms(2) 3 cl by (cases a) (auto split: if_splits)
      then show ?thesis using 3 other cl pr[of 8 "length B"] des_value_u64[of B w rest T S] by (simp add: des_spec.simps(2))
    qed
  qed
qed

lemma des_conv_print:
  assumes "conv_ok (Conv fl ms c)" "conv_print (Conv fl ms c) as = Some (mini, v, d, as')" "length mini < MINI_FORMAT_STR_LEN"
    "tx = render mini v" "length T + length tx < str_len" "str_len \<le> length (T @ S)"
  shows "des_spec render str_len (B @ d @ rest) False False ''%'' (fl @ ms @ c # fs) (des_at T S (length B)) =
    Some (fs, des_at (T @ tx) (NUL # drop (length tx + 1) S) (length (B @ d)))"
proof -
  obtain mini1 d1 a d2 where e: "expand fl as = Some (mini1, d1, a # as')" "conv_arg c ms a = Some (v, d2)" "d = d1 @ d2"
    "mini = CHR ''%'' # mini1 @ ms @ [c]"
    using assms(2) by (auto split: option.splits list.splits)
  have "des_spec render str_len (B @ d @ rest) False False ''%'' (fl @ ms @ c # fs) (des_at T S (length B)) =
      des_spec render str_len (B @ d @ rest) False False (''%'' @ mini1) (ms @ c # fs) (des_at T S (length (B @ d1)))"
    using des_flags[OF _ e(1), of "''%''" render str_len B "d2 @ rest" False False "ms @ c # fs" T S] assms(1,3) e(3,4) by simp
  also have "\<dots> = Some (fs, des_at (T @ tx) (NUL # drop (length tx + 1) S) (length (B @ d)))"
    using des_conv[OF assms(1) e(2), of "''%'' @ mini1" tx render T str_len S "B @ d1" rest fs] assms(3-6) e(3,4) by simp
  finally show ?thesis .
qed

lemma des_segs:
  assumes "segs_ok segs" "lit_ok tail" "printf_text render segs tail as = Some (tx, d)" "length T + length tx < str_len"
    "str_len \<le> length (T @ S)" "NUL \<notin> set T" "NUL \<notin> set tx" "hd S = NUL"
  shows "\<exists>s. des_loop render str_len (B @ d @ rest) (fmt_text segs tail) (des_at T S (length B)) = Some (length T + length tx + 1, s) \<and>
    cstr s 0 = Some (T @ tx)"
  using assms
proof (induction segs arbitrary: as tx d T S B)
  case Nil
  have tx: "tx = tail" using Nil.prems(3) by simp
  obtain S' where S: "S = NUL # S'" using Nil.prems by (cases S) auto
  have cur: "cstr (T @ S) 0 = Some T" using cstr_append[of T 0 "[]" S'] Nil.prems(6) S by simp
  have "my_strlcat (T @ S) 0 tail str_len = Some (length T + length tail, T @ (tail @ [NUL]) @ drop (length tail + 1) S)"
    using cur Nil.prems(4,5) tx poke_at[of "tail @ [NUL]" S T] by (simp add: my_strlcat_def strlcat_def strlcpy_def size_minus_def)
  moreover have "strchrnul tail CHR ''%'' = []" using Nil.prems(2) by (simp add: strchrnul_none lit_ok_def)
  ultimately show ?case
    using tx cstr_append[of "T @ tail" 0 "[]" "drop (length tail + 1) S"] Nil.prems(6,7) by (simp add: des_loop.simps)
next
  case (Cons seg segs)
  obtain lit fl ms c where seg: "seg = (lit, Conv fl ms c)" by (metis conv.exhaust surj_pair)
  obtain mini v d1 as1 tx1 d2 where p: "conv_print (Conv fl ms c) as = Some (mini, v, d1, as1)"
    "printf_text render segs tail as1 = Some (tx1, d2)" "d = d1 @ d2" "tx = lit @ render mini v @ tx1" "length mini < MINI_FORMAT_STR_LEN"
    using Cons.prems(3) seg by (auto split: option.splits if_splits simp del: conv_print.simps)
  have ok: "lit_ok lit" "conv_ok (Conv fl ms c)" "segs_ok segs" using Cons.prems(1) seg by (auto simp del: conv_ok.simps)
  let ?rest = "fmt_text segs tail" and ?r = "render mini v"
  have sp: "strchrnul (fmt_text (seg # segs) tail) CHR ''%'' = CHR ''%'' # fl @ ms @ c # ?rest"
    using ok(1) seg by (simp add: strchrnul_append lit_ok_def)
  have pk: "poke (T @ S) (length T) lit = Some ((T @ lit) @ drop (length lit) S)"
    using poke_at[of lit S T] Cons.prems(4,5) p(4) by simp
  have sp2: "des_spec render str_len (B @ d @ rest) False False ''%'' (fl @ ms @ c # ?rest) (des_at (T @ lit) (drop (length lit) S) (length B)) =
      Some (?rest, des_at ((T @ lit) @ ?r) (NUL # drop (length ?r + 1) (drop (length lit) S)) (length (B @ d1)))"
    using des_conv_print[OF ok(2) p(1,5) refl, where render = render and T = "T @ lit" and str_len = str_len and S = "drop (length lit) S"
        and B = B and rest = "d2 @ rest" and fs = ?rest] Cons.prems(4,5) p(3,4) by simp
  have "\<exists>s. des_loop render str_len ((B @ d1) @ d2 @ rest) ?rest (des_at ((T @ lit) @ ?r) (NUL # drop (length ?r + 1) (drop (length lit) S)) (length (B @ d1))) =
      Some (length ((T @ lit) @ ?r) + length tx1 + 1, s) \<and> cstr s 0 = Some (((T @ lit) @ ?r) @ tx1)"
    by (rule Cons.IH[OF ok(3) Cons.prems(2) p(2)]) (use Cons.prems(4-7) p(4) ok(1) in \<open>auto simp: lit_ok_def\<close>)
  moreover have "des_loop render str_len (B @ d @ rest) (fmt_text (seg # segs) tail) (des_at T S (length B)) =
      des_loop render str_len (B @ d @ rest) ?rest (des_at ((T @ lit) @ ?r) (NUL # drop (length ?r + 1) (drop (length lit) S)) (length (B @ d1)))"
    by (subst des_loop.simps) (use sp pk sp2 seg in \<open>simp add: Let_def\<close>)
  ultimately show ?case using p(3,4) by (simp add: add.assoc)
qed

section \<open>The round trip\<close>

lemma flag_plain: "flag_ok c \<Longrightarrow> c \<noteq> NUL \<and> c \<noteq> QB_XC"
  by (auto simp: flag_ok_def flag_chars_def is_digit_def)

lemma fmt_plain: "segs_ok segs \<Longrightarrow> lit_ok tail \<Longrightarrow> NUL \<notin> set (fmt_text segs tail) \<and> QB_XC \<notin> set (fmt_text segs tail)"
proof (induction segs)
  case (Cons seg segs)
  obtain lit fl ms c where seg: "seg = (lit, Conv fl ms c)" by (metis conv.exhaust surj_pair)
  have ok: "lit_ok lit" "conv_ok (Conv fl ms c)" "segs_ok segs" using Cons.prems(1) seg by (auto simp del: conv_ok.simps)
  have "NUL \<notin> set fl \<and> QB_XC \<notin> set fl" using ok(2) flag_plain by (auto simp: list_all_iff)
  moreover have "NUL \<notin> set ms \<and> QB_XC \<notin> set ms" using ok(2) by auto
  moreover have "c \<noteq> NUL \<and> c \<noteq> QB_XC" using ok(2) by (auto simp: int_chars_def float_chars_def)
  ultimately show ?case using Cons ok(1,3) seg by (auto simp: lit_ok_def)
qed (simp add: lit_ok_def)

lemma serialize_result:
  assumes "segs_ok segs" "lit_ok tail" "printf_text render segs tail args = Some (tx, data)"
    "length (fmt_text segs tail) + 1 + length data \<le> max_len" "max_len \<le> length buf"
  shows "\<exists>rest. qb_vsnprintf_serialize buf max_len (fmt_text segs tail) args =
    Some (length (fmt_text segs tail) + 1 + length data, fmt_text segs tail @ NUL # data @ rest) \<and>
    length (fmt_text segs tail @ NUL # data @ rest) = length buf"
proof -
  let ?f = "fmt_text segs tail"
  define R where "R = drop (length ?f + 1) buf"
  have "my_strlcpy buf 0 ?f max_len = Some (length ?f, (?f @ [NUL]) @ R)"
    using assms(4,5) by (simp add: my_strlcpy_def strlcpy_def size_minus_def R_def)
  moreover have "mark_extended ((?f @ [NUL]) @ R) = Some ((?f @ [NUL]) @ R)"
    using cstr_append[of ?f 0 "[]" R] fmt_plain[OF assms(1,2)] by (simp add: mark_extended_def)
  moreover have "max_len \<le> length ((?f @ [NUL]) @ R)" using assms(4,5) by (simp add: R_def)
  then obtain st where "ser_loop max_len ([] @ ?f) (ser_at (?f @ [NUL]) R args 0 False) = Some (length (?f @ [NUL]) + length data, st)"
    "ser_buf st = (?f @ [NUL]) @ data @ drop (length data) R"
    using ser_segs[OF assms(1-3), of "?f @ [NUL]" max_len R "[]" 0 False] assms(4) by auto
  ultimately show ?thesis
    using assms(4,5) by (intro exI[of _ "drop (length data) R"]) (simp add: qb_vsnprintf_serialize_def R_def)
qed

lemma deserialize_result:
  assumes "segs_ok segs" "lit_ok tail" "printf_text render segs tail args = Some (tx, data)"
    "length tx < str_len" "str_len \<le> length str" "NUL \<notin> set tx"
  shows "\<exists>s. qb_vsnprintf_deserialize render str str_len (fmt_text segs tail @ NUL # data @ rest) = Some (length tx + 1, s) \<and> cstr s 0 = Some tx"
proof -
  let ?f = "fmt_text segs tail"
  have c: "cstr (?f @ NUL # data @ rest) 0 = Some ?f"
    using cstr_append[of ?f 0 "[]" "data @ rest"] fmt_plain[OF assms(1,2)] by simp
  have "poke str 0 [NUL] = Some ([] @ NUL # drop 1 str)" using assms(4,5) by (cases str) (auto simp: poke_def)
  moreover have "str_len \<le> length ([] @ NUL # drop 1 str)" using assms(4,5) by simp
  then obtain s where "des_loop render str_len ((?f @ [NUL]) @ data @ rest) ?f (des_at [] (NUL # drop 1 str) (length (?f @ [NUL]))) =
      Some (length ([] :: string) + length tx + 1, s)" "cstr s 0 = Some ([] @ tx)"
    using des_segs[OF assms(1-3), of "[]" str_len "NUL # drop 1 str" "?f @ [NUL]" rest] assms(4,6) by auto
  ultimately show ?thesis using c by (intro exI[of _ s]) (simp add: qb_vsnprintf_deserialize_def)
qed

text \<open>What the library prints for the witnesses: decimal numbers and strings as they are.\<close>

fun plain_render :: render where
  "plain_render mini (VInt v) = dec_int (sint v)"
| "plain_render mini (VLong v) = dec_int (sint v)"
| "plain_render mini (VStr (Some s)) = s"
| "plain_render mini _ = ''?''"

text \<open>
  Formats for which it goes wrong. A percent sign in the text is saved but not read, and the letter behind it is taken
  for a conversion; a precision stays in force for the strings that follow; and a format that fills the buffer makes
  the second string be written behind its end.
\<close>

lemma percent_not_restored:
  "do { (n, b) \<leftarrow> qb_vsnprintf_serialize (replicate 40 NUL) 40 ''100%% of %d'' [VInt 7, VInt 8];
        (m, s) \<leftarrow> qb_vsnprintf_deserialize plain_render (replicate 40 NUL) 40 b; cstr s 0 } = Some ''100% of 1829''"
  by code_simp

lemma precision_not_reset:
  "do { (n, b) \<leftarrow> qb_vsnprintf_serialize (replicate 40 NUL) 40 ''%.2d %s'' [VInt 7, VStr (Some ''hello'')];
        (m, s) \<leftarrow> qb_vsnprintf_deserialize plain_render (replicate 40 NUL) 40 b; cstr s 0 } = Some ''7 he''"
  by code_simp

lemma serialize_overflow:
  assumes "CHR ''%'' \<notin> set lit" "lit_ok lit2" "NUL \<notin> set lit" "QB_XC \<notin> set (lit @ rest)" "NUL \<notin> set rest"
    "fmt = lit @ ''%s'' @ lit2 @ ''%s'' @ rest" "0 < max_len" "max_len \<le> length fmt" "length buf = max_len"
    "max_len + length s1 + 1 < 2 ^ 64"
  shows "qb_vsnprintf_serialize buf max_len fmt (VStr (Some s1) # VStr (Some s2) # args) = None"
proof -
  let ?F = "take (max_len - 1) fmt"
  have plain: "NUL \<notin> set fmt" "QB_XC \<notin> set fmt" using assms by (auto simp: lit_ok_def)
  then have plainF: "NUL \<notin> set ?F" "QB_XC \<notin> set ?F" by (meson in_set_takeD)+
  have F: "length ?F = max_len - 1" using assms(8) by simp
  have "my_strlcpy buf 0 fmt max_len = Some (max_len - 1, ?F @ [NUL])"
    using assms(7-9) F by (cases max_len) (simp_all add: my_strlcpy_def strlcpy_def size_minus_def min.absorb1 min.absorb2)
  moreover have "mark_extended (?F @ [NUL]) = Some (?F @ [NUL])"
    using cstr_append[of ?F 0 "[]" "[]"] plainF by (simp add: mark_extended_def)
  moreover define st where "st = \<lparr>ser_buf = ?F @ [NUL], ser_loc = max_len, ser_args = VStr (Some s1) # VStr (Some s2) # args, sformat_length = 0, sformat_precision = False\<rparr>"
  have s: "ser_spec max_len False False (CHR ''s'' # fs) st' = ser_string max_len (CHR ''s'' # fs) st'" for fs st'
    by (simp add: ser_spec.simps(2) flag_chars_def is_digit_def int_chars_def float_chars_def)
  have 1: "ser_string max_len fs st = Some (Next fs (st\<lparr>ser_args := VStr (Some s2) # args, ser_loc := Suc (max_len + length s1)\<rparr>))" for fs
    using assms(10) by (simp add: st_def ser_string_def next_arg_def my_strlcpy_def strlcpy_def size_minus_def)
  have 2: "ser_string max_len fs (st\<lparr>ser_args := VStr (Some s2) # args, ser_loc := Suc (max_len + length s1)\<rparr>) = None" for fs
    using assms(7,10) F by (simp add: st_def ser_string_def next_arg_def my_strlcpy_def strlcpy_def size_minus_def poke_def)
  have "strchrnul fmt CHR ''%'' = CHR ''%'' # CHR ''s'' # lit2 @ ''%s'' @ rest"
    using assms(1,6) by (simp add: strchrnul_append)
  moreover have "strchrnul (CHR ''s'' # lit2 @ ''%s'' @ rest) CHR ''%'' = CHR ''%'' # CHR ''s'' # rest"
    using assms(2) by (simp add: strchrnul_append lit_ok_def)
  ultimately have "ser_loop max_len fmt st = None"
    by (subst ser_loop.simps, simp add: s 1, subst ser_loop.simps, simp add: s 2)
  moreover have "max_len - 1 + 1 = max_len" using assms(7) by simp
  ultimately show ?thesis
    using \<open>my_strlcpy buf 0 fmt max_len = _\<close> \<open>mark_extended _ = _\<close> by (simp add: qb_vsnprintf_serialize_def st_def)
qed

section \<open>Properties\<close>



end
