(* ===== verification/Log_blackbox.thy ===== *)
theory Log_blackbox
  imports Ringbuffer_file Ringbuffer_close Log_roundtrip
begin

text \<open>
  The black box (\<^verbatim>\<open>lib/log_blackbox.c\<close>): a log target that keeps the last messages in a ring buffer in
  overwrite mode, can be dumped to a file and printed from it. An entry is the call site, the time and the saved form of the
  message (\<^verbatim>\<open>qb_vsnprintf_serialize\<close>). The bytes of the ring buffer are words of eight bits, those of the log functions
  characters. A result \<open>None\<close> is an access outside of a buffer, or a failed assertion. Structures are those of 64-bit Linux:
  \<^verbatim>\<open>time_t\<close> has eight bytes and \<^verbatim>\<open>struct timespec\<close> sixteen.
\<close>

section \<open>State\<close>

definition QB_LOG_MAX_LEN :: nat where "QB_LOG_MAX_LEN = 512"

definition BB_MIN_ENTRY_SIZE :: nat where "BB_MIN_ENTRY_SIZE = 4 * 4 + 1 + 2 * 1 + 8"

abbreviation EIO :: int where "EIO \<equiv> 5"

record timespec =
  tv_sec :: u64
  tv_nsec :: u64

record 's bb_target = qb_log_target +
  t_filename :: string
  t_size :: u64
  t_instance :: "'s qb_ringbuffer option"

definition bytes_of :: "string \<Rightarrow> u8 list" where
  "bytes_of s = map (\<lambda>c. of_nat (of_char c)) s"

definition chars_of :: "u8 list \<Rightarrow> string" where
  "chars_of bs = map (\<lambda>b. char_of (unat b)) bs"

section \<open>Logging\<close>

definition too_long_text :: string where
  "too_long_text = ''Log message too long to be stored in the blackbox.  Maximum is QB_LOG_MAX_LEN''"

text \<open>What is written into the allocated chunk \<open>b\<close>; the result has the size of the entry.\<close>

definition blackbox_entry :: "qb_log_callsite \<Rightarrow> timespec \<Rightarrow> nat \<Rightarrow> va list \<Rightarrow> char list \<Rightarrow> (nat \<times> char list) option" where
  "blackbox_entry cs timestamp max_line_length ap b =
     (let fn_size = length (cs_function cs) + 1;
          msg_len_pt = 29 + fn_size;
          chunk = msg_len_pt + 4
      in do { b \<leftarrow> poke b 0 (le_bytes 4 (unat (cs_lineno cs)));
              b \<leftarrow> poke b 4 (le_bytes 4 (unat (cs_tags cs)));
              b \<leftarrow> poke b 8 (le_bytes 1 (unat (cs_priority cs)));
              b \<leftarrow> poke b 9 (le_bytes 4 fn_size);
              b \<leftarrow> poke b 13 (cs_function cs @ [NUL]);
              b \<leftarrow> poke b (13 + fn_size) (le_bytes 8 (unat (tv_sec timestamp)) @ le_bytes 8 (unat (tv_nsec timestamp)));
              (msg_len, m) \<leftarrow> qb_vsnprintf_serialize (drop chunk b) max_line_length (cs_format cs) ap;
              (msg_len, m) \<leftarrow> (if msg_len \<ge> max_line_length then qb_vsnprintf_serialize m QB_LOG_MAX_LEN too_long_text ap
                               else Some (msg_len, m));
              b \<leftarrow> poke (take chunk b @ m) msg_len_pt (le_bytes 4 msg_len);
              Some (chunk + msg_len, b) })"

text \<open>
  Log a message. When no chunk can be allocated the black box is closed for good; the first component of the result are
  the files that this removes.
\<close>

definition blackbox_vlogger ::
    "rb_close_env \<Rightarrow> qb_log_callsite \<Rightarrow> timespec \<Rightarrow> va list \<Rightarrow> 's bb_target \<Rightarrow> ((string \<times> string) list \<times> 's bb_target) option" where
  "blackbox_vlogger cenv cs timestamp ap t =
     (case t_instance t of
        None \<Rightarrow> Some ([], t)
      | Some rb \<Rightarrow>
          let fn_size = length (cs_function cs) + 1;
              max_size = 4 * 4 + 1 + fn_size + 16 + t_max_line_length t;
              (chunk, rb) = rb_chunk_alloc rb (of_nat max_size)
          in case chunk of
               None \<Rightarrow>
                 let (ret, instance) = qb_rb_lastref_and_ret (Some rb)
                 in do { (files, _) \<leftarrow> qb_rb_close cenv ret; Some (files, t\<lparr>t_instance := instance\<rparr>) }
             | Some d \<Rightarrow>
                 do { (actual_size, b) \<leftarrow> blackbox_entry cs timestamp (t_max_line_length t) ap (chars_of (rb_memcpy_out rb d max_size));
                      Some ([], t\<lparr>t_instance := Some (snd (rb_chunk_commit (rb_memcpy_in rb d (bytes_of b)) (of_nat actual_size)))\<rparr>) })"

section \<open>Opening and closing\<close>

definition PATH_MAX :: nat where "PATH_MAX = 4096"

definition BB_FLAGS :: u32 where "BB_FLAGS = QB_RB_FLAG_CREATE OR QB_RB_FLAG_OVERWRITE"

definition blackbox_reload ::
    "rb_close_env \<Rightarrow> rb_os_env \<Rightarrow> ('s qb_ringbuffer \<Rightarrow> u32 \<Rightarrow> int \<times> 's qb_ringbuffer) \<Rightarrow> 's qb_ringbuffer \<Rightarrow> 's bb_target \<Rightarrow>
     (string \<times> string) list \<times> 's bb_target" where
  "blackbox_reload cenv env sem_create mapped t =
     (case qb_rb_close cenv (t_instance t) of
        None \<Rightarrow> ([], t)
      | Some (files, _) \<Rightarrow>
          (files, t\<lparr>t_instance := (case qb_rb_open env sem_create mapped (t_size t) BB_FLAGS of Inl _ \<Rightarrow> None | Inr rb \<Rightarrow> Some rb)\<rparr>))"

definition blackbox_close :: "rb_close_env \<Rightarrow> 's bb_target \<Rightarrow> (string \<times> string) list \<times> 's bb_target" where
  "blackbox_close cenv t =
     (let (ret, instance) = qb_rb_lastref_and_ret (t_instance t)
      in (case qb_rb_close cenv ret of None \<Rightarrow> [] | Some (files, _) \<Rightarrow> files, t\<lparr>t_instance := instance\<rparr>))"

definition qb_log_blackbox_open ::
    "rb_os_env \<Rightarrow> ('s qb_ringbuffer \<Rightarrow> u32 \<Rightarrow> int \<times> 's qb_ringbuffer) \<Rightarrow> 's qb_ringbuffer \<Rightarrow> int \<Rightarrow> 's bb_target \<Rightarrow> int \<times> 's bb_target" where
  "qb_log_blackbox_open env sem_create mapped pid t =
     (if t_size t < 1024 then (- EINVAL, t)
      else
        let t = t\<lparr>t_filename := take (PATH_MAX - 1) (t_name t @ ''-'' @ dec_int pid @ ''-blackbox'')\<rparr>
        in case qb_rb_open env sem_create mapped (t_size t) BB_FLAGS of
             Inl e \<Rightarrow> (- e, t\<lparr>t_instance := None\<rparr>)
           | Inr rb \<Rightarrow> (0, t\<lparr>t_instance := Some rb\<rparr>))"

section \<open>The file\<close>

record blackbox_file_header =
  h_word_size :: nat
  h_read_pt :: nat
  h_write_pt :: nat
  h_version :: nat
  h_hash :: nat

definition QB_BLACKBOX_HEADER :: blackbox_file_header where
  "QB_BLACKBOX_HEADER = \<lparr>h_word_size = 0, h_read_pt = 0xCCBBCCBB, h_write_pt = 0xBBCCBBCC, h_version = 2, h_hash = 0\<rparr>"

definition header_bytes :: "blackbox_file_header \<Rightarrow> u8 list" where
  "header_bytes h = bytes_of (le_bytes 4 (h_word_size h) @ le_bytes 4 (h_read_pt h) @ le_bytes 4 (h_write_pt h) @ le_bytes 4 (h_version h) @ le_bytes 4 (h_hash h))"

text \<open>
  The first \<^verbatim>\<open>write\<close> is that of the header; its result is compared with a \<^verbatim>\<open>size_t\<close>, so that an error is not a short write.
\<close>

definition qb_log_blackbox_write_to_file :: "int \<times> int \<Rightarrow> (nat \<Rightarrow> int \<times> int) \<Rightarrow> 's bb_target \<Rightarrow> int" where
  "qb_log_blackbox_write_to_file open_rc fd_write t =
     (if fst open_rc < 0 then - snd open_rc
      else
        let written_size = fst (fd_write 0)
        in if 0 \<le> written_size \<and> written_size < 20 then written_size
           else case t_instance t of
                  Some rb \<Rightarrow> written_size + qb_rb_write_to_file (Some rb) (\<lambda>k. fd_write (Suc k))
                | None \<Rightarrow> - ENOENT)"

text \<open>The content of the file when every \<^verbatim>\<open>write\<close> is complete.\<close>

definition blackbox_file :: "'s qb_ringbuffer \<Rightarrow> u8 list" where
  "blackbox_file rb = header_bytes QB_BLACKBOX_HEADER @ rb_file rb"

section \<open>Printing\<close>

text \<open>
  The time of an entry, \<^verbatim>\<open>strftime\<close> with the format \<^verbatim>\<open>%b %d %T\<close> and the milliseconds, or the seconds when \<^verbatim>\<open>localtime\<close> fails.
\<close>

definition bb_time :: "(u64 \<Rightarrow> tm option) \<Rightarrow> u64 \<Rightarrow> nat \<Rightarrow> string" where
  "bb_time localtime sec nsec =
     (case localtime sec of
        Some tm \<Rightarrow> take 63 (time_text tm @ ''.'' @ pad0 3 (nsec div 1000000))
      | None \<Rightarrow> dec_int (sint sec))"

text \<open>Newlines and zeros at the end of the message are dropped; the first character stays.\<close>

fun strip_end :: "char list \<Rightarrow> nat \<Rightarrow> char list" where
  "strip_end message 0 = message"
| "strip_end message (Suc n) =
     (if message ! Suc n = CHR 0x0A \<or> message ! Suc n = NUL then strip_end (message[Suc n := NUL]) n else message)"

text \<open>\<^verbatim>\<open>%-7s %s %s(%u):%u: %s\<close>\<close>

definition bb_line :: "u8 \<Rightarrow> string \<Rightarrow> string \<Rightarrow> nat \<Rightarrow> nat \<Rightarrow> string \<Rightarrow> string" where
  "bb_line priority tm function lineno tags message =
     (let p = qb_log_priority2str priority
      in p @ replicate (7 - length p) CHR '' '' @ '' '' @ tm @ '' '' @ function @ ''('' @ dec_nat lineno @ ''):'' @ dec_nat tags @ '': '' @ message)"

text \<open>
  One entry: the line that is printed, or the complaint with the error that ends the function. \<open>chunk\<close> is the whole buffer of the reader, \<open>bytes_read\<close> the
  size of the entry, \<open>message\<close> the local array of \<open>QB_LOG_MAX_LEN\<close> characters.
\<close>

definition bb_print_entry ::
    "(u64 \<Rightarrow> tm option) \<Rightarrow> render \<Rightarrow> bool \<Rightarrow> char list \<Rightarrow> char list \<Rightarrow> nat \<Rightarrow> (string \<times> int + string) option" where
  "bb_print_entry localtime render have_timespecs message chunk bytes_read =
     do { lineno \<leftarrow> peek chunk 0 4;
          tags \<leftarrow> peek chunk 4 4;
          priority \<leftarrow> peek chunk 8 1;
          size \<leftarrow> peek chunk 9 4;
          let fn_size = le_value size;
          if fn_size + BB_MIN_ENTRY_SIZE > bytes_read
          then Some (Inl (''ERROR Corrupt file: fn_size way too big '' @ dec_nat fn_size, - EIO))
          else if fn_size = 0 then Some (Inl (''ERROR Corrupt file: fn_size negative '' @ dec_nat fn_size, - EIO))
          else do {
            sec \<leftarrow> peek chunk (13 + fn_size) 8;
            nsec \<leftarrow> (if have_timespecs then map_option le_value (peek chunk (21 + fn_size) 8) else Some 0);
            let ptr = (if have_timespecs then 29 + fn_size else 21 + fn_size);
            mlen \<leftarrow> peek chunk ptr 4;
            let msg_len = le_value mlen;
            if msg_len > QB_LOG_MAX_LEN \<or> msg_len = 0
            then Some (Inl (''ERROR Corrupt file: msg_len out of bounds '' @ dec_nat msg_len, - EIO))
            else do {
              (len, message) \<leftarrow> qb_vsnprintf_deserialize render message QB_LOG_MAX_LEN (drop (ptr + 4) chunk);
              if len = 0 then None
              else do {
                message \<leftarrow> poke message len [NUL];
                function \<leftarrow> cstr chunk 13;
                text \<leftarrow> cstr (strip_end message (len - 1)) 0;
                Some (Inr (bb_line (of_nat (le_value priority)) (bb_time localtime (of_nat (le_value sec)) nsec) function
                             (le_value lineno) (le_value tags) text)) } } } }"

lemma rb_chunk_read_magic_words:
  assumes "rb_chunk_read rb len timeout = Some (n, Some d, rb')"
  shows "card (magic_words (shared_data rb')) < card (magic_words (shared_data rb))"
proof -
  obtain res rb1 where w: "rb_wait rb timeout = Some (res, rb1)"
    using assms by (auto simp: rb_chunk_read_def split: option.splits)
  have m: "shared_data rb1 = shared_data rb" using w by (auto simp: rb_wait_def split: option.splits)
  have r: "rb' = snd (rb_chunk_reclaim rb1)" "QB_RB_CHUNK_MAGIC_GET rb1 (read_pt rb1) = QB_RB_CHUNK_MAGIC"
    using assms w by (auto simp: rb_chunk_read_def Let_def split: if_splits)
  show ?thesis using rb_chunk_reclaim_magic_words'[OF r(2)] m r(1) by simp
qed

text \<open>The loop over the entries: what is printed, the error, and the ring buffer for the clean up.\<close>

function bb_print_loop ::
    "(u64 \<Rightarrow> tm option) \<Rightarrow> render \<Rightarrow> bool \<Rightarrow> char list \<Rightarrow> char list \<Rightarrow> 's qb_ringbuffer \<Rightarrow> (string list \<times> int \<times> 's qb_ringbuffer) option" where
  "bb_print_loop localtime render have_timespecs message chunk rb =
     (case rb_chunk_read rb (of_nat (2 * QB_LOG_MAX_LEN)) 0 of
        None \<Rightarrow> None
      | Some (bytes_read, data, rb) \<Rightarrow>
          if 0 \<le> bytes_read \<and> bytes_read < int BB_MIN_ENTRY_SIZE
          then Some ([''ERROR Corrupt file: blackbox header too small.''], - 1, rb)
          else if bytes_read < 0 then Some ([], - EIO, rb)
          else (case data of
                  None \<Rightarrow> None
                | Some d \<Rightarrow>
                    let chunk = chars_of d @ drop (length d) chunk
                    in case bb_print_entry localtime render have_timespecs message chunk (nat bytes_read) of
                         None \<Rightarrow> None
                       | Some (Inl (e, err)) \<Rightarrow> Some ([e], err, rb)
                       | Some (Inr l) \<Rightarrow>
                           if bytes_read > int BB_MIN_ENTRY_SIZE
                           then map_option (\<lambda>(ls, err, rb). (l # ls, err, rb)) (bb_print_loop localtime render have_timespecs message chunk rb)
                           else Some ([l], 20, rb)))"
  by pat_completeness auto
termination
  by (relation "measure (\<lambda>(localtime, render, have_timespecs, message, chunk, rb). card (magic_words (shared_data rb)))")
    (auto dest: rb_chunk_read_magic_words)

declare bb_print_loop.simps [simp del]

text \<open>
  Print a file. \<open>open_errno\<close> is zero when the file can be opened, \<open>err_no\<close> the value of \<^verbatim>\<open>errno\<close> after a short read; \<open>chunk\<close> is what \<^verbatim>\<open>malloc\<close> gives. The last
  component of the result are the files that closing the ring buffer removes. Without memory the function returns the size of the header, which
  is still in \<^verbatim>\<open>err\<close>.
\<close>

definition qb_log_blackbox_print_from_file ::
    "rb_os_env \<Rightarrow> ('s qb_ringbuffer \<Rightarrow> u32 \<Rightarrow> int \<times> 's qb_ringbuffer) \<Rightarrow> 's qb_ringbuffer \<Rightarrow> rb_close_env \<Rightarrow>
     (u64 \<Rightarrow> tm option) \<Rightarrow> render \<Rightarrow> int \<Rightarrow> int \<Rightarrow> char list option \<Rightarrow> char list \<Rightarrow> u8 list \<Rightarrow>
     (string list \<times> int \<times> (string \<times> string) list) option" where
  "qb_log_blackbox_print_from_file env sem_create blank cenv localtime render open_errno err_no chunk message file =
     (if open_errno \<noteq> 0 then Some ([], - open_errno, [])
      else
        let (header, rest) = file_read file 20
        in if length header < 20 then Some ([], - err_no, [])
           else
             let have_timespecs = (header = header_bytes QB_BLACKBOX_HEADER);
                 rest = (if have_timespecs then rest else file)
             in case rb_load env sem_create blank (length file) rest of
                  LoadNull \<Rightarrow> Some ([], - EIO, [])
                | LoadAbort \<Rightarrow> None
                | LoadOk rb \<Rightarrow>
                    do { (ls, err, rb) \<leftarrow> (case chunk of
                                            None \<Rightarrow> Some ([], 20, rb)
                                          | Some c \<Rightarrow> bb_print_loop localtime render have_timespecs message c rb);
                         (files, _) \<leftarrow> qb_rb_close cenv (Some rb);
                         Some (ls, err, files) })"

section \<open>Entries\<close>

lemma chars_of_bytes [simp]: "chars_of (bytes_of s) = s"
proof -
  have "char_of (unat (of_nat (of_char c) :: u8)) = c" for c
  proof -
    have "(of_char c :: nat) < 256" by simp
    then have "unat (of_nat (of_char c) :: u8) = of_char c" by (simp add: unat_of_nat)
    then show ?thesis by simp
  qed
  then show ?thesis by (simp add: chars_of_def bytes_of_def map_idI)
qed

lemma bytes_length [simp]: "length (bytes_of s) = length s" "length (chars_of b) = length b"
  by (simp_all add: bytes_of_def chars_of_def)

lemma take_bytes: "take n (bytes_of s) = bytes_of (take n s)"
  by (simp add: bytes_of_def take_map)

text \<open>The bytes of an entry with the saved message \<open>msg\<close>.\<close>

definition entry_head :: "qb_log_callsite \<Rightarrow> timespec \<Rightarrow> string" where
  "entry_head cs ts =
     le_bytes 4 (unat (cs_lineno cs)) @ le_bytes 4 (unat (cs_tags cs)) @ le_bytes 1 (unat (cs_priority cs)) @
     le_bytes 4 (length (cs_function cs) + 1) @ (cs_function cs @ [NUL]) @ le_bytes 8 (unat (tv_sec ts)) @ le_bytes 8 (unat (tv_nsec ts))"

definition entry_chars :: "qb_log_callsite \<Rightarrow> timespec \<Rightarrow> string \<Rightarrow> string" where
  "entry_chars cs ts msg = entry_head cs ts @ le_bytes 4 (length msg) @ msg"

lemma entry_length [simp]: "length (entry_head cs ts) = 30 + length (cs_function cs)"
  "length (entry_chars cs ts msg) = 34 + length (cs_function cs) + length msg"
  by (simp_all add: entry_head_def entry_chars_def)

text \<open>Consecutive writes.\<close>

lemma poke_next: "n = length P \<Longrightarrow> length cs \<le> length R \<Longrightarrow> poke (P @ R) n cs = Some ((P @ cs) @ drop (length cs) R)"
  by (simp add: poke_at)

lemma blackbox_entry_result:
  assumes b: "length b = 34 + length (cs_function cs) + max_len"
    and ser: "\<And>m. length m = max_len \<Longrightarrow> \<exists>rest. qb_vsnprintf_serialize m max_len (cs_format cs) ap = Some (length msg, msg @ rest) \<and> length (msg @ rest) = max_len"
    and short: "length msg < max_len"
  shows "\<exists>rest. blackbox_entry cs ts max_len ap b = Some (length (entry_chars cs ts msg), entry_chars cs ts msg @ rest) \<and>
    length (entry_chars cs ts msg @ rest) = length b"
proof -
  let ?n = "length (cs_function cs)"
  define H where "H = entry_head cs ts"
  define R where "R = drop (30 + ?n) b"
  have lR: "length R = 4 + max_len" using b by (simp add: R_def)
  obtain rest where m: "qb_vsnprintf_serialize (drop 4 R) max_len (cs_format cs) ap = Some (length msg, msg @ rest)" "length (msg @ rest) = max_len"
    using ser[of "drop 4 R"] lR by auto
  have d: "drop (34 + ?n) (H @ R) = drop 4 R" "take (34 + ?n) (H @ R) = H @ take 4 R" by (simp_all add: H_def)
  have "poke ((H @ take 4 R) @ msg @ rest) (30 + ?n) (le_bytes 4 (length msg)) = Some (entry_chars cs ts msg @ rest)"
    using poke_next[of "30 + ?n" H "le_bytes 4 (length msg)" "take 4 R @ msg @ rest"] lR by (simp add: H_def entry_chars_def)
  then have tail: "(do { (msg_len, m) \<leftarrow> qb_vsnprintf_serialize (drop (34 + ?n) (H @ R)) max_len (cs_format cs) ap;
      (msg_len, m) \<leftarrow> (if msg_len \<ge> max_len then qb_vsnprintf_serialize m QB_LOG_MAX_LEN too_long_text ap else Some (msg_len, m));
      b \<leftarrow> poke (take (34 + ?n) (H @ R) @ m) (30 + ?n) (le_bytes 4 msg_len);
      Some (34 + ?n + msg_len, b) }) = Some (length (entry_chars cs ts msg), entry_chars cs ts msg @ rest)"
    unfolding d m(1) using short by simp
  have "blackbox_entry cs ts max_len ap b = Some (length (entry_chars cs ts msg), entry_chars cs ts msg @ rest)"
  proof -
    let ?P1 = "le_bytes 4 (unat (cs_lineno cs))" let ?P2 = "?P1 @ le_bytes 4 (unat (cs_tags cs))"
    let ?P3 = "?P2 @ le_bytes 1 (unat (cs_priority cs))" let ?P4 = "?P3 @ le_bytes 4 (?n + 1)"
    let ?P5 = "?P4 @ cs_function cs @ [NUL]"
    have "poke b 0 ?P1 = Some (?P1 @ drop 4 b)" using poke_next[of 0 "[]" ?P1 b] b by simp
    moreover have "poke (?P1 @ drop 4 b) 4 (le_bytes 4 (unat (cs_tags cs))) = Some (?P2 @ drop 8 b)"
      using poke_next[of 4 ?P1 "le_bytes 4 (unat (cs_tags cs))" "drop 4 b"] b by simp
    moreover have "poke (?P2 @ drop 8 b) 8 (le_bytes 1 (unat (cs_priority cs))) = Some (?P3 @ drop 9 b)"
      using poke_next[of 8 ?P2 "le_bytes 1 (unat (cs_priority cs))" "drop 8 b"] b by simp
    moreover have "poke (?P3 @ drop 9 b) 9 (le_bytes 4 (?n + 1)) = Some (?P4 @ drop 13 b)"
      using poke_next[of 9 ?P3 "le_bytes 4 (?n + 1)" "drop 9 b"] b by simp
    moreover have "poke (?P4 @ drop 13 b) 13 (cs_function cs @ [NUL]) = Some (?P5 @ drop (14 + ?n) b)"
      using poke_next[of 13 ?P4 "cs_function cs @ [NUL]" "drop 13 b"] b by (simp add: ac_simps)
    moreover have "poke (?P5 @ drop (14 + ?n) b) (14 + ?n) (le_bytes 8 (unat (tv_sec ts)) @ le_bytes 8 (unat (tv_nsec ts))) = Some (H @ R)"
      using poke_next[of "14 + ?n" ?P5 "le_bytes 8 (unat (tv_sec ts)) @ le_bytes 8 (unat (tv_nsec ts))" "drop (14 + ?n) b"] b
      by (simp add: H_def R_def entry_head_def ac_simps)
    ultimately show ?thesis
      using tail unfolding blackbox_entry_def Let_def by (simp add: ac_simps)
  qed
  moreover have "length (entry_chars cs ts msg @ rest) = length b" using b m(2) by simp
  ultimately show ?thesis by blast
qed

section \<open>Logging a message\<close>

text \<open>A call of a log function: the call site, the time, the format in its parts and the arguments.\<close>

record log_msg =
  m_site :: qb_log_callsite
  m_time :: timespec
  m_segs :: "(string \<times> conv) list"
  m_tail :: string
  m_args :: "va list"

definition msg_text :: "render \<Rightarrow> log_msg \<Rightarrow> string" where
  "msg_text render m = fst (the (printf_text render (m_segs m) (m_tail m) (m_args m)))"

definition msg_saved :: "render \<Rightarrow> log_msg \<Rightarrow> string" where
  "msg_saved render m = fmt_text (m_segs m) (m_tail m) @ NUL # snd (the (printf_text render (m_segs m) (m_tail m) (m_args m)))"

definition msg_entry :: "render \<Rightarrow> log_msg \<Rightarrow> u8 list" where
  "msg_entry render m = bytes_of (entry_chars (m_site m) (m_time m) (msg_saved render m))"

text \<open>The messages that the black box with lines of at most \<open>max_len\<close> characters keeps in full.\<close>

definition loggable :: "render \<Rightarrow> nat \<Rightarrow> log_msg \<Rightarrow> bool" where
  "loggable render max_len m \<longleftrightarrow>
     segs_ok (m_segs m) \<and> lit_ok (m_tail m) \<and> cs_format (m_site m) = fmt_text (m_segs m) (m_tail m) \<and>
     printf_text render (m_segs m) (m_tail m) (m_args m) \<noteq> None \<and> length (msg_saved render m) < max_len"

definition chunk_size :: "nat \<Rightarrow> log_msg \<Rightarrow> nat" where
  "chunk_size max_len m = 34 + length (cs_function (m_site m)) + max_len"

lemma msg_entry_length: "length (msg_entry render m) = 34 + length (cs_function (m_site m)) + length (msg_saved render m)"
  by (simp add: msg_entry_def)

lemma loggable_entry:
  assumes "loggable render max_len m" "length b = chunk_size max_len m"
  shows "\<exists>rest. blackbox_entry (m_site m) (m_time m) max_len (m_args m) b =
    Some (length (msg_entry render m), entry_chars (m_site m) (m_time m) (msg_saved render m) @ rest) \<and>
    length (entry_chars (m_site m) (m_time m) (msg_saved render m) @ rest) = length b"
proof -
  obtain tx data where p: "printf_text render (m_segs m) (m_tail m) (m_args m) = Some (tx, data)"
    using assms(1) by (auto simp: loggable_def)
  have s: "msg_saved render m = fmt_text (m_segs m) (m_tail m) @ NUL # data" by (simp add: msg_saved_def p)
  have "\<exists>rest. qb_vsnprintf_serialize b' max_len (cs_format (m_site m)) (m_args m) = Some (length (msg_saved render m), msg_saved render m @ rest) \<and>
      length (msg_saved render m @ rest) = max_len" if "length b' = max_len" for b'
    using serialize_result[of "m_segs m" "m_tail m" render "m_args m" tx data max_len b'] assms(1) p that
    by (auto simp: loggable_def s)
  then show ?thesis
    using blackbox_entry_result[of b "m_site m" max_len "m_args m" "msg_saved render m" "m_time m"] assms
    by (simp add: loggable_def chunk_size_def msg_entry_def)
qed

lemma rb_chunk_alloc_over:
  assumes "flag_set (flags rb) QB_RB_FLAG_OVERWRITE" "rb_reclaim_for rb len = (True, rb')"
  shows "rb_chunk_alloc rb len = (Some (QB_RB_CHUNK_DATA_GET rb' (write_pt rb')), rb_alloc_header rb')"
  using assms by (auto simp: rb_chunk_alloc_def Let_def rb_alloc_header_def QB_RB_CHUNK_DATA_GET_def QB_RB_CHUNK_MAGIC_SET_def shd_put_def)

lemma blackbox_vlogger_rep:
  assumes inst: "t_instance t = Some rb" and rep: "rb_rep rb cs" and over: "flag_set (flags rb) QB_RB_FLAG_OVERWRITE"
    and cnt: "rb_count_ok rb cs (chunk_size (t_max_line_length t) m)" and size: "chunk_size (t_max_line_length t) m + 12 \<le> 4 * unat (word_size rb)"
    and log: "loggable render (t_max_line_length t) m"
  shows "\<exists>k rb'. blackbox_vlogger cenv (m_site m) (m_time m) (m_args m) t = Some ([], t\<lparr>t_instance := Some rb'\<rparr>) \<and>
    rb_rep rb' (drop k cs @ [msg_entry render m]) \<and> k \<le> length cs \<and>
    word_size rb' = word_size rb \<and> flags rb' = flags rb \<and> notifier rb' = notifier rb"
proof -
  let ?M = "t_max_line_length t" let ?n = "chunk_size ?M m"
  have u: "unat (of_nat ?n :: u64) = ?n"
    using size rb_rep_geometry(2)[OF rep] by (simp add: unat_of_nat)
  obtain k rb1 where k: "rb_reclaim_for rb (of_nat ?n) = (True, rb1)" "rb_rep rb1 (drop k cs)" "rb_same_shape rb rb1"
    "rb_fits rb (drop k cs) ?n" "k \<le> length cs"
    using rb_reclaim_for_counted[OF rep, of "of_nat ?n"] cnt size u by auto
  let ?d = "QB_RB_CHUNK_DATA_GET rb1 (write_pt rb1)" let ?a = "rb_alloc_header rb1"
  have al: "rb_chunk_alloc rb (of_nat ?n) = (Some ?d, ?a)" by (rule rb_chunk_alloc_over[OF over k(1)])
  define b where "b = chars_of (rb_memcpy_out ?a ?d ?n)"
  have "length b = ?n" by (simp add: b_def rb_memcpy_out_def)
  then obtain rest where e: "blackbox_entry (m_site m) (m_time m) ?M (m_args m) b =
      Some (length (msg_entry render m), entry_chars (m_site m) (m_time m) (msg_saved render m) @ rest)"
    "length (entry_chars (m_site m) (m_time m) (msg_saved render m) @ rest) = ?n"
    using loggable_entry[OF log, of b] by auto
  let ?data = "bytes_of (entry_chars (m_site m) (m_time m) (msg_saved render m) @ rest)"
  have "take (length (msg_entry render m)) ?data = msg_entry render m" by (simp add: take_bytes msg_entry_def)
  moreover have "length (msg_entry render m) \<le> length ?data" by (simp add: msg_entry_length)
  moreover have "rb_fits rb1 (drop k cs) (length ?data)" using k(4) rb_fits_shape[OF k(3)] e(2) by simp
  ultimately have "rb_rep (snd (rb_chunk_commit (rb_memcpy_in ?a ?d ?data) (of_nat (length (msg_entry render m))))) (drop k cs @ [msg_entry render m])"
    using rb_fill_rep[OF k(2), of ?data "length (msg_entry render m)"] by simp
  moreover have "blackbox_vlogger cenv (m_site m) (m_time m) (m_args m) t =
      Some ([], t\<lparr>t_instance := Some (snd (rb_chunk_commit (rb_memcpy_in ?a ?d ?data) (of_nat (length (msg_entry render m)))))\<rparr>)"
  proof -
    have n: "4 * 4 + 1 + (length (cs_function (m_site m)) + 1) + 16 + ?M = ?n" by (simp add: chunk_size_def)
    show ?thesis unfolding blackbox_vlogger_def inst option.case Let_def n al prod.case using e(1) by (simp add: b_def)
  qed
  ultimately show ?thesis
    using k(3,5) by (intro exI[of _ k] exI conjI) (assumption | simp add: rb_chunk_commit_fields rb_memcpy_in_def rb_same_shape_def)+
qed

text \<open>A sequence of log calls.\<close>

fun log_all :: "rb_close_env \<Rightarrow> log_msg list \<Rightarrow> 's bb_target \<Rightarrow> 's bb_target option" where
  "log_all cenv [] t = Some t"
| "log_all cenv (m # ms) t =
     do { (_, t) \<leftarrow> blackbox_vlogger cenv (m_site m) (m_time m) (m_args m) t; log_all cenv ms t }"

text \<open>The black box holds exactly the messages \<open>ms\<close>. The limit on the sizes is that two chunks fit into the ring buffer.\<close>

definition bb_fits :: "'s qb_ringbuffer \<Rightarrow> nat \<Rightarrow> bool" where
  "bb_fits rb n \<longleftrightarrow> 2 * n + 27 \<le> 4 * unat (word_size rb)"

definition bb_holds :: "render \<Rightarrow> 's bb_target \<Rightarrow> 's qb_ringbuffer \<Rightarrow> log_msg list \<Rightarrow> bool" where
  "bb_holds render t rb ms \<longleftrightarrow>
     t_instance t = Some rb \<and> rb_rep rb (map (msg_entry render) ms) \<and> flag_set (flags rb) QB_RB_FLAG_OVERWRITE \<and>
     space_used_fn (notifier rb) = None \<and> reclaim_fn (notifier rb) = None \<and> (ms = [] \<longrightarrow> \<not> rb_q_len_pos rb) \<and>
     list_all (\<lambda>m. bb_fits rb (length (msg_entry render m))) ms"

lemma bb_count_ok:
  assumes "bb_holds render t rb ms" "bb_fits rb n"
  shows "rb_count_ok rb (map (msg_entry render) ms) n"
proof -
  have "rb_fits rb [last (map (msg_entry render) ms)] n" if "ms \<noteq> []"
  proof -
    have "bb_fits rb (length (msg_entry render (last ms)))" using assms(1) that by (simp add: bb_holds_def list_all_iff)
    then have "n + length (msg_entry render (last ms)) + 27 \<le> 4 * unat (word_size rb)"
      using assms(2) by (simp add: bb_fits_def)
    then show ?thesis
      using chunk_words_le[of "length (msg_entry render (last ms))"] that by (simp add: rb_fits_def free_words_def last_map)
  qed
  then show ?thesis using assms(1) by (auto simp: rb_count_ok_def bb_holds_def)
qed

lemma log_one:
  assumes h: "bb_holds render t rb es" and log: "loggable render (t_max_line_length t) m" and fits: "bb_fits rb (chunk_size (t_max_line_length t) m)"
  shows "\<exists>k rb'. blackbox_vlogger cenv (m_site m) (m_time m) (m_args m) t = Some ([], t\<lparr>t_instance := Some rb'\<rparr>) \<and>
    k \<le> length es \<and> bb_holds render (t\<lparr>t_instance := Some rb'\<rparr>) rb' (drop k es @ [m]) \<and> word_size rb' = word_size rb"
proof -
  have "chunk_size (t_max_line_length t) m + 12 \<le> 4 * unat (word_size rb)" using fits by (simp add: bb_fits_def)
  then obtain k rb' where k: "blackbox_vlogger cenv (m_site m) (m_time m) (m_args m) t = Some ([], t\<lparr>t_instance := Some rb'\<rparr>)"
    "rb_rep rb' (drop k (map (msg_entry render) es) @ [msg_entry render m])" "k \<le> length (map (msg_entry render) es)"
    "word_size rb' = word_size rb" "flags rb' = flags rb" "notifier rb' = notifier rb"
    using blackbox_vlogger_rep[of t rb "map (msg_entry render) es" m render cenv] h bb_count_ok[OF h fits] log by (auto simp: bb_holds_def)
  have "length (msg_entry render m) \<le> chunk_size (t_max_line_length t) m" using log by (simp add: msg_entry_length chunk_size_def loggable_def)
  then have "bb_fits rb' (length (msg_entry render m))" using fits by (simp add: bb_fits_def k(4))
  moreover have "list_all (\<lambda>m. bb_fits rb' (length (msg_entry render m))) (drop k es)"
    using h by (auto simp: bb_holds_def list_all_iff bb_fits_def k(4) dest: in_set_dropD)
  ultimately have "bb_holds render (t\<lparr>t_instance := Some rb'\<rparr>) rb' (drop k es @ [m])"
    using h k by (simp add: bb_holds_def drop_map)
  then show ?thesis using k by auto
qed

section \<open>Printing an entry\<close>

text \<open>What is left of the text of a message.\<close>

fun strip_text :: "string \<Rightarrow> string" where
  "strip_text tx = (if 1 < length tx \<and> last tx = CHR 0x0A then strip_text (butlast tx) else tx)"

declare strip_text.simps [simp del]

lemma cstr_start: "NUL \<notin> set s \<Longrightarrow> cstr (s @ NUL # rest) 0 = Some s"
  using cstr_append[of s 0 "[]" rest] by simp

lemma strip_end_at_end: "strip_end (s @ NUL # rest) (length s) = (case length s of 0 \<Rightarrow> s @ NUL # rest | Suc n \<Rightarrow> strip_end (s @ NUL # rest) n)"
proof (cases "length s")
  case (Suc n)
  have e: "(s @ NUL # rest) ! Suc n = NUL" using nth_append_length[of s NUL rest] Suc by simp
  show ?thesis unfolding Suc nat.case strip_end.simps e by (metis e list_update_id)
qed simp

lemma strip_end_text: "NUL \<notin> set s \<Longrightarrow> cstr (strip_end (s @ NUL # rest) (length s)) 0 = Some (strip_text s)"
proof (induction s arbitrary: rest rule: rev_induct)
  case Nil
  then show ?case using cstr_start[of "[]" rest] by (simp add: strip_text.simps)
next
  case (snoc c s)
  show ?case
  proof (cases s)
    case Nil
    then have "strip_text (s @ [c]) = s @ [c]" by (simp add: strip_text.simps)
    then show ?thesis
      using cstr_start[OF snoc.prems, of rest] Nil strip_end_at_end[of "s @ [c]" rest] by (simp del: strip_end.simps(2))
  next
    case (Cons a s')
    then obtain q where q: "length s = Suc q" by simp
    have s1: "strip_end ((s @ [c]) @ NUL # rest) (length (s @ [c])) = strip_end ((s @ [c]) @ NUL # rest) (Suc q)"
      by (subst strip_end_at_end) (simp add: q del: strip_end.simps)
    have nth: "((s @ [c]) @ NUL # rest) ! Suc q = c" using nth_append_length[of s c "NUL # rest"] q by simp
    show ?thesis
    proof (cases "c = CHR 0x0A")
      case True
      have "((s @ [c]) @ NUL # rest)[Suc q := NUL] = s @ NUL # NUL # rest"
        using list_update_length[of s c "NUL # rest" NUL] q by simp
      moreover have "strip_end (s @ NUL # NUL # rest) q = strip_end (s @ NUL # NUL # rest) (length s)"
        by (subst strip_end_at_end[of s]) (simp add: q del: strip_end.simps)
      ultimately have "strip_end ((s @ [c]) @ NUL # rest) (Suc q) = strip_end (s @ NUL # NUL # rest) (length s)"
        using nth True by simp
      moreover have "strip_text (s @ [c]) = strip_text s" using True Cons by (subst strip_text.simps) simp
      ultimately show ?thesis using s1 snoc.IH[of "NUL # rest"] snoc.prems by simp
    next
      case False
      then have "strip_end ((s @ [c]) @ NUL # rest) (Suc q) = (s @ [c]) @ NUL # rest"
        using nth snoc.prems by auto
      moreover have "strip_text (s @ [c]) = s @ [c]" using False by (subst strip_text.simps) simp
      ultimately show ?thesis using s1 cstr_start[OF snoc.prems, of rest] by simp
    qed
  qed
qed

text \<open>Reading a message back does not change the size of the output.\<close>

lemma des_print_size: "des_print render n fmt c v k st = Some st' \<Longrightarrow> length (des_string st') = length (des_string st)"
  by (auto simp: des_print_def snprintf_text_def dest!: poke_length split: bind_splits if_splits)

lemma des_spec_size: "des_spec render n buf l ll fmt fs st = Some (fs', st') \<Longrightarrow> length (des_string st') = length (des_string st)"
proof (induction fs arbitrary: l ll fmt st)
  case (Cons c fs)
  from Cons(2) show ?case
    by (subst (asm) des_spec.simps(2))
      (auto simp: Let_def dest!: des_print_size poke_length split: if_splits option.splits bind_splits dest: Cons(1))
qed simp

lemma my_strlcat_size: "my_strlcat b d src n = Some (k, b') \<Longrightarrow> length b' = length b"
  by (auto simp: my_strlcat_def strlcat_def strlcpy_def Let_def dest!: poke_length split: bind_splits if_splits)

lemma des_loop_size: "des_loop render n buf fs st = Some (k, s) \<Longrightarrow> length s = length (des_string st)"
proof (induction "length fs" arbitrary: fs st rule: less_induct)
  case less
  show ?case
  proof (cases "strchrnul fs CHR ''%''")
    case Nil
    then show ?thesis using less.prems by (subst (asm) des_loop.simps) (auto split: bind_splits dest: my_strlcat_size)
  next
    case (Cons p fs1)
    let ?lit = "take (length fs - length (p # fs1)) fs"
    obtain s1 fs2 st2 where s: "poke (des_string st) (des_loc st) ?lit = Some s1"
      "des_spec render n buf False False [p] fs1 (st\<lparr>des_string := s1, des_loc := des_loc st + length ?lit\<rparr>) = Some (fs2, st2)"
      "des_loop render n buf fs2 st2 = Some (k, s)"
      using less.prems Cons by (subst (asm) des_loop.simps) (auto simp: Let_def split: option.splits)
    have "length fs2 < length fs"
      using des_spec_length[OF s(2)] strchrnul_length[of fs "CHR ''%''"] Cons by simp
    from less.hyps[OF this s(3)] show ?thesis
      using des_spec_size[OF s(2)] poke_length[OF s(1)] by simp
  qed
qed

lemma deserialize_size: "qb_vsnprintf_deserialize render str n buf = Some (k, s) \<Longrightarrow> length s = length str"
  by (auto simp: qb_vsnprintf_deserialize_def dest!: des_loop_size poke_length split: bind_splits)

text \<open>The messages that can be printed, and the line of one.\<close>

definition printable :: "render \<Rightarrow> log_msg \<Rightarrow> bool" where
  "printable render m \<longleftrightarrow>
     segs_ok (m_segs m) \<and> lit_ok (m_tail m) \<and> printf_text render (m_segs m) (m_tail m) (m_args m) \<noteq> None \<and>
     NUL \<notin> set (msg_text render m) \<and> length (msg_text render m) < 511 \<and> NUL \<notin> set (cs_function (m_site m)) \<and>
     length (msg_saved render m) \<le> QB_LOG_MAX_LEN \<and> length (msg_entry render m) \<le> 2 * QB_LOG_MAX_LEN"

definition msg_line :: "(u64 \<Rightarrow> tm option) \<Rightarrow> render \<Rightarrow> log_msg \<Rightarrow> string" where
  "msg_line localtime render m =
     (let cs = m_site m
      in bb_line (cs_priority cs) (bb_time localtime (tv_sec (m_time m)) (unat (tv_nsec (m_time m)))) (cs_function cs)
           (unat (cs_lineno cs)) (unat (cs_tags cs)) (strip_text (msg_text render m)))"

lemma peek_field: "n = length P \<Longrightarrow> k = length d \<Longrightarrow> peek (P @ d @ R) n k = Some d"
  by (simp add: peek_at)

lemma entry_fields:
  fixes cs ts msg rest
  defines "n \<equiv> length (cs_function cs)" and "c \<equiv> entry_chars cs ts msg @ rest"
  shows "peek c 0 4 = Some (le_bytes 4 (unat (cs_lineno cs)))" "peek c 4 4 = Some (le_bytes 4 (unat (cs_tags cs)))"
    "peek c 8 1 = Some (le_bytes 1 (unat (cs_priority cs)))" "peek c 9 4 = Some (le_bytes 4 (n + 1))"
    "peek c (14 + n) 8 = Some (le_bytes 8 (unat (tv_sec ts)))" "peek c (22 + n) 8 = Some (le_bytes 8 (unat (tv_nsec ts)))"
    "peek c (30 + n) 4 = Some (le_bytes 4 (length msg))" "drop (34 + n) c = msg @ rest"
    "NUL \<notin> set (cs_function cs) \<Longrightarrow> cstr c 13 = Some (cs_function cs)"
proof -
  let ?l = "le_bytes 4 (unat (cs_lineno cs))" let ?t = "le_bytes 4 (unat (cs_tags cs))" let ?p = "le_bytes 1 (unat (cs_priority cs))"
  let ?s = "le_bytes 4 (n + 1)" let ?f = "cs_function cs @ [NUL]"
  let ?x = "le_bytes 8 (unat (tv_sec ts))" let ?y = "le_bytes 8 (unat (tv_nsec ts))" let ?m = "le_bytes 4 (length msg)"
  have c: "c = ?l @ ?t @ ?p @ ?s @ ?f @ ?x @ ?y @ ?m @ msg @ rest" by (simp add: c_def entry_chars_def entry_head_def n_def)
  show "peek c 0 4 = Some ?l" using peek_field[of 0 "[]" 4 ?l] by (simp add: c)
  show "peek c 4 4 = Some ?t" using peek_field[of 4 ?l 4 ?t] by (simp add: c)
  show "peek c 8 1 = Some ?p" using peek_field[of 8 "?l @ ?t" 1 ?p] by (simp add: c)
  show "peek c 9 4 = Some ?s" using peek_field[of 9 "?l @ ?t @ ?p" 4 ?s] by (simp add: c)
  show "peek c (14 + n) 8 = Some ?x" using peek_field[of "14 + n" "?l @ ?t @ ?p @ ?s @ ?f" 8 ?x] by (simp add: c n_def)
  show "peek c (22 + n) 8 = Some ?y" using peek_field[of "22 + n" "?l @ ?t @ ?p @ ?s @ ?f @ ?x" 8 ?y] by (simp add: c n_def)
  show "peek c (30 + n) 4 = Some ?m" using peek_field[of "30 + n" "?l @ ?t @ ?p @ ?s @ ?f @ ?x @ ?y" 4 ?m] by (simp add: c n_def)
  have "length (entry_head cs ts @ ?m) = 34 + n" by (simp add: n_def)
  then show "drop (34 + n) c = msg @ rest" by (simp add: c_def entry_chars_def flip: append_assoc)
  show "cstr c 13 = Some (cs_function cs)" if "NUL \<notin> set (cs_function cs)"
    using cstr_append[OF that, of 13 "?l @ ?t @ ?p @ ?s"] by (simp add: c)
qed

lemma u8_mod: "unat (p :: u8) mod 256 = unat p"
proof -
  have "unat p < 2 ^ LENGTH(8)" by (rule unsigned_less)
  then show ?thesis by simp
qed

lemma le_value_word:
  "le_value (le_bytes 4 (unat (v :: u32))) = unat v" "le_value (le_bytes 8 (unat (w :: u64))) = unat w"
  "n < 4294967296 \<Longrightarrow> le_value (le_bytes 4 n) = n"
  by (simp_all add: le_value_bytes unat_u32_less unat_u64_less)

lemma print_entry_line:
  assumes ok: "printable render m" and msg: "length message = QB_LOG_MAX_LEN"
  shows "bb_print_entry localtime render True message (entry_chars (m_site m) (m_time m) (msg_saved render m) @ rest) (length (msg_entry render m)) =
    Some (Inr (msg_line localtime render m))"
proof -
  let ?cs = "m_site m" let ?n = "length (cs_function ?cs)" let ?c = "entry_chars ?cs (m_time m) (msg_saved render m) @ rest"
  note f = entry_fields[of ?cs "m_time m" "msg_saved render m" rest]
  obtain tx data where p: "printf_text render (m_segs m) (m_tail m) (m_args m) = Some (tx, data)" using ok by (auto simp: printable_def)
  have s: "msg_saved render m = fmt_text (m_segs m) (m_tail m) @ NUL # data" and tx: "msg_text render m = tx"
    by (simp_all add: msg_saved_def msg_text_def p)
  have ok': "segs_ok (m_segs m)" "lit_ok (m_tail m)" "length tx < QB_LOG_MAX_LEN" "QB_LOG_MAX_LEN \<le> length message" "NUL \<notin> set tx"
    using ok msg by (auto simp: printable_def tx QB_LOG_MAX_LEN_def)
  obtain str where str: "qb_vsnprintf_deserialize render message QB_LOG_MAX_LEN (msg_saved render m @ rest) = Some (length tx + 1, str)" "cstr str 0 = Some tx"
    using deserialize_result[OF ok'(1,2) p ok'(3-5), of rest] by (auto simp: s)
  have len: "length str = 512" using deserialize_size[OF str(1)] msg by (simp add: QB_LOG_MAX_LEN_def)
  obtain r where r: "str = tx @ NUL # r"
  proof -
    have "NUL \<in> set str" "takeWhile (\<lambda>c. c \<noteq> NUL) str = tx" using str(2) by (auto simp: cstr_def split: if_splits)
    then obtain ys zs where "str = ys @ NUL # zs" "NUL \<notin> set ys" using split_list_first[of NUL str] by auto
    moreover from this have "cstr str 0 = Some ys" by (simp add: cstr_start)
    ultimately show ?thesis using that str(2) by simp
  qed
  have "length tx + 1 < 512" using ok by (simp add: printable_def tx)
  then obtain r' where r': "poke str (length tx + 1) [NUL] = Some (tx @ NUL # r')"
    using poke_next[of "length tx + 1" "tx @ [NUL]" "[NUL]" r] len by (auto simp: r)
  have fs: "le_value (le_bytes 4 (?n + 1)) = ?n + 1" "le_value (le_bytes 4 (length (msg_saved render m))) = length (msg_saved render m)"
    using ok by (auto simp: printable_def QB_LOG_MAX_LEN_def msg_entry_length intro!: le_value_word(3))
  have "\<not> ?n + 1 + BB_MIN_ENTRY_SIZE > length (msg_entry render m)" by (simp add: BB_MIN_ENTRY_SIZE_def msg_entry_length)
  moreover have "\<not> (length (msg_saved render m) > QB_LOG_MAX_LEN \<or> length (msg_saved render m) = 0)"
    using ok by (simp add: printable_def msg_saved_def)
  moreover have fn: "cstr ?c 13 = Some (cs_function ?cs)" using f(9) ok by (simp add: printable_def)
  moreover have pos: "13 + (?n + 1) = 14 + ?n" "21 + (?n + 1) = 22 + ?n" "29 + (?n + 1) = 30 + ?n" "30 + ?n + 4 = 34 + ?n" by simp_all
  moreover note tail = strip_end_text[OF ok'(5), of r']
  ultimately show ?thesis
    unfolding bb_print_entry_def Let_def f(1-4) bind.bind_lunit fs
    by (simp add: f str(1) r'[simplified] le_value_word fs msg_line_def Let_def tx tail fn u8_mod del: drop_append)
qed

section \<open>Printing the file\<close>

lemma reclaim_no_new_magic:
  assumes "QB_RB_CHUNK_MAGIC_GET rb (read_pt rb) = QB_RB_CHUNK_MAGIC" "mem32_get (shared_data rb) i \<noteq> QB_RB_CHUNK_MAGIC"
  shows "mem32_get (shared_data (snd (rb_chunk_reclaim rb))) i \<noteq> QB_RB_CHUNK_MAGIC"
proof -
  let ?k = "unat ((read_pt rb + 1) mod word_size rb) mod unat (word_size rb)" let ?r = "unat (read_pt rb) mod unat (word_size rb)"
  consider "i = ?k" | "i \<noteq> ?k" "i = ?r" | "i \<noteq> ?k" "i \<noteq> ?r" by blast
  then show ?thesis using assms(2)
    by cases (simp_all add: rb_chunk_reclaim_memory[OF assms(1)] mem_simps rb_magic_defs)
qed

text \<open>The word behind the newest chunk, where the loop looks for another one, does not look like the start of a chunk.\<close>

definition rb_ends :: "'s qb_ringbuffer \<Rightarrow> bool" where
  "rb_ends rb \<longleftrightarrow> QB_RB_CHUNK_MAGIC_GET rb (write_pt rb) \<noteq> QB_RB_CHUNK_MAGIC"

lemma print_loop_lines:
  assumes "rb_rep rb (map (msg_entry render) ms)" "notifier rb = no_notifier" "rb_ends rb" "list_all (printable render) ms"
    "length message = QB_LOG_MAX_LEN"
  shows "\<exists>rb'. bb_print_loop localtime render True message chunk rb = Some (map (msg_line localtime render) ms, - EIO, rb') \<and>
    data_path rb' = data_path rb \<and> hdr_path rb' = hdr_path rb \<and> flags rb' = flags rb"
  using assms(1-4)
proof (induction ms arbitrary: rb chunk)
  case Nil
  have w: "rb_wait rb 0 = Some (0, rb)" using Nil(2) by (simp add: rb_wait_def no_notifier_def)
  have "write_pt rb = read_pt rb" using rb_rep_geometry(3,6)[OF Nil(1)] by (simp add: word_unat_eq_iff)
  then have "QB_RB_CHUNK_MAGIC_GET rb (read_pt rb) \<noteq> QB_RB_CHUNK_MAGIC" using Nil(3) by (simp add: rb_ends_def)
  then have "rb_chunk_read rb (of_nat (2 * QB_LOG_MAX_LEN)) 0 = Some (- ETIMEDOUT, None, rb)"
    using Nil(2) by (simp add: rb_chunk_read_def w no_notifier_def)
  then show ?case by (simp add: bb_print_loop.simps[of localtime render True message chunk rb])
next
  case (Cons m ms)
  let ?c = "msg_entry render m" let ?rb = "snd (rb_chunk_reclaim rb)"
  have rep: "rb_rep rb (?c # map (msg_entry render) ms)" using Cons.prems(1) by simp
  have pr: "printable render m" using Cons.prems(4) by simp
  note h = rb_head_chunk[OF rep]
  note fld = rb_chunk_reclaim_fields[OF h(1)]
  have w: "rb_wait rb 0 = Some (0, rb\<lparr>inst := inst rb\<rparr>)" using Cons.prems(2) by (simp add: rb_wait_def no_notifier_def)
  have "length ?c \<le> 1024" using pr by (simp add: printable_def QB_LOG_MAX_LEN_def)
  then have rd: "rb_chunk_read rb (of_nat (2 * QB_LOG_MAX_LEN)) 0 = Some (int (length ?c), Some ?c, ?rb)"
    using rb_chunk_read_head[OF rep w refl, of "of_nat (2 * QB_LOG_MAX_LEN)"] by (simp add: QB_LOG_MAX_LEN_def)
  have big: "length ?c > BB_MIN_ENTRY_SIZE" by (simp add: msg_entry_length BB_MIN_ENTRY_SIZE_def)
  define chunk' where "chunk' = chars_of ?c @ drop (length ?c) chunk"
  have line: "bb_print_entry localtime render True message chunk' (length ?c) = Some (Inr (msg_line localtime render m))"
    using print_entry_line[OF pr assms(5), of localtime "drop (length ?c) chunk"]
    unfolding chunk'_def by (simp only: msg_entry_def chars_of_bytes)
  have "rb_rep ?rb (map (msg_entry render) ms)" by (rule rb_chunk_reclaim_rep[OF rep])
  moreover have "rb_ends ?rb"
    using reclaim_no_new_magic[OF h(1)] Cons.prems(3) fld by (simp add: rb_ends_def QB_RB_CHUNK_MAGIC_GET_def shd_get_def)
  moreover have "notifier ?rb = no_notifier" using fld(4) Cons.prems(2) by simp
  ultimately obtain rb' where IH: "bb_print_loop localtime render True message chunk' ?rb = Some (map (msg_line localtime render) ms, - EIO, rb')"
    "data_path rb' = data_path ?rb" "hdr_path rb' = hdr_path ?rb" "flags rb' = flags ?rb"
    using Cons.IH[of ?rb chunk'] Cons.prems(4) by auto
  have "bb_print_loop localtime render True message chunk rb = Some (map (msg_line localtime render) (m # ms), - EIO, rb')"
    unfolding bb_print_loop.simps[of localtime render True message chunk rb] rd option.case prod.case
    using big by (simp add: chunk'_def[symmetric] line IH(1))
  moreover have "data_path ?rb = data_path rb" "hdr_path ?rb = hdr_path rb"
    using h(1) by (auto simp: rb_chunk_reclaim_def Let_def shd_put_def QB_RB_CHUNK_MAGIC_SET_def split: option.splits prod.splits)
  ultimately show ?case using IH(2-4) fld(3) by auto
qed

lemma header_read: "file_read (blackbox_file rb) 20 = (header_bytes QB_BLACKBOX_HEADER, rb_file rb)" "length (header_bytes QB_BLACKBOX_HEADER) = 20"
  by (simp_all add: file_read_def blackbox_file_def header_bytes_def)

lemma print_entry_full:
  assumes "length (cs_function cs) < 4294967295" "0 < length msg" "length msg \<le> QB_LOG_MAX_LEN"
    and "qb_vsnprintf_deserialize render message QB_LOG_MAX_LEN (msg @ rest) = Some (QB_LOG_MAX_LEN, s)" "length s = QB_LOG_MAX_LEN"
  shows "bb_print_entry localtime render True message (entry_chars cs ts msg @ rest) (length (entry_chars cs ts msg)) = None"
proof -
  let ?n = "length (cs_function cs)"
  note f = entry_fields[of cs ts msg rest]
  have fs: "le_value (le_bytes 4 (?n + 1)) = ?n + 1" "le_value (le_bytes 4 (length msg)) = length msg"
    using assms(1,3) by (auto simp: QB_LOG_MAX_LEN_def intro!: le_value_word(3))
  have pk: "poke s QB_LOG_MAX_LEN [NUL] = None" using assms(5) by (simp add: poke_def)
  have "\<not> ?n + 1 + BB_MIN_ENTRY_SIZE > length (entry_chars cs ts msg)" by (simp add: BB_MIN_ENTRY_SIZE_def)
  moreover have "13 + (?n + 1) = 14 + ?n" "21 + (?n + 1) = 22 + ?n" "29 + (?n + 1) = 30 + ?n" "30 + ?n + 4 = 34 + ?n" by simp_all
  moreover have "\<not> (length msg > QB_LOG_MAX_LEN \<or> length msg = 0)" using assms(2,3) by simp
  ultimately show ?thesis
    unfolding bb_print_entry_def Let_def f(1-4) bind.bind_lunit fs
    by (simp add: f assms(4)[unfolded QB_LOG_MAX_LEN_def] pk[unfolded QB_LOG_MAX_LEN_def] fs QB_LOG_MAX_LEN_def del: drop_append)
qed

text \<open>
  A message whose text has 511 or more characters is cut to 511, and the function for reading it back returns 512: \<^verbatim>\<open>message[len]\<close> is then behind
  the array. A width is enough for that: the saved message is short.
\<close>

lemma long_text_out_of_bounds:
  assumes "length message = QB_LOG_MAX_LEN" "length (cs_function cs) < 4294967295"
  shows "bb_print_entry localtime (\<lambda>_ _. replicate 600 CHR ''x'') True message (entry_chars cs ts (''%d'' @ NUL # le_bytes 4 v) @ rest)
    (length (entry_chars cs ts (''%d'' @ NUL # le_bytes 4 v))) = None"
proof -
  let ?m = "''%d'' @ NUL # le_bytes 4 v" let ?r = "\<lambda>_ _. replicate 600 CHR ''x''"
  let ?t = "replicate 511 CHR ''x''"
  have c: "cstr (?m @ rest) 0 = Some ''%d''" using cstr_start[of "''%d''" "le_bytes 4 v @ rest"] by simp
  have len: "length message = 512" using assms(1) by (simp add: QB_LOG_MAX_LEN_def)
  then have p0: "poke message 0 [NUL] = Some (NUL # drop 1 message)" by (simp add: poke_def)
  have v: "des_value 4 (?m @ rest) \<lparr>des_string = NUL # drop 1 message, des_loc = 0, des_pos = 3\<rparr> = Some (v mod 4294967296)"
    using peek_field[of 3 "''%d'' @ [NUL]" 4 "le_bytes 4 v" rest] by (simp add: des_value_def le_value_bytes)
  have pr: "des_print ?r 512 ''%'' CHR ''d'' w 4 \<lparr>des_string = NUL # drop 1 message, des_loc = 0, des_pos = 3\<rparr> =
      Some \<lparr>des_string = ?t @ [NUL], des_loc = 600, des_pos = 7\<rparr>" for w
    using len by (simp add: des_print_def mini_put_def MINI_FORMAT_STR_LEN_def snprintf_text_def size_minus_def poke_def)
  have e: "my_strlcat (?t @ [NUL]) 0 [] 512 = Some (511, ?t @ [NUL])"
    using cstr_start[of ?t "[]"] by (simp add: my_strlcat_def strlcat_def size_minus_def strlcpy_def poke_def)
  define B where "B = ?m @ rest"
  have "des_loop ?r 512 B [] \<lparr>des_string = ?t @ [NUL], des_loc = 600, des_pos = 7\<rparr> = Some (512, ?t @ [NUL])"
    by (subst des_loop.simps) (simp add: e)
  moreover have "des_spec ?r 512 B False False ''%'' ''d'' \<lparr>des_string = NUL # drop 1 message, des_loc = 0, des_pos = 3\<rparr> =
      Some ([], \<lparr>des_string = ?t @ [NUL], des_loc = 600, des_pos = 7\<rparr>)"
    using v[folded B_def] pr by (simp add: des_spec.simps(2) flag_chars_def is_digit_def int_chars_def)
  ultimately have "des_loop ?r 512 B ''%d'' \<lparr>des_string = NUL # drop 1 message, des_loc = 0, des_pos = 3\<rparr> = Some (512, ?t @ [NUL])"
    by (subst des_loop.simps) (simp add: poke_def)
  then have "qb_vsnprintf_deserialize ?r message 512 (?m @ rest) = Some (512, ?t @ [NUL])"
    unfolding qb_vsnprintf_deserialize_def c bind.bind_lunit p0 B_def by (simp add: numeral_3_eq_3)
  then show ?thesis
    using assms(2) by (intro print_entry_full[where s="?t @ [NUL]"]) (simp_all add: QB_LOG_MAX_LEN_def)
qed

text \<open>
  An allocation that has to drop every chunk fails when the ring buffer counts its chunks with a semaphore, as that of the black box does: the semaphore
  still counts the dropped chunks, the empty buffer passes for a full one, and there is nothing more to drop. The black box is then closed.
\<close>

lemma reclaim_refused: "QB_RB_CHUNK_MAGIC_GET rb (read_pt rb) \<noteq> QB_RB_CHUNK_MAGIC \<Longrightarrow> fst (rb_chunk_reclaim rb) \<noteq> 0"
  by (simp add: rb_chunk_reclaim_def)

lemma alloc_after_last_fails:
  assumes rep: "rb_rep rb [c]" and none: "space_used_fn (notifier rb) = None" "reclaim_fn (notifier rb) = None"
    and pos: "rb_q_len_pos rb" and big: "\<not> rb_fits rb [c] (unat len)" "unat len + 12 < 18446744073709551616" and ends: "rb_ends rb"
    and over: "flag_set (flags rb) QB_RB_FLAG_OVERWRITE"
  shows "fst (rb_chunk_alloc rb len) = None"
proof -
  let ?rb = "snd (rb_chunk_reclaim rb)"
  note h = rb_head_chunk[OF rep]
  have shape: "rb_same_shape rb ?rb" by (rule rb_chunk_reclaim_shape[OF rep none(2)])
  have e: "rb_rep ?rb []" by (rule rb_chunk_reclaim_rep[OF rep])
  have eq: "read_pt ?rb = write_pt ?rb" using rb_rep_geometry(3,6)[OF e] by (simp add: word_unat_eq_iff)
  have "rb_ends ?rb"
    using reclaim_no_new_magic[OF h(1)] ends rb_chunk_reclaim_fields[OF h(1)] by (simp add: rb_ends_def QB_RB_CHUNK_MAGIC_GET_def shd_get_def)
  then have rc: "fst (rb_chunk_reclaim ?rb) \<noteq> 0" by (intro reclaim_refused) (simp add: eq rb_ends_def)
  have "rb_q_len_pos ?rb" using pos shape by (auto simp: rb_q_len_pos_def rb_same_shape_def split: option.splits)
  then have "rb_space_free ?rb = 0"
    using none shape eq by (simp add: rb_space_free_words rb_same_shape_def)
  moreover have "(0 :: u64) < len + QB_RB_CHUNK_MARGIN"
    using big(2) by (simp add: word_less_nat_alt QB_RB_CHUNK_MARGIN_def unat_word_ariths)
  ultimately have "fst (rb_reclaim_for ?rb len) = False" using rc by (simp add: rb_reclaim_for.simps[of ?rb] Let_def)
  moreover have "word_of_int (rb_space_free rb) < len + QB_RB_CHUNK_MARGIN"
    using rb_space_test[OF rep _ big(2)] none(1) big(1) by (simp add: rb_counts_well_def)
  ultimately have "fst (rb_reclaim_for rb len) = False"
    using rb_chunk_reclaim_plain(1)[OF rep none(2)] by (simp add: rb_reclaim_for.simps[of rb] Let_def)
  then show ?thesis using over by (auto simp: rb_chunk_alloc_def Let_def split: prod.splits)
qed

section \<open>An example\<close>

definition ex_msg :: log_msg where
  "ex_msg = \<lparr>m_site = \<lparr>cs_function = ''main'', cs_filename = ''a.c'', cs_format = ''sent %d bytes'', cs_priority = 6, cs_lineno = 77, cs_targets = 0, cs_tags = 0\<rparr>,
     m_time = \<lparr>tv_sec = 5, tv_nsec = 7\<rparr>, m_segs = [(''sent '', Conv [] [] CHR ''d'')], m_tail = '' bytes'', m_args = [VInt 42]\<rparr>"

definition ex_bb :: "'s qb_rb_notifier \<Rightarrow> 's \<Rightarrow> 's bb_target" where
  "ex_bb n s = \<lparr>t_name = ''prog'', t_format = None, t_max_line_length = 40, t_ellipsis = False, t_filename = ''bb'', t_size = 256,
     t_instance = Some (ex_rb 64 BB_FLAGS n s)\<rparr>"

lemma ex_msg_printf: "printf_text plain_render (m_segs ex_msg) (m_tail ex_msg) (m_args ex_msg) = Some (''sent 42 bytes'', le_bytes 4 42)"
  by code_simp

lemma ex_msg_ok: "loggable plain_render 40 ex_msg" "printable plain_render ex_msg" "length (msg_entry plain_render ex_msg) = 56"
  "msg_text plain_render ex_msg = ''sent 42 bytes''"
proof -
  have "segs_ok (m_segs ex_msg)" "lit_ok (m_tail ex_msg)" "cs_format (m_site ex_msg) = fmt_text (m_segs ex_msg) (m_tail ex_msg)" by code_simp+
  moreover have s: "length (msg_saved plain_render ex_msg) = 18" unfolding msg_saved_def ex_msg_printf by (simp add: ex_msg_def)
  moreover show "length (msg_entry plain_render ex_msg) = 56" by (simp add: msg_entry_length s) (simp add: ex_msg_def)
  moreover show "msg_text plain_render ex_msg = ''sent 42 bytes''" by (simp add: msg_text_def ex_msg_printf)
  moreover have "NUL \<notin> set (cs_function (m_site ex_msg))" by (simp add: ex_msg_def)
  ultimately show "loggable plain_render 40 ex_msg" "printable plain_render ex_msg"
    by (simp_all add: loggable_def printable_def ex_msg_printf QB_LOG_MAX_LEN_def)
qed

definition ex_close :: rb_close_env where
  "ex_close = \<lparr>dir_open_errno = (\<lambda>_. 0), unlink_at = (\<lambda>_ _ _. 0), munmap_data_errno = 0, munmap_hdr_errno = 0\<rparr>"

text \<open>A ring buffer with one entry.\<close>

definition ex_bb_rb :: "u8 list \<Rightarrow> unit qb_ringbuffer" where
  "ex_bb_rb c = (ex_rb 64 BB_FLAGS no_notifier ())\<lparr>write_pt := 16,
     shared_data := (\<lambda>a. if a = 0 then 56 else if a < 4 then 0 else if a < 8 then 0xA1 else if a < 64 then c ! (a - 8) else 0)\<rparr>"

lemma ex_bb_rb_rep:
  assumes "length c = 56"
  shows "rb_rep (ex_bb_rb c) [c]" "rb_ends (ex_bb_rb c)"
proof -
  have "mem_read 256 (shared_data (ex_bb_rb c)) 8 56 = c"
    by (rule nth_equalityI) (simp_all add: assms mem_read_def ex_bb_rb_def)
  then show "rb_rep (ex_bb_rb c) [c]"
    by (simp add: rb_rep_def rb_geometry_def chunk_at_def assms chunk_words_def mem32_get_def QB_RB_CHUNK_MAGIC_def) 
      (simp add: ex_bb_rb_def ex_rb_def)
  show "rb_ends (ex_bb_rb c)"
    by (simp add: rb_ends_def QB_RB_CHUNK_MAGIC_GET_def shd_get_def ex_bb_rb_def ex_rb_def mem32_get_def QB_RB_CHUNK_MAGIC_def)
qed

section \<open>Properties\<close>





end
