(* ===== verification/Logger.thy ===== *)
theory Logger
  imports Log_format
begin

text \<open>
  The core of the logging (\<^verbatim>\<open>lib/log.c\<close>, \<^verbatim>\<open>lib/log_dcs.c\<close>): targets, filters, call sites, and the delivery of a message to the
  targets. A call site is an element of a section, an array that a module or the library provides: its address is the number of the
  array and an index. Regular expressions are those of the C library: \<open>regcomp_ok\<close> says which texts compile, and \<open>regexec\<close> which
  strings match. A logger function is an event of the result. A result \<open>None\<close> is a failed assertion or an access outside of a buffer.
\<close>

section \<open>State\<close>

datatype qb_log_filter_type =
    QB_LOG_FILTER_FILE | QB_LOG_FILTER_FUNCTION | QB_LOG_FILTER_FORMAT
  | QB_LOG_FILTER_FILE_REGEX | QB_LOG_FILTER_FUNCTION_REGEX | QB_LOG_FILTER_FORMAT_REGEX

datatype qb_log_filter_conf =
    QB_LOG_FILTER_ADD | QB_LOG_FILTER_REMOVE | QB_LOG_FILTER_CLEAR_ALL
  | QB_LOG_TAG_SET | QB_LOG_TAG_CLEAR | QB_LOG_TAG_CLEAR_ALL

datatype qb_log_target_state = QB_LOG_STATE_UNUSED | QB_LOG_STATE_DISABLED | QB_LOG_STATE_ENABLED

record qb_log_filter =
  flt_conf :: qb_log_filter_conf
  flt_type :: qb_log_filter_type
  flt_text :: string
  flt_high_priority :: u8
  flt_low_priority :: u8
  flt_new_value :: u32
  flt_regex :: "string option"

text \<open>The fields of a target that the layout does not need. A function pointer is kept as whether it is set.\<close>

record log_target = qb_log_target +
  tg_state :: qb_log_target_state
  tg_filters :: "qb_log_filter list"
  tg_filename :: string
  tg_facility :: int
  tg_priority_bump :: int
  tg_file_sync :: int
  tg_debug :: bool
  tg_extended :: bool
  tg_size :: int
  tg_threaded :: bool
  tg_instance :: "nat option"
  tg_logger :: bool
  tg_vlogger :: bool
  tg_close :: bool
  tg_reload :: bool

record log_site = qb_log_callsite +
  cs_message_id :: "string option"

type_synonym site_ptr = "nat \<times> nat"

record callsite_section =
  sect_start :: site_ptr
  sect_stop :: site_ptr

definition in_section :: "callsite_section \<Rightarrow> site_ptr \<Rightarrow> bool" where
  "in_section sect p \<longleftrightarrow> fst p = fst (sect_start sect) \<and> snd (sect_start sect) \<le> snd p \<and> snd p < snd (sect_stop sect)"

record log =
  conf :: "log_target list"
  conf_active_max :: nat
  in_logger :: bool
  logger_inited :: bool
  custom_filter_fn :: "(log_site \<Rightarrow> log_site) option"
  tags_head :: "qb_log_filter list"
  callsite_sections :: "callsite_section list"
  sites :: "site_ptr \<Rightarrow> log_site"
  dcs_lookup :: "nat \<Rightarrow> site_ptr list"
  dcs_bins :: "nat \<Rightarrow> nat option"
  dcs_next :: nat

definition QB_LOG_TARGET_MAX :: nat where "QB_LOG_TARGET_MAX = 32"
definition QB_LOG_SYSLOG :: nat where "QB_LOG_SYSLOG = 0"
definition QB_LOG_STDERR :: nat where "QB_LOG_STDERR = 1"
definition QB_LOG_BLACKBOX :: nat where "QB_LOG_BLACKBOX = 2"
definition QB_LOG_STDOUT :: nat where "QB_LOG_STDOUT = 3"
definition QB_LOG_TARGET_STATIC_MAX :: nat where "QB_LOG_TARGET_STATIC_MAX = 4"

section \<open>Bits\<close>

definition qb_bit_value :: "nat \<Rightarrow> u32" where "qb_bit_value b = push_bit b 1"

definition qb_bit_set :: "u32 \<Rightarrow> nat \<Rightarrow> u32" where "qb_bit_set w b = w OR qb_bit_value b"

definition qb_bit_clear :: "u32 \<Rightarrow> nat \<Rightarrow> u32" where "qb_bit_clear w b = w AND NOT (qb_bit_value b)"

definition qb_bit_is_set :: "u32 \<Rightarrow> nat \<Rightarrow> bool" where "qb_bit_is_set w b \<longleftrightarrow> w AND qb_bit_value b \<noteq> 0"

section \<open>Matching\<close>

text \<open>A list of names with commas; a name is cut at 498 characters. A name behind the last comma that is empty is not looked at.\<close>

function token_match :: "string \<Rightarrow> string \<Rightarrow> bool" where
  "token_match name tx =
     (let rest = strchrnul tx CHR '','';
          token = take 498 (take (length tx - length rest) tx)
      in if name = token then True
         else case rest of
                [] \<Rightarrow> False
              | _ # nxt \<Rightarrow> if nxt = [] then False else token_match name nxt)"
  by pat_completeness auto
termination
proof (relation "measure (\<lambda>(name, tx). length tx)")
  fix name tx rest token c nxt
  assume "rest = strchrnul tx CHR '',''" "rest = c # nxt"
  then have "strchrnul tx CHR '','' = c # nxt" by simp
  then show "((name, nxt), name, tx) \<in> measure (\<lambda>(name, tx). length tx)"
    using strchrnul_length[of tx "CHR '',''"] by simp
qed simp

declare token_match.simps [simp del]

fun strstr :: "string \<Rightarrow> string \<Rightarrow> bool" where
  "strstr [] needle = (needle = [])"
| "strstr (c # hay) needle = (take (length needle) (c # hay) = needle \<or> strstr hay needle)"

definition cs_matches_filter ::
    "(string \<Rightarrow> string \<Rightarrow> bool) \<Rightarrow> log_site \<Rightarrow> qb_log_filter_type \<Rightarrow> string \<Rightarrow> string option \<Rightarrow> u8 \<Rightarrow> u8 \<Rightarrow> bool" where
  "cs_matches_filter regexec cs type txt regex high_priority low_priority =
     (if cs_priority cs > low_priority \<or> cs_priority cs < high_priority then False
      else if txt = ''*'' then True
      else case type of
             QB_LOG_FILTER_FILE \<Rightarrow> token_match (cs_filename cs) txt
           | QB_LOG_FILTER_FUNCTION \<Rightarrow> token_match (cs_function cs) txt
           | QB_LOG_FILTER_FILE_REGEX \<Rightarrow> (case regex of None \<Rightarrow> False | Some r \<Rightarrow> regexec r (cs_filename cs))
           | QB_LOG_FILTER_FUNCTION_REGEX \<Rightarrow> (case regex of None \<Rightarrow> False | Some r \<Rightarrow> regexec r (cs_function cs))
           | QB_LOG_FILTER_FORMAT_REGEX \<Rightarrow> (case regex of None \<Rightarrow> False | Some r \<Rightarrow> regexec r (cs_format cs))
           | QB_LOG_FILTER_FORMAT \<Rightarrow> strstr (cs_format cs) txt)"

definition log_filter_apply_to_cs ::
    "(string \<Rightarrow> string \<Rightarrow> bool) \<Rightarrow> u32 \<Rightarrow> qb_log_filter_conf \<Rightarrow> qb_log_filter_type \<Rightarrow> string \<Rightarrow> string option \<Rightarrow> u8 \<Rightarrow> u8 \<Rightarrow> log_site \<Rightarrow> log_site" where
  "log_filter_apply_to_cs regexec t c type txt regex high_priority low_priority cs =
     (if c = QB_LOG_FILTER_CLEAR_ALL then cs\<lparr>cs_targets := qb_bit_clear (cs_targets cs) (unat t)\<rparr>
      else if c = QB_LOG_TAG_CLEAR_ALL then cs\<lparr>cs_tags := 0\<rparr>
      else if cs_matches_filter regexec cs type txt regex high_priority low_priority then
        (if c = QB_LOG_FILTER_ADD then cs\<lparr>cs_targets := qb_bit_set (cs_targets cs) (unat t)\<rparr>
         else if c = QB_LOG_FILTER_REMOVE then cs\<lparr>cs_targets := qb_bit_clear (cs_targets cs) (unat t)\<rparr>
         else if c = QB_LOG_TAG_SET then cs\<lparr>cs_tags := t\<rparr>
         else cs\<lparr>cs_tags := 0\<rparr>)
      else cs)"

text \<open>Apply a change to every call site of a section that is in use.\<close>

definition sites_apply :: "callsite_section \<Rightarrow> (log_site \<Rightarrow> log_site) \<Rightarrow> log \<Rightarrow> log" where
  "sites_apply sect f l = l\<lparr>sites := (\<lambda>p. if in_section sect p \<and> cs_lineno (sites l p) > 0 then f (sites l p) else sites l p)\<rparr>"

definition log_filter_apply ::
    "(string \<Rightarrow> string \<Rightarrow> bool) \<Rightarrow> callsite_section \<Rightarrow> u32 \<Rightarrow> qb_log_filter_conf \<Rightarrow> qb_log_filter_type \<Rightarrow> string \<Rightarrow> string option \<Rightarrow> u8 \<Rightarrow> u8 \<Rightarrow> log \<Rightarrow> log" where
  "log_filter_apply regexec sect t c type txt regex high_priority low_priority l =
     sites_apply sect (log_filter_apply_to_cs regexec t c type txt regex high_priority low_priority) l"

section \<open>Stored filters\<close>

definition log_filter_exists :: "qb_log_filter list \<Rightarrow> qb_log_filter_type \<Rightarrow> string \<Rightarrow> u8 \<Rightarrow> u8 \<Rightarrow> u32 \<Rightarrow> bool" where
  "log_filter_exists fs type txt high_priority low_priority new_value =
     list_ex (\<lambda>f. flt_type f = type \<and> flt_high_priority f = high_priority \<and> flt_low_priority f = low_priority \<and>
                  flt_new_value f = new_value \<and> flt_text f = txt) fs"

text \<open>What the allocations of a new filter give.\<close>

record filter_env =
  fe_calloc :: bool
  fe_strdup :: bool
  fe_regex :: bool

definition is_regex_type :: "qb_log_filter_type \<Rightarrow> bool" where
  "is_regex_type type \<longleftrightarrow> type = QB_LOG_FILTER_FUNCTION_REGEX \<or> type = QB_LOG_FILTER_FILE_REGEX \<or> type = QB_LOG_FILTER_FORMAT_REGEX"

definition is_tag_conf :: "qb_log_filter_conf \<Rightarrow> bool" where
  "is_tag_conf c \<longleftrightarrow> c = QB_LOG_TAG_SET \<or> c = QB_LOG_TAG_CLEAR \<or> c = QB_LOG_TAG_CLEAR_ALL"

fun remove_first :: "('a \<Rightarrow> bool) \<Rightarrow> 'a list \<Rightarrow> 'a list" where
  "remove_first P [] = []"
| "remove_first P (x # xs) = (if P x then xs else x # remove_first P xs)"

text \<open>The result, the new list, and the new filter.\<close>

definition filter_list_store ::
    "(string \<Rightarrow> bool) \<Rightarrow> filter_env \<Rightarrow> u32 \<Rightarrow> qb_log_filter_conf \<Rightarrow> qb_log_filter_type \<Rightarrow> string \<Rightarrow> u8 \<Rightarrow> u8 \<Rightarrow>
     qb_log_filter list \<Rightarrow> int \<times> qb_log_filter list \<times> qb_log_filter option" where
  "filter_list_store regcomp_ok env t c type txt high_priority low_priority fs =
     (if c = QB_LOG_FILTER_ADD \<or> c = QB_LOG_TAG_SET then
        (if log_filter_exists fs type txt high_priority low_priority t then (- EEXIST, fs, None)
         else if \<not> fe_calloc env then (- ENOMEM, fs, None)
         else if \<not> fe_strdup env then (- ENOMEM, fs, None)
         else if is_regex_type type \<and> \<not> fe_regex env then (- ENOMEM, fs, None)
         else if is_regex_type type \<and> \<not> regcomp_ok txt then (- EINVAL, fs, None)
         else
           let f = \<lparr>flt_conf = c, flt_type = type, flt_text = txt, flt_high_priority = high_priority, flt_low_priority = low_priority,
                    flt_new_value = t, flt_regex = (if is_regex_type type then Some txt else None)\<rparr>
           in (0, fs @ [f], Some f))
      else if c = QB_LOG_FILTER_REMOVE \<or> c = QB_LOG_TAG_CLEAR then
        (0, remove_first (\<lambda>f. flt_type f = type \<and> flt_low_priority f \<le> low_priority \<and> flt_high_priority f \<ge> high_priority \<and>
                              (flt_text f = txt \<or> txt = ''*'')) fs, None)
      else (0, [], None))"

definition log_filter_store ::
    "(string \<Rightarrow> bool) \<Rightarrow> filter_env \<Rightarrow> u32 \<Rightarrow> qb_log_filter_conf \<Rightarrow> qb_log_filter_type \<Rightarrow> string \<Rightarrow> u8 \<Rightarrow> u8 \<Rightarrow> log \<Rightarrow>
     int \<times> log \<times> qb_log_filter option" where
  "log_filter_store regcomp_ok env t c type txt high_priority low_priority l =
     (if is_tag_conf c then
        let (rc, fs, f) = filter_list_store regcomp_ok env t c type txt high_priority low_priority (tags_head l)
        in (rc, l\<lparr>tags_head := fs\<rparr>, f)
      else
        let tg = conf l ! unat t;
            (rc, fs, f) = filter_list_store regcomp_ok env t c type txt high_priority low_priority (tg_filters tg)
        in (rc, l\<lparr>conf := (conf l)[unat t := tg\<lparr>tg_filters := fs\<rparr>]\<rparr>, f))"

definition bad_target :: "int \<Rightarrow> log \<Rightarrow> bool" where
  "bad_target t l \<longleftrightarrow> t < 0 \<or> t \<ge> int QB_LOG_TARGET_MAX \<or> tg_state (conf l ! nat t) = QB_LOG_STATE_UNUSED"

definition qb_log_filter_ctl2 ::
    "(string \<Rightarrow> string \<Rightarrow> bool) \<Rightarrow> (string \<Rightarrow> bool) \<Rightarrow> filter_env \<Rightarrow> int \<Rightarrow> qb_log_filter_conf \<Rightarrow> qb_log_filter_type \<Rightarrow> string option \<Rightarrow> u8 \<Rightarrow> u8 \<Rightarrow>
     log \<Rightarrow> int \<times> log" where
  "qb_log_filter_ctl2 regexec regcomp_ok env t c type txt high_priority low_priority l =
     (if \<not> logger_inited l then (- EINVAL, l)
      else if \<not> is_tag_conf c \<and> bad_target t l then (- EBADF, l)
      else case txt of
             None \<Rightarrow> (- EINVAL, l)
           | Some txt \<Rightarrow>
               if low_priority < high_priority then (- EINVAL, l)
               else
                 let (rc, l, new_flt) = log_filter_store regcomp_ok env (word_of_int t) c type txt high_priority low_priority l
                 in if rc < 0 then (rc, l)
                    else
                      let regex = (case new_flt of None \<Rightarrow> None | Some f \<Rightarrow> flt_regex f)
                      in (0, foldl (\<lambda>l sect. log_filter_apply regexec sect (word_of_int t) c type txt regex high_priority low_priority l) l (callsite_sections l)))"

definition qb_log_filter_ctl where
  "qb_log_filter_ctl regexec regcomp_ok env t c type txt priority l = qb_log_filter_ctl2 regexec regcomp_ok env t c type txt 0 priority l"

definition qb_log_filter_fn_set :: "(log_site \<Rightarrow> log_site) option \<Rightarrow> log \<Rightarrow> int \<times> log" where
  "qb_log_filter_fn_set fn l =
     (if \<not> logger_inited l then (- EINVAL, l)
      else
        let l = l\<lparr>custom_filter_fn := fn\<rparr>
        in case fn of
             None \<Rightarrow> (0, l)
           | Some f \<Rightarrow> (0, foldl (\<lambda>l sect. sites_apply sect f l) l (callsite_sections l)))"

section \<open>Targets\<close>

definition tg_upd :: "nat \<Rightarrow> (log_target \<Rightarrow> log_target) \<Rightarrow> log \<Rightarrow> log" where
  "tg_upd i f l = l\<lparr>conf := (conf l)[i := f (conf l ! i)]\<rparr>"

fun last_enabled :: "log_target list \<Rightarrow> nat \<Rightarrow> nat option" where
  "last_enabled ts 0 = None"
| "last_enabled ts (Suc i) = (if tg_state (ts ! i) = QB_LOG_STATE_ENABLED then Some i else last_enabled ts i)"

text \<open>The highest enabled target is remembered; without an enabled target the old value stays.\<close>

definition log_target_state_set :: "nat \<Rightarrow> qb_log_target_state \<Rightarrow> log \<Rightarrow> log" where
  "log_target_state_set i s l =
     (let l = tg_upd i (tg_state_update (\<lambda>_. s)) l
      in case last_enabled (conf l) QB_LOG_TARGET_MAX of None \<Rightarrow> l | Some j \<Rightarrow> l\<lparr>conf_active_max := j\<rparr>)"

fun find_unused :: "log_target list \<Rightarrow> nat option" where
  "find_unused [] = None"
| "find_unused (t # ts) = (if tg_state t = QB_LOG_STATE_UNUSED then Some 0 else map_option Suc (find_unused ts))"

definition qb_log_target_alloc :: "log \<Rightarrow> nat option \<times> log" where
  "qb_log_target_alloc l =
     (case find_unused (take QB_LOG_TARGET_MAX (conf l)) of
        None \<Rightarrow> (None, l)
      | Some i \<Rightarrow> (Some i, log_target_state_set i QB_LOG_STATE_DISABLED l))"

text \<open>The clearing of the filters is called without a text, which is refused; the format goes back to the default if there is memory.\<close>

definition qb_log_target_free :: "(string \<Rightarrow> string \<Rightarrow> bool) \<Rightarrow> (string \<Rightarrow> bool) \<Rightarrow> filter_env \<Rightarrow> nat \<Rightarrow> log \<Rightarrow> log" where
  "qb_log_target_free regexec regcomp_ok env i l =
     (let (_, l) = qb_log_filter_ctl regexec regcomp_ok env (int i) QB_LOG_FILTER_CLEAR_ALL QB_LOG_FILTER_FILE None 0 l;
          l = tg_upd i (\<lambda>t. t\<lparr>tg_debug := False, tg_filename := [], t_format := (if fe_strdup env then Some ''[%p] %b'' else None)\<rparr>) l
      in log_target_state_set i QB_LOG_STATE_UNUSED l)"

definition qb_log_target_user_data_get :: "int \<Rightarrow> log \<Rightarrow> nat option" where
  "qb_log_target_user_data_get t l = (if bad_target t l then None else tg_instance (conf l ! nat t))"

definition qb_log_target_user_data_set :: "int \<Rightarrow> nat option \<Rightarrow> log \<Rightarrow> int \<times> log" where
  "qb_log_target_user_data_set t user_data l =
     (if \<not> logger_inited l then (- EINVAL, l)
      else if bad_target t l then (- EBADF, l)
      else (0, tg_upd (nat t) (\<lambda>tg. tg\<lparr>tg_instance := user_data\<rparr>) l))"

abbreviation EMFILE :: int where "EMFILE \<equiv> 24"

text \<open>The arguments say which functions the caller passed.\<close>

definition qb_log_custom_open :: "bool \<Rightarrow> bool \<Rightarrow> bool \<Rightarrow> nat option \<Rightarrow> log \<Rightarrow> int \<times> log" where
  "qb_log_custom_open log_fn close_fn reload_fn user_data l =
     (case qb_log_target_alloc l of
        (None, l) \<Rightarrow> (- EMFILE, l)
      | (Some i, l) \<Rightarrow>
          (int i, tg_upd i (\<lambda>t. t\<lparr>tg_instance := user_data, tg_filename := ''custom-'' @ dec_nat i, tg_logger := log_fn, tg_vlogger := False,
                                  tg_reload := reload_fn, tg_close := close_fn\<rparr>) l))"

datatype log_event =
    EvLogger nat site_ptr string
  | EvVlogger nat site_ptr
  | EvThread site_ptr string
  | EvOldLog site_ptr string
  | EvClose nat
  | EvReload nat

text \<open>Closing calls the function of the target, during which messages are dropped.\<close>

definition qb_log_custom_close :: "(string \<Rightarrow> string \<Rightarrow> bool) \<Rightarrow> (string \<Rightarrow> bool) \<Rightarrow> filter_env \<Rightarrow> int \<Rightarrow> log \<Rightarrow> log_event list \<times> log" where
  "qb_log_custom_close regexec regcomp_ok env t l =
     (if \<not> logger_inited l \<or> bad_target t l then ([], l)
      else
        let close = tg_close (conf l ! nat t);
            l = (if close then l\<lparr>in_logger := False\<rparr> else l)
        in (if close then [EvClose (nat t)] else [], qb_log_target_free regexec regcomp_ok env (nat t) l))"

text \<open>
  Opening a static target (\<^verbatim>\<open>lib/log_file.c\<close>, \<^verbatim>\<open>lib/log_syslog.c\<close>): the standard streams are the instances 1 and 2. What opening the black
  box gives is an argument: its result, and the instance.
\<close>

definition qb_log_stderr_open :: "nat \<Rightarrow> log_target \<Rightarrow> int \<times> log_target" where
  "qb_log_stderr_open i t =
     (0, t\<lparr>tg_logger := True, tg_reload := False, tg_close := False,
           tg_filename := (if i = QB_LOG_STDERR then ''stderr'' else ''stdout''), tg_instance := Some (if i = QB_LOG_STDERR then 2 else 1)\<rparr>)"

definition qb_log_syslog_open :: "log_target \<Rightarrow> int \<times> log_target" where
  "qb_log_syslog_open t = (0, t\<lparr>tg_logger := True, tg_reload := True, tg_close := True\<rparr>)"

definition log_blackbox_open :: "int \<times> nat option \<Rightarrow> log_target \<Rightarrow> int \<times> log_target" where
  "log_blackbox_open bb t =
     (if tg_size t < 1024 then (- EINVAL, t)
      else if fst bb < 0 then (fst bb, t\<lparr>tg_instance := None\<rparr>)
      else (0, t\<lparr>tg_instance := snd bb, tg_logger := False, tg_vlogger := True, tg_reload := True, tg_close := True\<rparr>))"

definition log_target_enable :: "int \<times> nat option \<Rightarrow> nat \<Rightarrow> log \<Rightarrow> int \<times> log" where
  "log_target_enable bb i l =
     (let t = conf l ! i
      in if tg_state t = QB_LOG_STATE_ENABLED then (0, l)
         else
           let (rc, t) = (if i = QB_LOG_STDERR \<or> i = QB_LOG_STDOUT then qb_log_stderr_open i t
                          else if i = QB_LOG_SYSLOG then qb_log_syslog_open t
                          else if i = QB_LOG_BLACKBOX then log_blackbox_open bb t
                          else (0, t));
               l = tg_upd i (\<lambda>_. t) l
           in (rc, if rc = 0 then log_target_state_set i QB_LOG_STATE_ENABLED l else l))"

definition log_target_disable :: "nat \<Rightarrow> log \<Rightarrow> log_event list \<times> log" where
  "log_target_disable i l =
     (if tg_state (conf l ! i) \<noteq> QB_LOG_STATE_ENABLED then ([], l)
      else
        let l = log_target_state_set i QB_LOG_STATE_DISABLED l
        in if tg_close (conf l ! i) then ([EvClose i], l\<lparr>in_logger := False\<rparr>) else ([], l))"

section \<open>Control\<close>

datatype qb_log_conf =
    QB_LOG_CONF_ENABLED | QB_LOG_CONF_FACILITY | QB_LOG_CONF_DEBUG | QB_LOG_CONF_SIZE | QB_LOG_CONF_THREADED
  | QB_LOG_CONF_PRIORITY_BUMP | QB_LOG_CONF_STATE_GET | QB_LOG_CONF_FILE_SYNC | QB_LOG_CONF_EXTENDED | QB_LOG_CONF_IDENT
  | QB_LOG_CONF_MAX_LINE_LEN | QB_LOG_CONF_ELLIPSIS | QB_LOG_CONF_USE_JOURNAL

abbreviation EOPNOTSUPP :: int where "EOPNOTSUPP \<equiv> 95"

definition QB_LOG_ABSOLUTE_MAX_LEN :: int where "QB_LOG_ABSOLUTE_MAX_LEN = 4096"

fun state_number :: "qb_log_target_state \<Rightarrow> int" where
  "state_number QB_LOG_STATE_UNUSED = 1"
| "state_number QB_LOG_STATE_DISABLED = 2"
| "state_number QB_LOG_STATE_ENABLED = 3"

text \<open>
  One setting: the result, whether the target has to be reloaded, the events and the state. The argument is a number or a string. There is no journal in
  this build. A negative length is stored as a \<^verbatim>\<open>size_t\<close>.
\<close>

definition conf_set :: "int \<times> nat option \<Rightarrow> nat \<Rightarrow> qb_log_conf \<Rightarrow> int \<Rightarrow> string \<Rightarrow> log \<Rightarrow> int \<times> bool \<times> log_event list \<times> log" where
  "conf_set bb t c arg_i32 arg_s l =
     (case c of
        QB_LOG_CONF_ENABLED \<Rightarrow>
          if arg_i32 \<noteq> 0 then (let (rc, l) = log_target_enable bb t l in (rc, False, [], l))
          else (let (ev, l) = log_target_disable t l in (0, False, ev, l))
      | QB_LOG_CONF_STATE_GET \<Rightarrow> (state_number (tg_state (conf l ! t)), False, [], l)
      | QB_LOG_CONF_FACILITY \<Rightarrow> (0, t = QB_LOG_SYSLOG, [], tg_upd t (\<lambda>tg. tg\<lparr>tg_facility := arg_i32\<rparr>) l)
      | QB_LOG_CONF_IDENT \<Rightarrow> (0, t = QB_LOG_SYSLOG, [], tg_upd t (\<lambda>tg. tg\<lparr>t_name := take 4095 arg_s\<rparr>) l)
      | QB_LOG_CONF_FILE_SYNC \<Rightarrow> (0, False, [], tg_upd t (\<lambda>tg. tg\<lparr>tg_file_sync := arg_i32\<rparr>) l)
      | QB_LOG_CONF_PRIORITY_BUMP \<Rightarrow> (0, False, [], tg_upd t (\<lambda>tg. tg\<lparr>tg_priority_bump := arg_i32\<rparr>) l)
      | QB_LOG_CONF_SIZE \<Rightarrow>
          if t = QB_LOG_BLACKBOX then
            (if arg_i32 \<le> 0 then (- EINVAL, False, [], l) else (0, True, [], tg_upd t (\<lambda>tg. tg\<lparr>tg_size := arg_i32\<rparr>) l))
          else (- ENOSYS, False, [], l)
      | QB_LOG_CONF_THREADED \<Rightarrow> (0, False, [], tg_upd t (\<lambda>tg. tg\<lparr>tg_threaded := (arg_i32 \<noteq> 0)\<rparr>) l)
      | QB_LOG_CONF_EXTENDED \<Rightarrow> (0, False, [], tg_upd t (\<lambda>tg. tg\<lparr>tg_extended := (arg_i32 \<noteq> 0)\<rparr>) l)
      | QB_LOG_CONF_MAX_LINE_LEN \<Rightarrow>
          if arg_i32 > QB_LOG_ABSOLUTE_MAX_LEN then (- EINVAL, False, [], l)
          else (0, False, [], tg_upd t (\<lambda>tg. tg\<lparr>t_max_line_length := nat (arg_i32 mod 2 ^ 64)\<rparr>) l)
      | QB_LOG_CONF_ELLIPSIS \<Rightarrow> (0, False, [], tg_upd t (\<lambda>tg. tg\<lparr>t_ellipsis := (arg_i32 \<noteq> 0)\<rparr>) l)
      | QB_LOG_CONF_USE_JOURNAL \<Rightarrow> (- EOPNOTSUPP, False, [], l)
      | QB_LOG_CONF_DEBUG \<Rightarrow> (- EINVAL, False, [], l))"

definition qb_log_ctl2 :: "int \<times> nat option \<Rightarrow> int \<Rightarrow> qb_log_conf \<Rightarrow> int \<Rightarrow> string \<Rightarrow> log \<Rightarrow> int \<times> log_event list \<times> log" where
  "qb_log_ctl2 bb t c arg_i32 arg_s l =
     (if \<not> logger_inited l then (- EINVAL, [], l)
      else if bad_target t l then (- EBADF, [], l)
      else
        let (rc, need_reload, ev, l) = conf_set bb (nat t) c arg_i32 arg_s l
        in if rc = 0 \<and> need_reload \<and> tg_reload (conf l ! nat t) then (rc, ev @ [EvReload (nat t)], l\<lparr>in_logger := False\<rparr>)
           else (rc, ev, l))"

section \<open>Files\<close>

text \<open>Opening a log file: \<open>fp\<close> is what \<^verbatim>\<open>fopen\<close> gives, or the error.\<close>

definition qb_log_file_open ::
    "(string \<Rightarrow> string \<Rightarrow> bool) \<Rightarrow> (string \<Rightarrow> bool) \<Rightarrow> filter_env \<Rightarrow> int + nat \<Rightarrow> string \<Rightarrow> log \<Rightarrow> int \<times> log" where
  "qb_log_file_open regexec regcomp_ok env fp filename l =
     (case qb_log_target_alloc l of
        (None, l) \<Rightarrow> (- EMFILE, l)
      | (Some i, l) \<Rightarrow>
          (case fp of
             Inl e \<Rightarrow> (- e, qb_log_target_free regexec regcomp_ok env i l)
           | Inr f \<Rightarrow>
               (int i, tg_upd i (\<lambda>t. t\<lparr>tg_instance := Some f, tg_filename := take 4095 filename, tg_logger := True, tg_reload := True, tg_close := True\<rparr>) l)))"

text \<open>Reopening; the first component are the files that are closed.\<close>

definition do_file_reload :: "int + nat \<Rightarrow> string option \<Rightarrow> int \<Rightarrow> log \<Rightarrow> int \<times> nat option \<times> log" where
  "do_file_reload fp filename target l =
     (case fp of
        Inl e \<Rightarrow> (- e, None, l)
      | Inr f \<Rightarrow>
          let l' = (case filename of None \<Rightarrow> l | Some n \<Rightarrow> tg_upd (nat target) (\<lambda>t. t\<lparr>tg_filename := take 4095 n\<rparr>) l)
          in (0, qb_log_target_user_data_get target l, snd (qb_log_target_user_data_set target (Some f) l')))"

definition file_close :: "int \<Rightarrow> log \<Rightarrow> nat option \<times> log" where
  "file_close t l =
     (case qb_log_target_user_data_get t l of
        None \<Rightarrow> (None, l)
      | Some f \<Rightarrow> (Some f, snd (qb_log_target_user_data_set t None l)))"

section \<open>Call sites\<close>

text \<open>Apply the stored filters of the enabled targets to one call site, target by target.\<close>

definition apply_flt :: "(string \<Rightarrow> string \<Rightarrow> bool) \<Rightarrow> u32 \<Rightarrow> qb_log_filter \<Rightarrow> log_site \<Rightarrow> log_site" where
  "apply_flt regexec t f = log_filter_apply_to_cs regexec t (flt_conf f) (flt_type f) (flt_text f) (flt_regex f) (flt_high_priority f) (flt_low_priority f)"

definition active_targets :: "log \<Rightarrow> nat list" where
  "active_targets l = filter (\<lambda>i. tg_state (conf l ! i) = QB_LOG_STATE_ENABLED) [0..<Suc (conf_active_max l)]"

definition apply_targets :: "(string \<Rightarrow> string \<Rightarrow> bool) \<Rightarrow> log \<Rightarrow> log_site \<Rightarrow> log_site" where
  "apply_targets regexec l cs = foldl (\<lambda>cs i. foldl (\<lambda>cs f. apply_flt regexec (of_nat i) f cs) cs (tg_filters (conf l ! i))) cs (active_targets l)"

definition apply_tags :: "(string \<Rightarrow> string \<Rightarrow> bool) \<Rightarrow> log \<Rightarrow> log_site \<Rightarrow> log_site" where
  "apply_tags regexec l cs = foldl (\<lambda>cs f. apply_flt regexec (flt_new_value f) f cs) cs (tags_head l)"

definition apply_custom :: "log \<Rightarrow> log_site \<Rightarrow> log_site" where
  "apply_custom l cs = (case custom_filter_fn l of None \<Rightarrow> cs | Some f \<Rightarrow> f cs)"

text \<open>The new section stands first in the list. Each filter runs over the whole section before the next one.\<close>

definition qb_log_callsites_register ::
    "(string \<Rightarrow> string \<Rightarrow> bool) \<Rightarrow> bool \<Rightarrow> site_ptr option \<Rightarrow> site_ptr option \<Rightarrow> log \<Rightarrow> int \<times> log" where
  "qb_log_callsites_register regexec calloc start stop l =
     (case (start, stop) of
        (Some start, Some stop) \<Rightarrow>
          if list_ex (\<lambda>s. sect_start s = start \<or> sect_stop s = stop) (callsite_sections l) then (- EEXIST, l)
          else if \<not> calloc then (- ENOMEM, l)
          else
            let sect = \<lparr>sect_start = start, sect_stop = stop\<rparr>;
                l = l\<lparr>callsite_sections := sect # callsite_sections l\<rparr>;
                l = foldl (\<lambda>l i. foldl (\<lambda>l f. sites_apply sect (apply_flt regexec (of_nat i) f) l) l (tg_filters (conf l ! i))) l (active_targets l);
                l = foldl (\<lambda>l f. sites_apply sect (apply_flt regexec (flt_new_value f) f) l) l (tags_head l)
            in (0, case custom_filter_fn l of None \<Rightarrow> l | Some f \<Rightarrow> sites_apply sect f l)
      | _ \<Rightarrow> (- EINVAL, l))"

subsection \<open>Dynamic call sites\<close>

text \<open>
  The array of dynamic call sites and the table by line number grow on demand up to \<open>QB_ARRAY_MAX_ELEMENTS\<close> elements; an index beyond that is an
  error, which the code asserts not to happen. A new bin of sixteen call sites, all zero, is registered as a section; \<open>region\<close> is the array that the
  allocation gives. The copies of the strings are assumed to be made.
\<close>

definition DCS_MAX :: nat where "DCS_MAX = 65536"

definition CALLSITE_ELEMS_PER_BIN :: nat where "CALLSITE_ELEMS_PER_BIN = 16"

definition zero_site :: log_site where
  "zero_site = \<lparr>cs_function = [], cs_filename = [], cs_format = [], cs_priority = 0, cs_lineno = 0, cs_targets = 0, cs_tags = 0, cs_message_id = None\<rparr>"

definition dcs_new_bin :: "(string \<Rightarrow> string \<Rightarrow> bool) \<Rightarrow> nat \<Rightarrow> nat \<Rightarrow> log \<Rightarrow> log option" where
  "dcs_new_bin regexec region bin l =
     (case dcs_bins l bin of
        Some _ \<Rightarrow> Some l
      | None \<Rightarrow>
          let l = l\<lparr>dcs_bins := (dcs_bins l)(bin := Some region),
                    sites := (\<lambda>p. if fst p = region \<and> snd p < CALLSITE_ELEMS_PER_BIN then zero_site else sites l p)\<rparr>;
              (rc, l) = qb_log_callsites_register regexec True (Some (region, 0)) (Some (region, CALLSITE_ELEMS_PER_BIN)) l
          in if rc = 0 then Some l else None)"

definition log_dcs_new_cs ::
    "(string \<Rightarrow> string \<Rightarrow> bool) \<Rightarrow> nat \<Rightarrow> string option \<Rightarrow> string \<Rightarrow> string \<Rightarrow> string \<Rightarrow> u8 \<Rightarrow> u32 \<Rightarrow> u32 \<Rightarrow> log \<Rightarrow> (site_ptr \<times> log) option" where
  "log_dcs_new_cs regexec region message_id function filename format priority lineno tags l =
     (let i = dcs_next l
      in if i \<ge> DCS_MAX then None
         else do {
           l \<leftarrow> dcs_new_bin regexec region (i div CALLSITE_ELEMS_PER_BIN) (l\<lparr>dcs_next := i + 1\<rparr>);
           r \<leftarrow> dcs_bins l (i div CALLSITE_ELEMS_PER_BIN);
           let p = (r, i mod CALLSITE_ELEMS_PER_BIN);
           Some (p, l\<lparr>sites := (sites l)(p := (sites l p)\<lparr>cs_message_id := message_id, cs_function := function, cs_filename := filename,
                        cs_format := format, cs_priority := priority, cs_lineno := lineno, cs_tags := tags\<rparr>)\<rparr>) })"

definition or_empty :: "string option \<Rightarrow> string" where
  "or_empty s = (case s of None \<Rightarrow> [] | Some s \<Rightarrow> s)"

definition same_site :: "log \<Rightarrow> u8 \<Rightarrow> string \<Rightarrow> string \<Rightarrow> site_ptr \<Rightarrow> bool" where
  "same_site l priority format filename p \<longleftrightarrow>
     cs_priority (sites l p) = priority \<and> cs_format (sites l p) = format \<and> cs_filename (sites l p) = filename"

text \<open>The search through the call sites of a line; every one that is looked at must have the line number.\<close>

fun csl_find :: "log \<Rightarrow> u8 \<Rightarrow> string \<Rightarrow> string \<Rightarrow> u32 \<Rightarrow> site_ptr list \<Rightarrow> site_ptr option option" where
  "csl_find l priority format filename lineno [] = Some None"
| "csl_find l priority format filename lineno (p # ps) =
     (if cs_lineno (sites l p) \<noteq> lineno then None
      else if same_site l priority format filename p then Some (Some p)
      else csl_find l priority format filename lineno ps)"

text \<open>
  Find or make a call site; the second component says whether it is new. The first one of a line is compared with its message id, which
  must then be there. \<open>calloc\<close> is the allocation of a list element.
\<close>

definition qb_log_dcs_get ::
    "(string \<Rightarrow> string \<Rightarrow> bool) \<Rightarrow> nat \<Rightarrow> bool \<Rightarrow> string option \<Rightarrow> string option \<Rightarrow> string option \<Rightarrow> string option \<Rightarrow> u8 \<Rightarrow> u32 \<Rightarrow> u32 \<Rightarrow> log \<Rightarrow>
     (site_ptr option \<times> bool \<times> log) option" where
  "qb_log_dcs_get regexec region calloc message_id function filename format priority lineno tags l =
     (let n = unat lineno; fn = or_empty function; file = or_empty filename; fmt = or_empty format
      in if n \<ge> DCS_MAX then None
         else case dcs_lookup l n of
                [] \<Rightarrow>
                  do { (p, l) \<leftarrow> log_dcs_new_cs regexec region message_id fn file fmt priority lineno tags l;
                       Some (Some p, True, l\<lparr>dcs_lookup := (dcs_lookup l)(n := [p])\<rparr>) }
              | p # ps \<Rightarrow>
                  if priority = cs_priority (sites l p) \<and> message_id \<noteq> None \<and> cs_message_id (sites l p) = None then None
                  else if same_site l priority fmt file p \<and> (message_id = None \<or> message_id = cs_message_id (sites l p)) then Some (Some p, False, l)
                  else (case csl_find l priority fmt file lineno (p # ps) of
                          None \<Rightarrow> None
                        | Some (Some q) \<Rightarrow> Some (Some q, False, l)
                        | Some None \<Rightarrow>
                            if \<not> calloc then Some (None, False, l)
                            else do { (q, l) \<leftarrow> log_dcs_new_cs regexec region message_id fn file fmt priority lineno tags l;
                                      Some (Some q, True, l\<lparr>dcs_lookup := (dcs_lookup l)(n := p # ps @ [q])\<rparr>) }))"

definition site_upd :: "site_ptr \<Rightarrow> (log_site \<Rightarrow> log_site) \<Rightarrow> log \<Rightarrow> log" where
  "site_upd p f l = l\<lparr>sites := (sites l)(p := f (sites l p))\<rparr>"

definition qb_log_callsite_get2 ::
    "(string \<Rightarrow> string \<Rightarrow> bool) \<Rightarrow> nat \<Rightarrow> bool \<Rightarrow> string option \<Rightarrow> string option \<Rightarrow> string option \<Rightarrow> string option \<Rightarrow> u8 \<Rightarrow> u32 \<Rightarrow> u32 \<Rightarrow> log \<Rightarrow>
     (site_ptr option \<times> log) option" where
  "qb_log_callsite_get2 regexec region calloc message_id function filename format priority lineno tags l =
     (if \<not> logger_inited l then Some (None, l)
      else do {
        (cs, new_dcs, l) \<leftarrow> qb_log_dcs_get regexec region calloc message_id function filename format priority lineno tags l;
        Some (case cs of
                None \<Rightarrow> (None, l)
              | Some p \<Rightarrow>
                  if new_dcs then
                    let l = site_upd p (apply_targets regexec l) l;
                        l = site_upd p (if tags = 0 then apply_tags regexec l else (\<lambda>cs. cs\<lparr>cs_tags := tags\<rparr>)) l
                    in (Some p, site_upd p (apply_custom l) l)
                  else
                    let l = (if tags \<noteq> 0 \<and> cs_tags (sites l p) \<noteq> tags then site_upd p (\<lambda>cs. cs\<lparr>cs_tags := tags\<rparr>) l else l)
                    in (Some p, site_upd p (apply_custom l) l)) })"

section \<open>Delivery\<close>

definition QB_LOG_BUF_LEN :: nat where "QB_LOG_BUF_LEN = 512"

text \<open>The message that a logger gets: the extended part behind the mark is shown with a bar or cut off.\<close>

definition qb_do_extended :: "string \<Rightarrow> bool \<Rightarrow> string option" where
  "qb_do_extended str extended =
     (if QB_XC \<notin> set str then Some str
      else
        let pre = takeWhile (\<lambda>c. c \<noteq> QB_XC) str; post = tl (dropWhile (\<lambda>c. c \<noteq> QB_XC) str)
        in if pre \<noteq> [] \<or> extended then Some (if extended \<and> post \<noteq> [] then pre @ CHR ''|'' # post else pre) else None)"

text \<open>Format the message into the buffer \<open>str\<close>; \<open>msg\<close> is the text that \<^verbatim>\<open>printf\<close> would print.\<close>

definition log_cs_format :: "char list \<Rightarrow> nat \<Rightarrow> string \<Rightarrow> string option" where
  "log_cs_format str maxlen msg =
     do { (len, b) \<leftarrow> snprintf_text str 0 maxlen msg;
          let len = min len maxlen;
          if len = 0 then None
          else do { c \<leftarrow> peek b (len - 1) 1;
                    b \<leftarrow> (if c = [CHR 0x0A] then poke b (len - 1) [NUL] else Some b);
                    cstr b 0 } }"

definition wants :: "log \<Rightarrow> site_ptr \<Rightarrow> nat \<Rightarrow> bool" where
  "wants l p i \<longleftrightarrow> tg_state (conf l ! i) = QB_LOG_STATE_ENABLED \<and> qb_bit_is_set (cs_targets (sites l p)) i"

definition extended_event :: "(string \<Rightarrow> log_event) \<Rightarrow> string \<Rightarrow> bool \<Rightarrow> log_event list" where
  "extended_event ev str extended = (case qb_do_extended str extended of None \<Rightarrow> [] | Some m \<Rightarrow> [ev m])"

text \<open>The loop over the targets; the message is formatted by the first one that needs it.\<close>

fun deliver_loop :: "log \<Rightarrow> site_ptr \<Rightarrow> char list \<Rightarrow> nat \<Rightarrow> string \<Rightarrow> string option \<Rightarrow> bool \<Rightarrow> nat list \<Rightarrow> (log_event list \<times> string option \<times> bool) option" where
  "deliver_loop l p str maxlen msg formatted threaded [] = Some ([], formatted, threaded)"
| "deliver_loop l p str maxlen msg formatted threaded (i # is) =
     (let t = conf l ! i; need = (if formatted = None then log_cs_format str maxlen msg else formatted)
      in if \<not> wants l p i then deliver_loop l p str maxlen msg formatted threaded is
         else if tg_threaded t then
           (if threaded then deliver_loop l p str maxlen msg formatted threaded is
            else case need of None \<Rightarrow> None | Some s \<Rightarrow> deliver_loop l p str maxlen msg (Some s) True is)
         else if tg_vlogger t then
           map_option (\<lambda>(ev, r). (EvVlogger i p # ev, r)) (deliver_loop l p str maxlen msg formatted threaded is)
         else if tg_logger t then
           (case need of
              None \<Rightarrow> None
            | Some s \<Rightarrow> map_option (\<lambda>(ev, r). (extended_event (EvLogger i p) s (tg_extended t) @ ev, r))
                          (deliver_loop l p str maxlen msg (Some s) threaded is))
         else deliver_loop l p str maxlen msg formatted threaded is)"

definition longest_line :: "log \<Rightarrow> site_ptr \<Rightarrow> nat" where
  "longest_line l p = foldl max 0 (map (\<lambda>i. t_max_line_length (conf l ! i)) (filter (wants l p) [0..<Suc (conf_active_max l)]))"

definition QB_LOG_TAG_LIBQB_MSG_BIT :: nat where "QB_LOG_TAG_LIBQB_MSG_BIT = 31"

text \<open>
  Log a message. \<open>old_fn\<close> says that the old log function is set, \<open>malloc\<close> gives the buffer for long lines, \<open>buf\<close> is the local one. The mark against recursion is
  not taken back when there is no call site or no memory.
\<close>

definition qb_log_real_va :: "bool \<Rightarrow> (nat \<Rightarrow> char list option) \<Rightarrow> char list \<Rightarrow> string \<Rightarrow> site_ptr option \<Rightarrow> log \<Rightarrow> (log_event list \<times> log) option" where
  "qb_log_real_va old_fn malloc buf msg cs l =
     (if in_logger l then Some ([], l)
      else
        let l = l\<lparr>in_logger := True\<rparr>
        in case cs of
             None \<Rightarrow> Some ([], l)
           | Some p \<Rightarrow>
               let maxlen = longest_line l p
               in case (if maxlen > QB_LOG_BUF_LEN then malloc maxlen else Some buf) of
                    None \<Rightarrow> Some ([], l)
                  | Some str \<Rightarrow>
                      let old = old_fn \<and> qb_bit_is_set (cs_tags (sites l p)) QB_LOG_TAG_LIBQB_MSG_BIT
                      in do { formatted \<leftarrow> (if old then map_option Some (log_cs_format str maxlen msg) else Some None);
                              (ev, s, threaded) \<leftarrow> deliver_loop l p str maxlen msg formatted False [0..<Suc (conf_active_max l)];
                              Some ((case formatted of None \<Rightarrow> [] | Some s \<Rightarrow> extended_event (EvOldLog p) s True) @ ev @
                                    (case s of Some s \<Rightarrow> if threaded then [EvThread p s] else [] | None \<Rightarrow> []),
                                    l\<lparr>in_logger := False\<rparr>) })"

definition qb_log_from_external_source_va2 where
  "qb_log_from_external_source_va2 regexec region calloc old_fn malloc buf msg message_id function filename format priority lineno tags l =
     (if \<not> logger_inited l then Some ([], l)
      else do { (cs, l) \<leftarrow> qb_log_callsite_get2 regexec region calloc message_id function filename format priority lineno tags l;
                qb_log_real_va old_fn malloc buf msg cs l })"

text \<open>What the logging thread does with a record.\<close>

definition qb_log_thread_log_write :: "site_ptr \<Rightarrow> string \<Rightarrow> log \<Rightarrow> log_event list" where
  "qb_log_thread_log_write p buffer l =
     concat (map (\<lambda>i. if wants l p i \<and> tg_threaded (conf l ! i) then extended_event (EvLogger i p) buffer (tg_extended (conf l ! i)) else [])
       [0..<Suc (conf_active_max l)])"

section \<open>Start and end\<close>

definition init_target :: "string \<Rightarrow> int \<Rightarrow> log_target \<Rightarrow> log_target" where
  "init_target name facility t =
     t\<lparr>t_format := Some ''[%p] %b'', tg_debug := False, tg_file_sync := 0, tg_extended := True, tg_state := QB_LOG_STATE_UNUSED,
       t_name := take 4095 name, tg_facility := facility, t_max_line_length := QB_LOG_BUF_LEN, tg_filters := []\<rparr>"

definition qb_log_init ::
    "(string \<Rightarrow> string \<Rightarrow> bool) \<Rightarrow> (string \<Rightarrow> bool) \<Rightarrow> filter_env \<Rightarrow> string \<Rightarrow> int \<Rightarrow> u8 \<Rightarrow> log \<Rightarrow> log" where
  "qb_log_init regexec regcomp_ok env name facility priority l =
     (let l = l\<lparr>conf := map (init_target name facility) (conf l), dcs_lookup := (\<lambda>_. []), dcs_bins := Map.empty\<rparr>;
          l = l\<lparr>conf := map (\<lambda>(i, t). if i < QB_LOG_TARGET_STATIC_MAX then t\<lparr>tg_state := QB_LOG_STATE_DISABLED\<rparr> else t) (enumerate 0 (conf l)),
                logger_inited := True\<rparr>;
          l = tg_upd QB_LOG_SYSLOG (\<lambda>t. snd (qb_log_syslog_open t)) l;
          l = log_target_state_set QB_LOG_SYSLOG QB_LOG_STATE_ENABLED l
      in snd (qb_log_filter_ctl regexec regcomp_ok env (int QB_LOG_SYSLOG) QB_LOG_FILTER_ADD QB_LOG_FILTER_FILE (Some ''*'') priority l))"

fun fini_loop :: "nat list \<Rightarrow> log \<Rightarrow> log_event list \<times> log" where
  "fini_loop [] l = ([], l)"
| "fini_loop (i # is) l =
     (if i > conf_active_max l then ([], l)
      else let (ev, l) = log_target_disable i l; (ev', l) = fini_loop is (tg_upd i (\<lambda>t. t\<lparr>tg_filters := []\<rparr>) l) in (ev @ ev', l))"

definition qb_log_fini :: "log \<Rightarrow> log_event list \<times> log" where
  "qb_log_fini l =
     (if \<not> logger_inited l then ([], l)
      else
        let (ev, l) = fini_loop [0..<QB_LOG_TARGET_MAX] (l\<lparr>logger_inited := False\<rparr>)
        in (ev, l\<lparr>callsite_sections := [], tags_head := []\<rparr>))"

end
