(* ===== verification/Logger_Filter.thy ===== *)
theory Logger_Filter
  imports Logger
begin

text \<open>
  What the filters do to the call sites: a call site that is registered follows the history of the commands, and one that is
  made later gets what the stored filters say.
\<close>

section \<open>Bits\<close>

lemma bit_is_set_iff: "qb_bit_is_set w b \<longleftrightarrow> bit w b"
  by (simp add: qb_bit_is_set_def qb_bit_value_def bit_iff_and_push_bit_not_eq_0)

lemma bit_set_iff: "n < 32 \<Longrightarrow> bit (qb_bit_set w b) n \<longleftrightarrow> bit w n \<or> n = b"
  by (auto simp: qb_bit_set_def qb_bit_value_def bit_simps)

lemma bit_clear_iff: "n < 32 \<Longrightarrow> bit (qb_bit_clear w b) n \<longleftrightarrow> bit w n \<and> n \<noteq> b"
  by (auto simp: qb_bit_clear_def qb_bit_value_def bit_simps)

section \<open>One call site\<close>

text \<open>Two call sites that differ in targets and tags only match the same filters.\<close>

definition same_fields :: "log_site \<Rightarrow> log_site \<Rightarrow> bool" where
  "same_fields c d \<longleftrightarrow> cs_function c = cs_function d \<and> cs_filename c = cs_filename d \<and> cs_format c = cs_format d \<and>
     cs_priority c = cs_priority d \<and> cs_lineno c = cs_lineno d"

lemma same_fields_refl [simp]: "same_fields c c"
  by (simp add: same_fields_def)

lemma same_fields_trans: "same_fields a b \<Longrightarrow> same_fields b c \<Longrightarrow> same_fields a c"
  by (simp add: same_fields_def)

lemma same_fields_sym: "same_fields a b \<Longrightarrow> same_fields b a"
  by (simp add: same_fields_def)

lemma matches_same: "same_fields c d \<Longrightarrow> cs_matches_filter r c ty x re hi lo = cs_matches_filter r d ty x re hi lo"
  by (simp add: same_fields_def cs_matches_filter_def cong: qb_log_filter_type.case_cong option.case_cong)

lemma apply_to_cs_same [simp]: "same_fields (log_filter_apply_to_cs r t c ty x re hi lo s) s"
  by (simp add: same_fields_def log_filter_apply_to_cs_def)

text \<open>The effect on one bit.\<close>

fun new_bit :: "qb_log_filter_conf \<Rightarrow> bool \<Rightarrow> bool \<Rightarrow> bool" where
  "new_bit QB_LOG_FILTER_ADD m b = (m \<or> b)"
| "new_bit QB_LOG_FILTER_REMOVE m b = (\<not> m \<and> b)"
| "new_bit QB_LOG_FILTER_CLEAR_ALL m b = False"
| "new_bit _ m b = b"

lemma apply_to_cs_bit:
  assumes "i < 32" "unat t < 32"
  shows "bit (cs_targets (log_filter_apply_to_cs r t c ty x re hi lo s)) i =
    (if i = unat t then new_bit c (cs_matches_filter r s ty x re hi lo) (bit (cs_targets s) i) else bit (cs_targets s) i)"
  using assms by (cases c) (auto simp: log_filter_apply_to_cs_def bit_set_iff bit_clear_iff)

lemma apply_to_cs_tag: "is_tag_conf c \<Longrightarrow> cs_targets (log_filter_apply_to_cs r t c ty x re hi lo s) = cs_targets s"
  by (auto simp: log_filter_apply_to_cs_def is_tag_conf_def)

lemma apply_to_cs_twice:
  "log_filter_apply_to_cs r t c ty x re hi lo (log_filter_apply_to_cs r t c ty x re hi lo s) = log_filter_apply_to_cs r t c ty x re hi lo s"
proof -
  let ?s = "log_filter_apply_to_cs r t c ty x re hi lo s"
  have "cs_matches_filter r ?s ty x re hi lo = cs_matches_filter r s ty x re hi lo"
    by (rule matches_same[OF apply_to_cs_same])
  then show ?thesis
    by (cases c) (auto simp: log_filter_apply_to_cs_def qb_bit_set_def qb_bit_clear_def or.assoc and.assoc)
qed

section \<open>All sections\<close>

text \<open>A call site that is looked at by the filters.\<close>

definition registered :: "log \<Rightarrow> site_ptr \<Rightarrow> bool" where
  "registered l p \<longleftrightarrow> list_ex (\<lambda>s. in_section s p) (callsite_sections l) \<and> cs_lineno (sites l p) > 0"

lemma foldl_sites_apply:
  assumes "\<And>s. same_fields (f s) s" "\<And>s. f (f s) = f s"
  shows "foldl (\<lambda>l sect. sites_apply sect f l) l ss =
    l\<lparr>sites := (\<lambda>p. if list_ex (\<lambda>s. in_section s p) ss \<and> cs_lineno (sites l p) > 0 then f (sites l p) else sites l p)\<rparr>"
proof (induction ss arbitrary: l)
  case (Cons s ss)
  have ln: "cs_lineno (f x) = cs_lineno x" for x using assms(1)[of x] by (simp add: same_fields_def)
  show ?case using Cons.IH by (auto simp: sites_apply_def ln assms(2) intro!: log.fold_congs(8) ext)
qed simp

lemma filter_apply_all:
  "foldl (\<lambda>l sect. log_filter_apply r sect t c ty x re hi lo l) l ss =
    l\<lparr>sites := (\<lambda>p. if list_ex (\<lambda>s. in_section s p) ss \<and> cs_lineno (sites l p) > 0
                 then log_filter_apply_to_cs r t c ty x re hi lo (sites l p) else sites l p)\<rparr>"
  unfolding log_filter_apply_def by (rule foldl_sites_apply) (simp_all add: apply_to_cs_twice)

section \<open>Commands\<close>

text \<open>A call of \<^verbatim>\<open>qb_log_filter_ctl2\<close>, with what the allocations give.\<close>

record flt_cmd =
  fc_env :: filter_env
  fc_t :: int
  fc_conf :: qb_log_filter_conf
  fc_type :: qb_log_filter_type
  fc_text :: "string option"
  fc_high :: u8
  fc_low :: u8

definition ctl_do :: "(string \<Rightarrow> string \<Rightarrow> bool) \<Rightarrow> (string \<Rightarrow> bool) \<Rightarrow> flt_cmd \<Rightarrow> log \<Rightarrow> int \<times> log" where
  "ctl_do r rc c l = qb_log_filter_ctl2 r rc (fc_env c) (fc_t c) (fc_conf c) (fc_type c) (fc_text c) (fc_high c) (fc_low c) l"

fun ctl_run :: "(string \<Rightarrow> string \<Rightarrow> bool) \<Rightarrow> (string \<Rightarrow> bool) \<Rightarrow> flt_cmd list \<Rightarrow> log \<Rightarrow> int list \<times> log" where
  "ctl_run r rc [] l = ([], l)"
| "ctl_run r rc (c # cs) l = (let (res, l) = ctl_do r rc c l; (ress, l) = ctl_run r rc cs l in (res # ress, l))"

definition is_add_conf :: "qb_log_filter_conf \<Rightarrow> bool" where
  "is_add_conf c \<longleftrightarrow> c = QB_LOG_FILTER_ADD \<or> c = QB_LOG_TAG_SET"

text \<open>A regular expression is compiled only when a filter is added: a command that removes one matches nothing with it.\<close>

definition cmd_regex :: "flt_cmd \<Rightarrow> string \<Rightarrow> string option" where
  "cmd_regex c x = (if is_add_conf (fc_conf c) \<and> is_regex_type (fc_type c) then Some x else None)"

definition cmd_matches :: "(string \<Rightarrow> string \<Rightarrow> bool) \<Rightarrow> flt_cmd \<Rightarrow> log_site \<Rightarrow> bool" where
  "cmd_matches r c s = (case fc_text c of None \<Rightarrow> False | Some x \<Rightarrow> cs_matches_filter r s (fc_type c) x (cmd_regex c x) (fc_high c) (fc_low c))"

definition cmd_filter :: "flt_cmd \<Rightarrow> qb_log_filter" where
  "cmd_filter c = \<lparr>flt_conf = fc_conf c, flt_type = fc_type c, flt_text = or_empty (fc_text c), flt_high_priority = fc_high c, flt_low_priority = fc_low c,
     flt_new_value = word_of_int (fc_t c), flt_regex = cmd_regex c (or_empty (fc_text c))\<rparr>"

lemma filter_store_add:
  assumes "is_add_conf c"
  shows "filter_list_store ok env t c ty x hi lo fs = (rc, fs', f) \<Longrightarrow>
    (rc < 0 \<and> fs' = fs \<and> f = None) \<or>
    (rc = 0 \<and> f = Some \<lparr>flt_conf = c, flt_type = ty, flt_text = x, flt_high_priority = hi, flt_low_priority = lo, flt_new_value = t,
       flt_regex = (if is_regex_type ty then Some x else None)\<rparr> \<and> fs' = fs @ [the f])"
  using assms by (auto simp: filter_list_store_def is_add_conf_def Let_def split: if_splits)

lemma filter_store_other: "\<not> is_add_conf c \<Longrightarrow> fst (filter_list_store ok env t c ty x hi lo fs) = 0 \<and> snd (snd (filter_list_store ok env t c ty x hi lo fs)) = None"
  by (cases c) (auto simp: filter_list_store_def is_add_conf_def)

lemma log_store_fields:
  assumes "log_filter_store ok env t c ty x hi lo l = (rc, l', f)"
  shows "sites l' = sites l" "callsite_sections l' = callsite_sections l" "logger_inited l' = logger_inited l" "length (conf l') = length (conf l)"
    "conf_active_max l' = conf_active_max l" "in_logger l' = in_logger l"
    "tg_state (conf l' ! j) = tg_state (conf l ! j)"
proof -
  have "tg_state ((conf l)[unat t := (conf l ! unat t)\<lparr>tg_filters := fs\<rparr>] ! j) = tg_state (conf l ! j)" for fs
    by (cases "unat t < length (conf l)") (auto simp: nth_list_update not_less list_update_beyond)
  then show "tg_state (conf l' ! j) = tg_state (conf l ! j)" "sites l' = sites l" "callsite_sections l' = callsite_sections l"
    "logger_inited l' = logger_inited l" "length (conf l') = length (conf l)" "conf_active_max l' = conf_active_max l" "in_logger l' = in_logger l"
    using assms by (auto simp: log_filter_store_def Let_def split: if_splits prod.splits)
qed

lemma log_store_rc:
  assumes "log_filter_store ok env t c ty x hi lo l = (rc, l', f)"
  shows "rc \<le> 0" "rc = 0 \<Longrightarrow> (case f of None \<Rightarrow> None | Some f \<Rightarrow> flt_regex f) = (if is_add_conf c \<and> is_regex_type ty then Some x else None)"
proof -
  obtain fs fs' where s: "filter_list_store ok env t c ty x hi lo fs = (rc, fs', f)"
    using assms by (auto simp: log_filter_store_def Let_def split: if_splits prod.splits)
  show "rc \<le> 0"
    using filter_store_add[OF _ s] filter_store_other[of c ok env t ty x hi lo fs] s by (cases "is_add_conf c") auto
  show "(case f of None \<Rightarrow> None | Some f \<Rightarrow> flt_regex f) = (if is_add_conf c \<and> is_regex_type ty then Some x else None)" if "rc = 0"
    using filter_store_add[OF _ s] filter_store_other[of c ok env t ty x hi lo fs] s that by (cases "is_add_conf c") auto
qed

text \<open>What a command changes.\<close>

lemma ctl_do_result:
  assumes "ctl_do r ok c l = (rc, l')"
  shows "callsite_sections l' = callsite_sections l"
    and "sites l' p = (if rc = 0 \<and> registered l p
           then log_filter_apply_to_cs r (word_of_int (fc_t c)) (fc_conf c) (fc_type c) (the (fc_text c)) (cmd_regex c (the (fc_text c))) (fc_high c) (fc_low c) (sites l p)
           else sites l p)"
    and "rc = 0 \<Longrightarrow> fc_text c \<noteq> None"
    and "rc = 0 \<Longrightarrow> \<not> is_tag_conf (fc_conf c) \<Longrightarrow> 0 \<le> fc_t c \<and> fc_t c < 32"
    and "rc \<le> 0"
proof -
  have "callsite_sections l' = callsite_sections l \<and> (\<forall>p. sites l' p = (if rc = 0 \<and> registered l p
           then log_filter_apply_to_cs r (word_of_int (fc_t c)) (fc_conf c) (fc_type c) (the (fc_text c)) (cmd_regex c (the (fc_text c))) (fc_high c) (fc_low c) (sites l p)
           else sites l p)) \<and> (rc = 0 \<longrightarrow> fc_text c \<noteq> None) \<and> (rc = 0 \<longrightarrow> \<not> is_tag_conf (fc_conf c) \<longrightarrow> 0 \<le> fc_t c \<and> fc_t c < 32) \<and> rc \<le> 0"
  proof (cases "logger_inited l \<and> (is_tag_conf (fc_conf c) \<or> \<not> bad_target (fc_t c) l) \<and> fc_text c \<noteq> None \<and> \<not> fc_low c < fc_high c")
    case False
    then show ?thesis using assms by (auto simp: ctl_do_def qb_log_filter_ctl2_def split: if_splits option.splits)
  next
    case True
    then obtain x where x: "fc_text c = Some x" by auto
    obtain res l1 f where s: "log_filter_store ok (fc_env c) (word_of_int (fc_t c)) (fc_conf c) (fc_type c) x (fc_high c) (fc_low c) l = (res, l1, f)"
      by (metis prod_cases3)
    note fl = log_store_fields[OF s] note re = log_store_rc[OF s]
    have in_range: "\<not> is_tag_conf (fc_conf c) \<Longrightarrow> 0 \<le> fc_t c \<and> fc_t c < 32"
      using True by (auto simp: bad_target_def QB_LOG_TARGET_MAX_def)
    show ?thesis
    proof (cases "res < 0")
      case res: True
      then have "rc = res" "l' = l1" using assms True by (auto simp: ctl_do_def qb_log_filter_ctl2_def x s)
      then show ?thesis using fl res by simp
    next
      case False
      then have "res = 0" using re(1) by simp
      then have "rc = 0" "l' = foldl (\<lambda>l sect. log_filter_apply r sect (word_of_int (fc_t c)) (fc_conf c) (fc_type c) x (cmd_regex c x) (fc_high c) (fc_low c) l) l1 (callsite_sections l1)"
        using assms True re(2) by (auto simp: ctl_do_def qb_log_filter_ctl2_def x s cmd_regex_def Let_def)
      then show ?thesis using fl in_range by (simp add: filter_apply_all registered_def x)
    qed
  qed
  then show "callsite_sections l' = callsite_sections l"
    "sites l' p = (if rc = 0 \<and> registered l p
           then log_filter_apply_to_cs r (word_of_int (fc_t c)) (fc_conf c) (fc_type c) (the (fc_text c)) (cmd_regex c (the (fc_text c))) (fc_high c) (fc_low c) (sites l p)
           else sites l p)"
    "rc = 0 \<Longrightarrow> fc_text c \<noteq> None" "rc = 0 \<Longrightarrow> \<not> is_tag_conf (fc_conf c) \<Longrightarrow> 0 \<le> fc_t c \<and> fc_t c < 32" "rc \<le> 0" by blast+
qed

text \<open>The bit of a target, by the history of the commands that succeeded.\<close>

definition cmd_bit :: "(string \<Rightarrow> string \<Rightarrow> bool) \<Rightarrow> nat \<Rightarrow> log_site \<Rightarrow> bool \<Rightarrow> flt_cmd \<times> int \<Rightarrow> bool" where
  "cmd_bit r i s b cr =
     (let (c, rc) = cr
      in if rc = 0 \<and> \<not> is_tag_conf (fc_conf c) \<and> fc_t c = int i then new_bit (fc_conf c) (cmd_matches r c s) b else b)"

lemma ctl_do_bit:
  assumes "ctl_do r ok c l = (rc, l')" "registered l p" "i < 32"
  shows "registered l' p" "same_fields (sites l' p) (sites l p)"
    "bit (cs_targets (sites l' p)) i = cmd_bit r i (sites l p) (bit (cs_targets (sites l p)) i) (c, rc)"
proof -
  note R = ctl_do_result[OF assms(1)]
  show sf: "same_fields (sites l' p) (sites l p)" by (simp add: R(2)[of p])
  then show "registered l' p" using assms(2) R(1) by (simp add: registered_def same_fields_def)
  show "bit (cs_targets (sites l' p)) i = cmd_bit r i (sites l p) (bit (cs_targets (sites l p)) i) (c, rc)"
  proof (cases "rc = 0 \<and> \<not> is_tag_conf (fc_conf c)")
    case True
    then have t: "0 \<le> fc_t c" "fc_t c < 32" using R(4) by auto
    then have u: "unat (word_of_int (fc_t c) :: u32) = nat (fc_t c)" by (simp add: unat_eq_nat_uint uint_word_of_int)
    have "(i = nat (fc_t c)) = (fc_t c = int i)" using t by auto
    then show ?thesis
      using True assms(2,3) t R(3) by (auto simp: R(2)[of p] apply_to_cs_bit u cmd_bit_def cmd_matches_def)
  next
    case False
    then show ?thesis by (auto simp: R(2)[of p] cmd_bit_def apply_to_cs_tag)
  qed
qed

lemma cmd_bit_same: "same_fields s s' \<Longrightarrow> cmd_bit r i s = cmd_bit r i s'"
  using matches_same by (auto simp: cmd_bit_def cmd_matches_def fun_eq_iff split: option.splits)

section \<open>Late call sites\<close>

text \<open>A stored filter that was added.\<close>

definition flt_added :: "qb_log_filter \<Rightarrow> bool" where
  "flt_added f \<longleftrightarrow> flt_conf f = QB_LOG_FILTER_ADD"

definition flt_matches :: "(string \<Rightarrow> string \<Rightarrow> bool) \<Rightarrow> log_site \<Rightarrow> qb_log_filter \<Rightarrow> bool" where
  "flt_matches r s f = cs_matches_filter r s (flt_type f) (flt_text f) (flt_regex f) (flt_high_priority f) (flt_low_priority f)"

lemma apply_filters_bit:
  assumes "i < 32" "j < 32" "list_all flt_added fs"
  shows "same_fields (foldl (\<lambda>cs f. apply_flt r (of_nat j) f cs) s fs) s \<and>
    bit (cs_targets (foldl (\<lambda>cs f. apply_flt r (of_nat j) f cs) s fs)) i = (bit (cs_targets s) i \<or> i = j \<and> list_ex (flt_matches r s) fs)"
  using assms(3)
proof (induction fs arbitrary: s)
  case (Cons f fs)
  let ?s = "apply_flt r (of_nat j) f s"
  have sf: "same_fields ?s s" by (simp add: apply_flt_def)
  have "unat (of_nat j :: u32) = j" using assms(2) by (simp add: unat_of_nat)
  then have "bit (cs_targets ?s) i = (bit (cs_targets s) i \<or> i = j \<and> flt_matches r s f)"
    using Cons.prems assms(1,2) by (auto simp: apply_flt_def apply_to_cs_bit flt_added_def flt_matches_def)
  moreover have "flt_matches r ?s g = flt_matches r s g" for g using matches_same[OF sf] by (simp add: flt_matches_def)
  moreover have "flt_matches r ?s = flt_matches r s" using calculation(2) by (simp add: fun_eq_iff)
  ultimately show ?case
    using Cons.IH[of ?s] Cons.prems sf by (auto intro: same_fields_trans)
qed simp

lemma apply_targets_bit:
  assumes "i < 32" "\<And>j. j \<in> set is \<Longrightarrow> j < 32 \<and> list_all flt_added (tg_filters (conf l ! j))"
  shows "same_fields (foldl (\<lambda>cs j. foldl (\<lambda>cs f. apply_flt r (of_nat j) f cs) cs (tg_filters (conf l ! j))) s is) s \<and>
    bit (cs_targets (foldl (\<lambda>cs j. foldl (\<lambda>cs f. apply_flt r (of_nat j) f cs) cs (tg_filters (conf l ! j))) s is)) i =
      (bit (cs_targets s) i \<or> i \<in> set is \<and> list_ex (flt_matches r s) (tg_filters (conf l ! i)))"
  using assms(2)
proof (induction "is" arbitrary: s)
  case (Cons j js)
  let ?s = "foldl (\<lambda>cs f. apply_flt r (of_nat j) f cs) s (tg_filters (conf l ! j))"
  note A = apply_filters_bit[OF assms(1), of j "tg_filters (conf l ! j)" r s]
  have "flt_matches r ?s = flt_matches r s" using A Cons.prems[of j] matches_same by (auto simp: flt_matches_def fun_eq_iff)
  then show ?case using A Cons.IH[of ?s] Cons.prems by (auto intro: same_fields_trans)
qed simp

lemma active_below: "j \<in> set (active_targets l) \<Longrightarrow> conf_active_max l < 32 \<Longrightarrow> j < 32"
  by (auto simp: active_targets_def simp del: upt_Suc)

text \<open>Commands that add filters append them.\<close>

definition stored_on :: "nat \<Rightarrow> (flt_cmd \<times> int) list \<Rightarrow> qb_log_filter list" where
  "stored_on i crs = map (\<lambda>cr. cmd_filter (fst cr)) (filter (\<lambda>(c, rc). rc = 0 \<and> fc_t c = int i) crs)"

lemma ctl_do_stored:
  assumes "ctl_do r ok c l = (rc, l')" "fc_conf c = QB_LOG_FILTER_ADD" "length (conf l) = 32" "i < 32"
  shows "tg_filters (conf l' ! i) = tg_filters (conf l ! i) @ stored_on i [(c, rc)]" "length (conf l') = 32"
    "tg_state (conf l' ! j) = tg_state (conf l ! j)" "conf_active_max l' = conf_active_max l"
proof -
  have "tg_filters (conf l' ! i) = tg_filters (conf l ! i) @ stored_on i [(c, rc)] \<and> length (conf l') = 32 \<and>
    tg_state (conf l' ! j) = tg_state (conf l ! j) \<and> conf_active_max l' = conf_active_max l"
  proof (cases "logger_inited l \<and> \<not> bad_target (fc_t c) l \<and> fc_text c \<noteq> None \<and> \<not> fc_low c < fc_high c")
    case False
    then have "l' = l" "rc \<noteq> 0" using assms(1,2) by (auto simp: ctl_do_def qb_log_filter_ctl2_def is_tag_conf_def split: if_splits option.splits)
    then show ?thesis using assms(3) by (simp add: stored_on_def)
  next
    case True
    then obtain x where x: "fc_text c = Some x" by auto
    have t: "0 \<le> fc_t c" "fc_t c < 32" using True by (auto simp: bad_target_def QB_LOG_TARGET_MAX_def)
    then have u: "unat (word_of_int (fc_t c) :: u32) = nat (fc_t c)" by (simp add: unat_eq_nat_uint uint_word_of_int)
    obtain res l1 f where s: "log_filter_store ok (fc_env c) (word_of_int (fc_t c)) (fc_conf c) (fc_type c) x (fc_high c) (fc_low c) l = (res, l1, f)"
      by (metis prod_cases3)
    obtain fs' where fs: "filter_list_store ok (fc_env c) (word_of_int (fc_t c)) (fc_conf c) (fc_type c) x (fc_high c) (fc_low c) (tg_filters (conf l ! nat (fc_t c))) = (res, fs', f)"
      "l1 = l\<lparr>conf := (conf l)[nat (fc_t c) := (conf l ! nat (fc_t c))\<lparr>tg_filters := fs'\<rparr>]\<rparr>"
      using s assms(2) by (auto simp: log_filter_store_def is_tag_conf_def u Let_def split: prod.splits)
    have add: "is_add_conf (fc_conf c)" by (simp add: assms(2) is_add_conf_def)
    have l': "rc = res" "conf l' = conf l1" "conf_active_max l' = conf_active_max l"
      using assms(1) True log_store_rc(1)[OF s] log_store_fields[OF s]
      by (auto simp: ctl_do_def qb_log_filter_ctl2_def x s Let_def filter_apply_all split: if_splits)
    have "fs' = tg_filters (conf l ! nat (fc_t c)) @ (if rc = 0 then [cmd_filter c] else [])"
      using filter_store_add[OF add fs(1)] l'(1) add by (auto simp: cmd_filter_def x or_empty_def cmd_regex_def)
    then have "tg_filters (conf l' ! i) = tg_filters (conf l ! i) @ stored_on i [(c, rc)]"
      using t assms(3,4) by (auto simp: l'(2) fs(2) nth_list_update stored_on_def)
    then show ?thesis using log_store_fields[OF s] l' assms(3) by simp
  qed
  then show "tg_filters (conf l' ! i) = tg_filters (conf l ! i) @ stored_on i [(c, rc)]" "length (conf l') = 32"
    "tg_state (conf l' ! j) = tg_state (conf l ! j)" "conf_active_max l' = conf_active_max l" by blast+
qed

lemma ctl_run_stored:
  assumes "list_all (\<lambda>c. fc_conf c = QB_LOG_FILTER_ADD) cmds" "ctl_run r ok cmds l = (rcs, l')" "length (conf l) = 32" "i < 32"
  shows "tg_filters (conf l' ! i) = tg_filters (conf l ! i) @ stored_on i (zip cmds rcs) \<and> length (conf l') = 32 \<and>
    (\<forall>j. tg_state (conf l' ! j) = tg_state (conf l ! j)) \<and> conf_active_max l' = conf_active_max l"
  using assms(1-3)
proof (induction cmds arbitrary: l rcs)
  case (Cons c cmds)
  obtain rc l1 rcs1 where s: "ctl_do r ok c l = (rc, l1)" "ctl_run r ok cmds l1 = (rcs1, l')" "rcs = rc # rcs1"
    using Cons.prems(2) by (auto split: prod.splits)
  have add: "fc_conf c = QB_LOG_FILTER_ADD" using Cons.prems(1) by simp
  note D = ctl_do_stored[OF s(1) add Cons.prems(3) assms(4)]
  show ?case using Cons.IH[OF _ s(2) D(2)] Cons.prems(1) D(1,3,4) by (auto simp: stored_on_def s(3))
qed (simp add: stored_on_def)

lemma history_add:
  assumes "list_all (\<lambda>c. fc_conf c = QB_LOG_FILTER_ADD) cmds" "list_all (\<lambda>(c, rc). rc = 0 \<longrightarrow> fc_text c \<noteq> None) (zip cmds rcs)"
  shows "foldl (cmd_bit r i s) b (zip cmds rcs) = (b \<or> list_ex (flt_matches r s) (stored_on i (zip cmds rcs)))"
  using assms
proof (induction cmds arbitrary: b rcs)
  case (Cons c cmds)
  show ?case
  proof (cases rcs)
    case (Cons rc rcs')
    have m: "rc = 0 \<Longrightarrow> cmd_matches r c s = flt_matches r s (cmd_filter c)"
      using Cons.prems(2) Cons by (auto simp: cmd_matches_def flt_matches_def cmd_filter_def or_empty_def)
    have "cmd_bit r i s b (c, rc) = (b \<or> list_ex (flt_matches r s) (stored_on i [(c, rc)]))"
      using Cons.prems(1) m by (auto simp: cmd_bit_def stored_on_def is_tag_conf_def)
    then show ?thesis using Cons.IH[of rcs' "cmd_bit r i s b (c, rc)"] Cons.prems Cons by (auto simp: stored_on_def)
  qed (simp add: stored_on_def)
qed (simp add: stored_on_def)

lemma ctl_run_text: "ctl_run r ok cmds l = (rcs, l') \<Longrightarrow> list_all (\<lambda>(c, rc). rc = 0 \<longrightarrow> fc_text c \<noteq> None) (zip cmds rcs)"
proof (induction cmds arbitrary: l rcs)
  case (Cons c cmds)
  obtain rc l1 rcs1 where s: "ctl_do r ok c l = (rc, l1)" "ctl_run r ok cmds l1 = (rcs1, l')" "rcs = rc # rcs1"
    using Cons.prems by (auto split: prod.splits)
  show ?case using Cons.IH[OF s(2)] ctl_do_result(3)[OF s(1)] by (auto simp: s(3))
qed simp

lemma ctl_run_bit:
  assumes "registered l p" "i < 32" "ctl_run r ok cmds l = (rcs, l')"
  shows "registered l' p \<and> same_fields (sites l' p) (sites l p) \<and>
    bit (cs_targets (sites l' p)) i = foldl (cmd_bit r i (sites l p)) (bit (cs_targets (sites l p)) i) (zip cmds rcs)"
  using assms(1,3)
proof (induction cmds arbitrary: l rcs)
  case (Cons c cmds)
  obtain rc l1 rcs1 where s: "ctl_do r ok c l = (rc, l1)" "ctl_run r ok cmds l1 = (rcs1, l')" "rcs = rc # rcs1"
    using Cons.prems(2) by (auto split: prod.splits)
  note B = ctl_do_bit[OF s(1) Cons.prems(1) assms(2)]
  have "cmd_bit r i (sites l1 p) = cmd_bit r i (sites l p)" by (rule cmd_bit_same[OF B(2)])
  then show ?case using Cons.IH[OF B(1) s(2)] B(2,3) by (auto simp: s(3) intro: same_fields_trans)
qed simp

section \<open>Examples\<close>

definition ex_log_target :: "qb_log_target_state \<Rightarrow> log_target" where
  "ex_log_target s = \<lparr>t_name = ''prog'', t_format = None, t_max_line_length = 512, t_ellipsis = False, tg_state = s, tg_filters = [], tg_filename = [],
     tg_facility = 0, tg_priority_bump = 0, tg_file_sync = 0, tg_debug = False, tg_extended = True, tg_size = 0, tg_threaded = False,
     tg_instance = None, tg_logger = True, tg_vlogger = False, tg_close = False, tg_reload = False\<rparr>"

definition ex_site :: log_site where
  "ex_site = \<lparr>cs_function = ''main'', cs_filename = ''a.c'', cs_format = ''sent %d bytes'', cs_priority = 6, cs_lineno = 77, cs_targets = 0, cs_tags = 0,
     cs_message_id = None\<rparr>"

text \<open>Two enabled targets and one call site in a section.\<close>

definition ex_log :: log where
  "ex_log = \<lparr>conf = replicate 2 (ex_log_target QB_LOG_STATE_ENABLED) @ replicate 30 (ex_log_target QB_LOG_STATE_UNUSED), conf_active_max = 1, in_logger = False,
     logger_inited = True, custom_filter_fn = None, tags_head = [], callsite_sections = [\<lparr>sect_start = (0, 0), sect_stop = (0, 1)\<rparr>],
     sites = (\<lambda>_. ex_site), dcs_lookup = (\<lambda>_. []), dcs_bins = Map.empty, dcs_next = 0\<rparr>"

definition ex_filter_env :: filter_env where
  "ex_filter_env = \<lparr>fe_calloc = True, fe_strdup = True, fe_regex = True\<rparr>"

definition ex_cmd :: "qb_log_filter_conf \<Rightarrow> string \<Rightarrow> flt_cmd" where
  "ex_cmd c x = \<lparr>fc_env = ex_filter_env, fc_t = 1, fc_conf = c, fc_type = QB_LOG_FILTER_FILE, fc_text = Some x, fc_high = 0, fc_low = 7\<rparr>"

lemma ex_log_registered: "registered ex_log (0, 0)"
  by (simp add: registered_def ex_log_def in_section_def ex_site_def)

text \<open>
  Removing a filter by another text clears the bit of the call sites that are there and keeps the stored filter: a call site that is made later
  is still logged.
\<close>

lemma removal_forgotten:
  "let l = snd (ctl_run (\<lambda>_ _. False) (\<lambda>_. True) [ex_cmd QB_LOG_FILTER_ADD ''*'', ex_cmd QB_LOG_FILTER_REMOVE ''a.c''] ex_log)
   in \<not> qb_bit_is_set (cs_targets (sites l (0, 0))) 1 \<and> qb_bit_is_set (cs_targets (apply_targets (\<lambda>_ _. False) l ex_site)) 1"
  by code_simp

text \<open>A regular expression cannot be removed: the command succeeds and the call sites keep their bits.\<close>

lemma regex_removal_ignored:
  "let c = (\<lambda>k. (ex_cmd k ''a.*'')\<lparr>fc_type := QB_LOG_FILTER_FILE_REGEX\<rparr>);
       (rcs, l) = ctl_run (\<lambda>_ _. True) (\<lambda>_. True) [c QB_LOG_FILTER_ADD, c QB_LOG_FILTER_REMOVE] ex_log
   in rcs = [0, 0] \<and> qb_bit_is_set (cs_targets (sites l (0, 0))) 1"
  by code_simp

text \<open>
  A call site that is made while a target is disabled is not selected by its filters, and enabling the target (or any other setting) does not
  change the call sites.
\<close>

lemma disabled_when_made:
  assumes "i < 32" "tg_state (conf l ! i) \<noteq> QB_LOG_STATE_ENABLED" "\<And>j. j < 32 \<Longrightarrow> list_all flt_added (tg_filters (conf l ! j))" "conf_active_max l < 32"
  shows "qb_bit_is_set (cs_targets (apply_targets r l s)) i = qb_bit_is_set (cs_targets s) i"
proof -
  have "j < 32 \<and> list_all flt_added (tg_filters (conf l ! j))" if "j \<in> set (active_targets l)" for j
    using active_below[OF that assms(4)] assms(3) by simp
  moreover have "i \<notin> set (active_targets l)" using assms(2) by (auto simp: active_targets_def)
  ultimately show ?thesis
    using apply_targets_bit[OF assms(1), of "active_targets l" l r s] by (simp add: apply_targets_def bit_is_set_iff)
qed

lemma tg_upd_sites [simp]: "sites (tg_upd i f l) = sites l"
  by (simp add: tg_upd_def)

lemma state_set_sites [simp]: "sites (log_target_state_set i st l) = sites l"
  by (simp add: log_target_state_set_def Let_def split: option.split)

lemma enable_disable_sites: "sites (snd (log_target_enable bb i l)) = sites l" "sites (snd (log_target_disable i l)) = sites l"
  by (simp_all add: log_target_enable_def log_target_disable_def Let_def split_beta)

lemma conf_set_sites: "sites (snd (snd (snd (conf_set bb t c n x l)))) = sites l"
  by (cases c) (simp_all add: conf_set_def enable_disable_sites Let_def split_beta)

lemma ctl2_keeps_sites: "sites (snd (snd (qb_log_ctl2 bb t c n x l))) = sites l"
  using conf_set_sites[of bb "nat t" c n x l] by (simp add: qb_log_ctl2_def Let_def split_beta)

text \<open>Freeing a target does not clear its filters: the call that should do it is refused because it has no text.\<close>

lemma target_free_keeps_filters:
  assumes "i < 32" "length (conf l) = 32"
  shows "tg_filters (conf (qb_log_target_free r ok env i l) ! i) = tg_filters (conf l ! i)" "sites (qb_log_target_free r ok env i l) = sites l"
proof -
  have "snd (qb_log_filter_ctl r ok env (int i) QB_LOG_FILTER_CLEAR_ALL QB_LOG_FILTER_FILE None 0 l) = l"
    by (simp add: qb_log_filter_ctl_def qb_log_filter_ctl2_def)
  then show "tg_filters (conf (qb_log_target_free r ok env i l) ! i) = tg_filters (conf l ! i)" "sites (qb_log_target_free r ok env i l) = sites l"
    using assms by (auto simp: qb_log_target_free_def log_target_state_set_def tg_upd_def Let_def split_beta split: option.splits)
qed

section \<open>Properties\<close>

text \<open>
  C9: The targets of a call site follow the history of the filter commands. For a call site of a registered section and for every target, after any sequence of calls of
  \<^verbatim>\<open>qb_log_filter_ctl2\<close>, with any arguments and any failures, the bit of the target is set exactly if the last command that succeeded for this
  target and concerns the call site was an addition: an addition or removal concerns it when it matches, clearing always does; commands for other targets, for
  tags, and those that fail do not change the bit.
\<close>

theorem filter_history:
  assumes "registered l p" "i < 32" "ctl_run r ok cmds l = (rcs, l')"
  shows "qb_bit_is_set (cs_targets (sites l' p)) i =
    foldl (cmd_bit r i (sites l p)) (qb_bit_is_set (cs_targets (sites l p)) i) (zip cmds rcs)"
  using ctl_run_bit[OF assms] by (simp add: bit_is_set_iff)

theorem filter_history_witness:
  "qb_bit_is_set (cs_targets (sites (snd (ctl_run (\<lambda>_ _. False) (\<lambda>_. True) [ex_cmd QB_LOG_FILTER_ADD ''b.c,a.c'', ex_cmd QB_LOG_FILTER_REMOVE ''b.c''] ex_log)) (0, 0))) 1"
proof -
  let ?cmds = "[ex_cmd QB_LOG_FILTER_ADD ''b.c,a.c'', ex_cmd QB_LOG_FILTER_REMOVE ''b.c'']"
  let ?run = "ctl_run (\<lambda>_ _. False) (\<lambda>_. True) ?cmds ex_log"
  have i: "(1 :: nat) < 32" by simp
  have "qb_bit_is_set (cs_targets (sites (snd ?run) (0, 0))) 1 =
      foldl (cmd_bit (\<lambda>_ _. False) 1 (sites ex_log (0, 0))) (qb_bit_is_set (cs_targets (sites ex_log (0, 0))) 1) (zip ?cmds (fst ?run))"
    by (rule filter_history[OF ex_log_registered i prod.collapse[symmetric]])
  moreover have "fst ?run = [0, 0]" by code_simp
  moreover have "foldl (cmd_bit (\<lambda>_ _. False) 1 (sites ex_log (0, 0))) (qb_bit_is_set (cs_targets (sites ex_log (0, 0))) 1) (zip ?cmds [0, 0])" by code_simp
  ultimately show ?thesis by metis
qed

text \<open>
  C10: As long as filters are only added, it does not matter when a call site is made. After any sequence of additions, successful or not, for a target that is enabled and
  had no filters before, a call site that was registered before the commands and one with the same fields that is made after them are selected for
  the target alike.
\<close>

theorem late_site_like_early:
  assumes "registered l p" "\<not> qb_bit_is_set (cs_targets (sites l p)) i" "i < 32" "length (conf l) = 32" "conf_active_max l < 32"
    and "tg_state (conf l ! i) = QB_LOG_STATE_ENABLED" "i \<le> conf_active_max l" "list_all (\<lambda>j. tg_filters (conf l ! j) = []) [0..<32]"
    and "list_all (\<lambda>c. fc_conf c = QB_LOG_FILTER_ADD) cmds" "ctl_run r ok cmds l = (rcs, l')"
    and "same_fields s (sites l p)" "cs_targets s = 0"
  shows "qb_bit_is_set (cs_targets (apply_targets r l' s)) i = qb_bit_is_set (cs_targets (sites l' p)) i"
proof -
  have st: "tg_filters (conf l' ! j) = stored_on j (zip cmds rcs)" "tg_state (conf l' ! j) = tg_state (conf l ! j)" "conf_active_max l' = conf_active_max l"
    if "j < 32" for j using ctl_run_stored[OF assms(9,10,4) that] assms(8) that by (auto simp: list_all_iff)
  have added: "list_all flt_added (stored_on j (zip cmds rcs))" for j
    using assms(9) by (auto simp: stored_on_def list_all_iff flt_added_def cmd_filter_def dest!: set_zip_leftD)
  have act: "j < 32 \<and> list_all flt_added (tg_filters (conf l' ! j))" if "j \<in> set (active_targets l')" for j
    using active_below[OF that] st[of j] st(3)[OF assms(3)] added[of j] assms(5) by simp
  have "i \<in> set (active_targets l')" using st[OF assms(3)] assms(6,7) by (simp add: active_targets_def less_Suc_eq_le del: upt_Suc)
  then have "bit (cs_targets (apply_targets r l' s)) i = list_ex (flt_matches r s) (stored_on i (zip cmds rcs))"
    using apply_targets_bit[OF assms(3) act, of "active_targets l'" r s] st(1)[OF assms(3)] assms(12) by (simp add: apply_targets_def)
  moreover have "flt_matches r s = flt_matches r (sites l p)" using matches_same[OF assms(11)] by (simp add: flt_matches_def fun_eq_iff)
  moreover have "bit (cs_targets (sites l' p)) i = list_ex (flt_matches r (sites l p)) (stored_on i (zip cmds rcs))"
    using ctl_run_bit[OF assms(1,3,10)] history_add[OF assms(9) ctl_run_text[OF assms(10)]] assms(2) by (simp add: bit_is_set_iff)
  ultimately show ?thesis by (simp add: bit_is_set_iff)
qed

theorem late_site_like_early_witness:
  "qb_bit_is_set (cs_targets (apply_targets (\<lambda>_ _. False) (snd (ctl_run (\<lambda>_ _. False) (\<lambda>_. True) [ex_cmd QB_LOG_FILTER_ADD ''a.c''] ex_log)) ex_site)) 1 =
   qb_bit_is_set (cs_targets (sites (snd (ctl_run (\<lambda>_ _. False) (\<lambda>_. True) [ex_cmd QB_LOG_FILTER_ADD ''a.c''] ex_log)) (0, 0))) 1"
proof (rule late_site_like_early[OF ex_log_registered _ _ _ _ _ _ _ _ prod.collapse[symmetric]])
  show "\<not> qb_bit_is_set (cs_targets (sites ex_log (0, 0))) 1" "same_fields ex_site (sites ex_log (0, 0))" "cs_targets ex_site = 0"
    "tg_state (conf ex_log ! 1) = QB_LOG_STATE_ENABLED" "list_all (\<lambda>j. tg_filters (conf ex_log ! j) = []) [0..<32]"
    "list_all (\<lambda>c. fc_conf c = QB_LOG_FILTER_ADD) [ex_cmd QB_LOG_FILTER_ADD ''a.c'']" "length (conf ex_log) = 32" by code_simp+
qed (simp_all add: ex_log_def)

end
