(* ===== verification/Logger_Deliver.thy ===== *)
theory Logger_Deliver
  imports Logger_Filter
begin

text \<open>
  The invariant of the targets over all operations of the logging, and the delivery of a message: it reaches exactly the enabled
  targets that the call site selects.
\<close>

section \<open>Targets\<close>

definition enabled :: "log \<Rightarrow> nat \<Rightarrow> bool" where
  "enabled l i \<longleftrightarrow> tg_state (conf l ! i) = QB_LOG_STATE_ENABLED"

definition log_inv :: "log \<Rightarrow> bool" where
  "log_inv l \<longleftrightarrow> length (conf l) = 32 \<and> conf_active_max l < 32 \<and> (\<forall>i<32. enabled l i \<longrightarrow> i \<le> conf_active_max l) \<and>
     (\<forall>i<32. list_all flt_added (tg_filters (conf l ! i)))"

lemma last_enabled_None: "last_enabled ts n = None \<Longrightarrow> i < n \<Longrightarrow> tg_state (ts ! i) \<noteq> QB_LOG_STATE_ENABLED"
  by (induction n) (auto simp: less_Suc_eq split: if_splits)

lemma last_enabled_Some: "last_enabled ts n = Some j \<Longrightarrow> j < n \<and> (\<forall>i<n. tg_state (ts ! i) = QB_LOG_STATE_ENABLED \<longrightarrow> i \<le> j)"
proof (induction n)
  case (Suc n)
  then show ?case by (cases "tg_state (ts ! n) = QB_LOG_STATE_ENABLED") (auto simp: less_Suc_eq)
qed simp

lemma tg_upd_inv:
  assumes "log_inv l" "i < 32" "\<And>t. tg_state (f t) = tg_state t" "\<And>t. tg_filters (f t) = tg_filters t"
  shows "log_inv (tg_upd i f l)"
  using assms by (auto simp: log_inv_def tg_upd_def enabled_def nth_list_update)

lemma tg_filters_state_set: "i < 32 \<Longrightarrow> length (conf l) = 32 \<Longrightarrow> tg_filters (conf (log_target_state_set i s l) ! j) = tg_filters (conf l ! j)"
  by (auto simp: log_target_state_set_def tg_upd_def Let_def nth_list_update split: option.splits)

lemma state_set_inv:
  assumes "length (conf l) = 32" "conf_active_max l < 32" "i < 32" "\<forall>i<32. list_all flt_added (tg_filters (conf l ! i))"
  shows "log_inv (log_target_state_set i s l)"
proof -
  let ?l = "tg_upd i (tg_state_update (\<lambda>_. s)) l"
  have c: "conf (log_target_state_set i s l) = conf ?l"
    by (simp add: log_target_state_set_def Let_def split: option.split)
  have len: "length (conf ?l) = 32" using assms(1) by (simp add: tg_upd_def)
  have "conf_active_max (log_target_state_set i s l) < 32 \<and>
      (\<forall>j<32. tg_state (conf ?l ! j) = QB_LOG_STATE_ENABLED \<longrightarrow> j \<le> conf_active_max (log_target_state_set i s l))"
  proof (cases "last_enabled (conf ?l) QB_LOG_TARGET_MAX")
    case None
    then show ?thesis
      using last_enabled_None[OF None] assms(2) by (auto simp: log_target_state_set_def Let_def QB_LOG_TARGET_MAX_def tg_upd_def)
  next
    case (Some j)
    then show ?thesis using last_enabled_Some[OF Some] by (auto simp: log_target_state_set_def Let_def QB_LOG_TARGET_MAX_def)
  qed
  moreover have "\<forall>j<32. list_all flt_added (tg_filters (conf (log_target_state_set i s l) ! j))"
    using assms(4) tg_filters_state_set[OF assms(3,1)] by simp
  ultimately show ?thesis using len by (simp add: log_inv_def enabled_def c)
qed

lemma inv_state_set: "log_inv l \<Longrightarrow> i < 32 \<Longrightarrow> log_inv (log_target_state_set i s l)"
  by (rule state_set_inv) (simp_all add: log_inv_def)

text \<open>Changes of other fields.\<close>

lemma inv_other [simp]:
  "log_inv (l\<lparr>in_logger := b\<rparr>) = log_inv l" "log_inv (l\<lparr>sites := s\<rparr>) = log_inv l" "log_inv (l\<lparr>callsite_sections := ss\<rparr>) = log_inv l"
  "log_inv (l\<lparr>dcs_next := n\<rparr>) = log_inv l" "log_inv (l\<lparr>dcs_lookup := d\<rparr>) = log_inv l" "log_inv (l\<lparr>dcs_bins := bs\<rparr>) = log_inv l"
  "log_inv (l\<lparr>tags_head := th\<rparr>) = log_inv l" "log_inv (l\<lparr>custom_filter_fn := cf\<rparr>) = log_inv l" "log_inv (l\<lparr>logger_inited := li\<rparr>) = log_inv l"
  by (simp_all add: log_inv_def enabled_def)

lemma sites_apply_inv [simp]: "log_inv (sites_apply sect f l) = log_inv l"
  by (simp add: sites_apply_def)

lemma foldl_inv: "(\<And>l x. log_inv (f l x) = log_inv l) \<Longrightarrow> log_inv (foldl f l xs) = log_inv l"
  by (induction xs arbitrary: l) simp_all

lemma good_target: "\<not> bad_target t l \<Longrightarrow> 0 \<le> t \<and> t < 32 \<and> nat t < 32"
  by (auto simp: bad_target_def QB_LOG_TARGET_MAX_def)

section \<open>Every operation keeps the invariant\<close>

lemma remove_first_subset: "set (remove_first P xs) \<subseteq> set xs"
  by (induction xs) auto

lemma filter_store_added:
  assumes "list_all flt_added fs" "\<not> is_tag_conf c"
  shows "list_all flt_added (fst (snd (filter_list_store ok env t c ty x hi lo fs)))"
  using assms remove_first_subset[of _ fs]
  by (cases c) (auto simp: filter_list_store_def is_tag_conf_def flt_added_def list_all_iff Let_def subset_iff)

lemma store_inv:
  assumes "log_inv l" "log_filter_store ok env t c ty x hi lo l = (rc, l', f)" "is_tag_conf c \<or> unat t < 32"
  shows "log_inv l'"
proof (cases "is_tag_conf c")
  case True
  then show ?thesis using assms(1,2) by (auto simp: log_filter_store_def Let_def split: prod.splits)
next
  case False
  then obtain fs where fs: "l' = l\<lparr>conf := (conf l)[unat t := (conf l ! unat t)\<lparr>tg_filters := fs\<rparr>]\<rparr>"
    "fs = fst (snd (filter_list_store ok env t c ty x hi lo (tg_filters (conf l ! unat t))))"
    using assms(2) by (auto simp: log_filter_store_def Let_def split: prod.splits)
  have "list_all flt_added fs" using filter_store_added[OF _ False] assms(1,3) False by (simp add: fs(2) log_inv_def)
  then show ?thesis using assms(1,3) False by (auto simp: fs(1) log_inv_def enabled_def nth_list_update)
qed

lemma ctl_do_inv:
  assumes "log_inv l" "ctl_do r ok c l = (rc, l')"
  shows "log_inv l'"
proof (cases "logger_inited l \<and> (is_tag_conf (fc_conf c) \<or> \<not> bad_target (fc_t c) l) \<and> fc_text c \<noteq> None \<and> \<not> fc_low c < fc_high c")
  case False
  then show ?thesis using assms by (auto simp: ctl_do_def qb_log_filter_ctl2_def split: if_splits option.splits)
next
  case True
  then obtain x where x: "fc_text c = Some x" by auto
  obtain res l1 f where s: "log_filter_store ok (fc_env c) (word_of_int (fc_t c)) (fc_conf c) (fc_type c) x (fc_high c) (fc_low c) l = (res, l1, f)"
    by (metis prod_cases3)
  have "is_tag_conf (fc_conf c) \<or> unat (word_of_int (fc_t c) :: u32) < 32"
    using True good_target[of "fc_t c" l] by (auto simp: unat_eq_nat_uint uint_word_of_int)
  then have "log_inv l1" by (rule store_inv[OF assms(1) s])
  then show ?thesis
    using assms(2) True by (auto simp: ctl_do_def qb_log_filter_ctl2_def x s Let_def filter_apply_all split: if_splits)
qed

lemma alloc_inv:
  assumes "log_inv l" "qb_log_target_alloc l = (i, l')"
  shows "log_inv l' \<and> (\<forall>j. i = Some j \<longrightarrow> j < 32)"
proof -
  have "j < length ts" if "find_unused ts = Some j" for ts j
    using that by (induction ts arbitrary: j) (auto split: if_splits)
  then have "j < 32" if "find_unused (take QB_LOG_TARGET_MAX (conf l)) = Some j" for j
    using that by (fastforce simp: QB_LOG_TARGET_MAX_def)
  then show ?thesis using assms inv_state_set by (auto simp: qb_log_target_alloc_def split: option.splits)
qed

lemma free_inv: "log_inv l \<Longrightarrow> i < 32 \<Longrightarrow> log_inv (qb_log_target_free r ok env i l)"
  unfolding qb_log_target_free_def qb_log_filter_ctl_def qb_log_filter_ctl2_def
  by (auto simp: Let_def intro!: inv_state_set tg_upd_inv)

lemma disable_inv: "log_inv l \<Longrightarrow> i < 32 \<Longrightarrow> log_inv (snd (log_target_disable i l))"
  by (auto simp: log_target_disable_def Let_def intro!: inv_state_set)

lemma enable_inv:
  assumes "log_inv l" "i < 32"
  shows "log_inv (snd (log_target_enable bb i l))"
proof -
  define t where "t = snd (if i = QB_LOG_STDERR \<or> i = QB_LOG_STDOUT then qb_log_stderr_open i (conf l ! i)
                          else if i = QB_LOG_SYSLOG then qb_log_syslog_open (conf l ! i)
                          else if i = QB_LOG_BLACKBOX then log_blackbox_open bb (conf l ! i)
                          else (0, conf l ! i))"
  have t: "tg_state t = tg_state (conf l ! i)" "tg_filters t = tg_filters (conf l ! i)"
    by (simp_all add: t_def qb_log_stderr_open_def qb_log_syslog_open_def log_blackbox_open_def)
  have "log_inv (tg_upd i (\<lambda>_. t) l)"
    using assms t by (auto simp: log_inv_def tg_upd_def enabled_def nth_list_update)
  then show ?thesis
    using assms inv_state_set[of "tg_upd i (\<lambda>_. t) l" i] by (auto simp: log_target_enable_def Let_def split_beta t_def)
qed

lemma conf_set_inv:
  assumes "log_inv l" "t < 32"
  shows "log_inv (snd (snd (snd (conf_set bb t c n x l))))"
  using assms enable_inv[OF assms, of bb] disable_inv[OF assms]
  by (cases c) (auto simp: conf_set_def Let_def split_beta intro!: tg_upd_inv)

lemma ctl2_inv: "log_inv l \<Longrightarrow> log_inv (snd (snd (qb_log_ctl2 bb t c n x l)))"
  using conf_set_inv[of l "nat t" bb c n x] good_target[of t l] by (auto simp: qb_log_ctl2_def Let_def split_beta)

lemma register_inv: "log_inv l \<Longrightarrow> log_inv (snd (qb_log_callsites_register r calloc start stop l))"
  by (auto simp: qb_log_callsites_register_def Let_def foldl_inv split: option.splits)

lemma new_bin_inv: "log_inv l \<Longrightarrow> dcs_new_bin r region bin l = Some l' \<Longrightarrow> log_inv l'"
  using register_inv[of "l\<lparr>dcs_bins := (dcs_bins l)(bin := Some region), sites := (\<lambda>p. if fst p = region \<and> snd p < CALLSITE_ELEMS_PER_BIN then zero_site else sites l p)\<rparr>"
      r True "Some (region, 0)" "Some (region, CALLSITE_ELEMS_PER_BIN)"]
  by (auto simp: dcs_new_bin_def Let_def split: option.splits prod.splits if_splits)

lemma new_cs_inv: "log_inv l \<Longrightarrow> log_dcs_new_cs r region mid fn file fmt pr ln tags l = Some (p, l') \<Longrightarrow> log_inv l'"
  using new_bin_inv[of "l\<lparr>dcs_next := dcs_next l + 1\<rparr>" r region "dcs_next l div CALLSITE_ELEMS_PER_BIN"]
  by (auto simp: log_dcs_new_cs_def Let_def split: if_splits bind_splits)

lemma dcs_get_inv: "log_inv l \<Longrightarrow> qb_log_dcs_get r region calloc mid fn file fmt pr ln tags l = Some (p, n, l') \<Longrightarrow> log_inv l'"
  by (auto simp: qb_log_dcs_get_def Let_def simp del: csl_find.simps split: list.splits if_splits bind_splits option.splits dest: new_cs_inv)

lemma callsite_get_inv:
  assumes "log_inv l" "qb_log_callsite_get2 r region calloc mid fn file fmt pr ln tags l = Some (p, l')"
  shows "log_inv l'"
proof (cases "qb_log_dcs_get r region calloc mid fn file fmt pr ln tags l")
  case (Some t)
  obtain cs new l1 where t: "t = (cs, new, l1)" by (metis prod_cases3)
  have "log_inv l1" using dcs_get_inv[OF assms(1) Some[unfolded t]] .
  then show ?thesis
    using assms Some t by (auto simp: qb_log_callsite_get2_def Let_def site_upd_def split: if_splits option.splits)
qed (use assms in \<open>auto simp: qb_log_callsite_get2_def split: if_splits\<close>)

lemma real_va_inv: "log_inv l \<Longrightarrow> qb_log_real_va old_fn malloc buf msg cs l = Some (ev, l') \<Longrightarrow> log_inv l'"
  by (auto simp: qb_log_real_va_def Let_def split: if_splits bind_splits option.splits)

section \<open>Reachable states\<close>

text \<open>The arguments of a log call, with what the system gives to it.\<close>

record log_call =
  lc_region :: nat
  lc_calloc :: bool
  lc_old_fn :: bool
  lc_malloc :: "nat \<Rightarrow> char list option"
  lc_buf :: "char list"
  lc_msg :: string
  lc_message_id :: "string option"
  lc_function :: "string option"
  lc_filename :: "string option"
  lc_format :: "string option"
  lc_priority :: u8
  lc_lineno :: u32
  lc_tags :: u32

datatype log_op =
    OFilter flt_cmd
  | OFilterFn "(log_site \<Rightarrow> log_site) option"
  | OCtl "int \<times> nat option" int qb_log_conf int string
  | OOpen bool bool bool "nat option"
  | OFile filter_env "int + nat" string
  | OReopen "int + nat" "string option" int
  | OClose filter_env int
  | ORegister bool "site_ptr option" "site_ptr option"
  | OLog log_call

fun log_do :: "(string \<Rightarrow> string \<Rightarrow> bool) \<Rightarrow> (string \<Rightarrow> bool) \<Rightarrow> log_op \<Rightarrow> log \<Rightarrow> (log_event list \<times> log) option" where
  "log_do r ok (OFilter c) l = Some ([], snd (ctl_do r ok c l))"
| "log_do r ok (OFilterFn f) l = Some ([], snd (qb_log_filter_fn_set f l))"
| "log_do r ok (OCtl bb t c n x) l = Some (snd (qb_log_ctl2 bb t c n x l))"
| "log_do r ok (OOpen lf cf rf d) l = Some ([], snd (qb_log_custom_open lf cf rf d l))"
| "log_do r ok (OFile env fp x) l = Some ([], snd (qb_log_file_open r ok env fp x l))"
| "log_do r ok (OReopen fp x t) l = (if bad_target t l then Some ([], l) else Some ([], snd (snd (do_file_reload fp x t l))))"
| "log_do r ok (OClose env t) l = Some (qb_log_custom_close r ok env t l)"
| "log_do r ok (ORegister calloc start stop) l = Some ([], snd (qb_log_callsites_register r calloc start stop l))"
| "log_do r ok (OLog c) l =
     qb_log_from_external_source_va2 r (lc_region c) (lc_calloc c) (lc_old_fn c) (lc_malloc c) (lc_buf c) (lc_msg c) (lc_message_id c)
       (lc_function c) (lc_filename c) (lc_format c) (lc_priority c) (lc_lineno c) (lc_tags c) l"

inductive log_reach :: "(string \<Rightarrow> string \<Rightarrow> bool) \<Rightarrow> (string \<Rightarrow> bool) \<Rightarrow> log \<Rightarrow> bool" for r ok where
  log_start: "length (conf l) = 32 \<Longrightarrow> conf_active_max l < 32 \<Longrightarrow> log_reach r ok (qb_log_init r ok env name facility priority l)"
| log_step: "log_reach r ok l \<Longrightarrow> log_do r ok op l = Some (ev, l') \<Longrightarrow> log_reach r ok l'"

lemma user_data_inv: "log_inv l \<Longrightarrow> log_inv (snd (qb_log_target_user_data_set t d l))"
  using good_target[of t l] by (auto simp: qb_log_target_user_data_set_def intro!: tg_upd_inv)

lemma custom_open_inv: "log_inv l \<Longrightarrow> log_inv (snd (qb_log_custom_open lf cf rf d l))"
  by (auto simp: qb_log_custom_open_def intro!: tg_upd_inv split: prod.splits option.splits dest: alloc_inv)

lemma file_open_inv: "log_inv l \<Longrightarrow> log_inv (snd (qb_log_file_open r ok env fp x l))"
  by (auto simp: qb_log_file_open_def intro!: tg_upd_inv free_inv split: prod.splits option.splits sum.splits dest: alloc_inv)

lemma reload_inv: "log_inv l \<Longrightarrow> \<not> bad_target t l \<Longrightarrow> log_inv (snd (snd (do_file_reload fp x t l)))"
  using good_target[of t l]
  by (auto simp: do_file_reload_def Let_def intro!: user_data_inv tg_upd_inv split: sum.splits option.splits)

lemma close_inv: "log_inv l \<Longrightarrow> log_inv (snd (qb_log_custom_close r ok env t l))"
  using good_target[of t l] by (auto simp: qb_log_custom_close_def Let_def intro!: free_inv)

lemma log_do_inv:
  assumes "log_inv l" "log_do r ok op l = Some (ev, l')"
  shows "log_inv l'"
proof (cases op)
  case (OFilter c)
  then show ?thesis using assms ctl_do_inv[OF assms(1), of r ok c] by (auto simp: prod_eq_iff)
next
  case (OFilterFn f)
  then show ?thesis using assms by (auto simp: qb_log_filter_fn_set_def Let_def foldl_inv split: if_splits option.splits)
next
  case (OCtl bb t c n x)
  then show ?thesis using assms ctl2_inv[OF assms(1), of bb t c n x] by simp
next
  case (OOpen lf cf rf d)
  then show ?thesis using assms custom_open_inv[OF assms(1)] by auto
next
  case (OFile env fp x)
  then show ?thesis using assms file_open_inv[OF assms(1)] by auto
next
  case (OReopen fp x t)
  then show ?thesis using assms reload_inv[OF assms(1)] by (auto split: if_splits)
next
  case (OClose env t)
  then show ?thesis using assms close_inv[OF assms(1), of r ok env t] by simp
next
  case (ORegister calloc start stop)
  then show ?thesis using assms register_inv[OF assms(1)] by auto
next
  case (OLog c)
  then show ?thesis
    using assms by (auto simp: qb_log_from_external_source_va2_def split: if_splits bind_splits dest: callsite_get_inv real_va_inv)
qed

lemma init_inv:
  assumes "length (conf l) = 32" "conf_active_max l < 32"
  shows "log_inv (qb_log_init r ok env name facility priority l)"
proof -
  define ts where "ts = map (\<lambda>(i, t). if i < QB_LOG_TARGET_STATIC_MAX then t\<lparr>tg_state := QB_LOG_STATE_DISABLED\<rparr> else t) (enumerate 0 (map (init_target name facility) (conf l)))"
  have len: "length ts = 32" by (simp add: ts_def assms(1))
  have fs: "tg_filters (ts ! i) = []" if "i < 32" for i
    using that assms(1) by (simp add: ts_def nth_enumerate_eq init_target_def split_beta)
  define l1 where "l1 = l\<lparr>dcs_lookup := (\<lambda>_. []), dcs_bins := Map.empty, conf := ts, logger_inited := True\<rparr>"
  define l2 where "l2 = tg_upd QB_LOG_SYSLOG (\<lambda>t. snd (qb_log_syslog_open t)) l1"
  have "length (conf l2) = 32" "conf_active_max l2 < 32" "\<forall>i<32. list_all flt_added (tg_filters (conf l2 ! i))"
    using len fs assms(2) by (auto simp: l2_def l1_def tg_upd_def nth_list_update qb_log_syslog_open_def QB_LOG_SYSLOG_def)
  then have "log_inv (log_target_state_set QB_LOG_SYSLOG QB_LOG_STATE_ENABLED l2)" by (intro state_set_inv) (simp_all add: QB_LOG_SYSLOG_def)
  from ctl_do_inv[OF this, of r ok "\<lparr>fc_env = env, fc_t = int QB_LOG_SYSLOG, fc_conf = QB_LOG_FILTER_ADD, fc_type = QB_LOG_FILTER_FILE, fc_text = Some ''*'', fc_high = 0, fc_low = priority\<rparr>"]
  show ?thesis
    by (simp add: qb_log_init_def Let_def l2_def l1_def ts_def ctl_do_def qb_log_filter_ctl_def prod_eq_iff)
qed

lemma reach_log_inv: "log_reach r ok l \<Longrightarrow> log_inv l"
  by (induction rule: log_reach.induct) (auto intro: init_inv log_do_inv)

section \<open>The text of a message\<close>

text \<open>The message that is cut to the longest line of the targets, without a newline at its end.\<close>

definition shown :: "nat \<Rightarrow> string \<Rightarrow> string" where
  "shown maxlen msg = (if length msg < maxlen then (if last msg = CHR 0x0A then butlast msg else msg) else take (maxlen - 1) msg)"

lemma format_shown:
  assumes "msg \<noteq> []" "0 < maxlen" "maxlen \<le> length str" "NUL \<notin> set msg"
  shows "log_cs_format str maxlen msg = Some (shown maxlen msg)"
proof -
  let ?m = "take (maxlen - 1) msg"
  obtain R where b: "snprintf_text str 0 maxlen msg = Some (length msg, ?m @ NUL # R)"
    using assms(2,3) by (auto simp: snprintf_text_def)
  have nul: "cstr (s @ NUL # R') 0 = Some s" if "NUL \<notin> set s" for s R' using cstr_append[OF that, of 0 "[]"] by simp
  show ?thesis
  proof (cases "length msg < maxlen")
    case True
    then have m: "?m = msg" by simp
    obtain n where n: "length msg = Suc n" using assms(1) by (cases msg) auto
    have "peek (msg @ NUL # R) n 1 = Some [last msg]"
      using assms(1) n Cons_nth_drop_Suc[of n msg] by (simp add: peek_def last_conv_nth)
    moreover have "poke (msg @ NUL # R) n [NUL] = Some (butlast msg @ NUL # NUL # R)"
      using n by (simp add: poke_def butlast_conv_take)
    moreover have "NUL \<notin> set (butlast msg)" using assms(4) by (auto dest: in_set_butlastD)
    ultimately show ?thesis
      using True b n assms(4) nul unfolding log_cs_format_def m by (simp add: shown_def min_def)
  next
    case False
    then have len: "length ?m = maxlen - 1" by simp
    have "peek (?m @ NUL # R) (maxlen - 1) 1 = Some [NUL]" using False by (simp add: peek_def)
    moreover have "NUL \<notin> set ?m" using assms(4) by (auto dest: in_set_takeD)
    ultimately show ?thesis using False b nul assms(2) by (simp add: log_cs_format_def shown_def min_def)
  qed
qed

section \<open>Delivery\<close>

text \<open>What one target gets at once, and what the logging thread gets.\<close>

definition target_events :: "log \<Rightarrow> site_ptr \<Rightarrow> string \<Rightarrow> nat \<Rightarrow> log_event list" where
  "target_events l p s i =
     (let t = conf l ! i
      in if \<not> wants l p i \<or> tg_threaded t then []
         else if tg_vlogger t then [EvVlogger i p]
         else if tg_logger t then extended_event (EvLogger i p) s (tg_extended t)
         else [])"

definition wants_thread :: "log \<Rightarrow> site_ptr \<Rightarrow> nat \<Rightarrow> bool" where
  "wants_thread l p i \<longleftrightarrow> wants l p i \<and> tg_threaded (conf l ! i)"

lemma deliver_loop_events:
  assumes "list_ex (wants l p) is \<Longrightarrow> log_cs_format str maxlen msg = Some s" "fm = None \<or> fm = Some s" "th \<Longrightarrow> fm = Some s"
  shows "\<exists>fm'. deliver_loop l p str maxlen msg fm th is = Some (concat (map (target_events l p s) is), fm', th \<or> list_ex (wants_thread l p) is) \<and>
    (th \<or> list_ex (wants_thread l p) is \<longrightarrow> fm' = Some s)"
  using assms
proof (induction "is" arbitrary: fm th)
  case (Cons i js)
  have F: "wants l p i \<Longrightarrow> (if fm = None then log_cs_format str maxlen msg else fm) = Some s" using Cons.prems by auto
  consider "\<not> wants l p i" | "wants l p i" "tg_threaded (conf l ! i)" | "wants l p i" "\<not> tg_threaded (conf l ! i)" by blast
  then show ?case
  proof cases
    case 1
    then show ?thesis using Cons.IH[of fm th] Cons.prems by (auto simp: Let_def target_events_def wants_thread_def)
  next
    case 2
    then show ?thesis
      using Cons.IH[of fm th] Cons.IH[of "Some s" True] Cons.prems F by (auto simp: Let_def target_events_def wants_thread_def)
  next
    case 3
    then show ?thesis
      using Cons.IH[of fm th] Cons.IH[of "Some s" th] Cons.prems F by (auto simp: Let_def target_events_def wants_thread_def)
  qed
qed simp

lemma foldl_max_ge: "x \<in> set xs \<or> x \<le> a \<Longrightarrow> x \<le> foldl max a (xs :: nat list)"
  by (induction xs arbitrary: a) (auto simp: le_max_iff_disj)

lemma longest_line_ge: "wants l p i \<Longrightarrow> i \<le> conf_active_max l \<Longrightarrow> t_max_line_length (conf l ! i) \<le> longest_line l p"
  unfolding longest_line_def by (rule foldl_max_ge) (auto simp del: upt_Suc)

lemma in_logger_irrelevant [simp]:
  "wants (l\<lparr>in_logger := b\<rparr>) = wants l" "longest_line (l\<lparr>in_logger := b\<rparr>) p = longest_line l p"
  "target_events (l\<lparr>in_logger := b\<rparr>) = target_events l" "wants_thread (l\<lparr>in_logger := b\<rparr>) = wants_thread l"
  by (auto simp: fun_eq_iff wants_def longest_line_def target_events_def wants_thread_def cong: filter_cong)

lemma list_ex_upt: "list_ex P [0..<n] \<longleftrightarrow> (\<exists>i<n. P i)"
  by (simp only: list_ex_iff set_upt) auto

lemma list_all_upt: "list_all P [0..<n] \<longleftrightarrow> (\<forall>i<n. P i)"
  by (simp only: list_all_iff set_upt) auto

lemma up_to_active:
  assumes "log_inv l"
  shows "concat (map (target_events l p s) [0..<Suc (conf_active_max l)]) = concat (map (target_events l p s) [0..<32])"
    and "list_ex (wants_thread l p) [0..<Suc (conf_active_max l)] = list_ex (wants_thread l p) [0..<32]"
    and "list_ex (wants l p) [0..<Suc (conf_active_max l)] = list_ex (wants l p) [0..<32]"
proof -
  let ?m = "Suc (conf_active_max l)"
  have parts: "[0..<32] = [0..<?m] @ [?m..<32]" using assms upt_add_eq_append[of 0 ?m "32 - ?m"] by (simp add: log_inv_def del: upt_Suc)
  have off: "\<not> wants l p i" if "i \<in> set [?m..<32]" for i using that assms by (auto simp: log_inv_def enabled_def wants_def)
  then have "concat (map (target_events l p s) [?m..<32]) = []" by (simp add: target_events_def del: upt_Suc)
  then show "concat (map (target_events l p s) [0..<?m]) = concat (map (target_events l p s) [0..<32])" by (simp add: parts del: upt_Suc)
  show "list_ex (wants_thread l p) [0..<?m] = list_ex (wants_thread l p) [0..<32]" "list_ex (wants l p) [0..<?m] = list_ex (wants l p) [0..<32]"
    using off by (auto simp: parts list_ex_iff wants_thread_def simp del: upt_Suc)
qed

lemma real_va_call:
  assumes "\<not> in_logger l" "(if longest_line l p > QB_LOG_BUF_LEN then malloc (longest_line l p) else Some buf) = Some str"
    and "old = (old_fn \<and> qb_bit_is_set (cs_tags (sites l p)) QB_LOG_TAG_LIBQB_MSG_BIT)" "old \<Longrightarrow> log_cs_format str (longest_line l p) msg = Some s"
  shows "qb_log_real_va old_fn malloc buf msg (Some p) l =
      do { (ev, t, threaded) \<leftarrow> deliver_loop (l\<lparr>in_logger := True\<rparr>) p str (longest_line l p) msg (if old then Some s else None) False [0..<Suc (conf_active_max l)];
           Some ((if old then extended_event (EvOldLog p) s True else []) @ ev @ (case t of Some t \<Rightarrow> if threaded then [EvThread p t] else [] | None \<Rightarrow> []), l) }"
proof -
  have same: "l\<lparr>in_logger := False\<rparr> = l" using assms(1) by (cases l) simp
  show ?thesis
    using assms(1,2,4)
    by (cases old; cases "longest_line l p > QB_LOG_BUF_LEN") (simp_all add: qb_log_real_va_def Let_def assms(3)[symmetric] same del: upt_Suc)
qed


definition ex_started :: log where
  "ex_started = qb_log_init (\<lambda>_ _. False) (\<lambda>_. True) ex_filter_env ''prog'' 24 7 ex_log"

lemma ex_started_reach: "log_reach (\<lambda>_ _. False) (\<lambda>_. True) ex_started"
  unfolding ex_started_def by (rule log_start) (simp_all add: ex_log_def)

lemma state_set_conf: "conf (log_target_state_set i s l) = conf (tg_upd i (tg_state_update (\<lambda>_. s)) l)"
  by (simp add: log_target_state_set_def Let_def split: option.split)

lemma state_set_rest:
  "in_logger (log_target_state_set i s l) = in_logger l" "logger_inited (log_target_state_set i s l) = logger_inited l"
  "callsite_sections (log_target_state_set i s l) = callsite_sections l"
  by (simp_all add: log_target_state_set_def tg_upd_def Let_def split: option.split)

lemmas ex_started_defs = ex_started_def qb_log_init_def qb_log_filter_ctl_def qb_log_filter_ctl2_def bad_target_def QB_LOG_TARGET_MAX_def QB_LOG_SYSLOG_def
  QB_LOG_TARGET_STATIC_MAX_def log_filter_store_def is_tag_conf_def Let_def split_beta filter_apply_all state_set_conf state_set_rest tg_upd_def nth_list_update ex_log_def
  nth_enumerate_eq init_target_def qb_log_syslog_open_def ex_log_target_def nth_append QB_LOG_BUF_LEN_def

lemma ex_started_conf:
  assumes "i < 32"
  shows "tg_state (conf ex_started ! i) = (if i = 0 then QB_LOG_STATE_ENABLED else if i < 4 then QB_LOG_STATE_DISABLED else QB_LOG_STATE_UNUSED) \<and>
    t_max_line_length (conf ex_started ! i) = 512 \<and> \<not> tg_threaded (conf ex_started ! i) \<and> \<not> tg_vlogger (conf ex_started ! i) \<and>
    tg_logger (conf ex_started ! i) \<and> tg_extended (conf ex_started ! i)"
  using assms
  by (auto simp: ex_started_defs)

lemma ex_started_site: "in_logger ex_started = False" "cs_targets (sites ex_started (0, 0)) = 1"
  by (simp_all add: ex_started_defs in_section_def ex_site_def log_filter_apply_to_cs_def cs_matches_filter_def qb_bit_set_def qb_bit_value_def filter_list_store_def
      ex_filter_env_def log_filter_exists_def is_regex_type_def)

lemma ex_started_wants: "i < 32 \<Longrightarrow> wants ex_started (0, 0) i \<longleftrightarrow> i = 0"
  using ex_started_conf[of i] by (auto simp: wants_def ex_started_site qb_bit_is_set_def qb_bit_value_def)

lemma ex_started_events: "concat (map (target_events ex_started (0, 0) s) [0..<32]) = extended_event (EvLogger 0 (0, 0)) s True"
proof -
  have "[0..<32] = 0 # [1..<32]" by (subst upt_rec) simp
  moreover have "concat (map (target_events ex_started (0, 0) s) [1..<32]) = []"
    unfolding concat_eq_Nil_conv set_map set_upt using ex_started_wants by (auto simp: target_events_def)
  moreover have "target_events ex_started (0, 0) s 0 = extended_event (EvLogger 0 (0, 0)) s True"
    using ex_started_wants[of 0] ex_started_conf[of 0] by (simp add: target_events_def Let_def)
  ultimately show ?thesis by (simp only: list.map concat.simps append_Nil2)
qed

lemma ex_started_longest: "longest_line ex_started (0, 0) = 512"
proof -
  have "conf_active_max ex_started < 32" using reach_log_inv[OF ex_started_reach] by (simp add: log_inv_def)
  then have "filter (wants ex_started (0, 0)) [1..<Suc (conf_active_max ex_started)] = []" using ex_started_wants by (auto simp: filter_empty_conv)
  moreover have "[0..<Suc (conf_active_max ex_started)] = 0 # [1..<Suc (conf_active_max ex_started)]" by (subst upt_rec) simp
  ultimately show ?thesis
    using ex_started_wants[of 0] ex_started_conf[of 0] by (simp add: longest_line_def del: upt_Suc)
qed


text \<open>
  A log call without a call site, such as one from an external source before the call site could be allocated, leaves the mark against recursion set: from then on
  no message is logged any more.
\<close>

lemma no_call_site_silences:
  assumes "\<not> in_logger l" "qb_log_real_va old_fn malloc buf msg None l = Some (ev, l')"
  shows "ev = [] \<and> qb_log_real_va old_fn' malloc' buf' msg' cs l' = Some ([], l')"
  using assms by (auto simp: qb_log_real_va_def)

lemma no_memory_silences:
  assumes "\<not> in_logger l" "QB_LOG_BUF_LEN < longest_line l p" "malloc (longest_line l p) = None" "qb_log_real_va old_fn malloc buf msg (Some p) l = Some (ev, l')"
  shows "ev = [] \<and> qb_log_real_va old_fn' malloc' buf' msg' cs l' = Some ([], l')"
  using assms by (auto simp: qb_log_real_va_def Let_def)

text \<open>An empty message for a selected target is read before its start.\<close>

lemma empty_message_out_of_bounds: "0 < maxlen \<Longrightarrow> maxlen \<le> length str \<Longrightarrow> log_cs_format str maxlen [] = None"
  by (auto simp: log_cs_format_def snprintf_text_def)

end
