(* ===== verification/Log_thread.thy ===== *)
theory Log_thread
  imports Logger_Deliver "HOL-Library.Monad_Syntax"
begin

text \<open>
  The logging thread (\<^verbatim>\<open>lib/log_thread.c\<close>): the queue of records between the threads that log and the worker, its accounting, and starting and
  stopping the worker. One record has the static variables of the file, the lock, the semaphore and where the worker stands. The whole functions are given for one
  thread of control, in which the worker runs while it is being joined; the pieces between which other threads can run are definitions of their own, and
  \<open>logt_step\<close> interleaves them. The use of a lock or a semaphore that does not exist, and a wait that does not end, give \<open>None\<close>.
\<close>

section \<open>State\<close>

datatype lock = Unlocked | Locked | Destroyed

datatype worker_state = NoWorker | AtWait | HasToken | Exited

record 't qb_log_record =
  rec_cs :: site_ptr
  rec_timestamp :: 't
  rec_buffer :: string

record 't logt =
  wthread_active :: bool
  wthread_should_exit :: bool
  logt_wthread_lock :: "lock option"
  logt_records :: "'t qb_log_record list"
  logt_memory_used :: u32
  logt_dropped_messages :: u32
  logt_print_finished :: "nat option"
  logt_sched_param_queued :: bool
  logt_sched_policy :: int
  logt_sched_priority :: int
  worker :: worker_state

definition logt_init :: "'t logt" where
  "logt_init = \<lparr>wthread_active = False, wthread_should_exit = False, logt_wthread_lock = None, logt_records = [], logt_memory_used = 0, logt_dropped_messages = 0,
     logt_print_finished = None, logt_sched_param_queued = False, logt_sched_policy = 0, logt_sched_priority = 0, worker = NoWorker\<rparr>"

text \<open>What the thread puts out: the number of lost messages on the standard output, and calls of the targets.\<close>

datatype thread_event = EvLost u32 | EvLog log_event

definition logt_sem_post :: "'t logt \<Rightarrow> 't logt option" where
  "logt_sem_post s = map_option (\<lambda>v. s\<lparr>logt_print_finished := Some (Suc v)\<rparr>) (logt_print_finished s)"

definition can_lock :: "'t logt \<Rightarrow> bool" where
  "can_lock s \<longleftrightarrow> logt_wthread_lock s = Some Unlocked"

definition lock_destroy :: "'t logt \<Rightarrow> 't logt option" where
  "lock_destroy s = (if can_lock s then Some (s\<lparr>logt_wthread_lock := Some Destroyed\<rparr>) else None)"

section \<open>Posting a record\<close>

definition record_size :: nat where "record_size = 48"

text \<open>The part under the lock; the result is whether the record is in the queue.\<close>

definition post_enqueue :: "'t qb_log_record \<Rightarrow> 't logt \<Rightarrow> (bool \<times> 't logt) option" where
  "post_enqueue rec s =
     (if \<not> can_lock s then None
      else
        let total_size = of_nat record_size + of_nat (length (rec_buffer rec) + 1) :: u32;
            s = s\<lparr>logt_memory_used := logt_memory_used s + total_size\<rparr>
        in if sint (logt_memory_used s) > 512000
           then Some (False, s\<lparr>logt_memory_used := logt_memory_used s - total_size, logt_dropped_messages := logt_dropped_messages s + 1\<rparr>)
           else Some (True, s\<lparr>logt_records := logt_records s @ [rec]\<rparr>))"

definition qb_log_thread_log_post :: "bool \<Rightarrow> bool \<Rightarrow> site_ptr \<Rightarrow> 't \<Rightarrow> string \<Rightarrow> 't logt \<Rightarrow> 't logt option" where
  "qb_log_thread_log_post malloc_rec malloc_buf cs timestamp buffer s =
     (if \<not> malloc_rec \<or> \<not> malloc_buf then Some s
      else do { (queued, s) \<leftarrow> post_enqueue \<lparr>rec_cs = cs, rec_timestamp = timestamp, rec_buffer = buffer\<rparr> s;
                if queued then logt_sem_post s else Some s })"

section \<open>The worker\<close>

definition worker_wait :: "'t logt \<Rightarrow> 't logt option" where
  "worker_wait s =
     (case logt_print_finished s of
        Some (Suc v) \<Rightarrow> if worker s = AtWait then Some (s\<lparr>logt_print_finished := Some v, worker := HasToken\<rparr>) else None
      | _ \<Rightarrow> None)"

text \<open>Taking the first record off; with an empty list the code would take the head of the list for a record.\<close>

definition take_record :: "log \<Rightarrow> 't logt \<Rightarrow> (log_event list \<times> 't logt) option" where
  "take_record l s =
     (case logt_records s of
        [] \<Rightarrow> None
      | rec # rs \<Rightarrow>
          Some (qb_log_thread_log_write (rec_cs rec) (rec_buffer rec) l,
                s\<lparr>logt_records := rs, logt_memory_used := logt_memory_used s - of_nat (length (rec_buffer rec)) - of_nat record_size - 1\<rparr>))"

text \<open>The part under the lock; \<open>l\<close> is the configuration of the targets at that time.\<close>

definition worker_locked :: "log \<Rightarrow> 't logt \<Rightarrow> (thread_event list \<times> 't logt) option" where
  "worker_locked l s =
     (if \<not> can_lock s \<or> worker s \<noteq> HasToken then None
      else do {
        value \<leftarrow> logt_print_finished s;
        if wthread_should_exit s \<and> value = 0 then Some ([], s\<lparr>worker := Exited\<rparr>)
        else do {
          (evs, s) \<leftarrow> take_record l s;
          let dropped = logt_dropped_messages s;
          Some ((if dropped \<noteq> 0 then [EvLost dropped] else []) @ map EvLog evs, s\<lparr>logt_dropped_messages := 0, worker := AtWait\<rparr>) } })"

text \<open>The worker until it exits; \<open>None\<close> when it waits for ever.\<close>

partial_function (option) qb_logt_worker_thread :: "log \<Rightarrow> 't logt \<Rightarrow> (thread_event list \<times> 't logt) option" where
  "qb_logt_worker_thread l s =
     (if worker s = Exited then Some ([], s)
      else do {
        s \<leftarrow> worker_wait s;
        (evs, s) \<leftarrow> worker_locked l s;
        (evs', s) \<leftarrow> qb_logt_worker_thread l s;
        Some (evs @ evs', s) })"

declare qb_logt_worker_thread.simps [code]

section \<open>Starting and stopping\<close>

text \<open>\<open>SCHED_OTHER\<close>, \<open>SCHED_IDLE\<close> and \<open>SCHED_BATCH\<close> have no priorities; \<open>setsched\<close> is the result of \<^verbatim>\<open>pthread_setschedparam\<close>.\<close>

definition qb_log_thread_priority_set :: "int \<Rightarrow> int \<Rightarrow> int \<Rightarrow> 't logt \<Rightarrow> int \<times> 't logt" where
  "qb_log_thread_priority_set setsched policy priority s =
     (let s = s\<lparr>logt_sched_policy := policy, logt_sched_priority := (if policy = 0 \<or> policy = 5 \<or> policy = 3 then 0 else priority)\<rparr>
      in if \<not> wthread_active s then (0, s\<lparr>logt_sched_param_queued := True\<rparr>)
         else (- setsched, s))"

text \<open>
  \<open>lock_errno\<close> is \<open>None\<close> when the lock can be created, \<open>create_rc\<close> the result of \<^verbatim>\<open>pthread_create\<close>. The semaphore with which the thread says that it runs is not kept:
  the caller waits for it.
\<close>

definition start_failed :: "log \<Rightarrow> 't logt \<Rightarrow> (thread_event list \<times> 't logt) option" where
  "start_failed l s =
     do { s \<leftarrow> logt_sem_post (s\<lparr>wthread_should_exit := True\<rparr>);
          (evs, s) \<leftarrow> qb_logt_worker_thread l s;
          Some (evs, s\<lparr>wthread_active := False, logt_wthread_lock := None, logt_print_finished := None\<rparr>) }"

definition qb_log_thread_start :: "log \<Rightarrow> int option \<Rightarrow> int \<Rightarrow> int \<Rightarrow> 't logt \<Rightarrow> (int \<times> thread_event list \<times> 't logt) option" where
  "qb_log_thread_start l lock_errno create_rc setsched s =
     (if wthread_active s then Some (0, [], s)
      else
        let s = s\<lparr>wthread_active := True, logt_print_finished := Some 0\<rparr>
        in case lock_errno of
             Some e \<Rightarrow> Some (if e \<noteq> 0 then - e else - 1, [], s\<lparr>logt_wthread_lock := None\<rparr>)
           | None \<Rightarrow>
               if create_rc \<noteq> 0
               then Some (- create_rc, [], s\<lparr>wthread_active := False, logt_wthread_lock := Some Destroyed\<rparr>)
               else
                 let s = s\<lparr>logt_wthread_lock := Some Unlocked, worker := AtWait\<rparr>
                 in if logt_sched_param_queued s then
                      let (res, s) = qb_log_thread_priority_set setsched (logt_sched_policy s) (logt_sched_priority s) s
                      in if res \<noteq> 0 then map_option (\<lambda>(evs, s). (res, evs, s)) (start_failed l s)
                         else Some (0, [], s\<lparr>logt_sched_param_queued := False\<rparr>)
                    else Some (0, [], s))"

definition qb_log_thread_pause :: "bool \<Rightarrow> 't logt \<Rightarrow> 't logt option" where
  "qb_log_thread_pause threaded s =
     (if \<not> threaded then Some s else if can_lock s then Some (s\<lparr>logt_wthread_lock := Some Locked\<rparr>) else None)"

definition qb_log_thread_resume :: "bool \<Rightarrow> 't logt \<Rightarrow> 't logt option" where
  "qb_log_thread_resume threaded s =
     (if \<not> threaded then Some s
      else if logt_wthread_lock s = Some Locked then Some (s\<lparr>logt_wthread_lock := Some Unlocked\<rparr>) else None)"

text \<open>The loop that writes what is left when no thread runs.\<close>

partial_function (option) stop_loop :: "log \<Rightarrow> 't logt \<Rightarrow> (thread_event list \<times> 't logt) option" where
  "stop_loop l s =
     (case logt_print_finished s of
        Some (Suc v) \<Rightarrow>
          if \<not> can_lock s then None
          else do {
            (evs, s) \<leftarrow> take_record l (s\<lparr>logt_print_finished := Some v\<rparr>);
            (evs', s) \<leftarrow> stop_loop l s;
            Some (map EvLog evs @ evs', s) }
      | _ \<Rightarrow> Some ([], s))"

declare stop_loop.simps [code]

definition stop_flag :: "'t logt \<Rightarrow> 't logt option" where
  "stop_flag s = (if can_lock s then Some (s\<lparr>wthread_should_exit := True\<rparr>) else None)"

definition qb_log_thread_stop :: "log \<Rightarrow> 't logt \<Rightarrow> (thread_event list \<times> 't logt) option" where
  "qb_log_thread_stop l s =
     (if \<not> wthread_active s \<and> logt_wthread_lock s = None then Some ([], s)
      else do {
        (evs, s) \<leftarrow> (if \<not> wthread_active s then stop_loop l s
                     else do { s \<leftarrow> stop_flag s; s \<leftarrow> logt_sem_post s; qb_logt_worker_thread l s });
        s \<leftarrow> lock_destroy s;
        Some (evs, s\<lparr>logt_print_finished := None\<rparr>) })"

section \<open>Threads\<close>

text \<open>
  The interleaving of the worker, of any number of threads that log and of one that stops the worker. \<open>posting\<close> is the number of threads that have queued a record and are
  about to signal the semaphore; \<open>accepted\<close> and \<open>written\<close> are the records that were queued and written so far.
\<close>

datatype stop_state = NotStopping | FlagSet | StopPosted

record 't logt_sys =
  thr :: "'t logt"
  posting :: nat
  stopping :: stop_state
  accepted :: "'t qb_log_record list"
  written :: "'t qb_log_record list"

inductive logt_step :: "'t logt_sys \<Rightarrow> 't logt_sys \<Rightarrow> bool" where
  post_in: "post_enqueue rec (thr s) = Some (True, t) \<Longrightarrow> length (rec_buffer rec) \<le> nat QB_LOG_ABSOLUTE_MAX_LEN \<Longrightarrow>
    logt_step s (s\<lparr>thr := t, posting := Suc (posting s), accepted := accepted s @ [rec]\<rparr>)"
| post_drop: "post_enqueue rec (thr s) = Some (False, t) \<Longrightarrow> logt_step s (s\<lparr>thr := t\<rparr>)"
| post_out: "posting s = Suc n \<Longrightarrow> logt_sem_post (thr s) = Some t \<Longrightarrow> logt_step s (s\<lparr>thr := t, posting := n\<rparr>)"
| take_token: "worker_wait (thr s) = Some t \<Longrightarrow> logt_step s (s\<lparr>thr := t\<rparr>)"
| write_record: "worker_locked l (thr s) = Some (evs, t) \<Longrightarrow> worker t = AtWait \<Longrightarrow>
    logt_step s (s\<lparr>thr := t, written := written s @ [hd (logt_records (thr s))]\<rparr>)"
| worker_exits: "worker_locked l (thr s) = Some (evs, t) \<Longrightarrow> worker t = Exited \<Longrightarrow> logt_step s (s\<lparr>thr := t\<rparr>)"
| pausing: "qb_log_thread_pause True (thr s) = Some t \<Longrightarrow> logt_step s (s\<lparr>thr := t\<rparr>)"
| resuming: "qb_log_thread_resume True (thr s) = Some t \<Longrightarrow> logt_step s (s\<lparr>thr := t\<rparr>)"
| set_flag: "stopping s = NotStopping \<Longrightarrow> stop_flag (thr s) = Some t \<Longrightarrow> logt_step s (s\<lparr>thr := t, stopping := FlagSet\<rparr>)"
| stop_signal: "stopping s = FlagSet \<Longrightarrow> logt_sem_post (thr s) = Some t \<Longrightarrow> logt_step s (s\<lparr>thr := t, stopping := StopPosted\<rparr>)"

inductive logt_reach :: "'t logt_sys \<Rightarrow> bool" where
  started: "qb_log_thread_start l None 0 0 logt_init = Some (0, evs, t) \<Longrightarrow>
    logt_reach \<lparr>thr = t, posting = 0, stopping = NotStopping, accepted = [], written = []\<rparr>"
| steps: "logt_reach s \<Longrightarrow> logt_step s s' \<Longrightarrow> logt_reach s'"

section \<open>What the queue promises\<close>

text \<open>Bytes that the records of a list account for.\<close>

definition records_size :: "'t qb_log_record list \<Rightarrow> nat" where
  "records_size rs = sum_list (map (\<lambda>rec. length (rec_buffer rec) + 1 + record_size) rs)"

lemma records_size_simps [simp]:
  "records_size [] = 0" "records_size (rec # rs) = length (rec_buffer rec) + 1 + record_size + records_size rs"
  "records_size (rs @ rs') = records_size rs + records_size rs'"
  by (simp_all add: records_size_def)

text \<open>Tokens that the worker has taken and not used for a record.\<close>

definition worker_tokens :: "worker_state \<Rightarrow> nat" where
  "worker_tokens w = (if w = HasToken \<or> w = Exited then 1 else 0)"

definition logt_inv :: "'t logt_sys \<Rightarrow> bool" where
  "logt_inv s \<longleftrightarrow>
     accepted s = written s @ logt_records (thr s) \<and>
     logt_memory_used (thr s) = of_nat (records_size (logt_records (thr s))) \<and> records_size (logt_records (thr s)) \<le> 512000 \<and>
     (wthread_should_exit (thr s) \<longleftrightarrow> stopping s \<noteq> NotStopping) \<and>
     (\<exists>v. logt_print_finished (thr s) = Some v \<and>
        v + worker_tokens (worker (thr s)) + posting s = length (logt_records (thr s)) + (if stopping s = StopPosted then 1 else 0))"

lemma sint_of_nat_small: "n < 2 ^ 31 \<Longrightarrow> sint (of_nat n :: u32) = int n"
  by (simp add: signed_of_nat signed_take_bit_int_eq_self)

lemma post_enqueue_queued:
  assumes "post_enqueue rec t = Some (True, t')" "logt_memory_used t = of_nat n" "n \<le> 512000" "length (rec_buffer rec) \<le> nat QB_LOG_ABSOLUTE_MAX_LEN"
  shows "t' = t\<lparr>logt_records := logt_records t @ [rec], logt_memory_used := of_nat (n + (length (rec_buffer rec) + 1 + record_size))\<rparr>"
    and "n + (length (rec_buffer rec) + 1 + record_size) \<le> 512000"
proof -
  let ?m = "n + (length (rec_buffer rec) + 1 + record_size)"
  have t': "t' = t\<lparr>logt_memory_used := of_nat ?m, logt_records := logt_records t @ [rec]\<rparr>" and le: "\<not> sint (of_nat ?m :: u32) > 512000"
    using assms(1,2) by (auto simp: post_enqueue_def Let_def algebra_simps split: if_splits)
  show "t' = t\<lparr>logt_records := logt_records t @ [rec], logt_memory_used := of_nat ?m\<rparr>" using t' by simp
  have "?m < 2 ^ 31" using assms(3,4) by (simp add: QB_LOG_ABSOLUTE_MAX_LEN_def record_size_def)
  then have "sint (of_nat ?m :: u32) = int ?m" by (rule sint_of_nat_small)
  then show "?m \<le> 512000" using le by linarith
qed

lemma post_enqueue_dropped:
  assumes "post_enqueue rec t = Some (False, t')"
  shows "t' = t\<lparr>logt_dropped_messages := logt_dropped_messages t + 1\<rparr>"
  using assms by (cases t) (auto simp: post_enqueue_def Let_def split: if_splits)

text \<open>What the worker does under the lock: it exits, or it writes the first record.\<close>

lemma worker_locked_cases:
  assumes "worker_locked l t = Some (evs, t')"
  obtains (exits) "worker t = HasToken" "wthread_should_exit t" "logt_print_finished t = Some 0" "t' = t\<lparr>worker := Exited\<rparr>"
  | (writes) v rec rs where "worker t = HasToken" "logt_print_finished t = Some v" "\<not> (wthread_should_exit t \<and> v = 0)" "logt_records t = rec # rs"
      "t' = t\<lparr>logt_records := rs, logt_memory_used := logt_memory_used t - of_nat (length (rec_buffer rec)) - of_nat record_size - 1,
              logt_dropped_messages := 0, worker := AtWait\<rparr>"
  using assms that
  by (cases "wthread_should_exit t \<and> logt_print_finished t = Some 0")
     (auto simp: worker_locked_def take_record_def Let_def split: if_splits option.splits list.splits bind_splits)

lemma logt_inv_step:
  assumes inv: "logt_inv s" and st: "logt_step s s'"
  shows "logt_inv s'"
  using st
proof cases
  case (post_in rec t)
  note q = post_enqueue_queued[OF post_in(2) conjunct1[OF conjunct2[OF inv[unfolded logt_inv_def]]] _ post_in(3)]
  show ?thesis using inv post_in(1) q by (auto simp: logt_inv_def add.assoc)
next
  case (post_drop rec t)
  then show ?thesis using inv post_enqueue_dropped[OF post_drop(2)] by (auto simp: logt_inv_def)
next
  case (post_out n t)
  then show ?thesis using inv by (auto simp: logt_inv_def logt_sem_post_def)
next
  case (take_token t)
  then show ?thesis using inv by (auto simp: logt_inv_def worker_wait_def worker_tokens_def split: option.splits nat.splits if_splits)
next
  case (write_record l evs t)
  from write_record(2) show ?thesis
  proof (cases rule: worker_locked_cases)
    case exits
    then show ?thesis using write_record(3) by simp
  next
    case (writes v rec rs)
    then show ?thesis using inv write_record(1) by (auto simp: logt_inv_def worker_tokens_def split: if_splits)
  qed
next
  case (worker_exits l evs t)
  from worker_exits(2) show ?thesis
  proof (cases rule: worker_locked_cases)
    case exits
    then show ?thesis using inv worker_exits(1) by (auto simp: logt_inv_def worker_tokens_def)
  next
    case (writes v rec rs)
    then show ?thesis using worker_exits(3) by simp
  qed
next
  case (pausing t)
  then show ?thesis using inv by (auto simp: logt_inv_def qb_log_thread_pause_def split: if_splits)
next
  case (resuming t)
  then show ?thesis using inv by (auto simp: logt_inv_def qb_log_thread_resume_def split: if_splits)
next
  case (set_flag t)
  then show ?thesis using inv by (auto simp: logt_inv_def stop_flag_def split: if_splits)
next
  case (stop_signal t)
  then show ?thesis using inv by (auto simp: logt_inv_def logt_sem_post_def)
qed

lemma logt_inv_reach: "logt_reach s \<Longrightarrow> logt_inv s"
proof (induction rule: logt_reach.induct)
  case (started l evs t)
  then show ?case by (auto simp: logt_inv_def qb_log_thread_start_def logt_init_def worker_tokens_def)
next
  case (steps s s')
  then show ?case using logt_inv_step by blast
qed

text \<open>A worker that has a token and gets the lock never finds the queue empty.\<close>

lemma worker_never_empty:
  assumes inv: "logt_inv s" and w: "worker (thr s) = HasToken" "can_lock (thr s)"
  shows "worker_locked l (thr s) \<noteq> None"
proof -
  obtain v where v: "logt_print_finished (thr s) = Some v"
    "v + 1 + posting s = length (logt_records (thr s)) + (if stopping s = StopPosted then 1 else 0)"
    using inv w(1) by (auto simp: logt_inv_def worker_tokens_def)
  show ?thesis
  proof (cases "wthread_should_exit (thr s) \<and> v = 0")
    case False
    have "logt_records (thr s) \<noteq> []" using False v(2) inv by (auto simp: logt_inv_def split: if_splits)
    then show ?thesis using False w v(1) by (auto simp: worker_locked_def take_record_def Let_def neq_Nil_conv)
  qed (use w v(1) in \<open>simp add: worker_locked_def\<close>)
qed

text \<open>
  C11: Whatever threads log, pause the thread and stop it, and however they interleave with the worker: the records are written in the order in which they were queued and each
  once, what is not written yet is in the queue, the accounted memory is that of the queue and never above the limit of 512000 bytes, and a worker that has a token and gets the lock
  never takes a record from an empty queue.
\<close>

theorem logt_queue_safe:
  assumes "logt_reach s"
  shows "accepted s = written s @ logt_records (thr s) \<and>
    sint (logt_memory_used (thr s)) = int (records_size (logt_records (thr s))) \<and> sint (logt_memory_used (thr s)) \<le> 512000 \<and>
    (worker (thr s) = HasToken \<longrightarrow> can_lock (thr s) \<longrightarrow> worker_locked l (thr s) \<noteq> None)"
proof -
  have inv: "logt_inv s" using assms by (rule logt_inv_reach)
  then have "sint (logt_memory_used (thr s)) = int (records_size (logt_records (thr s)))"
    by (auto simp: logt_inv_def sint_of_nat_small)
  then show ?thesis using inv worker_never_empty[OF inv, of l] by (auto simp: logt_inv_def)
qed

text \<open>
  What is lost when the worker has exited after a stop: the number of records that stay in the queue is the value of the semaphore together with the
  number of threads that have not signalled it yet. So nothing is lost when nobody else logs and the worker consumed the signal of the stop.
\<close>

theorem logt_exit_lost:
  assumes "logt_reach s" "worker (thr s) = Exited" "stopping s = StopPosted"
  shows "\<exists>v. logt_print_finished (thr s) = Some v \<and> (\<exists>lost. accepted s = written s @ lost \<and> length lost = v + posting s)"
  using logt_inv_reach[OF assms(1)] assms(2,3) by (auto simp: logt_inv_def worker_tokens_def)

section \<open>Stopping\<close>

abbreviation write_all :: "log \<Rightarrow> 't qb_log_record list \<Rightarrow> thread_event list" where
  "write_all l rs \<equiv> map EvLog (concat (map (\<lambda>rec. qb_log_thread_log_write (rec_cs rec) (rec_buffer rec) l) rs))"

text \<open>The worker, told to exit, writes what is queued and exits.\<close>

lemma worker_drains:
  assumes "worker s = AtWait" "can_lock s" "wthread_should_exit s" "logt_print_finished s = Some (Suc (length rs))" "logt_records s = rs" "logt_dropped_messages s = 0"
  shows "\<exists>s'. qb_logt_worker_thread l s = Some (write_all l rs, s') \<and> logt_records s' = [] \<and> can_lock s' \<and> wthread_active s' = wthread_active s \<and> worker s' = Exited"
  using assms
proof (induction rs arbitrary: s)
  case Nil
  then show ?case
    by (subst qb_logt_worker_thread.simps, subst qb_logt_worker_thread.simps) (simp add: worker_wait_def worker_locked_def can_lock_def)
next
  case (Cons rec rs)
  define s1 where "s1 = s\<lparr>logt_print_finished := Some (length (rec # rs)), logt_records := rs,
    logt_memory_used := logt_memory_used s - of_nat (length (rec_buffer rec)) - of_nat record_size - 1, logt_dropped_messages := 0, worker := AtWait\<rparr>"
  obtain s' where s': "qb_logt_worker_thread l s1 = Some (write_all l rs, s')" "logt_records s' = []" "can_lock s'" "wthread_active s' = wthread_active s1" "worker s' = Exited"
    using Cons.IH[of s1] Cons.prems by (auto simp: s1_def can_lock_def)
  have w: "worker_wait s = Some (s\<lparr>logt_print_finished := Some (length (rec # rs)), worker := HasToken\<rparr>)" using Cons.prems by (simp add: worker_wait_def)
  have "worker_locked l (s\<lparr>logt_print_finished := Some (length (rec # rs)), worker := HasToken\<rparr>) =
      Some (map EvLog (qb_log_thread_log_write (rec_cs rec) (rec_buffer rec) l), s1)"
    using Cons.prems by (simp add: worker_locked_def take_record_def Let_def s1_def can_lock_def)
  then show ?case using w s' Cons.prems(1) by (subst qb_logt_worker_thread.simps) (auto simp: s1_def)
qed

text \<open>Messages that one thread logs.\<close>

fun log_all :: "(site_ptr \<times> 't \<times> string) list \<Rightarrow> 't logt \<Rightarrow> 't logt option" where
  "log_all [] s = Some s"
| "log_all ((cs, ts, buffer) # ms) s = do { s \<leftarrow> qb_log_thread_log_post True True cs ts buffer s; log_all ms s }"

abbreviation record_of :: "site_ptr \<times> 't \<times> string \<Rightarrow> 't qb_log_record" where
  "record_of m \<equiv> \<lparr>rec_cs = fst m, rec_timestamp = fst (snd m), rec_buffer = snd (snd m)\<rparr>"

definition logt_running :: "'t qb_log_record list \<Rightarrow> 't logt \<Rightarrow> bool" where
  "logt_running rs s \<longleftrightarrow> wthread_active s \<and> \<not> wthread_should_exit s \<and> can_lock s \<and> worker s = AtWait \<and> logt_records s = rs \<and>
     logt_print_finished s = Some (length rs) \<and> logt_memory_used s = of_nat (records_size rs) \<and> logt_dropped_messages s = 0"

lemma log_all_queues:
  assumes "logt_running rs s" "records_size (rs @ map record_of ms) \<le> 512000"
  shows "\<exists>s'. log_all ms s = Some s' \<and> logt_running (rs @ map record_of ms) s'"
  using assms
proof (induction ms arbitrary: rs s)
  case (Cons m ms)
  obtain cs ts buffer where m: "m = (cs, ts, buffer)" by (cases m)
  let ?rec = "record_of m"
  have le: "records_size (rs @ [?rec]) \<le> 512000" using Cons.prems(2) by simp
  have "logt_memory_used s + (of_nat record_size + of_nat (length buffer + 1)) = (of_nat (records_size (rs @ [?rec])) :: u32)"
    using Cons.prems(1) by (simp add: logt_running_def m algebra_simps)
  moreover have "\<not> sint (of_nat (records_size (rs @ [?rec])) :: u32) > 512000"
    using le by (simp add: sint_of_nat_small del: records_size_simps)
  ultimately obtain s1 where s1: "qb_log_thread_log_post True True cs ts buffer s = Some s1" "logt_running (rs @ [?rec]) s1"
    using Cons.prems(1) by (auto simp: qb_log_thread_log_post_def post_enqueue_def Let_def logt_running_def logt_sem_post_def can_lock_def m simp del: records_size_simps of_nat_add)
  then show ?case using Cons.IH[OF s1(2)] Cons.prems(2) by (auto simp: m)
qed auto



section \<open>Races and restarts\<close>

text \<open>
  The flag is set before the semaphore is signalled: a worker that took the token of a record and waits for the lock in between sees the flag and the value zero, and exits without
  writing the record. The states of the run, one per step.
\<close>

definition ex_rec :: "nat qb_log_record" where "ex_rec = \<lparr>rec_cs = (0, 1), rec_timestamp = 7, rec_buffer = ''up''\<rparr>"

definition ex_thr :: "nat logt" where
  "ex_thr = logt_init\<lparr>wthread_active := True, logt_print_finished := Some 0, logt_wthread_lock := Some Unlocked, worker := AtWait\<rparr>"

definition ex_lost :: "nat logt_sys" where
  "ex_lost = \<lparr>thr = ex_thr\<lparr>wthread_should_exit := True, logt_records := [ex_rec], logt_memory_used := 51, logt_print_finished := Some 1, worker := Exited\<rparr>,
     posting = 0, stopping = StopPosted, accepted = [ex_rec], written = []\<rparr>"

lemma ex_lost_reach: "logt_reach ex_lost"
proof -
  let ?sys = "\<lambda>t p st ac. \<lparr>thr = t, posting = p, stopping = st, accepted = ac, written = []\<rparr>"
  let ?q = "ex_thr\<lparr>logt_records := [ex_rec], logt_memory_used := 51\<rparr>"
  have 0: "logt_reach (?sys ex_thr 0 NotStopping [])"
    by (rule started[where l = undefined and evs = "[]"]) (simp add: qb_log_thread_start_def logt_init_def ex_thr_def)
  have 1: "logt_reach (?sys ?q 1 NotStopping [ex_rec])"
    using steps[OF 0 post_in[of ex_rec _ ?q]]
    by (simp add: post_enqueue_def can_lock_def ex_thr_def logt_init_def record_size_def ex_rec_def QB_LOG_ABSOLUTE_MAX_LEN_def)
  have 2: "logt_reach (?sys (?q\<lparr>logt_print_finished := Some 1\<rparr>) 0 NotStopping [ex_rec])"
    using steps[OF 1 post_out[of _ 0 "?q\<lparr>logt_print_finished := Some 1\<rparr>"]] by (simp add: logt_sem_post_def ex_thr_def)
  have 3: "logt_reach (?sys (?q\<lparr>worker := HasToken\<rparr>) 0 NotStopping [ex_rec])"
    using steps[OF 2 take_token[of _ "?q\<lparr>worker := HasToken\<rparr>"]] by (simp add: worker_wait_def ex_thr_def)
  have 4: "logt_reach (?sys (?q\<lparr>worker := HasToken, wthread_should_exit := True\<rparr>) 0 FlagSet [ex_rec])"
    using steps[OF 3 set_flag[of _ "?q\<lparr>worker := HasToken, wthread_should_exit := True\<rparr>"]] by (simp add: stop_flag_def can_lock_def ex_thr_def)
  have 5: "logt_reach (?sys (?q\<lparr>worker := Exited, wthread_should_exit := True\<rparr>) 0 FlagSet [ex_rec])"
    using steps[OF 4 worker_exits[of undefined _ "[]" "?q\<lparr>worker := Exited, wthread_should_exit := True\<rparr>"]]
    by (simp add: worker_locked_def can_lock_def ex_thr_def)
  show ?thesis
    using steps[OF 5 stop_signal[of _ "?q\<lparr>worker := Exited, wthread_should_exit := True, logt_print_finished := Some 1\<rparr>"]]
    by (simp add: logt_sem_post_def ex_thr_def ex_lost_def logt_init_def)
qed

text \<open>With the theorem on the exit this shows that the last message can be lost although nobody else logs.\<close>

theorem logt_exit_lost_witness:
  "logt_reach ex_lost \<and> worker (thr ex_lost) = Exited \<and> stopping ex_lost = StopPosted \<and> posting ex_lost = 0 \<and>
   (\<exists>lost. accepted ex_lost = written ex_lost @ lost \<and> length lost = 1)"
  using logt_exit_lost[OF ex_lost_reach] ex_lost_reach by (simp add: ex_lost_def)

theorem logt_queue_safe_witness:
  "logt_reach ex_lost \<and> accepted ex_lost = written ex_lost @ logt_records (thr ex_lost) \<and>
   sint (logt_memory_used (thr ex_lost)) = int (records_size (logt_records (thr ex_lost)))"
  using logt_queue_safe[OF ex_lost_reach] ex_lost_reach by blast

lemma worker_locked_active: "worker_locked l t = Some (evs, t') \<Longrightarrow> wthread_active t' = wthread_active t"
  by (erule worker_locked_cases) auto

text \<open>
  A stop leaves \<^verbatim>\<open>wthread_active\<close> set and keeps the pointer to the destroyed lock: the next start reports success without starting a thread, and the next message uses
  the destroyed lock.
\<close>

lemma start_after_stop:
  assumes "qb_log_thread_stop l s = Some (evs, s')" "wthread_active s"
  shows "qb_log_thread_start l lock_errno create_rc setsched s' = Some (0, [], s')" "qb_log_thread_log_post True True cs ts buffer s' = None"
proof -
  have keeps: "wthread_active t' = wthread_active t" if "qb_logt_worker_thread l t = Some (ev, t')" for t t' :: "'a logt" and ev
  proof -
    have "wthread_active (snd r) = wthread_active t" if "qb_logt_worker_thread l' t = Some r" for l' and t :: "'a logt" and r
    proof (rule qb_logt_worker_thread.raw_induct[where P = "\<lambda>_ t r. wthread_active (snd r) = wthread_active t", OF _ that], goal_cases)
      case (1 f l t r)
      from 1(2) show ?case by (auto simp: worker_wait_def split: if_splits bind_splits option.splits nat.splits dest!: 1(1) worker_locked_active)
    qed
    then show ?thesis using that by fastforce
  qed
  have "wthread_active s'" "logt_wthread_lock s' = Some Destroyed"
    using assms by (auto simp: qb_log_thread_stop_def stop_flag_def logt_sem_post_def lock_destroy_def split: if_splits bind_splits dest!: keeps)
  then show "qb_log_thread_start l lock_errno create_rc setsched s' = Some (0, [], s')" "qb_log_thread_log_post True True cs ts buffer s' = None"
    by (simp_all add: qb_log_thread_start_def qb_log_thread_log_post_def post_enqueue_def can_lock_def)
qed

text \<open>A start that could not create its lock reports the error once and success from then on; one that could not create the thread leaves a lock that a stop destroys again.\<close>

lemma start_without_lock:
  "\<exists>s'. qb_log_thread_start l (Some e) rc setsched logt_init = Some (if e \<noteq> 0 then - e else - 1, [], s') \<and>
     qb_log_thread_start l lock_errno rc' setsched' s' = Some (0, [], s') \<and> qb_log_thread_log_post True True cs ts buffer s' = None"
  by (simp add: qb_log_thread_start_def logt_init_def qb_log_thread_log_post_def post_enqueue_def can_lock_def)

lemma start_without_thread:
  assumes "rc \<noteq> 0"
  shows "\<exists>s'. qb_log_thread_start l None rc setsched logt_init = Some (- rc, [], s') \<and> qb_log_thread_stop l s' = None"
  using assms by (subst qb_log_thread_stop_def, subst stop_loop.simps) (simp add: qb_log_thread_start_def logt_init_def lock_destroy_def can_lock_def)

end
