(* ===== verification/Trie.thy ===== *)
theory Trie
  imports Qbmap Cstring
begin

text \<open>
  The trie (\<^verbatim>\<open>lib/trie.c\<close>). The nodes are in one memory and have addresses; a node has the segment of
  characters that follows the character of its index, and the array of its children. Every
  allocation takes the next one of a sequence of results, \<open>None\<close> being \<^verbatim>\<open>NULL\<close>; only the addresses of nodes matter. A read of freed memory or of
  \<^verbatim>\<open>NULL\<close>, an access outside an array and a loop that does not end give \<open>None\<close>. The
  dump to the standard output is not modelled.
\<close>

section \<open>State\<close>

record ('c, 'u, 'v) trie_node =
  tn_idx :: nat
  tn_segment :: string
  tn_key :: "string option"
  tn_value :: "'v option"
  tn_children :: "nat option list"
  tn_num_children :: nat
  tn_refcount :: u32
  tn_parent :: "nat option"
  tn_notifiers :: "('c, 'u) qb_map_notifier list"

record ('c, 'u, 'v) trie =
  tr_length :: u64
  tr_num_nodes :: u32
  tr_mem_used :: u32
  tr_header :: "nat option"
  tr_nodes :: "nat \<rightharpoonup> ('c, 'u, 'v) trie_node"

record trie_iter =
  ti_prefix :: "string option"
  ti_n :: "nat option"
  ti_root :: "nat option"

type_synonym allocs = "nat \<Rightarrow> nat option"

text \<open>The sizes of the structures, and of a pointer, on a machine with 64 bits.\<close>

definition trie_node_size :: u32 where "trie_node_size = 72"
definition trie_size :: u32 where "trie_size = 104"

definition alloc_next :: "allocs \<Rightarrow> nat option \<times> allocs" where
  "alloc_next al = (al 0, \<lambda>i. al (Suc i))"

definition node_upd :: "nat \<Rightarrow> (('c, 'u, 'v) trie_node \<Rightarrow> ('c, 'u, 'v) trie_node) \<Rightarrow> ('c, 'u, 'v) trie \<Rightarrow> ('c, 'u, 'v) trie" where
  "node_upd q f t = t\<lparr>tr_nodes := (tr_nodes t)(q := map_option f (tr_nodes t q))\<rparr>"

text \<open>The index of a character; the character is signed.\<close>

definition TRIE_CHAR2INDEX :: "char \<Rightarrow> nat" where
  "TRIE_CHAR2INDEX ch = (let n = of_char ch :: nat in if n < 128 then 127 - n else 383 - n)"

definition child_get :: "('c, 'u, 'v) trie_node \<Rightarrow> nat \<Rightarrow> nat option option" where
  "child_get node i = (if i < length (tn_children node) then Some (tn_children node ! i) else None)"

section \<open>The next node\<close>

definition trie_node_alive :: "('c, 'u, 'v) trie_node \<Rightarrow> bool" where
  "trie_node_alive node \<longleftrightarrow> \<not> (tn_value node = None \<or> tn_refcount node \<le> 0)"

text \<open>The loops over the children from \<open>i - 1\<close> down.\<close>

fun scan_down :: "('c, 'u, 'v) trie_node \<Rightarrow> nat \<Rightarrow> nat option option" where
  "scan_down node 0 = Some None"
| "scan_down node (Suc i) = do { c \<leftarrow> child_get node i; case c of Some q \<Rightarrow> Some (Some q) | None \<Rightarrow> scan_down node i }"

partial_function (option) climb :: "('c, 'u, 'v) trie \<Rightarrow> nat \<Rightarrow> nat \<Rightarrow> nat option option" where
  "climb t root p =
     do { pn \<leftarrow> tr_nodes t p;
          par \<leftarrow> tn_parent pn;
          parn \<leftarrow> tr_nodes t par;
          n \<leftarrow> scan_down parn (tn_idx pn);
          case n of
            Some q \<Rightarrow> Some (Some q)
          | None \<Rightarrow> if par = root then Some None else climb t root par }"

partial_function (option) trie_node_next :: "('c, 'u, 'v) trie \<Rightarrow> nat \<Rightarrow> nat \<Rightarrow> bool \<Rightarrow> nat option option" where
  "trie_node_next t c root all =
     do { cn \<leftarrow> tr_nodes t c;
          n \<leftarrow> scan_down cn (tn_num_children cn);
          case n of
            Some q \<Rightarrow>
              do { qn \<leftarrow> tr_nodes t q;
                   if all \<or> trie_node_alive qn then Some (Some q) else trie_node_next t q root all }
          | None \<Rightarrow>
              if c = root then Some None
              else do { n \<leftarrow> climb t root c;
                        case n of
                          None \<Rightarrow> Some None
                        | Some q \<Rightarrow>
                            do { qn \<leftarrow> tr_nodes t q;
                                 if all \<or> trie_node_alive qn then Some (Some q)
                                 else if q = root then Some None
                                 else trie_node_next t q root all } } }"

declare climb.simps [code] trie_node_next.simps [code]

section \<open>New nodes\<close>

definition trie_new_node :: "allocs \<Rightarrow> nat option \<Rightarrow> ('c, 'u, 'v) trie \<Rightarrow> nat option \<times> allocs \<times> ('c, 'u, 'v) trie" where
  "trie_new_node al parent t =
     (case alloc_next al of
        (None, al) \<Rightarrow> (None, al, t)
      | (Some a, al) \<Rightarrow>
          (case alloc_next al of
             (None, al) \<Rightarrow> (None, al, t)
           | (Some _, al) \<Rightarrow>
               (Some a, al,
                t\<lparr>tr_nodes := (tr_nodes t)(a \<mapsto> \<lparr>tn_idx = 0, tn_segment = [], tn_key = None, tn_value = None, tn_children = [], tn_num_children = 0,
                                                  tn_refcount = 0, tn_parent = parent, tn_notifiers = []\<rparr>),
                  tr_num_nodes := tr_num_nodes t + 1, tr_mem_used := tr_mem_used t + trie_node_size\<rparr>)))"

definition new_child_node :: "allocs \<Rightarrow> nat \<Rightarrow> char \<Rightarrow> ('c, 'u, 'v) trie \<Rightarrow> (nat option \<times> allocs \<times> ('c, 'u, 'v) trie) option" where
  "new_child_node al parent ch t =
     do { pn \<leftarrow> tr_nodes t parent;
          let idx = TRIE_CHAR2INDEX ch;
          let (fits, al, t) =
            (if idx \<ge> tn_num_children pn then
               let num = max (idx + 1) 30;
                   (a, al) = alloc_next al
               in (a \<noteq> None, al,
                   node_upd parent (\<lambda>n. n\<lparr>tn_num_children := num,
                                          tn_children := (if a = None then [] else tn_children n @ replicate (num - tn_num_children pn) None)\<rparr>)
                     (t\<lparr>tr_mem_used := tr_mem_used t + 8 * of_nat (num - tn_num_children pn)\<rparr>))
             else (True, al, t));
          if \<not> fits then Some (None, al, t)
          else
            case trie_new_node al (Some parent) t of
              (None, al, t) \<Rightarrow> Some (None, al, t)
            | (Some q, al, t) \<Rightarrow>
                do { pn \<leftarrow> tr_nodes t parent;
                     _ \<leftarrow> child_get pn idx;
                     Some (Some q, al,
                           node_upd parent (\<lambda>n. n\<lparr>tn_children := (tn_children n)[idx := Some q]\<rparr>)
                             (node_upd q (\<lambda>n. n\<lparr>tn_idx := idx\<rparr>) t)) } }"

text \<open>The loop that makes a node the parent of its children.\<close>

fun adopt :: "nat \<Rightarrow> nat option list \<Rightarrow> ('c, 'u, 'v) trie \<Rightarrow> ('c, 'u, 'v) trie option" where
  "adopt q [] t = Some t"
| "adopt q (None # cs) t = adopt q cs t"
| "adopt q (Some c # cs) t =
     do { _ \<leftarrow> tr_nodes t c; adopt q cs (node_upd c (\<lambda>n. n\<lparr>tn_parent := Some q\<rparr>) t) }"

text \<open>
  Split a node behind \<open>seg_cnt\<close> characters of its segment: a new child gets the rest of the segment, the children, the value and the notifiers. When its
  segment cannot be allocated, the child is freed and the parent keeps the pointer to it.
\<close>

definition trie_node_split :: "allocs \<Rightarrow> nat \<Rightarrow> nat \<Rightarrow> ('c, 'u, 'v) trie \<Rightarrow> (nat option \<times> allocs \<times> ('c, 'u, 'v) trie) option" where
  "trie_node_split al cur seg_cnt t =
     do { cn \<leftarrow> tr_nodes t cur;
          if seg_cnt \<ge> length (tn_segment cn) then None
          else do {
            (split, al, t) \<leftarrow> new_child_node al cur (tn_segment cn ! seg_cnt) (node_upd cur (\<lambda>n. n\<lparr>tn_children := [], tn_num_children := 0\<rparr>) t);
            case split of
              None \<Rightarrow> Some (None, al, t)
            | Some q \<Rightarrow> do {
                let t = node_upd q (\<lambda>n. n\<lparr>tn_children := tn_children cn, tn_num_children := tn_num_children cn\<rparr>) t;
                if length (tn_children cn) < tn_num_children cn then None
                else do {
                  t \<leftarrow> adopt q (take (tn_num_children cn) (tn_children cn)) t;
                  let t = node_upd q (\<lambda>n. n\<lparr>tn_value := tn_value cn, tn_key := tn_key cn, tn_refcount := tn_refcount cn, tn_notifiers := tn_notifiers cn\<rparr>) t;
                  let t = node_upd cur (\<lambda>n. n\<lparr>tn_value := None, tn_key := None, tn_refcount := 0, tn_notifiers := []\<rparr>) t;
                  let (seg, al) = alloc_next al;
                  if seg = None then Some (None, al, t\<lparr>tr_nodes := (tr_nodes t)(q := None)\<rparr>)
                  else Some (Some cur, al,
                             node_upd cur (\<lambda>n. n\<lparr>tn_segment := take seg_cnt (tn_segment cn)\<rparr>)
                               (node_upd q (\<lambda>n. n\<lparr>tn_segment := drop (seg_cnt + 1) (tn_segment cn)\<rparr>) t)) } } } }"

section \<open>Insertion and lookup\<close>

text \<open>Split a node and make a child of it for another character.\<close>

definition split_and_add :: "allocs \<Rightarrow> nat \<Rightarrow> nat \<Rightarrow> char \<Rightarrow> ('c, 'u, 'v) trie \<Rightarrow> (nat option \<times> allocs \<times> ('c, 'u, 'v) trie) option" where
  "split_and_add al cur seg_cnt ch t =
     do { (c, al, t) \<leftarrow> trie_node_split al cur seg_cnt t;
          case c of None \<Rightarrow> Some (None, al, t) | Some cur \<Rightarrow> new_child_node al cur ch t }"

text \<open>One character: the result is the node and the position in its segment, or \<^verbatim>\<open>NULL\<close> when memory is out.\<close>

definition insert_char ::
    "allocs \<Rightarrow> nat \<Rightarrow> nat \<Rightarrow> char \<Rightarrow> ('c, 'u, 'v) trie \<Rightarrow> ((nat \<times> nat) option \<times> allocs \<times> ('c, 'u, 'v) trie) option" where
  "insert_char al cur seg_cnt ch t =
     do { cn \<leftarrow> tr_nodes t cur;
          let idx = TRIE_CHAR2INDEX ch;
          let go = map_option (\<lambda>(q, al, t). (map_option (\<lambda>q. (q, 0)) q, al, t));
          if seg_cnt < length (tn_segment cn) then
            (if tn_segment cn ! seg_cnt = ch then Some (Some (cur, seg_cnt + 1), al, t)
             else go (split_and_add al cur seg_cnt ch t))
          else do {
            child \<leftarrow> (if idx < tn_num_children cn then child_get cn idx else Some None);
            case child of
              Some q \<Rightarrow> Some (Some (q, 0), al, t)
            | None \<Rightarrow>
                if Some cur = tr_header t then go (new_child_node al cur ch t)
                else if tn_value cn = None \<and> tn_notifiers cn = [] \<and> tn_num_children cn = 0 \<and> seg_cnt = length (tn_segment cn) then
                  (case alloc_next al of
                     (None, al) \<Rightarrow> None
                   | (Some _, al) \<Rightarrow>
                       Some (Some (cur, seg_cnt + 1), al,
                             node_upd cur (\<lambda>n. n\<lparr>tn_segment := tn_segment n @ [ch]\<rparr>) (t\<lparr>tr_mem_used := tr_mem_used t + 1\<rparr>)))
                else if seg_cnt = length (tn_segment cn) then go (new_child_node al cur ch t)
                else go (split_and_add al cur seg_cnt ch t) } }"

fun insert_loop :: "allocs \<Rightarrow> nat \<Rightarrow> nat \<Rightarrow> string \<Rightarrow> ('c, 'u, 'v) trie \<Rightarrow> ((nat \<times> nat) option \<times> allocs \<times> ('c, 'u, 'v) trie) option" where
  "insert_loop al cur seg_cnt [] t = Some (Some (cur, seg_cnt), al, t)"
| "insert_loop al cur seg_cnt (ch # key) t =
     do { (r, al, t) \<leftarrow> insert_char al cur seg_cnt ch t;
          case r of None \<Rightarrow> Some (None, al, t) | Some (cur, seg_cnt) \<Rightarrow> insert_loop al cur seg_cnt key t }"

text \<open>
  An empty key is read behind its end. When the key ends inside a segment, the node is split, and a further child for the character after the key, which is
  the terminating zero, is made.
\<close>

definition trie_insert :: "allocs \<Rightarrow> string \<Rightarrow> ('c, 'u, 'v) trie \<Rightarrow> (nat option \<times> allocs \<times> ('c, 'u, 'v) trie) option" where
  "trie_insert al key t =
     (if key = [] then None
      else do {
        header \<leftarrow> tr_header t;
        (r, al, t) \<leftarrow> insert_loop al header 0 key t;
        case r of
          None \<Rightarrow> Some (None, al, t)
        | Some (cur, seg_cnt) \<Rightarrow> do {
            cn \<leftarrow> tr_nodes t cur;
            if seg_cnt < length (tn_segment cn) then do {
              (n, al, t) \<leftarrow> split_and_add al cur seg_cnt (CHR 0x00) t;
              Some (if n = None then None else Some cur, al, t) }
            else Some (Some cur, al, t) } })"

fun trie_lookup_loop :: "('c, 'u, 'v) trie \<Rightarrow> nat \<Rightarrow> nat \<Rightarrow> string \<Rightarrow> (nat \<times> nat) option option" where
  "trie_lookup_loop t cur seg_cnt [] = Some (Some (cur, seg_cnt))"
| "trie_lookup_loop t cur seg_cnt (ch # key) =
     do { cn \<leftarrow> tr_nodes t cur;
          if seg_cnt < length (tn_segment cn) then
            (if tn_segment cn ! seg_cnt = ch then trie_lookup_loop t cur (seg_cnt + 1) key else Some None)
          else do {
            child \<leftarrow> (if TRIE_CHAR2INDEX ch < tn_num_children cn then child_get cn (TRIE_CHAR2INDEX ch) else Some None);
            case child of None \<Rightarrow> Some None | Some q \<Rightarrow> trie_lookup_loop t q 0 key } }"

definition trie_lookup :: "('c, 'u, 'v) trie \<Rightarrow> string \<Rightarrow> bool \<Rightarrow> nat option option" where
  "trie_lookup t key exact_match =
     (if key = [] then None
      else do {
        header \<leftarrow> tr_header t;
        r \<leftarrow> trie_lookup_loop t header 0 key;
        case r of
          None \<Rightarrow> Some None
        | Some (cur, seg_cnt) \<Rightarrow> do {
            cn \<leftarrow> tr_nodes t cur;
            Some (if exact_match \<and> seg_cnt < length (tn_segment cn) then None else Some cur) } })"

section \<open>Notification and release\<close>

definition notify_at ::
    "bool \<Rightarrow> ('c, 'u) qb_map_notifier list \<Rightarrow> u32 \<Rightarrow> string option \<Rightarrow> 'v option \<Rightarrow> 'v option \<Rightarrow> ('c, 'u, 'v) notification list" where
  "notify_at own ns event key old new =
     concat (map (\<lambda>tn.
       (if events tn AND event \<noteq> 0 \<and> (events tn AND QB_MAP_NOTIFY_RECURSIVE \<noteq> 0 \<or> own) then [notification_of tn event key old new] else []) @
       (if frees event \<and> events tn AND QB_MAP_NOTIFY_FREE \<noteq> 0 then [notification_of tn QB_MAP_NOTIFY_FREE key old new] else [])) ns)"

partial_function (option) notify_up ::
    "('c, 'u, 'v) trie \<Rightarrow> nat \<Rightarrow> nat \<Rightarrow> u32 \<Rightarrow> string option \<Rightarrow> 'v option \<Rightarrow> 'v option \<Rightarrow> ('c, 'u, 'v) notification list option" where
  "notify_up t n c event key old new =
     do { cn \<leftarrow> tr_nodes t c;
          let calls = notify_at (n = c) (tn_notifiers cn) event key old new;
          case tn_parent cn of
            None \<Rightarrow> Some calls
          | Some p \<Rightarrow> do { rest \<leftarrow> notify_up t n p event key old new; Some (calls @ rest) } }"

declare notify_up.simps [code]

definition trie_notify where
  "trie_notify t n event key old new = notify_up t n n event key old new"

text \<open>Free the nodes upwards that hold nothing and have no children.\<close>

partial_function (option) trie_node_release :: "('c, 'u, 'v) trie \<Rightarrow> nat \<Rightarrow> ('c, 'u, 'v) trie option" where
  "trie_node_release t q =
     do { n \<leftarrow> tr_nodes t q;
          case tn_parent n of
            None \<Rightarrow> Some t
          | Some p \<Rightarrow>
              if tn_key n = None \<and> tn_notifiers n = [] then
                do { c \<leftarrow> scan_down n (tn_num_children n);
                     if c \<noteq> None then Some t
                     else do {
                       pn \<leftarrow> tr_nodes t p;
                       _ \<leftarrow> child_get pn (tn_idx n);
                       let t = node_upd p (\<lambda>m. m\<lparr>tn_children := (tn_children m)[tn_idx n := None]\<rparr>) t;
                       trie_node_release
                         (t\<lparr>tr_nodes := (tr_nodes t)(q := None), tr_num_nodes := tr_num_nodes t - 1, tr_mem_used := tr_mem_used t - trie_node_size\<rparr>) p } }
              else Some t }"

declare trie_node_release.simps [code]

definition trie_node_destroy :: "('c, 'u, 'v) trie \<Rightarrow> nat \<Rightarrow> (('c, 'u, 'v) notification list \<times> ('c, 'u, 'v) trie) option" where
  "trie_node_destroy t q =
     do { n \<leftarrow> tr_nodes t q;
          if tn_value n = None then Some ([], t)
          else do {
            ns \<leftarrow> trie_notify t q QB_MAP_NOTIFY_DELETED (tn_key n) (tn_value n) None;
            t \<leftarrow> trie_node_release (node_upd q (\<lambda>n. n\<lparr>tn_key := None, tn_value := None\<rparr>) t) q;
            Some (ns, t) } }"

definition trie_node_ref :: "('c, 'u, 'v) trie \<Rightarrow> nat \<Rightarrow> ('c, 'u, 'v) trie option" where
  "trie_node_ref t q =
     (if tr_header t = Some q then Some t
      else do { _ \<leftarrow> tr_nodes t q; Some (node_upd q (\<lambda>n. n\<lparr>tn_refcount := tn_refcount n + 1\<rparr>) t) })"

definition trie_node_deref :: "('c, 'u, 'v) trie \<Rightarrow> nat \<Rightarrow> (('c, 'u, 'v) notification list \<times> ('c, 'u, 'v) trie) option" where
  "trie_node_deref t q =
     do { n \<leftarrow> tr_nodes t q;
          if \<not> trie_node_alive n then Some ([], t)
          else
            let t = node_upd q (\<lambda>n. n\<lparr>tn_refcount := tn_refcount n - 1\<rparr>) t
            in if tn_refcount n - 1 > 0 then Some ([], t) else trie_node_destroy t q }"

partial_function (option) trie_destroy_loop :: "('c, 'u, 'v) trie \<Rightarrow> nat \<Rightarrow> nat \<Rightarrow> (('c, 'u, 'v) notification list \<times> ('c, 'u, 'v) trie) option" where
  "trie_destroy_loop t header cur =
     do { fwd \<leftarrow> trie_node_next t cur header False;
          (ns, t) \<leftarrow> trie_node_destroy t cur;
          case fwd of
            None \<Rightarrow> Some (ns, t)
          | Some q \<Rightarrow> do { (ns', t) \<leftarrow> trie_destroy_loop t header q; Some (ns @ ns', t) } }"

declare trie_destroy_loop.simps [code]

text \<open>The nodes of the result are never freed.\<close>

definition trie_destroy :: "('c, 'u, 'v) trie \<Rightarrow> (('c, 'u, 'v) notification list \<times> ('c, 'u, 'v) trie) option" where
  "trie_destroy t = do { header \<leftarrow> tr_header t; trie_destroy_loop t header header }"

section \<open>The operations\<close>

definition trie_put ::
    "allocs \<Rightarrow> ('c, 'u, 'v) trie \<Rightarrow> string \<Rightarrow> 'v option \<Rightarrow> (('c, 'u, 'v) notification list \<times> ('c, 'u, 'v) trie) option" where
  "trie_put al t key value =
     do { (r, al, t) \<leftarrow> trie_insert al key t;
          case r of
            None \<Rightarrow> Some ([], t)
          | Some q \<Rightarrow> do {
              n \<leftarrow> tr_nodes t q;
              let t = node_upd q (\<lambda>n. n\<lparr>tn_key := Some key, tn_value := value\<rparr>) t;
              if tn_value n = None then do {
                t \<leftarrow> trie_node_ref t q;
                let t = t\<lparr>tr_length := tr_length t + 1\<rparr>;
                ns \<leftarrow> trie_notify t q QB_MAP_NOTIFY_INSERTED (Some key) None value;
                Some (ns, t) }
              else do {
                ns \<leftarrow> trie_notify t q QB_MAP_NOTIFY_REPLACED (tn_key n) (tn_value n) value;
                Some (ns, t) } } }"

definition trie_rm :: "('c, 'u, 'v) trie \<Rightarrow> string \<Rightarrow> (bool \<times> ('c, 'u, 'v) notification list \<times> ('c, 'u, 'v) trie) option" where
  "trie_rm t key =
     do { r \<leftarrow> trie_lookup t key True;
          case r of
            None \<Rightarrow> Some (False, [], t)
          | Some q \<Rightarrow> do { (ns, t) \<leftarrow> trie_node_deref t q; Some (True, ns, t\<lparr>tr_length := tr_length t - 1\<rparr>) } }"

definition trie_get :: "('c, 'u, 'v) trie \<Rightarrow> string \<Rightarrow> 'v option option" where
  "trie_get t key =
     do { r \<leftarrow> trie_lookup t key True;
          case r of None \<Rightarrow> Some None | Some q \<Rightarrow> do { n \<leftarrow> tr_nodes t q; Some (tn_value n) } }"

text \<open>\<open>al\<close> are the results of the allocations of the nodes, \<open>malloc_errno\<close> is that of the notifier.\<close>

definition trie_notify_add ::
    "allocs \<Rightarrow> int \<Rightarrow> ('c, 'u, 'v) trie \<Rightarrow> string option \<Rightarrow> 'c \<Rightarrow> u32 \<Rightarrow> 'u \<Rightarrow> (int \<times> ('c, 'u, 'v) trie) option" where
  "trie_notify_add al malloc_errno t key fn evs user =
     do { (r, t) \<leftarrow> (case key of
                       Some k \<Rightarrow> do { r \<leftarrow> trie_lookup t k True;
                                       if r = None then do { (r, al, t) \<leftarrow> trie_insert al k t; Some (r, t) } else Some (r, t) }
                     | None \<Rightarrow> Some (tr_header t, t));
          case r of
            None \<Rightarrow> Some (- EINVAL, t)
          | Some q \<Rightarrow> do {
              n \<leftarrow> tr_nodes t q;
              let add_to_tail = (if key \<noteq> None then evs AND QB_MAP_NOTIFY_RECURSIVE \<noteq> 0 else evs AND QB_MAP_NOTIFY_FREE \<noteq> 0);
              let (rc, ns) = notifier_add add_to_tail malloc_errno (tn_notifiers n) fn evs user;
              Some (rc, node_upd q (\<lambda>n. n\<lparr>tn_notifiers := ns\<rparr>) t) } }"

definition trie_notify_del ::
    "('c, 'u, 'v) trie \<Rightarrow> string option \<Rightarrow> 'c \<Rightarrow> u32 \<Rightarrow> bool \<Rightarrow> 'u \<Rightarrow> (int \<times> ('c, 'u, 'v) trie) option" where
  "trie_notify_del t key fn evs cmp_userdata user =
     do { r \<leftarrow> (case key of Some k \<Rightarrow> trie_lookup t k False | None \<Rightarrow> Some (tr_header t));
          case r of
            None \<Rightarrow> Some (- ENOENT, t)
          | Some q \<Rightarrow> do {
              n \<leftarrow> tr_nodes t q;
              let (rc, ns) = notifier_del (tn_notifiers n) fn evs cmp_userdata user;
              if rc = 0 then do { t \<leftarrow> trie_node_release (node_upd q (\<lambda>n. n\<lparr>tn_notifiers := ns\<rparr>) t) q; Some (0, t) }
              else Some (rc, t) } }"

section \<open>Iteration\<close>

definition trie_iter_create :: "bool \<Rightarrow> ('c, 'u, 'v) trie \<Rightarrow> string option \<Rightarrow> trie_iter option \<times> ('c, 'u, 'v) trie" where
  "trie_iter_create malloc_ok t prefix =
     (if malloc_ok then (Some \<lparr>ti_prefix = prefix, ti_n = tr_header t, ti_root = tr_header t\<rparr>, t) else (None, t))"

text \<open>Where the iterator goes from the node \<open>p\<close>.\<close>

definition iter_step :: "trie_iter \<Rightarrow> nat \<Rightarrow> ('c, 'u, 'v) trie_node \<Rightarrow> ('c, 'u, 'v) trie \<Rightarrow> trie_iter option" where
  "iter_step i p pn t =
     (case (tn_parent pn, ti_prefix i) of
        (None, Some prefix) \<Rightarrow>
          do { root \<leftarrow> trie_lookup t prefix False;
               case root of
                 None \<Rightarrow> Some (i\<lparr>ti_root := None, ti_n := None\<rparr>)
               | Some r \<Rightarrow> do {
                   rn \<leftarrow> tr_nodes t r;
                   n \<leftarrow> (if tn_value rn = None then trie_node_next t r r False else Some (Some r));
                   Some (i\<lparr>ti_root := Some r, ti_n := n\<rparr>) } }
      | _ \<Rightarrow> do { root \<leftarrow> ti_root i; n \<leftarrow> trie_node_next t p root False; Some (i\<lparr>ti_n := n\<rparr>) })"

definition trie_iter_next ::
    "trie_iter \<Rightarrow> ('c, 'u, 'v) trie \<Rightarrow> ((string \<times> 'v option) option \<times> ('c, 'u, 'v) notification list \<times> trie_iter \<times> ('c, 'u, 'v) trie) option" where
  "trie_iter_next i t =
     (case ti_n i of
        None \<Rightarrow> Some (None, [], i, t)
      | Some p \<Rightarrow> do {
          pn \<leftarrow> tr_nodes t p;
          i \<leftarrow> iter_step i p pn t;
          case ti_n i of
            None \<Rightarrow> do { (ns, t) \<leftarrow> trie_node_deref t p; Some (None, ns, i, t) }
          | Some q \<Rightarrow> do {
              t \<leftarrow> trie_node_ref t q;
              (ns, t) \<leftarrow> trie_node_deref t p;
              n \<leftarrow> tr_nodes t q;
              Some (map_option (\<lambda>k. (k, tn_value n)) (tn_key n), ns, i, t) } })"

definition trie_iter_free :: "trie_iter \<Rightarrow> ('c, 'u, 'v) trie \<Rightarrow> (('c, 'u, 'v) notification list \<times> ('c, 'u, 'v) trie) option" where
  "trie_iter_free i t = (case ti_n i of None \<Rightarrow> Some ([], t) | Some q \<Rightarrow> trie_node_deref t q)"

definition trie_count_get :: "('c, 'u, 'v) trie \<Rightarrow> u64" where
  "trie_count_get t = tr_length t"

text \<open>The node of the header is not checked for \<^verbatim>\<open>NULL\<close>.\<close>

definition qb_trie_create :: "bool \<Rightarrow> allocs \<Rightarrow> ('c, 'u, 'v) trie option" where
  "qb_trie_create malloc_ok al =
     (if \<not> malloc_ok then None
      else case trie_new_node al None \<lparr>tr_length = 0, tr_num_nodes = 0, tr_mem_used = trie_size, tr_header = None, tr_nodes = Map.empty\<rparr> of
             (h, al, t) \<Rightarrow> Some (t\<lparr>tr_header := h\<rparr>))"

definition trie_map :: "bool \<Rightarrow> allocs \<Rightarrow> int \<Rightarrow> (allocs, ('c, 'u, 'v) trie, trie_iter, 'c, 'u, 'v) qb_map" where
  "trie_map malloc_ok notify_al malloc_errno =
     \<lparr>mput = trie_put, mget = trie_get, mrm = trie_rm, mcount_get = trie_count_get,
      miter_create = trie_iter_create malloc_ok, miter_next = trie_iter_next, miter_free = trie_iter_free,
      mnotify_add = Some (trie_notify_add notify_al malloc_errno), mnotify_del = Some trie_notify_del\<rparr>"

end
