(* ===== verification/Trie_Inv.thy ===== *)
theory Trie_Inv
  imports Trie "HOL-Library.Sublist"
begin

text \<open>
  The invariant of the trie and the search in it. A path of characters belongs to every node, with \<open>P\<close> as the function that gives it; the
  invariant speaks about one node and its parent only, so that it is checked locally after a change.
\<close>

section \<open>Characters\<close>

lemma index_inj [simp]: "TRIE_CHAR2INDEX a = TRIE_CHAR2INDEX b \<longleftrightarrow> a = b"
proof
  assume eq: "TRIE_CHAR2INDEX a = TRIE_CHAR2INDEX b"
  have "x = y" if "x < 256" "y < 256" "(if x < 128 then 127 - x else 383 - x) = (if y < 128 then 127 - y else 383 - y)" for x y :: nat
    using that by (auto split: if_splits)
  from this[of "char_code a" "char_code b"] eq have "char_code a = char_code b" by (simp add: TRIE_CHAR2INDEX_def Let_def)
  then show "a = b" by simp
qed simp

section \<open>The invariant\<close>

definition child_at :: "nat option list \<Rightarrow> nat \<Rightarrow> nat option" where
  "child_at cs i = (if i < length cs then cs ! i else None)"

definition kid :: "('c, 'u, 'v) trie \<Rightarrow> nat \<Rightarrow> nat \<Rightarrow> nat option" where
  "kid t p i = (case tr_nodes t p of None \<Rightarrow> None | Some n \<Rightarrow> child_at (tn_children n) i)"

text \<open>The shape: links in both directions, and the paths.\<close>

definition trie_shape :: "(nat \<Rightarrow> string) \<Rightarrow> nat \<Rightarrow> ('c, 'u, 'v) trie \<Rightarrow> bool" where
  "trie_shape P h t \<longleftrightarrow>
     tr_header t = Some h \<and> finite (dom (tr_nodes t)) \<and> P h = [] \<and>
     (\<exists>hn. tr_nodes t h = Some hn \<and> tn_parent hn = None \<and> tn_segment hn = []) \<and>
     (\<forall>p i c. kid t p i = Some c \<longrightarrow> (\<exists>cn. tr_nodes t c = Some cn \<and> tn_parent cn = Some p \<and> tn_idx cn = i)) \<and>
     (\<forall>q n. tr_nodes t q = Some n \<longrightarrow> tn_num_children n = length (tn_children n)) \<and>
     (\<forall>q n. tr_nodes t q = Some n \<and> q \<noteq> h \<longrightarrow>
        (\<exists>p ch. tn_parent n = Some p \<and> kid t p (tn_idx n) = Some q \<and> tn_idx n = TRIE_CHAR2INDEX ch \<and> P q = P p @ ch # tn_segment n))"

text \<open>What the nodes hold, when no iterator uses the trie.\<close>

definition node_holds :: "string \<Rightarrow> ('c, 'u, 'v) trie_node \<Rightarrow> bool" where
  "node_holds path n \<longleftrightarrow> CHR 0x00 \<notin> set (tn_segment n) \<and>
     (if tn_value n = None then tn_key n = None \<and> tn_refcount n = 0
      else tn_key n = Some path \<and> tn_refcount n = 1 \<and> CHR 0x00 \<notin> set path \<and> path \<noteq> [])"

definition trie_holds :: "(nat \<Rightarrow> string) \<Rightarrow> ('c, 'u, 'v) trie \<Rightarrow> bool" where
  "trie_holds P t \<longleftrightarrow> (\<forall>q n. tr_nodes t q = Some n \<longrightarrow> node_holds (P q) n)"

lemma shapeD:
  assumes "trie_shape P h t"
  shows "tr_header t = Some h" "finite (dom (tr_nodes t))" "P h = []"
    and "\<exists>hn. tr_nodes t h = Some hn \<and> tn_parent hn = None \<and> tn_segment hn = []"
    and "kid t p i = Some c \<Longrightarrow> \<exists>cn. tr_nodes t c = Some cn \<and> tn_parent cn = Some p \<and> tn_idx cn = i"
    and "tr_nodes t q = Some n \<Longrightarrow> tn_num_children n = length (tn_children n)"
    and "tr_nodes t q = Some n \<Longrightarrow> q \<noteq> h \<Longrightarrow>
        \<exists>p ch. tn_parent n = Some p \<and> kid t p (tn_idx n) = Some q \<and> tn_idx n = TRIE_CHAR2INDEX ch \<and> P q = P p @ ch # tn_segment n"
  using assms unfolding trie_shape_def by blast+

lemma kid_node: "kid t p i = Some c \<Longrightarrow> \<exists>n. tr_nodes t p = Some n"
  by (auto simp: kid_def split: option.splits)

lemma kid_child_at: "tr_nodes t p = Some n \<Longrightarrow> kid t p i = child_at (tn_children n) i"
  by (simp add: kid_def)

lemma child_at_Nil [simp]: "child_at [] i = None"
  by (simp add: child_at_def)

lemma kid_get: "tr_nodes t p = Some n \<Longrightarrow> i < length (tn_children n) \<Longrightarrow> child_get n i = Some (kid t p i)"
  by (simp add: kid_def child_get_def child_at_def)

lemma header_only: 
  assumes "trie_shape P h t" "tr_nodes t q = Some n"
  shows "P q = [] \<longleftrightarrow> q = h"
  using shapeD(7)[OF assms] shapeD(3)[OF assms(1)] by (cases "q = h") auto

text \<open>A node and its parent.\<close>

lemma parent_cases:
  assumes "trie_shape P h t" "tr_nodes t q = Some n" "q \<noteq> h"
  obtains p pn ch where "tn_parent n = Some p" "tr_nodes t p = Some pn" "kid t p (TRIE_CHAR2INDEX ch) = Some q" "tn_idx n = TRIE_CHAR2INDEX ch"
    "P q = P p @ ch # tn_segment n"
  using shapeD(7)[OF assms] kid_node by (metis (no_types, lifting))

lemma kid_path:
  assumes "trie_shape P h t" "kid t p i = Some c"
  obtains cn ch where "tr_nodes t c = Some cn" "tn_parent cn = Some p" "tn_idx cn = i" "i = TRIE_CHAR2INDEX ch" "P c = P p @ ch # tn_segment cn" "c \<noteq> h"
proof -
  obtain cn where cn: "tr_nodes t c = Some cn" "tn_parent cn = Some p" "tn_idx cn = i" using shapeD(5)[OF assms] by blast
  moreover have "c \<noteq> h" using shapeD(4)[OF assms(1)] cn by auto
  ultimately show thesis using that shapeD(7)[OF assms(1) cn(1)] by auto
qed

text \<open>The way from a node towards one whose path is longer leads through a child.\<close>

lemma toward:
  assumes "trie_shape P h t" "tr_nodes t a = Some an" "tr_nodes t b = Some bn" "prefix (P a) (P b)" "a \<noteq> b"
  shows "\<exists>i c. kid t a i = Some c \<and> prefix (P c) (P b)"
  using assms(2-)
proof (induction "length (P a) + length (P b)" arbitrary: a b an bn rule: less_induct)
  case less
  have "b \<noteq> h" using less.prems header_only[OF assms(1)] by (metis prefix_Nil)
  from parent_cases[OF assms(1) less.prems(2) this] obtain p pn ch where p: "tn_parent bn = Some p" "tr_nodes t p = Some pn"
    "kid t p (TRIE_CHAR2INDEX ch) = Some b" "P b = P p @ ch # tn_segment bn" by metis
  have step: "c = q" if k: "kid t p' (TRIE_CHAR2INDEX ch') = Some q" "kid t p' j = Some c" "prefix (P c) (P p' @ ch' # s)" for p' q ch' j c s
  proof -
    obtain cn d where "tr_nodes t c = Some cn" "j = TRIE_CHAR2INDEX d" "P c = P p' @ d # tn_segment cn" by (rule kid_path[OF assms(1) k(2)]) blast
    then show ?thesis using k by auto
  qed
  show ?case
  proof (cases "a = p")
    case True
    then show ?thesis using p(3) by auto
  next
    case False
    consider "prefix (P a) (P p)" | "strict_prefix (P p) (P a)"
      using less.prems(3) p(4) prefix_same_cases[of "P a" "P b" "P p"] by (cases "P p = P a") (auto simp: strict_prefix_def)
    then show ?thesis
    proof cases
      case 1
      then obtain i c where "kid t a i = Some c" "prefix (P c) (P p)"
        using less.hyps[of a p an pn] less.prems(1) p False by auto
      then show ?thesis using p(4) by (metis prefix_prefix)
    next
      case 2
      then obtain i c where c: "kid t p i = Some c" "prefix (P c) (P a)"
        using less.hyps[of p a pn an] less.prems(1) p False by (auto simp: strict_prefix_def)
      then have "c = b" using step[OF p(3)] less.prems(3) p(4) by (metis prefix_order.trans)
      then have eq: "P a = P b" using c(2) less.prems(3) by (simp add: prefix_order.antisym)
      have "a \<noteq> h" using eq p(4) shapeD(3)[OF assms(1)] by auto
      from parent_cases[OF assms(1) less.prems(1) this] obtain pa pan ch' where pa: "tn_parent an = Some pa" "tr_nodes t pa = Some pan"
        "kid t pa (TRIE_CHAR2INDEX ch') = Some a" "P a = P pa @ ch' # tn_segment an" by metis
      have "pa \<noteq> p" using pa(3,4) p(3,4) eq less.prems(4) by auto
      consider "prefix (P pa) (P p)" | "prefix (P p) (P pa)"
        using prefix_same_cases[of "P pa" "P b" "P p"] pa(4) p(4) eq by (auto simp: prefix_def)
      then show ?thesis
      proof cases
        case 1
        then obtain i c where "kid t pa i = Some c" "prefix (P c) (P p)"
          using less.hyps[of pa p pan pn] pa p \<open>pa \<noteq> p\<close> eq by auto
        then show ?thesis using step[OF pa(3)] pa(4) p(4) eq by (metis append_self_conv list.distinct(1) prefix_order.antisym prefix_prefix prefixI)
      next
        case 2
        then obtain i c where "kid t p i = Some c" "prefix (P c) (P pa)"
          using less.hyps[of p pa pn pan] pa p \<open>pa \<noteq> p\<close> eq by auto
        then show ?thesis using step[OF p(3)] pa(4) p(4) eq by (metis append_self_conv list.distinct(1) prefix_order.antisym prefix_prefix prefixI)
      qed
    qed
  qed
qed

lemma path_inj:
  assumes "trie_shape P h t" "tr_nodes t a = Some an" "tr_nodes t b = Some bn" "P a = P b"
  shows "a = b"
proof (rule ccontr)
  assume "a \<noteq> b"
  then obtain i c where c: "kid t a i = Some c" "prefix (P c) (P b)" using toward[OF assms(1-3)] assms(4) by auto
  then show False using kid_path[OF assms(1) c(1)] assms(4) by (metis append_self_conv list.distinct(1) prefix_order.antisym prefixI)
qed

lemma toward_char:
  assumes "trie_shape P h t" "tr_nodes t p = Some pn" "tr_nodes t q = Some qn" "prefix (P p @ [ch]) (P q)"
  shows "\<exists>c. kid t p (TRIE_CHAR2INDEX ch) = Some c \<and> prefix (P c) (P q)"
proof -
  have "prefix (P p) (P q)" "p \<noteq> q" using assms(4) by (auto simp: prefix_def)
  then obtain i c where c: "kid t p i = Some c" "prefix (P c) (P q)" using toward[OF assms(1-3)] by blast
  obtain cn d where d: "tr_nodes t c = Some cn" "i = TRIE_CHAR2INDEX d" "P c = P p @ d # tn_segment cn" by (rule kid_path[OF assms(1) c(1)])
  have "d = ch" using c(2) assms(4) d(3) by (auto simp: prefix_def)
  then show ?thesis using c d(2) by auto
qed

section \<open>The search\<close>

text \<open>
  The search has read the characters \<open>s\<close> and stands behind \<open>seg\<close> characters of the segment of the node \<open>cur\<close>; every node whose path begins
  with \<open>s\<close> is at or below \<open>cur\<close>.
\<close>

definition at_point :: "(nat \<Rightarrow> string) \<Rightarrow> ('c, 'u, 'v) trie \<Rightarrow> nat \<Rightarrow> nat \<Rightarrow> string \<Rightarrow> bool" where
  "at_point P t cur seg s \<longleftrightarrow>
     (\<exists>cn B. tr_nodes t cur = Some cn \<and> seg \<le> length (tn_segment cn) \<and> P cur = B @ tn_segment cn \<and> s = B @ take seg (tn_segment cn)) \<and>
     (\<forall>q n. tr_nodes t q = Some n \<and> prefix s (P q) \<longrightarrow> prefix (P cur) (P q))"

lemma at_pointD:
  assumes "at_point P t cur seg s" "tr_nodes t cur = Some cn"
  shows "seg \<le> length (tn_segment cn)" "P cur = s @ drop seg (tn_segment cn)"
    and "tr_nodes t q = Some n \<Longrightarrow> prefix s (P q) \<Longrightarrow> prefix (P cur) (P q)"
  using assms unfolding at_point_def by auto

lemma at_pointI:
  assumes "tr_nodes t cur = Some cn" "seg \<le> length (tn_segment cn)" "P cur = s @ drop seg (tn_segment cn)" "s = B @ take seg (tn_segment cn)"
    and "\<And>q n. tr_nodes t q = Some n \<Longrightarrow> prefix s (P q) \<Longrightarrow> prefix (P cur) (P q)"
  shows "at_point P t cur seg s"
  using assms unfolding at_point_def by (auto intro!: exI[of _ B])

lemma at_start: "trie_shape P h t \<Longrightarrow> at_point P t h 0 []"
  using shapeD(3,4) by (fastforce simp: at_point_def)

lemma at_node: "at_point P t cur seg s \<Longrightarrow> \<exists>cn. tr_nodes t cur = Some cn"
  by (auto simp: at_point_def)

text \<open>The three steps: in the segment, to a child, and no way on.\<close>

lemma at_in_segment:
  assumes "at_point P t cur seg s" "tr_nodes t cur = Some cn" "seg < length (tn_segment cn)" "tn_segment cn ! seg = ch"
  shows "at_point P t cur (Suc seg) (s @ [ch])"
proof -
  obtain B where "P cur = B @ tn_segment cn" "s = B @ take seg (tn_segment cn)" using assms(1,2) by (auto simp: at_point_def)
  then have "s @ [ch] = B @ take (Suc seg) (tn_segment cn)" using assms(3,4) by (simp add: take_Suc_conv_app_nth)
  then show ?thesis
    using assms(1-3) \<open>P cur = _\<close> at_pointD(3)[OF assms(1,2)] unfolding at_point_def by (fastforce dest: append_prefixD)
qed

lemma at_off_segment:
  assumes "at_point P t cur seg s" "tr_nodes t cur = Some cn" "seg < length (tn_segment cn)" "tn_segment cn ! seg \<noteq> ch" "tr_nodes t q = Some n"
  shows "\<not> prefix (s @ [ch]) (P q)"
proof
  assume a: "prefix (s @ [ch]) (P q)"
  then have "prefix (P cur) (P q)" using at_pointD(3)[OF assms(1,2,5)] by (metis append_prefixD)
  then show False using a at_pointD(2)[OF assms(1,2)] assms(3,4) by (auto simp: prefix_def Cons_nth_drop_Suc[symmetric])
qed

lemma at_child:
  assumes "trie_shape P h t" "at_point P t cur seg s" "tr_nodes t cur = Some cn" "seg = length (tn_segment cn)" "kid t cur (TRIE_CHAR2INDEX ch) = Some q"
  shows "at_point P t q 0 (s @ [ch])"
proof -
  have s: "P cur = s" using at_pointD(2)[OF assms(2,3)] assms(4) by simp
  obtain qn d where q: "tr_nodes t q = Some qn" "TRIE_CHAR2INDEX ch = TRIE_CHAR2INDEX d" "P q = P cur @ d # tn_segment qn" by (rule kid_path[OF assms(1,5)])
  show ?thesis
  proof (rule at_pointI[OF q(1)])
    show "prefix (P q) (P r)" if "tr_nodes t r = Some rn" "prefix (s @ [ch]) (P r)" for r rn
      using toward_char[OF assms(1,3) that(1), of ch] that(2) assms(5) s by auto
  qed (use q s in auto)
qed

lemma at_no_child:
  assumes "trie_shape P h t" "at_point P t cur seg s" "tr_nodes t cur = Some cn" "seg = length (tn_segment cn)" "kid t cur (TRIE_CHAR2INDEX ch) = None"
    and "tr_nodes t q = Some n"
  shows "\<not> prefix (s @ [ch]) (P q)"
  using toward_char[OF assms(1,3,6), of ch] at_pointD(2)[OF assms(2,3)] assms(4,5) by auto

lemma child_lookup:
  assumes "trie_shape P h t" "tr_nodes t cur = Some cn"
  shows "(if i < tn_num_children cn then child_get cn i else Some None) = Some (kid t cur i)"
  using shapeD(6)[OF assms] assms(2) by (simp add: kid_def child_get_def child_at_def)

lemma lookup_loop_ok:
  assumes "trie_shape P h t" "at_point P t cur seg s"
  shows "(\<exists>q j. trie_lookup_loop t cur seg key = Some (Some (q, j)) \<and> at_point P t q j (s @ key)) \<or>
    (trie_lookup_loop t cur seg key = Some None \<and> (\<forall>q n. tr_nodes t q = Some n \<longrightarrow> \<not> prefix (s @ key) (P q)))"
  using assms(2)
proof (induction key arbitrary: cur seg s)
  case (Cons ch key)
  obtain cn where cn: "tr_nodes t cur = Some cn" using at_node[OF Cons.prems] by blast
  have le: "seg \<le> length (tn_segment cn)" using at_pointD(1)[OF Cons.prems cn] .
  consider (in_seg) "seg < length (tn_segment cn)" "tn_segment cn ! seg = ch" | (off_seg) "seg < length (tn_segment cn)" "tn_segment cn ! seg \<noteq> ch"
    | (child) q where "seg = length (tn_segment cn)" "kid t cur (TRIE_CHAR2INDEX ch) = Some q"
    | (no_child) "seg = length (tn_segment cn)" "kid t cur (TRIE_CHAR2INDEX ch) = None"
    using le by (cases "kid t cur (TRIE_CHAR2INDEX ch)") fastforce+
  then show ?case
  proof cases
    case in_seg
    then show ?thesis using Cons.IH[OF at_in_segment[OF Cons.prems cn in_seg]] cn by simp
  next
    case off_seg
    have "\<not> prefix (s @ ch # key) (P q)" if "tr_nodes t q = Some n" for q n
      using at_off_segment[OF Cons.prems cn off_seg that] by (metis append_Cons append_Nil append_assoc append_prefixD)
    then show ?thesis using off_seg cn by simp
  next
    case child
    then show ?thesis using Cons.IH[OF at_child[OF assms(1) Cons.prems cn child]] cn child_lookup[OF assms(1) cn] by simp
  next
    case no_child
    have "\<not> prefix (s @ ch # key) (P q)" if "tr_nodes t q = Some n" for q n
      using at_no_child[OF assms(1) Cons.prems cn no_child that] by (metis append_Cons append_Nil append_assoc append_prefixD)
    then show ?thesis using no_child cn child_lookup[OF assms(1) cn] by simp
  qed
qed simp

text \<open>The exact search finds the node of a path, and the other one the node under which all paths with the prefix are.\<close>

lemma lookup_exact:
  assumes "trie_shape P h t" "key \<noteq> []"
  shows "(\<exists>q n. trie_lookup t key True = Some (Some q) \<and> tr_nodes t q = Some n \<and> P q = key) \<or>
    (trie_lookup t key True = Some None \<and> (\<forall>q n. tr_nodes t q = Some n \<longrightarrow> P q \<noteq> key))"
  using lookup_loop_ok[OF assms(1) at_start[OF assms(1)], of key]
proof (elim disjE exE conjE)
  fix q j assume l: "trie_lookup_loop t h 0 key = Some (Some (q, j))" and at: "at_point P t q j ([] @ key)"
  obtain n where n: "tr_nodes t q = Some n" using at_node[OF at] by blast
  show ?thesis
  proof (cases "j < length (tn_segment n)")
    case True
    have "P r \<noteq> key" if r: "tr_nodes t r = Some m" for r m
    proof
      assume "P r = key"
      then have "prefix (P q) (P r)" using at_pointD(3)[OF at n r] by simp
      then show False using at_pointD(2)[OF at n] True \<open>P r = key\<close> by (auto simp: prefix_def)
    qed
    then show ?thesis using True assms l n shapeD(1)[OF assms(1)] by (simp add: trie_lookup_def)
  next
    case False
    then show ?thesis using at_pointD(2)[OF at n] assms l n shapeD(1)[OF assms(1)] by (simp add: trie_lookup_def)
  qed
next
  assume "trie_lookup_loop t h 0 key = Some None" "\<forall>q n. tr_nodes t q = Some n \<longrightarrow> \<not> prefix ([] @ key) (P q)"
  then show ?thesis using assms shapeD(1)[OF assms(1)] by (auto simp: trie_lookup_def)
qed

lemma lookup_prefix:
  assumes "trie_shape P h t" "key \<noteq> []"
  shows "(\<exists>r n. trie_lookup t key False = Some (Some r) \<and> tr_nodes t r = Some n \<and> (\<forall>q m. tr_nodes t q = Some m \<longrightarrow> prefix key (P q) = prefix (P r) (P q))) \<or>
    (trie_lookup t key False = Some None \<and> (\<forall>q n. tr_nodes t q = Some n \<longrightarrow> \<not> prefix key (P q)))"
  using lookup_loop_ok[OF assms(1) at_start[OF assms(1)], of key]
proof (elim disjE exE conjE)
  fix q j assume l: "trie_lookup_loop t h 0 key = Some (Some (q, j))" and at: "at_point P t q j ([] @ key)"
  obtain n where n: "tr_nodes t q = Some n" using at_node[OF at] by blast
  have "prefix key (P r) = prefix (P q) (P r)" if "tr_nodes t r = Some m" for r m
    using at_pointD(2,3)[OF at n] that by (metis append_Nil append_prefixD)
  then show ?thesis using assms l n shapeD(1)[OF assms(1)] by (simp add: trie_lookup_def)
qed (use assms shapeD(1)[OF assms(1)] in \<open>auto simp: trie_lookup_def\<close>)

end
