(* ===== verification/Trie_Map.thy ===== *)
theory Trie_Map
  imports Trie_Inv
begin

text \<open>
  Every operation of the trie keeps its invariant, and the trie implements the contract of a map. A removal of a key that is not there is left
  out of the contract: when a node of the trie has the path, it counts as a success.
\<close>

section \<open>Allocation\<close>

definition al_ok :: "allocs \<Rightarrow> ('c, 'u, 'v) trie \<Rightarrow> bool" where
  "al_ok al t \<longleftrightarrow> inj al \<and> (\<forall>i. case al i of None \<Rightarrow> False | Some a \<Rightarrow> tr_nodes t a = None)"

lemma al_ok_next:
  assumes "al_ok al t"
  obtains a al' where "alloc_next al = (Some a, al')" "al_ok al' t" "tr_nodes t a = None" "Some a \<notin> range al'" "range al' \<subseteq> range al"
proof -
  obtain a where a: "al 0 = Some a" "tr_nodes t a = None" using assms by (auto simp: al_ok_def split: option.splits dest: spec[of _ 0])
  have "inj al" using assms by (simp add: al_ok_def)
  then have "inj (\<lambda>i. al (Suc i))" "Some a \<notin> range (\<lambda>i. al (Suc i))" unfolding a(1)[symmetric] by (auto simp: inj_def)
  then show thesis using that[of a "\<lambda>i. al (Suc i)"] a assms by (auto simp: alloc_next_def al_ok_def)
qed

text \<open>Allocations stay good when the nodes that came into use are others.\<close>

lemma al_ok_upd:
  assumes "al_ok al t" "\<And>a. Some a \<in> range al \<Longrightarrow> tr_nodes t a = None \<Longrightarrow> tr_nodes t' a = None"
  shows "al_ok al t'"
  using assms by (auto simp: al_ok_def split: option.splits) (metis rangeI)+

section \<open>A new child\<close>

definition fresh_node :: "nat \<Rightarrow> nat \<Rightarrow> ('c, 'u, 'v) trie_node" where
  "fresh_node p i = \<lparr>tn_idx = i, tn_segment = [], tn_key = None, tn_value = None, tn_children = [], tn_num_children = 0,
     tn_refcount = 0, tn_parent = Some p, tn_notifiers = []\<rparr>"

text \<open>What the new node and its parent look like afterwards.\<close>

lemma new_child_ok:
  assumes "tr_nodes t p = Some pn" "tn_num_children pn = length (tn_children pn)" "al_ok al t"
  obtains q al' cs m where
    "new_child_node al p ch t =
       Some (Some q, al', t\<lparr>tr_nodes := (tr_nodes t)(p \<mapsto> pn\<lparr>tn_children := cs, tn_num_children := length cs\<rparr>, q \<mapsto> fresh_node p (TRIE_CHAR2INDEX ch)),
                            tr_num_nodes := tr_num_nodes t + 1, tr_mem_used := m\<rparr>)"
    "tr_nodes t q = None" "Some q \<notin> range al'" "al_ok al' t"
    "\<And>i. child_at cs i = (if i = TRIE_CHAR2INDEX ch then Some q else child_at (tn_children pn) i)"
proof -
  let ?i = "TRIE_CHAR2INDEX ch"
  obtain a1 al1 where 1: "alloc_next al = (Some a1, al1)" "al_ok al1 t" "tr_nodes t a1 = None" "Some a1 \<notin> range al1" by (rule al_ok_next[OF assms(3)])
  obtain a2 al2 where 2: "alloc_next al1 = (Some a2, al2)" "al_ok al2 t" "tr_nodes t a2 = None" "Some a2 \<notin> range al2" "range al2 \<subseteq> range al1" by (rule al_ok_next[OF 1(2)])
  obtain a3 al3 where 3: "alloc_next al2 = (Some a3, al3)" "al_ok al3 t" "range al3 \<subseteq> range al2" by (rule al_ok_next[OF 2(2)])
  have ne: "a1 \<noteq> p" "a2 \<noteq> p" using 1(3) 2(3) assms(1) by auto
  show thesis
  proof (cases "?i < length (tn_children pn)")
    case True
    show thesis
    proof (rule that[where q = a1 and al' = al2 and cs = "(tn_children pn)[?i := Some a1]" and m = "tr_mem_used t + trie_node_size"])
      show "new_child_node al p ch t =
          Some (Some a1, al2, t\<lparr>tr_nodes := (tr_nodes t)(p \<mapsto> pn\<lparr>tn_children := (tn_children pn)[?i := Some a1],
                 tn_num_children := length ((tn_children pn)[?i := Some a1])\<rparr>, a1 \<mapsto> fresh_node p ?i),
               tr_num_nodes := tr_num_nodes t + 1, tr_mem_used := tr_mem_used t + trie_node_size\<rparr>)"
        using assms(1,2) True ne 1(1) 2(1)
        by (simp add: new_child_node_def trie_new_node_def node_upd_def child_get_def fresh_node_def Let_def fun_upd_twist fun_eq_iff)
      show "Some a1 \<notin> range al2" "al_ok al2 t" using 1(4) 2(2,5) by auto
    qed (use 1(3) True in \<open>auto simp: child_at_def\<close>)
  next
    case False
    let ?cs = "(tn_children pn @ replicate (max (?i + 1) 30 - length (tn_children pn)) None)[?i := Some a2]"
    have len: "length ?cs = max (?i + 1) 30" using False by simp
    show thesis
    proof (rule that[where q = a2 and al' = al3 and cs = ?cs and m = "tr_mem_used t + 8 * of_nat (max (?i + 1) 30 - length (tn_children pn)) + trie_node_size"])
      show "new_child_node al p ch t =
          Some (Some a2, al3, t\<lparr>tr_nodes := (tr_nodes t)(p \<mapsto> pn\<lparr>tn_children := ?cs, tn_num_children := length ?cs\<rparr>, a2 \<mapsto> fresh_node p ?i),
               tr_num_nodes := tr_num_nodes t + 1,
               tr_mem_used := tr_mem_used t + 8 * of_nat (max (?i + 1) 30 - length (tn_children pn)) + trie_node_size\<rparr>)"
        unfolding len using assms(1,2) False ne 1(1) 2(1) 3(1)
        by (simp add: new_child_node_def trie_new_node_def node_upd_def child_get_def fresh_node_def Let_def fun_upd_twist fun_eq_iff)
      show "Some a2 \<notin> range al3" "al_ok al3 t" using 2(4) 3(2,3) by auto
    qed (use 2(3) False in \<open>auto simp: child_at_def nth_list_update nth_append\<close>)
  qed
qed

lemma shapeI:
  assumes "tr_header t = Some h" "finite (dom (tr_nodes t))" "P h = []" "tr_nodes t h = Some hn" "tn_parent hn = None" "tn_segment hn = []"
    and "\<And>p n i c. tr_nodes t p = Some n \<Longrightarrow> child_at (tn_children n) i = Some c \<Longrightarrow> \<exists>cn. tr_nodes t c = Some cn \<and> tn_parent cn = Some p \<and> tn_idx cn = i"
    and "\<And>q n. tr_nodes t q = Some n \<Longrightarrow> tn_num_children n = length (tn_children n)"
    and "\<And>q n. tr_nodes t q = Some n \<Longrightarrow> q \<noteq> h \<Longrightarrow>
      \<exists>p ch. tn_parent n = Some p \<and> kid t p (tn_idx n) = Some q \<and> tn_idx n = TRIE_CHAR2INDEX ch \<and> P q = P p @ ch # tn_segment n"
  shows "trie_shape P h t"
  unfolding trie_shape_def
proof (intro conjI allI impI)
  fix p i c assume "kid t p i = Some c"
  then obtain n where "tr_nodes t p = Some n" "child_at (tn_children n) i = Some c" by (auto simp: kid_def split: option.splits)
  then show "\<exists>cn. tr_nodes t c = Some cn \<and> tn_parent cn = Some p \<and> tn_idx cn = i" by (rule assms(7))
qed (use assms in auto)

text \<open>Nobody has a node as parent that is not there.\<close>

lemma parent_there:
  assumes "trie_shape P h t" "tr_nodes t q = Some n" "tn_parent n = Some p"
  shows "\<exists>pn. tr_nodes t p = Some pn"
proof -
  have "q \<noteq> h" using shapeD(4)[OF assms(1)] assms(2,3) by auto
  then show ?thesis using parent_cases[OF assms(1,2)] assms(3) by (metis option.inject)
qed

lemma shape_new_child:
  assumes sh: "trie_shape P h t" and p: "tr_nodes t p = Some pn" and free: "kid t p (TRIE_CHAR2INDEX ch) = None" and q: "tr_nodes t q = None"
    and cs: "\<And>i. child_at cs i = (if i = TRIE_CHAR2INDEX ch then Some q else child_at (tn_children pn) i)"
    and t': "tr_nodes t' = (tr_nodes t)(p \<mapsto> pn\<lparr>tn_children := cs, tn_num_children := length cs\<rparr>, q \<mapsto> fresh_node p (TRIE_CHAR2INDEX ch))" "tr_header t' = tr_header t"
  shows "trie_shape (P(q := P p @ [ch])) h t'"
proof -
  have ne: "q \<noteq> p" using p q by auto
  obtain hn where hn: "tr_nodes t h = Some hn" "tn_parent hn = None" "tn_segment hn = []" using shapeD(4)[OF sh] by blast
  have "q \<noteq> h" using q hn by auto
  have kid': "kid t' r i = (if r = q then None else if r = p \<and> i = TRIE_CHAR2INDEX ch then Some q else kid t r i)" for r i
    using p ne by (simp add: kid_def t' fresh_node_def cs)
  show ?thesis
  proof (rule shapeI)
    show "tr_nodes t' h = Some (if h = p then pn\<lparr>tn_children := cs, tn_num_children := length cs\<rparr> else hn)" using t' \<open>q \<noteq> h\<close> hn(1) by auto
    fix r n i c assume r: "tr_nodes t' r = Some n" "child_at (tn_children n) i = Some c"
    then have "kid t' r i = Some c" by (simp add: kid_def)
    then consider "r = p" "i = TRIE_CHAR2INDEX ch" "c = q" | "r \<noteq> q" "kid t r i = Some c" unfolding kid' by (metis option.distinct(1) option.inject)
    then show "\<exists>cn. tr_nodes t' c = Some cn \<and> tn_parent cn = Some r \<and> tn_idx cn = i"
    proof cases
      case 2
      then obtain cn where "tr_nodes t c = Some cn" "tn_parent cn = Some r" "tn_idx cn = i" using shapeD(5)[OF sh] by blast
      then show ?thesis using t' q p by (cases "c = p") auto
    qed (simp add: t' fresh_node_def)
  next
    fix r n assume r: "tr_nodes t' r = Some n" "r \<noteq> h"
    consider "r = q" "n = fresh_node p (TRIE_CHAR2INDEX ch)" | m where "r \<noteq> q" "tr_nodes t r = Some m" "tn_parent n = tn_parent m" "tn_idx n = tn_idx m" "tn_segment n = tn_segment m"
      using r(1) p by (auto simp: t' split: if_splits)
    then show "\<exists>p' ch'. tn_parent n = Some p' \<and> kid t' p' (tn_idx n) = Some r \<and> tn_idx n = TRIE_CHAR2INDEX ch' \<and>
        (P(q := P p @ [ch])) r = (P(q := P p @ [ch])) p' @ ch' # tn_segment n"
    proof cases
      case 1
      then show ?thesis using ne by (auto simp: kid' fresh_node_def)
    next
      case 2
      obtain p' pn' ch' where "tn_parent m = Some p'" "tr_nodes t p' = Some pn'" "kid t p' (TRIE_CHAR2INDEX ch') = Some r" "tn_idx m = TRIE_CHAR2INDEX ch'"
        "P r = P p' @ ch' # tn_segment m" by (rule parent_cases[OF sh 2(2) r(2)])
      then show ?thesis using 2 q free by (auto simp: kid')
    qed
  next
    show "tn_num_children n = length (tn_children n)" if "tr_nodes t' r = Some n" for r n
      using that shapeD(6)[OF sh, of r n] by (auto simp: t' fresh_node_def split: if_splits)
  qed (use shapeD(1-3)[OF sh] t' hn p \<open>q \<noteq> h\<close> in auto)
qed

section \<open>Splitting a node\<close>

lemma adopt_ok:
  assumes "\<And>c. Some c \<in> set cs \<Longrightarrow> tr_nodes t c \<noteq> None"
  shows "adopt q cs t = Some (t\<lparr>tr_nodes := (\<lambda>r. if Some r \<in> set cs then map_option (\<lambda>n. n\<lparr>tn_parent := Some q\<rparr>) (tr_nodes t r) else tr_nodes t r)\<rparr>)"
  using assms
proof (induction q cs t rule: adopt.induct)
  case (3 q c cs t)
  let ?t = "node_upd c (\<lambda>n. n\<lparr>tn_parent := Some q\<rparr>) t"
  have "tr_nodes t c \<noteq> None" by (rule 3(2)) simp
  then obtain n where n: "tr_nodes t c = Some n" by blast
  have "adopt q cs ?t = Some (?t\<lparr>tr_nodes := (\<lambda>r. if Some r \<in> set cs then map_option (\<lambda>n. n\<lparr>tn_parent := Some q\<rparr>) (tr_nodes ?t r) else tr_nodes ?t r)\<rparr>)"
    by (rule 3(1)[OF n]) (use 3(2) in \<open>auto simp: node_upd_def\<close>)
  then show ?case using n by (auto simp: node_upd_def fun_eq_iff intro!: trie.equality)
qed (auto intro!: trie.equality)

lemma in_children: "Some c \<in> set cs \<longleftrightarrow> (\<exists>i. child_at cs i = Some c)"
  by (auto simp: child_at_def in_set_conv_nth)

text \<open>The nodes after a split.\<close>

definition split_nodes ::
    "nat \<Rightarrow> ('c, 'u, 'v) trie_node \<Rightarrow> nat \<Rightarrow> nat \<Rightarrow> nat option list \<Rightarrow> (nat \<rightharpoonup> ('c, 'u, 'v) trie_node) \<Rightarrow> nat \<rightharpoonup> ('c, 'u, 'v) trie_node" where
  "split_nodes cur cn seg q cs ns = (\<lambda>r.
     if r = cur then Some (cn\<lparr>tn_children := cs, tn_num_children := length cs, tn_value := None, tn_key := None, tn_refcount := 0,
                              tn_notifiers := [], tn_segment := take seg (tn_segment cn)\<rparr>)
     else if r = q then Some (cn\<lparr>tn_idx := TRIE_CHAR2INDEX (tn_segment cn ! seg), tn_parent := Some cur, tn_segment := drop (Suc seg) (tn_segment cn)\<rparr>)
     else if Some r \<in> set (tn_children cn) then map_option (\<lambda>n. n\<lparr>tn_parent := Some q\<rparr>) (ns r)
     else ns r)"

lemma split_ok:
  assumes sh: "trie_shape P h t" and cur: "tr_nodes t cur = Some cn" and seg: "seg < length (tn_segment cn)" and al: "al_ok al t"
  obtains q al' cs m where
    "trie_node_split al cur seg t =
       Some (Some cur, al', t\<lparr>tr_nodes := split_nodes cur cn seg q cs (tr_nodes t), tr_num_nodes := tr_num_nodes t + 1, tr_mem_used := m\<rparr>)"
    "tr_nodes t q = None" "Some q \<notin> range al'" "al_ok al' t"
    "\<And>i. child_at cs i = (if i = TRIE_CHAR2INDEX (tn_segment cn ! seg) then Some q else None)"
proof -
  let ?ch = "tn_segment cn ! seg"
  let ?t1 = "node_upd cur (\<lambda>n. n\<lparr>tn_children := [], tn_num_children := 0\<rparr>) t"
  have t1: "tr_nodes ?t1 cur = Some (cn\<lparr>tn_children := [], tn_num_children := 0\<rparr>)" using cur by (simp add: node_upd_def)
  have al1: "al_ok al ?t1" using al by (rule al_ok_upd) (auto simp: node_upd_def)
  obtain q al' cs m where new: "new_child_node al cur ?ch ?t1 =
       Some (Some q, al', ?t1\<lparr>tr_nodes := (tr_nodes ?t1)(cur \<mapsto> (cn\<lparr>tn_children := [], tn_num_children := 0\<rparr>)\<lparr>tn_children := cs, tn_num_children := length cs\<rparr>,
                                q \<mapsto> fresh_node cur (TRIE_CHAR2INDEX ?ch)), tr_num_nodes := tr_num_nodes ?t1 + 1, tr_mem_used := m\<rparr>)"
    "tr_nodes ?t1 q = None" "Some q \<notin> range al'" "al_ok al' ?t1"
    "\<And>i. child_at cs i = (if i = TRIE_CHAR2INDEX ?ch then Some q else child_at [] i)"
    by (rule new_child_ok[OF t1 _ al1, of ?ch]) auto
  obtain a al'' where al': "alloc_next al' = (Some a, al'')" "al_ok al'' ?t1" "range al'' \<subseteq> range al'" by (rule al_ok_next[OF new(4)])
  have q: "tr_nodes t q = None" "q \<noteq> cur" using new(2) cur by (auto simp: node_upd_def split: if_splits)
  have num: "tn_num_children cn = length (tn_children cn)" using shapeD(6)[OF sh cur] .
  have child: "\<exists>m. tr_nodes t c = Some m \<and> tn_parent m = Some cur" if "Some c \<in> set (tn_children cn)" for c
    using that shapeD(5)[OF sh, of cur _ c] cur by (auto simp: in_children kid_child_at)
  have no_self: "Some cur \<notin> set (tn_children cn)" "Some q \<notin> set (tn_children cn)"
  proof -
    show "Some q \<notin> set (tn_children cn)" using child[of q] q by auto
    show "Some cur \<notin> set (tn_children cn)"
    proof
      assume "Some cur \<in> set (tn_children cn)"
      then obtain i where "kid t cur i = Some cur" using cur by (auto simp: in_children kid_child_at)
      from kid_path[OF sh this] show False by auto
    qed
  qed
  let ?t2 = "?t1\<lparr>tr_nodes := (tr_nodes ?t1)(cur \<mapsto> (cn\<lparr>tn_children := [], tn_num_children := 0\<rparr>)\<lparr>tn_children := cs, tn_num_children := length cs\<rparr>,
                                q \<mapsto> fresh_node cur (TRIE_CHAR2INDEX ?ch)), tr_num_nodes := tr_num_nodes ?t1 + 1, tr_mem_used := m\<rparr>"
  let ?t3 = "node_upd q (\<lambda>n. n\<lparr>tn_children := tn_children cn, tn_num_children := tn_num_children cn\<rparr>) ?t2"
  have "adopt q (tn_children cn) ?t3 = Some (?t3\<lparr>tr_nodes := (\<lambda>r. if Some r \<in> set (tn_children cn)
      then map_option (\<lambda>n. n\<lparr>tn_parent := Some q\<rparr>) (tr_nodes ?t3 r) else tr_nodes ?t3 r)\<rparr>)"
    by (rule adopt_ok) (use child no_self q in \<open>auto simp: node_upd_def\<close>)
  then have "trie_node_split al cur seg t =
       Some (Some cur, al'', t\<lparr>tr_nodes := split_nodes cur cn seg q cs (tr_nodes t), tr_num_nodes := tr_num_nodes t + 1, tr_mem_used := m\<rparr>)"
    using cur seg new(1) al'(1) q(2) no_self num
    by (auto simp: trie_node_split_def Let_def node_upd_def split_nodes_def fresh_node_def fun_eq_iff intro!: trie.equality)
  moreover have "al_ok al'' t" using al'(2) by (rule al_ok_upd) (auto simp: node_upd_def split: if_splits)
  moreover have "Some q \<notin> range al''" using new(3) al'(3) by blast
  ultimately show thesis using that q(1) new(5) by simp
qed

definition is_split ::
    "(nat \<Rightarrow> string) \<Rightarrow> nat \<Rightarrow> ('c, 'u, 'v) trie \<Rightarrow> nat \<Rightarrow> ('c, 'u, 'v) trie_node \<Rightarrow> nat \<Rightarrow> nat \<Rightarrow> ('c, 'u, 'v) trie \<Rightarrow> bool" where
  "is_split P h t cur cn seg q t' \<longleftrightarrow> trie_shape P h t \<and> tr_nodes t cur = Some cn \<and> seg < length (tn_segment cn) \<and> tr_nodes t q = None \<and> tr_header t' = tr_header t \<and>
     (\<exists>cs. tr_nodes t' = split_nodes cur cn seg q cs (tr_nodes t) \<and>
           (\<forall>i. child_at cs i = (if i = TRIE_CHAR2INDEX (tn_segment cn ! seg) then Some q else None)))"

lemma is_splitD:
  assumes "is_split P h t cur cn seg q t'"
  shows "trie_shape P h t" "tr_nodes t cur = Some cn" "seg < length (tn_segment cn)" "tr_nodes t q = None" "tr_header t' = tr_header t"
    and "cur \<noteq> h" "q \<noteq> cur" "q \<noteq> h"
    and "\<exists>cs. tr_nodes t' = split_nodes cur cn seg q cs (tr_nodes t) \<and> (\<forall>i. child_at cs i = (if i = TRIE_CHAR2INDEX (tn_segment cn ! seg) then Some q else None))"
  using assms shapeD(4)[of P h t] unfolding is_split_def by auto

lemma not_own_child: "trie_shape P h t \<Longrightarrow> kid t cur i \<noteq> Some cur"
  by (auto elim: kid_path)

text \<open>The other nodes keep all but their parent.\<close>

lemma split_other:
  assumes sp: "is_split P h t cur cn seg q t'" and n: "tr_nodes t r = Some n" and r: "r \<noteq> cur"
  shows "\<exists>n'. tr_nodes t' r = Some n' \<and> tn_idx n' = tn_idx n \<and> tn_segment n' = tn_segment n \<and> tn_children n' = tn_children n \<and>
      tn_num_children n' = tn_num_children n \<and> tn_parent n' = (if tn_parent n = Some cur then Some q else tn_parent n)"
proof -
  note sh = is_splitD(1)[OF sp] and cur = is_splitD(2)[OF sp]
  have "r \<noteq> q" using is_splitD(4)[OF sp] n by auto
  moreover have "Some r \<in> set (tn_children cn) \<longleftrightarrow> tn_parent n = Some cur"
  proof
    assume "Some r \<in> set (tn_children cn)"
    then show "tn_parent n = Some cur" using shapeD(5)[OF sh, of cur _ r] cur n by (auto simp: in_children kid_child_at)
  next
    assume p: "tn_parent n = Some cur"
    then have "r \<noteq> h" using shapeD(4)[OF sh] n by auto
    then have "kid t cur (tn_idx n) = Some r" using shapeD(7)[OF sh n] p by auto
    then show "Some r \<in> set (tn_children cn)" using cur by (auto simp: in_children kid_child_at)
  qed
  ultimately show ?thesis using is_splitD(9)[OF sp] n r by (auto simp: split_nodes_def)
qed

lemma split_kid:
  assumes sp: "is_split P h t cur cn seg q t'"
  shows "kid t' r i = (if r = cur then if i = TRIE_CHAR2INDEX (tn_segment cn ! seg) then Some q else None else if r = q then kid t cur i else kid t r i)"
proof -
  obtain cs where t': "tr_nodes t' = split_nodes cur cn seg q cs (tr_nodes t)"
    "\<And>i. child_at cs i = (if i = TRIE_CHAR2INDEX (tn_segment cn ! seg) then Some q else None)" using is_splitD(9)[OF sp] by blast
  consider "r = cur" | "r = q" | "r \<noteq> cur" "r \<noteq> q" "tr_nodes t r = None" | n where "r \<noteq> cur" "r \<noteq> q" "tr_nodes t r = Some n" by blast
  then show ?thesis using t'(2) is_splitD(2,7)[OF sp] by cases (auto simp: kid_def t'(1) split_nodes_def)
qed

lemma split_path:
  assumes sp: "is_split P h t cur cn seg q t'" and B: "P cur = B @ tn_segment cn" and r: "tr_nodes t' r = Some n" "r \<noteq> h"
    and P': "P' = P(cur := B @ take seg (tn_segment cn), q := P cur)"
  shows "\<exists>p ch. tn_parent n = Some p \<and> kid t' p (tn_idx n) = Some r \<and> tn_idx n = TRIE_CHAR2INDEX ch \<and> P' r = P' p @ ch # tn_segment n"
proof -
  note sh = is_splitD(1)[OF sp] and cur = is_splitD(2)[OF sp] and ne = is_splitD(4,6-8)[OF sp] and kid' = split_kid[OF sp]
  obtain cs where t': "tr_nodes t' = split_nodes cur cn seg q cs (tr_nodes t)" using is_splitD(9)[OF sp] by blast
  consider "r = cur" | "r = q" | m where "r \<noteq> cur" "tr_nodes t r = Some m" using r(1) by (auto simp: t' split_nodes_def split: if_splits)
  then show ?thesis
  proof cases
    case 1
    then have n: "tn_idx n = tn_idx cn" "tn_parent n = tn_parent cn" "tn_segment n = take seg (tn_segment cn)" using r(1) by (auto simp: t' split_nodes_def)
    obtain p pn ch where p: "tn_parent cn = Some p" "tr_nodes t p = Some pn" "kid t p (TRIE_CHAR2INDEX ch) = Some cur" "tn_idx cn = TRIE_CHAR2INDEX ch"
      "P cur = P p @ ch # tn_segment cn" by (rule parent_cases[OF sh cur ne(2)])
    then have "p \<noteq> cur" "p \<noteq> q" "B = P p @ [ch]" using ne(1) B by auto
    then show ?thesis using 1 n p ne kid' P' by auto
  next
    case 2
    then have n: "tn_idx n = TRIE_CHAR2INDEX (tn_segment cn ! seg)" "tn_parent n = Some cur" "tn_segment n = drop (Suc seg) (tn_segment cn)"
      using r(1) ne by (auto simp: t' split_nodes_def)
    have "P cur = (B @ take seg (tn_segment cn)) @ tn_segment cn ! seg # drop (Suc seg) (tn_segment cn)"
      using is_splitD(3)[OF sp] B by (simp add: Cons_nth_drop_Suc)
    then show ?thesis using 2 n ne kid' P' by auto
  next
    case 3
    obtain p pn ch where p: "tn_parent m = Some p" "tr_nodes t p = Some pn" "kid t p (TRIE_CHAR2INDEX ch) = Some r" "tn_idx m = TRIE_CHAR2INDEX ch"
      "P r = P p @ ch # tn_segment m" by (rule parent_cases[OF sh 3(2) r(2)])
    have n: "tn_idx n = tn_idx m" "tn_segment n = tn_segment m" "tn_parent n = (if p = cur then Some q else Some p)"
      using split_other[OF sp 3(2,1)] r(1) p(1) by auto
    have "r \<noteq> q" "p \<noteq> q" using 3(2) p(2) ne(1) by auto
    then show ?thesis using n p 3(1) ne kid' P' by (cases "p = cur") auto
  qed
qed

lemma shape_split:
  assumes sp: "is_split P h t cur cn seg q t'" and B: "P cur = B @ tn_segment cn"
  shows "trie_shape (P(cur := B @ take seg (tn_segment cn), q := P cur)) h t'"
proof -
  note sh = is_splitD(1)[OF sp] and cur = is_splitD(2)[OF sp] and ne = is_splitD(4,6-8)[OF sp] and kid' = split_kid[OF sp]
  obtain cs where t': "tr_nodes t' = split_nodes cur cn seg q cs (tr_nodes t)" using is_splitD(9)[OF sp] by blast
  obtain hn where hn: "tr_nodes t h = Some hn" "tn_parent hn = None" "tn_segment hn = []" using shapeD(4)[OF sh] by blast
  obtain hn' where h': "tr_nodes t' h = Some hn'" "tn_segment hn' = []" "tn_parent hn' = None"
    using split_other[OF sp hn(1)] ne(2) hn by auto
  show ?thesis
  proof (rule shapeI[OF _ _ _ h'(1,3,2)])
    show "tr_header t' = Some h" "(P(cur := B @ take seg (tn_segment cn), q := P cur)) h = []" using is_splitD(5)[OF sp] shapeD(1,3)[OF sh] ne by auto
    have "dom (tr_nodes t') \<subseteq> insert cur (insert q (dom (tr_nodes t)))" by (auto simp: t' split_nodes_def split: if_splits)
    then show "finite (dom (tr_nodes t'))" using shapeD(2)[OF sh] by (meson finite.insertI finite_subset)
    show "tn_num_children n = length (tn_children n)" if "tr_nodes t' r = Some n" for r n
      using that shapeD(6)[OF sh] cur by (auto simp: t' split_nodes_def split: if_splits)
    fix r n i c assume r: "tr_nodes t' r = Some n" "child_at (tn_children n) i = Some c"
    then have "kid t' r i = Some c" by (simp add: kid_def)
    then consider "r = cur" "i = TRIE_CHAR2INDEX (tn_segment cn ! seg)" "c = q" | s where "kid t s i = Some c" "r = (if s = cur then q else s)"
      unfolding kid' by (metis option.distinct(1) option.inject)
    then show "\<exists>cn. tr_nodes t' c = Some cn \<and> tn_parent cn = Some r \<and> tn_idx cn = i"
    proof cases
      case 1
      then show ?thesis using ne by (simp add: t' split_nodes_def)
    next
      case 2
      then obtain m where m: "tr_nodes t c = Some m" "tn_parent m = Some s" "tn_idx m = i" using shapeD(5)[OF sh] by blast
      show ?thesis
      proof (cases "c = cur")
        case True
        then have "s \<noteq> cur" using 2(1) not_own_child[OF sh] by auto
        then show ?thesis using True m cur 2(2) by (auto simp: t' split_nodes_def)
      next
        case False
        then show ?thesis using split_other[OF sp m(1)] m 2(2) by auto
      qed
    qed
  qed (rule split_path[OF sp B _ _ refl])
qed

section \<open>What the trie holds\<close>

definition entries :: "('c, 'u, 'v) trie \<Rightarrow> (string \<times> 'v) set" where
  "entries t = {(k, v). \<exists>q n. tr_nodes t q = Some n \<and> tn_key n = Some k \<and> tn_value n = Some v}"

definition trie_ok :: "(nat \<Rightarrow> string) \<Rightarrow> nat \<Rightarrow> ('c, 'u, 'v) trie \<Rightarrow> bool" where
  "trie_ok P h t \<longleftrightarrow> trie_shape P h t \<and> trie_holds P t \<and> tr_num_nodes t = of_nat (card (dom (tr_nodes t)))"

lemma trie_okD: "trie_ok P h t \<Longrightarrow> trie_shape P h t" "trie_ok P h t \<Longrightarrow> trie_holds P t"
  by (simp_all add: trie_ok_def)

lemma holdsD: "trie_holds P t \<Longrightarrow> tr_nodes t q = Some n \<Longrightarrow> node_holds (P q) n"
  by (simp add: trie_holds_def)

lemma entries_sub:
  assumes "\<And>q n v. tr_nodes t q = Some n \<Longrightarrow> tn_value n = Some v \<Longrightarrow> \<exists>q' n'. tr_nodes t' q' = Some n' \<and> tn_key n' = tn_key n \<and> tn_value n' = Some v"
  shows "entries t \<subseteq> entries t'"
  using assms unfolding entries_def by fastforce

text \<open>A change of the trie that does not change what it holds.\<close>

definition same_entries :: "('c, 'u, 'v) trie \<Rightarrow> ('c, 'u, 'v) trie \<Rightarrow> bool" where
  "same_entries t t' \<longleftrightarrow> entries t' = entries t \<and> tr_length t' = tr_length t"

lemma same_entries_refl [simp]: "same_entries t t"
  by (simp add: same_entries_def)

lemma same_entries_trans [trans]: "same_entries a b \<Longrightarrow> same_entries b c \<Longrightarrow> same_entries a c"
  by (simp add: same_entries_def)

lemma new_child_keeps:
  assumes ok: "trie_ok P h t" and p: "tr_nodes t p = Some pn" and free: "kid t p (TRIE_CHAR2INDEX ch) = None" and al: "al_ok al t"
  obtains q al' t' where "new_child_node al p ch t = Some (Some q, al', t')" "trie_ok (P(q := P p @ [ch])) h t'" "same_entries t t'" "al_ok al' t'"
    "tr_nodes t' q = Some (fresh_node p (TRIE_CHAR2INDEX ch))"
    "\<And>r. tr_nodes t r \<noteq> None \<Longrightarrow> r \<noteq> q" "\<exists>cs. tr_nodes t' p = Some (pn\<lparr>tn_children := cs, tn_num_children := length cs\<rparr>)"
proof -
  note sh = trie_okD(1)[OF ok]
  obtain q al' cs m where new: "new_child_node al p ch t =
       Some (Some q, al', t\<lparr>tr_nodes := (tr_nodes t)(p \<mapsto> pn\<lparr>tn_children := cs, tn_num_children := length cs\<rparr>, q \<mapsto> fresh_node p (TRIE_CHAR2INDEX ch)),
                            tr_num_nodes := tr_num_nodes t + 1, tr_mem_used := m\<rparr>)"
    "tr_nodes t q = None" "Some q \<notin> range al'" "al_ok al' t"
    "\<And>i. child_at cs i = (if i = TRIE_CHAR2INDEX ch then Some q else child_at (tn_children pn) i)"
    by (rule new_child_ok[OF p shapeD(6)[OF sh p] al, of ch]) blast
  let ?t = "t\<lparr>tr_nodes := (tr_nodes t)(p \<mapsto> pn\<lparr>tn_children := cs, tn_num_children := length cs\<rparr>, q \<mapsto> fresh_node p (TRIE_CHAR2INDEX ch)),
              tr_num_nodes := tr_num_nodes t + 1, tr_mem_used := m\<rparr>"
  have "q \<noteq> p" using p new(2) by auto
  have shape: "trie_shape (P(q := P p @ [ch])) h ?t" by (rule shape_new_child[OF sh p free new(2,5)]) simp_all
  have holds: "trie_holds (P(q := P p @ [ch])) ?t"
    using trie_okD(2)[OF ok] p by (auto simp: trie_holds_def node_holds_def fresh_node_def)
  have "dom (tr_nodes ?t) = insert q (dom (tr_nodes t))" using p by auto
  then have count: "tr_num_nodes ?t = of_nat (card (dom (tr_nodes ?t)))"
    using ok shapeD(2)[OF sh] new(2) by (simp add: trie_ok_def card_insert_if domIff)
  have same: "entries ?t = entries t"
  proof (intro subset_antisym entries_sub)
    fix r n v assume "tr_nodes ?t r = Some n" "tn_value n = Some v"
    then show "\<exists>q' n'. tr_nodes t q' = Some n' \<and> tn_key n' = tn_key n \<and> tn_value n' = Some v"
      using p by (intro exI[of _ r]) (auto simp: fresh_node_def split: if_splits)
  next
    fix r n v assume "tr_nodes t r = Some n" "tn_value n = Some v"
    then show "\<exists>q' n'. tr_nodes ?t q' = Some n' \<and> tn_key n' = tn_key n \<and> tn_value n' = Some v"
      using p new(2) by (intro exI[of _ r]) auto
  qed
  have al': "al_ok al' ?t" using new(4) by (rule al_ok_upd) (use new(3) p in auto)
  show thesis
  proof (rule that[OF new(1)])
    show "trie_ok (P(q := P p @ [ch])) h ?t" unfolding trie_ok_def using shape holds count by blast
    show "same_entries t ?t" using same by (simp add: same_entries_def)
  qed (use al' new(2) p \<open>q \<noteq> p\<close> in auto)
qed

lemma split_keeps:
  assumes ok: "trie_ok P h t" and cur: "tr_nodes t cur = Some cn" and seg: "seg < length (tn_segment cn)" and B: "P cur = B @ tn_segment cn"
    and al: "al_ok al t"
  obtains P' al' t' n where "trie_node_split al cur seg t = Some (Some cur, al', t')" "trie_ok P' h t'" "same_entries t t'" "al_ok al' t'"
    "P' cur = B @ take seg (tn_segment cn)" "tr_nodes t' cur = Some n" "tn_segment n = take seg (tn_segment cn)"
    "\<And>ch. ch \<noteq> tn_segment cn ! seg \<Longrightarrow> kid t' cur (TRIE_CHAR2INDEX ch) = None"
proof -
  note sh = trie_okD(1)[OF ok]
  obtain q al' cs m where sp: "trie_node_split al cur seg t =
       Some (Some cur, al', t\<lparr>tr_nodes := split_nodes cur cn seg q cs (tr_nodes t), tr_num_nodes := tr_num_nodes t + 1, tr_mem_used := m\<rparr>)"
    "tr_nodes t q = None" "Some q \<notin> range al'" "al_ok al' t"
    "\<And>i. child_at cs i = (if i = TRIE_CHAR2INDEX (tn_segment cn ! seg) then Some q else None)" by (rule split_ok[OF sh cur seg al]) blast
  let ?t = "t\<lparr>tr_nodes := split_nodes cur cn seg q cs (tr_nodes t), tr_num_nodes := tr_num_nodes t + 1, tr_mem_used := m\<rparr>"
  have spl: "is_split P h t cur cn seg q ?t" using sh cur seg sp(2,5) by (auto simp: is_split_def)
  let ?P = "P(cur := B @ take seg (tn_segment cn), q := P cur)"
  have shape: "trie_shape ?P h ?t" by (rule shape_split[OF spl B])
  have holds: "trie_holds ?P ?t" unfolding trie_holds_def
  proof (intro allI impI)
    fix r n assume r: "tr_nodes ?t r = Some n"
    consider "r = cur" | "r = q" "r \<noteq> cur" | m where "r \<noteq> cur" "r \<noteq> q" "tr_nodes t r = Some m" "tn_key n = tn_key m" "tn_value n = tn_value m" "tn_refcount n = tn_refcount m" "tn_segment n = tn_segment m"
      using r by (auto simp: split_nodes_def split: if_splits)
    then show "node_holds (?P r) n"
    proof cases
      case 3
      then show ?thesis using holdsD[OF trie_okD(2)[OF ok] 3(3)] by (simp add: node_holds_def)
    qed (use r holdsD[OF trie_okD(2)[OF ok] cur] in \<open>auto simp: split_nodes_def node_holds_def dest: in_set_takeD in_set_dropD\<close>)
  qed
  have "dom (tr_nodes ?t) = insert q (dom (tr_nodes t))" using cur by (auto simp: split_nodes_def split: if_splits)
  then have count: "tr_num_nodes ?t = of_nat (card (dom (tr_nodes ?t)))"
    using ok shapeD(2)[OF sh] sp(2) by (simp add: trie_ok_def card_insert_if domIff)
  have same: "entries ?t = entries t"
  proof (intro subset_antisym entries_sub)
    fix r n v assume "tr_nodes ?t r = Some n" "tn_value n = Some v"
    then show "\<exists>q' n'. tr_nodes t q' = Some n' \<and> tn_key n' = tn_key n \<and> tn_value n' = Some v"
      using cur by (intro exI[of _ "if r = q then cur else r"]) (auto simp: split_nodes_def split: if_splits)
  next
    fix r n v assume "tr_nodes t r = Some n" "tn_value n = Some v"
    then show "\<exists>q' n'. tr_nodes ?t q' = Some n' \<and> tn_key n' = tn_key n \<and> tn_value n' = Some v"
      using cur sp(2) is_splitD(7)[OF spl] by (intro exI[of _ "if r = cur then q else r"]) (auto simp: split_nodes_def)
  qed
  have al': "al_ok al' ?t" using sp(4) by (rule al_ok_upd) (use sp(3) cur in \<open>auto simp: split_nodes_def\<close>)
  show thesis
  proof (rule that[OF sp(1)])
    show "trie_ok ?P h ?t" unfolding trie_ok_def using shape holds count by blast
    show "same_entries t ?t" using same by (simp add: same_entries_def)
    show "kid ?t cur (TRIE_CHAR2INDEX ch) = None" if "ch \<noteq> tn_segment cn ! seg" for ch using split_kid[OF spl] that by simp
  qed (use al' is_splitD(7)[OF spl] in \<open>auto simp: split_nodes_def\<close>)
qed

section \<open>Insertion\<close>

lemma append_keeps:
  assumes ok: "trie_ok P h t" and cur: "tr_nodes t cur = Some cn" and ne: "cur \<noteq> h" and leaf: "tn_value cn = None" "tn_num_children cn = 0" and ch: "ch \<noteq> CHR 0x00"
    and t': "t' = node_upd cur (\<lambda>n. n\<lparr>tn_segment := tn_segment n @ [ch]\<rparr>) (t\<lparr>tr_mem_used := m\<rparr>)"
  shows "trie_ok (P(cur := P cur @ [ch])) h t'" "same_entries t t'"
proof -
  note sh = trie_okD(1)[OF ok]
  have nodes: "tr_nodes t' = (tr_nodes t)(cur \<mapsto> cn\<lparr>tn_segment := tn_segment cn @ [ch]\<rparr>)" using t' cur by (simp add: node_upd_def)
  have no: "kid t cur i = None" for i using shapeD(6)[OF sh cur] leaf cur by (simp add: kid_child_at)
  have kid': "kid t' r i = kid t r i" for r i using cur by (simp add: kid_def nodes)
  obtain hn where hn: "tr_nodes t h = Some hn" "tn_parent hn = None" "tn_segment hn = []" using shapeD(4)[OF sh] by blast
  have "trie_shape (P(cur := P cur @ [ch])) h t'"
  proof (rule shapeI[OF _ _ _ _ hn(2,3)])
    fix r n i c assume "tr_nodes t' r = Some n" "child_at (tn_children n) i = Some c"
    then have "kid t r i = Some c" by (simp add: kid'[symmetric] kid_child_at)
    then show "\<exists>cn. tr_nodes t' c = Some cn \<and> tn_parent cn = Some r \<and> tn_idx cn = i" using shapeD(5)[OF sh] cur by (fastforce simp: nodes)
  next
    fix r n assume r: "tr_nodes t' r = Some n" "r \<noteq> h"
    then obtain m where m: "tr_nodes t r = Some m" "tn_parent n = tn_parent m" "tn_idx n = tn_idx m" "tn_segment n = (if r = cur then tn_segment m @ [ch] else tn_segment m)"
      using cur by (auto simp: nodes split: if_splits)
    obtain p pn c where "tn_parent m = Some p" "tr_nodes t p = Some pn" "kid t p (TRIE_CHAR2INDEX c) = Some r" "tn_idx m = TRIE_CHAR2INDEX c"
      "P r = P p @ c # tn_segment m" by (rule parent_cases[OF sh m(1) r(2)])
    then show "\<exists>p c. tn_parent n = Some p \<and> kid t' p (tn_idx n) = Some r \<and> tn_idx n = TRIE_CHAR2INDEX c \<and>
        (P(cur := P cur @ [ch])) r = (P(cur := P cur @ [ch])) p @ c # tn_segment n" using m no[of "TRIE_CHAR2INDEX c"] kid' by auto
  qed (use shapeD(1,2,3,6)[OF sh] ne cur hn t' in \<open>auto simp: nodes node_upd_def split: if_splits\<close>)
  moreover have "trie_holds (P(cur := P cur @ [ch])) t'"
    using trie_okD(2)[OF ok] cur leaf ch by (auto simp: trie_holds_def node_holds_def nodes)
  moreover have "dom (tr_nodes t') = dom (tr_nodes t)" using cur by (auto simp: nodes)
  then have "tr_num_nodes t' = of_nat (card (dom (tr_nodes t')))" using ok t' by (simp add: trie_ok_def node_upd_def)
  ultimately show "trie_ok (P(cur := P cur @ [ch])) h t'" unfolding trie_ok_def by blast
  have "entries t' = entries t"
  proof (intro subset_antisym entries_sub)
    fix r n v assume "tr_nodes t r = Some n" "tn_value n = Some v"
    then show "\<exists>q' n'. tr_nodes t' q' = Some n' \<and> tn_key n' = tn_key n \<and> tn_value n' = Some v"
      using leaf cur by (intro exI[of _ r]) (auto simp: nodes)
  qed (use leaf cur in \<open>auto simp: nodes split: if_splits\<close>)
  then show "same_entries t t'" using t' by (simp add: same_entries_def node_upd_def)
qed

text \<open>A point at the end of a path.\<close>

lemma at_end: "tr_nodes t cur = Some cn \<Longrightarrow> P cur = s \<Longrightarrow> s = B @ tn_segment cn \<Longrightarrow> at_point P t cur (length (tn_segment cn)) s"
  by (auto simp: at_point_def)

definition insert_good :: "nat \<Rightarrow> ('c, 'u, 'v) trie \<Rightarrow> string \<Rightarrow> ((nat \<times> nat) option \<times> allocs \<times> ('c, 'u, 'v) trie) option \<Rightarrow> bool" where
  "insert_good h t s res \<longleftrightarrow>
     (\<exists>P cur seg al t'. res = Some (Some (cur, seg), al, t') \<and> trie_ok P h t' \<and> at_point P t' cur seg s \<and> same_entries t t' \<and> al_ok al t')"

lemma new_child_insert:
  assumes ok: "trie_ok P h t" and p: "tr_nodes t p = Some pn" "P p = s" and free: "kid t p (TRIE_CHAR2INDEX ch) = None" and al: "al_ok al t"
  shows "insert_good h t (s @ [ch]) (map_option (\<lambda>(q, al, t). (map_option (\<lambda>q. (q, 0)) q, al, t)) (new_child_node al p ch t))"
proof -
  obtain q al' t' where q: "new_child_node al p ch t = Some (Some q, al', t')" "trie_ok (P(q := P p @ [ch])) h t'" "same_entries t t'" "al_ok al' t'"
    "tr_nodes t' q = Some (fresh_node p (TRIE_CHAR2INDEX ch))" by (rule new_child_keeps[OF ok p(1) free al])
  have "at_point (P(q := P p @ [ch])) t' q 0 (s @ [ch])"
    using at_end[OF q(5), of "P(q := P p @ [ch])" "s @ [ch]" "s @ [ch]"] p(2) by (simp add: fresh_node_def)
  then show ?thesis using q by (auto simp: insert_good_def)
qed

lemma split_and_add_insert:
  assumes ok: "trie_ok P h t" and at: "at_point P t cur seg s" and cur: "tr_nodes t cur = Some cn" and seg: "seg < length (tn_segment cn)"
    and ch: "ch \<noteq> tn_segment cn ! seg" and al: "al_ok al t"
  shows "insert_good h t (s @ [ch]) (map_option (\<lambda>(q, al, t). (map_option (\<lambda>q. (q, 0)) q, al, t)) (split_and_add al cur seg ch t))"
proof -
  obtain B where B: "P cur = B @ tn_segment cn" "s = B @ take seg (tn_segment cn)" using at cur by (auto simp: at_point_def)
  obtain P' al' t' n where sp: "trie_node_split al cur seg t = Some (Some cur, al', t')" "trie_ok P' h t'" "same_entries t t'" "al_ok al' t'"
    "P' cur = s" "tr_nodes t' cur = Some n" "kid t' cur (TRIE_CHAR2INDEX ch) = None"
    using split_keeps[OF ok cur seg B(1) al] ch B(2) by metis
  have "insert_good h t' (s @ [ch]) (map_option (\<lambda>(q, al, t). (map_option (\<lambda>q. (q, 0)) q, al, t)) (new_child_node al' cur ch t'))"
    by (rule new_child_insert[OF sp(2,6,5,7)]) (rule sp(4))
  then show ?thesis using sp(1,3) same_entries_trans unfolding insert_good_def split_and_add_def by fastforce
qed

lemma insert_char_ok:
  assumes ok: "trie_ok P h t" and at: "at_point P t cur seg s" and al: "al_ok al t" and ch: "ch \<noteq> CHR 0x00"
  shows "insert_good h t (s @ [ch]) (insert_char al cur seg ch t)"
proof -
  note sh = trie_okD(1)[OF ok]
  obtain cn where cn: "tr_nodes t cur = Some cn" using at_node[OF at] by blast
  have le: "seg \<le> length (tn_segment cn)" using at_pointD(1)[OF at cn] .
  show ?thesis
  proof (cases "seg < length (tn_segment cn)")
    case True
    then show ?thesis
      using cn at_in_segment[OF at cn True] ok al split_and_add_insert[OF ok at cn True _ al]
      by (auto simp: insert_char_def Let_def insert_good_def)
  next
    case False
    then have eq: "seg = length (tn_segment cn)" using le by simp
    then have s: "P cur = s" using at_pointD(2)[OF at cn] by simp
    show ?thesis
    proof (cases "kid t cur (TRIE_CHAR2INDEX ch)")
      case (Some q)
      then show ?thesis
        using cn eq child_lookup[OF sh cn] at_child[OF sh at cn eq Some] ok al by (auto simp: insert_char_def Let_def insert_good_def)
    next
      case None
      have new: "insert_good h t (s @ [ch]) (map_option (\<lambda>(q, al, t). (map_option (\<lambda>q. (q, 0)) q, al, t)) (new_child_node al cur ch t))"
        by (rule new_child_insert[OF ok cn s None al])
      show ?thesis
      proof (cases "cur \<noteq> h \<and> tn_value cn = None \<and> tn_notifiers cn = [] \<and> tn_num_children cn = 0")
        case False
        then show ?thesis using cn eq child_lookup[OF sh cn] None new shapeD(1)[OF sh] by (auto simp: insert_char_def Let_def)
      next
        case True
        obtain a al' where al': "alloc_next al = (Some a, al')" "al_ok al' t" by (rule al_ok_next[OF al])
        let ?t = "node_upd cur (\<lambda>n. n\<lparr>tn_segment := tn_segment n @ [ch]\<rparr>) (t\<lparr>tr_mem_used := tr_mem_used t + 1\<rparr>)"
        have k: "trie_ok (P(cur := P cur @ [ch])) h ?t" "same_entries t ?t" using True by (auto intro: append_keeps[OF ok cn _ _ _ ch refl])
        obtain B where "s = B @ tn_segment cn" using at cn eq by (auto simp: at_point_def)
        then have "at_point (P(cur := P cur @ [ch])) ?t cur (Suc seg) (s @ [ch])"
          using at_end[of ?t cur "cn\<lparr>tn_segment := tn_segment cn @ [ch]\<rparr>" "P(cur := P cur @ [ch])" "s @ [ch]" B] s cn eq by (simp add: node_upd_def)
        moreover have "al_ok al' ?t" using al'(2) by (rule al_ok_upd) (auto simp: node_upd_def)
        ultimately show ?thesis
          using cn eq child_lookup[OF sh cn] None k True al'(1) shapeD(1)[OF sh] by (auto simp: insert_char_def Let_def insert_good_def)
      qed
    qed
  qed
qed

lemma insert_loop_ok:
  assumes "trie_ok P h t" "at_point P t cur seg s" "al_ok al t" "CHR 0x00 \<notin> set key"
  shows "insert_good h t (s @ key) (insert_loop al cur seg key t)"
  using assms
proof (induction key arbitrary: P t cur seg s al)
  case Nil
  then show ?case by (auto simp: insert_good_def)
next
  case (Cons ch key)
  from insert_char_ok[OF Cons.prems(1-3), of ch] Cons.prems(4)
  obtain P1 cur1 seg1 al1 t1 where 1: "insert_char al cur seg ch t = Some (Some (cur1, seg1), al1, t1)" "trie_ok P1 h t1"
    "at_point P1 t1 cur1 seg1 (s @ [ch])" "same_entries t t1" "al_ok al1 t1" by (auto simp: insert_good_def)
  have "insert_good h t1 ((s @ [ch]) @ key) (insert_loop al1 cur1 seg1 key t1)" by (rule Cons.IH[OF 1(2,3,5)]) (use Cons.prems(4) in simp)
  then show ?case using 1(1,4) same_entries_trans unfolding insert_good_def by fastforce
qed

lemma trie_insert_ok:
  assumes "trie_ok P h t" "key \<noteq> []" "al_ok al t" "CHR 0x00 \<notin> set key"
  obtains P' q al' t' n where "trie_insert al key t = Some (Some q, al', t')" "trie_ok P' h t'" "same_entries t t'" "tr_nodes t' q = Some n" "P' q = key"
proof -
  have "insert_good h t ([] @ key) (insert_loop al h 0 key t)"
    by (rule insert_loop_ok[OF assms(1) at_start[OF trie_okD(1)[OF assms(1)]] assms(3,4)])
  then obtain P1 cur seg al1 t1 where 1: "insert_loop al h 0 key t = Some (Some (cur, seg), al1, t1)" "trie_ok P1 h t1" "at_point P1 t1 cur seg key"
    "same_entries t t1" "al_ok al1 t1" by (auto simp: insert_good_def)
  obtain cn where cn: "tr_nodes t1 cur = Some cn" using at_node[OF 1(3)] by blast
  note h = shapeD(1)[OF trie_okD(1)[OF assms(1)]]
  show thesis
  proof (cases "seg < length (tn_segment cn)")
    case False
    then show thesis
      using that[of cur al1 t1 P1 cn] 1 cn h assms(2) at_pointD(1,2)[OF 1(3) cn] by (simp add: trie_insert_def)
  next
    case True
    obtain B where B: "P1 cur = B @ tn_segment cn" "key = B @ take seg (tn_segment cn)" using 1(3) cn by (auto simp: at_point_def)
    have ch: "CHR 0x00 \<noteq> tn_segment cn ! seg" using holdsD[OF trie_okD(2)[OF 1(2)] cn] True by (metis node_holds_def nth_mem)
    obtain P2 al2 t2 n where 2: "trie_node_split al1 cur seg t1 = Some (Some cur, al2, t2)" "trie_ok P2 h t2" "same_entries t1 t2" "al_ok al2 t2"
      "P2 cur = key" "tr_nodes t2 cur = Some n" "kid t2 cur (TRIE_CHAR2INDEX (CHR 0x00)) = None"
      using split_keeps[OF 1(2) cn True B(1) 1(5)] ch B(2) by metis
    obtain q al3 t3 cs where 3: "new_child_node al2 cur (CHR 0x00) t2 = Some (Some q, al3, t3)" "trie_ok (P2(q := P2 cur @ [CHR 0x00])) h t3" "same_entries t2 t3"
      "q \<noteq> cur" "tr_nodes t3 cur = Some (n\<lparr>tn_children := cs, tn_num_children := length cs\<rparr>)"
      using new_child_keeps[OF 2(2,6,7), of al2] 2(4,6) by (metis option.distinct(1))
    have "trie_insert al key t = Some (Some cur, al3, t3)"
      using 1(1) 2(1) 3(1) h assms(2) cn True by (simp add: trie_insert_def split_and_add_def)
    moreover have "same_entries t t3" using 1(4) 2(3) 3(3) same_entries_trans by blast
    ultimately show thesis using that 3(2,4,5) 2(5) by simp
  qed
qed

section \<open>Changes of what a node holds\<close>

definition same_structure :: "('c, 'u, 'v) trie_node \<Rightarrow> ('c, 'u, 'v) trie_node \<Rightarrow> bool" where
  "same_structure m n \<longleftrightarrow> tn_idx m = tn_idx n \<and> tn_segment m = tn_segment n \<and> tn_children m = tn_children n \<and>
     tn_num_children m = tn_num_children n \<and> tn_parent m = tn_parent n"

lemma shape_same:
  assumes sh: "trie_shape P h t" and q: "tr_nodes t q = Some n" and t': "tr_nodes t' = (tr_nodes t)(q \<mapsto> n')" "tr_header t' = tr_header t" and s: "same_structure n' n"
  shows "trie_shape P h t'"
proof -
  obtain hn where hn: "tr_nodes t h = Some hn" "tn_parent hn = None" "tn_segment hn = []" using shapeD(4)[OF sh] by blast
  have kid': "kid t' r i = kid t r i" for r i using q s by (simp add: kid_def t' same_structure_def)
  have old: "\<exists>m. tr_nodes t r = Some m \<and> same_structure n1 m" if "tr_nodes t' r = Some n1" for r n1
    using that q s by (auto simp: t' same_structure_def split: if_splits)
  show ?thesis
  proof (rule shapeI)
    show "tr_nodes t' h = Some (if h = q then n' else hn)" using hn by (simp add: t')
    fix r m i c assume "tr_nodes t' r = Some m" "child_at (tn_children m) i = Some c"
    then have "kid t r i = Some c" by (simp add: kid'[symmetric] kid_child_at)
    then obtain cn where "tr_nodes t c = Some cn" "tn_parent cn = Some r" "tn_idx cn = i" using shapeD(5)[OF sh] by blast
    then show "\<exists>cn. tr_nodes t' c = Some cn \<and> tn_parent cn = Some r \<and> tn_idx cn = i" using q s by (auto simp: t' same_structure_def)
  next
    fix r m assume r: "tr_nodes t' r = Some m" "r \<noteq> h"
    then show "\<exists>p ch. tn_parent m = Some p \<and> kid t' p (tn_idx m) = Some r \<and> tn_idx m = TRIE_CHAR2INDEX ch \<and> P r = P p @ ch # tn_segment m"
      using old[OF r(1)] shapeD(7)[OF sh _ r(2)] by (auto simp: kid' same_structure_def)
  next
    show "tn_num_children m = length (tn_children m)" if "tr_nodes t' r = Some m" for r m
      using old[OF that] shapeD(6)[OF sh] by (auto simp: same_structure_def)
  qed (use shapeD(1-3)[OF sh] hn q s t' in \<open>auto simp: same_structure_def\<close>)
qed

lemma ok_same:
  assumes ok: "trie_ok P h t" and q: "tr_nodes t q = Some n" and t': "tr_nodes t' = (tr_nodes t)(q \<mapsto> n')" "tr_header t' = tr_header t" "tr_num_nodes t' = tr_num_nodes t"
    and s: "same_structure n' n" "node_holds (P q) n'"
  shows "trie_ok P h t'"
proof -
  have "dom (tr_nodes t') = dom (tr_nodes t)" using q by (auto simp: t')
  then show ?thesis
    using shape_same[OF trie_okD(1)[OF ok] q t'(1,2) s(1)] trie_okD(2)[OF ok] s(2) ok t'(3) unfolding trie_ok_def trie_holds_def t'(1) by auto
qed

text \<open>The calls of the notifiers end at the header.\<close>

lemma notify_total:
  assumes "trie_shape P h t" "tr_nodes t c = Some cn"
  shows "\<exists>ns. notify_up t n c event key old new = Some ns"
  using assms(2)
proof (induction "length (P c)" arbitrary: c cn rule: less_induct)
  case less
  show ?case
  proof (cases "c = h")
    case True
    then show ?thesis using shapeD(4)[OF assms(1)] less.prems by (subst notify_up.simps) auto
  next
    case False
    from parent_cases[OF assms(1) less.prems False] obtain p pn ch where "tn_parent cn = Some p" "tr_nodes t p = Some pn" "P c = P p @ ch # tn_segment cn" by metis
    then show ?thesis using less.hyps[of p pn] less.prems by (subst notify_up.simps) auto
  qed
qed

section \<open>Release\<close>

lemma scan_down_ok:
  assumes "i \<le> length (tn_children n)"
  shows "(\<exists>j c. j < i \<and> scan_down n i = Some (Some c) \<and> child_at (tn_children n) j = Some c \<and> (\<forall>l. j < l \<and> l < i \<longrightarrow> child_at (tn_children n) l = None)) \<or>
    (scan_down n i = Some None \<and> (\<forall>l<i. child_at (tn_children n) l = None))"
  using assms
proof (induction i)
  case (Suc i)
  then have g: "child_get n i = Some (child_at (tn_children n) i)" by (simp add: child_get_def child_at_def)
  show ?case
  proof (cases "child_at (tn_children n) i")
    case None
    then show ?thesis using Suc g by (auto simp: less_Suc_eq)
  next
    case (Some c)
    then show ?thesis using g by (auto simp: less_Suc_eq)
  qed
qed simp

lemma trie_shape_remove:
  assumes sh: "trie_shape P h t" and q: "tr_nodes t q = Some n" "q \<noteq> h" and p: "tn_parent n = Some p" "tr_nodes t p = Some pn"
    and leaf: "\<And>i. kid t q i = None"
    and t': "tr_nodes t' = (tr_nodes t)(p \<mapsto> pn\<lparr>tn_children := (tn_children pn)[tn_idx n := None]\<rparr>, q := None)" "tr_header t' = tr_header t"
  shows "trie_shape P h t'"
proof -
  obtain hn where hn: "tr_nodes t h = Some hn" "tn_parent hn = None" "tn_segment hn = []" using shapeD(4)[OF sh] by blast
  have pq: "kid t p (tn_idx n) = Some q" "p \<noteq> q" using shapeD(7)[OF sh q] p not_own_child[OF sh] by auto
  have kid': "kid t' r i = (if r = p \<and> i = tn_idx n then None else kid t r i)" for r i
    using p(2) pq leaf[of i] by (cases "r = q") (auto simp: kid_def t' child_at_def nth_list_update)
  have old: "\<exists>m. r \<noteq> q \<and> tr_nodes t r = Some m \<and> tn_parent n1 = tn_parent m \<and> tn_idx n1 = tn_idx m \<and> tn_segment n1 = tn_segment m" if "tr_nodes t' r = Some n1" for r n1
    using that p(2) by (auto simp: t' split: if_splits)
  show ?thesis
  proof (rule shapeI)
    show "tr_nodes t' h = Some (if h = p then pn\<lparr>tn_children := (tn_children pn)[tn_idx n := None]\<rparr> else hn)" using hn q(2) by (auto simp: t')
    fix r m i c assume r: "tr_nodes t' r = Some m" "child_at (tn_children m) i = Some c"
    then have "kid t' r i = Some c" by (simp add: kid_child_at)
    then have c: "kid t r i = Some c" "\<not> (r = p \<and> i = tn_idx n)" by (auto simp: kid' split: if_splits)
    obtain cn where cn: "tr_nodes t c = Some cn" "tn_parent cn = Some r" "tn_idx cn = i" using shapeD(5)[OF sh c(1)] by blast
    then have "c \<noteq> q" using c(2) q(1) p(1) by auto
    then show "\<exists>cn. tr_nodes t' c = Some cn \<and> tn_parent cn = Some r \<and> tn_idx cn = i" using cn p(2) by (auto simp: t')
  next
    fix r m assume r: "tr_nodes t' r = Some m" "r \<noteq> h"
    obtain m1 where m: "r \<noteq> q" "tr_nodes t r = Some m1" "tn_parent m = tn_parent m1" "tn_idx m = tn_idx m1" "tn_segment m = tn_segment m1" using old[OF r(1)] by blast
    obtain p' ch where p': "tn_parent m1 = Some p'" "kid t p' (tn_idx m1) = Some r" "tn_idx m1 = TRIE_CHAR2INDEX ch" "P r = P p' @ ch # tn_segment m1"
      using shapeD(7)[OF sh m(2) r(2)] by blast
    have "\<not> (p' = p \<and> tn_idx m1 = tn_idx n)" using p'(2) pq(1) m(1) by auto
    then show "\<exists>p ch. tn_parent m = Some p \<and> kid t' p (tn_idx m) = Some r \<and> tn_idx m = TRIE_CHAR2INDEX ch \<and> P r = P p @ ch # tn_segment m"
      using m p' by (auto simp: kid')
  qed (use shapeD(1-3,6)[OF sh] hn q p t' in \<open>auto split: if_splits\<close>)
qed

text \<open>Take a leaf without a value out.\<close>

definition take_out :: "nat \<Rightarrow> nat \<Rightarrow> nat \<Rightarrow> ('c, 'u, 'v) trie \<Rightarrow> ('c, 'u, 'v) trie" where
  "take_out p i q t =
     (let t = node_upd p (\<lambda>m. m\<lparr>tn_children := (tn_children m)[i := None]\<rparr>) t
      in t\<lparr>tr_nodes := (tr_nodes t)(q := None), tr_num_nodes := tr_num_nodes t - 1, tr_mem_used := tr_mem_used t - trie_node_size\<rparr>)"

lemma one_less: "Suc c = d \<Longrightarrow> x = of_nat d \<Longrightarrow> y = x - 1 \<Longrightarrow> y = (of_nat c :: u32)"
  by auto

lemma take_out_keeps:
  assumes ok: "trie_ok P h t" and q: "tr_nodes t q = Some n" "q \<noteq> h" and p: "tn_parent n = Some p" "tr_nodes t p = Some pn" "p \<noteq> q"
    and leaf: "\<And>i. kid t q i = None" and v: "tn_value n = None"
  shows "trie_ok P h (take_out p (tn_idx n) q t)" "same_entries t (take_out p (tn_idx n) q t)"
proof -
  let ?t = "take_out p (tn_idx n) q t"
  note sh = trie_okD(1)[OF ok]
  have nodes: "tr_nodes ?t = (tr_nodes t)(p \<mapsto> pn\<lparr>tn_children := (tn_children pn)[tn_idx n := None]\<rparr>, q := None)"
    using p(2) by (simp add: take_out_def node_upd_def)
  have "trie_shape P h ?t" by (rule trie_shape_remove[OF sh q p(1,2) leaf nodes]) (simp add: take_out_def node_upd_def)
  moreover have "trie_holds P ?t" unfolding trie_holds_def nodes
    using trie_okD(2)[OF ok] p(2) by (auto simp: trie_holds_def node_holds_def)
  moreover have "dom (tr_nodes ?t) = dom (tr_nodes t) - {q}" using p(2,3) unfolding nodes by auto
  then have "Suc (card (dom (tr_nodes ?t))) = card (dom (tr_nodes t))"
    using card_Suc_Diff1[OF shapeD(2)[OF sh], of q] q(1) by (simp only: domI)
  from this have "tr_num_nodes ?t = of_nat (card (dom (tr_nodes ?t)))"
    by (rule one_less[of _ _ "tr_num_nodes t"]) (use ok in \<open>simp_all add: trie_ok_def take_out_def node_upd_def\<close>)
  ultimately show "trie_ok P h ?t" unfolding trie_ok_def by blast
  have "entries ?t = entries t"
  proof (intro subset_antisym entries_sub)
    fix r m v assume "tr_nodes ?t r = Some m" "tn_value m = Some v"
    then show "\<exists>q' n'. tr_nodes t q' = Some n' \<and> tn_key n' = tn_key m \<and> tn_value n' = Some v"
      unfolding nodes using p(2) by (intro exI[of _ r]) (auto split: if_splits)
  next
    fix r m x assume "tr_nodes t r = Some m" "tn_value m = Some x"
    then show "\<exists>q' n'. tr_nodes ?t q' = Some n' \<and> tn_key n' = tn_key m \<and> tn_value n' = Some x"
      unfolding nodes using p(2) v q(1) by (intro exI[of _ r]) auto
  qed
  then show "same_entries t ?t" by (simp add: same_entries_def take_out_def node_upd_def)
qed

lemma release_ok:
  assumes "trie_ok P h t" "tr_nodes t q = Some n"
  shows "\<exists>t'. trie_node_release t q = Some t' \<and> trie_ok P h t' \<and> same_entries t t'"
  using assms
proof (induction "length (P q)" arbitrary: q n t rule: less_induct)
  case less
  note sh = trie_okD(1)[OF less.prems(1)]
  show ?case
  proof (cases "q = h")
    case True
    then show ?thesis using shapeD(4)[OF sh] less.prems by (subst trie_node_release.simps) auto
  next
    case False
    obtain p pn ch where p: "tn_parent n = Some p" "tr_nodes t p = Some pn" "kid t p (TRIE_CHAR2INDEX ch) = Some q" "tn_idx n = TRIE_CHAR2INDEX ch" "P q = P p @ ch # tn_segment n"
      by (rule parent_cases[OF sh less.prems(2) False])
    have num: "tn_num_children n = length (tn_children n)" using shapeD(6)[OF sh less.prems(2)] .
    show ?thesis
    proof (cases "tn_key n = None \<and> tn_notifiers n = [] \<and> scan_down n (tn_num_children n) = Some None")
      case False
      then show ?thesis using less.prems p(1) scan_down_ok[of "tn_num_children n" n] num by (subst trie_node_release.simps) auto
    next
      case True
      have leaf: "kid t q i = None" for i
        using True scan_down_ok[of "tn_num_children n" n] num less.prems(2) by (cases "i < length (tn_children n)") (auto simp: kid_child_at child_at_def)
      have pq: "p \<noteq> q" using p(3) not_own_child[OF sh] by auto
      have v: "tn_value n = None" using holdsD[OF trie_okD(2)[OF less.prems(1)] less.prems(2)] True by (auto simp: node_holds_def split: if_splits)
      let ?t = "take_out p (tn_idx n) q t"
      note k = take_out_keeps[OF less.prems(1,2) False p(1,2) pq leaf v]
      have "tr_nodes ?t p = Some (pn\<lparr>tn_children := (tn_children pn)[tn_idx n := None]\<rparr>)" using p(2) pq by (simp add: take_out_def node_upd_def)
      then obtain t' where t': "trie_node_release ?t p = Some t'" "trie_ok P h t'" "same_entries ?t t'"
        using less.hyps[OF _ k(1), of p] p(5) by fastforce
      have "child_get pn (tn_idx n) = Some (Some q)" using p(2,3,4) by (auto simp: kid_child_at child_at_def child_get_def split: if_splits)
      then have "trie_node_release t q = trie_node_release ?t p"
        using less.prems(2) p(1,2) True by (subst trie_node_release.simps) (simp add: take_out_def Let_def)
      then show ?thesis using t' k(2) same_entries_trans by auto
    qed
  qed
qed

section \<open>The trie as a map\<close>

definition trie_key_ok :: "string \<Rightarrow> bool" where
  "trie_key_ok k \<longleftrightarrow> k \<noteq> [] \<and> CHR 0x00 \<notin> set k"

definition trie_contents :: "('c, 'u, 'v) trie \<Rightarrow> string \<Rightarrow> 'v option" where
  "trie_contents t k = (if trie_key_ok k then case trie_get t k of Some v \<Rightarrow> v | None \<Rightarrow> None else None)"

text \<open>The invariant between two operations, when no iterator uses the trie.\<close>

definition trie_inv :: "('c, 'u, 'v) trie \<Rightarrow> bool" where
  "trie_inv t \<longleftrightarrow> (\<exists>P h. trie_ok P h t) \<and> tr_length t = of_nat (card (dom (trie_contents t)))"

lemma entry_iff:
  assumes "trie_ok P h t"
  shows "(k, v) \<in> entries t \<longleftrightarrow> (\<exists>q n. tr_nodes t q = Some n \<and> P q = k \<and> tn_value n = Some v)"
proof
  assume "(k, v) \<in> entries t"
  then obtain q n where q: "tr_nodes t q = Some n" "tn_key n = Some k" "tn_value n = Some v" by (auto simp: entries_def)
  then show "\<exists>q n. tr_nodes t q = Some n \<and> P q = k \<and> tn_value n = Some v" using holdsD[OF trie_okD(2)[OF assms] q(1)] by (auto simp: node_holds_def)
next
  assume "\<exists>q n. tr_nodes t q = Some n \<and> P q = k \<and> tn_value n = Some v"
  then obtain q n where q: "tr_nodes t q = Some n" "P q = k" "tn_value n = Some v" by blast
  then show "(k, v) \<in> entries t" using holdsD[OF trie_okD(2)[OF assms] q(1)] by (auto simp: node_holds_def entries_def)
qed

lemma entry_key: "trie_ok P h t \<Longrightarrow> (k, v) \<in> entries t \<Longrightarrow> trie_key_ok k"
  unfolding entry_iff by (auto simp: trie_key_ok_def dest!: holdsD[OF trie_okD(2)] simp: node_holds_def)

lemma get_contents:
  assumes "trie_ok P h t" "trie_key_ok k"
  shows "trie_get t k = Some (trie_contents t k)"
proof -
  have "\<exists>v. trie_get t k = Some v" using lookup_exact[OF trie_okD(1)[OF assms(1)], of k] assms(2) by (auto simp: trie_get_def trie_key_ok_def)
  then show ?thesis using assms(2) by (auto simp: trie_contents_def)
qed

lemma contents_entries:
  assumes ok: "trie_ok P h t"
  shows "trie_contents t k = Some v \<longleftrightarrow> (k, v) \<in> entries t"
proof (cases "trie_key_ok k")
  case False
  then show ?thesis using entry_key[OF ok] by (auto simp: trie_contents_def)
next
  case True
  then have "k \<noteq> []" by (simp add: trie_key_ok_def)
  from lookup_exact[OF trie_okD(1)[OF ok] this] show ?thesis
  proof (elim disjE exE conjE)
    fix q n assume q: "trie_lookup t k True = Some (Some q)" "tr_nodes t q = Some n" "P q = k"
    have "trie_contents t k = tn_value n" using q True by (simp add: trie_contents_def trie_get_def)
    moreover have "m = n" if "tr_nodes t r = Some m" "P r = k" for r m using path_inj[OF trie_okD(1)[OF ok] that(1) q(2)] that q by auto
    ultimately show ?thesis unfolding entry_iff[OF ok] using q(2,3) by metis
  next
    assume n: "trie_lookup t k True = Some None" "\<forall>q n. tr_nodes t q = Some n \<longrightarrow> P q \<noteq> k"
    have "trie_contents t k = None" using n(1) True by (simp add: trie_contents_def trie_get_def)
    then show ?thesis unfolding entry_iff[OF ok] using n(2) by auto
  qed
qed

lemma contents_eqI:
  assumes "trie_ok P h t" "\<And>k v. (k, v) \<in> entries t \<longleftrightarrow> f k = Some v"
  shows "trie_contents t = f"
proof
  fix k show "trie_contents t k = f k" using contents_entries[OF assms(1), of k] assms(2)[of k] by (metis option.exhaust)
qed

lemma contents_same: "trie_ok P h t \<Longrightarrow> trie_ok P' h' t' \<Longrightarrow> same_entries t t' \<Longrightarrow> trie_contents t' = trie_contents t"
  by (rule contents_eqI) (auto simp: same_entries_def contents_entries)

lemma finite_contents:
  assumes "trie_ok P h t"
  shows "finite (dom (trie_contents t))"
proof -
  have "dom (trie_contents t) \<subseteq> P ` dom (tr_nodes t)" using contents_entries[OF assms] entry_iff[OF assms] by (auto simp: dom_def)
  then show ?thesis using shapeD(2)[OF trie_okD(1)[OF assms]] finite_surj by blast
qed

text \<open>Setting the value of a node.\<close>

lemma set_value:
  assumes ok: "trie_ok P h t" and q: "tr_nodes t q = Some n" and key: "trie_key_ok (P q)"
    and t': "tr_nodes t' = (tr_nodes t)(q \<mapsto> n\<lparr>tn_key := Some (P q), tn_value := Some v, tn_refcount := 1\<rparr>)" "tr_header t' = tr_header t" "tr_num_nodes t' = tr_num_nodes t"
  shows "trie_ok P h t'" "trie_contents t' = (trie_contents t)(P q \<mapsto> v)"
proof -
  show ok': "trie_ok P h t'"
    using holdsD[OF trie_okD(2)[OF ok] q] key by (intro ok_same[OF ok q t']) (auto simp: same_structure_def node_holds_def trie_key_ok_def)
  have uniq: "r = q" if "tr_nodes t r = Some m" "P r = P q" for r m using path_inj[OF trie_okD(1)[OF ok] that(1) q that(2)] .
  have "(k, w) \<in> entries t' \<longleftrightarrow> (if k = P q then w = v else (k, w) \<in> entries t)" for k w
    unfolding entry_iff[OF ok'] entry_iff[OF ok] t'(1) using q uniq by (auto split: if_splits) metis
  then show "trie_contents t' = (trie_contents t)(P q \<mapsto> v)"
    by (intro contents_eqI[OF ok']) (auto simp: contents_entries[OF ok])
qed

lemma trie_put_ok:
  assumes "trie_inv t" "al_ok al t" "trie_key_ok k"
  shows "\<exists>ns t'. trie_put al t k (Some v) = Some (ns, t') \<and> trie_inv t' \<and> trie_contents t' = (trie_contents t)(k \<mapsto> v)"
proof -
  obtain P0 h where ok0: "trie_ok P0 h t" and len: "tr_length t = of_nat (card (dom (trie_contents t)))" using assms(1) by (auto simp: trie_inv_def)
  obtain P q al' t1 n where 1: "trie_insert al k t = Some (Some q, al', t1)" "trie_ok P h t1" "same_entries t t1" "tr_nodes t1 q = Some n" "P q = k"
    by (rule trie_insert_ok[OF ok0 _ assms(2)]) (use assms(3) in \<open>auto simp: trie_key_ok_def\<close>)
  have c1: "trie_contents t1 = trie_contents t" by (rule contents_same[OF ok0 1(2,3)])
  have len1: "tr_length t1 = of_nat (card (dom (trie_contents t)))" using len 1(3) by (simp add: same_entries_def)
  have "q \<noteq> h" using 1(5) assms(3) shapeD(3)[OF trie_okD(1)[OF 1(2)]] by (auto simp: trie_key_ok_def)
  then have ref: "tr_header t1 \<noteq> Some q" using shapeD(1)[OF trie_okD(1)[OF 1(2)]] by simp
  have n: "tn_refcount n = (if tn_value n = None then 0 else 1)" "tn_value n = None \<longleftrightarrow> trie_contents t k = None"
  proof -
    show "tn_refcount n = (if tn_value n = None then 0 else 1)" using holdsD[OF trie_okD(2)[OF 1(2)] 1(4)] by (simp add: node_holds_def split: if_splits)
    have "trie_contents t k = tn_value n"
      using contents_entries[OF 1(2), of k] entry_iff[OF 1(2), of k] 1(4,5) path_inj[OF trie_okD(1)[OF 1(2)] _ 1(4)] c1 by (metis option.exhaust option.inject)
    then show "tn_value n = None \<longleftrightarrow> trie_contents t k = None" by simp
  qed
  let ?n = "n\<lparr>tn_key := Some (P q), tn_value := Some v, tn_refcount := 1\<rparr>"
  let ?t = "t1\<lparr>tr_nodes := (tr_nodes t1)(q \<mapsto> ?n), tr_length := (if tn_value n = None then tr_length t1 + 1 else tr_length t1)\<rparr>"
  have ok: "trie_ok P h ?t" "trie_contents ?t = (trie_contents t1)(P q \<mapsto> v)"
    by (rule set_value[OF 1(2,4)]; use assms(3) 1(5) in simp)+
  obtain ns where ns: "notify_up ?t q q (if tn_value n = None then QB_MAP_NOTIFY_INSERTED else QB_MAP_NOTIFY_REPLACED)
      (if tn_value n = None then Some k else tn_key n) (tn_value n) (Some v) = Some ns"
    using notify_total[OF trie_okD(1)[OF ok(1)], of q ?n] by fastforce
  have same: "n\<lparr>tn_key := a, tn_value := b, tn_refcount := 1\<rparr> = n\<lparr>tn_key := a, tn_value := b\<rparr>" if "tn_value n \<noteq> None" for a b
    using n(1) that by (cases n) simp
  have "trie_put al t k (Some v) = Some (ns, ?t)"
    using 1(1,4,5) ref n(1) ns by (cases "tn_value n") (auto simp: same trie_put_def trie_node_ref_def trie_notify_def node_upd_def Let_def)
  moreover have "tr_length ?t = of_nat (card (dom (trie_contents ?t)))"
    unfolding ok(2) c1 using 1(5) len1 n(2) finite_contents[OF ok0] by (auto simp: card_insert_if domIff insert_absorb)
  then have "trie_inv ?t" using ok(1) unfolding trie_inv_def by blast
  ultimately show ?thesis using ok(2) c1 1(5) by auto
qed

text \<open>Removing a key that is there, and the counter.\<close>

lemma clear_value:
  assumes ok: "trie_ok P h t" and q: "tr_nodes t q = Some n"
    and t': "tr_nodes t' = (tr_nodes t)(q \<mapsto> n\<lparr>tn_key := None, tn_value := None, tn_refcount := 0\<rparr>)" "tr_header t' = tr_header t" "tr_num_nodes t' = tr_num_nodes t"
  shows "trie_ok P h t'" "trie_contents t' = (trie_contents t)(P q := None)"
proof -
  show ok': "trie_ok P h t'"
    using holdsD[OF trie_okD(2)[OF ok] q] by (intro ok_same[OF ok q t']) (auto simp: same_structure_def node_holds_def)
  have uniq: "r = q" if "tr_nodes t r = Some m" "P r = P q" for r m using path_inj[OF trie_okD(1)[OF ok] that(1) q that(2)] .
  have "(k, w) \<in> entries t' \<longleftrightarrow> k \<noteq> P q \<and> (k, w) \<in> entries t" for k w
    unfolding entry_iff[OF ok'] entry_iff[OF ok] t'(1) using q uniq by (auto split: if_splits) metis
  then show "trie_contents t' = (trie_contents t)(P q := None)"
    by (intro contents_eqI[OF ok']) (auto simp: contents_entries[OF ok])
qed

lemma destroy_ok:
  assumes ok: "trie_ok P h t" and q: "tr_nodes t q = Some n" "tn_value n = Some v"
  shows "\<exists>ns t'. trie_node_deref t q = Some (ns, t') \<and> trie_ok P h t' \<and> trie_contents t' = (trie_contents t)(P q := None) \<and> tr_length t' = tr_length t"
proof -
  have r: "tn_refcount n = 1" using holdsD[OF trie_okD(2)[OF ok] q(1)] q(2) by (simp add: node_holds_def)
  let ?s = "node_upd q (\<lambda>n. n\<lparr>tn_refcount := tn_refcount n - 1\<rparr>) t"
  let ?t = "t\<lparr>tr_nodes := (tr_nodes t)(q \<mapsto> n\<lparr>tn_key := None, tn_value := None, tn_refcount := 0\<rparr>)\<rparr>"
  have c: "trie_ok P h ?t" "trie_contents ?t = (trie_contents t)(P q := None)" by (rule clear_value[OF ok q(1)]; simp)+
  have sh0: "trie_shape P h ?s"
    by (rule shape_same[OF trie_okD(1)[OF ok] q(1), where t' = ?s and n' = "n\<lparr>tn_refcount := tn_refcount n - 1\<rparr>"]) (simp_all add: q(1) node_upd_def same_structure_def)
  have n0: "tr_nodes ?s q = Some (n\<lparr>tn_refcount := 0\<rparr>)" using q(1) r by (simp add: node_upd_def)
  obtain ns where ns: "notify_up ?s q q QB_MAP_NOTIFY_DELETED (tn_key n) (tn_value n) None = Some ns" using notify_total[OF sh0 n0] by blast
  obtain t' where t': "trie_node_release ?t q = Some t'" "trie_ok P h t'" "same_entries ?t t'" using release_ok[OF c(1), of q] by auto
  have "node_upd q (\<lambda>n. n\<lparr>tn_key := None, tn_value := None\<rparr>) ?s = ?t" using q(1) r by (cases n) (simp add: node_upd_def)
  then have "trie_node_destroy ?s q = Some (ns, t')"
    using n0 q(2) ns t'(1) by (simp add: trie_node_destroy_def trie_notify_def)
  then have "trie_node_deref t q = Some (ns, t')"
    using q r by (simp add: trie_node_deref_def trie_node_alive_def Let_def)
  then show ?thesis using t' contents_same[OF c(1) t'(2,3)] c(2) by (auto simp: same_entries_def)
qed

lemma trie_rm_ok:
  assumes "trie_inv t" "trie_key_ok k" "trie_contents t k \<noteq> None"
  shows "\<exists>ns t'. trie_rm t k = Some (True, ns, t') \<and> trie_inv t' \<and> trie_contents t' = (trie_contents t)(k := None)"
proof -
  obtain P h where ok: "trie_ok P h t" and len: "tr_length t = of_nat (card (dom (trie_contents t)))" using assms(1) by (auto simp: trie_inv_def)
  obtain v where v: "trie_contents t k = Some v" using assms(3) by blast
  obtain q n where q: "trie_lookup t k True = Some (Some q)" "tr_nodes t q = Some n" "P q = k"
    using lookup_exact[OF trie_okD(1)[OF ok], of k] assms(2) v by (auto simp: trie_contents_def trie_get_def trie_key_ok_def)
  have "tn_value n = Some v" using v q assms(2) by (simp add: trie_contents_def trie_get_def)
  from destroy_ok[OF ok q(2) this] obtain ns t' where t': "trie_node_deref t q = Some (ns, t')" "trie_ok P h t'"
    "trie_contents t' = (trie_contents t)(k := None)" "tr_length t' = tr_length t" using q(3) by auto
  let ?t = "t'\<lparr>tr_length := tr_length t' - 1\<rparr>"
  have ok': "trie_ok P h ?t" using t'(2) by (simp add: trie_ok_def trie_shape_def trie_holds_def kid_def)
  have c: "trie_contents ?t = trie_contents t'"
    by (rule contents_eqI[OF ok']) (auto simp: contents_entries[OF t'(2)] entries_def)
  have "Suc (card (dom (trie_contents t'))) = card (dom (trie_contents t))"
    using card_Suc_Diff1[OF finite_contents[OF ok], of k] v by (simp add: t'(3) domIff)
  then have "tr_length ?t = of_nat (card (dom (trie_contents ?t)))" using len t'(4) c by (simp flip: \<open>Suc _ = _\<close>)
  then have "trie_inv ?t" using ok' unfolding trie_inv_def by blast
  then show ?thesis using q(1) t' c by (simp add: trie_rm_def)
qed

lemma trie_create_ok:
  assumes "al 0 = Some h" "al 1 \<noteq> None"
  obtains t :: "('c, 'u, 'v) trie" where "qb_trie_create True al = Some t" "trie_inv t" "trie_contents t = Map.empty" "dom (tr_nodes t) = {h}"
proof -
  let ?n = "\<lparr>tn_idx = 0, tn_segment = [], tn_key = None, tn_value = None, tn_children = [], tn_num_children = 0, tn_refcount = 0, tn_parent = None, tn_notifiers = []\<rparr> :: ('c, 'u, 'v) trie_node"
  let ?t = "\<lparr>tr_length = 0, tr_num_nodes = 1, tr_mem_used = trie_size + trie_node_size, tr_header = Some h, tr_nodes = [h \<mapsto> ?n]\<rparr> :: ('c, 'u, 'v) trie"
  have c: "qb_trie_create True al = Some ?t" using assms by (auto simp: qb_trie_create_def trie_new_node_def alloc_next_def)
  have ok: "trie_ok (\<lambda>_. []) h ?t" by (auto simp: trie_ok_def trie_holds_def node_holds_def kid_def child_at_def intro!: shapeI split: if_splits)
  have "trie_contents ?t = Map.empty" by (rule contents_eqI[OF ok]) (auto simp: entries_def split: if_splits)
  then show thesis using that[OF c] ok by (auto simp: trie_inv_def)
qed

interpretation tr: map_store "trie_map ok al e" trie_inv al_ok trie_key_ok trie_contents
proof
  fix t k v al' assume t: "trie_inv t"
  then obtain P h where ok: "trie_ok P h t" by (auto simp: trie_inv_def)
  show "mget (trie_map ok al e) t k = Some (trie_contents t k)" if "trie_key_ok k" using get_contents[OF ok that] by (simp add: trie_map_def)
  show "mcount_get (trie_map ok al e) t = of_nat (card (dom (trie_contents t)))" using t by (simp add: trie_map_def trie_count_get_def trie_inv_def)
  show "\<exists>ns s'. mput (trie_map ok al e) al' t k (Some v) = Some (ns, s') \<and> trie_inv s' \<and> trie_contents s' = (trie_contents t)(k \<mapsto> v)"
    if "al_ok al' t" "trie_key_ok k" using trie_put_ok[OF t that(1,2)] by (simp add: trie_map_def)
  show "\<exists>ns s'. mrm (trie_map ok al e) t k = Some (True, ns, s') \<and> trie_inv s' \<and> trie_contents s' = (trie_contents t)(k := None)"
    if "trie_key_ok k" "trie_contents t k \<noteq> None" using trie_rm_ok[OF t that] by (simp add: trie_map_def)
qed

section \<open>Properties\<close>

definition ex_allocs :: "nat \<Rightarrow> allocs" where
  "ex_allocs n = (\<lambda>i. Some (n + i))"

lemma ex_allocs_ok: "\<forall>a\<ge>n. tr_nodes t a = None \<Longrightarrow> al_ok (ex_allocs n) t"
  by (simp add: al_ok_def ex_allocs_def inj_def)

text \<open>
  C32: Any sequence of puts, gets, counts and removals of keys that are there, on a trie that no iterator uses, gives the results of the same sequence on a finite map and
  keeps the invariant. The keys are not empty, and there is memory for the nodes.
\<close>

theorem trie_refines_map:
  assumes "trie_inv t" "run_ok al_ok trie_key_ok True (trie_map malloc_ok al e) ops t"
  shows "\<exists>t'. map_run (trie_map malloc_ok al e) ops t = Some (fst (spec_map_run ops (trie_contents t)), t') \<and> trie_inv t' \<and>
           trie_contents t' = snd (spec_map_run ops (trie_contents t))"
  by (rule tr.run_present[OF assms])

theorem trie_refines_map_witness:
  "\<exists>(t :: (nat, nat, nat) trie) t'. qb_trie_create True (ex_allocs 1) = Some t \<and>
     map_run (trie_map True (ex_allocs 1) 0) [MPut (ex_allocs 10) ''ab'' 5, MGet ''ab'', MGet ''a'', MCount] t = Some ([OUnit, OValue (Some 5), OValue None, OCount 1], t')"
proof -
  obtain t :: "(nat, nat, nat) trie" where t: "qb_trie_create True (ex_allocs 1) = Some t" "trie_inv t" "trie_contents t = Map.empty" "dom (tr_nodes t) = {1}"
    by (rule trie_create_ok[of "ex_allocs 1" 1]) (simp_all add: ex_allocs_def)
  have "a \<notin> dom (tr_nodes t)" if "a \<ge> 10" for a unfolding t(4) using that by simp
  then have "al_ok (ex_allocs 10) t" by (intro ex_allocs_ok) (auto simp: domIff)
  then have "run_ok al_ok trie_key_ok True (trie_map True (ex_allocs 1) 0) [MPut (ex_allocs 10) ''ab'' 5, MGet ''ab'', MGet ''a'', MCount] t"
    by (auto simp: trie_key_ok_def split: option.splits)
  from trie_refines_map[OF t(2) this] show ?thesis using t(1,3) by (auto simp: Let_def)
qed

text \<open>
  A removal of a key that is not there counts when the trie has a node with its path: the node of the common start of two keys, or of a key that has notifiers only. The
  counter is then too low, and below zero in the second case.
\<close>

definition ex_trie :: "(nat, nat, nat) trie" where
  "ex_trie = (case qb_trie_create True (ex_allocs 1) of Some t \<Rightarrow> t | None \<Rightarrow> undefined)"

lemma trie_rm_absent_counts:
  "map_option fst (map_run (trie_map True (ex_allocs 1) 0)
     [MPut (ex_allocs 10) ''ab'' 1, MPut (ex_allocs 40) ''ac'' 2, MRm ''a'', MCount, MGet ''ab'', MGet ''ac''] ex_trie) =
   Some [OUnit, OUnit, OBool True, OCount 1, OValue (Some 1), OValue (Some 2)]"
  by code_simp

lemma trie_rm_notified_counts:
  "(do { (rc, t) \<leftarrow> qb_map_notify_add (trie_map True (ex_allocs 10) 0) ex_trie (Some ''a'') 7 QB_MAP_NOTIFY_DELETED 8;
         (rs, t) \<leftarrow> map_run (trie_map True (ex_allocs 10) 0) [MRm ''a'', MCount] t; Some (rc, rs) }) = Some (0, [OBool True, OCount (- 1)])"
  by code_simp

text \<open>Deleting the notifiers of a key also takes those of a longer key, when the key ends inside the segment of its node.\<close>

lemma trie_notify_del_longer:
  "(do { (rc, t) \<leftarrow> qb_map_notify_add (trie_map True (ex_allocs 10) 0) ex_trie (Some ''abc'') 7 QB_MAP_NOTIFY_DELETED 8;
         (rc', t) \<leftarrow> qb_map_notify_del (trie_map True (ex_allocs 10) 0) t (Some ''ab'') 7 QB_MAP_NOTIFY_DELETED 0;
         Some (rc, rc') }) = Some (0, 0)"
  by code_simp

text \<open>
  Two removals of a key at which an iterator stands free its node under the iterator, whose next step uses it.
\<close>

lemma trie_rm_twice_frees:
  "(do { (rs, t) \<leftarrow> map_run (trie_map True (ex_allocs 1) 0) [MPut (ex_allocs 10) ''a'' 1] ex_trie;
         (i, t) \<leftarrow> Some (qb_map_iter_create (trie_map True (ex_allocs 1) 0) t);
         i \<leftarrow> i;
         (r, ns, i, t) \<leftarrow> qb_map_iter_next (trie_map True (ex_allocs 1) 0) i t;
         (rs, t) \<leftarrow> map_run (trie_map True (ex_allocs 1) 0) [MRm ''a'', MRm ''a''] t;
         Some (r, rs, qb_map_iter_next (trie_map True (ex_allocs 1) 0) i t = None) }) = Some (Some (''a'', Some 1), [OBool True, OBool True], True)"
  by code_simp

text \<open>
  A key that ends inside a segment leaves a node for the terminating zero behind, so that its own node is not freed with it; the header is never freed.
\<close>

lemma trie_destroy_leaks:
  "(do { (rs, t) \<leftarrow> map_run (trie_map True (ex_allocs 1) 0) [MPut (ex_allocs 10) ''ab'' 1, MPut (ex_allocs 40) ''a'' 2, MRm ''a'', MRm ''ab''] ex_trie;
         (ns, t') \<leftarrow> trie_destroy t;
         Some (rs, tr_num_nodes t, tr_num_nodes t') }) = Some ([OUnit, OUnit, OBool True, OBool True], 3, 3)"
  by code_simp

end
