(* ===== verification/Trie_Iter.thy ===== *)
theory Trie_Iter
  imports Trie_Map
begin

text \<open>
  The iteration over the trie: the step to the next node goes through the nodes in the order of their paths, with signed characters, so that the
  traversal of the map visits the entries in this order, and the one with a prefix visits exactly the entries with it.
\<close>

section \<open>The order\<close>

definition srank :: "string \<Rightarrow> int list" where
  "srank s = map (\<lambda>c. - int (TRIE_CHAR2INDEX c)) s"

lemma srank_simps [simp]: "srank [] = []" "srank (c # s) = - int (TRIE_CHAR2INDEX c) # srank s" "srank (a @ b) = srank a @ srank b"
  by (simp_all add: srank_def)

lemma srank_inj [simp]: "srank a = srank b \<longleftrightarrow> a = b"
  unfolding srank_def by (rule inj_map_eq_map) (simp add: inj_def)

lemma less_append [simp]: "(p :: int list) @ a < p @ b \<longleftrightarrow> a < b"
  by (induction p) auto

lemma less_longer: "b \<noteq> [] \<Longrightarrow> (p :: int list) < p @ b"
  by (induction p) (auto simp: neq_Nil_conv)

lemma srank_prefix: "prefix a b \<Longrightarrow> a \<noteq> b \<Longrightarrow> srank a < srank b"
  by (auto simp: prefix_def intro!: less_longer) (auto simp: srank_def)

lemma srank_prefix_le: "prefix a b \<Longrightarrow> srank a \<le> srank b"
  using srank_prefix[of a b] by (cases "a = b") auto

text \<open>What is greater without being longer is greater than all that is longer.\<close>

lemma srank_beyond:
  assumes "srank a < srank b" "\<not> prefix a b"
  shows "srank (a @ x) < srank (b @ y)"
  using assms
proof (induction a arbitrary: b)
  case (Cons c a)
  then show ?case by (cases b) auto
qed simp

lemma srank_before: "srank a < srank b \<Longrightarrow> prefix a' a \<Longrightarrow> \<not> prefix a' b \<Longrightarrow> srank a' < srank b"
  using srank_prefix_le[of a' a] by auto

section \<open>The next node\<close>

text \<open>The nodes below \<open>root\<close> that come after the node \<open>c\<close>, and those of them that are not below it.\<close>

definition after :: "(nat \<Rightarrow> string) \<Rightarrow> ('c, 'u, 'v) trie \<Rightarrow> nat \<Rightarrow> nat \<Rightarrow> nat set" where
  "after P t root c = {q \<in> dom (tr_nodes t). prefix (P root) (P q) \<and> srank (P c) < srank (P q)}"

definition beyond :: "(nat \<Rightarrow> string) \<Rightarrow> ('c, 'u, 'v) trie \<Rightarrow> nat \<Rightarrow> nat \<Rightarrow> nat set" where
  "beyond P t root p = {q \<in> after P t root p. \<not> prefix (P p) (P q)}"

definition first_of :: "(nat \<Rightarrow> string) \<Rightarrow> nat set \<Rightarrow> nat \<Rightarrow> bool" where
  "first_of P N q \<longleftrightarrow> q \<in> N \<and> (\<forall>q'\<in>N. srank (P q) \<le> srank (P q'))"

lemma kids_order:
  assumes "trie_shape P h t" "kid t p i = Some a" "kid t p j = Some b" "i < j"
  shows "srank (P b) < srank (P a)" "\<not> prefix (P b) (P a)"
proof -
  obtain an c where a: "tr_nodes t a = Some an" "i = TRIE_CHAR2INDEX c" "P a = P p @ c # tn_segment an" by (rule kid_path[OF assms(1,2)])
  obtain bn d where b: "tr_nodes t b = Some bn" "j = TRIE_CHAR2INDEX d" "P b = P p @ d # tn_segment bn" by (rule kid_path[OF assms(1,3)])
  show "srank (P b) < srank (P a)" using a b assms(4) by simp
  show "\<not> prefix (P b) (P a)" using a b assms(4) by auto
qed

text \<open>A kid with the greatest index below a bound is the first of the nodes below the kids in front of the bound.\<close>

lemma greatest_kid_first:
  assumes sh: "trie_shape P h t" and k: "kid t p i = Some q" and max: "\<And>j c. kid t p j = Some c \<Longrightarrow> j < m \<Longrightarrow> j \<le> i"
    and r: "tr_nodes t r = Some rn" "kid t p j = Some c" "prefix (P c) (P r)" "j < m"
  shows "srank (P q) \<le> srank (P r)"
proof (cases "j = i")
  case True
  then show ?thesis using k r(2,3) srank_prefix_le by auto
next
  case False
  then have "j < i" using max[OF r(2,4)] by simp
  from kids_order[OF sh r(2) k this] show ?thesis using srank_prefix_le[OF r(3)] by simp
qed

lemma scan_kids:
  assumes "trie_shape P h t" "tr_nodes t p = Some n" "m \<le> length (tn_children n)"
  obtains (found) i q where "scan_down n m = Some (Some q)" "i < m" "kid t p i = Some q" "\<And>j c. kid t p j = Some c \<Longrightarrow> j < m \<Longrightarrow> j \<le> i"
    | (none) "scan_down n m = Some None" "\<And>j. j < m \<Longrightarrow> kid t p j = None"
  using scan_down_ok[OF assms(3)]
proof (elim disjE exE conjE)
  fix j c assume a: "j < m" "scan_down n m = Some (Some c)" "child_at (tn_children n) j = Some c" "\<forall>l. j < l \<and> l < m \<longrightarrow> child_at (tn_children n) l = None"
  have "l \<le> j" if "kid t p l = Some d" "l < m" for l d using that a(4) assms(2) by (metis kid_child_at leI option.distinct(1))
  then show thesis using found a assms(2) by (simp add: kid_child_at)
qed (use none assms(2) in \<open>simp add: kid_child_at\<close>)

lemma kid_bound: "trie_shape P h t \<Longrightarrow> tr_nodes t p = Some n \<Longrightarrow> kid t p i = Some c \<Longrightarrow> i < tn_num_children n"
  by (auto simp: kid_child_at child_at_def shapeD(6) split: if_splits)

text \<open>The nodes beyond a node are those below its siblings in front of it, and those beyond its parent.\<close>

lemma beyond_cases:
  assumes sh: "trie_shape P h t" and p: "tr_nodes t par = Some parn" "kid t par i = Some p" and q: "q \<in> beyond P t root p"
  shows "q \<in> beyond P t root par \<or> (\<exists>j c. kid t par j = Some c \<and> j < i \<and> prefix (P c) (P q))"
proof -
  obtain qn where qn: "tr_nodes t q = Some qn" using q by (auto simp: beyond_def after_def)
  have q': "prefix (P root) (P q)" "srank (P p) < srank (P q)" "\<not> prefix (P p) (P q)" using q by (auto simp: beyond_def after_def)
  obtain n ch where n: "tr_nodes t p = Some n" "P p = P par @ ch # tn_segment n" by (rule kid_path[OF sh p(2)])
  show ?thesis
  proof (cases "prefix (P par) (P q)")
    case False
    then show ?thesis using q'(1,2) qn srank_before[OF q'(2), of "P par"] n(2) by (auto simp: beyond_def after_def)
  next
    case True
    have "par \<noteq> q" using q'(2) n(2) less_longer[of "- int (TRIE_CHAR2INDEX ch) # srank (tn_segment n)" "srank (P par)"] by auto
    then obtain j c where c: "kid t par j = Some c" "prefix (P c) (P q)" using toward[OF sh p(1) qn True] by blast
    moreover have "\<not> i < j"
    proof
      assume "i < j"
      obtain y where "P q = P c @ y" using c(2) by (auto simp: prefix_def)
      then show False using srank_beyond[OF kids_order[OF sh p(2) c(1) \<open>i < j\<close>], of y "[]"] q'(2) by simp
    qed
    moreover have "j \<noteq> i" using c p(2) q'(3) by auto
    ultimately show ?thesis by (metis linorder_neqE_nat)
  qed
qed

lemma sibling_beyond:
  assumes sh: "trie_shape P h t" and p: "kid t par i = Some p" "prefix (P root) (P par)" and k: "kid t par j = Some q" "j < i"
  shows "q \<in> beyond P t root p"
proof -
  obtain qn ch where "tr_nodes t q = Some qn" "P q = P par @ ch # tn_segment qn" by (rule kid_path[OF sh k(1)])
  then show ?thesis using kids_order[OF sh k(1) p(1) k(2)] p(2) by (auto simp: beyond_def after_def)
qed

lemma beyond_parent:
  assumes sh: "trie_shape P h t" and p: "kid t par i = Some p"
  shows "beyond P t root par \<subseteq> beyond P t root p"
proof
  fix q assume q: "q \<in> beyond P t root par"
  obtain n ch where n: "tr_nodes t p = Some n" "P p = P par @ ch # tn_segment n" by (rule kid_path[OF sh p])
  then show "q \<in> beyond P t root p"
    using q srank_beyond[of "P par" "P q" "ch # tn_segment n" "[]"] by (auto simp: beyond_def after_def dest: append_prefixD)
qed

lemma root_above_parent:
  assumes sh: "trie_shape P h t" and "tr_nodes t root = Some rn" "tr_nodes t par = Some parn" "kid t par i = Some p" "p \<noteq> root" "prefix (P root) (P p)"
  shows "prefix (P root) (P par)"
proof (rule ccontr)
  assume n: "\<not> prefix (P root) (P par)"
  obtain pn ch where p: "tr_nodes t p = Some pn" "i = TRIE_CHAR2INDEX ch" "P p = P par @ ch # tn_segment pn" by (rule kid_path[OF sh assms(4)])
  then have "prefix (P par @ [ch]) (P root)" using assms(6) n by (auto simp: prefix_append prefix_Cons)
  then have "prefix (P p) (P root)" using toward_char[OF sh assms(3,2), of ch] assms(4) p(2) by auto
  then show False using assms(5,6) path_inj[OF sh p(1) assms(2)] by (simp add: prefix_order.antisym)
qed

lemma climb_ok:
  assumes sh: "trie_shape P h t" and "tr_nodes t p = Some pn" "p \<noteq> root" "prefix (P root) (P p)" "tr_nodes t root = Some rn"
  shows "(climb t root p = Some None \<and> beyond P t root p = {}) \<or> (\<exists>q. climb t root p = Some (Some q) \<and> first_of P (beyond P t root p) q)"
  using assms(2-)
proof (induction "length (P p)" arbitrary: p pn rule: less_induct)
  case less
  have "p \<noteq> h" using less.prems(1-4) header_only[OF sh] by (metis prefix_Nil)
  obtain par parn ch where par: "tn_parent pn = Some par" "tr_nodes t par = Some parn" "kid t par (tn_idx pn) = Some p"
    "P p = P par @ ch # tn_segment pn" using parent_cases[OF sh less.prems(1) \<open>p \<noteq> h\<close>] by metis
  have below: "prefix (P root) (P par)" by (rule root_above_parent[OF sh less.prems(4) par(2,3) less.prems(2,3)])
  have le: "tn_idx pn \<le> length (tn_children parn)" using kid_bound[OF sh par(2,3)] shapeD(6)[OF sh par(2)] by simp
  from sh par(2) le show ?case
  proof (cases rule: scan_kids)
    case (found i q)
    have "q \<in> beyond P t root p" by (rule sibling_beyond[OF sh par(3) below found(3,2)])
    moreover have "srank (P q) \<le> srank (P r)" if r: "r \<in> beyond P t root p" for r
      using beyond_cases[OF sh par(2,3) r]
    proof
      assume "r \<in> beyond P t root par"
      then have "r \<in> beyond P t root q" using beyond_parent[OF sh found(3)] by blast
      then show ?thesis by (auto simp: beyond_def after_def)
    next
      assume "\<exists>j c. kid t par j = Some c \<and> j < tn_idx pn \<and> prefix (P c) (P r)"
      then obtain j c where c: "kid t par j = Some c" "prefix (P c) (P r)" "j < tn_idx pn" by blast
      obtain m where m: "tr_nodes t r = Some m" using r by (auto simp: beyond_def after_def)
      show ?thesis by (rule greatest_kid_first[OF sh found(3) _ m c]) (rule found(4))
    qed
    ultimately show ?thesis using found(1) less.prems(1) par(1,2) by (subst (1 2) climb.simps) (auto simp: first_of_def)
  next
    case none
    have eq: "beyond P t root p = beyond P t root par"
      using beyond_cases[OF sh par(2,3)] beyond_parent[OF sh par(3)] none(2) by fastforce
    have c: "climb t root p = (if par = root then Some None else climb t root par)"
      using none(1) less.prems(1) par(1,2) by (subst climb.simps) simp
    show ?thesis
    proof (cases "par = root")
      case True
      then show ?thesis using c eq by (auto simp: beyond_def after_def)
    next
      case False
      then show ?thesis using less.hyps[OF _ par(2) False below less.prems(4)] c eq par(4) by simp
    qed
  qed
qed

text \<open>The nodes after a node begin with its first child, if it has one.\<close>

lemma after_kids:
  assumes sh: "trie_shape P h t" and c: "tr_nodes t c = Some cn" "prefix (P root) (P c)" and none: "\<And>j. kid t c j = None"
  shows "after P t root c = beyond P t root c"
  using toward[OF sh c(1)] none by (fastforce simp: beyond_def after_def)

lemma first_kid_after:
  assumes sh: "trie_shape P h t" and c: "tr_nodes t c = Some cn" "prefix (P root) (P c)" and k: "kid t c i = Some q" "\<And>j d. kid t c j = Some d \<Longrightarrow> j \<le> i"
  shows "first_of P (after P t root c) q"
proof -
  obtain qn ch where q: "tr_nodes t q = Some qn" "P q = P c @ ch # tn_segment qn" by (rule kid_path[OF sh k(1)])
  have "q \<in> after P t root c" using q c(2) less_longer[of "- int (TRIE_CHAR2INDEX ch) # srank (tn_segment qn)" "srank (P c)"] by (auto simp: after_def)
  moreover have "srank (P q) \<le> srank (P r)" if r: "r \<in> after P t root c" for r
  proof -
    obtain rn where rn: "tr_nodes t r = Some rn" using r by (auto simp: after_def)
    show ?thesis
    proof (cases "prefix (P c) (P r)")
      case True
      have "c \<noteq> r" using r by (auto simp: after_def)
      then obtain j d where d: "kid t c j = Some d" "prefix (P d) (P r)" using toward[OF sh c(1) rn True] by blast
      show ?thesis by (rule greatest_kid_first[OF sh k(1) _ rn d, of "Suc j"]) (use k(2) in auto)
    next
      case False
      then have "r \<in> beyond P t root q" using r beyond_parent[OF sh k(1)] by (auto simp: beyond_def)
      then show ?thesis by (auto simp: beyond_def after_def)
    qed
  qed
  ultimately show ?thesis by (simp add: first_of_def)
qed

text \<open>The step to the next node that is alive.\<close>

definition alive :: "('c, 'u, 'v) trie \<Rightarrow> nat \<Rightarrow> bool" where
  "alive t q \<longleftrightarrow> (case tr_nodes t q of None \<Rightarrow> False | Some n \<Rightarrow> trie_node_alive n)"

lemma next_skip:
  assumes sh: "trie_shape P h t" and f: "first_of P (after P t root c) q" and dead: "\<not> alive t q"
  shows "{r \<in> after P t root c. alive t r} = {r \<in> after P t root q. alive t r}"
proof -
  have "srank (P q) < srank (P r)" if r: "r \<in> after P t root c" "alive t r" for r
  proof -
    have "srank (P q) \<le> srank (P r)" "r \<noteq> q" using f r dead by (auto simp: first_of_def)
    moreover have "P r \<noteq> P q" using path_inj[OF sh, of r _ q] r(1) f \<open>r \<noteq> q\<close> by (auto simp: first_of_def after_def)
    ultimately show ?thesis by (metis order_le_less srank_inj)
  qed
  moreover have "srank (P c) < srank (P q)" using f by (simp add: first_of_def after_def)
  ultimately show ?thesis by (fastforce simp: after_def)
qed

lemma succ_cases:
  assumes sh: "trie_shape P h t" and c: "tr_nodes t c = Some cn" "prefix (P root) (P c)" and root: "tr_nodes t root = Some rn"
  obtains (kid) q where "scan_down cn (tn_num_children cn) = Some (Some q)" "first_of P (after P t root c) q"
    | (stop) "scan_down cn (tn_num_children cn) = Some None" "c = root \<or> climb t root c = Some None" "after P t root c = {}"
    | (up) q where "scan_down cn (tn_num_children cn) = Some None" "c \<noteq> root" "climb t root c = Some (Some q)" "q \<noteq> root" "first_of P (after P t root c) q"
proof -
  have num: "tn_num_children cn = length (tn_children cn)" using shapeD(6)[OF sh c(1)] .
  have bound: "kid t c i = Some d \<Longrightarrow> i < tn_num_children cn" for i d using kid_bound[OF sh c(1)] .
  from sh c(1) have "tn_num_children cn \<le> length (tn_children cn)" using num by simp
  from sh c(1) this show thesis
  proof (cases rule: scan_kids)
    case (found i q)
    show thesis by (rule kid[OF found(1) first_kid_after[OF sh c found(3)]]) (use found(4) bound in blast)
  next
    case none
    have "kid t c j = None" for j using none(2) bound by (metis not_None_eq)
    then have eq: "after P t root c = beyond P t root c" by (rule after_kids[OF sh c])
    show thesis
    proof (cases "c = root")
      case True
      then show thesis using stop none(1) eq by (auto simp: beyond_def after_def)
    next
      case False
      from climb_ok[OF sh c(1) False c(2) root] show thesis
      proof (elim disjE exE conjE)
        fix q assume q: "climb t root c = Some (Some q)" "first_of P (beyond P t root c) q"
        have "srank (P root) \<le> srank (P c)" using c(2) by (rule srank_prefix_le)
        then have "q \<noteq> root" using q(2) by (auto simp: first_of_def beyond_def after_def)
        then show thesis using up none(1) False q eq by simp
      qed (use stop none(1) eq in auto)
    qed
  qed
qed

lemma next_ok:
  assumes sh: "trie_shape P h t" and c: "tr_nodes t c = Some cn" "prefix (P root) (P c)" and root: "tr_nodes t root = Some rn"
  shows "(trie_node_next t c root False = Some None \<and> {q \<in> after P t root c. alive t q} = {}) \<or>
    (\<exists>q. trie_node_next t c root False = Some (Some q) \<and> first_of P {q \<in> after P t root c. alive t q} q)"
  using c
proof (induction "card (after P t root c)" arbitrary: c cn rule: less_induct)
  case less
  have fin: "finite (after P t root c)" using shapeD(2)[OF sh] by (auto simp: after_def)
  have go: ?case if f: "first_of P (after P t root c) q" and n: "tr_nodes t q = Some qn"
    and e: "trie_node_next t c root False = (if trie_node_alive qn then Some (Some q) else trie_node_next t q root False)" for q qn
  proof (cases "trie_node_alive qn")
    case True
    then show ?thesis using e f n by (auto simp: first_of_def alive_def)
  next
    case False
    then have dead: "\<not> alive t q" using n by (simp add: alive_def)
    have q: "prefix (P root) (P q)" "srank (P c) < srank (P q)" using f by (auto simp: first_of_def after_def)
    have "after P t root q \<subset> after P t root c" using f q(2) by (auto simp: first_of_def after_def)
    then have "card (after P t root q) < card (after P t root c)" using fin psubset_card_mono by blast
    from less.hyps[OF this n q(1)] show ?thesis using e False next_skip[OF sh f dead] by simp
  qed
  from sh less.prems root show ?case
  proof (cases rule: succ_cases)
    case (kid q)
    then obtain qn where "tr_nodes t q = Some qn" by (auto simp: first_of_def after_def)
    then show ?thesis using kid less.prems(1) by (intro go) (auto simp: trie_node_next.simps[of t c])
  next
    case stop
    then show ?thesis using less.prems(1) by (auto simp: trie_node_next.simps[of t c])
  next
    case (up q)
    then obtain qn where "tr_nodes t q = Some qn" by (auto simp: first_of_def after_def)
    then show ?thesis using up less.prems(1) by (intro go) (auto simp: trie_node_next.simps[of t c])
  qed
qed

section \<open>The iterator\<close>

text \<open>The trie while an iterator stands at a node.\<close>

definition refd :: "nat \<Rightarrow> ('c, 'u, 'v) trie \<Rightarrow> ('c, 'u, 'v) trie" where
  "refd q t = (if tr_header t = Some q then t else node_upd q (\<lambda>n. n\<lparr>tn_refcount := tn_refcount n + 1\<rparr>) t)"

text \<open>Where an iterator may stand: at the header, or at a node with a value.\<close>

definition stands :: "('c, 'u, 'v) trie \<Rightarrow> nat \<Rightarrow> bool" where
  "stands t q \<longleftrightarrow> (\<exists>n. tr_nodes t q = Some n \<and> (tr_header t = Some q \<or> tn_value n \<noteq> None))"

lemma refd_nodes:
  assumes "tr_nodes t q = Some n"
  shows "tr_nodes (refd q t) = (tr_nodes t)(q \<mapsto> (if tr_header t = Some q then n else n\<lparr>tn_refcount := tn_refcount n + 1\<rparr>))" "tr_header (refd q t) = tr_header t"
  using assms by (auto simp: refd_def node_upd_def)

lemma refd_shape:
  assumes sh: "trie_shape P h t" and q: "tr_nodes t q = Some n"
  shows "trie_shape P h (refd q t)" "dom (tr_nodes (refd q t)) = dom (tr_nodes t)"
proof -
  show "trie_shape P h (refd q t)" by (rule shape_same[OF sh q refd_nodes[OF q]]) (simp add: same_structure_def)
  show "dom (tr_nodes (refd q t)) = dom (tr_nodes t)" using q refd_nodes[OF q] by auto
qed

lemma refd_alive:
  assumes ok: "trie_ok P h t" and q: "tr_nodes t q = Some n"
  shows "alive (refd q t) r \<longleftrightarrow> (\<exists>m v. tr_nodes t r = Some m \<and> tn_value m = Some v)"
proof -
  have "tn_refcount m = (if tn_value m = None then 0 else 1)" if "tr_nodes t s = Some m" for s m
    using holdsD[OF trie_okD(2)[OF ok] that] by (simp add: node_holds_def split: if_splits)
  then show ?thesis using q refd_nodes[OF q]
    by (cases "tr_nodes t r") (auto simp: alive_def trie_node_alive_def split: if_splits)
qed

text \<open>The next node that has a value, seen from a node in the trie with the reference of the iterator.\<close>

lemma next_value:
  assumes ok: "trie_ok P h t" and c: "tr_nodes t c = Some cn" "prefix (P root) (P c)" and root: "tr_nodes t root = Some rn"
    and p: "tr_nodes t p = Some pn"
  obtains "trie_node_next (refd p t) c root False = Some None" "\<And>k v. (k, v) \<in> entries t \<Longrightarrow> prefix (P root) k \<Longrightarrow> \<not> srank (P c) < srank k"
  | q n v where "trie_node_next (refd p t) c root False = Some (Some q)" "tr_nodes t q = Some n" "tn_value n = Some v" "prefix (P root) (P q)" "srank (P c) < srank (P q)"
    "\<And>k w. (k, w) \<in> entries t \<Longrightarrow> prefix (P root) k \<Longrightarrow> srank (P c) < srank k \<Longrightarrow> srank (P q) \<le> srank k"
proof -
  note sh = trie_okD(1)[OF ok]
  note sh' = refd_shape[OF sh p]
  obtain cn' rn' where n: "tr_nodes (refd p t) c = Some cn'" "tr_nodes (refd p t) root = Some rn'"
    using c(1) root p by (cases "c = p"; cases "root = p") (auto simp: refd_nodes[OF p])
  have N: "{q \<in> after P (refd p t) root c. alive (refd p t) q} = {q. \<exists>m v. tr_nodes t q = Some m \<and> tn_value m = Some v \<and> prefix (P root) (P q) \<and> srank (P c) < srank (P q)}"
    unfolding refd_alive[OF ok p] after_def sh'(2) by auto
  from next_ok[OF sh'(1) n(1) c(2) n(2)] show thesis unfolding N
  proof (elim disjE exE conjE)
    fix q assume q: "trie_node_next (refd p t) c root False = Some (Some q)"
      "first_of P {q. \<exists>m v. tr_nodes t q = Some m \<and> tn_value m = Some v \<and> prefix (P root) (P q) \<and> srank (P c) < srank (P q)} q"
    then obtain n v where n: "tr_nodes t q = Some n" "tn_value n = Some v" "prefix (P root) (P q)" "srank (P c) < srank (P q)" unfolding first_of_def by auto
    have "srank (P q) \<le> srank k" if "(k, w) \<in> entries t" "prefix (P root) k" "srank (P c) < srank k" for k w
      using q(2) that unfolding first_of_def entry_iff[OF ok] by auto
    then show thesis by (rule that(2)[OF q(1) n])
  next
    assume n: "trie_node_next (refd p t) c root False = Some None"
      "{q. \<exists>m v. tr_nodes t q = Some m \<and> tn_value m = Some v \<and> prefix (P root) (P q) \<and> srank (P c) < srank (P q)} = {}"
    have "\<not> srank (P c) < srank k" if "(k, v) \<in> entries t" "prefix (P root) k" for k v using n(2) that unfolding entry_iff[OF ok] by auto
    then show thesis by (rule that(1)[OF n(1)])
  qed
qed

lemma move_ref:
  assumes ok: "trie_ok P h t" and p: "stands t p" and q: "stands t q" "q \<noteq> p" "q \<noteq> h"
  shows "\<exists>t1. trie_node_ref (refd p t) q = Some t1 \<and> trie_node_deref t1 p = Some ([], refd q t)"
proof -
  obtain pn qn v where n: "tr_nodes t p = Some pn" "tr_nodes t q = Some qn" "tn_value qn = Some v" using p q shapeD(1)[OF trie_okD(1)[OF ok]] by (auto simp: stands_def)
  have h: "tr_header t = Some h" using shapeD(1)[OF trie_okD(1)[OF ok]] .
  show ?thesis
  proof (cases "p = h")
    case True
    then have "tn_value pn = None" using holdsD[OF trie_okD(2)[OF ok] n(1)] shapeD(3)[OF trie_okD(1)[OF ok]] by (auto simp: node_holds_def split: if_splits)
    then show ?thesis using True n q(2,3) h by (auto simp: refd_def trie_node_ref_def trie_node_deref_def trie_node_alive_def node_upd_def)
  next
    case False
    then have v: "tn_value pn \<noteq> None" "tn_refcount pn = 1" using p n(1) h holdsD[OF trie_okD(2)[OF ok] n(1)] by (auto simp: stands_def node_holds_def split: if_splits)
    have same: "pn\<lparr>tn_refcount := 1\<rparr> = pn" "(tr_nodes t)(p \<mapsto> pn) = tr_nodes t"
    proof -
      show "pn\<lparr>tn_refcount := 1\<rparr> = pn" using v(2) by (cases pn) simp
      show "(tr_nodes t)(p \<mapsto> pn) = tr_nodes t" using n(1) by (rule fun_upd_idem)
    qed
    then show ?thesis using False v n q(2,3) h
      by (auto simp: same refd_def trie_node_ref_def trie_node_deref_def trie_node_alive_def node_upd_def Let_def fun_upd_twist)
  qed
qed

lemma drop_ref:
  assumes ok: "trie_ok P h t" and p: "stands t p"
  shows "trie_node_deref (refd p t) p = Some ([], t)"
proof -
  obtain pn where n: "tr_nodes t p = Some pn" using p by (auto simp: stands_def)
  have h: "tr_header t = Some h" using shapeD(1)[OF trie_okD(1)[OF ok]] .
  show ?thesis
  proof (cases "p = h")
    case True
    then have "tn_value pn = None" using holdsD[OF trie_okD(2)[OF ok] n] shapeD(3)[OF trie_okD(1)[OF ok]] by (auto simp: node_holds_def split: if_splits)
    then show ?thesis using True n h by (auto simp: refd_def trie_node_deref_def trie_node_alive_def)
  next
    case False
    then have v: "tn_value pn \<noteq> None" "tn_refcount pn = 1" using p n h holdsD[OF trie_okD(2)[OF ok] n] by (auto simp: stands_def node_holds_def split: if_splits)
    have same: "pn\<lparr>tn_refcount := 1\<rparr> = pn" "(tr_nodes t)(p \<mapsto> pn) = tr_nodes t"
    proof -
      show "pn\<lparr>tn_refcount := 1\<rparr> = pn" using v(2) by (cases pn) simp
      show "(tr_nodes t)(p \<mapsto> pn) = tr_nodes t" using n by (rule fun_upd_idem)
    qed
    then show ?thesis using False v n h
      by (auto simp: same refd_def trie_node_deref_def trie_node_alive_def node_upd_def Let_def)
  qed
qed

section \<open>Traversal\<close>

text \<open>The entries from a node on, in order.\<close>

definition entries_from :: "(string \<times> 'v) set \<Rightarrow> (string \<times> 'v) list \<Rightarrow> bool" where
  "entries_from E es \<longleftrightarrow> set es = E \<and> sorted_wrt (\<lambda>a b. srank (fst a) < srank (fst b)) es"

lemma entries_from_Cons:
  assumes "entries_from {e \<in> E. srank k < srank (fst e)} es" "(k, v) \<in> E" "\<And>e. e \<in> E \<Longrightarrow> srank k \<le> srank (fst e)" "\<And>w. (k, w) \<in> E \<Longrightarrow> w = v"
  shows "entries_from E ((k, v) # es)"
proof -
  have "e = (k, v) \<or> srank k < srank (fst e)" if "e \<in> E" for e using assms(3,4) that by (metis order_le_less prod.collapse srank_inj)
  then show ?thesis using assms(1,2) by (auto simp: entries_from_def)
qed

lemma entries_unique: "trie_ok P h t \<Longrightarrow> (k, v) \<in> entries t \<Longrightarrow> (k, w) \<in> entries t \<Longrightarrow> w = v"
  using contents_entries[of P h t k v] contents_entries[of P h t k w] by auto

lemma iter_next_last:
  assumes ok: "trie_ok P h t" and p: "stands t p" "tr_nodes t p = Some pn" and i: "ti_n i = Some p" "iter_step i p pn' (refd p t) = Some i'" "ti_n i' = None"
    and pn': "tr_nodes (refd p t) p = Some pn'"
  shows "trie_iter_next i (refd p t) = Some (None, [], i', t)"
  using drop_ref[OF ok p(1)] i pn' by (simp add: trie_iter_next_def)

lemma trie_iter_next_node:
  assumes ok: "trie_ok P h t" and p: "stands t p" and i: "ti_n i = Some p" "iter_step i p pn' (refd p t) = Some i'" "ti_n i' = Some q"
    and pn': "tr_nodes (refd p t) p = Some pn'" and q: "tr_nodes t q = Some n" "tn_value n = Some v" "q \<noteq> p"
  shows "trie_iter_next i (refd p t) = Some (Some (P q, Some v), [], i', refd q t)"
proof -
  have h: "tn_key n = Some (P q)" "P q \<noteq> []" using holdsD[OF trie_okD(2)[OF ok] q(1)] q(2) by (simp_all add: node_holds_def)
  then have "q \<noteq> h" using shapeD(3)[OF trie_okD(1)[OF ok]] by auto
  moreover have "stands t q" using q by (simp add: stands_def)
  ultimately obtain t1 where "trie_node_ref (refd p t) q = Some t1" "trie_node_deref t1 p = Some ([], refd q t)" using move_ref[OF ok p _ q(3)] by blast
  then show ?thesis using i pn' q h refd_nodes[OF q(1)] by (simp add: trie_iter_next_def)
qed

lemma foreach_unroll:
  assumes "\<And>k v x. \<not> fst (func k v x)"
  shows "foreach_loop (trie_map malloc_ok al e) func i s x =
      do { (r, ns, i, s) \<leftarrow> trie_iter_next i s;
           case r of None \<Rightarrow> Some (x, i, s) | Some (key, value) \<Rightarrow> foreach_loop (trie_map malloc_ok al e) func i s (snd (func key value x)) }"
  using assms by (subst foreach_loop.simps) (cases "trie_iter_next i s", auto simp: trie_map_def Let_def split_beta split: option.split)

text \<open>The loop from a node that is not the header, or without a prefix.\<close>

lemma foreach_from:
  assumes ok: "trie_ok P h t" and "\<And>k v x. \<not> fst (func k v x)" and root: "tr_nodes t root = Some rn"
    and p: "stands t p" "tr_nodes t p = Some pn" "prefix (P root) (P p)" and i: "ti_n i = Some p" "ti_root i = Some root" "p \<noteq> h \<or> ti_prefix i = None"
  shows "\<exists>es i'. entries_from {e \<in> entries t. prefix (P root) (fst e) \<and> srank (P p) < srank (fst e)} es \<and> ti_n i' = None \<and>
    foreach_loop (trie_map malloc_ok al e) func i (refd p t) x = Some (fold (\<lambda>(k, v) x. snd (func k (Some v) x)) es x, i', t)"
  using p i
proof (induction "card {q \<in> dom (tr_nodes t). srank (P p) < srank (P q)}" arbitrary: p pn i x rule: less_induct)
  case less
  note sh = trie_okD(1)[OF ok]
  let ?E = "{e \<in> entries t. prefix (P root) (fst e) \<and> srank (P p) < srank (fst e)}"
  obtain pn' where pn': "tr_nodes (refd p t) p = Some pn'" "tn_parent pn' = tn_parent pn" using refd_nodes[OF less.prems(2)] by auto
  have par: "tn_parent pn = None \<longleftrightarrow> p = h" using shapeD(4)[OF sh] shapeD(7)[OF sh less.prems(2)] less.prems(2) by (cases "p = h") auto
  have st: "iter_step i p pn' (refd p t) = do { n \<leftarrow> trie_node_next (refd p t) p root False; Some (i\<lparr>ti_n := n\<rparr>) }"
    using pn'(2) par less.prems(5,6) by (auto simp: iter_step_def split: option.splits)
  note lp = foreach_unroll[where func = func, OF assms(2)]
  show ?case
  proof (rule next_value[OF ok less.prems(2,3) root less.prems(2)])
    assume n: "trie_node_next (refd p t) p root False = Some None" "\<And>k v. (k, v) \<in> entries t \<Longrightarrow> prefix (P root) k \<Longrightarrow> \<not> srank (P p) < srank k"
    have "trie_iter_next i (refd p t) = Some (None, [], i\<lparr>ti_n := None\<rparr>, t)"
      by (rule iter_next_last[OF ok less.prems(1,2,4) _ _ pn'(1)]) (use st n(1) in auto)
    moreover have "?E = {}" using n(2) by auto
    ultimately show ?thesis using lp[of malloc_ok al e i "refd p t" x] by (intro exI[of _ "[]"] exI[of _ "i\<lparr>ti_n := None\<rparr>"]) (simp add: entries_from_def)
  next
    fix q n v assume n: "trie_node_next (refd p t) p root False = Some (Some q)" "tr_nodes t q = Some n" "tn_value n = Some v" "prefix (P root) (P q)" "srank (P p) < srank (P q)"
      and first: "\<And>k w. (k, w) \<in> entries t \<Longrightarrow> prefix (P root) k \<Longrightarrow> srank (P p) < srank k \<Longrightarrow> srank (P q) \<le> srank k"
    let ?i = "i\<lparr>ti_n := Some q\<rparr>"
    have ne: "q \<noteq> p" using n(5) by auto
    have it: "trie_iter_next i (refd p t) = Some (Some (P q, Some v), [], ?i, refd q t)"
      by (rule trie_iter_next_node[OF ok less.prems(1,4) _ _ pn'(1) n(2,3) ne]) (use st n(1) in auto)
    have q: "(P q, v) \<in> entries t" "q \<noteq> h" "stands t q"
    proof -
      show "(P q, v) \<in> entries t" using n entry_iff[OF ok] by blast
      show "q \<noteq> h" using n(5) shapeD(3)[OF sh] by auto
      show "stands t q" using n by (simp add: stands_def)
    qed
    have "card {r \<in> dom (tr_nodes t). srank (P q) < srank (P r)} < card {r \<in> dom (tr_nodes t). srank (P p) < srank (P r)}"
      by (rule psubset_card_mono) (use shapeD(2)[OF sh] n(2,5) in auto)
    from less.hyps[OF this q(3) n(2,4), of ?i "snd (func (P q) (Some v) x)"] less.prems(5) q(2)
    obtain es i' where es: "entries_from {e \<in> entries t. prefix (P root) (fst e) \<and> srank (P q) < srank (fst e)} es" "ti_n i' = None"
      "foreach_loop (trie_map malloc_ok al e) func ?i (refd q t) (snd (func (P q) (Some v) x)) = Some (fold (\<lambda>(k, v) x. snd (func k (Some v) x)) es (snd (func (P q) (Some v) x)), i', t)"
      by auto
    have eq: "{e \<in> ?E. srank (P q) < srank (fst e)} = {e \<in> entries t. prefix (P root) (fst e) \<and> srank (P q) < srank (fst e)}" using n(5) by auto
    have "entries_from ?E ((P q, v) # es)"
    proof (rule entries_from_Cons)
      show "entries_from {e \<in> ?E. srank (P q) < srank (fst e)} es" unfolding eq by (rule es(1))
      show "(P q, v) \<in> ?E" using q(1) n(4,5) by simp
      show "srank (P q) \<le> srank (fst e)" if "e \<in> ?E" for e using that first by (cases e) auto
      show "w = v" if "(P q, w) \<in> ?E" for w using that entries_unique[OF ok q(1)] by simp
    qed
    then show ?thesis using lp[of malloc_ok al e i "refd p t" x] it es(2,3) by (intro exI[of _ "(P q, v) # es"] exI[of _ i']) simp
  qed
qed

lemma sorted_distinct: "sorted_wrt (\<lambda>a b. srank (fst a) < srank (fst b)) es \<Longrightarrow> distinct (map fst es)"
  by (induction es) auto

lemma map_of_entries:
  assumes "entries_from E es" "\<And>k v. (k, v) \<in> E \<longleftrightarrow> f k = Some v"
  shows "map_of es = f"
proof
  fix k
  have "distinct (map fst es)" using assms(1) sorted_distinct by (auto simp: entries_from_def)
  then have "map_of es k = Some v \<longleftrightarrow> f k = Some v" for v using assms by (auto simp: entries_from_def map_of_eq_Some_iff)
  then show "map_of es k = f k" by (metis option.exhaust)
qed

lemma trie_foreach_entries:
  assumes "trie_inv t" "\<And>k v x. \<not> fst (func k v x)"
  shows "\<exists>es. sorted_wrt (\<lambda>a b. srank (fst a) < srank (fst b)) es \<and> map_of es = trie_contents t \<and>
    qb_map_foreach (trie_map True al e) t func x = Some (fold (\<lambda>(k, v) x. snd (func k (Some v) x)) es x, t)"
proof -
  obtain P h where ok: "trie_ok P h t" using assms(1) by (auto simp: trie_inv_def)
  note sh = trie_okD(1)[OF ok]
  obtain hn where hn: "tr_nodes t h = Some hn" using shapeD(4)[OF sh] by blast
  have h: "tr_header t = Some h" "P h = []" using shapeD(1,3)[OF sh] by auto
  let ?i = "\<lparr>ti_prefix = None, ti_n = Some h, ti_root = Some h\<rparr>"
  have st: "stands t h" "refd h t = t" using hn h by (simp_all add: stands_def refd_def)
  obtain es i' where es: "entries_from {e \<in> entries t. prefix (P h) (fst e) \<and> srank (P h) < srank (fst e)} es" "ti_n i' = None"
    "foreach_loop (trie_map True al e) func ?i t x = Some (fold (\<lambda>(k, v) x. snd (func k (Some v) x)) es x, i', t)"
    using foreach_from[where i = ?i and malloc_ok = True and al = al and e = e and x = x and func = func, OF ok assms(2) hn st(1) hn] st(2) by auto
  have "srank (P h) < srank k" if "(k, v) \<in> entries t" for k v
    unfolding h(2) by (rule srank_prefix) (use entry_key[OF ok that] in \<open>auto simp: trie_key_ok_def\<close>)
  then have all: "{e \<in> entries t. prefix (P h) (fst e) \<and> srank (P h) < srank (fst e)} = entries t" by (auto simp: h(2))
  have "map_of es = trie_contents t"
    by (rule map_of_entries[OF es(1)[unfolded all]]) (rule contents_entries[OF ok, symmetric])
  moreover have "qb_map_foreach (trie_map True al e) t func x = Some (fold (\<lambda>(k, v) x. snd (func k (Some v) x)) es x, t)"
    using es(2,3) h by (simp add: qb_map_foreach_def qb_map_iter_create_def qb_map_iter_free_def trie_map_def trie_iter_create_def trie_iter_free_def)
  ultimately show ?thesis using es(1) by (auto simp: entries_from_def)
qed

text \<open>
  C33: \<^verbatim>\<open>qb_map_foreach\<close> on a trie visits every entry exactly once, in the order of the keys with their characters taken as signed, ends, and leaves the trie exactly as it was, the
  reference counts included.
\<close>

theorem trie_foreach_sorted:
  assumes "trie_inv t" "\<And>k v x. \<not> fst (func k v x)"
  shows "\<exists>es. sorted_wrt (\<lambda>a b. srank (fst a) < srank (fst b)) es \<and> map_of es = trie_contents t \<and>
    qb_map_foreach (trie_map True al e) t func x = Some (fold (\<lambda>(k, v) x. snd (func k (Some v) x)) es x, t)"
  by (rule trie_foreach_entries[OF assms])

lemma fold_collect: "fold (\<lambda>(k, v) x. (k, Some v) # x) es x = rev (map (\<lambda>(k, v). (k, Some v)) es) @ x"
  by (induction es arbitrary: x) (auto simp: split_beta)

lemma ex_trie_two:
  obtains t :: "(nat, nat, nat) trie" where "trie_inv t" "trie_contents t = [''ab'' \<mapsto> 5, ''b'' \<mapsto> 6]"
proof -
  obtain t :: "(nat, nat, nat) trie" where t: "trie_inv t" "trie_contents t = Map.empty" "dom (tr_nodes t) = {1}"
    by (rule trie_create_ok[of "ex_allocs 1" 1]) (simp_all add: ex_allocs_def)
  have "a \<notin> dom (tr_nodes t)" if "a \<ge> 10" for a unfolding t(3) using that by simp
  then have "al_ok (ex_allocs 10) t" by (intro ex_allocs_ok) (auto simp: domIff)
  from trie_put_ok[OF t(1) this, of "''ab''" 5] obtain t1 :: "(nat, nat, nat) trie" where t1: "trie_inv t1" "trie_contents t1 = [''ab'' \<mapsto> 5]" using t(2) by (auto simp: trie_key_ok_def)
  obtain P h where ok: "trie_ok P h t1" using t1(1) by (auto simp: trie_inv_def)
  obtain m where m: "\<forall>a\<in>dom (tr_nodes t1). a < m" using shapeD(2)[OF trie_okD(1)[OF ok]] finite_nat_set_iff_bounded by blast
  have "al_ok (ex_allocs m) t1" by (rule ex_allocs_ok) (use m in \<open>metis domIff leD\<close>)
  from trie_put_ok[OF t1(1) this, of "''b''" 6] show thesis using that t1(2) by (auto simp: trie_key_ok_def)
qed

theorem trie_foreach_sorted_witness:
  "\<exists>(t :: (nat, nat, nat) trie) es. trie_contents t = [''ab'' \<mapsto> 5, ''b'' \<mapsto> 6] \<and> map_of es = trie_contents t \<and>
     qb_map_foreach (trie_map True (ex_allocs 1) 0) t (\<lambda>k v x. (False, (k, v) # x)) [] = Some (rev (map (\<lambda>(k, v). (k, Some v)) es), t)"
proof -
  obtain t :: "(nat, nat, nat) trie" where t: "trie_inv t" "trie_contents t = [''ab'' \<mapsto> 5, ''b'' \<mapsto> 6]" by (rule ex_trie_two)
  obtain es where "map_of es = trie_contents t"
    "qb_map_foreach (trie_map True (ex_allocs 1) 0) t (\<lambda>k v x. (False, (k, v) # x)) [] = Some (fold (\<lambda>(k, v) x. snd (False, (k, Some v) # x)) es [], t)"
    using trie_foreach_sorted[OF t(1), of "\<lambda>k v x. (False, (k, v) # x)" "ex_allocs 1" 0 "[]"] by auto
  then show ?thesis using t(2) by (intro exI[of _ t] exI[of _ es]) (simp add: fold_collect)
qed

text \<open>
  C34: Stepping an iterator with a prefix until it ends visits exactly the entries whose keys begin with the prefix, each once and in the order of the keys, also when the prefix
  ends inside the segment of a node; the trie is left exactly as it was, and freeing the iterator changes nothing. The prefix is not empty.
\<close>

theorem trie_prefix_iteration:
  assumes "trie_inv t" "\<And>k v x. \<not> fst (func k v x)" "pre \<noteq> []"
  shows "\<exists>es i i'. qb_map_pref_iter_create (trie_map True al e) t pre = (Some i, t) \<and>
    sorted_wrt (\<lambda>a b. srank (fst a) < srank (fst b)) es \<and> map_of es = (\<lambda>k. if prefix pre k then trie_contents t k else None) \<and>
    foreach_loop (trie_map True al e) func i t x = Some (fold (\<lambda>(k, v) x. snd (func k (Some v) x)) es x, i', t) \<and>
    qb_map_iter_free (trie_map True al e) i' t = Some ([], t)"
proof -
  obtain P h where ok: "trie_ok P h t" using assms(1) by (auto simp: trie_inv_def)
  note sh = trie_okD(1)[OF ok]
  obtain hn where hn: "tr_nodes t h = Some hn" "tn_parent hn = None" using shapeD(4)[OF sh] by blast
  have h: "tr_header t = Some h" "P h = []" using shapeD(1,3)[OF sh] by auto
  have st: "stands t h" "refd h t = t" using hn h by (simp_all add: stands_def refd_def)
  let ?i = "\<lparr>ti_prefix = Some pre, ti_n = Some h, ti_root = Some h\<rparr>"
  let ?E = "{e \<in> entries t. prefix pre (fst e)}"
  note lp = foreach_unroll[where func = func, OF assms(2)]
  have "\<exists>es i'. entries_from ?E es \<and> ti_n i' = None \<and>
      foreach_loop (trie_map True al e) func ?i t x = Some (fold (\<lambda>(k, v) x. snd (func k (Some v) x)) es x, i', t)"
    using lookup_prefix[OF sh assms(3)]
  proof (elim disjE exE conjE)
    assume n: "trie_lookup t pre False = Some None" "\<forall>q n. tr_nodes t q = Some n \<longrightarrow> \<not> prefix pre (P q)"
    let ?i' = "?i\<lparr>ti_root := None, ti_n := None\<rparr>"
    have "trie_iter_next ?i (refd h t) = Some (None, [], ?i', t)"
      by (rule iter_next_last[OF ok st(1) hn(1)]) (use n(1) hn st(2) in \<open>auto simp: iter_step_def\<close>)
    moreover have "?E = {}" using n(2) entry_iff[OF ok] by auto
    ultimately show ?thesis using lp[of True al e ?i t x] st(2) by (intro exI[of _ "[]"] exI[of _ ?i']) (simp add: entries_from_def)
  next
    fix r rn assume r: "trie_lookup t pre False = Some (Some r)" "tr_nodes t r = Some rn" "\<forall>q m. tr_nodes t q = Some m \<longrightarrow> prefix pre (P q) = prefix (P r) (P q)"
    have E: "?E = {e \<in> entries t. prefix (P r) (fst e)}" using r(3) entry_iff[OF ok] by auto
    have go: ?thesis if step: "iter_step ?i h hn t = Some i'" "ti_n i' = Some q" "ti_root i' = Some r" and q: "tr_nodes t q = Some n" "tn_value n = Some v" "prefix (P r) (P q)"
      and first: "\<And>e. e \<in> ?E \<Longrightarrow> srank (P q) \<le> srank (fst e)" for i' q n v
    proof -
      have ne: "q \<noteq> h" using r(2,3) h(2) assms(3) q(3) by (metis prefix_Nil prefix_order.refl)
      have it: "trie_iter_next ?i (refd h t) = Some (Some (P q, Some v), [], i', refd q t)"
        by (rule trie_iter_next_node[OF ok st(1)]) (use step q ne hn st(2) in auto)
      have sq: "stands t q" using q by (simp add: stands_def)
      obtain es i'' where es: "entries_from {e \<in> entries t. prefix (P r) (fst e) \<and> srank (P q) < srank (fst e)} es" "ti_n i'' = None"
        "foreach_loop (trie_map True al e) func i' (refd q t) (snd (func (P q) (Some v) x)) = Some (fold (\<lambda>(k, v) x. snd (func k (Some v) x)) es (snd (func (P q) (Some v) x)), i'', t)"
        using foreach_from[where i = i' and malloc_ok = True and al = al and e = e and func = func and x = "snd (func (P q) (Some v) x)", OF ok assms(2) r(2) sq q(1,3) step(2,3)] ne by auto
      have "entries_from ?E ((P q, v) # es)"
      proof (rule entries_from_Cons)
        show "(P q, v) \<in> ?E" using E q entry_iff[OF ok] by auto
        show "entries_from {e \<in> ?E. srank (P q) < srank (fst e)} es" unfolding E using es(1) by simp
        show "w = v" if "(P q, w) \<in> ?E" for w using that q(1,2) entries_unique[OF ok, of "P q" v w] entry_iff[OF ok, of "P q" v] by auto
      qed (rule first)
      then show ?thesis using lp[of True al e ?i t x] it st(2) es(2,3) by (intro exI[of _ "(P q, v) # es"] exI[of _ i'']) simp
    qed
    show ?thesis
    proof (cases "tn_value rn")
      case (Some v)
      have "srank (P r) \<le> srank (fst e)" if "e \<in> ?E" for e using that srank_prefix_le unfolding E by auto
      then show ?thesis by (rule go[of "?i\<lparr>ti_root := Some r, ti_n := Some r\<rparr>" r rn v, rotated 6]) (use r hn Some in \<open>auto simp: iter_step_def\<close>)
    next
      case None
      have no: "srank (P r) < srank k" if "(k, w) \<in> entries t" "prefix (P r) k" for k w
      proof -
        have "k \<noteq> P r" using that(1) None r(2) path_inj[OF sh _ r(2)] unfolding entry_iff[OF ok] by fastforce
        then show ?thesis using srank_prefix[OF that(2)] by auto
      qed
      from ok r(2) prefix_order.refl r(2) hn(1) show ?thesis
      proof (rule next_value)
        assume n: "trie_node_next (refd h t) r r False = Some None" "\<And>k v. (k, v) \<in> entries t \<Longrightarrow> prefix (P r) k \<Longrightarrow> \<not> srank (P r) < srank k"
        let ?i' = "?i\<lparr>ti_root := Some r, ti_n := None\<rparr>"
        have "trie_iter_next ?i (refd h t) = Some (None, [], ?i', t)"
          by (rule iter_next_last[OF ok st(1) hn(1)]) (use n(1) r None hn st(2) in \<open>auto simp: iter_step_def\<close>)
        moreover have "?E = {}" unfolding E using n(2) no by auto
        ultimately show ?thesis using lp[of True al e ?i t x] st(2) by (intro exI[of _ "[]"] exI[of _ ?i']) (simp add: entries_from_def)
      next
        fix q n v assume q: "trie_node_next (refd h t) r r False = Some (Some q)" "tr_nodes t q = Some n" "tn_value n = Some v" "prefix (P r) (P q)"
          and first: "\<And>k w. (k, w) \<in> entries t \<Longrightarrow> prefix (P r) k \<Longrightarrow> srank (P r) < srank k \<Longrightarrow> srank (P q) \<le> srank k"
        have "srank (P q) \<le> srank (fst e)" if "e \<in> ?E" for e using that first no unfolding E by (cases e) auto
        then show ?thesis by (rule go[of "?i\<lparr>ti_root := Some r, ti_n := Some q\<rparr>" q n v, rotated 6]) (use q r None hn st(2) in \<open>auto simp: iter_step_def\<close>)
      qed
    qed
  qed
  then obtain es i' where es: "entries_from ?E es" "ti_n i' = None"
    "foreach_loop (trie_map True al e) func ?i t x = Some (fold (\<lambda>(k, v) x. snd (func k (Some v) x)) es x, i', t)" by blast
  have "map_of es = (\<lambda>k. if prefix pre k then trie_contents t k else None)"
    by (rule map_of_entries[OF es(1)]) (auto simp: contents_entries[OF ok])
  moreover have "qb_map_pref_iter_create (trie_map True al e) t pre = (Some ?i, t)" using h by (simp add: qb_map_pref_iter_create_def trie_map_def trie_iter_create_def)
  moreover have "qb_map_iter_free (trie_map True al e) i' t = Some ([], t)" using es(2) by (simp add: qb_map_iter_free_def trie_map_def trie_iter_free_def)
  ultimately show ?thesis using es(1,3) unfolding entries_from_def by blast
qed

theorem trie_prefix_iteration_witness:
  "\<exists>(t :: (nat, nat, nat) trie) i i'. trie_contents t = [''ab'' \<mapsto> 5, ''b'' \<mapsto> 6] \<and> qb_map_pref_iter_create (trie_map True (ex_allocs 1) 0) t ''a'' = (Some i, t) \<and>
     foreach_loop (trie_map True (ex_allocs 1) 0) (\<lambda>k v x. (False, (k, v) # x)) i t [] = Some ([(''ab'', Some 5)], i', t)"
proof -
  obtain t :: "(nat, nat, nat) trie" where t: "trie_inv t" "trie_contents t = [''ab'' \<mapsto> 5, ''b'' \<mapsto> 6]" by (rule ex_trie_two)
  obtain es i i' where es: "qb_map_pref_iter_create (trie_map True (ex_allocs 1) 0) t ''a'' = (Some i, t)"
    "sorted_wrt (\<lambda>a b. srank (fst a) < srank (fst b)) es" "map_of es = (\<lambda>k. if prefix ''a'' k then trie_contents t k else None)"
    "foreach_loop (trie_map True (ex_allocs 1) 0) (\<lambda>k v x. (False, (k, v) # x)) i t [] = Some (fold (\<lambda>(k, v) x. snd (False, (k, Some v) # x)) es [], i', t)"
    using trie_prefix_iteration[OF t(1), of "\<lambda>k v x. (False, (k, v) # x)" "''a''" "ex_allocs 1" 0 "[]"] by auto
  have m: "map_of es = [''ab'' \<mapsto> 5]" unfolding es(3) t(2) by (auto simp: fun_eq_iff)
  have "distinct (map fst es)" using es(2) by (rule sorted_distinct)
  then have "set es = {(''ab'', 5)}" using m by (auto simp: map_of_eq_Some_iff[symmetric] split: if_splits)
  then have "es = [(''ab'', 5)]" using \<open>distinct (map fst es)\<close> by (cases es; cases "tl es") auto
  then show ?thesis using t(2) es(1,4) by (intro exI[of _ t] exI[of _ i] exI[of _ i']) simp
qed

end
