(* ===== verification/Spec2Isabelle.thy ===== *)
theory Spec2Isabelle
  imports Ringbuffer_file Ringbuffer_close Loop_poll_Safe Qblist Skiplist_Iter Ipcs_Safe Log_line Log_blackbox Logger_Deliver Log_thread Trie_Iter
begin

text \<open>
  This is a verification development for libqb, the library of building blocks for client and server
  programs of the ClusterLabs projects. It models the parts of the library that hold its own
  data structures and its scheduling, as functions on explicit states, and proves what a caller
  relies on.

  \<^bold>\<open>The parts of the program and the theories that model them.\<close>

  \<^item> Shared vocabulary: \<open>Prelude\<close> (C integers as words, error numbers, memory as bytes, circular copies)
    and \<open>Cstring\<close> (\<^verbatim>\<open>strcmp\<close> and the order that it decides).
  \<^item> Ring buffer, \<^verbatim>\<open>lib/ringbuffer.c\<close>, \<^verbatim>\<open>lib/ringbuffer_int.h\<close>: \<open>Ringbuffer\<close> has the record
    \<open>qb_ringbuffer\<close> (the two words of the shared header, the shared memory as bytes under its double mapping,
    the flags) and one definition per function (\<open>rb_\<close> on a buffer, \<open>qb_rb_\<close> with the tests for
    \<^verbatim>\<open>NULL\<close>). \<open>Ringbuffer_Queue\<close> relates the memory to a list of chunks and shows each operation on it.
    \<open>Ringbuffer_helper\<close> has the POSIX notifier of \<^verbatim>\<open>lib/ringbuffer_helper.c\<close>, the locale
    \<open>rb_semaphore\<close>, the contract that the buffer relies on, and its interpretation on that notifier.
    \<open>Ringbuffer_file\<close> opens, saves and loads a buffer; \<open>Ringbuffer_close\<close> closes it.
  \<^item> Replacement semaphores, \<^verbatim>\<open>lib/rpl_sem.c\<close>: \<open>Rpl_sem\<close>.
  \<^item> Growing array, \<^verbatim>\<open>lib/array.c\<close>: \<open>Array\<close>, with the locale \<open>indexed_store\<close>. Handle database, \<^verbatim>\<open>lib/hdb.c\<close>: \<open>Hdb\<close>, on top of the array.
  \<^item> Timer list, \<^verbatim>\<open>include/tlist.h\<close>: \<open>Heap_List\<close> (binary heaps in a list) and \<open>Timerlist\<close> (the heap of timers
    with the position that every timer keeps, adding, deleting and expiring; the locale \<open>priority_queue\<close>).
  \<^item> Main loop, \<^verbatim>\<open>lib/loop.c\<close>, \<^verbatim>\<open>lib/loop_job.c\<close>: \<open>Loop\<close> (levels of priority, a round of the loop, jobs).
    Its timers, \<^verbatim>\<open>lib/loop_timerlist.c\<close>: \<open>Loop_timerlist\<close>, which puts the array, the timer list and the loop together.
    Its file descriptors and signals, \<^verbatim>\<open>lib/loop_poll.c\<close> with the driver \<^verbatim>\<open>lib/loop_poll_epoll.c\<close>: \<open>Loop_poll\<close> (the entries in the
    array, the handles that the kernel keeps, signal handlers and their copies, polling and dispatch), \<open>Loop_poll_Inv\<close> (the invariant of the
    entries and the effect of a poll) and \<open>Loop_poll_Safe\<close> (signals, callbacks that call the library, the reachable states).
  \<^item> Intrusive lists, \<^verbatim>\<open>include/qb/qblist.h\<close>: \<open>Qblist\<close>, pointers in one memory. The other theories use plain lists
    where the code uses these lists; the refinement of \<open>Qblist\<close> is what justifies it.
  \<^item> Maps, \<^verbatim>\<open>lib/map.c\<close>, \<^verbatim>\<open>lib/map_int.h\<close>: \<open>Qbmap\<close> has the function table, \<^verbatim>\<open>qb_map_foreach\<close>, the notifiers, and the
    locales \<open>map_store\<close> and \<open>strict_map_store\<close>, the contract of a map. Hash table, \<^verbatim>\<open>lib/hashtable.c\<close>:
    \<open>Hashtable\<close>. Skip list, \<^verbatim>\<open>lib/skiplist.c\<close>: \<open>Skip_Shape\<close> (the order of the nodes at each level, without memory),
    \<open>Skiplist\<close> (the code), \<open>Skiplist_Map\<close> (each operation on the shape) and \<open>Skiplist_Iter\<close> (iteration). Trie, \<^verbatim>\<open>lib/trie.c\<close>:
    \<open>Trie\<close> (the code), \<open>Trie_Inv\<close> (the paths of the nodes and the search), \<open>Trie_Map\<close> (each operation, and the contract of a map) and
    \<open>Trie_Iter\<close> (iteration, with a prefix too).
  \<^item> Inter-process communication, server side: \<open>Ipc_us\<close> (whole messages over stream sockets, credentials), \<open>Ipcs\<close> (\<^verbatim>\<open>lib/ipcs.c\<close>: the
    service, connections and their references, requests, responses, events, flow control, disconnection), \<open>Ipcs_setup\<close> (the life of a service, and the server part of
    \<^verbatim>\<open>lib/ipc_setup.c\<close>), \<open>Ipcs_Inv\<close> (who holds a reference, and that every operation keeps the counters right) and \<open>Ipcs_Safe\<close> (the reachable states).
  \<^item> Logging: \<open>Cbuf\<close> (character buffers with bounds, \<^verbatim>\<open>lib/strlcpy.c\<close>, \<^verbatim>\<open>lib/strlcat.c\<close>, \<^verbatim>\<open>lib/strchrnul.c\<close>), \<open>Log_format\<close>
    (\<^verbatim>\<open>lib/log_format.c\<close>: the line of a target, the saved form of a message), \<open>Log_line\<close> and \<open>Log_roundtrip\<close> (what these two give),
    \<open>Log_blackbox\<close> (\<^verbatim>\<open>lib/log_blackbox.c\<close>, on top of the ring buffer), \<open>Logger\<close> (\<^verbatim>\<open>lib/log.c\<close>, \<^verbatim>\<open>lib/log_dcs.c\<close>: targets, filters, call sites,
    delivery), \<open>Logger_Filter\<close> and \<open>Logger_Deliver\<close> (what the filters select and what a message reaches), and \<open>Log_thread\<close>
    (\<^verbatim>\<open>lib/log_thread.c\<close>: the queue to the worker thread, as whole functions and as steps that interleave).

  \<^bold>\<open>How code becomes definitions.\<close> A struct is a record, a pointer into the heap an address in a map
  (\<^verbatim>\<open>NULL\<close> is \<open>None\<close>), and an operation takes the state and returns the new one. An integer keeps its
  width where the code can reach its bounds. A system call, an allocation, a clock, a random number
  and a callback of the client are arguments of the operation that uses them; what the proofs need of
  them is a hypothesis of the property. A failed assertion and the use of freed memory are values
  (\<open>None\<close>, or a constructor of the outcome), so that their absence is a theorem. Operations are atomic: the
  locks of the library make them so between threads, and the ring buffer's two pointers are each
  written by one side only; in the logging thread the pieces between the locks are the steps. In the IPC server and in the file descriptor
  and signal sources a callback is a list of calls of the library that it makes, and its result; elsewhere callbacks do not call back
  into the structure that calls them.

  \<^bold>\<open>What the groups of lemmas show.\<close> The ring buffer is a queue of byte strings with a bound on their total
  size, in both modes, survives saving and loading, and counts its chunks with its semaphore; a
  failed read changes nothing. The timer list dispatches the due timers in the order of their times,
  and its heap is an invariant of adding and deleting any timer. The loop dispatches every priority
  within three rounds and counts its ready items exactly; with timers no sequence of operations and
  no handle, however old, leads to a failed assertion or a freed timer. List operations do to the
  pointers what they should do to lists. An entry of a file descriptor is on the ready lists exactly once when its state says so, an event reaches the
  entry that its handle means and a deleted entry is not dispatched, whatever the callbacks call; the actions of the signals are those of the registered
  handlers. The hash table, the skip list and the trie are maps; the first two give equal results, the last two iterate alike, and
  iterations visit every entry once. Handles of destroyed objects are refused, and an object is destroyed once. The array keeps its elements apart.
  An IPC server never uses a freed connection or service, frees them when the last reference goes, and hands a bounded number of valid requests to the application per
  dispatch. A log message reaches exactly the targets that the history of the filters selects, its line stays in its buffer, and the black box keeps the newest
  messages and prints them as they were logged; the logging thread writes the records in order and once. Some lemmas state what goes
  wrong: an iteration that is stopped early, the removal of the last entry of a skip list that is
  being iterated, a table of more than \<open>2 ^ 31\<close> entries, a wait for a timer that is far away, a list that was
  spliced, a semaphore whose wait times out, a logging thread that is started again, a signal handler that is deleted while two copies wait.

  \<^bold>\<open>Loops and bounds.\<close> Loops are recursive functions with a measure where they always end. The searches of the
  skip list, the walks of the trie, the loops over intrusive lists, the iteration over a map, the rounds of the main loop, the worker of the logging thread, the
  waits of the semaphores and the
  halving loop of the hash table's constructor may not end on every state; they are partial functions
  in the option type, and the properties state that they return. Loops over system calls run over the list of what these return. There is no fuel. The levels of
  the skip list are bounded by the nine of the code, and the only assumption about its random numbers is that
  they do not stay below a quarter of their range 128 times in a row, where the code's counter overflows.

  \<^bold>\<open>Not modelled.\<close> The transports of the communication (\<^verbatim>\<open>lib/ipc_socket.c\<close>, \<^verbatim>\<open>lib/ipc_shm.c\<close>), which are parameters of the server, the
  client (\<^verbatim>\<open>lib/ipcc.c\<close> and the client part of \<^verbatim>\<open>lib/ipc_setup.c\<close>), the writing of log lines to files and to syslog (\<^verbatim>\<open>lib/log_file.c\<close>,
  \<^verbatim>\<open>lib/log_syslog.c\<close>), the drivers \<^verbatim>\<open>lib/loop_poll_poll.c\<close> and \<^verbatim>\<open>lib/loop_poll_kqueue.c\<close>, the utilities (\<^verbatim>\<open>lib/util.c\<close>, \<^verbatim>\<open>lib/unix.c\<close>), the System V
  variant of the notifier and the dump of the trie: mostly system calls, or second variants of what is modelled. The programs (\<^verbatim>\<open>tools\<close>,
  \<^verbatim>\<open>doxygen2man\<close>), the examples and the tests only call the library.
\<close>

section \<open>Properties that span components\<close>

text \<open>What a sequence of operations asks of its environment does not change what a map answers.\<close>

lemma spec_map_step_env: "spec_map_step (map_map_op g (\<lambda>v. v) op) f = spec_map_step op f"
  by (cases op) simp_all

lemma spec_map_run_env: "spec_map_run (map (map_map_op g (\<lambda>v. v)) ops) f = spec_map_run ops f"
  by (induction ops arbitrary: f) (simp_all add: spec_map_step_env split_beta)

text \<open>
  C31: The hash table and the skip list cannot be told apart through the map interface: from the same
  contents, any sequence of puts, gets, removals and counts gives the same results on both and ends
  with the same contents.
\<close>

theorem hashtable_skiplist_equivalent:
  assumes "ht_inv None t" "sl_inv s" "ht_contents t = sl_contents s"
    and "run_ok ht_env_ok (\<lambda>_. True) False (hashtable_map alloc1 e) (map (map_map_op fst (\<lambda>v. v)) ops) t"
    and "run_ok skip_env_ok (\<lambda>_. True) False (skiplist_map alloc2 e') (map (map_map_op snd (\<lambda>v. v)) ops) s"
  shows "\<exists>rs t' s'. map_run (hashtable_map alloc1 e) (map (map_map_op fst (\<lambda>v. v)) ops) t = Some (rs, t') \<and>
           map_run (skiplist_map alloc2 e') (map (map_map_op snd (\<lambda>v. v)) ops) s = Some (rs, s') \<and>
           ht_contents t' = sl_contents s'"
  using ht.run_total[OF assms(1,4)] sl.run_total[OF assms(2,5)] assms(3) by (auto simp: spec_map_run_env)

theorem hashtable_skiplist_equivalent_witness:
  "\<exists>(s :: (nat, nat, nat) skiplist) rs t' s'. qb_skiplist_create True (Some 1) (Some 1) = Some s \<and>
     map_run (hashtable_map True 0) [MPut (Some 1) ''a'' 5, MRm ''a'', MCount] ex_ht = Some (rs, t') \<and>
     map_run (skiplist_map True 0) [MPut (ex_skip_env 2) ''a'' 5, MRm ''a'', MCount] s = Some (rs, s')"
proof -
  obtain s :: "(nat, nat, nat) skiplist" where s: "qb_skiplist_create True (Some 1) (Some 1) = Some s" "sl_inv s" "sl_contents s = Map.empty"
    "dom (sl_nodes s) = {1}" "dom (sl_arrays s) = {1}" using skiplist_create_inv by blast
  have "2 \<notin> dom (sl_nodes s)" "2 \<notin> dom (sl_arrays s)" unfolding s(4,5) by simp_all
  then have env: "skip_env_ok (ex_skip_env 2) s" by (intro ex_skip_env_ok) blast+
  let ?ops = "[MPut (Some (1 :: nat), ex_skip_env 2) ''a'' 5, MRm ''a'', MCount]"
  have "ht_contents ex_ht = sl_contents s" using ex_ht_contents s(3) by simp
  moreover have "run_ok skip_env_ok (\<lambda>_. True) False (skiplist_map True 0) (map (map_map_op snd (\<lambda>v. v)) ?ops) s"
    using env by (simp split: option.splits)
  moreover have "run_ok ht_env_ok (\<lambda>_. True) False (hashtable_map True 0) (map (map_map_op fst (\<lambda>v. v)) ?ops) ex_ht"
    by (simp add: ht_env_ok_def split: option.splits) (simp add: ex_ht_def)
  ultimately show ?thesis using hashtable_skiplist_equivalent[OF ex_ht_inv s(2), of True 0 ?ops True 0] s(1) by auto
qed

text \<open>
  On keys of ASCII characters the order of the trie, with signed characters, is that of \<^verbatim>\<open>strcmp\<close>.
\<close>

definition ascii :: "string \<Rightarrow> bool" where
  "ascii k \<longleftrightarrow> (\<forall>c\<in>set k. (of_char c :: nat) < 128)"

lemma ascii_order: "ascii a \<Longrightarrow> ascii b \<Longrightarrow> srank a < srank b \<longleftrightarrow> strcmp a b < 0"
  by (induction a b rule: strcmp.induct) (auto simp: ascii_def TRIE_CHAR2INDEX_def)

lemma sorted_entries_unique:
  assumes es: "sorted_wrt (\<lambda>a b. srank (fst a) < srank (fst b)) es" and es': "sorted_wrt (\<lambda>a b. srank (fst a) < srank (fst b)) es'"
    and m: "map_of es = map_of es'"
  shows "es = es'"
proof -
  have set: "set es = set es'"
    using map_of_eq_Some_iff[OF sorted_distinct[OF es]] map_of_eq_Some_iff[OF sorted_distinct[OF es']] m by auto
  have "map (\<lambda>e. srank (fst e)) es = map (\<lambda>e. srank (fst e)) es'"
    using es es' set by (intro strict_sorted_equal) (auto simp: sorted_wrt_map)
  then have "map srank (map fst es) = map srank (map fst es')" by (simp add: comp_def)
  then have "map fst es = map fst es'" by (rule map_injective) (simp add: inj_def)
  moreover have "inj_on fst (set es \<union> set es')" using sorted_distinct[OF es] set by (simp add: distinct_map)
  ultimately show ?thesis by (simp add: inj_on_map_eq_map)
qed

text \<open>
  C35: A trie and a skip list with the same entries, whose keys have only ASCII characters, are iterated alike: \<^verbatim>\<open>qb_map_foreach\<close> hands the same keys and values in the
  same order to its function, and leaves both as they were.
\<close>

theorem trie_skiplist_iterate_alike:
  assumes "trie_inv t" "sl_inv s" "trie_contents t = sl_contents s" "\<And>k. k \<in> dom (trie_contents t) \<Longrightarrow> ascii k" "\<And>k v x. \<not> fst (func k v x)"
  shows "\<exists>y. qb_map_foreach (trie_map True al e) t func x = Some (y, t) \<and> qb_map_foreach (skiplist_map True e') s func x = Some (y, s)"
proof -
  obtain es where es: "sorted_wrt (\<lambda>a b. srank (fst a) < srank (fst b)) es" "map_of es = trie_contents t"
    "qb_map_foreach (trie_map True al e) t func x = Some (fold (\<lambda>(k, v) x. snd (func k (Some v) x)) es x, t)"
    using trie_foreach_entries[where func = func, OF assms(1,5)] by blast
  obtain es' where es': "sorted_entries es'" "map_of es' = sl_contents s"
    "qb_map_foreach (skiplist_map True e') s func x = Some (fold (\<lambda>(k, v) x. snd (func k (Some v) x)) es' x, s)"
    using skip_foreach_entries[where func = func, OF assms(2,5)] by blast
  have "ascii (fst p)" if "p \<in> set es'" for p
  proof -
    have "fst p \<in> dom (map_of es')" using that by (auto simp: dom_map_of_conv_image_fst)
    then show ?thesis unfolding es'(2) assms(3)[symmetric] by (rule assms(4))
  qed
  then have "sorted_wrt (\<lambda>a b. srank (fst a) < srank (fst b)) es'"
    by (intro sorted_wrt_mono_rel[OF _ es'(1)[unfolded sorted_entries_def]]) (simp add: ascii_order)
  then have "es = es'" using sorted_entries_unique es(1,2) es'(2) assms(3) by metis
  then show ?thesis using es(3) es'(3) by blast
qed

theorem trie_skiplist_iterate_alike_witness:
  "\<exists>(t :: (nat, nat, nat) trie) (s :: (nat, nat, nat) skiplist) y. trie_contents t = [''a'' \<mapsto> 5] \<and> sl_contents s = [''a'' \<mapsto> 5] \<and>
     qb_map_foreach (trie_map True (ex_allocs 1) 0) t (\<lambda>k v x. (False, (k, v) # x)) [] = Some (y, t) \<and>
     qb_map_foreach (skiplist_map True 0) s (\<lambda>k v x. (False, (k, v) # x)) [] = Some (y, s)"
proof -
  obtain s :: "(nat, nat, nat) skiplist" where s: "sl_inv s" "sl_contents s = [''a'' \<mapsto> 5]" by (rule ex_single)
  obtain t0 :: "(nat, nat, nat) trie" where t0: "trie_inv t0" "trie_contents t0 = Map.empty" "dom (tr_nodes t0) = {1}"
    by (rule trie_create_ok[of "ex_allocs 1" 1]) (simp_all add: ex_allocs_def)
  have "a \<notin> dom (tr_nodes t0)" if "a \<ge> 10" for a unfolding t0(3) using that by simp
  then have "al_ok (ex_allocs 10) t0" by (intro ex_allocs_ok) (auto simp: domIff)
  from trie_put_ok[OF t0(1) this, of "''a''" 5] obtain t :: "(nat, nat, nat) trie" where t: "trie_inv t" "trie_contents t = [''a'' \<mapsto> 5]"
    using t0(2) by (auto simp: trie_key_ok_def)
  have "\<exists>y. qb_map_foreach (trie_map True (ex_allocs 1) 0) t (\<lambda>k v x. (False, (k, v) # x)) [] = Some (y, t) \<and>
      qb_map_foreach (skiplist_map True 0) s (\<lambda>k v x. (False, (k, v) # x)) [] = Some (y, s)"
    by (rule trie_skiplist_iterate_alike[OF t(1) s(1)]) (use t(2) s(2) in \<open>auto simp: ascii_def split: if_splits\<close>)
  then show ?thesis using t(2) s(2) by blast
qed

end
